(* ===== verification/Prelude.thy ===== *)
theory Prelude
  imports Main "HOL-Library.Word"
begin

text \<open>
  Shared vocabulary of the development.  The simulator stores vector values as arrays of
  \<^verbatim>\<open>unsigned long\<close> (64 bits on the modelled target, \<^verbatim>\<open>BITS_PER_WORD = 64\<close>); an array is a
  list of \<open>64 word\<close> here and is called a plane.  This theory holds the masks the C++ code
  writes with shifts, the bit view of a plane and its laws, the number a plane encodes, and the
  counted loop in the option monad (\<open>None\<close> is an aborted run: a failed \<^verbatim>\<open>assert\<close>, an
  \<^verbatim>\<open>exit\<close>, or a read or write the code must not do).
\<close>

unbundle bit_operations_syntax

named_theorems plane_simps
named_theorems bit4_simps

type_synonym ulong = "64 word"
type_synonym plane = "64 word list"

abbreviation BITS_PER_WORD :: nat where
  "BITS_PER_WORD \<equiv> 64"

section \<open>Masks\<close>

text \<open>
  \<open>lomask n\<close> is \<^verbatim>\<open>(1UL << n) - 1UL\<close>, \<open>himask n\<close> is \<^verbatim>\<open>-1UL << n\<close> and \<open>topmask n\<close> is
  \<^verbatim>\<open>-1UL >> (BITS_PER_WORD - n)\<close>.  A C++ shift by the full word width is undefined; the
  definitions below are only used with \<open>n < 64\<close>, as the guards of the code have it, or under
  an explicit check.
\<close>

definition lomask :: "nat \<Rightarrow> ulong" where
  "lomask n = push_bit n 1 - 1"

definition himask :: "nat \<Rightarrow> ulong" where
  "himask n = push_bit n (- 1)"

definition topmask :: "nat \<Rightarrow> ulong" where
  "topmask n = drop_bit (64 - n) (- 1)"

lemma lomask_eq_mask: "lomask n = mask n"
  by (simp add: lomask_def mask_eq_exp_minus_1 push_bit_eq_mult)

lemma bit_lomask [simp]: "bit (lomask n) i \<longleftrightarrow> i < n \<and> i < 64"
  by (auto simp: lomask_eq_mask bit_mask_iff)

lemma bit_himask [simp]: "bit (himask n) i \<longleftrightarrow> n \<le> i \<and> i < 64"
  by (auto simp: himask_def bit_simps)

lemma bit_topmask [simp]: "n \<le> 64 \<Longrightarrow> bit (topmask n) i \<longleftrightarrow> i < n"
  by (auto simp: topmask_def bit_simps)

lemma bit_ulong_lt: "bit (w :: ulong) i \<Longrightarrow> i < 64"
  using bit_imp_le_length [of w i] by simp

lemma and_lomask_take_bit: "w AND lomask n = take_bit n w"
  by (simp add: lomask_eq_mask take_bit_eq_mask)

lemma uint_and_lomask: "uint (w AND lomask n) = take_bit n (uint w)"
  by (simp add: and_lomask_take_bit unsigned_take_bit_eq)

lemma ulong_eq_iff: "(v :: ulong) = w \<longleftrightarrow> (\<forall>i < 64. bit v i = bit w i)"
  using bit_word_eqI [of v w] by auto

lemma ulong_eq_0_iff: "(w :: ulong) = 0 \<longleftrightarrow> (\<forall>i < 64. \<not> bit w i)"
  by (simp add: ulong_eq_iff)

lemma ulong_eq_1s_iff: "(w :: ulong) = - 1 \<longleftrightarrow> (\<forall>i < 64. bit w i)"
  by (simp add: ulong_eq_iff)

section \<open>Planes\<close>

text \<open>The word count \<^verbatim>\<open>(size_ + BITS_PER_WORD - 1) / BITS_PER_WORD\<close>.\<close>

definition words_for :: "nat \<Rightarrow> nat" where
  "words_for n = (n + 63) div 64"

text \<open>Bit \<open>i\<close> of a plane: word \<^verbatim>\<open>i / BITS_PER_WORD\<close>, offset \<^verbatim>\<open>i % BITS_PER_WORD\<close>.\<close>

definition pbit :: "plane \<Rightarrow> nat \<Rightarrow> bool" where
  "pbit ws i = bit (ws ! (i div 64)) (i mod 64)"

lemma words_for_0 [simp]: "words_for 0 = 0"
  by (simp add: words_for_def)

lemma words_for_small: "0 < n \<Longrightarrow> n \<le> 64 \<Longrightarrow> words_for n = 1"
  unfolding words_for_def by (rule div_nat_eqI) simp_all

lemma words_for_gt1: "64 < n \<Longrightarrow> 1 < words_for n"
  unfolding words_for_def by arith

lemma div_less_words_for: "i < n \<Longrightarrow> i div 64 < words_for n"
  unfolding words_for_def by arith

lemma words_for_bound:
  assumes "i < words_for n"
  shows "i * 64 < n"
proof -
  have "Suc i * 64 \<le> words_for n * 64" using assms by (intro mult_le_mono1) simp
  also have "\<dots> \<le> n + 63" unfolding words_for_def by (rule div_times_less_eq_dividend)
  finally show ?thesis by simp
qed

lemma words_for_tail:
  "words_for n = (if n mod 64 = 0 then n div 64 else Suc (n div 64))"
proof -
  have "n + 63 = (n mod 64 + 63) + 64 * (n div 64)" by simp
  then have "words_for n = n div 64 + (n mod 64 + 63) div 64"
    unfolding words_for_def by (metis div_mult_self2 zero_neq_numeral)
  moreover have "(n mod 64 + 63) div 64 = 1" if "n mod 64 \<noteq> 0"
    using that by (intro div_nat_eqI) simp_all
  ultimately show ?thesis by simp
qed

lemma words_for_step: "0 < n \<Longrightarrow> words_for n = Suc (words_for (n - 64))"
proof (cases "n \<le> 64")
  case False
  then have "n + 63 - 64 = n - 64 + 63" by simp
  with False show ?thesis using le_div_geq [of 64 "n + 63"] by (simp add: words_for_def)
qed (simp add: words_for_small)

text \<open>The number of bits used in the last word.\<close>

lemma last_word_bits:
  assumes "0 < n"
  obtains t where "n = 64 * (words_for n - 1) + t" and "0 < t" and "t \<le> 64" and "n mod 64 = t mod 64"
proof (cases "n mod 64 = 0")
  case True
  then obtain m where m: "n = 64 * Suc m" using assms by (metis dvdE dvd_eq_mod_eq_0 gr0_implies_Suc
        mult_0_right not_gr0)
  then have "words_for n - 1 = m" by (simp add: words_for_tail)
  with m that [of 64] True show thesis by simp
next
  case False
  then have "words_for n - 1 = n div 64" by (simp add: words_for_tail)
  with False that [of "n mod 64"] show thesis by simp
qed

lemma words_for_mult_ge: "n \<le> words_for n * 64"
proof -
  have "n = n mod 64 + n div 64 * 64" by simp
  moreover have "n mod 64 < 64" by simp
  ultimately show ?thesis unfolding words_for_tail by (auto split: if_splits)
qed

lemma pbit_small: "i < 64 \<Longrightarrow> pbit ws i = bit (ws ! 0) i"
  by (simp add: pbit_def)

lemma pbit_Cons:
  "pbit (w # ws) i = (if i < 64 then bit w i else pbit ws (i - 64))"
proof (cases "i < 64")
  case False
  then have "i div 64 = Suc ((i - 64) div 64)" and "i mod 64 = (i - 64) mod 64"
    by (simp_all add: le_div_geq le_mod_geq)
  with False show ?thesis by (simp add: pbit_def)
qed (simp add: pbit_def)

lemma pbit_replicate: "i < 64 * n \<Longrightarrow> pbit (replicate n w) i = bit w (i mod 64)"
  by (simp add: pbit_def less_mult_imp_div_less mult.commute)

lemma pbit_map:
  "i < 64 * length ws \<Longrightarrow> pbit (map f ws) i = bit (f (ws ! (i div 64))) (i mod 64)"
  by (simp add: pbit_def less_mult_imp_div_less mult.commute)

lemma pbit_map2:
  "i < 64 * length ws \<Longrightarrow> length vs = length ws \<Longrightarrow>
   pbit (map2 f vs ws) i = bit (f (vs ! (i div 64)) (ws ! (i div 64))) (i mod 64)"
  by (simp add: pbit_def less_mult_imp_div_less mult.commute)

lemma pbit_update:
  "k < length ws \<Longrightarrow>
   pbit (ws[k := w]) i = (if i div 64 = k then bit w (i mod 64) else pbit ws i)"
  by (simp add: pbit_def nth_list_update)

lemma less_mult_64: "i div 64 < n \<Longrightarrow> i < 64 * (n :: nat)"
  by arith

lemma plane_eq_iff:
  "length vs = length ws \<Longrightarrow> vs = ws \<longleftrightarrow> (\<forall>i < 64 * length ws. pbit vs i = pbit ws i)"
proof
  assume len: "length vs = length ws" and eq: "\<forall>i < 64 * length ws. pbit vs i = pbit ws i"
  show "vs = ws"
  proof (rule nth_equalityI [OF len])
    fix k assume k: "k < length vs"
    have "bit (vs ! k) j = bit (ws ! k) j" if "j < 64" for j
      using eq [rule_format, of "64 * k + j"] k len that by (simp add: pbit_def)
    then show "vs ! k = ws ! k" by (simp add: ulong_eq_iff)
  qed
qed simp

text \<open>
  A loop over the whole words of a vector followed by the masked last word visits exactly the bits
  below the width.
\<close>

lemma whole_words_and_tail:
  "(\<forall>k < n div 64. \<forall>j < 64. Q k j) \<and> (0 < n mod 64 \<longrightarrow> (\<forall>j < n mod 64. Q (n div 64) j))
   \<longleftrightarrow> (\<forall>i < n. Q (i div 64) (i mod (64 :: nat)))"
proof
  assume L: "(\<forall>k < n div 64. \<forall>j < 64. Q k j) \<and> (0 < n mod 64 \<longrightarrow> (\<forall>j < n mod 64. Q (n div 64) j))"
  show "\<forall>i < n. Q (i div 64) (i mod 64)"
  proof (intro allI impI)
    fix i assume i: "i < n"
    then have "i div 64 \<le> n div 64" by (simp add: div_le_mono)
    then consider "i div 64 < n div 64" | "i div 64 = n div 64" by linarith
    then show "Q (i div 64) (i mod 64)"
    proof cases
      case 1
      then show ?thesis using L by simp
    next
      case 2
      then have "i mod 64 < n mod 64"
        using i by (metis div_mult_mod_eq nat_add_left_cancel_less)
      with 2 L show ?thesis by auto
    qed
  qed
next
  assume R: "\<forall>i < n. Q (i div 64) (i mod 64)"
  have "Q k j" if "64 * k + j < n" "j < 64" for k j
    using R [rule_format, OF that(1)] that(2) by simp
  moreover have "64 * k + j < n" if "k < n div 64" "j < 64" for k j
  proof -
    have "64 * Suc k \<le> 64 * (n div 64)" using that(1) by (intro mult_le_mono2) simp
    also have "\<dots> \<le> n" by (rule times_div_less_eq_dividend)
    finally show ?thesis using that(2) by simp
  qed
  moreover have "64 * (n div 64) + j < n" if "j < n mod 64" for j
    using that by (metis mult_div_mod_eq nat_add_left_cancel_less)
  moreover have "j < 64" if "j < n mod 64" for j
    using that by (meson less_trans mod_less_divisor zero_less_numeral)
  ultimately show "(\<forall>k < n div 64. \<forall>j < 64. Q k j)
      \<and> (0 < n mod 64 \<longrightarrow> (\<forall>j < n mod 64. Q (n div 64) j))" by blast
qed

lemma mod_64_le [simp]: "n mod 64 \<le> (64 :: nat)"
  by simp

lemma masked_eq_iff:
  "n \<le> 64 \<Longrightarrow> (v AND lomask n) = (w AND lomask n) \<longleftrightarrow> (\<forall>j < n. bit v j = bit w j)"
  by (simp add: ulong_eq_iff bit_and_iff) (meson less_le_trans)

lemma masked_eq_0_iff: "n \<le> 64 \<Longrightarrow> w AND topmask n = 0 \<longleftrightarrow> (\<forall>j < n. \<not> bit w j)"
  by (simp add: ulong_eq_0_iff bit_and_iff) (meson less_le_trans)

text \<open>
  A transfer loop moves as many bits as the source word, the destination word and the remaining count
  allow.
\<close>

lemma trans_fits:
  "a < 64 \<Longrightarrow> b < 64 \<Longrightarrow> 0 < c \<Longrightarrow> t = min c (min (64 - a) (64 - b)) \<Longrightarrow>
   0 < t \<and> t \<le> c \<and> a + t \<le> 64 \<and> b + t \<le> (64 :: nat)"
  by auto

section \<open>The number a plane encodes\<close>

fun pval :: "plane \<Rightarrow> int" where
  "pval [] = 0"
| "pval (w # ws) = uint w + 2 ^ 64 * pval ws"

lemma pval_nonneg [simp]: "0 \<le> pval ws"
  by (induction ws) auto

lemma pval_append: "pval (vs @ ws) = pval vs + 2 ^ (64 * length vs) * pval ws"
  by (induction vs) (simp_all add: algebra_simps power_add)

lemma pval_replicate_0 [simp]: "pval (replicate n 0) = 0"
  by (induction n) simp_all

lemma uint_ulong_lt: "uint (w :: ulong) < 2 ^ 64"
  using uint_lt2p [of w] by simp

lemma pval_lt: "pval ws < 2 ^ (64 * length ws)"
proof (induction ws)
  case (Cons w ws)
  have "uint w + 2 ^ 64 * pval ws < 2 ^ 64 * (pval ws + 1)"
    using uint_ulong_lt [of w] by simp
  also have "\<dots> \<le> 2 ^ 64 * 2 ^ (64 * length ws)"
    using Cons.IH by (intro mult_left_mono) simp_all
  finally show ?case by (simp add: power_add)
qed simp

lemma bit_pval: "bit (pval ws) i \<longleftrightarrow> i < 64 * length ws \<and> pbit ws i"
proof (induction ws arbitrary: i)
  case (Cons w ws)
  have split: "pval (w # ws) = take_bit 64 (uint w) OR push_bit 64 (pval ws)"
  proof -
    have "pval (w # ws) = take_bit 64 (uint w) + push_bit 64 (pval ws)"
      using uint_ulong_lt [of w]
      by (simp add: push_bit_eq_mult take_bit_int_eq_self mult.commute)
    also have "\<dots> = take_bit 64 (uint w) OR push_bit 64 (pval ws)"
      by (rule disjunctive_add) (auto simp: bit_simps)
    finally show ?thesis .
  qed
  show ?case
    unfolding split using Cons.IH [of "i - 64"]
    by (auto simp: bit_simps pbit_Cons)
qed simp

lemma pval_inj: "length vs = length ws \<Longrightarrow> pval vs = pval ws \<Longrightarrow> vs = ws"
  by (simp add: plane_eq_iff) (metis bit_pval)

section \<open>Counted loops that may abort\<close>

fun for_each :: "('i \<Rightarrow> 's \<Rightarrow> 's option) \<Rightarrow> 'i list \<Rightarrow> 's \<Rightarrow> 's option" where
  "for_each f [] s = Some s"
| "for_each f (i # is) s = Option.bind (f i s) (for_each f is)"

lemma for_each_append:
  "for_each f (is @ js) s = Option.bind (for_each f is s) (for_each f js)"
  by (induction "is" arbitrary: s) (auto split: bind_splits)

lemma for_upto_rule:
  assumes "P 0 s"
    and "\<And>i s. i < n \<Longrightarrow> P i s \<Longrightarrow> \<exists>s'. f i s = Some s' \<and> P (Suc i) s'"
  shows "\<exists>s'. for_each f [0..<n] s = Some s' \<and> P n s'"
  using assms(2)
proof (induction n)
  case 0
  then show ?case using assms(1) by simp
next
  case (Suc n)
  then obtain s1 where "for_each f [0..<n] s = Some s1" "P n s1" by fastforce
  moreover from Suc.prems [of n s1] \<open>P n s1\<close> obtain s2 where "f n s1 = Some s2" "P (Suc n) s2"
    by blast
  ultimately show ?case by (simp add: for_each_append)
qed

lemma for_each_none:
  assumes "i \<in> set is" and "\<And>s. f i s = None"
  shows "for_each f is s = None"
  using assms
proof (induction "is" arbitrary: s)
  case (Cons j js)
  then show ?case by (cases "f j s") auto
qed simp

lemma for_each_cong:
  "(\<And>i s. i \<in> set is \<Longrightarrow> f i s = g i s) \<Longrightarrow> for_each f is s = for_each g is s"
  by (induction "is" arbitrary: s) (auto cong: Option.bind_cong)

lemma for_each_map: "for_each f (map g is) = for_each (\<lambda>i. f (g i)) is"
  by (induction "is") (rule ext, simp)+

lemma for_each_shift: "for_each f [lo..<lo + n] s = for_each (\<lambda>i. f (lo + i)) [0..<n] s"
proof -
  have "[lo..<lo + n] = map (\<lambda>i. lo + i) [0..<n]" by (induction n) simp_all
  then show ?thesis by (simp add: for_each_map)
qed

end
