(* ===== verification/Carry.thy ===== *)
theory Carry
  imports Prelude
begin

text \<open>
  The carry primitives of the wide arithmetic: \<^verbatim>\<open>add_with_carry\<close>, \<^verbatim>\<open>multiply_with_carry\<close> and
  \<^verbatim>\<open>multiply_add_with_carry\<close> of \<^verbatim>\<open>vvp/vvp_net.h\<close> (each in the 128-bit and in the portable
  variant), and the \<^verbatim>\<open>vvp_vector2_t\<close> helpers \<^verbatim>\<open>add_carry\<close> and \<^verbatim>\<open>multiply_long\<close> of
  \<^verbatim>\<open>vvp/vvp_net.cc\<close>.  The lemmas show that each returns the exact sum or product as a pair of
  words, so that the variants agree.
\<close>

section \<open>Word carry primitives\<close>

definition add_with_carry :: "ulong \<Rightarrow> ulong \<Rightarrow> ulong \<Rightarrow> ulong \<times> ulong" where
  "add_with_carry a b carry =
    (let sum = a + b; result = sum + carry
     in (result, of_bool (sum < a) OR of_bool (result < sum)))"

text \<open>The variant for compilers with a native 128-bit product.\<close>

definition multiply_with_carry :: "ulong \<Rightarrow> ulong \<Rightarrow> ulong \<times> ulong" where
  "multiply_with_carry a b =
    (let product = (ucast a :: 128 word) * ucast b
     in (ucast product, ucast (drop_bit 64 product)))"

text \<open>The half-word mask \<^verbatim>\<open>(1UL << (CPU_WORD_BITS/2)) - 1\<close> of both portable products.\<close>

definition word_mask :: ulong where
  "word_mask = push_bit 32 1 - 1"

text \<open>The portable half-word variant of \<^verbatim>\<open>vvp_net.cc\<close>.\<close>

definition multiply_with_carry_portable :: "ulong \<Rightarrow> ulong \<Rightarrow> ulong \<times> ulong" where
  "multiply_with_carry_portable a b =
    (let m = word_mask;
         a0 = a AND m; a1 = drop_bit 32 a AND m;
         b0 = b AND m; b1 = drop_bit 32 b AND m;
         tmp = a0 * b0; r00 = tmp AND m; c00 = drop_bit 32 tmp AND m;
         tmp = a0 * b1; r01 = tmp AND m; c01 = drop_bit 32 tmp AND m;
         tmp = a1 * b0; r10 = tmp AND m; c10 = drop_bit 32 tmp AND m;
         tmp = a1 * b1; r11 = tmp AND m; c11 = drop_bit 32 tmp AND m;
         r1 = c00 + r01 + r10;
         r2 = drop_bit 32 r1 AND m;
         r1 = r1 AND m;
         r2 = r2 + (c01 + c10 + r11);
         r3 = drop_bit 32 r2 AND m;
         r2 = r2 AND m;
         r3 = r3 + c11;
         r3 = r3 AND m
     in (push_bit 32 r1 + r00, push_bit 32 r3 + r2))"

definition multiply_add_with_carry :: "ulong \<Rightarrow> ulong \<Rightarrow> ulong \<Rightarrow> ulong \<Rightarrow> ulong \<times> ulong" where
  "multiply_add_with_carry a b addend carry =
    (let product = (ucast a :: 128 word) * ucast b + ucast addend + ucast carry
     in (ucast product, ucast (drop_bit 64 product)))"

definition multiply_add_with_carry_portable ::
  "ulong \<Rightarrow> ulong \<Rightarrow> ulong \<Rightarrow> ulong \<Rightarrow> ulong \<times> ulong" where
  "multiply_add_with_carry_portable a b addend carry =
    (let (low, high) = multiply_with_carry_portable a b;
         overflow = 0;
         (low, overflow) = add_with_carry low addend overflow;
         high = high + overflow;
         overflow = 0;
         (low, overflow) = add_with_carry low carry overflow
     in (low, high + overflow))"

text \<open>The carry helper of \<^verbatim>\<open>vvp_vector2_t\<close>, with its overflow tests against \<^verbatim>\<open>ULONG_MAX\<close>.\<close>

definition add_carry :: "ulong \<Rightarrow> ulong \<Rightarrow> ulong \<Rightarrow> ulong \<times> ulong" where
  "add_carry a b carry =
    (let out0 = carry;
         c0 = (if - 1 - out0 < a then 1 else 0);
         out1 = out0 + a;
         c1 = (if - 1 - out1 < b then c0 + 1 else c0)
     in (out1 + b, c1))"

definition multiply_long :: "ulong \<Rightarrow> ulong \<Rightarrow> ulong \<times> ulong" where
  "multiply_long a b =
    (let tmpa = a AND word_mask; tmpb = b AND word_mask;
         res0 = tmpa * tmpb;
         res1 = drop_bit 32 res0;
         res0 = res0 AND word_mask;
         tmpa = drop_bit 32 a AND word_mask;
         res1 = res1 + tmpa * tmpb;
         res2 = drop_bit 32 res1;
         res1 = res1 AND word_mask;
         tmpa = a AND word_mask;
         tmpb = drop_bit 32 b AND word_mask;
         res1 = res1 + tmpa * tmpb;
         res2 = res2 + drop_bit 32 res1;
         res3 = drop_bit 32 res2;
         res1 = res1 AND word_mask;
         res2 = res2 AND word_mask;
         tmpa = drop_bit 32 a AND word_mask;
         res2 = res2 + tmpa * tmpb;
         res3 = res3 + drop_bit 32 res2;
         res2 = res2 AND word_mask
     in (push_bit 32 res1 OR res0, push_bit 32 res3 OR res2))"

section \<open>The carry primitives compute exact sums and products\<close>

lemma uint_add_ulong: "uint (a + b :: ulong) = (uint a + uint b) mod 2 ^ 64"
  by (simp add: uint_word_ariths)

lemma add_with_carry_exact:
  assumes "uint carry \<le> 1" and "add_with_carry a b carry = (r, c)"
  shows "uint r + 2 ^ 64 * uint c = uint a + uint b + uint carry" and "uint c \<le> 1"
proof -
  define s where "s = a + b"
  have s: "uint s = uint a + uint b - 2 ^ 64 * of_bool (s < a)"
    unfolding s_def using uint_ulong_lt [of b]
    by (auto simp: word_less_def uint_plus_if_size word_size)
  have r: "uint (s + carry) = uint s + uint carry - 2 ^ 64 * of_bool (s + carry < s)"
    using assms(1) by (auto simp: word_less_def uint_plus_if_size word_size)
  have rc: "r = s + carry" "c = of_bool (s < a) OR of_bool (s + carry < s)"
    using assms(2) by (auto simp add: add_with_carry_def Let_def s_def)
  have "\<not> (s < a \<and> s + carry < s)"
  proof
    assume "s < a \<and> s + carry < s"
    then have "uint (s + carry) = uint a + uint b + uint carry - 2 * 2 ^ 64" using r s by simp
    moreover have "0 \<le> uint (s + carry)" by simp
    ultimately show False using assms(1) uint_ulong_lt [of a] uint_ulong_lt [of b] by linarith
  qed
  then have c: "uint c = of_bool (s < a) + of_bool (s + carry < s)"
    unfolding rc by auto
  show "uint r + 2 ^ 64 * uint c = uint a + uint b + uint carry"
    using s r c rc(1) by simp
  show "uint c \<le> 1" using c \<open>\<not> (s < a \<and> s + carry < s)\<close> by auto
qed

text \<open>Halves of a word, and schoolbook multiplication in base \<open>2 ^ 32\<close>.\<close>

lemma unat_low_half: "unat (w AND word_mask) = unat w mod 2 ^ 32"
  using and_lomask_take_bit [of w 32]
  by (simp add: word_mask_def lomask_def take_bit_eq_mod unat_mod_distrib)

lemma unat_drop_half: "unat (drop_bit 32 w :: ulong) = unat w div 2 ^ 32"
  by (simp add: drop_bit_eq_div unat_div_distrib)

lemma unat_ulong_lt: "unat (w :: ulong) < 2 ^ 64"
  using unsigned_less [of w] by simp

lemma unat_mult_exact:
  "unat x * unat y < 2 ^ 64 \<Longrightarrow> unat (x * y :: ulong) = unat x * unat y"
  by (simp add: unat_word_ariths)

lemma unat_add_exact:
  "unat x + unat y < 2 ^ 64 \<Longrightarrow> unat (x + y :: ulong) = unat x + unat y"
  by (simp add: unat_word_ariths)

lemma unat_push_half:
  "unat x < 2 ^ 32 \<Longrightarrow> unat (push_bit 32 x :: ulong) = 2 ^ 32 * unat x"
  by (simp add: push_bit_eq_mult unat_word_ariths)

lemma half_mult_lt:
  assumes "x < 2 ^ 32" "y < 2 ^ 32"
  shows "x * y + 2 * 2 ^ 32 \<le> (2 ^ 64 :: nat) + 1"
proof -
  have "x \<le> 2 ^ 32 - 1" "y \<le> 2 ^ 32 - 1" using assms by simp_all
  then have "x * y \<le> (2 ^ 32 - 1) * (2 ^ 32 - 1)" by (rule mult_le_mono)
  then show ?thesis by simp
qed

lemma schoolbook_sum:
  fixes T :: nat
  assumes p: "p00 = T * c00 + r00" "p01 = T * c01 + r01" "p10 = T * c10 + r10" "p11 = T * c11 + r11"
    and s1: "c00 + r01 + r10 = T * q1 + m1" and s2: "q1 + (c01 + c10 + r11) = T * q2 + m2"
  shows "T * T * p11 + T * p01 + T * p10 + p00 = (T * m1 + r00) + T * T * (T * (q2 + c11) + m2)"
proof -
  have "T * T * p11 + T * p01 + T * p10 + p00 =
      T * T * T * c11 + T * T * (c01 + c10 + r11) + T * (c00 + r01 + r10) + r00"
    unfolding p by (simp add: algebra_simps)
  also have "\<dots> = T * T * T * c11 + T * T * (q1 + (c01 + c10 + r11)) + T * m1 + r00"
    unfolding s1 by (simp add: algebra_simps)
  also have "\<dots> = (T * m1 + r00) + T * T * (T * (q2 + c11) + m2)"
    unfolding s2 by (simp add: algebra_simps)
  finally show ?thesis .
qed

lemma schoolbook_portable:
  fixes a b T :: nat
  assumes "T > 0" and "a < T * T" and "b < T * T"
  defines "a0 \<equiv> a mod T" and "a1 \<equiv> a div T" and "b0 \<equiv> b mod T" and "b1 \<equiv> b div T"
  defines "r1 \<equiv> (a0 * b0) div T + (a0 * b1) mod T + (a1 * b0) mod T"
  defines "r2 \<equiv> r1 div T + ((a0 * b1) div T + (a1 * b0) div T + (a1 * b1) mod T)"
  defines "r3 \<equiv> r2 div T + (a1 * b1) div T"
  shows "a * b = (T * (r1 mod T) + (a0 * b0) mod T) + T * T * (T * r3 + r2 mod T)"
    and "r3 < T"
proof -
  have "a = a1 * T + a0" "b = b1 * T + b0" by (simp_all add: a0_def a1_def b0_def b1_def)
  then have "a * b = T * T * (a1 * b1) + T * (a0 * b1) + T * (a1 * b0) + a0 * b0"
    by (simp add: algebra_simps)
  also have "\<dots> = (T * (r1 mod T) + (a0 * b0) mod T) + T * T * (T * (r2 div T + (a1 * b1) div T)
      + r2 mod T)"
    by (rule schoolbook_sum [where ?q1.0 = "r1 div T" and ?c00.0 = "(a0 * b0) div T"
          and ?c01.0 = "(a0 * b1) div T" and ?c10.0 = "(a1 * b0) div T"
          and ?r01.0 = "(a0 * b1) mod T" and ?r10.0 = "(a1 * b0) mod T"
          and ?r11.0 = "(a1 * b1) mod T"])
      (simp_all add: r1_def r2_def)
  finally show eq: "a * b = (T * (r1 mod T) + (a0 * b0) mod T) + T * T * (T * r3 + r2 mod T)"
    by (simp add: r3_def)
  show "r3 < T"
  proof (rule ccontr)
    assume "\<not> r3 < T"
    then have "T * T * (T * T) \<le> T * T * (T * r3)" by simp
    also have "\<dots> \<le> a * b" unfolding eq by (simp add: algebra_simps)
    also have "\<dots> < T * T * (T * T)" using assms(1-3) by (intro mult_strict_mono) simp_all
    finally show False by simp
  qed
qed

text \<open>
  A product and an addend and a carry fit in two words, so the 128-bit variants are exact.
\<close>

lemma product_fits:
  assumes "a < 2 ^ 64" "b < 2 ^ 64" "c < 2 ^ 64" "d < (2 ^ 64 :: nat)"
  shows "a * b + c + d < 2 ^ 128"
proof -
  have "a * b \<le> (2 ^ 64 - 1) * (2 ^ 64 - 1)" using assms by (intro mult_le_mono) simp_all
  then show ?thesis using assms by simp
qed

lemma unat_lo_hi:
  fixes p :: "128 word"
  shows "unat (ucast p :: ulong) + 2 ^ 64 * unat (ucast (drop_bit 64 p) :: ulong) = unat p"
proof -
  have "unat p < 2 ^ 128" using unsigned_less [of p] by simp
  then have "unat p div 2 ^ 64 < 2 ^ 64" by (simp add: less_mult_imp_div_less)
  then have "unat (ucast (drop_bit 64 p) :: ulong) = unat p div 2 ^ 64"
    by (simp add: unsigned_ucast_eq take_bit_eq_mod drop_bit_eq_div unat_div_distrib)
  moreover have "unat (ucast p :: ulong) = unat p mod 2 ^ 64"
    by (simp add: unsigned_ucast_eq take_bit_eq_mod)
  ultimately show ?thesis by simp
qed

lemma multiply_add_with_carry_exact:
  assumes "multiply_add_with_carry a b addend carry = (low, high)"
  shows "unat low + 2 ^ 64 * unat high = unat a * unat b + unat addend + unat carry"
proof -
  let ?p = "(ucast a :: 128 word) * ucast b + ucast addend + ucast carry"
  have "unat ?p = unat a * unat b + unat addend + unat carry"
    using product_fits [OF unat_ulong_lt unat_ulong_lt unat_ulong_lt unat_ulong_lt,
        of a b addend carry]
    by (simp add: unat_word_ariths unsigned_ucast_eq take_bit_eq_mod mod_simps)
  then show ?thesis
    using assms unat_lo_hi [of ?p] by (simp add: multiply_add_with_carry_def Let_def)
qed

lemma multiply_with_carry_exact:
  assumes "multiply_with_carry a b = (low, high)"
  shows "unat low + 2 ^ 64 * unat high = unat a * unat b"
  using multiply_add_with_carry_exact [of a b 0 0 low high] assms
  by (simp add: multiply_with_carry_def multiply_add_with_carry_def)

text \<open>Two words with the same two-word value are the same pair.\<close>

lemma two_word_unique:
  assumes "unat low + 2 ^ 64 * unat high = unat low' + 2 ^ 64 * unat high'"
  shows "(low :: ulong) = low' \<and> (high :: ulong) = high'"
proof -
  have "(unat low + 2 ^ 64 * unat high) mod 2 ^ 64 = (unat low' + 2 ^ 64 * unat high') mod 2 ^ 64"
    using assms by simp
  then have "unat low = unat low'"
    using unat_ulong_lt [of low] unat_ulong_lt [of low'] by simp
  then show ?thesis using assms by (simp add: word_unat_eq_iff)
qed

lemma two_word_unique_uint:
  assumes "uint low + 2 ^ 64 * uint high = uint low' + 2 ^ 64 * uint high'"
  shows "(low :: ulong) = low' \<and> (high :: ulong) = high'"
proof (rule two_word_unique)
  have "int (unat low + 2 ^ 64 * unat high) = int (unat low' + 2 ^ 64 * unat high')"
    using assms by simp
  then show "unat low + 2 ^ 64 * unat high = unat low' + 2 ^ 64 * unat high'"
    by (simp only: of_nat_eq_iff)
qed

lemma unat_combine_half:
  assumes "unat x < 2 ^ 32" and "unat y < 2 ^ 32"
  shows "unat (push_bit 32 x + y :: ulong) = 2 ^ 32 * unat x + unat y"
proof -
  have "2 ^ 32 * unat x + unat y < 2 ^ 64" using assms by simp
  then show ?thesis using assms(1) by (simp add: unat_add_exact unat_push_half)
qed

lemma multiply_with_carry_portable_exact:
  assumes "multiply_with_carry_portable a b = (low, high)"
  shows "unat low + 2 ^ 64 * unat high = unat a * unat b"
proof -
  let ?T = "2 ^ 32 :: nat"
  let ?m = word_mask
  define a0 a1 b0 b1 where "a0 = a AND ?m" and "a1 = drop_bit 32 a AND ?m"
    and "b0 = b AND ?m" and "b1 = drop_bit 32 b AND ?m"
  have halves: "unat (w AND ?m) < ?T" for w by (simp add: unat_low_half)
  have ua: "unat a0 = unat a mod ?T" "unat a1 = unat a div ?T"
    "unat b0 = unat b mod ?T" "unat b1 = unat b div ?T"
    using unat_ulong_lt [of a] unat_ulong_lt [of b]
    by (simp_all add: a0_def a1_def b0_def b1_def unat_low_half unat_drop_half
        less_mult_imp_div_less)
  have prod: "unat (x * y) = unat x * unat y" if "unat x < ?T" "unat y < ?T" for x y :: ulong
    using half_mult_lt [OF that] by (intro unat_mult_exact) simp
  define P where "P x y = (x * y) AND ?m" for x y :: ulong
  define C where "C x y = drop_bit 32 (x * y) AND ?m" for x y :: ulong
  have PC: "unat (P x y) = (unat x * unat y) mod ?T" "unat (C x y) = (unat x * unat y) div ?T"
    if "unat x < ?T" "unat y < ?T" for x y
    using that half_mult_lt [OF that]
    by (simp_all add: P_def C_def unat_low_half unat_drop_half prod less_mult_imp_div_less)
  have lt: "unat a0 < ?T" "unat a1 < ?T" "unat b0 < ?T" "unat b1 < ?T"
    by (simp_all only: a0_def a1_def b0_def b1_def halves)
  note pc = PC [OF lt(1) lt(3)] PC [OF lt(1) lt(4)] PC [OF lt(2) lt(3)] PC [OF lt(2) lt(4)]
  define r1 where "r1 = C a0 b0 + P a0 b1 + P a1 b0"
  define r2 where "r2 = (drop_bit 32 r1 AND ?m) + (C a0 b1 + C a1 b0 + P a1 b1)"
  have small: "unat (P x y) < ?T" "unat (C x y) < ?T" for x y
    by (simp_all only: P_def C_def halves)
  have ur1: "unat r1 = unat (C a0 b0) + unat (P a0 b1) + unat (P a1 b0)"
    using small [of a0 b0] small [of a0 b1] small [of a1 b0]
    by (simp add: r1_def unat_add_exact)
  have "unat r1 < 3 * ?T"
    using ur1 small [of a0 b0] small [of a0 b1] small [of a1 b0] by linarith
  then have ud1: "unat (drop_bit 32 r1 AND ?m) = unat r1 div ?T"
    by (simp add: unat_low_half unat_drop_half)
  have ur2: "unat r2 = unat r1 div ?T + (unat (C a0 b1) + unat (C a1 b0) + unat (P a1 b1))"
    using small [of a0 b1] small [of a1 b0] small [of a1 b1] \<open>unat r1 < 3 * ?T\<close>
    by (simp add: r2_def unat_add_exact ud1)
  have "unat r2 < 6 * ?T"
    using ur2 small [of a0 b1] small [of a1 b0] small [of a1 b1] \<open>unat r1 < 3 * ?T\<close> by simp
  then have ud2: "unat (drop_bit 32 r2 AND ?m) = unat r2 div ?T"
    by (simp add: unat_low_half unat_drop_half)
  have ur3: "unat ((drop_bit 32 r2 AND ?m) + C a1 b1) = unat r2 div ?T + unat (C a1 b1)"
    using small [of a1 b1] \<open>unat r2 < 6 * ?T\<close> by (simp add: unat_add_exact ud2)
  have low: "low = push_bit 32 (r1 AND ?m) + P a0 b0"
    and high: "high = push_bit 32 (((drop_bit 32 r2 AND ?m) + C a1 b1) AND ?m) + (r2 AND ?m)"
    using assms
    by (simp_all add: multiply_with_carry_portable_def Let_def r1_def r2_def P_def C_def
        a0_def a1_def b0_def b1_def)
  have nat_eqs: "unat r1 = (unat a0 * unat b0) div ?T + (unat a0 * unat b1) mod ?T
      + (unat a1 * unat b0) mod ?T"
    "unat r2 = unat r1 div ?T + ((unat a0 * unat b1) div ?T + (unat a1 * unat b0) div ?T
      + (unat a1 * unat b1) mod ?T)"
    by (simp_all only: ur1 ur2 pc)
  note school = schoolbook_portable [of ?T "unat a" "unat b", folded ua, folded nat_eqs(1), folded nat_eqs(2)]
  have r3: "unat r2 div ?T + unat a1 * unat b1 div ?T < ?T"
    using school(2) unat_ulong_lt [of a] unat_ulong_lt [of b] by simp
  have "unat low = ?T * (unat r1 mod ?T) + unat a0 * unat b0 mod ?T"
    unfolding low unat_combine_half [OF halves small(1)] by (simp only: pc unat_low_half)
  moreover have "unat high = ?T * (unat r2 div ?T + unat a1 * unat b1 div ?T) + unat r2 mod ?T"
    using r3 unfolding high unat_combine_half [OF halves halves]
    by (simp add: pc unat_low_half ur3)
  ultimately show ?thesis
    using school(1) unat_ulong_lt [of a] unat_ulong_lt [of b] by simp
qed

text \<open>
  The three routines for a double-width product agree, whichever one the build selects.
\<close>

lemma multiply_with_carry_portable_eq:
  "multiply_with_carry_portable a b = multiply_with_carry a b"
proof -
  obtain l h l' h' where "multiply_with_carry_portable a b = (l, h)"
    and "multiply_with_carry a b = (l', h')" by (meson surj_pair)
  then show ?thesis
    using two_word_unique [of l h l' h'] multiply_with_carry_portable_exact [of a b l h]
      multiply_with_carry_exact [of a b l' h'] by simp
qed

lemma multiply_add_with_carry_portable_eq:
  "multiply_add_with_carry_portable a b addend carry = multiply_add_with_carry a b addend carry"
proof -
  obtain l0 h0 where m: "multiply_with_carry_portable a b = (l0, h0)" by (meson surj_pair)
  obtain l1 o1 where s1: "add_with_carry l0 addend 0 = (l1, o1)" by (meson surj_pair)
  obtain l2 o2 where s2: "add_with_carry l1 carry 0 = (l2, o2)" by (meson surj_pair)
  obtain l h where x: "multiply_add_with_carry a b addend carry = (l, h)" by (meson surj_pair)
  have e0: "uint l0 + 2 ^ 64 * uint h0 = uint a * uint b"
    using arg_cong [OF multiply_with_carry_portable_exact [OF m], of int] by simp
  have ex: "uint l + 2 ^ 64 * uint h = uint a * uint b + uint addend + uint carry"
    using arg_cong [OF multiply_add_with_carry_exact [OF x], of int] by simp
  have e1: "uint l1 + 2 ^ 64 * uint o1 = uint l0 + uint addend"
    and e2: "uint l2 + 2 ^ 64 * uint o2 = uint l1 + uint carry"
    using add_with_carry_exact [OF _ s1] add_with_carry_exact [OF _ s2] by simp_all
  have total: "uint l2 + 2 ^ 64 * (uint h0 + uint o1 + uint o2) = uint l + 2 ^ 64 * uint h"
    using e0 e1 e2 ex by simp
  have "uint h0 + uint o1 + uint o2 < 2 ^ 64"
  proof (rule ccontr)
    assume "\<not> ?thesis"
    then have "2 ^ 64 * 2 ^ 64 \<le> 2 ^ 64 * (uint h0 + uint o1 + uint o2)"
      by (intro mult_left_mono) simp_all
    moreover have "uint l + 2 ^ 64 * uint h < 2 ^ 64 * 2 ^ 64"
      using uint_ulong_lt [of l] uint_ulong_lt [of h] by simp
    moreover have "0 \<le> uint l2" by simp
    ultimately show False using total by linarith
  qed
  then have "uint (h0 + o1 + o2) = uint h0 + uint o1 + uint o2"
    by (simp add: uint_word_ariths mod_simps)
  with total have "uint l2 + 2 ^ 64 * uint (h0 + o1 + o2) = uint l + 2 ^ 64 * uint h" by simp
  from two_word_unique_uint [OF this] show ?thesis
    using m s1 s2 x by (simp add: multiply_add_with_carry_portable_def Let_def)
qed

lemma add_carry_exact:
  assumes "uint carry \<le> 1" and "add_carry a b carry = (r, c)"
  shows "uint r + 2 ^ 64 * uint c = uint a + uint b + uint carry" and "uint c \<le> 1"
proof -
  define o1 where "o1 = carry + a"
  have max: "uint (- 1 - w :: ulong) = 2 ^ 64 - 1 - uint w" for w
    using uint_ulong_lt [of w]
    by (simp add: uint_sub_if_size word_size unsigned_minus_1_eq_mask mask_eq_exp_minus_1)
  have o1: "uint o1 = uint carry + uint a - 2 ^ 64 * of_bool (- 1 - carry < a)"
    using uint_ulong_lt [of a] assms(1)
    by (auto simp: o1_def word_less_def max uint_plus_if_size word_size)
  have r: "uint (o1 + b) = uint o1 + uint b - 2 ^ 64 * of_bool (- 1 - o1 < b)"
    using uint_ulong_lt [of b]
    by (auto simp: word_less_def max uint_plus_if_size word_size)
  have rc: "r = o1 + b"
    "c = (if - 1 - o1 < b then (if - 1 - carry < a then 1 else 0) + 1
          else (if - 1 - carry < a then 1 else 0))"
    using assms(2) by (auto simp: add_carry_def Let_def o1_def)
  have "\<not> (- 1 - carry < a \<and> - 1 - o1 < b)"
  proof
    assume "- 1 - carry < a \<and> - 1 - o1 < b"
    then have "uint (o1 + b) = uint carry + uint a + uint b - 2 * 2 ^ 64" using r o1 by simp
    moreover have "0 \<le> uint (o1 + b)" by simp
    ultimately show False using assms(1) uint_ulong_lt [of a] uint_ulong_lt [of b] by linarith
  qed
  then have "uint c = of_bool (- 1 - carry < a) + of_bool (- 1 - o1 < b)" and "uint c \<le> 1"
    unfolding rc by auto
  then show "uint r + 2 ^ 64 * uint c = uint a + uint b + uint carry" and "uint c \<le> 1"
    using o1 r rc(1) by simp_all
qed

text \<open>So the two carry routines are the same function on carries 0 and 1.\<close>

lemma add_carry_eq_add_with_carry:
  assumes "uint carry \<le> 1"
  shows "add_carry a b carry = add_with_carry a b carry"
proof -
  obtain r c r' c' where x: "add_carry a b carry = (r, c)" and y: "add_with_carry a b carry = (r', c')"
    by (meson surj_pair)
  have "uint r + 2 ^ 64 * uint c = uint r' + 2 ^ 64 * uint c'"
    using add_carry_exact(1) [OF assms x] add_with_carry_exact(1) [OF assms y] by simp
  from two_word_unique_uint [OF this] show ?thesis using x y by simp
qed

text \<open>The other schoolbook order, used by \<^verbatim>\<open>multiply_long\<close>.\<close>

lemma schoolbook_long_sum:
  fixes T :: nat
  assumes s0: "p00 = T * q0 + r0" and s1: "q0 + p10 = T * q1 + m1" and s2: "m1 + p01 = T * q2 + m2"
    and s3: "q1 + q2 = T * q3 + m3" and s4: "m3 + p11 = T * q4 + m4"
  shows "T * T * p11 + T * p01 + T * p10 + p00 = (T * m2 + r0) + T * T * (T * (q3 + q4) + m4)"
proof -
  have "T * T * p11 + T * p01 + T * p10 + p00 = T * T * p11 + T * p01 + T * (q0 + p10) + r0"
    unfolding s0 by (simp add: algebra_simps)
  also have "\<dots> = T * T * (p11 + q1) + T * (m1 + p01) + r0"
    unfolding s1 by (simp add: algebra_simps)
  also have "\<dots> = T * T * (p11 + (q1 + q2)) + T * m2 + r0"
    unfolding s2 by (simp add: algebra_simps)
  also have "\<dots> = T * T * (T * q3 + (m3 + p11)) + T * m2 + r0"
    unfolding s3 by (simp add: algebra_simps)
  also have "\<dots> = (T * m2 + r0) + T * T * (T * (q3 + q4) + m4)"
    unfolding s4 by (simp add: algebra_simps)
  finally show ?thesis .
qed

lemma schoolbook_long:
  fixes a b T :: nat
  assumes "T > 0" and "a < T * T" and "b < T * T"
  defines "a0 \<equiv> a mod T" and "a1 \<equiv> a div T" and "b0 \<equiv> b mod T" and "b1 \<equiv> b div T"
  defines "s1 \<equiv> (a0 * b0) div T + a1 * b0"
  defines "s2 \<equiv> s1 mod T + a0 * b1"
  defines "t \<equiv> s1 div T + s2 div T"
  defines "s3 \<equiv> t mod T + a1 * b1"
  defines "r3 \<equiv> t div T + s3 div T"
  shows "a * b = (T * (s2 mod T) + (a0 * b0) mod T) + T * T * (T * r3 + s3 mod T)"
    and "r3 < T"
proof -
  have ab: "a = a1 * T + a0" "b = b1 * T + b0" by (simp_all add: a0_def a1_def b0_def b1_def)
  have "a * b = T * T * (a1 * b1) + T * (a0 * b1) + T * (a1 * b0) + a0 * b0"
    unfolding ab by (simp add: algebra_simps)
  also have "\<dots> = (T * (s2 mod T) + (a0 * b0) mod T) +
      T * T * (T * (t div T + s3 div T) + s3 mod T)"
    by (rule schoolbook_long_sum [where ?q0.0 = "(a0 * b0) div T" and ?q1.0 = "s1 div T"
          and ?m1.0 = "s1 mod T" and ?q2.0 = "s2 div T" and ?m3.0 = "t mod T"])
      (simp_all add: s1_def s2_def t_def s3_def)
  finally show eq: "a * b = (T * (s2 mod T) + (a0 * b0) mod T) + T * T * (T * r3 + s3 mod T)"
    unfolding r3_def .
  show "r3 < T"
  proof (rule ccontr)
    assume "\<not> r3 < T"
    then have "T * T * (T * T) \<le> T * T * (T * r3)" by simp
    also have "\<dots> \<le> a * b" unfolding eq by (simp add: algebra_simps)
    also have "\<dots> < T * T * (T * T)" using assms(1-3) by (intro mult_strict_mono) simp_all
    finally show False by simp
  qed
qed

lemma unat_or_half:
  assumes "unat x < 2 ^ 32" and "unat y < 2 ^ 32"
  shows "unat (push_bit 32 x OR y :: ulong) = 2 ^ 32 * unat x + unat y"
proof -
  have "y = y AND lomask 32"
    using assms(2) by (simp add: and_lomask_take_bit word_unat_eq_iff unsigned_take_bit_eq
        take_bit_nat_eq_self)
  then have "\<not> bit y i" if "32 \<le> i" for i
    using that by (metis bit_and_iff bit_lomask not_less)
  then have "push_bit 32 x OR y = push_bit 32 x + y"
    by (intro disjunctive_add [symmetric]) (auto simp: bit_simps)
  then show ?thesis using unat_combine_half [OF assms] by simp
qed

lemma multiply_long_exact:
  assumes "multiply_long a b = (low, high)"
  shows "unat low + 2 ^ 64 * unat high = unat a * unat b"
proof -
  let ?T = "2 ^ 32 :: nat"
  define a0 a1 b0 b1 where "a0 = a AND word_mask" and "a1 = drop_bit 32 a AND word_mask"
    and "b0 = b AND word_mask" and "b1 = drop_bit 32 b AND word_mask"
  have halves: "unat (w AND word_mask) < ?T" for w by (simp add: unat_low_half)
  have lt: "unat a0 < ?T" "unat a1 < ?T" "unat b0 < ?T" "unat b1 < ?T"
    by (simp_all only: a0_def a1_def b0_def b1_def halves)
  have ua: "unat a0 = unat a mod ?T" "unat a1 = unat a div ?T"
    "unat b0 = unat b mod ?T" "unat b1 = unat b div ?T"
    using unat_ulong_lt [of a] unat_ulong_lt [of b]
    by (simp_all add: a0_def a1_def b0_def b1_def unat_low_half unat_drop_half
        less_mult_imp_div_less)
  have mac: "unat (w + x * y) = unat w + unat x * unat y" and mac_lt: "unat w + unat x * unat y < ?T * ?T"
    if "unat w < ?T" "unat x < ?T" "unat y < ?T" for w x y :: ulong
    using half_mult_lt [OF that(2,3)] that(1) by (simp_all add: unat_add_exact unat_mult_exact)
  have mul: "unat (x * y) = unat x * unat y" "unat x * unat y div ?T < ?T"
    if "unat x < ?T" "unat y < ?T" for x y :: ulong
    using half_mult_lt [OF that] by (simp_all add: unat_mult_exact less_mult_imp_div_less)
  define s1 where "s1 = drop_bit 32 (a0 * b0) + a1 * b0"
  define s2 where "s2 = (s1 AND word_mask) + a0 * b1"
  define t where "t = drop_bit 32 s1 + drop_bit 32 s2"
  define s3 where "s3 = (t AND word_mask) + a1 * b1"
  have d0: "unat (drop_bit 32 (a0 * b0)) = unat a0 * unat b0 div ?T"
    using lt by (simp add: unat_drop_half mul)
  have u1: "unat s1 = unat a0 * unat b0 div ?T + unat a1 * unat b0"
    using mac [of "drop_bit 32 (a0 * b0)" a1 b0] mul(2) [OF lt(1,3)] lt by (simp add: s1_def d0)
  have u2: "unat s2 = unat s1 mod ?T + unat a0 * unat b1"
    using mac [OF halves lt(1,4), of s1] by (simp add: s2_def unat_low_half)
  have l1: "unat s1 div ?T < ?T" and l2: "unat s2 div ?T < ?T"
    using unat_ulong_lt [of s1] unat_ulong_lt [of s2] by (simp_all add: less_mult_imp_div_less)
  have ut: "unat t = unat s1 div ?T + unat s2 div ?T"
    using l1 l2 by (simp add: t_def unat_add_exact unat_drop_half)
  have u3: "unat s3 = unat t mod ?T + unat a1 * unat b1"
    using mac [OF halves lt(2,4), of t] by (simp add: s3_def unat_low_half)
  note school = schoolbook_long [of ?T "unat a" "unat b", folded ua, folded u1, folded u2, folded ut,
      folded u3]
  have low: "low = push_bit 32 (s2 AND word_mask) OR (a0 * b0 AND word_mask)"
    and high: "high = push_bit 32 (drop_bit 32 t + drop_bit 32 s3) OR (s3 AND word_mask)"
    using assms
    by (simp_all add: multiply_long_def Let_def s1_def s2_def s3_def t_def a0_def a1_def b0_def b1_def)
  have r3: "unat (drop_bit 32 t + drop_bit 32 s3) = unat t div ?T + unat s3 div ?T"
    "unat t div ?T + unat s3 div ?T < ?T"
    using school(2) unat_ulong_lt [of a] unat_ulong_lt [of b]
    by (simp_all add: unat_add_exact unat_drop_half)
  have "unat low = ?T * (unat s2 mod ?T) + unat a0 * unat b0 mod ?T"
    unfolding low unat_or_half [OF halves halves] unat_low_half mul(1) [OF lt(1,3)] by simp
  moreover have "unat high = ?T * (unat t div ?T + unat s3 div ?T) + unat s3 mod ?T"
    unfolding high using unat_or_half [OF _ halves] r3 by (simp add: unat_low_half)
  ultimately show ?thesis
    using school(1) unat_ulong_lt [of a] unat_ulong_lt [of b] by simp
qed

end
