(* ===== verification/Bit4.thy ===== *)
theory Bit4
  imports Prelude
begin

text \<open>
  The four-valued bit \<^verbatim>\<open>vvp_bit4_t\<close> of \<^verbatim>\<open>vvp/vvp_net.h\<close> with its operators, one-bit addition
  with carry, and the edge classification used by event functors.  The operators are written
  through the numeric encoding, as the code does; the lemmas show they are the truth tables of
  the language, sound and optimal for the reading of x and z as unknown bits.
\<close>

section \<open>The bit type and its encoding\<close>

datatype vvp_bit4_t = BIT4_0 | BIT4_1 | BIT4_X | BIT4_Z

definition bit4_int :: "vvp_bit4_t \<Rightarrow> nat" where
  "bit4_int a = (case a of BIT4_0 \<Rightarrow> 0 | BIT4_1 \<Rightarrow> 1 | BIT4_X \<Rightarrow> 3 | BIT4_Z \<Rightarrow> 2)"

definition int_bit4 :: "nat \<Rightarrow> vvp_bit4_t" where
  "int_bit4 n = (if n = 0 then BIT4_0 else if n = 1 then BIT4_1 else if n = 2 then BIT4_Z
     else BIT4_X)"

definition vvp_bit4_to_ascii :: "vvp_bit4_t \<Rightarrow> char" where
  "vvp_bit4_to_ascii a = ''01zx'' ! bit4_int a"

definition bit4_is_xz :: "vvp_bit4_t \<Rightarrow> bool" where
  "bit4_is_xz a \<longleftrightarrow> bit4_int a \<ge> 2"

definition bit4_z2x :: "vvp_bit4_t \<Rightarrow> vvp_bit4_t" where
  "bit4_z2x a = int_bit4 (bit4_int a OR drop_bit 1 (bit4_int a))"

definition bit4_not :: "vvp_bit4_t \<Rightarrow> vvp_bit4_t" where
  "bit4_not a = bit4_z2x (int_bit4 (bit4_int a XOR 1))"

definition bit4_or :: "vvp_bit4_t \<Rightarrow> vvp_bit4_t \<Rightarrow> vvp_bit4_t" where
  "bit4_or a b = (if a = BIT4_1 \<or> b = BIT4_1 then BIT4_1
     else bit4_z2x (int_bit4 (bit4_int a OR bit4_int b)))"

definition bit4_and :: "vvp_bit4_t \<Rightarrow> vvp_bit4_t \<Rightarrow> vvp_bit4_t" where
  "bit4_and a b = (if a = BIT4_0 \<or> b = BIT4_0 then BIT4_0
     else bit4_z2x (int_bit4 (bit4_int a OR bit4_int b)))"

definition bit4_xor :: "vvp_bit4_t \<Rightarrow> vvp_bit4_t \<Rightarrow> vvp_bit4_t" where
  "bit4_xor a b = (if bit4_is_xz a then BIT4_X
     else if bit4_is_xz b then BIT4_X
     else if a = BIT4_0 then b
     else if b = BIT4_0 then a
     else BIT4_0)"

text \<open>
  One-bit addition.  The carry is an in-out parameter: the result pairs the sum bit with the new
  carry.  The final \<^verbatim>\<open>assert(0)\<close> of the source is the \<open>None\<close> branch.
\<close>

definition bit4_add_with_carry ::
  "vvp_bit4_t \<Rightarrow> vvp_bit4_t \<Rightarrow> vvp_bit4_t \<Rightarrow> (vvp_bit4_t \<times> vvp_bit4_t) option" where
  "bit4_add_with_carry a b c =
    (if bit4_is_xz a \<or> bit4_is_xz b \<or> bit4_is_xz c then Some (BIT4_X, BIT4_X)
     else let sum = bit4_int a + bit4_int b + bit4_int c in
       if sum = 0 then Some (BIT4_0, c)
       else if sum = 1 then Some (BIT4_1, BIT4_0)
       else if sum = 2 then Some (BIT4_0, BIT4_1)
       else if sum = 3 then Some (BIT4_1, BIT4_1)
       else None)"

text \<open>The VPI codes \<^verbatim>\<open>vpi0\<close>, \<^verbatim>\<open>vpi1\<close>, \<^verbatim>\<open>vpiZ\<close>, \<^verbatim>\<open>vpiX\<close> are 0, 1, 2, 3; others abort.\<close>

definition scalar_to_bit4 :: "int \<Rightarrow> vvp_bit4_t option" where
  "scalar_to_bit4 scalar = (if scalar = 0 then Some BIT4_0 else if scalar = 1 then Some BIT4_1
     else if scalar = 3 then Some BIT4_X else if scalar = 2 then Some BIT4_Z else None)"

section \<open>Edges\<close>

definition VVP_EDGE :: "vvp_bit4_t \<Rightarrow> vvp_bit4_t \<Rightarrow> 16 word" where
  "VVP_EDGE from to = push_bit (push_bit 2 (bit4_int from) OR bit4_int to) 1"

definition vvp_edge_posedge :: "16 word" where
  "vvp_edge_posedge = VVP_EDGE BIT4_0 BIT4_1 OR VVP_EDGE BIT4_0 BIT4_X OR VVP_EDGE BIT4_0 BIT4_Z
     OR VVP_EDGE BIT4_X BIT4_1 OR VVP_EDGE BIT4_Z BIT4_1"

definition vvp_edge_negedge :: "16 word" where
  "vvp_edge_negedge = VVP_EDGE BIT4_1 BIT4_0 OR VVP_EDGE BIT4_1 BIT4_X OR VVP_EDGE BIT4_1 BIT4_Z
     OR VVP_EDGE BIT4_X BIT4_0 OR VVP_EDGE BIT4_Z BIT4_0"

definition edge :: "vvp_bit4_t \<Rightarrow> vvp_bit4_t \<Rightarrow> int" where
  "edge from to = (let m = VVP_EDGE from to in
     if m AND vvp_edge_posedge \<noteq> 0 then 1
     else if m AND vvp_edge_negedge \<noteq> 0 then - 1
     else 0)"

text \<open>\<^verbatim>\<open>$countdrivers\<close>: the counters of 0, 1 and x drivers; a z bit counts nothing.\<close>

definition update_driver_counts ::
  "vvp_bit4_t \<Rightarrow> nat \<times> nat \<times> nat \<Rightarrow> nat \<times> nat \<times> nat" where
  "update_driver_counts b counts = (case counts of (c0, c1, c2) \<Rightarrow>
     (case b of BIT4_0 \<Rightarrow> (c0 + 1, c1, c2) | BIT4_1 \<Rightarrow> (c0, c1 + 1, c2)
      | BIT4_X \<Rightarrow> (c0, c1, c2 + 1) | BIT4_Z \<Rightarrow> counts))"

section \<open>Truth tables\<close>

lemma bit4_int_simps [simp]:
  "bit4_int BIT4_0 = 0" "bit4_int BIT4_1 = 1" "bit4_int BIT4_X = 3" "bit4_int BIT4_Z = 2"
  by (simp_all add: bit4_int_def)

lemma int_bit4_simps [simp]:
  "int_bit4 0 = BIT4_0" "int_bit4 (Suc 0) = BIT4_1" "int_bit4 1 = BIT4_1"
  "int_bit4 2 = BIT4_Z" "int_bit4 3 = BIT4_X" "int_bit4 (Suc (Suc (Suc 0))) = BIT4_X"
  by (simp_all add: int_bit4_def)

lemma int_bit4_inverse [simp]: "int_bit4 (bit4_int a) = a"
  by (cases a) simp_all

lemma bit4_int_lt: "bit4_int a < 4"
  by (cases a) simp_all

lemma bit4_int_inverse: "n < 4 \<Longrightarrow> bit4_int (int_bit4 n) = n"
  by (auto simp: int_bit4_def)

lemma bit4_is_xz_simps [simp]:
  "bit4_is_xz BIT4_0 = False" "bit4_is_xz BIT4_1 = False"
  "bit4_is_xz BIT4_X = True" "bit4_is_xz BIT4_Z = True"
  by (simp_all add: bit4_is_xz_def)

lemma bit4_z2x_simps [simp]:
  "bit4_z2x BIT4_0 = BIT4_0" "bit4_z2x BIT4_1 = BIT4_1"
  "bit4_z2x BIT4_X = BIT4_X" "bit4_z2x BIT4_Z = BIT4_X"
  by (simp_all add: bit4_z2x_def)

lemma bit4_not_simps [simp]:
  "bit4_not BIT4_0 = BIT4_1" "bit4_not BIT4_1 = BIT4_0"
  "bit4_not BIT4_X = BIT4_X" "bit4_not BIT4_Z = BIT4_X"
  by (simp_all add: bit4_not_def)

text \<open>Finite enumeration, and the order of the numeric encoding.\<close>

lemma UNIV_vvp_bit4_t: "(UNIV :: vvp_bit4_t set) = {BIT4_0, BIT4_1, BIT4_X, BIT4_Z}"
  by (auto intro: vvp_bit4_t.exhaust)

instantiation vvp_bit4_t :: enum
begin

definition enum_vvp_bit4_t :: "vvp_bit4_t list" where
  "enum_vvp_bit4_t = [BIT4_0, BIT4_1, BIT4_X, BIT4_Z]"

definition enum_all_vvp_bit4_t :: "(vvp_bit4_t \<Rightarrow> bool) \<Rightarrow> bool" where
  "enum_all_vvp_bit4_t P \<longleftrightarrow> P BIT4_0 \<and> P BIT4_1 \<and> P BIT4_X \<and> P BIT4_Z"

definition enum_ex_vvp_bit4_t :: "(vvp_bit4_t \<Rightarrow> bool) \<Rightarrow> bool" where
  "enum_ex_vvp_bit4_t P \<longleftrightarrow> P BIT4_0 \<or> P BIT4_1 \<or> P BIT4_X \<or> P BIT4_Z"

instance
  by standard
    (simp_all add: enum_vvp_bit4_t_def enum_all_vvp_bit4_t_def enum_ex_vvp_bit4_t_def
      UNIV_vvp_bit4_t)

end

instantiation vvp_bit4_t :: linorder
begin

definition less_eq_vvp_bit4_t :: "vvp_bit4_t \<Rightarrow> vvp_bit4_t \<Rightarrow> bool" where
  "less_eq_vvp_bit4_t a b \<longleftrightarrow> bit4_int a \<le> bit4_int b"

definition less_vvp_bit4_t :: "vvp_bit4_t \<Rightarrow> vvp_bit4_t \<Rightarrow> bool" where
  "less_vvp_bit4_t a b \<longleftrightarrow> bit4_int a < bit4_int b"

instance
proof
  fix x y :: vvp_bit4_t
  show "x \<le> y \<Longrightarrow> y \<le> x \<Longrightarrow> x = y"
    by (cases x; cases y) (simp_all add: less_eq_vvp_bit4_t_def)
qed (auto simp: less_eq_vvp_bit4_t_def less_vvp_bit4_t_def)

end

text \<open>The truth tables of the language, as reference definitions.\<close>

fun and_table :: "vvp_bit4_t \<Rightarrow> vvp_bit4_t \<Rightarrow> vvp_bit4_t" where
  "and_table BIT4_0 b = BIT4_0"
| "and_table a BIT4_0 = BIT4_0"
| "and_table BIT4_1 BIT4_1 = BIT4_1"
| "and_table a b = BIT4_X"

fun or_table :: "vvp_bit4_t \<Rightarrow> vvp_bit4_t \<Rightarrow> vvp_bit4_t" where
  "or_table BIT4_1 b = BIT4_1"
| "or_table a BIT4_1 = BIT4_1"
| "or_table BIT4_0 BIT4_0 = BIT4_0"
| "or_table a b = BIT4_X"

fun xor_table :: "vvp_bit4_t \<Rightarrow> vvp_bit4_t \<Rightarrow> vvp_bit4_t" where
  "xor_table BIT4_0 BIT4_0 = BIT4_0"
| "xor_table BIT4_0 BIT4_1 = BIT4_1"
| "xor_table BIT4_1 BIT4_0 = BIT4_1"
| "xor_table BIT4_1 BIT4_1 = BIT4_0"
| "xor_table a b = BIT4_X"

lemma bit4_and_table [bit4_simps]: "bit4_and a b = and_table a b"
  by (cases a; cases b) (simp_all add: bit4_and_def)

lemma bit4_or_table [bit4_simps]: "bit4_or a b = or_table a b"
  by (cases a; cases b) (simp_all add: bit4_or_def)

lemma bit4_xor_table [bit4_simps]: "bit4_xor a b = xor_table a b"
  by (cases a; cases b) (simp_all add: bit4_xor_def)

text \<open>
  What a four-valued bit says of a two-valued one: 0 and 1 fix it, x and z leave it open.  The
  operators are sound for this reading: whatever the unknown bits turn out to be, the definite
  results agree with the two-valued operation.
\<close>

definition bit4_admits :: "vvp_bit4_t \<Rightarrow> bool \<Rightarrow> bool" where
  "bit4_admits a p \<longleftrightarrow> (a = BIT4_0 \<longrightarrow> \<not> p) \<and> (a = BIT4_1 \<longrightarrow> p)"

lemma bit4_ops_sound:
  assumes "bit4_admits a p" and "bit4_admits b q"
  shows "bit4_admits (bit4_and a b) (p \<and> q)" and "bit4_admits (bit4_or a b) (p \<or> q)"
    and "bit4_admits (bit4_xor a b) (p \<noteq> q)" and "bit4_admits (bit4_not a) (\<not> p)"
  using assms by (cases a; cases b; simp add: bit4_admits_def bit4_simps)+

text \<open>Conversely a definite result is only claimed when it is forced: the tables are optimal.\<close>

lemma bit4_ops_optimal:
  assumes "\<And>p q. bit4_admits a p \<Longrightarrow> bit4_admits b q \<Longrightarrow> f p q = v"
    and "(F, f) \<in> {(bit4_and, (\<and>)), (bit4_or, (\<or>)), (bit4_xor, (\<noteq>))}"
  shows "F a b = (if v then BIT4_1 else BIT4_0)"
  using assms(2) assms(1)[of False False] assms(1)[of False True] assms(1)[of True False]
    assms(1)[of True True]
  by (cases a; cases b; auto simp: bit4_admits_def bit4_simps)

lemma bit4_add_with_carry_known:
  assumes "\<not> bit4_is_xz a" "\<not> bit4_is_xz b" "\<not> bit4_is_xz c"
  obtains s c' where "bit4_add_with_carry a b c = Some (s, c')"
    and "\<not> bit4_is_xz s" and "\<not> bit4_is_xz c'"
    and "bit4_int s + 2 * bit4_int c' = bit4_int a + bit4_int b + bit4_int c"
  using assms by (cases a; cases b; cases c; simp add: bit4_add_with_carry_def)

lemma bit4_add_with_carry_total: "\<exists>r. bit4_add_with_carry a b c = Some r"
  by (cases a; cases b; cases c; simp add: bit4_add_with_carry_def)

text \<open>The edge code is the sign of the level change, with x and z halfway between 0 and 1.\<close>

definition bit4_level :: "vvp_bit4_t \<Rightarrow> int" where
  "bit4_level a = (case a of BIT4_0 \<Rightarrow> 0 | BIT4_1 \<Rightarrow> 2 | _ \<Rightarrow> 1)"

lemma edge_level: "edge from to = sgn (bit4_level to - bit4_level from)"
  by (cases "from"; cases to)
    (simp_all add: edge_def VVP_EDGE_def vvp_edge_posedge_def vvp_edge_negedge_def bit4_level_def)

end
