(* ===== verification/Bit_Store.thy ===== *)
theory Bit_Store
  imports Prelude
begin

text \<open>
  The contract shared by the vector classes (\<^verbatim>\<open>vvp_vector4_t\<close>, \<^verbatim>\<open>vvp_vector2_t\<close>,
  \<^verbatim>\<open>vvp_vector8_t\<close>): a width, a bit read and a checked bit write.  Client code fills vectors in
  loops of \<^verbatim>\<open>set_bit\<close> calls, ascending, descending or with an offset; the lemmas below give the
  result of such a loop once for all the classes.
\<close>

locale bit_store =
  fixes inv :: "'v \<Rightarrow> bool"
    and wid :: "'v \<Rightarrow> nat"
    and val :: "'v \<Rightarrow> nat \<Rightarrow> 'b"
    and set_bit :: "'v \<Rightarrow> nat \<Rightarrow> 'b \<Rightarrow> 'v option"
  assumes set_bit_in: "inv v \<Longrightarrow> i < wid v \<Longrightarrow>
      \<exists>v'. set_bit v i b = Some v' \<and> inv v' \<and> wid v' = wid v
        \<and> (\<forall>j < wid v. val v' j = (if j = i then b else val v j))"
    and set_bit_out: "\<not> i < wid v \<Longrightarrow> set_bit v i b = None"
begin

lemma set_loop:
  assumes "inv v" and "\<And>i. i < n \<Longrightarrow> g i < wid v" and "inj_on g {..<n}"
  shows "\<exists>v'. for_each (\<lambda>i v. set_bit v (g i) (f i)) [0..<n] v = Some v'
    \<and> inv v' \<and> wid v' = wid v \<and> (\<forall>i < n. val v' (g i) = f i)
    \<and> (\<forall>j < wid v. j \<notin> g ` {..<n} \<longrightarrow> val v' j = val v j)"
proof (rule for_upto_rule [where P = "\<lambda>k u. inv u \<and> wid u = wid v \<and> (\<forall>i < k. val u (g i) = f i)
      \<and> (\<forall>j < wid v. j \<notin> g ` {..<k} \<longrightarrow> val u j = val v j)"])
  show "inv v \<and> wid v = wid v \<and> (\<forall>i < 0. val v (g i) = f i)
      \<and> (\<forall>j < wid v. j \<notin> g ` {..<0} \<longrightarrow> val v j = val v j)"
    using assms(1) by simp
next
  fix k u
  assume k: "k < n" and u: "inv u \<and> wid u = wid v \<and> (\<forall>i < k. val u (g i) = f i)
      \<and> (\<forall>j < wid v. j \<notin> g ` {..<k} \<longrightarrow> val u j = val v j)"
  then obtain u' where u': "set_bit u (g k) (f k) = Some u'" "inv u'" "wid u' = wid u"
    "\<forall>j < wid u. val u' j = (if j = g k then f k else val u j)"
    using set_bit_in [of u "g k" "f k"] assms(2) [OF k] by auto
  have "g i \<noteq> g k" if "i < k" for i
    using assms(3) k that unfolding inj_on_def by (metis lessThan_iff less_trans nat_neq_iff)
  then have "\<forall>i < Suc k. val u' (g i) = f i"
    using u u'(4) k assms(2) by (auto simp: less_Suc_eq)
  then show "\<exists>s'. set_bit u (g k) (f k) = Some s' \<and> inv s' \<and> wid s' = wid v
      \<and> (\<forall>i < Suc k. val s' (g i) = f i)
      \<and> (\<forall>j < wid v. j \<notin> g ` {..<Suc k} \<longrightarrow> val s' j = val v j)"
    using u u' by (auto simp: lessThan_Suc)
qed

text \<open>Filling a vector from bit 0 upwards.\<close>

lemma build:
  assumes "inv v" and "n = wid v"
  obtains v' where "for_each (\<lambda>i v. set_bit v i (f i)) [0..<n] v = Some v'"
    and "inv v'" and "wid v' = n" and "\<And>i. i < n \<Longrightarrow> val v' i = f i"
  using set_loop [of v n "\<lambda>i. i" f] assms by auto

text \<open>Filling a vector from its most significant bit downwards, as the text readers do.\<close>

lemma build_down:
  assumes "inv v" and "n = wid v"
  obtains v' where "for_each (\<lambda>i v. set_bit v (n - i - 1) (f i)) [0..<n] v = Some v'"
    and "inv v'" and "wid v' = n" and "\<And>i. i < n \<Longrightarrow> val v' (n - i - 1) = f i"
proof -
  have "inj_on (\<lambda>i. n - i - 1) {..<n}" by (auto simp: inj_on_def)
  then show thesis using set_loop [of v n "\<lambda>i. n - i - 1" f] assms that by auto
qed

text \<open>Overwriting a range.\<close>

lemma set_range:
  assumes "inv v" and "base + n \<le> wid v"
  obtains v' where "for_each (\<lambda>i v. set_bit v (base + i) (f i)) [0..<n] v = Some v'"
    and "inv v'" and "wid v' = wid v"
    and "\<And>j. j < wid v \<Longrightarrow>
      val v' j = (if base \<le> j \<and> j < base + n then f (j - base) else val v j)"
proof -
  have inj: "inj_on (\<lambda>i. base + i) {..<n}" by (auto simp: inj_on_def)
  obtain v' where v': "for_each (\<lambda>i v. set_bit v (base + i) (f i)) [0..<n] v = Some v'"
    "inv v'" "wid v' = wid v" "\<forall>i < n. val v' (base + i) = f i"
    "\<forall>j < wid v. j \<notin> (\<lambda>i. base + i) ` {..<n} \<longrightarrow> val v' j = val v j"
    using set_loop [OF assms(1) _ inj, of f] assms(2) by auto
  have "val v' j = (if base \<le> j \<and> j < base + n then f (j - base) else val v j)" if "j < wid v" for j
  proof (cases "base \<le> j \<and> j < base + n")
    case True
    then show ?thesis using v'(4) [rule_format, of "j - base"] by auto
  next
    case False
    then show ?thesis using v'(5) that by auto
  qed
  with v' that show thesis by blast
qed

end

end
