(* ===== verification/Vector4.thy ===== *)
theory Vector4
  imports Bit4 Bit_Store
begin

text \<open>
  The packed four-valued vector \<^verbatim>\<open>vvp_vector4_t\<close> of \<^verbatim>\<open>vvp/vvp_net.h\<close>: storage, construction,
  bit access, comparison, the bitwise operators and the reductions.

  A vector of \<^verbatim>\<open>size_\<close> bits keeps an A plane and a B plane.  The C++ object holds them in two
  unions: for \<^verbatim>\<open>size_ <= 64\<close> the words \<^verbatim>\<open>abits_val_\<close> and \<^verbatim>\<open>bbits_val_\<close>, otherwise pointers to
  \<^verbatim>\<open>(size_+63)/64\<close> words each.  The record has a list for each plane: one word in the first case
  (also for a zero width vector), the pointed-to array in the second, so \<open>v4_abits v ! 0\<close> is
  \<^verbatim>\<open>abits_val_\<close> or \<^verbatim>\<open>abits_ptr_[0]\<close>.  Bits of the last word at and above \<^verbatim>\<open>size_\<close> are free,
  as in the source.  Widths are natural numbers: the \<^verbatim>\<open>unsigned\<close> wrap-around of a width near
  \<open>2 ^ 32\<close> is outside the model.
\<close>

section \<open>Representation\<close>

record vvp_vector4_t =
  v4_size :: nat
  v4_abits :: plane
  v4_bbits :: plane

text \<open>The word tables indexed by the encoding of the fill bit (\<^verbatim>\<open>WORD_0_ABITS\<close> and so on).\<close>

definition init_atable :: "vvp_bit4_t \<Rightarrow> ulong" where
  "init_atable val = [0, - 1, 0, - 1] ! bit4_int val"

definition init_btable :: "vvp_bit4_t \<Rightarrow> ulong" where
  "init_btable val = [0, 0, - 1, - 1] ! bit4_int val"

definition allocate_words :: "nat \<Rightarrow> ulong \<Rightarrow> ulong \<Rightarrow> vvp_vector4_t" where
  "allocate_words wid inita initb =
    (if wid > BITS_PER_WORD
     then let cnt = words_for wid in
       \<lparr>v4_size = wid, v4_abits = replicate cnt inita, v4_bbits = replicate cnt initb\<rparr>
     else \<lparr>v4_size = wid, v4_abits = [inita], v4_bbits = [initb]\<rparr>)"

text \<open>The constructors from a fill bit and from immediate words.\<close>

definition v4_fill :: "nat \<Rightarrow> vvp_bit4_t \<Rightarrow> vvp_vector4_t" where
  "v4_fill wid val = allocate_words wid (init_atable val) (init_btable val)"

definition v4_immediate :: "nat \<Rightarrow> ulong \<Rightarrow> ulong \<Rightarrow> vvp_vector4_t" where
  "v4_immediate wid aval bval =
    (let v = allocate_words wid 0 0;
         m = (if wid < BITS_PER_WORD then lomask wid else - 1)
     in v\<lparr>v4_abits := (v4_abits v)[0 := aval AND m], v4_bbits := (v4_bbits v)[0 := bval AND m]\<rparr>)"

section \<open>Bit access\<close>

definition v4_value :: "vvp_vector4_t \<Rightarrow> nat \<Rightarrow> vvp_bit4_t" where
  "v4_value v idx =
    (if idx \<ge> v4_size v then BIT4_X
     else
       let (off, abits, bbits) =
             (if v4_size v > BITS_PER_WORD
              then (idx mod BITS_PER_WORD, v4_abits v ! (idx div BITS_PER_WORD),
                    v4_bbits v ! (idx div BITS_PER_WORD))
              else (idx, v4_abits v ! 0, v4_bbits v ! 0));
           abits = drop_bit off abits;
           bbits = drop_bit off bbits;
           tmp = push_bit 1 (bbits AND 1) + (abits AND 1)
       in int_bit4 (unat tmp))"

text \<open>The \<^verbatim>\<open>switch\<close> of \<^verbatim>\<open>set_bit\<close>, the same for both storage forms.\<close>

definition set_bit_words :: "vvp_bit4_t \<Rightarrow> ulong \<Rightarrow> ulong \<Rightarrow> ulong \<Rightarrow> ulong \<times> ulong" where
  "set_bit_words val m a b = (case val of
       BIT4_0 \<Rightarrow> (a AND NOT m, b AND NOT m)
     | BIT4_1 \<Rightarrow> (a OR m, b AND NOT m)
     | BIT4_X \<Rightarrow> (a OR m, b OR m)
     | BIT4_Z \<Rightarrow> (a AND NOT m, b OR m))"

definition v4_set_bit :: "vvp_vector4_t \<Rightarrow> nat \<Rightarrow> vvp_bit4_t \<Rightarrow> vvp_vector4_t option" where
  "v4_set_bit v idx val =
    (if \<not> idx < v4_size v then None
     else
       let off = idx mod BITS_PER_WORD;
           m = push_bit off 1;
           wdx = (if v4_size v > BITS_PER_WORD then idx div BITS_PER_WORD else 0);
           r = set_bit_words val m (v4_abits v ! wdx) (v4_bbits v ! wdx)
       in Some (v\<lparr>v4_abits := (v4_abits v)[wdx := fst r], v4_bbits := (v4_bbits v)[wdx := snd r]\<rparr>))"

section \<open>Comparison and tests\<close>

text \<open>The loop over the whole words and the masked last word, shared by the comparisons.\<close>

definition v4_words_agree ::
  "(ulong \<Rightarrow> ulong \<Rightarrow> ulong) \<Rightarrow> vvp_vector4_t \<Rightarrow> vvp_vector4_t \<Rightarrow> bool" where
  "v4_words_agree f v that =
    (let wid = v4_size v; A = v4_abits v; B = v4_bbits v; A' = v4_abits that; B' = v4_bbits that in
     if wid \<noteq> v4_size that then False
     else if wid < BITS_PER_WORD then
       let m = lomask wid in
       (f (A ! 0) (B ! 0) AND m) = (f (A' ! 0) (B' ! 0) AND m) \<and> (B ! 0 AND m) = (B' ! 0 AND m)
     else if wid = BITS_PER_WORD then
       f (A ! 0) (B ! 0) = f (A' ! 0) (B' ! 0) \<and> B ! 0 = B' ! 0
     else
       let words = wid div BITS_PER_WORD in
       if list_ex (\<lambda>idx. f (A ! idx) (B ! idx) \<noteq> f (A' ! idx) (B' ! idx) \<or> B ! idx \<noteq> B' ! idx)
            [0..<words] then False
       else
         let tail = wid mod BITS_PER_WORD in
         if tail > 0 then
           let m = lomask tail in
           (f (A ! words) (B ! words) AND m) = (f (A' ! words) (B' ! words) AND m)
             \<and> (B ! words AND m) = (B' ! words AND m)
         else True)"

text \<open>\<^verbatim>\<open>eeq\<close> compares the planes, \<^verbatim>\<open>eq_xz\<close> the disjunction of the planes and the B plane.\<close>

definition v4_eeq :: "vvp_vector4_t \<Rightarrow> vvp_vector4_t \<Rightarrow> bool" where
  "v4_eeq v that = v4_words_agree (\<lambda>a b. a) v that"

definition v4_eq_xz :: "vvp_vector4_t \<Rightarrow> vvp_vector4_t \<Rightarrow> bool" where
  "v4_eq_xz v that = v4_words_agree (\<lambda>a b. a OR b) v that"

definition v4_has_xz :: "vvp_vector4_t \<Rightarrow> bool" where
  "v4_has_xz v =
    (let wid = v4_size v; B = v4_bbits v in
     if wid = 0 then False
     else if wid < BITS_PER_WORD then B ! 0 AND topmask wid \<noteq> 0
     else if wid = BITS_PER_WORD then B ! 0 \<noteq> 0
     else
       let words = wid div BITS_PER_WORD in
       if list_ex (\<lambda>idx. B ! idx \<noteq> 0) [0..<words] then True
       else
         let tail = wid mod BITS_PER_WORD in
         if tail > 0 then B ! words AND topmask tail \<noteq> 0 else False)"

section \<open>Whole-vector updates and the bitwise operators\<close>

definition v4_change_z2x :: "vvp_vector4_t \<Rightarrow> vvp_vector4_t" where
  "v4_change_z2x v = v\<lparr>v4_abits := map2 (OR) (v4_abits v) (v4_bbits v)\<rparr>"

definition v4_fill_bits :: "vvp_vector4_t \<Rightarrow> vvp_bit4_t \<Rightarrow> vvp_vector4_t" where
  "v4_fill_bits v b = v\<lparr>v4_abits := map (\<lambda>_. init_atable b) (v4_abits v),
     v4_bbits := map (\<lambda>_. init_btable b) (v4_bbits v)\<rparr>"

text \<open>
  \<^verbatim>\<open>invert\<close>: full words are complemented, the last partial word under a mask, and the B bits are
  ored in afterwards.  The loop over \<^verbatim>\<open>remaining\<close> visits word \<open>idx\<close> with
  \<open>wid - 64 * idx\<close> bits left.
\<close>

definition invert_word :: "nat \<Rightarrow> ulong \<Rightarrow> ulong \<Rightarrow> ulong" where
  "invert_word remaining a b =
    (if remaining \<ge> BITS_PER_WORD then NOT a OR b else (lomask remaining AND NOT a) OR b)"

definition v4_invert :: "vvp_vector4_t \<Rightarrow> vvp_vector4_t" where
  "v4_invert v =
    (if v4_size v \<le> BITS_PER_WORD then
       let m = (if v4_size v < BITS_PER_WORD then lomask (v4_size v) else - 1)
       in v\<lparr>v4_abits := (v4_abits v)[0 := (m AND NOT (v4_abits v ! 0)) OR v4_bbits v ! 0]\<rparr>
     else v\<lparr>v4_abits := map (\<lambda>idx. invert_word (v4_size v - BITS_PER_WORD * idx)
         (v4_abits v ! idx) (v4_bbits v ! idx)) [0..<words_for (v4_size v)]\<rparr>)"

text \<open>\<^verbatim>\<open>copy_inverted_from_\<close>, the constructor behind \<^verbatim>\<open>operator ~\<close>: here the mask covers the
  B bits too.\<close>

definition copy_inverted_word :: "nat \<Rightarrow> ulong \<Rightarrow> ulong \<Rightarrow> ulong" where
  "copy_inverted_word remaining a b =
    (if remaining \<ge> BITS_PER_WORD then b OR NOT a else lomask remaining AND (b OR NOT a))"

definition v4_not :: "vvp_vector4_t \<Rightarrow> vvp_vector4_t" where
  "v4_not that =
    (let wid = v4_size that in
     if wid > BITS_PER_WORD then
       \<lparr>v4_size = wid,
        v4_abits = map (\<lambda>idx. copy_inverted_word (wid - BITS_PER_WORD * idx)
          (v4_abits that ! idx) (v4_bbits that ! idx)) [0..<words_for wid],
        v4_bbits = v4_bbits that\<rparr>
     else
       let m = (if wid < BITS_PER_WORD then lomask wid else - 1) in
       \<lparr>v4_size = wid, v4_abits = [m AND (v4_bbits that ! 0 OR NOT (v4_abits that ! 0))],
        v4_bbits = [v4_bbits that ! 0]\<rparr>)"

text \<open>
  The in-place operators run over the words of \<^verbatim>\<open>this\<close> and read the same words of the argument;
  they do not check the widths.  An argument that is stored the other way (short against long) or
  has fewer words makes the source read memory it does not own: \<open>None\<close>.
\<close>

definition v4_same_words :: "vvp_vector4_t \<Rightarrow> vvp_vector4_t \<Rightarrow> bool" where
  "v4_same_words v that =
    (if v4_size v \<le> BITS_PER_WORD then v4_size that \<le> BITS_PER_WORD
     else words_for (v4_size v) \<le> words_for (v4_size that))"

definition v4_map2 ::
  "(ulong \<Rightarrow> ulong \<Rightarrow> ulong \<Rightarrow> ulong \<Rightarrow> ulong \<times> ulong) \<Rightarrow> vvp_vector4_t \<Rightarrow> vvp_vector4_t
    \<Rightarrow> vvp_vector4_t option" where
  "v4_map2 f v that =
    (if v4_same_words v that then
       let r = map (\<lambda>idx. f (v4_abits v ! idx) (v4_bbits v ! idx) (v4_abits that ! idx)
             (v4_bbits that ! idx)) [0..<length (v4_abits v)]
       in Some (v\<lparr>v4_abits := map fst r, v4_bbits := map snd r\<rparr>)
     else None)"

definition and_words :: "ulong \<Rightarrow> ulong \<Rightarrow> ulong \<Rightarrow> ulong \<Rightarrow> ulong \<times> ulong" where
  "and_words a b a' b' =
    (let tmp1 = a OR b; tmp2 = a' OR b' in (tmp1 AND tmp2, (tmp1 AND b') OR (tmp2 AND b)))"

definition or_words :: "ulong \<Rightarrow> ulong \<Rightarrow> ulong \<Rightarrow> ulong \<Rightarrow> ulong \<times> ulong" where
  "or_words a b a' b' =
    (let tmp = a OR b OR a' OR b' in
     (tmp, ((NOT a OR b) AND b') OR ((NOT a' OR b') AND b)))"

definition xor_words :: "ulong \<Rightarrow> ulong \<Rightarrow> ulong \<Rightarrow> ulong \<Rightarrow> ulong \<times> ulong" where
  "xor_words a b a' b' = (let bval = b OR b' in ((a XOR a') OR bval, bval))"

definition v4_and_eq :: "vvp_vector4_t \<Rightarrow> vvp_vector4_t \<Rightarrow> vvp_vector4_t option" where
  "v4_and_eq = v4_map2 and_words"

definition v4_or_eq :: "vvp_vector4_t \<Rightarrow> vvp_vector4_t \<Rightarrow> vvp_vector4_t option" where
  "v4_or_eq = v4_map2 or_words"

definition v4_xor_eq :: "vvp_vector4_t \<Rightarrow> vvp_vector4_t \<Rightarrow> vvp_vector4_t option" where
  "v4_xor_eq = v4_map2 xor_words"

section \<open>Reductions\<close>

definition BIT_MASK :: "nat \<Rightarrow> ulong" where
  "BIT_MASK n = (if n \<noteq> 0 then drop_bit (BITS_PER_WORD - n) (NOT 0) else NOT 0)"

text \<open>
  The word loop of \<^verbatim>\<open>reduce_or\<close> and \<^verbatim>\<open>reduce_and\<close>: \<open>hit\<close> is the dominating test of a word,
  which ends the loop with \<open>domv\<close>; an x or z makes the pending result \<^verbatim>\<open>BIT4_X\<close>.
\<close>

fun reduce_loop ::
  "(ulong \<Rightarrow> ulong \<Rightarrow> bool) \<Rightarrow> vvp_bit4_t \<Rightarrow> plane \<Rightarrow> plane \<Rightarrow> nat list \<Rightarrow> vvp_bit4_t
    \<Rightarrow> vvp_bit4_t + vvp_bit4_t" where
  "reduce_loop hit domv A B [] res = Inr res"
| "reduce_loop hit domv A B (idx # rest) res =
    (if hit (A ! idx) (B ! idx) then Inl domv
     else reduce_loop hit domv A B rest (if B ! idx \<noteq> 0 then BIT4_X else res))"

definition v4_reduce_or :: "vvp_vector4_t \<Rightarrow> vvp_bit4_t" where
  "v4_reduce_or v =
    (let m = BIT_MASK (v4_size v mod BITS_PER_WORD); A = v4_abits v; B = v4_bbits v in
     if v4_size v \<le> BITS_PER_WORD then
       if A ! 0 AND NOT (B ! 0) AND m \<noteq> 0 then BIT4_1
       else if B ! 0 AND m \<noteq> 0 then BIT4_X
       else BIT4_0
     else
       let words = words_for (v4_size v); idx = words - 1 in
       case reduce_loop (\<lambda>a b. a AND NOT b \<noteq> 0) BIT4_1 A B [0..<words - 1] BIT4_0 of
         Inl r \<Rightarrow> r
       | Inr res \<Rightarrow>
           if A ! idx AND NOT (B ! idx) AND m \<noteq> 0 then BIT4_1
           else if B ! idx AND m \<noteq> 0 then BIT4_X else res)"

definition v4_reduce_and :: "vvp_vector4_t \<Rightarrow> vvp_bit4_t" where
  "v4_reduce_and v =
    (let m = BIT_MASK (v4_size v mod BITS_PER_WORD); A = v4_abits v; B = v4_bbits v in
     if v4_size v \<le> BITS_PER_WORD then
       if A ! 0 OR B ! 0 OR NOT m \<noteq> NOT 0 then BIT4_0
       else if B ! 0 AND m \<noteq> 0 then BIT4_X
       else BIT4_1
     else
       let words = words_for (v4_size v); idx = words - 1 in
       case reduce_loop (\<lambda>a b. a OR b \<noteq> NOT 0) BIT4_0 A B [0..<words - 1] BIT4_1 of
         Inl r \<Rightarrow> r
       | Inr res \<Rightarrow>
           if A ! idx OR B ! idx OR NOT m \<noteq> NOT 0 then BIT4_0
           else if B ! idx AND m \<noteq> 0 then BIT4_X else res)"

text \<open>The portable body of \<^verbatim>\<open>parity\<close>; with GNU C the builtin computes the same bit.\<close>

definition parity :: "ulong \<Rightarrow> ulong" where
  "parity val =
    (let val = val XOR drop_bit 32 val;
         val = val XOR drop_bit 16 val;
         val = val XOR drop_bit 8 val;
         val = val XOR drop_bit 4 val
     in drop_bit (unat (val AND 15)) 0x6996 AND 1)"

fun xor_loop :: "plane \<Rightarrow> plane \<Rightarrow> nat list \<Rightarrow> ulong \<Rightarrow> ulong option" where
  "xor_loop A B [] val_a = Some val_a"
| "xor_loop A B (idx # rest) val_a =
    (if B ! idx \<noteq> 0 then None else xor_loop A B rest (val_a XOR A ! idx))"

definition v4_reduce_xor :: "vvp_vector4_t \<Rightarrow> vvp_bit4_t" where
  "v4_reduce_xor v =
    (let m = BIT_MASK (v4_size v mod BITS_PER_WORD); A = v4_abits v; B = v4_bbits v in
     if v4_size v \<le> BITS_PER_WORD then
       if B ! 0 AND m \<noteq> 0 then BIT4_X
       else if parity (A ! 0 AND m) \<noteq> 0 then BIT4_1 else BIT4_0
     else
       let words = words_for (v4_size v); idx = words - 1 in
       case xor_loop A B [0..<words - 1] 0 of
         None \<Rightarrow> BIT4_X
       | Some val_a \<Rightarrow>
           if B ! idx AND m \<noteq> 0 then BIT4_X
           else if parity (val_a XOR (A ! idx AND m)) \<noteq> 0 then BIT4_1 else BIT4_0)"

section \<open>Invariant and bit view\<close>

definition v4_inv :: "vvp_vector4_t \<Rightarrow> bool" where
  "v4_inv v \<longleftrightarrow> length (v4_abits v) = max 1 (words_for (v4_size v))
     \<and> length (v4_bbits v) = max 1 (words_for (v4_size v))"

text \<open>The abstract value of a vector: its bits, least significant first.\<close>

definition v4_list :: "vvp_vector4_t \<Rightarrow> vvp_bit4_t list" where
  "v4_list v = map (v4_value v) [0..<v4_size v]"

definition bit4_of :: "bool \<Rightarrow> bool \<Rightarrow> vvp_bit4_t" where
  "bit4_of a b = (if b then (if a then BIT4_X else BIT4_Z) else (if a then BIT4_1 else BIT4_0))"

lemma bit4_of_inject [simp]: "bit4_of a b = bit4_of a' b' \<longleftrightarrow> a = a' \<and> b = b'"
  by (auto simp: bit4_of_def)

lemma bit4_of_simps [simp]:
  "bit4_of False False = BIT4_0" "bit4_of True False = BIT4_1"
  "bit4_of True True = BIT4_X" "bit4_of False True = BIT4_Z"
  by (simp_all add: bit4_of_def)

lemma bit4_of_iffs [simp]:
  "bit4_of a b = BIT4_0 \<longleftrightarrow> \<not> a \<and> \<not> b" "bit4_of a b = BIT4_1 \<longleftrightarrow> a \<and> \<not> b"
  "bit4_of a b = BIT4_X \<longleftrightarrow> a \<and> b" "bit4_of a b = BIT4_Z \<longleftrightarrow> \<not> a \<and> b"
  "BIT4_0 = bit4_of a b \<longleftrightarrow> \<not> a \<and> \<not> b" "BIT4_1 = bit4_of a b \<longleftrightarrow> a \<and> \<not> b"
  "BIT4_X = bit4_of a b \<longleftrightarrow> a \<and> b" "BIT4_Z = bit4_of a b \<longleftrightarrow> \<not> a \<and> b"
  by (auto simp: bit4_of_def)

lemma bit4_is_xz_of [simp]: "bit4_is_xz (bit4_of a b) \<longleftrightarrow> b"
  by (simp add: bit4_of_def)

lemma v4_inv_len:
  assumes "v4_inv v"
  shows "0 < length (v4_abits v)" "length (v4_bbits v) = length (v4_abits v)"
    "v4_size v \<le> 64 * length (v4_abits v)"
  using assms words_for_mult_ge [of "v4_size v"] by (auto simp: v4_inv_def max_def)

lemma v4_inv_short: "v4_inv v \<Longrightarrow> v4_size v \<le> 64 \<Longrightarrow> length (v4_abits v) = 1"
  using words_for_small [of "v4_size v"] by (cases "v4_size v = 0") (simp_all add: v4_inv_def)

lemma v4_inv_long:
  "v4_inv v \<Longrightarrow> 64 < v4_size v \<Longrightarrow>
     length (v4_abits v) = words_for (v4_size v) \<and> length (v4_bbits v) = words_for (v4_size v)"
  using words_for_gt1 [of "v4_size v"] by (simp add: v4_inv_def)

lemma v4_inv_lt:
  "v4_inv v \<Longrightarrow> i < v4_size v \<Longrightarrow> i < 64 * length (v4_abits v) \<and> i div 64 < length (v4_abits v)"
  using v4_inv_len(3) [of v] by (auto simp: less_mult_imp_div_less mult.commute)

lemma and_1_word: "w AND 1 = (if bit w 0 then 1 else 0 :: ulong)"
  by (simp add: and_one_eq bit_0 odd_iff_mod_2_eq_one)

lemma decode_bits:
  "int_bit4 (unat (push_bit 1 (drop_bit off b AND 1) + (drop_bit off a AND 1) :: ulong))
   = bit4_of (bit a off) (bit b off)"
  by (simp add: and_1_word bit_drop_bit_eq int_bit4_def)

lemma v4_value_words:
  "v4_value v i =
    (if i \<ge> v4_size v then BIT4_X
     else if v4_size v > 64
     then bit4_of (bit (v4_abits v ! (i div 64)) (i mod 64)) (bit (v4_bbits v ! (i div 64)) (i mod 64))
     else bit4_of (bit (v4_abits v ! 0) i) (bit (v4_bbits v ! 0) i))"
  by (cases "v4_size v > 64")
    (simp_all only: v4_value_def Let_def if_True if_False prod.case decode_bits)

lemma v4_value_beyond [simp]: "v4_size v \<le> i \<Longrightarrow> v4_value v i = BIT4_X"
  by (simp add: v4_value_words)

lemma v4_value_pbit:
  "v4_inv v \<Longrightarrow> v4_value v i =
    (if i < v4_size v then bit4_of (pbit (v4_abits v) i) (pbit (v4_bbits v) i) else BIT4_X)"
  by (auto simp: v4_value_words pbit_def)

lemma length_v4_list [simp]: "length (v4_list v) = v4_size v"
  by (simp add: v4_list_def)

lemma nth_v4_list [simp]: "i < v4_size v \<Longrightarrow> v4_list v ! i = v4_value v i"
  by (simp add: v4_list_def)

lemma v4_listI:
  "v4_size v = length bs \<Longrightarrow> (\<And>i. i < length bs \<Longrightarrow> v4_value v i = bs ! i) \<Longrightarrow> v4_list v = bs"
  by (rule nth_equalityI) simp_all

lemma v4_list_eq_iff:
  "v4_list v = v4_list w \<longleftrightarrow>
     v4_size v = v4_size w \<and> (\<forall>i < v4_size w. v4_value v i = v4_value w i)"
  by (auto simp: list_eq_iff_nth_eq)

lemma set_v4_list: "set (v4_list v) = v4_value v ` {..<v4_size v}"
  by (auto simp: v4_list_def)

section \<open>Construction\<close>

lemma allocate_words_inv: "v4_inv (allocate_words n a b)"
  using words_for_small [of n] words_for_gt1 [of n]
  by (cases "n = 0") (auto simp: allocate_words_def v4_inv_def Let_def)

lemma allocate_words_value:
  assumes "i < n"
  shows "v4_value (allocate_words n a b) i = bit4_of (bit a (i mod 64)) (bit b (i mod 64))"
proof -
  have "i div 64 < words_for n" using assms by (rule div_less_words_for)
  with assms show ?thesis
    using allocate_words_inv [of n a b] v4_inv_len(3) [OF allocate_words_inv, of n a b]
    by (auto simp: v4_value_pbit allocate_words_def Let_def pbit_def split: if_splits)
qed

lemma init_tables [simp]:
  "i < 64 \<Longrightarrow> bit4_of (bit (init_atable b) i) (bit (init_btable b) i) = b"
  by (cases b) (simp_all add: init_atable_def init_btable_def)

lemma size_allocate_words [simp]: "v4_size (allocate_words n a b) = n"
  by (simp add: allocate_words_def Let_def)

lemma v4_fill_inv: "v4_inv (v4_fill n b)"
  by (simp add: v4_fill_def allocate_words_inv)

lemma size_v4_fill [simp]: "v4_size (v4_fill n b) = n"
  by (simp add: v4_fill_def)

lemma v4_fill_value: "v4_value (v4_fill n b) i = (if i < n then b else BIT4_X)"
proof (cases "i < n")
  case True
  then show ?thesis by (simp add: v4_fill_def allocate_words_value)
qed (simp add: v4_value_words)

lemma v4_fill_list: "v4_list (v4_fill n b) = replicate n b"
  by (rule v4_listI) (simp_all add: v4_fill_value)

lemma v4_update_inv:
  "v4_inv v \<Longrightarrow> length A = length (v4_abits v) \<Longrightarrow> length B = length (v4_bbits v) \<Longrightarrow>
   v4_inv (v\<lparr>v4_abits := A, v4_bbits := B\<rparr>)"
  by (simp add: v4_inv_def)

section \<open>Bit writes\<close>

lemma set_bit_words_bits:
  assumes "off < 64" and "j < 64"
  shows "bit4_of (bit (fst (set_bit_words val (push_bit off 1) a b)) j)
      (bit (snd (set_bit_words val (push_bit off 1) a b)) j)
    = (if j = off then val else bit4_of (bit a j) (bit b j))"
  using assms by (cases val) (auto simp: set_bit_words_def bit_simps)

lemma div_mod_64_eq_iff: "i div 64 = j div 64 \<and> i mod 64 = j mod (64 :: nat) \<longleftrightarrow> i = j"
  by (metis div_mult_mod_eq)

lemma v4_set_bit_in:
  assumes inv: "v4_inv v" and i: "i < v4_size v"
  shows "\<exists>v'. v4_set_bit v i b = Some v' \<and> v4_inv v' \<and> v4_size v' = v4_size v
    \<and> (\<forall>j < v4_size v. v4_value v' j = (if j = i then b else v4_value v j))"
proof -
  define k where "k = i div 64"
  define r where "r = set_bit_words b (push_bit (i mod 64) 1) (v4_abits v ! k) (v4_bbits v ! k)"
  define v' where "v' = v\<lparr>v4_abits := (v4_abits v)[k := fst r], v4_bbits := (v4_bbits v)[k := snd r]\<rparr>"
  have k: "k < length (v4_abits v)" "k < length (v4_bbits v)"
    using v4_inv_lt [OF inv i] v4_inv_len [OF inv] by (auto simp: k_def)
  have "(if v4_size v > 64 then i div 64 else 0) = k" using i by (auto simp: k_def)
  then have v': "v4_set_bit v i b = Some v'"
    using i by (simp add: v4_set_bit_def Let_def v'_def r_def del: push_bit_of_1)
  have shape: "v4_size v' = v4_size v" "v4_inv v'"
    using inv by (auto simp: v'_def v4_inv_def)
  have "v4_value v' j = (if j = i then b else v4_value v j)" if j: "j < v4_size v" for j
  proof (cases "j div 64 = k")
    case True
    then have "v4_value v' j = bit4_of (bit (fst r) (j mod 64)) (bit (snd r) (j mod 64))"
      using j k shape by (simp add: v4_value_pbit) (simp add: v'_def pbit_update)
    also have "\<dots> = (if j mod 64 = i mod 64 then b else v4_value v j)"
      using True j inv unfolding r_def
      by (subst set_bit_words_bits) (simp_all add: v4_value_pbit pbit_def)
    finally show ?thesis using True div_mod_64_eq_iff [of j i] by (auto simp: k_def)
  next
    case False
    then show ?thesis
      using j k inv shape by (auto simp: v4_value_pbit) (auto simp: v'_def pbit_update k_def)
  qed
  with v' shape show ?thesis by blast
qed

interpretation v4: bit_store v4_inv v4_size v4_value v4_set_bit
  by unfold_locales (simp_all add: v4_set_bit_in, simp add: v4_set_bit_def)

lemma v4_set_bit_list:
  assumes "v4_inv v" and "i < v4_size v"
  obtains v' where "v4_set_bit v i b = Some v'" and "v4_inv v'" and "v4_list v' = (v4_list v)[i := b]"
proof -
  obtain v' where "v4_set_bit v i b = Some v'" "v4_inv v'" "v4_size v' = v4_size v"
    "\<forall>j < v4_size v. v4_value v' j = (if j = i then b else v4_value v j)"
    using v4.set_bit_in [OF assms] by blast
  moreover from this have "v4_list v' = (v4_list v)[i := b]"
    by (intro v4_listI) (auto simp: nth_list_update)
  ultimately show thesis using that by blast
qed

section \<open>Comparisons and tests\<close>

lemma v4_words_agree_iff:
  assumes inv: "v4_inv v" "v4_inv w"
    and f: "\<And>a b j. j < 64 \<Longrightarrow> bit (f a b) j = g (bit a j) (bit b j)"
  shows "v4_words_agree f v w \<longleftrightarrow> v4_size v = v4_size w \<and> (\<forall>i < v4_size v.
      g (pbit (v4_abits v) i) (pbit (v4_bbits v) i) = g (pbit (v4_abits w) i) (pbit (v4_bbits w) i)
      \<and> pbit (v4_bbits v) i = pbit (v4_bbits w) i)"
proof -
  let ?n = "v4_size v"
  let ?F = "\<lambda>u k. f (v4_abits u ! k) (v4_bbits u ! k)"
  define Q where "Q k j \<longleftrightarrow> bit (?F v k) j = bit (?F w k) j \<and> bit (v4_bbits v ! k) j = bit (v4_bbits w ! k) j"
    for k j
  have weq: "?F v k = ?F w k \<longleftrightarrow> (\<forall>j < 64. bit (?F v k) j = bit (?F w k) j)"
    "v4_bbits v ! k = v4_bbits w ! k \<longleftrightarrow> (\<forall>j < 64. bit (v4_bbits v ! k) j = bit (v4_bbits w ! k) j)"
    for k by (rule ulong_eq_iff)+
  consider (differ) "?n \<noteq> v4_size w" | (short) "?n = v4_size w" "?n < 64"
    | (word) "?n = v4_size w" "?n = 64" | (long) "?n = v4_size w" "64 < ?n" by linarith
  then have "v4_words_agree f v w \<longleftrightarrow> ?n = v4_size w \<and> (\<forall>i < ?n. Q (i div 64) (i mod 64))"
  proof cases
    case differ
    then show ?thesis by (simp add: v4_words_agree_def)
  next
    case short
    then show ?thesis by (auto simp: v4_words_agree_def Let_def masked_eq_iff Q_def)
  next
    case word
    then show ?thesis by (auto simp: v4_words_agree_def Let_def weq Q_def)
  next
    case long
    then show ?thesis
      unfolding whole_words_and_tail [symmetric] v4_words_agree_def Let_def
      by (auto simp: list_ex_iff masked_eq_iff weq Q_def)
  qed
  then show ?thesis by (simp add: Q_def f pbit_def)
qed

lemma v4_eeq_list:
  assumes "v4_inv v" and "v4_inv w"
  shows "v4_eeq v w \<longleftrightarrow> v4_list v = v4_list w"
  using v4_words_agree_iff [OF assms, of "\<lambda>a b. a" "\<lambda>a b. a"] assms
  by (auto simp: v4_eeq_def v4_list_eq_iff v4_value_pbit)

lemma v4_eq_xz_list:
  assumes "v4_inv v" and "v4_inv w"
  shows "v4_eq_xz v w \<longleftrightarrow> map bit4_z2x (v4_list v) = map bit4_z2x (v4_list w)"
proof -
  have z2x: "bit4_z2x (bit4_of a b) = bit4_z2x (bit4_of a' b') \<longleftrightarrow> (a \<or> b) = (a' \<or> b') \<and> b = b'"
    for a b a' b' by (cases a; cases b; cases a'; cases b') simp_all
  show ?thesis
    using v4_words_agree_iff [OF assms, of "\<lambda>a b. a OR b" "\<lambda>a b. a \<or> b"] assms
    by (auto simp: v4_eq_xz_def list_eq_iff_nth_eq v4_value_pbit bit_or_iff z2x)
qed

lemma v4_has_xz_pbit:
  assumes "v4_inv v"
  shows "v4_has_xz v \<longleftrightarrow> (\<exists>i < v4_size v. pbit (v4_bbits v) i)"
proof -
  let ?n = "v4_size v"
  define Q where "Q k j \<longleftrightarrow> \<not> bit (v4_bbits v ! k) j" for k j
  have zero: "v4_bbits v ! k = 0 \<longleftrightarrow> (\<forall>j < 64. \<not> bit (v4_bbits v ! k) j)" for k
    by (rule ulong_eq_0_iff)
  consider (nil) "?n = 0" | (short) "0 < ?n" "?n < 64" | (word) "?n = 64" | (long) "64 < ?n"
    by linarith
  then have "\<not> v4_has_xz v \<longleftrightarrow> (\<forall>i < ?n. Q (i div 64) (i mod 64))"
  proof cases
    case long
    then show ?thesis
      unfolding whole_words_and_tail [symmetric] v4_has_xz_def Let_def
      by (auto simp: list_ex_iff masked_eq_0_iff zero Q_def)
  qed (auto simp: v4_has_xz_def Let_def masked_eq_0_iff zero Q_def)
  then show ?thesis by (auto simp: Q_def pbit_def)
qed

lemma v4_has_xz_list: "v4_inv v \<Longrightarrow> v4_has_xz v \<longleftrightarrow> list_ex bit4_is_xz (v4_list v)"
  by (auto simp: v4_has_xz_pbit list_ex_iff set_v4_list v4_value_pbit)

section \<open>Whole-vector updates and the bitwise operators\<close>

lemma v4_change_z2x:
  assumes "v4_inv v"
  shows "v4_inv (v4_change_z2x v)" and "v4_list (v4_change_z2x v) = map bit4_z2x (v4_list v)"
proof -
  show inv: "v4_inv (v4_change_z2x v)"
    using assms by (simp add: v4_change_z2x_def v4_inv_def)
  show "v4_list (v4_change_z2x v) = map bit4_z2x (v4_list v)"
  proof (rule v4_listI)
    fix i assume "i < length (map bit4_z2x (v4_list v))"
    then show "v4_value (v4_change_z2x v) i = map bit4_z2x (v4_list v) ! i"
      using v4_inv_lt [OF assms, of i] v4_inv_len [OF assms] assms inv
      by (simp add: v4_value_pbit)
        (simp add: v4_change_z2x_def pbit_map2 pbit_def bit_or_iff bit4_of_def)
  qed (simp add: v4_change_z2x_def)
qed

lemma v4_fill_bits:
  assumes "v4_inv v"
  shows "v4_inv (v4_fill_bits v b)" and "v4_list (v4_fill_bits v b) = replicate (v4_size v) b"
proof -
  show inv: "v4_inv (v4_fill_bits v b)"
    using assms by (simp add: v4_fill_bits_def v4_inv_def)
  show "v4_list (v4_fill_bits v b) = replicate (v4_size v) b"
  proof (rule v4_listI)
    fix i assume "i < length (replicate (v4_size v) b)"
    then show "v4_value (v4_fill_bits v b) i = replicate (v4_size v) b ! i"
      using v4_inv_lt [OF assms, of i] v4_inv_len [OF assms] inv
      by (simp add: v4_value_pbit) (simp add: v4_fill_bits_def pbit_map)
  qed (simp add: v4_fill_bits_def)
qed

text \<open>Bit \<open>i\<close> of a plane built word by word.\<close>

lemma pbit_map_upt:
  "i div 64 < n \<Longrightarrow> pbit (map h [0..<n]) i = bit (h (i div 64)) (i mod 64)"
  by (simp add: pbit_def)

lemma remaining_gt:
  fixes i n :: nat
  assumes "i < n"
  shows "i mod 64 < n - 64 * (i div 64)"
proof -
  have "64 * (i div 64) + i mod 64 = i" by (rule mult_div_mod_eq)
  with assms show ?thesis by linarith
qed

lemma bit_invert_word:
  "j < remaining \<Longrightarrow> j < 64 \<Longrightarrow> bit (invert_word remaining a b) j \<longleftrightarrow> \<not> bit a j \<or> bit b j"
  by (auto simp: invert_word_def bit_simps)

lemma bit_copy_inverted_word:
  "j < remaining \<Longrightarrow> j < 64 \<Longrightarrow> bit (copy_inverted_word remaining a b) j \<longleftrightarrow> \<not> bit a j \<or> bit b j"
  by (auto simp: copy_inverted_word_def bit_simps)

lemma bit4_not_of: "bit4_not (bit4_of a b) = bit4_of (\<not> a \<or> b) b"
  by (simp add: bit4_of_def)

lemma v4_invert:
  assumes "v4_inv v"
  shows "v4_inv (v4_invert v)" and "v4_list (v4_invert v) = map bit4_not (v4_list v)"
proof -
  show inv: "v4_inv (v4_invert v)"
    using assms v4_inv_long [OF assms] by (auto simp: v4_invert_def v4_inv_def Let_def)
  show "v4_list (v4_invert v) = map bit4_not (v4_list v)"
  proof (rule v4_listI)
    fix i assume i: "i < length (map bit4_not (v4_list v))"
    show "v4_value (v4_invert v) i = map bit4_not (v4_list v) ! i"
    proof (cases "v4_size v > 64")
      case True
      then show ?thesis
        using i inv assms div_less_words_for [of i "v4_size v"] remaining_gt [of i "v4_size v"]
        by (simp add: v4_value_pbit bit4_not_of)
          (simp add: v4_invert_def pbit_map_upt bit_invert_word pbit_def)
    next
      case False
      then show ?thesis
        using i inv assms v4_inv_short [OF assms]
        by (simp add: v4_value_pbit bit4_not_of)
          (simp add: v4_invert_def pbit_def Let_def bit_simps)
    qed
  qed (simp add: v4_invert_def Let_def)
qed

lemma v4_not:
  assumes "v4_inv v"
  shows "v4_inv (v4_not v)" and "v4_list (v4_not v) = map bit4_not (v4_list v)"
proof -
  show inv: "v4_inv (v4_not v)"
    using assms v4_inv_long [OF assms] words_for_small [of "v4_size v"]
    by (cases "v4_size v = 0") (auto simp: v4_not_def v4_inv_def Let_def)
  show "v4_list (v4_not v) = map bit4_not (v4_list v)"
  proof (rule v4_listI)
    fix i assume i: "i < length (map bit4_not (v4_list v))"
    show "v4_value (v4_not v) i = map bit4_not (v4_list v) ! i"
    proof (cases "v4_size v > 64")
      case True
      then show ?thesis
        using i inv assms div_less_words_for [of i "v4_size v"] remaining_gt [of i "v4_size v"]
        by (simp add: v4_value_pbit bit4_not_of)
          (simp add: v4_not_def Let_def pbit_map_upt bit_copy_inverted_word pbit_def)
    next
      case False
      then show ?thesis
        using i inv assms
        by (simp add: v4_value_pbit bit4_not_of)
          (auto simp: v4_not_def pbit_def Let_def bit_simps)
    qed
  qed (simp add: v4_not_def Let_def)
qed

lemma v4_map2_list:
  assumes inv: "v4_inv v" "v4_inv w" and wid: "v4_size v = v4_size w"
    and f: "\<And>a b a' b' j. j < 64 \<Longrightarrow>
      bit4_of (bit (fst (f a b a' b')) j) (bit (snd (f a b a' b')) j)
        = oper (bit4_of (bit a j) (bit b j)) (bit4_of (bit a' j) (bit b' j))"
  obtains r where "v4_map2 f v w = Some r" and "v4_inv r"
    and "v4_list r = map2 oper (v4_list v) (v4_list w)"
proof -
  define g where "g = (\<lambda>k. f (v4_abits v ! k) (v4_bbits v ! k) (v4_abits w ! k) (v4_bbits w ! k))"
  define r where "r = v\<lparr>v4_abits := map fst (map g [0..<length (v4_abits v)]),
      v4_bbits := map snd (map g [0..<length (v4_abits v)])\<rparr>"
  have r: "v4_map2 f v w = Some r"
    using wid by (simp add: v4_map2_def v4_same_words_def Let_def r_def g_def)
  have rinv: "v4_inv r" using inv v4_inv_len(2) [OF inv(1)] by (simp add: r_def v4_inv_def)
  have "v4_list r = map2 oper (v4_list v) (v4_list w)"
  proof (rule v4_listI)
    fix i assume "i < length (map2 oper (v4_list v) (v4_list w))"
    then show "v4_value r i = map2 oper (v4_list v) (v4_list w) ! i"
      using wid inv rinv v4_inv_lt [OF inv(1), of i]
      by (simp add: v4_value_pbit) (simp add: r_def pbit_map_upt pbit_def g_def f)
  qed (simp add: r_def wid)
  with r rinv that show thesis by blast
qed

lemma and_words_bits:
  "j < 64 \<Longrightarrow> bit4_of (bit (fst (and_words a b a' b')) j) (bit (snd (and_words a b a' b')) j)
     = bit4_and (bit4_of (bit a j) (bit b j)) (bit4_of (bit a' j) (bit b' j))"
  by (auto simp: and_words_def Let_def bit_simps bit4_of_def bit4_simps)

lemma or_words_bits:
  "j < 64 \<Longrightarrow> bit4_of (bit (fst (or_words a b a' b')) j) (bit (snd (or_words a b a' b')) j)
     = bit4_or (bit4_of (bit a j) (bit b j)) (bit4_of (bit a' j) (bit b' j))"
  by (auto simp: or_words_def Let_def bit_simps bit4_of_def bit4_simps)

lemma xor_words_bits:
  "j < 64 \<Longrightarrow> bit4_of (bit (fst (xor_words a b a' b')) j) (bit (snd (xor_words a b a' b')) j)
     = bit4_xor (bit4_of (bit a j) (bit b j)) (bit4_of (bit a' j) (bit b' j))"
  by (auto simp: xor_words_def Let_def bit_simps bit4_of_def bit4_simps)

section \<open>Reductions\<close>

text \<open>The reference reductions: the operators of the language folded over the bits.\<close>

lemma foldr_or_table:
  "foldr bit4_or bs BIT4_0 =
    (if BIT4_1 \<in> set bs then BIT4_1 else if list_ex bit4_is_xz bs then BIT4_X else BIT4_0)"
proof (induction bs)
  case (Cons b bs)
  then show ?case by (cases b) (simp_all add: bit4_or_table)
qed simp

lemma foldr_and_table:
  "foldr bit4_and bs BIT4_1 =
    (if BIT4_0 \<in> set bs then BIT4_0 else if list_ex bit4_is_xz bs then BIT4_X else BIT4_1)"
proof (induction bs)
  case (Cons b bs)
  then show ?case by (cases b) (simp_all add: bit4_and_table)
qed simp

definition odd_ones :: "vvp_bit4_t list \<Rightarrow> bool" where
  "odd_ones bs = odd (count_list bs BIT4_1)"

lemma foldr_xor_table:
  "foldr bit4_xor bs BIT4_0 =
    (if list_ex bit4_is_xz bs then BIT4_X else if odd_ones bs then BIT4_1 else BIT4_0)"
proof (induction bs)
  case (Cons b bs)
  then show ?case by (cases b) (simp_all add: bit4_xor_table odd_ones_def)
qed (simp add: odd_ones_def)

lemma reduce_loop_result:
  "reduce_loop hit d A B ks res =
    (if \<exists>k \<in> set ks. hit (A ! k) (B ! k) then Inl d
     else Inr (if \<exists>k \<in> set ks. B ! k \<noteq> 0 then BIT4_X else res))"
  by (induction ks arbitrary: res) auto

lemma bit_BIT_MASK: "n < 64 \<Longrightarrow> bit (BIT_MASK n) j \<longleftrightarrow> j < 64 \<and> (n = 0 \<or> j < n)"
  by (auto simp: BIT_MASK_def bit_simps)

text \<open>
  The words before the last one in full and the last one under \<^verbatim>\<open>BIT_MASK\<close>: again exactly the
  bits below the width.
\<close>

lemma last_word_masked:
  assumes "0 < n"
  shows "(\<exists>k < words_for n - 1. \<exists>j < 64. Q k j)
      \<or> (\<exists>j < 64. bit (BIT_MASK (n mod 64)) j \<and> Q (words_for n - 1) j)
    \<longleftrightarrow> (\<exists>i < n. Q (i div 64) (i mod (64 :: nat)))"
proof (cases "n mod 64 = 0")
  case True
  then have w: "words_for n = n div 64" and pos: "0 < n div 64"
    using assms by (auto simp: words_for_tail)
  have last: "k < n div 64 \<longleftrightarrow> k < n div 64 - 1 \<or> k = n div 64 - 1" for k using pos by linarith
  have "(\<exists>k < words_for n - 1. \<exists>j < 64. Q k j)
      \<or> (\<exists>j < 64. bit (BIT_MASK (n mod 64)) j \<and> Q (words_for n - 1) j)
      \<longleftrightarrow> (\<exists>k < n div 64. \<exists>j < 64. Q k j)"
    unfolding w last by (simp add: bit_BIT_MASK True) blast
  then show ?thesis
    using whole_words_and_tail [of n "\<lambda>k j. \<not> Q k j"] True by auto
next
  case False
  then have "words_for n - 1 = n div 64" by (simp add: words_for_tail)
  moreover have "j < n mod 64 \<longleftrightarrow> j < 64 \<and> j < n mod 64" for j
    by (meson less_trans mod_less_divisor zero_less_numeral)
  ultimately show ?thesis
    using whole_words_and_tail [of n "\<lambda>k j. \<not> Q k j"] False
    by (simp add: bit_BIT_MASK) blast
qed

lemma word_neq_0_iff: "(w :: ulong) \<noteq> 0 \<longleftrightarrow> (\<exists>j < 64. bit w j)"
  by (simp add: ulong_eq_0_iff)

lemma word_neq_1s_iff: "(w :: ulong) \<noteq> - 1 \<longleftrightarrow> (\<exists>j < 64. \<not> bit w j)"
  by (simp add: ulong_eq_1s_iff)

lemma v4_short_words: "0 < v4_size v \<Longrightarrow> v4_size v \<le> 64 \<Longrightarrow> words_for (v4_size v) - 1 = 0"
  by (simp add: words_for_small)

lemma v4_xz_words:
  assumes "v4_inv v" and "0 < v4_size v"
  shows "(\<exists>k < words_for (v4_size v) - 1. v4_bbits v ! k \<noteq> 0)
      \<or> v4_bbits v ! (words_for (v4_size v) - 1) AND BIT_MASK (v4_size v mod 64) \<noteq> 0
    \<longleftrightarrow> list_ex bit4_is_xz (v4_list v)"
  using last_word_masked [OF assms(2), of "\<lambda>k j. bit (v4_bbits v ! k) j"] assms(1)
  by (auto simp: word_neq_0_iff bit_and_iff list_ex_iff set_v4_list v4_value_pbit pbit_def)

lemma v4_ones_words:
  assumes "v4_inv v" and "0 < v4_size v"
  shows "(\<exists>k < words_for (v4_size v) - 1. v4_abits v ! k AND NOT (v4_bbits v ! k) \<noteq> 0)
      \<or> v4_abits v ! (words_for (v4_size v) - 1) AND NOT (v4_bbits v ! (words_for (v4_size v) - 1))
          AND BIT_MASK (v4_size v mod 64) \<noteq> 0
    \<longleftrightarrow> BIT4_1 \<in> set (v4_list v)"
  using last_word_masked [OF assms(2), of "\<lambda>k j. bit (v4_abits v ! k) j \<and> \<not> bit (v4_bbits v ! k) j"]
    assms(1)
  by (auto simp: word_neq_0_iff bit_and_iff bit_not_iff set_v4_list v4_value_pbit pbit_def image_iff)

lemma v4_zeros_words:
  assumes "v4_inv v" and "0 < v4_size v"
  shows "(\<exists>k < words_for (v4_size v) - 1. v4_abits v ! k OR v4_bbits v ! k \<noteq> NOT 0)
      \<or> v4_abits v ! (words_for (v4_size v) - 1) OR v4_bbits v ! (words_for (v4_size v) - 1)
          OR NOT (BIT_MASK (v4_size v mod 64)) \<noteq> NOT 0
    \<longleftrightarrow> BIT4_0 \<in> set (v4_list v)"
  using last_word_masked [OF assms(2), of "\<lambda>k j. \<not> bit (v4_abits v ! k) j \<and> \<not> bit (v4_bbits v ! k) j"]
    assms(1)
  by (auto simp: word_neq_1s_iff bit_or_iff bit_not_iff set_v4_list v4_value_pbit pbit_def image_iff)

lemma v4_reduce_or_list:
  assumes "v4_inv v" and "0 < v4_size v"
  shows "v4_reduce_or v = foldr bit4_or (v4_list v) BIT4_0"
proof -
  let ?w = "words_for (v4_size v)" and ?m = "BIT_MASK (v4_size v mod 64)"
  have "v4_reduce_or v =
      (if (\<exists>k < ?w - 1. v4_abits v ! k AND NOT (v4_bbits v ! k) \<noteq> 0)
          \<or> v4_abits v ! (?w - 1) AND NOT (v4_bbits v ! (?w - 1)) AND ?m \<noteq> 0 then BIT4_1
       else if (\<exists>k < ?w - 1. v4_bbits v ! k \<noteq> 0) \<or> v4_bbits v ! (?w - 1) AND ?m \<noteq> 0 then BIT4_X
       else BIT4_0)"
    using v4_short_words [OF assms(2)]
    by (cases "v4_size v \<le> 64") (auto simp: v4_reduce_or_def Let_def reduce_loop_result)
  then show ?thesis
    unfolding v4_ones_words [OF assms] v4_xz_words [OF assms] foldr_or_table .
qed

lemma v4_reduce_and_list:
  assumes "v4_inv v" and "0 < v4_size v"
  shows "v4_reduce_and v = foldr bit4_and (v4_list v) BIT4_1"
proof -
  let ?w = "words_for (v4_size v)" and ?m = "BIT_MASK (v4_size v mod 64)"
  have "v4_reduce_and v =
      (if (\<exists>k < ?w - 1. v4_abits v ! k OR v4_bbits v ! k \<noteq> NOT 0)
          \<or> v4_abits v ! (?w - 1) OR v4_bbits v ! (?w - 1) OR NOT ?m \<noteq> NOT 0 then BIT4_0
       else if (\<exists>k < ?w - 1. v4_bbits v ! k \<noteq> 0) \<or> v4_bbits v ! (?w - 1) AND ?m \<noteq> 0 then BIT4_X
       else BIT4_1)"
    using v4_short_words [OF assms(2)]
    by (cases "v4_size v \<le> 64")
      (auto simp: v4_reduce_and_def Let_def reduce_loop_result)
  then show ?thesis
    unfolding v4_zeros_words [OF assms] v4_xz_words [OF assms] foldr_and_table .
qed

text \<open>The exclusive or of the first \<open>n\<close> bits of a sequence.\<close>

primrec xpar :: "(nat \<Rightarrow> bool) \<Rightarrow> nat \<Rightarrow> bool" where
  "xpar f 0 = False"
| "xpar f (Suc n) = (f n \<noteq> xpar f n)"

lemma xpar_cong: "(\<And>i. i < n \<Longrightarrow> f i = g i) \<Longrightarrow> xpar f n = xpar g n"
  by (induction n) auto

lemma xpar_xor: "xpar (\<lambda>i. f i \<noteq> g i) n = (xpar f n \<noteq> xpar g n)"
  by (induction n) auto

lemma xpar_add: "xpar f (m + n) = (xpar f m \<noteq> xpar (\<lambda>i. f (m + i)) n)"
  by (induction n) auto

lemma xpar_false: "(\<And>i. i < n \<Longrightarrow> \<not> f i) \<Longrightarrow> \<not> xpar f n"
  by (induction n) auto

lemma xpar_fold_word:
  "xpar (bit (w XOR drop_bit k w :: ulong)) k = xpar (bit w) (k + k)"
proof -
  have "xpar (bit (w XOR drop_bit k w)) k = xpar (\<lambda>i. bit w i \<noteq> bit w (k + i)) k"
    by (rule xpar_cong) (simp add: bit_xor_iff bit_drop_bit_eq)
  then show ?thesis by (simp only: xpar_xor xpar_add)
qed

lemma xpar_4: "xpar f 4 = (f 3 \<noteq> (f 2 \<noteq> (f 1 \<noteq> f 0)))"
  by (simp add: eval_nat_numeral)

lemma parity_nibble: "n < 16 \<Longrightarrow> bit (0x6996 :: nat) n = xpar (bit n) 4"
proof -
  assume "n < 16"
  then have "n \<in> set [0, 1, 2, 3, 4, 5, 6, 7, 8, 9, 10, 11, 12, 13, 14, 15]"
    unfolding list.set insert_iff empty_iff by presburger
  moreover have "\<forall>n \<in> set [0, 1, 2, 3, 4, 5, 6, 7, 8, 9, 10, 11, 12, 13, 14, 15 :: nat].
      bit (0x6996 :: nat) n = xpar (bit n) 4"
    by (simp add: xpar_4 bit_0)
  ultimately show ?thesis by blast
qed

lemma parity_xpar: "parity w \<noteq> 0 \<longleftrightarrow> xpar (bit w) 64"
proof -
  define w1 where "w1 = w XOR drop_bit 32 w"
  define w2 where "w2 = w1 XOR drop_bit 16 w1"
  define w3 where "w3 = w2 XOR drop_bit 8 w2"
  define w4 where "w4 = w3 XOR drop_bit 4 w3"
  define n where "n = unat (w4 AND 15)"
  have m: "(15 :: ulong) = lomask 4" by (simp add: lomask_def)
  have n: "n = take_bit 4 (unat w4)"
    by (simp add: n_def m and_lomask_take_bit unsigned_take_bit_eq)
  have "n < 16" using take_bit_nat_less_exp [of 4 "unat w4"] by (simp add: n)
  have "parity w \<noteq> 0 \<longleftrightarrow> drop_bit n (0x6996 :: ulong) AND 1 \<noteq> 0"
    by (simp add: parity_def Let_def w1_def w2_def w3_def w4_def n_def)
  also have "\<dots> \<longleftrightarrow> bit (0x6996 :: ulong) n" by (simp add: and_1_word bit_drop_bit_eq)
  also have "\<dots> \<longleftrightarrow> bit (unat (0x6996 :: ulong)) n" by (simp only: bit_unsigned_iff) simp
  also have "\<dots> \<longleftrightarrow> xpar (bit n) 4" using parity_nibble [OF \<open>n < 16\<close>] by simp
  also have "\<dots> \<longleftrightarrow> xpar (bit w4) 4"
    by (rule xpar_cong) (simp add: n bit_take_bit_iff bit_unsigned_iff)
  also have "\<dots> \<longleftrightarrow> xpar (bit w3) 8" using xpar_fold_word [of w3 4] by (simp add: w4_def)
  also have "\<dots> \<longleftrightarrow> xpar (bit w2) 16" using xpar_fold_word [of w2 8] by (simp add: w3_def)
  also have "\<dots> \<longleftrightarrow> xpar (bit w1) 32" using xpar_fold_word [of w1 16] by (simp add: w2_def)
  also have "\<dots> \<longleftrightarrow> xpar (bit w) 64" using xpar_fold_word [of w 32] by (simp add: w1_def)
  finally show ?thesis .
qed

lemma xpar_word_xor: "xpar (bit (v XOR w :: ulong)) n = (xpar (bit v) n \<noteq> xpar (bit w) n)"
  using xpar_xor [of "bit v" "bit w" n] by (simp add: bit_xor_iff [abs_def])

lemma xor_loop_result:
  "xor_loop A B [0..<n] acc =
    (if \<exists>k < n. B ! k \<noteq> 0 then None else Some (foldl (\<lambda>x k. x XOR A ! k) acc [0..<n]))"
proof -
  have "xor_loop A B ks acc =
      (if \<exists>k \<in> set ks. B ! k \<noteq> 0 then None else Some (foldl (\<lambda>x k. x XOR A ! k) acc ks))" for ks
    by (induction ks arbitrary: acc) auto
  then show ?thesis by simp
qed

lemma xpar_foldl_words:
  "xpar (bit (foldl (\<lambda>x k. x XOR A ! k) acc [0..<n])) 64 = (xpar (bit acc) 64 \<noteq> xpar (pbit A) (64 * n))"
proof (induction n)
  case (Suc n)
  have "xpar (pbit A) (64 * n + 64) = (xpar (pbit A) (64 * n) \<noteq> xpar (\<lambda>i. pbit A (64 * n + i)) 64)"
    by (rule xpar_add)
  moreover have "xpar (\<lambda>i. pbit A (64 * n + i)) 64 = xpar (bit (A ! n)) 64"
    by (rule xpar_cong) (simp add: pbit_def)
  ultimately show ?case using Suc.IH by (simp add: xpar_word_xor add.commute) blast
qed simp

lemma odd_ones_xpar: "odd_ones (map f [0..<n]) = xpar (\<lambda>i. f i = BIT4_1) n"
  by (induction n) (auto simp: odd_ones_def)

lemma v4_reduce_xor_list:
  assumes "v4_inv v" and "0 < v4_size v"
  shows "v4_reduce_xor v = foldr bit4_xor (v4_list v) BIT4_0"
proof -
  let ?n = "v4_size v"
  let ?w = "words_for ?n - 1" and ?m = "BIT_MASK (?n mod 64)"
  let ?acc = "foldl (\<lambda>x k. x XOR v4_abits v ! k) 0 [0..<?w]"
  have def_eq: "v4_reduce_xor v =
      (if (\<exists>k < ?w. v4_bbits v ! k \<noteq> 0) \<or> v4_bbits v ! ?w AND ?m \<noteq> 0 then BIT4_X
       else if parity (?acc XOR (v4_abits v ! ?w AND ?m)) \<noteq> 0 then BIT4_1 else BIT4_0)"
    using v4_short_words [OF assms(2)]
    by (cases "?n \<le> 64") (auto simp: v4_reduce_xor_def Let_def xor_loop_result)
  have "parity (?acc XOR (v4_abits v ! ?w AND ?m)) \<noteq> 0 \<longleftrightarrow> odd_ones (v4_list v)"
    if no_xz: "\<not> list_ex bit4_is_xz (v4_list v)"
  proof -
    obtain t where n: "?n = 64 * ?w + t" "0 < t" "t \<le> 64" "?n mod 64 = t mod 64"
      using last_word_bits [OF assms(2)] by blast
    have m: "bit ?m j \<longleftrightarrow> j < t" if "j < 64" for j
      unfolding n(4) using that n(2,3) by (cases "t = 64") (auto simp: bit_BIT_MASK)
    have split: "64 = t + (64 - t)" using n(3) by simp
    have "xpar (bit (v4_abits v ! ?w AND ?m)) 64
        = xpar (\<lambda>i. pbit (v4_abits v) (64 * ?w + i) \<and> i < t) 64"
      by (rule xpar_cong) (simp add: bit_and_iff pbit_def m)
    also have "\<dots> = xpar (\<lambda>i. pbit (v4_abits v) (64 * ?w + i) \<and> i < t) t"
      by (subst split, subst xpar_add) (simp add: xpar_false)
    also have "\<dots> = xpar (\<lambda>i. pbit (v4_abits v) (64 * ?w + i)) t"
      by (rule xpar_cong) simp
    finally have "xpar (bit (?acc XOR (v4_abits v ! ?w AND ?m))) 64 = xpar (pbit (v4_abits v)) ?n"
      using xpar_foldl_words [of "v4_abits v" 0 ?w] xpar_add [of "pbit (v4_abits v)" "64 * ?w" t]
      unfolding n(1) [symmetric] by (simp add: xpar_word_xor xpar_false)
    moreover have "xpar (pbit (v4_abits v)) ?n = xpar (\<lambda>i. v4_value v i = BIT4_1) ?n"
      using no_xz assms(1)
      by (intro xpar_cong) (auto simp: v4_value_pbit list_ex_iff set_v4_list)
    ultimately show ?thesis by (simp add: parity_xpar v4_list_def odd_ones_xpar)
  qed
  then show ?thesis
    unfolding def_eq v4_xz_words [OF assms] foldr_xor_table by simp
qed

end
