(* ===== verification/Vector4_Move.thy ===== *)
theory Vector4_Move
  imports Vector4
begin

text \<open>
  The data movement operations of \<^verbatim>\<open>vvp_vector4_t\<close> in \<^verbatim>\<open>vvp/vvp_net.cc\<close> and
  \<^verbatim>\<open>vvp/vvp_net.h\<close>: part select, \<^verbatim>\<open>resize\<close>, \<^verbatim>\<open>set_vec\<close>, the shifts, \<^verbatim>\<open>mov\<close>,
  concatenation, \<^verbatim>\<open>copy_bits\<close>, and the conversions \<^verbatim>\<open>subarray\<close> and \<^verbatim>\<open>setarray\<close> to and from
  two-valued word arrays.  The C++ code treats the A and the B plane with the same statements one
  after the other; each such pair is one function on a plane here, applied to both.  The lemmas
  give every operation as an equation on the list of bits (least significant first).
\<close>

section \<open>Part select\<close>

text \<open>
  The loop for a long, unaligned selection.  Every turn fills one word of the fresh destination,
  so the result is the list of the words it writes.
\<close>

function sub_loop :: "plane \<Rightarrow> nat \<Rightarrow> nat \<Rightarrow> nat \<Rightarrow> nat \<Rightarrow> plane" where
  "sub_loop ws off wid trn ptr =
    (if off < 64 \<and> trn < wid then
       let noff = BITS_PER_WORD - off;
           lmask = lomask off;
           low = drop_bit off (ws ! ptr AND NOT lmask);
           trn1 = trn + noff
       in if trn1 \<ge> wid then [low]
          else (low OR push_bit noff (ws ! (ptr + 1) AND lmask))
            # sub_loop ws off wid (trn1 + off) (ptr + 1)
     else [])"
  by pat_completeness auto
termination
  by (relation "measure (\<lambda>(ws, off, wid, trn, ptr). wid - trn)") auto

declare sub_loop.simps [simp del]

definition sub_plane :: "nat \<Rightarrow> plane \<Rightarrow> nat \<Rightarrow> nat \<Rightarrow> plane" where
  "sub_plane that_size ws adr wid =
    (if wid > BITS_PER_WORD then
       let ptr = adr div BITS_PER_WORD; off = adr mod BITS_PER_WORD in
       if off = 0 then take (words_for wid) (drop ptr ws)
       else sub_loop ws off wid 0 ptr
     else if that_size > BITS_PER_WORD then
       let ptr = adr div BITS_PER_WORD; off = adr mod BITS_PER_WORD;
           trn = min (BITS_PER_WORD - off) wid in
       if trn = BITS_PER_WORD then [ws ! ptr]
       else
         let lmask = push_bit off (lomask trn);
             low = drop_bit off (ws ! ptr AND lmask) in
         if trn < wid
         then [low OR push_bit trn (ws ! (ptr + 1) AND lomask (wid - trn))]
         else [low]
     else if wid = BITS_PER_WORD then [ws ! 0]
     else [drop_bit adr (ws ! 0 AND push_bit adr (lomask wid))])"

text \<open>The constructor behind \<^verbatim>\<open>subvalue\<close>: x bits beyond the source.\<close>

definition v4_subvalue :: "vvp_vector4_t \<Rightarrow> nat \<Rightarrow> nat \<Rightarrow> vvp_vector4_t option" where
  "v4_subvalue that adr wid =
    (if wid = 0 \<or> adr \<ge> v4_size that then Some (allocate_words wid (- 1) (- 1))
     else if wid > v4_size that - adr then
       let use_wid = v4_size that - adr in
       for_each (\<lambda>idx r. v4_set_bit r idx (v4_value that (adr + idx))) [0..<use_wid]
         (allocate_words wid (- 1) (- 1))
     else Some \<lparr>v4_size = wid, v4_abits = sub_plane (v4_size that) (v4_abits that) adr wid,
       v4_bbits = sub_plane (v4_size that) (v4_bbits that) adr wid\<rparr>)"

section \<open>Resize\<close>

definition resize_plane :: "nat \<Rightarrow> nat \<Rightarrow> ulong \<Rightarrow> plane \<Rightarrow> plane" where
  "resize_plane wid newsize pad ws =
    (let cnt = words_for wid in
     if newsize > BITS_PER_WORD then
       let newcnt = words_for newsize; fill = wid mod BITS_PER_WORD in
       if newcnt = cnt then
         if newsize > wid \<and> fill \<noteq> 0
         then ws[cnt - 1 := (ws ! (cnt - 1) AND NOT (himask fill)) OR push_bit fill pad]
         else ws
       else
         let kept = (if cnt > 1 then take (min cnt newcnt) ws else [ws ! 0]);
             newbits = kept @ replicate (newcnt - length kept) pad in
         if newsize > wid then
           let newbits = (if fill \<noteq> 0
               then newbits[cnt - 1 := (newbits ! (cnt - 1) AND NOT (himask fill)) OR push_bit fill pad]
               else newbits)
           in map (\<lambda>idx. if idx < cnt then newbits ! idx else pad) [0..<newcnt]
         else newbits
     else
       let w = ws ! 0 in
       if newsize > wid then [(w AND NOT (himask wid)) OR push_bit wid pad] else [w])"

definition v4_resize :: "vvp_vector4_t \<Rightarrow> nat \<Rightarrow> vvp_bit4_t \<Rightarrow> vvp_vector4_t" where
  "v4_resize v newsize pad_bit =
    (if v4_size v = newsize then v
     else \<lparr>v4_size = newsize,
       v4_abits = resize_plane (v4_size v) newsize (init_atable pad_bit) (v4_abits v),
       v4_bbits = resize_plane (v4_size v) newsize (init_btable pad_bit) (v4_bbits v)\<rparr>)"

section \<open>Set a subvector\<close>

text \<open>
  The store of \<^verbatim>\<open>set_vec\<close>: the word is written, and the difference flag raised, only when the
  masked bits change.
\<close>

definition masked_store :: "nat \<Rightarrow> ulong \<Rightarrow> ulong \<Rightarrow> bool \<times> plane \<Rightarrow> bool \<times> plane" where
  "masked_store k m tmp dws = (case dws of (diff, ws) \<Rightarrow>
     if ws ! k AND m \<noteq> tmp then (True, ws[k := (ws ! k AND NOT m) OR tmp]) else (diff, ws))"

definition word_store :: "nat \<Rightarrow> ulong \<Rightarrow> bool \<times> plane \<Rightarrow> bool \<times> plane" where
  "word_store k w dws = (case dws of (diff, ws) \<Rightarrow>
     if ws ! k \<noteq> w then (True, ws[k := w]) else (diff, ws))"

definition hmask_at :: "nat \<Rightarrow> ulong" where
  "hmask_at hshift = (if hshift \<ge> BITS_PER_WORD then - 1 else lomask hshift)"

text \<open>A source of one word into a long destination, which may straddle two words.\<close>

definition set_short :: "nat \<Rightarrow> nat \<Rightarrow> ulong \<Rightarrow> bool \<times> plane \<Rightarrow> bool \<times> plane" where
  "set_short adr that_size w dws =
    (let dptr = adr div BITS_PER_WORD; doff = adr mod BITS_PER_WORD;
         m = hmask_at (doff + that_size) AND NOT (lomask doff);
         dws = masked_store dptr m (push_bit doff w AND m) dws
     in if doff + that_size > BITS_PER_WORD then
          let tail = doff + that_size - BITS_PER_WORD; m = lomask tail
          in masked_store (dptr + 1) m (drop_bit (that_size - tail) w AND m) dws
        else dws)"

text \<open>Both long, destination aligned: whole words, then the masked remainder.\<close>

function set_aligned :: "plane \<Rightarrow> nat \<Rightarrow> nat \<Rightarrow> nat \<Rightarrow> bool \<times> plane \<Rightarrow> bool \<times> plane" where
  "set_aligned src remain sptr dptr dws =
    (if remain \<ge> BITS_PER_WORD then
       set_aligned src (remain - BITS_PER_WORD) (sptr + 1) (dptr + 1) (word_store dptr (src ! sptr) dws)
     else if remain > 0 then
       let m = lomask remain in masked_store dptr m (src ! sptr AND m) dws
     else dws)"
  by pat_completeness auto
termination
  by (relation "measure (\<lambda>(src, remain, sptr, dptr, dws). remain)") auto

declare set_aligned.simps [simp del]

text \<open>Both long, destination unaligned: every source word goes into two destination words.\<close>

function set_unaligned ::
  "plane \<Rightarrow> nat \<Rightarrow> nat \<Rightarrow> nat \<Rightarrow> nat \<Rightarrow> bool \<times> plane \<Rightarrow> bool \<times> plane" where
  "set_unaligned src doff remain sptr dptr dws =
    (let lmask = lomask doff; ndoff = BITS_PER_WORD - doff in
     if remain \<ge> BITS_PER_WORD then
       let dws = masked_store dptr (NOT lmask) (push_bit doff (src ! sptr) AND NOT lmask) dws;
           dws = masked_store (dptr + 1) lmask (drop_bit ndoff (src ! sptr) AND lmask) dws
       in set_unaligned src doff (remain - BITS_PER_WORD) (sptr + 1) (dptr + 1) dws
     else if remain > 0 then
       let m = hmask_at (doff + remain) AND NOT lmask;
           dws = masked_store dptr m (push_bit doff (src ! sptr) AND m) dws
       in if doff + remain > BITS_PER_WORD then
            let tail = doff + remain - BITS_PER_WORD;
                m = (if tail \<ge> BITS_PER_WORD then - 1 else lomask tail)
            in masked_store (dptr + 1) m (drop_bit (remain - tail) (src ! sptr) AND m) dws
          else dws
     else dws)"
  by pat_completeness auto
termination
  by (relation "measure (\<lambda>(src, doff, remain, sptr, dptr, dws). remain)") auto

declare set_unaligned.simps [simp del]

definition set_plane :: "nat \<Rightarrow> nat \<Rightarrow> nat \<Rightarrow> plane \<Rightarrow> bool \<times> plane \<Rightarrow> bool \<times> plane" where
  "set_plane wid adr that_size src dws =
    (if wid \<le> BITS_PER_WORD then
       let m = hmask_at (adr + that_size) AND NOT (lomask adr)
       in masked_store 0 m (push_bit adr (src ! 0) AND m) dws
     else if that_size \<le> BITS_PER_WORD then set_short adr that_size (src ! 0) dws
     else if adr mod BITS_PER_WORD = 0 then
       set_aligned src that_size 0 (adr div BITS_PER_WORD) dws
     else set_unaligned src (adr mod BITS_PER_WORD) that_size 0 (adr div BITS_PER_WORD) dws)"

text \<open>
  The result pairs the difference flag with the updated vector.  A zero width argument at the very
  end (\<open>adr = size\<close>) passes the \<^verbatim>\<open>assert\<close> but makes the source shift by the word width or look
  at a word past the end; that is \<open>None\<close> too.
\<close>

definition v4_set_vec :: "vvp_vector4_t \<Rightarrow> nat \<Rightarrow> vvp_vector4_t \<Rightarrow> (bool \<times> vvp_vector4_t) option" where
  "v4_set_vec v adr that =
    (if adr + v4_size that \<le> v4_size v \<and> adr < v4_size v then
       let (da, A) = set_plane (v4_size v) adr (v4_size that) (v4_abits that) (False, v4_abits v);
           (db, B) = set_plane (v4_size v) adr (v4_size that) (v4_bbits that) (False, v4_bbits v)
       in Some (da \<or> db, v\<lparr>v4_abits := A, v4_bbits := B\<rparr>)
     else None)"

section \<open>Part select is the selected bits\<close>

lemma pbit_shift_word: "j < 64 \<Longrightarrow> pbit ws (64 * p + j) = bit (ws ! p) j"
  by (simp add: pbit_def)

lemma pbit_next_word:
  "64 \<le> j \<Longrightarrow> j < 128 \<Longrightarrow> pbit ws (64 * p + j) = bit (ws ! (p + 1)) (j - 64)"
  using pbit_shift_word [of "j - 64" ws "p + 1"] by (simp add: algebra_simps)

definition sub_low :: "plane \<Rightarrow> nat \<Rightarrow> nat \<Rightarrow> ulong" where
  "sub_low ws off p = drop_bit off (ws ! p AND NOT (lomask off))"

definition sub_high :: "plane \<Rightarrow> nat \<Rightarrow> nat \<Rightarrow> ulong" where
  "sub_high ws off p = push_bit (64 - off) (ws ! (p + 1) AND lomask off)"

lemma sub_loop_step:
  assumes "off < 64" and "t < wid"
  shows "sub_loop ws off wid t p =
    (if t + (64 - off) \<ge> wid then [sub_low ws off p]
     else (sub_low ws off p OR sub_high ws off p) # sub_loop ws off wid (t + 64) (p + 1))"
  using assms by (subst sub_loop.simps) (simp add: Let_def sub_low_def sub_high_def)

lemma sub_loop_done: "wid \<le> t \<Longrightarrow> sub_loop ws off wid t p = []"
  by (subst sub_loop.simps) simp

lemma length_sub_loop:
  assumes "off < 64"
  shows "length (sub_loop ws off wid t p) = words_for (wid - t)"
proof (induction "wid - t" arbitrary: t p rule: less_induct)
  case less
  show ?case
  proof (cases "t < wid")
    case True
    then have step: "words_for (wid - t) = Suc (words_for (wid - (t + 64)))"
      using words_for_step [of "wid - t"] by simp
    have "words_for (wid - t) = 1" if "t + (64 - off) \<ge> wid"
      using that True by (intro words_for_small) auto
    moreover have "length (sub_loop ws off wid (t + 64) (p + 1)) = words_for (wid - (t + 64))"
      using less [of "t + 64"] True by simp
    ultimately show ?thesis using sub_loop_step [OF assms True, of ws p] step by simp
  qed (simp add: sub_loop_done)
qed

lemma bit_sub_low:
  "off < 64 \<Longrightarrow> i < 64 - off \<Longrightarrow> bit (sub_low ws off p) i = pbit ws (64 * p + (off + i))"
  by (subst pbit_shift_word) (auto simp: sub_low_def bit_simps)

lemma bit_sub_low_high:
  assumes "0 < off" and "off < 64" and "i < 64"
  shows "bit (sub_low ws off p OR sub_high ws off p) i = pbit ws (64 * p + (off + i))"
proof (cases "i < 64 - off")
  case True
  then show ?thesis
    using assms bit_sub_low [of off i ws p] by (simp add: bit_or_iff) (auto simp: sub_high_def bit_simps)
next
  case False
  then have "\<not> bit (sub_low ws off p) i"
    by (auto simp: sub_low_def bit_simps dest: bit_ulong_lt)
  moreover have "i - (64 - off) = off + i - 64" using assms False by simp
  then have "bit (sub_high ws off p) i = bit (ws ! (p + 1)) (off + i - 64)"
    using assms False by (auto simp: sub_high_def bit_simps)
  ultimately show ?thesis
    using assms False pbit_next_word [of "off + i" ws p] by (simp add: bit_or_iff)
qed

lemma pbit_sub_loop:
  assumes "off < 64" and "0 < off" and "i < wid - t"
  shows "pbit (sub_loop ws off wid t p) i = pbit ws (64 * p + (off + i))"
  using assms(3)
proof (induction "wid - t" arbitrary: t p i rule: less_induct)
  case less
  then have tw: "t < wid" by simp
  show ?case
  proof (cases "t + (64 - off) \<ge> wid")
    case True
    then have "i < 64 - off" and "i < 64" using less.prems by linarith+
    with True show ?thesis
      using sub_loop_step [OF assms(1) tw, of ws p] bit_sub_low [OF assms(1)] by (simp add: pbit_Cons)
  next
    case False
    have "pbit (sub_loop ws off wid (t + 64) (p + 1)) (i - 64) = pbit ws (64 * p + (off + i))"
      if "64 \<le> i"
    proof -
      have "64 * (p + 1) + (off + (i - 64)) = 64 * p + (off + i)" using that by simp
      then show ?thesis using less.hyps [of "t + 64" "i - 64" "p + 1"] less.prems tw that by simp
    qed
    with False show ?thesis
      using sub_loop_step [OF assms(1) tw, of ws p] bit_sub_low_high [OF assms(2,1)]
      by (simp add: pbit_Cons)
  qed
qed

lemma length_sub_plane:
  assumes "0 < wid" and "adr + wid \<le> n" and "length ws = max 1 (words_for n)"
  shows "length (sub_plane n ws adr wid) = words_for wid"
proof (cases "wid > 64")
  case True
  have "adr div 64 + words_for wid \<le> words_for n" if "adr mod 64 = 0"
  proof -
    have "adr = 64 * (adr div 64)" using that by auto
    then have "adr div 64 + words_for wid = (adr + wid + 63) div 64"
      unfolding words_for_def by (metis div_mult_self4 add.assoc zero_neq_numeral)
    also have "\<dots> \<le> words_for n" unfolding words_for_def using assms(2) by (intro div_le_mono) simp
    finally show ?thesis .
  qed
  with True assms(3) show ?thesis
    by (auto simp: sub_plane_def Let_def length_sub_loop)
qed (use assms(1) in \<open>auto simp: sub_plane_def Let_def words_for_small\<close>)

text \<open>The short selection out of a long vector, from one word or across a word boundary.\<close>

definition sub_mid :: "plane \<Rightarrow> nat \<Rightarrow> nat \<Rightarrow> nat \<Rightarrow> nat \<Rightarrow> ulong" where
  "sub_mid ws p off wid trn =
    (let low = drop_bit off (ws ! p AND push_bit off (lomask trn)) in
     if trn < wid then low OR push_bit trn (ws ! (p + 1) AND lomask (wid - trn)) else low)"

lemma bit_sub_mid:
  assumes "off < 64" and "wid \<le> 64" and "i < wid" and trn: "trn = min (64 - off) wid"
  shows "bit (sub_mid ws p off wid trn) i = pbit ws (64 * p + (off + i))"
proof (cases "i < trn")
  case True
  then have "off + i < 64" using trn by linarith
  with True show ?thesis
    using pbit_shift_word [of "off + i" ws p] by (auto simp: sub_mid_def Let_def bit_simps)
next
  case False
  then have t: "trn < wid" "trn = 64 - off" using assms(3) trn by (auto simp: min_def split: if_splits)
  then have "64 \<le> off + i" "off + i < 128" "i - trn = off + i - 64" "i - trn < wid - trn"
    using False assms(1-3) by linarith+
  moreover have "\<not> bit (drop_bit off (ws ! p AND push_bit off (lomask trn))) i"
    using False by (auto simp: bit_simps)
  ultimately show ?thesis
    using t False assms(2,3) pbit_next_word [of "off + i" ws p]
    by (auto simp: sub_mid_def Let_def bit_simps)
qed

lemma pbit_sub_plane:
  assumes "adr + wid \<le> n" and "length ws = max 1 (words_for n)" and i: "i < wid"
  shows "pbit (sub_plane n ws adr wid) i = pbit ws (adr + i)"
proof -
  let ?p = "adr div 64" and ?off = "adr mod 64"
  have adri: "adr + i = 64 * ?p + (?off + i)" by simp
  have off: "?off < 64" by simp
  consider (aligned) "wid > 64" "?off = 0" | (long) "wid > 64" "0 < ?off" | (mid) "wid \<le> 64" "n > 64"
    | (full) "wid = 64" "n \<le> 64" | (short) "wid < 64" "n \<le> 64" by linarith
  then show ?thesis
  proof cases
    case aligned
    have "i div 64 < words_for wid" using i by (rule div_less_words_for)
    then have "pbit (sub_plane n ws adr wid) i = bit (ws ! (?p + i div 64)) (i mod 64)"
      using aligned length_sub_plane [of wid adr n ws] assms(1,2)
      by (simp add: sub_plane_def pbit_def)
    then show ?thesis unfolding adri aligned(2) by (simp add: pbit_def)
  next
    case long
    then show ?thesis
      unfolding adri using i pbit_sub_loop [OF off, of i wid 0 ws ?p]
      by (simp add: sub_plane_def Let_def)
  next
    case mid
    define trn where "trn = min (64 - ?off) wid"
    have "sub_plane n ws adr wid = [sub_mid ws ?p ?off wid trn]"
    proof (cases "trn = 64")
      case True
      then have "?off = 0" "wid = 64" using off mid by (auto simp: trn_def min_def split: if_splits)
      then show ?thesis using True mid
        by (simp add: sub_plane_def sub_mid_def Let_def trn_def [symmetric] ulong_eq_iff bit_simps)
    qed (use mid in \<open>auto simp: sub_plane_def sub_mid_def Let_def trn_def [symmetric]\<close>)
    then show ?thesis
      unfolding adri using bit_sub_mid [OF off mid(1) i trn_def] mid i by (simp add: pbit_Cons)
  next
    case full
    then have "adr = 0" using assms(1) by simp
    with full i show ?thesis by (simp add: sub_plane_def pbit_def)
  next
    case short
    then have "adr + i < 64" using assms(1) i by simp
    with short i show ?thesis
      by (auto simp: sub_plane_def pbit_def bit_simps)
  qed
qed

lemma v4_invI:
  "length A = max 1 (words_for n) \<Longrightarrow> length B = max 1 (words_for n) \<Longrightarrow>
   v4_inv \<lparr>v4_size = n, v4_abits = A, v4_bbits = B\<rparr>"
  by (simp add: v4_inv_def)

lemma v4_subvalue_spec:
  assumes inv: "v4_inv v"
  obtains r where "v4_subvalue v adr wid = Some r" and "v4_inv r" and "v4_size r = wid"
    and "\<And>i. i < wid \<Longrightarrow> v4_value r i = v4_value v (adr + i)"
proof -
  let ?n = "v4_size v"
  have xs: "v4_value (allocate_words wid (- 1) (- 1)) i = BIT4_X" if "i < wid" for i
    using that by (simp add: allocate_words_value)
  consider (beyond) "wid = 0 \<or> adr \<ge> ?n" | (partial) "0 < wid" "adr < ?n" "wid > ?n - adr"
    | (inside) "0 < wid" "adr < ?n" "wid \<le> ?n - adr" by linarith
  then show thesis
  proof cases
    case beyond
    then show thesis
      using that [of "allocate_words wid (- 1) (- 1)"] xs allocate_words_inv
      by (auto simp: v4_subvalue_def)
  next
    case partial
    obtain r where r: "for_each (\<lambda>idx r. v4_set_bit r (0 + idx) (v4_value v (adr + idx)))
        [0..<?n - adr] (allocate_words wid (- 1) (- 1)) = Some r" "v4_inv r" "v4_size r = wid"
      "\<And>j. j < wid \<Longrightarrow> v4_value r j = (if 0 \<le> j \<and> j < 0 + (?n - adr) then v4_value v (adr + (j - 0))
          else v4_value (allocate_words wid (- 1) (- 1)) j)"
      using v4.set_range [OF allocate_words_inv, of 0 "?n - adr" wid "- 1" "- 1"
          "\<lambda>idx. v4_value v (adr + idx)"] partial by auto
    have "v4_value r i = v4_value v (adr + i)" if "i < wid" for i
      using r(4) [OF that] xs [OF that] by simp
    with r partial show thesis by (intro that [of r]) (simp_all add: v4_subvalue_def)
  next
    case inside
    define r where "r = \<lparr>v4_size = wid, v4_abits = sub_plane ?n (v4_abits v) adr wid,
       v4_bbits = sub_plane ?n (v4_bbits v) adr wid\<rparr>"
    have le: "adr + wid \<le> ?n" using inside by simp
    have len: "length (v4_abits v) = max 1 (words_for ?n)" "length (v4_bbits v) = max 1 (words_for ?n)"
      using inv by (simp_all add: v4_inv_def)
    have "words_for wid = max 1 (words_for wid)" using inside words_for_step [of wid] by simp
    then have rinv: "v4_inv r"
      unfolding r_def using length_sub_plane [OF inside(1) le len(1)]
        length_sub_plane [OF inside(1) le len(2)] by (intro v4_invI) simp_all
    have "v4_value r i = v4_value v (adr + i)" if "i < wid" for i
      using that le rinv inv pbit_sub_plane [OF le len(1) that] pbit_sub_plane [OF le len(2) that]
      by (simp add: v4_value_pbit) (simp add: r_def)
    moreover have "v4_subvalue v adr wid = Some r" using inside by (simp add: v4_subvalue_def r_def)
    ultimately show thesis using rinv by (intro that [of r]) (simp_all add: r_def)
  qed
qed

section \<open>Resize\<close>

lemma bit_pad_at:
  "fill < 64 \<Longrightarrow> j < 64 \<Longrightarrow> bit ((w AND NOT (himask fill)) OR push_bit fill pad) j
     = (if j < fill then bit w j else bit pad (j - fill))"
  by (auto simp: bit_simps)

text \<open>A pad word has all its bits equal.\<close>

definition uniform :: "ulong \<Rightarrow> bool \<Rightarrow> bool" where
  "uniform w b \<longleftrightarrow> (\<forall>j < 64. bit w j = b)"

lemma uniform_init:
  "uniform (init_atable b) (b = BIT4_1 \<or> b = BIT4_X)" "uniform (init_btable b) (b = BIT4_Z \<or> b = BIT4_X)"
  by (cases b; simp add: uniform_def init_atable_def init_btable_def)+

lemma length_resize_plane:
  assumes "length ws = max 1 (words_for n)" and "n \<noteq> m"
  shows "length (resize_plane n m pad ws) = max 1 (words_for m)"
proof -
  have "words_for m = max 1 (words_for m)" if "m > 64" using words_for_gt1 [OF that] by simp
  moreover have "max 1 (words_for m) = 1" if "m \<le> 64"
    using that words_for_small [of m] by (cases "m = 0") simp_all
  moreover have "words_for m \<le> words_for n" if "m < n"
    unfolding words_for_def using that by (intro div_le_mono) simp
  ultimately show ?thesis using assms words_for_gt1 [of m]
    by (auto simp: resize_plane_def Let_def not_less max_def split: if_splits)
qed

lemma nth_resize_plane:
  assumes len: "length ws = max 1 (words_for n)" and "n \<noteq> m" and k: "k < words_for m"
  shows "resize_plane n m pad ws ! k =
    (if m < n then ws ! k
     else if k < words_for n then
       if k = words_for n - 1 \<and> n mod 64 \<noteq> 0
       then (ws ! k AND NOT (himask (n mod 64))) OR push_bit (n mod 64) pad
       else ws ! k
     else pad)"
proof -
  have mono: "words_for x \<le> words_for y" if "x \<le> y" for x y
    unfolding words_for_def using that by (intro div_le_mono) simp
  have eq: "n mod 64 \<noteq> 0" if "words_for n = words_for m" "n < m"
    using that words_for_mult_ge [of m] by (auto simp: words_for_tail split: if_splits)
  consider (long) "m > 64" | (short_up) "m \<le> 64" "n < m" | (short_down) "m \<le> 64" "m < n"
    using assms(2) by linarith
  then show ?thesis
  proof cases
    case long
    then have "1 < words_for m" by (rule words_for_gt1)
    with long show ?thesis
      using k len mono [of n m] mono [of m n] eq assms(2)
      by (auto simp: resize_plane_def Let_def nth_append nth_list_update max_def split: if_splits)
  next
    case short_up
    then have "k = 0" using k words_for_small [of m] by simp
    moreover have "words_for n = (if n = 0 then 0 else 1)" using short_up words_for_small [of n] by simp
    moreover have "(w AND NOT (himask 0)) OR push_bit 0 pad = pad" for w
      by (simp add: ulong_eq_iff bit_simps)
    ultimately show ?thesis using short_up by (simp add: resize_plane_def Let_def)
  next
    case short_down
    then have "k = 0" using k words_for_small [of m] by (cases "m = 0") simp_all
    with short_down show ?thesis by (simp add: resize_plane_def Let_def)
  qed
qed

lemma pbit_resize_plane:
  assumes len: "length ws = max 1 (words_for n)" and "n \<noteq> m" and "uniform pad b" and i: "i < m"
  shows "pbit (resize_plane n m pad ws) i = (if i < n then pbit ws i else b)"
proof -
  have k: "i div 64 < words_for m" using i by (rule div_less_words_for)
  note nth = nth_resize_plane [OF len assms(2) k, of pad]
  have pad: "bit pad j = b" if "j < 64" for j using assms(3) that by (simp add: uniform_def)
  consider (shrink) "m < n" | (beyond) "n < m" "\<not> i div 64 < words_for n"
    | (last) "n < m" "i div 64 = words_for n - 1" "0 < words_for n" "n mod 64 \<noteq> 0"
    | (below) "n < m" "i div 64 < words_for n" "\<not> (i div 64 = words_for n - 1 \<and> n mod 64 \<noteq> 0)"
    using assms(2) by linarith
  then show ?thesis
  proof cases
    case shrink
    with nth i show ?thesis by (simp add: pbit_def)
  next
    case beyond
    then have "\<not> i < n" using div_less_words_for by blast
    with nth beyond pad show ?thesis by (simp add: pbit_def)
  next
    case last
    then have eq: "i div 64 = n div 64" by (simp add: words_for_tail)
    then have "i < n \<longleftrightarrow> i mod 64 < n mod 64"
      by (metis div_mult_mod_eq nat_add_left_cancel_less)
    with nth last pad show ?thesis by (simp add: pbit_def bit_pad_at)
  next
    case below
    then have "i div 64 < n div 64" using words_for_tail [of n] by (cases "n mod 64 = 0") simp_all
    then have "i < n" by (meson div_le_mono leD leI)
    moreover have "resize_plane n m pad ws ! (i div 64) = ws ! (i div 64)"
      unfolding nth using below by (simp only: if_False simp_thms) simp
    ultimately show ?thesis by (simp add: pbit_def)
  qed
qed

lemma v4_resize_list:
  assumes "v4_inv v"
  shows "v4_inv (v4_resize v n pad)" and "v4_size (v4_resize v n pad) = n"
    and "v4_list (v4_resize v n pad) = take n (v4_list v) @ replicate (n - v4_size v) pad"
proof -
  have len: "length (v4_abits v) = max 1 (words_for (v4_size v))"
    "length (v4_bbits v) = max 1 (words_for (v4_size v))"
    using assms by (simp_all add: v4_inv_def)
  show inv: "v4_inv (v4_resize v n pad)"
    using assms len length_resize_plane by (auto simp: v4_resize_def intro!: v4_invI)
  show wid: "v4_size (v4_resize v n pad) = n" by (simp add: v4_resize_def)
  show "v4_list (v4_resize v n pad) = take n (v4_list v) @ replicate (n - v4_size v) pad"
  proof (cases "v4_size v = n")
    case True
    then show ?thesis by (simp add: v4_resize_def)
  next
    case ne: False
    show ?thesis
    proof (rule v4_listI)
      fix i assume "i < length (take n (v4_list v) @ replicate (n - v4_size v) pad)"
      then have i: "i < n" by (auto split: if_splits)
      have "bit4_of (pad = BIT4_1 \<or> pad = BIT4_X) (pad = BIT4_Z \<or> pad = BIT4_X) = pad"
        by (cases pad) simp_all
      then have "v4_value (v4_resize v n pad) i = (if i < v4_size v then v4_value v i else pad)"
        using i inv wid assms ne pbit_resize_plane [OF len(1) ne uniform_init(1) i]
          pbit_resize_plane [OF len(2) ne uniform_init(2) i]
        by (simp add: v4_value_pbit) (simp add: v4_resize_def)
      then show "v4_value (v4_resize v n pad) i =
          (take n (v4_list v) @ replicate (n - v4_size v) pad) ! i"
        using i by (simp add: nth_append)
    qed (use wid in auto)
  qed
qed

section \<open>Storing a range of bits\<close>

text \<open>
  \<open>wrote ws d lo hi f r\<close>: the result \<open>r\<close> is the plane \<open>ws\<close> with the bits \<open>f\<close> in the range
  from \<open>lo\<close> to below \<open>hi\<close>, and its flag is \<open>d\<close> or says that one of these bits changed.
\<close>

definition wrote :: "plane \<Rightarrow> bool \<Rightarrow> nat \<Rightarrow> nat \<Rightarrow> (nat \<Rightarrow> bool) \<Rightarrow> bool \<times> plane \<Rightarrow> bool" where
  "wrote ws d lo hi f r \<longleftrightarrow> length (snd r) = length ws
     \<and> (\<forall>i < 64 * length ws. pbit (snd r) i = (if lo \<le> i \<and> i < hi then f i else pbit ws i))
     \<and> (fst r \<longleftrightarrow> d \<or> (\<exists>i. lo \<le> i \<and> i < hi \<and> pbit ws i \<noteq> f i))"

lemma wrote_nothing: "wrote ws d lo lo f (d, ws)"
  by (auto simp: wrote_def)

lemma wrote_trans:
  assumes "wrote ws d lo mid f r" and "wrote (snd r) (fst r) mid hi f r'"
    and "lo \<le> mid" and "mid \<le> hi" and "hi \<le> 64 * length ws"
  shows "wrote ws d lo hi f r'"
proof -
  have r: "length (snd r) = length ws"
    "\<And>i. i < 64 * length ws \<Longrightarrow> pbit (snd r) i = (if lo \<le> i \<and> i < mid then f i else pbit ws i)"
    "fst r \<longleftrightarrow> d \<or> (\<exists>i. lo \<le> i \<and> i < mid \<and> pbit ws i \<noteq> f i)"
    and r': "length (snd r') = length ws"
    "\<And>i. i < 64 * length ws \<Longrightarrow> pbit (snd r') i = (if mid \<le> i \<and> i < hi then f i else pbit (snd r) i)"
    "fst r' \<longleftrightarrow> fst r \<or> (\<exists>i. mid \<le> i \<and> i < hi \<and> pbit (snd r) i \<noteq> f i)"
    using assms(1,2) by (auto simp: wrote_def)
  have mid: "pbit (snd r) i = pbit ws i" if "mid \<le> i" "i < hi" for i
    using r(2) [of i] that assms(5) by simp
  have "fst r' \<longleftrightarrow> d \<or> (\<exists>i. lo \<le> i \<and> i < hi \<and> pbit ws i \<noteq> f i)"
  proof
    assume "fst r'"
    then show "d \<or> (\<exists>i. lo \<le> i \<and> i < hi \<and> pbit ws i \<noteq> f i)"
      unfolding r'(3) r(3) using mid assms(3,4) by (metis less_le_trans le_trans)
  next
    assume "d \<or> (\<exists>i. lo \<le> i \<and> i < hi \<and> pbit ws i \<noteq> f i)"
    then show "fst r'"
      unfolding r'(3) r(3) using mid by (metis not_less)
  qed
  then show ?thesis
    unfolding wrote_def using r(1,2) r'(1,2) assms(3,4) by auto
qed

lemma wrote_masked_store:
  assumes k: "k < length ws" and ab: "a \<le> b" "b \<le> 64"
    and m: "\<And>j. j < 64 \<Longrightarrow> bit m j \<longleftrightarrow> a \<le> j \<and> j < b"
    and t: "\<And>j. j < 64 \<Longrightarrow> bit t j \<longleftrightarrow> a \<le> j \<and> j < b \<and> f (64 * k + j)"
  shows "wrote ws d (64 * k + a) (64 * k + b) f (masked_store k m t (d, ws))"
proof -
  have range: "64 * k + a \<le> i \<and> i < 64 * k + b \<longleftrightarrow> i div 64 = k \<and> a \<le> i mod 64 \<and> i mod 64 < b" for i
  proof
    assume h: "64 * k + a \<le> i \<and> i < 64 * k + b"
    then have "i div 64 = k" using ab by (intro div_nat_eqI) auto
    moreover have "i = 64 * (i div 64) + i mod 64" by simp
    ultimately show "i div 64 = k \<and> a \<le> i mod 64 \<and> i mod 64 < b" using h by linarith
  next
    assume h: "i div 64 = k \<and> a \<le> i mod 64 \<and> i mod 64 < b"
    moreover have "i = 64 * (i div 64) + i mod 64" by simp
    ultimately show "64 * k + a \<le> i \<and> i < 64 * k + b" by linarith
  qed
  have same: "ws ! k AND m = t \<longleftrightarrow> (\<forall>j. a \<le> j \<and> j < b \<longrightarrow> bit (ws ! k) j = f (64 * k + j))"
    unfolding ulong_eq_iff using ab(2) by (simp add: bit_and_iff m t) (metis less_le_trans)
  have diff: "ws ! k AND m \<noteq> t \<longleftrightarrow> (\<exists>i. 64 * k + a \<le> i \<and> i < 64 * k + b \<and> pbit ws i \<noteq> f i)"
  proof -
    have pb: "pbit ws (64 * k + j) = bit (ws ! k) j" if "j < b" for j
      using that ab by (intro pbit_shift_word) simp
    have "(\<exists>j. a \<le> j \<and> j < b \<and> bit (ws ! k) j \<noteq> f (64 * k + j)) \<longleftrightarrow>
        (\<exists>i. 64 * k + a \<le> i \<and> i < 64 * k + b \<and> pbit ws i \<noteq> f i)" (is "?L \<longleftrightarrow> ?R")
    proof
      assume ?L
      then obtain j where "a \<le> j" "j < b" "bit (ws ! k) j \<noteq> f (64 * k + j)" by blast
      then show ?R using pb [of j] by (intro exI [of _ "64 * k + j"]) simp
    next
      assume ?R
      then obtain i where i: "64 * k + a \<le> i" "i < 64 * k + b" "pbit ws i \<noteq> f i" by blast
      then have "i = 64 * k + (i - 64 * k)" "i - 64 * k < b" "a \<le> i - 64 * k" by linarith+
      then show ?L using pb [of "i - 64 * k"] i(3) by (intro exI [of _ "i - 64 * k"]) simp
    qed
    then show ?thesis unfolding same by blast
  qed
  have new: "pbit (ws[k := (ws ! k AND NOT m) OR t]) i
      = (if 64 * k + a \<le> i \<and> i < 64 * k + b then f i else pbit ws i)" for i
  proof (cases "i div 64 = k")
    case True
    then have i: "64 * k + i mod 64 = i" by (metis mult_div_mod_eq)
    have "pbit (ws[k := (ws ! k AND NOT m) OR t]) i = bit ((ws ! k AND NOT m) OR t) (i mod 64)"
      using True k by (simp add: pbit_update)
    moreover have "pbit ws i = bit (ws ! k) (i mod 64)" using True by (simp add: pbit_def)
    ultimately show ?thesis
      unfolding range using True m [of "i mod 64"] t [of "i mod 64"]
      by (simp add: bit_or_iff bit_and_iff bit_not_iff i) blast
  next
    case False
    then show ?thesis unfolding range using k by (simp add: pbit_update)
  qed
  show ?thesis
  proof (cases "ws ! k AND m = t")
    case True
    then have "\<forall>i. 64 * k + a \<le> i \<and> i < 64 * k + b \<longrightarrow> pbit ws i = f i" using diff by blast
    with True diff show ?thesis by (auto simp: masked_store_def wrote_def)
  next
    case False
    with diff new show ?thesis by (auto simp: masked_store_def wrote_def)
  qed
qed

lemma word_store_masked: "word_store k w (d, ws) = masked_store k (- 1) w (d, ws)"
  by (simp add: word_store_def masked_store_def)

lemma bit_hmask_at: "j < 64 \<Longrightarrow> bit (hmask_at h) j \<longleftrightarrow> j < h"
  by (auto simp: hmask_at_def)

lemma set_short_at:
  assumes "off < 64"
  shows "set_short (64 * p + off) n w dws =
    (let m = hmask_at (off + n) AND NOT (lomask off);
         dws = masked_store p m (push_bit off w AND m) dws
     in if off + n > 64
        then masked_store (p + 1) (lomask (off + n - 64))
          (drop_bit (n - (off + n - 64)) w AND lomask (off + n - 64)) dws
        else dws)"
  using assms by (simp add: set_short_def Let_def)

lemma wrote_set_short_head:
  assumes k: "p < length ws" and off: "off < 64" and n: "0 < n" "n \<le> 64"
    and f: "\<And>j. j < n \<Longrightarrow> f (64 * p + off + j) = bit w j"
  shows "wrote ws d (64 * p + off) (64 * p + min 64 (off + n)) f
    (masked_store p (hmask_at (off + n) AND NOT (lomask off))
      (push_bit off w AND (hmask_at (off + n) AND NOT (lomask off))) (d, ws))"
proof (rule wrote_masked_store [OF k])
  have fj: "f (64 * p + j) = bit w (j - off)" if "off \<le> j" "j < off + n" for j
    using f [of "j - off"] that by simp
  fix j assume j: "j < (64 :: nat)"
  show "bit (hmask_at (off + n) AND NOT (lomask off)) j \<longleftrightarrow> off \<le> j \<and> j < min 64 (off + n)"
    using j by (auto simp: bit_and_iff bit_not_iff bit_hmask_at)
  then show "bit (push_bit off w AND (hmask_at (off + n) AND NOT (lomask off))) j
      \<longleftrightarrow> off \<le> j \<and> j < min 64 (off + n) \<and> f (64 * p + j)"
    using j fj [of j] by (auto simp: bit_simps)
qed (use off n in simp_all)

lemma wrote_set_short_tail:
  assumes k: "p + 1 < length ws" and off: "off < 64" and n: "n \<le> 64" "64 < off + n"
    and f: "\<And>j. j < n \<Longrightarrow> f (64 * p + off + j) = bit w j"
  shows "wrote ws d (64 * p + 64) (64 * p + off + n) f
    (masked_store (p + 1) (lomask (off + n - 64))
      (drop_bit (n - (off + n - 64)) w AND lomask (off + n - 64)) (d, ws))"
proof -
  let ?t = "off + n - 64"
  have "wrote ws d (64 * (p + 1) + 0) (64 * (p + 1) + ?t) f
      (masked_store (p + 1) (lomask ?t) (drop_bit (n - ?t) w AND lomask ?t) (d, ws))"
  proof (rule wrote_masked_store [OF k])
    fix j assume j: "j < (64 :: nat)"
    have "f (64 * (p + 1) + j) = bit w (n - ?t + j)" if "j < ?t"
    proof -
      have "64 * (p + 1) + j = 64 * p + off + (n - ?t + j)" using that off n by auto
      moreover have "n - ?t + j < n" using that off n by auto
      ultimately show ?thesis using f [of "n - ?t + j"] by metis
    qed
    then show "bit (drop_bit (n - ?t) w AND lomask ?t) j \<longleftrightarrow> 0 \<le> j \<and> j < ?t \<and> f (64 * (p + 1) + j)"
      using j by (auto simp: bit_simps)
  qed (use off n in auto)
  moreover have "64 * (p + 1) + 0 = 64 * p + 64" "64 * (p + 1) + ?t = 64 * p + off + n"
    using n by simp_all
  ultimately show ?thesis by metis
qed

lemma wrote_set_short:
  assumes off: "off < 64" and n: "0 < n" "n \<le> 64" and fit: "64 * p + off + n \<le> 64 * length ws"
    and f: "\<And>j. j < n \<Longrightarrow> f (64 * p + off + j) = bit w j"
  shows "wrote ws d (64 * p + off) (64 * p + off + n) f (set_short (64 * p + off) n w (d, ws))"
proof -
  have k: "p < length ws" using fit n by simp
  note head = wrote_set_short_head [where f = f and d = d, OF k off n f]
  show ?thesis
  proof (cases "off + n > 64")
    case False
    then have "min 64 (off + n) = off + n" by simp
    with head False show ?thesis by (simp add: set_short_at [OF off] Let_def add.assoc)
  next
    case True
    let ?r = "masked_store p (hmask_at (off + n) AND NOT (lomask off))
      (push_bit off w AND (hmask_at (off + n) AND NOT (lomask off))) (d, ws)"
    have h: "wrote ws d (64 * p + off) (64 * p + 64) f ?r" using head True by simp
    have "p + 1 < length (snd ?r)" using h fit True by (simp add: wrote_def)
    then have t: "wrote (snd ?r) (fst ?r) (64 * p + 64) (64 * p + off + n) f
        (masked_store (p + 1) (lomask (off + n - 64))
          (drop_bit (n - (off + n - 64)) w AND lomask (off + n - 64)) (fst ?r, snd ?r))"
      using off n True f by (intro wrote_set_short_tail) auto
    show ?thesis
      using wrote_trans [OF h t] fit off True by (simp add: set_short_at [OF off] Let_def)
  qed
qed

lemma wrote_word_store:
  assumes "k < length ws" and "\<And>j. j < 64 \<Longrightarrow> f (64 * k + j) = bit w j"
  shows "wrote ws d (64 * k) (64 * k + 64) f (word_store k w (d, ws))"
  unfolding word_store_masked
  using wrote_masked_store [OF assms(1), of 0 64 "- 1" w f d] assms(2) by simp

lemma wrote_set_aligned:
  assumes "64 * dptr + remain \<le> 64 * length ws"
    and "\<And>j. j < remain \<Longrightarrow> f (64 * dptr + j) = pbit src (64 * sptr + j)"
  shows "wrote ws d (64 * dptr) (64 * dptr + remain) f (set_aligned src remain sptr dptr (d, ws))"
  using assms
proof (induction remain arbitrary: sptr dptr d ws rule: less_induct)
  case (less remain)
  consider (word) "remain \<ge> 64" | (tail) "0 < remain" "remain < 64" | (none) "remain = 0" by linarith
  then show ?case
  proof cases
    case word
    let ?r = "word_store dptr (src ! sptr) (d, ws)"
    have "f (64 * dptr + j) = bit (src ! sptr) j" if "j < 64" for j
      using less.prems(2) [of j] that word pbit_shift_word [OF that] by simp
    then have r: "wrote ws d (64 * dptr) (64 * dptr + 64) f ?r"
      using less.prems(1) word by (intro wrote_word_store) simp_all
    have "f (64 * (dptr + 1) + j) = pbit src (64 * (sptr + 1) + j)" if "j < remain - 64" for j
      using less.prems(2) [of "64 + j"] that by (simp add: algebra_simps)
    then have "wrote (snd ?r) (fst ?r) (64 * (dptr + 1)) (64 * (dptr + 1) + (remain - 64)) f
        (set_aligned src (remain - 64) (sptr + 1) (dptr + 1) (fst ?r, snd ?r))"
      using less.prems(1) word r by (intro less.IH) (simp_all add: wrote_def)
    then show ?thesis
      using wrote_trans [OF r, of "64 * dptr + remain"] less.prems(1) word
      by (subst set_aligned.simps) (simp add: algebra_simps)
  next
    case tail
    have "f (64 * dptr + j) = bit (src ! sptr) j" if "j < remain" for j
      using less.prems(2) [OF that] that tail pbit_shift_word [of j src sptr] by simp
    then have "wrote ws d (64 * dptr + 0) (64 * dptr + remain) f
        (masked_store dptr (lomask remain) (src ! sptr AND lomask remain) (d, ws))"
      using less.prems(1) tail by (intro wrote_masked_store) (auto simp: bit_and_iff)
    with tail show ?thesis by (subst set_aligned.simps) (simp add: Let_def)
  next
    case none
    then show ?thesis by (subst set_aligned.simps) (simp add: wrote_nothing)
  qed
qed

text \<open>One turn of the unaligned loop is the short store of one source word.\<close>

lemma set_unaligned_step:
  assumes "0 < off" and "off < 64"
  shows "set_unaligned src off remain sptr dptr dws =
    (if remain \<ge> 64 then set_unaligned src off (remain - 64) (sptr + 1) (dptr + 1)
         (set_short (64 * dptr + off) 64 (src ! sptr) dws)
     else if remain > 0 then set_short (64 * dptr + off) remain (src ! sptr) dws
     else dws)"
proof -
  have "hmask_at (off + 64) AND NOT (lomask off) = NOT (lomask off)" by (simp add: hmask_at_def)
  moreover have "off + 64 > 64" "off + 64 - 64 = off" using assms by simp_all
  moreover have "\<not> off + remain - 64 \<ge> 64" if "remain < 64" using assms that by simp
  ultimately show ?thesis
    using assms by (subst set_unaligned.simps) (simp add: set_short_at [OF assms(2)] Let_def)
qed

lemma wrote_set_unaligned:
  assumes off: "0 < off" "off < 64"
    and "64 * dptr + off + remain \<le> 64 * length ws"
    and "\<And>j. j < remain \<Longrightarrow> f (64 * dptr + off + j) = pbit src (64 * sptr + j)"
  shows "wrote ws d (64 * dptr + off) (64 * dptr + off + remain) f
    (set_unaligned src off remain sptr dptr (d, ws))"
  using assms(3,4)
proof (induction remain arbitrary: sptr dptr d ws rule: less_induct)
  case (less remain)
  have src: "f (64 * dptr + off + j) = bit (src ! sptr) j" if "j < remain" "j < 64" for j
    using less.prems(2) [OF that(1)] that pbit_shift_word [of j src sptr] by simp
  consider (word) "remain \<ge> 64" | (tail) "0 < remain" "remain < 64" | (none) "remain = 0" by linarith
  then show ?case
  proof cases
    case word
    let ?r = "set_short (64 * dptr + off) 64 (src ! sptr) (d, ws)"
    have r: "wrote ws d (64 * dptr + off) (64 * dptr + off + 64) f ?r"
      using less.prems(1) word src off by (intro wrote_set_short) simp_all
    have "f (64 * (dptr + 1) + off + j) = pbit src (64 * (sptr + 1) + j)" if "j < remain - 64" for j
      using less.prems(2) [of "64 + j"] that by (simp add: algebra_simps)
    then have "wrote (snd ?r) (fst ?r) (64 * (dptr + 1) + off) (64 * (dptr + 1) + off + (remain - 64)) f
        (set_unaligned src off (remain - 64) (sptr + 1) (dptr + 1) (fst ?r, snd ?r))"
      using less.prems(1) word r off by (intro less.IH) (simp_all add: wrote_def)
    then show ?thesis
      using wrote_trans [OF r, of "64 * dptr + off + remain"] less.prems(1) word
      by (subst set_unaligned_step [OF off]) (simp add: algebra_simps)
  next
    case tail
    then show ?thesis
      using less.prems(1) src off
      by (subst set_unaligned_step [OF off]) (auto intro!: wrote_set_short)
  next
    case none
    then show ?thesis by (subst set_unaligned_step [OF off]) (simp add: wrote_nothing)
  qed
qed

lemma wrote_set_plane:
  assumes len: "length ws = max 1 (words_for n)" and fit: "adr + m \<le> n" "adr < n"
  shows "wrote ws d adr (adr + m) (\<lambda>i. pbit src (i - adr)) (set_plane n adr m src (d, ws))"
proof -
  have room: "n \<le> 64 * length ws" using words_for_mult_ge [of n] len by (simp add: max_def split: if_splits)
  have adr: "64 * (adr div 64) + adr mod 64 = adr" by simp
  have off: "adr mod 64 < 64" by simp
  consider (one) "n \<le> 64" | (short) "n > 64" "m \<le> 64" | (al) "n > 64" "m > 64" "adr mod 64 = 0"
    | (un) "n > 64" "m > 64" "0 < adr mod 64" by linarith
  then show ?thesis
  proof cases
    case one
    have "wrote ws d (64 * 0 + adr) (64 * 0 + (adr + m)) (\<lambda>i. pbit src (i - adr))
       (masked_store 0 (hmask_at (adr + m) AND NOT (lomask adr))
         (push_bit adr (src ! 0) AND (hmask_at (adr + m) AND NOT (lomask adr))) (d, ws))"
    proof (rule wrote_masked_store)
      fix j assume j: "j < (64 :: nat)"
      show "bit (hmask_at (adr + m) AND NOT (lomask adr)) j \<longleftrightarrow> adr \<le> j \<and> j < adr + m"
        using j by (auto simp: bit_and_iff bit_not_iff bit_hmask_at)
      then show "bit (push_bit adr (src ! 0) AND (hmask_at (adr + m) AND NOT (lomask adr))) j
          \<longleftrightarrow> adr \<le> j \<and> j < adr + m \<and> pbit src (64 * 0 + j - adr)"
        using j pbit_small [of "j - adr" src] by (auto simp: bit_simps)
    qed (use one fit len in simp_all)
    with one show ?thesis by (simp add: set_plane_def Let_def)
  next
    case short
    have "set_short adr 0 (src ! 0) (d, ws) = (d, ws)"
    proof -
      have z: "hmask_at (adr mod 64) AND NOT (lomask (adr mod 64)) = 0"
        by (simp add: ulong_eq_0_iff bit_and_iff bit_not_iff bit_hmask_at)
      have "\<not> adr mod 64 > 64" by simp
      then show ?thesis by (simp add: set_short_def Let_def masked_store_def z)
    qed
    then show ?thesis
      using short wrote_set_short [OF off, of m "adr div 64" ws "\<lambda>i. pbit src (i - adr)" "src ! 0" d]
        fit room by (cases "m = 0") (auto simp: adr set_plane_def wrote_nothing pbit_small)
  next
    case al
    then have "64 * (adr div 64) = adr" by auto
    then show ?thesis
      using al wrote_set_aligned [of "adr div 64" m ws "\<lambda>i. pbit src (i - adr)" src 0 d] fit room
      by (simp add: set_plane_def)
  next
    case un
    then show ?thesis
      using wrote_set_unaligned [OF un(3) off, of "adr div 64" m ws "\<lambda>i. pbit src (i - adr)" src 0 d]
        fit room by (simp add: set_plane_def adr)
  qed
qed

lemma v4_set_vec_spec:
  assumes inv: "v4_inv v" "v4_inv w" and fit: "adr + v4_size w \<le> v4_size v" "adr < v4_size v"
  obtains d r where "v4_set_vec v adr w = Some (d, r)" and "v4_inv r" and "v4_size r = v4_size v"
    and "v4_list r = take adr (v4_list v) @ v4_list w @ drop (adr + v4_size w) (v4_list v)"
    and "d \<longleftrightarrow> v4_list r \<noteq> v4_list v"
proof -
  let ?n = "v4_size v" and ?m = "v4_size w"
  obtain da A where A: "set_plane ?n adr ?m (v4_abits w) (False, v4_abits v) = (da, A)" by fastforce
  obtain db B where B: "set_plane ?n adr ?m (v4_bbits w) (False, v4_bbits v) = (db, B)" by fastforce
  define r where "r = v\<lparr>v4_abits := A, v4_bbits := B\<rparr>"
  have len: "length (v4_abits v) = max 1 (words_for ?n)" "length (v4_bbits v) = max 1 (words_for ?n)"
    using inv by (simp_all add: v4_inv_def)
  note wA = wrote_set_plane [OF len(1) fit, of False "v4_abits w", unfolded A wrote_def fst_conv snd_conv]
  note wB = wrote_set_plane [OF len(2) fit, of False "v4_bbits w", unfolded B wrote_def fst_conv snd_conv]
  have room: "i < 64 * length (v4_abits v) \<and> i < 64 * length (v4_bbits v)" if "i < ?n" for i
    using words_for_mult_ge [of ?n] len that by (simp add: max_def split: if_splits)
  have rinv: "v4_inv r" using inv wA wB len by (simp add: v4_inv_def r_def)
  have val: "v4_value r i = (if adr \<le> i \<and> i < adr + ?m then v4_value w (i - adr) else v4_value v i)"
    if "i < ?n" for i
  proof -
    have "pbit A i = (if adr \<le> i \<and> i < adr + ?m then pbit (v4_abits w) (i - adr) else pbit (v4_abits v) i)"
      "pbit B i = (if adr \<le> i \<and> i < adr + ?m then pbit (v4_bbits w) (i - adr) else pbit (v4_bbits v) i)"
      using wA wB room [OF that] by blast+
    then show ?thesis
      using that rinv inv fit by (auto simp: v4_value_pbit r_def)
  qed
  have list: "v4_list r = take adr (v4_list v) @ v4_list w @ drop (adr + ?m) (v4_list v)"
    using fit by (intro v4_listI) (auto simp: r_def nth_append val[unfolded r_def])
  have "da \<or> db \<longleftrightarrow> (\<exists>i. adr \<le> i \<and> i < adr + ?m \<and> v4_value w (i - adr) \<noteq> v4_value v i)"
  proof -
    have "v4_value w (i - adr) \<noteq> v4_value v i \<longleftrightarrow> pbit (v4_abits v) i \<noteq> pbit (v4_abits w) (i - adr)
        \<or> pbit (v4_bbits v) i \<noteq> pbit (v4_bbits w) (i - adr)" if "adr \<le> i" "i < adr + ?m" for i
      using that inv fit by (auto simp: v4_value_pbit)
    then show ?thesis using wA wB by blast
  qed
  also have "\<dots> \<longleftrightarrow> v4_list r \<noteq> v4_list v"
    using val fit by (auto simp: v4_list_eq_iff r_def)
  finally have flag: "da \<or> db \<longleftrightarrow> v4_list r \<noteq> v4_list v" .
  show thesis
    using that [of "da \<or> db" r] rinv list flag fit A B by (simp add: v4_set_vec_def r_def)
qed

end
