(* ===== verification/Vector4_Shift.thy ===== *)
theory Vector4_Shift
  imports Vector4_Move
begin

text \<open>
  The in-place shifts of \<^verbatim>\<open>vvp_vector4_t\<close> (\<^verbatim>\<open>vvp/vvp_net.cc\<close>): \<^verbatim>\<open>shiftl\<close>, \<^verbatim>\<open>mov\<close>
  and \<^verbatim>\<open>shiftr\<close>.  The loops overwrite the array they read, so their order matters:
  \<^verbatim>\<open>shiftl\<close> runs from the high words down, \<^verbatim>\<open>mov\<close> and \<^verbatim>\<open>shiftr\<close> from the low words up.
  The lemmas show that no word is read after it was overwritten: the results are the shifted lists.
\<close>

section \<open>Definitions\<close>

text \<open>The loop of \<^verbatim>\<open>shiftl\<close> for a shift of less than one word, \<open>dst\<close> counting down to 0.\<close>

fun shl_bits :: "nat \<Rightarrow> nat \<Rightarrow> plane \<Rightarrow> plane" where
  "shl_bits bit_shift 0 ws = ws[0 := push_bit bit_shift (ws ! 0)]"
| "shl_bits bit_shift (Suc d) ws = shl_bits bit_shift d
     (ws[Suc d := push_bit bit_shift (ws ! Suc d) OR drop_bit (BITS_PER_WORD - bit_shift) (ws ! d)])"

text \<open>The loop for a shift by at least one word.\<close>

fun shl_words :: "nat \<Rightarrow> nat \<Rightarrow> nat \<Rightarrow> plane \<Rightarrow> plane" where
  "shl_words word_shift bit_shift 0 ws = ws"
| "shl_words word_shift bit_shift (Suc dst) ws =
    (if Suc dst > word_shift then
       let src = dst - word_shift;
           val = push_bit bit_shift (ws ! src);
           val = (if bit_shift \<noteq> 0 \<and> src > 0
             then val OR drop_bit (BITS_PER_WORD - bit_shift) (ws ! (src - 1)) else val)
       in shl_words word_shift bit_shift dst (ws[dst := val])
     else ws)"

definition mask_tail :: "nat \<Rightarrow> plane \<Rightarrow> plane" where
  "mask_tail wid ws =
    (let tail = wid mod BITS_PER_WORD; last = words_for wid - 1 in
     if tail \<noteq> 0 then ws[last := ws ! last AND lomask tail] else ws)"

definition shl_plane :: "nat \<Rightarrow> nat \<Rightarrow> plane \<Rightarrow> plane" where
  "shl_plane wid shift ws =
    (if wid \<le> BITS_PER_WORD then
       let size_mask = (if wid = BITS_PER_WORD then - 1 else lomask wid)
       in [push_bit shift (ws ! 0) AND size_mask]
     else
       let words = words_for wid;
           word_shift = shift div BITS_PER_WORD; bit_shift = shift mod BITS_PER_WORD in
       if word_shift = 0 then mask_tail wid (shl_bits bit_shift (words - 1) ws)
       else
         let ws = shl_words word_shift bit_shift words ws;
             ws = foldl (\<lambda>ws dst. ws[dst := 0]) ws [0..<word_shift];
             ws = (if bit_shift \<noteq> 0
               then ws[word_shift := ws ! word_shift AND NOT (lomask bit_shift)] else ws)
         in mask_tail wid ws)"

definition v4_shiftl :: "vvp_vector4_t \<Rightarrow> nat \<Rightarrow> vvp_vector4_t option" where
  "v4_shiftl v shift =
    (if shift \<le> v4_size v then Some
       (if shift = 0 then v
        else if shift = v4_size v then v4_fill_bits v BIT4_0
        else v\<lparr>v4_abits := shl_plane (v4_size v) shift (v4_abits v),
          v4_bbits := shl_plane (v4_size v) shift (v4_bbits v)\<rparr>)
     else None)"

text \<open>
  \<^verbatim>\<open>mov\<close> moves \<open>cnt\<close> bits inside the vector.  In one word, \<^verbatim>\<open>1UL << cnt\<close> with
  \<open>cnt = 64\<close> is undefined in C++ and \<open>None\<close> here.
\<close>

definition mov_bits :: "nat \<Rightarrow> nat \<Rightarrow> nat \<Rightarrow> nat \<Rightarrow> nat \<Rightarrow> plane \<Rightarrow> plane" where
  "mov_bits sptr soff dptr doff trn ws =
    (let vmask = lomask trn; tmp = drop_bit soff (ws ! sptr) AND vmask
     in ws[dptr := (ws ! dptr AND NOT (push_bit doff vmask)) OR push_bit doff tmp])"

function mov_loop :: "nat \<Rightarrow> nat \<Rightarrow> nat \<Rightarrow> nat \<Rightarrow> nat \<Rightarrow> plane \<Rightarrow> plane" where
  "mov_loop cnt sptr soff dptr doff ws =
    (if cnt > 0 \<and> soff < BITS_PER_WORD \<and> doff < BITS_PER_WORD then
       let trn = (if soff + cnt > BITS_PER_WORD then BITS_PER_WORD - soff else cnt);
           trn = (if doff + trn > BITS_PER_WORD then BITS_PER_WORD - doff else trn)
       in if trn = BITS_PER_WORD
          then mov_loop (cnt - BITS_PER_WORD) (sptr + 1) soff (dptr + 1) doff (ws[dptr := ws ! sptr])
          else
            let ws = mov_bits sptr soff dptr doff trn ws;
                (soff', sptr') = (if soff + trn \<ge> BITS_PER_WORD then (0, sptr + 1) else (soff + trn, sptr));
                (doff', dptr') = (if doff + trn \<ge> BITS_PER_WORD then (0, dptr + 1) else (doff + trn, dptr))
            in mov_loop (cnt - trn) sptr' soff' dptr' doff' ws
     else ws)"
  by pat_completeness auto
termination
  by (relation "measure (\<lambda>(cnt, sptr, soff, dptr, doff, ws). cnt)") (auto split: if_splits)

declare mov_loop.simps [simp del]

definition mov_plane :: "nat \<Rightarrow> nat \<Rightarrow> nat \<Rightarrow> nat \<Rightarrow> plane \<Rightarrow> plane" where
  "mov_plane wid dst src cnt ws =
    (if wid \<le> BITS_PER_WORD then mov_bits 0 src 0 dst cnt ws
     else mov_loop cnt (src div BITS_PER_WORD) (src mod BITS_PER_WORD)
       (dst div BITS_PER_WORD) (dst mod BITS_PER_WORD) ws)"

definition v4_mov :: "vvp_vector4_t \<Rightarrow> nat \<Rightarrow> nat \<Rightarrow> nat \<Rightarrow> vvp_vector4_t option" where
  "v4_mov v dst src cnt =
    (if dst + cnt \<le> v4_size v \<and> src + cnt \<le> v4_size v
        \<and> (v4_size v \<le> BITS_PER_WORD \<longrightarrow> cnt < BITS_PER_WORD \<and> src < BITS_PER_WORD \<and> dst < BITS_PER_WORD)
     then Some (v\<lparr>v4_abits := mov_plane (v4_size v) dst src cnt (v4_abits v),
       v4_bbits := mov_plane (v4_size v) dst src cnt (v4_bbits v)\<rparr>)
     else None)"

text \<open>The loops of \<^verbatim>\<open>shiftr\<close>: the aligned one upwards, and the one that pads.\<close>

function shr_words :: "nat \<Rightarrow> nat \<Rightarrow> nat \<Rightarrow> plane \<Rightarrow> plane" where
  "shr_words shift words dst ws =
    (if dst + 1 < words then shr_words shift words (dst + 1)
       (ws[dst := drop_bit shift (ws ! dst) OR push_bit (BITS_PER_WORD - shift) (ws ! (dst + 1))])
     else ws)"
  by pat_completeness auto
termination
  by (relation "measure (\<lambda>(shift, words, dst, ws). words - dst)") auto

declare shr_words.simps [simp del]

function pad_loop :: "ulong \<Rightarrow> nat \<Rightarrow> nat \<Rightarrow> plane \<Rightarrow> plane" where
  "pad_loop pad base remain ws =
    (if remain > 0 then
       let wdx = base div BITS_PER_WORD; off = base mod BITS_PER_WORD;
           trn = min (BITS_PER_WORD - off) remain;
           m = (if trn = BITS_PER_WORD then - 1 else push_bit off (lomask trn))
       in pad_loop pad (base + trn) (remain - trn) (ws[wdx := (ws ! wdx AND NOT m) OR (pad AND m)])
     else ws)"
  by pat_completeness auto
termination
  by (relation "measure (\<lambda>(pad, base, remain, ws). remain)")
    (auto simp: min_def)

declare pad_loop.simps [simp del]

definition shr_plane :: "nat \<Rightarrow> nat \<Rightarrow> ulong \<Rightarrow> plane \<Rightarrow> plane" where
  "shr_plane wid shift pad ws =
    (let keep = wid - shift in
     if wid \<le> BITS_PER_WORD then
       let size_mask = (if wid = BITS_PER_WORD then - 1 else lomask wid) in
       if keep = 0 then [pad AND size_mask]
       else
         let keep_mask = lomask keep
         in [(drop_bit shift (ws ! 0) AND keep_mask) OR ((pad AND size_mask) AND NOT keep_mask)]
     else if shift < BITS_PER_WORD \<and> wid mod BITS_PER_WORD = 0 then
       let words = wid div BITS_PER_WORD; ws = shr_words shift words 0 ws;
           pad_mask = himask (BITS_PER_WORD - shift)
       in ws[words - 1 := drop_bit shift (ws ! (words - 1)) OR (pad AND pad_mask)]
     else pad_loop pad keep shift (if keep > 0 then mov_plane wid 0 shift keep ws else ws))"

definition v4_shiftr :: "vvp_vector4_t \<Rightarrow> nat \<Rightarrow> vvp_bit4_t \<Rightarrow> vvp_vector4_t option" where
  "v4_shiftr v shift pad_bit =
    (if shift \<le> v4_size v then Some
       (if shift = 0 then v
        else v\<lparr>v4_abits := shr_plane (v4_size v) shift (init_atable pad_bit) (v4_abits v),
          v4_bbits := shr_plane (v4_size v) shift (init_btable pad_bit) (v4_bbits v)\<rparr>)
     else None)"

section \<open>Vectors whose planes moved alike\<close>

lemma v4_moved:
  assumes inv: "v4_inv v" and len: "length A = length (v4_abits v)" "length B = length (v4_bbits v)"
    and g: "\<And>i. i < v4_size v \<Longrightarrow> P i \<Longrightarrow> g i < v4_size v"
    and A: "\<And>i. i < v4_size v \<Longrightarrow>
      pbit A i = (if P i then pbit (v4_abits v) (g i) else bit (init_atable b) 0)"
    and B: "\<And>i. i < v4_size v \<Longrightarrow>
      pbit B i = (if P i then pbit (v4_bbits v) (g i) else bit (init_btable b) 0)"
  shows "v4_inv (v\<lparr>v4_abits := A, v4_bbits := B\<rparr>)"
    and "i < v4_size v \<Longrightarrow>
      v4_value (v\<lparr>v4_abits := A, v4_bbits := B\<rparr>) i = (if P i then v4_value v (g i) else b)"
proof -
  show inv': "v4_inv (v\<lparr>v4_abits := A, v4_bbits := B\<rparr>)" using inv len by (simp add: v4_inv_def)
  have b: "bit4_of (bit (init_atable b) 0) (bit (init_btable b) 0) = b"
    by (cases b) (simp_all add: init_atable_def init_btable_def)
  show "v4_value (v\<lparr>v4_abits := A, v4_bbits := B\<rparr>) i = (if P i then v4_value v (g i) else b)"
    if "i < v4_size v"
    using that inv inv' g [OF that] A [OF that] B [OF that] b by (simp add: v4_value_pbit)
qed

section \<open>Left shift\<close>

definition shl_word :: "nat \<Rightarrow> nat \<Rightarrow> plane \<Rightarrow> nat \<Rightarrow> ulong" where
  "shl_word ws bs xs k = (let src = k - ws in
     if bs \<noteq> 0 \<and> src > 0 then push_bit bs (xs ! src) OR drop_bit (64 - bs) (xs ! (src - 1))
     else push_bit bs (xs ! src))"

lemma shl_words_nth:
  "dst \<le> length xs \<Longrightarrow> length (shl_words w s dst xs) = length xs
     \<and> (\<forall>k < length xs. shl_words w s dst xs ! k = (if w \<le> k \<and> k < dst then shl_word w s xs k else xs ! k))"
proof (induction dst arbitrary: xs)
  case (Suc dst)
  let ?ys = "xs[dst := shl_word w s xs dst]"
  show ?case
  proof (cases "w \<le> dst")
    case True
    have "shl_word w s ?ys k = shl_word w s xs k" if "k < dst" for k
      using that by (auto simp: shl_word_def Let_def)
    moreover have "shl_words w s (Suc dst) xs = shl_words w s dst ?ys"
      using True by (simp add: shl_word_def Let_def)
    ultimately show ?thesis using Suc.IH [of ?ys] Suc.prems True
      by (auto simp: nth_list_update less_Suc_eq)
  qed auto
qed simp

lemma shl_bits_words:
  "0 < s \<Longrightarrow> d < length xs \<Longrightarrow> shl_bits s d xs = shl_words 0 s (Suc d) xs"
  by (induction d arbitrary: xs) (simp_all add: Let_def)

lemma bit_shl_word:
  assumes s: "s < 64" and k: "w \<le> k" and j: "j < 64"
  shows "bit (shl_word w s xs k) j \<longleftrightarrow>
    64 * w + s \<le> 64 * k + j \<and> pbit xs (64 * k + j - (64 * w + s))"
proof -
  obtain q where q: "k = w + q" using k le_Suc_ex by blast
  consider (here) "s \<le> j" | (below) "j < s" "q > 0" | (out) "j < s" "q = 0" by linarith
  then show ?thesis
  proof cases
    case here
    have "64 * k + j - (64 * w + s) = 64 * q + (j - s)" using here q by simp
    moreover have "\<not> bit (drop_bit (64 - s) x) j" if "0 < s" for x :: ulong
      using that here s by (auto simp: bit_simps dest: bit_ulong_lt)
    ultimately show ?thesis using here q s j pbit_shift_word [of "j - s" xs q]
      by (auto simp: shl_word_def Let_def bit_simps)
  next
    case below
    then have "64 * k + j - (64 * w + s) = 64 * (q - 1) + (64 - s + j)" using q s by (cases q) auto
    then show ?thesis using below q s j pbit_shift_word [of "64 - s + j" xs "q - 1"]
      by (auto simp: shl_word_def Let_def bit_simps)
  next
    case out
    then show ?thesis using q s j by (auto simp: shl_word_def Let_def bit_simps)
  qed
qed

lemma mask_tail:
  assumes "length xs = words_for n" and "i < n"
  shows "pbit (mask_tail n xs) i = pbit xs i" and "length (mask_tail n xs) = length xs"
proof -
  obtain t where t: "n = 64 * (words_for n - 1) + t" "0 < t" "t \<le> 64" "n mod 64 = t mod 64"
    using last_word_bits [of n] assms(2) by auto
  have "i mod 64 < n mod 64" if "i div 64 = words_for n - 1" "n mod 64 \<noteq> 0"
  proof -
    have "n mod 64 = t" using that t by (cases "t = 64") auto
    moreover have "i = 64 * (i div 64) + i mod 64" by simp
    ultimately show ?thesis using that t(1) assms(2) by linarith
  qed
  moreover have "words_for n - 1 < length xs" using assms words_for_step [of n] by simp
  ultimately show "pbit (mask_tail n xs) i = pbit xs i"
    by (auto simp: mask_tail_def Let_def pbit_update bit_and_iff) (auto simp: pbit_def)
  show "length (mask_tail n xs) = length xs" by (simp add: mask_tail_def Let_def)
qed

lemma zero_words:
  "length (foldl (\<lambda>ws dst. ws[dst := 0]) xs [0..<m]) = length xs"
  "k < length xs \<Longrightarrow> foldl (\<lambda>ws dst. ws[dst := 0]) xs [0..<m] ! k = (if k < m then 0 else xs ! k)"
  by (induction m) (auto simp: nth_list_update less_Suc_eq)

lemma pbit_words:
  assumes "\<And>k. k < n \<Longrightarrow> xs ! k = f k" and "i < 64 * n"
  shows "pbit xs i = bit (f (i div 64)) (i mod 64)"
  using assms(1) [of "i div 64"] assms(2) by (simp add: pbit_def less_mult_imp_div_less mult.commute)

lemma shl_plane:
  assumes len: "length xs = max 1 (words_for n)" and s: "0 < s" "s < n" and i: "i < n"
  shows "length (shl_plane n s xs) = length xs"
    and "pbit (shl_plane n s xs) i = (if s \<le> i then pbit xs (i - s) else False)"
proof -
  have "length (shl_plane n s xs) = length xs
      \<and> pbit (shl_plane n s xs) i = (if s \<le> i then pbit xs (i - s) else False)"
  proof (cases "n \<le> 64")
    case True
    then have "length xs = 1" using len s words_for_small [of n] by simp
    with True i s show ?thesis
      by (auto simp: shl_plane_def Let_def pbit_small bit_simps)
  next
    case False
    let ?w = "s div 64" and ?b = "s mod 64"
    have len: "length xs = words_for n" "1 < words_for n"
      using False len words_for_gt1 [of n] by simp_all
    have w: "?w < words_for n" using s(2) by (rule div_less_words_for)
    have s_eq: "64 * ?w + ?b = s" "64 * (i div 64) + i mod 64 = i" by simp_all
    define ys where "ys = shl_words ?w ?b (words_for n) xs"
    define zs where "zs = foldl (\<lambda>ws dst. ws[dst := 0]) ys [0..<?w]"
    define us where "us = (if ?b \<noteq> 0 then zs[?w := zs ! ?w AND NOT (lomask ?b)] else zs)"
    have ys: "length ys = words_for n"
      "\<And>k. k < words_for n \<Longrightarrow> ys ! k = (if ?w \<le> k then shl_word ?w ?b xs k else xs ! k)"
      using shl_words_nth [of "words_for n" xs ?w ?b] len by (simp_all add: ys_def)
    have zs: "length zs = words_for n"
      "\<And>k. k < words_for n \<Longrightarrow> zs ! k = (if ?w \<le> k then shl_word ?w ?b xs k else 0)"
      using zero_words [where xs = ys and m = ?w] ys by (simp_all add: zs_def)
    have low: "\<not> s \<le> 64 * ?w + j" if "j < ?b" for j using that s_eq(1) by linarith
    have "shl_word ?w ?b xs ?w AND NOT (lomask ?b) = shl_word ?w ?b xs ?w"
      using low by (auto simp: ulong_eq_iff bit_and_iff bit_not_iff bit_shl_word)
    then have us: "length us = words_for n"
      "\<And>k. k < words_for n \<Longrightarrow> us ! k = (if ?w \<le> k then shl_word ?w ?b xs k else 0)"
      using zs w by (auto simp: us_def nth_list_update)
    have eq: "shl_plane n s xs = mask_tail n us"
    proof (cases "?w = 0")
      case True
      then have "0 < ?b" using s by (metis gr0I mult_0_right add_0 s_eq(1) less_irrefl)
      have "shl_bits ?b (words_for n - 1) xs = ys"
        using shl_bits_words [OF \<open>0 < ?b\<close>, of "words_for n - 1" xs] len True by (simp add: ys_def)
      moreover have "us = ys"
        using True us ys by (intro nth_equalityI) simp_all
      ultimately show ?thesis using False True by (simp add: shl_plane_def Let_def)
    next
      case nz: False
      then show ?thesis using False
        by (simp add: shl_plane_def Let_def ys_def zs_def us_def)
    qed
    have "pbit us i = bit (if ?w \<le> i div 64 then shl_word ?w ?b xs (i div 64) else 0) (i mod 64)"
      using i us(2) words_for_mult_ge [of n] by (intro pbit_words [of "words_for n"]) auto
    also have "\<dots> = (if s \<le> i then pbit xs (i - s) else False)"
    proof (cases "?w \<le> i div 64")
      case True
      then show ?thesis using bit_shl_word [of ?b ?w "i div 64" "i mod 64" xs] s_eq by simp
    next
      case False
      then have "\<not> s \<le> i" using div_le_mono by blast
      with False show ?thesis by simp
    qed
    finally show ?thesis unfolding eq using mask_tail [OF us(1) i] us(1) len by simp
  qed
  then show "length (shl_plane n s xs) = length xs"
    and "pbit (shl_plane n s xs) i = (if s \<le> i then pbit xs (i - s) else False)" by auto
qed

lemma v4_shiftl_spec:
  assumes inv: "v4_inv v" and s: "s \<le> v4_size v"
  obtains r where "v4_shiftl v s = Some r" and "v4_inv r"
    and "v4_list r = replicate s BIT4_0 @ take (v4_size v - s) (v4_list v)"
proof -
  let ?n = "v4_size v"
  consider (none) "s = 0" | (all) "0 < s" "s = ?n" | (some) "0 < s" "s < ?n" using s by linarith
  then show thesis
  proof cases
    case none
    with inv show thesis by (intro that [of v]) (simp_all add: v4_shiftl_def)
  next
    case all
    with v4_fill_bits [OF inv, of BIT4_0] show thesis
      by (intro that [of "v4_fill_bits v BIT4_0"]) (simp_all add: v4_shiftl_def)
  next
    case some
    define r where "r = v\<lparr>v4_abits := shl_plane ?n s (v4_abits v), v4_bbits := shl_plane ?n s (v4_bbits v)\<rparr>"
    have len: "length (v4_abits v) = max 1 (words_for ?n)" "length (v4_bbits v) = max 1 (words_for ?n)"
      using inv by (simp_all add: v4_inv_def)
    have zero: "bit (init_atable BIT4_0) 0 = False" "bit (init_btable BIT4_0) 0 = False"
      by (simp_all add: init_atable_def init_btable_def)
    note m = v4_moved [OF inv, where P = "\<lambda>i. s \<le> i" and g = "\<lambda>i. i - s" and b = BIT4_0, unfolded zero,
        OF shl_plane(1) [OF len(1) some some(2)] shl_plane(1) [OF len(2) some some(2)] _
          shl_plane(2) [OF len(1) some] shl_plane(2) [OF len(2) some], folded r_def]
    have rinv: "v4_inv r" and val: "i < ?n \<Longrightarrow> v4_value r i = (if s \<le> i then v4_value v (i - s) else BIT4_0)"
      for i using m by (auto simp: less_imp_diff_less)
    have "v4_list r = replicate s BIT4_0 @ take (?n - s) (v4_list v)"
      using some val by (intro v4_listI) (auto simp: nth_append r_def)
    moreover have "v4_shiftl v s = Some r" using some by (simp add: v4_shiftl_def r_def)
    ultimately show thesis using that rinv by blast
  qed
qed

section \<open>Moving bits\<close>

lemma length_mov_bits [simp]: "length (mov_bits q soff p doff t xs) = length xs"
  by (simp add: mov_bits_def Let_def)

lemma mov_bits:
  assumes "p < length xs" and "doff + t \<le> 64" and "soff + t \<le> 64" and "i < 64 * length xs"
  shows "pbit (mov_bits q soff p doff t xs) i =
      (if 64 * p + doff \<le> i \<and> i < 64 * p + doff + t
       then pbit xs (64 * q + soff + (i - (64 * p + doff))) else pbit xs i)"
proof -
  let ?j = "i mod 64"
  have ieq: "i = 64 * (i div 64) + ?j" by simp
  show "pbit (mov_bits q soff p doff t xs) i =
      (if 64 * p + doff \<le> i \<and> i < 64 * p + doff + t
       then pbit xs (64 * q + soff + (i - (64 * p + doff))) else pbit xs i)"
  proof (cases "i div 64 = p")
    case True
    then have range: "64 * p + doff \<le> i \<and> i < 64 * p + doff + t \<longleftrightarrow> doff \<le> ?j \<and> ?j < doff + t"
      using ieq by linarith
    have src: "pbit xs (64 * q + soff + (i - (64 * p + doff))) = bit (xs ! q) (soff + (?j - doff))"
      if "doff \<le> ?j" "?j < doff + t"
    proof -
      have "i - (64 * p + doff) = ?j - doff" using that True by (metis ieq add_diff_cancel_left)
      then show ?thesis
        using that assms(3) pbit_shift_word [of "soff + (?j - doff)" xs q] by (simp add: add.assoc)
    qed
    define v where "v = (xs ! p AND NOT (push_bit doff (lomask t)))
      OR push_bit doff (drop_bit soff (xs ! q) AND lomask t)"
    have v: "bit v j = (if doff \<le> j \<and> j < doff + t then bit (xs ! q) (soff + (j - doff)) else bit (xs ! p) j)"
      if "j < 64" for j using that by (auto simp: v_def bit_simps)
    have "pbit (mov_bits q soff p doff t xs) i = bit v ?j"
      using True assms(1) by (simp add: mov_bits_def Let_def pbit_update v_def)
    moreover have "pbit xs i = bit (xs ! p) ?j" using True by (simp add: pbit_def)
    ultimately show ?thesis unfolding range using v [of ?j] src by simp
  next
    case False
    have "\<not> (64 * p + doff \<le> i \<and> i < 64 * p + doff + t)"
    proof
      assume "64 * p + doff \<le> i \<and> i < 64 * p + doff + t"
      then have "i div 64 = p" using assms(2) by (intro div_nat_eqI) auto
      with False show False by simp
    qed
    with False assms(1) show ?thesis by (auto simp: mov_bits_def Let_def pbit_update)
  qed
qed

lemma next_pos:
  assumes "off + t \<le> 64" and "off < (64 :: nat)"
  shows "(64 * p + off + t) div 64 = (if off + t \<ge> 64 then p + 1 else p)"
    and "(64 * p + off + t) mod 64 = (if off + t \<ge> 64 then 0 else off + t)"
proof -
  have "64 * p + off + t = 64 * (p + 1)" if "off + t \<ge> 64" using that assms by simp
  moreover have "(64 * p + (off + t)) div 64 = p \<and> (64 * p + (off + t)) mod 64 = off + t" if "off + t < 64"
    using that by simp
  ultimately show "(64 * p + off + t) div 64 = (if off + t \<ge> 64 then p + 1 else p)"
    and "(64 * p + off + t) mod 64 = (if off + t \<ge> 64 then 0 else off + t)"
    by (auto simp: add.assoc)
qed

lemma mov_loop_turn:
  assumes "0 < cnt" and lt: "soff < 64" "doff < 64" and t: "t = min cnt (min (64 - soff) (64 - doff))"
  shows "mov_loop cnt sptr soff dptr doff ws =
    mov_loop (cnt - t) (if soff + t \<ge> 64 then sptr + 1 else sptr) (if soff + t \<ge> 64 then 0 else soff + t)
      (if doff + t \<ge> 64 then dptr + 1 else dptr) (if doff + t \<ge> 64 then 0 else doff + t)
      (mov_bits sptr soff dptr doff t ws)"
proof -
  have trn: "(let trn = (if soff + cnt > 64 then 64 - soff else cnt)
      in if doff + trn > 64 then 64 - doff else trn) = t"
    unfolding t Let_def min_def using lt by (simp only: split: if_split) arith
  have whole: "lomask 64 = - 1" by (simp add: ulong_eq_iff)
  show ?thesis
  proof (cases "t = 64")
    case True
    then have z: "soff = 0" "doff = 0" using t by simp_all
    then have "ws[dptr := ws ! sptr] = mov_bits sptr soff dptr doff t ws"
      using True by (simp add: mov_bits_def whole)
    then show ?thesis
      using assms(1) trn True z by (subst mov_loop.simps) (simp add: Let_def)
  next
    case False
    then show ?thesis
      using assms(1) trn lt by (subst mov_loop.simps) (simp add: Let_def)
  qed
qed

lemma mov_loop_step:
  assumes "0 < cnt" and t: "t = min cnt (min (64 - S mod 64) (64 - D mod 64))"
  shows "mov_loop cnt (S div 64) (S mod 64) (D div 64) (D mod 64) ws =
    mov_loop (cnt - t) ((S + t) div 64) ((S + t) mod 64) ((D + t) div 64) ((D + t) mod 64)
      (mov_bits (S div 64) (S mod 64) (D div 64) (D mod 64) t ws)"
proof -
  have lt: "S mod 64 < 64" "D mod 64 < 64" by simp_all
  have le: "S mod 64 + t \<le> 64" "D mod 64 + t \<le> 64" using trans_fits [OF lt assms(1) t] by simp_all
  have pos: "64 * (S div 64) + S mod 64 = S" "64 * (D div 64) + D mod 64 = D" by simp_all
  note S = next_pos [OF le(1) lt(1), of "S div 64", unfolded pos]
    and D = next_pos [OF le(2) lt(2), of "D div 64", unfolded pos]
  show ?thesis unfolding S D by (rule mov_loop_turn [OF assms(1) lt t])
qed

lemma mov_loop_done: "mov_loop 0 sptr soff dptr doff ws = ws"
  by (subst mov_loop.simps) simp

lemma mov_loop:
  assumes "D \<le> S" and "S + cnt \<le> 64 * length ws"
  shows "length (mov_loop cnt (S div 64) (S mod 64) (D div 64) (D mod 64) ws) = length ws"
    and "i < 64 * length ws \<Longrightarrow>
      pbit (mov_loop cnt (S div 64) (S mod 64) (D div 64) (D mod 64) ws) i =
      (if D \<le> i \<and> i < D + cnt then pbit ws (S + (i - D)) else pbit ws i)"
proof -
  have "length (mov_loop cnt (S div 64) (S mod 64) (D div 64) (D mod 64) ws) = length ws \<and>
    (\<forall>i < 64 * length ws. pbit (mov_loop cnt (S div 64) (S mod 64) (D div 64) (D mod 64) ws) i =
      (if D \<le> i \<and> i < D + cnt then pbit ws (S + (i - D)) else pbit ws i))"
    using assms
  proof (induction cnt arbitrary: S D ws rule: less_induct)
    case (less cnt)
    show ?case
    proof (cases "cnt = 0")
      case True
      then show ?thesis by (auto simp: mov_loop_done)
    next
      case False
      define t where "t = min cnt (min (64 - S mod 64) (64 - D mod 64))"
      have lt: "S mod 64 < 64" "D mod 64 < 64" by simp_all
      have t: "0 < t" "t \<le> cnt" "S mod 64 + t \<le> 64" "D mod 64 + t \<le> 64"
        using trans_fits [OF lt _ t_def] False by simp_all
      let ?ys = "mov_bits (S div 64) (S mod 64) (D div 64) (D mod 64) t ws"
      have pos: "64 * (S div 64) + S mod 64 = S" "64 * (D div 64) + D mod 64 = D" by simp_all
      have D: "D div 64 < length ws"
        using less.prems False by (simp add: less_mult_imp_div_less mult.commute)
      have ys: "length ?ys = length ws"
        "\<And>i. i < 64 * length ws \<Longrightarrow>
          pbit ?ys i = (if D \<le> i \<and> i < D + t then pbit ws (S + (i - D)) else pbit ws i)"
        using mov_bits [OF D t(4,3), of _ "S div 64"] unfolding pos by simp_all
      have IH: "length (mov_loop (cnt - t) ((S + t) div 64) ((S + t) mod 64) ((D + t) div 64)
            ((D + t) mod 64) ?ys) = length ?ys \<and>
          (\<forall>i < 64 * length ?ys. pbit (mov_loop (cnt - t) ((S + t) div 64) ((S + t) mod 64)
            ((D + t) div 64) ((D + t) mod 64) ?ys) i =
          (if D + t \<le> i \<and> i < D + t + (cnt - t) then pbit ?ys (S + t + (i - (D + t))) else pbit ?ys i))"
        using less.prems t ys(1) by (intro less.IH) auto
      have "pbit ?ys (S + t + (i - (D + t))) = pbit ws (S + (i - D))" if "D + t \<le> i" "i < D + cnt" for i
        using ys(2) [of "S + t + (i - (D + t))"] less.prems that by (auto simp: add.assoc)
      then show ?thesis
        using IH ys t(2) less.prems False by (auto simp: mov_loop_step [OF _ t_def])
    qed
  qed
  then show "length (mov_loop cnt (S div 64) (S mod 64) (D div 64) (D mod 64) ws) = length ws"
    and "i < 64 * length ws \<Longrightarrow>
      pbit (mov_loop cnt (S div 64) (S mod 64) (D div 64) (D mod 64) ws) i =
      (if D \<le> i \<and> i < D + cnt then pbit ws (S + (i - D)) else pbit ws i)" by auto
qed

lemma mov_plane:
  assumes len: "length ws = max 1 (words_for n)" and "D \<le> S" and "S + cnt \<le> n" and "n > 64 \<or> S < 64"
  shows "length (mov_plane n D S cnt ws) = length ws"
    and "i < n \<Longrightarrow> pbit (mov_plane n D S cnt ws) i =
      (if D \<le> i \<and> i < D + cnt then pbit ws (S + (i - D)) else pbit ws i)"
proof -
  have room: "n \<le> 64 * length ws" using words_for_mult_ge [of n] len by (simp add: max_def split: if_splits)
  show "length (mov_plane n D S cnt ws) = length ws"
    using mov_loop(1) [of D S cnt ws] assms(2,3) room by (auto simp: mov_plane_def mov_bits_def Let_def)
  assume "i < n"
  then show "pbit (mov_plane n D S cnt ws) i =
      (if D \<le> i \<and> i < D + cnt then pbit ws (S + (i - D)) else pbit ws i)"
    using mov_loop(2) [of D S cnt ws i] mov_bits [of 0 ws D cnt S i 0] assms room
    by (auto simp: mov_plane_def)
qed

lemma v4_mov_spec:
  assumes inv: "v4_inv v" and "dst \<le> src" and "src + cnt \<le> v4_size v" and "v4_size v > 64 \<or> cnt < 64 \<and> src < 64"
  obtains r where "v4_mov v dst src cnt = Some r" and "v4_inv r" and "v4_size r = v4_size v"
    and "\<And>i. i < v4_size v \<Longrightarrow> v4_value r i =
      (if dst \<le> i \<and> i < dst + cnt then v4_value v (src + (i - dst)) else v4_value v i)"
proof -
  let ?n = "v4_size v"
  define r where "r = v\<lparr>v4_abits := mov_plane ?n dst src cnt (v4_abits v),
      v4_bbits := mov_plane ?n dst src cnt (v4_bbits v)\<rparr>"
  have len: "length (v4_abits v) = max 1 (words_for ?n)" "length (v4_bbits v) = max 1 (words_for ?n)"
    using inv by (simp_all add: v4_inv_def)
  have o: "?n > 64 \<or> src < 64" using assms(4) by auto
  note A = mov_plane [OF len(1) assms(2,3) o] and B = mov_plane [OF len(2) assms(2,3) o]
  have rinv: "v4_inv r" using inv A(1) B(1) by (simp add: v4_inv_def r_def)
  have val: "v4_value r i = (if dst \<le> i \<and> i < dst + cnt then v4_value v (src + (i - dst)) else v4_value v i)"
    if "i < ?n" for i
    using that rinv inv A(2) [OF that] B(2) [OF that] assms(3) by (auto simp: v4_value_pbit r_def)
  show thesis
  proof (rule that [of r])
    show "v4_mov v dst src cnt = Some r" using assms by (auto simp: v4_mov_def r_def)
  qed (use rinv val in \<open>simp_all add: r_def\<close>)
qed

section \<open>Right shift\<close>

lemma shr_words:
  "length (shr_words s m d ws) = length ws"
  "m \<le> length ws \<Longrightarrow> k < length ws \<Longrightarrow> shr_words s m d ws ! k =
    (if d \<le> k \<and> k + 1 < m then drop_bit s (ws ! k) OR push_bit (64 - s) (ws ! (k + 1)) else ws ! k)"
proof (induction s m d ws rule: shr_words.induct)
  case (1 s m d ws)
  {
    case 1
    then show ?case using "1.IH"(1) by (subst shr_words.simps) auto
  next
    case 2
    then show ?case using "1.IH"(2) by (subst shr_words.simps) (auto simp: nth_list_update not_less_eq_eq le_antisym)
  }
qed

lemma bit_shr_word:
  assumes "0 < s" "s < 64" "j < 64"
  shows "bit (drop_bit s (xs ! k) OR push_bit (64 - s) (xs ! (k + 1))) j = pbit xs (64 * k + j + s)"
proof (cases "j + s < 64")
  case True
  then show ?thesis using pbit_shift_word [of "j + s" xs k] assms
    by (auto simp: bit_simps add.assoc add.commute [of s j])
next
  case False
  have "\<not> bit (xs ! k) (s + j)" using False by (auto dest: bit_ulong_lt)
  moreover have "j - (64 - s) = j + s - 64" using assms False by simp
  ultimately show ?thesis using pbit_next_word [of "j + s" xs k] assms False
    by (auto simp: bit_simps add.assoc)
qed

lemma pad_loop:
  assumes "uniform pad b" and "base + remain \<le> 64 * length ws"
  shows "length (pad_loop pad base remain ws) = length ws"
    and "i < 64 * length ws \<Longrightarrow> pbit (pad_loop pad base remain ws) i =
      (if base \<le> i \<and> i < base + remain then b else pbit ws i)"
proof -
  have pb: "bit pad j = b" if "j < 64" for j using assms(1) that by (simp add: uniform_def)
  have "length (pad_loop pad base remain ws) = length ws \<and> (\<forall>i < 64 * length ws.
      pbit (pad_loop pad base remain ws) i = (if base \<le> i \<and> i < base + remain then b else pbit ws i))"
    using assms(2)
  proof (induction remain arbitrary: base ws rule: less_induct)
    case (less remain)
    show ?case
    proof (cases "remain = 0")
      case True
      moreover have "pad_loop pad base 0 ws = ws" by (subst pad_loop.simps) simp
      ultimately show ?thesis by auto
    next
      case False
      let ?k = "base div 64" and ?off = "base mod 64"
      define t where "t = min (64 - ?off) remain"
      define m where "m = (if t = 64 then - 1 else push_bit ?off (lomask t))"
      define ys where "ys = ws[?k := (ws ! ?k AND NOT m) OR (pad AND m)]"
      have t: "0 < t" "t \<le> remain" "?off + t \<le> 64" using False by (auto simp: t_def)
      have k: "?k < length ws" using less.prems False by (simp add: less_mult_imp_div_less mult.commute)
      have m: "bit m j \<longleftrightarrow> ?off \<le> j \<and> j < ?off + t" if "j < 64" for j
        using that t(3) by (auto simp: m_def bit_simps)
      have ys: "pbit ys i = (if base \<le> i \<and> i < base + t then b else pbit ws i)" for i
      proof -
        have "base \<le> i \<and> i < base + t \<longleftrightarrow> i div 64 = ?k \<and> ?off \<le> i mod 64 \<and> i mod 64 < ?off + t"
        proof
          assume h: "base \<le> i \<and> i < base + t"
          have "base = 64 * ?k + ?off" by simp
          then have "64 * ?k \<le> i" and "i < 64 * ?k + 64" using t(3) h by linarith+
          then have "i div 64 = ?k" by (intro div_nat_eqI) simp_all
          moreover have "i = 64 * (i div 64) + i mod 64" "base = 64 * ?k + ?off" by simp_all
          ultimately show "i div 64 = ?k \<and> ?off \<le> i mod 64 \<and> i mod 64 < ?off + t" using h by linarith
        next
          assume h: "i div 64 = ?k \<and> ?off \<le> i mod 64 \<and> i mod 64 < ?off + t"
          moreover have "i = 64 * (i div 64) + i mod 64" "base = 64 * ?k + ?off" by simp_all
          ultimately show "base \<le> i \<and> i < base + t" by linarith
        qed
        moreover have "pbit ys i = (if i div 64 = ?k \<and> bit m (i mod 64) then b else pbit ws i)"
          using k pb [of "i mod 64"] by (simp add: ys_def pbit_update bit_or_iff bit_and_iff bit_not_iff)
            (simp add: pbit_def)
        ultimately show ?thesis using m [of "i mod 64"] by simp
      qed
      have "pad_loop pad base remain ws = pad_loop pad (base + t) (remain - t) ys"
        using False by (subst pad_loop.simps) (simp add: Let_def t_def [symmetric] m_def ys_def)
      then show ?thesis
        using less.IH [of "remain - t" "base + t" ys] less.prems t ys False by (auto simp: ys_def)
    qed
  qed
  then show "length (pad_loop pad base remain ws) = length ws"
    and "i < 64 * length ws \<Longrightarrow> pbit (pad_loop pad base remain ws) i =
      (if base \<le> i \<and> i < base + remain then b else pbit ws i)" by auto
qed

lemma shr_plane:
  assumes len: "length ws = max 1 (words_for n)" and s: "0 < s" "s \<le> n" and pad: "uniform pad b" and i: "i < n"
  shows "length (shr_plane n s pad ws) = length ws"
    and "pbit (shr_plane n s pad ws) i = (if i < n - s then pbit ws (i + s) else b)"
proof -
  have room: "n \<le> 64 * length ws" using words_for_mult_ge [of n] len by (simp add: max_def split: if_splits)
  have pb: "bit pad j = b" if "j < 64" for j using pad that by (simp add: uniform_def)
  have "length (shr_plane n s pad ws) = length ws
    \<and> pbit (shr_plane n s pad ws) i = (if i < n - s then pbit ws (i + s) else b)"
  proof -
    consider (one) "n \<le> 64" | (al) "n > 64" "s < 64" "n mod 64 = 0" | (gen) "n > 64" "\<not> (s < 64 \<and> n mod 64 = 0)"
      by linarith
    then show ?thesis
    proof cases
      case one
      then have "length ws = 1" using len i words_for_small [of n] by simp
      with one i s pb [of i] show ?thesis
        by (auto simp: shr_plane_def Let_def pbit_small bit_simps add.commute)
    next
      case al
      define m where "m = n div 64"
      have m: "n = 64 * m" using al(3) by (auto simp: m_def)
      then have wm: "length ws = m" "1 < m" using len al by (simp_all add: words_for_tail)
      define ys where "ys = shr_words s m 0 ws"
      have ys: "length ys = m" "\<And>k. k < m \<Longrightarrow> ys ! k =
          (if k + 1 < m then drop_bit s (ws ! k) OR push_bit (64 - s) (ws ! (k + 1)) else ws ! k)"
        using shr_words [where s = s and m = m and d = 0 and ws = ws] wm by (simp_all add: ys_def)
      have eq: "shr_plane n s pad ws =
          ys[m - 1 := drop_bit s (ws ! (m - 1)) OR (pad AND himask (64 - s))]"
        using al ys(2) [of "m - 1"] wm by (simp add: shr_plane_def Let_def m_def [symmetric] ys_def [symmetric])
      let ?k = "i div 64" and ?j = "i mod 64"
      have ij: "64 * ?k + ?j = i" "?j < 64" by simp_all
      have k: "?k < m" using i m by simp
      show ?thesis
      proof (cases "?k + 1 < m")
        case True
        then have "i + s < n" using al(2) ij m by linarith
        then have "i < n - s" by simp
        moreover have "shr_plane n s pad ws ! ?k = drop_bit s (ws ! ?k) OR push_bit (64 - s) (ws ! (?k + 1))"
          unfolding eq using ys(2) [OF k] True by simp
        then have "pbit (shr_plane n s pad ws) i = pbit ws (64 * ?k + ?j + s)"
          unfolding bit_shr_word [OF s(1) al(2) ij(2), of ws ?k, symmetric] by (simp only: pbit_def)
        ultimately show ?thesis using wm ys(1) by (simp add: eq)
      next
        case False
        then have k: "?k = m - 1" using k by simp
        then have "64 * ?k = n - 64" using m by (simp add: diff_mult_distrib2)
        then have ieq: "i = n - 64 + ?j" using ij by simp
        then have lt: "i < n - s \<longleftrightarrow> ?j + s < 64" using al(1,2) by linarith
        have "pbit ws (i + s) = bit (ws ! ?k) (s + ?j)" if "?j + s < 64"
          using pbit_shift_word [OF that, of ws ?k] ij(1) by (simp add: add.assoc [symmetric] add.commute)
        moreover have "\<not> bit (ws ! ?k) (s + ?j)" if "\<not> ?j + s < 64"
          using that by (auto dest: bit_ulong_lt)
        moreover have "64 - s \<le> ?j \<longleftrightarrow> \<not> ?j + s < 64" using al(2) by linarith
        ultimately have "pbit (shr_plane n s pad ws) i = (if i < n - s then pbit ws (i + s) else b)"
          unfolding eq lt using k ys(1) wm pb [OF ij(2)]
          by (simp add: pbit_update bit_or_iff bit_and_iff bit_drop_bit_eq)
        then show ?thesis using wm ys(1) by (simp add: eq)
      qed
    next
      case gen
      define ys where "ys = (if n - s > 0 then mov_plane n 0 s (n - s) ws else ws)"
      have ys: "length ys = length ws" "pbit ys i = (if i < n - s then pbit ws (s + i) else pbit ws i)"
        using mov_plane [OF len, of 0 s "n - s"] gen s i by (auto simp: ys_def)
      have "shr_plane n s pad ws = pad_loop pad (n - s) s ys"
        using gen by (auto simp: shr_plane_def Let_def ys_def)
      then show ?thesis
        using pad_loop [OF pad, of "n - s" s ys] ys s room i by (auto simp: add.commute)
    qed
  qed
  then show "length (shr_plane n s pad ws) = length ws"
    and "pbit (shr_plane n s pad ws) i = (if i < n - s then pbit ws (i + s) else b)" by auto
qed

lemma bit_of_init:
  "bit (init_atable b) 0 \<longleftrightarrow> b = BIT4_1 \<or> b = BIT4_X" "bit (init_btable b) 0 \<longleftrightarrow> b = BIT4_Z \<or> b = BIT4_X"
  by (cases b; simp add: init_atable_def init_btable_def)+

lemma v4_shiftr_spec:
  assumes inv: "v4_inv v" and s: "s \<le> v4_size v"
  obtains r where "v4_shiftr v s b = Some r" and "v4_inv r"
    and "v4_list r = drop s (v4_list v) @ replicate s b"
proof (cases "s = 0")
  case True
  with inv show thesis by (intro that [of v]) (simp_all add: v4_shiftr_def)
next
  case False
  let ?n = "v4_size v"
  have s0: "0 < s" using False by simp
  then have n0: "0 < ?n" using s by simp
  define r where "r = v\<lparr>v4_abits := shr_plane ?n s (init_atable b) (v4_abits v),
    v4_bbits := shr_plane ?n s (init_btable b) (v4_bbits v)\<rparr>"
  have len: "length (v4_abits v) = max 1 (words_for ?n)" "length (v4_bbits v) = max 1 (words_for ?n)"
    using inv by (simp_all add: v4_inv_def)
  note A = shr_plane [OF len(1) s0 s uniform_init(1) [of b]]
    and B = shr_plane [OF len(2) s0 s uniform_init(2) [of b]]
  note m = v4_moved [OF inv, where P = "\<lambda>i. i < ?n - s" and g = "\<lambda>i. i + s" and b = b, unfolded bit_of_init,
      OF A(1) [OF n0] B(1) [OF n0] _ A(2) B(2), folded r_def]
  have rinv: "v4_inv r" and val: "i < ?n \<Longrightarrow> v4_value r i = (if i < ?n - s then v4_value v (i + s) else b)"
    for i using m by auto
  have "v4_list r = drop s (v4_list v) @ replicate s b"
    using s val by (intro v4_listI) (auto simp: nth_append r_def add.commute)
  moreover have "v4_shiftr v s b = Some r" using False s by (simp add: v4_shiftr_def r_def)
  ultimately show thesis using that rinv by blast
qed

end
