(* ===== verification/Vector4_Concat.thy ===== *)
theory Vector4_Concat
  imports Vector4_Shift
begin

text \<open>
  Concatenation, \<^verbatim>\<open>copy_bits\<close>, and the exchange with two-valued word arrays (\<^verbatim>\<open>subarray\<close>,
  \<^verbatim>\<open>setarray\<close>) of \<^verbatim>\<open>vvp_vector4_t\<close>, from \<^verbatim>\<open>vvp/vvp_net.cc\<close> and \<^verbatim>\<open>vvp/vvp_net.h\<close>.
  Concatenation is built on resize, shift and \<^verbatim>\<open>set_vec\<close>, with an in-place path when no word has
  to be added.
\<close>

section \<open>Definitions\<close>

definition concat_inplace :: "nat \<Rightarrow> nat \<Rightarrow> nat \<Rightarrow> ulong \<Rightarrow> plane \<Rightarrow> plane" where
  "concat_inplace lsb_size new_size words lsb ws =
    (let ws = shl_bits lsb_size (words - 1) ws;
         lmask = lomask lsb_size
     in mask_tail new_size (ws[0 := ws ! 0 OR (lsb AND lmask)]))"

definition concat_word :: "nat \<Rightarrow> nat \<Rightarrow> ulong \<Rightarrow> ulong \<Rightarrow> ulong" where
  "concat_word wid lsb_size w lsb =
    (let lmask = lomask lsb_size; mmask = (if wid = BITS_PER_WORD then - 1 else lomask wid)
     in push_bit lsb_size (w AND mmask) OR (lsb AND lmask))"

definition v4_concat :: "vvp_vector4_t \<Rightarrow> vvp_vector4_t \<Rightarrow> vvp_vector4_t option" where
  "v4_concat v lsb =
    (let lsb_size = v4_size lsb; new_size = v4_size v + lsb_size in
     if new_size > BITS_PER_WORD then
       if v4_size v = 0 then Some lsb
       else
         let old_words = words_for (v4_size v); new_words = words_for new_size in
         if old_words = new_words \<and> lsb_size \<noteq> 0 then
           Some \<lparr>v4_size = new_size,
             v4_abits = concat_inplace lsb_size new_size old_words (v4_abits lsb ! 0) (v4_abits v),
             v4_bbits = concat_inplace lsb_size new_size old_words (v4_bbits lsb ! 0) (v4_bbits v)\<rparr>
         else
           Option.bind (v4_shiftl (v4_resize v new_size BIT4_0) lsb_size)
             (\<lambda>r. map_option snd (v4_set_vec r 0 lsb))
     else if lsb_size = BITS_PER_WORD then
       Some \<lparr>v4_size = BITS_PER_WORD, v4_abits = [v4_abits lsb ! 0], v4_bbits = [v4_bbits lsb ! 0]\<rparr>
     else
       Some \<lparr>v4_size = new_size,
         v4_abits = [concat_word (v4_size v) lsb_size (v4_abits v ! 0) (v4_abits lsb ! 0)],
         v4_bbits = [concat_word (v4_size v) lsb_size (v4_bbits v ! 0) (v4_bbits lsb ! 0)]\<rparr>)"

text \<open>\<^verbatim>\<open>copy_bits\<close>, one plane.  Only a source narrower than a word clears the low word first.\<close>

definition copy_masked :: "nat \<Rightarrow> ulong \<Rightarrow> plane \<Rightarrow> plane \<Rightarrow> plane" where
  "copy_masked k m that ws = ws[k := (ws ! k AND NOT m) OR (that ! k AND m)]"

fun copy_words :: "plane \<Rightarrow> nat \<Rightarrow> nat \<Rightarrow> plane \<Rightarrow> nat \<times> nat \<times> plane" where
  "copy_words that word bits_to_copy ws =
    (if bits_to_copy \<ge> BITS_PER_WORD
     then copy_words that (word + 1) (bits_to_copy - BITS_PER_WORD) (ws[word := that ! word])
     else (word, bits_to_copy, ws))"

declare copy_words.simps [simp del]

definition copy_bits_plane :: "nat \<Rightarrow> nat \<Rightarrow> plane \<Rightarrow> plane \<Rightarrow> plane" where
  "copy_bits_plane wid that_size that ws =
    (if wid = that_size then that
     else if wid \<le> BITS_PER_WORD \<and> that_size \<le> BITS_PER_WORD then
       let bits_to_copy = min that_size wid;
           m = (if bits_to_copy < BITS_PER_WORD then lomask bits_to_copy else 0 - 1)
       in copy_masked 0 m that ws
     else if wid \<le> BITS_PER_WORD then
       [if wid < BITS_PER_WORD then that ! 0 AND lomask wid else that ! 0]
     else if that_size \<le> BITS_PER_WORD then
       (if that_size < BITS_PER_WORD then copy_masked 0 (lomask that_size) that ws
        else ws[0 := ws ! 0 OR (that ! 0 AND (- 1))])
     else
       (case copy_words that 0 (min that_size wid) ws of (word, bits_to_copy, ws) \<Rightarrow>
          if bits_to_copy > 0 then copy_masked word (lomask bits_to_copy) that ws else ws))"

definition v4_copy_bits :: "vvp_vector4_t \<Rightarrow> vvp_vector4_t \<Rightarrow> vvp_vector4_t" where
  "v4_copy_bits v that = v\<lparr>
     v4_abits := copy_bits_plane (v4_size v) (v4_size that) (v4_abits that) (v4_abits v),
     v4_bbits := copy_bits_plane (v4_size v) (v4_size that) (v4_bbits that) (v4_bbits v)\<rparr>"

text \<open>
  \<^verbatim>\<open>subarray\<close>: the selected bits as a two-valued array, \<open>None\<close> where the code returns a null
  pointer because of an x or z bit.
\<close>

definition sub_bits :: "bool \<Rightarrow> ulong \<Rightarrow> ulong \<Rightarrow> nat \<Rightarrow> nat \<Rightarrow> ulong option" where
  "sub_bits xz_to_0 aword bword off trn =
    (let atmp = drop_bit off aword; btmp = drop_bit off bword;
         atmp = (if trn < BITS_PER_WORD then atmp AND lomask trn else atmp);
         btmp = (if trn < BITS_PER_WORD then btmp AND lomask trn else btmp)
     in if btmp \<noteq> 0 then (if xz_to_0 then Some (atmp AND NOT btmp) else None) else Some atmp)"

definition sub_trans :: "nat \<Rightarrow> nat \<Rightarrow> nat \<Rightarrow> nat" where
  "sub_trans off val_off wid =
    (let trn = BITS_PER_WORD - off;
         trn = (if trn > BITS_PER_WORD - val_off then BITS_PER_WORD - val_off else trn)
     in if wid < trn then wid else trn)"

lemma sub_trans_min: "sub_trans off val_off wid = min wid (min (64 - off) (64 - val_off))"
  by (auto simp: sub_trans_def Let_def min_def)

lemma sub_trans_pos: "off < 64 \<Longrightarrow> val_off < 64 \<Longrightarrow> 0 < wid \<Longrightarrow> 0 < sub_trans off val_off wid"
  by (simp add: sub_trans_min)

function subarray_loop ::
  "bool \<Rightarrow> plane \<Rightarrow> plane \<Rightarrow> nat \<Rightarrow> nat \<Rightarrow> nat \<Rightarrow> nat \<Rightarrow> plane \<Rightarrow> plane option" where
  "subarray_loop xz_to_0 A B adr wid val_ptr val_off val =
    (if wid > 0 \<and> val_off < BITS_PER_WORD then
       let off = adr mod BITS_PER_WORD;
           trn = sub_trans off val_off wid
       in case sub_bits xz_to_0 (A ! (adr div BITS_PER_WORD)) (B ! (adr div BITS_PER_WORD)) off trn of
            None \<Rightarrow> None
          | Some atmp \<Rightarrow>
              let val = val[val_ptr := val ! val_ptr OR push_bit val_off atmp];
                  (val_ptr, val_off) = (if val_off + trn = BITS_PER_WORD then (val_ptr + 1, 0)
                    else (val_ptr, val_off + trn))
              in subarray_loop xz_to_0 A B (adr + trn) (wid - trn) val_ptr val_off val
     else Some val)"
  by pat_completeness auto
termination
  by (relation "measure (\<lambda>(xz, A, B, adr, wid, vp, vo, val). wid)")
    (simp_all add: sub_trans_pos)

declare subarray_loop.simps [simp del]

definition v4_subarray :: "vvp_vector4_t \<Rightarrow> nat \<Rightarrow> nat \<Rightarrow> bool \<Rightarrow> plane option" where
  "v4_subarray v adr wid xz_to_0 =
    (let val = replicate (words_for wid) 0 in
     if v4_size v \<le> BITS_PER_WORD then
       map_option (\<lambda>atmp. val[0 := atmp]) (sub_bits xz_to_0 (v4_abits v ! 0) (v4_bbits v ! 0) adr wid)
     else subarray_loop xz_to_0 (v4_abits v) (v4_bbits v) adr wid 0 0 val)"

text \<open>\<^verbatim>\<open>setarray\<close> writes two-valued bits: the B plane is cleared under the same mask.\<close>

definition range_mask :: "nat \<Rightarrow> nat \<Rightarrow> ulong" where
  "range_mask off trn =
    (let lmask = lomask off;
         hmask = (if off + trn < BITS_PER_WORD then himask (off + trn) else 0)
     in NOT (hmask OR lmask))"

definition set_trans :: "nat \<Rightarrow> nat \<Rightarrow> nat \<Rightarrow> nat" where
  "set_trans wid val_off off =
    (let trn = wid;
         trn = (if trn > BITS_PER_WORD - val_off then BITS_PER_WORD - val_off else trn)
     in if trn > BITS_PER_WORD - off then BITS_PER_WORD - off else trn)"

lemma set_trans_min: "set_trans wid val_off off = min wid (min (64 - off) (64 - val_off))"
  by (auto simp: set_trans_def Let_def min_def)

lemma set_trans_pos: "off < 64 \<Longrightarrow> val_off < 64 \<Longrightarrow> 0 < wid \<Longrightarrow> 0 < set_trans wid val_off off"
  by (simp add: set_trans_min)

function setarray_loop ::
  "plane \<Rightarrow> nat \<Rightarrow> nat \<Rightarrow> nat \<Rightarrow> nat \<Rightarrow> nat \<Rightarrow> plane \<times> plane \<Rightarrow> plane \<times> plane" where
  "setarray_loop val wid ptr off val_ptr val_off AB =
    (if wid > 0 \<and> val_off < BITS_PER_WORD \<and> off < BITS_PER_WORD then
       let trn = set_trans wid val_off off;
           m = range_mask off trn;
           (A, B) = AB;
           v = (if val_off \<ge> off then drop_bit (val_off - off) (val ! val_ptr)
             else push_bit (off - val_off) (val ! val_ptr));
           A = A[ptr := (A ! ptr AND NOT m) OR (m AND v)];
           B = B[ptr := B ! ptr AND NOT m];
           (val_off', val_ptr') = (if val_off + trn = BITS_PER_WORD then (0, val_ptr + 1)
             else (val_off + trn, val_ptr));
           (off', ptr') = (if off + trn = BITS_PER_WORD then (0, ptr + 1) else (off + trn, ptr))
       in setarray_loop val (wid - trn) ptr' off' val_ptr' val_off' (A, B)
     else AB)"
  by pat_completeness auto
termination
  by (relation "measure (\<lambda>(val, wid, ptr, off, vp, vo, AB). wid)")
    (simp_all add: set_trans_pos)

declare setarray_loop.simps [simp del]

definition v4_setarray :: "vvp_vector4_t \<Rightarrow> nat \<Rightarrow> nat \<Rightarrow> plane \<Rightarrow> vvp_vector4_t option" where
  "v4_setarray v adr wid val =
    (if adr + wid \<le> v4_size v \<and> (v4_size v \<le> BITS_PER_WORD \<longrightarrow> adr < BITS_PER_WORD) then
       if v4_size v \<le> BITS_PER_WORD then
         let m = range_mask adr wid; a = v4_abits v ! 0; b = v4_bbits v ! 0
         in Some (v\<lparr>v4_abits := [(a AND NOT m) OR (m AND push_bit adr (val ! 0))],
              v4_bbits := [b AND NOT m]\<rparr>)
       else
         (case setarray_loop val wid (adr div BITS_PER_WORD) (adr mod BITS_PER_WORD) 0 0
             (v4_abits v, v4_bbits v) of (A, B) \<Rightarrow> Some (v\<lparr>v4_abits := A, v4_bbits := B\<rparr>))
     else None)"

section \<open>Concatenation\<close>

lemma shl_bits:
  assumes "0 < s" "s < 64" "0 < length xs" "i < 64 * length xs"
  shows "length (shl_bits s (length xs - 1) xs) = length xs"
    and "pbit (shl_bits s (length xs - 1) xs) i = (if s \<le> i then pbit xs (i - s) else False)"
proof -
  have eq: "shl_bits s (length xs - 1) xs = shl_words 0 s (length xs) xs"
    using shl_bits_words [of s "length xs - 1" xs] assms by (simp del: shl_words.simps)
  note nth = shl_words_nth [of "length xs" xs 0 s]
  show "length (shl_bits s (length xs - 1) xs) = length xs" using eq nth by simp
  have "pbit (shl_bits s (length xs - 1) xs) i = bit (shl_word 0 s xs (i div 64)) (i mod 64)"
    unfolding eq using nth assms(4) by (intro pbit_words [of "length xs"]) simp_all
  then show "pbit (shl_bits s (length xs - 1) xs) i = (if s \<le> i then pbit xs (i - s) else False)"
    using bit_shl_word [of s 0 "i div 64" "i mod 64" xs] assms(2) by simp
qed

lemma concat_inplace:
  assumes len: "length ws = words_for m" and s: "0 < s" "s < 64" and m: "words_for (n + s) = words_for m"
    and n: "0 < n" and i: "i < n + s"
  shows "length (concat_inplace s (n + s) (words_for m) w ws) = words_for m"
    and "pbit (concat_inplace s (n + s) (words_for m) w ws) i = (if i < s then bit w i else pbit ws (i - s))"
proof -
  define ys where "ys = shl_bits s (length ws - 1) ws"
  define zs where "zs = ys[0 := ys ! 0 OR (w AND lomask s)]"
  have pos: "0 < length ws" using len m words_for_step [of "n + s"] n by simp
  have room: "i < 64 * length ws" using i words_for_mult_ge [of "n + s"] m len by simp
  note ys = shl_bits [OF s pos, folded ys_def]
  have eq: "concat_inplace s (n + s) (words_for m) w ws = mask_tail (n + s) zs"
    by (simp add: concat_inplace_def Let_def ys_def zs_def len)
  have zlen: "length zs = words_for (n + s)" using ys(1) [OF room] len m by (simp add: zs_def)
  have "pbit zs i = (if i < s then bit w i else pbit ws (i - s))"
  proof (cases "i < 64")
    case True
    have "bit (ys ! 0) i = (if s \<le> i then pbit ws (i - s) else False)"
      using ys(2) [OF room] True by (simp add: pbit_small)
    with True pos ys(1) [OF room] s show ?thesis
      by (auto simp: zs_def pbit_small bit_simps)
  next
    case False
    then have "i div 64 \<noteq> 0" by simp
    with False s ys [OF room] pos show ?thesis by (simp add: zs_def pbit_update)
  qed
  with mask_tail [OF zlen i] zlen m
  show "length (concat_inplace s (n + s) (words_for m) w ws) = words_for m"
    and "pbit (concat_inplace s (n + s) (words_for m) w ws) i = (if i < s then bit w i else pbit ws (i - s))"
    by (simp_all add: eq)
qed

lemma v4_concat_inplace:
  assumes inv: "v4_inv v" "v4_inv lsb" and n: "64 < v4_size v + v4_size lsb" "0 < v4_size v" "0 < v4_size lsb"
    and w: "words_for (v4_size v) = words_for (v4_size v + v4_size lsb)"
  shows "\<exists>r. v4_concat v lsb = Some r \<and> v4_inv r \<and> v4_list r = v4_list lsb @ v4_list v"
proof -
  let ?n = "v4_size v" and ?s = "v4_size lsb"
  obtain t where t: "?n = 64 * (words_for ?n - 1) + t" "0 < t" using last_word_bits [OF n(2)] by blast
  have w1: "1 < words_for ?n" using w words_for_gt1 [OF n(1)] by simp
  have "?n + ?s \<le> words_for ?n * 64" using words_for_mult_ge [of "?n + ?s"] w by simp
  also have "\<dots> = 64 * (words_for ?n - 1) + 64" using w1 by (simp add: diff_mult_distrib2)
  finally have s64: "?s < 64" using t by linarith
  have len: "length (v4_abits v) = words_for ?n" "length (v4_bbits v) = words_for ?n"
    using inv w1 by (simp_all add: v4_inv_def)
  note A = concat_inplace [OF len(1) n(3) s64 w [symmetric] n(2), of _ "v4_abits lsb ! 0"]
    and B = concat_inplace [OF len(2) n(3) s64 w [symmetric] n(2), of _ "v4_bbits lsb ! 0"]
  define r where "r = \<lparr>v4_size = ?n + ?s,
             v4_abits = concat_inplace ?s (?n + ?s) (words_for ?n) (v4_abits lsb ! 0) (v4_abits v),
             v4_bbits = concat_inplace ?s (?n + ?s) (words_for ?n) (v4_bbits lsb ! 0) (v4_bbits v)\<rparr>"
  have rinv: "v4_inv r"
    unfolding r_def using A(1) [of 0] B(1) [of 0] n w w1 by (intro v4_invI) simp_all
  have "v4_value r i = (if i < ?s then v4_value lsb i else v4_value v (i - ?s))" if "i < ?n + ?s" for i
    using that rinv inv s64 A(2) [OF that] B(2) [OF that] by (auto simp: v4_value_pbit r_def pbit_small)
  then have "v4_list r = v4_list lsb @ v4_list v"
    by (intro v4_listI) (simp_all add: r_def nth_append add.commute)
  moreover have "v4_concat v lsb = Some r" using n w by (simp add: v4_concat_def Let_def r_def)
  ultimately show ?thesis using rinv by blast
qed

lemma v4_concat_long:
  assumes inv: "v4_inv v" "v4_inv lsb" and n: "64 < v4_size v + v4_size lsb" "0 < v4_size v"
    and w: "\<not> (words_for (v4_size v) = words_for (v4_size v + v4_size lsb) \<and> v4_size lsb \<noteq> 0)"
  shows "\<exists>r. v4_concat v lsb = Some r \<and> v4_inv r \<and> v4_list r = v4_list lsb @ v4_list v"
proof -
  let ?n = "v4_size v" and ?s = "v4_size lsb"
  let ?u = "v4_resize v (?n + ?s) BIT4_0"
  note u = v4_resize_list [OF inv(1), of "?n + ?s" BIT4_0]
  obtain q where q: "v4_shiftl ?u ?s = Some q" "v4_inv q"
    "v4_list q = replicate ?s BIT4_0 @ take (?n + ?s - ?s) (v4_list ?u)"
    using v4_shiftl_spec [OF u(1), of ?s] u(2) by auto
  then have ql: "v4_list q = replicate ?s BIT4_0 @ v4_list v" using u(3) by simp
  then have qs: "v4_size q = ?s + ?n" by (metis length_append length_replicate length_v4_list)
  then have fit: "0 + ?s \<le> v4_size q" "0 < v4_size q" using n by simp_all
  obtain d r where r: "v4_set_vec q 0 lsb = Some (d, r)" "v4_inv r"
    "v4_list r = take 0 (v4_list q) @ v4_list lsb @ drop (0 + ?s) (v4_list q)"
    using v4_set_vec_spec [OF q(2) inv(2) fit] by metis
  then have "v4_concat v lsb = Some r" using n w q(1) by (auto simp: v4_concat_def Let_def)
  with r ql show ?thesis by simp
qed

lemma v4_concat_short:
  assumes inv: "v4_inv v" "v4_inv lsb" and n: "v4_size v + v4_size lsb \<le> 64"
  shows "\<exists>r. v4_concat v lsb = Some r \<and> v4_inv r \<and> v4_list r = v4_list lsb @ v4_list v"
proof (cases "v4_size lsb = 64")
  case True
  define r where "r = \<lparr>v4_size = 64, v4_abits = [v4_abits lsb ! 0], v4_bbits = [v4_bbits lsb ! 0]\<rparr>"
  have rinv: "v4_inv r" by (simp add: r_def v4_inv_def words_for_small)
  have "v4_list r = v4_list lsb" "v4_list v = []"
    using True n rinv inv by (auto simp: v4_list_eq_iff v4_value_pbit r_def pbit_small v4_list_def)
  moreover have "v4_concat v lsb = Some r" using True n by (simp add: v4_concat_def Let_def r_def)
  ultimately show ?thesis using rinv by auto
next
  case False
  let ?n = "v4_size v" and ?s = "v4_size lsb"
  have s: "?s < 64" using False n by simp
  define r where "r = \<lparr>v4_size = ?n + ?s,
         v4_abits = [concat_word ?n ?s (v4_abits v ! 0) (v4_abits lsb ! 0)],
         v4_bbits = [concat_word ?n ?s (v4_bbits v ! 0) (v4_bbits lsb ! 0)]\<rparr>"
  have w: "max 1 (words_for (?n + ?s)) = 1" using n words_for_small [of "?n + ?s"]
    by (cases "?n + ?s = 0") (auto simp: max_def)
  then have rinv: "v4_inv r" by (simp add: r_def v4_inv_def)
  have bit: "bit (concat_word ?n ?s x y) i = (if i < ?s then bit y i else bit x (i - ?s))"
    if "i < ?n + ?s" for i x y
    using that n s by (auto simp: concat_word_def Let_def bit_simps)
  have "v4_value r i = (if i < ?s then v4_value lsb i else v4_value v (i - ?s))" if "i < ?n + ?s" for i
    using that rinv inv n by (auto simp: v4_value_pbit r_def pbit_small bit)
  then have "v4_list r = v4_list lsb @ v4_list v"
    by (intro v4_listI) (simp_all add: r_def nth_append add.commute)
  moreover have "v4_concat v lsb = Some r" using False n by (simp add: v4_concat_def Let_def r_def)
  ultimately show ?thesis using rinv by blast
qed

lemma v4_concat_spec:
  assumes inv: "v4_inv v" "v4_inv lsb"
  obtains r where "v4_concat v lsb = Some r" and "v4_inv r" and "v4_list r = v4_list lsb @ v4_list v"
proof (cases "v4_size v = 0 \<and> 64 < v4_size lsb")
  case True
  with inv that [of lsb] show thesis by (simp add: v4_concat_def v4_list_def)
next
  case False
  then show thesis
    using that v4_concat_inplace [OF inv] v4_concat_long [OF inv] v4_concat_short [OF inv]
    by (cases "v4_size v + v4_size lsb \<le> 64") fastforce+
qed

section \<open>Copying bits\<close>

lemma length_copy_masked [simp]: "length (copy_masked k m that ws) = length ws"
  by (simp add: copy_masked_def)

lemma copy_masked:
  assumes "k < length ws" and "\<And>j. j < 64 \<Longrightarrow> bit m j \<longleftrightarrow> j < t" and "t \<le> 64"
  shows "pbit (copy_masked k m that ws) i = (if 64 * k \<le> i \<and> i < 64 * k + t then pbit that i else pbit ws i)"
proof -
  have "64 * k \<le> i \<and> i < 64 * k + t \<longleftrightarrow> i div 64 = k \<and> i mod 64 < t"
  proof
    assume h: "64 * k \<le> i \<and> i < 64 * k + t"
    then have "i div 64 = k" using assms(3) by (intro div_nat_eqI) auto
    moreover have "i = 64 * (i div 64) + i mod 64" by simp
    ultimately show "i div 64 = k \<and> i mod 64 < t" using h by linarith
  next
    assume h: "i div 64 = k \<and> i mod 64 < t"
    moreover have "i = 64 * (i div 64) + i mod 64" by simp
    ultimately show "64 * k \<le> i \<and> i < 64 * k + t" by linarith
  qed
  then show "pbit (copy_masked k m that ws) i
      = (if 64 * k \<le> i \<and> i < 64 * k + t then pbit that i else pbit ws i)"
    using assms(1) assms(2) [of "i mod 64"]
    by (simp add: copy_masked_def pbit_update bit_or_iff bit_and_iff bit_not_iff) (auto simp: pbit_def)
qed

lemma copy_words:
  assumes "copy_words that k n ws = (k', t, zs)" and "64 * k + n \<le> 64 * length ws"
  shows "length zs = length ws \<and> t < 64 \<and> 64 * k' + t = 64 * k + n \<and> k \<le> k'
    \<and> (\<forall>i. pbit zs i = (if 64 * k \<le> i \<and> i < 64 * k' then pbit that i else pbit ws i))"
  using assms
proof (induction that k n ws rule: copy_words.induct)
  case (1 that k n ws)
  show ?case
  proof (cases "n \<ge> 64")
    case True
    let ?ys = "ws[k := that ! k]"
    have step: "copy_words that (k + 1) (n - 64) ?ys = (k', t, zs)"
      using True "1.prems"(1) by (subst (asm) copy_words.simps) simp
    have IH: "length zs = length ?ys \<and> t < 64 \<and> 64 * k' + t = 64 * (k + 1) + (n - 64) \<and> k + 1 \<le> k'
      \<and> (\<forall>i. pbit zs i = (if 64 * (k + 1) \<le> i \<and> i < 64 * k' then pbit that i else pbit ?ys i))"
      using "1.IH" [OF True step] "1.prems"(2) True by simp
    have k: "k < length ws" using "1.prems"(2) True by simp
    have "pbit ?ys i = (if 64 * k \<le> i \<and> i < 64 * k + 64 then pbit that i else pbit ws i)" for i
      using copy_masked [of k ws "- 1" 64 that i] k by (simp add: copy_masked_def)
    with IH True show ?thesis by auto
  next
    case False
    with "1.prems"(1) have "k' = k" "t = n" "zs = ws" by (subst (asm) copy_words.simps; simp)+
    with False show ?thesis by auto
  qed
qed

lemma copy_bits_plane:
  assumes len: "length ws = max 1 (words_for n)" "length that = max 1 (words_for m)"
    and i: "i < n" and ok: "\<not> (m = 64 \<and> n > 64)"
  shows "length (copy_bits_plane n m that ws) = length ws"
    and "pbit (copy_bits_plane n m that ws) i = (if i < m then pbit that i else pbit ws i)"
proof -
  have one: "length ws = 1" if "n \<le> 64" using that len(1) i words_for_small [of n] by simp
  have pos: "0 < length ws" using len(1) by simp
  have room: "n \<le> 64 * length ws" using words_for_mult_ge [of n] len(1) by (simp add: max_def split: if_splits)
  have "length (copy_bits_plane n m that ws) = length ws
    \<and> pbit (copy_bits_plane n m that ws) i = (if i < m then pbit that i else pbit ws i)"
  proof -
    consider (eq) "n = m" | (short) "n \<noteq> m" "n \<le> 64" "m \<le> 64" | (cut) "n \<le> 64" "m > 64"
      | (low) "n > 64" "m < 64" | (long) "n \<noteq> m" "n > 64" "m > 64"
      using ok by linarith
    then show ?thesis
    proof cases
      case eq
      with len i show ?thesis by (simp add: copy_bits_plane_def)
    next
      case short
      then show ?thesis
        using copy_masked [OF pos, of "lomask (min m n)" "min m n" that i] i
        by (auto simp: copy_bits_plane_def Let_def)
    next
      case cut
      with one i show ?thesis by (auto simp: copy_bits_plane_def pbit_small bit_and_iff)
    next
      case low
      then show ?thesis
        using copy_masked [OF pos, of "lomask m" m that i] i by (auto simp: copy_bits_plane_def)
    next
      case long
      obtain k t zs where c: "copy_words that 0 (min m n) ws = (k, t, zs)" by (metis prod_cases3)
      have cw: "length zs = length ws" "t < 64" "64 * k + t = min m n"
        "\<And>i. pbit zs i = (if i < 64 * k then pbit that i else pbit ws i)"
        using copy_words [OF c] room by auto
      show ?thesis
      proof (cases "t = 0")
        case True
        with long c cw i show ?thesis by (auto simp: copy_bits_plane_def)
      next
        case False
        then have "64 * k < 64 * length ws" using cw(3) room by linarith
        then have k: "k < length zs" using cw(1) by simp
        note cm = copy_masked [OF k, of "lomask t" t that i]
        have "copy_bits_plane n m that ws = copy_masked k (lomask t) that zs"
          using long c False by (simp add: copy_bits_plane_def)
        moreover have "64 * k + t = m \<or> 64 * k + t = n" using cw(3) by linarith
        ultimately show ?thesis using cm cw i by auto
      qed
    qed
  qed
  then show "length (copy_bits_plane n m that ws) = length ws"
    and "pbit (copy_bits_plane n m that ws) i = (if i < m then pbit that i else pbit ws i)" by auto
qed

lemma v4_copy_bits_spec:
  assumes inv: "v4_inv v" "v4_inv w" and ok: "\<not> (v4_size w = 64 \<and> v4_size v > 64)"
  shows "v4_inv (v4_copy_bits v w)"
    and "v4_list (v4_copy_bits v w) = take (v4_size v) (v4_list w) @ drop (v4_size w) (v4_list v)"
proof -
  let ?n = "v4_size v" and ?m = "v4_size w"
  have len: "length (v4_abits v) = max 1 (words_for ?n)" "length (v4_bbits v) = max 1 (words_for ?n)"
    "length (v4_abits w) = max 1 (words_for ?m)" "length (v4_bbits w) = max 1 (words_for ?m)"
    using inv by (simp_all add: v4_inv_def)
  note A = copy_bits_plane [OF len(1,3) _ ok] and B = copy_bits_plane [OF len(2,4) _ ok]
  have "length (copy_bits_plane 0 m that ws) = length ws"
    if "length ws = 1" "length that = max 1 (words_for m)" for m that ws
    using that by (auto simp: copy_bits_plane_def Let_def copy_masked_def)
  then show rinv: "v4_inv (v4_copy_bits v w)"
    using inv len A(1) [of 0] B(1) [of 0] by (cases "?n = 0") (simp_all add: v4_inv_def v4_copy_bits_def)
  have "v4_value (v4_copy_bits v w) i = (if i < ?m then v4_value w i else v4_value v i)" if "i < ?n" for i
    using rinv inv that A(2) [OF that] B(2) [OF that] by (simp add: v4_value_pbit v4_copy_bits_def)
  then show "v4_list (v4_copy_bits v w) = take ?n (v4_list w) @ drop ?m (v4_list v)"
    by (intro v4_listI) (auto simp: v4_copy_bits_def nth_append min_def)
qed

section \<open>Two-valued word arrays\<close>

lemma sub_bits_some:
  assumes "off + t \<le> 64" and "xz \<or> (\<forall>j < t. \<not> bit b (off + j))"
  shows "\<exists>w. sub_bits xz a b off t = Some w
    \<and> (\<forall>j. bit w j \<longleftrightarrow> j < t \<and> bit a (off + j) \<and> \<not> bit b (off + j))"
proof -
  define u where "u = (if t < 64 then drop_bit off a AND lomask t else drop_bit off a)"
  define v where "v = (if t < 64 then drop_bit off b AND lomask t else drop_bit off b)"
  have bits: "bit u j \<longleftrightarrow> j < t \<and> bit a (off + j)" "bit v j \<longleftrightarrow> j < t \<and> bit b (off + j)" for j
    using assms(1) by (auto simp: u_def v_def bit_simps dest: bit_ulong_lt)
  have sb: "sub_bits xz a b off t = (if v \<noteq> 0 then (if xz then Some (u AND NOT v) else None) else Some u)"
    by (simp add: sub_bits_def u_def v_def Let_def)
  have "v = 0 \<longleftrightarrow> (\<forall>j < t. \<not> bit b (off + j))"
    using assms(1) by (auto simp: ulong_eq_0_iff bits)
  with assms(2) show ?thesis
    by (auto simp: sb bits bit_and_iff bit_not_iff dest: bit_ulong_lt)
qed

lemma sub_bits_none:
  assumes "j < t" and "bit b (off + j)" and "off + t \<le> 64"
  shows "sub_bits False a b off t = None"
proof -
  have "bit (if t < 64 then drop_bit off b AND lomask t else drop_bit off b) j"
    using assms by (auto simp: bit_simps)
  then have "(if t < 64 then drop_bit off b AND lomask t else drop_bit off b) \<noteq> 0" by auto
  then show ?thesis by (simp add: sub_bits_def Let_def)
qed

lemma subarray_loop_turn:
  assumes "0 < wid" and lt: "off < 64" "vo < 64" and off: "adr mod 64 = off"
    and t: "t = min wid (min (64 - off) (64 - vo))"
  shows "subarray_loop xz A B adr wid vp vo val =
    (case sub_bits xz (A ! (adr div 64)) (B ! (adr div 64)) off t of None \<Rightarrow> None
     | Some w \<Rightarrow> subarray_loop xz A B (adr + t) (wid - t) (if vo + t \<ge> 64 then vp + 1 else vp)
         (if vo + t \<ge> 64 then 0 else vo + t) (val[vp := val ! vp OR push_bit vo w]))"
proof -
  have trn: "sub_trans off vo wid = t" by (simp add: sub_trans_min t)
  have eq: "(vo + t = 64) = (64 \<le> vo + t)" using t lt by linarith
  have go: "(0 < wid \<and> vo < 64) = True" using assms(1) lt by simp
  show ?thesis
    unfolding subarray_loop.simps [of xz A B adr wid] go if_True Let_def off trn eq
    by (cases "sub_bits xz (A ! (adr div 64)) (B ! (adr div 64)) off t") simp_all
qed

lemma subarray_loop_step:
  assumes "0 < wid" and t: "t = min wid (min (64 - adr mod 64) (64 - D mod 64))"
  shows "subarray_loop xz A B adr wid (D div 64) (D mod 64) val =
    (case sub_bits xz (A ! (adr div 64)) (B ! (adr div 64)) (adr mod 64) t of None \<Rightarrow> None
     | Some w \<Rightarrow> subarray_loop xz A B (adr + t) (wid - t) ((D + t) div 64) ((D + t) mod 64)
         (val[D div 64 := val ! (D div 64) OR push_bit (D mod 64) w]))"
proof -
  have lt: "adr mod 64 < 64" "D mod 64 < 64" by simp_all
  have le: "D mod 64 + t \<le> 64" using trans_fits [OF lt assms(1) t] by simp
  have pos: "64 * (D div 64) + D mod 64 = D" by simp
  note D = next_pos [OF le lt(2), of "D div 64", unfolded pos]
  show ?thesis unfolding D by (rule subarray_loop_turn [OF assms(1) lt refl t])
qed

lemma or_pushed:
  assumes "D div 64 < length val" and "D mod 64 + t \<le> 64" and w: "\<And>j. bit w j \<Longrightarrow> j < t"
  shows "pbit (val[D div 64 := val ! (D div 64) OR push_bit (D mod 64) w]) i
    \<longleftrightarrow> pbit val i \<or> D \<le> i \<and> i < D + t \<and> bit w (i - D)"
proof (cases "i div 64 = D div 64")
  case True
  have ij: "64 * (i div 64) + i mod 64 = i" "64 * (D div 64) + D mod 64 = D" by simp_all
  have "D mod 64 \<le> i mod 64 \<longleftrightarrow> D \<le> i" using ij True by linarith
  moreover have "i mod 64 - D mod 64 = i - D" using ij True by linarith
  ultimately have "bit (push_bit (D mod 64) w) (i mod 64) \<longleftrightarrow> D \<le> i \<and> bit w (i - D)"
    by (simp add: bit_push_bit_iff)
  with True assms(1) w [of "i - D"] show ?thesis
    by (auto simp: pbit_update bit_or_iff) (auto simp: pbit_def)
next
  case False
  have "\<not> (D \<le> i \<and> i < D + t)"
  proof
    assume h: "D \<le> i \<and> i < D + t"
    have "64 * (D div 64) + D mod 64 = D" by simp
    then have "64 * (D div 64) \<le> i" "i < 64 * (D div 64) + 64" using h assms(2) by linarith+
    then have "i div 64 = D div 64" by (intro div_nat_eqI) simp_all
    with False show False ..
  qed
  with False assms(1) show ?thesis by (auto simp: pbit_update)
qed

lemma subarray_loop_some:
  assumes "xz \<or> (\<forall>j < wid. \<not> pbit B (adr + j))" and "D + wid \<le> 64 * length val"
  shows "\<exists>r. subarray_loop xz A B adr wid (D div 64) (D mod 64) val = Some r \<and> length r = length val
    \<and> (\<forall>i. pbit r i \<longleftrightarrow> pbit val i \<or>
          D \<le> i \<and> i < D + wid \<and> pbit A (adr + (i - D)) \<and> \<not> pbit B (adr + (i - D)))"
  using assms
proof (induction wid arbitrary: adr D val rule: less_induct)
  case (less wid)
  show ?case
  proof (cases "wid = 0")
    case True
    have "subarray_loop xz A B adr 0 (D div 64) (D mod 64) val = Some val"
      by (subst subarray_loop.simps) simp
    with True show ?thesis by auto
  next
    case False
    define t where "t = min wid (min (64 - adr mod 64) (64 - D mod 64))"
    have lt: "adr mod 64 < 64" "D mod 64 < 64" by simp_all
    have t: "0 < t" "t \<le> wid" "adr mod 64 + t \<le> 64" "D mod 64 + t \<le> 64"
      using trans_fits [OF lt _ t_def] False by simp_all
    have adr: "64 * (adr div 64) + adr mod 64 = adr" by simp
    have src: "pbit P (adr + j) = bit (P ! (adr div 64)) (adr mod 64 + j)" if "j < t" for P j
      using pbit_shift_word [of "adr mod 64 + j" P "adr div 64"] that t(3) adr
      by (simp add: add.assoc [symmetric] del: mult_div_mod_eq)
    have "xz \<or> (\<forall>j < t. \<not> bit (B ! (adr div 64)) (adr mod 64 + j))"
      using less.prems(1) t(2) src [of _ B] by (auto dest: less_le_trans)
    from sub_bits_some [OF t(3) this, of "A ! (adr div 64)"]
    obtain w where w: "sub_bits xz (A ! (adr div 64)) (B ! (adr div 64)) (adr mod 64) t = Some w"
      "\<And>j. bit w j \<longleftrightarrow> j < t \<and> bit (A ! (adr div 64)) (adr mod 64 + j)
        \<and> \<not> bit (B ! (adr div 64)) (adr mod 64 + j)" by blast
    have wbit: "bit w j \<longleftrightarrow> j < t \<and> pbit A (adr + j) \<and> \<not> pbit B (adr + j)" for j
      unfolding w(2) using src [of j A] src [of j B] by blast
    let ?ys = "val[D div 64 := val ! (D div 64) OR push_bit (D mod 64) w]"
    have k: "D div 64 < length val"
      using less.prems(2) False by (simp add: less_mult_imp_div_less mult.commute)
    have ys: "pbit ?ys i \<longleftrightarrow> pbit val i \<or> D \<le> i \<and> i < D + t \<and> pbit A (adr + (i - D)) \<and> \<not> pbit B (adr + (i - D))"
      for i
    proof -
      have lt: "\<And>j. bit w j \<Longrightarrow> j < t" unfolding wbit by blast
      have "pbit ?ys i \<longleftrightarrow> pbit val i \<or> D \<le> i \<and> i < D + t \<and> bit w (i - D)"
        using k t(4) lt by (rule or_pushed)
      then show ?thesis unfolding wbit by auto
    qed
    have "xz \<or> (\<forall>j < wid - t. \<not> pbit B (adr + t + j))"
      using less.prems(1) by (auto simp: add.assoc)
    then obtain r where r: "subarray_loop xz A B (adr + t) (wid - t) ((D + t) div 64) ((D + t) mod 64) ?ys = Some r"
      "length r = length ?ys"
      "\<And>i. pbit r i \<longleftrightarrow> pbit ?ys i \<or> D + t \<le> i \<and> i < D + t + (wid - t)
          \<and> pbit A (adr + t + (i - (D + t))) \<and> \<not> pbit B (adr + t + (i - (D + t)))"
      using less.IH [of "wid - t" "adr + t" "D + t" ?ys] t less.prems(2) by auto
    have "pbit r i \<longleftrightarrow> pbit val i \<or>
        D \<le> i \<and> i < D + wid \<and> pbit A (adr + (i - D)) \<and> \<not> pbit B (adr + (i - D))" for i
    proof -
      have "adr + t + (i - (D + t)) = adr + (i - D)" if "D + t \<le> i" using that by simp
      then show ?thesis unfolding r(3) ys using t(2) by auto
    qed
    then show ?thesis
      using r(1,2) w(1) subarray_loop_step [OF _ t_def, of xz A B val] False by simp
  qed
qed

lemma subarray_loop_none:
  assumes "j < wid" and "pbit B (adr + j)"
  shows "subarray_loop False A B adr wid (D div 64) (D mod 64) val = None"
  using assms
proof (induction wid arbitrary: adr D val j rule: less_induct)
  case (less wid)
  define t where "t = min wid (min (64 - adr mod 64) (64 - D mod 64))"
  have lt: "adr mod 64 < 64" "D mod 64 < 64" by simp_all
  have t: "0 < t" "t \<le> wid" "adr mod 64 + t \<le> 64"
    using trans_fits [OF lt _ t_def] less.prems(1) by simp_all
  show ?case
  proof (cases "j < t")
    case True
    have "64 * (adr div 64) + (adr mod 64 + j) = adr + j" by simp
    moreover have "adr mod 64 + j < 64" using True t(3) by linarith
    ultimately have "bit (B ! (adr div 64)) (adr mod 64 + j)"
      using pbit_shift_word [of "adr mod 64 + j" B "adr div 64"] less.prems(2) by metis
    from sub_bits_none [OF True this t(3)] show ?thesis
      using subarray_loop_step [OF _ t_def] less.prems(1) by simp
  next
    case False
    then have "pbit B (adr + t + (j - t))" "j - t < wid - t" using less.prems by simp_all
    then show ?thesis
      using subarray_loop_step [OF _ t_def, of False A B val] less.prems(1) t less.IH [of "wid - t"]
      by (auto split: option.split)
  qed
qed

lemma v4_subarray_some:
  assumes inv: "v4_inv v" and fit: "adr + wid \<le> v4_size v" "0 < wid"
    and ok: "xz \<or> (\<forall>j < wid. \<not> bit4_is_xz (v4_value v (adr + j)))"
  shows "\<exists>r. v4_subarray v adr wid xz = Some r \<and> length r = words_for wid
    \<and> (\<forall>i < 64 * words_for wid. pbit r i \<longleftrightarrow> i < wid \<and> v4_value v (adr + i) = BIT4_1)"
proof -
  have xz: "xz \<or> (\<forall>j < wid. \<not> pbit (v4_bbits v) (adr + j))"
    using ok fit inv by (auto simp: v4_value_pbit)
  have one: "v4_value v (adr + i) = BIT4_1 \<longleftrightarrow> pbit (v4_abits v) (adr + i) \<and> \<not> pbit (v4_bbits v) (adr + i)"
    if "i < wid" for i using that fit inv by (simp add: v4_value_pbit)
  have room: "wid \<le> 64 * words_for wid" using words_for_mult_ge [of wid] by simp
  show ?thesis
  proof (cases "v4_size v \<le> 64")
    case True
    have "xz \<or> (\<forall>j < wid. \<not> bit (v4_bbits v ! 0) (adr + j))"
      using xz True fit by (auto simp: pbit_small)
    with sub_bits_some [of adr wid xz "v4_bbits v ! 0" "v4_abits v ! 0"] True fit
    obtain w where w: "sub_bits xz (v4_abits v ! 0) (v4_bbits v ! 0) adr wid = Some w"
      "\<And>j. bit w j \<longleftrightarrow> j < wid \<and> bit (v4_abits v ! 0) (adr + j) \<and> \<not> bit (v4_bbits v ! 0) (adr + j)"
      by auto
    have "words_for wid = 1" using True fit by (intro words_for_small) simp_all
    with w True one fit show ?thesis by (auto simp: v4_subarray_def Let_def pbit_small)
  next
    case False
    have "pbit (replicate (words_for wid) 0) i = False" if "i < 64 * words_for wid" for i
      using that by (simp add: pbit_replicate)
    moreover have "0 div 64 = (0 :: nat)" "0 mod 64 = (0 :: nat)" by simp_all
    ultimately show ?thesis
      using False subarray_loop_some [OF xz, of 0 "replicate (words_for wid) 0" "v4_abits v"] room one
      by (auto simp: v4_subarray_def Let_def)
  qed
qed

lemma v4_subarray_none:
  assumes inv: "v4_inv v" and fit: "adr + wid \<le> v4_size v" and j: "j < wid" "bit4_is_xz (v4_value v (adr + j))"
  shows "v4_subarray v adr wid False = None"
proof -
  have b: "pbit (v4_bbits v) (adr + j)" using j fit inv by (simp add: v4_value_pbit)
  show ?thesis
  proof (cases "v4_size v \<le> 64")
    case True
    then have "bit (v4_bbits v ! 0) (adr + j)" using b j(1) fit by (simp add: pbit_small)
    with sub_bits_none [OF j(1) this] True fit show ?thesis by (simp add: v4_subarray_def Let_def)
  next
    case False
    with subarray_loop_none [OF j(1) b, of "v4_abits v" 0] show ?thesis
      by (simp add: v4_subarray_def Let_def)
  qed
qed

lemma bit_range_mask: "j < 64 \<Longrightarrow> bit (range_mask off t) j \<longleftrightarrow> off \<le> j \<and> j < off + t"
  by (auto simp: range_mask_def Let_def bit_simps)

definition setarray_turn :: "plane \<Rightarrow> nat \<Rightarrow> nat \<Rightarrow> nat \<Rightarrow> nat \<Rightarrow> nat \<Rightarrow> plane \<times> plane \<Rightarrow> plane \<times> plane" where
  "setarray_turn val t ptr off vp vo AB = (case AB of (A, B) \<Rightarrow>
     let m = range_mask off t;
         v = (if vo \<ge> off then drop_bit (vo - off) (val ! vp) else push_bit (off - vo) (val ! vp))
     in (A[ptr := (A ! ptr AND NOT m) OR (m AND v)], B[ptr := B ! ptr AND NOT m]))"

lemma setarray_loop_turn:
  assumes "0 < wid" and lt: "off < 64" "vo < 64" and t: "t = min wid (min (64 - off) (64 - vo))"
  shows "setarray_loop val wid ptr off vp vo AB =
    setarray_loop val (wid - t) (if off + t \<ge> 64 then ptr + 1 else ptr) (if off + t \<ge> 64 then 0 else off + t)
      (if vo + t \<ge> 64 then vp + 1 else vp) (if vo + t \<ge> 64 then 0 else vo + t)
      (setarray_turn val t ptr off vp vo AB)"
proof -
  obtain A B where AB: "AB = (A, B)" by fastforce
  have trn: "set_trans wid vo off = t" by (simp add: set_trans_min t)
  have eq: "(vo + t = 64) = (64 \<le> vo + t)" "(off + t = 64) = (64 \<le> off + t)" using t lt by linarith+
  have go: "(0 < wid \<and> vo < 64 \<and> off < 64) = True" using assms(1) lt by simp
  show ?thesis
    unfolding setarray_loop.simps [of val wid] go if_True Let_def trn eq AB setarray_turn_def
    by (simp add: Let_def)
qed

lemma setarray_loop_step:
  assumes "0 < wid" and t: "t = min wid (min (64 - D mod 64) (64 - S mod 64))"
  shows "setarray_loop val wid (D div 64) (D mod 64) (S div 64) (S mod 64) AB =
    setarray_loop val (wid - t) ((D + t) div 64) ((D + t) mod 64) ((S + t) div 64) ((S + t) mod 64)
      (setarray_turn val t (D div 64) (D mod 64) (S div 64) (S mod 64) AB)"
proof -
  have lt: "D mod 64 < 64" "S mod 64 < 64" by simp_all
  have le: "D mod 64 + t \<le> 64" "S mod 64 + t \<le> 64" using trans_fits [OF lt assms(1) t] by simp_all
  have pos: "64 * (S div 64) + S mod 64 = S" "64 * (D div 64) + D mod 64 = D" by simp_all
  note S = next_pos [OF le(2) lt(2), of "S div 64", unfolded pos]
    and D = next_pos [OF le(1) lt(1), of "D div 64", unfolded pos]
  show ?thesis unfolding S D by (rule setarray_loop_turn [OF assms(1) lt t])
qed

lemma range_word:
  assumes "D mod 64 + t \<le> (64 :: nat)"
  shows "D \<le> i \<and> i < D + t \<longleftrightarrow> i div 64 = D div 64 \<and> D mod 64 \<le> i mod 64 \<and> i mod 64 < D mod 64 + t"
proof
  assume h: "D \<le> i \<and> i < D + t"
  have "D = 64 * (D div 64) + D mod 64" by simp
  then have "64 * (D div 64) \<le> i" and "i < 64 * (D div 64) + 64" using assms h by linarith+
  then have "i div 64 = D div 64" by (intro div_nat_eqI) simp_all
  moreover have "i = 64 * (i div 64) + i mod 64" "D = 64 * (D div 64) + D mod 64" by simp_all
  ultimately show "i div 64 = D div 64 \<and> D mod 64 \<le> i mod 64 \<and> i mod 64 < D mod 64 + t" using h by linarith
next
  assume h: "i div 64 = D div 64 \<and> D mod 64 \<le> i mod 64 \<and> i mod 64 < D mod 64 + t"
  moreover have "i = 64 * (i div 64) + i mod 64" "D = 64 * (D div 64) + D mod 64" by simp_all
  ultimately show "D \<le> i \<and> i < D + t" by linarith
qed

lemma setarray_turn:
  assumes k: "D div 64 < length A" "length B = length A" and t: "D mod 64 + t \<le> 64" "S mod 64 + t \<le> 64"
    and r: "setarray_turn val t (D div 64) (D mod 64) (S div 64) (S mod 64) (A, B) = (A', B')"
  shows "length A' = length A \<and> length B' = length A
    \<and> pbit A' i = (if D \<le> i \<and> i < D + t then pbit val (S + (i - D)) else pbit A i)
    \<and> pbit B' i = (if D \<le> i \<and> i < D + t then False else pbit B i)"
proof -
  let ?p = "D div 64" and ?off = "D mod 64" and ?vo = "S mod 64" and ?j = "i mod 64"
  define m where "m = range_mask ?off t"
  define v where "v = (if ?vo \<ge> ?off then drop_bit (?vo - ?off) (val ! (S div 64))
      else push_bit (?off - ?vo) (val ! (S div 64)))"
  have A': "A' = A[?p := (A ! ?p AND NOT m) OR (m AND v)]" "B' = B[?p := B ! ?p AND NOT m]"
    using r by (simp_all add: setarray_turn_def Let_def m_def v_def)
  have v: "bit v j = bit (val ! (S div 64)) (?vo + (j - ?off))" if "?off \<le> j" "j < ?off + t" for j
  proof -
    have "?vo - ?off + j = ?vo + (j - ?off)" if "?vo \<ge> ?off" using that \<open>?off \<le> j\<close> by linarith
    moreover have "j - (?off - ?vo) = ?vo + (j - ?off)" "?off - ?vo \<le> j" if "\<not> ?vo \<ge> ?off"
      using that \<open>?off \<le> j\<close> by linarith+
    moreover have "j < 64" using that t by linarith
    ultimately show ?thesis by (simp add: v_def bit_drop_bit_eq bit_push_bit_iff)
  qed
  have m: "bit m ?j \<longleftrightarrow> ?off \<le> ?j \<and> ?j < ?off + t" by (simp add: m_def bit_range_mask)
  have src: "pbit val (S + (i - D)) = bit (val ! (S div 64)) (?vo + (?j - ?off))"
    if "i div 64 = ?p" "?off \<le> ?j" "?j < ?off + t"
  proof -
    have "i = 64 * (i div 64) + ?j" "D = 64 * ?p + ?off" "S = 64 * (S div 64) + ?vo" by simp_all
    then have "S + (i - D) = 64 * (S div 64) + (?vo + (?j - ?off))" using that(1,2) by linarith
    moreover have "?vo + (?j - ?off) < 64" using that t by linarith
    ultimately show ?thesis using pbit_shift_word [of "?vo + (?j - ?off)" val "S div 64"] by metis
  qed
  have "pbit A' i = (if D \<le> i \<and> i < D + t then pbit val (S + (i - D)) else pbit A i)"
  proof (cases "i div 64 = ?p")
    case True
    have "pbit A' i = (if bit m ?j then bit v ?j else pbit A i)"
      unfolding A' using True k(1) by (simp add: pbit_update bit_or_iff bit_and_iff bit_not_iff) (simp add: pbit_def)
    then show ?thesis unfolding range_word [OF t(1)] m using True v [of ?j] src by auto
  next
    case False
    then show ?thesis unfolding range_word [OF t(1)] A' using k(1) by (simp add: pbit_update)
  qed
  moreover have "pbit B' i = (if D \<le> i \<and> i < D + t then False else pbit B i)"
    unfolding range_word [OF t(1)] A' using k m
    by (simp add: pbit_update bit_and_iff bit_not_iff) (simp add: pbit_def)
  ultimately show ?thesis using A' k(2) by simp
qed

lemma setarray_loop:
  assumes "length B = length A" and "D + wid \<le> 64 * length A"
    and "setarray_loop val wid (D div 64) (D mod 64) (S div 64) (S mod 64) (A, B) = (A', B')"
  shows "length A' = length A \<and> length B' = length A
    \<and> pbit A' i = (if D \<le> i \<and> i < D + wid then pbit val (S + (i - D)) else pbit A i)
    \<and> pbit B' i = (if D \<le> i \<and> i < D + wid then False else pbit B i)"
  using assms
proof (induction wid arbitrary: S D A B rule: less_induct)
  case (less wid)
  show ?case
  proof (cases "wid = 0")
    case True
    with less.prems(3) have "A' = A" "B' = B" by (subst (asm) setarray_loop.simps; simp)+
    with True less.prems(1) show ?thesis by auto
  next
    case False
    define t where "t = min wid (min (64 - D mod 64) (64 - S mod 64))"
    have lt: "D mod 64 < 64" "S mod 64 < 64" by simp_all
    have t: "0 < t" "t \<le> wid" "D mod 64 + t \<le> 64" "S mod 64 + t \<le> 64"
      using trans_fits [OF lt _ t_def] False by simp_all
    obtain A1 B1 where s: "setarray_turn val t (D div 64) (D mod 64) (S div 64) (S mod 64) (A, B) = (A1, B1)"
      by fastforce
    have k: "D div 64 < length A"
      using less.prems(2) False by (simp add: less_mult_imp_div_less mult.commute)
    note s1 = setarray_turn [OF k less.prems(1) t(3,4) s]
    have "setarray_loop val (wid - t) ((D + t) div 64) ((D + t) mod 64) ((S + t) div 64) ((S + t) mod 64)
        (A1, B1) = (A', B')"
      using less.prems(3) False by (simp add: setarray_loop_step [OF _ t_def] s)
    then have IH: "length A' = length A1 \<and> length B' = length A1
      \<and> pbit A' i = (if D + t \<le> i \<and> i < D + t + (wid - t) then pbit val (S + t + (i - (D + t))) else pbit A1 i)
      \<and> pbit B' i = (if D + t \<le> i \<and> i < D + t + (wid - t) then False else pbit B1 i)"
      using less.IH [of "wid - t" B1 A1 "D + t" "S + t"] t less.prems(2) s1 by auto
    moreover have "S + t + (i - (D + t)) = S + (i - D)" if "D + t \<le> i" using that by simp
    ultimately show ?thesis using s1 [of i] t(2) by auto
  qed
qed

lemma v4_setarray_spec:
  assumes inv: "v4_inv v" and fit: "adr + wid \<le> v4_size v" "adr < v4_size v"
  obtains r where "v4_setarray v adr wid val = Some r" and "v4_inv r" and "v4_size r = v4_size v"
    and "\<And>i. i < v4_size v \<Longrightarrow> v4_value r i = (if adr \<le> i \<and> i < adr + wid
      then (if pbit val (i - adr) then BIT4_1 else BIT4_0) else v4_value v i)"
proof -
  let ?n = "v4_size v"
  have "\<exists>A B. v4_setarray v adr wid val = Some (v\<lparr>v4_abits := A, v4_bbits := B\<rparr>)
    \<and> length A = length (v4_abits v) \<and> length B = length (v4_bbits v)
    \<and> (\<forall>i < ?n. pbit A i = (if adr \<le> i \<and> i < adr + wid then pbit val (i - adr) else pbit (v4_abits v) i))
    \<and> (\<forall>i < ?n. pbit B i = (if adr \<le> i \<and> i < adr + wid then False else pbit (v4_bbits v) i))"
  proof (cases "?n \<le> 64")
    case True
    have "length (v4_abits v) = 1" "length (v4_bbits v) = 1"
      using True inv fit words_for_small [of ?n] by (simp_all add: v4_inv_def)
    with True fit show ?thesis
      by (intro exI [of _ "[(v4_abits v ! 0 AND NOT (range_mask adr wid))
            OR (range_mask adr wid AND push_bit adr (val ! 0))]"]
          exI [of _ "[v4_bbits v ! 0 AND NOT (range_mask adr wid)]"])
        (auto simp: v4_setarray_def Let_def pbit_small bit_or_iff bit_and_iff bit_not_iff
          bit_push_bit_iff bit_range_mask)
  next
    case False
    obtain A B where r: "setarray_loop val wid (adr div 64) (adr mod 64) 0 0 (v4_abits v, v4_bbits v) = (A, B)"
      by fastforce
    have len: "length (v4_bbits v) = length (v4_abits v)" using inv by (simp add: v4_inv_def)
    have room: "adr + wid \<le> 64 * length (v4_abits v)"
      using fit words_for_mult_ge [of ?n] inv by (simp add: v4_inv_def max_def split: if_splits)
    have z: "0 div 64 = (0 :: nat)" "0 mod 64 = (0 :: nat)" by simp_all
    note l = setarray_loop [OF len room, of val 0 A B, unfolded z, OF r]
    have "v4_setarray v adr wid val = Some (v\<lparr>v4_abits := A, v4_bbits := B\<rparr>)"
      using False fit r by (simp add: v4_setarray_def)
    then show ?thesis using l len by (intro exI [of _ A] exI [of _ B]) simp
  qed
  then obtain A B where r: "v4_setarray v adr wid val = Some (v\<lparr>v4_abits := A, v4_bbits := B\<rparr>)"
    "length A = length (v4_abits v)" "length B = length (v4_bbits v)"
    "\<And>i. i < ?n \<Longrightarrow> pbit A i = (if adr \<le> i \<and> i < adr + wid then pbit val (i - adr) else pbit (v4_abits v) i)"
    "\<And>i. i < ?n \<Longrightarrow> pbit B i = (if adr \<le> i \<and> i < adr + wid then False else pbit (v4_bbits v) i)"
    by blast
  let ?r = "v\<lparr>v4_abits := A, v4_bbits := B\<rparr>"
  have rinv: "v4_inv ?r" using inv r(2,3) by (simp add: v4_inv_def)
  show thesis
    using rinv inv r(1,4,5) by (intro that [of ?r]) (auto simp: v4_value_pbit)
qed

end
