(* ===== verification/Vector4_Arith.thy ===== *)
theory Vector4_Arith
  imports Vector4_Concat Carry
begin

text \<open>
  Arithmetic of \<^verbatim>\<open>vvp_vector4_t\<close> (\<^verbatim>\<open>vvp/vvp_net.cc\<close>): \<^verbatim>\<open>add\<close>, \<^verbatim>\<open>sub\<close>, \<^verbatim>\<open>mul\<close>, the
  immediate forms of \<^verbatim>\<open>vvp_net.h\<close>, \<^verbatim>\<open>operator +=\<close> on an \<^verbatim>\<open>int64_t\<close>, the comparisons
  \<^verbatim>\<open>compare_gtge\<close> and \<^verbatim>\<open>compare_gtge_signed\<close>, and the conversions \<^verbatim>\<open>vector4_to_value\<close>.
  \<open>bits_val\<close> is the number a list of bits encodes and \<open>bits_of n k\<close> the \<open>n\<close> bit encoding of a number
  modulo \<open>2 ^ n\<close>; the lemmas state that the word loops with carries compute on these numbers, and
  that any x or z operand bit makes the whole result x.
\<close>

section \<open>Numbers as bits\<close>

definition bits_val :: "vvp_bit4_t list \<Rightarrow> int" where
  "bits_val bs = horner_sum of_bool 2 (map (\<lambda>b. b = BIT4_1) bs)"

definition bits_of :: "nat \<Rightarrow> int \<Rightarrow> vvp_bit4_t list" where
  "bits_of n k = map (\<lambda>i. if bit k i then BIT4_1 else BIT4_0) [0..<n]"

definition bits_sval :: "vvp_bit4_t list \<Rightarrow> int" where
  "bits_sval bs = bits_val bs - (if bs \<noteq> [] \<and> last bs = BIT4_1 then 2 ^ length bs else 0)"

lemma bit_bits_val: "bit (bits_val bs) i \<longleftrightarrow> i < length bs \<and> bs ! i = BIT4_1"
  by (auto simp: bits_val_def bit_horner_sum_bit_iff)

lemma length_bits_of [simp]: "length (bits_of n k) = n"
  by (simp add: bits_of_def)

lemma nth_bits_of [simp]: "i < n \<Longrightarrow> bits_of n k ! i = (if bit k i then BIT4_1 else BIT4_0)"
  by (simp add: bits_of_def)

lemma bits_val_bits_of: "bits_val (bits_of n k) = take_bit n k"
  by (rule bit_eqI) (auto simp: bit_bits_val bit_take_bit_iff split: if_splits)

lemma bits_val_nonneg [simp]: "0 \<le> bits_val bs"
  by (simp add: bits_val_def horner_sum_nonnegative)

lemma take_bit_bits_val: "take_bit (length bs) (bits_val bs) = bits_val bs"
  by (rule bit_eqI) (auto simp: bit_bits_val bit_take_bit_iff)

lemma bits_val_lt: "bits_val bs < 2 ^ length bs"
  using take_bit_bits_val [of bs] by (metis take_bit_int_less_exp)

lemma bits_of_cong: "take_bit n k = take_bit n m \<Longrightarrow> bits_of n k = bits_of n m"
  by (rule nth_equalityI) (auto, (metis bit_take_bit_iff)+)

lemma bits_val_update:
  assumes "i < length bs"
  shows "bits_val (bs[i := b]) = bits_val bs + 2 ^ i * (of_bool (b = BIT4_1) - of_bool (bs ! i = BIT4_1))"
  using assms
proof (induction bs arbitrary: i)
  case (Cons c bs)
  have step: "bits_val (x # xs) = of_bool (x = BIT4_1) + 2 * bits_val xs" for x xs
    by (simp add: bits_val_def)
  show ?case
  proof (cases i)
    case (Suc j)
    then have "bits_val (bs[j := b]) = bits_val bs + 2 ^ j * (of_bool (b = BIT4_1) - of_bool (bs ! j = BIT4_1))"
      using Cons by simp
    then show ?thesis by (simp only: Suc list_update.simps nat.case step nth_Cons_Suc) (simp add: distrib_left)
  qed (simp add: step)
qed simp

lemma pval_update:
  assumes "k < length ws"
  shows "pval (ws[k := w]) = pval ws + 2 ^ (64 * k) * (uint w - uint (ws ! k))"
  using assms
proof (induction ws arbitrary: k)
  case (Cons v ws)
  show ?case
  proof (cases k)
    case (Suc j)
    then have "pval (ws[j := w]) = pval ws + 2 ^ (64 * j) * (uint w - uint (ws ! j))"
      using Cons by simp
    then show ?thesis
      by (simp only: Suc list_update.simps nat.case pval.simps nth_Cons_Suc mult_Suc_right power_add distrib_left)
  qed simp
qed simp

lemma pval_take_Suc:
  "k < length ws \<Longrightarrow> pval (take (Suc k) ws) = pval (take k ws) + 2 ^ (64 * k) * uint (ws ! k)"
  by (simp add: take_Suc_conv_app_nth pval_append)

text \<open>The number of a vector without x and z bits is its A plane, cut to the width.\<close>

lemma v4_pval:
  assumes "v4_inv v" and "\<not> v4_has_xz v"
  shows "bits_val (v4_list v) = take_bit (v4_size v) (pval (v4_abits v))"
proof (rule bit_eqI)
  fix i
  have "\<not> pbit (v4_bbits v) i" if "i < v4_size v" using assms that by (auto simp: v4_has_xz_pbit)
  then show "bit (bits_val (v4_list v)) i = bit (take_bit (v4_size v) (pval (v4_abits v))) i"
    using assms(1) v4_inv_lt [OF assms(1), of i]
    by (auto simp: bit_bits_val bit_take_bit_iff bit_pval v4_value_pbit)
qed

lemma v4_list_number:
  assumes inv: "v4_inv r" and z: "\<And>i. i < v4_size r \<Longrightarrow> \<not> pbit (v4_bbits r) i"
    and k: "take_bit (v4_size r) (pval (v4_abits r)) = take_bit (v4_size r) k"
  shows "v4_list r = bits_of (v4_size r) k"
proof (rule v4_listI)
  fix i assume i: "i < length (bits_of (v4_size r) k)"
  have "bit (pval (v4_abits r)) i = bit k i"
    using k i by (metis bit_take_bit_iff length_bits_of)
  with i z [of i] inv v4_inv_lt [OF inv, of i] show "v4_value r i = bits_of (v4_size r) k ! i"
    by (simp add: v4_value_pbit bit_pval)
qed simp

lemma v4_list_all_x:
  assumes "v4_inv r" and "\<And>i. i < v4_size r \<Longrightarrow> pbit (v4_abits r) i \<and> pbit (v4_bbits r) i"
  shows "v4_list r = replicate (v4_size r) BIT4_X"
  using assms by (intro v4_listI) (simp_all add: v4_value_pbit)

section \<open>Definitions\<close>

text \<open>The paths for \<^verbatim>\<open>size_ < BITS_PER_WORD\<close> and \<^verbatim>\<open>size_ == BITS_PER_WORD\<close>.\<close>

definition word_op :: "(ulong \<Rightarrow> ulong \<Rightarrow> ulong) \<Rightarrow> vvp_vector4_t \<Rightarrow> vvp_vector4_t \<Rightarrow> vvp_vector4_t" where
  "word_op f v that =
    (let a = v4_abits v ! 0; b = v4_bbits v ! 0; ta = v4_abits that ! 0; tb = v4_bbits that ! 0 in
     if v4_size v < BITS_PER_WORD then
       let m = NOT (himask (v4_size v)) in
       if (b OR tb) AND m \<noteq> 0 then v\<lparr>v4_abits := [a OR m], v4_bbits := [b OR m]\<rparr>
       else v\<lparr>v4_abits := [f a ta AND m]\<rparr>
     else if b OR tb \<noteq> 0 then v\<lparr>v4_abits := [- 1], v4_bbits := [- 1]\<rparr>
     else v\<lparr>v4_abits := [f a ta]\<rparr>)"

text \<open>The words written at \<^verbatim>\<open>x_out\<close>.\<close>

definition x_words :: "nat \<Rightarrow> plane" where
  "x_words wid = replicate (wid div BITS_PER_WORD) (- 1)
     @ (if wid mod BITS_PER_WORD \<noteq> 0 then [- 1 AND NOT (himask (wid mod BITS_PER_WORD))] else [])"

text \<open>
  One word of the addition loop; \<open>g\<close> is the identity in \<^verbatim>\<open>add\<close> and the complement in
  \<^verbatim>\<open>sub\<close>.  \<open>None\<close> is the jump to \<^verbatim>\<open>x_out\<close>.
\<close>

definition carry_step ::
  "(ulong \<Rightarrow> ulong) \<Rightarrow> ulong \<Rightarrow> vvp_vector4_t \<Rightarrow> vvp_vector4_t \<Rightarrow> nat \<Rightarrow> ulong \<times> plane \<Rightarrow> (ulong \<times> plane) option"
where
  "carry_step g m v that idx s = (case s of (carry, A) \<Rightarrow>
     if (v4_bbits v ! idx OR v4_bbits that ! idx) AND m \<noteq> 0 then None
     else case add_with_carry (A ! idx) (g (v4_abits that ! idx)) carry of
       (r, carry') \<Rightarrow> Some (carry', A[idx := r]))"

definition carry_planes ::
  "(ulong \<Rightarrow> ulong) \<Rightarrow> ulong \<Rightarrow> vvp_vector4_t \<Rightarrow> vvp_vector4_t \<Rightarrow> plane option" where
  "carry_planes g carry v that =
    (let cnt = v4_size v div BITS_PER_WORD; tail = v4_size v mod BITS_PER_WORD in
     Option.bind (for_each (carry_step g (- 1) v that) [0..<cnt] (carry, v4_abits v))
       (\<lambda>s. if tail \<noteq> 0 then
          let m = NOT (himask tail) in
          map_option (\<lambda>(carry, A). A[cnt := A ! cnt AND m]) (carry_step g m v that cnt s)
        else Some (snd s)))"

definition add_sub :: "(ulong \<Rightarrow> ulong) \<Rightarrow> ulong \<Rightarrow> vvp_vector4_t \<Rightarrow> vvp_vector4_t \<Rightarrow> vvp_vector4_t" where
  "add_sub g carry v that = (case carry_planes g carry v that of
     Some A \<Rightarrow> v\<lparr>v4_abits := A\<rparr>
   | None \<Rightarrow> v\<lparr>v4_abits := x_words (v4_size v), v4_bbits := x_words (v4_size v)\<rparr>)"

definition v4_add :: "vvp_vector4_t \<Rightarrow> vvp_vector4_t \<Rightarrow> vvp_vector4_t option" where
  "v4_add v that =
    (if v4_size v = v4_size that then Some
       (if v4_size v \<le> BITS_PER_WORD then word_op (\<lambda>a b. a + b) v that
        else add_sub (\<lambda>w. w) 0 v that)
     else None)"

definition v4_sub :: "vvp_vector4_t \<Rightarrow> vvp_vector4_t \<Rightarrow> vvp_vector4_t option" where
  "v4_sub v that =
    (if v4_size v = v4_size that then Some
       (if v4_size v \<le> BITS_PER_WORD then word_op (\<lambda>a b. a - b) v that
        else add_sub (\<lambda>w. NOT w) 1 v that)
     else None)"

section \<open>One word operands\<close>

lemma not_himask: "NOT (himask n) = lomask n"
  by (auto simp: ulong_eq_iff bit_not_iff)

lemma take_bit_uint_and: "take_bit n (uint (w AND lomask n)) = take_bit n (uint w)"
  by (simp add: uint_and_lomask)

definition ring_op :: "(ulong \<Rightarrow> ulong \<Rightarrow> ulong) \<Rightarrow> (int \<Rightarrow> int \<Rightarrow> int) \<Rightarrow> bool" where
  "ring_op f g \<longleftrightarrow> (\<forall>a b. uint (f a b) = take_bit 64 (g (uint a) (uint b)))
     \<and> (\<forall>n x y. take_bit n (g (take_bit n x) (take_bit n y)) = take_bit n (g x y))"

lemma ring_ops: "ring_op (\<lambda>a b. a + b) (+)" "ring_op (\<lambda>a b. a - b) (-)" "ring_op (\<lambda>a b. a * b) (*)"
  by (simp_all add: ring_op_def uint_word_ariths take_bit_eq_mod mod_add_eq mod_diff_eq mod_mult_eq)

lemma no_xz_pbit:
  "v4_inv v \<Longrightarrow> \<not> v4_has_xz v \<longleftrightarrow> (\<forall>i < v4_size v. \<not> pbit (v4_bbits v) i)"
  by (simp add: v4_has_xz_pbit)

lemma word_op_x:
  assumes inv: "v4_inv v" "v4_inv w" and n: "v4_size v = v4_size w" "v4_size v \<le> 64"
  shows "(if v4_size v < 64 then (v4_bbits v ! 0 OR v4_bbits w ! 0) AND NOT (himask (v4_size v)) \<noteq> 0
      else v4_bbits v ! 0 OR v4_bbits w ! 0 \<noteq> 0) \<longleftrightarrow> v4_has_xz v \<or> v4_has_xz w"
proof -
  have "v4_has_xz v \<or> v4_has_xz w \<longleftrightarrow>
      (\<exists>i < v4_size v. bit (v4_bbits v ! 0) i \<or> bit (v4_bbits w ! 0) i)"
    unfolding v4_has_xz_pbit [OF inv(1)] v4_has_xz_pbit [OF inv(2)] using n by (auto simp: pbit_small)
  moreover have "(u AND lomask k = 0) = (\<forall>i < k. \<not> bit u i)" if "k \<le> 64" for u :: ulong and k
    using that by (auto simp: ulong_eq_0_iff bit_and_iff dest: less_le_trans)
  moreover have "v4_size v = 64" if "\<not> v4_size v < 64" using that n by simp
  ultimately show ?thesis
    using n(2) by (auto simp: not_himask ulong_eq_0_iff bit_or_iff)
qed

lemma word_op_list:
  assumes inv: "v4_inv v" "v4_inv w" and n: "v4_size v = v4_size w" "v4_size v \<le> 64" and f: "ring_op f g"
  shows "v4_inv (word_op f v w) \<and> v4_list (word_op f v w) =
    (if v4_has_xz v \<or> v4_has_xz w then replicate (v4_size v) BIT4_X
     else bits_of (v4_size v) (g (bits_val (v4_list v)) (bits_val (v4_list w))))"
proof (cases "v4_has_xz v \<or> v4_has_xz w")
  case True
  let ?r = "word_op f v w"
  have "v4_inv ?r" "v4_size ?r = v4_size v"
    "\<And>i. i < v4_size ?r \<Longrightarrow> pbit (v4_abits ?r) i \<and> pbit (v4_bbits ?r) i"
    using word_op_x [OF inv n] True inv(1) n(2) v4_inv_short [OF inv(1) n(2)] v4_inv_len(2) [OF inv(1)]
    by (auto simp: word_op_def Let_def v4_inv_def not_himask pbit_small bit_or_iff)
  with True v4_list_all_x [of ?r] show ?thesis by simp
next
  case False
  let ?r = "word_op f v w" and ?n = "v4_size v"
  let ?m = "if ?n < 64 then lomask ?n else - 1"
  have r: "?r = v\<lparr>v4_abits := [f (v4_abits v ! 0) (v4_abits w ! 0) AND ?m]\<rparr>"
    using word_op_x [OF inv n] False by (auto simp: word_op_def Let_def not_himask split: if_splits)
  have rinv: "v4_inv ?r" "v4_size ?r = ?n"
    using inv(1) v4_inv_short [OF inv(1) n(2)] by (simp_all add: r v4_inv_def)
  have one: "length (v4_abits v) = 1" "length (v4_abits w) = 1"
    using v4_inv_short inv n by simp_all
  then have pv: "pval (v4_abits v) = uint (v4_abits v ! 0)" "pval (v4_abits w) = uint (v4_abits w ! 0)"
    by (metis length_0_conv length_Suc_conv nth_Cons_0 pval.simps One_nat_def mult_zero_right add_0_right)+
  have val: "bits_val (v4_list v) = take_bit ?n (uint (v4_abits v ! 0))"
    "bits_val (v4_list w) = take_bit ?n (uint (v4_abits w ! 0))"
    using v4_pval [OF inv(1)] v4_pval [OF inv(2)] False pv n(1) by simp_all
  have "take_bit ?n (pval (v4_abits ?r)) = take_bit ?n (uint (f (v4_abits v ! 0) (v4_abits w ! 0)))"
    using n(2) by (auto simp: r take_bit_uint_and)
  also have "\<dots> = take_bit ?n (g (uint (v4_abits v ! 0)) (uint (v4_abits w ! 0)))"
    using f n(2) by (simp add: ring_op_def take_bit_take_bit min_def)
  also have "\<dots> = take_bit ?n (g (bits_val (v4_list v)) (bits_val (v4_list w)))"
    using f by (simp add: ring_op_def val)
  finally have "v4_list ?r = bits_of ?n (g (bits_val (v4_list v)) (bits_val (v4_list w)))"
    using v4_list_number [OF rinv(1)] rinv(2) no_xz_pbit [OF inv(1)] False by (simp add: r)
  with rinv False show ?thesis by simp
qed

section \<open>Long addition and subtraction\<close>

lemma carry_words:
  assumes len: "cnt \<le> length A" "cnt \<le> length (v4_abits w)" and c: "uint c \<le> 1"
    and z: "\<And>k. k < cnt \<Longrightarrow> v4_bbits v ! k OR v4_bbits w ! k = 0"
  shows "\<exists>s. for_each (carry_step g (- 1) v w) [0..<cnt] (c, A) = Some s
    \<and> length (snd s) = length A \<and> uint (fst s) \<le> 1
    \<and> pval (snd s) + 2 ^ (64 * cnt) * uint (fst s) = pval A + pval (map g (take cnt (v4_abits w))) + uint c"
proof (rule for_upto_rule [where P = "\<lambda>i s. length (snd s) = length A \<and> uint (fst s) \<le> 1
    \<and> pval (snd s) + 2 ^ (64 * i) * uint (fst s) = pval A + pval (map g (take i (v4_abits w))) + uint c"])
  show "length (snd (c, A)) = length A \<and> uint (fst (c, A)) \<le> 1 \<and> pval (snd (c, A)) + 2 ^ (64 * 0) * uint (fst (c, A))
      = pval A + pval (map g (take 0 (v4_abits w))) + uint c" using c by simp
next
  fix i and s :: "ulong \<times> plane"
  assume i: "i < cnt" and s: "length (snd s) = length A \<and> uint (fst s) \<le> 1
    \<and> pval (snd s) + 2 ^ (64 * i) * uint (fst s) = pval A + pval (map g (take i (v4_abits w))) + uint c"
  obtain ci Ai where si: "s = (ci, Ai)" by fastforce
  obtain r c' where rc: "add_with_carry (Ai ! i) (g (v4_abits w ! i)) ci = (r, c')" by fastforce
  note ex = add_with_carry_exact [OF _ rc]
  have step: "carry_step g (- 1) v w i s = Some (c', Ai[i := r])"
    using z [OF i] rc by (simp add: carry_step_def si)
  have "pval (Ai[i := r]) = pval Ai + 2 ^ (64 * i) * (uint r - uint (Ai ! i))"
    using s i len by (intro pval_update) (simp add: si)
  moreover have "pval (map g (take (Suc i) (v4_abits w)))
      = pval (map g (take i (v4_abits w))) + 2 ^ (64 * i) * uint (g (v4_abits w ! i))"
    using i len by (simp add: take_map [symmetric] pval_take_Suc)
  moreover have "uint r = uint (Ai ! i) + uint (g (v4_abits w ! i)) + uint ci - 2 ^ 64 * uint c'"
    using ex(1) s by (simp add: si)
  moreover have "(2 :: int) ^ (64 * Suc i) = 2 ^ (64 * i) * 2 ^ 64" by (simp add: power_add)
  ultimately have "pval (Ai[i := r]) + 2 ^ (64 * Suc i) * uint c'
      = pval A + pval (map g (take (Suc i) (v4_abits w))) + uint c"
    using s by (simp add: si algebra_simps)
  with step ex(2) s show "\<exists>s'. carry_step g (- 1) v w i s = Some s' \<and> length (snd s') = length A
      \<and> uint (fst s') \<le> 1 \<and> pval (snd s') + 2 ^ (64 * Suc i) * uint (fst s')
        = pval A + pval (map g (take (Suc i) (v4_abits w))) + uint c"
    by (simp add: si)
qed

lemma take_bit_drop_multiple: "n \<le> m \<Longrightarrow> take_bit n (x + 2 ^ m * y) = take_bit n (x :: int)"
  by (simp add: take_bit_eq_mod le_imp_power_dvd mod_add_eq [symmetric] mod_eq_0_iff_dvd dvd_mult2)

lemma take_bit_mask_tail:
  assumes "length ws = words_for n"
  shows "take_bit n (pval (mask_tail n ws)) = take_bit n (pval ws)"
proof (rule bit_eqI)
  fix i
  show "bit (take_bit n (pval (mask_tail n ws))) i = bit (take_bit n (pval ws)) i"
    using mask_tail [OF assms, of i] by (auto simp: bit_take_bit_iff bit_pval)
qed

text \<open>A masked plane has no bits at or above the width.\<close>

lemma bit_pval_mask_tail:
  assumes len: "length ws = words_for n"
  shows "bit (pval (mask_tail n ws)) i \<longleftrightarrow> i < n \<and> pbit ws i"
proof (cases "i < n")
  case True
  with mask_tail [OF len True] len words_for_mult_ge [of n] show ?thesis by (simp add: bit_pval)
next
  case False
  have "\<not> pbit (mask_tail n ws) i" if i: "i < 64 * words_for n"
  proof -
    have k: "i div 64 < words_for n" using i by (simp add: less_mult_imp_div_less mult.commute)
    have nz: "n mod 64 \<noteq> 0" using False i by (auto simp: words_for_tail split: if_splits)
    then have w: "words_for n = Suc (n div 64)" by (simp add: words_for_tail)
    have "n div 64 \<le> i div 64" using False by (simp add: div_le_mono)
    then have eq: "i div 64 = n div 64" using k w by simp
    have "n mod 64 \<le> i mod 64" using False eq by (metis div_mult_mod_eq nat_add_left_cancel_le not_less)
    with nz eq w len show ?thesis
      by (simp add: mask_tail_def Let_def pbit_update bit_and_iff)
  qed
  with False len show ?thesis by (auto simp: bit_pval mask_tail_def Let_def)
qed

lemma xz_words:
  assumes inv: "v4_inv v" "v4_inv w" and n: "v4_size v = v4_size w" "v4_size v > 64"
  shows "(\<exists>k < v4_size v div 64. v4_bbits v ! k OR v4_bbits w ! k \<noteq> 0)
      \<or> (v4_size v mod 64 \<noteq> 0 \<and> (v4_bbits v ! (v4_size v div 64) OR v4_bbits w ! (v4_size v div 64))
          AND NOT (himask (v4_size v mod 64)) \<noteq> 0)
    \<longleftrightarrow> v4_has_xz v \<or> v4_has_xz w"
proof -
  let ?n = "v4_size v"
  define Q where "Q k j \<longleftrightarrow> \<not> bit (v4_bbits v ! k) j \<and> \<not> bit (v4_bbits w ! k) j" for k j
  have word: "v4_bbits v ! k OR v4_bbits w ! k = 0 \<longleftrightarrow> (\<forall>j < 64. Q k j)" for k
    by (auto simp: ulong_eq_0_iff bit_or_iff Q_def)
  have masked: "(v4_bbits v ! k OR v4_bbits w ! k) AND NOT (himask t) = 0 \<longleftrightarrow> (\<forall>j < t. Q k j)"
    if "t \<le> 64" for k t
    using that by (auto simp: not_himask ulong_eq_0_iff bit_or_iff bit_and_iff Q_def dest: less_le_trans)
  have "\<not> v4_has_xz v \<and> \<not> v4_has_xz w \<longleftrightarrow> (\<forall>i < ?n. Q (i div 64) (i mod 64))"
    using inv n(1) by (auto simp: v4_has_xz_pbit Q_def pbit_def)
  also have "\<dots> \<longleftrightarrow> (\<forall>k < ?n div 64. \<forall>j < 64. Q k j) \<and> (0 < ?n mod 64 \<longrightarrow> (\<forall>j < ?n mod 64. Q (?n div 64) j))"
    by (rule whole_words_and_tail [symmetric])
  finally show ?thesis using word masked [of "?n mod 64" "?n div 64"] by auto
qed

lemma carry_planes_none:
  assumes inv: "v4_inv v" "v4_inv w" and n: "v4_size v = v4_size w" "v4_size v > 64"
    and xz: "v4_has_xz v \<or> v4_has_xz w"
  shows "carry_planes g c v w = None"
proof -
  let ?n = "v4_size v"
  consider (word) k where "k < ?n div 64" "v4_bbits v ! k OR v4_bbits w ! k \<noteq> 0"
    | (tail) "?n mod 64 \<noteq> 0" "(v4_bbits v ! (?n div 64) OR v4_bbits w ! (?n div 64)) AND NOT (himask (?n mod 64)) \<noteq> 0"
    using xz_words [OF inv n] xz by blast
  then show ?thesis
  proof cases
    case word
    then have "for_each (carry_step g (- 1) v w) [0..<?n div 64] s = None" for s
      by (intro for_each_none [of k]) (auto simp: carry_step_def)
    then show ?thesis by (simp add: carry_planes_def Let_def)
  next
    case tail
    then have "carry_step g (NOT (himask (?n mod 64))) v w (?n div 64) s = None" for s
      by (cases s) (simp add: carry_step_def)
    with tail show ?thesis by (simp add: carry_planes_def Let_def split: bind_split)
  qed
qed

lemma carry_planes_some:
  assumes inv: "v4_inv v" "v4_inv w" and n: "v4_size v = v4_size w" "v4_size v > 64"
    and xz: "\<not> v4_has_xz v" "\<not> v4_has_xz w" and c: "uint c \<le> 1"
  shows "\<exists>A. carry_planes g c v w = Some A \<and> length A = length (v4_abits v)
    \<and> take_bit (v4_size v) (pval A) =
      take_bit (v4_size v) (pval (v4_abits v) + pval (map g (v4_abits w)) + uint c)"
proof -
  let ?n = "v4_size v" and ?A = "v4_abits v" and ?T = "v4_abits w"
  let ?cnt = "?n div 64" and ?tail = "?n mod 64"
  have len: "length ?A = words_for ?n" "length ?T = words_for ?n"
    using inv n by (simp_all add: v4_inv_long)
  have z: "v4_bbits v ! k OR v4_bbits w ! k = 0" if "k < ?cnt" for k
    using xz_words [OF inv n] xz that by blast
  have le: "?cnt \<le> words_for ?n" by (simp add: words_for_tail)
  obtain c1 A1 where s: "for_each (carry_step g (- 1) v w) [0..<?cnt] (c, ?A) = Some (c1, A1)"
    "length A1 = length ?A" "uint c1 \<le> 1"
    "pval A1 + 2 ^ (64 * ?cnt) * uint c1 = pval ?A + pval (map g (take ?cnt ?T)) + uint c"
    using carry_words [of ?cnt ?A w c v g] len le c z by auto
  show ?thesis
  proof (cases "?tail = 0")
    case True
    then have "?n = 64 * ?cnt" "take ?cnt ?T = ?T" using len by (auto simp: words_for_tail)
    then have "take_bit ?n (pval A1) = take_bit ?n (pval ?A + pval (map g ?T) + uint c)"
      using s(4) take_bit_drop_multiple [of ?n "64 * ?cnt" "pval A1" "uint c1"] by simp
    with s True show ?thesis by (simp add: carry_planes_def)
  next
    case False
    then have w: "words_for ?n = Suc ?cnt" by (simp add: words_for_tail)
    obtain r c2 where rc: "add_with_carry (A1 ! ?cnt) (g (?T ! ?cnt)) c1 = (r, c2)" by fastforce
    define A2 where "A2 = A1[?cnt := r]"
    have "(v4_bbits v ! ?cnt OR v4_bbits w ! ?cnt) AND NOT (himask ?tail) = 0"
      using xz_words [OF inv n] xz False by blast
    then have eq: "carry_planes g c v w = Some (mask_tail ?n A2)"
      using s(1) rc False w s(2) len
      by (simp add: carry_planes_def carry_step_def Let_def mask_tail_def A2_def not_himask)
    have "pval A2 = pval A1 + 2 ^ (64 * ?cnt) * (uint r - uint (A1 ! ?cnt))"
      unfolding A2_def using s(2) len w by (intro pval_update) simp
    moreover have "pval (map g ?T) = pval (map g (take ?cnt ?T)) + 2 ^ (64 * ?cnt) * uint (g (?T ! ?cnt))"
      using pval_take_Suc [of ?cnt "map g ?T"] len w by (simp add: take_map)
    moreover have "uint r = uint (A1 ! ?cnt) + uint (g (?T ! ?cnt)) + uint c1 - 2 ^ 64 * uint c2"
      using add_with_carry_exact(1) [OF s(3) rc] by simp
    moreover have "(2 :: int) ^ (64 * words_for ?n) = 2 ^ (64 * ?cnt) * 2 ^ 64" by (simp add: w power_add)
    ultimately have "pval A2 + 2 ^ (64 * words_for ?n) * uint c2 = pval ?A + pval (map g ?T) + uint c"
      using s(4) by (simp add: algebra_simps)
    then have "take_bit ?n (pval A2) = take_bit ?n (pval ?A + pval (map g ?T) + uint c)"
      using take_bit_drop_multiple [of ?n "64 * words_for ?n" "pval A2" "uint c2"] words_for_mult_ge [of ?n]
      by (simp add: mult.commute)
    moreover have "length A2 = words_for ?n" using s(2) len by (simp add: A2_def)
    ultimately show ?thesis
      using eq take_bit_mask_tail [of A2 ?n] len by (simp add: mask_tail_def Let_def)
  qed
qed

lemma x_words: "length (x_words n) = words_for n" "i < n \<Longrightarrow> pbit (x_words n) i"
proof -
  show "length (x_words n) = words_for n" by (simp add: x_words_def words_for_tail)
  assume i: "i < n"
  have "i mod 64 < n mod 64" if "i div 64 = n div 64"
    using i that by (metis div_mult_mod_eq nat_add_left_cancel_less)
  moreover have "i div 64 \<le> n div 64" using i by (simp add: div_le_mono)
  moreover have "n mod 64 \<noteq> 0" if "i div 64 = n div 64"
    using i that by (metis div_mult_mod_eq add_0_right not_less times_div_less_eq_dividend mult.commute)
  ultimately show "pbit (x_words n) i"
    by (auto simp: x_words_def pbit_def nth_append not_himask)
qed

lemma add_sub_list:
  assumes inv: "v4_inv v" "v4_inv w" and n: "v4_size v = v4_size w" "v4_size v > 64" and c: "uint c \<le> 1"
  shows "v4_inv (add_sub g c v w) \<and> v4_list (add_sub g c v w) =
    (if v4_has_xz v \<or> v4_has_xz w then replicate (v4_size v) BIT4_X
     else bits_of (v4_size v) (pval (v4_abits v) + pval (map g (v4_abits w)) + uint c))"
proof (cases "v4_has_xz v \<or> v4_has_xz w")
  case True
  let ?r = "v\<lparr>v4_abits := x_words (v4_size v), v4_bbits := x_words (v4_size v)\<rparr>"
  have "add_sub g c v w = ?r" using carry_planes_none [OF inv n True] by (simp add: add_sub_def)
  moreover have "v4_inv ?r" using n words_for_gt1 [of "v4_size v"] x_words(1) by (simp add: v4_inv_def)
  ultimately show ?thesis using True v4_list_all_x [of ?r] x_words(2) by simp
next
  case False
  then obtain A where A: "carry_planes g c v w = Some A" "length A = length (v4_abits v)"
    "take_bit (v4_size v) (pval A) =
      take_bit (v4_size v) (pval (v4_abits v) + pval (map g (v4_abits w)) + uint c)"
    using carry_planes_some [OF inv n _ _ c] by blast
  let ?r = "v\<lparr>v4_abits := A\<rparr>"
  have "v4_inv ?r" using inv(1) A(2) by (simp add: v4_inv_def)
  moreover have "\<And>i. i < v4_size ?r \<Longrightarrow> \<not> pbit (v4_bbits ?r) i" using False no_xz_pbit [OF inv(1)] by simp
  ultimately show ?thesis using A(1,3) False v4_list_number [of ?r] by (simp add: add_sub_def)
qed

lemma pval_complement: "pval (map (\<lambda>w. NOT w) ws) = 2 ^ (64 * length ws) - 1 - pval ws"
proof (induction ws)
  case (Cons w ws)
  have "take_bit 64 (uint w) = uint w" using uint_ulong_lt [of w] by (simp add: take_bit_int_eq_self_iff)
  then have "uint (NOT w) = 2 ^ 64 - 1 - uint w"
    by (simp add: unsigned_not_eq take_bit_not_eq_mask_diff mask_eq_exp_minus_1)
  with Cons show ?case by (simp add: algebra_simps power_add)
qed simp

lemma v4_add_spec:
  assumes inv: "v4_inv v" "v4_inv w" and n: "v4_size v = v4_size w"
  obtains r where "v4_add v w = Some r" and "v4_inv r" and "v4_list r =
    (if v4_has_xz v \<or> v4_has_xz w then replicate (v4_size v) BIT4_X
     else bits_of (v4_size v) (bits_val (v4_list v) + bits_val (v4_list w)))"
proof (cases "v4_size v \<le> 64")
  case True
  with word_op_list [OF inv n True ring_ops(1)] n that show thesis by (simp add: v4_add_def)
next
  case False
  have "bits_of (v4_size v) (pval (v4_abits v) + pval (v4_abits w))
      = bits_of (v4_size v) (bits_val (v4_list v) + bits_val (v4_list w))"
    if "\<not> (v4_has_xz v \<or> v4_has_xz w)"
    using that v4_pval [OF inv(1)] v4_pval [OF inv(2)] n
    by (intro bits_of_cong) (simp add: take_bit_add)
  with False n add_sub_list [OF inv n, of 0 "\<lambda>w. w"] that show thesis
    by (simp add: v4_add_def split: if_splits)
qed

lemma v4_sub_spec:
  assumes inv: "v4_inv v" "v4_inv w" and n: "v4_size v = v4_size w"
  obtains r where "v4_sub v w = Some r" and "v4_inv r" and "v4_list r =
    (if v4_has_xz v \<or> v4_has_xz w then replicate (v4_size v) BIT4_X
     else bits_of (v4_size v) (bits_val (v4_list v) - bits_val (v4_list w)))"
proof (cases "v4_size v \<le> 64")
  case True
  with word_op_list [OF inv n True ring_ops(2)] n that show thesis by (simp add: v4_sub_def)
next
  case False
  let ?n = "v4_size v" and ?T = "v4_abits w"
  have le: "?n \<le> 64 * length ?T" using v4_inv_len(3) [OF inv(2)] n by simp
  have "bits_of ?n (pval (v4_abits v) + pval (map (\<lambda>w. NOT w) ?T) + 1)
      = bits_of ?n (bits_val (v4_list v) - bits_val (v4_list w))"
    if "\<not> (v4_has_xz v \<or> v4_has_xz w)"
  proof (rule bits_of_cong)
    have "pval (v4_abits v) + pval (map (\<lambda>w. NOT w) ?T) + 1
        = pval (v4_abits v) - pval ?T + 2 ^ (64 * length ?T) * 1" by (simp add: pval_complement)
    then have "take_bit ?n (pval (v4_abits v) + pval (map (\<lambda>w. NOT w) ?T) + 1)
        = take_bit ?n (pval (v4_abits v) - pval ?T)" using take_bit_drop_multiple [OF le] by metis
    also have "\<dots> = take_bit ?n (bits_val (v4_list v) - bits_val (v4_list w))"
      using that v4_pval [OF inv(1)] v4_pval [OF inv(2)] n by (simp add: take_bit_diff)
    finally show "take_bit ?n (pval (v4_abits v) + pval (map (\<lambda>w. NOT w) ?T) + 1)
        = take_bit ?n (bits_val (v4_list v) - bits_val (v4_list w))" .
  qed
  with False n add_sub_list [OF inv n, of 1 "\<lambda>w. NOT w"] that show thesis
    by (simp add: v4_sub_def split: if_splits)
qed

section \<open>Multiplication\<close>

text \<open>The words of an operand as \<^verbatim>\<open>mul\<close> reads them: the last one masked.\<close>

definition mul_word :: "nat \<Rightarrow> ulong \<Rightarrow> plane \<Rightarrow> nat \<Rightarrow> ulong" where
  "mul_word cnt m ws idx = (if idx = cnt - 1 then ws ! idx AND m else ws ! idx)"

text \<open>The scan that ignores leading zero words.\<close>

fun used_words :: "nat \<Rightarrow> ulong \<Rightarrow> plane \<Rightarrow> nat \<Rightarrow> nat" where
  "used_words cnt m ws 0 = 0"
| "used_words cnt m ws (Suc k) =
    (if mul_word cnt m ws k \<noteq> 0 then Suc k else used_words cnt m ws k)"

text \<open>The inner loop over \<open>mul_b\<close>, and the loop that propagates the last carry.\<close>

function mul_inner :: "nat \<Rightarrow> nat \<Rightarrow> ulong \<Rightarrow> plane \<Rightarrow> nat \<Rightarrow> ulong \<Rightarrow> nat \<Rightarrow> ulong \<Rightarrow> plane \<Rightarrow> nat \<times> ulong \<times> plane"
where
  "mul_inner cnt rcnt m R mul_a lval mul_b carry res =
    (if mul_b < rcnt \<and> mul_b < cnt - mul_a then
       let rval = mul_word cnt m R mul_b; base = mul_a + mul_b;
           (low, carry') = multiply_add_with_carry lval rval (res ! base) carry
       in mul_inner cnt rcnt m R mul_a lval (mul_b + 1) carry' (res[base := low])
     else (mul_b, carry, res))"
  by pat_completeness auto
termination
  by (relation "measure (\<lambda>(cnt, rcnt, m, R, mul_a, lval, mul_b, carry, res). rcnt - mul_b)") auto

function mul_carry :: "nat \<Rightarrow> nat \<Rightarrow> ulong \<Rightarrow> plane \<Rightarrow> plane" where
  "mul_carry cnt base carry res =
    (if carry \<noteq> 0 \<and> base < cnt then
       case add_with_carry (res ! base) carry 0 of (r, nxt) \<Rightarrow> mul_carry cnt (base + 1) nxt (res[base := r])
     else res)"
  by pat_completeness auto
termination
  by (relation "measure (\<lambda>(cnt, base, carry, res). cnt - base)") auto

declare mul_inner.simps [simp del] mul_carry.simps [simp del]

definition mul_row :: "nat \<Rightarrow> nat \<Rightarrow> ulong \<Rightarrow> plane \<Rightarrow> plane \<Rightarrow> nat \<Rightarrow> plane \<Rightarrow> plane" where
  "mul_row cnt rcnt m L R mul_a res =
    (case mul_inner cnt rcnt m R mul_a (mul_word cnt m L mul_a) 0 0 res of
       (mul_b, carry, res) \<Rightarrow> mul_carry cnt (mul_a + mul_b) carry res)"

definition mul_planes :: "nat \<Rightarrow> ulong \<Rightarrow> plane \<Rightarrow> plane \<Rightarrow> plane" where
  "mul_planes cnt m L R =
    (let lcnt = used_words cnt m L cnt; rcnt = used_words cnt m R cnt;
         res = foldl (\<lambda>res mul_a. mul_row cnt rcnt m L R mul_a res) (replicate cnt 0) [0..<lcnt]
     in res[cnt - 1 := res ! (cnt - 1) AND m])"

definition tail_mask :: "nat \<Rightarrow> ulong" where
  "tail_mask wid = (let tail = wid mod BITS_PER_WORD in if tail \<noteq> 0 then NOT (himask tail) else NOT 0)"

definition v4_mul :: "vvp_vector4_t \<Rightarrow> vvp_vector4_t \<Rightarrow> vvp_vector4_t option" where
  "v4_mul v that =
    (if v4_size v = v4_size that then Some
       (if v4_size v \<le> BITS_PER_WORD then word_op (\<lambda>a b. a * b) v that
        else
          let cnt = words_for (v4_size v); m = tail_mask (v4_size v) in
          if \<exists>idx < cnt. mul_word cnt m (v4_bbits v) idx \<noteq> 0 \<or> mul_word cnt m (v4_bbits that) idx \<noteq> 0
          then
            let xs = (replicate cnt (- 1))[cnt - 1 := - 1 AND m]
            in v\<lparr>v4_abits := xs, v4_bbits := xs\<rparr>
          else v\<lparr>v4_abits := mul_planes cnt m (v4_abits v) (v4_abits that),
            v4_bbits := replicate cnt 0\<rparr>)
     else None)"

lemma mul_inner:
  assumes "mul_inner cnt rcnt m R a x b c res = (b', c', res')" and "length res = cnt" "a < cnt"
    and "b \<le> min rcnt (cnt - a)"
  shows "b' = min rcnt (cnt - a) \<and> length res' = cnt
    \<and> pval res' + 2 ^ (64 * (a + b')) * uint c' + 2 ^ (64 * a) * (uint x * pval (map (mul_word cnt m R) [0..<b]))
      = pval res + 2 ^ (64 * (a + b)) * uint c + 2 ^ (64 * a) * (uint x * pval (map (mul_word cnt m R) [0..<b']))"
  using assms
proof (induction cnt rcnt m R a x b c res rule: mul_inner.induct)
  case (1 cnt rcnt m R a x b c res)
  show ?case
  proof (cases "b < rcnt \<and> b < cnt - a")
    case True
    let ?r = "mul_word cnt m R b" and ?k = "a + b"
    obtain low c1 where lc: "multiply_add_with_carry x ?r (res ! ?k) c = (low, c1)" by fastforce
    have "int (unat low + 2 ^ 64 * unat c1) = int (unat x * unat ?r + unat (res ! ?k) + unat c)"
      using multiply_add_with_carry_exact [OF lc] by simp
    then have lowe: "uint low = uint x * uint ?r + uint (res ! ?k) + uint c - 2 ^ 64 * uint c1"
      unfolding of_nat_add of_nat_mult of_nat_power of_nat_numeral uint_nat [symmetric] by linarith
    have step: "mul_inner cnt rcnt m R a x (b + 1) c1 (res[?k := low]) = (b', c', res')"
      using "1.prems"(1) True lc by (subst (asm) mul_inner.simps) simp
    have k: "?k < length res" using True "1.prems"(2) by linarith
    have p: "length (res[?k := low]) = cnt" "b + 1 \<le> min rcnt (cnt - a)"
      using True "1.prems"(2) by simp_all
    note IH = "1.IH" [OF True refl refl lc [symmetric] refl step p(1) "1.prems"(3) p(2)]
    have up: "pval (res[?k := low]) = pval res + 2 ^ (64 * a) * 2 ^ (64 * b) * (uint low - uint (res ! ?k))"
      using pval_update [OF k, of low] by (simp add: distrib_left power_add)
    have sn: "pval (map (mul_word cnt m R) [0..<b + 1])
        = pval (map (mul_word cnt m R) [0..<b]) + 2 ^ (64 * b) * uint ?r"
      by (simp add: pval_append)
    have pw: "(2 :: int) ^ (64 * (a + (b + 1))) = 2 ^ (64 * a) * 2 ^ (64 * b) * 2 ^ 64"
      "(2 :: int) ^ (64 * (a + b)) = 2 ^ (64 * a) * 2 ^ (64 * b)"
      by (simp_all add: distrib_left power_add)
    from IH have "b' = min rcnt (cnt - a)" "length res' = cnt" by blast+
    moreover from IH have "pval res' + 2 ^ (64 * (a + b')) * uint c'
        + 2 ^ (64 * a) * (uint x * pval (map (mul_word cnt m R) [0..<b]))
      = pval res + 2 ^ (64 * (a + b)) * uint c + 2 ^ (64 * a) * (uint x * pval (map (mul_word cnt m R) [0..<b']))"
      unfolding up sn lowe pw by (elim conjE) (simp add: algebra_simps)
    ultimately show ?thesis by blast
  next
    case False
    with "1.prems"(1) have "b' = b" "c' = c" "res' = res" by (subst (asm) mul_inner.simps; simp)+
    with False "1.prems"(2-4) show ?thesis by auto
  qed
qed

lemma mul_carry:
  assumes "length res = cnt"
  shows "length (mul_carry cnt k c res) = cnt
    \<and> pval (mul_carry cnt k c res) mod 2 ^ (64 * cnt) = (pval res + 2 ^ (64 * k) * uint c) mod 2 ^ (64 * cnt)"
  using assms
proof (induction cnt k c res rule: mul_carry.induct)
  case (1 cnt k c res)
  consider (go) "c \<noteq> 0" "k < cnt" | (zero) "c = 0" | (past) "cnt \<le> k" by linarith
  then show ?case
  proof cases
    case go
    obtain r n where rn: "add_with_carry (res ! k) c 0 = (r, n)" by fastforce
    have r: "uint r = uint (res ! k) + uint c - 2 ^ 64 * uint n"
      using add_with_carry_exact(1) [OF _ rn] by simp
    have up: "pval (res[k := r]) = pval res + 2 ^ (64 * k) * (uint r - uint (res ! k))"
      using go "1.prems" by (intro pval_update) simp
    have "(2 :: int) ^ (64 * (k + 1)) = 2 ^ (64 * k) * 2 ^ 64" by (simp add: power_add)
    then have "pval (res[k := r]) + 2 ^ (64 * (k + 1)) * uint n = pval res + 2 ^ (64 * k) * uint c"
      unfolding up r by (simp add: algebra_simps)
    moreover have "mul_carry cnt k c res = mul_carry cnt (k + 1) n (res[k := r])"
      using go rn by (subst mul_carry.simps) simp
    ultimately show ?thesis using "1.IH" [OF _ rn [symmetric]] go "1.prems" by simp
  next
    case zero
    then show ?thesis using "1.prems" by (subst mul_carry.simps) (simp add: mul_carry.simps)
  next
    case past
    then have "(2 :: int) ^ (64 * cnt) dvd 2 ^ (64 * k) * uint c" by (intro dvd_mult2 le_imp_power_dvd) simp
    then have "(pval res + 2 ^ (64 * k) * uint c) mod 2 ^ (64 * cnt) = pval res mod 2 ^ (64 * cnt)"
      by (metis mod_add_right_eq mod_0_imp_dvd dvd_imp_mod_0 add_0_right)
    with past "1.prems" show ?thesis by (subst mul_carry.simps, subst mul_carry.simps) simp
  qed
qed

lemma mod_add_dvd: "M dvd z \<Longrightarrow> (x + z) mod M = x mod (M :: int)"
  by (metis mod_add_right_eq dvd_imp_mod_0 add_0_right)

lemma mod_add_left_cong:
  "x mod M = y mod M \<Longrightarrow> (x + z) mod M = (y + z) mod (M :: int)"
  by (metis mod_add_left_eq)

text \<open>A row adds one partial product, modulo the width of the result.\<close>

lemma mul_row:
  assumes len: "length res = cnt" and a: "a < cnt" and rc: "rcnt \<le> cnt"
    and rest: "\<And>k. rcnt \<le> k \<Longrightarrow> k < cnt \<Longrightarrow> mul_word cnt m R k = 0"
  shows "length (mul_row cnt rcnt m L R a res) = cnt
    \<and> pval (mul_row cnt rcnt m L R a res) mod 2 ^ (64 * cnt)
      = (pval res + 2 ^ (64 * a) * (uint (mul_word cnt m L a) * pval (map (mul_word cnt m R) [0..<cnt])))
        mod 2 ^ (64 * cnt)"
proof -
  let ?x = "mul_word cnt m L a" and ?W = "mul_word cnt m R"
  let ?b = "min rcnt (cnt - a)"
  obtain b c r where i: "mul_inner cnt rcnt m R a ?x 0 0 res = (b, c, r)" by (metis prod_cases3)
  have in': "b = ?b" "length r = cnt"
    "pval r + 2 ^ (64 * (a + b)) * uint c = pval res + 2 ^ (64 * a) * (uint ?x * pval (map ?W [0..<?b]))"
    using mul_inner [OF i len a] by auto
  have mc: "length (mul_row cnt rcnt m L R a res) = cnt"
    "pval (mul_row cnt rcnt m L R a res) mod 2 ^ (64 * cnt)
      = (pval res + 2 ^ (64 * a) * (uint ?x * pval (map ?W [0..<?b]))) mod 2 ^ (64 * cnt)"
    using mul_carry [OF in'(2), of "a + b" c] in'(3) by (simp_all add: mul_row_def i)
  have "[0..<cnt] = [0..<?b] @ [?b..<cnt]"
    using upt_add_eq_append [of 0 ?b "cnt - ?b"] rc by simp
  then have split: "pval (map ?W [0..<cnt]) = pval (map ?W [0..<?b]) + 2 ^ (64 * ?b) * pval (map ?W [?b..<cnt])"
    by (simp add: pval_append)
  have "2 ^ (64 * cnt) dvd 2 ^ (64 * a) * (uint ?x * (2 ^ (64 * ?b) * pval (map ?W [?b..<cnt])))"
  proof (cases "rcnt \<le> cnt - a")
    case True
    then have b: "?b = rcnt" by simp
    have "map ?W [rcnt..<cnt] = replicate (cnt - rcnt) 0"
      using rest by (intro nth_equalityI) auto
    then show ?thesis unfolding b by simp
  next
    case False
    then have "64 * cnt = 64 * a + 64 * ?b" using a by simp
    then have "(2 :: int) ^ (64 * cnt) = 2 ^ (64 * a) * 2 ^ (64 * ?b)" by (simp add: power_add)
    then have "2 ^ (64 * a) * (uint ?x * (2 ^ (64 * ?b) * pval (map ?W [?b..<cnt])))
        = 2 ^ (64 * cnt) * (uint ?x * pval (map ?W [?b..<cnt]))" by (simp only: ac_simps)
    then show ?thesis by (simp only: dvd_triv_left)
  qed
  moreover have "pval res + 2 ^ (64 * a) * (uint ?x * pval (map ?W [0..<cnt]))
      = pval res + 2 ^ (64 * a) * (uint ?x * pval (map ?W [0..<?b]))
        + 2 ^ (64 * a) * (uint ?x * (2 ^ (64 * ?b) * pval (map ?W [?b..<cnt])))"
    unfolding split by (simp only: distrib_left add.assoc)
  ultimately have "(pval res + 2 ^ (64 * a) * (uint ?x * pval (map ?W [0..<cnt]))) mod 2 ^ (64 * cnt)
      = (pval res + 2 ^ (64 * a) * (uint ?x * pval (map ?W [0..<?b]))) mod 2 ^ (64 * cnt)"
    by (simp only: mod_add_dvd)
  with mc show ?thesis by simp
qed

lemma used_words:
  "used_words cnt m ws n \<le> n"
  "used_words cnt m ws n \<le> k \<Longrightarrow> k < n \<Longrightarrow> mul_word cnt m ws k = 0"
  by (induction n) (auto simp: less_Suc_eq split: if_splits)

lemma mul_rows:
  assumes "k \<le> cnt" and rc: "rcnt \<le> cnt" and rest: "\<And>k. rcnt \<le> k \<Longrightarrow> k < cnt \<Longrightarrow> mul_word cnt m R k = 0"
  shows "length (foldl (\<lambda>res a. mul_row cnt rcnt m L R a res) (replicate cnt 0) [0..<k]) = cnt
    \<and> pval (foldl (\<lambda>res a. mul_row cnt rcnt m L R a res) (replicate cnt 0) [0..<k]) mod 2 ^ (64 * cnt)
      = (pval (map (mul_word cnt m L) [0..<k]) * pval (map (mul_word cnt m R) [0..<cnt])) mod 2 ^ (64 * cnt)"
  using assms(1)
proof (induction k)
  case (Suc k)
  define res where "res = foldl (\<lambda>res a. mul_row cnt rcnt m L R a res) (replicate cnt 0) [0..<k]"
  let ?P = "pval (map (mul_word cnt m R) [0..<cnt])"
  have res: "length res = cnt"
    "pval res mod 2 ^ (64 * cnt) = (pval (map (mul_word cnt m L) [0..<k]) * ?P) mod 2 ^ (64 * cnt)"
    using Suc by (simp_all add: res_def)
  have "(pval res + 2 ^ (64 * k) * (uint (mul_word cnt m L k) * ?P)) mod 2 ^ (64 * cnt)
      = (pval (map (mul_word cnt m L) [0..<k]) * ?P + 2 ^ (64 * k) * (uint (mul_word cnt m L k) * ?P))
        mod 2 ^ (64 * cnt)"
    by (rule mod_add_left_cong [OF res(2)])
  also have "\<dots> = (pval (map (mul_word cnt m L) [0..<Suc k]) * ?P) mod 2 ^ (64 * cnt)"
    by (simp add: pval_append algebra_simps)
  finally show ?case
    using mul_row [OF res(1), of k rcnt m R L] rc rest Suc.prems by (simp add: res_def)
qed simp

text \<open>The words as \<^verbatim>\<open>mul\<close> reads them are the plane with its tail masked.\<close>

lemma mul_word_mask_tail:
  assumes "length ws = words_for n"
  shows "map (mul_word (words_for n) (tail_mask n) ws) [0..<words_for n] = mask_tail n ws"
  using assms
  by (intro nth_equalityI)
    (auto simp: mul_word_def mask_tail_def Let_def tail_mask_def not_himask nth_list_update)

lemma mul_planes:
  assumes len: "length L = words_for n" "length R = words_for n" and n: "0 < n"
  shows "length (mul_planes (words_for n) (tail_mask n) L R) = words_for n
    \<and> take_bit n (pval (mul_planes (words_for n) (tail_mask n) L R)) = take_bit n (pval L * pval R)"
proof -
  let ?cnt = "words_for n" and ?m = "tail_mask n"
  let ?lc = "used_words ?cnt ?m L ?cnt" and ?rc = "used_words ?cnt ?m R ?cnt"
  define res where "res = foldl (\<lambda>res a. mul_row ?cnt ?rc ?m L R a res) (replicate ?cnt 0) [0..<?lc]"
  note lr = used_words(1) [of ?cnt ?m L ?cnt] used_words(1) [of ?cnt ?m R ?cnt]
  have res: "length res = ?cnt" "pval res mod 2 ^ (64 * ?cnt)
      = (pval (map (mul_word ?cnt ?m L) [0..<?lc]) * pval (map (mul_word ?cnt ?m R) [0..<?cnt])) mod 2 ^ (64 * ?cnt)"
    using mul_rows [OF lr] used_words(2) [of ?cnt ?m R ?cnt] by (simp_all add: res_def)
  have "map (mul_word ?cnt ?m L) [0..<?cnt] = map (mul_word ?cnt ?m L) [0..<?lc] @ replicate (?cnt - ?lc) 0"
    using used_words(2) [of ?cnt ?m L ?cnt] lr(1) by (intro nth_equalityI) (auto simp: nth_append)
  then have "pval (map (mul_word ?cnt ?m L) [0..<?lc]) = pval (mask_tail n L)"
    using mul_word_mask_tail [OF len(1)] by (simp add: pval_append)
  then have rv: "take_bit (64 * ?cnt) (pval res) = take_bit (64 * ?cnt) (pval (mask_tail n L) * pval (mask_tail n R))"
    using res(2) mul_word_mask_tail [OF len(2)] by (simp add: take_bit_eq_mod)
  have "res[?cnt - 1 := res ! (?cnt - 1) AND ?m] = mask_tail n res"
    by (simp add: mask_tail_def Let_def tail_mask_def not_himask)
  then have "mul_planes ?cnt ?m L R = mask_tail n res"
    unfolding mul_planes_def Let_def res_def [symmetric] .
  then have "take_bit n (pval (mul_planes ?cnt ?m L R)) = take_bit n (pval res)"
    using take_bit_mask_tail [OF res(1)] by simp
  also have "\<dots> = take_bit n (take_bit (64 * ?cnt) (pval res))"
    using words_for_mult_ge [of n] by (simp add: take_bit_take_bit min_def mult.commute)
  also have "\<dots> = take_bit n (pval (mask_tail n L) * pval (mask_tail n R))"
    unfolding rv using words_for_mult_ge [of n] by (simp add: take_bit_take_bit min_def mult.commute)
  also have "\<dots> = take_bit n (pval L * pval R)"
    by (metis take_bit_mult take_bit_mask_tail len)
  finally show ?thesis using res(1) by (simp add: mul_planes_def Let_def res_def)
qed

lemma mul_xz:
  assumes inv: "v4_inv v" "v4_inv w" and n: "v4_size v = v4_size w" "v4_size v > 64"
  shows "(\<exists>idx < words_for (v4_size v). mul_word (words_for (v4_size v)) (tail_mask (v4_size v)) (v4_bbits v) idx \<noteq> 0
      \<or> mul_word (words_for (v4_size v)) (tail_mask (v4_size v)) (v4_bbits w) idx \<noteq> 0)
    \<longleftrightarrow> v4_has_xz v \<or> v4_has_xz w"
proof -
  let ?n = "v4_size v"
  have one: "(\<exists>idx < words_for ?n. mul_word (words_for ?n) (tail_mask ?n) (v4_bbits u) idx \<noteq> 0) \<longleftrightarrow> v4_has_xz u"
    if u: "v4_inv u" "v4_size u = ?n" for u
  proof -
    have len: "length (v4_bbits u) = words_for ?n" using v4_inv_long [of u] u n by simp
    let ?B = "mask_tail ?n (v4_bbits u)"
    have "(\<exists>idx < words_for ?n. mul_word (words_for ?n) (tail_mask ?n) (v4_bbits u) idx \<noteq> 0)
        \<longleftrightarrow> (\<exists>x \<in> set ?B. x \<noteq> 0)"
      unfolding mul_word_mask_tail [OF len, symmetric] by auto
    also have "\<dots> \<longleftrightarrow> pval ?B \<noteq> 0"
    proof -
      have "pval ws = 0 \<longleftrightarrow> (\<forall>x \<in> set ws. x = 0)" for ws
        by (induction ws) (auto simp: add_nonneg_eq_0_iff unsigned_eq_0_iff)
      then show ?thesis by auto
    qed
    also have "\<dots> \<longleftrightarrow> (\<exists>i. bit (pval ?B) i)" using bit_eqI [of "pval ?B" 0] by auto
    also have "\<dots> \<longleftrightarrow> (\<exists>i < ?n. pbit (v4_bbits u) i)"
    proof -
      have "bit (pval ?B) i \<longleftrightarrow> i < ?n \<and> pbit (v4_bbits u) i" for i
        using bit_pval_mask_tail [OF len] by simp
      then show ?thesis by auto
    qed
    finally show ?thesis by (simp add: v4_has_xz_pbit u)
  qed
  show ?thesis using one [OF inv(1) refl] one [OF inv(2) n(1) [symmetric]] by blast
qed

lemma v4_mul_spec:
  assumes inv: "v4_inv v" "v4_inv w" and n: "v4_size v = v4_size w"
  obtains r where "v4_mul v w = Some r" and "v4_inv r" and "v4_list r =
    (if v4_has_xz v \<or> v4_has_xz w then replicate (v4_size v) BIT4_X
     else bits_of (v4_size v) (bits_val (v4_list v) * bits_val (v4_list w)))"
proof (cases "v4_size v \<le> 64")
  case True
  with word_op_list [OF inv n True ring_ops(3)] n that show thesis by (simp add: v4_mul_def)
next
  case False
  let ?n = "v4_size v" and ?cnt = "words_for (v4_size v)"
  have n64: "?n > 64" and n0: "0 < ?n" using False by simp_all
  have cnt: "1 < ?cnt" using words_for_gt1 [OF n64] .
  have len: "length (v4_abits v) = ?cnt" "length (v4_abits w) = ?cnt"
    using v4_inv_long inv n n64 by simp_all
  show thesis
  proof (cases "v4_has_xz v \<or> v4_has_xz w")
    case True
    let ?xs = "(replicate ?cnt (- 1))[?cnt - 1 := - 1 AND tail_mask ?n]"
    let ?r = "v\<lparr>v4_abits := ?xs, v4_bbits := ?xs\<rparr>"
    have "v4_mul v w = Some ?r"
      using n False mul_xz [OF inv n n64] True by (simp add: v4_mul_def Let_def)
    moreover have rinv: "v4_inv ?r" using cnt by (simp add: v4_inv_def)
    moreover have "pbit ?xs i" if i: "i < ?n" for i
    proof -
      have "(replicate ?cnt (- 1))[?cnt - 1 := - 1] = replicate ?cnt (- 1 :: ulong)"
        using cnt by (intro nth_equalityI) (auto simp: nth_list_update)
      then have "?xs = mask_tail ?n (replicate ?cnt (- 1))"
        using cnt by (simp add: mask_tail_def Let_def tail_mask_def not_himask)
      then have "pbit ?xs i = pbit (replicate ?cnt (- 1)) i"
        using mask_tail(1) [of "replicate ?cnt (- 1)" ?n i] i by simp
      then show ?thesis using i words_for_mult_ge [of ?n] by (simp add: pbit_replicate)
    qed
    ultimately show thesis using that True v4_list_all_x [of ?r] by simp
  next
    case nx: False
    let ?r = "v\<lparr>v4_abits := mul_planes ?cnt (tail_mask ?n) (v4_abits v) (v4_abits w), v4_bbits := replicate ?cnt 0\<rparr>"
    note mp = mul_planes [OF len n0]
    have no: "(\<exists>idx < ?cnt. mul_word ?cnt (tail_mask ?n) (v4_bbits v) idx \<noteq> 0
        \<or> mul_word ?cnt (tail_mask ?n) (v4_bbits w) idx \<noteq> 0) = False"
      using mul_xz [OF inv n n64] nx by blast
    have "v4_mul v w = Some ?r"
      unfolding v4_mul_def Let_def no using n False by simp
    moreover have rinv: "v4_inv ?r" using cnt mp by (simp add: v4_inv_def)
    moreover have "\<not> pbit (replicate ?cnt 0) i" if "i < ?n" for i
      using that words_for_mult_ge [of ?n] by (simp add: pbit_replicate)
    moreover have "take_bit ?n (pval (v4_abits v) * pval (v4_abits w))
        = take_bit ?n (bits_val (v4_list v) * bits_val (v4_list w))"
      using nx v4_pval [OF inv(1)] v4_pval [OF inv(2)] n by (simp add: take_bit_mult)
    ultimately show thesis using that nx v4_list_number [of ?r] mp by simp
  qed
qed

end
