(* ===== verification/Vector4_Value.thy ===== *)
theory Vector4_Value
  imports Vector4_Arith
begin

text \<open>
  Immediate arithmetic, \<^verbatim>\<open>operator +=\<close>, the magnitude comparisons and the conversions to machine
  integers of \<^verbatim>\<open>vvp_vector4_t\<close> (\<^verbatim>\<open>vvp/vvp_net.cc\<close>, \<^verbatim>\<open>vvp/vvp_net.h\<close>).
\<close>

section \<open>Definitions\<close>

definition v4_add_immediate :: "vvp_vector4_t \<Rightarrow> ulong \<Rightarrow> ulong \<Rightarrow> vvp_vector4_t option" where
  "v4_add_immediate v aval bval =
    (if v4_size v \<le> BITS_PER_WORD then
       let m = (if v4_size v < BITS_PER_WORD then lomask (v4_size v) else - 1);
           a = v4_abits v ! 0; b = v4_bbits v ! 0
       in Some (if (b OR bval) AND m \<noteq> 0 then v\<lparr>v4_abits := [a OR m], v4_bbits := [b OR m]\<rparr>
                else v\<lparr>v4_abits := [(a + aval) AND m]\<rparr>)
     else None)"

definition v4_xor_immediate :: "vvp_vector4_t \<Rightarrow> ulong \<Rightarrow> ulong \<Rightarrow> nat \<Rightarrow> vvp_vector4_t option" where
  "v4_xor_immediate v aval bval wid =
    (if v4_size v = wid \<and> v4_size v \<le> BITS_PER_WORD then
       let m = (if v4_size v < BITS_PER_WORD then lomask (v4_size v) else - 1);
           bval = bval AND m;
           b = v4_bbits v ! 0 OR bval;
           a = (v4_abits v ! 0 XOR (aval AND m)) OR b
       in Some (v\<lparr>v4_abits := [a], v4_bbits := [b]\<rparr>)
     else None)"

text \<open>The bit loop of \<^verbatim>\<open>operator +=\<close> with its early exit and its skip.\<close>

fun plus_loop :: "nat list \<Rightarrow> int \<Rightarrow> vvp_bit4_t \<Rightarrow> vvp_vector4_t \<Rightarrow> vvp_vector4_t option" where
  "plus_loop [] that carry v = Some v"
| "plus_loop (idx # rest) that carry v =
    (if that = 0 \<and> carry = BIT4_0 then Some v
     else
       let that_bit = (if odd that then BIT4_1 else BIT4_0); that' = that div 2 in
       if that_bit = BIT4_0 \<and> carry = BIT4_0 then plus_loop rest that' carry v
       else
         Option.bind (bit4_add_with_carry (v4_value v idx) that_bit carry)
           (\<lambda>(b, carry'). Option.bind (v4_set_bit v idx b) (plus_loop rest that' carry')))"

definition v4_plus_int :: "vvp_vector4_t \<Rightarrow> int \<Rightarrow> vvp_vector4_t option" where
  "v4_plus_int v that =
    (if v4_has_xz v then Some (v4_fill (v4_size v) BIT4_X)
     else plus_loop [0..<v4_size v] that BIT4_0 v)"

text \<open>The comparison loops, from the most significant bit down.\<close>

fun one_above :: "vvp_vector4_t \<Rightarrow> nat \<Rightarrow> nat \<Rightarrow> bool" where
  "one_above v stop 0 = False"
| "one_above v stop (Suc k) =
    (if Suc k > stop then (if v4_value v k = BIT4_1 then True else one_above v stop k) else False)"

fun gtge_loop :: "vvp_vector4_t \<Rightarrow> vvp_vector4_t \<Rightarrow> vvp_bit4_t \<Rightarrow> nat \<Rightarrow> vvp_bit4_t" where
  "gtge_loop lef rig out_if_equal 0 = out_if_equal"
| "gtge_loop lef rig out_if_equal (Suc k) =
    (let lv = v4_value lef k; rv = v4_value rig k in
     if lv = rv then gtge_loop lef rig out_if_equal k
     else if lv = BIT4_1 then BIT4_1 else BIT4_0)"

definition compare_gtge :: "vvp_vector4_t \<Rightarrow> vvp_vector4_t \<Rightarrow> vvp_bit4_t \<Rightarrow> vvp_bit4_t" where
  "compare_gtge lef rig out_if_equal =
    (let min_size = (if v4_size rig < v4_size lef then v4_size rig else v4_size lef) in
     if min_size = 0 then BIT4_X
     else if v4_has_xz lef then BIT4_X
     else if v4_has_xz rig then BIT4_X
     else if one_above lef (v4_size rig) (v4_size lef) then BIT4_1
     else if one_above rig (v4_size lef) (v4_size rig) then BIT4_0
     else gtge_loop lef rig out_if_equal min_size)"

definition compare_gtge_signed ::
  "vvp_vector4_t \<Rightarrow> vvp_vector4_t \<Rightarrow> vvp_bit4_t \<Rightarrow> vvp_bit4_t option" where
  "compare_gtge_signed a b out_if_equal =
    (if v4_size a = v4_size b then
       let sign_idx = v4_size a - 1; a_sign = v4_value a sign_idx; b_sign = v4_value b sign_idx in
       Some (if bit4_is_xz a_sign then BIT4_X
             else if bit4_is_xz b_sign then BIT4_X
             else if a_sign = b_sign then compare_gtge a b out_if_equal
             else if v4_has_xz a then BIT4_X
             else if v4_has_xz b then BIT4_X
             else if a_sign = BIT4_0 then BIT4_1 else BIT4_0)
     else None)"

text \<open>
  \<^verbatim>\<open>vector4_to_value\<close> for an integer type of \<open>'w\<close> bits: the returned flag, and the value when one
  is stored.  At most 64 bits are read, so the loop over plane words runs at most once; it is kept as
  a loop.  The sign is that of the whole vector.
\<close>

definition abits_word :: "vvp_vector4_t \<Rightarrow> nat \<Rightarrow> ulong" where
  "abits_word v wdx = (if v4_size v \<le> BITS_PER_WORD then v4_abits v ! 0 else v4_abits v ! wdx)"

definition bbits_word :: "vvp_vector4_t \<Rightarrow> nat \<Rightarrow> ulong" where
  "bbits_word v wdx = (if v4_size v \<le> BITS_PER_WORD then v4_bbits v ! 0 else v4_bbits v ! wdx)"

definition to_value_step ::
  "vvp_vector4_t \<Rightarrow> nat \<Rightarrow> bool \<Rightarrow> nat \<Rightarrow> bool \<times> 'w :: len word \<Rightarrow> (bool \<times> 'w word) option" where
  "to_value_step vec wid is_arithmetic wdx s = (case s of (rc_flag, res) \<Rightarrow>
     let base = wdx * BITS_PER_WORD; trn = min (wid - base) BITS_PER_WORD;
         m = (if trn = BITS_PER_WORD then - 1 else lomask trn);
         abits = abits_word vec wdx AND m; bbits = bbits_word vec wdx AND m in
     if bbits \<noteq> 0 then
       if is_arithmetic then None
       else Some (False, res OR push_bit base (ucast (abits AND NOT bbits)))
     else Some (rc_flag, res OR push_bit base (ucast abits)))"

definition vector4_to_value :: "vvp_vector4_t \<Rightarrow> bool \<Rightarrow> bool \<Rightarrow> bool \<times> 'w :: len word option" where
  "vector4_to_value vec is_signed is_arithmetic =
    (let wid = (if v4_size vec > LENGTH('w) then LENGTH('w) else v4_size vec) in
     case for_each (to_value_step vec wid is_arithmetic) [0..<words_for wid] (True, 0) of
       None \<Rightarrow> (False, None)
     | Some (rc_flag, res) \<Rightarrow>
         let res = (if is_signed \<and> v4_size vec \<noteq> 0 \<and> v4_value vec (v4_size vec - 1) = BIT4_1
             \<and> v4_size vec < LENGTH('w)
           then res OR push_bit (v4_size vec) (- 1) else res)
         in (rc_flag, Some res))"

text \<open>
  The conversion to \<^verbatim>\<open>unsigned long\<close> (and to the 64 bit time type): success, the overflow flag and
  the value.  The branch \<^verbatim>\<open>trans > CAP - base\<close> cannot be taken when both widths are 64.
\<close>

definition to_ulong_step :: "vvp_vector4_t \<Rightarrow> nat \<Rightarrow> bool \<times> ulong \<Rightarrow> (bool \<times> ulong) option" where
  "to_ulong_step vec wdx s = (case s of (overflow, res) \<Rightarrow>
     let base = wdx * BITS_PER_WORD; trn = min (v4_size vec - base) BITS_PER_WORD;
         m = (if trn = BITS_PER_WORD then - 1 else lomask trn);
         abits = abits_word vec wdx AND m; bbits = bbits_word vec wdx AND m in
     if bbits \<noteq> 0 then None
     else if base \<ge> 64 then Some (overflow \<or> abits \<noteq> 0, res)
     else if trn > 64 - base then
       let cap = 64 - base
       in Some (overflow \<or> drop_bit cap abits \<noteq> 0, res OR push_bit base (abits AND lomask cap))
     else Some (overflow, res OR push_bit base abits))"

definition vector4_to_ulong :: "vvp_vector4_t \<Rightarrow> (bool \<times> ulong) option" where
  "vector4_to_ulong vec = for_each (to_ulong_step vec) [0..<words_for (v4_size vec)] (False, 0)"

section \<open>Immediate operands\<close>

lemma v4_immediate_like:
  assumes inv: "v4_inv v" and n: "v4_size v \<le> 64"
  shows "(x AND (if v4_size v < 64 then lomask (v4_size v) else - 1) \<noteq> 0) \<longleftrightarrow> (\<exists>i < v4_size v. bit x i)"
  using n by (auto simp: ulong_eq_0_iff bit_and_iff intro: less_le_trans dest: bit_ulong_lt)

lemma v4_add_immediate_spec:
  assumes inv: "v4_inv v" and n: "v4_size v \<le> 64"
  obtains r where "v4_add_immediate v aval bval = Some r" and "v4_inv r" and "v4_list r =
    (if v4_has_xz v \<or> (\<exists>i < v4_size v. bit bval i) then replicate (v4_size v) BIT4_X
     else bits_of (v4_size v) (bits_val (v4_list v) + uint aval))"
proof -
  let ?n = "v4_size v" and ?m = "if v4_size v < 64 then lomask (v4_size v) else - 1"
  have one: "length (v4_abits v) = 1" "length (v4_bbits v) = 1"
    using v4_inv_short [OF inv n] v4_inv_len(2) [OF inv] by simp_all
  have x: "(v4_bbits v ! 0 OR bval) AND ?m \<noteq> 0 \<longleftrightarrow> v4_has_xz v \<or> (\<exists>i < ?n. bit bval i)"
    unfolding v4_immediate_like [OF inv n] v4_has_xz_pbit [OF inv] using n
    by (auto simp: bit_or_iff pbit_small)
  show thesis
  proof (cases "v4_has_xz v \<or> (\<exists>i < ?n. bit bval i)")
    case True
    let ?r = "v\<lparr>v4_abits := [v4_abits v ! 0 OR ?m], v4_bbits := [v4_bbits v ! 0 OR ?m]\<rparr>"
    have rinv: "v4_inv ?r" using inv one by (simp add: v4_inv_def)
    have "v4_list ?r = replicate (v4_size ?r) BIT4_X"
      using rinv n by (intro v4_list_all_x) (auto simp: pbit_small bit_or_iff)
    with rinv True x n that [of ?r] show thesis by (simp add: v4_add_immediate_def Let_def)
  next
    case False
    let ?r = "v\<lparr>v4_abits := [(v4_abits v ! 0 + aval) AND ?m]\<rparr>"
    have rinv: "v4_inv ?r" using inv one by (simp add: v4_inv_def)
    obtain w where w: "v4_abits v = [w]" using one(1) by (auto simp: length_Suc_conv)
    have "take_bit ?n (uint ((w + aval) AND ?m)) = take_bit ?n (uint (w + aval))"
      using n by (auto simp: take_bit_uint_and)
    also have "\<dots> = take_bit ?n (uint w + uint aval)"
      using n ring_ops(1) by (simp add: ring_op_def take_bit_take_bit min_def)
    also have "\<dots> = take_bit ?n (bits_val (v4_list v) + uint aval)"
      using v4_pval [OF inv] False w by (metis pval.simps mult_zero_right add_0_right take_bit_add take_bit_bits_val length_v4_list)
    finally have "v4_list ?r = bits_of (v4_size ?r) (bits_val (v4_list v) + uint aval)"
      using rinv False no_xz_pbit [OF inv] w by (intro v4_list_number) simp_all
    moreover have "((v4_bbits v ! 0 OR bval) AND ?m \<noteq> 0) = False" using x False by blast
    then have "v4_add_immediate v aval bval = Some ?r"
      unfolding v4_add_immediate_def Let_def using n by simp
    ultimately show thesis using rinv False by (intro that [of ?r]) auto
  qed
qed

lemma v4_xor_immediate_spec:
  assumes inv: "v4_inv v" and n: "v4_size v \<le> 64"
  obtains r where "v4_xor_immediate v aval bval (v4_size v) = Some r" and "v4_inv r"
    and "v4_list r = map (\<lambda>i. bit4_xor (v4_value v i) (bit4_of (bit aval i) (bit bval i))) [0..<v4_size v]"
proof -
  let ?n = "v4_size v" and ?m = "if v4_size v < 64 then lomask (v4_size v) else - 1"
  let ?b = "v4_bbits v ! 0 OR (bval AND ?m)"
  let ?r = "v\<lparr>v4_abits := [(v4_abits v ! 0 XOR (aval AND ?m)) OR ?b], v4_bbits := [?b]\<rparr>"
  have one: "length (v4_abits v) = 1" "length (v4_bbits v) = 1"
    using v4_inv_short [OF inv n] v4_inv_len(2) [OF inv] by simp_all
  have rinv: "v4_inv ?r" using inv one by (simp add: v4_inv_def)
  have "v4_value ?r i = bit4_xor (v4_value v i) (bit4_of (bit aval i) (bit bval i))" if "i < ?n" for i
  proof -
    have "bit ?m i" using that n by auto
    then show ?thesis
      using that rinv inv n
      by (auto simp: v4_value_pbit pbit_small bit_or_iff bit_and_iff bit_xor_iff bit4_of_def bit4_simps)
  qed
  then have "v4_list ?r = map (\<lambda>i. bit4_xor (v4_value v i) (bit4_of (bit aval i) (bit bval i))) [0..<?n]"
    by (intro v4_listI) simp_all
  with rinv n that [of ?r] show thesis by (simp add: v4_xor_immediate_def Let_def)
qed

section \<open>Adding an integer\<close>

definition bit4_num :: "vvp_bit4_t \<Rightarrow> int" where
  "bit4_num b = of_bool (b = BIT4_1)"

lemma plus_loop:
  assumes "v4_inv v" and "\<not> list_ex bit4_is_xz (v4_list v)" and "k \<le> v4_size v" and "\<not> bit4_is_xz c"
  shows "\<exists>r. plus_loop [k..<v4_size v] t c v = Some r \<and> v4_inv r \<and> v4_size r = v4_size v
    \<and> \<not> list_ex bit4_is_xz (v4_list r)
    \<and> take_bit (v4_size v) (bits_val (v4_list r))
      = take_bit (v4_size v) (bits_val (v4_list v) + 2 ^ k * (t + bit4_num c))"
  using assms
proof (induction "v4_size v - k" arbitrary: k t c v)
  case 0
  then have "take_bit (v4_size v) (bits_val (v4_list v) + 2 ^ k * (t + bit4_num c)) = take_bit (v4_size v) (bits_val (v4_list v))"
    by (intro take_bit_drop_multiple) simp
  with 0 show ?case by (intro exI [of _ v]) simp
next
  case (Suc m)
  let ?n = "v4_size v"
  have k: "k < ?n" and up: "[k..<?n] = k # [Suc k..<?n]" and m: "m = ?n - Suc k"
    using Suc.hyps(2) upt_conv_Cons [of k ?n] by linarith+
  have cn: "c = BIT4_0 \<or> c = BIT4_1" using Suc.prems(4) by (cases c) simp_all
  let ?tb = "if odd t then BIT4_1 else BIT4_0"
  have tb: "bit4_num ?tb + 2 * (t div 2) = t" by (simp add: bit4_num_def) presburger
  consider (stop) "t = 0" "c = BIT4_0" | (skip) "\<not> (t = 0 \<and> c = BIT4_0)" "even t" "c = BIT4_0"
    | (add) "\<not> (t = 0 \<and> c = BIT4_0)" "\<not> (even t \<and> c = BIT4_0)" by blast
  then show ?case
  proof cases
    case stop
    then show ?thesis using Suc.prems up by (intro exI [of _ v]) (simp add: bit4_num_def)
  next
    case skip
    have "2 ^ Suc k * (t div 2 + bit4_num c) = 2 ^ k * (t + bit4_num c)"
      using skip by (auto simp: bit4_num_def)
    moreover have "plus_loop [k..<?n] t c v = plus_loop [Suc k..<?n] (t div 2) c v"
      using skip up by simp
    ultimately show ?thesis
      using Suc.hyps(1) [OF m Suc.prems(1,2) _ Suc.prems(4), of "t div 2"] k by (metis Suc_leI)
  next
    case add
    have "\<not> bit4_is_xz (v4_value v k)" using Suc.prems(2) k by (auto simp: list_ex_iff set_v4_list)
    moreover have "\<not> bit4_is_xz ?tb" by simp
    ultimately obtain s c' where sc: "bit4_add_with_carry (v4_value v k) ?tb c = Some (s, c')"
      "\<not> bit4_is_xz s" "\<not> bit4_is_xz c'"
      "bit4_int s + 2 * bit4_int c' = bit4_int (v4_value v k) + bit4_int ?tb + bit4_int c"
      using bit4_add_with_carry_known [OF _ _ Suc.prems(4), of "v4_value v k" ?tb] by blast
    have num: "int (bit4_int b) = bit4_num b" if "\<not> bit4_is_xz b" for b
      using that by (cases b) (simp_all add: bit4_num_def)
    have sum: "bit4_num s + 2 * bit4_num c' = bit4_num (v4_value v k) + bit4_num ?tb + bit4_num c"
      using arg_cong [OF sc(4), of int] sc(2,3) Suc.prems(4) \<open>\<not> bit4_is_xz (v4_value v k)\<close>
      by (simp add: num split: if_splits)
    obtain u where u: "v4_set_bit v k s = Some u" "v4_inv u" "v4_list u = (v4_list v)[k := s]"
      using v4_set_bit_list [OF Suc.prems(1) k] by blast
    have us: "v4_size u = ?n" using arg_cong [OF u(3), of length] by simp
    have ux: "\<not> list_ex bit4_is_xz (v4_list u)"
      using Suc.prems(2) sc(2) set_update_subset_insert [of "v4_list v" k s] by (auto simp: u(3) list_ex_iff)
    have "bits_val (v4_list u) = bits_val (v4_list v) + 2 ^ k * (bit4_num s - bit4_num (v4_value v k))"
      unfolding u(3) using k by (simp add: bits_val_update bit4_num_def)
    moreover have "bit4_num s - bit4_num (v4_value v k) = bit4_num ?tb + bit4_num c - 2 * bit4_num c'"
      using sum by linarith
    ultimately have "bits_val (v4_list u) + 2 ^ Suc k * (t div 2 + bit4_num c')
        = bits_val (v4_list v) + 2 ^ k * ((bit4_num ?tb + 2 * (t div 2)) + bit4_num c)"
      by (simp add: algebra_simps)
    then have eq: "bits_val (v4_list u) + 2 ^ Suc k * (t div 2 + bit4_num c')
        = bits_val (v4_list v) + 2 ^ k * (t + bit4_num c)" unfolding tb .
    have "plus_loop [k..<?n] t c v = plus_loop [Suc k..<?n] (t div 2) c' u"
      using add up sc(1) u(1) by (auto simp: Let_def)
    then show ?thesis
      using Suc.hyps(1) [of u "Suc k" c' "t div 2"] m u(2) ux us sc(3) k eq by simp
  qed
qed

lemma known_bits_of:
  assumes "\<not> list_ex bit4_is_xz bs" and "take_bit (length bs) (bits_val bs) = take_bit (length bs) k"
  shows "bs = bits_of (length bs) k"
proof (rule nth_equalityI)
  fix i assume i: "i < length bs"
  then have "bs ! i = BIT4_0 \<or> bs ! i = BIT4_1" using assms(1) by (cases "bs ! i") (auto simp: list_ex_length)
  moreover have "bit (bits_val bs) i = bit k i" using assms(2) i by (metis bit_take_bit_iff)
  ultimately show "bs ! i = bits_of (length bs) k ! i" using i by (auto simp: bit_bits_val)
qed simp

lemma v4_plus_int_spec:
  assumes inv: "v4_inv v"
  obtains r where "v4_plus_int v k = Some r" and "v4_inv r" and "v4_list r =
    (if v4_has_xz v then replicate (v4_size v) BIT4_X else bits_of (v4_size v) (bits_val (v4_list v) + k))"
proof (cases "v4_has_xz v")
  case True
  then show thesis using that v4_fill_list [of "v4_size v" BIT4_X] v4_fill_inv by (simp add: v4_plus_int_def)
next
  case False
  then have nx: "\<not> list_ex bit4_is_xz (v4_list v)" using v4_has_xz_list [OF inv] by simp
  obtain r where r: "plus_loop [0..<v4_size v] k BIT4_0 v = Some r" "v4_inv r" "v4_size r = v4_size v"
    "\<not> list_ex bit4_is_xz (v4_list r)"
    "take_bit (v4_size v) (bits_val (v4_list r)) = take_bit (v4_size v) (bits_val (v4_list v) + 2 ^ 0 * (k + bit4_num BIT4_0))"
    using plus_loop [OF inv nx, of 0 BIT4_0 k] by auto
  then have "v4_list r = bits_of (v4_size v) (bits_val (v4_list v) + k)"
    using known_bits_of [OF r(4), of "bits_val (v4_list v) + k"] by (simp add: bit4_num_def)
  with r False that show thesis by (simp add: v4_plus_int_def)
qed

section \<open>Comparison\<close>

lemma bits_val_take_Suc:
  assumes "k < length bs"
  shows "bits_val (take (Suc k) bs) = bits_val (take k bs) + 2 ^ k * of_bool (bs ! k = BIT4_1)"
proof -
  have "bits_val (xs @ ys) = bits_val xs + 2 ^ length xs * bits_val ys" for xs ys
    by (simp add: bits_val_def horner_sum_append)
  then show ?thesis using assms by (simp add: take_Suc_conv_app_nth) (simp add: bits_val_def)
qed

definition order_bit :: "int \<Rightarrow> int \<Rightarrow> vvp_bit4_t \<Rightarrow> vvp_bit4_t" where
  "order_bit x y out = (if x > y then BIT4_1 else if x < y then BIT4_0 else out)"

lemma gtge_loop:
  assumes "k \<le> v4_size l" "k \<le> v4_size r"
    and "\<not> list_ex bit4_is_xz (v4_list l)" "\<not> list_ex bit4_is_xz (v4_list r)"
  shows "gtge_loop l r out k = order_bit (bits_val (take k (v4_list l))) (bits_val (take k (v4_list r))) out"
  using assms(1,2)
proof (induction k)
  case 0
  then show ?case by (simp add: order_bit_def)
next
  case (Suc k)
  define x y where "x = bits_val (take k (v4_list l))" and "y = bits_val (take k (v4_list r))"
  have "x < 2 ^ k" "y < 2 ^ k" "0 \<le> x" "0 \<le> y"
    using bits_val_lt [of "take k (v4_list l)"] bits_val_lt [of "take k (v4_list r)"] Suc.prems
    by (simp_all add: min_def x_def y_def)
  moreover have kl: "v4_value l k = BIT4_0 \<or> v4_value l k = BIT4_1"
    using assms(3) Suc.prems by (cases "v4_value l k") (auto simp: list_ex_length Suc_le_eq)
  moreover have kr: "v4_value r k = BIT4_0 \<or> v4_value r k = BIT4_1"
    using assms(4) Suc.prems by (cases "v4_value r k") (auto simp: list_ex_length Suc_le_eq)
  ultimately show ?case
    using Suc.IH Suc.prems
    by (auto simp: Let_def order_bit_def bits_val_take_Suc x_def [symmetric] y_def [symmetric])
qed

lemma one_above: "one_above v stop k \<longleftrightarrow> (\<exists>i. stop \<le> i \<and> i < k \<and> v4_value v i = BIT4_1)"
  by (induction k) (auto simp: less_Suc_eq intro: less_imp_le)

lemma bits_val_above:
  assumes "m \<le> length bs"
  shows "(\<exists>i. m \<le> i \<and> i < length bs \<and> bs ! i = BIT4_1) \<longleftrightarrow> bits_val bs \<ge> 2 ^ m"
    and "\<not> (\<exists>i. m \<le> i \<and> i < length bs \<and> bs ! i = BIT4_1) \<Longrightarrow> bits_val bs = bits_val (take m bs)"
proof -
  show eq: "bits_val bs = bits_val (take m bs)" if "\<not> (\<exists>i. m \<le> i \<and> i < length bs \<and> bs ! i = BIT4_1)"
  proof (rule bit_eqI)
    fix i
    have "i < m" if "i < length bs" "bs ! i = BIT4_1"
      using that \<open>\<not> (\<exists>i. m \<le> i \<and> i < length bs \<and> bs ! i = BIT4_1)\<close> not_less by blast
    then show "bit (bits_val bs) i = bit (bits_val (take m bs)) i" by (auto simp: bit_bits_val)
  qed
  show "(\<exists>i. m \<le> i \<and> i < length bs \<and> bs ! i = BIT4_1) \<longleftrightarrow> bits_val bs \<ge> 2 ^ m"
  proof
    assume "\<exists>i. m \<le> i \<and> i < length bs \<and> bs ! i = BIT4_1"
    then obtain i where i: "m \<le> i" "bit (bits_val bs) i" by (auto simp: bit_bits_val)
    have "take_bit m (bits_val bs) \<noteq> bits_val bs"
      using i by (metis bit_take_bit_iff not_less)
    then show "bits_val bs \<ge> 2 ^ m"
      using take_bit_int_eq_self [of "bits_val bs" m] by fastforce
  next
    assume ge: "bits_val bs \<ge> 2 ^ m"
    show "\<exists>i. m \<le> i \<and> i < length bs \<and> bs ! i = BIT4_1"
    proof (rule ccontr)
      assume "\<not> (\<exists>i. m \<le> i \<and> i < length bs \<and> bs ! i = BIT4_1)"
      moreover have "length (take m bs) = m" using assms by simp
      ultimately show False using eq bits_val_lt [of "take m bs"] ge by simp
    qed
  qed
qed

lemma compare_gtge_spec:
  assumes inv: "v4_inv l" "v4_inv r"
  shows "compare_gtge l r out =
    (if v4_size l = 0 \<or> v4_size r = 0 \<or> v4_has_xz l \<or> v4_has_xz r then BIT4_X
     else order_bit (bits_val (v4_list l)) (bits_val (v4_list r)) out)"
proof (cases "v4_size l = 0 \<or> v4_size r = 0 \<or> v4_has_xz l \<or> v4_has_xz r")
  case True
  then show ?thesis by (auto simp: compare_gtge_def Let_def)
next
  case False
  let ?x = "bits_val (v4_list l)" and ?y = "bits_val (v4_list r)"
  have nx: "\<not> list_ex bit4_is_xz (v4_list l)" "\<not> list_ex bit4_is_xz (v4_list r)"
    using False v4_has_xz_list inv by simp_all
  have lt: "?x < 2 ^ v4_size l" "?y < 2 ^ v4_size r" using bits_val_lt [of "v4_list l"] bits_val_lt [of "v4_list r"] by simp_all
  have abv: "one_above v m (v4_size v) \<longleftrightarrow> (\<exists>i. m \<le> i \<and> i < length (v4_list v) \<and> v4_list v ! i = BIT4_1)" for v m
    by (auto simp: one_above)
  have none: "\<not> one_above v m (v4_size v)" if "v4_size v \<le> m" for v m using that by (auto simp: one_above)
  consider (wider) "v4_size r < v4_size l" | (narrower) "v4_size l \<le> v4_size r" by linarith
  then show ?thesis
  proof cases
    case wider
    note ab = bits_val_above [of "v4_size r" "v4_list l", folded abv]
    show ?thesis
      using False wider ab none [of r "v4_size l"] lt gtge_loop [OF _ _ nx, of "v4_size r" out]
      by (auto simp: compare_gtge_def Let_def order_bit_def)
  next
    case narrower
    note ab = bits_val_above [of "v4_size l" "v4_list r", folded abv]
    show ?thesis
      using False narrower ab none [of l "v4_size r"] lt gtge_loop [OF _ _ nx, of "v4_size l" out]
      by (auto simp: compare_gtge_def Let_def order_bit_def)
  qed
qed

lemma last_v4_list: "0 < v4_size v \<Longrightarrow> last (v4_list v) = v4_value v (v4_size v - 1)"
  by (subst last_conv_nth) (auto simp: v4_list_def)

lemma v4_list_Nil [simp]: "v4_list v = [] \<longleftrightarrow> v4_size v = 0"
  by (simp add: v4_list_def)

lemma compare_gtge_signed_spec:
  assumes inv: "v4_inv a" "v4_inv b" and n: "v4_size a = v4_size b"
  shows "compare_gtge_signed a b out = Some
    (if v4_size a = 0 \<or> v4_has_xz a \<or> v4_has_xz b then BIT4_X
     else order_bit (bits_sval (v4_list a)) (bits_sval (v4_list b)) out)"
proof (cases "v4_size a = 0 \<or> v4_has_xz a \<or> v4_has_xz b")
  case True
  have "bit4_is_xz (v4_value a (v4_size a - 1)) \<Longrightarrow> v4_has_xz a" if "0 < v4_size a"
    using that inv by (auto simp: v4_has_xz_list list_ex_length intro!: exI [of _ "v4_size a - 1"])
  moreover have "v4_value a 0 = BIT4_X" if "v4_size a = 0" using that by (simp add: v4_value_beyond)
  ultimately show ?thesis
    using True n inv by (auto simp: compare_gtge_signed_def Let_def compare_gtge_spec)
next
  case False
  define x y where "x = bits_val (v4_list a)" and "y = bits_val (v4_list b)"
  let ?n = "v4_size a"
  have known: "v4_value u (?n - 1) = BIT4_0 \<or> v4_value u (?n - 1) = BIT4_1"
    if "v4_inv u" "v4_size u = ?n" "\<not> v4_has_xz u" for u
  proof -
    have "?n - 1 < ?n" using False by simp
    then have "\<not> bit4_is_xz (v4_value u (?n - 1))"
      using that by (auto simp: v4_has_xz_list list_ex_length)
    then show ?thesis by (cases "v4_value u (?n - 1)") simp_all
  qed
  have sa: "v4_value a (?n - 1) = BIT4_0 \<or> v4_value a (?n - 1) = BIT4_1"
    and sb: "v4_value b (?n - 1) = BIT4_0 \<or> v4_value b (?n - 1) = BIT4_1"
    using known inv n False by simp_all
  have lt: "x < 2 ^ ?n" "y < 2 ^ ?n" "0 \<le> x" "0 \<le> y"
    using bits_val_lt [of "v4_list a"] bits_val_lt [of "v4_list b"] n by (simp_all add: x_def y_def)
  have "last (v4_list a) = v4_value a (?n - 1)" "last (v4_list b) = v4_value b (?n - 1)"
    using last_v4_list [of a] last_v4_list [of b] False n by simp_all
  then have sv: "bits_sval (v4_list a) = x - (if v4_value a (?n - 1) = BIT4_1 then 2 ^ ?n else 0)"
    "bits_sval (v4_list b) = y - (if v4_value b (?n - 1) = BIT4_1 then 2 ^ ?n else 0)"
    using False n by (simp_all add: bits_sval_def x_def y_def)
  show ?thesis
    using False n sa sb lt inv
    by (auto simp: compare_gtge_signed_def Let_def compare_gtge_spec order_bit_def sv
        x_def [symmetric] y_def [symmetric])
qed

section \<open>Conversion to machine integers\<close>

lemma bit_bits_sval:
  "bit (bits_sval bs) i \<longleftrightarrow> (if i < length bs then bs ! i = BIT4_1 else bs \<noteq> [] \<and> last bs = BIT4_1)"
proof (cases "bs \<noteq> [] \<and> last bs = BIT4_1")
  case True
  have "bits_sval bs = bits_val bs + push_bit (length bs) (- 1)"
    using True by (simp add: bits_sval_def push_bit_eq_mult)
  also have "\<dots> = bits_val bs OR push_bit (length bs) (- 1)"
    by (rule disjunctive_add) (auto simp: bit_bits_val bit_not_iff bit_mask_iff)
  finally show ?thesis using True by (auto simp: bit_or_iff bit_bits_val bit_not_iff bit_mask_iff)
qed (auto simp: bits_sval_def bit_bits_val)

lemma to_value_first:
  fixes v :: vvp_vector4_t
  assumes inv: "v4_inv v" and m: "0 < m" "m \<le> 64" "m \<le> v4_size v"
  shows "to_value_step v m ar 0 (True, 0 :: 'w :: len word) =
    (if \<exists>i < m. bit4_is_xz (v4_value v i) then
       (if ar then None else Some (False, word_of_int (take_bit m (bits_val (v4_list v)))))
     else Some (True, word_of_int (take_bit m (bits_val (v4_list v)))))"
proof -
  let ?m = "if m = 64 then - 1 else lomask m"
  let ?a = "abits_word v 0 AND ?m" and ?b = "bbits_word v 0 AND ?m"
  have w: "abits_word v 0 = v4_abits v ! 0" "bbits_word v 0 = v4_bbits v ! 0"
    by (simp_all add: abits_word_def bbits_word_def)
  have bm: "bit ?m i \<longleftrightarrow> i < m" if "i < 64" for i using that m by auto
  have val: "v4_value v i = bit4_of (bit (v4_abits v ! 0) i) (bit (v4_bbits v ! 0) i)" if "i < m" for i
    using that m inv by (simp add: v4_value_pbit pbit_small)
  have b: "?b \<noteq> 0 \<longleftrightarrow> (\<exists>i < m. bit4_is_xz (v4_value v i))"
    using m bm by (auto simp: ulong_eq_0_iff bit_and_iff w val intro: less_le_trans)
  have "ucast (?a AND NOT ?b) = (word_of_int (take_bit m (bits_val (v4_list v))) :: 'w word)"
  proof (rule bit_word_eqI)
    fix i assume i: "i < LENGTH('w)"
    have "bit (?a AND NOT ?b) i \<longleftrightarrow> i < m \<and> v4_value v i = BIT4_1"
      using m bm [of i] by (auto simp: bit_and_iff bit_or_iff bit_not_iff w val dest: bit_ulong_lt)
    then show "bit (ucast (?a AND NOT ?b) :: 'w word) i = bit (word_of_int (take_bit m (bits_val (v4_list v))) :: 'w word) i"
      using i m by (auto simp: bit_ucast_iff bit_word_of_int_iff bit_take_bit_iff bit_bits_val)
  qed
  moreover have "?a AND NOT ?b = ?a" if "\<not> ?b \<noteq> 0" using that by simp
  ultimately show ?thesis
    using m b by (simp add: to_value_step_def Let_def) (auto simp: min_def)
qed

lemma vector4_to_value_spec:
  fixes v :: vvp_vector4_t
  assumes inv: "v4_inv v" and W: "LENGTH('w :: len) \<le> 64"
  shows "(vector4_to_value v sg ar :: bool \<times> 'w word option) =
    (let xz = (\<exists>i < min (v4_size v) LENGTH('w). bit4_is_xz (v4_value v i)) in
     if xz \<and> ar then (False, None)
     else (\<not> xz, Some (word_of_int (if sg then bits_sval (v4_list v) else bits_val (v4_list v)))))"
proof (cases "v4_size v = 0")
  case True
  then show ?thesis by (simp add: vector4_to_value_def Let_def bits_sval_def v4_list_def bits_val_def)
next
  case False
  let ?n = "v4_size v" and ?W = "LENGTH('w)" and ?bs = "v4_list v"
  define m where "m = min ?n ?W"
  define xz where "xz \<longleftrightarrow> (\<exists>i < m. bit4_is_xz (v4_value v i))"
  have m: "0 < m" "m \<le> 64" "m \<le> ?n" using False W by (auto simp: m_def)
  have mw: "(if ?n > ?W then ?W else ?n) = m" by (simp add: m_def min_def)
  have w1: "[0..<words_for m] = [0]" using m words_for_small [of m] by simp
  let ?u = "word_of_int (take_bit m (bits_val ?bs)) :: 'w word"
  have u: "?u = word_of_int (bits_val ?bs)"
    by (rule bit_word_eqI) (auto simp: bit_word_of_int_iff bit_take_bit_iff bit_bits_val m_def)
  have "(if v4_value v (?n - 1) = BIT4_1 \<and> ?n < ?W then ?u OR push_bit ?n (- 1) else ?u)
      = word_of_int (bits_sval ?bs)"
    unfolding u using False last_v4_list [of v]
    by (intro bit_word_eqI) (auto simp: bit_word_of_int_iff bit_or_iff bit_not_iff bit_mask_iff bit_bits_val bit_bits_sval)
  moreover have "for_each (to_value_step v m ar) [0..<words_for m] (True, 0 :: 'w word)
      = (if xz then (if ar then None else Some (False, ?u)) else Some (True, ?u))"
    using to_value_first [OF inv m, of ar, where 'w = 'w] by (simp add: w1 xz_def)
  ultimately show ?thesis
    using False by (auto simp: vector4_to_value_def Let_def mw xz_def m_def [symmetric] u)
qed

lemma to_ulong_some:
  assumes inv: "v4_inv v" and nx: "\<not> v4_has_xz v"
  shows "\<exists>s. for_each (to_ulong_step v) [0..<words_for (v4_size v)] (False, 0) = Some s
    \<and> (fst s \<longleftrightarrow> (\<exists>i. 64 \<le> i \<and> i < v4_size v \<and> i < 64 * words_for (v4_size v) \<and> v4_value v i = BIT4_1))
    \<and> (\<forall>i < 64. bit (snd s) i \<longleftrightarrow> i < 64 * words_for (v4_size v) \<and> i < v4_size v \<and> v4_value v i = BIT4_1)"
proof (rule for_upto_rule [where P = "\<lambda>k s.
    (fst s \<longleftrightarrow> (\<exists>i. 64 \<le> i \<and> i < v4_size v \<and> i < 64 * k \<and> v4_value v i = BIT4_1))
    \<and> (\<forall>i < 64. bit (snd s) i \<longleftrightarrow> i < 64 * k \<and> i < v4_size v \<and> v4_value v i = BIT4_1)"])
  show "(fst (False, 0) \<longleftrightarrow> (\<exists>i. 64 \<le> i \<and> i < v4_size v \<and> i < 64 * 0 \<and> v4_value v i = BIT4_1))
    \<and> (\<forall>i < 64. bit (snd (False, 0)) i \<longleftrightarrow> i < 64 * 0 \<and> i < v4_size v \<and> v4_value v i = BIT4_1)"
    by simp
next
  fix k and s :: "bool \<times> ulong"
  let ?n = "v4_size v"
  assume k: "k < words_for ?n" and s: "(fst s \<longleftrightarrow> (\<exists>i. 64 \<le> i \<and> i < ?n \<and> i < 64 * k \<and> v4_value v i = BIT4_1))
    \<and> (\<forall>i < 64. bit (snd s) i \<longleftrightarrow> i < 64 * k \<and> i < ?n \<and> v4_value v i = BIT4_1)"
  obtain ov res where sr: "s = (ov, res)" by fastforce
  have kn: "64 * k < ?n" using words_for_bound [OF k] by (simp add: mult.commute)
  define t where "t = min (?n - k * 64) 64"
  define m where "m = (if t = 64 then - 1 else lomask t)"
  have bm: "bit m j \<longleftrightarrow> 64 * k + j < ?n" if "j < 64" for j
    using that kn by (auto simp: m_def t_def min_def)
  have word: "abits_word v k = v4_abits v ! k" "bbits_word v k = v4_bbits v ! k"
    using k words_for_small [of ?n] by (auto simp: abits_word_def bbits_word_def, (cases "?n = 0"; simp)+)
  have val: "v4_value v (64 * k + j) = bit4_of (bit (v4_abits v ! k) j) (bit (v4_bbits v ! k) j)"
    if "64 * k + j < ?n" "j < 64" for j
    using that inv by (simp add: v4_value_pbit pbit_shift_word)
  have nb: "\<not> bit (v4_bbits v ! k) j" if "64 * k + j < ?n" "j < 64" for j
    using nx inv that by (auto simp: v4_has_xz_pbit pbit_shift_word)
  have b0: "bbits_word v k AND m = 0"
    using nb bm by (auto simp: ulong_eq_0_iff bit_and_iff word)
  define a where "a = abits_word v k AND m"
  have a: "bit a j \<longleftrightarrow> 64 * k + j < ?n \<and> v4_value v (64 * k + j) = BIT4_1" if "j < 64" for j
    using that bm val nb by (auto simp: a_def bit_and_iff word)
  have step: "to_ulong_step v k s = Some (if k \<ge> 1 then (ov \<or> a \<noteq> 0, res) else (ov, res OR a))"
  proof -
    have "to_ulong_step v k s = (if k * 64 \<ge> 64 then Some (ov \<or> a \<noteq> 0, res)
      else if t > 64 - k * 64
        then Some (ov \<or> drop_bit (64 - k * 64) a \<noteq> 0, res OR push_bit (k * 64) (a AND lomask (64 - k * 64)))
        else Some (ov, res OR push_bit (k * 64) a))"
      unfolding to_ulong_step_def Let_def sr prod.case t_def [symmetric] m_def [symmetric] b0 a_def [symmetric]
      by simp
    moreover have "k * 64 \<ge> 64 \<longleftrightarrow> k \<ge> 1" "\<not> t > 64" by (auto simp: t_def)
    ultimately show ?thesis by (cases "k = 0") simp_all
  qed
  show "\<exists>s'. to_ulong_step v k s = Some s'
      \<and> (fst s' \<longleftrightarrow> (\<exists>i. 64 \<le> i \<and> i < ?n \<and> i < 64 * Suc k \<and> v4_value v i = BIT4_1))
      \<and> (\<forall>i < 64. bit (snd s') i \<longleftrightarrow> i < 64 * Suc k \<and> i < ?n \<and> v4_value v i = BIT4_1)"
  proof (cases "k \<ge> 1")
    case True
    have "a \<noteq> 0 \<longleftrightarrow> (\<exists>j < 64. 64 * k + j < ?n \<and> v4_value v (64 * k + j) = BIT4_1)"
      using a by (auto simp: ulong_eq_0_iff)
    also have "\<dots> \<longleftrightarrow> (\<exists>i. 64 * k \<le> i \<and> i < 64 * Suc k \<and> i < ?n \<and> v4_value v i = BIT4_1)"
    proof
      assume "\<exists>j < 64. 64 * k + j < ?n \<and> v4_value v (64 * k + j) = BIT4_1"
      then obtain j where "j < 64" "64 * k + j < ?n" "v4_value v (64 * k + j) = BIT4_1" by blast
      then show "\<exists>i. 64 * k \<le> i \<and> i < 64 * Suc k \<and> i < ?n \<and> v4_value v i = BIT4_1"
        by (intro exI [of _ "64 * k + j"]) simp
    next
      assume "\<exists>i. 64 * k \<le> i \<and> i < 64 * Suc k \<and> i < ?n \<and> v4_value v i = BIT4_1"
      then obtain i where "64 * k \<le> i" "i < 64 * Suc k" "i < ?n" "v4_value v i = BIT4_1" by blast
      then show "\<exists>j < 64. 64 * k + j < ?n \<and> v4_value v (64 * k + j) = BIT4_1"
        by (intro exI [of _ "i - 64 * k"]) simp
    qed
    finally have eqa: "a \<noteq> 0 \<longleftrightarrow> (\<exists>i. 64 * k \<le> i \<and> i < 64 * Suc k \<and> i < ?n \<and> v4_value v i = BIT4_1)" .
    have "ov \<or> a \<noteq> 0 \<longleftrightarrow> (\<exists>i. 64 \<le> i \<and> i < ?n \<and> i < 64 * Suc k \<and> v4_value v i = BIT4_1)"
    proof -
      have "64 \<le> i \<and> i < 64 * Suc k \<longleftrightarrow> 64 \<le> i \<and> i < 64 * k \<or> 64 * k \<le> i \<and> i < 64 * Suc k" for i
        using True by auto
      moreover note eqa
      moreover have "ov \<longleftrightarrow> (\<exists>i. 64 \<le> i \<and> i < ?n \<and> i < 64 * k \<and> v4_value v i = BIT4_1)" using s by (simp add: sr)
      ultimately show ?thesis by blast
    qed
    with step s True show ?thesis by (auto simp: sr)
  next
    case False
    then have "k = 0" by simp
    with step s a show ?thesis by (auto simp: sr bit_or_iff)
  qed
qed

lemma vector4_to_ulong_spec:
  assumes inv: "v4_inv v"
  shows "vector4_to_ulong v = (if v4_has_xz v then None
    else Some (bits_val (v4_list v) \<ge> 2 ^ 64, word_of_int (bits_val (v4_list v))))"
proof (cases "v4_has_xz v")
  case False
  obtain s where s: "vector4_to_ulong v = Some s"
    "fst s \<longleftrightarrow> (\<exists>i. 64 \<le> i \<and> i < v4_size v \<and> i < 64 * words_for (v4_size v) \<and> v4_value v i = BIT4_1)"
    "\<And>i. i < 64 \<Longrightarrow> bit (snd s) i \<longleftrightarrow> i < 64 * words_for (v4_size v) \<and> i < v4_size v \<and> v4_value v i = BIT4_1"
    using to_ulong_some [OF inv False] by (auto simp: vector4_to_ulong_def)
  have le: "i < 64 * words_for (v4_size v)" if "i < v4_size v" for i
    using that words_for_mult_ge [of "v4_size v"] by simp
  have "snd s = word_of_int (bits_val (v4_list v))"
    by (rule bit_word_eqI) (use le in \<open>auto simp: s(3) bit_word_of_int_iff bit_bits_val\<close>)
  moreover have "fst s \<longleftrightarrow> bits_val (v4_list v) \<ge> 2 ^ 64"
  proof (cases "64 \<le> v4_size v")
    case True
    then show ?thesis using bits_val_above(1) [of 64 "v4_list v"] le by (auto simp: s(2))
  next
    case small: False
    then have "(2 :: int) ^ v4_size v \<le> 2 ^ 64" by (intro power_increasing) auto
    with small bits_val_lt [of "v4_list v"] show ?thesis by (auto simp: s(2))
  qed
  ultimately have "s = (bits_val (v4_list v) \<ge> 2 ^ 64, word_of_int (bits_val (v4_list v)))"
    by (intro prod_eqI) simp_all
  with s(1) False show ?thesis by simp
next
  case True
  then obtain i where i: "i < v4_size v" "pbit (v4_bbits v) i" using inv by (auto simp: v4_has_xz_pbit)
  let ?k = "i div 64" and ?n = "v4_size v"
  have k: "?k < words_for ?n" using i(1) by (rule div_less_words_for)
  have "?k * 64 + i mod 64 = i" by simp
  then have "i mod 64 < ?n - ?k * 64" using i(1) by linarith
  then have m: "bit (if min (?n - ?k * 64) 64 = 64 then - 1 else lomask (min (?n - ?k * 64) 64)) (i mod 64)"
    using i(1) by (auto simp: min_def)
  have "bbits_word v ?k = v4_bbits v ! ?k"
    using i(1) k words_for_small [of ?n] by (auto simp: bbits_word_def)
  then have "bit (bbits_word v ?k AND (if min (?n - ?k * 64) 64 = 64 then - 1 else lomask (min (?n - ?k * 64) 64))) (i mod 64)"
    using i(2) m by (simp add: bit_and_iff pbit_def)
  then have "bbits_word v ?k AND (if min (?n - ?k * 64) 64 = 64 then - 1 else lomask (min (?n - ?k * 64) 64)) \<noteq> 0"
    by (metis bit_0_eq bot_apply bot_bool_def)
  then have "to_ulong_step v ?k s = None" for s
    by (cases s) (simp add: to_ulong_step_def Let_def)
  moreover have "?k \<in> set [0..<words_for ?n]" using k by simp
  ultimately have "vector4_to_ulong v = None" unfolding vector4_to_ulong_def by (intro for_each_none)
  then show ?thesis using True by simp
qed

end
