(* ===== verification/Vector2.thy ===== *)
theory Vector2
  imports Vector4_Arith
begin

text \<open>
  The two-valued vector \<^verbatim>\<open>vvp_vector2_t\<close> of \<^verbatim>\<open>vvp/vvp_net.h\<close> and \<^verbatim>\<open>vvp/vvp_net.cc\<close>: unsigned
  numbers of a fixed width, used for wide division, modulus and power.  A zero width vector is the
  value \<^verbatim>\<open>NaN\<close>.  The representation invariant is that the array has the words of the width and
  that the bits above the width are clear (\<^verbatim>\<open>clear_unused_bits_\<close>); \<open>v2_val\<close> is the number, and each
  operation is shown to be the arithmetic operation on it modulo \<open>2 ^ wid\<close>.
\<close>

section \<open>Representation\<close>

record vvp_vector2_t =
  v2_wid :: nat
  v2_vec :: plane

definition clear_unused_bits :: "vvp_vector2_t \<Rightarrow> vvp_vector2_t" where
  "clear_unused_bits v =
    (if v2_wid v = 0 then v
     else
       let tail_bits = v2_wid v mod BITS_PER_WORD in
       if tail_bits = 0 then v
       else
         let last = words_for (v2_wid v) - 1
         in v\<lparr>v2_vec := (v2_vec v)[last := v2_vec v ! last AND topmask tail_bits]\<rparr>)"

definition v2_nil :: vvp_vector2_t where
  "v2_nil = \<lparr>v2_wid = 0, v2_vec = []\<rparr>"

definition v2_of_ulong :: "ulong \<Rightarrow> nat \<Rightarrow> vvp_vector2_t" where
  "v2_of_ulong val wid =
    (let words = words_for wid in
     if words = 0 then \<lparr>v2_wid = wid, v2_vec = []\<rparr>
     else clear_unused_bits \<lparr>v2_wid = wid, v2_vec = val # replicate (words - 1) 0\<rparr>)"

definition v2_fill :: "bool \<Rightarrow> nat \<Rightarrow> vvp_vector2_t" where
  "v2_fill fill1 wid =
    clear_unused_bits \<lparr>v2_wid = wid, v2_vec = replicate (words_for wid) (if fill1 then - 1 else 0)\<rparr>"

definition v2_resized :: "vvp_vector2_t \<Rightarrow> nat \<Rightarrow> vvp_vector2_t" where
  "v2_resized that newsize =
    (if newsize = 0 then \<lparr>v2_wid = 0, v2_vec = []\<rparr>
     else
       let words = words_for newsize; twords = words_for (v2_wid that)
       in clear_unused_bits \<lparr>v2_wid = newsize,
            v2_vec = map (\<lambda>idx. if idx < twords then v2_vec that ! idx else 0) [0..<words]\<rparr>)"

section \<open>Bit access\<close>

definition v2_value :: "vvp_vector2_t \<Rightarrow> nat \<Rightarrow> int" where
  "v2_value v idx =
    (if idx \<ge> v2_wid v then 0
     else
       let addr = idx div BITS_PER_WORD; m = idx mod BITS_PER_WORD
       in if v2_vec v ! addr AND push_bit m 1 \<noteq> 0 then 1 else 0)"

definition v2_value4 :: "vvp_vector2_t \<Rightarrow> nat \<Rightarrow> vvp_bit4_t" where
  "v2_value4 v idx = (if v2_value v idx \<noteq> 0 then BIT4_1 else BIT4_0)"

definition v2_set_bit :: "vvp_vector2_t \<Rightarrow> nat \<Rightarrow> int \<Rightarrow> vvp_vector2_t option" where
  "v2_set_bit v idx b =
    (if idx < v2_wid v then
       let addr = idx div BITS_PER_WORD; m = idx mod BITS_PER_WORD; w = v2_vec v ! addr
       in Some (v\<lparr>v2_vec := (v2_vec v)[addr := if b \<noteq> 0 then w OR push_bit m 1 else w AND NOT (push_bit m 1)]\<rparr>)
     else None)"

definition v2_set_vec :: "vvp_vector2_t \<Rightarrow> nat \<Rightarrow> vvp_vector2_t \<Rightarrow> vvp_vector2_t option" where
  "v2_set_vec v adr that =
    (if adr + v2_wid that \<le> v2_wid v
     then for_each (\<lambda>idx v. v2_set_bit v (adr + idx) (v2_value that idx)) [0..<v2_wid that] v
     else None)"

text \<open>The part select constructor behind \<^verbatim>\<open>subvalue\<close>.\<close>

definition v2_subvalue :: "vvp_vector2_t \<Rightarrow> nat \<Rightarrow> nat \<Rightarrow> vvp_vector2_t" where
  "v2_subvalue that base wid =
    clear_unused_bits \<lparr>v2_wid = wid, v2_vec =
      foldl (\<lambda>vec idx. if v2_value that (base + idx) = 0 then vec
          else vec[idx div BITS_PER_WORD := vec ! (idx div BITS_PER_WORD) OR push_bit (idx mod BITS_PER_WORD) 1])
        (replicate (words_for wid) 0) [0..<wid]\<rparr>"

text \<open>Conversion from a four-valued vector: x and z bits become 0, or the result is \<^verbatim>\<open>NaN\<close>.\<close>

definition v2_of_vector4 :: "vvp_vector4_t \<Rightarrow> bool \<Rightarrow> vvp_vector2_t option" where
  "v2_of_vector4 that enable_NaN =
    (if enable_NaN \<and> v4_has_xz that then Some v2_nil
     else if words_for (v4_size that) = 0 then Some v2_nil
     else map_option (\<lambda>vec. clear_unused_bits \<lparr>v2_wid = v4_size that, v2_vec = vec\<rparr>)
       (v4_subarray that 0 (v4_size that) True))"

definition v2_is_NaN :: "vvp_vector2_t \<Rightarrow> bool" where
  "v2_is_NaN v \<longleftrightarrow> v2_wid v = 0"

definition v2_is_zero :: "vvp_vector2_t \<Rightarrow> bool" where
  "v2_is_zero v \<longleftrightarrow> (\<forall>idx < words_for (v2_wid v). v2_vec v ! idx = 0)"

section \<open>Shifts\<close>

definition v2_shl_words :: "nat \<Rightarrow> plane \<Rightarrow> plane" where
  "v2_shl_words wshift vec =
    (let words = length vec;
         vec = foldl (\<lambda>vec idx. let sel = words - idx - 1 in vec[sel := vec ! (sel - wshift)]) vec [0..<words - wshift]
     in foldl (\<lambda>vec idx. vec[idx := 0]) vec [0..<wshift])"

fun v2_shl_fine :: "nat \<Rightarrow> ulong \<Rightarrow> plane \<Rightarrow> plane" where
  "v2_shl_fine oshift pad [] = []"
| "v2_shl_fine oshift pad (w # ws) =
    (push_bit oshift w OR pad) # v2_shl_fine oshift (drop_bit (BITS_PER_WORD - oshift) w) ws"

definition v2_shl :: "vvp_vector2_t \<Rightarrow> nat \<Rightarrow> vvp_vector2_t" where
  "v2_shl v shift =
    (if v2_wid v = 0 then v
     else if shift \<ge> v2_wid v then v\<lparr>v2_vec := map (\<lambda>_. 0) (v2_vec v)\<rparr>
     else
       let wshift = shift div BITS_PER_WORD; oshift = shift mod BITS_PER_WORD;
           vec = (if wshift > 0 then v2_shl_words wshift (v2_vec v) else v2_vec v);
           vec = (if oshift \<noteq> 0 then v2_shl_fine oshift 0 vec else vec)
       in clear_unused_bits (v\<lparr>v2_vec := vec\<rparr>))"

definition v2_shr_words :: "nat \<Rightarrow> plane \<Rightarrow> plane" where
  "v2_shr_words wshift vec =
    (let words = length vec;
         vec = foldl (\<lambda>vec idx. vec[idx := vec ! (idx + wshift)]) vec [0..<words - wshift]
     in foldl (\<lambda>vec idx. vec[idx := 0]) vec [words - wshift..<words])"

text \<open>The fine right shift runs from the last word down; the pair is the pad and the words done.\<close>

definition v2_shr_fine :: "nat \<Rightarrow> plane \<Rightarrow> ulong \<times> plane" where
  "v2_shr_fine oshift vec =
    foldr (\<lambda>w (pad, done). (push_bit (BITS_PER_WORD - oshift) w, (pad OR drop_bit oshift w) # done)) vec (0, [])"

definition v2_shr :: "vvp_vector2_t \<Rightarrow> nat \<Rightarrow> vvp_vector2_t" where
  "v2_shr v shift =
    (if v2_wid v = 0 then v
     else if shift \<ge> v2_wid v then v\<lparr>v2_vec := map (\<lambda>_. 0) (v2_vec v)\<rparr>
     else
       let wshift = shift div BITS_PER_WORD; oshift = shift mod BITS_PER_WORD;
           vec = (if wshift > 0 then v2_shr_words wshift (v2_vec v) else v2_vec v);
           vec = (if oshift > 0 then snd (v2_shr_fine oshift vec) else vec)
       in clear_unused_bits (v\<lparr>v2_vec := vec\<rparr>))"

section \<open>Arithmetic\<close>

fun add_words :: "plane \<Rightarrow> plane \<Rightarrow> ulong \<Rightarrow> plane" where
  "add_words (a # as) (b # bs) carry =
    (case add_carry a b carry of (r, carry') \<Rightarrow> r # add_words as bs carry')"
| "add_words as bs carry = as"

definition v2_plus_eq :: "vvp_vector2_t \<Rightarrow> vvp_vector2_t \<Rightarrow> vvp_vector2_t option" where
  "v2_plus_eq v that =
    (if v2_wid v = v2_wid that then
       Some (if v2_wid v = 0 then v
             else clear_unused_bits (v\<lparr>v2_vec := add_words (v2_vec v) (v2_vec that) 0\<rparr>))
     else None)"

definition v2_minus_eq :: "vvp_vector2_t \<Rightarrow> vvp_vector2_t \<Rightarrow> vvp_vector2_t option" where
  "v2_minus_eq v that =
    (if v2_wid v = v2_wid that then
       Some (if v2_wid v = 0 then v
             else clear_unused_bits (v\<lparr>v2_vec := add_words (v2_vec v) (map (\<lambda>w. NOT w) (v2_vec that)) 1\<rparr>))
     else None)"

definition v2_neg :: "vvp_vector2_t \<Rightarrow> vvp_vector2_t option" where
  "v2_neg that =
    (if v2_wid that = 0 then Some that
     else v2_plus_eq (that\<lparr>v2_vec := map (\<lambda>w. NOT w) (v2_vec that)\<rparr>) (v2_of_ulong 1 (v2_wid that)))"

text \<open>
  \<^verbatim>\<open>trim\<close> and \<^verbatim>\<open>trim_neg\<close> lower the width and leave the array in place; the words beyond the new
  width are no longer part of the value and are dropped here.
\<close>

fun trim_width :: "vvp_vector2_t \<Rightarrow> nat \<Rightarrow> nat" where
  "trim_width v 0 = 0"
| "trim_width v (Suc w) = (if v2_value v w = 0 \<and> Suc w > 1 then trim_width v w else Suc w)"

definition v2_set_width :: "vvp_vector2_t \<Rightarrow> nat \<Rightarrow> vvp_vector2_t" where
  "v2_set_width v w = clear_unused_bits \<lparr>v2_wid = w, v2_vec = take (words_for w) (v2_vec v)\<rparr>"

definition v2_trim :: "vvp_vector2_t \<Rightarrow> vvp_vector2_t" where
  "v2_trim v = v2_set_width v (trim_width v (v2_wid v))"

fun trim_neg_width :: "vvp_vector2_t \<Rightarrow> nat \<Rightarrow> nat" where
  "trim_neg_width v 0 = 0"
| "trim_neg_width v (Suc w) = (if v2_value v (w - 1) = 1 \<and> Suc w > 32 then trim_neg_width v w else Suc w)"

definition v2_trim_neg :: "vvp_vector2_t \<Rightarrow> vvp_vector2_t" where
  "v2_trim_neg v = v2_set_width v
    (if v2_wid v > 32 \<and> v2_value v (v2_wid v - 1) = 1 then trim_neg_width v (v2_wid v) else v2_wid v)"

section \<open>The invariant and the number\<close>

definition v2_inv :: "vvp_vector2_t \<Rightarrow> bool" where
  "v2_inv v \<longleftrightarrow> length (v2_vec v) = words_for (v2_wid v) \<and> pval (v2_vec v) < 2 ^ v2_wid v"

definition v2_val :: "vvp_vector2_t \<Rightarrow> int" where
  "v2_val v = pval (v2_vec v)"

lemma v2_val_nonneg [simp]: "0 \<le> v2_val v"
  by (simp add: v2_val_def)

lemma v2_val_lt: "v2_inv v \<Longrightarrow> v2_val v < 2 ^ v2_wid v"
  by (simp add: v2_inv_def v2_val_def)

lemma v2_val_0: "v2_inv v \<Longrightarrow> v2_wid v = 0 \<Longrightarrow> v2_val v = 0"
  by (simp add: v2_inv_def v2_val_def)

lemma v2_take_bit: "v2_inv v \<Longrightarrow> take_bit (v2_wid v) (v2_val v) = v2_val v"
  by (simp add: take_bit_int_eq_self v2_val_lt)

lemma v2_bit_lt: "v2_inv v \<Longrightarrow> bit (v2_val v) i \<Longrightarrow> i < v2_wid v"
  using v2_take_bit [of v] by (metis bit_take_bit_iff)

lemma topmask_lomask: "0 < n \<Longrightarrow> n \<le> 64 \<Longrightarrow> topmask n = lomask n"
  by (auto simp: ulong_eq_iff)

lemma clear_unused_mask_tail:
  "clear_unused_bits v = v\<lparr>v2_vec := mask_tail (v2_wid v) (v2_vec v)\<rparr>"
  by (cases "v2_wid v mod 64 = 0") (auto simp: clear_unused_bits_def mask_tail_def Let_def topmask_lomask)

lemma pval_mask_tail: "length ws = words_for n \<Longrightarrow> pval (mask_tail n ws) = take_bit n (pval ws)"
proof (rule bit_eqI)
  fix i assume len: "length ws = words_for n"
  show "bit (pval (mask_tail n ws)) i = bit (take_bit n (pval ws)) i"
    unfolding bit_pval_mask_tail [OF len] using words_for_mult_ge [of n] len
    by (auto simp: bit_take_bit_iff bit_pval)
qed

lemma clear_unused_bits:
  assumes "length (v2_vec v) = words_for (v2_wid v)"
  shows "v2_inv (clear_unused_bits v)" and "v2_wid (clear_unused_bits v) = v2_wid v"
    and "v2_val (clear_unused_bits v) = take_bit (v2_wid v) (pval (v2_vec v))"
  using assms by (simp_all add: clear_unused_mask_tail v2_inv_def v2_val_def pval_mask_tail
      mask_tail_def [THEN arg_cong [where f = length]] Let_def)

lemma v2_value_bit: "v2_inv v \<Longrightarrow> v2_value v i = of_bool (bit (v2_val v) i)"
proof (cases "i < v2_wid v")
  case True
  assume inv: "v2_inv v"
  have "(w AND push_bit m 1 \<noteq> 0) = bit w m" if "m < 64" for w :: ulong and m
    using that by (auto simp: ulong_eq_0_iff bit_and_iff bit_exp_iff)
  moreover have "i < 64 * words_for (v2_wid v)" using True words_for_mult_ge [of "v2_wid v"] by simp
  ultimately show ?thesis
    using True inv by (simp add: v2_value_def Let_def v2_val_def bit_pval pbit_def v2_inv_def del: push_bit_of_1)
next
  case False
  assume "v2_inv v"
  with False show ?thesis using v2_bit_lt [of v i] by (auto simp: v2_value_def)
qed

lemma v2_eqI: "v2_inv u \<Longrightarrow> v2_inv v \<Longrightarrow> v2_wid u = v2_wid v \<Longrightarrow> v2_val u = v2_val v \<Longrightarrow> u = v"
  using pval_inj [of "v2_vec u" "v2_vec v"] by (simp add: v2_inv_def v2_val_def)

lemma v2_invI:
  assumes "length (v2_vec v) = words_for (v2_wid v)" and "\<And>i. bit (v2_val v) i \<Longrightarrow> i < v2_wid v"
  shows "v2_inv v"
proof -
  have "take_bit (v2_wid v) (v2_val v) = v2_val v"
    by (rule bit_eqI) (use assms(2) in \<open>auto simp: bit_take_bit_iff\<close>)
  then show ?thesis using assms(1) by (metis v2_inv_def v2_val_def take_bit_int_less_exp)
qed

lemma v2_index: "v2_inv v \<Longrightarrow> i < v2_wid v \<Longrightarrow> i < 64 * length (v2_vec v) \<and> i div 64 < length (v2_vec v)"
  using words_for_mult_ge [of "v2_wid v"] by (auto simp: v2_inv_def less_mult_imp_div_less mult.commute)

lemma v2_set_bit_in:
  assumes inv: "v2_inv v" and i: "i < v2_wid v"
  shows "\<exists>v'. v2_set_bit v i b = Some v' \<and> v2_inv v' \<and> v2_wid v' = v2_wid v
    \<and> (\<forall>j. bit (v2_val v') j = (if j = i then b \<noteq> 0 else bit (v2_val v) j))"
proof -
  let ?k = "i div 64" and ?m = "i mod 64"
  let ?w = "v2_vec v ! ?k"
  define w' where "w' = (if b \<noteq> 0 then ?w OR push_bit ?m 1 else ?w AND NOT (push_bit ?m 1))"
  define v' where "v' = v\<lparr>v2_vec := (v2_vec v)[?k := w']\<rparr>"
  have k: "?k < length (v2_vec v)" "i < 64 * length (v2_vec v)" using v2_index [OF inv i] by simp_all
  have w': "bit w' j = (if j = ?m then b \<noteq> 0 else bit ?w j)" if "j < 64" for j
    using that by (auto simp: w'_def bit_or_iff bit_and_iff bit_not_iff bit_exp_iff)
  have "pbit (v2_vec v') j = (if j = i then b \<noteq> 0 else pbit (v2_vec v) j)" for j
  proof (cases "j div 64 = ?k")
    case True
    then have "j = i \<longleftrightarrow> j mod 64 = ?m" by (metis div_mult_mod_eq)
    with True k(1) w' [of "j mod 64"] show ?thesis by (simp add: v'_def pbit_update) (simp add: pbit_def)
  next
    case False
    then show ?thesis using k(1) by (auto simp: v'_def pbit_update)
  qed
  then have bits: "bit (v2_val v') j = (if j = i then b \<noteq> 0 else bit (v2_val v) j)" for j
    using k(2) by (auto simp: v2_val_def bit_pval v'_def)
  moreover have "v2_inv v'"
    using inv bits v2_bit_lt [OF inv] i by (intro v2_invI) (auto simp: v'_def v2_inv_def split: if_splits)
  moreover have "v2_set_bit v i b = Some v'" using i by (simp add: v2_set_bit_def Let_def v'_def w'_def)
  ultimately show ?thesis by (auto simp: v'_def)
qed

interpretation v2: bit_store v2_inv v2_wid "\<lambda>v i. v2_value v i \<noteq> 0" "\<lambda>v i b. v2_set_bit v i (of_bool b)"
proof
  fix v i and b :: bool
  assume "v2_inv v" and "i < v2_wid v"
  then obtain v' where "v2_set_bit v i (of_bool b) = Some v'" "v2_inv v'" "v2_wid v' = v2_wid v"
    "\<forall>j. bit (v2_val v') j = (if j = i then of_bool b \<noteq> (0 :: int) else bit (v2_val v) j)"
    using v2_set_bit_in by blast
  then show "\<exists>v'. v2_set_bit v i (of_bool b) = Some v' \<and> v2_inv v' \<and> v2_wid v' = v2_wid v
      \<and> (\<forall>j < v2_wid v. (v2_value v' j \<noteq> 0) = (if j = i then b else v2_value v j \<noteq> 0))"
    using \<open>v2_inv v\<close> by (auto simp: v2_value_bit)
qed (simp add: v2_set_bit_def)

section \<open>Construction\<close>

lemma v2_of_ulong:
  "v2_inv (v2_of_ulong w n)" "v2_wid (v2_of_ulong w n) = n" "v2_val (v2_of_ulong w n) = take_bit n (uint w)"
proof -
  have "v2_inv (v2_of_ulong w n) \<and> v2_wid (v2_of_ulong w n) = n \<and> v2_val (v2_of_ulong w n) = take_bit n (uint w)"
  proof (cases "n = 0")
    case False
    then have "words_for n \<noteq> 0" using words_for_step [of n] by simp
    with clear_unused_bits [of "\<lparr>v2_wid = n, v2_vec = w # replicate (words_for n - 1) 0\<rparr>"] show ?thesis
      by (simp add: v2_of_ulong_def Let_def)
  qed (simp add: v2_of_ulong_def v2_inv_def v2_val_def)
  then show "v2_inv (v2_of_ulong w n)" "v2_wid (v2_of_ulong w n) = n"
    "v2_val (v2_of_ulong w n) = take_bit n (uint w)" by blast+
qed

lemma v2_fill:
  "v2_inv (v2_fill f n)" "v2_wid (v2_fill f n) = n" "v2_val (v2_fill f n) = (if f then 2 ^ n - 1 else 0)"
proof -
  note c = clear_unused_bits [of "\<lparr>v2_wid = n, v2_vec = replicate (words_for n) (if f then - 1 else 0)\<rparr>"]
  show "v2_inv (v2_fill f n)" "v2_wid (v2_fill f n) = n" using c by (simp_all add: v2_fill_def)
  have "take_bit n (pval (replicate (words_for n) (- 1))) = mask n"
  proof (rule bit_eqI)
    fix i
    show "bit (take_bit n (pval (replicate (words_for n) (- 1)))) i = bit (mask n :: int) i"
      using words_for_mult_ge [of n] by (auto simp: bit_take_bit_iff bit_pval pbit_replicate bit_mask_iff)
  qed
  then show "v2_val (v2_fill f n) = (if f then 2 ^ n - 1 else 0)"
    using c by (simp add: v2_fill_def mask_eq_exp_minus_1)
qed

lemma v2_resized:
  assumes "v2_inv v"
  shows "v2_inv (v2_resized v n)" "v2_wid (v2_resized v n) = n" "v2_val (v2_resized v n) = take_bit n (v2_val v)"
proof -
  let ?vec = "map (\<lambda>idx. if idx < words_for (v2_wid v) then v2_vec v ! idx else 0) [0..<words_for n]"
  have "take_bit n (pval ?vec) = take_bit n (v2_val v)"
  proof (rule bit_eqI)
    fix i
    have "bit (pval ?vec) i = bit (v2_val v) i" if i: "i < n"
    proof -
      have "i < 64 * words_for n" using i words_for_mult_ge [of n] by simp
      moreover have "i div 64 < words_for (v2_wid v) \<longleftrightarrow> i < 64 * words_for (v2_wid v)"
        using less_mult_64 [of i "words_for (v2_wid v)"] by (auto simp: less_mult_imp_div_less mult.commute)
      ultimately show ?thesis
        using assms div_less_words_for [OF i]
        by (auto simp: bit_pval v2_val_def v2_inv_def pbit_def)
    qed
    then show "bit (take_bit n (pval ?vec)) i = bit (take_bit n (v2_val v)) i"
      by (auto simp: bit_take_bit_iff)
  qed
  with clear_unused_bits [of "\<lparr>v2_wid = n, v2_vec = ?vec\<rparr>"]
  show "v2_inv (v2_resized v n)" "v2_wid (v2_resized v n) = n" "v2_val (v2_resized v n) = take_bit n (v2_val v)"
    by (simp_all add: v2_resized_def Let_def v2_inv_def v2_val_def)
qed

lemma v2_of_vector4:
  assumes inv: "v4_inv u"
  obtains r where "v2_of_vector4 u nan = Some r" and "v2_inv r"
    and "if nan \<and> v4_has_xz u then r = v2_nil
      else v2_wid r = v4_size u \<and> v2_val r = bits_val (v4_list u)"
proof -
  have nil: "v2_inv v2_nil" "v2_val v2_nil = 0" "v2_wid v2_nil = 0"
    by (simp_all add: v2_nil_def v2_inv_def v2_val_def)
  consider (nan) "nan \<and> v4_has_xz u" | (zero) "\<not> (nan \<and> v4_has_xz u)" "v4_size u = 0"
    | (num) "\<not> (nan \<and> v4_has_xz u)" "0 < v4_size u" by blast
  then show thesis
  proof cases
    case nan
    then show thesis using that [of v2_nil] nil by (simp add: v2_of_vector4_def)
  next
    case zero
    then show thesis using that [of v2_nil] nil by (simp add: v2_of_vector4_def v4_list_def bits_val_def)
  next
    case num
    let ?n = "v4_size u"
    obtain vec where vec: "v4_subarray u 0 ?n True = Some vec" "length vec = words_for ?n"
      "\<And>i. i < 64 * words_for ?n \<Longrightarrow> pbit vec i \<longleftrightarrow> i < ?n \<and> v4_value u i = BIT4_1"
      using v4_subarray_some [OF inv, of 0 ?n True] num(2) by auto
    note c = clear_unused_bits [of "\<lparr>v2_wid = ?n, v2_vec = vec\<rparr>"]
    have "take_bit ?n (pval vec) = bits_val (v4_list u)"
      using vec(2,3) words_for_mult_ge [of ?n]
      by (intro bit_eqI) (auto simp: bit_take_bit_iff bit_pval bit_bits_val)
    moreover have "words_for ?n \<noteq> 0" using num(2) words_for_step [of ?n] by simp
    ultimately show thesis
      using that [of "clear_unused_bits \<lparr>v2_wid = ?n, v2_vec = vec\<rparr>"] c vec num
      by (auto simp: v2_of_vector4_def)
  qed
qed

section \<open>The shifts\<close>

lemma v2_shl_words_nth:
  assumes w: "w \<le> length vec"
  shows "length (v2_shl_words w vec) = length vec"
    and "k < length vec \<Longrightarrow> v2_shl_words w vec ! k = (if k < w then 0 else vec ! (k - w))"
proof -
  let ?f = "\<lambda>xs idx. let sel = length vec - idx - 1 in xs[sel := xs ! (sel - w)]"
  have step: "length (foldl ?f vec [0..<m]) = length vec \<and> (\<forall>k < length vec.
      foldl ?f vec [0..<m] ! k = (if length vec - m \<le> k then vec ! (k - w) else vec ! k))"
    if "m \<le> length vec - w" for m
    using that
  proof (induction m)
    case (Suc m)
    let ?xs = "foldl ?f vec [0..<m]" and ?sel = "length vec - m - 1"
    have IH: "length ?xs = length vec"
      "\<And>k. k < length vec \<Longrightarrow> ?xs ! k = (if length vec - m \<le> k then vec ! (k - w) else vec ! k)"
      using Suc by simp_all
    have "?xs ! (?sel - w) = vec ! (?sel - w)" using IH(2) [of "?sel - w"] Suc.prems by auto
    moreover have "length vec - Suc m \<le> k \<longleftrightarrow> k = ?sel \<or> length vec - m \<le> k" if "k < length vec" for k
      using Suc.prems that by linarith
    ultimately show ?case using IH Suc.prems by (auto simp: nth_list_update Let_def)
  qed simp
  let ?ys = "foldl ?f vec [0..<length vec - w]"
  have ys: "length ?ys = length vec" "\<And>k. k < length vec \<Longrightarrow> ?ys ! k = (if w \<le> k then vec ! (k - w) else vec ! k)"
    using step [of "length vec - w"] w by simp_all
  have eq: "v2_shl_words w vec = foldl (\<lambda>ws dst. ws[dst := 0]) ?ys [0..<w]"
    unfolding v2_shl_words_def Let_def ..
  show "length (v2_shl_words w vec) = length vec" using ys(1) by (simp add: eq zero_words(1))
  show "v2_shl_words w vec ! k = (if k < w then 0 else vec ! (k - w))" if "k < length vec"
    using zero_words(2) [of k ?ys w] ys that by (simp add: eq)
qed

lemma v2_shl_fine_nth:
  "length (v2_shl_fine s pad ws) = length ws"
  "k < length ws \<Longrightarrow> v2_shl_fine s pad ws ! k =
    push_bit s (ws ! k) OR (if k = 0 then pad else drop_bit (64 - s) (ws ! (k - 1)))"
proof (induction ws arbitrary: pad k)
  case (Cons w ws)
  { case 1 show ?case using Cons.IH(1) by simp
  next
    case 2 then show ?case
    proof (cases k)
      case (Suc j)
      then show ?thesis using 2 Cons.IH(2) [of j] by (cases j) auto
    qed simp }
qed simp_all

text \<open>Word shift and fine shift together move every bit up by the shift.\<close>

lemma v2_shl_vec:
  assumes w: "w < length vec" and o: "s < 64" and i: "i < 64 * length vec"
    and r: "r = (let vs = (if w > 0 then v2_shl_words w vec else vec) in if s \<noteq> 0 then v2_shl_fine s 0 vs else vs)"
  shows "length r = length vec" and "pbit r i \<longleftrightarrow> 64 * w + s \<le> i \<and> pbit vec (i - (64 * w + s))"
proof -
  define vs where "vs = (if w > 0 then v2_shl_words w vec else vec)"
  have vs: "length vs = length vec" "\<And>k. k < length vec \<Longrightarrow> vs ! k = (if k < w then 0 else vec ! (k - w))"
    using v2_shl_words_nth [of w vec] w by (simp_all add: vs_def)
  have r': "r = (if s \<noteq> 0 then v2_shl_fine s 0 vs else vs)" by (simp add: r vs_def)
  show "length r = length vec" using vs(1) by (simp add: r' v2_shl_fine_nth(1))
  let ?k = "i div 64" and ?j = "i mod 64"
  have k: "?k < length vec" using i by (simp add: less_mult_imp_div_less mult.commute)
  have pos: "64 * ?k + ?j = i" by simp
  have "r ! ?k = (if w \<le> ?k then shl_word w s vec ?k else 0)"
    using vs(2) [OF k] vs(2) [of "?k - 1"] vs(1) k v2_shl_fine_nth(2) [of ?k vs s 0]
    by (auto simp: r' shl_word_def Let_def)
  then have "pbit r i \<longleftrightarrow> w \<le> ?k \<and> bit (shl_word w s vec ?k) ?j" by (simp add: pbit_def)
  also have "\<dots> \<longleftrightarrow> 64 * w + s \<le> i \<and> pbit vec (i - (64 * w + s))"
  proof (cases "w \<le> ?k")
    case True
    then show ?thesis using bit_shl_word [OF o True, of ?j vec] pos by simp
  next
    case False
    then have "64 * ?k + 64 \<le> 64 * w" by simp
    then have "i < 64 * w" using pos by (metis add_less_cancel_left less_le_trans mod_less_divisor zero_less_numeral)
    with False show ?thesis by simp
  qed
  finally show "pbit r i \<longleftrightarrow> 64 * w + s \<le> i \<and> pbit vec (i - (64 * w + s))" .
qed

lemma v2_shl:
  assumes inv: "v2_inv v"
  shows "v2_inv (v2_shl v s)" "v2_wid (v2_shl v s) = v2_wid v"
    "v2_val (v2_shl v s) = take_bit (v2_wid v) (v2_val v * 2 ^ s)"
proof -
  let ?n = "v2_wid v"
  have z: "pval (map (\<lambda>_. 0) ws) = 0" for ws :: plane by (induction ws) simp_all
  have len: "length (v2_vec v) = words_for ?n" using inv by (simp add: v2_inv_def)
  have "v2_inv (v2_shl v s) \<and> v2_wid (v2_shl v s) = ?n \<and> v2_val (v2_shl v s) = take_bit ?n (v2_val v * 2 ^ s)"
  proof -
    consider (none) "?n = 0" | (all) "0 < ?n" "?n \<le> s" | (some) "0 < ?n" "s < ?n" by linarith
    then show ?thesis
    proof cases
      case none
      then show ?thesis using inv by (simp add: v2_shl_def v2_val_0)
    next
      case all
      have "take_bit ?n (v2_val v * 2 ^ s) = 0"
        using all by (simp add: take_bit_eq_mod le_imp_power_dvd)
      then show ?thesis using all inv by (simp add: v2_shl_def v2_inv_def v2_val_def z)
    next
      case some
      let ?w = "s div 64" and ?o = "s mod 64"
      define vec where "vec = (let vs = (if ?w > 0 then v2_shl_words ?w (v2_vec v) else v2_vec v)
          in if ?o \<noteq> 0 then v2_shl_fine ?o 0 vs else vs)"
      have w: "?w < length (v2_vec v)" using div_less_words_for [OF some(2)] len by simp
      have o: "?o < 64" by simp
      have vlen: "length vec = words_for ?n"
        using v2_shl_vec(1) [OF w o _ vec_def, of 0] len w by simp
      have pos: "64 * ?w + ?o = s" by simp
      have "bit (pval vec) i = bit (v2_val v * 2 ^ s) i" if "i < ?n" for i
      proof -
        have i: "i < 64 * length (v2_vec v)" using that len words_for_mult_ge [of ?n] by simp
        have "bit (v2_val v * 2 ^ s) i \<longleftrightarrow> s \<le> i \<and> bit (v2_val v) (i - s)"
          by (simp add: push_bit_eq_mult [symmetric] bit_push_bit_iff)
        then show ?thesis
          using v2_shl_vec(2) [OF w o i vec_def] i vlen len unfolding pos
          by (auto simp: bit_pval v2_val_def)
      qed
      then have val: "take_bit ?n (pval vec) = take_bit ?n (v2_val v * 2 ^ s)"
        by (intro bit_eqI) (auto simp: bit_take_bit_iff)
      have "v2_shl v s = clear_unused_bits (v\<lparr>v2_vec := vec\<rparr>)"
        using some by (simp add: v2_shl_def Let_def vec_def)
      then show ?thesis using clear_unused_bits [of "v\<lparr>v2_vec := vec\<rparr>"] vlen val by simp
    qed
  qed
  then show "v2_inv (v2_shl v s)" "v2_wid (v2_shl v s) = ?n"
    "v2_val (v2_shl v s) = take_bit ?n (v2_val v * 2 ^ s)" by blast+
qed

lemma v2_shr_words_nth:
  assumes w: "w \<le> length vec"
  shows "length (v2_shr_words w vec) = length vec"
    and "k < length vec \<Longrightarrow> v2_shr_words w vec ! k = (if k + w < length vec then vec ! (k + w) else 0)"
proof -
  let ?f = "\<lambda>xs idx. xs[idx := xs ! (idx + w)]"
  have step: "length (foldl ?f vec [0..<m]) = length vec \<and> (\<forall>k < length vec.
      foldl ?f vec [0..<m] ! k = (if k < m then vec ! (k + w) else vec ! k))"
    if "m \<le> length vec - w" for m
    using that by (induction m) (auto simp: nth_list_update less_Suc_eq)
  let ?ys = "foldl ?f vec [0..<length vec - w]"
  have ys: "length ?ys = length vec"
    "\<And>k. k < length vec \<Longrightarrow> ?ys ! k = (if k < length vec - w then vec ! (k + w) else vec ! k)"
    using step [of "length vec - w"] by simp_all
  have zero: "length (foldl (\<lambda>ws dst. ws[dst := 0]) xs [a..<a + m]) = length xs \<and> (\<forall>k < length xs.
      foldl (\<lambda>ws dst. ws[dst := 0]) xs [a..<a + m] ! k = (if a \<le> k \<and> k < a + m then 0 else xs ! k))"
    for a m and xs :: plane
    by (induction m) (auto simp: nth_list_update less_Suc_eq)
  have eq: "v2_shr_words w vec = foldl (\<lambda>ws dst. ws[dst := 0]) ?ys [length vec - w..<length vec - w + w]"
    unfolding v2_shr_words_def Let_def using w by simp
  show "length (v2_shr_words w vec) = length vec" using ys(1) zero [of ?ys] by (simp only: eq)
  show "v2_shr_words w vec ! k = (if k + w < length vec then vec ! (k + w) else 0)" if "k < length vec"
    using zero [of ?ys "length vec - w" w] ys that w unfolding eq by auto
qed

lemma v2_shr_fine_nth:
  "length (snd (v2_shr_fine s ws)) = length ws
   \<and> fst (v2_shr_fine s ws) = (if ws = [] then 0 else push_bit (64 - s) (ws ! 0))
   \<and> (\<forall>k < length ws. snd (v2_shr_fine s ws) ! k =
       drop_bit s (ws ! k) OR (if Suc k < length ws then push_bit (64 - s) (ws ! Suc k) else 0))"
proof (induction ws)
  case (Cons w ws)
  have eq: "v2_shr_fine s (w # ws) = (push_bit (64 - s) w, (fst (v2_shr_fine s ws) OR drop_bit s w) # snd (v2_shr_fine s ws))"
    by (simp add: v2_shr_fine_def split: prod.split)
  show ?case unfolding eq using Cons
    by (auto simp: nth_Cons or.commute split: nat.split)
qed (simp add: v2_shr_fine_def)

lemma v2_shr_vec:
  assumes w: "w < length vec" and o: "s < 64" and i: "i < 64 * length vec"
    and r: "r = (let vs = (if w > 0 then v2_shr_words w vec else vec) in if s > 0 then snd (v2_shr_fine s vs) else vs)"
  shows "length r = length vec" and "pbit r i \<longleftrightarrow> i + (64 * w + s) < 64 * length vec \<and> pbit vec (i + (64 * w + s))"
proof -
  define vs where "vs = (if w > 0 then v2_shr_words w vec else vec)"
  have vs: "length vs = length vec" "\<And>k. k < length vec \<Longrightarrow> vs ! k = (if k + w < length vec then vec ! (k + w) else 0)"
    using v2_shr_words_nth [of w vec] w by (simp_all add: vs_def)
  have r': "r = (if s > 0 then snd (v2_shr_fine s vs) else vs)" by (simp add: r vs_def)
  show "length r = length vec" using vs(1) v2_shr_fine_nth [of s vs] by (simp add: r')
  define xs where "xs = vec @ [0]"
  have xs: "xs ! k = vec ! k" if "k < length vec" for k using that by (simp add: xs_def nth_append)
  have xl: "xs ! length vec = 0" by (simp add: xs_def)
  let ?k = "i div 64" and ?j = "i mod 64"
  have k: "?k < length vec" using i by (simp add: less_mult_imp_div_less mult.commute)
  have pos: "64 * ?k + ?j = i" by simp
  show "pbit r i \<longleftrightarrow> i + (64 * w + s) < 64 * length vec \<and> pbit vec (i + (64 * w + s))"
  proof (cases "?k + w < length vec")
    case True
    have "r ! ?k = drop_bit s (xs ! (?k + w)) OR (if s > 0 then push_bit (64 - s) (xs ! (?k + w + 1)) else 0)"
    proof (cases "s > 0")
      case spos: True
      have nxt: "(if Suc ?k < length vs then push_bit (64 - s) (vs ! Suc ?k) else 0)
          = push_bit (64 - s) (xs ! (?k + w + 1))"
      proof (cases "Suc ?k + w < length vec")
        case True
        then show ?thesis using vs(1) vs(2) [of "Suc ?k"] xs [of "Suc ?k + w"] by simp
      next
        case False
        then have "?k + w + 1 = length vec" using True by simp
        then show ?thesis using xl vs(1) vs(2) [of "Suc ?k"] by simp
      qed
      have "vs ! ?k = xs ! (?k + w)" using vs(2) [OF k] xs [OF True] True by simp
      then show ?thesis using v2_shr_fine_nth [of s vs] k vs(1) spos nxt by (simp add: r')
    qed (use vs(2) [OF k] xs [OF True] True in \<open>simp add: r'\<close>)
    then have "pbit r i \<longleftrightarrow> pbit xs (64 * (?k + w) + ?j + s)"
      using bit_shr_word [of s ?j xs "?k + w"] o pbit_shift_word [of ?j xs "?k + w"]
      by (cases "s > 0") (simp_all add: pbit_def [of r])
    moreover have "64 * (?k + w) + ?j + s = i + (64 * w + s)" using pos by simp
    ultimately have "pbit r i \<longleftrightarrow> pbit xs (i + (64 * w + s))" by (simp add: add.assoc)
    moreover have "pbit xs m \<longleftrightarrow> m < 64 * length vec \<and> pbit vec m" if "m < 64 * length vec + 64" for m
    proof (cases "m < 64 * length vec")
      case True
      then have "m div 64 < length vec" by (simp add: less_mult_imp_div_less mult.commute)
      with True xs show ?thesis by (simp add: pbit_def)
    next
      case False
      with that have "m div 64 = length vec" by (intro div_nat_eqI) simp_all
      with False xl show ?thesis by (simp add: pbit_def)
    qed
    moreover have "i + (64 * w + s) < 64 * length vec + 64"
    proof -
      have "a + (64 * w + s) < 64 * m + 64" if "64 * k + j = a" "j < 64" "k + w < m" for a k j m :: nat
        using that o by linarith
      from this [OF pos _ True] show ?thesis by simp
    qed
    ultimately show ?thesis by simp
  next
    case False
    then have z: "vs ! ?k = 0" "Suc ?k < length vec \<Longrightarrow> vs ! Suc ?k = 0"
      using vs(2) [OF k] vs(2) [of "Suc ?k"] by simp_all
    then have "r ! ?k = 0" using v2_shr_fine_nth [of s vs] k vs(1) by (simp add: r')
    moreover have "\<not> a + (64 * w + s) < 64 * m" if "64 * k + j = a" "\<not> k + w < m" for a k j m :: nat
      using that by linarith
    from this [OF pos False] have "\<not> i + (64 * w + s) < 64 * length vec" .
    ultimately show ?thesis by (simp add: pbit_def [of r])
  qed
qed

lemma v2_shr:
  assumes inv: "v2_inv v"
  shows "v2_inv (v2_shr v s)" "v2_wid (v2_shr v s) = v2_wid v" "v2_val (v2_shr v s) = v2_val v div 2 ^ s"
proof -
  let ?n = "v2_wid v"
  have z: "pval (map (\<lambda>_. 0) ws) = 0" for ws :: plane by (induction ws) simp_all
  have len: "length (v2_vec v) = words_for ?n" using inv by (simp add: v2_inv_def)
  have "v2_inv (v2_shr v s) \<and> v2_wid (v2_shr v s) = ?n \<and> v2_val (v2_shr v s) = v2_val v div 2 ^ s"
  proof -
    consider (none) "?n = 0" | (all) "0 < ?n" "?n \<le> s" | (some) "0 < ?n" "s < ?n" by linarith
    then show ?thesis
    proof cases
      case none
      then show ?thesis using inv by (simp add: v2_shr_def v2_val_0)
    next
      case all
      have "v2_val v < 2 ^ s" using v2_val_lt [OF inv] all(2)
        by (meson less_le_trans one_le_numeral power_increasing)
      then have "v2_val v div 2 ^ s = 0" by simp
      then show ?thesis using all inv by (simp add: v2_shr_def v2_inv_def v2_val_def z)
    next
      case some
      let ?w = "s div 64" and ?o = "s mod 64"
      define vec where "vec = (let vs = (if ?w > 0 then v2_shr_words ?w (v2_vec v) else v2_vec v)
          in if ?o > 0 then snd (v2_shr_fine ?o vs) else vs)"
      have w: "?w < length (v2_vec v)" using div_less_words_for [OF some(2)] len by simp
      have o: "?o < 64" by simp
      have vlen: "length vec = words_for ?n"
        using v2_shr_vec(1) [OF w o _ vec_def, of 0] len w by simp
      have pos: "64 * ?w + ?o = s" by simp
      have bits: "bit (pval vec) i \<longleftrightarrow> bit (v2_val v) (i + s)" for i
        using v2_shr_vec(2) [OF w o _ vec_def, of i] vlen len unfolding pos
        by (auto simp: bit_pval v2_val_def)
      then have "pval vec = v2_val v div 2 ^ s"
        by (intro bit_eqI) (simp add: drop_bit_eq_div [symmetric] bit_drop_bit_eq add.commute)
      moreover have "take_bit ?n (pval vec) = pval vec"
        using bits v2_bit_lt [OF inv] by (intro bit_eqI) (auto simp: bit_take_bit_iff dest: add_lessD1)
      moreover have "v2_shr v s = clear_unused_bits (v\<lparr>v2_vec := vec\<rparr>)"
        using some by (simp add: v2_shr_def Let_def vec_def)
      ultimately show ?thesis
        using clear_unused_bits [of "v\<lparr>v2_vec := vec\<rparr>"] vlen by simp
    qed
  qed
  then show "v2_inv (v2_shr v s)" "v2_wid (v2_shr v s) = ?n" "v2_val (v2_shr v s) = v2_val v div 2 ^ s" by blast+
qed

section \<open>Addition and subtraction\<close>

lemma add_words:
  assumes "length as = length bs" and "uint c \<le> 1"
  shows "length (add_words as bs c) = length as
    \<and> take_bit (64 * length as) (pval (add_words as bs c)) = take_bit (64 * length as) (pval as + pval bs + uint c)"
proof -
  have "length (add_words as bs c) = length as
      \<and> (\<exists>d. pval (add_words as bs c) + 2 ^ (64 * length as) * d = pval as + pval bs + uint c)"
    using assms
  proof (induction as bs c rule: add_words.induct)
    case (1 a as b bs c)
    obtain r c' where rc: "add_carry a b c = (r, c')" by fastforce
    note ex = add_carry_exact [OF "1.prems"(2) rc]
    have len: "length as = length bs" using "1.prems"(1) by simp
    from "1.IH" [OF rc [symmetric] len ex(2)] obtain d where d: "length (add_words as bs c') = length as"
      "pval (add_words as bs c') + 2 ^ (64 * length as) * d = pval as + pval bs + uint c'" by blast
    have "pval (add_words as bs c') = pval as + pval bs + uint c' - 2 ^ (64 * length as) * d" using d(2) by simp
    then have "pval (add_words (a # as) (b # bs) c) + 2 ^ (64 * length (a # as)) * d
        = uint r + 2 ^ 64 * (pval as + pval bs + uint c')"
      using rc by (simp add: power_add algebra_simps)
    also have "\<dots> = pval (a # as) + pval (b # bs) + uint c" using ex(1) by (simp add: algebra_simps)
    finally show ?case using d(1) rc by auto
  qed auto
  then obtain d where "length (add_words as bs c) = length as"
    "pval (add_words as bs c) + 2 ^ (64 * length as) * d = pval as + pval bs + uint c" by blast
  then show ?thesis by (metis take_bit_drop_multiple order_refl)
qed

lemma take_bit_shorter: "n \<le> m \<Longrightarrow> take_bit m x = take_bit m y \<Longrightarrow> take_bit n x = take_bit n (y :: int)"
  by (metis min.absorb1 take_bit_take_bit)

lemma add_words_clear:
  assumes len: "length (v2_vec v) = words_for (v2_wid v)" "length bs = words_for (v2_wid v)" and c: "uint c \<le> 1"
  shows "v2_inv (clear_unused_bits (v\<lparr>v2_vec := add_words (v2_vec v) bs c\<rparr>))"
    and "v2_wid (clear_unused_bits (v\<lparr>v2_vec := add_words (v2_vec v) bs c\<rparr>)) = v2_wid v"
    and "v2_val (clear_unused_bits (v\<lparr>v2_vec := add_words (v2_vec v) bs c\<rparr>))
      = take_bit (v2_wid v) (pval (v2_vec v) + pval bs + uint c)"
proof -
  have a: "length (add_words (v2_vec v) bs c) = words_for (v2_wid v)"
    "take_bit (64 * words_for (v2_wid v)) (pval (add_words (v2_vec v) bs c))
      = take_bit (64 * words_for (v2_wid v)) (pval (v2_vec v) + pval bs + uint c)"
    using add_words [of "v2_vec v" bs c] len c by simp_all
  have "v2_wid v \<le> 64 * words_for (v2_wid v)" using words_for_mult_ge [of "v2_wid v"] by simp
  from take_bit_shorter [OF this a(2)] clear_unused_bits [of "v\<lparr>v2_vec := add_words (v2_vec v) bs c\<rparr>"] a(1)
  show "v2_inv (clear_unused_bits (v\<lparr>v2_vec := add_words (v2_vec v) bs c\<rparr>))"
    and "v2_wid (clear_unused_bits (v\<lparr>v2_vec := add_words (v2_vec v) bs c\<rparr>)) = v2_wid v"
    and "v2_val (clear_unused_bits (v\<lparr>v2_vec := add_words (v2_vec v) bs c\<rparr>))
      = take_bit (v2_wid v) (pval (v2_vec v) + pval bs + uint c)" by simp_all
qed

lemma v2_plus_eq:
  assumes inv: "v2_inv a" "v2_inv b" and w: "v2_wid a = v2_wid b"
  obtains r where "v2_plus_eq a b = Some r" and "v2_inv r" and "v2_wid r = v2_wid a"
    and "v2_val r = take_bit (v2_wid a) (v2_val a + v2_val b)"
proof (cases "v2_wid a = 0")
  case True
  with inv w that [of a] v2_val_0 [of a] show thesis by (simp add: v2_plus_eq_def)
next
  case False
  have "length (v2_vec a) = words_for (v2_wid a)" "length (v2_vec b) = words_for (v2_wid a)"
    using inv w by (simp_all add: v2_inv_def)
  from add_words_clear [OF this, of 0] False w that show thesis by (simp add: v2_plus_eq_def v2_val_def)
qed

lemma take_bit_complement:
  assumes "length bs = words_for n"
  shows "take_bit n (x + pval (map (\<lambda>w. NOT w) bs) + 1) = take_bit n (x - pval bs)"
proof -
  have "x + pval (map (\<lambda>w. NOT w) bs) + 1 = (x - pval bs) + 2 ^ (64 * words_for n) * 1"
    by (simp add: pval_complement assms)
  moreover have "n \<le> 64 * words_for n" using words_for_mult_ge [of n] by simp
  ultimately show ?thesis using take_bit_drop_multiple by metis
qed

lemma v2_minus_eq:
  assumes inv: "v2_inv a" "v2_inv b" and w: "v2_wid a = v2_wid b"
  obtains r where "v2_minus_eq a b = Some r" and "v2_inv r" and "v2_wid r = v2_wid a"
    and "v2_val r = take_bit (v2_wid a) (v2_val a - v2_val b)"
proof (cases "v2_wid a = 0")
  case True
  with inv w that [of a] v2_val_0 [of a] show thesis by (simp add: v2_minus_eq_def)
next
  case False
  have len: "length (v2_vec a) = words_for (v2_wid a)" "length (v2_vec b) = words_for (v2_wid a)"
    using inv w by (simp_all add: v2_inv_def)
  then have "length (map (\<lambda>w. NOT w) (v2_vec b)) = words_for (v2_wid a)" by simp
  from add_words_clear [OF len(1) this, of 1] False w that take_bit_complement [OF len(2), of "pval (v2_vec a)"]
  show thesis by (simp add: v2_minus_eq_def v2_val_def)
qed

lemma v2_neg:
  assumes inv: "v2_inv a"
  obtains r where "v2_neg a = Some r" and "v2_inv r" and "v2_wid r = v2_wid a"
    and "v2_val r = take_bit (v2_wid a) (- v2_val a)"
proof (cases "v2_wid a = 0")
  case True
  with inv that [of a] v2_val_0 [of a] show thesis by (simp add: v2_neg_def)
next
  case False
  let ?n = "v2_wid a"
  let ?u = "a\<lparr>v2_vec := map (\<lambda>w. NOT w) (v2_vec a)\<rparr>" and ?one = "v2_of_ulong 1 ?n"
  have len: "length (v2_vec ?u) = words_for (v2_wid ?u)" "length (v2_vec ?one) = words_for (v2_wid ?u)"
    "length (v2_vec a) = words_for ?n"
    using inv v2_of_ulong(1,2) [of 1 ?n] by (simp_all add: v2_inv_def)
  have one: "pval (v2_vec ?one) = take_bit ?n 1"
    using v2_of_ulong(3) [of 1 ?n] by (simp add: v2_val_def)
  have "take_bit ?n (pval (map (\<lambda>w. NOT w) (v2_vec a)) + take_bit ?n 1) = take_bit ?n (- v2_val a)"
    using take_bit_complement [OF len(3), of 0]
    by (metis add_0 diff_0 take_bit_add take_bit_take_bit min.idem v2_val_def add.commute)
  with add_words_clear [OF len(1,2), of 0] one False that v2_of_ulong(2) [of 1 ?n]
  show thesis by (simp add: v2_neg_def v2_plus_eq_def)
qed

end
