(* ===== verification/Vector2_Arith.thy ===== *)
theory Vector2_Arith
  imports Vector2
begin

text \<open>
  The arithmetic of \<^verbatim>\<open>vvp_vector2_t\<close> (\<^verbatim>\<open>vvp/vvp_net.cc\<close>): comparisons, multiplication,
  \<^verbatim>\<open>div_mod\<close> with the operators \<^verbatim>\<open>/\<close> and \<^verbatim>\<open>%\<close>, \<^verbatim>\<open>pow\<close>, and the way back to
  \<^verbatim>\<open>vvp_vector4_t\<close>.  Remainder and power are exact.  The quotient is exact as long as the bit that
  marks the quotient position fits the width of the dividend, and it is 0 in the remaining case: a
  divisor 1 and a dividend above half the range.
\<close>

section \<open>Definitions\<close>

text \<open>
  The comparisons walk the words from the most significant one and stop at the first difference,
  with missing words read as 0.
\<close>

definition v2_word :: "vvp_vector2_t \<Rightarrow> nat \<Rightarrow> ulong" where
  "v2_word v idx = (if idx < words_for (v2_wid v) then v2_vec v ! idx else 0)"

fun first_diff :: "vvp_vector2_t \<Rightarrow> vvp_vector2_t \<Rightarrow> nat \<Rightarrow> (ulong \<times> ulong) option" where
  "first_diff a b 0 = None"
| "first_diff a b (Suc idx) =
    (let aw = v2_word a idx; bw = v2_word b idx in
     if aw > bw \<or> aw < bw then Some (aw, bw) else first_diff a b idx)"

definition v2_cmp_words :: "vvp_vector2_t \<Rightarrow> vvp_vector2_t \<Rightarrow> (ulong \<times> ulong) option" where
  "v2_cmp_words a b = first_diff a b (max (words_for (v2_wid a)) (words_for (v2_wid b)))"

definition v2_gt :: "vvp_vector2_t \<Rightarrow> vvp_vector2_t \<Rightarrow> bool" where
  "v2_gt a b = (case v2_cmp_words a b of None \<Rightarrow> False | Some (aw, bw) \<Rightarrow> aw > bw)"

definition v2_ge :: "vvp_vector2_t \<Rightarrow> vvp_vector2_t \<Rightarrow> bool" where
  "v2_ge a b = (case v2_cmp_words a b of None \<Rightarrow> True | Some (aw, bw) \<Rightarrow> aw > bw)"

definition v2_lt :: "vvp_vector2_t \<Rightarrow> vvp_vector2_t \<Rightarrow> bool" where
  "v2_lt a b = (case v2_cmp_words a b of None \<Rightarrow> False | Some (aw, bw) \<Rightarrow> aw < bw)"

definition v2_le :: "vvp_vector2_t \<Rightarrow> vvp_vector2_t \<Rightarrow> bool option" where
  "v2_le a b = (if v2_wid a = v2_wid b
     then Some (case v2_cmp_words a b of None \<Rightarrow> True | Some (aw, bw) \<Rightarrow> aw < bw) else None)"

definition v2_eq :: "vvp_vector2_t \<Rightarrow> vvp_vector2_t \<Rightarrow> bool" where
  "v2_eq a b = (v2_cmp_words a b = None)"

text \<open>The loop over \<open>sdx\<close> of the multiplication: add the two words of a partial product.\<close>

function mul_add :: "nat \<Rightarrow> nat \<Rightarrow> ulong \<Rightarrow> ulong \<Rightarrow> ulong \<Rightarrow> plane \<Rightarrow> plane" where
  "mul_add words k low hig carry r =
    (if k < words then
       case add_carry (r ! k) low carry of (out, carry') \<Rightarrow> mul_add words (k + 1) hig 0 carry' (r[k := out])
     else r)"
  by pat_completeness auto
termination
  by (relation "measure (\<lambda>(words, k, low, hig, carry, r). words - k)") auto

declare mul_add.simps [simp del]

definition v2_mul_row :: "nat \<Rightarrow> plane \<Rightarrow> ulong \<Rightarrow> nat \<Rightarrow> plane \<Rightarrow> plane" where
  "v2_mul_row words avec tmpb bdx r =
    (if tmpb = 0 then r
     else foldl (\<lambda>r adx. let tmpa = avec ! adx in
         if tmpa = 0 then r
         else case multiply_long tmpa tmpb of (low, hig) \<Rightarrow> mul_add words (adx + bdx) low hig 0 r) r [0..<words])"

definition v2_mul :: "vvp_vector2_t \<Rightarrow> vvp_vector2_t \<Rightarrow> vvp_vector2_t option" where
  "v2_mul a b =
    (if v2_wid a = v2_wid b then
       let r = v2_of_ulong 0 (v2_wid a); words = words_for (v2_wid r)
       in Some (clear_unused_bits (r\<lparr>v2_vec :=
            foldl (\<lambda>vec bdx. v2_mul_row words (v2_vec a) (v2_vec b ! bdx) bdx vec) (v2_vec r) [0..<words]\<rparr>))
     else None)"

text \<open>
  The two loops of \<^verbatim>\<open>div_mod\<close>.  They are partial functions: not returning is \<open>None\<close>, as is a
  failed \<^verbatim>\<open>assert\<close> in the operators they call.
\<close>

partial_function (option) div_start ::
  "vvp_vector2_t \<Rightarrow> vvp_vector2_t \<Rightarrow> vvp_vector2_t \<Rightarrow> (vvp_vector2_t \<times> vvp_vector2_t) option" where
  "div_start dividend divtmp msk =
    (if v2_lt divtmp dividend then div_start dividend (v2_shl divtmp 1) (v2_shl msk 1)
     else Some (divtmp, msk))"

partial_function (option) div_loop ::
  "vvp_vector2_t \<Rightarrow> vvp_vector2_t \<Rightarrow> vvp_vector2_t \<Rightarrow> vvp_vector2_t \<Rightarrow> vvp_vector2_t \<Rightarrow>
   (vvp_vector2_t \<times> vvp_vector2_t) option" where
  "div_loop divisor dividend divtmp msk quot =
    (if v2_ge dividend divisor then
       Option.bind (v2_le divtmp dividend) (\<lambda>fits.
         if fits then
           Option.bind (v2_minus_eq dividend divtmp) (\<lambda>dividend'.
           Option.bind (v2_plus_eq quot msk) (\<lambda>quot'.
             div_loop divisor dividend' (v2_shr divtmp 1) (v2_shr msk 1) quot'))
         else div_loop divisor dividend (v2_shr divtmp 1) (v2_shr msk 1) quot)
     else Some (quot, dividend))"

text \<open>The result pairs quotient and remainder; \<open>None\<close> is the exit on a zero divisor.\<close>

definition div_mod :: "vvp_vector2_t \<Rightarrow> vvp_vector2_t \<Rightarrow> (vvp_vector2_t \<times> vvp_vector2_t) option" where
  "div_mod dividend divisor =
    (let quot = v2_of_ulong 0 (v2_wid dividend) in
     if v2_eq divisor quot then None
     else if v2_lt dividend divisor then Some (quot, dividend)
     else
       let msk = v2_of_ulong 1 (v2_wid dividend);
           dividend' = v2_resized dividend (v2_wid dividend + 1);
           divtmp = v2_resized divisor (v2_wid dividend')
       in Option.bind (div_start dividend' divtmp msk) (\<lambda>(divtmp, msk).
          map_option (\<lambda>(quot, rem). (quot, v2_resized rem (v2_wid msk)))
            (div_loop divisor dividend' divtmp msk quot)))"

definition v2_div :: "vvp_vector2_t \<Rightarrow> vvp_vector2_t \<Rightarrow> vvp_vector2_t option" where
  "v2_div dividend divisor = map_option fst (div_mod dividend divisor)"

definition v2_mod :: "vvp_vector2_t \<Rightarrow> vvp_vector2_t \<Rightarrow> vvp_vector2_t option" where
  "v2_mod dividend divisor = map_option snd (div_mod dividend divisor)"

partial_function (option) v2_pow :: "vvp_vector2_t \<Rightarrow> vvp_vector2_t \<Rightarrow> vvp_vector2_t option" where
  "v2_pow x y =
    (if v2_eq y (v2_of_ulong 0 1) then Some (v2_of_ulong 1 (v2_wid x))
     else if v2_value y 0 = 1 then
       Option.bind (v2_set_bit y 0 0) (\<lambda>y. Option.bind (v2_pow x y) (\<lambda>p. v2_mul x p))
     else
       Option.bind (v2_pow x (v2_shr y 1)) (\<lambda>z. v2_mul z z))"

definition vector2_to_vector4 :: "vvp_vector2_t \<Rightarrow> nat \<Rightarrow> vvp_vector4_t option" where
  "vector2_to_vector4 that wid =
    for_each (\<lambda>idx res. v4_set_bit res idx (if v2_value that idx \<noteq> 0 then BIT4_1 else BIT4_0))
      [0..<wid] (v4_fill wid BIT4_X)"

section \<open>Comparison is comparison of the numbers\<close>

lemma pval_v2_words:
  assumes "v2_inv v" and "words_for (v2_wid v) \<le> m"
  shows "pval (map (v2_word v) [0..<m]) = v2_val v"
proof -
  have "map (v2_word v) [0..<m] = v2_vec v @ replicate (m - words_for (v2_wid v)) 0"
    using assms by (intro nth_equalityI) (auto simp: v2_word_def v2_inv_def nth_append)
  then show ?thesis by (simp add: pval_append v2_val_def)
qed

lemma first_diff:
  "case first_diff a b k of
     None \<Rightarrow> pval (map (v2_word a) [0..<k]) = pval (map (v2_word b) [0..<k])
   | Some (x, y) \<Rightarrow> x \<noteq> y \<and> (x < y \<longleftrightarrow> pval (map (v2_word a) [0..<k]) < pval (map (v2_word b) [0..<k]))
       \<and> pval (map (v2_word a) [0..<k]) \<noteq> pval (map (v2_word b) [0..<k])"
proof (induction k)
  case (Suc k)
  define x y where "x = pval (map (v2_word a) [0..<k])" and "y = pval (map (v2_word b) [0..<k])"
  define u v where "u = v2_word a k" and "v = v2_word b k"
  have b: "0 \<le> x" "0 \<le> y" "x < 2 ^ (64 * k)" "y < 2 ^ (64 * k)"
    using pval_lt [of "map (v2_word a) [0..<k]"] pval_lt [of "map (v2_word b) [0..<k]"]
    by (simp_all add: x_def y_def)
  have sa: "pval (map (v2_word a) [0..<Suc k]) = x + 2 ^ (64 * k) * uint u"
    and sb: "pval (map (v2_word b) [0..<Suc k]) = y + 2 ^ (64 * k) * uint v"
    by (simp_all add: pval_append x_def y_def u_def v_def)
  have lt: "x + 2 ^ (64 * k) * p < y + 2 ^ (64 * k) * q" if "p < q" "0 \<le> y" "x < 2 ^ (64 * k)" for p q x y :: int
  proof -
    have "x + 2 ^ (64 * k) * p < 2 ^ (64 * k) * (p + 1)" using that(3) by (simp add: distrib_left)
    also have "\<dots> \<le> 2 ^ (64 * k) * q" using that(1) by (intro mult_left_mono) simp_all
    finally show ?thesis using that(2) by linarith
  qed
  consider (less) "u < v" | (greater) "v < u" | (eq) "u = v" by fastforce
  then show ?case
  proof cases
    case less
    then have "first_diff a b (Suc k) = Some (u, v)" by (simp add: u_def v_def Let_def)
    moreover have "uint u < uint v" using less by (simp add: word_less_def)
    ultimately show ?thesis using less lt [of "uint u" "uint v" y x] b unfolding sa sb by auto
  next
    case greater
    then have "first_diff a b (Suc k) = Some (u, v)" by (simp add: u_def v_def Let_def)
    moreover have "uint v < uint u" using greater by (simp add: word_less_def)
    ultimately show ?thesis using greater lt [of "uint v" "uint u" x y] b unfolding sa sb by auto
  next
    case eq
    then have "first_diff a b (Suc k) = first_diff a b k" by (simp add: u_def v_def Let_def)
    moreover have "pval (map (v2_word a) [0..<Suc k]) < pval (map (v2_word b) [0..<Suc k]) \<longleftrightarrow> x < y"
      "pval (map (v2_word a) [0..<Suc k]) = pval (map (v2_word b) [0..<Suc k]) \<longleftrightarrow> x = y"
      unfolding sa sb eq by simp_all
    ultimately show ?thesis using Suc unfolding x_def [symmetric] y_def [symmetric]
      by (simp only: split: option.splits)
  qed
qed simp

lemma v2_cmp:
  assumes inv: "v2_inv a" "v2_inv b"
  shows "v2_gt a b \<longleftrightarrow> v2_val a > v2_val b" and "v2_ge a b \<longleftrightarrow> v2_val a \<ge> v2_val b"
    and "v2_lt a b \<longleftrightarrow> v2_val a < v2_val b" and "v2_eq a b \<longleftrightarrow> v2_val a = v2_val b"
    and "v2_wid a = v2_wid b \<Longrightarrow> v2_le a b = Some (v2_val a \<le> v2_val b)"
proof -
  let ?m = "max (words_for (v2_wid a)) (words_for (v2_wid b))"
  have "case v2_cmp_words a b of None \<Rightarrow> v2_val a = v2_val b
      | Some (x, y) \<Rightarrow> x \<noteq> y \<and> (x < y \<longleftrightarrow> v2_val a < v2_val b) \<and> v2_val a \<noteq> v2_val b"
    using first_diff [where a = a and b = b and k = ?m]
    unfolding v2_cmp_words_def pval_v2_words [OF inv(1) max.cobounded1] pval_v2_words [OF inv(2) max.cobounded2] .
  then show "v2_gt a b \<longleftrightarrow> v2_val a > v2_val b" and "v2_ge a b \<longleftrightarrow> v2_val a \<ge> v2_val b"
    and "v2_lt a b \<longleftrightarrow> v2_val a < v2_val b" and "v2_eq a b \<longleftrightarrow> v2_val a = v2_val b"
    and "v2_wid a = v2_wid b \<Longrightarrow> v2_le a b = Some (v2_val a \<le> v2_val b)"
    by (auto simp: v2_gt_def v2_ge_def v2_lt_def v2_eq_def v2_le_def split: option.splits)
qed

section \<open>Multiplication\<close>

lemma mul_add:
  assumes "length r = words" and "uint c \<le> 1"
  shows "length (mul_add words k low hig c r) = words
    \<and> pval (mul_add words k low hig c r) mod 2 ^ (64 * words)
      = (pval r + 2 ^ (64 * k) * (uint low + 2 ^ 64 * uint hig + uint c)) mod 2 ^ (64 * words)"
  using assms
proof (induction words k low hig c r rule: mul_add.induct)
  case (1 words k low hig c r)
  show ?case
  proof (cases "k < words")
    case True
    obtain out c' where oc: "add_carry (r ! k) low c = (out, c')" by fastforce
    note ex = add_carry_exact [OF "1.prems"(2) oc]
    have step: "mul_add words k low hig c r = mul_add words (k + 1) hig 0 c' (r[k := out])"
      using True oc by (subst mul_add.simps) simp
    have out: "uint out = uint (r ! k) + uint low + uint c - 2 ^ 64 * uint c'" using ex(1) by simp
    have up: "pval (r[k := out]) = pval r + 2 ^ (64 * k) * (uint out - uint (r ! k))"
      using True "1.prems"(1) by (intro pval_update) simp
    have "(2 :: int) ^ (64 * (k + 1)) = 2 ^ (64 * k) * 2 ^ 64" by (simp add: power_add)
    then have "pval (r[k := out]) + 2 ^ (64 * (k + 1)) * (uint hig + 2 ^ 64 * uint (0 :: ulong) + uint c')
        = pval r + 2 ^ (64 * k) * (uint low + 2 ^ 64 * uint hig + uint c)"
      unfolding up out by (simp add: algebra_simps)
    with "1.IH" [OF True oc [symmetric] _ ex(2)] "1.prems"(1) show ?thesis unfolding step by simp
  next
    case False
    then have "mul_add words k low hig c r = r" by (subst mul_add.simps) simp
    moreover have "(2 :: int) ^ (64 * words) dvd 2 ^ (64 * k) * (uint low + 2 ^ 64 * uint hig + uint c)"
      using False by (intro dvd_mult2 le_imp_power_dvd) simp
    ultimately show ?thesis using "1.prems"(1) by (simp only: mod_add_dvd)
  qed
qed

lemma multiply_long_uint:
  "multiply_long a b = (low, hig) \<Longrightarrow> uint low + 2 ^ 64 * uint hig = uint a * uint b"
  using arg_cong [OF multiply_long_exact [of a b low hig], of int]
  unfolding of_nat_add of_nat_mult of_nat_power of_nat_numeral uint_nat [symmetric] by simp

lemma v2_mul_row:
  assumes "length r = words" "length avec = words"
  shows "length (v2_mul_row words avec y b r) = words
    \<and> pval (v2_mul_row words avec y b r) mod 2 ^ (64 * words)
      = (pval r + 2 ^ (64 * b) * (uint y * pval avec)) mod 2 ^ (64 * words)"
proof (cases "y = 0")
  case True
  with assms show ?thesis by (simp add: v2_mul_row_def)
next
  case False
  let ?f = "\<lambda>r adx. let tmpa = avec ! adx in
         if tmpa = 0 then r
         else case multiply_long tmpa y of (low, hig) \<Rightarrow> mul_add words (adx + b) low hig 0 r"
  have "length (foldl ?f r [0..<k]) = words \<and> pval (foldl ?f r [0..<k]) mod 2 ^ (64 * words)
      = (pval r + 2 ^ (64 * b) * (uint y * pval (take k avec))) mod 2 ^ (64 * words)" if "k \<le> words" for k
    using that
  proof (induction k)
    case 0
    then show ?case using assms by simp
  next
    case (Suc k)
    let ?g = "foldl ?f r [0..<k]"
    have IH: "length ?g = words" "pval ?g mod 2 ^ (64 * words)
      = (pval r + 2 ^ (64 * b) * (uint y * pval (take k avec))) mod 2 ^ (64 * words)" using Suc by simp_all
    have tk: "pval (take (Suc k) avec) = pval (take k avec) + 2 ^ (64 * k) * uint (avec ! k)"
      using pval_take_Suc [of k avec] Suc.prems assms(2) by simp
    have pw: "(2 :: int) ^ (64 * (k + b)) = 2 ^ (64 * b) * 2 ^ (64 * k)" by (simp add: power_add distrib_left)
    have eq: "pval r + 2 ^ (64 * b) * (uint y * pval (take (Suc k) avec))
        = pval r + 2 ^ (64 * b) * (uint y * pval (take k avec)) + 2 ^ (64 * (k + b)) * (uint (avec ! k) * uint y)"
      unfolding tk pw by (simp add: algebra_simps)
    show ?case
    proof (cases "avec ! k = 0")
      case True
      then show ?thesis using IH unfolding eq by simp
    next
      case nz: False
      obtain low hig where lh: "multiply_long (avec ! k) y = (low, hig)" by fastforce
      have "foldl ?f r [0..<Suc k] = mul_add words (k + b) low hig 0 ?g" using nz lh by simp
      with mul_add [OF IH(1), of 0 "k + b" low hig] multiply_long_uint [OF lh] mod_add_left_cong [OF IH(2)]
      show ?thesis unfolding eq by simp
    qed
  qed
  from this [of words] assms(2) False show ?thesis by (simp add: v2_mul_row_def)
qed

lemma v2_mul:
  assumes inv: "v2_inv a" "v2_inv b" and w: "v2_wid a = v2_wid b"
  obtains r where "v2_mul a b = Some r" and "v2_inv r" and "v2_wid r = v2_wid a"
    and "v2_val r = take_bit (v2_wid a) (v2_val a * v2_val b)"
proof -
  let ?n = "v2_wid a" and ?words = "words_for (v2_wid a)"
  let ?r = "v2_of_ulong 0 ?n"
  let ?f = "\<lambda>vec bdx. v2_mul_row ?words (v2_vec a) (v2_vec b ! bdx) bdx vec"
  have len: "length (v2_vec a) = ?words" "length (v2_vec b) = ?words" "length (v2_vec ?r) = ?words"
    using inv w v2_of_ulong(1,2) [of 0 ?n] by (simp_all add: v2_inv_def)
  have zero: "pval (v2_vec ?r) = 0" using v2_of_ulong(3) [of 0 ?n] by (simp add: v2_val_def)
  have "length (foldl ?f (v2_vec ?r) [0..<k]) = ?words \<and> pval (foldl ?f (v2_vec ?r) [0..<k]) mod 2 ^ (64 * ?words)
      = (v2_val a * pval (take k (v2_vec b))) mod 2 ^ (64 * ?words)" if "k \<le> ?words" for k
    using that
  proof (induction k)
    case (Suc k)
    let ?g = "foldl ?f (v2_vec ?r) [0..<k]"
    have IH: "length ?g = ?words" "pval ?g mod 2 ^ (64 * ?words) = (v2_val a * pval (take k (v2_vec b))) mod 2 ^ (64 * ?words)"
      using Suc by simp_all
    have "v2_val a * pval (take (Suc k) (v2_vec b))
        = v2_val a * pval (take k (v2_vec b)) + 2 ^ (64 * k) * (uint (v2_vec b ! k) * pval (v2_vec a))"
      using pval_take_Suc [of k "v2_vec b"] Suc.prems len(2) by (simp add: v2_val_def algebra_simps)
    with v2_mul_row [OF IH(1) len(1), of "v2_vec b ! k" k] mod_add_left_cong [OF IH(2)] show ?case by simp
  qed (simp add: len zero)
  from this [of ?words] len have prod: "length (foldl ?f (v2_vec ?r) [0..<?words]) = ?words"
    "take_bit (64 * ?words) (pval (foldl ?f (v2_vec ?r) [0..<?words])) = take_bit (64 * ?words) (v2_val a * v2_val b)"
    by (simp_all add: take_bit_eq_mod v2_val_def)
  have "?n \<le> 64 * ?words" using words_for_mult_ge [of ?n] by simp
  note low = take_bit_shorter [OF this prod(2)]
  let ?u = "?r\<lparr>v2_vec := foldl ?f (v2_vec ?r) [0..<?words]\<rparr>"
  have "v2_mul a b = Some (clear_unused_bits ?u)"
    using w v2_of_ulong(2) [of 0 ?n] by (simp add: v2_mul_def Let_def)
  with that clear_unused_bits [of ?u] prod(1) low v2_of_ulong(2) [of 0 ?n] show thesis by simp
qed

section \<open>Division\<close>

lemma take_bit_mult_left: "take_bit n (take_bit n x * y) = take_bit n (x * y :: int)"
  by (simp add: take_bit_eq_mod mod_mult_left_eq)

lemma take_bit_add_left: "take_bit n (take_bit n x + y) = take_bit n (x + y :: int)"
  by (simp add: take_bit_eq_mod mod_add_left_eq)

lemma take_bit_power2: "take_bit n (2 ^ s :: int) = (if s < n then 2 ^ s else 0)"
  by (auto simp: take_bit_eq_mod le_imp_power_dvd mod_pos_pos_trivial power_strict_increasing)

lemma div_start:
  assumes inv: "v2_inv dd" "v2_inv dt" "v2_inv msk" and w: "v2_wid dd = n + 1" "v2_wid dt = n + 1" "v2_wid msk = n"
    and N: "v2_val dd < 2 ^ n" and T: "0 < v2_val dt"
  shows "\<exists>s dt' msk'. div_start dd dt msk = Some (dt', msk') \<and> v2_inv dt' \<and> v2_wid dt' = n + 1
    \<and> v2_inv msk' \<and> v2_wid msk' = n \<and> v2_val dt' = v2_val dt * 2 ^ s \<and> v2_val dd \<le> v2_val dt * 2 ^ s
    \<and> (0 < s \<longrightarrow> v2_val dt * 2 ^ (s - 1) < v2_val dd) \<and> v2_val msk' = take_bit n (v2_val msk * 2 ^ s)"
  using inv(2,3) w(2,3) T
proof (induction "nat (v2_val dd - v2_val dt)" arbitrary: dt msk rule: less_induct)
  case less
  show ?case
  proof (cases "v2_val dt < v2_val dd")
    case False
    then have "div_start dd dt msk = Some (dt, msk)"
      using v2_cmp(3) [OF less.prems(1) inv(1)] by (subst div_start.simps) simp
    with False less.prems v2_take_bit [of msk] show ?thesis
      by (intro exI [of _ 0] exI [of _ dt] exI [of _ msk]) simp
  next
    case True
    let ?dt = "v2_shl dt 1" and ?msk = "v2_shl msk 1"
    note sd = v2_shl [OF less.prems(1), of 1] and sm = v2_shl [OF less.prems(2), of 1]
    have "v2_val dt * 2 < 2 ^ (n + 1)" using True N by simp
    then have dv: "v2_val ?dt = 2 * v2_val dt" using sd(3) less.prems(3) by (simp add: take_bit_int_eq_self)
    have mv: "v2_val ?msk = take_bit n (2 * v2_val msk)" using sm(3) less.prems(4) by (simp add: mult.commute)
    have step: "div_start dd dt msk = div_start dd ?dt ?msk"
      using True v2_cmp(3) [OF less.prems(1) inv(1)] by (subst div_start.simps) simp
    obtain s dt' msk' where r: "div_start dd ?dt ?msk = Some (dt', msk')" "v2_inv dt'" "v2_wid dt' = n + 1"
      "v2_inv msk'" "v2_wid msk' = n" "v2_val dt' = v2_val ?dt * 2 ^ s" "v2_val dd \<le> v2_val ?dt * 2 ^ s"
      "0 < s \<longrightarrow> v2_val ?dt * 2 ^ (s - 1) < v2_val dd" "v2_val msk' = take_bit n (v2_val ?msk * 2 ^ s)"
      using less.hyps [of ?dt ?msk] True dv sd(1,2) sm(1,2) less.prems(3-5) by auto
    have "v2_val dt * 2 ^ (Suc s - 1) < v2_val dd"
      using r(8) True dv by (cases s) (simp_all add: mult.assoc)
    moreover have "take_bit n (v2_val ?msk * 2 ^ s) = take_bit n (v2_val msk * 2 ^ Suc s)"
      unfolding mv take_bit_mult_left by (simp add: mult.assoc mult.left_commute)
    ultimately show ?thesis
      using r dv step by (intro exI [of _ "Suc s"] exI [of _ dt'] exI [of _ msk']) (simp add: mult.assoc)
  qed
qed

lemma div_loop_exit:
  "v2_inv divisor \<Longrightarrow> v2_inv dd \<Longrightarrow> v2_val dd < v2_val divisor \<Longrightarrow>
   div_loop divisor dd dt msk q = Some (q, dd)"
  by (subst div_loop.simps) (simp add: v2_cmp)

lemma div_loop:
  assumes "v2_inv divisor" "0 < v2_val divisor" and "v2_inv dd" "v2_wid dd = n + 1"
    and "v2_inv dt" "v2_wid dt = n + 1" "v2_val dt = v2_val divisor * 2 ^ s"
    and "v2_inv msk" "v2_wid msk = n" "v2_val msk = (if good then 2 ^ s else 0)"
    and "v2_inv q" "v2_wid q = n" and "v2_val dd < v2_val divisor * 2 ^ (s + 1)"
  shows "\<exists>q' r. div_loop divisor dd dt msk q = Some (q', r) \<and> v2_inv q' \<and> v2_wid q' = n
    \<and> v2_inv r \<and> v2_wid r = n + 1 \<and> v2_val r = v2_val dd mod v2_val divisor
    \<and> v2_val q' = take_bit n (v2_val q + (if good then v2_val dd div v2_val divisor else 0))"
  using assms(3-)
proof (induction s arbitrary: dd dt msk q)
  case 0
  let ?d = "v2_val divisor"
  show ?case
  proof (cases "v2_val dd < ?d")
    case True
    with div_loop_exit [OF assms(1) "0.prems"(1) True] 0 v2_take_bit [OF "0.prems"(9)] show ?thesis by simp
  next
    case False
    obtain dd' where dd': "v2_minus_eq dd dt = Some dd'" "v2_inv dd'" "v2_wid dd' = n + 1"
      "v2_val dd' = take_bit (n + 1) (v2_val dd - v2_val dt)"
      using v2_minus_eq [OF "0.prems"(1,3)] "0.prems"(2,4) by metis
    obtain q' where q': "v2_plus_eq q msk = Some q'" "v2_inv q'" "v2_wid q' = n"
      "v2_val q' = take_bit n (v2_val q + v2_val msk)"
      using v2_plus_eq [OF "0.prems"(9,6)] "0.prems"(7,10) by metis
    have val: "v2_val dd' = v2_val dd - ?d"
    proof -
      have "v2_val dd - ?d < 2 ^ (n + 1)" using v2_val_lt [OF "0.prems"(1)] "0.prems"(2) assms(2) by simp
      then show ?thesis using dd'(4) False "0.prems"(5) by (simp add: take_bit_int_eq_self)
    qed
    have "v2_val dd div ?d = 1" "v2_val dd mod ?d = v2_val dd - ?d"
      using False "0.prems"(11)
      by (intro int_div_pos_eq [of _ _ _ "v2_val dd - ?d"] int_mod_pos_eq [of _ _ 1]; simp)+
    moreover have "div_loop divisor dd dt msk q = Some (q', dd')"
      using False dd'(1) q'(1) v2_cmp(5) [OF "0.prems"(3,1)] "0.prems"(2,4,5)
        div_loop_exit [OF assms(1) dd'(2), of "v2_shr dt 1" "v2_shr msk 1" q'] val "0.prems"(11)
      by (subst div_loop.simps) (simp add: v2_cmp(2) [OF "0.prems"(1) assms(1)])
    ultimately show ?thesis using dd' q' val "0.prems"(8) by simp
  qed
next
  case (Suc s)
  let ?d = "v2_val divisor"
  note sd = v2_shr [OF Suc.prems(3), of 1] and sm = v2_shr [OF Suc.prems(6), of 1]
  have dtv: "v2_val (v2_shr dt 1) = ?d * 2 ^ s" using sd(3) Suc.prems(5) by simp
  have mv: "v2_val (v2_shr msk 1) = (if good then 2 ^ s else 0)" using sm(3) Suc.prems(8) by simp
  show ?case
  proof (cases "v2_val dd < ?d")
    case True
    with div_loop_exit [OF assms(1) Suc.prems(1) True] Suc.prems v2_take_bit [OF Suc.prems(9)] show ?thesis by simp
  next
    case ge: False
    show ?thesis
    proof (cases "v2_val dt \<le> v2_val dd")
      case True
      obtain dd' where dd': "v2_minus_eq dd dt = Some dd'" "v2_inv dd'" "v2_wid dd' = n + 1"
        "v2_val dd' = take_bit (n + 1) (v2_val dd - v2_val dt)"
        using v2_minus_eq [OF Suc.prems(1,3)] Suc.prems(2,4) by metis
      obtain q1 where q1: "v2_plus_eq q msk = Some q1" "v2_inv q1" "v2_wid q1 = n"
        "v2_val q1 = take_bit n (v2_val q + v2_val msk)"
        using v2_plus_eq [OF Suc.prems(9,6)] Suc.prems(7,10) by metis
      have val: "v2_val dd' = v2_val dd - ?d * 2 ^ Suc s"
      proof -
        have "v2_val dd - v2_val dt < 2 ^ (n + 1)"
          using v2_val_lt [OF Suc.prems(1)] v2_val_nonneg [of dt] unfolding Suc.prems(2) by linarith
        then show ?thesis using dd'(4) True Suc.prems(5) by (simp add: take_bit_int_eq_self)
      qed
      have "v2_val dd' < ?d * 2 ^ (s + 1)" using val Suc.prems(11) by simp
      from Suc.IH [OF dd'(2,3) sd(1) _ dtv sm(1) _ mv q1(2,3) this] sd(2) sm(2) Suc.prems(4,7)
      obtain q' r where r: "div_loop divisor dd' (v2_shr dt 1) (v2_shr msk 1) q1 = Some (q', r)" "v2_inv q'"
        "v2_wid q' = n" "v2_inv r" "v2_wid r = n + 1" "v2_val r = v2_val dd' mod ?d"
        "v2_val q' = take_bit n (v2_val q1 + (if good then v2_val dd' div ?d else 0))" by auto
      have "v2_val dd = v2_val dd' + 2 ^ Suc s * ?d" using val by simp
      then have "v2_val dd mod ?d = v2_val dd' mod ?d" "v2_val dd div ?d = 2 ^ Suc s + v2_val dd' div ?d"
        using assms(2) by simp_all
      moreover have "div_loop divisor dd dt msk q = Some (q', r)"
        using ge True dd'(1) q1(1) r(1) v2_cmp(5) [OF Suc.prems(3,1)] Suc.prems(2,4)
        by (subst div_loop.simps) (simp add: v2_cmp(2) [OF Suc.prems(1) assms(1)])
      moreover have "take_bit n (take_bit n (v2_val q + 2 ^ Suc s) + x) = take_bit n (v2_val q + (2 ^ Suc s + x))" for x
        by (simp only: take_bit_add_left add.assoc)
      ultimately show ?thesis using r q1(4) Suc.prems(8)
        by (intro exI [of _ q'] exI [of _ r]) (simp split: if_splits)
    next
      case False
      then have "v2_val dd < ?d * 2 ^ (s + 1)" using Suc.prems(5) by simp
      from Suc.IH [OF Suc.prems(1,2) sd(1) _ dtv sm(1) _ mv Suc.prems(9,10) this] sd(2) sm(2) Suc.prems(4,7)
      obtain q' r where "div_loop divisor dd (v2_shr dt 1) (v2_shr msk 1) q = Some (q', r)" "v2_inv q'"
        "v2_wid q' = n" "v2_inv r" "v2_wid r = n + 1" "v2_val r = v2_val dd mod ?d"
        "v2_val q' = take_bit n (v2_val q + (if good then v2_val dd div ?d else 0))" by auto
      moreover have "div_loop divisor dd dt msk q = div_loop divisor dd (v2_shr dt 1) (v2_shr msk 1) q"
        using ge False v2_cmp(5) [OF Suc.prems(3,1)] Suc.prems(2,4)
        by (subst div_loop.simps) (simp add: v2_cmp(2) [OF Suc.prems(1) assms(1)])
      ultimately show ?thesis by simp
    qed
  qed
qed

text \<open>
  The shift of \<^verbatim>\<open>mask\<close> is out of range exactly when the divisor is 1 and the dividend is above
  half of the range of its width.
\<close>

lemma div_shift_fits:
  fixes d N :: int
  assumes d: "0 < d" and N: "N < 2 ^ n" "d \<le> N" and s: "N \<le> d * 2 ^ s" "0 < s \<longrightarrow> d * 2 ^ (s - 1) < N"
  shows "n \<le> s \<longleftrightarrow> d = 1 \<and> 2 ^ (n - 1) < N"
proof
  assume ns: "n \<le> s"
  have n0: "0 < n" using N d by (cases n) auto
  have "d * 2 ^ (n - 1) \<le> d * 2 ^ (s - 1)" using ns d by (intro mult_left_mono power_increasing) simp_all
  also have "\<dots> < N" using s(2) ns n0 by simp
  finally have lt: "d * 2 ^ (n - 1) < N" .
  also have "N < 2 * 2 ^ (n - 1)" using N(1) n0 by (cases n) simp_all
  finally have "d < 2" by simp
  then have "d = 1" using d by simp
  with lt show "d = 1 \<and> 2 ^ (n - 1) < N" by simp
next
  assume h: "d = 1 \<and> 2 ^ (n - 1) < N"
  then have "(2 :: int) ^ (n - 1) < 2 ^ s" using s(1) by (elim conjE) (simp only: mult_1)
  then have "n - 1 < s" by (rule power_less_imp_less_exp [rotated]) simp
  then show "n \<le> s" by simp
qed

lemma div_mod_spec:
  assumes inv: "v2_inv a" "v2_inv b" and b: "0 < v2_val b"
  obtains q r where "div_mod a b = Some (q, r)" and "v2_inv q" and "v2_wid q = v2_wid a"
    and "v2_inv r" and "v2_wid r = v2_wid a" and "v2_val r = v2_val a mod v2_val b"
    and "v2_val q = (if v2_val b = 1 \<and> 2 ^ (v2_wid a - 1) < v2_val a then 0 else v2_val a div v2_val b)"
proof -
  let ?n = "v2_wid a"
  let ?q = "v2_of_ulong 0 ?n" and ?msk = "v2_of_ulong 1 ?n"
  define N d where "N = v2_val a" and "d = v2_val b"
  have N: "0 \<le> N" "N < 2 ^ ?n" and d: "0 < d" using v2_val_lt [OF inv(1)] b by (simp_all add: N_def d_def)
  have q: "v2_inv ?q" "v2_wid ?q = ?n" "v2_val ?q = 0" using v2_of_ulong [of 0 ?n] by simp_all
  have nz: "\<not> v2_eq b ?q" using v2_cmp(4) [OF inv(2) q(1)] q(3) b by simp
  show thesis
  proof (cases "N < d")
    case True
    then have "div_mod a b = Some (?q, a)"
      using nz v2_cmp(3) [OF inv] by (simp add: div_mod_def Let_def N_def d_def)
    moreover have "N mod d = N" "N div d = 0" using True N by simp_all
    moreover have "\<not> (d = 1 \<and> 2 ^ (?n - 1) < N)"
    proof
      assume h: "d = 1 \<and> 2 ^ (?n - 1) < N"
      moreover have "(0 :: int) < 2 ^ (?n - 1)" by simp
      ultimately show False using True by linarith
    qed
    ultimately show thesis using that [of ?q a] q inv(1) by (simp add: N_def d_def)
  next
    case False
    have n0: "0 < ?n" using False N d by (cases ?n) auto
    have m: "v2_inv ?msk" "v2_wid ?msk = ?n" "v2_val ?msk = 1"
      using v2_of_ulong [of 1 ?n] n0 by (simp_all add: take_bit_eq_mod)
    let ?dd = "v2_resized a (?n + 1)"
    have big: "x < 2 ^ (?n + 1)" if "x \<le> N" for x using that N by simp
    have dd: "v2_inv ?dd" "v2_wid ?dd = ?n + 1" "v2_val ?dd = N"
      using v2_resized [OF inv(1), of "?n + 1"] N(1) big [of N]
      by (simp_all only: N_def take_bit_int_eq_self order_refl)
    let ?dt = "v2_resized b (v2_wid ?dd)"
    have dt: "v2_inv ?dt" "v2_wid ?dt = ?n + 1" "v2_val ?dt = d"
      using v2_resized [OF inv(2), of "?n + 1"] b big [of d] False
      unfolding dd(2) by (simp_all only: d_def take_bit_int_eq_self not_less less_imp_le)
    obtain s dt' msk' where st: "div_start ?dd ?dt ?msk = Some (dt', msk')" "v2_inv dt'" "v2_wid dt' = ?n + 1"
      "v2_inv msk'" "v2_wid msk' = ?n" "v2_val dt' = d * 2 ^ s" "N \<le> d * 2 ^ s"
      "0 < s \<longrightarrow> d * 2 ^ (s - 1) < N" "v2_val msk' = take_bit ?n (2 ^ s)"
      using div_start [OF dd(1) dt(1) m(1) dd(2) dt(2) m(2)] dd(3) dt(3) m(3) N(2) d by auto
    have good: "v2_val msk' = (if s < ?n then 2 ^ s else 0)" using st(9) by (simp add: take_bit_power2)
    have "N < d * 2 ^ (s + 1)"
    proof -
      have "0 < d * 2 ^ s" using d by simp
      then have "d * 2 ^ s < d * 2 ^ (s + 1)" by simp
      with st(7) show ?thesis by (rule le_less_trans)
    qed
    then obtain q' r where lp: "div_loop b ?dd dt' msk' ?q = Some (q', r)" "v2_inv q'" "v2_wid q' = ?n"
      "v2_inv r" "v2_wid r = ?n + 1" "v2_val r = N mod d"
      "v2_val q' = take_bit ?n (if s < ?n then N div d else 0)"
      using div_loop [OF inv(2) b dd(1,2) st(2,3) _ st(4,5) good q(1,2)] st(6) dd(3) q(3)
      by (auto simp: d_def)
    have "N div d \<le> N" using N(1) d by (metis div_by_1 zdiv_mono2 zero_less_one int_one_le_iff_zero_less)
    then have "take_bit ?n (N div d) = N div d"
      using N d by (intro take_bit_int_eq_self) (simp_all add: pos_imp_zdiv_nonneg_iff)
    then have qv: "v2_val q' = (if d = 1 \<and> 2 ^ (?n - 1) < N then 0 else N div d)"
      using lp(7) div_shift_fits [OF d N(2) _ st(7,8)] False by auto
    have rm: "N mod d < 2 ^ ?n" using N(2) False pos_mod_bound [OF d, of N] by simp
    note rr = v2_resized [OF lp(4), of ?n]
    have "v2_val (v2_resized r ?n) = N mod d"
      using rr(3) lp(6) rm d by (simp add: take_bit_int_eq_self)
    moreover have "div_mod a b = Some (q', v2_resized r ?n)"
      using nz v2_cmp(3) [OF inv] False st(1,5) lp(1) by (simp add: div_mod_def Let_def N_def d_def)
    ultimately show thesis using that lp(2,3) rr(1,2) qv by (simp add: N_def d_def)
  qed
qed

lemma div_mod_zero: "v2_inv a \<Longrightarrow> v2_inv b \<Longrightarrow> v2_val b = 0 \<Longrightarrow> div_mod a b = None"
  using v2_of_ulong [of 0 "v2_wid a"] by (simp add: div_mod_def Let_def v2_cmp(4))

section \<open>Power\<close>

lemma v2_pow_spec:
  assumes x: "v2_inv x" and "v2_inv y"
  shows "\<exists>r. v2_pow x y = Some r \<and> v2_inv r \<and> v2_wid r = v2_wid x
    \<and> v2_val r = take_bit (v2_wid x) (v2_val x ^ nat (v2_val y))"
  using assms(2)
proof (induction "nat (v2_val y)" arbitrary: y rule: less_induct)
  case less
  let ?n = "v2_wid x"
  have zero: "v2_eq y (v2_of_ulong 0 1) \<longleftrightarrow> v2_val y = 0"
    using v2_cmp(4) [OF less.prems v2_of_ulong(1)] v2_of_ulong(3) [of 0 1] by simp
  consider (zero) "v2_val y = 0" | (odd) "0 < v2_val y" "odd (v2_val y)" | (even) "0 < v2_val y" "even (v2_val y)"
    using v2_val_nonneg [of y] by linarith
  then show ?case
  proof cases
    case zero
    then have "v2_pow x y = Some (v2_of_ulong 1 ?n)"
      using \<open>v2_eq y (v2_of_ulong 0 1) \<longleftrightarrow> v2_val y = 0\<close> by (subst v2_pow.simps) simp
    with zero v2_of_ulong [of 1 ?n] show ?thesis by simp
  next
    case odd
    have w: "0 < v2_wid y" using v2_val_0 [OF less.prems] odd(1) by (cases "v2_wid y = 0") auto
    obtain y' where y': "v2_set_bit y 0 0 = Some y'" "v2_inv y'"
      "\<And>j. bit (v2_val y') j = (if j = 0 then False else bit (v2_val y) j)"
      using v2_set_bit_in [OF less.prems w, of 0] by auto
    have yv: "v2_val y' = v2_val y - 1"
    proof -
      have "v2_val y' = unset_bit 0 (v2_val y)"
        by (rule bit_eqI) (simp add: y'(3) bit_unset_bit_iff)
      then show ?thesis using odd(2) by (simp add: unset_bit_0 odd_two_times_div_two_succ [symmetric] minus_mod_eq_mult_div [symmetric] odd_iff_mod_2_eq_one)
    qed
    obtain p where p: "v2_pow x y' = Some p" "v2_inv p" "v2_wid p = ?n"
      "v2_val p = take_bit ?n (v2_val x ^ nat (v2_val y'))"
      using less.hyps [of y'] y'(2) yv odd(1) by auto
    obtain r where r: "v2_mul x p = Some r" "v2_inv r" "v2_wid r = ?n" "v2_val r = take_bit ?n (v2_val x * v2_val p)"
      using v2_mul [OF x p(2)] p(3) by metis
    have "nat (v2_val y) = Suc (nat (v2_val y'))" using yv odd(1) by simp
    then have "v2_val r = take_bit ?n (v2_val x ^ nat (v2_val y))"
      using r(4) p(4) take_bit_mult_left [of ?n "v2_val x ^ nat (v2_val y')" "v2_val x"] by (simp add: mult.commute)
    moreover have "v2_value y 0 = 1" using odd(2) v2_value_bit [OF less.prems] by (simp add: bit_0)
    ultimately show ?thesis using zero odd(1) y'(1) p(1) r by (subst v2_pow.simps) simp
  next
    case even
    note sh = v2_shr [OF less.prems, of 1]
    have half_less: "v2_val y div 2 < v2_val y" using even(1) by simp
    have half: "v2_val (v2_shr y 1) = v2_val y div 2" using sh(3) by simp
    obtain z where z: "v2_pow x (v2_shr y 1) = Some z" "v2_inv z" "v2_wid z = ?n"
      "v2_val z = take_bit ?n (v2_val x ^ nat (v2_val y div 2))"
      using less.hyps [of "v2_shr y 1"] sh(1) half even(1) by (metis half_less nat_mono_iff)
    obtain r where r: "v2_mul z z = Some r" "v2_inv r" "v2_wid r = ?n" "v2_val r = take_bit ?n (v2_val z * v2_val z)"
      using v2_mul [OF z(2) z(2)] z(3) by metis
    have "v2_val y = v2_val y div 2 + v2_val y div 2" using even(2) by simp
    then have "nat (v2_val y) = nat (v2_val y div 2) + nat (v2_val y div 2)"
      by (metis nat_add_distrib pos_imp_zdiv_nonneg_iff v2_val_nonneg zero_less_numeral)
    then have "v2_val r = take_bit ?n (v2_val x ^ nat (v2_val y))"
      using r(4) z(4) by (simp add: power_add take_bit_mult)
    moreover have "v2_value y 0 = 0" using even(2) v2_value_bit [OF less.prems] by (simp add: bit_0)
    ultimately show ?thesis using zero even(1) z(1) r by (subst v2_pow.simps) simp
  qed
qed

lemma vector2_to_vector4_spec:
  assumes "v2_inv v"
  obtains r where "vector2_to_vector4 v n = Some r" and "v4_inv r" and "v4_list r = bits_of n (v2_val v)"
proof -
  obtain r where r: "vector2_to_vector4 v n = Some r" "v4_inv r" "v4_size r = n"
    "\<And>i. i < n \<Longrightarrow> v4_value r i = (if v2_value v i \<noteq> 0 then BIT4_1 else BIT4_0)"
    using v4.build [OF v4_fill_inv, of n n BIT4_X "\<lambda>i. if v2_value v i \<noteq> 0 then BIT4_1 else BIT4_0"]
    by (auto simp: vector2_to_vector4_def)
  then have "v4_list r = bits_of n (v2_val v)"
    using v2_value_bit [OF assms] by (intro v4_listI) simp_all
  with r that show thesis by blast
qed

section \<open>Part select and trimming\<close>

lemma v2_subvalue:
  assumes inv: "v2_inv v"
  shows "v2_inv (v2_subvalue v base n)" "v2_wid (v2_subvalue v base n) = n"
    "v2_val (v2_subvalue v base n) = take_bit n (v2_val v div 2 ^ base)"
proof -
  let ?f = "\<lambda>(vec :: plane) idx. if v2_value v (base + idx) = 0 then vec
      else vec[idx div 64 := vec ! (idx div 64) OR push_bit (idx mod 64) 1]"
  define r where "r = foldl ?f (replicate (words_for n) 0) [0..<n]"
  have "length (foldl ?f (replicate (words_for n) 0) [0..<k]) = words_for n \<and> (\<forall>i < 64 * words_for n.
      pbit (foldl ?f (replicate (words_for n) 0) [0..<k]) i \<longleftrightarrow> i < k \<and> bit (v2_val v) (base + i))"
    if "k \<le> n" for k
    using that
  proof (induction k)
    case 0
    then show ?case by (simp add: pbit_replicate)
  next
    case (Suc k)
    let ?g = "foldl ?f (replicate (words_for n) 0) [0..<k]"
    have IH: "length ?g = words_for n" "\<And>i. i < 64 * words_for n \<Longrightarrow> pbit ?g i \<longleftrightarrow> i < k \<and> bit (v2_val v) (base + i)"
      using Suc by simp_all
    have k: "k div 64 < length ?g" using Suc.prems IH(1) by (simp add: div_less_words_for)
    have fits: "k mod 64 + 1 \<le> 64" by (simp add: Suc_leI)
    have "pbit (?g[k div 64 := ?g ! (k div 64) OR push_bit (k mod 64) 1]) i \<longleftrightarrow> pbit ?g i \<or> i = k" for i
      using or_pushed [OF k fits, of 1 i] by (auto simp del: push_bit_of_1 simp: bit_1_iff)
    with IH k show ?case using v2_value_bit [OF inv, of "base + k"] by (auto simp: less_Suc_eq)
  qed
  from this [of n] have r: "length r = words_for n"
    "\<And>i. i < 64 * words_for n \<Longrightarrow> pbit r i \<longleftrightarrow> i < n \<and> bit (v2_val v) (base + i)" by (simp_all add: r_def)
  have "take_bit n (pval r) = take_bit n (v2_val v div 2 ^ base)"
    using r words_for_mult_ge [of n]
    by (intro bit_eqI) (auto simp: bit_take_bit_iff bit_pval drop_bit_eq_div [symmetric] bit_drop_bit_eq)
  with clear_unused_bits [of "\<lparr>v2_wid = n, v2_vec = r\<rparr>"] r(1)
  show "v2_inv (v2_subvalue v base n)" "v2_wid (v2_subvalue v base n) = n"
    "v2_val (v2_subvalue v base n) = take_bit n (v2_val v div 2 ^ base)"
    by (simp_all add: v2_subvalue_def r_def)
qed

lemma v2_set_width:
  assumes inv: "v2_inv v" and w: "w \<le> v2_wid v"
  shows "v2_inv (v2_set_width v w)" "v2_wid (v2_set_width v w) = w" "v2_val (v2_set_width v w) = take_bit w (v2_val v)"
proof -
  have mono: "words_for w \<le> words_for (v2_wid v)" unfolding words_for_def using w by (intro div_le_mono) simp
  then have len: "length (take (words_for w) (v2_vec v)) = words_for w" using inv by (simp add: v2_inv_def)
  have "take_bit w (pval (take (words_for w) (v2_vec v))) = take_bit w (v2_val v)"
  proof (rule bit_eqI)
    fix i
    have "bit (pval (take (words_for w) (v2_vec v))) i = bit (v2_val v) i" if "i < w"
    proof -
      have "i < 64 * words_for w" "64 * words_for w \<le> 64 * words_for (v2_wid v)"
        using that words_for_mult_ge [of w] mono by simp_all
      moreover have "i div 64 < words_for w" using that by (rule div_less_words_for)
      ultimately show ?thesis using len inv by (simp add: bit_pval v2_val_def v2_inv_def pbit_def)
    qed
    then show "bit (take_bit w (pval (take (words_for w) (v2_vec v)))) i = bit (take_bit w (v2_val v)) i"
      by (auto simp: bit_take_bit_iff)
  qed
  with clear_unused_bits [of "\<lparr>v2_wid = w, v2_vec = take (words_for w) (v2_vec v)\<rparr>"] len
  show "v2_inv (v2_set_width v w)" "v2_wid (v2_set_width v w) = w" "v2_val (v2_set_width v w) = take_bit w (v2_val v)"
    by (simp_all add: v2_set_width_def)
qed

lemma trim_width:
  "trim_width v w \<le> w \<and> (0 < w \<longrightarrow> 0 < trim_width v w) \<and> (\<forall>i. trim_width v w \<le> i \<and> i < w \<longrightarrow> v2_value v i = 0)
   \<and> (1 < trim_width v w \<longrightarrow> v2_value v (trim_width v w - 1) \<noteq> 0)"
proof (induction w)
  case (Suc w)
  show ?case
  proof (cases "v2_value v w = 0 \<and> Suc w > 1")
    case True
    then have "trim_width v (Suc w) = trim_width v w" by simp
    then show ?thesis using Suc True by (auto simp: less_Suc_eq)
  next
    case False
    then have "trim_width v (Suc w) = Suc w" by auto
    then show ?thesis using False by auto
  qed
qed simp

lemma v2_trim_spec:
  assumes inv: "v2_inv v"
  shows "v2_inv (v2_trim v)" and "v2_val (v2_trim v) = v2_val v" and "v2_wid (v2_trim v) \<le> v2_wid v"
    and "1 < v2_wid (v2_trim v) \<Longrightarrow> bit (v2_val v) (v2_wid (v2_trim v) - 1)"
proof -
  let ?w = "trim_width v (v2_wid v)"
  note t = trim_width [of v "v2_wid v"]
  note sw = v2_set_width [OF inv, of ?w]
  have "take_bit ?w (v2_val v) = v2_val v"
  proof (rule bit_eqI)
    fix i
    have "i < ?w" if "bit (v2_val v) i"
      using that t v2_bit_lt [OF inv that] v2_value_bit [OF inv, of i] by (metis not_less of_bool_eq_1_iff zero_neq_one)
    then show "bit (take_bit ?w (v2_val v)) i = bit (v2_val v) i" by (auto simp: bit_take_bit_iff)
  qed
  with sw t v2_value_bit [OF inv, of "?w - 1"]
  show "v2_inv (v2_trim v)" and "v2_val (v2_trim v) = v2_val v" and "v2_wid (v2_trim v) \<le> v2_wid v"
    and "1 < v2_wid (v2_trim v) \<Longrightarrow> bit (v2_val v) (v2_wid (v2_trim v) - 1)"
    by (auto simp: v2_trim_def)
qed

end
