(* ===== verification/Strength.thy ===== *)
theory Strength
  imports Bit4
begin

text \<open>
  The strength-aware scalar \<^verbatim>\<open>vvp_scalar_t\<close> of \<^verbatim>\<open>vvp/vvp_net.h\<close> and the resolution of two
  drivers (\<^verbatim>\<open>resolve\<close>, \<^verbatim>\<open>fully_featured_resolv_\<close> in \<^verbatim>\<open>vvp/vvp_net.cc\<close>).  A scalar is one byte:
  two nibbles VSSS of a value and a strength, the high nibble being the end of the range of
  possible drives closest to supply1 and the low nibble the end closest to supply0.  The lemmas read
  a byte as the range of signed drives between its ends and relate the resolution of two bytes
  to the resolution of all the drives they may stand for.
\<close>

section \<open>The scalar\<close>

type_synonym vvp_scalar_t = "8 word"

definition STREN1 :: "vvp_scalar_t \<Rightarrow> nat" where
  "STREN1 v = unat (drop_bit 4 (v AND 0x70))"

definition STREN0 :: "vvp_scalar_t \<Rightarrow> nat" where
  "STREN0 v = unat (v AND 0x07)"

definition UNAMBIG :: "vvp_scalar_t \<Rightarrow> bool" where
  "UNAMBIG v \<longleftrightarrow> (v AND 0x0f) = (drop_bit 4 v AND 0x0f)"

definition scalar_hiz :: vvp_scalar_t where
  "scalar_hiz = 0"

text \<open>The constructor from a bit and two strengths; its assertions make it partial.\<close>

definition scalar_of :: "vvp_bit4_t \<Rightarrow> nat \<Rightarrow> nat \<Rightarrow> vvp_scalar_t option" where
  "scalar_of val str0 str1 =
    (if \<not> str0 \<le> 7 then None
     else if \<not> str1 \<le> 7 then None
     else Some (if str0 = 0 \<and> str1 = 0 then 0x00
       else case val of
         BIT4_0 \<Rightarrow> of_nat (str0 OR push_bit 4 str0)
       | BIT4_1 \<Rightarrow> of_nat (str1 OR push_bit 4 str1 OR 0x88)
       | BIT4_X \<Rightarrow> of_nat (str0 OR push_bit 4 str1 OR 0x80)
       | BIT4_Z \<Rightarrow> 0x00))"

definition is_hiz :: "vvp_scalar_t \<Rightarrow> bool" where
  "is_hiz v \<longleftrightarrow> v AND 0x77 = 0"

definition scalar_value :: "vvp_scalar_t \<Rightarrow> vvp_bit4_t" where
  "scalar_value v =
    (if v AND 0x77 = 0 then BIT4_Z
     else if v AND 0x88 = 0x00 then BIT4_0
     else if v AND 0x88 = 0x88 then BIT4_1
     else BIT4_X)"

definition strength0 :: "vvp_scalar_t \<Rightarrow> nat" where
  "strength0 v = STREN0 v"

definition strength1 :: "vvp_scalar_t \<Rightarrow> nat" where
  "strength1 v = STREN1 v"

definition scalar_eeq :: "vvp_scalar_t \<Rightarrow> vvp_scalar_t \<Rightarrow> bool" where
  "scalar_eeq v that \<longleftrightarrow> v = that"

text \<open>The stream form: the two strengths in decimal, then the value letter.\<close>

definition scalar_print :: "vvp_scalar_t \<Rightarrow> string" where
  "scalar_print a = [char_of (48 + strength0 a), char_of (48 + strength1 a),
     case scalar_value a of BIT4_0 \<Rightarrow> CHR ''0'' | BIT4_1 \<Rightarrow> CHR ''1'' | BIT4_X \<Rightarrow> CHR ''X''
       | BIT4_Z \<Rightarrow> CHR ''Z'']"

section \<open>Resolution\<close>

text \<open>
  The signed strength of the two ends of a range, as the last part of
  \<^verbatim>\<open>fully_featured_resolv_\<close> computes them.
\<close>

definition sv1 :: "vvp_scalar_t \<Rightarrow> int" where
  "sv1 v = (if v AND 0x80 \<noteq> 0 then int (STREN1 v) else - int (STREN1 v))"

definition sv0 :: "vvp_scalar_t \<Rightarrow> int" where
  "sv0 v = (if v AND 0x08 \<noteq> 0 then int (STREN0 v) else - int (STREN0 v))"

definition sweep :: "vvp_scalar_t \<Rightarrow> vvp_scalar_t \<Rightarrow> vvp_scalar_t" where
  "sweep a b =
    (let res = scalar_hiz;
         res = (if a AND 0x70 > b AND 0x70 then res OR (a AND 0xf0) else res OR (b AND 0xf0));
         res = (if a AND 0x07 > b AND 0x07 then res OR (a AND 0x0f) else res OR (b AND 0x0f))
     in res)"

text \<open>Both ambiguous: the ends of the result, and the byte made of them.\<close>

definition widest1 :: "vvp_scalar_t \<Rightarrow> vvp_scalar_t \<Rightarrow> int" where
  "widest1 a b =
    (let s1 = sv1 a;
         s1 = (if sv0 a > s1 then sv0 a else s1);
         s1 = (if sv1 b > s1 then sv1 b else s1);
         s1 = (if sv0 b > s1 then sv0 b else s1)
     in s1)"

definition widest0 :: "vvp_scalar_t \<Rightarrow> vvp_scalar_t \<Rightarrow> int" where
  "widest0 a b =
    (let s0 = sv0 a;
         s0 = (if sv1 a < s0 then sv1 a else s0);
         s0 = (if sv1 b < s0 then sv1 b else s0);
         s0 = (if sv0 b < s0 then sv0 b else s0)
     in s0)"

definition wide_byte :: "vvp_scalar_t \<Rightarrow> vvp_scalar_t \<Rightarrow> int \<Rightarrow> int \<Rightarrow> vvp_scalar_t" where
  "wide_byte a b s1 s0 =
    (let tmp = (if s1 > 0 then 0x80 OR of_int (push_bit 4 s1)
           else (a AND b AND 0x80) OR of_int (push_bit 4 (- s1)));
         tmp = (if s0 > 0 then tmp OR 0x08 OR of_int s0 else tmp OR of_int (- s0))
     in if tmp AND 0x77 = 0 then 0 else tmp)"

definition fully_featured_resolv :: "vvp_scalar_t \<Rightarrow> vvp_scalar_t \<Rightarrow> vvp_scalar_t" where
  "fully_featured_resolv a b =
    (if UNAMBIG a \<and> UNAMBIG b then
       if b AND 0x07 > a AND 0x07 then b
       else if b AND 0x77 = a AND 0x77 then (a AND 0x77) OR 0x80
       else a
     else if UNAMBIG a then sweep a b
     else if UNAMBIG b then sweep b a
     else wide_byte a b (widest1 a b) (widest0 a b))"

definition resolve :: "vvp_scalar_t \<Rightarrow> vvp_scalar_t \<Rightarrow> vvp_scalar_t" where
  "resolve a b =
    (if is_hiz a then b
     else if is_hiz b then a
     else if scalar_eeq a b then a
     else fully_featured_resolv a b)"

text \<open>The strength reduction of the switch devices: non-resistive and resistive.\<close>

definition vvp_switch_strength_map :: "nat list list" where
  "vvp_switch_strength_map = [[0, 1, 2, 3, 4, 5, 6, 6], [0, 1, 1, 2, 2, 3, 5, 5]]"

section \<open>The parts of a byte\<close>

text \<open>
  A byte is its two value bits and its two strengths.  The masks of the code read these parts, and two
  bytes with equal parts are equal.
\<close>

lemma byte_masks:
  fixes v :: vvp_scalar_t
  shows "v AND 0x07 = take_bit 3 v" and "v AND 0x0f = take_bit 4 v"
    and "v AND 0xf0 = push_bit 4 (drop_bit 4 v)" and "v AND 0x70 = push_bit 4 (take_bit 3 (drop_bit 4 v))"
    and "v AND 0x77 = push_bit 4 (take_bit 3 (drop_bit 4 v)) OR take_bit 3 v"
proof -
  have m: "(0x07 :: vvp_scalar_t) = mask 3" "(0x0f :: vvp_scalar_t) = mask 4"
    "(0xf0 :: vvp_scalar_t) = push_bit 4 (mask 4)" "(0x70 :: vvp_scalar_t) = push_bit 4 (mask 3)"
    "(0x77 :: vvp_scalar_t) = push_bit 4 (mask 3) OR mask 3"
    by (simp_all add: mask_eq_exp_minus_1)
  show "v AND 0x07 = take_bit 3 v" "v AND 0x0f = take_bit 4 v"
    "v AND 0xf0 = push_bit 4 (drop_bit 4 v)" "v AND 0x70 = push_bit 4 (take_bit 3 (drop_bit 4 v))"
    "v AND 0x77 = push_bit 4 (take_bit 3 (drop_bit 4 v)) OR take_bit 3 v"
    unfolding m by (rule bit_word_eqI; auto simp: bit_simps)+
qed

lemma byte_eq_iff:
  "(v :: vvp_scalar_t) = w \<longleftrightarrow> (bit v 0 = bit w 0 \<and> bit v 1 = bit w 1 \<and> bit v 2 = bit w 2) \<and> bit v 3 = bit w 3
     \<and> (bit v 4 = bit w 4 \<and> bit v 5 = bit w 5 \<and> bit v 6 = bit w 6) \<and> bit v 7 = bit w 7"
proof
  assume R: "(bit v 0 = bit w 0 \<and> bit v 1 = bit w 1 \<and> bit v 2 = bit w 2) \<and> bit v 3 = bit w 3
     \<and> (bit v 4 = bit w 4 \<and> bit v 5 = bit w 5 \<and> bit v 6 = bit w 6) \<and> bit v 7 = bit w 7"
  show "v = w"
  proof (rule bit_word_eqI)
    fix n assume "n < LENGTH(8)"
    then consider "n = 0" | "n = 1" | "n = 2" | "n = 3" | "n = 4" | "n = 5" | "n = 6" | "n = 7"
      by force
    then show "bit v n = bit w n" by cases (use R in simp_all)
  qed
qed simp

lemma three_bits:
  fixes v w :: vvp_scalar_t
  shows "take_bit 3 v = take_bit 3 w \<longleftrightarrow> bit v 0 = bit w 0 \<and> bit v 1 = bit w 1 \<and> bit v 2 = bit w 2"
  unfolding byte_eq_iff [of "take_bit 3 v"] by (simp add: bit_take_bit_iff)

lemma STREN_words: "STREN1 v = unat (take_bit 3 (drop_bit 4 v))" "STREN0 v = unat (take_bit 3 v)"
proof -
  have "drop_bit 4 (push_bit 4 (take_bit 3 (drop_bit 4 v))) = take_bit 3 (drop_bit 4 v)"
    by (rule bit_word_eqI) (auto simp: bit_simps)
  then show "STREN1 v = unat (take_bit 3 (drop_bit 4 v))" "STREN0 v = unat (take_bit 3 v)"
    by (simp_all add: STREN1_def STREN0_def byte_masks)
qed

lemma STREN_lt: "STREN1 v < 8" "STREN0 v < 8"
proof -
  have "unat (take_bit 3 w) < 8" for w :: vvp_scalar_t
    using take_bit_nat_less_exp [of 3 "unat w"] by (simp add: unsigned_take_bit_eq)
  then show "STREN1 v < 8" "STREN0 v < 8" by (simp_all add: STREN_words)
qed

lemma STREN_eq:
  "STREN1 v = STREN1 w \<longleftrightarrow> bit v 4 = bit w 4 \<and> bit v 5 = bit w 5 \<and> bit v 6 = bit w 6"
  "STREN0 v = STREN0 w \<longleftrightarrow> bit v 0 = bit w 0 \<and> bit v 1 = bit w 1 \<and> bit v 2 = bit w 2"
  "STREN1 v = STREN0 w \<longleftrightarrow> bit v 4 = bit w 0 \<and> bit v 5 = bit w 1 \<and> bit v 6 = bit w 2"
  by (simp_all add: STREN_words word_unat_eq_iff [symmetric] three_bits bit_drop_bit_eq)

lemma STREN_0 [simp]: "STREN1 0 = 0" "STREN0 0 = 0"
  by (simp_all add: STREN_words)

lemma byte_parts:
  "v = w \<longleftrightarrow> bit v 7 = bit w 7 \<and> STREN1 v = STREN1 w \<and> bit v 3 = bit w 3 \<and> STREN0 v = STREN0 w"
  unfolding STREN_eq byte_eq_iff [of v w] by blast

lemma value_bits:
  fixes v :: vvp_scalar_t
  shows "v AND 0x80 = 0 \<longleftrightarrow> \<not> bit v 7" and "v AND 0x08 = 0 \<longleftrightarrow> \<not> bit v 3"
    and "v AND 0x88 = 0 \<longleftrightarrow> \<not> bit v 7 \<and> \<not> bit v 3" and "v AND 0x88 = 0x88 \<longleftrightarrow> bit v 7 \<and> bit v 3"
  by (auto simp: byte_eq_iff bit_and_iff)

lemma hiz_parts: "v AND 0x77 = 0 \<longleftrightarrow> STREN1 v = 0 \<and> STREN0 v = 0"
  using STREN_eq(1) [of v 0] STREN_eq(2) [of v 0] by (auto simp: byte_eq_iff bit_and_iff)

lemma same_strengths: "b AND 0x77 = a AND 0x77 \<longleftrightarrow> STREN1 b = STREN1 a \<and> STREN0 b = STREN0 a"
  unfolding STREN_eq by (auto simp: byte_eq_iff bit_and_iff)

lemma UNAMBIG_parts: "UNAMBIG v \<longleftrightarrow> bit v 7 = bit v 3 \<and> STREN1 v = STREN0 v"
  unfolding STREN_eq UNAMBIG_def by (auto simp: byte_eq_iff bit_and_iff bit_drop_bit_eq)

lemma compare_strengths:
  "a AND 0x07 > b AND 0x07 \<longleftrightarrow> STREN0 a > STREN0 b" "a AND 0x70 > b AND 0x70 \<longleftrightarrow> STREN1 a > STREN1 b"
proof -
  show "a AND 0x07 > b AND 0x07 \<longleftrightarrow> STREN0 a > STREN0 b"
    by (simp add: STREN0_def word_less_nat_alt)
  have "unat (push_bit 4 (take_bit 3 w)) = 16 * unat (take_bit 3 w)" for w :: vvp_scalar_t
  proof -
    have "unat (take_bit 3 w) < 8" using take_bit_nat_less_exp [of 3 "unat w"] by (simp add: unsigned_take_bit_eq)
    then have "16 * unat (take_bit 3 w) < 2 ^ 8" by simp
    then show ?thesis by (simp add: push_bit_eq_mult unat_mult_lem [THEN iffD1] mult.commute unat_word_ariths)
  qed
  then show "a AND 0x70 > b AND 0x70 \<longleftrightarrow> STREN1 a > STREN1 b"
    by (simp add: byte_masks STREN_words word_less_nat_alt)
qed

lemma value_parts:
  "scalar_value v = (if STREN1 v = 0 \<and> STREN0 v = 0 then BIT4_Z
     else if bit v 7 \<and> bit v 3 then BIT4_1 else if bit v 7 \<or> bit v 3 then BIT4_X else BIT4_0)"
  by (simp add: scalar_value_def hiz_parts value_bits)

lemma sv_parts:
  "sv1 v = (if bit v 7 then int (STREN1 v) else - int (STREN1 v))"
  "sv0 v = (if bit v 3 then int (STREN0 v) else - int (STREN0 v))"
  by (simp_all add: sv1_def sv0_def value_bits)

text \<open>Bytes put together from parts, as the constructor and the resolution do.\<close>

lemma join_parts:
  fixes a b :: vvp_scalar_t
  shows "bit (a AND 0xf0 OR b AND 0x0f) 7 = bit a 7" "STREN1 (a AND 0xf0 OR b AND 0x0f) = STREN1 a"
    "bit (a AND 0xf0 OR b AND 0x0f) 3 = bit b 3" "STREN0 (a AND 0xf0 OR b AND 0x0f) = STREN0 b"
  unfolding STREN_eq by (simp_all add: bit_or_iff bit_and_iff)

definition pack :: "bool \<Rightarrow> nat \<Rightarrow> bool \<Rightarrow> nat \<Rightarrow> vvp_scalar_t" where
  "pack V1 k1 V0 k0 = (if V1 then 0x80 else 0) OR push_bit 4 (of_nat k1) OR (if V0 then 0x08 else 0) OR of_nat k0"

lemma small_bit: "k < 8 \<Longrightarrow> 3 \<le> n \<Longrightarrow> \<not> bit (k :: nat) n"
proof -
  assume "k < 8" "3 \<le> n"
  then have "k < 2 ^ n" using power_increasing [of 3 n "2 :: nat"] by simp
  then show ?thesis by (simp add: bit_iff_odd)
qed

lemma pack_parts [simp]:
  assumes "k1 < 8" and "k0 < 8"
  shows "bit (pack V1 k1 V0 k0) 7 = V1" "STREN1 (pack V1 k1 V0 k0) = k1"
    "bit (pack V1 k1 V0 k0) 3 = V0" "STREN0 (pack V1 k1 V0 k0) = k0"
proof -
  have b: "bit (of_nat k :: vvp_scalar_t) n \<longleftrightarrow> n < 3 \<and> bit k n" if "k < 8" for k n
    using small_bit [OF that, of n] by (auto simp: bit_of_nat_iff not_less [symmetric])
  show "bit (pack V1 k1 V0 k0) 7 = V1" "bit (pack V1 k1 V0 k0) 3 = V0"
    using assms by (simp_all add: pack_def bit_or_iff bit_push_bit_iff b)
  have S: "STREN0 (of_nat k) = k" if "k < 8" for k
  proof -
    have "take_bit 3 (of_nat k) = (of_nat k :: vvp_scalar_t)"
      using b [OF that] by (intro bit_word_eqI) (auto simp: bit_take_bit_iff)
    then show ?thesis using that by (simp add: STREN_words unat_of_nat)
  qed
  have "STREN1 (pack V1 k1 V0 k0) = STREN0 (of_nat k1)" "STREN0 (pack V1 k1 V0 k0) = STREN0 (of_nat k0)"
    unfolding STREN_eq pack_def using assms by (simp_all add: bit_or_iff bit_push_bit_iff b)
  with S assms show "STREN1 (pack V1 k1 V0 k0) = k1" "STREN0 (pack V1 k1 V0 k0) = k0" by simp_all
qed

lemma scalar_of_pack:
  "str0 \<le> 7 \<Longrightarrow> str1 \<le> 7 \<Longrightarrow> scalar_of val str0 str1 = Some (if str0 = 0 \<and> str1 = 0 then 0 else case val of
     BIT4_0 \<Rightarrow> pack False str0 False str0 | BIT4_1 \<Rightarrow> pack True str1 True str1
   | BIT4_X \<Rightarrow> pack True str1 False str0 | BIT4_Z \<Rightarrow> 0)"
proof -
  have "(0x88 :: vvp_scalar_t) = 0x80 OR 0x08" by simp
  then have "x OR y OR (0x88 :: vvp_scalar_t) = 0x80 OR y OR 0x08 OR x" for x y by (simp add: ac_simps)
  then show "str0 \<le> 7 \<Longrightarrow> str1 \<le> 7 \<Longrightarrow> ?thesis"
    by (auto simp: scalar_of_def pack_def of_nat_or_eq of_nat_push_bit split: vvp_bit4_t.split) (simp_all add: ac_simps)
qed

text \<open>Every scalar the constructor makes reads back as its bit, with its strengths, unless the drive of
  the bit has no strength.\<close>

lemma scalar_of_reads:
  assumes "str0 \<le> 7" and "str1 \<le> 7"
  obtains v where "scalar_of val str0 str1 = Some v" and "scalar_value v =
    (if val = BIT4_0 \<and> str0 = 0 \<or> val = BIT4_1 \<and> str1 = 0 \<or> str0 = 0 \<and> str1 = 0 then BIT4_Z else val)"
  and "sv0 v = (if val = BIT4_1 then int str1 else if val = BIT4_Z then 0 else - int str0)"
  and "sv1 v = (if val = BIT4_0 then - int str0 else if val = BIT4_Z then 0 else int str1)"
  using scalar_of_pack [OF assms, of val] assms
  by (cases val) (auto simp: value_parts sv_parts)

section \<open>Resolution of ranges of drives\<close>

text \<open>
  A drive is a signed strength: positive towards 1, negative towards 0, zero for no drive.  A byte
  covers the drives between its ends.  Two known drives resolve to the stronger; equal strengths of
  opposite value leave everything between the two possible.
\<close>

definition covers :: "vvp_scalar_t \<Rightarrow> int \<Rightarrow> bool" where
  "covers v z \<longleftrightarrow> sv0 v \<le> z \<and> z \<le> sv1 v"

definition drives :: "int \<Rightarrow> int \<Rightarrow> int \<Rightarrow> bool" where
  "drives x y z \<longleftrightarrow> (if \<bar>x\<bar> > \<bar>y\<bar> then z = x else if \<bar>y\<bar> > \<bar>x\<bar> then z = y else min x y \<le> z \<and> z \<le> max x y)"

definition scalar_ok :: "vvp_scalar_t \<Rightarrow> bool" where
  "scalar_ok v \<longleftrightarrow> sv0 v \<le> sv1 v \<and> (is_hiz v \<longrightarrow> v = 0)"

text \<open>
  The case the sweeping rule of the code gets wrong: a known drive against a range that starts at the
  same strength of the opposite value and goes on to stronger drives of that value.
\<close>

definition near_tie :: "vvp_scalar_t \<Rightarrow> vvp_scalar_t \<Rightarrow> bool" where
  "near_tie a b \<longleftrightarrow> UNAMBIG a \<and> \<not> UNAMBIG b \<and> \<not> is_hiz a \<and>
     (0 < sv1 a \<and> sv1 b = - sv1 a \<or> sv0 a < 0 \<and> sv0 b = - sv0 a)"

lemma sweep_parts:
  "bit (sweep a b) 7 = bit (if STREN1 a > STREN1 b then a else b) 7"
  "STREN1 (sweep a b) = max (STREN1 a) (STREN1 b)"
  "bit (sweep a b) 3 = bit (if STREN0 a > STREN0 b then a else b) 3"
  "STREN0 (sweep a b) = max (STREN0 a) (STREN0 b)"
proof -
  have "sweep a b = ((if STREN1 a > STREN1 b then a else b) AND 0xf0) OR ((if STREN0 a > STREN0 b then a else b) AND 0x0f)"
    by (simp add: sweep_def scalar_hiz_def compare_strengths Let_def)
  then show "bit (sweep a b) 7 = bit (if STREN1 a > STREN1 b then a else b) 7"
    "STREN1 (sweep a b) = max (STREN1 a) (STREN1 b)"
    "bit (sweep a b) 3 = bit (if STREN0 a > STREN0 b then a else b) 3"
    "STREN0 (sweep a b) = max (STREN0 a) (STREN0 b)"
    by (simp_all only: join_parts) (simp_all add: max_def)
qed

lemma UNAMBIG_sv: "UNAMBIG v \<Longrightarrow> sv0 v = sv1 v"
  by (simp add: UNAMBIG_parts sv_parts)

lemma hiz_sv: "is_hiz v \<longleftrightarrow> sv0 v = 0 \<and> sv1 v = 0"
  by (auto simp: is_hiz_def hiz_parts sv_parts)

lemma abs_sv: "\<bar>sv1 v\<bar> = int (STREN1 v)" "\<bar>sv0 v\<bar> = int (STREN0 v)"
  by (simp_all add: sv_parts)

lemma sweep_sv:
  "sv1 (sweep a b) = (if \<bar>sv1 a\<bar> > \<bar>sv1 b\<bar> then sv1 a else sv1 b)"
  "sv0 (sweep a b) = (if \<bar>sv0 a\<bar> > \<bar>sv0 b\<bar> then sv0 a else sv0 b)"
proof -
  have p: "sv1 (sweep a b) = (if bit (sweep a b) 7 then int (STREN1 (sweep a b)) else - int (STREN1 (sweep a b)))"
    "sv0 (sweep a b) = (if bit (sweep a b) 3 then int (STREN0 (sweep a b)) else - int (STREN0 (sweep a b)))"
    by (rule sv_parts)+
  show "sv1 (sweep a b) = (if \<bar>sv1 a\<bar> > \<bar>sv1 b\<bar> then sv1 a else sv1 b)"
    "sv0 (sweep a b) = (if \<bar>sv0 a\<bar> > \<bar>sv0 b\<bar> then sv0 a else sv0 b)"
    unfolding p sweep_parts abs_sv by (simp_all add: sv_parts max_def)
qed

lemma sweep_range:
  fixes s l h y z :: int
  assumes "s \<noteq> 0" and "\<not> (0 < s \<and> h = - s)" and "\<not> (s < 0 \<and> l = - s)" and "l \<le> y" and "y \<le> h"
    and "drives s y z"
  shows "(if \<bar>s\<bar> > \<bar>l\<bar> then s else l) \<le> z" and "z \<le> (if \<bar>s\<bar> > \<bar>h\<bar> then s else h)"
proof -
  consider "z = s" "\<bar>y\<bar> < \<bar>s\<bar>" | "z = y" "\<bar>s\<bar> < \<bar>y\<bar>" | "\<bar>y\<bar> = \<bar>s\<bar>" "min s y \<le> z" "z \<le> max s y"
    using assms(6) unfolding drives_def by (metis linorder_cases)
  note c = this
  show "(if \<bar>s\<bar> > \<bar>l\<bar> then s else l) \<le> z" by (rule c) (use assms(1-5) in \<open>auto split: if_splits\<close>)
  show "z \<le> (if \<bar>s\<bar> > \<bar>h\<bar> then s else h)" by (rule c) (use assms(1-5) in \<open>auto split: if_splits\<close>)
qed

lemma sweep_sound:
  assumes "UNAMBIG a" and "\<not> near_tie a b" and "\<not> UNAMBIG b" and "\<not> is_hiz a"
    and "covers b y" and "drives (sv1 a) y z"
  shows "covers (sweep a b) z"
proof -
  have eq: "sv0 a = sv1 a" by (rule UNAMBIG_sv [OF assms(1)])
  have "sv1 a \<noteq> 0" using assms(4) eq by (auto simp: hiz_sv)
  moreover have "\<not> (0 < sv1 a \<and> sv1 b = - sv1 a)" "\<not> (sv1 a < 0 \<and> sv0 b = - sv1 a)"
    using assms(1-4) eq by (auto simp: near_tie_def)
  ultimately show ?thesis
    using assms(5,6) sweep_range [of "sv1 a" "sv1 b" "sv0 b" y z] unfolding covers_def sweep_sv eq by blast
qed

text \<open>Two ambiguous ranges: the result spans all four ends.\<close>

definition span1 :: "vvp_scalar_t \<Rightarrow> vvp_scalar_t \<Rightarrow> int" where
  "span1 a b = max (max (sv1 a) (sv0 a)) (max (sv1 b) (sv0 b))"

definition span0 :: "vvp_scalar_t \<Rightarrow> vvp_scalar_t \<Rightarrow> int" where
  "span0 a b = min (min (sv1 a) (sv0 a)) (min (sv1 b) (sv0 b))"

lemma sv_bounds: "\<bar>sv1 v\<bar> < 8" "\<bar>sv0 v\<bar> < 8"
  using STREN_lt [of v] by (simp_all add: abs_sv)

lemma of_int_abs:
  "0 \<le> k \<Longrightarrow> (of_int k :: vvp_scalar_t) = of_nat (nat \<bar>k\<bar>)"
  "0 \<le> k \<Longrightarrow> (of_int (push_bit 4 k) :: vvp_scalar_t) = push_bit 4 (of_nat (nat \<bar>k\<bar>))"
proof -
  assume "0 \<le> k"
  then obtain n where k: "k = int n" by (rule nonneg_int_cases)
  show "(of_int k :: vvp_scalar_t) = of_nat (nat \<bar>k\<bar>)"
    "(of_int (push_bit 4 k) :: vvp_scalar_t) = push_bit 4 (of_nat (nat \<bar>k\<bar>))"
    unfolding k by (simp_all add: push_bit_eq_mult)
qed

lemma wide_pack:
  assumes "\<not> UNAMBIG a" and "\<not> UNAMBIG b"
  defines "r \<equiv> pack (0 < span1 a b \<or> bit a 7 \<and> bit b 7) (nat \<bar>span1 a b\<bar>) (0 < span0 a b) (nat \<bar>span0 a b\<bar>)"
  shows "fully_featured_resolv a b = (if r AND 0x77 = 0 then 0 else r)"
proof -
  have w: "widest1 a b = span1 a b" "widest0 a b = span0 a b"
    by (simp_all add: span1_def span0_def widest1_def widest0_def max_def min_def Let_def)
  have low: "(if s > 0 then T OR 0x08 OR of_int s else T OR of_int (- s))
      = T OR (if 0 < s then 0x08 else 0) OR (of_nat (nat \<bar>s\<bar>) :: vvp_scalar_t)" for s and T :: vvp_scalar_t
    using of_int_abs(1) [of s] of_int_abs(1) [of "- s"] by (cases "0 < s") (simp_all only: abs_minus_cancel if_True if_False or.assoc or.right_neutral, simp_all)
  have ab: "a AND b AND 0x80 = (if bit a 7 \<and> bit b 7 then 0x80 else 0)"
    by (auto simp: byte_eq_iff bit_and_iff)
  have high: "(if s > 0 then 0x80 OR of_int (push_bit 4 s) else (a AND b AND 0x80) OR of_int (push_bit 4 (- s)))
      = (if 0 < s \<or> bit a 7 \<and> bit b 7 then 0x80 else 0) OR push_bit 4 (of_nat (nat \<bar>s\<bar>) :: vvp_scalar_t)" for s
    using of_int_abs(2) [of s] of_int_abs(2) [of "- s"] unfolding ab by (cases "0 < s") simp_all
  have "fully_featured_resolv a b = wide_byte a b (span1 a b) (span0 a b)"
    unfolding fully_featured_resolv_def w using assms(1,2) by simp
  also have "\<dots> = (if r AND 0x77 = 0 then 0 else r)"
    unfolding r_def wide_byte_def pack_def Let_def high low or.assoc by (rule refl)
  finally show ?thesis .
qed

lemma wide_sv:
  assumes "\<not> UNAMBIG a" and "\<not> UNAMBIG b"
  shows "sv1 (fully_featured_resolv a b) = span1 a b" "sv0 (fully_featured_resolv a b) = span0 a b"
proof -
  let ?r = "pack (0 < span1 a b \<or> bit a 7 \<and> bit b 7) (nat \<bar>span1 a b\<bar>) (0 < span0 a b) (nat \<bar>span0 a b\<bar>)"
  have lt: "nat \<bar>span1 a b\<bar> < 8" "nat \<bar>span0 a b\<bar> < 8"
    using sv_bounds [of a] sv_bounds [of b] by (auto simp: span1_def span0_def max_def min_def)
  have "bit a 7 \<Longrightarrow> 0 \<le> span1 a b" by (simp add: span1_def sv_parts le_max_iff_disj)
  with lt have r: "sv1 ?r = span1 a b" "sv0 ?r = span0 a b"
    unfolding sv_parts(1) [of ?r] sv_parts(2) [of ?r] pack_parts [OF lt] by auto
  then have "?r AND 0x77 = 0 \<longleftrightarrow> span1 a b = 0 \<and> span0 a b = 0"
    unfolding hiz_parts pack_parts [OF lt] by auto
  with r show "sv1 (fully_featured_resolv a b) = span1 a b" "sv0 (fully_featured_resolv a b) = span0 a b"
    unfolding wide_pack [OF assms] by (auto simp: sv_parts(1) [of 0] sv_parts(2) [of 0])
qed

lemma wide_sound:
  assumes "\<not> UNAMBIG a" and "\<not> UNAMBIG b" and "covers a x" and "covers b y" and "drives x y z"
  shows "covers (fully_featured_resolv a b) z"
proof -
  have "z = x \<or> z = y \<or> min x y \<le> z \<and> z \<le> max x y"
    using assms(5) unfolding drives_def by (auto split: if_splits)
  with assms(3,4) have "min (sv0 a) (sv0 b) \<le> z" "z \<le> max (sv1 a) (sv1 b)" by (auto simp: covers_def)
  then show ?thesis
    unfolding covers_def wide_sv [OF assms(1,2)] span1_def span0_def by auto
qed

lemma known_sound:
  assumes "UNAMBIG a" and "UNAMBIG b" and "\<not> is_hiz a" and "\<not> is_hiz b" and "a \<noteq> b" and "drives (sv1 a) (sv1 b) z"
  shows "covers (fully_featured_resolv a b) z"
proof -
  note sv = UNAMBIG_sv [OF assms(1)] UNAMBIG_sv [OF assms(2)]
  have S: "STREN1 a = STREN0 a" "STREN1 b = STREN0 b" using assms(1,2) by (simp_all add: UNAMBIG_parts)
  have abs: "int (STREN0 a) = \<bar>sv1 a\<bar>" "int (STREN0 b) = \<bar>sv1 b\<bar>" using abs_sv(2) [of a] abs_sv(2) [of b] sv by simp_all
  let ?x = "(a AND 0x77) OR 0x80"
  have x: "sv1 ?x = int (STREN0 a)" "sv0 ?x = - int (STREN0 a)"
  proof -
    have "STREN1 ?x = STREN1 a" "STREN0 ?x = STREN0 a" unfolding STREN_eq by (simp_all add: bit_or_iff bit_and_iff)
    then show "sv1 ?x = int (STREN0 a)" "sv0 ?x = - int (STREN0 a)"
      using S by (simp_all add: sv_parts bit_or_iff bit_and_iff)
  qed
  consider "STREN0 b > STREN0 a" | "STREN0 b = STREN0 a" | "STREN0 b < STREN0 a" by linarith
  then show ?thesis
  proof cases
    case 2
    then have "min (sv1 a) (sv1 b) \<le> z" "z \<le> max (sv1 a) (sv1 b)" "\<bar>sv1 a\<bar> = \<bar>sv1 b\<bar>"
      using assms(6) abs by (auto simp: drives_def)
    then have "covers ?x z" unfolding covers_def x abs by auto
    then show ?thesis
      unfolding fully_featured_resolv_def compare_strengths same_strengths using 2 assms(1,2) S by simp
  qed (use assms sv abs S in \<open>auto simp: fully_featured_resolv_def compare_strengths same_strengths drives_def covers_def\<close>)
qed

lemma drives_commute: "drives x y z \<longleftrightarrow> drives y x z"
  by (auto simp: drives_def min.commute max.commute)

lemma drives_0: "drives 0 y z \<Longrightarrow> z = y" "drives x 0 z \<Longrightarrow> z = x"
  by (auto simp: drives_def split: if_splits)

lemma known_covers: "UNAMBIG v \<Longrightarrow> covers v x \<longleftrightarrow> x = sv1 v"
  by (auto simp: covers_def UNAMBIG_sv)

lemma resolve_sound:
  assumes tie: "\<not> near_tie a b" "\<not> near_tie b a"
    and cov: "covers a x" "covers b y" and z: "drives x y z"
  shows "covers (resolve a b) z"
proof -
  consider "is_hiz a" | "is_hiz b" | "a = b" | (full) "\<not> is_hiz a" "\<not> is_hiz b" "a \<noteq> b" by blast
  then show ?thesis
  proof cases
    case 1
    then have "x = 0" using cov by (auto simp: hiz_sv covers_def)
    then have "z = y" using z drives_0(1) by blast
    with 1 cov show ?thesis by (simp add: resolve_def)
  next
    case 2
    then have "y = 0" using cov by (auto simp: hiz_sv covers_def)
    then have "z = x" using z drives_0(2) by blast
    moreover have "sv0 (resolve a b) = sv0 a" "sv1 (resolve a b) = sv1 a"
      using 2 hiz_sv [of a] hiz_sv [of b] by (auto simp: resolve_def)
    ultimately show ?thesis using cov by (simp add: covers_def)
  next
    case 3
    then have "covers a z" using cov z by (auto simp: drives_def covers_def split: if_splits)
    with 3 show ?thesis by (simp add: resolve_def scalar_eeq_def)
  next
    case full
    then have r: "resolve a b = fully_featured_resolv a b" by (simp add: resolve_def scalar_eeq_def)
    consider (both) "UNAMBIG a" "UNAMBIG b" | (left) "UNAMBIG a" "\<not> UNAMBIG b"
      | (right) "\<not> UNAMBIG a" "UNAMBIG b" | (none) "\<not> UNAMBIG a" "\<not> UNAMBIG b" by blast
    then show ?thesis
    proof cases
      case both
      with known_sound [OF both full] cov z r show ?thesis by (simp add: known_covers)
    next
      case left
      with sweep_sound [OF left(1) tie(1) left(2) full(1) cov(2)] cov z r show ?thesis
        by (simp add: known_covers fully_featured_resolv_def)
    next
      case right
      with sweep_sound [OF right(2) tie(2) right(1) full(2) cov(1)] cov z r show ?thesis
        by (simp add: known_covers fully_featured_resolv_def drives_commute)
    next
      case none
      with wide_sound [OF none cov z] r show ?thesis by simp
    qed
  qed
qed

lemma resolve_commute:
  assumes "scalar_ok a" and "scalar_ok b"
  shows "resolve a b = resolve b a"
proof -
  have "fully_featured_resolv a b = fully_featured_resolv b a" if "a \<noteq> b"
  proof -
    consider (both) "UNAMBIG a" "UNAMBIG b" | (one) "UNAMBIG a \<noteq> UNAMBIG b" | (none) "\<not> UNAMBIG a" "\<not> UNAMBIG b" by blast
    then show ?thesis
    proof cases
      case both
      then show ?thesis
        unfolding fully_featured_resolv_def compare_strengths same_strengths
        using same_strengths [of a b] by (auto simp: UNAMBIG_parts)
    next
      case none
      have "span1 a b = span1 b a" "span0 a b = span0 b a" by (simp_all add: span1_def span0_def max.commute min.commute)
      with none show ?thesis by (simp add: wide_pack conj_commute)
    qed (auto simp: fully_featured_resolv_def)
  qed
  with assms show ?thesis by (auto simp: resolve_def scalar_eeq_def scalar_ok_def)
qed

lemma resolve_identity: "scalar_ok a \<Longrightarrow> resolve scalar_hiz a = a \<and> resolve a scalar_hiz = a \<and> resolve a a = a"
  by (auto simp: resolve_def scalar_hiz_def scalar_eeq_def scalar_ok_def is_hiz_def)

text \<open>Well-formed scalars stay well-formed.\<close>

lemma ends_ok: "sv0 v \<le> sv1 v \<Longrightarrow> \<not> is_hiz v \<Longrightarrow> scalar_ok v"
  by (simp add: scalar_ok_def)

lemma resolve_ok:
  assumes ok: "scalar_ok a" "scalar_ok b"
  shows "scalar_ok (resolve a b)"
proof -
  have "scalar_ok (fully_featured_resolv a b)" if n: "\<not> is_hiz a" "\<not> is_hiz b"
  proof -
    have ord: "sv0 a \<le> sv1 a" "sv0 b \<le> sv1 b" using ok by (simp_all add: scalar_ok_def)
    have sw: "scalar_ok (sweep u v)" if "UNAMBIG u" "\<not> is_hiz u" "sv0 v \<le> sv1 v" for u v
    proof (rule ends_ok)
      have eq: "sv0 u = sv1 u" by (rule UNAMBIG_sv [OF that(1)])
      show "sv0 (sweep u v) \<le> sv1 (sweep u v)" using that(3) unfolding sweep_sv eq by (auto split: if_splits)
      have "sv1 u \<noteq> 0" using that(2) eq by (auto simp: hiz_sv)
      then show "\<not> is_hiz (sweep u v)" unfolding hiz_sv sweep_sv eq by auto
    qed
    have x: "scalar_ok ((a AND 0x77) OR 0x80)"
    proof -
      have "STREN1 ((a AND 0x77) OR 0x80) = STREN1 a" "STREN0 ((a AND 0x77) OR 0x80) = STREN0 a"
        unfolding STREN_eq by (simp_all add: bit_or_iff bit_and_iff)
      with n(1) show ?thesis by (auto simp: scalar_ok_def sv_parts is_hiz_def hiz_parts bit_or_iff bit_and_iff)
    qed
    have wide: "scalar_ok (fully_featured_resolv a b)" if nu: "\<not> UNAMBIG a" "\<not> UNAMBIG b"
    proof -
      have "span0 a b \<le> span1 a b" using ord by (auto simp: span0_def span1_def)
      moreover have "is_hiz (fully_featured_resolv a b) \<longrightarrow> fully_featured_resolv a b = 0"
        unfolding is_hiz_def wide_pack [OF nu] by simp
      ultimately show ?thesis by (simp add: scalar_ok_def wide_sv [OF nu])
    qed
    consider "UNAMBIG a" "UNAMBIG b" | "UNAMBIG a" "\<not> UNAMBIG b" | "\<not> UNAMBIG a" "UNAMBIG b" | "\<not> UNAMBIG a" "\<not> UNAMBIG b" by blast
    then show ?thesis
      by cases (use ok x sw [of a b] sw [of b a] n ord wide in \<open>simp_all add: fully_featured_resolv_def\<close>)
  qed
  with ok show ?thesis by (simp add: resolve_def)
qed

lemma pack_ok:
  assumes "k1 < 8" and "k0 < 8" and "V0 \<longrightarrow> V1 \<and> k0 = k1" and "V1 \<or> k1 = k0" and "k1 = 0 \<and> k0 = 0 \<longrightarrow> \<not> V1 \<and> \<not> V0"
  shows "scalar_ok (pack V1 k1 V0 k0)"
proof -
  have "is_hiz (pack V1 k1 V0 k0) \<longleftrightarrow> k1 = 0 \<and> k0 = 0" using assms by (simp add: is_hiz_def hiz_parts)
  then have "is_hiz (pack V1 k1 V0 k0) \<longrightarrow> pack V1 k1 V0 k0 = 0" using assms(5) by (auto simp: pack_def)
  moreover have "sv0 (pack V1 k1 V0 k0) \<le> sv1 (pack V1 k1 V0 k0)" using assms by (auto simp: sv_parts)
  ultimately show ?thesis by (simp add: scalar_ok_def)
qed

lemma scalar_of_ok:
  assumes v: "scalar_of val str0 str1 = Some v" and highz1: "val = BIT4_1 \<longrightarrow> str1 = 0 \<longrightarrow> str0 = 0"
  shows "scalar_ok v"
proof -
  have le: "str0 \<le> 7" "str1 \<le> 7" using v by (auto simp: scalar_of_def split: if_splits)
  then have lt: "str0 < 8" "str1 < 8" by simp_all
  have z: "scalar_ok 0" by (simp add: scalar_ok_def sv_parts)
  note v' = v [unfolded scalar_of_pack [OF le], THEN option.inject [THEN iffD1], symmetric]
  show ?thesis unfolding v'
    by (cases val) (use z lt highz1 in \<open>auto intro!: pack_ok\<close>)
qed

text \<open>
  A drive of 1 with no strength towards 1 is no drive, but it is not the canonical byte of one: the
  exact comparison distinguishes the two.
\<close>

lemma highz1_not_canonical:
  "scalar_of BIT4_1 6 0 = Some 0x88" "scalar_value 0x88 = BIT4_Z" "\<not> scalar_eeq 0x88 scalar_hiz"
  by (simp_all add: scalar_of_def scalar_value_def scalar_eeq_def scalar_hiz_def)

end
