(* ===== verification/Vector8.thy ===== *)
theory Vector8
  imports Strength Vector4_Move Vector2
begin

text \<open>
  Vectors of strength-aware scalars, \<^verbatim>\<open>vvp_vector8_t\<close> of \<^verbatim>\<open>vvp/vvp_net.h\<close> and \<^verbatim>\<open>vvp_net.cc\<close>, their
  resolution, and their reduction to four-valued vectors: the plain loop
  \<^verbatim>\<open>reduce4_slow_\<close> and the fast path \<^verbatim>\<open>reduce4_plain_\<close>/\<^verbatim>\<open>reduce4\<close> of
  \<^verbatim>\<open>vvp/vthread_tail.cc\<close>, which is shown equivalent to it.

  The object keeps up to eight bytes in place of the pointer (\<^verbatim>\<open>sizeof(val_) = 8\<close>) and longer
  vectors in an array; the record has one list, of eight bytes in the first case.
\<close>

section \<open>Representation and access\<close>

record vvp_vector8_t =
  v8_size :: nat
  v8_bytes :: "vvp_scalar_t list"

definition v8_make :: "nat \<Rightarrow> vvp_vector8_t" where
  "v8_make n = \<lparr>v8_size = n, v8_bytes = (if n \<le> 8 then replicate 8 0 else replicate n 0)\<rparr>"

definition v8_value :: "vvp_vector8_t \<Rightarrow> nat \<Rightarrow> vvp_scalar_t option" where
  "v8_value v idx = (if \<not> idx < v8_size v then None else Some (v8_bytes v ! idx))"

definition v8_set_bit :: "vvp_vector8_t \<Rightarrow> nat \<Rightarrow> vvp_scalar_t \<Rightarrow> vvp_vector8_t option" where
  "v8_set_bit v idx val = (if \<not> idx < v8_size v then None else Some (v\<lparr>v8_bytes := (v8_bytes v)[idx := val]\<rparr>))"

text \<open>Up to eight bytes the comparison is one of all eight, through the overlaid pointer.\<close>

definition v8_eeq :: "vvp_vector8_t \<Rightarrow> vvp_vector8_t \<Rightarrow> bool" where
  "v8_eeq v that =
    (if v8_size v \<noteq> v8_size that then False
     else if v8_size v = 0 then True
     else if v8_size v \<le> 8 then v8_bytes v = v8_bytes that
     else take (v8_size v) (v8_bytes v) = take (v8_size v) (v8_bytes that))"

text \<open>
  Construction from a vector and two strengths; a strength above 7 fails the assertion of the scalar
  constructor.  A zero width vector keeps unset bytes, which nothing reads; they are zero here.
\<close>

definition v8_of_bits :: "(nat \<Rightarrow> vvp_bit4_t) \<Rightarrow> nat \<Rightarrow> nat \<Rightarrow> nat \<Rightarrow> vvp_vector8_t option" where
  "v8_of_bits f n str0 str1 =
    (if n = 0 then Some (v8_make 0)
     else Option.bind (for_each (\<lambda>idx bytes. Option.bind (scalar_of (f idx) str0 str1) (\<lambda>s. Some (bytes[idx := s])))
         [0..<n] (v8_bytes (v8_make n)))
       (\<lambda>bytes. Some \<lparr>v8_size = n, v8_bytes = bytes\<rparr>))"

definition v8_of_vector4 :: "vvp_vector4_t \<Rightarrow> nat \<Rightarrow> nat \<Rightarrow> vvp_vector8_t option" where
  "v8_of_vector4 that str0 str1 = v8_of_bits (v4_value that) (v4_size that) str0 str1"

definition v8_of_vector2 :: "vvp_vector2_t \<Rightarrow> nat \<Rightarrow> nat \<Rightarrow> vvp_vector8_t option" where
  "v8_of_vector2 that str0 str1 =
    v8_of_bits (\<lambda>idx. if v2_value that idx \<noteq> 0 then BIT4_1 else BIT4_0) (v2_wid that) str0 str1"

text \<open>The copying loops of \<^verbatim>\<open>subvalue\<close> and \<^verbatim>\<open>part_expand\<close>: they stop at the end of either vector.\<close>

fun v8_copy :: "nat \<Rightarrow> nat \<Rightarrow> nat \<Rightarrow> nat \<Rightarrow> vvp_scalar_t list \<Rightarrow> vvp_scalar_t list \<Rightarrow> vvp_scalar_t list" where
  "v8_copy 0 dst src len use_ptr tmp_ptr = tmp_ptr"
| "v8_copy (Suc remain) dst src len use_ptr tmp_ptr =
    (if src < len then v8_copy remain (Suc dst) (Suc src) len use_ptr (tmp_ptr[dst := use_ptr ! src]) else tmp_ptr)"

definition v8_subvalue :: "vvp_vector8_t \<Rightarrow> nat \<Rightarrow> nat \<Rightarrow> vvp_vector8_t" where
  "v8_subvalue v base wid =
    (let tmp = v8_make wid in tmp\<lparr>v8_bytes := v8_copy wid 0 base (v8_size v) (v8_bytes v) (v8_bytes tmp)\<rparr>)"

definition part_expand :: "vvp_vector8_t \<Rightarrow> nat \<Rightarrow> nat \<Rightarrow> vvp_vector8_t option" where
  "part_expand that wid off =
    (if \<not> off < wid then None
     else let tmp = v8_make wid in
       Some (tmp\<lparr>v8_bytes := v8_copy (wid - off) off 0 (v8_size that) (v8_bytes that) (v8_bytes tmp)\<rparr>))"

definition v8_set_vec :: "vvp_vector8_t \<Rightarrow> nat \<Rightarrow> vvp_vector8_t \<Rightarrow> vvp_vector8_t option" where
  "v8_set_vec v base that =
    (if \<not> base + v8_size that \<le> v8_size v then None
     else for_each (\<lambda>idx u. Option.bind (v8_value that idx) (v8_set_bit u (base + idx))) [0..<v8_size that] v)"

definition v8_resolve :: "vvp_vector8_t \<Rightarrow> vvp_vector8_t \<Rightarrow> vvp_vector8_t option" where
  "v8_resolve a b =
    (if v8_size a \<noteq> v8_size b then None
     else for_each (\<lambda>idx out. Option.bind (v8_value a idx) (\<lambda>x. Option.bind (v8_value b idx)
         (\<lambda>y. v8_set_bit out idx (resolve x y)))) [0..<v8_size a] (v8_make (v8_size a)))"

section \<open>Reduction to four-valued vectors\<close>

definition reduce4_slow :: "vvp_vector8_t \<Rightarrow> vvp_vector4_t option" where
  "reduce4_slow that =
    for_each (\<lambda>idx out. Option.bind (v8_value that idx) (\<lambda>s. v4_set_bit out idx (scalar_value s)))
      [0..<v8_size that] (v4_fill (v8_size that) BIT4_X)"

text \<open>
  The decoding loop of the fast path: a byte that is not plainly 0 or 1 ends it with \<open>False\<close>;
  what it wrote until then is kept, as in the source.
\<close>

fun plain_loop :: "vvp_scalar_t list \<Rightarrow> nat list \<Rightarrow> plane \<Rightarrow> bool \<times> plane" where
  "plain_loop bytes [] ab = (True, ab)"
| "plain_loop bytes (idx # rest) ab =
    (let b = bytes ! idx; v = b AND 0x88 in
     if b AND 0x77 = 0 then (False, ab)
     else if v = 0x88
     then plain_loop bytes rest (ab[idx div BITS_PER_WORD := ab ! (idx div BITS_PER_WORD) OR push_bit (idx mod BITS_PER_WORD) 1])
     else if v \<noteq> 0x00 then (False, ab)
     else plain_loop bytes rest ab)"

definition reduce4_plain :: "vvp_vector8_t \<Rightarrow> vvp_vector4_t \<Rightarrow> (bool \<times> vvp_vector4_t) option" where
  "reduce4_plain that out =
    (let n = v8_size that in
     if v4_size out \<noteq> n then None
     else if n \<le> BITS_PER_WORD then
       case plain_loop (v8_bytes that) [0..<n] [0] of
         (True, ab) \<Rightarrow> Some (True, out\<lparr>v4_abits := [ab ! 0], v4_bbits := [0]\<rparr>)
       | (False, _) \<Rightarrow> Some (False, out)
     else
       let words = words_for n in
       case plain_loop (v8_bytes that) [0..<n] (replicate words 0) of
         (r, ab) \<Rightarrow> Some (r, out\<lparr>v4_abits := ab, v4_bbits := replicate words 0\<rparr>))"

definition reduce4 :: "vvp_vector8_t \<Rightarrow> vvp_vector4_t option" where
  "reduce4 that =
    Option.bind (reduce4_plain that (v4_fill (v8_size that) BIT4_X))
      (\<lambda>(r, out). if r then Some out else reduce4_slow that)"

section \<open>Invariant and list view\<close>

definition v8_inv :: "vvp_vector8_t \<Rightarrow> bool" where
  "v8_inv v \<longleftrightarrow> length (v8_bytes v) = (if v8_size v \<le> 8 then 8 else v8_size v)
     \<and> (\<forall>i < length (v8_bytes v). v8_size v \<le> i \<longrightarrow> v8_bytes v ! i = 0)"

definition v8_list :: "vvp_vector8_t \<Rightarrow> vvp_scalar_t list" where
  "v8_list v = take (v8_size v) (v8_bytes v)"

abbreviation v8_at :: "vvp_vector8_t \<Rightarrow> nat \<Rightarrow> vvp_scalar_t" where
  "v8_at v i \<equiv> v8_bytes v ! i"

lemma v8_size_le: "v8_inv v \<Longrightarrow> v8_size v \<le> length (v8_bytes v)"
  by (simp add: v8_inv_def)

lemma length_v8_list [simp]: "v8_inv v \<Longrightarrow> length (v8_list v) = v8_size v"
  by (simp add: v8_list_def v8_size_le)

lemma nth_v8_list [simp]: "i < v8_size v \<Longrightarrow> v8_list v ! i = v8_at v i"
  by (simp add: v8_list_def)

lemma v8_listI:
  "v8_inv v \<Longrightarrow> v8_size v = length bs \<Longrightarrow> (\<And>i. i < length bs \<Longrightarrow> v8_at v i = bs ! i) \<Longrightarrow> v8_list v = bs"
  by (intro nth_equalityI) simp_all

lemma v8_make_inv [simp]: "v8_inv (v8_make n)" "v8_size (v8_make n) = n"
  by (auto simp: v8_inv_def v8_make_def)

lemma v8_make_list: "v8_list (v8_make n) = replicate n 0"
  by (auto simp: v8_list_def v8_make_def min_def)

lemma v8_value_in [simp]: "i < v8_size v \<Longrightarrow> v8_value v i = Some (v8_at v i)"
  by (simp add: v8_value_def)

interpretation v8: bit_store v8_inv v8_size v8_at v8_set_bit
proof
  fix v i and b :: vvp_scalar_t
  assume "v8_inv v" "i < v8_size v"
  then show "\<exists>v'. v8_set_bit v i b = Some v' \<and> v8_inv v' \<and> v8_size v' = v8_size v
      \<and> (\<forall>j < v8_size v. v8_at v' j = (if j = i then b else v8_at v j))"
    by (auto simp: v8_set_bit_def v8_inv_def nth_list_update)
qed (simp add: v8_set_bit_def)

text \<open>Comparison sees exactly the scalars of the vectors, because unused bytes are zero.\<close>

lemma v8_eeq_list:
  assumes "v8_inv v" and "v8_inv w"
  shows "v8_eeq v w \<longleftrightarrow> v8_list v = v8_list w"
proof (cases "v8_size v = v8_size w \<and> v8_size v \<le> 8")
  case True
  have "v8_bytes v = v8_bytes w" if eq: "take (v8_size v) (v8_bytes v) = take (v8_size v) (v8_bytes w)"
  proof (rule nth_equalityI)
    show "length (v8_bytes v) = length (v8_bytes w)" using assms True by (simp add: v8_inv_def)
    fix i assume "i < length (v8_bytes v)"
    then show "v8_at v i = v8_at w i"
      using assms True arg_cong [OF eq, of "\<lambda>l. l ! i"] by (cases "i < v8_size v") (auto simp: v8_inv_def)
  qed
  with True show ?thesis by (auto simp: v8_eeq_def v8_list_def)
next
  case False
  have "v8_size v = v8_size w" if "v8_list v = v8_list w"
    using arg_cong [OF that, of length] length_v8_list [OF assms(1)] length_v8_list [OF assms(2)] by simp
  then show ?thesis
  proof (cases "v8_size v = v8_size w")
    case True
    with False have "v8_eeq v w \<longleftrightarrow> v8_list v = v8_list w" by (simp add: v8_eeq_def v8_list_def)
    then show ?thesis .
  qed (auto simp: v8_eeq_def)
qed

section \<open>Construction, parts and resolution\<close>

lemma v8_of_bits_spec:
  assumes "\<And>i. i < n \<Longrightarrow> scalar_of (f i) str0 str1 = Some (g i)"
  obtains v where "v8_of_bits f n str0 str1 = Some v" and "v8_inv v" and "v8_list v = map g [0..<n]"
proof (cases "n = 0")
  case True
  with that [of "v8_make 0"] show thesis by (simp add: v8_of_bits_def v8_make_list)
next
  case False
  let ?init = "v8_bytes (v8_make n)"
  have "\<exists>bytes. for_each (\<lambda>idx bytes. Option.bind (scalar_of (f idx) str0 str1) (\<lambda>s. Some (bytes[idx := s]))) [0..<n] ?init
      = Some bytes \<and> length bytes = length ?init \<and> (\<forall>i < length ?init. bytes ! i = (if i < n then g i else 0))"
  proof (rule for_upto_rule [where P = "\<lambda>k bytes. length bytes = length ?init
      \<and> (\<forall>i < length ?init. bytes ! i = (if i < k then g i else 0))"])
    show "length ?init = length ?init \<and> (\<forall>i < length ?init. ?init ! i = (if i < 0 then g i else 0))"
      by (simp add: v8_make_def)
  next
    fix i bytes assume "i < n" "length bytes = length ?init \<and> (\<forall>j < length ?init. bytes ! j = (if j < i then g j else 0))"
    with assms [of i] show "\<exists>s'. Option.bind (scalar_of (f i) str0 str1) (\<lambda>s. Some (bytes[i := s])) = Some s'
        \<and> length s' = length ?init \<and> (\<forall>j < length ?init. s' ! j = (if j < Suc i then g j else 0))"
      by (auto simp: nth_list_update less_Suc_eq)
  qed
  then obtain bytes where b: "for_each (\<lambda>idx bytes. Option.bind (scalar_of (f idx) str0 str1) (\<lambda>s. Some (bytes[idx := s]))) [0..<n] ?init
      = Some bytes" "length bytes = length ?init" "\<And>i. i < length ?init \<Longrightarrow> bytes ! i = (if i < n then g i else 0)" by blast
  let ?v = "\<lparr>v8_size = n, v8_bytes = bytes\<rparr>"
  have inv: "v8_inv ?v" using b(2,3) by (auto simp: v8_inv_def v8_make_def split: if_splits)
  moreover have "v8_list ?v = map g [0..<n]"
    using inv b(2,3) v8_size_le [OF inv] by (intro v8_listI) auto
  moreover have "v8_of_bits f n str0 str1 = Some ?v" using False b(1) by (simp add: v8_of_bits_def)
  ultimately show thesis using that by blast
qed

lemma v8_copy_nth:
  assumes "dst + remain \<le> length tmp"
  shows "length (v8_copy remain dst src len use tmp) = length tmp"
    and "i < length tmp \<Longrightarrow> v8_copy remain dst src len use tmp ! i =
      (if dst \<le> i \<and> i < dst + remain \<and> src + (i - dst) < len then use ! (src + (i - dst)) else tmp ! i)"
proof -
  have "length (v8_copy remain dst src len use tmp) = length tmp
    \<and> (\<forall>i < length tmp. v8_copy remain dst src len use tmp ! i =
      (if dst \<le> i \<and> i < dst + remain \<and> src + (i - dst) < len then use ! (src + (i - dst)) else tmp ! i))"
    using assms
  proof (induction remain arbitrary: dst src tmp)
    case (Suc remain)
    show ?case
    proof (cases "src < len")
      case True
      let ?tmp = "tmp[dst := use ! src]"
      have IH: "length (v8_copy remain (Suc dst) (Suc src) len use ?tmp) = length tmp"
        "\<And>i. i < length tmp \<Longrightarrow> v8_copy remain (Suc dst) (Suc src) len use ?tmp ! i =
          (if Suc dst \<le> i \<and> i < Suc dst + remain \<and> Suc src + (i - Suc dst) < len
           then use ! (Suc src + (i - Suc dst)) else ?tmp ! i)"
        using Suc.IH [of "Suc dst" ?tmp "Suc src"] Suc.prems by simp_all
      have "v8_copy (Suc remain) dst src len use tmp ! i =
          (if dst \<le> i \<and> i < dst + Suc remain \<and> src + (i - dst) < len then use ! (src + (i - dst)) else tmp ! i)"
        if i: "i < length tmp" for i
      proof (cases "Suc dst \<le> i")
        case le: True
        then have "Suc src + (i - Suc dst) = src + (i - dst)" by simp
        with le True show ?thesis by (simp add: IH(2) [OF i])
      next
        case False
        then show ?thesis using True i Suc.prems IH(2) [OF i] by (cases "i = dst") simp_all
      qed
      with IH(1) True show ?thesis by simp
    next
      case False
      then show ?thesis by auto
    qed
  qed auto
  then show "length (v8_copy remain dst src len use tmp) = length tmp"
    "i < length tmp \<Longrightarrow> v8_copy remain dst src len use tmp ! i =
      (if dst \<le> i \<and> i < dst + remain \<and> src + (i - dst) < len then use ! (src + (i - dst)) else tmp ! i)" by blast+
qed

lemma v8_subvalue_list:
  assumes "v8_inv v"
  shows "v8_inv (v8_subvalue v base n)"
    and "v8_list (v8_subvalue v base n) = take n (drop base (v8_list v)) @ replicate (n - (v8_size v - base)) 0"
proof -
  let ?tmp = "v8_bytes (v8_make n)"
  have n: "0 + n \<le> length ?tmp" by (simp add: v8_make_def)
  note c = v8_copy_nth [OF n, where src = base and len = "v8_size v" and use = "v8_bytes v"]
  have z: "?tmp ! i = 0" if "i < length ?tmp" for i using that by (simp add: v8_make_def split: if_splits)
  have b: "v8_bytes (v8_subvalue v base n) = v8_copy n 0 base (v8_size v) (v8_bytes v) ?tmp"
    "v8_size (v8_subvalue v base n) = n" by (simp_all add: v8_subvalue_def Let_def)
  show inv: "v8_inv (v8_subvalue v base n)"
    unfolding v8_inv_def b using c z by (auto simp: v8_make_def)
  show "v8_list (v8_subvalue v base n) = take n (drop base (v8_list v)) @ replicate (n - (v8_size v - base)) 0"
  proof (rule v8_listI [OF inv])
    fix i assume "i < length (take n (drop base (v8_list v)) @ replicate (n - (v8_size v - base)) 0)"
    then have "i < n" using assms by (auto simp: min_def split: if_splits)
    then have "v8_at (v8_subvalue v base n) i = (if base + i < v8_size v then v8_at v (base + i) else 0)"
      unfolding b using c(2) [of i] z [of i] n by simp
    with \<open>i < n\<close> assms show "v8_at (v8_subvalue v base n) i
        = (take n (drop base (v8_list v)) @ replicate (n - (v8_size v - base)) 0) ! i"
      by (auto simp: nth_append)
  qed (use assms in \<open>simp add: b(2)\<close>)
qed

lemma part_expand_list:
  assumes "v8_inv v" and "off < n"
  obtains r where "part_expand v n off = Some r" and "v8_inv r" and "v8_size r = n"
    and "\<And>i. i < n \<Longrightarrow> v8_at r i = (if off \<le> i \<and> i - off < v8_size v then v8_at v (i - off) else 0)"
proof -
  let ?tmp = "v8_bytes (v8_make n)"
  have n: "off + (n - off) \<le> length ?tmp" using assms(2) by (simp add: v8_make_def)
  note c = v8_copy_nth [OF n, where src = 0 and len = "v8_size v" and use = "v8_bytes v"]
  have z: "?tmp ! i = 0" if "i < length ?tmp" for i using that by (simp add: v8_make_def split: if_splits)
  let ?r = "(v8_make n)\<lparr>v8_bytes := v8_copy (n - off) off 0 (v8_size v) (v8_bytes v) ?tmp\<rparr>"
  have "v8_inv ?r" unfolding v8_inv_def using c z assms(2) by (auto simp: v8_make_def)
  moreover have "v8_at ?r i = (if off \<le> i \<and> i - off < v8_size v then v8_at v (i - off) else 0)" if "i < n" for i
    using c(2) [of i] z [of i] n that assms(2) by simp
  ultimately show thesis using that [of ?r] assms(2) by (simp add: part_expand_def Let_def)
qed

lemma v8_set_vec_list:
  assumes "v8_inv v" and "v8_inv w" and fit: "base + v8_size w \<le> v8_size v"
  obtains r where "v8_set_vec v base w = Some r" and "v8_inv r"
    and "v8_list r = take base (v8_list v) @ v8_list w @ drop (base + v8_size w) (v8_list v)"
proof -
  obtain r where r: "for_each (\<lambda>i u. v8_set_bit u (base + i) (v8_at w i)) [0..<v8_size w] v = Some r" "v8_inv r"
    "v8_size r = v8_size v" "\<And>j. j < v8_size v \<Longrightarrow>
      v8_at r j = (if base \<le> j \<and> j < base + v8_size w then v8_at w (j - base) else v8_at v j)"
    using v8.set_range [OF assms(1) fit, of "v8_at w"] by blast
  have "for_each (\<lambda>idx u. Option.bind (v8_value w idx) (v8_set_bit u (base + idx))) [0..<v8_size w] v
      = for_each (\<lambda>i u. v8_set_bit u (base + i) (v8_at w i)) [0..<v8_size w] v"
    by (rule for_each_cong) simp
  with r(1) fit have "v8_set_vec v base w = Some r" by (simp add: v8_set_vec_def)
  moreover have "v8_list r = take base (v8_list v) @ v8_list w @ drop (base + v8_size w) (v8_list v)"
    using r assms by (intro v8_listI) (auto simp: nth_append)
  ultimately show thesis using that r(2) by blast
qed

lemma v8_resolve_list:
  assumes "v8_inv a" and "v8_inv b" and "v8_size a = v8_size b"
  obtains r where "v8_resolve a b = Some r" and "v8_inv r" and "v8_list r = map2 resolve (v8_list a) (v8_list b)"
proof -
  obtain r where r: "for_each (\<lambda>i u. v8_set_bit u i (resolve (v8_at a i) (v8_at b i))) [0..<v8_size a] (v8_make (v8_size a)) = Some r"
    "v8_inv r" "v8_size r = v8_size a" "\<And>i. i < v8_size a \<Longrightarrow> v8_at r i = resolve (v8_at a i) (v8_at b i)"
    using v8.build [OF v8_make_inv(1), of "v8_size a" "v8_size a" "\<lambda>i. resolve (v8_at a i) (v8_at b i)"] by auto
  have "for_each (\<lambda>idx out. Option.bind (v8_value a idx) (\<lambda>x. Option.bind (v8_value b idx)
        (\<lambda>y. v8_set_bit out idx (resolve x y)))) [0..<v8_size a] (v8_make (v8_size a))
      = for_each (\<lambda>i u. v8_set_bit u i (resolve (v8_at a i) (v8_at b i))) [0..<v8_size a] (v8_make (v8_size a))"
    by (rule for_each_cong) (use assms(3) in simp)
  with r(1) assms(3) have "v8_resolve a b = Some r" by (simp add: v8_resolve_def)
  moreover have "v8_list r = map2 resolve (v8_list a) (v8_list b)"
    using r assms by (intro v8_listI) auto
  ultimately show thesis using that r(2) by blast
qed

section \<open>The fast reduction is the plain loop\<close>

lemma reduce4_slow_list:
  assumes "v8_inv v"
  obtains r where "reduce4_slow v = Some r" and "v4_inv r" and "v4_list r = map scalar_value (v8_list v)"
proof -
  obtain r where r: "for_each (\<lambda>i u. v4_set_bit u i (scalar_value (v8_at v i))) [0..<v8_size v] (v4_fill (v8_size v) BIT4_X) = Some r"
    "v4_inv r" "v4_size r = v8_size v" "\<And>i. i < v8_size v \<Longrightarrow> v4_value r i = scalar_value (v8_at v i)"
    using v4.build [OF v4_fill_inv, of "v8_size v" "v8_size v" BIT4_X "\<lambda>i. scalar_value (v8_at v i)"] by auto
  have "reduce4_slow v = for_each (\<lambda>i u. v4_set_bit u i (scalar_value (v8_at v i))) [0..<v8_size v] (v4_fill (v8_size v) BIT4_X)"
    unfolding reduce4_slow_def by (rule for_each_cong) simp
  moreover have "v4_list r = map scalar_value (v8_list v)" using r assms by (intro v4_listI) auto
  ultimately show thesis using that r by simp
qed

lemma plain_loop:
  assumes "\<And>i. i \<in> set is \<Longrightarrow> i div 64 < length ab"
  shows "fst (plain_loop bytes is ab) \<longleftrightarrow> (\<forall>i \<in> set is. scalar_value (bytes ! i) \<in> {BIT4_0, BIT4_1})"
    and "fst (plain_loop bytes is ab) \<Longrightarrow> length (snd (plain_loop bytes is ab)) = length ab
      \<and> (\<forall>j. pbit (snd (plain_loop bytes is ab)) j \<longleftrightarrow> pbit ab j \<or> j \<in> set is \<and> scalar_value (bytes ! j) = BIT4_1)"
proof -
  have "(fst (plain_loop bytes is ab) \<longleftrightarrow> (\<forall>i \<in> set is. scalar_value (bytes ! i) \<in> {BIT4_0, BIT4_1}))
    \<and> (fst (plain_loop bytes is ab) \<longrightarrow> length (snd (plain_loop bytes is ab)) = length ab
      \<and> (\<forall>j. pbit (snd (plain_loop bytes is ab)) j \<longleftrightarrow> pbit ab j \<or> j \<in> set is \<and> scalar_value (bytes ! j) = BIT4_1))"
    using assms
  proof (induction "is" arbitrary: ab)
    case (Cons i js)
    let ?ab = "ab[i div 64 := ab ! (i div 64) OR push_bit (i mod 64) 1]"
    have i: "i div 64 < length ab" using Cons.prems by simp
    have one: "pbit ?ab j \<longleftrightarrow> pbit ab j \<or> j = i" for j
      using i div_mod_64_eq_iff [of j i]
      by (auto simp: pbit_update bit_or_iff bit_exp_iff) (auto simp: pbit_def)
    have v: "scalar_value (bytes ! i) = (if bytes ! i AND 0x77 = 0 then BIT4_Z else if bytes ! i AND 0x88 = 0x88 then BIT4_1
        else if bytes ! i AND 0x88 = 0 then BIT4_0 else BIT4_X)" by (simp add: scalar_value_def)
    have IH: "\<And>ab'. length ab' = length ab \<Longrightarrow>
      (fst (plain_loop bytes js ab') \<longleftrightarrow> (\<forall>i \<in> set js. scalar_value (bytes ! i) \<in> {BIT4_0, BIT4_1}))
      \<and> (fst (plain_loop bytes js ab') \<longrightarrow> length (snd (plain_loop bytes js ab')) = length ab'
        \<and> (\<forall>j. pbit (snd (plain_loop bytes js ab')) j \<longleftrightarrow> pbit ab' j \<or> j \<in> set js \<and> scalar_value (bytes ! j) = BIT4_1))"
      using Cons by simp
    consider "bytes ! i AND 0x77 = 0" | "bytes ! i AND 0x77 \<noteq> 0" "bytes ! i AND 0x88 = 0x88"
      | "bytes ! i AND 0x77 \<noteq> 0" "bytes ! i AND 0x88 = 0" | "bytes ! i AND 0x77 \<noteq> 0" "bytes ! i AND 0x88 \<noteq> 0x88" "bytes ! i AND 0x88 \<noteq> 0"
      by blast
    then show ?case
    proof cases
      case 2
      then show ?thesis using IH [of ?ab] v one by (auto simp: Let_def)
    next
      case 3
      then show ?thesis using IH [of ab] v by (auto simp: Let_def)
    qed (use v in \<open>simp_all add: Let_def\<close>)
  qed simp
  then show "fst (plain_loop bytes is ab) \<longleftrightarrow> (\<forall>i \<in> set is. scalar_value (bytes ! i) \<in> {BIT4_0, BIT4_1})"
    and "fst (plain_loop bytes is ab) \<Longrightarrow> length (snd (plain_loop bytes is ab)) = length ab
      \<and> (\<forall>j. pbit (snd (plain_loop bytes is ab)) j \<longleftrightarrow> pbit ab j \<or> j \<in> set is \<and> scalar_value (bytes ! j) = BIT4_1)"
    by blast+
qed

lemma reduce4_list:
  assumes inv: "v8_inv v"
  obtains r where "reduce4 v = Some r" and "v4_inv r" and "v4_list r = map scalar_value (v8_list v)"
proof -
  let ?n = "v8_size v"
  define k where "k = max 1 (words_for ?n)"
  have k: "k = (if ?n \<le> 64 then 1 else words_for ?n)"
    using words_for_small [of ?n] words_for_gt1 [of ?n] by (cases "?n = 0") (auto simp: k_def)
  obtain ok ab where l: "plain_loop (v8_bytes v) [0..<?n] (replicate k 0) = (ok, ab)" by fastforce
  have lt: "i div 64 < k" if "i < ?n" for i using div_less_words_for [OF that] by (simp add: k_def)
  have loop: "ok \<longleftrightarrow> (\<forall>i < ?n. scalar_value (v8_at v i) \<in> {BIT4_0, BIT4_1})"
    "ok \<Longrightarrow> length ab = k \<and> (\<forall>j. pbit ab j \<longleftrightarrow> pbit (replicate k 0) j \<or> j < ?n \<and> scalar_value (v8_at v j) = BIT4_1)"
    using plain_loop [of "[0..<?n]" "replicate k 0" "v8_bytes v"] lt l by auto
  have red: "reduce4 v = (if ok then Some \<lparr>v4_size = ?n, v4_abits = ab, v4_bbits = replicate k 0\<rparr> else reduce4_slow v)"
  proof (cases "?n \<le> 64")
    case True
    then have "k = 1" using k by simp
    moreover from this have "ok \<Longrightarrow> [ab ! 0] = ab" using loop(2) by (auto simp: length_Suc_conv)
    ultimately show ?thesis
      using l True by (auto simp: reduce4_def reduce4_plain_def v4_fill_def allocate_words_def)
  next
    case False
    then show ?thesis
      using l k by (auto simp: reduce4_def reduce4_plain_def v4_fill_def allocate_words_def Let_def)
  qed
  show thesis
  proof (cases ok)
    case True
    let ?r = "\<lparr>v4_size = ?n, v4_abits = ab, v4_bbits = replicate k 0\<rparr>"
    have r: "v4_inv ?r" using loop(2) True by (simp add: v4_inv_def k_def)
    have "v4_value ?r i = scalar_value (v8_at v i)" if i: "i < ?n" for i
    proof -
      have "i < 64 * k" using lt [OF i] by (rule less_mult_64)
      with i loop True show ?thesis by (auto simp: v4_value_pbit [OF r] pbit_replicate bit4_of_def)
    qed
    then have "v4_list ?r = map scalar_value (v8_list v)" using inv by (intro v4_listI) auto
    with that red True r show thesis by simp
  next
    case False
    with that red reduce4_slow_list [OF inv] show thesis by metis
  qed
qed

end
