(* ===== verification/Text.thy ===== *)
theory Text
  imports Vector8
begin

text \<open>
  The text forms of vectors in \<^verbatim>\<open>vvp/vvp_net.cc\<close>: the \<^verbatim>\<open>C4<...>\<close> and \<^verbatim>\<open>C8<...>\<close> constants of the
  input of the simulator with their tests and readers, \<^verbatim>\<open>as_string\<close>, and the stream operator of
  \<^verbatim>\<open>vvp_vector8_t\<close>.  A C string is a list of characters; reading at its end gives the
  terminating NUL.
\<close>

section \<open>Reading\<close>

definition char_at :: "string \<Rightarrow> nat \<Rightarrow> char" where
  "char_at str i = (if i < length str then str ! i else CHR 0x00)"

definition strspn :: "string \<Rightarrow> char set \<Rightarrow> nat" where
  "strspn str accept = length (takeWhile (\<lambda>c. c \<in> accept) str)"

definition c4string_header_test :: "string \<Rightarrow> bool" where
  "c4string_header_test str =
    (if char_at str 0 \<noteq> CHR ''C'' \<and> char_at str 0 \<noteq> CHR ''c'' then False
     else if char_at str 1 \<noteq> CHR ''4'' \<or> char_at str 2 \<noteq> CHR ''<'' then False
     else True)"

definition c4string_test :: "string \<Rightarrow> bool" where
  "c4string_test str =
    (if \<not> c4string_header_test str then False
     else let value_size = strspn (drop 3 str) (set ''01xz'') in
       if char_at str (3 + value_size) \<noteq> CHR ''>'' then False
       else if char_at str (3 + value_size + 1) \<noteq> CHR 0x00 then False
       else True)"

definition c4_bit :: "char \<Rightarrow> vvp_bit4_t option" where
  "c4_bit c = (if c = CHR ''0'' then Some BIT4_0 else if c = CHR ''1'' then Some BIT4_1
     else if c = CHR ''x'' then Some BIT4_X else if c = CHR ''z'' then Some BIT4_Z else None)"

definition c4string_to_vector4 :: "string \<Rightarrow> vvp_vector4_t option" where
  "c4string_to_vector4 str =
    (if \<not> c4string_header_test str then None
     else let str = drop 3 str; tp = strspn str (set ''01xz'') in
       if char_at str tp \<noteq> CHR ''>'' then None
       else for_each (\<lambda>idx tmp. Option.bind (c4_bit (char_at str idx)) (v4_set_bit tmp (tp - idx - 1)))
         [0..<tp] (v4_fill tp BIT4_X))"

definition c8string_header_test :: "string \<Rightarrow> bool" where
  "c8string_header_test str =
    (if char_at str 0 \<noteq> CHR ''C'' \<and> char_at str 0 \<noteq> CHR ''c'' then False
     else if char_at str 1 \<noteq> CHR ''8'' \<or> char_at str 2 \<noteq> CHR ''<'' then False
     else True)"

text \<open>The scan of \<^verbatim>\<open>c8string_test\<close> from the character after the header.\<close>

fun c8_scan :: "string \<Rightarrow> bool" where
  "c8_scan [] = False"
| "c8_scan (c # cs) =
    (if c = CHR ''>'' \<and> cs = [] then True
     else if 48 \<le> (of_char c :: nat) \<and> (of_char c :: nat) \<le> 57 then c8_scan cs
     else if c = CHR ''x'' then c8_scan cs
     else if c = CHR ''z'' then c8_scan cs
     else False)"

definition c8string_test :: "string \<Rightarrow> bool" where
  "c8string_test str = (if \<not> c8string_header_test str then False else c8_scan (drop 3 str))"

text \<open>
  The strengths are \<^verbatim>\<open>unsigned\<close> differences: a character below \<^verbatim>\<open>'0'\<close> wraps to a huge value, which
  fails the assertion of the scalar constructor like every value above 7.
\<close>

definition c8_digit :: "char \<Rightarrow> nat" where
  "c8_digit c = unat (word_of_int (of_char c - 48) :: 32 word)"

definition c8_bit :: "char \<Rightarrow> vvp_bit4_t" where
  "c8_bit c = (if c = CHR ''0'' then BIT4_0 else if c = CHR ''1'' then BIT4_1
     else if c = CHR ''x'' then BIT4_X else if c = CHR ''z'' then BIT4_Z else BIT4_X)"

definition c8string_to_vector8 :: "string \<Rightarrow> vvp_vector8_t option" where
  "c8string_to_vector8 str =
    (if \<not> c8string_header_test str then None
     else if length str < 4 then None
     else let vsize = length str - 4 in
       if vsize mod 3 \<noteq> 0 then None
       else let vsize = vsize div 3 in
         for_each (\<lambda>idx tmp. let cp = drop (3 + 3 * idx) str in
             Option.bind (scalar_of (c8_bit (char_at cp 2)) (c8_digit (char_at cp 0)) (c8_digit (char_at cp 1)))
               (v8_set_bit tmp (vsize - idx - 1)))
           [0..<vsize] (v8_make vsize))"

section \<open>Printing\<close>

text \<open>
  \<^verbatim>\<open>as_string\<close> with its buffer length, a \<^verbatim>\<open>size_t\<close> that is decremented without a check.  The result is
  what is written, the terminating NUL included.
\<close>

definition bit_char :: "vvp_bit4_t \<Rightarrow> char" where
  "bit_char b = (case b of BIT4_0 \<Rightarrow> CHR ''0'' | BIT4_1 \<Rightarrow> CHR ''1'' | BIT4_X \<Rightarrow> CHR ''x'' | BIT4_Z \<Rightarrow> CHR ''z'')"

fun as_string_loop :: "vvp_vector4_t \<Rightarrow> nat list \<Rightarrow> 64 word \<Rightarrow> string" where
  "as_string_loop v [] buf_len = []"
| "as_string_loop v (idx # rest) buf_len =
    (if buf_len \<ge> 2 then bit_char (v4_value v (v4_size v - idx - 1)) # as_string_loop v rest (buf_len - 1) else [])"

definition as_string :: "vvp_vector4_t \<Rightarrow> 64 word \<Rightarrow> string" where
  "as_string v buf_len = ''C4<'' @ as_string_loop v [0..<v4_size v] (buf_len - 3) @ [CHR ''>'', CHR 0x00]"

definition v8_print :: "vvp_vector8_t \<Rightarrow> string" where
  "v8_print v = ''C8<'' @ concat (map (\<lambda>idx. scalar_print (v8_bytes v ! (v8_size v - idx - 1))) [0..<v8_size v]) @ ''>''"

section \<open>Round trips\<close>

lemma bit_char_in [simp]: "bit_char b \<in> set ''01xz''" "c4_bit (bit_char b) = Some b"
  by (cases b; simp add: bit_char_def c4_bit_def)+

text \<open>The text of a constant: the bits from the most significant one.\<close>

definition c4_text :: "vvp_bit4_t list \<Rightarrow> string" where
  "c4_text bs = ''C4<'' @ map bit_char (rev bs) @ ''>''"

lemma strspn_bits: "strspn (map bit_char bs @ CHR ''>'' # rest) (set ''01xz'') = length bs"
proof -
  have "CHR ''>'' \<notin> set ''01xz''" by simp
  then have "takeWhile (\<lambda>c. c \<in> set ''01xz'') (map bit_char bs @ CHR ''>'' # rest) = map bit_char bs"
    by (subst takeWhile_append2) (auto simp del: list.set)
  then show ?thesis by (simp add: strspn_def)
qed

lemma c4_text_test: "c4string_test (c4_text bs)"
  using strspn_bits [of "rev bs" "[]"]
  by (simp add: c4string_test_def c4string_header_test_def c4_text_def char_at_def nth_append del: list.set)

lemma c4_text_read:
  obtains v where "c4string_to_vector4 (c4_text bs) = Some v" and "v4_inv v" and "v4_list v = bs"
proof -
  let ?n = "length bs" and ?s = "map bit_char (rev bs) @ ''>''"
  obtain v where v: "for_each (\<lambda>i u. v4_set_bit u (?n - i - 1) (rev bs ! i)) [0..<?n] (v4_fill ?n BIT4_X) = Some v"
    "v4_inv v" "v4_size v = ?n" "\<And>i. i < ?n \<Longrightarrow> v4_value v (?n - i - 1) = rev bs ! i"
    using v4.build_down [OF v4_fill_inv, of ?n ?n BIT4_X "\<lambda>i. rev bs ! i"] by auto
  have "for_each (\<lambda>idx tmp. Option.bind (c4_bit (char_at ?s idx)) (v4_set_bit tmp (?n - idx - 1))) [0..<?n] (v4_fill ?n BIT4_X)
      = for_each (\<lambda>i u. v4_set_bit u (?n - i - 1) (rev bs ! i)) [0..<?n] (v4_fill ?n BIT4_X)"
    by (rule for_each_cong) (simp add: char_at_def nth_append)
  moreover have "c4string_to_vector4 (c4_text bs)
      = for_each (\<lambda>idx tmp. Option.bind (c4_bit (char_at ?s idx)) (v4_set_bit tmp (?n - idx - 1))) [0..<?n] (v4_fill ?n BIT4_X)"
    using strspn_bits [of "rev bs" "[]"]
    by (simp add: c4string_to_vector4_def c4string_header_test_def c4_text_def char_at_def nth_append Let_def del: list.set)
  moreover have "v4_list v = bs"
  proof (rule v4_listI [OF v(3)])
    fix i assume "i < ?n"
    then show "v4_value v i = bs ! i" using v(4) [of "?n - i - 1"] by (simp add: rev_nth)
  qed
  ultimately show thesis using that v(1,2) by simp
qed

text \<open>
  With room for the text \<^verbatim>\<open>as_string\<close> writes it; in a shorter buffer it drops low bits.  The loop leaves
  one byte for the two closing ones, so a text that has to be cut ends one byte past the buffer.
\<close>

lemma as_string_loop_take:
  "as_string_loop v is len = map (\<lambda>i. bit_char (v4_value v (v4_size v - i - 1))) (take (unat len - 1) is)"
proof (induction "is" arbitrary: len)
  case (Cons i js)
  show ?case
  proof (cases "2 \<le> unat len")
    case True
    then have u: "unat (len - 1) = unat len - 1" by (simp add: unat_sub_if_size)
    have "2 \<le> len" using True by (simp add: word_le_nat_alt)
    moreover have "take (unat len - 1) (i # js) = i # take (unat len - 1 - 1) js"
      using True by (cases "unat len - 1") auto
    ultimately show ?thesis using Cons.IH [of "len - 1"] u by simp
  next
    case False
    then have "\<not> 2 \<le> len" by (simp add: word_le_nat_alt)
    with False show ?thesis by simp
  qed
qed simp

lemma as_string_cut:
  "as_string v len = ''C4<'' @ map bit_char (take (unat (len - 3) - 1) (rev (v4_list v))) @ [CHR ''>'', CHR 0x00]"
proof -
  have "map (\<lambda>i. bit_char (v4_value v (v4_size v - i - 1))) [0..<v4_size v] = map bit_char (rev (v4_list v))"
    by (rule nth_equalityI) (auto simp: rev_nth)
  then have "map (\<lambda>i. bit_char (v4_value v (v4_size v - i - 1))) (take m [0..<v4_size v]) = map bit_char (take m (rev (v4_list v)))" for m
    by (metis take_map)
  then show ?thesis unfolding as_string_def as_string_loop_take by metis
qed

text \<open>A buffer length below 3 wraps, so the loop has all the room it wants.\<close>

lemma as_string_length:
  assumes "v4_size v < 2 ^ 32"
  shows "length (as_string v len) = 5 + (if unat len < 3 then v4_size v else min (v4_size v) (unat len - 4))"
proof (cases "unat len < 3")
  case True
  then have "unat (len - 3) = 2 ^ 64 - 3 + unat len" by (simp add: unat_sub_if_size word_size)
  then have "v4_size v \<le> unat (len - 3) - 1" using assms by simp
  with True show ?thesis by (simp add: as_string_cut)
next
  case False
  then have "unat (len - 3) = unat len - 3" by (simp add: unat_sub_if_size)
  with False show ?thesis by (simp add: as_string_cut)
qed

text \<open>
  A vector of scalars prints to a text that its reader reads back, when the scalars are constructor made.  Every high
  impedance scalar is read back as the byte 0; the constructor makes a second one, 0x88, of a 1 with strength 0.
\<close>

definition made_scalar :: "vvp_scalar_t \<Rightarrow> bool" where
  "made_scalar v \<longleftrightarrow> is_hiz v \<or> UNAMBIG v \<or> bit v 7 \<and> \<not> bit v 3"

definition read_scalar :: "vvp_scalar_t \<Rightarrow> vvp_scalar_t" where
  "read_scalar v = (if is_hiz v then 0 else v)"

lemma made_scalarI: "scalar_of b str0 str1 = Some v \<Longrightarrow> made_scalar v"
proof -
  assume s: "scalar_of b str0 str1 = Some v"
  then have le: "str0 \<le> 7" "str1 \<le> 7" by (simp_all add: scalar_of_def split: if_splits)
  then have lt: "str0 < 8" "str1 < 8" by simp_all
  from s show "made_scalar v"
    unfolding scalar_of_pack [OF le]
    using pack_parts [OF lt(1,1)] pack_parts [OF lt(2,2)] pack_parts [OF lt] pack_parts [OF lt(2,1)]
    by (cases b) (auto simp: made_scalar_def is_hiz_def UNAMBIG_parts hiz_parts split: if_splits)
qed

lemma c8_digit_char: "k < 8 \<Longrightarrow> c8_digit (char_of (48 + k)) = k"
proof -
  assume k: "k < 8"
  have "(of_char (char_of (48 + k)) :: int) = int (of_char (char_of (48 + k)) :: nat)" by (rule of_nat_of_char [symmetric])
  also have "\<dots> = 48 + int k" unfolding of_char_of using k by simp
  finally have "c8_digit (char_of (48 + k)) = unat (word_of_int (int k) :: 32 word)" by (simp add: c8_digit_def)
  with k show ?thesis by (simp add: unat_of_nat take_bit_nat_eq_self)
qed

lemma scalar_print_read:
  assumes "made_scalar v"
  shows "scalar_of (c8_bit (scalar_print v ! 2)) (c8_digit (scalar_print v ! 0)) (c8_digit (scalar_print v ! 1)) = Some (read_scalar v)"
proof -
  have lt: "STREN0 v < 8" "STREN1 v < 8" by (rule STREN_lt)+
  then have le: "STREN0 v \<le> 7" "STREN1 v \<le> 7" by simp_all
  have d: "c8_digit (scalar_print v ! 0) = STREN0 v" "c8_digit (scalar_print v ! 1) = STREN1 v"
    using lt by (simp_all add: scalar_print_def c8_digit_char strength0_def strength1_def)
  have b: "c8_bit (scalar_print v ! 2) = (if scalar_value v = BIT4_Z then BIT4_X else scalar_value v)"
    by (cases "scalar_value v") (simp_all add: scalar_print_def c8_bit_def)
  show ?thesis
  proof (cases "is_hiz v")
    case True
    then have "STREN0 v = 0" "STREN1 v = 0" by (simp_all add: is_hiz_def hiz_parts)
    with True show ?thesis unfolding d b by (simp add: scalar_of_def read_scalar_def)
  next
    case False
    then have nz: "\<not> (STREN0 v = 0 \<and> STREN1 v = 0)" by (auto simp: is_hiz_def hiz_parts)
    from False assms have m: "UNAMBIG v \<or> bit v 7 \<and> \<not> bit v 3" by (simp add: made_scalar_def)
    show ?thesis
      unfolding d b scalar_of_pack [OF le] using nz m lt False
      by (auto simp: value_parts UNAMBIG_parts byte_parts read_scalar_def)
  qed
qed

lemma v8_print_shape:
  "length (v8_print v) = 4 + 3 * v8_size v"
  "i < v8_size v \<Longrightarrow> k < 3 \<Longrightarrow> v8_print v ! (3 + 3 * i + k) = scalar_print (v8_bytes v ! (v8_size v - i - 1)) ! k"
proof -
  have len3: "length (scalar_print b) = 3" for b by (simp add: scalar_print_def)
  have len: "length (concat (map (\<lambda>idx. scalar_print (f idx)) [0..<n])) = 3 * n" for f n
    by (induction n) (simp_all add: len3)
  have nth: "concat (map (\<lambda>idx. scalar_print (f idx)) [0..<n]) ! (3 * i + k) = scalar_print (f i) ! k"
    if "i < n" "k < 3" for f n i k
    using that
  proof (induction n)
    case (Suc n)
    show ?case
    proof (cases "i < n")
      case True
      then have "3 * i + k < 3 * n" using Suc.prems(2) by linarith
      with True Suc show ?thesis by (simp add: nth_append len)
    next
      case False
      then have "i = n" using Suc.prems by simp
      with Suc.prems show ?thesis by (simp add: nth_append len)
    qed
  qed simp
  show "length (v8_print v) = 4 + 3 * v8_size v" by (simp add: v8_print_def len)
  assume i: "i < v8_size v" and k: "k < 3"
  then have "3 * i + k < 3 * v8_size v" by linarith
  moreover have "3 + 3 * i + k - 3 = 3 * i + k" by simp
  ultimately show "v8_print v ! (3 + 3 * i + k) = scalar_print (v8_bytes v ! (v8_size v - i - 1)) ! k"
    using nth [OF i k, of "\<lambda>idx. v8_bytes v ! (v8_size v - idx - 1)"]
    unfolding v8_print_def by (simp add: nth_append len nth_Cons')
qed

lemma v8_print_read:
  assumes inv: "v8_inv v" and made: "\<And>s. s \<in> set (v8_list v) \<Longrightarrow> made_scalar s"
  obtains r where "c8string_to_vector8 (v8_print v) = Some r" and "v8_inv r" and "v8_list r = map read_scalar (v8_list v)"
proof -
  let ?n = "v8_size v" and ?str = "v8_print v"
  note shape = v8_print_shape(1) [of v] v8_print_shape(2) [where v = v]
  obtain r where r: "for_each (\<lambda>i u. v8_set_bit u (?n - i - 1) (read_scalar (v8_bytes v ! (?n - i - 1)))) [0..<?n] (v8_make ?n) = Some r"
    "v8_inv r" "v8_size r = ?n" "\<And>i. i < ?n \<Longrightarrow> v8_bytes r ! (?n - i - 1) = read_scalar (v8_bytes v ! (?n - i - 1))"
    using v8.build_down [OF v8_make_inv(1), of ?n ?n "\<lambda>i. read_scalar (v8_bytes v ! (?n - i - 1))"] by auto
  have hdr: "c8string_header_test ?str" by (simp add: c8string_header_test_def char_at_def v8_print_def)
  have sc: "scalar_of (c8_bit (char_at (drop (3 + 3 * i) ?str) 2)) (c8_digit (char_at (drop (3 + 3 * i) ?str) 0))
      (c8_digit (char_at (drop (3 + 3 * i) ?str) 1)) = Some (read_scalar (v8_bytes v ! (?n - i - 1)))" if i: "i < ?n" for i
  proof -
    let ?s = "v8_bytes v ! (?n - i - 1)"
    have "char_at (drop (3 + 3 * i) ?str) k = scalar_print ?s ! k" if k: "k < 3" for k
    proof -
      have "3 + 3 * i + k < length ?str" using i k shape(1) by linarith
      then have "k < length (drop (3 + 3 * i) ?str)" by simp
      then show ?thesis using shape(2) [OF i k] unfolding char_at_def by simp
    qed
    moreover have "?n - i - 1 < ?n" using i by simp
    then have "?s \<in> set (v8_list v)" using inv by (metis length_v8_list nth_mem nth_v8_list)
    ultimately show ?thesis using scalar_print_read [OF made, of ?s] by simp
  qed
  have "c8string_to_vector8 ?str = for_each (\<lambda>idx tmp. let cp = drop (3 + 3 * idx) ?str in
        Option.bind (scalar_of (c8_bit (char_at cp 2)) (c8_digit (char_at cp 0)) (c8_digit (char_at cp 1)))
          (v8_set_bit tmp (?n - idx - 1))) [0..<?n] (v8_make ?n)"
    using hdr shape(1) by (simp add: c8string_to_vector8_def Let_def)
  also have "\<dots> = for_each (\<lambda>i u. v8_set_bit u (?n - i - 1) (read_scalar (v8_bytes v ! (?n - i - 1)))) [0..<?n] (v8_make ?n)"
    by (rule for_each_cong) (simp only: sc Let_def set_upt atLeastLessThan_iff Option.bind.bind_lunit)
  finally have "c8string_to_vector8 ?str = Some r" using r(1) by simp
  moreover have "v8_list r = map read_scalar (v8_list v)"
  proof (rule v8_listI [OF r(2)])
    fix i assume "i < length (map read_scalar (v8_list v))"
    then have "i < ?n" using inv by simp
    then show "v8_bytes r ! i = map read_scalar (v8_list v) ! i" using r(4) [of "?n - i - 1"] inv by simp
  qed (use r(3) inv in simp)
  ultimately show thesis using that r(2) by blast
qed

text \<open>The test for the constants knows only lower case letters, so it refuses a printed x or z.\<close>

lemma c8_scan_scalars:
  "c8_scan (concat (map scalar_print ss) @ ''>'') \<longleftrightarrow> (\<forall>s \<in> set ss. \<not> bit4_is_xz (scalar_value s))"
proof (induction ss)
  case (Cons s ss)
  have d: "c8_scan (char_of (48 + k) # cs) = c8_scan cs" if "k < 8" for k :: nat and cs
  proof -
    have c: "of_char (char_of (48 + k) :: char) = 48 + k" using that by (simp only: of_char_of) simp
    have "char_of (48 + k) \<noteq> CHR ''>''"
    proof
      assume "char_of (48 + k) = CHR ''>''"
      then have "(of_char (char_of (48 + k) :: char) :: nat) = of_char (CHR ''>'')" by (rule arg_cong)
      with c that show False by simp
    qed
    then show ?thesis using that c by simp
  qed
  have "strength0 s < 8" "strength1 s < 8" using STREN_lt [of s] by (simp_all add: strength0_def strength1_def)
  then have "c8_scan (scalar_print s @ cs) \<longleftrightarrow> \<not> bit4_is_xz (scalar_value s) \<and> c8_scan cs" for cs
    by (cases "scalar_value s") (simp_all add: scalar_print_def d)
  with Cons.IH show ?case by simp
qed simp

lemma v8_print_test:
  assumes "v8_inv v"
  shows "c8string_test (v8_print v) \<longleftrightarrow> (\<forall>s \<in> set (v8_list v). \<not> bit4_is_xz (scalar_value s))"
proof -
  have "map (\<lambda>idx. scalar_print (v8_bytes v ! (v8_size v - idx - 1))) [0..<v8_size v] = map scalar_print (rev (v8_list v))"
    by (rule nth_equalityI) (use assms in \<open>auto simp: rev_nth\<close>)
  then have "v8_print v = ''C8<'' @ (concat (map scalar_print (rev (v8_list v))) @ ''>'')" by (simp add: v8_print_def)
  then show ?thesis
    using c8_scan_scalars [of "rev (v8_list v)"] by (simp add: c8string_test_def c8string_header_test_def char_at_def)
qed

end
