(* ===== verification/Ring_Queue.thy ===== *)
theory Ring_Queue
  imports Main
begin

text \<open>
  The event lists of \<^verbatim>\<open>vvp/schedule.cc\<close>.  A list is a pointer to its last event, and the \<^verbatim>\<open>next\<close>
  pointers form a ring from the last event to the first.  The scheduler appends at the end
  (\<^verbatim>\<open>schedule_init_event\<close> and its copies, the tail of \<^verbatim>\<open>schedule_event_\<close>), pushes in front of the first
  (\<^verbatim>\<open>schedule_event_push_\<close>) and takes the first (the drain loops of \<^verbatim>\<open>schedule_simulate\<close>).  The
  store maps the address of an event to its \<^verbatim>\<open>next\<close> pointer; \<open>None\<close> is the null pointer.  The rings
  are shown to implement plain lists, which the model of the scheduler uses.
\<close>

type_synonym addr = nat
type_synonym ring = "(addr \<Rightarrow> addr) \<times> addr option"

definition ring_empty :: "(addr \<Rightarrow> addr) \<Rightarrow> ring" where
  "ring_empty nxt = (nxt, None)"

definition ring_append :: "addr \<Rightarrow> ring \<Rightarrow> ring" where
  "ring_append cur q = (case q of (nxt, lst) \<Rightarrow>
     case lst of
       None \<Rightarrow> (nxt(cur := cur), Some cur)
     | Some l \<Rightarrow>
         let nxt = nxt(cur := nxt l);
             nxt = nxt(l := cur)
         in (nxt, Some cur))"

definition ring_push :: "addr \<Rightarrow> ring \<Rightarrow> ring" where
  "ring_push cur q = (case q of (nxt, lst) \<Rightarrow>
     case lst of
       None \<Rightarrow> (nxt(cur := cur), Some cur)
     | Some l \<Rightarrow>
         let nxt = nxt(cur := nxt l);
             nxt = nxt(l := cur)
         in (nxt, Some l))"

definition ring_take :: "ring \<Rightarrow> (addr \<times> ring) option" where
  "ring_take q = (case q of (nxt, lst) \<Rightarrow>
     case lst of
       None \<Rightarrow> None
     | Some l \<Rightarrow>
         let cur = nxt l in
         if nxt cur = cur then Some (cur, (nxt, None))
         else Some (cur, (nxt(l := nxt cur), Some l)))"

section \<open>The interface\<close>

text \<open>
  What the scheduler relies on: an abstraction to lists under which appending, pushing and taking are
  the list operations, for events that are not in the list yet.
\<close>

locale event_list =
  fixes inv :: "'q \<Rightarrow> bool"
    and elems :: "'q \<Rightarrow> 'a list"
    and append :: "'a \<Rightarrow> 'q \<Rightarrow> 'q"
    and push :: "'a \<Rightarrow> 'q \<Rightarrow> 'q"
    and take_first :: "'q \<Rightarrow> ('a \<times> 'q) option"
  assumes append_law: "inv q \<Longrightarrow> a \<notin> set (elems q) \<Longrightarrow> inv (append a q) \<and> elems (append a q) = elems q @ [a]"
    and push_law: "inv q \<Longrightarrow> a \<notin> set (elems q) \<Longrightarrow> inv (push a q) \<and> elems (push a q) = a # elems q"
    and take_empty: "inv q \<Longrightarrow> elems q = [] \<Longrightarrow> take_first q = None"
    and take_some: "inv q \<Longrightarrow> elems q = a # as \<Longrightarrow> \<exists>q'. take_first q = Some (a, q') \<and> inv q' \<and> elems q' = as"
    and elems_distinct: "inv q \<Longrightarrow> distinct (elems q)"
begin

text \<open>Draining a list visits its events in order and empties it.\<close>

fun drain :: "nat \<Rightarrow> 'q \<Rightarrow> 'a list" where
  "drain 0 q = []"
| "drain (Suc n) q = (case take_first q of None \<Rightarrow> [] | Some (a, q') \<Rightarrow> a # drain n q')"

lemma drain_order: "inv q \<Longrightarrow> length (elems q) \<le> n \<Longrightarrow> drain n q = elems q"
proof (induction n arbitrary: q)
  case (Suc n)
  show ?case
  proof (cases "elems q")
    case Nil
    with Suc.prems take_empty show ?thesis by simp
  next
    case (Cons a as)
    then obtain q' where "take_first q = Some (a, q')" "inv q'" "elems q' = as"
      using take_some Suc.prems by blast
    with Suc Cons show ?thesis by simp
  qed
qed simp

text \<open>Events appended one after the other are taken in the same order.\<close>

lemma appended_in_order:
  assumes "inv q" and "distinct as" and "set as \<inter> set (elems q) = {}"
  shows "inv (fold append as q) \<and> elems (fold append as q) = elems q @ as"
  using assms
proof (induction as arbitrary: q)
  case (Cons a as)
  then have "inv (append a q)" "elems (append a q) = elems q @ [a]" using append_law by simp_all
  with Cons show ?case by auto
qed simp

lemma fifo:
  assumes "inv q" and "elems q = []" and "distinct as"
  shows "drain (length as) (fold append as q) = as"
  using appended_in_order [OF assms(1,3)] assms(2) drain_order [of "fold append as q" "length as"] by simp

end

section \<open>Rings implement lists\<close>

text \<open>\<open>path nxt a as\<close>: following \<^verbatim>\<open>next\<close> from \<open>a\<close> visits \<open>as\<close>.\<close>

fun path :: "(addr \<Rightarrow> addr) \<Rightarrow> addr \<Rightarrow> addr list \<Rightarrow> bool" where
  "path nxt a [] = True"
| "path nxt a (b # bs) = (nxt a = b \<and> path nxt b bs)"

definition ring_of :: "ring \<Rightarrow> addr list \<Rightarrow> bool" where
  "ring_of q as \<longleftrightarrow> distinct as \<and> (case q of (nxt, lst) \<Rightarrow>
     if as = [] then lst = None else lst = Some (last as) \<and> path nxt (last as) as)"

lemma path_upd: "x \<notin> set (a # butlast as) \<Longrightarrow> path (nxt(x := y)) a as = path nxt a as"
proof (induction as arbitrary: a)
  case (Cons b bs)
  then show ?case by (cases "bs = []") auto
qed simp

lemma path_snoc: "path nxt a (as @ [b]) \<longleftrightarrow> path nxt a as \<and> nxt (last (a # as)) = b"
  by (induction as arbitrary: a) auto

text \<open>A nonempty ring in terms of its first element, the elements after it, and the last.\<close>

lemma ring_of_Cons:
  "ring_of (nxt, lst) (b # bs) \<longleftrightarrow>
     distinct (b # bs) \<and> lst = Some (last (b # bs)) \<and> nxt (last (b # bs)) = b \<and> path nxt b bs"
  by (auto simp: ring_of_def)

lemma last_notin_butlast: "distinct as \<Longrightarrow> as \<noteq> [] \<Longrightarrow> last as \<notin> set (butlast as)"
  by (metis append_butlast_last_id distinct_append disjoint_iff list.set_intros(1))

lemma ring_insert_of:
  assumes r: "ring_of (nxt, lst) (b # bs)" and a: "a \<notin> set (b # bs)" and l: "l = last (b # bs)"
  defines "nxt' \<equiv> nxt(a := nxt l, l := a)"
  shows "path nxt' b bs" and "nxt' a = b" and "nxt' l = a"
proof -
  have r': "distinct (b # bs)" "nxt l = b" "path nxt b bs" using r l by (auto simp: ring_of_Cons)
  have ne: "l \<noteq> a" using a l last_in_set [of "b # bs"] by auto
  show "nxt' a = b" "nxt' l = a" using r'(2) ne by (simp_all add: nxt'_def)
  show "path nxt' b bs"
  proof (cases "bs = []")
    case False
    have "l \<notin> set (b # butlast bs)" using last_notin_butlast [OF r'(1)] l False by simp
    moreover have "a \<notin> set (b # butlast bs)" using a by (auto dest: in_set_butlastD)
    ultimately show ?thesis using r'(3) unfolding nxt'_def by (simp only: path_upd not_False_eq_True)
  qed simp
qed

lemma ring_append_of:
  assumes "ring_of q as" and "a \<notin> set as"
  shows "ring_of (ring_append a q) (as @ [a])"
proof (cases as)
  case Nil
  with assms show ?thesis by (auto simp: ring_of_def ring_append_def split: prod.splits)
next
  case (Cons b bs)
  obtain nxt lst where q: "q = (nxt, lst)" by fastforce
  have r: "ring_of (nxt, lst) (b # bs)" "a \<notin> set (b # bs)" using assms Cons q by simp_all
  note i = ring_insert_of [OF r refl]
  have "lst = Some (last (b # bs))" "distinct (b # bs)" using r(1) by (simp_all add: ring_of_Cons)
  with i r(2) show ?thesis
    unfolding q Cons ring_append_def append_Cons by (simp add: ring_of_Cons path_snoc Let_def)
qed

lemma ring_push_of:
  assumes "ring_of q as" and "a \<notin> set as"
  shows "ring_of (ring_push a q) (a # as)"
proof (cases as)
  case Nil
  with assms show ?thesis by (auto simp: ring_of_def ring_push_def split: prod.splits)
next
  case (Cons b bs)
  obtain nxt lst where q: "q = (nxt, lst)" by fastforce
  have r: "ring_of (nxt, lst) (b # bs)" "a \<notin> set (b # bs)" using assms Cons q by simp_all
  note i = ring_insert_of [OF r refl]
  have "lst = Some (last (b # bs))" "distinct (b # bs)" using r(1) by (simp_all add: ring_of_Cons)
  with i r(2) show ?thesis
    unfolding q Cons ring_push_def by (simp add: ring_of_Cons Let_def)
qed

lemma ring_take_of:
  assumes "ring_of q (b # bs)"
  shows "\<exists>q'. ring_take q = Some (b, q') \<and> ring_of q' bs"
proof -
  obtain nxt lst where q: "q = (nxt, lst)" by fastforce
  let ?l = "last (b # bs)"
  have r: "distinct (b # bs)" "lst = Some ?l" "nxt ?l = b" "path nxt b bs" using assms by (simp_all add: q ring_of_Cons)
  show ?thesis
  proof (cases bs)
    case Nil
    with r show ?thesis by (simp add: q ring_take_def ring_of_def)
  next
    case (Cons c cs)
    then have l: "?l = last (c # cs)" and nb: "nxt b = c" "path nxt c cs" "c \<noteq> b" using r by auto
    have "path (nxt(?l := c)) c cs"
    proof (cases "cs = []")
      case False
      then have "?l \<notin> set (c # butlast cs)" using last_notin_butlast [OF r(1)] Cons by simp
      with nb(2) show ?thesis by (simp only: path_upd not_False_eq_True)
    qed simp
    with r nb l Cons show ?thesis by (simp add: q ring_take_def ring_of_Cons Let_def)
  qed
qed

text \<open>The list of a ring is determined by the ring.\<close>

lemma ring_take_None: "ring_of q [] \<Longrightarrow> ring_take q = None"
  by (auto simp: ring_of_def ring_take_def split: prod.splits)

lemma ring_of_unique: "ring_of q as \<Longrightarrow> ring_of q bs \<Longrightarrow> as = bs"
proof (induction as arbitrary: q bs)
  case Nil
  then show ?case by (auto simp: ring_of_def split: prod.splits if_splits)
next
  case (Cons a as)
  obtain q' where q': "ring_take q = Some (a, q')" "ring_of q' as" using ring_take_of [OF Cons.prems(1)] by blast
  show ?case
  proof (cases bs)
    case Nil
    with Cons.prems(2) q' ring_take_None show ?thesis by fastforce
  next
    case (Cons b cs)
    then obtain q'' where "ring_take q = Some (b, q'')" "ring_of q'' cs" using ring_take_of Cons.prems(2) by blast
    with q' Cons Cons.IH show ?thesis by auto
  qed
qed

definition ring_inv :: "ring \<Rightarrow> bool" where
  "ring_inv q \<longleftrightarrow> (\<exists>as. ring_of q as)"

definition ring_elems :: "ring \<Rightarrow> addr list" where
  "ring_elems q = (THE as. ring_of q as)"

lemma ring_elems_eq: "ring_of q as \<Longrightarrow> ring_elems q = as \<and> ring_inv q"
  unfolding ring_elems_def ring_inv_def using ring_of_unique by blast

lemma ring_inv_of: "ring_inv q \<Longrightarrow> ring_of q (ring_elems q)"
  by (metis ring_elems_eq ring_inv_def)

lemma ring_empty_of: "ring_of (ring_empty nxt) []"
  by (simp add: ring_of_def ring_empty_def)

interpretation rings: event_list ring_inv ring_elems ring_append ring_push ring_take
proof
  fix q :: ring and a :: addr and as
  assume q: "ring_inv q"
  note r = ring_inv_of [OF q]
  show "a \<notin> set (ring_elems q) \<Longrightarrow> ring_inv (ring_append a q) \<and> ring_elems (ring_append a q) = ring_elems q @ [a]"
    using ring_elems_eq [OF ring_append_of [OF r]] by blast
  show "a \<notin> set (ring_elems q) \<Longrightarrow> ring_inv (ring_push a q) \<and> ring_elems (ring_push a q) = a # ring_elems q"
    using ring_elems_eq [OF ring_push_of [OF r]] by blast
  show "ring_elems q = [] \<Longrightarrow> ring_take q = None" using r ring_take_None by simp
  show "ring_elems q = a # as \<Longrightarrow> \<exists>q'. ring_take q = Some (a, q') \<and> ring_inv q' \<and> ring_elems q' = as"
    using r ring_take_of ring_elems_eq by metis
  show "distinct (ring_elems q)" using r by (simp add: ring_of_def)
qed

end
