(* ===== verification/Schedule.thy ===== *)
theory Schedule
  imports Ring_Queue
begin

text \<open>
  The event scheduler of \<^verbatim>\<open>vvp/schedule.cc\<close>.  \<^verbatim>\<open>sched_list\<close> is a list of time steps
  (\<^verbatim>\<open>event_time_s\<close>), each with its delay after the step before it and seven event lists.  The event
  lists are plain lists here; theory \<open>Ring_Queue\<close> shows that the rings of the source implement them.
  Events are of an arbitrary type: what an event does when it runs is any sequence of calls of the
  scheduler interface (\<open>sched_call\<close>).  \<^verbatim>\<open>schedule_simulate\<close> is a step relation that runs at most one
  event per step; the label of a step is the event run, with the time and the list it came from.

  The delays here are natural numbers: the scheduler only compares them and subtracts a smaller one from a
  larger one, so they stay within the 64 bits of their arguments.  The simulation time is in theory \<open>Simulate\<close>.
\<close>

section \<open>Time steps and their event lists\<close>

datatype event_queue_t = SEQ_START | SEQ_ACTIVE | SEQ_INACTIVE | SEQ_NBASSIGN | SEQ_RWSYNC | SEQ_ROSYNC | DEL_THREAD

record 'e event_time_s =
  et_delay :: nat
  et_start :: "'e list"
  et_active :: "'e list"
  et_inactive :: "'e list"
  et_nbassign :: "'e list"
  et_rwsync :: "'e list"
  et_rosync :: "'e list"
  et_del_thr :: "'e list"

definition new_event_time :: "nat \<Rightarrow> 'e event_time_s" where
  "new_event_time d = \<lparr>et_delay = d, et_start = [], et_active = [], et_inactive = [], et_nbassign = [],
     et_rwsync = [], et_rosync = [], et_del_thr = []\<rparr>"

definition et_queue :: "'e event_time_s \<Rightarrow> event_queue_t \<Rightarrow> 'e list" where
  "et_queue c q = (case q of SEQ_START \<Rightarrow> et_start c | SEQ_ACTIVE \<Rightarrow> et_active c | SEQ_INACTIVE \<Rightarrow> et_inactive c
     | SEQ_NBASSIGN \<Rightarrow> et_nbassign c | SEQ_RWSYNC \<Rightarrow> et_rwsync c | SEQ_ROSYNC \<Rightarrow> et_rosync c
     | DEL_THREAD \<Rightarrow> et_del_thr c)"

definition et_put :: "'e event_time_s \<Rightarrow> event_queue_t \<Rightarrow> 'e list \<Rightarrow> 'e event_time_s" where
  "et_put c q es = (case q of SEQ_START \<Rightarrow> c\<lparr>et_start := es\<rparr> | SEQ_ACTIVE \<Rightarrow> c\<lparr>et_active := es\<rparr>
     | SEQ_INACTIVE \<Rightarrow> c\<lparr>et_inactive := es\<rparr> | SEQ_NBASSIGN \<Rightarrow> c\<lparr>et_nbassign := es\<rparr>
     | SEQ_RWSYNC \<Rightarrow> c\<lparr>et_rwsync := es\<rparr> | SEQ_ROSYNC \<Rightarrow> c\<lparr>et_rosync := es\<rparr>
     | DEL_THREAD \<Rightarrow> c\<lparr>et_del_thr := es\<rparr>)"

text \<open>
  The end of \<^verbatim>\<open>schedule_event_\<close>: the event goes to the end of the selected list of the time step.  The
  assertion on the inactive list is about the delay that is left at that point.
\<close>

definition put_event :: "'e \<Rightarrow> nat \<Rightarrow> event_queue_t \<Rightarrow> 'e event_time_s \<Rightarrow> 'e event_time_s option" where
  "put_event cur delay select_queue ctim =
    (if select_queue = SEQ_INACTIVE \<and> delay \<noteq> 0 then None
     else Some (et_put ctim select_queue (et_queue ctim select_queue @ [cur])))"

text \<open>The walk to the time step of the event, with the delay that is left.\<close>

fun sched_walk :: "'e \<Rightarrow> nat \<Rightarrow> event_queue_t \<Rightarrow> 'e event_time_s list \<Rightarrow> 'e event_time_s list option" where
  "sched_walk cur delay q [] = None"
| "sched_walk cur delay q (ctim # rest) =
    (if rest \<noteq> [] \<and> et_delay ctim < delay
     then map_option (\<lambda>l. ctim # l) (sched_walk cur (delay - et_delay ctim) q rest)
     else if et_delay ctim > delay
     then map_option (\<lambda>tmp. tmp # ctim\<lparr>et_delay := et_delay ctim - delay\<rparr> # rest)
       (put_event cur delay q (new_event_time delay))
     else if et_delay ctim = delay then map_option (\<lambda>c. c # rest) (put_event cur delay q ctim)
     else if rest \<noteq> [] then None
     else map_option (\<lambda>tmp. [ctim, tmp]) (put_event cur delay q (new_event_time (delay - et_delay ctim))))"

definition schedule_event :: "'e \<Rightarrow> nat \<Rightarrow> event_queue_t \<Rightarrow> 'e event_time_s list \<Rightarrow> 'e event_time_s list option" where
  "schedule_event cur delay q sched_list = (case sched_list of
       [] \<Rightarrow> map_option (\<lambda>c. [c]) (put_event cur delay q (new_event_time delay))
     | ctim # rest \<Rightarrow>
         if et_delay ctim > delay
         then map_option (\<lambda>tmp. tmp # ctim\<lparr>et_delay := et_delay ctim - delay\<rparr> # rest)
           (put_event cur delay q (new_event_time delay))
         else sched_walk cur delay q sched_list)"

text \<open>The short cuts for the current time step.\<close>

definition schedule_nbassign :: "'e \<Rightarrow> nat \<Rightarrow> 'e event_time_s list \<Rightarrow> 'e event_time_s list option" where
  "schedule_nbassign cur delay sched_list = (case sched_list of
       [] \<Rightarrow> schedule_event cur delay SEQ_NBASSIGN sched_list
     | ctim # rest \<Rightarrow>
         if delay \<noteq> 0 \<or> et_delay ctim \<noteq> 0 then schedule_event cur delay SEQ_NBASSIGN sched_list
         else Some (ctim\<lparr>et_nbassign := et_nbassign ctim @ [cur]\<rparr> # rest))"

definition schedule_event_push :: "'e \<Rightarrow> 'e event_time_s list \<Rightarrow> 'e event_time_s list option" where
  "schedule_event_push cur sched_list = (case sched_list of
       [] \<Rightarrow> schedule_event cur 0 SEQ_ACTIVE sched_list
     | ctim # rest \<Rightarrow>
         if et_delay ctim > 0 then schedule_event cur 0 SEQ_ACTIVE sched_list
         else if et_active ctim = [] then Some (ctim\<lparr>et_active := [cur]\<rparr> # rest)
         else Some (ctim\<lparr>et_active := cur # et_active ctim\<rparr> # rest))"

definition schedule_vthread_list_ready :: "'e \<Rightarrow> 'e event_time_s list \<Rightarrow> 'e event_time_s list option" where
  "schedule_vthread_list_ready cur sched_list = (case sched_list of
       [] \<Rightarrow> schedule_event cur 0 SEQ_ACTIVE sched_list
     | ctim # rest \<Rightarrow>
         if et_delay ctim \<noteq> 0 then schedule_event cur 0 SEQ_ACTIVE sched_list
         else Some (ctim\<lparr>et_active := et_active ctim @ [cur]\<rparr> # rest))"

section \<open>The time line of a list of time steps\<close>

text \<open>
  \<open>events_at l t q\<close> are the events that wait in list \<open>q\<close> for \<open>t\<close> time units after the start of the
  list.  Only the first time step may have delay 0.
\<close>

fun events_at :: "'e event_time_s list \<Rightarrow> nat \<Rightarrow> event_queue_t \<Rightarrow> 'e list" where
  "events_at [] t q = []"
| "events_at (c # cs) t q =
    (if t < et_delay c then [] else if t = et_delay c then et_queue c q else events_at cs (t - et_delay c) q)"

definition later_ok :: "'e event_time_s list \<Rightarrow> bool" where
  "later_ok cs \<longleftrightarrow> (\<forall>c \<in> set cs. 0 < et_delay c)"

definition sched_ok :: "'e event_time_s list \<Rightarrow> bool" where
  "sched_ok l \<longleftrightarrow> later_ok (tl l)"

lemma et_queue_put [simp]: "et_queue (et_put c q es) q' = (if q' = q then es else et_queue c q')"
  by (cases q; cases q') (simp_all add: et_queue_def et_put_def)

lemma et_delay_put [simp]: "et_delay (et_put c q es) = et_delay c"
  by (cases q) (simp_all add: et_put_def)

lemma et_queue_new [simp]: "et_queue (new_event_time d) q = []" "et_delay (new_event_time d) = d"
  by (cases q) (simp_all add: et_queue_def new_event_time_def)

lemma et_queue_delay [simp]: "et_queue (c\<lparr>et_delay := d\<rparr>) q = et_queue c q"
  by (cases q) (simp_all add: et_queue_def)

lemma later_ok_simps [simp]: "later_ok []" "later_ok (c # cs) \<longleftrightarrow> 0 < et_delay c \<and> later_ok cs"
  by (auto simp: later_ok_def)

lemma events_at_0: "later_ok cs \<Longrightarrow> events_at cs 0 q = []"
  by (cases cs) auto

definition appended :: "'e \<Rightarrow> nat \<Rightarrow> event_queue_t \<Rightarrow> 'e event_time_s list \<Rightarrow> 'e event_time_s list \<Rightarrow> bool" where
  "appended cur d q l l' \<longleftrightarrow> (\<forall>t q'. events_at l' t q' = events_at l t q' @ (if t = d \<and> q' = q then [cur] else []))"

lemma put_event_some: "put_event cur d q c = Some c' \<Longrightarrow> c' = et_put c q (et_queue c q @ [cur])"
  by (simp add: put_event_def split: if_splits)

lemma sched_walk_appends:
  assumes "l \<noteq> []" and "later_ok (tl l)" and "sched_walk cur d q l = Some l'"
  shows "appended cur d q l l' \<and> l' \<noteq> [] \<and> et_delay (hd l') = min d (et_delay (hd l)) \<and> later_ok (tl l')"
  using assms
proof (induction l arbitrary: d l')
  case (Cons c rest)
  consider (walk) "rest \<noteq> []" "et_delay c < d" | (front) "et_delay c > d" | (here) "et_delay c = d"
    | (final) "rest = []" "et_delay c < d" by linarith
  then show ?case
  proof cases
    case walk
    then obtain l'' where l'': "sched_walk cur (d - et_delay c) q rest = Some l''" "l' = c # l''"
      using Cons.prems by auto
    have ok: "0 < et_delay (hd rest)" "later_ok (tl rest)" using walk(1) Cons.prems by (cases rest; simp)+
    have IH: "appended cur (d - et_delay c) q rest l''" "l'' \<noteq> []"
      "et_delay (hd l'') = min (d - et_delay c) (et_delay (hd rest))" "later_ok (tl l'')"
      using Cons.IH [OF walk(1) ok(2) l''(1)] by auto
    have "0 < et_delay (hd l'')" using IH(3) ok(1) walk(2) by simp
    then have "later_ok l''" using IH(2,4) by (cases l'') auto
    moreover have "appended cur d q (c # rest) l'"
      using IH(1) walk(2) unfolding appended_def l''(2) by (auto split: if_splits)
    ultimately show ?thesis using walk by (simp add: l''(2))
  next
    case front
    then obtain tmp where "tmp = et_put (new_event_time d) q [cur]" "l' = tmp # c\<lparr>et_delay := et_delay c - d\<rparr> # rest"
      using Cons.prems by (auto dest!: put_event_some)
    moreover from this have "appended cur d q (c # rest) l'" using front unfolding appended_def by auto
    ultimately show ?thesis using front Cons.prems by simp
  next
    case here
    then obtain c' where "c' = et_put c q (et_queue c q @ [cur])" "l' = c' # rest"
      using Cons.prems by (auto dest!: put_event_some)
    moreover from this have "appended cur d q (c # rest) l'" using here unfolding appended_def by auto
    ultimately show ?thesis using here Cons.prems by simp
  next
    case final
    then obtain tmp where "tmp = et_put (new_event_time (d - et_delay c)) q [cur]" "l' = [c, tmp]"
      using Cons.prems by (auto dest!: put_event_some)
    moreover from this have "appended cur d q (c # rest) l'" using final unfolding appended_def by auto
    ultimately show ?thesis using final by simp
  qed
qed simp

lemma schedule_event_appends:
  assumes "sched_ok l" and "schedule_event cur d q l = Some l'"
  shows "appended cur d q l l'" and "l' \<noteq> []" and "sched_ok l'"
    and "et_delay (hd l') = (if l = [] then d else min d (et_delay (hd l)))"
proof -
  have "appended cur d q l l' \<and> l' \<noteq> [] \<and> sched_ok l' \<and> et_delay (hd l') = (if l = [] then d else min d (et_delay (hd l)))"
  proof (cases l)
    case Nil
    then have l': "l' = [et_put (new_event_time d) q [cur]]" using assms by (auto simp: schedule_event_def dest!: put_event_some)
    then show ?thesis unfolding Nil appended_def by (auto simp: sched_ok_def)
  next
    case (Cons c rest)
    show ?thesis
    proof (cases "et_delay c > d")
      case True
      then have l': "l' = et_put (new_event_time d) q [cur] # c\<lparr>et_delay := et_delay c - d\<rparr> # rest"
        using assms Cons by (auto simp: schedule_event_def dest!: put_event_some)
      show ?thesis using True assms unfolding l' Cons appended_def by (auto simp: sched_ok_def)
    next
      case False
      with assms Cons sched_walk_appends [of l cur d q l'] show ?thesis
        by (simp add: schedule_event_def sched_ok_def)
    qed
  qed
  then show "appended cur d q l l'" "l' \<noteq> []" "sched_ok l'"
    "et_delay (hd l') = (if l = [] then d else min d (et_delay (hd l)))" by blast+
qed

lemma schedule_event_total:
  assumes "q = SEQ_INACTIVE \<longrightarrow> d = 0"
  shows "\<exists>l'. schedule_event cur d q l = Some l'"
proof -
  have "\<exists>l'. sched_walk cur d q l = Some l'" if "l \<noteq> []" "q = SEQ_INACTIVE \<longrightarrow> d = 0" for l d
    using that
  proof (induction l arbitrary: d)
    case (Cons c rest)
    show ?case
    proof (cases "rest \<noteq> [] \<and> et_delay c < d")
      case True
      moreover from this obtain l' where "sched_walk cur (d - et_delay c) q rest = Some l'"
        using Cons.IH [of "d - et_delay c"] Cons.prems by auto
      ultimately show ?thesis by simp
    next
      case False
      then show ?thesis using Cons.prems by (auto simp: put_event_def)
    qed
  qed simp
  then show ?thesis using assms by (auto simp: schedule_event_def put_event_def split: list.splits)
qed

lemma schedule_event_inactive: "0 < d \<Longrightarrow> schedule_event cur d SEQ_INACTIVE l = None"
proof -
  have "sched_walk cur d SEQ_INACTIVE l = None" if "0 < d" for d
    using that by (induction cur d SEQ_INACTIVE l rule: sched_walk.induct) (simp_all add: put_event_def)
  then show "0 < d \<Longrightarrow> ?thesis" by (cases l) (simp_all add: schedule_event_def put_event_def del: sched_walk.simps)
qed

lemma schedule_nbassign_eq: "schedule_nbassign cur d l = schedule_event cur d SEQ_NBASSIGN l"
  by (cases l) (auto simp: schedule_nbassign_def schedule_event_def put_event_def et_put_def et_queue_def)

lemma schedule_list_ready_eq: "schedule_vthread_list_ready cur l = schedule_event cur 0 SEQ_ACTIVE l"
  by (cases l) (auto simp: schedule_vthread_list_ready_def schedule_event_def put_event_def et_put_def et_queue_def)

lemma schedule_event_push_front:
  assumes "sched_ok l" and push: "schedule_event_push cur l = Some l'"
  shows "sched_ok l'" and "l' \<noteq> []" and "et_delay (hd l') = 0"
    and "events_at l' t q = (if t = 0 \<and> q = SEQ_ACTIVE then cur # events_at l t q else events_at l t q)"
proof -
  have "sched_ok l' \<and> l' \<noteq> [] \<and> et_delay (hd l') = 0
    \<and> events_at l' t q = (if t = 0 \<and> q = SEQ_ACTIVE then cur # events_at l t q else events_at l t q)"
  proof (cases "l = [] \<or> 0 < et_delay (hd l)")
    case True
    then have "schedule_event_push cur l = schedule_event cur 0 SEQ_ACTIVE l"
      by (cases l) (simp_all add: schedule_event_push_def)
    then have l': "schedule_event cur 0 SEQ_ACTIVE l = Some l'" using push by simp
    note a = schedule_event_appends [OF assms(1) l']
    have "events_at l 0 q = []" for q using True by (cases l) auto
    with a True show ?thesis by (auto simp: appended_def)
  next
    case False
    then obtain c rest where l: "l = c # rest" "et_delay c = 0" by (cases l) auto
    let ?l = "c\<lparr>et_active := cur # et_active c\<rparr> # rest"
    have "l' = ?l" using l push by (simp add: schedule_event_push_def split: if_splits)
    moreover have "events_at ?l t q = (if t = 0 \<and> q = SEQ_ACTIVE then cur # events_at l t q else events_at l t q)"
      using l by (cases q) (auto simp: et_queue_def)
    ultimately show ?thesis using assms l by (simp add: sched_ok_def)
  qed
  then show "sched_ok l'" "l' \<noteq> []" "et_delay (hd l') = 0"
    "events_at l' t q = (if t = 0 \<and> q = SEQ_ACTIVE then cur # events_at l t q else events_at l t q)" by blast+
qed

lemma schedule_event_push_total: "\<exists>l'. schedule_event_push cur l = Some l'"
  using schedule_event_total [of SEQ_ACTIVE 0 cur l] by (cases l) (auto simp: schedule_event_push_def)

end
