(* ===== verification/Simulate.thy ===== *)
theory Simulate
  imports Schedule "HOL-Library.Sublist" "HOL-Library.Word" "HOL-Library.Multiset"
begin

text \<open>
  The interface of the scheduler over its whole state, and the simulation loop
  \<^verbatim>\<open>schedule_simulate\<close> with \<^verbatim>\<open>run_rosync\<close> (\<^verbatim>\<open>vvp/schedule.cc\<close>) as a labelled step relation.

  The body of an event, and the callbacks and the debugger prompt the loop calls, may make any calls of
  the scheduler interface: \<open>effect\<close> is the closure of those calls.  So what holds of every step here holds
  whatever the events do.  The local variable \<^verbatim>\<open>ctim\<close> of the loop is the first time step; the invariant
  shows that it stays in front with delay 0 while the loop works on it.

  \<^verbatim>\<open>schedule_time\<close> is a 64-bit word and wraps when time passes \<open>2 ^ 64\<close>.  Nothing in the loop compares times: the
  time steps are ordered by their delays, so the order of events and the distance between them are stated
  with the time that has passed (\<open>timed_run\<close>), which does not wrap.
\<close>

section \<open>State and interface\<close>

record 'e sched =
  sched_list :: "'e event_time_s list"
  schedule_init_list :: "'e list"
  schedule_prestart_list :: "'e list"
  schedule_final_list :: "'e list"
  schedule_runnable :: bool
  schedule_stopped_flag :: bool
  schedule_single_step_flag :: bool
  schedule_time :: "64 word"
  sim_started :: bool
  sim_at_rosync :: bool

definition sched_init :: "'e sched" where
  "sched_init = \<lparr>sched_list = [], schedule_init_list = [], schedule_prestart_list = [], schedule_final_list = [],
     schedule_runnable = True, schedule_stopped_flag = False, schedule_single_step_flag = False,
     schedule_time = 0, sim_started = False, sim_at_rosync = False\<rparr>"

definition with_list :: "('e event_time_s list \<Rightarrow> 'e event_time_s list option) \<Rightarrow> 'e sched \<Rightarrow> 'e sched option" where
  "with_list f s = map_option (\<lambda>l. s\<lparr>sched_list := l\<rparr>) (f (sched_list s))"

definition schedule_init_event :: "'e \<Rightarrow> 'e sched \<Rightarrow> 'e sched" where
  "schedule_init_event cur s = s\<lparr>schedule_init_list := schedule_init_list s @ [cur]\<rparr>"

definition schedule_prestart_event :: "'e \<Rightarrow> 'e sched \<Rightarrow> 'e sched" where
  "schedule_prestart_event cur s = s\<lparr>schedule_prestart_list := schedule_prestart_list s @ [cur]\<rparr>"

definition schedule_final_event :: "'e \<Rightarrow> 'e sched \<Rightarrow> 'e sched" where
  "schedule_final_event cur s = s\<lparr>schedule_final_list := schedule_final_list s @ [cur]\<rparr>"

definition schedule_finish :: "'e sched \<Rightarrow> 'e sched" where
  "schedule_finish s = s\<lparr>schedule_runnable := False\<rparr>"

definition schedule_stop :: "'e sched \<Rightarrow> 'e sched" where
  "schedule_stop s = s\<lparr>schedule_stopped_flag := True\<rparr>"

definition schedule_single_step :: "'e sched \<Rightarrow> 'e sched" where
  "schedule_single_step s = s\<lparr>schedule_single_step_flag := True\<rparr>"

definition schedule_finished :: "'e sched \<Rightarrow> bool" where
  "schedule_finished s = (\<not> schedule_runnable s)"

definition schedule_vthread :: "'e \<Rightarrow> nat \<Rightarrow> bool \<Rightarrow> 'e sched \<Rightarrow> 'e sched option" where
  "schedule_vthread cur delay push_flag s =
    (if push_flag \<and> delay = 0 then with_list (schedule_event_push cur) s
     else with_list (schedule_event cur delay SEQ_ACTIVE) s)"

definition schedule_inactive :: "'e \<Rightarrow> 'e sched \<Rightarrow> 'e sched option" where
  "schedule_inactive cur s = with_list (schedule_event cur 0 SEQ_INACTIVE) s"

definition schedule_assign :: "'e \<Rightarrow> nat \<Rightarrow> 'e sched \<Rightarrow> 'e sched option" where
  "schedule_assign cur delay s = with_list (schedule_nbassign cur delay) s"

definition schedule_set :: "'e \<Rightarrow> 'e sched \<Rightarrow> 'e sched option" where
  "schedule_set cur s = with_list (schedule_event cur 0 SEQ_ACTIVE) s"

definition schedule_del_thr :: "'e \<Rightarrow> 'e sched \<Rightarrow> 'e sched option" where
  "schedule_del_thr cur s = with_list (schedule_event cur 0 DEL_THREAD) s"

definition schedule_generic :: "'e \<Rightarrow> nat \<Rightarrow> bool \<Rightarrow> bool \<Rightarrow> 'e sched \<Rightarrow> 'e sched option" where
  "schedule_generic cur delay sync_flag ro_flag s =
    with_list (schedule_event cur delay (if sync_flag then (if ro_flag then SEQ_ROSYNC else SEQ_RWSYNC) else SEQ_ACTIVE)) s"

definition schedule_functor :: "'e \<Rightarrow> 'e sched \<Rightarrow> 'e sched option" where
  "schedule_functor cur s =
    (if \<not> sim_started s then Some (schedule_init_event cur s)
     else with_list (schedule_event cur 0 SEQ_ACTIVE) s)"

definition schedule_at_start_of_simtime :: "'e \<Rightarrow> nat \<Rightarrow> 'e sched \<Rightarrow> 'e sched option" where
  "schedule_at_start_of_simtime cur delay s = with_list (schedule_event cur delay SEQ_START) s"

definition schedule_at_end_of_simtime :: "'e \<Rightarrow> nat \<Rightarrow> 'e sched \<Rightarrow> 'e sched option" where
  "schedule_at_end_of_simtime cur delay s = with_list (schedule_event cur delay SEQ_RWSYNC) s"

definition schedule_ready :: "'e \<Rightarrow> 'e sched \<Rightarrow> 'e sched option" where
  "schedule_ready cur s = with_list (schedule_vthread_list_ready cur) s"

text \<open>One call of the interface, and the effect of running code: any number of calls.\<close>

inductive sched_call :: "'e sched \<Rightarrow> 'e sched \<Rightarrow> bool" where
  call_vthread: "schedule_vthread cur delay push s = Some s' \<Longrightarrow> sched_call s s'"
| call_inactive: "schedule_inactive cur s = Some s' \<Longrightarrow> sched_call s s'"
| call_assign: "schedule_assign cur delay s = Some s' \<Longrightarrow> sched_call s s'"
| call_set: "schedule_set cur s = Some s' \<Longrightarrow> sched_call s s'"
| call_del_thr: "schedule_del_thr cur s = Some s' \<Longrightarrow> sched_call s s'"
| call_generic: "schedule_generic cur delay sync ro s = Some s' \<Longrightarrow> sched_call s s'"
| call_functor: "schedule_functor cur s = Some s' \<Longrightarrow> sched_call s s'"
| call_at_start: "schedule_at_start_of_simtime cur delay s = Some s' \<Longrightarrow> sched_call s s'"
| call_at_end: "schedule_at_end_of_simtime cur delay s = Some s' \<Longrightarrow> sched_call s s'"
| call_ready: "schedule_ready cur s = Some s' \<Longrightarrow> sched_call s s'"
| call_init: "sched_call s (schedule_init_event cur s)"
| call_prestart: "sched_call s (schedule_prestart_event cur s)"
| call_final: "sched_call s (schedule_final_event cur s)"
| call_finish: "sched_call s (schedule_finish s)"
| call_stop: "sched_call s (schedule_stop s)"
| call_single_step: "sched_call s (schedule_single_step s)"

abbreviation effect :: "'e sched \<Rightarrow> 'e sched \<Rightarrow> bool" where
  "effect \<equiv> sched_call\<^sup>*\<^sup>*"

section \<open>The simulation loop\<close>

datatype phase = P_COMPILE | P_INIT | P_PRESTART | P_LOOP | P_START | P_ADVANCE | P_ROSYNC | P_DEL_THR | P_FINAL | P_DONE

record 'e sim =
  sim_phase :: phase
  sim_run_finals :: bool
  sim_sched :: "'e sched"

definition upd_ctim :: "('e event_time_s \<Rightarrow> 'e event_time_s) \<Rightarrow> 'e sched \<Rightarrow> 'e sched" where
  "upd_ctim f s = s\<lparr>sched_list := (case sched_list s of [] \<Rightarrow> [] | c # cs \<Rightarrow> f c # cs)\<rparr>"

text \<open>The advance of time: the delay of the first time step is consumed.\<close>

definition advance_time :: "'e sched \<Rightarrow> 'e sched" where
  "advance_time s = (upd_ctim (\<lambda>c. c\<lparr>et_delay := 0\<rparr>) s)\<lparr>schedule_time := schedule_time s + of_nat (et_delay (hd (sched_list s)))\<rparr>"

text \<open>With no active event the next list of the time step becomes the active one.\<close>

definition promote :: "'e event_time_s \<Rightarrow> 'e event_time_s" where
  "promote c =
    (if et_active c \<noteq> [] then c
     else if et_inactive c \<noteq> [] then c\<lparr>et_active := et_inactive c, et_inactive := []\<rparr>
     else if et_nbassign c \<noteq> [] then c\<lparr>et_active := et_nbassign c, et_nbassign := []\<rparr>
     else c\<lparr>et_active := et_rwsync c, et_rwsync := []\<rparr>)"

definition promoted_from :: "'e event_time_s \<Rightarrow> event_queue_t" where
  "promoted_from c = (if et_active c \<noteq> [] then SEQ_ACTIVE else if et_inactive c \<noteq> [] then SEQ_INACTIVE
     else if et_nbassign c \<noteq> [] then SEQ_NBASSIGN else SEQ_RWSYNC)"

definition note_single_step :: "'e sched \<Rightarrow> 'e sched" where
  "note_single_step s = (if schedule_single_step_flag s
     then s\<lparr>schedule_stopped_flag := True, schedule_single_step_flag := False\<rparr> else s)"

text \<open>Where an event was taken from: one of the three lists outside time, or a list of the current step.\<close>

datatype origin = INIT_LIST | PRESTART_LIST | FINAL_LIST | STEP_LIST event_queue_t

type_synonym 'e label = "('e \<times> 64 word \<times> origin) option"

inductive sim_step :: "'e sim \<Rightarrow> 'e label \<Rightarrow> 'e sim \<Rightarrow> bool" where
  compile: "sim_phase m = P_COMPILE \<Longrightarrow>
    effect ((sim_sched m)\<lparr>sim_started := False, schedule_time := 0\<rparr>) s \<Longrightarrow>
    sim_step m None (m\<lparr>sim_phase := P_INIT, sim_sched := s\<rparr>)"
| init_event: "sim_phase m = P_INIT \<Longrightarrow> schedule_init_list (sim_sched m) = cur # rest \<Longrightarrow>
    effect ((sim_sched m)\<lparr>schedule_init_list := rest\<rparr>) s \<Longrightarrow>
    sim_step m (Some (cur, schedule_time (sim_sched m), INIT_LIST)) (m\<lparr>sim_sched := s\<rparr>)"
| init_done: "sim_phase m = P_INIT \<Longrightarrow> schedule_init_list (sim_sched m) = [] \<Longrightarrow>
    effect ((sim_sched m)\<lparr>sim_started := True\<rparr>) s \<Longrightarrow>
    sim_step m None (m\<lparr>sim_phase := P_PRESTART, sim_sched := s\<rparr>)"
| prestart_event: "sim_phase m = P_PRESTART \<Longrightarrow> schedule_prestart_list (sim_sched m) = cur # rest \<Longrightarrow>
    effect ((sim_sched m)\<lparr>schedule_prestart_list := rest\<rparr>) s \<Longrightarrow>
    sim_step m (Some (cur, schedule_time (sim_sched m), PRESTART_LIST)) (m\<lparr>sim_sched := s\<rparr>)"
| prestart_done: "sim_phase m = P_PRESTART \<Longrightarrow> schedule_prestart_list (sim_sched m) = [] \<Longrightarrow>
    sim_step m None (m\<lparr>sim_phase := P_LOOP, sim_run_finals := schedule_runnable (sim_sched m)\<rparr>)"
| loop_exit: "sim_phase m = P_LOOP \<Longrightarrow> \<not> schedule_runnable (sim_sched m) \<or> sched_list (sim_sched m) = [] \<Longrightarrow>
    sim_step m None (m\<lparr>sim_phase := P_FINAL, sim_sched := (sim_sched m)\<lparr>schedule_runnable := sim_run_finals m\<rparr>\<rparr>)"
| loop_stop: "sim_phase m = P_LOOP \<Longrightarrow> schedule_runnable (sim_sched m) \<Longrightarrow> sched_list (sim_sched m) \<noteq> [] \<Longrightarrow>
    schedule_stopped_flag (sim_sched m) \<Longrightarrow> effect ((sim_sched m)\<lparr>schedule_stopped_flag := False\<rparr>) s \<Longrightarrow>
    sim_step m None (m\<lparr>sim_sched := s\<rparr>)"
| loop_time: "sim_phase m = P_LOOP \<Longrightarrow> schedule_runnable (sim_sched m) \<Longrightarrow> \<not> schedule_stopped_flag (sim_sched m) \<Longrightarrow>
    sched_list (sim_sched m) = c # cs \<Longrightarrow> 0 < et_delay c \<Longrightarrow> effect (advance_time (sim_sched m)) s \<Longrightarrow>
    sim_step m None (m\<lparr>sim_phase := P_START, sim_sched := s\<rparr>)"
| loop_now: "sim_phase m = P_LOOP \<Longrightarrow> schedule_runnable (sim_sched m) \<Longrightarrow> \<not> schedule_stopped_flag (sim_sched m) \<Longrightarrow>
    sched_list (sim_sched m) = c # cs \<Longrightarrow> et_delay c = 0 \<Longrightarrow>
    sim_step m None (m\<lparr>sim_phase := P_ADVANCE\<rparr>)"
| start_event: "sim_phase m = P_START \<Longrightarrow> sched_list (sim_sched m) = c # cs \<Longrightarrow> et_start c = cur # rest \<Longrightarrow>
    effect (upd_ctim (\<lambda>c. c\<lparr>et_start := rest\<rparr>) (sim_sched m)) s \<Longrightarrow>
    sim_step m (Some (cur, schedule_time (sim_sched m), STEP_LIST SEQ_START)) (m\<lparr>sim_sched := s\<rparr>)"
| start_done: "sim_phase m = P_START \<Longrightarrow> sched_list (sim_sched m) = c # cs \<Longrightarrow> et_start c = [] \<Longrightarrow>
    sim_step m None (m\<lparr>sim_phase := P_ADVANCE\<rparr>)"
| run_event: "sim_phase m = P_ADVANCE \<Longrightarrow> sched_list (sim_sched m) = c # cs \<Longrightarrow> et_active (promote c) = cur # rest \<Longrightarrow>
    effect (note_single_step (upd_ctim (\<lambda>c. (promote c)\<lparr>et_active := rest\<rparr>) (sim_sched m))) s \<Longrightarrow>
    sim_step m (Some (cur, schedule_time (sim_sched m), STEP_LIST (promoted_from c))) (m\<lparr>sim_phase := P_LOOP, sim_sched := s\<rparr>)"
| no_event: "sim_phase m = P_ADVANCE \<Longrightarrow> sched_list (sim_sched m) = c # cs \<Longrightarrow> et_active (promote c) = [] \<Longrightarrow>
    sim_step m None (m\<lparr>sim_phase := P_ROSYNC, sim_sched := (upd_ctim promote (sim_sched m))\<lparr>sim_at_rosync := True\<rparr>\<rparr>)"
| rosync_event: "sim_phase m = P_ROSYNC \<Longrightarrow> sched_list (sim_sched m) = c # cs \<Longrightarrow> et_rosync c = cur # rest \<Longrightarrow>
    effect (upd_ctim (\<lambda>c. c\<lparr>et_rosync := rest\<rparr>) (sim_sched m)) s \<Longrightarrow>
    sim_step m (Some (cur, schedule_time (sim_sched m), STEP_LIST SEQ_ROSYNC)) (m\<lparr>sim_sched := s\<rparr>)"
| rosync_done: "sim_phase m = P_ROSYNC \<Longrightarrow> sched_list (sim_sched m) = c # cs \<Longrightarrow> et_rosync c = [] \<Longrightarrow>
    sim_step m None (m\<lparr>sim_phase := P_DEL_THR, sim_sched := (sim_sched m)\<lparr>sim_at_rosync := False\<rparr>\<rparr>)"
| del_thr_event: "sim_phase m = P_DEL_THR \<Longrightarrow> sched_list (sim_sched m) = c # cs \<Longrightarrow> et_del_thr c = cur # rest \<Longrightarrow>
    effect (upd_ctim (\<lambda>c. c\<lparr>et_del_thr := rest\<rparr>) (sim_sched m)) s \<Longrightarrow>
    sim_step m (Some (cur, schedule_time (sim_sched m), STEP_LIST DEL_THREAD)) (m\<lparr>sim_sched := s\<rparr>)"
| del_thr_done: "sim_phase m = P_DEL_THR \<Longrightarrow> sched_list (sim_sched m) = c # cs \<Longrightarrow> et_del_thr c = [] \<Longrightarrow>
    sim_step m None (m\<lparr>sim_phase := P_LOOP, sim_sched := (sim_sched m)\<lparr>sched_list := cs\<rparr>\<rparr>)"
| final_event: "sim_phase m = P_FINAL \<Longrightarrow> schedule_runnable (sim_sched m) \<Longrightarrow> schedule_final_list (sim_sched m) = cur # rest \<Longrightarrow>
    effect ((sim_sched m)\<lparr>schedule_final_list := rest\<rparr>) s \<Longrightarrow>
    sim_step m (Some (cur, schedule_time (sim_sched m), FINAL_LIST)) (m\<lparr>sim_sched := s\<rparr>)"
| final_done: "sim_phase m = P_FINAL \<Longrightarrow> \<not> schedule_runnable (sim_sched m) \<or> schedule_final_list (sim_sched m) = [] \<Longrightarrow>
    effect (sim_sched m) s \<Longrightarrow>
    sim_step m None (m\<lparr>sim_phase := P_DONE, sim_sched := s\<rparr>)"

inductive_cases sim_step_cases: "sim_step m l m'"

inductive sim_run :: "'e sim \<Rightarrow> 'e label list \<Rightarrow> 'e sim \<Rightarrow> bool" where
  run_none: "sim_run m [] m"
| run_more: "sim_run m ls m' \<Longrightarrow> sim_step m' l m'' \<Longrightarrow> sim_run m (ls @ [l]) m''"

text \<open>
  Runs with the time that has passed: only the step that leaves the loop head for the start of a time step
  takes time.  Every step of a \<open>timed_run P\<close> starts in a state with \<open>P\<close>, and its label is kept with the
  time passed before it.
\<close>

definition sim_advances :: "'e sim \<Rightarrow> 'e sim \<Rightarrow> nat" where
  "sim_advances m m' = (if sim_phase m = P_LOOP \<and> sim_phase m' = P_START then et_delay (hd (sched_list (sim_sched m))) else 0)"

inductive timed_run :: "('e sim \<Rightarrow> bool) \<Rightarrow> 'e sim \<Rightarrow> ('e label \<times> nat) list \<Rightarrow> nat \<Rightarrow> 'e sim \<Rightarrow> bool" for P where
  timed_none: "timed_run P m [] 0 m"
| timed_more: "timed_run P m ls d m' \<Longrightarrow> P m' \<Longrightarrow> sim_step m' l m'' \<Longrightarrow>
    timed_run P m (ls @ [(l, d)]) (d + sim_advances m' m'') m''"

lemma timed_run_run: "timed_run P m ls d m' \<Longrightarrow> sim_run m (map fst ls) m'"
  by (induction rule: timed_run.induct) (auto intro: run_none run_more)

lemma sim_run_timed: "sim_run m ls m' \<Longrightarrow> \<exists>tls d. map fst tls = ls \<and> timed_run (\<lambda>_. True) m tls d m'"
proof (induction rule: sim_run.induct)
  case (run_more m ls m' l m'')
  then obtain tls d where "map fst tls = ls" "timed_run (\<lambda>_. True) m tls d m'" by blast
  with timed_more [OF this(2) TrueI run_more.hyps(2)] show ?case
    by (intro exI [of _ "tls @ [(l, d)]"]) auto
qed (use timed_none in force)

section \<open>What calls do\<close>

text \<open>The events waiting for a time, in a list of its time step.\<close>

definition agenda :: "'e sched \<Rightarrow> 64 word \<Rightarrow> event_queue_t \<Rightarrow> 'e list" where
  "agenda s T q = events_at (sched_list s) (unat (T - schedule_time s)) q"

definition head_now :: "'e sched \<Rightarrow> bool" where
  "head_now s \<longleftrightarrow> sched_list s \<noteq> [] \<and> et_delay (hd (sched_list s)) = 0"

text \<open>What running code may do to the state: it keeps the clock and what waits, and adds.\<close>

definition keeps :: "'e event_time_s list \<Rightarrow> 'e event_time_s list \<Rightarrow> bool" where
  "keeps l l' \<longleftrightarrow> (\<forall>t q. subseq (events_at l t q) (events_at l' t q)
     \<and> (t \<noteq> 0 \<or> q \<noteq> SEQ_ACTIVE \<longrightarrow> prefix (events_at l t q) (events_at l' t q)))"

definition grows :: "'e sched \<Rightarrow> 'e sched \<Rightarrow> bool" where
  "grows s s' \<longleftrightarrow> (sched_ok (sched_list s) \<longrightarrow> sched_ok (sched_list s') \<and> keeps (sched_list s) (sched_list s'))
     \<and> schedule_time s' = schedule_time s \<and> (head_now s \<longrightarrow> head_now s')
     \<and> sim_started s' = sim_started s \<and> sim_at_rosync s' = sim_at_rosync s
     \<and> prefix (schedule_init_list s) (schedule_init_list s')
     \<and> prefix (schedule_prestart_list s) (schedule_prestart_list s')
     \<and> prefix (schedule_final_list s) (schedule_final_list s')"

lemma keeps_refl: "keeps l l"
  by (simp add: keeps_def)

lemma keeps_trans: "keeps a b \<Longrightarrow> keeps b c \<Longrightarrow> keeps a c"
  unfolding keeps_def by (meson prefix_order.trans subseq_order.order_trans)

lemma grows_refl: "grows s s"
  by (simp add: grows_def keeps_refl)

lemma grows_trans: "grows a b \<Longrightarrow> grows b c \<Longrightarrow> grows a c"
  unfolding grows_def by (metis keeps_trans prefix_order.trans)

text \<open>Calls that leave the time steps and the clock alone.\<close>

lemma grows_same:
  "sched_list s' = sched_list s \<Longrightarrow> schedule_time s' = schedule_time s \<Longrightarrow> sim_started s' = sim_started s \<Longrightarrow>
   sim_at_rosync s' = sim_at_rosync s \<Longrightarrow> prefix (schedule_init_list s) (schedule_init_list s') \<Longrightarrow>
   prefix (schedule_prestart_list s) (schedule_prestart_list s') \<Longrightarrow>
   prefix (schedule_final_list s) (schedule_final_list s') \<Longrightarrow> grows s s'"
  by (simp add: grows_def keeps_def head_now_def)

lemma grows_event:
  assumes "with_list (schedule_event cur d q) s = Some s'"
  shows "grows s s'"
proof -
  obtain l where l: "schedule_event cur d q (sched_list s) = Some l" "s' = s\<lparr>sched_list := l\<rparr>"
    using assms by (auto simp: with_list_def)
  have "sched_ok l" "\<forall>t q'. prefix (events_at (sched_list s) t q') (events_at l t q')" if ok: "sched_ok (sched_list s)"
    using schedule_event_appends [OF ok l(1)] by (auto simp: appended_def)
  moreover have "head_now s \<Longrightarrow> head_now s'"
  proof -
    assume h: "head_now s"
    have "et_delay (hd l) = 0 \<and> l \<noteq> []"
    proof (cases "sched_list s")
      case (Cons c cs)
      moreover from this h have "et_delay c = 0" by (simp add: head_now_def)
      ultimately show ?thesis using l(1)
        by (cases cs) (auto simp: schedule_event_def put_event_def split: if_splits)
    qed (use h in \<open>simp add: head_now_def\<close>)
    then show "head_now s'" by (simp add: head_now_def l(2))
  qed
  ultimately show ?thesis by (auto simp: grows_def keeps_def l(2) prefix_imp_subseq)
qed

lemma grows_push:
  assumes "with_list (schedule_event_push cur) s = Some s'"
  shows "grows s s'"
proof -
  obtain l where l: "schedule_event_push cur (sched_list s) = Some l" "s' = s\<lparr>sched_list := l\<rparr>"
    using assms by (auto simp: with_list_def)
  have keep: "sched_ok l \<and> keeps (sched_list s) l" if ok: "sched_ok (sched_list s)"
    using schedule_event_push_front [OF ok l(1)] by (simp add: keeps_def list_emb_Cons)
  have "head_now s'" if h: "head_now s"
  proof -
    obtain c cs where "sched_list s = c # cs" "et_delay c = 0" using h by (cases "sched_list s") (simp_all add: head_now_def)
    with l show ?thesis by (simp add: head_now_def schedule_event_push_def split: if_splits) auto
  qed
  with keep show ?thesis by (simp add: grows_def l(2))
qed

lemmas call_defs = schedule_vthread_def schedule_inactive_def schedule_assign_def schedule_set_def schedule_del_thr_def
  schedule_generic_def schedule_functor_def schedule_at_start_of_simtime_def schedule_at_end_of_simtime_def schedule_ready_def

lemmas flag_defs = schedule_init_event_def schedule_prestart_event_def schedule_final_event_def schedule_finish_def
  schedule_stop_def schedule_single_step_def

lemma sched_call_grows: "sched_call s s' \<Longrightarrow> grows s s'"
proof (induction rule: sched_call.induct)
  case (call_vthread cur delay push s s')
  then show ?case using grows_event grows_push by (auto simp: schedule_vthread_def split: if_splits)
next
  case (call_functor cur s s')
  then show ?case
    by (auto simp: schedule_functor_def flag_defs intro: grows_event grows_same split: if_splits)
next
  case (call_assign cur delay s s')
  moreover have "schedule_nbassign cur delay = schedule_event cur delay SEQ_NBASSIGN" by (rule ext) (rule schedule_nbassign_eq)
  ultimately show ?case using grows_event by (simp add: schedule_assign_def)
next
  case (call_ready cur s s')
  moreover have "schedule_vthread_list_ready cur = schedule_event cur 0 SEQ_ACTIVE" by (rule ext) (rule schedule_list_ready_eq)
  ultimately show ?case using grows_event by (simp add: schedule_ready_def)
qed (auto simp: call_defs flag_defs intro: grows_event grows_same)

lemma effect_grows: "effect s s' \<Longrightarrow> grows s s'"
  by (induction rule: rtranclp_induct) (auto intro: grows_refl grows_trans sched_call_grows)

section \<open>Invariant of the loop\<close>

definition sim_ok :: "'e sim \<Rightarrow> bool" where
  "sim_ok m \<longleftrightarrow> sched_ok (sched_list (sim_sched m))
     \<and> (sim_phase m \<in> {P_START, P_ADVANCE, P_ROSYNC, P_DEL_THR} \<longrightarrow> head_now (sim_sched m))
     \<and> (sim_phase m = P_COMPILE \<longrightarrow> schedule_time (sim_sched m) = 0)"

lemma sim_okI:
  "sched_ok (sched_list (sim_sched m)) \<Longrightarrow>
   (sim_phase m \<in> {P_START, P_ADVANCE, P_ROSYNC, P_DEL_THR} \<Longrightarrow> head_now (sim_sched m)) \<Longrightarrow>
   sim_phase m \<noteq> P_COMPILE \<Longrightarrow> sim_ok m"
  by (simp add: sim_ok_def)

lemma effect_ok: "effect s s' \<Longrightarrow> sched_ok (sched_list s) \<Longrightarrow> sched_ok (sched_list s')"
  "effect s s' \<Longrightarrow> head_now s \<Longrightarrow> head_now s'" "effect s s' \<Longrightarrow> schedule_time s' = schedule_time s"
  using effect_grows [of s s'] by (simp_all add: grows_def)

lemma upd_ctim_simps [simp]:
  "sched_list (upd_ctim f s) = (case sched_list s of [] \<Rightarrow> [] | c # cs \<Rightarrow> f c # cs)"
  "schedule_time (upd_ctim f s) = schedule_time s" "sched_list (note_single_step s) = sched_list s"
  "schedule_time (note_single_step s) = schedule_time s"
  "sched_list (advance_time s) = (case sched_list s of [] \<Rightarrow> [] | c # cs \<Rightarrow> c\<lparr>et_delay := 0\<rparr> # cs)"
  "schedule_time (advance_time s) = schedule_time s + of_nat (et_delay (hd (sched_list s)))"
  by (simp_all add: upd_ctim_def note_single_step_def advance_time_def)

lemma promote_delay [simp]: "et_delay (promote c) = et_delay c"
  by (simp add: promote_def)

lemma sched_ok_Cons [simp]: "sched_ok (c # cs) = later_ok cs" "sched_ok []"
  by (simp_all add: sched_ok_def)

lemma later_sched_ok: "later_ok cs \<Longrightarrow> sched_ok cs"
  by (cases cs) simp_all

lemma head_now_Cons: "sched_list s = c # cs \<Longrightarrow> head_now s \<longleftrightarrow> et_delay c = 0"
  by (simp add: head_now_def)

text \<open>
  What waits for a time: the events of all lists of its time step.  The start list is drained when the loop
  enters the time step, in phase \<open>P_START\<close>; what is put there later is not counted (it is never run).
\<close>

definition step_mset :: "bool \<Rightarrow> 'e event_time_s \<Rightarrow> 'e multiset" where
  "step_mset starting c = mset (et_active c) + mset (et_inactive c) + mset (et_nbassign c) + mset (et_rwsync c)
     + mset (et_rosync c) + mset (et_del_thr c) + (if starting then mset (et_start c) else {#})"

definition waiting_at :: "bool \<Rightarrow> 'e event_time_s list \<Rightarrow> nat \<Rightarrow> 'e multiset" where
  "waiting_at starting l t = mset (events_at l t SEQ_ACTIVE) + mset (events_at l t SEQ_INACTIVE)
     + mset (events_at l t SEQ_NBASSIGN) + mset (events_at l t SEQ_RWSYNC) + mset (events_at l t SEQ_ROSYNC)
     + mset (events_at l t DEL_THREAD) + (if starting \<or> 0 < t then mset (events_at l t SEQ_START) else {#})"

definition waiting :: "'e sim \<Rightarrow> nat \<Rightarrow> 'e multiset" where
  "waiting m t = waiting_at (sim_phase m = P_START) (sched_list (sim_sched m)) t"

text \<open>The events a step runs, from the time steps and from the other lists.\<close>

definition ran_step :: "'e label \<Rightarrow> 'e list" where
  "ran_step l = (case l of Some (e, T, STEP_LIST q) \<Rightarrow> [e] | _ \<Rightarrow> [])"

definition ran_from :: "origin \<Rightarrow> 'e label \<Rightarrow> 'e list" where
  "ran_from org l = (case l of Some (e, T, org') \<Rightarrow> if org' = org then [e] else [] | None \<Rightarrow> [])"

definition side_list :: "origin \<Rightarrow> 'e sched \<Rightarrow> 'e list" where
  "side_list org s = (case org of INIT_LIST \<Rightarrow> schedule_init_list s | PRESTART_LIST \<Rightarrow> schedule_prestart_list s
     | FINAL_LIST \<Rightarrow> schedule_final_list s | STEP_LIST q \<Rightarrow> [])"

definition side_lists :: "'e sched \<Rightarrow> 'e label \<Rightarrow> 'e sched \<Rightarrow> bool" where
  "side_lists s l s' \<longleftrightarrow> schedule_init_list s = ran_from INIT_LIST l @ schedule_init_list s'
     \<and> schedule_prestart_list s = ran_from PRESTART_LIST l @ schedule_prestart_list s'
     \<and> schedule_final_list s = ran_from FINAL_LIST l @ schedule_final_list s'"

text \<open>
  The loop releases the time step after \<^verbatim>\<open>run_rosync\<close>.  If the callbacks it ran there left events in a list of the
  step that was already drained, they go with it (the loop only reports the error).
\<close>

definition abandons :: "'e sim \<Rightarrow> bool" where
  "abandons m = (sim_phase m = P_DEL_THR \<and> (case sched_list (sim_sched m) of [] \<Rightarrow> False
     | c # cs \<Rightarrow> et_del_thr c = [] \<and> (et_active c \<noteq> [] \<or> et_inactive c \<noteq> [] \<or> et_nbassign c \<noteq> [] \<or> et_rwsync c \<noteq> [] \<or> et_rosync c \<noteq> [])))"

lemma ran_simps [simp]:
  "ran_step None = []" "ran_step (Some (e, T, INIT_LIST)) = []" "ran_step (Some (e, T, PRESTART_LIST)) = []"
  "ran_step (Some (e, T, FINAL_LIST)) = []" "ran_step (Some (e, T, STEP_LIST q)) = [e]"
  "ran_from org None = []" "ran_from org (Some (e, T, org')) = (if org' = org then [e] else [])"
  by (simp_all add: ran_step_def ran_from_def)

lemma promote_mset: "step_mset b (promote c) = step_mset b c"
  by (simp add: step_mset_def promote_def)

lemma promoted_mset:
  assumes "et_active (promote c) = cur # rest"
  shows "step_mset b c = add_mset cur (step_mset b ((promote c)\<lparr>et_active := rest\<rparr>))"
  by (subst promote_mset [symmetric]) (simp add: step_mset_def assms)

lemma side_upd [simp]:
  "schedule_init_list (upd_ctim f s) = schedule_init_list s" "schedule_prestart_list (upd_ctim f s) = schedule_prestart_list s"
  "schedule_final_list (upd_ctim f s) = schedule_final_list s"
  "schedule_init_list (note_single_step s) = schedule_init_list s"
  "schedule_prestart_list (note_single_step s) = schedule_prestart_list s"
  "schedule_final_list (note_single_step s) = schedule_final_list s"
  "schedule_init_list (advance_time s) = schedule_init_list s" "schedule_prestart_list (advance_time s) = schedule_prestart_list s"
  "schedule_final_list (advance_time s) = schedule_final_list s"
  by (simp_all add: upd_ctim_def note_single_step_def advance_time_def)

text \<open>
  The state the code of an event, a callback or the prompt starts from in a step, before its effect, and what the step
  has taken from the lists.
\<close>

inductive before_effect :: "'e sim \<Rightarrow> 'e label \<Rightarrow> 'e sched \<Rightarrow> phase \<Rightarrow> bool" where
  same_list: "sched_list s = sched_list (sim_sched m) \<Longrightarrow> schedule_time s = schedule_time (sim_sched m) \<Longrightarrow>
    (ph \<in> {P_ADVANCE, P_ROSYNC, P_DEL_THR} \<Longrightarrow> head_now (sim_sched m)) \<Longrightarrow> ph \<noteq> P_START \<Longrightarrow> ran_step l = [] \<Longrightarrow>
    (sim_phase m = P_START \<Longrightarrow> sched_list (sim_sched m) = [] \<or> et_start (hd (sched_list (sim_sched m))) = []) \<Longrightarrow> before_effect m l s ph"
| head_change: "sched_list (sim_sched m) = c # cs \<Longrightarrow> et_delay c = 0 \<Longrightarrow> et_delay c' = 0 \<Longrightarrow> sched_list s = c' # cs \<Longrightarrow>
    schedule_time s = schedule_time (sim_sched m) \<Longrightarrow> sim_phase m \<noteq> P_LOOP \<Longrightarrow>
    step_mset (sim_phase m = P_START) c = mset (ran_step l) + step_mset (ph = P_START) c' \<Longrightarrow> before_effect m l s ph"
| head_drop: "sched_list (sim_sched m) = c # cs \<Longrightarrow> et_delay c = 0 \<Longrightarrow> sched_list s = cs \<Longrightarrow>
    schedule_time s = schedule_time (sim_sched m) \<Longrightarrow> sim_phase m = P_DEL_THR \<Longrightarrow> et_del_thr c = [] \<Longrightarrow> ran_step l = [] \<Longrightarrow>
    before_effect m l s P_LOOP"
| time_step: "sched_list (sim_sched m) = c # cs \<Longrightarrow> 0 < et_delay c \<Longrightarrow> s = advance_time (sim_sched m) \<Longrightarrow>
    sim_phase m = P_LOOP \<Longrightarrow> ran_step l = [] \<Longrightarrow> before_effect m l s P_START"

lemma sim_step_effect:
  assumes "sim_step m l m'" and "sim_ok m"
  obtains s where "before_effect m l s (sim_phase m')" and "effect s (sim_sched m')" and "sim_phase m' \<noteq> P_COMPILE"
    and "side_lists (sim_sched m) l s"
  using assms
proof (cases rule: sim_step.cases)
  case (run_event c cs cur rest s)
  have "et_delay c = 0" using assms(2) run_event by (simp add: sim_ok_def head_now_Cons)
  then have "before_effect m l (note_single_step (upd_ctim (\<lambda>c. (promote c)\<lparr>et_active := rest\<rparr>) (sim_sched m))) P_LOOP"
    using run_event by (intro head_change [of m c cs "(promote c)\<lparr>et_active := rest\<rparr>"]) (simp_all add: promoted_mset)
  with that run_event show thesis by (simp add: side_lists_def)
next
  case (no_event c cs)
  have "et_delay c = 0" using assms(2) no_event by (simp add: sim_ok_def head_now_Cons)
  then have "before_effect m l ((upd_ctim promote (sim_sched m))\<lparr>sim_at_rosync := True\<rparr>) P_ROSYNC"
    using no_event by (intro head_change [of m c cs "promote c"]) (simp_all add: promote_mset)
  with that no_event show thesis by (simp add: side_lists_def)
next
  case (start_event c cs cur rest s)
  have "et_delay c = 0" using assms(2) start_event by (simp add: sim_ok_def head_now_Cons)
  then have "before_effect m l (upd_ctim (\<lambda>c. c\<lparr>et_start := rest\<rparr>) (sim_sched m)) P_START"
    using start_event by (intro head_change [of m c cs "c\<lparr>et_start := rest\<rparr>"]) (simp_all add: step_mset_def)
  with that start_event show thesis by (simp add: side_lists_def)
next
  case (rosync_event c cs cur rest s)
  have "et_delay c = 0" using assms(2) rosync_event by (simp add: sim_ok_def head_now_Cons)
  then have "before_effect m l (upd_ctim (\<lambda>c. c\<lparr>et_rosync := rest\<rparr>) (sim_sched m)) P_ROSYNC"
    using rosync_event by (intro head_change [of m c cs "c\<lparr>et_rosync := rest\<rparr>"]) (simp_all add: step_mset_def)
  with that rosync_event show thesis by (simp add: side_lists_def)
next
  case (del_thr_event c cs cur rest s)
  have "et_delay c = 0" using assms(2) del_thr_event by (simp add: sim_ok_def head_now_Cons)
  then have "before_effect m l (upd_ctim (\<lambda>c. c\<lparr>et_del_thr := rest\<rparr>) (sim_sched m)) P_DEL_THR"
    using del_thr_event by (intro head_change [of m c cs "c\<lparr>et_del_thr := rest\<rparr>"]) (simp_all add: step_mset_def)
  with that del_thr_event show thesis by (simp add: side_lists_def)
next
  case (del_thr_done c cs)
  have "et_delay c = 0" using assms(2) del_thr_done by (simp add: sim_ok_def head_now_Cons)
  then have "before_effect m l ((sim_sched m)\<lparr>sched_list := cs\<rparr>) P_LOOP"
    using del_thr_done by (intro head_drop [of m c]) (simp_all add: step_mset_def)
  with that del_thr_done show thesis by (simp add: side_lists_def)
next
  case (loop_time c cs s)
  then show thesis using that [of "advance_time (sim_sched m)"] by (simp add: time_step side_lists_def)
next
  case (compile s)
  then have "before_effect m l ((sim_sched m)\<lparr>sim_started := False, schedule_time := 0\<rparr>) P_INIT"
    using assms(2) by (intro same_list) (simp_all add: sim_ok_def)
  with that compile show thesis by (simp add: side_lists_def)
next
  case (init_event cur rest s)
  have "before_effect m l ((sim_sched m)\<lparr>schedule_init_list := rest\<rparr>) P_INIT" using init_event by (intro same_list) (simp_all add: step_mset_def)
  with that init_event show thesis by (simp add: side_lists_def)
next
  case (init_done s)
  have "before_effect m l ((sim_sched m)\<lparr>sim_started := True\<rparr>) P_PRESTART" using init_done by (intro same_list) (simp_all add: step_mset_def)
  with that init_done show thesis by (simp add: side_lists_def)
next
  case (prestart_event cur rest s)
  have "before_effect m l ((sim_sched m)\<lparr>schedule_prestart_list := rest\<rparr>) P_PRESTART" using prestart_event by (intro same_list) (simp_all add: step_mset_def)
  with that prestart_event show thesis by (simp add: side_lists_def)
next
  case prestart_done
  have "before_effect m l (sim_sched m) P_LOOP" using prestart_done by (intro same_list) (simp_all add: step_mset_def)
  with that prestart_done show thesis by (simp add: side_lists_def)
next
  case loop_exit
  have "before_effect m l ((sim_sched m)\<lparr>schedule_runnable := sim_run_finals m\<rparr>) P_FINAL" using loop_exit by (intro same_list) (simp_all add: step_mset_def)
  with that loop_exit show thesis by (simp add: side_lists_def)
next
  case (loop_stop s)
  have "before_effect m l ((sim_sched m)\<lparr>schedule_stopped_flag := False\<rparr>) P_LOOP" using loop_stop by (intro same_list) (simp_all add: step_mset_def)
  with that loop_stop show thesis by (simp add: side_lists_def)
next
  case (loop_now c cs)
  have "before_effect m l (sim_sched m) P_ADVANCE" using loop_now by (intro same_list) (simp_all add: head_now_Cons)
  with that loop_now show thesis by (simp add: side_lists_def)
next
  case (start_done c cs)
  have "before_effect m l (sim_sched m) P_ADVANCE" using assms(2) start_done by (intro same_list) (simp_all add: sim_ok_def)
  with that start_done show thesis by (simp add: side_lists_def)
next
  case (rosync_done c cs)
  have "before_effect m l ((sim_sched m)\<lparr>sim_at_rosync := False\<rparr>) P_DEL_THR"
    using assms(2) rosync_done by (intro same_list) (simp_all add: sim_ok_def)
  with that rosync_done show thesis by (simp add: side_lists_def)
next
  case (final_event cur rest s)
  have "before_effect m l ((sim_sched m)\<lparr>schedule_final_list := rest\<rparr>) P_FINAL" using final_event by (intro same_list) (simp_all add: step_mset_def)
  with that final_event show thesis by (simp add: side_lists_def)
next
  case (final_done s)
  have "before_effect m l (sim_sched m) P_DONE" using final_done by (intro same_list) (simp_all add: step_mset_def)
  with that final_done show thesis by (simp add: side_lists_def)
qed

lemma before_effect_ok:
  assumes "before_effect m l s ph" and "sim_ok m"
  shows "sched_ok (sched_list s)" and "ph \<in> {P_START, P_ADVANCE, P_ROSYNC, P_DEL_THR} \<Longrightarrow> head_now s"
proof -
  have ok: "sched_ok (sched_list (sim_sched m))" using assms(2) by (simp add: sim_ok_def)
  have "sched_ok (sched_list s) \<and> (ph \<in> {P_START, P_ADVANCE, P_ROSYNC, P_DEL_THR} \<longrightarrow> head_now s)"
    using assms(1) ok
    by (cases rule: before_effect.cases) (auto simp: head_now_def later_sched_ok)
  then show "sched_ok (sched_list s)" "ph \<in> {P_START, P_ADVANCE, P_ROSYNC, P_DEL_THR} \<Longrightarrow> head_now s" by blast+
qed

text \<open>The time a step takes, and the events of later times.\<close>

lemma before_effect_time:
  assumes "before_effect m l s (sim_phase m')" and "sim_ok m"
  shows "schedule_time s = schedule_time (sim_sched m) + of_nat (sim_advances m m')"
    and "0 < t \<Longrightarrow> events_at (sched_list s) t q = events_at (sched_list (sim_sched m)) (sim_advances m m' + t) q"
proof -
  have "schedule_time s = schedule_time (sim_sched m) + of_nat (sim_advances m m')
    \<and> (0 < t \<longrightarrow> events_at (sched_list s) t q = events_at (sched_list (sim_sched m)) (sim_advances m m' + t) q)"
    using assms(1) by (cases rule: before_effect.cases) (auto simp: sim_advances_def)
  then show "schedule_time s = schedule_time (sim_sched m) + of_nat (sim_advances m m')"
    "0 < t \<Longrightarrow> events_at (sched_list s) t q = events_at (sched_list (sim_sched m)) (sim_advances m m' + t) q" by blast+
qed

lemma sim_step_ok:
  assumes "sim_step m l m'" and "sim_ok m"
  shows "sim_ok m'" and "schedule_time (sim_sched m') = schedule_time (sim_sched m) + of_nat (sim_advances m m')"
    and "0 < t \<Longrightarrow> prefix (events_at (sched_list (sim_sched m)) (sim_advances m m' + t) q) (events_at (sched_list (sim_sched m')) t q)"
proof -
  obtain s where s: "before_effect m l s (sim_phase m')" "effect s (sim_sched m')" "sim_phase m' \<noteq> P_COMPILE"
    using sim_step_effect [OF assms] by blast
  note b = before_effect_ok [OF s(1) assms(2)] and t = before_effect_time [OF s(1) assms(2)]
  have g: "grows s (sim_sched m')" by (rule effect_grows [OF s(2)])
  show "sim_ok m'" using b g s(3) by (intro sim_okI) (auto simp: grows_def)
  show "schedule_time (sim_sched m') = schedule_time (sim_sched m) + of_nat (sim_advances m m')"
    using t(1) g by (simp add: grows_def)
  have "keeps (sched_list s) (sched_list (sim_sched m'))" using g b(1) by (simp add: grows_def)
  then show "0 < t \<Longrightarrow> prefix (events_at (sched_list (sim_sched m)) (sim_advances m m' + t) q) (events_at (sched_list (sim_sched m')) t q)"
    using t(2) [of t q] unfolding keeps_def by (metis less_irrefl)
qed

lemma timed_run_ok:
  assumes "timed_run P m ls d m'" and "sim_ok m"
  shows "sim_ok m'" and "schedule_time (sim_sched m') = schedule_time (sim_sched m) + of_nat d"
    and "0 < t \<Longrightarrow> prefix (events_at (sched_list (sim_sched m)) (d + t) q) (events_at (sched_list (sim_sched m')) t q)"
proof -
  have "sim_ok m' \<and> schedule_time (sim_sched m') = schedule_time (sim_sched m) + of_nat d
    \<and> (\<forall>t > 0. prefix (events_at (sched_list (sim_sched m)) (d + t) q) (events_at (sched_list (sim_sched m')) t q))"
    using assms
  proof (induction rule: timed_run.induct)
    case (timed_more m ls d m' l m'')
    then have IH: "sim_ok m'" "schedule_time (sim_sched m') = schedule_time (sim_sched m) + of_nat d"
      "\<And>t. 0 < t \<Longrightarrow> prefix (events_at (sched_list (sim_sched m)) (d + t) q) (events_at (sched_list (sim_sched m')) t q)" by simp_all
    note st = sim_step_ok [OF timed_more.hyps(3) IH(1)]
    have "prefix (events_at (sched_list (sim_sched m)) (d + sim_advances m' m'' + t) q) (events_at (sched_list (sim_sched m'')) t q)"
      if "0 < t" for t
      using IH(3) [of "sim_advances m' m'' + t"] st(3) [OF that, of q] that prefix_order.trans by (fastforce simp: add.assoc)
    with IH(2) st(1,2) show ?case by (simp add: add.assoc)
  qed simp
  then show "sim_ok m'" "schedule_time (sim_sched m') = schedule_time (sim_sched m) + of_nat d"
    "0 < t \<Longrightarrow> prefix (events_at (sched_list (sim_sched m)) (d + t) q) (events_at (sched_list (sim_sched m')) t q)" by blast+
qed

text \<open>
  The stratification of a time step: an event runs only at its time, as the first of its list, and when
  every list before its own is empty.
\<close>

definition earlier_lists :: "event_queue_t \<Rightarrow> event_queue_t set" where
  "earlier_lists q = (case q of SEQ_INACTIVE \<Rightarrow> {SEQ_ACTIVE} | SEQ_NBASSIGN \<Rightarrow> {SEQ_ACTIVE, SEQ_INACTIVE}
     | SEQ_RWSYNC \<Rightarrow> {SEQ_ACTIVE, SEQ_INACTIVE, SEQ_NBASSIGN} | _ \<Rightarrow> {})"

lemma agenda_now: "sched_list s = c # cs \<Longrightarrow> et_delay c = 0 \<Longrightarrow> agenda s (schedule_time s) q = et_queue c q"
  by (simp add: agenda_def)

lemma promote_head:
  assumes "et_active (promote c) = cur # rest"
  shows "et_queue c (promoted_from c) = cur # rest" and "q \<in> earlier_lists (promoted_from c) \<Longrightarrow> et_queue c q = []"
  using assms by (auto simp: promote_def promoted_from_def et_queue_def earlier_lists_def split: if_splits)

lemma sim_step_runs_first:
  assumes "sim_step m (Some (e, t, STEP_LIST q)) m'" and "sim_ok m"
  shows "t = schedule_time (sim_sched m) \<and> (\<exists>rest. agenda (sim_sched m) t q = e # rest)
    \<and> (\<forall>q' \<in> earlier_lists q. agenda (sim_sched m) t q' = [])"
  using assms(1)
proof (cases rule: sim_step.cases)
  case (run_event c cs rest s)
  then have "et_delay c = 0" using assms(2) by (simp add: sim_ok_def head_now_Cons)
  with run_event promote_head [of c e rest] show ?thesis by (simp add: agenda_now)
next
  case (start_event c cs rest s)
  then have "et_delay c = 0" using assms(2) by (simp add: sim_ok_def head_now_Cons)
  with start_event show ?thesis by (simp add: agenda_now et_queue_def earlier_lists_def)
next
  case (rosync_event c cs rest s)
  then have "et_delay c = 0" using assms(2) by (simp add: sim_ok_def head_now_Cons)
  with rosync_event show ?thesis by (simp add: agenda_now et_queue_def earlier_lists_def)
next
  case (del_thr_event c cs rest s)
  then have "et_delay c = 0" using assms(2) by (simp add: sim_ok_def head_now_Cons)
  with del_thr_event show ?thesis by (simp add: agenda_now et_queue_def earlier_lists_def)
qed

section \<open>No event is lost\<close>

lemma waiting_at_Nil [simp]: "waiting_at b [] t = {#}"
  by (simp add: waiting_at_def)

lemma waiting_at_Cons [simp]:
  "waiting_at b (c # cs) t = (if t < et_delay c then {#} else if t = et_delay c then step_mset (b \<or> 0 < t) c
     else waiting_at True cs (t - et_delay c))"
  by (auto simp: waiting_at_def step_mset_def et_queue_def)

lemma waiting_at_pos: "0 < t \<Longrightarrow> waiting_at b l t = waiting_at True l t"
  by (simp add: waiting_at_def)

lemma waiting_at_0: "later_ok cs \<Longrightarrow> waiting_at b cs 0 = {#}"
  by (cases cs) auto

lemma step_mset_delay [simp]: "step_mset b (c\<lparr>et_delay := d\<rparr>) = step_mset b c"
  by (simp add: step_mset_def)

lemma subseq_mset: "subseq xs ys \<Longrightarrow> mset xs \<subseteq># mset ys"
  by (induction rule: list_emb.induct) (auto intro: subset_mset.order_trans)

lemma keeps_waiting: "keeps l l' \<Longrightarrow> waiting_at b l t \<subseteq># waiting_at b l' t"
  unfolding waiting_at_def keeps_def
  by (intro subset_mset.add_mono) (auto intro: subseq_mset)

text \<open>A step takes from the lists exactly the event it runs, unless it gives up a time step with events left.\<close>

lemma before_effect_waiting:
  assumes "before_effect m l s (sim_phase m')" and "sim_ok m" and "\<not> abandons m"
  shows "waiting m (sim_advances m m' + t) =
      (if t = 0 then mset (ran_step l) else {#}) + waiting_at (sim_phase m' = P_START) (sched_list s) t"
    and "t < sim_advances m m' \<Longrightarrow> waiting m t = {#}" and "0 < sim_advances m m' \<Longrightarrow> ran_step l = []"
proof -
  have ok: "sched_ok (sched_list (sim_sched m))" using assms(2) by (simp add: sim_ok_def)
  have "waiting m (sim_advances m m' + t) =
      (if t = 0 then mset (ran_step l) else {#}) + waiting_at (sim_phase m' = P_START) (sched_list s) t
    \<and> (t < sim_advances m m' \<longrightarrow> waiting m t = {#}) \<and> (0 < sim_advances m m' \<longrightarrow> ran_step l = [])"
    using assms(1)
  proof (cases rule: before_effect.cases)
    case same_list
    then show ?thesis
      by (cases "sched_list (sim_sched m)") (auto simp: waiting_def sim_advances_def step_mset_def)
  next
    case (head_change c cs c')
    then show ?thesis by (simp add: waiting_def sim_advances_def)
  next
    case (head_drop c cs)
    have "step_mset False c = {#}" using head_drop assms(3) by (auto simp: abandons_def step_mset_def)
    moreover have "waiting_at False cs 0 = {#}" using ok head_drop by (simp add: waiting_at_0)
    ultimately show ?thesis using head_drop
      by (cases "t = 0") (simp_all add: waiting_def sim_advances_def waiting_at_pos [of t False])
  next
    case (time_step c cs)
    then show ?thesis by (auto simp: waiting_def sim_advances_def)
  qed
  then show "waiting m (sim_advances m m' + t) =
      (if t = 0 then mset (ran_step l) else {#}) + waiting_at (sim_phase m' = P_START) (sched_list s) t"
    "t < sim_advances m m' \<Longrightarrow> waiting m t = {#}" "0 < sim_advances m m' \<Longrightarrow> ran_step l = []" by blast+
qed

lemma sim_step_takes:
  assumes "sim_step m l m'" and "sim_ok m" and "\<not> abandons m"
  shows "\<exists>s. effect s (sim_sched m') \<and> side_lists (sim_sched m) l s
    \<and> (\<forall>t. waiting m (sim_advances m m' + t) =
      (if t = 0 then mset (ran_step l) else {#}) + waiting_at (sim_phase m' = P_START) (sched_list s) t)
    \<and> (\<forall>t < sim_advances m m'. waiting m t = {#}) \<and> (0 < sim_advances m m' \<longrightarrow> ran_step l = [])
    \<and> (\<forall>t. waiting_at (sim_phase m' = P_START) (sched_list s) t \<subseteq># waiting m' t)"
proof -
  obtain s where s: "before_effect m l s (sim_phase m')" "effect s (sim_sched m')" "side_lists (sim_sched m) l s"
    using sim_step_effect [OF assms(1,2)] by blast
  have "keeps (sched_list s) (sched_list (sim_sched m'))"
    using effect_grows [OF s(2)] before_effect_ok(1) [OF s(1) assms(2)] by (simp add: grows_def)
  then have "\<forall>t. waiting_at (sim_phase m' = P_START) (sched_list s) t \<subseteq># waiting m' t"
    unfolding waiting_def by (intro allI keeps_waiting)
  moreover note before_effect_waiting [OF s(1) assms(2,3)]
  ultimately show ?thesis using s(2,3) by (intro exI [of _ s] conjI) simp_all
qed

definition ran_at :: "('e label \<times> nat) list \<Rightarrow> nat \<Rightarrow> 'e multiset" where
  "ran_at ls t = mset (concat (map (\<lambda>(l, d). if d = t then ran_step l else []) ls))"

lemma ran_at_simps [simp]: "ran_at [] t = {#}"
  "ran_at (ls @ [(l, d)]) t = ran_at ls t + (if d = t then mset (ran_step l) else {#})"
  by (simp_all add: ran_at_def)

lemma timed_run_waits:
  assumes "timed_run (\<lambda>m. \<not> abandons m) m ls d m'" and "sim_ok m"
  shows "waiting m t \<subseteq># ran_at ls t + (if t < d then {#} else waiting m' (t - d))"
  using assms
proof (induction rule: timed_run.induct)
  case (timed_more m ls d m' l m'')
  then have IH: "waiting m t \<subseteq># ran_at ls t + (if t < d then {#} else waiting m' (t - d))" by simp
  have ok: "sim_ok m'" using timed_run_ok(1) [OF timed_more.hyps(1)] timed_more.prems by simp
  let ?a = "sim_advances m' m''"
  obtain s where s: "\<forall>t. waiting m' (?a + t) =
      (if t = 0 then mset (ran_step l) else {#}) + waiting_at (sim_phase m'' = P_START) (sched_list s) t"
    "\<forall>t < ?a. waiting m' t = {#}" "0 < ?a \<longrightarrow> ran_step l = []"
    "\<forall>t. waiting_at (sim_phase m'' = P_START) (sched_list s) t \<subseteq># waiting m'' t" "effect s (sim_sched m'')"
    using sim_step_takes [OF timed_more.hyps(3) ok timed_more.hyps(2)] by (elim exE conjE) (rule that; assumption)
  consider (past) "t < d" | (passed) "d \<le> t" "t - d < ?a" | (left) "d + ?a \<le> t" by linarith
  then show ?case
  proof cases
    case past
    then show ?thesis using IH by simp
  next
    case passed
    then show ?thesis using IH s(2) by (auto intro: subset_mset.order_trans)
  next
    case left
    then have "waiting m' (t - d) = (if t = d + ?a then mset (ran_step l) else {#})
        + waiting_at (sim_phase m'' = P_START) (sched_list s) (t - (d + ?a))"
      using spec [OF s(1), of "t - (d + ?a)"] by auto
    also have "\<dots> \<subseteq># (if d = t then mset (ran_step l) else {#}) + waiting m'' (t - (d + ?a))"
      using s(3) spec [OF s(4), of "t - (d + ?a)"] by (cases "?a = 0") auto
    finally have "ran_at ls t + waiting m' (t - d) \<subseteq>#
        ran_at ls t + ((if d = t then mset (ran_step l) else {#}) + waiting m'' (t - (d + ?a)))" by simp
    with IH left show ?thesis using subset_mset.order_trans by (fastforce simp: add.assoc)
  qed
qed simp

lemma timed_run_side:
  assumes "timed_run (\<lambda>m. \<not> abandons m) m ls d m'" and "sim_ok m"
  shows "prefix (side_list org (sim_sched m)) (concat (map (ran_from org \<circ> fst) ls) @ side_list org (sim_sched m'))"
  using assms
proof (induction rule: timed_run.induct)
  case (timed_more m ls d m' l m'')
  have ok: "sim_ok m'" using timed_run_ok(1) [OF timed_more.hyps(1)] timed_more.prems by simp
  obtain s where s: "effect s (sim_sched m'')" "side_lists (sim_sched m') l s"
    using sim_step_takes [OF timed_more.hyps(3) ok timed_more.hyps(2)] by (elim exE conjE) blast
  have "prefix (side_list org (sim_sched m')) (ran_from org l @ side_list org (sim_sched m''))"
    using s(2) effect_grows [OF s(1)] by (cases org) (auto simp: side_lists_def side_list_def grows_def)
  then have "prefix (concat (map (ran_from org \<circ> fst) ls) @ side_list org (sim_sched m'))
      (concat (map (ran_from org \<circ> fst) (ls @ [(l, d)])) @ side_list org (sim_sched m''))" by simp
  moreover have "prefix (side_list org (sim_sched m)) (concat (map (ran_from org \<circ> fst) ls) @ side_list org (sim_sched m'))"
    using timed_more.IH timed_more.prems .
  ultimately show ?case using prefix_order.trans by blast
qed simp

text \<open>The time of a label is the time that has passed since the start of the run.\<close>

lemma sim_step_label_time: "sim_step m (Some (e, T, org)) m' \<Longrightarrow> T = schedule_time (sim_sched m)"
  by (erule sim_step.cases) simp_all

lemma timed_run_label_time:
  assumes "timed_run P m ls d m'" and "sim_ok m" and "(Some (e, T, org), x) \<in> set ls"
  shows "T = schedule_time (sim_sched m) + of_nat x"
  using assms
proof (induction rule: timed_run.induct)
  case (timed_more m ls d m' l m'')
  then show ?case
    using timed_run_ok(2) [OF timed_more.hyps(1)] by (auto dest: sim_step_label_time)
qed simp


section \<open>Start-of-time callbacks for the current time\<close>

text \<open>
  The start list of a time step is drained when time advances to the step.  A callback that is put there
  for the current time, with delay 0, is not run: the time step is released with it.
\<close>

lemma sim_run_snoc: "sim_run m (ls @ [l]) m'' \<longleftrightarrow> (\<exists>m'. sim_run m ls m' \<and> sim_step m' l m'')"
  by (auto elim: sim_run.cases intro: run_more)

lemma sim_run_Nil: "sim_run m [] m' \<longleftrightarrow> m' = m"
  by (auto elim: sim_run.cases intro: run_none)

definition start_only :: "phase \<Rightarrow> 'e \<Rightarrow> 'e sim \<Rightarrow> bool" where
  "start_only ph cur m \<longleftrightarrow> sim_phase m = ph \<and> schedule_runnable (sim_sched m) \<and> \<not> schedule_stopped_flag (sim_sched m)
     \<and> sched_list (sim_sched m) = [(new_event_time 0)\<lparr>et_start := [cur]\<rparr>]"

lemma promote_start_only: "promote ((new_event_time 0)\<lparr>et_start := [cur]\<rparr>) = (new_event_time 0)\<lparr>et_start := [cur]\<rparr>"
  by (simp add: promote_def new_event_time_def)

lemma start_only_steps:
  "start_only P_LOOP cur m \<Longrightarrow> sim_step m l m' \<Longrightarrow> l = None \<and> start_only P_ADVANCE cur m'"
  "start_only P_ADVANCE cur m \<Longrightarrow> sim_step m l m' \<Longrightarrow> l = None \<and> start_only P_ROSYNC cur m'"
  "start_only P_ROSYNC cur m \<Longrightarrow> sim_step m l m' \<Longrightarrow> l = None \<and> start_only P_DEL_THR cur m'"
  "start_only P_DEL_THR cur m \<Longrightarrow> sim_step m l m' \<Longrightarrow> l = None \<and> sim_phase m' = P_LOOP \<and> sched_list (sim_sched m') = []"
  unfolding start_only_def
  by (elim conjE; erule sim_step.cases; simp add: promote_start_only upd_ctim_def; simp add: new_event_time_def)+

lemma start_for_now_lost:
  assumes m: "sim_phase m = P_LOOP" "schedule_runnable (sim_sched m)" "\<not> schedule_stopped_flag (sim_sched m)"
    and at: "sched_list s = []" "schedule_at_start_of_simtime cur 0 s = Some (sim_sched m)"
    and run: "sim_run m [a, b, c, d] m'"
  shows "[a, b, c, d] = [None, None, None, None]" and "sched_list (sim_sched m') = []"
proof -
  have 0: "start_only P_LOOP cur m"
  proof -
    obtain l where l: "schedule_event cur 0 SEQ_START [] = Some l" "sim_sched m = s\<lparr>sched_list := l\<rparr>"
      using at by (auto simp: schedule_at_start_of_simtime_def with_list_def)
    then have "l = [(new_event_time 0)\<lparr>et_start := [cur]\<rparr>]"
      by (simp add: schedule_event_def put_event_def et_put_def et_queue_def new_event_time_def)
    with m l(2) show ?thesis by (simp add: start_only_def)
  qed
  have "sim_run m ([] @ [a] @ [b] @ [c] @ [d]) m'" using run by simp
  then obtain m1 m2 m3 where st: "sim_step m a m1" "sim_step m1 b m2" "sim_step m2 c m3" "sim_step m3 d m'"
    by (simp only: append_assoc [symmetric] sim_run_snoc sim_run_Nil) blast
  note 1 = start_only_steps(1) [OF 0 st(1)]
  note 2 = start_only_steps(2) [OF conjunct2 [OF 1] st(2)]
  note 3 = start_only_steps(3) [OF conjunct2 [OF 2] st(3)]
  note 4 = start_only_steps(4) [OF conjunct2 [OF 3] st(4)]
  from 1 2 3 4 show "[a, b, c, d] = [None, None, None, None]" "sched_list (sim_sched m') = []" by simp_all
qed

end
