(* ===== verification/Functor.thy ===== *)
theory Functor
  imports Vector8
begin

text \<open>
  Net functors (\<^verbatim>\<open>vvp_net_fun_t\<close>): the messages a functor receives, what it does in answer, and the
  default methods of the base class (\<^verbatim>\<open>src/vvp/vvp_net.cc\<close>).

  Most gates do not send at once.  They note the new input, schedule themselves unless they are scheduled
  already (\<^verbatim>\<open>if (net_ == 0) { net_ = ptr.ptr(); schedule_functor(this); }\<close>), and compute and send their
  output when the scheduler runs them.  The locale \<open>deferred_functor\<close> states that contract once; the
  components give an interpretation for each of their classes.
\<close>

section \<open>Messages and actions\<close>

text \<open>
  A message names the port it arrives at.  An action is a call out of the functor: a value sent along
  the net, the functor scheduling itself, or a value scheduled to be sent later (\<^verbatim>\<open>schedule_propagate_vector\<close>).
  \<open>None\<close> is a failed assertion.
\<close>

datatype message =
    VEC4 nat vvp_vector4_t
  | VEC4_PV nat vvp_vector4_t nat nat
  | VEC8 nat vvp_vector8_t
  | VEC8_PV nat vvp_vector8_t nat nat

datatype action =
    SEND_VEC4 vvp_vector4_t
  | SEND_VEC4_PV vvp_vector4_t nat nat
  | SEND_VEC8 vvp_vector8_t
  | SEND_VEC8_PV vvp_vector8_t nat nat
  | SCHEDULE_FUNCTOR
  | SCHEDULE_PROPAGATE nat vvp_vector4_t

type_synonym 's reply = "('s \<times> action list) option"

text \<open>The methods of the base class.  \<^verbatim>\<open>recv_vec4_pv_\<close> and \<^verbatim>\<open>recv_vec8_pv_\<close> widen a part with z bits.\<close>

definition widen_part :: "vvp_vector4_t \<Rightarrow> nat \<Rightarrow> nat \<Rightarrow> vvp_vector4_t option" where
  "widen_part b base vwid = map_option snd (v4_set_vec (v4_fill vwid BIT4_Z) base b)"

definition base_recv_vec4_pv :: "(nat \<Rightarrow> vvp_vector4_t \<Rightarrow> 's \<Rightarrow> 's reply) \<Rightarrow>
    nat \<Rightarrow> vvp_vector4_t \<Rightarrow> nat \<Rightarrow> nat \<Rightarrow> 's \<Rightarrow> 's reply" where
  "base_recv_vec4_pv recv_vec4 p b base vwid s =
    (if base + v4_size b \<le> vwid then Option.bind (widen_part b base vwid) (\<lambda>tmp. recv_vec4 p tmp s) else None)"

definition base_recv_vec8 :: "(nat \<Rightarrow> vvp_vector4_t \<Rightarrow> 's \<Rightarrow> 's reply) \<Rightarrow> nat \<Rightarrow> vvp_vector8_t \<Rightarrow> 's \<Rightarrow> 's reply" where
  "base_recv_vec8 recv_vec4 p b s = Option.bind (reduce4 b) (\<lambda>v. recv_vec4 p v s)"

definition base_recv_vec8_pv :: "(nat \<Rightarrow> vvp_vector4_t \<Rightarrow> nat \<Rightarrow> nat \<Rightarrow> 's \<Rightarrow> 's reply) \<Rightarrow>
    nat \<Rightarrow> vvp_vector8_t \<Rightarrow> nat \<Rightarrow> nat \<Rightarrow> 's \<Rightarrow> 's reply" where
  "base_recv_vec8_pv recv_vec4_pv p b base vwid s = Option.bind (reduce4 b) (\<lambda>v. recv_vec4_pv p v base vwid s)"

definition base_recv_vec8_pv_widen :: "(nat \<Rightarrow> vvp_vector8_t \<Rightarrow> 's \<Rightarrow> 's reply) \<Rightarrow>
    nat \<Rightarrow> vvp_vector8_t \<Rightarrow> nat \<Rightarrow> nat \<Rightarrow> 's \<Rightarrow> 's reply" where
  "base_recv_vec8_pv_widen recv_vec8 p b base vwid s =
    (if base + v8_size b \<le> vwid then Option.bind (v8_set_vec (v8_make vwid) base b) (\<lambda>tmp. recv_vec8 p tmp s) else None)"

text \<open>A class that overrides \<^verbatim>\<open>recv_vec4\<close> and \<^verbatim>\<open>recv_vec4_pv\<close> and keeps the rest.\<close>

fun net_fun_recv :: "(nat \<Rightarrow> vvp_vector4_t \<Rightarrow> 's \<Rightarrow> 's reply) \<Rightarrow>
    (nat \<Rightarrow> vvp_vector4_t \<Rightarrow> nat \<Rightarrow> nat \<Rightarrow> 's \<Rightarrow> 's reply) \<Rightarrow> message \<Rightarrow> 's \<Rightarrow> 's reply" where
  "net_fun_recv r rpv (VEC4 p b) s = r p b s"
| "net_fun_recv r rpv (VEC4_PV p b base vwid) s = rpv p b base vwid s"
| "net_fun_recv r rpv (VEC8 p b) s = base_recv_vec8 r p b s"
| "net_fun_recv r rpv (VEC8_PV p b base vwid) s = base_recv_vec8_pv rpv p b base vwid s"

section \<open>The drive functor\<close>

text \<open>\<^verbatim>\<open>vvp_fun_drive\<close> attaches its strengths to a plain vector.  It has no changing state.\<close>

definition drive_recv_vec4 :: "nat \<Rightarrow> nat \<Rightarrow> nat \<Rightarrow> vvp_vector4_t \<Rightarrow> unit \<Rightarrow> unit reply" where
  "drive_recv_vec4 drive0 drive1 p b s =
    (if drive0 < 8 \<and> drive1 < 8 \<and> p = 0 then map_option (\<lambda>v. (s, [SEND_VEC8 v])) (v8_of_vector4 b drive0 drive1) else None)"

definition drive_recv :: "nat \<Rightarrow> nat \<Rightarrow> message \<Rightarrow> unit \<Rightarrow> unit reply" where
  "drive_recv drive0 drive1 = net_fun_recv (drive_recv_vec4 drive0 drive1) (base_recv_vec4_pv (drive_recv_vec4 drive0 drive1))"

section \<open>Functors that run later\<close>

text \<open>
  \<open>settles\<close>: the answer to a message keeps the invariant, and either schedules the functor, which was
  not scheduled, or does nothing; and then it is scheduled already or its output has not changed.
\<close>

definition settles :: "('s \<Rightarrow> bool) \<Rightarrow> ('s \<Rightarrow> bool) \<Rightarrow> ('s \<Rightarrow> 'o) \<Rightarrow> 's \<Rightarrow> 's reply \<Rightarrow> bool" where
  "settles ok pending out s r \<longleftrightarrow> (\<exists>s' acts. r = Some (s', acts) \<and> ok s'
     \<and> (acts = [SCHEDULE_FUNCTOR] \<and> \<not> pending s \<and> pending s'
        \<or> acts = [] \<and> (pending s' \<longleftrightarrow> pending s) \<and> (pending s \<or> out s' = out s)))"

datatype 'm op = RECV 'm | RUN

locale deferred_functor =
  fixes inv :: "'s \<Rightarrow> bool"
    and pending :: "'s \<Rightarrow> bool"
    and out :: "'s \<Rightarrow> 'o"
    and accepts :: "'m \<Rightarrow> 's \<Rightarrow> bool"
    and recv :: "'m \<Rightarrow> 's \<Rightarrow> 's reply"
    and run :: "'s \<Rightarrow> 's reply"
    and reads :: "action list \<Rightarrow> 'o option"
  assumes recv_law: "inv s \<Longrightarrow> accepts m s \<Longrightarrow> settles inv pending out s (recv m s)"
    and run_law: "inv s \<Longrightarrow> pending s \<Longrightarrow>
      \<exists>s' acts. run s = Some (s', acts) \<and> inv s' \<and> \<not> pending s' \<and> out s' = out s \<and> reads acts = Some (out s)"
begin

text \<open>
  A history of a functor: messages it receives and runs by the scheduler, with the number of events it
  has in the queue and the last value it sent.  A run needs an event in the queue.
\<close>

inductive history :: "'s \<Rightarrow> 'm op list \<Rightarrow> 's \<Rightarrow> nat \<Rightarrow> 'o option \<Rightarrow> bool" for s0 where
  start: "history s0 [] s0 0 None"
| message: "history s0 ops s k sent \<Longrightarrow> accepts m s \<Longrightarrow> recv m s = Some (s', acts) \<Longrightarrow>
    history s0 (ops @ [RECV m]) s' (k + count_list acts SCHEDULE_FUNCTOR) sent"
| event: "history s0 ops s (Suc k) sent \<Longrightarrow> run s = Some (s', acts) \<Longrightarrow> history s0 (ops @ [RUN]) s' k (reads acts)"

lemma history_settled:
  assumes "history s0 ops s k sent" and "inv s0" and "\<not> pending s0"
  shows "inv s \<and> k = (if pending s then 1 else 0)
    \<and> (\<not> pending s \<longrightarrow> (case sent of None \<Rightarrow> out s = out s0 | Some v \<Rightarrow> v = out s))"
  using assms
proof (induction rule: history.induct)
  case (message ops s k sent m s' acts)
  then have "settles inv pending out s (recv m s)" using recv_law by blast
  with message show ?case by (cases sent) (auto simp: settles_def)
next
  case (event ops s k sent s' acts)
  then have "inv s" "pending s" "k = 0" by (auto split: if_splits)
  with run_law [of s] event.hyps show ?case by auto
qed simp

text \<open>The functor is in the queue at most once, and what it sent last is its output unless it is going to run.\<close>

lemma queued_once: "history s0 ops s k sent \<Longrightarrow> inv s0 \<Longrightarrow> \<not> pending s0 \<Longrightarrow> k \<le> 1"
  using history_settled by fastforce

lemma settled: "history s0 ops s 0 (Some v) \<Longrightarrow> inv s0 \<Longrightarrow> \<not> pending s0 \<Longrightarrow> v = out s"
  using history_settled by (fastforce split: if_splits)

text \<open>It is never stuck: an acceptable message is answered and a queued event can run.\<close>

lemma answers:
  assumes "history s0 ops s k sent" and "inv s0" and "\<not> pending s0"
  shows "accepts m s \<Longrightarrow> \<exists>s' acts. recv m s = Some (s', acts)"
    and "0 < k \<Longrightarrow> \<exists>s' acts. run s = Some (s', acts) \<and> reads acts = Some (out s)"
proof -
  note h = history_settled [OF assms]
  show "\<exists>s' acts. recv m s = Some (s', acts)" if "accepts m s"
    using recv_law [OF conjunct1 [OF h] that] by (auto simp: settles_def)
  assume "0 < k"
  with h have "pending s" by (auto split: if_splits)
  with h run_law [of s] show "\<exists>s' acts. run s = Some (s', acts) \<and> reads acts = Some (out s)" by blast
qed

end

section \<open>Reading what was sent\<close>

fun sent_vec4 :: "action list \<Rightarrow> vvp_bit4_t list option" where
  "sent_vec4 [SEND_VEC4 v] = Some (v4_list v)"
| "sent_vec4 _ = None"

fun sent_vec8 :: "action list \<Rightarrow> vvp_scalar_t list option" where
  "sent_vec8 [SEND_VEC8 v] = Some (v8_list v)"
| "sent_vec8 _ = None"

text \<open>Messages for the ports of a functor, with a width for each port that depends on nothing else.\<close>

fun fits :: "(nat \<Rightarrow> nat \<Rightarrow> bool) \<Rightarrow> message \<Rightarrow> bool" where
  "fits w (VEC4 p b) \<longleftrightarrow> v4_inv b \<and> w p (v4_size b)"
| "fits w (VEC4_PV p b base vwid) \<longleftrightarrow> v4_inv b \<and> w p vwid \<and> base + v4_size b \<le> vwid \<and> base < vwid"
| "fits w (VEC8 p b) \<longleftrightarrow> v8_inv b \<and> w p (v8_size b)"
| "fits w (VEC8_PV p b base vwid) \<longleftrightarrow> v8_inv b \<and> w p vwid \<and> base + v8_size b \<le> vwid \<and> base < vwid"

text \<open>The base methods turn every message into one of the two the class handles.\<close>

lemma reduce4_size:
  assumes "v8_inv v"
  obtains r where "reduce4 v = Some r" and "v4_inv r" and "v4_size r = v8_size v"
    and "v4_list r = map scalar_value (v8_list v)"
proof -
  obtain r where r: "reduce4 v = Some r" "v4_inv r" "v4_list r = map scalar_value (v8_list v)" by (rule reduce4_list [OF assms])
  have "length (v8_list v) = v8_size v" using assms by (simp add: v8_inv_def v8_list_def)
  then have "v4_size r = v8_size v" using arg_cong [OF r(3), of length] by simp
  with r that show thesis by blast
qed

lemma net_fun_recv_cases:
  assumes "fits w m"
    and "\<And>p b. v4_inv b \<Longrightarrow> w p (v4_size b) \<Longrightarrow> P (r p b s)"
    and "\<And>p b base vwid. v4_inv b \<Longrightarrow> w p vwid \<Longrightarrow> base + v4_size b \<le> vwid \<Longrightarrow> base < vwid \<Longrightarrow> P (rpv p b base vwid s)"
  shows "P (net_fun_recv r rpv m s)"
proof (cases m)
  case (VEC8 p b)
  with assms(1) obtain v where "reduce4 b = Some v" "v4_inv v" "v4_size v = v8_size b" by (auto elim: reduce4_size)
  with VEC8 assms(1,2) show ?thesis by (simp add: base_recv_vec8_def)
next
  case (VEC8_PV p b base vwid)
  with assms(1) obtain v where "reduce4 b = Some v" "v4_inv v" "v4_size v = v8_size b" by (auto elim: reduce4_size)
  with VEC8_PV assms(1,3) show ?thesis by (simp add: base_recv_vec8_pv_def)
qed (use assms in simp_all)

lemma set_vec_changes:
  assumes "v4_inv v" and "v4_inv w" and "adr + v4_size w \<le> v4_size v" and "adr < v4_size v"
  shows "\<exists>d r. v4_set_vec v adr w = Some (d, r) \<and> v4_inv r \<and> v4_size r = v4_size v \<and> (d \<longleftrightarrow> v4_list r \<noteq> v4_list v)"
  by (rule v4_set_vec_spec [OF assms]) blast

lemma widen_part_list:
  assumes "v4_inv b" and "base + v4_size b \<le> vwid" and "base < vwid"
  obtains r where "widen_part b base vwid = Some r" and "v4_inv r" and "v4_size r = vwid"
    and "v4_list r = replicate base BIT4_Z @ v4_list b @ replicate (vwid - base - v4_size b) BIT4_Z"
proof -
  have fit: "base + v4_size b \<le> v4_size (v4_fill vwid BIT4_Z)" "base < v4_size (v4_fill vwid BIT4_Z)" using assms by simp_all
  obtain d r where "v4_set_vec (v4_fill vwid BIT4_Z) base b = Some (d, r)" "v4_inv r" "v4_size r = v4_size (v4_fill vwid BIT4_Z)"
    "v4_list r = take base (v4_list (v4_fill vwid BIT4_Z)) @ v4_list b @ drop (base + v4_size b) (v4_list (v4_fill vwid BIT4_Z))"
    by (rule v4_set_vec_spec [OF v4_fill_inv assms(1) fit])
  with that [of r] assms(2) show thesis by (simp add: widen_part_def v4_fill_list)
qed

text \<open>The drive functor sends every bit with its strengths.\<close>

lemma drive_recv_sends:
  assumes "drive0 < 8" and "drive1 < 8" and "v4_inv b"
  shows "\<exists>v. drive_recv_vec4 drive0 drive1 0 b s = Some (s, [SEND_VEC8 v]) \<and> v8_inv v
    \<and> v8_list v = map (\<lambda>x. the (scalar_of x drive0 drive1)) (v4_list b)"
proof -
  have le: "drive0 \<le> 7" "drive1 \<le> 7" using assms by simp_all
  have "scalar_of x drive0 drive1 = Some (the (scalar_of x drive0 drive1))" for x
    using scalar_of_reads [OF le, of x] by (metis option.sel)
  then obtain v where "v8_of_bits (v4_value b) (v4_size b) drive0 drive1 = Some v" "v8_inv v"
    "v8_list v = map (\<lambda>i. the (scalar_of (v4_value b i) drive0 drive1)) [0..<v4_size b]"
    using v8_of_bits_spec [of "v4_size b" "v4_value b" drive0 drive1 "\<lambda>i. the (scalar_of (v4_value b i) drive0 drive1)"] by blast
  then show ?thesis
    using assms by (simp add: drive_recv_vec4_def v8_of_vector4_def v4_list_def)
qed

end
