(* ===== verification/Logic.thy ===== *)
theory Logic
  imports Functor
begin

text \<open>
  The logic gates (\<^verbatim>\<open>src/vvp/logic.cc\<close>): the boolean gates over four inputs, equivalence and
  implication, the buffers, and the multiplexer.  Every class but the transparent buffers is a functor that
  runs later; its output is given as a list of bits, and the interpretations of \<open>deferred_functor\<close> show
  that what it sent last is that output whenever it is not waiting to run.

  \<^verbatim>\<open>net_\<close> is the net of the functor while it is scheduled and null otherwise: a boolean here.  The
  real valued multiplexer is not modelled.
\<close>

section \<open>The boolean gates\<close>

record vvp_fun_boolean =
  fb_input :: "vvp_vector4_t list"
  fb_net :: bool

definition fun_boolean :: "nat \<Rightarrow> vvp_fun_boolean" where
  "fun_boolean n = \<lparr>fb_input = replicate 4 (v4_fill n BIT4_Z), fb_net = False\<rparr>"

definition boolean_trigger :: "vvp_fun_boolean \<Rightarrow> vvp_fun_boolean \<times> action list" where
  "boolean_trigger s = (if fb_net s then (s, []) else (s\<lparr>fb_net := True\<rparr>, [SCHEDULE_FUNCTOR]))"

definition boolean_recv_vec4 :: "nat \<Rightarrow> vvp_vector4_t \<Rightarrow> vvp_fun_boolean \<Rightarrow> vvp_fun_boolean reply" where
  "boolean_recv_vec4 p b s =
    (if \<not> p < length (fb_input s) then None
     else if v4_eeq (fb_input s ! p) b then Some (s, [])
     else Some (boolean_trigger (s\<lparr>fb_input := (fb_input s)[p := b]\<rparr>)))"

definition boolean_recv_vec4_pv :: "nat \<Rightarrow> vvp_vector4_t \<Rightarrow> nat \<Rightarrow> nat \<Rightarrow> vvp_fun_boolean \<Rightarrow> vvp_fun_boolean reply" where
  "boolean_recv_vec4_pv p b base vwid s =
    (if p < length (fb_input s) \<and> base + v4_size b \<le> vwid then
       Option.bind (v4_set_vec (fb_input s ! p) base b) (\<lambda>(flag, v).
         let s = s\<lparr>fb_input := (fb_input s)[p := v]\<rparr> in
         if flag then Some (boolean_trigger s) else Some (s, []))
     else None)"

definition boolean_recv :: "message \<Rightarrow> vvp_fun_boolean \<Rightarrow> vvp_fun_boolean reply" where
  "boolean_recv = net_fun_recv boolean_recv_vec4 boolean_recv_vec4_pv"

text \<open>
  The loops of \<^verbatim>\<open>run_run\<close>: the first input combined in place with the others, inverted on request.
\<close>

definition gate_run :: "(vvp_vector4_t \<Rightarrow> vvp_vector4_t \<Rightarrow> vvp_vector4_t option) \<Rightarrow> bool \<Rightarrow> vvp_fun_boolean
    \<Rightarrow> vvp_fun_boolean reply" where
  "gate_run oper invert s =
    map_option (\<lambda>result. (s\<lparr>fb_net := False\<rparr>, [SEND_VEC4 (if invert then v4_invert result else result)]))
      (for_each (\<lambda>pdx result. oper result (fb_input s ! pdx)) [1..<4] (fb_input s ! 0))"

definition fun_and_run :: "bool \<Rightarrow> vvp_fun_boolean \<Rightarrow> vvp_fun_boolean reply" where
  "fun_and_run = gate_run v4_and_eq"

definition fun_or_run :: "bool \<Rightarrow> vvp_fun_boolean \<Rightarrow> vvp_fun_boolean reply" where
  "fun_or_run = gate_run v4_or_eq"

definition fun_xor_run :: "bool \<Rightarrow> vvp_fun_boolean \<Rightarrow> vvp_fun_boolean reply" where
  "fun_xor_run = gate_run v4_xor_eq"

definition fun_equiv_run :: "vvp_fun_boolean \<Rightarrow> vvp_fun_boolean reply" where
  "fun_equiv_run s =
    (if v4_size (fb_input s ! 0) = 1 \<and> v4_size (fb_input s ! 1) = 1
     then Some (s\<lparr>fb_net := False\<rparr>, [SEND_VEC4 (v4_fill 1
       (bit4_not (bit4_xor (v4_value (fb_input s ! 0) 0) (v4_value (fb_input s ! 1) 0))))])
     else None)"

definition fun_impl_run :: "vvp_fun_boolean \<Rightarrow> vvp_fun_boolean reply" where
  "fun_impl_run s =
    (if v4_size (fb_input s ! 0) = 1 \<and> v4_size (fb_input s ! 1) = 1
     then Some (s\<lparr>fb_net := False\<rparr>, [SEND_VEC4 (v4_fill 1
       (bit4_or (bit4_not (v4_value (fb_input s ! 0) 0)) (v4_value (fb_input s ! 1) 0)))])
     else None)"

section \<open>Buffers and inverters\<close>

record vvp_fun_buf_not =
  bn_input :: vvp_vector4_t
  bn_net :: bool

definition fun_buf_not :: "nat \<Rightarrow> vvp_fun_buf_not" where
  "fun_buf_not n = \<lparr>bn_input = v4_fill n BIT4_Z, bn_net = False\<rparr>"

definition buf_not_trigger :: "vvp_fun_buf_not \<Rightarrow> vvp_fun_buf_not \<times> action list" where
  "buf_not_trigger s = (if bn_net s then (s, []) else (s\<lparr>bn_net := True\<rparr>, [SCHEDULE_FUNCTOR]))"

definition buf_not_recv_vec4 :: "nat \<Rightarrow> vvp_vector4_t \<Rightarrow> vvp_fun_buf_not \<Rightarrow> vvp_fun_buf_not reply" where
  "buf_not_recv_vec4 p b s =
    (if p \<noteq> 0 then Some (s, [])
     else if v4_eeq (bn_input s) b then Some (s, [])
     else Some (buf_not_trigger (s\<lparr>bn_input := b\<rparr>)))"

definition buf_not_recv_vec4_pv :: "nat \<Rightarrow> vvp_vector4_t \<Rightarrow> nat \<Rightarrow> nat \<Rightarrow> vvp_fun_buf_not \<Rightarrow> vvp_fun_buf_not reply" where
  "buf_not_recv_vec4_pv p b base vwid s =
    (if p \<noteq> 0 then Some (s, [])
     else if \<not> base + v4_size b \<le> vwid then None
     else Option.bind (v4_set_vec (bn_input s) base b) (\<lambda>(flag, v).
       let s = s\<lparr>bn_input := v\<rparr> in if flag then Some (buf_not_trigger s) else Some (s, [])))"

definition buf_not_recv :: "message \<Rightarrow> vvp_fun_buf_not \<Rightarrow> vvp_fun_buf_not reply" where
  "buf_not_recv = net_fun_recv buf_not_recv_vec4 buf_not_recv_vec4_pv"

definition fun_buf_run :: "vvp_fun_buf_not \<Rightarrow> vvp_fun_buf_not reply" where
  "fun_buf_run s = Some (s\<lparr>bn_net := False\<rparr>, [SEND_VEC4 (v4_change_z2x (bn_input s))])"

definition fun_not_run :: "vvp_fun_buf_not \<Rightarrow> vvp_fun_buf_not reply" where
  "fun_not_run s = Some (s\<lparr>bn_net := False\<rparr>, [SEND_VEC4 (v4_not (bn_input s))])"

text \<open>The transparent buffers pass on what arrives at port 0; \<^verbatim>\<open>vvp_fun_buft\<close> also keeps strengths.\<close>

definition bufz_recv_vec4 :: "nat \<Rightarrow> vvp_vector4_t \<Rightarrow> unit \<Rightarrow> unit reply" where
  "bufz_recv_vec4 p b s = Some (s, if p \<noteq> 0 then [] else [SEND_VEC4 b])"

definition bufz_recv_vec4_pv :: "nat \<Rightarrow> vvp_vector4_t \<Rightarrow> nat \<Rightarrow> nat \<Rightarrow> unit \<Rightarrow> unit reply" where
  "bufz_recv_vec4_pv p b base vwid s = Some (s, if p \<noteq> 0 then [] else [SEND_VEC4_PV b base vwid])"

definition bufz_recv :: "message \<Rightarrow> unit \<Rightarrow> unit reply" where
  "bufz_recv = net_fun_recv bufz_recv_vec4 bufz_recv_vec4_pv"

definition buft_recv_vec8 :: "nat \<Rightarrow> vvp_vector8_t \<Rightarrow> unit \<Rightarrow> unit reply" where
  "buft_recv_vec8 p b s = Some (s, if p \<noteq> 0 then [] else [SEND_VEC8 b])"

section \<open>The multiplexer\<close>

datatype sel_type = SEL_PORT0 | SEL_PORT1 | SEL_BOTH

record vvp_fun_muxz =
  mx_a :: vvp_vector4_t
  mx_b :: vvp_vector4_t
  mx_net :: bool
  mx_select :: sel_type
  mx_has_run :: bool

definition fun_muxz :: "nat \<Rightarrow> vvp_fun_muxz" where
  "fun_muxz n = \<lparr>mx_a = v4_fill n BIT4_Z, mx_b = v4_fill n BIT4_Z, mx_net = False, mx_select = SEL_BOTH, mx_has_run = False\<rparr>"

definition muxz_trigger :: "vvp_fun_muxz \<Rightarrow> vvp_fun_muxz \<times> action list" where
  "muxz_trigger s = (if mx_net s then (s, []) else (s\<lparr>mx_net := True\<rparr>, [SCHEDULE_FUNCTOR]))"

definition muxz_select :: "vvp_bit4_t \<Rightarrow> vvp_fun_muxz \<Rightarrow> vvp_fun_muxz \<times> action list" where
  "muxz_select b s = (case b of
       BIT4_0 \<Rightarrow> if mx_select s = SEL_PORT0 then (s, []) else muxz_trigger (s\<lparr>mx_select := SEL_PORT0\<rparr>)
     | BIT4_1 \<Rightarrow> if mx_select s = SEL_PORT1 then (s, []) else muxz_trigger (s\<lparr>mx_select := SEL_PORT1\<rparr>)
     | _ \<Rightarrow> if mx_select s = SEL_BOTH \<and> mx_has_run s then (s, []) else muxz_trigger (s\<lparr>mx_select := SEL_BOTH\<rparr>))"

definition muxz_recv_vec4 :: "nat \<Rightarrow> vvp_vector4_t \<Rightarrow> vvp_fun_muxz \<Rightarrow> vvp_fun_muxz reply" where
  "muxz_recv_vec4 p b s =
    (if p = 0 then Some
       (if v4_eeq (mx_a s) b \<and> mx_has_run s then (s, [])
        else let s = s\<lparr>mx_a := b\<rparr> in if mx_select s = SEL_PORT1 then (s, []) else muxz_trigger s)
     else if p = 1 then Some
       (if v4_eeq (mx_b s) b \<and> mx_has_run s then (s, [])
        else let s = s\<lparr>mx_b := b\<rparr> in if mx_select s = SEL_PORT0 then (s, []) else muxz_trigger s)
     else if p = 2 then if v4_size b = 1 then Some (muxz_select (v4_value b 0) s) else None
     else Some (s, []))"

definition muxz_recv_vec4_pv :: "nat \<Rightarrow> vvp_vector4_t \<Rightarrow> nat \<Rightarrow> nat \<Rightarrow> vvp_fun_muxz \<Rightarrow> vvp_fun_muxz reply" where
  "muxz_recv_vec4_pv p b base vwid s =
    (if \<not> base + v4_size b \<le> vwid then None
     else if p = 0 then Option.bind (v4_set_vec (mx_a s) base b) (\<lambda>(flag, v).
       let s = s\<lparr>mx_a := v\<rparr> in Some
         (if \<not> flag \<and> mx_has_run s then (s, []) else if mx_select s = SEL_PORT1 then (s, []) else muxz_trigger s))
     else if p = 1 then Option.bind (v4_set_vec (mx_b s) base b) (\<lambda>(flag, v).
       let s = s\<lparr>mx_b := v\<rparr> in Some
         (if \<not> flag \<and> mx_has_run s then (s, []) else if mx_select s = SEL_PORT0 then (s, []) else muxz_trigger s))
     else if p = 2 then if base = 0 \<and> v4_size b = 1 then muxz_recv_vec4 p b s else None
     else Some (s, []))"

definition muxz_recv :: "message \<Rightarrow> vvp_fun_muxz \<Rightarrow> vvp_fun_muxz reply" where
  "muxz_recv = net_fun_recv muxz_recv_vec4 muxz_recv_vec4_pv"

text \<open>With an unknown select the bits on which the inputs agree pass, the others and the bits beyond the narrower input are x.\<close>

definition muxz_blend :: "vvp_vector4_t \<Rightarrow> vvp_vector4_t \<Rightarrow> vvp_vector4_t option" where
  "muxz_blend a b =
    (let min_size = min (v4_size a) (v4_size b); max_size = max (v4_size a) (v4_size b) in
     Option.bind (for_each (\<lambda>idx res. v4_set_bit res idx (if v4_value a idx = v4_value b idx then v4_value a idx else BIT4_X))
         [0..<min_size] (v4_fill max_size BIT4_X))
       (\<lambda>res. for_each (\<lambda>idx res. v4_set_bit res idx BIT4_X) [min_size..<max_size] res))"

definition muxz_run :: "vvp_fun_muxz \<Rightarrow> vvp_fun_muxz reply" where
  "muxz_run s =
    (let s = s\<lparr>mx_has_run := True, mx_net := False\<rparr> in
     case mx_select s of
       SEL_PORT0 \<Rightarrow> Some (s, [SEND_VEC4 (mx_a s)])
     | SEL_PORT1 \<Rightarrow> Some (s, [SEND_VEC4 (mx_b s)])
     | SEL_BOTH \<Rightarrow> map_option (\<lambda>res. (s, [SEND_VEC4 res])) (muxz_blend (mx_a s) (mx_b s)))"

section \<open>The boolean gates compute their function\<close>

definition boolean_inv :: "nat \<Rightarrow> vvp_fun_boolean \<Rightarrow> bool" where
  "boolean_inv n s \<longleftrightarrow> length (fb_input s) = 4 \<and> (\<forall>v \<in> set (fb_input s). v4_inv v \<and> v4_size v = n)"

abbreviation boolean_accepts :: "nat \<Rightarrow> message \<Rightarrow> vvp_fun_boolean \<Rightarrow> bool" where
  "boolean_accepts n m s \<equiv> fits (\<lambda>p w. p < 4 \<and> w = n) m"

abbreviation boolean_lists :: "vvp_fun_boolean \<Rightarrow> vvp_bit4_t list list" where
  "boolean_lists s \<equiv> map v4_list (fb_input s)"

lemma boolean_inv_nth: "boolean_inv n s \<Longrightarrow> p < 4 \<Longrightarrow> v4_inv (fb_input s ! p) \<and> v4_size (fb_input s ! p) = n"
  by (simp add: boolean_inv_def)

lemma boolean_inv_update:
  "boolean_inv n s \<Longrightarrow> v4_inv b \<Longrightarrow> v4_size b = n \<Longrightarrow> boolean_inv n (s\<lparr>fb_input := (fb_input s)[p := b]\<rparr>)"
  by (auto simp: boolean_inv_def dest: set_update_subset_insert [THEN subsetD])

lemma boolean_trigger_settles:
  assumes "boolean_inv n s'" and "fb_net s' = fb_net s"
  shows "settles (boolean_inv n) fb_net out s (Some (boolean_trigger s'))"
  using assms by (auto simp: settles_def boolean_trigger_def boolean_inv_def)

lemma boolean_recv_settles:
  assumes inv: "boolean_inv n s" and m: "boolean_accepts n m s"
  shows "settles (boolean_inv n) fb_net (\<lambda>s. F (boolean_lists s)) s (boolean_recv m s)"
  unfolding boolean_recv_def using m
proof (rule net_fun_recv_cases)
  fix p :: nat and b :: vvp_vector4_t
  assume b: "v4_inv b" "p < 4 \<and> v4_size b = n"
  then show "settles (boolean_inv n) fb_net (\<lambda>s. F (boolean_lists s)) s (boolean_recv_vec4 p b s)"
    using inv boolean_trigger_settles [OF boolean_inv_update [OF inv b(1)]]
    by (auto simp: boolean_recv_vec4_def boolean_inv_def settles_def [of _ _ _ _ "Some (s, [])"])
next
  fix p base vwid :: nat and b :: vvp_vector4_t
  assume b: "v4_inv b" "p < 4 \<and> vwid = n" "base + v4_size b \<le> vwid" "base < vwid"
  then have i: "v4_inv (fb_input s ! p)" "v4_size (fb_input s ! p) = n" using boolean_inv_nth [OF inv] by simp_all
  with b have fit: "base + v4_size b \<le> v4_size (fb_input s ! p)" "base < v4_size (fb_input s ! p)" by simp_all
  obtain d r where r: "v4_set_vec (fb_input s ! p) base b = Some (d, r)" "v4_inv r" "v4_size r = v4_size (fb_input s ! p)"
    "d \<longleftrightarrow> v4_list r \<noteq> v4_list (fb_input s ! p)" by (rule v4_set_vec_spec [OF i(1) b(1) fit])
  let ?s = "s\<lparr>fb_input := (fb_input s)[p := r]\<rparr>"
  have inv': "boolean_inv n ?s" using boolean_inv_update [OF inv r(2)] r(3) i(2) by simp
  show "settles (boolean_inv n) fb_net (\<lambda>s. F (boolean_lists s)) s (boolean_recv_vec4_pv p b base vwid s)"
  proof (cases d)
    case True
    with r(1) b inv boolean_trigger_settles [OF inv', of s] show ?thesis
      by (simp add: boolean_recv_vec4_pv_def boolean_inv_def)
  next
    case False
    then have "boolean_lists ?s = boolean_lists s"
      using r(4) inv b(2) by (simp add: map_update boolean_inv_def list_update_same_conv)
    then have "settles (boolean_inv n) fb_net (\<lambda>s. F (boolean_lists s)) s (Some (?s, []))"
      using inv' by (simp add: settles_def)
    with r(1) b inv False show ?thesis by (simp add: boolean_recv_vec4_pv_def boolean_inv_def)
  qed
qed

lemma boolean_recv_stores:
  assumes "boolean_inv n s" and "p < 4" and "v4_inv b" and "v4_size b = n"
  shows "\<exists>s' acts. boolean_recv_vec4 p b s = Some (s', acts) \<and> boolean_lists s' = (boolean_lists s)[p := v4_list b]"
  using assms boolean_inv_nth [OF assms(1,2)] v4_eeq_list [of "fb_input s ! p" b]
  by (cases "v4_eeq (fb_input s ! p) b")
    (auto simp: boolean_recv_vec4_def boolean_inv_def boolean_trigger_def map_update list_update_same_conv [THEN iffD2])

lemma fun_boolean_ok: "boolean_inv n (fun_boolean n)" "\<not> fb_net (fun_boolean n)"
  by (simp_all add: boolean_inv_def fun_boolean_def v4_fill_inv)

text \<open>The function of a gate on the bits of its inputs.\<close>

definition gate_out :: "(vvp_bit4_t \<Rightarrow> vvp_bit4_t \<Rightarrow> vvp_bit4_t) \<Rightarrow> bool \<Rightarrow> vvp_bit4_t list list \<Rightarrow> vvp_bit4_t list" where
  "gate_out f invert ls = map (if invert then bit4_not else id) (foldl (map2 f) (ls ! 0) (drop 1 ls))"

lemma four_nth: "length xs = 4 \<Longrightarrow> xs = [xs ! 0, xs ! 1, xs ! 2, xs ! 3]"
  by (auto simp: list_eq_iff_nth_eq less_Suc_eq numeral_eq_Suc)

lemma gate_run_sends:
  assumes inv: "boolean_inv n s"
    and oper: "\<And>v w. v4_inv v \<Longrightarrow> v4_inv w \<Longrightarrow> v4_size v = v4_size w \<Longrightarrow>
      \<exists>r. oper v w = Some r \<and> v4_inv r \<and> v4_list r = map2 f (v4_list v) (v4_list w)"
  shows "\<exists>s' acts. gate_run oper invert s = Some (s', acts) \<and> boolean_inv n s' \<and> \<not> fb_net s'
    \<and> gate_out f invert (boolean_lists s') = gate_out f invert (boolean_lists s)
    \<and> sent_vec4 acts = Some (gate_out f invert (boolean_lists s))"
proof -
  let ?i = "\<lambda>k. fb_input s ! k"
  have i: "v4_inv (?i k)" "v4_size (?i k) = n" if "k < 4" for k using boolean_inv_nth [OF inv that] by simp_all
  have op: "\<exists>r. oper v w = Some r \<and> v4_inv r \<and> v4_size r = n \<and> v4_list r = map2 f (v4_list v) (v4_list w)"
    if vw: "v4_inv v" "v4_inv w" "v4_size v = n" "v4_size w = n" for v w
  proof -
    obtain r where r: "oper v w = Some r" "v4_inv r" "v4_list r = map2 f (v4_list v) (v4_list w)"
      using oper [OF vw(1,2)] vw(3,4) by auto
    moreover have "v4_size r = n" using arg_cong [OF r(3), of length] vw by simp
    ultimately show ?thesis by blast
  qed
  obtain r1 where 1: "oper (?i 0) (?i 1) = Some r1" "v4_inv r1" "v4_size r1 = n" "v4_list r1 = map2 f (v4_list (?i 0)) (v4_list (?i 1))"
    using op [of "?i 0" "?i 1"] i by auto
  obtain r2 where 2: "oper r1 (?i 2) = Some r2" "v4_inv r2" "v4_size r2 = n" "v4_list r2 = map2 f (v4_list r1) (v4_list (?i 2))"
    using op [of r1 "?i 2"] i 1 by auto
  obtain r3 where 3: "oper r2 (?i 3) = Some r3" "v4_inv r3" "v4_list r3 = map2 f (v4_list r2) (v4_list (?i 3))"
    using op [of r2 "?i 3"] i 2 by auto
  have "for_each (\<lambda>pdx result. oper result (?i pdx)) [1..<4] (?i 0) = Some r3"
  proof -
    have "[1..<4] = [1, 2, 3 :: nat]" by (simp add: upt_rec)
    with 1(1) 2(1) 3(1) show ?thesis by simp
  qed
  then have run: "gate_run oper invert s = Some (s\<lparr>fb_net := False\<rparr>, [SEND_VEC4 (if invert then v4_invert r3 else r3)])"
    by (simp add: gate_run_def)
  have "length (fb_input s) = 4" using inv by (simp add: boolean_inv_def)
  then have "boolean_lists s = map v4_list [?i 0, ?i 1, ?i 2, ?i 3]" by (rule arg_cong [OF four_nth])
  then have "gate_out f invert (boolean_lists s) = map (if invert then bit4_not else id) (v4_list r3)"
    by (simp add: gate_out_def 1(4) 2(4) 3(3))
  then have "sent_vec4 [SEND_VEC4 (if invert then v4_invert r3 else r3)] = Some (gate_out f invert (boolean_lists s))"
    using v4_invert [OF 3(2)] by simp
  with run inv show ?thesis by (simp add: boolean_inv_def)
qed

lemma gate_opers:
  assumes "v4_inv v" and "v4_inv w" and "v4_size v = v4_size w"
  shows "\<exists>r. v4_and_eq v w = Some r \<and> v4_inv r \<and> v4_list r = map2 bit4_and (v4_list v) (v4_list w)"
    and "\<exists>r. v4_or_eq v w = Some r \<and> v4_inv r \<and> v4_list r = map2 bit4_or (v4_list v) (v4_list w)"
    and "\<exists>r. v4_xor_eq v w = Some r \<and> v4_inv r \<and> v4_list r = map2 bit4_xor (v4_list v) (v4_list w)"
proof -
  show "\<exists>r. v4_and_eq v w = Some r \<and> v4_inv r \<and> v4_list r = map2 bit4_and (v4_list v) (v4_list w)"
    unfolding v4_and_eq_def by (rule v4_map2_list [OF assms, of and_words bit4_and, OF and_words_bits]) blast+
  show "\<exists>r. v4_or_eq v w = Some r \<and> v4_inv r \<and> v4_list r = map2 bit4_or (v4_list v) (v4_list w)"
    unfolding v4_or_eq_def by (rule v4_map2_list [OF assms, of or_words bit4_or, OF or_words_bits]) blast+
  show "\<exists>r. v4_xor_eq v w = Some r \<and> v4_inv r \<and> v4_list r = map2 bit4_xor (v4_list v) (v4_list w)"
    unfolding v4_xor_eq_def by (rule v4_map2_list [OF assms, of xor_words bit4_xor, OF xor_words_bits]) blast+
qed

interpretation and_gate: deferred_functor "boolean_inv n" fb_net "\<lambda>s. gate_out bit4_and invert (boolean_lists s)"
  "boolean_accepts n" boolean_recv "fun_and_run invert" sent_vec4 for n invert
  by unfold_locales (blast intro: boolean_recv_settles, unfold fun_and_run_def, blast intro: gate_run_sends gate_opers)

interpretation or_gate: deferred_functor "boolean_inv n" fb_net "\<lambda>s. gate_out bit4_or invert (boolean_lists s)"
  "boolean_accepts n" boolean_recv "fun_or_run invert" sent_vec4 for n invert
  by unfold_locales (blast intro: boolean_recv_settles, unfold fun_or_run_def, blast intro: gate_run_sends gate_opers)

interpretation xor_gate: deferred_functor "boolean_inv n" fb_net "\<lambda>s. gate_out bit4_xor invert (boolean_lists s)"
  "boolean_accepts n" boolean_recv "fun_xor_run invert" sent_vec4 for n invert
  by unfold_locales (blast intro: boolean_recv_settles, unfold fun_xor_run_def, blast intro: gate_run_sends gate_opers)

text \<open>Equivalence and implication of two single bits.\<close>

lemma boolean_bit: "boolean_inv 1 s \<Longrightarrow> p < 4 \<Longrightarrow> v4_value (fb_input s ! p) 0 = boolean_lists s ! p ! 0"
  using boolean_inv_nth [of 1 s p] by (simp add: boolean_inv_def)

interpretation equiv_gate: deferred_functor "boolean_inv 1" fb_net
  "\<lambda>s. [bit4_not (bit4_xor (boolean_lists s ! 0 ! 0) (boolean_lists s ! 1 ! 0))]"
  "boolean_accepts 1" boolean_recv fun_equiv_run sent_vec4
proof
  fix s m assume s: "boolean_inv 1 s"
  show "boolean_accepts 1 m s \<Longrightarrow> settles (boolean_inv 1) fb_net
      (\<lambda>s. [bit4_not (bit4_xor (boolean_lists s ! 0 ! 0) (boolean_lists s ! 1 ! 0))]) s (boolean_recv m s)"
    by (rule boolean_recv_settles [OF s])
  show "\<exists>s' acts. fun_equiv_run s = Some (s', acts) \<and> boolean_inv 1 s' \<and> \<not> fb_net s'
      \<and> [bit4_not (bit4_xor (boolean_lists s' ! 0 ! 0) (boolean_lists s' ! 1 ! 0))] =
        [bit4_not (bit4_xor (boolean_lists s ! 0 ! 0) (boolean_lists s ! 1 ! 0))]
      \<and> sent_vec4 acts = Some [bit4_not (bit4_xor (boolean_lists s ! 0 ! 0) (boolean_lists s ! 1 ! 0))]"
    using s boolean_inv_nth [OF s, of 0] boolean_inv_nth [OF s, of 1] boolean_bit [OF s, of 0] boolean_bit [OF s, of 1]
    by (simp add: fun_equiv_run_def v4_fill_list boolean_inv_def)
qed

interpretation impl_gate: deferred_functor "boolean_inv 1" fb_net
  "\<lambda>s. [bit4_or (bit4_not (boolean_lists s ! 0 ! 0)) (boolean_lists s ! 1 ! 0)]"
  "boolean_accepts 1" boolean_recv fun_impl_run sent_vec4
proof
  fix s m assume s: "boolean_inv 1 s"
  show "boolean_accepts 1 m s \<Longrightarrow> settles (boolean_inv 1) fb_net
      (\<lambda>s. [bit4_or (bit4_not (boolean_lists s ! 0 ! 0)) (boolean_lists s ! 1 ! 0)]) s (boolean_recv m s)"
    by (rule boolean_recv_settles [OF s])
  show "\<exists>s' acts. fun_impl_run s = Some (s', acts) \<and> boolean_inv 1 s' \<and> \<not> fb_net s'
      \<and> [bit4_or (bit4_not (boolean_lists s' ! 0 ! 0)) (boolean_lists s' ! 1 ! 0)] =
        [bit4_or (bit4_not (boolean_lists s ! 0 ! 0)) (boolean_lists s ! 1 ! 0)]
      \<and> sent_vec4 acts = Some [bit4_or (bit4_not (boolean_lists s ! 0 ! 0)) (boolean_lists s ! 1 ! 0)]"
    using s boolean_inv_nth [OF s, of 0] boolean_inv_nth [OF s, of 1] boolean_bit [OF s, of 0] boolean_bit [OF s, of 1]
    by (simp add: fun_impl_run_def v4_fill_list boolean_inv_def)
qed

section \<open>Buffer and inverter\<close>

definition buf_not_inv :: "nat \<Rightarrow> vvp_fun_buf_not \<Rightarrow> bool" where
  "buf_not_inv n s \<longleftrightarrow> v4_inv (bn_input s) \<and> v4_size (bn_input s) = n"

abbreviation buf_not_accepts :: "nat \<Rightarrow> message \<Rightarrow> vvp_fun_buf_not \<Rightarrow> bool" where
  "buf_not_accepts n m s \<equiv> fits (\<lambda>p w. w = n) m"

lemma buf_not_recv_settles:
  assumes inv: "buf_not_inv n s" and m: "buf_not_accepts n m s"
  shows "settles (buf_not_inv n) bn_net (\<lambda>s. F (v4_list (bn_input s))) s (buf_not_recv m s)"
  unfolding buf_not_recv_def using m
proof (rule net_fun_recv_cases)
  fix p :: nat and b :: vvp_vector4_t
  assume "v4_inv b" "v4_size b = n"
  with inv show "settles (buf_not_inv n) bn_net (\<lambda>s. F (v4_list (bn_input s))) s (buf_not_recv_vec4 p b s)"
    by (auto simp: buf_not_recv_vec4_def buf_not_inv_def settles_def buf_not_trigger_def)
next
  fix p base vwid :: nat and b :: vvp_vector4_t
  assume b: "v4_inv b" "vwid = n" "base + v4_size b \<le> vwid" "base < vwid"
  then have fit: "base + v4_size b \<le> v4_size (bn_input s)" "base < v4_size (bn_input s)" and i: "v4_inv (bn_input s)"
    using inv by (simp_all add: buf_not_inv_def)
  obtain d r where "v4_set_vec (bn_input s) base b = Some (d, r)" "v4_inv r" "v4_size r = v4_size (bn_input s)"
    "d \<longleftrightarrow> v4_list r \<noteq> v4_list (bn_input s)" by (rule v4_set_vec_spec [OF i b(1) fit])
  with b inv show "settles (buf_not_inv n) bn_net (\<lambda>s. F (v4_list (bn_input s))) s (buf_not_recv_vec4_pv p b base vwid s)"
    by (auto simp: buf_not_recv_vec4_pv_def buf_not_inv_def settles_def buf_not_trigger_def Let_def)
qed

interpretation buf_gate: deferred_functor "buf_not_inv n" bn_net "\<lambda>s. map bit4_z2x (v4_list (bn_input s))"
  "buf_not_accepts n" buf_not_recv fun_buf_run sent_vec4 for n
  by unfold_locales (blast intro: buf_not_recv_settles, simp add: fun_buf_run_def buf_not_inv_def v4_change_z2x)

interpretation not_gate: deferred_functor "buf_not_inv n" bn_net "\<lambda>s. map bit4_not (v4_list (bn_input s))"
  "buf_not_accepts n" buf_not_recv fun_not_run sent_vec4 for n
  by unfold_locales (blast intro: buf_not_recv_settles, simp add: fun_not_run_def buf_not_inv_def v4_not)

section \<open>The multiplexer selects\<close>

definition blend :: "vvp_bit4_t list \<Rightarrow> vvp_bit4_t list \<Rightarrow> vvp_bit4_t list" where
  "blend as bs = map2 (\<lambda>a b. if a = b then a else BIT4_X) as bs
     @ replicate (max (length as) (length bs) - min (length as) (length bs)) BIT4_X"

definition mux_out :: "vvp_fun_muxz \<Rightarrow> vvp_bit4_t list" where
  "mux_out s = (case mx_select s of SEL_PORT0 \<Rightarrow> v4_list (mx_a s) | SEL_PORT1 \<Rightarrow> v4_list (mx_b s)
     | SEL_BOTH \<Rightarrow> blend (v4_list (mx_a s)) (v4_list (mx_b s)))"

definition mux_inv :: "vvp_fun_muxz \<Rightarrow> bool" where
  "mux_inv s \<longleftrightarrow> v4_inv (mx_a s) \<and> v4_inv (mx_b s)"

definition mux_accepts :: "message \<Rightarrow> vvp_fun_muxz \<Rightarrow> bool" where
  "mux_accepts m s \<longleftrightarrow> fits (\<lambda>p w. (p = 2 \<longrightarrow> w = 1)) m
     \<and> (case m of VEC4_PV p b base vwid \<Rightarrow> (p = 0 \<longrightarrow> vwid = v4_size (mx_a s)) \<and> (p = 1 \<longrightarrow> vwid = v4_size (mx_b s))
                    \<and> (p = 2 \<longrightarrow> v4_size b = 1)
          | VEC8_PV p b base vwid \<Rightarrow> (p = 0 \<longrightarrow> vwid = v4_size (mx_a s)) \<and> (p = 1 \<longrightarrow> vwid = v4_size (mx_b s))
                    \<and> (p = 2 \<longrightarrow> v8_size b = 1)
          | _ \<Rightarrow> True)"

lemma muxz_blend_list:
  assumes "v4_inv a" and "v4_inv b"
  obtains r where "muxz_blend a b = Some r" and "v4_inv r" and "v4_list r = blend (v4_list a) (v4_list b)"
proof -
  let ?lo = "min (v4_size a) (v4_size b)" and ?hi = "max (v4_size a) (v4_size b)"
    and ?f = "\<lambda>i. if v4_value a i = v4_value b i then v4_value a i else BIT4_X"
  have le: "0 + ?lo \<le> v4_size (v4_fill ?hi BIT4_X)" by simp
  obtain u where u: "for_each (\<lambda>i v. v4_set_bit v (0 + i) (?f i)) [0..<?lo] (v4_fill ?hi BIT4_X) = Some u" "v4_inv u"
    "v4_size u = v4_size (v4_fill ?hi BIT4_X)"
    "\<And>j. j < v4_size (v4_fill ?hi BIT4_X) \<Longrightarrow> v4_value u j = (if 0 \<le> j \<and> j < 0 + ?lo then ?f (j - 0) else v4_value (v4_fill ?hi BIT4_X) j)"
    using v4.set_range [OF v4_fill_inv le, where f = ?f] by blast
  have le': "?lo + (?hi - ?lo) \<le> v4_size u" using u(3) by simp
  obtain r where r: "for_each (\<lambda>i v. v4_set_bit v (?lo + i) BIT4_X) [0..<?hi - ?lo] u = Some r" "v4_inv r" "v4_size r = v4_size u"
    "\<And>j. j < v4_size u \<Longrightarrow> v4_value r j = (if ?lo \<le> j \<and> j < ?lo + (?hi - ?lo) then BIT4_X else v4_value u j)"
    using v4.set_range [OF u(2) le', where f = "\<lambda>_. BIT4_X"] by blast
  have shift: "for_each (\<lambda>i v. v4_set_bit v i BIT4_X) [?lo..<?hi] u = Some r"
    using r(1) for_each_shift [of "\<lambda>i v. v4_set_bit v i BIT4_X" ?lo "?hi - ?lo" u] by simp
  have "v4_list r = blend (v4_list a) (v4_list b)"
    using r(3,4) u(3,4) by (intro v4_listI) (auto simp: blend_def nth_append)
  with that r(2) u(1) shift show thesis by (simp add: muxz_blend_def Let_def)
qed

lemma fun_muxz_ok: "mux_inv (fun_muxz n)" "\<not> mx_net (fun_muxz n)"
  by (simp_all add: mux_inv_def fun_muxz_def v4_fill_inv)

lemma muxz_trigger_settles:
  "mux_inv s' \<Longrightarrow> mx_net s' = mx_net s \<Longrightarrow> settles mux_inv mx_net out s (Some (muxz_trigger s'))"
  by (auto simp: settles_def muxz_trigger_def mux_inv_def)

lemma muxz_quiet_settles:
  "mux_inv s' \<Longrightarrow> mx_net s' = mx_net s \<Longrightarrow> mux_out s' = mux_out s \<Longrightarrow> settles mux_inv mx_net mux_out s (Some (s', []))"
  by (simp add: settles_def)

lemma muxz_recv_vec4_settles:
  assumes s: "mux_inv s" and b: "v4_inv b" "p = 2 \<longrightarrow> v4_size b = 1"
  shows "settles mux_inv mx_net mux_out s (muxz_recv_vec4 p b s)"
proof -
  consider "p = 0" | "p = 1" | (sel) "p = 2" | "2 < p" by linarith
  then show ?thesis
  proof cases
    case sel
    have "settles mux_inv mx_net mux_out s (Some (muxz_select x s))" for x
      using s by (cases x; simp add: muxz_select_def; auto intro!: muxz_quiet_settles muxz_trigger_settles simp: mux_inv_def)
    with sel b show ?thesis by (simp add: muxz_recv_vec4_def)
  qed (use s b in \<open>auto simp: muxz_recv_vec4_def Let_def mux_inv_def mux_out_def
      intro!: muxz_quiet_settles muxz_trigger_settles split: sel_type.splits\<close>)
qed

lemma muxz_recv_vec4_pv_settles:
  assumes s: "mux_inv s" and b: "v4_inv b" "base + v4_size b \<le> vwid" "base < vwid" "p = 2 \<longrightarrow> vwid = 1 \<and> v4_size b = 1"
    and fit: "p = 0 \<longrightarrow> vwid = v4_size (mx_a s)" "p = 1 \<longrightarrow> vwid = v4_size (mx_b s)"
  shows "settles mux_inv mx_net mux_out s (muxz_recv_vec4_pv p b base vwid s)"
proof -
  consider (a) "p = 0" | (b) "p = 1" | (sel) "p = 2" | (other) "2 < p" by linarith
  then show ?thesis
  proof cases
    case a
    obtain d r where r: "v4_set_vec (mx_a s) base b = Some (d, r)" "v4_inv r" "d \<longleftrightarrow> v4_list r \<noteq> v4_list (mx_a s)"
      using set_vec_changes [of "mx_a s" b base] s b fit(1) a unfolding mux_inv_def by auto
    have "mux_inv (s\<lparr>mx_a := r\<rparr>)" using s r(2) by (simp add: mux_inv_def)
    moreover have "mux_out (s\<lparr>mx_a := r\<rparr>) = mux_out s" if "\<not> d \<or> mx_select s = SEL_PORT1"
      using that r(3) by (auto simp: mux_out_def split: sel_type.splits)
    ultimately show ?thesis using a b(2) r(1)
      by (auto simp: muxz_recv_vec4_pv_def Let_def intro!: muxz_quiet_settles muxz_trigger_settles)
  next
    case b
    obtain d r where r: "v4_set_vec (mx_b s) base b = Some (d, r)" "v4_inv r" "d \<longleftrightarrow> v4_list r \<noteq> v4_list (mx_b s)"
      using set_vec_changes [of "mx_b s" b base] s assms(2-4) fit(2) b unfolding mux_inv_def by auto
    have "mux_inv (s\<lparr>mx_b := r\<rparr>)" using s r(2) by (simp add: mux_inv_def)
    moreover have "mux_out (s\<lparr>mx_b := r\<rparr>) = mux_out s" if "\<not> d \<or> mx_select s = SEL_PORT0"
      using that r(3) by (auto simp: mux_out_def split: sel_type.splits)
    ultimately show ?thesis using b assms(3) r(1)
      by (auto simp: muxz_recv_vec4_pv_def Let_def intro!: muxz_quiet_settles muxz_trigger_settles)
  next
    case sel
    with b have "base = 0" "v4_size b = 1" by simp_all
    with sel b show ?thesis
      using muxz_recv_vec4_settles [OF s b(1), of p] by (simp add: muxz_recv_vec4_pv_def)
  next
    case other
    with b s show ?thesis by (simp add: muxz_recv_vec4_pv_def muxz_quiet_settles)
  qed
qed

interpretation mux: deferred_functor mux_inv mx_net mux_out mux_accepts muxz_recv muxz_run sent_vec4
proof
  fix s m assume s: "mux_inv s" and m: "mux_accepts m s"
  show "settles mux_inv mx_net mux_out s (muxz_recv m s)"
  proof (cases m)
    case (VEC8 p b)
    with m have "v8_inv b" by (simp add: mux_accepts_def)
    from reduce4_size [OF this] obtain v where "reduce4 b = Some v" "v4_inv v" "v4_size v = v8_size b" by blast
    with VEC8 m show ?thesis
      using muxz_recv_vec4_settles [OF s, of v p] by (simp add: muxz_recv_def base_recv_vec8_def mux_accepts_def)
  next
    case (VEC8_PV p b base vwid)
    with m have "v8_inv b" by (simp add: mux_accepts_def)
    from reduce4_size [OF this] obtain v where "reduce4 b = Some v" "v4_inv v" "v4_size v = v8_size b" by blast
    with VEC8_PV m show ?thesis
      using muxz_recv_vec4_pv_settles [OF s, of v base vwid p] by (simp add: muxz_recv_def base_recv_vec8_pv_def mux_accepts_def)
  qed (use s m in \<open>simp_all add: muxz_recv_def mux_accepts_def muxz_recv_vec4_settles muxz_recv_vec4_pv_settles\<close>)
next
  fix s assume s: "mux_inv s"
  then obtain r where "muxz_blend (mx_a s) (mx_b s) = Some r" "v4_list r = blend (v4_list (mx_a s)) (v4_list (mx_b s))"
    using muxz_blend_list [of "mx_a s" "mx_b s"] by (auto simp: mux_inv_def)
  with s show "\<exists>s' acts. muxz_run s = Some (s', acts) \<and> mux_inv s' \<and> \<not> mx_net s' \<and> mux_out s' = mux_out s
      \<and> sent_vec4 acts = Some (mux_out s)"
    by (cases "mx_select s") (simp_all add: muxz_run_def Let_def mux_inv_def mux_out_def)
qed

section \<open>What the multiplexer holds is what it was sent\<close>

text \<open>
  The value a port has after a message, given the value before: a whole vector replaces it, a part
  replaces its bits, and strengths are dropped.  \<open>port_value\<close> is the value after a history of messages.
\<close>

fun written :: "message \<Rightarrow> nat \<Rightarrow> vvp_bit4_t list \<Rightarrow> vvp_bit4_t list" where
  "written (VEC4 p b) q l = (if p = q then v4_list b else l)"
| "written (VEC4_PV p b base vwid) q l = (if p = q then take base l @ v4_list b @ drop (base + v4_size b) l else l)"
| "written (VEC8 p b) q l = (if p = q then map scalar_value (v8_list b) else l)"
| "written (VEC8_PV p b base vwid) q l =
    (if p = q then take base l @ map scalar_value (v8_list b) @ drop (base + v8_size b) l else l)"

fun port_value :: "message op list \<Rightarrow> nat \<Rightarrow> vvp_bit4_t list \<Rightarrow> vvp_bit4_t list" where
  "port_value [] q l = l"
| "port_value (RECV m # ops) q l = port_value ops q (written m q l)"
| "port_value (RUN # ops) q l = port_value ops q l"

definition select_of :: "vvp_bit4_t \<Rightarrow> sel_type" where
  "select_of b = (case b of BIT4_0 \<Rightarrow> SEL_PORT0 | BIT4_1 \<Rightarrow> SEL_PORT1 | _ \<Rightarrow> SEL_BOTH)"

lemma port_value_snoc [simp]:
  "port_value (ops @ [RECV m]) q l = written m q (port_value ops q l)" "port_value (ops @ [RUN]) q l = port_value ops q l"
  by (induction ops q l rule: port_value.induct) simp_all

definition mux_holds :: "vvp_bit4_t list \<Rightarrow> vvp_bit4_t list \<Rightarrow> vvp_bit4_t list \<Rightarrow> vvp_fun_muxz \<Rightarrow> bool" where
  "mux_holds a b c s \<longleftrightarrow> v4_list (mx_a s) = a \<and> v4_list (mx_b s) = b \<and> length c = 1 \<and> mx_select s = select_of (hd c)"

lemma mux_holds_trigger [simp]: "mux_holds a b c (fst (muxz_trigger s)) = mux_holds a b c s"
  by (simp add: muxz_trigger_def mux_holds_def)

lemma muxz_select_holds: "mux_holds a b c s \<Longrightarrow> length c' = 1 \<Longrightarrow> x = hd c' \<Longrightarrow> mux_holds a b c' (fst (muxz_select x s))"
  by (cases x) (auto simp: muxz_select_def mux_holds_def select_of_def muxz_trigger_def)

lemma muxz_recv_vec4_holds:
  assumes "mux_holds a b c s" and "mux_inv s" and "v4_inv w" and "p = 2 \<longrightarrow> v4_size w = 1"
    and "muxz_recv_vec4 p w s = Some (s', acts)"
  shows "mux_holds (written (VEC4 p w) 0 a) (written (VEC4 p w) 1 b) (written (VEC4 p w) 2 c) s'"
proof -
  have eq: "v4_eeq (mx_a s) w \<longleftrightarrow> v4_list (mx_a s) = v4_list w" "v4_eeq (mx_b s) w \<longleftrightarrow> v4_list (mx_b s) = v4_list w"
    using assms(2,3) by (simp_all add: mux_inv_def v4_eeq_list)
  consider "p = 0" | "p = 1" | (sel) "p = 2" | "2 < p" by linarith
  then show ?thesis
  proof cases
    case sel
    then have "s' = fst (muxz_select (v4_value w 0) s)" "length (v4_list w) = 1" "v4_value w 0 = hd (v4_list w)"
      using assms(4,5) by (auto simp: muxz_recv_vec4_def v4_list_def)
    with sel muxz_select_holds [OF assms(1)] show ?thesis by simp
  qed (use assms(1,5) eq in \<open>auto simp: muxz_recv_vec4_def mux_holds_def muxz_trigger_def Let_def split: if_splits\<close>)
qed

lemma muxz_recv_vec4_pv_holds:
  assumes "mux_holds a b c s" and "mux_inv s" and "v4_inv w" and "base + v4_size w \<le> vwid" and "base < vwid"
    and "p = 2 \<longrightarrow> vwid = 1 \<and> v4_size w = 1" and "p = 0 \<longrightarrow> vwid = v4_size (mx_a s)" and "p = 1 \<longrightarrow> vwid = v4_size (mx_b s)"
    and "muxz_recv_vec4_pv p w base vwid s = Some (s', acts)"
  shows "mux_holds (written (VEC4_PV p w base vwid) 0 a) (written (VEC4_PV p w base vwid) 1 b) (written (VEC4_PV p w base vwid) 2 c) s'"
proof -
  consider (a) "p = 0" | (b) "p = 1" | (sel) "p = 2" | (other) "2 < p" by linarith
  then show ?thesis
  proof cases
    case a
    then have fit: "base + v4_size w \<le> v4_size (mx_a s)" "base < v4_size (mx_a s)" "v4_inv (mx_a s)"
      using assms by (simp_all add: mux_inv_def)
    obtain d r where "v4_set_vec (mx_a s) base w = Some (d, r)"
      "v4_list r = take base (v4_list (mx_a s)) @ v4_list w @ drop (base + v4_size w) (v4_list (mx_a s))"
      by (rule v4_set_vec_spec [OF fit(3) assms(3) fit(1,2)])
    with a assms(1,4,9) show ?thesis
      by (auto simp: muxz_recv_vec4_pv_def mux_holds_def muxz_trigger_def Let_def split: if_splits)
  next
    case b
    then have fit: "base + v4_size w \<le> v4_size (mx_b s)" "base < v4_size (mx_b s)" "v4_inv (mx_b s)"
      using assms by (simp_all add: mux_inv_def)
    obtain d r where "v4_set_vec (mx_b s) base w = Some (d, r)"
      "v4_list r = take base (v4_list (mx_b s)) @ v4_list w @ drop (base + v4_size w) (v4_list (mx_b s))"
      by (rule v4_set_vec_spec [OF fit(3) assms(3) fit(1,2)])
    with b assms(1,4,9) show ?thesis
      by (auto simp: muxz_recv_vec4_pv_def mux_holds_def muxz_trigger_def Let_def split: if_splits)
  next
    case sel
    with assms have m: "base = 0" "v4_size w = 1" "muxz_recv_vec4 p w s = Some (s', acts)"
      by (auto simp: muxz_recv_vec4_pv_def)
    have "length c = 1" using assms(1) by (simp add: mux_holds_def)
    with muxz_recv_vec4_holds [OF assms(1-3) _ m(3)] m(1,2) sel show ?thesis by simp
  next
    case other
    with assms show ?thesis by (simp add: muxz_recv_vec4_pv_def mux_holds_def)
  qed
qed

lemma muxz_recv_holds:
  assumes h: "mux_holds a b c s" and s: "mux_inv s" and m: "mux_accepts m s" and r: "muxz_recv m s = Some (s', acts)"
  shows "mux_holds (written m 0 a) (written m 1 b) (written m 2 c) s'"
proof (cases m)
  case (VEC4 p w)
  with muxz_recv_vec4_holds [OF h s, of w p s' acts] m r show ?thesis by (simp add: muxz_recv_def mux_accepts_def)
next
  case (VEC4_PV p w base vwid)
  with muxz_recv_vec4_pv_holds [OF h s, of w base vwid p s' acts] m r show ?thesis by (simp add: muxz_recv_def mux_accepts_def)
next
  case (VEC8 p w)
  with m have "v8_inv w" by (simp add: mux_accepts_def)
  from reduce4_size [OF this] obtain v where v: "reduce4 w = Some v" "v4_inv v" "v4_size v = v8_size w"
    "v4_list v = map scalar_value (v8_list w)" by blast
  with muxz_recv_vec4_holds [OF h s, of v p s' acts] VEC8 m r show ?thesis
    by (auto simp: muxz_recv_def base_recv_vec8_def mux_accepts_def split: if_splits)
next
  case (VEC8_PV p w base vwid)
  with m have "v8_inv w" by (simp add: mux_accepts_def)
  from reduce4_size [OF this] obtain v where v: "reduce4 w = Some v" "v4_inv v" "v4_size v = v8_size w"
    "v4_list v = map scalar_value (v8_list w)" by blast
  with muxz_recv_vec4_pv_holds [OF h s, of v base vwid p s' acts] VEC8_PV m r show ?thesis
    by (auto simp: muxz_recv_def base_recv_vec8_pv_def mux_accepts_def split: if_splits)
qed

lemma mux_history_holds:
  assumes "mux.history (fun_muxz n) ops s k sent"
  shows "mux_holds (port_value ops 0 (replicate n BIT4_Z)) (port_value ops 1 (replicate n BIT4_Z)) (port_value ops 2 [BIT4_X]) s"
  using assms
proof (induction rule: mux.history.induct)
  case start
  then show ?case by (simp add: mux_holds_def fun_muxz_def v4_fill_list select_of_def)
next
  case (message ops s k sent m s' acts)
  have "mux_inv s" using mux.history_settled [OF message.hyps(1) fun_muxz_ok] by blast
  with muxz_recv_holds [OF message.IH _ message.hyps(2,3)] show ?case by simp
next
  case (event ops s k sent s' acts)
  then have "mx_a s' = mx_a s" "mx_b s' = mx_b s" "mx_select s' = mx_select s"
    by (auto simp: muxz_run_def Let_def split: sel_type.splits)
  with event.IH show ?case by (simp add: mux_holds_def)
qed

end
