(* ===== verification/Wiring.thy ===== *)
theory Wiring
  imports Logic Vector4_Value
begin

text \<open>
  The functors that rearrange bits: concatenation and repetition (\<^verbatim>\<open>src/vvp/concat.cc\<close>) and part selects
  (\<^verbatim>\<open>src/vvp/part.cc\<close>), with their statically and automatically allocated variants.
\<close>

section \<open>Concatenation\<close>

record vvp_fun_concat =
  cc_wid :: "nat list"
  cc_val :: vvp_vector4_t
  cc_net :: bool

definition fun_concat :: "nat \<Rightarrow> nat \<Rightarrow> nat \<Rightarrow> nat \<Rightarrow> vvp_fun_concat" where
  "fun_concat w0 w1 w2 w3 = \<lparr>cc_wid = [w0, w1, w2, w3], cc_val = v4_fill (w0 + w1 + w2 + w3) BIT4_Z, cc_net = False\<rparr>"

definition concat_recv_vec4_pv :: "nat \<Rightarrow> vvp_vector4_t \<Rightarrow> nat \<Rightarrow> nat \<Rightarrow> vvp_fun_concat \<Rightarrow> vvp_fun_concat reply" where
  "concat_recv_vec4_pv pdx b base vwid s =
    (if pdx < length (cc_wid s) \<and> vwid = cc_wid s ! pdx then
       let off = foldl (\<lambda>off idx. off + cc_wid s ! idx) base [0..<pdx] in
       Option.bind (v4_set_vec (cc_val s) off b) (\<lambda>(flag, v).
         let s = s\<lparr>cc_val := v\<rparr> in
         if \<not> flag then Some (s, [])
         else if cc_net s then Some (s, [])
         else Some (s\<lparr>cc_net := True\<rparr>, [SCHEDULE_FUNCTOR]))
     else None)"

definition concat_recv_vec4 :: "nat \<Rightarrow> vvp_vector4_t \<Rightarrow> vvp_fun_concat \<Rightarrow> vvp_fun_concat reply" where
  "concat_recv_vec4 p b s = concat_recv_vec4_pv p b 0 (v4_size b) s"

definition concat_recv :: "message \<Rightarrow> vvp_fun_concat \<Rightarrow> vvp_fun_concat reply" where
  "concat_recv = net_fun_recv concat_recv_vec4 concat_recv_vec4_pv"

definition concat_run :: "vvp_fun_concat \<Rightarrow> vvp_fun_concat reply" where
  "concat_run s = Some (s\<lparr>cc_net := False\<rparr>, [SEND_VEC4 (cc_val s)])"

text \<open>The strength-aware concatenation schedules itself for every message.\<close>

record vvp_fun_concat8 =
  c8_wid :: "nat list"
  c8_val :: vvp_vector8_t
  c8_net :: bool

definition fun_concat8 :: "nat \<Rightarrow> nat \<Rightarrow> nat \<Rightarrow> nat \<Rightarrow> vvp_fun_concat8" where
  "fun_concat8 w0 w1 w2 w3 = \<lparr>c8_wid = [w0, w1, w2, w3], c8_val = v8_make (w0 + w1 + w2 + w3), c8_net = False\<rparr>"

definition concat8_recv_vec8_pv :: "nat \<Rightarrow> vvp_vector8_t \<Rightarrow> nat \<Rightarrow> nat \<Rightarrow> vvp_fun_concat8 \<Rightarrow> vvp_fun_concat8 reply" where
  "concat8_recv_vec8_pv pdx b base vwid s =
    (if pdx < length (c8_wid s) \<and> vwid = c8_wid s ! pdx then
       let off = foldl (\<lambda>off idx. off + c8_wid s ! idx) base [0..<pdx] in
       Option.bind (v8_set_vec (c8_val s) off b) (\<lambda>v.
         let s = s\<lparr>c8_val := v\<rparr> in
         if c8_net s then Some (s, []) else Some (s\<lparr>c8_net := True\<rparr>, [SCHEDULE_FUNCTOR]))
     else None)"

definition concat8_recv_vec8 :: "nat \<Rightarrow> vvp_vector8_t \<Rightarrow> vvp_fun_concat8 \<Rightarrow> vvp_fun_concat8 reply" where
  "concat8_recv_vec8 p b s = concat8_recv_vec8_pv p b 0 (v8_size b) s"

definition concat8_recv_vec4 :: "nat \<Rightarrow> vvp_vector4_t \<Rightarrow> vvp_fun_concat8 \<Rightarrow> vvp_fun_concat8 reply" where
  "concat8_recv_vec4 p b s = Option.bind (v8_of_vector4 b 6 6) (\<lambda>b8. concat8_recv_vec8_pv p b8 0 (v8_size b8) s)"

definition concat8_recv_vec4_pv :: "nat \<Rightarrow> vvp_vector4_t \<Rightarrow> nat \<Rightarrow> nat \<Rightarrow> vvp_fun_concat8 \<Rightarrow> vvp_fun_concat8 reply" where
  "concat8_recv_vec4_pv p b base vwid s = Option.bind (v8_of_vector4 b 6 6) (\<lambda>b8. concat8_recv_vec8_pv p b8 base vwid s)"

fun concat8_recv :: "message \<Rightarrow> vvp_fun_concat8 \<Rightarrow> vvp_fun_concat8 reply" where
  "concat8_recv (VEC4 p b) s = concat8_recv_vec4 p b s"
| "concat8_recv (VEC4_PV p b base vwid) s = concat8_recv_vec4_pv p b base vwid s"
| "concat8_recv (VEC8 p b) s = concat8_recv_vec8 p b s"
| "concat8_recv (VEC8_PV p b base vwid) s = concat8_recv_vec8_pv p b base vwid s"

definition concat8_run :: "vvp_fun_concat8 \<Rightarrow> vvp_fun_concat8 reply" where
  "concat8_run s = Some (s\<lparr>c8_net := False\<rparr>, [SEND_VEC8 (c8_val s)])"

section \<open>Repetition\<close>

definition repeat_recv_vec4 :: "nat \<Rightarrow> nat \<Rightarrow> nat \<Rightarrow> vvp_vector4_t \<Rightarrow> unit \<Rightarrow> unit reply" where
  "repeat_recv_vec4 n rep p b s =
    (if rep \<noteq> 0 \<and> v4_size b = n div rep then
       map_option (\<lambda>val. (s, [SEND_VEC4 val]))
         (for_each (\<lambda>rdx val. map_option snd (v4_set_vec val (rdx * v4_size b) b)) [0..<rep] (v4_fill n BIT4_X))
     else None)"

definition repeat_recv :: "nat \<Rightarrow> nat \<Rightarrow> message \<Rightarrow> unit \<Rightarrow> unit reply" where
  "repeat_recv n rep = net_fun_recv (repeat_recv_vec4 n rep) (base_recv_vec4_pv (repeat_recv_vec4 n rep))"

section \<open>Fixed part selects\<close>

text \<open>The statically allocated part select runs later.\<close>

record vvp_fun_part_sa =
  pt_base :: nat
  pt_wid :: nat
  pt_val :: vvp_vector4_t
  pt_net :: bool

definition fun_part_sa :: "nat \<Rightarrow> nat \<Rightarrow> vvp_fun_part_sa" where
  "fun_part_sa base n = \<lparr>pt_base = base, pt_wid = n, pt_val = v4_fill 0 BIT4_X, pt_net = False\<rparr>"

definition part_sa_recv_vec4 :: "nat \<Rightarrow> vvp_vector4_t \<Rightarrow> vvp_fun_part_sa \<Rightarrow> vvp_fun_part_sa reply" where
  "part_sa_recv_vec4 p b s =
    (if p = 0 then Option.bind (v4_subvalue b (pt_base s) (pt_wid s)) (\<lambda>tmp.
       if v4_eeq (pt_val s) tmp then Some (s, [])
       else let s = s\<lparr>pt_val := tmp\<rparr> in
         if pt_net s then Some (s, []) else Some (s\<lparr>pt_net := True\<rparr>, [SCHEDULE_FUNCTOR]))
     else None)"

definition part_sa_recv_vec4_pv :: "nat \<Rightarrow> vvp_vector4_t \<Rightarrow> nat \<Rightarrow> nat \<Rightarrow> vvp_fun_part_sa \<Rightarrow> vvp_fun_part_sa reply" where
  "part_sa_recv_vec4_pv p b base vwid s =
    Option.bind (v4_set_vec (v4_fill vwid BIT4_Z) (pt_base s) (pt_val s)) (\<lambda>(_, tmp).
    Option.bind (v4_set_vec tmp base b) (\<lambda>(_, tmp). part_sa_recv_vec4 p tmp s))"

definition part_sa_recv :: "message \<Rightarrow> vvp_fun_part_sa \<Rightarrow> vvp_fun_part_sa reply" where
  "part_sa_recv = net_fun_recv part_sa_recv_vec4 part_sa_recv_vec4_pv"

definition part_sa_run :: "vvp_fun_part_sa \<Rightarrow> vvp_fun_part_sa reply" where
  "part_sa_run s = Some (s\<lparr>pt_net := False\<rparr>, [SEND_VEC4 (pt_val s)])"

text \<open>
  The automatically allocated part select keeps a value for each live context of its scope, here a list
  of values in the order of the contexts, and sends at once, in the context.  \<open>None\<close> as the context of a message stands
  for the null context, which means all of them.
\<close>

definition part_aa_step :: "nat \<Rightarrow> nat \<Rightarrow> vvp_vector4_t \<Rightarrow> vvp_vector4_t \<Rightarrow> vvp_vector4_t reply" where
  "part_aa_step base n b val =
    map_option (\<lambda>tmp. if v4_eeq val tmp then (val, []) else (tmp, [SEND_VEC4 tmp]))
      (for_each (\<lambda>idx tmp. if idx + base < v4_size b then v4_set_bit tmp idx (v4_value b (base + idx)) else Some tmp)
        [0..<n] (v4_fill n BIT4_X))"

definition part_aa_step_pv :: "nat \<Rightarrow> nat \<Rightarrow> vvp_vector4_t \<Rightarrow> nat \<Rightarrow> nat \<Rightarrow> vvp_vector4_t \<Rightarrow> vvp_vector4_t reply" where
  "part_aa_step_pv pbase n b base vwid val =
    Option.bind (v4_set_vec (v4_fill vwid BIT4_Z) pbase val) (\<lambda>(_, tmp).
    Option.bind (v4_set_vec tmp base b) (\<lambda>(_, tmp). part_aa_step pbase n tmp val))"

definition in_context :: "('s \<Rightarrow> 's reply) \<Rightarrow> nat option \<Rightarrow> 's list \<Rightarrow> ('s list \<times> (nat \<times> action) list) option" where
  "in_context step context vals = for_each (\<lambda>c (vals, acts).
       if c < length vals then map_option (\<lambda>(val, as). (vals[c := val], acts @ map (Pair c) as)) (step (vals ! c)) else None)
     (case context of Some c \<Rightarrow> [c] | None \<Rightarrow> [0..<length vals]) (vals, [])"

definition part_aa_recv_vec4 :: "nat \<Rightarrow> nat \<Rightarrow> nat \<Rightarrow> vvp_vector4_t \<Rightarrow> nat option \<Rightarrow> vvp_vector4_t list
    \<Rightarrow> (vvp_vector4_t list \<times> (nat \<times> action) list) option" where
  "part_aa_recv_vec4 base n p b context vals =
    (if p \<noteq> 0 \<and> (context \<noteq> None \<or> vals \<noteq> []) then None else in_context (part_aa_step base n b) context vals)"

definition part_aa_recv_vec4_pv :: "nat \<Rightarrow> nat \<Rightarrow> nat \<Rightarrow> vvp_vector4_t \<Rightarrow> nat \<Rightarrow> nat \<Rightarrow> nat option \<Rightarrow> vvp_vector4_t list
    \<Rightarrow> (vvp_vector4_t list \<times> (nat \<times> action) list) option" where
  "part_aa_recv_vec4_pv pbase n p b base vwid context vals =
    (if p \<noteq> 0 \<and> (context \<noteq> None \<or> vals \<noteq> []) then None else in_context (part_aa_step_pv pbase n b base vwid) context vals)"

text \<open>A new context starts with an empty vector; a reused one keeps its width and is set to x.\<close>

definition part_aa_alloc_instance :: vvp_vector4_t where
  "part_aa_alloc_instance = v4_fill 0 BIT4_X"

definition part_aa_reset_instance :: "vvp_vector4_t \<Rightarrow> vvp_vector4_t" where
  "part_aa_reset_instance val = v4_fill_bits val BIT4_X"

text \<open>The part of a wider net: the value is passed on with its place.\<close>

definition part_pv_recv_vec4 :: "nat \<Rightarrow> nat \<Rightarrow> nat \<Rightarrow> nat \<Rightarrow> vvp_vector4_t \<Rightarrow> unit \<Rightarrow> unit reply" where
  "part_pv_recv_vec4 base n vwid p b s = (if p = 0 \<and> v4_size b = n then Some (s, [SEND_VEC4_PV b base vwid]) else None)"

definition part_pv_recv_vec4_pv :: "nat \<Rightarrow> nat \<Rightarrow> nat \<Rightarrow> nat \<Rightarrow> vvp_vector4_t \<Rightarrow> nat \<Rightarrow> nat \<Rightarrow> unit \<Rightarrow> unit reply" where
  "part_pv_recv_vec4_pv base n vwid p b bbase bvwid s =
    (if p = 0 \<and> bbase + v4_size b \<le> bvwid \<and> bvwid = n
     then map_option (\<lambda>tmp. (s, [SEND_VEC4_PV tmp base vwid])) (widen_part b bbase n) else None)"

definition part_pv_recv_vec8 :: "nat \<Rightarrow> nat \<Rightarrow> nat \<Rightarrow> nat \<Rightarrow> vvp_vector8_t \<Rightarrow> unit \<Rightarrow> unit reply" where
  "part_pv_recv_vec8 base n vwid p b s = (if p = 0 \<and> v8_size b = n then Some (s, [SEND_VEC8_PV b base vwid]) else None)"

section \<open>Part selects with a variable base\<close>

text \<open>
  The base is a 32 bit integer; \<^verbatim>\<open>INT32_MIN\<close> stands for an unknown one.  \<^verbatim>\<open>int adr = base+idx\<close> adds in
  unsigned and converts back, so it wraps around.
\<close>

record part_var_state =
  pv_base :: "32 word"
  pv_source :: vvp_vector4_t
  pv_ref :: vvp_vector4_t

definition INT32_MIN :: "32 word" where
  "INT32_MIN = 0x80000000"

definition fun_part_var_sa :: part_var_state where
  "fun_part_var_sa = \<lparr>pv_base = 0, pv_source = v4_fill 0 BIT4_X, pv_ref = v4_fill 0 BIT4_X\<rparr>"

definition part_var_base :: "bool \<Rightarrow> vvp_vector4_t \<Rightarrow> 32 word" where
  "part_var_base is_signed b = (case vector4_to_value b is_signed True of
       (True, Some tmp) \<Rightarrow> if \<not> is_signed \<and> sint tmp < 0 then INT32_MIN else tmp
     | _ \<Rightarrow> INT32_MIN)"

fun part_var_loop :: "32 word \<Rightarrow> vvp_vector4_t \<Rightarrow> nat list \<Rightarrow> vvp_vector4_t \<Rightarrow> vvp_vector4_t option" where
  "part_var_loop base src [] res = Some res"
| "part_var_loop base src (idx # is) res =
    (let adr = base + word_of_nat idx in
     if sint adr < 0 then part_var_loop base src is res
     else if v4_size src \<le> unat adr then Some res
     else Option.bind (v4_set_bit res idx (v4_value src (unat adr))) (part_var_loop base src is))"

definition part_var_update :: "nat \<Rightarrow> part_var_state \<Rightarrow> (bool \<times> part_var_state) option" where
  "part_var_update n s = map_option (\<lambda>res. if v4_eeq (pv_ref s) res then (False, s) else (True, s\<lparr>pv_ref := res\<rparr>))
     (part_var_loop (pv_base s) (pv_source s) [0..<n] (v4_fill n BIT4_X))"

definition part_var_receive :: "nat \<Rightarrow> bool \<Rightarrow> nat \<Rightarrow> vvp_vector4_t \<Rightarrow> part_var_state \<Rightarrow> (bool \<times> part_var_state) option" where
  "part_var_receive n is_signed p b s =
    (if p = 0 then part_var_update n (s\<lparr>pv_source := b\<rparr>)
     else if p = 1 then
       let tmp = part_var_base is_signed b in
       if tmp = pv_base s then Some (False, s) else part_var_update n (s\<lparr>pv_base := tmp\<rparr>)
     else None)"

definition part_var_step :: "nat \<Rightarrow> bool \<Rightarrow> nat \<Rightarrow> vvp_vector4_t \<Rightarrow> part_var_state \<Rightarrow> part_var_state reply" where
  "part_var_step n is_signed p b s =
    map_option (\<lambda>(changed, s). (s, if changed then [SEND_VEC4 (pv_ref s)] else [])) (part_var_receive n is_signed p b s)"

definition part_var_step_pv :: "nat \<Rightarrow> bool \<Rightarrow> nat \<Rightarrow> vvp_vector4_t \<Rightarrow> nat \<Rightarrow> nat \<Rightarrow> part_var_state \<Rightarrow> part_var_state reply" where
  "part_var_step_pv n is_signed p b base vwid s =
    (let tmp = (if v4_size (pv_source s) = 0 then v4_fill vwid BIT4_X else pv_source s) in
     if v4_size tmp = vwid
     then Option.bind (v4_set_vec tmp base b) (\<lambda>(_, tmp). part_var_step n is_signed p tmp s)
     else None)"

text \<open>
  The automatically allocated variant does the same in each context.  Its \<^verbatim>\<open>recv_vec4_pv\<close> with the null
  context calls \<^verbatim>\<open>recv_vec4\<close> with the part alone.
\<close>

definition part_var_aa_recv_vec4 :: "nat \<Rightarrow> bool \<Rightarrow> nat \<Rightarrow> vvp_vector4_t \<Rightarrow> nat option \<Rightarrow> part_var_state list
    \<Rightarrow> (part_var_state list \<times> (nat \<times> action) list) option" where
  "part_var_aa_recv_vec4 n is_signed p b = in_context (part_var_step n is_signed p b)"

definition part_var_aa_recv_vec4_pv :: "nat \<Rightarrow> bool \<Rightarrow> nat \<Rightarrow> vvp_vector4_t \<Rightarrow> nat \<Rightarrow> nat \<Rightarrow> nat option \<Rightarrow> part_var_state list
    \<Rightarrow> (part_var_state list \<times> (nat \<times> action) list) option" where
  "part_var_aa_recv_vec4_pv n is_signed p b base vwid context vals = (case context of
       Some c \<Rightarrow> in_context (part_var_step_pv n is_signed p b base vwid) (Some c) vals
     | None \<Rightarrow> in_context (part_var_step n is_signed p b) None vals)"

definition part_var_aa_alloc_instance :: part_var_state where
  "part_var_aa_alloc_instance = fun_part_var_sa"

definition part_var_aa_reset_instance :: "part_var_state \<Rightarrow> part_var_state" where
  "part_var_aa_reset_instance s =
    s\<lparr>pv_base := 0, pv_source := v4_fill_bits (pv_source s) BIT4_X, pv_ref := v4_fill_bits (pv_ref s) BIT4_X\<rparr>"

section \<open>Concatenation puts every input in its place\<close>

abbreviation offset :: "nat list \<Rightarrow> nat \<Rightarrow> nat" where
  "offset ws p \<equiv> sum_list (take p ws)"

definition slot :: "nat list \<Rightarrow> nat \<Rightarrow> 'b list \<Rightarrow> 'b list" where
  "slot ws p l = take (ws ! p) (drop (offset ws p) l)"

lemma offset_fold: "p \<le> length ws \<Longrightarrow> foldl (\<lambda>off idx. off + ws ! idx) base [0..<p] = base + offset ws p"
  by (induction p) (simp_all add: take_Suc_conv_app_nth)

lemma offset_Suc: "p < length ws \<Longrightarrow> offset ws (Suc p) = offset ws p + ws ! p"
  by (simp add: take_Suc_conv_app_nth)

lemma offset_mono: "p \<le> q \<Longrightarrow> offset ws p \<le> offset ws q"
  by (metis le_iff_add take_add sum_list_append)

lemma offset_le: "offset ws p \<le> sum_list ws"
  by (metis append_take_drop_id le_add1 sum_list_append)

lemma offset_end: "p < length ws \<Longrightarrow> offset ws p + ws ! p \<le> sum_list ws"
  using offset_Suc offset_le by metis

text \<open>Writing the slot of one port and reading the slots.\<close>

lemma slot_write:
  assumes len: "length l = sum_list ws" and p: "p < length ws" and q: "q < length ws" and b: "length b = ws ! p"
  shows "slot ws q (take (offset ws p) l @ b @ drop (offset ws p + ws ! p) l) = (if q = p then b else slot ws q l)"
proof -
  note e = offset_end [OF p] offset_end [OF q]
  consider "q = p" | "Suc q \<le> p" | "Suc p \<le> q" by linarith
  then show ?thesis
  proof cases
    case 2
    then have "offset ws q + ws ! q \<le> offset ws p" using offset_mono [OF 2, of ws] offset_Suc [OF q] by simp
    with 2 e len show ?thesis by (auto simp: slot_def nth_append intro!: nth_equalityI)
  next
    case 3
    then have "offset ws p + ws ! p \<le> offset ws q" using offset_mono [OF 3, of ws] offset_Suc [OF p] by simp
    with 3 e len b show ?thesis by (auto simp: slot_def nth_append intro!: nth_equalityI)
  qed (use e len b in \<open>simp add: slot_def\<close>)
qed

lemma concat_slots: "length l = sum_list ws \<Longrightarrow> concat (map (\<lambda>p. slot ws p l) [0..<length ws]) = l"
proof -
  have "concat (map (\<lambda>p. slot ws p l) [0..<k]) = take (offset ws k) l" if "k \<le> length ws" for k
    using that
    by (induction k) (simp_all add: slot_def offset_Suc take_add del: sum_list.Cons)
  then show "length l = sum_list ws \<Longrightarrow> ?thesis" by simp
qed

definition concat_inv :: "nat list \<Rightarrow> vvp_fun_concat \<Rightarrow> bool" where
  "concat_inv ws s \<longleftrightarrow> cc_wid s = ws \<and> v4_inv (cc_val s) \<and> v4_size (cc_val s) = sum_list ws"

abbreviation concat_accepts :: "nat list \<Rightarrow> message \<Rightarrow> vvp_fun_concat \<Rightarrow> bool" where
  "concat_accepts ws m s \<equiv> fits (\<lambda>p w. p < length ws \<and> w = ws ! p \<and> 0 < w) m"

lemma concat_recv_vec4_pv_settles:
  assumes s: "concat_inv ws s" and b: "v4_inv b" "p < length ws" "vwid = ws ! p" "base + v4_size b \<le> vwid" "base < vwid"
  shows "settles (concat_inv ws) cc_net (\<lambda>s. v4_list (cc_val s)) s (concat_recv_vec4_pv p b base vwid s)"
proof -
  have "base + offset ws p + v4_size b \<le> v4_size (cc_val s)" "base + offset ws p < v4_size (cc_val s)"
    using s b offset_end [OF b(2)] by (simp_all add: concat_inv_def)
  moreover have "v4_inv (cc_val s)" using s by (simp add: concat_inv_def)
  ultimately obtain d r where "v4_set_vec (cc_val s) (base + offset ws p) b = Some (d, r)" "v4_inv r" "v4_size r = v4_size (cc_val s)"
    "d \<longleftrightarrow> v4_list r \<noteq> v4_list (cc_val s)" using set_vec_changes [OF _ b(1)] by blast
  with s b show ?thesis
    by (auto simp: concat_recv_vec4_pv_def concat_inv_def offset_fold settles_def Let_def)
qed

interpretation concat_gate: deferred_functor "concat_inv ws" cc_net "\<lambda>s. v4_list (cc_val s)"
  "concat_accepts ws" concat_recv concat_run sent_vec4 for ws
proof
  fix s m assume s: "concat_inv ws s" and m: "concat_accepts ws m s"
  show "settles (concat_inv ws) cc_net (\<lambda>s. v4_list (cc_val s)) s (concat_recv m s)"
    unfolding concat_recv_def using m
    by (rule net_fun_recv_cases) (auto simp: concat_recv_vec4_def intro!: concat_recv_vec4_pv_settles [OF s])
qed (simp add: concat_run_def concat_inv_def)

text \<open>A whole input replaces its slot and leaves the others.\<close>

lemma concat_recv_slot:
  assumes s: "concat_inv ws s" and b: "v4_inv b" "p < length ws" "v4_size b = ws ! p" "0 < ws ! p"
  obtains s' acts where "concat_recv (VEC4 p b) s = Some (s', acts)" and "concat_inv ws s'"
    and "\<And>q. q < length ws \<Longrightarrow> slot ws q (v4_list (cc_val s')) = (if q = p then v4_list b else slot ws q (v4_list (cc_val s)))"
proof -
  have fit: "offset ws p + v4_size b \<le> v4_size (cc_val s)" "offset ws p < v4_size (cc_val s)" and v: "v4_inv (cc_val s)"
    using s b offset_end [OF b(2)] by (simp_all add: concat_inv_def)
  obtain d r where r: "v4_set_vec (cc_val s) (offset ws p) b = Some (d, r)" "v4_inv r" "v4_size r = v4_size (cc_val s)"
    "v4_list r = take (offset ws p) (v4_list (cc_val s)) @ v4_list b @ drop (offset ws p + v4_size b) (v4_list (cc_val s))"
    by (rule v4_set_vec_spec [OF v b(1) fit])
  have slots: "slot ws q (v4_list r) = (if q = p then v4_list b else slot ws q (v4_list (cc_val s)))" if "q < length ws" for q
    using slot_write [OF _ b(2) that, of "v4_list (cc_val s)" "v4_list b"] s b(3) r(4) by (simp add: concat_inv_def)
  obtain s' acts where s': "concat_recv (VEC4 p b) s = Some (s', acts)" "cc_val s' = r" "cc_wid s' = ws"
    using s b r(1) by (cases d; cases "cc_net s")
      (simp_all add: concat_recv_def concat_recv_vec4_def concat_recv_vec4_pv_def concat_inv_def offset_fold Let_def)
  show thesis
    by (rule that [OF s'(1)]) (use s' r slots s in \<open>simp_all add: concat_inv_def\<close>)
qed

definition concat8_inv :: "nat list \<Rightarrow> vvp_fun_concat8 \<Rightarrow> bool" where
  "concat8_inv ws s \<longleftrightarrow> c8_wid s = ws \<and> v8_inv (c8_val s) \<and> v8_size (c8_val s) = sum_list ws"

abbreviation concat8_accepts :: "nat list \<Rightarrow> message \<Rightarrow> vvp_fun_concat8 \<Rightarrow> bool" where
  "concat8_accepts ws m s \<equiv> fits (\<lambda>p w. p < length ws \<and> w = ws ! p \<and> 0 < w) m"

lemma concat8_recv_vec8_pv_settles:
  assumes s: "concat8_inv ws s" and b: "v8_inv b" "p < length ws" "vwid = ws ! p" "base + v8_size b \<le> vwid"
  shows "settles (concat8_inv ws) c8_net (\<lambda>s. v8_list (c8_val s)) s (concat8_recv_vec8_pv p b base vwid s)"
proof -
  have fit: "base + offset ws p + v8_size b \<le> v8_size (c8_val s)" and v: "v8_inv (c8_val s)"
    using s b offset_end [OF b(2)] by (simp_all add: concat8_inv_def)
  obtain r where r: "v8_set_vec (c8_val s) (base + offset ws p) b = Some r" "v8_inv r"
    "v8_list r = take (base + offset ws p) (v8_list (c8_val s)) @ v8_list b @ drop (base + offset ws p + v8_size b) (v8_list (c8_val s))"
    by (rule v8_set_vec_list [OF v b(1) fit])
  have "v8_size r = v8_size (c8_val s)"
    using arg_cong [OF r(3), of length] fit v b(1) r(2) by simp
  with s b r show ?thesis
    by (auto simp: concat8_recv_vec8_pv_def concat8_inv_def offset_fold settles_def Let_def)
qed

lemma strong_vector8:
  assumes "v4_inv b"
  obtains r where "v8_of_vector4 b 6 6 = Some r" and "v8_inv r" and "v8_size r = v4_size b"
    and "v8_list r = map (\<lambda>x. the (scalar_of x 6 6)) (v4_list b)"
proof -
  have some: "scalar_of x 6 6 = Some (the (scalar_of x 6 6))" for x
    by (rule scalar_of_reads [of 6 6 x]) simp_all
  obtain r where r: "v8_of_bits (v4_value b) (v4_size b) 6 6 = Some r" "v8_inv r"
    "v8_list r = map (\<lambda>i. the (scalar_of (v4_value b i) 6 6)) [0..<v4_size b]"
    by (rule v8_of_bits_spec [of "v4_size b" "v4_value b" 6 6 "\<lambda>i. the (scalar_of (v4_value b i) 6 6)", OF some])
  have "v8_size r = v4_size b" using arg_cong [OF r(3), of length] r(2) by simp
  with r that show thesis by (simp add: v8_of_vector4_def v4_list_def)
qed

interpretation concat8_gate: deferred_functor "concat8_inv ws" c8_net "\<lambda>s. v8_list (c8_val s)"
  "concat8_accepts ws" concat8_recv concat8_run sent_vec8 for ws
proof
  fix s m assume s: "concat8_inv ws s" and m: "concat8_accepts ws m s"
  note step = concat8_recv_vec8_pv_settles [OF s]
  show "settles (concat8_inv ws) c8_net (\<lambda>s. v8_list (c8_val s)) s (concat8_recv m s)"
  proof (cases m)
    case (VEC4 p b)
    with m have "v4_inv b" by simp
    from strong_vector8 [OF this] obtain r where "v8_of_vector4 b 6 6 = Some r" "v8_inv r" "v8_size r = v4_size b" by blast
    with VEC4 m step [of r p "ws ! p" 0] show ?thesis by (simp add: concat8_recv_vec4_def)
  next
    case (VEC4_PV p b base vwid)
    with m have "v4_inv b" by simp
    from strong_vector8 [OF this] obtain r where "v8_of_vector4 b 6 6 = Some r" "v8_inv r" "v8_size r = v4_size b" by blast
    with VEC4_PV m step [of r p vwid base] show ?thesis by (simp add: concat8_recv_vec4_pv_def)
  next
    case (VEC8 p b)
    with m step [of b p "ws ! p" 0] show ?thesis by (simp add: concat8_recv_vec8_def)
  next
    case (VEC8_PV p b base vwid)
    with m step [of b p vwid base] show ?thesis by simp
  qed
qed (simp add: concat8_run_def concat8_inv_def)

section \<open>Repetition\<close>

lemma repeat_recv_list:
  assumes b: "v4_inv b" and n: "n = rep * v4_size b" "0 < n"
  shows "\<exists>v. repeat_recv_vec4 n rep p b s = Some (s, [SEND_VEC4 v]) \<and> v4_inv v \<and> v4_list v = concat (replicate rep (v4_list b))"
proof -
  let ?m = "v4_size b"
  have pos: "0 < rep" "0 < ?m" using n by auto
  have len: "length (concat (replicate k (v4_list b))) = k * ?m" for k by (induction k) simp_all
  have "\<exists>v. for_each (\<lambda>rdx val. map_option snd (v4_set_vec val (rdx * ?m) b)) [0..<rep] (v4_fill n BIT4_X) = Some v
      \<and> (v4_inv v \<and> v4_size v = n \<and> take (rep * ?m) (v4_list v) = concat (replicate rep (v4_list b)))"
  proof (rule for_upto_rule [where P = "\<lambda>k v. v4_inv v \<and> v4_size v = n \<and> take (k * ?m) (v4_list v) = concat (replicate k (v4_list b))"])
    fix k v
    assume k: "k < rep" and v: "v4_inv v \<and> v4_size v = n \<and> take (k * ?m) (v4_list v) = concat (replicate k (v4_list b))"
    have "Suc k * ?m \<le> n" unfolding n(1) using k by (intro mult_le_mono1) simp
    then have fit: "k * ?m + ?m \<le> v4_size v" "k * ?m < v4_size v" and vi: "v4_inv v" using v pos by simp_all
    obtain d r where r: "v4_set_vec v (k * ?m) b = Some (d, r)" "v4_inv r" "v4_size r = v4_size v"
      "v4_list r = take (k * ?m) (v4_list v) @ v4_list b @ drop (k * ?m + ?m) (v4_list v)"
      by (rule v4_set_vec_spec [OF vi b fit])
    then have "take (Suc k * ?m) (v4_list r) = concat (replicate k (v4_list b)) @ v4_list b"
      using v fit len [of k] by (simp add: add.commute)
    also have "\<dots> = concat (replicate (Suc k) (v4_list b))"
      by (metis append_Nil2 concat.simps(1,2) concat_append replicate_Suc replicate_append_same)
    finally show "\<exists>v'. map_option snd (v4_set_vec v (k * ?m) b) = Some v' \<and> v4_inv v' \<and> v4_size v' = n
        \<and> take (Suc k * ?m) (v4_list v') = concat (replicate (Suc k) (v4_list b))"
      using r v by simp
  qed (simp add: v4_fill_inv)
  then show ?thesis using n pos by (auto simp: repeat_recv_vec4_def)
qed

section \<open>Part selects\<close>

definition part_bits :: "nat \<Rightarrow> nat \<Rightarrow> vvp_bit4_t list \<Rightarrow> vvp_bit4_t list" where
  "part_bits base n l = take n (drop base l) @ replicate (n - (length l - base)) BIT4_X"

lemma v4_subvalue_bits:
  assumes "v4_inv v"
  obtains r where "v4_subvalue v base n = Some r" and "v4_inv r" and "v4_size r = n" and "v4_list r = part_bits base n (v4_list v)"
proof -
  obtain r where r: "v4_subvalue v base n = Some r" "v4_inv r" "v4_size r = n" "\<And>i. i < n \<Longrightarrow> v4_value r i = v4_value v (base + i)"
    using v4_subvalue_spec [OF assms] by blast
  moreover have "v4_list r = part_bits base n (v4_list v)"
    using r by (intro v4_listI) (auto simp: part_bits_def nth_append)
  ultimately show thesis using that by blast
qed

definition part_inv :: "nat \<Rightarrow> nat \<Rightarrow> vvp_fun_part_sa \<Rightarrow> bool" where
  "part_inv base n s \<longleftrightarrow> pt_base s = base \<and> pt_wid s = n \<and> v4_inv (pt_val s) \<and> v4_size (pt_val s) \<in> {0, n}"

fun part_accepts :: "nat \<Rightarrow> nat \<Rightarrow> message \<Rightarrow> vvp_fun_part_sa \<Rightarrow> bool" where
  "part_accepts pbase n (VEC4 p b) s \<longleftrightarrow> fits (\<lambda>p w. p = 0) (VEC4 p b)"
| "part_accepts pbase n (VEC8 p b) s \<longleftrightarrow> fits (\<lambda>p w. p = 0) (VEC8 p b)"
| "part_accepts pbase n m s \<longleftrightarrow> fits (\<lambda>p w. p = 0 \<and> pbase + n \<le> w \<and> pbase < w) m"

lemma part_sa_recv_vec4_settles:
  assumes s: "part_inv base n s" and b: "v4_inv b"
  shows "settles (part_inv base n) pt_net (\<lambda>s. v4_list (pt_val s)) s (part_sa_recv_vec4 0 b s)"
proof -
  obtain r where "v4_subvalue b base n = Some r" "v4_inv r" "v4_size r = n" using v4_subvalue_bits [OF b] by blast
  with s show ?thesis by (auto simp: part_sa_recv_vec4_def part_inv_def settles_def Let_def)
qed

lemma part_sa_recv_vec4_pv_settles:
  assumes s: "part_inv pbase n s" and b: "v4_inv b" "base + v4_size b \<le> vwid" "base < vwid" and p: "pbase + n \<le> vwid" "pbase < vwid"
  shows "settles (part_inv pbase n) pt_net (\<lambda>s. v4_list (pt_val s)) s (part_sa_recv_vec4_pv 0 b base vwid s)"
proof -
  have "v4_inv (pt_val s)" "pbase + v4_size (pt_val s) \<le> vwid" "pt_base s = pbase" using s p by (auto simp: part_inv_def)
  then obtain d t where t: "v4_set_vec (v4_fill vwid BIT4_Z) pbase (pt_val s) = Some (d, t)" "v4_inv t" "v4_size t = vwid"
    using set_vec_changes [OF v4_fill_inv, of "pt_val s" pbase vwid BIT4_Z] p by auto
  then obtain d' t' where "v4_set_vec t base b = Some (d', t')" "v4_inv t'"
    using set_vec_changes [OF t(2) b(1), of base] b by auto
  with t s part_sa_recv_vec4_settles [OF s, of t'] show ?thesis by (simp add: part_sa_recv_vec4_pv_def part_inv_def)
qed

interpretation part_gate: deferred_functor "part_inv base n" pt_net "\<lambda>s. v4_list (pt_val s)"
  "part_accepts base n" part_sa_recv part_sa_run sent_vec4 for base n
proof
  fix s m assume s: "part_inv base n s" and m: "part_accepts base n m s"
  show "settles (part_inv base n) pt_net (\<lambda>s. v4_list (pt_val s)) s (part_sa_recv m s)"
  proof (cases m)
    case (VEC8 p b)
    with m have "v8_inv b" by simp
    from reduce4_size [OF this] obtain v where "reduce4 b = Some v" "v4_inv v" by blast
    with VEC8 m part_sa_recv_vec4_settles [OF s, of v] show ?thesis by (simp add: part_sa_recv_def base_recv_vec8_def)
  next
    case (VEC8_PV p b pbase vwid)
    with m have "v8_inv b" by simp
    from reduce4_size [OF this] obtain v where "reduce4 b = Some v" "v4_inv v" "v4_size v = v8_size b" by blast
    with VEC8_PV m part_sa_recv_vec4_pv_settles [OF s, of v] show ?thesis by (simp add: part_sa_recv_def base_recv_vec8_pv_def)
  qed (use s m in \<open>simp_all add: part_sa_recv_def part_sa_recv_vec4_settles part_sa_recv_vec4_pv_settles\<close>)
qed (simp add: part_sa_run_def part_inv_def)

text \<open>The value of the part after a message, and that the automatically allocated variant computes the same part.\<close>

lemma part_sa_recv_bits:
  assumes "part_inv base n s" and "v4_inv b"
  shows "\<exists>s' acts. part_sa_recv (VEC4 0 b) s = Some (s', acts) \<and> part_inv base n s'
    \<and> v4_list (pt_val s') = part_bits base n (v4_list b)"
proof -
  obtain r where r: "v4_subvalue b base n = Some r" "v4_inv r" "v4_size r = n" "v4_list r = part_bits base n (v4_list b)"
    using v4_subvalue_bits [OF assms(2)] by blast
  moreover have "v4_eeq (pt_val s) r \<longleftrightarrow> v4_list (pt_val s) = v4_list r" using assms(1) r(2) by (intro v4_eeq_list) (simp_all add: part_inv_def)
  ultimately show ?thesis
    using assms(1) by (auto simp: part_sa_recv_def part_sa_recv_vec4_def part_inv_def Let_def)
qed

lemma part_aa_step_bits:
  assumes val: "v4_inv val" and b: "v4_inv b"
  shows "\<exists>t. v4_inv t \<and> v4_list t = part_bits base n (v4_list b)
    \<and> part_aa_step base n b val = Some (if v4_list val = v4_list t then (val, []) else (t, [SEND_VEC4 t]))"
proof -
  let ?f = "\<lambda>idx tmp. if idx + base < v4_size b then v4_set_bit tmp idx (v4_value b (base + idx)) else Some tmp"
  have "\<exists>t. for_each ?f [0..<n] (v4_fill n BIT4_X) = Some t
      \<and> (v4_inv t \<and> v4_size t = n \<and> (\<forall>i < n. v4_value t i = (if i < n \<and> i + base < v4_size b then v4_value b (base + i) else BIT4_X)))"
  proof (rule for_upto_rule [where P = "\<lambda>k t. v4_inv t \<and> v4_size t = n
      \<and> (\<forall>i < n. v4_value t i = (if i < k \<and> i + base < v4_size b then v4_value b (base + i) else BIT4_X))"])
    fix k t
    assume "k < n" and "v4_inv t \<and> v4_size t = n
      \<and> (\<forall>i < n. v4_value t i = (if i < k \<and> i + base < v4_size b then v4_value b (base + i) else BIT4_X))"
    then show "\<exists>t'. ?f k t = Some t' \<and> v4_inv t' \<and> v4_size t' = n
      \<and> (\<forall>i < n. v4_value t' i = (if i < Suc k \<and> i + base < v4_size b then v4_value b (base + i) else BIT4_X))"
      using v4.set_bit_in [of t k "v4_value b (base + k)"] by (auto simp: less_Suc_eq)
  qed (simp add: v4_fill_inv v4_fill_value)
  then obtain t where t: "for_each ?f [0..<n] (v4_fill n BIT4_X) = Some t" "v4_inv t" "v4_size t = n"
    "\<forall>i < n. v4_value t i = (if i < n \<and> i + base < v4_size b then v4_value b (base + i) else BIT4_X)" by blast
  moreover have "v4_list t = part_bits base n (v4_list b)"
    using t(3,4) by (intro v4_listI) (auto simp: part_bits_def nth_append)
  moreover note v4_eeq_list [OF val t(2)]
  ultimately show ?thesis by (intro exI [of _ t]) (simp add: part_aa_step_def)
qed

text \<open>
  The variable part select: bit \<open>i\<close> of the result is bit \<open>base + i\<close> of the source, as integers, and x
  outside of it; an unknown or unrepresentable base gives x throughout.
\<close>

definition select_bits :: "int \<Rightarrow> nat \<Rightarrow> vvp_bit4_t list \<Rightarrow> vvp_bit4_t list" where
  "select_bits base n l =
    map (\<lambda>i. if 0 \<le> base + int i \<and> base + int i < int (length l) then l ! nat (base + int i) else BIT4_X) [0..<n]"

lemma sint32_range: "- 2147483648 \<le> sint (w :: 32 word)" "sint w < 2147483648"
  using sint_range_size [of w] by (simp_all add: word_size)

lemma sint_adr:
  assumes "int i < 2147483648"
  shows "sint (base + word_of_nat i :: 32 word) =
    (if sint base + int i < 2147483648 then sint base + int i else sint base + int i - 4294967296)"
proof -
  note r = sint32_range [of base]
  let ?x = "sint base + int i"
  have "base + word_of_nat i = word_of_int ?x" by simp
  then have "sint (base + word_of_nat i) = (?x + 2147483648) mod 4294967296 - 2147483648"
    by (simp only: int_word_sint) simp
  moreover have "(?x + 2147483648) mod 4294967296 = (if ?x < 2147483648 then ?x + 2147483648 else ?x - 2147483648)"
  proof (cases "?x < 2147483648")
    case False
    have "?x + 2147483648 = (?x - 2147483648) + 4294967296" by simp
    then have "(?x + 2147483648) mod 4294967296 = ((?x - 2147483648) + 4294967296) mod 4294967296" by (rule arg_cong)
    also have "\<dots> = (?x - 2147483648) mod 4294967296" by (rule mod_add_self2)
    also have "\<dots> = ?x - 2147483648" by (rule mod_pos_pos_trivial) (use False r assms in linarith)+
    finally show ?thesis using False by simp
  qed (use r in \<open>simp add: mod_pos_pos_trivial\<close>)
  ultimately show ?thesis by auto
qed

lemma sint_pos_unat: "0 \<le> sint (w :: 32 word) \<Longrightarrow> int (unat w) = sint w"
  using sint32_range [of w] by (simp add: uint_sint take_bit_eq_mod mod_pos_pos_trivial)

lemma part_var_loop_bits:
  assumes "v4_inv res" and "v4_size res = n" and "int n \<le> 2147483648" and "int (v4_size src) \<le> 2147483648" and "k \<le> n"
    and "\<And>i. k \<le> i \<Longrightarrow> i < n \<Longrightarrow> v4_value res i = BIT4_X"
  shows "\<exists>r. part_var_loop base src [k..<n] res = Some r \<and> v4_inv r \<and> v4_size r = n
    \<and> (\<forall>i < n. v4_value r i = (if i < k then v4_value res i else select_bits (sint base) n (v4_list src) ! i))"
  using assms
proof (induction "n - k" arbitrary: k res)
  case 0
  then show ?case by auto
next
  case (Suc d)
  let ?adr = "base + word_of_nat k :: 32 word"
  have k: "k < n" and d: "d = n - Suc k" using Suc.hyps(2) by simp_all
  have adr: "sint ?adr = (if sint base + int k < 2147483648 then sint base + int k else sint base + int k - 4294967296)"
    by (rule sint_adr) (use k Suc.prems in linarith)
  note r = sint32_range [of base]
  have sel: "select_bits (sint base) n (v4_list src) ! i = (if 0 \<le> sint base + int i \<and> sint base + int i < int (v4_size src)
      then v4_value src (nat (sint base + int i)) else BIT4_X)" if "i < n" for i
    using that by (auto simp: select_bits_def nat_less_iff)
  have upt: "[k..<n] = k # [Suc k..<n]" using k by (rule upt_conv_Cons)
  consider (below) "sint ?adr < 0" | (above) "0 \<le> sint ?adr" "v4_size src \<le> unat ?adr" | (in_range) "0 \<le> sint ?adr" "unat ?adr < v4_size src"
    by linarith
  then show ?case
  proof cases
    case below
    then have "select_bits (sint base) n (v4_list src) ! k = BIT4_X" using sel [OF k] adr Suc.prems(4) r by (auto split: if_splits)
    moreover obtain r where "part_var_loop base src [Suc k..<n] res = Some r" "v4_inv r" "v4_size r = n"
      "\<forall>i < n. v4_value r i = (if i < Suc k then v4_value res i else select_bits (sint base) n (v4_list src) ! i)"
      using Suc.hyps(1) [OF d, of res] Suc.prems k by auto
    ultimately show ?thesis using below Suc.prems(6) [of k] k by (auto simp: upt less_Suc_eq)
  next
    case above
    then have u: "int (unat ?adr) = sint ?adr" by (intro sint_pos_unat)
    have "int (v4_size src) \<le> int (unat ?adr)" using above(2) by (rule of_nat_mono)
    then have "int (v4_size src) \<le> sint base + int k" using u adr by (auto split: if_splits)
    then have "select_bits (sint base) n (v4_list src) ! i = BIT4_X" if "k \<le> i" "i < n" for i
      using sel [OF that(2)] that by simp
    with above Suc.prems show ?thesis by (auto simp: upt)
  next
    case in_range
    then have u: "int (unat ?adr) = sint ?adr" by (intro sint_pos_unat)
    then have eq: "sint ?adr = sint base + int k" using in_range adr r Suc.prems(3,4) k by (auto split: if_splits)
    have nt: "nat (sint ?adr) = unat ?adr" using u by (metis nat_int)
    have "sint ?adr < int (v4_size src)" using in_range(2) u by (metis of_nat_less_iff)
    then have sk: "select_bits (sint base) n (v4_list src) ! k = v4_value src (unat ?adr)"
      using sel [OF k] in_range(1) unfolding eq [symmetric] nt by simp
    obtain res' where res': "v4_set_bit res k (v4_value src (unat ?adr)) = Some res'" "v4_inv res'" "v4_size res' = n"
      "\<forall>j < n. v4_value res' j = (if j = k then v4_value src (unat ?adr) else v4_value res j)"
      using v4.set_bit_in [of res k "v4_value src (unat ?adr)"] Suc.prems k by auto
    then obtain r where "part_var_loop base src [Suc k..<n] res' = Some r" "v4_inv r" "v4_size r = n"
      "\<forall>i < n. v4_value r i = (if i < Suc k then v4_value res' i else select_bits (sint base) n (v4_list src) ! i)"
      using Suc.hyps(1) [OF d, of res'] Suc.prems k by auto
    with in_range res' sk k show ?thesis by (auto simp: upt less_Suc_eq)
  qed
qed

definition part_var_inv :: "nat \<Rightarrow> part_var_state \<Rightarrow> bool" where
  "part_var_inv n s \<longleftrightarrow> v4_inv (pv_source s) \<and> v4_inv (pv_ref s) \<and> int (v4_size (pv_source s)) \<le> 2147483648
     \<and> (v4_size (pv_ref s) = 0 \<or> v4_list (pv_ref s) = select_bits (sint (pv_base s)) n (v4_list (pv_source s)))"

text \<open>After a message on either port the last output is the selected part, and it was sent if it changed.\<close>

lemma part_var_update_bits:
  assumes "v4_inv (pv_source s)" and "v4_inv (pv_ref s)" and "int (v4_size (pv_source s)) \<le> 2147483648" and n: "int n \<le> 2147483648"
  shows "\<exists>changed s'. part_var_update n s = Some (changed, s') \<and> part_var_inv n s'
    \<and> v4_list (pv_ref s') = select_bits (sint (pv_base s)) n (v4_list (pv_source s))
    \<and> (changed \<longleftrightarrow> v4_list (pv_ref s') \<noteq> v4_list (pv_ref s)) \<and> pv_base s' = pv_base s \<and> pv_source s' = pv_source s"
proof -
  have "\<exists>r. part_var_loop (pv_base s) (pv_source s) [0..<n] (v4_fill n BIT4_X) = Some r \<and> v4_inv r \<and> v4_size r = n
      \<and> (\<forall>i < n. v4_value r i = (if i < 0 then v4_value (v4_fill n BIT4_X) i
            else select_bits (sint (pv_base s)) n (v4_list (pv_source s)) ! i))"
    by (rule part_var_loop_bits [OF v4_fill_inv]) (use assms in \<open>simp_all add: v4_fill_value\<close>)
  then obtain r where r: "part_var_loop (pv_base s) (pv_source s) [0..<n] (v4_fill n BIT4_X) = Some r" "v4_inv r" "v4_size r = n"
    "\<forall>i < n. v4_value r i = select_bits (sint (pv_base s)) n (v4_list (pv_source s)) ! i" by auto
  then have bits: "v4_list r = select_bits (sint (pv_base s)) n (v4_list (pv_source s))"
    by (intro v4_listI) (simp_all add: select_bits_def)
  with r(1,2) assms v4_eeq_list [OF assms(2) r(2)] show ?thesis by (simp add: part_var_update_def part_var_inv_def)
qed

lemma part_var_step_bits:
  assumes s: "part_var_inv n s" and b: "v4_inv b" "int (v4_size b) \<le> 2147483648" and p: "p \<le> 1" and n: "int n \<le> 2147483648"
  shows "\<exists>s'. part_var_step n sg p b s = Some (s', if v4_list (pv_ref s') = v4_list (pv_ref s) then [] else [SEND_VEC4 (pv_ref s')])
    \<and> part_var_inv n s' \<and> pv_source s' = (if p = 0 then b else pv_source s)
    \<and> pv_base s' = (if p = 1 then part_var_base sg b else pv_base s)
    \<and> (p = 0 \<or> pv_base s' \<noteq> pv_base s \<or> v4_size (pv_ref s) \<noteq> 0 \<longrightarrow>
        v4_list (pv_ref s') = select_bits (sint (pv_base s')) n (v4_list (pv_source s')))"
proof -
  have i: "v4_inv (pv_source s)" "v4_inv (pv_ref s)" "int (v4_size (pv_source s)) \<le> 2147483648" using s by (simp_all add: part_var_inv_def)
  show ?thesis
  proof (cases "p = 0")
    case True
    obtain changed s' where "part_var_update n (s\<lparr>pv_source := b\<rparr>) = Some (changed, s')" "part_var_inv n s'"
      "v4_list (pv_ref s') = select_bits (sint (pv_base s)) n (v4_list b)"
      "changed \<longleftrightarrow> v4_list (pv_ref s') \<noteq> v4_list (pv_ref s)" "pv_base s' = pv_base s" "pv_source s' = b"
      using part_var_update_bits [of "s\<lparr>pv_source := b\<rparr>" n, simplified, OF b(1) i(2) b(2) [simplified] n [simplified]] by blast
    with True show ?thesis by (simp add: part_var_step_def part_var_receive_def)
  next
    case False
    with p have "p = 1" by simp
    obtain changed s' where s': "part_var_update n (s\<lparr>pv_base := part_var_base sg b\<rparr>) = Some (changed, s')" "part_var_inv n s'"
      "v4_list (pv_ref s') = select_bits (sint (part_var_base sg b)) n (v4_list (pv_source s))"
      "changed \<longleftrightarrow> v4_list (pv_ref s') \<noteq> v4_list (pv_ref s)" "pv_base s' = part_var_base sg b" "pv_source s' = pv_source s"
      using part_var_update_bits [of "s\<lparr>pv_base := part_var_base sg b\<rparr>" n, simplified, OF i(1,2) i(3) [simplified] n [simplified]] by blast
    have held: "v4_size (pv_ref s) = 0 \<or> v4_list (pv_ref s) = select_bits (sint (pv_base s)) n (v4_list (pv_source s))"
      using s by (simp add: part_var_inv_def)
    show ?thesis
    proof (cases "part_var_base sg b = pv_base s")
      case True
      with \<open>p = 1\<close> s held show ?thesis by (intro exI [of _ s]) (auto simp: part_var_step_def part_var_receive_def)
    next
      case False
      with \<open>p = 1\<close> s' show ?thesis by (intro exI [of _ s']) (simp add: part_var_step_def part_var_receive_def)
    qed
  qed
qed

text \<open>The base: an x or z in its low 32 bits, or an unsigned value from \<open>2 ^ 31\<close> on, selects nothing.\<close>

lemma part_var_base_value:
  assumes "v4_inv b"
  shows "part_var_base sg b =
    (let w = word_of_int (if sg then bits_sval (v4_list b) else bits_val (v4_list b)) in
     if list_ex bit4_is_xz (take 32 (v4_list b)) \<or> \<not> sg \<and> sint w < 0 then INT32_MIN else w)"
proof -
  have "(\<exists>i < min (v4_size b) 32. bit4_is_xz (v4_value b i)) \<longleftrightarrow> list_ex bit4_is_xz (take 32 (v4_list b))"
    by (auto simp: list_ex_length)
  with vector4_to_value_spec [OF assms, where ?'w = 32, of sg True] show ?thesis
    by (auto simp: part_var_base_def Let_def)
qed

lemma part_var_unknown: "int n \<le> 2147483648 \<Longrightarrow> select_bits (sint INT32_MIN) n l = replicate n BIT4_X"
  by (auto simp: select_bits_def INT32_MIN_def intro!: nth_equalityI)

end
