(* ===== verification/Arith.thy ===== *)
theory Arith
  imports Functor Vector4_Value Vector2_Arith "HOL-Library.Signed_Division"
begin

text \<open>
  The arithmetic, comparison and shift functors (\<^verbatim>\<open>src/vvp/arith.cc\<close>).  Each class stores the operand that
  arrived and sends its result at once.  Operands of up to 64 bits are handled in machine words, wider ones
  as two-valued vectors.  The real valued classes are not modelled.
\<close>

section \<open>Operands\<close>

record vvp_arith =
  ar_wid :: nat
  ar_a :: vvp_vector4_t
  ar_b :: vvp_vector4_t

definition arith_make :: "nat \<Rightarrow> vvp_arith" where
  "arith_make n = \<lparr>ar_wid = n, ar_a = v4_fill n BIT4_Z, ar_b = v4_fill n BIT4_Z\<rparr>"

definition x_val :: "vvp_arith \<Rightarrow> vvp_vector4_t" where
  "x_val s = v4_fill (ar_wid s) BIT4_X"

definition dispatch_operand :: "nat \<Rightarrow> vvp_vector4_t \<Rightarrow> vvp_arith \<Rightarrow> vvp_arith option" where
  "dispatch_operand port b s = (if port = 0 then Some (s\<lparr>ar_a := b\<rparr>) else if port = 1 then Some (s\<lparr>ar_b := b\<rparr>) else None)"

text \<open>Every class: store the operand, compute, send.\<close>

definition arith_recv_vec4 :: "(vvp_arith \<Rightarrow> vvp_vector4_t option) \<Rightarrow> nat \<Rightarrow> vvp_vector4_t \<Rightarrow> vvp_arith \<Rightarrow> vvp_arith reply" where
  "arith_recv_vec4 calc p b s = Option.bind (dispatch_operand p b s) (\<lambda>s. map_option (\<lambda>v. (s, [SEND_VEC4 v])) (calc s))"

definition arith_recv :: "(vvp_arith \<Rightarrow> vvp_vector4_t option) \<Rightarrow> message \<Rightarrow> vvp_arith \<Rightarrow> vvp_arith reply" where
  "arith_recv calc = net_fun_recv (arith_recv_vec4 calc) (base_recv_vec4_pv (arith_recv_vec4 calc))"

text \<open>The loop that spreads a machine word over the bits of the result.\<close>

definition word_to_vec :: "nat \<Rightarrow> ulong \<Rightarrow> vvp_vector4_t option" where
  "word_to_vec n val = map_option fst (for_each (\<lambda>idx (vval, val).
       map_option (\<lambda>v. (v, drop_bit 1 val)) (v4_set_bit vval idx (if val AND 1 \<noteq> 0 then BIT4_1 else BIT4_0)))
     [0..<n] (v4_fill n BIT4_X, val))"

section \<open>Absolute value and conversion\<close>

definition arith_abs :: "vvp_vector4_t \<Rightarrow> vvp_vector4_t option" where
  "arith_abs b = Option.bind (compare_gtge_signed b (v4_fill (v4_size b) BIT4_0) BIT4_1) (\<lambda>cmp. case cmp of
       BIT4_1 \<Rightarrow> Some b
     | BIT4_0 \<Rightarrow> v4_plus_int (v4_not b) 1
     | _ \<Rightarrow> Some (v4_fill (v4_size b) BIT4_X))"

definition arith_cast_vec2 :: "nat \<Rightarrow> vvp_vector4_t \<Rightarrow> vvp_vector4_t option" where
  "arith_cast_vec2 n b = Option.bind (v2_of_vector4 b False) (\<lambda>tmp. vector2_to_vector4 tmp n)"

text \<open>These two classes have no operands to keep.\<close>

definition unary_recv_vec4 :: "(vvp_vector4_t \<Rightarrow> vvp_vector4_t option) \<Rightarrow> nat \<Rightarrow> vvp_vector4_t \<Rightarrow> unit \<Rightarrow> unit reply" where
  "unary_recv_vec4 calc p b s = map_option (\<lambda>v. (s, [SEND_VEC4 v])) (calc b)"

definition unary_recv :: "(vvp_vector4_t \<Rightarrow> vvp_vector4_t option) \<Rightarrow> message \<Rightarrow> unit \<Rightarrow> unit reply" where
  "unary_recv calc = net_fun_recv (unary_recv_vec4 calc) (base_recv_vec4_pv (unary_recv_vec4 calc))"

section \<open>Division, remainder, multiplication, power\<close>

definition negate_if :: "bool \<Rightarrow> vvp_vector2_t \<Rightarrow> vvp_vector2_t option" where
  "negate_if c v = (if c then v2_neg v else Some v)"

definition v2_top :: "vvp_vector2_t \<Rightarrow> bool" where
  "v2_top v \<longleftrightarrow> v2_value v (v2_wid v - 1) \<noteq> 0"

definition arith_div_wide :: "bool \<Rightarrow> vvp_arith \<Rightarrow> vvp_vector4_t option" where
  "arith_div_wide sg s =
    Option.bind (v2_of_vector4 (ar_a s) True) (\<lambda>a2.
    if v2_is_NaN a2 then Some (x_val s)
    else Option.bind (v2_of_vector4 (ar_b s) True) (\<lambda>b2.
      if v2_is_NaN b2 \<or> v2_is_zero b2 then Some (x_val s)
      else
        let na = sg \<and> v2_top a2; nb = sg \<and> v2_top b2 in
        Option.bind (negate_if na a2) (\<lambda>a2. Option.bind (negate_if nb b2) (\<lambda>b2.
        Option.bind (v2_div a2 b2) (\<lambda>res. Option.bind (negate_if (na \<noteq> nb) res) (\<lambda>res.
          vector2_to_vector4 res (ar_wid s)))))))"

text \<open>The sign is taken out of a narrow operand: the value and whether it was negative.\<close>

definition strip_sign :: "bool \<Rightarrow> vvp_vector4_t \<Rightarrow> ulong \<Rightarrow> ulong \<times> bool" where
  "strip_sign sg v a =
    (let sign_mask = (if v4_size v \<noteq> 64 then push_bit (v4_size v) (- 1) else 0) in
     if sg \<and> v4_value v (v4_size v - 1) \<noteq> BIT4_0 then ((- a) AND NOT sign_mask, True) else (a, False))"

definition arith_div :: "bool \<Rightarrow> vvp_arith \<Rightarrow> vvp_vector4_t option" where
  "arith_div sg s =
    (if ar_wid s > 64 then arith_div_wide sg s
     else case vector4_to_ulong (ar_a s) of None \<Rightarrow> Some (x_val s) | Some (_, a) \<Rightarrow>
       (case vector4_to_ulong (ar_b s) of None \<Rightarrow> Some (x_val s) | Some (_, b) \<Rightarrow>
         let (a, na) = strip_sign sg (ar_a s) a; (b, nb) = strip_sign sg (ar_b s) b in
         if b = 0 then Some (x_val s)
         else let val = a div b in word_to_vec (ar_wid s) (if na \<noteq> nb then - val else val)))"

definition arith_mod_wide :: "bool \<Rightarrow> vvp_arith \<Rightarrow> vvp_vector4_t option" where
  "arith_mod_wide sg s =
    Option.bind (v2_of_vector4 (ar_a s) True) (\<lambda>a2.
    if v2_is_NaN a2 then Some (x_val s)
    else Option.bind (v2_of_vector4 (ar_b s) True) (\<lambda>b2.
      if v2_is_NaN b2 \<or> v2_is_zero b2 then Some (x_val s)
      else
        let na = sg \<and> v2_top a2; nb = sg \<and> v2_top b2 in
        Option.bind (negate_if na a2) (\<lambda>a2. Option.bind (negate_if nb b2) (\<lambda>b2.
        Option.bind (v2_mod a2 b2) (\<lambda>res. Option.bind (negate_if na res) (\<lambda>res.
          vector2_to_vector4 res (v2_wid res)))))))"

definition arith_mod :: "bool \<Rightarrow> vvp_arith \<Rightarrow> vvp_vector4_t option" where
  "arith_mod sg s =
    (if ar_wid s > 64 then arith_mod_wide sg s
     else case vector4_to_ulong (ar_a s) of None \<Rightarrow> Some (x_val s) | Some (_, a) \<Rightarrow>
       (case vector4_to_ulong (ar_b s) of None \<Rightarrow> Some (x_val s) | Some (_, b) \<Rightarrow>
         let (a, na) = strip_sign sg (ar_a s) a; (b, nb) = strip_sign sg (ar_b s) b in
         if b = 0 then Some (x_val s)
         else let val = a mod b in word_to_vec (ar_wid s) (if na then - val else val)))"

definition arith_mult_wide :: "vvp_arith \<Rightarrow> vvp_vector4_t option" where
  "arith_mult_wide s =
    Option.bind (v2_of_vector4 (ar_a s) True) (\<lambda>a2. Option.bind (v2_of_vector4 (ar_b s) True) (\<lambda>b2.
    if v2_is_NaN a2 \<or> v2_is_NaN b2 then Some (x_val s)
    else Option.bind (v2_mul a2 b2) (\<lambda>result. vector2_to_vector4 result (ar_wid s))))"

definition arith_mult :: "vvp_arith \<Rightarrow> vvp_vector4_t option" where
  "arith_mult s =
    (if ar_wid s > 64 then arith_mult_wide s
     else case vector4_to_value (ar_a s) False True of
       (True, Some a) \<Rightarrow> (case vector4_to_value (ar_b s) False True of
           (True, Some b) \<Rightarrow> word_to_vec (ar_wid s) (a * b :: ulong)
         | _ \<Rightarrow> Some (x_val s))
     | _ \<Rightarrow> Some (x_val s))"

text \<open>
  The power.  With a negative exponent the code builds the result from one of the reals 0, 1 and -1;
  \<open>v4_of_small_int\<close> is the constructor from \<^verbatim>\<open>double\<close> on integers below \<^verbatim>\<open>2^61\<close>, where \<^verbatim>\<open>frexp\<close> and \<^verbatim>\<open>lround\<close> are exact.
\<close>

definition v4_of_small_int :: "nat \<Rightarrow> int \<Rightarrow> vvp_vector4_t" where
  "v4_of_small_int n val =
    (let v = v4_fill n BIT4_0; v = (if val < 0 then v4_invert v else v)
     in v\<lparr>v4_abits := (v4_abits v)[0 := word_of_int val]\<rparr>)"

definition vector2_to_int :: "vvp_vector2_t \<Rightarrow> bool \<times> 32 word" where
  "vector2_to_int a =
    (let (val, m) = foldl (\<lambda>(val, m) idx. (if v2_value a idx \<noteq> 0 then val OR m else val, push_bit 1 m)) (0, 1)
           [0..<min (v2_wid a) 32];
         val = (if v2_wid a < 32 \<and> v2_value a (v2_wid a - 1) \<noteq> 0 then val OR push_bit (v2_wid a) (- 1) else val)
     in (v2_wid a \<le> 32, val))"

definition arith_pow :: "bool \<Rightarrow> vvp_arith \<Rightarrow> vvp_vector4_t option" where
  "arith_pow sg s =
    Option.bind (v2_of_vector4 (ar_a s) True) (\<lambda>a2. Option.bind (v2_of_vector4 (ar_b s) True) (\<lambda>b2.
    if v2_is_NaN a2 \<or> v2_is_NaN b2 then Some (x_val s)
    else if sg \<and> v2_top b2 then
      let (ok, a_val) = vector2_to_int a2 in
      if ok \<and> a_val = 0 then Some (x_val s)
      else Some (v4_of_small_int (ar_wid s)
        (if ok \<and> a_val = 1 then 1 else if ok \<and> a_val = - 1 then (if v2_value b2 0 \<noteq> 0 then - 1 else 1) else 0))
    else Option.bind (v2_pow a2 b2) (\<lambda>r. vector2_to_vector4 r (ar_wid s))))"

section \<open>Addition and subtraction\<close>

text \<open>The ripple carry loop; \<open>Some None\<close> is the early exit on an unknown bit.\<close>

fun ripple :: "(nat \<Rightarrow> vvp_bit4_t) \<Rightarrow> (nat \<Rightarrow> vvp_bit4_t) \<Rightarrow> nat list \<Rightarrow> vvp_bit4_t \<Rightarrow> vvp_vector4_t
    \<Rightarrow> vvp_vector4_t option option" where
  "ripple fa fb [] carry v = Some (Some v)"
| "ripple fa fb (idx # is) carry v = Option.bind (bit4_add_with_carry (fa idx) (fb idx) carry) (\<lambda>(cur, carry').
     if cur = BIT4_X then Some None else Option.bind (v4_set_bit v idx cur) (ripple fa fb is carry'))"

definition padded :: "vvp_bit4_t \<Rightarrow> (vvp_bit4_t \<Rightarrow> vvp_bit4_t) \<Rightarrow> vvp_vector4_t \<Rightarrow> nat \<Rightarrow> vvp_bit4_t" where
  "padded pad f v idx = (if idx \<ge> v4_size v then pad else f (v4_value v idx))"

definition arith_sum :: "vvp_arith \<Rightarrow> vvp_vector4_t option" where
  "arith_sum s = map_option (\<lambda>r. case r of None \<Rightarrow> x_val s | Some v \<Rightarrow> v)
     (ripple (padded BIT4_0 id (ar_a s)) (padded BIT4_0 id (ar_b s)) [0..<ar_wid s] BIT4_0 (v4_fill (ar_wid s) BIT4_X))"

definition arith_sub :: "vvp_arith \<Rightarrow> vvp_vector4_t option" where
  "arith_sub s = map_option (\<lambda>r. case r of None \<Rightarrow> x_val s | Some v \<Rightarrow> v)
     (ripple (padded BIT4_1 id (ar_a s)) (padded BIT4_1 bit4_not (ar_b s)) [0..<ar_wid s] BIT4_1 (v4_fill (ar_wid s) BIT4_X))"

section \<open>Comparisons\<close>

text \<open>
  The comparison loops: every bit pair either continues, marks the result as unknown and continues, or
  decides.
\<close>

datatype verdict = CONTINUE | UNKNOWN | DECIDE

fun cmp_loop :: "(vvp_bit4_t \<Rightarrow> vvp_bit4_t \<Rightarrow> verdict) \<Rightarrow> vvp_bit4_t \<Rightarrow> vvp_vector4_t \<Rightarrow> vvp_vector4_t \<Rightarrow> nat list \<Rightarrow> vvp_bit4_t \<Rightarrow> vvp_bit4_t" where
  "cmp_loop f decided a b [] res = res"
| "cmp_loop f decided a b (idx # is) res = (case f (v4_value a idx) (v4_value b idx) of
       CONTINUE \<Rightarrow> cmp_loop f decided a b is res
     | UNKNOWN \<Rightarrow> cmp_loop f decided a b is BIT4_X
     | DECIDE \<Rightarrow> decided)"

definition cmp_calc :: "(vvp_bit4_t \<Rightarrow> vvp_bit4_t \<Rightarrow> verdict) \<Rightarrow> vvp_bit4_t \<Rightarrow> vvp_bit4_t \<Rightarrow> vvp_arith \<Rightarrow> vvp_vector4_t option" where
  "cmp_calc f start decided s =
    (if v4_size (ar_a s) = v4_size (ar_b s)
     then v4_set_bit (v4_fill 1 BIT4_X) 0 (cmp_loop f decided (ar_a s) (ar_b s) [0..<v4_size (ar_a s)] start)
     else None)"

definition eeq_verdict :: "vvp_bit4_t \<Rightarrow> vvp_bit4_t \<Rightarrow> verdict" where
  "eeq_verdict a b = (if a \<noteq> b then DECIDE else CONTINUE)"

definition eq_verdict :: "vvp_bit4_t \<Rightarrow> vvp_bit4_t \<Rightarrow> verdict" where
  "eq_verdict a b =
    (if a = BIT4_X then UNKNOWN else if a = BIT4_Z then UNKNOWN else if b = BIT4_X then UNKNOWN
     else if b = BIT4_Z then UNKNOWN else if a \<noteq> b then DECIDE else CONTINUE)"

definition eqx_verdict :: "vvp_bit4_t \<Rightarrow> vvp_bit4_t \<Rightarrow> verdict" where
  "eqx_verdict a b = (if b = BIT4_X then CONTINUE else if b = BIT4_Z then CONTINUE else if a \<noteq> b then DECIDE else CONTINUE)"

definition eqz_verdict :: "vvp_bit4_t \<Rightarrow> vvp_bit4_t \<Rightarrow> verdict" where
  "eqz_verdict a b = (if b = BIT4_Z then CONTINUE else if a \<noteq> b then DECIDE else CONTINUE)"

definition weq_verdict :: "vvp_bit4_t \<Rightarrow> vvp_bit4_t \<Rightarrow> verdict" where
  "weq_verdict a b =
    (if b = BIT4_X then CONTINUE else if b = BIT4_Z then CONTINUE else if a = BIT4_X then UNKNOWN
     else if a = BIT4_Z then UNKNOWN else if a \<noteq> b then DECIDE else CONTINUE)"

definition cmp_eeq :: "vvp_arith \<Rightarrow> vvp_vector4_t option" where
  "cmp_eeq = cmp_calc eeq_verdict BIT4_1 BIT4_0"

definition cmp_nee :: "vvp_arith \<Rightarrow> vvp_vector4_t option" where
  "cmp_nee = cmp_calc eeq_verdict BIT4_0 BIT4_1"

definition cmp_eq :: "vvp_arith \<Rightarrow> vvp_vector4_t option" where
  "cmp_eq = cmp_calc eq_verdict BIT4_1 BIT4_0"

definition cmp_eqx :: "vvp_arith \<Rightarrow> vvp_vector4_t option" where
  "cmp_eqx = cmp_calc eqx_verdict BIT4_1 BIT4_0"

definition cmp_eqz :: "vvp_arith \<Rightarrow> vvp_vector4_t option" where
  "cmp_eqz = cmp_calc eqz_verdict BIT4_1 BIT4_0"

definition cmp_ne :: "vvp_arith \<Rightarrow> vvp_vector4_t option" where
  "cmp_ne = cmp_calc eq_verdict BIT4_0 BIT4_1"

definition cmp_weq :: "vvp_arith \<Rightarrow> vvp_vector4_t option" where
  "cmp_weq = cmp_calc weq_verdict BIT4_1 BIT4_0"

definition cmp_wne :: "vvp_arith \<Rightarrow> vvp_vector4_t option" where
  "cmp_wne = cmp_calc weq_verdict BIT4_0 BIT4_1"

definition cmp_gtge_base :: "vvp_bit4_t \<Rightarrow> bool \<Rightarrow> vvp_arith \<Rightarrow> vvp_vector4_t option" where
  "cmp_gtge_base out_if_equal sg s =
    Option.bind (if sg then compare_gtge_signed (ar_a s) (ar_b s) out_if_equal
        else Some (compare_gtge (ar_a s) (ar_b s) out_if_equal))
      (v4_set_bit (v4_fill 1 BIT4_X) 0)"

definition cmp_ge :: "bool \<Rightarrow> vvp_arith \<Rightarrow> vvp_vector4_t option" where
  "cmp_ge = cmp_gtge_base BIT4_1"

definition cmp_gt :: "bool \<Rightarrow> vvp_arith \<Rightarrow> vvp_vector4_t option" where
  "cmp_gt = cmp_gtge_base BIT4_0"

section \<open>Shifts\<close>

text \<open>The distance: at most the width, also on overflow of the 64 bit conversion.\<close>

definition shift_amount :: "nat \<Rightarrow> bool \<times> ulong \<Rightarrow> nat" where
  "shift_amount n ov = (case ov of (overflow_flag, shift) \<Rightarrow> if overflow_flag \<or> unat shift > n then n else unat shift)"

definition arith_shiftl :: "vvp_arith \<Rightarrow> vvp_vector4_t option" where
  "arith_shiftl s = (case vector4_to_ulong (ar_b s) of
       None \<Rightarrow> Some (x_val s)
     | Some ov \<Rightarrow>
         let n = v4_size (ar_a s); shift = shift_amount n ov in
         Option.bind (for_each (\<lambda>idx out. v4_set_bit out idx BIT4_0) [0..<shift] (v4_fill n BIT4_X))
           (for_each (\<lambda>idx out. v4_set_bit out idx (v4_value (ar_a s) (idx - shift))) [shift..<n]))"

definition arith_shiftr :: "bool \<Rightarrow> vvp_arith \<Rightarrow> vvp_vector4_t option" where
  "arith_shiftr sg s = (case vector4_to_ulong (ar_b s) of
       None \<Rightarrow> Some (x_val s)
     | Some ov \<Rightarrow>
         let n = v4_size (ar_a s); shift = shift_amount n ov;
             pad = (if sg \<and> n > 0 then v4_value (ar_a s) (n - 1) else BIT4_0) in
         Option.bind (for_each (\<lambda>idx out. v4_set_bit out (idx - shift) (v4_value (ar_a s) idx)) [shift..<n] (v4_fill n BIT4_X))
           (for_each (\<lambda>idx out. v4_set_bit out (idx + n - shift) pad) [0..<shift]))"

section \<open>Numbers of the operands\<close>

definition arith_inv :: "nat \<Rightarrow> vvp_arith \<Rightarrow> bool" where
  "arith_inv n s \<longleftrightarrow> ar_wid s = n \<and> v4_inv (ar_a s) \<and> v4_size (ar_a s) = n \<and> v4_inv (ar_b s) \<and> v4_size (ar_b s) = n"

definition number :: "bool \<Rightarrow> vvp_bit4_t list \<Rightarrow> int" where
  "number sg l = (if sg then bits_sval l else bits_val l)"

definition known :: "vvp_vector4_t \<Rightarrow> bool" where
  "known v \<longleftrightarrow> \<not> list_ex bit4_is_xz (v4_list v)"

text \<open>A result: x throughout, or the bits of a number.\<close>

definition gives :: "vvp_vector4_t option \<Rightarrow> vvp_bit4_t list \<Rightarrow> bool" where
  "gives r l \<longleftrightarrow> (\<exists>v. r = Some v \<and> v4_inv v \<and> v4_list v = l)"

lemma gives_Some: "v4_inv v \<Longrightarrow> v4_list v = l \<Longrightarrow> gives (Some v) l"
  by (simp add: gives_def)

lemma gives_x: "ar_wid s = n \<Longrightarrow> gives (Some (x_val s)) (replicate n BIT4_X)"
  by (simp add: gives_def x_val_def v4_fill_inv v4_fill_list)

lemma known_has_xz: "v4_inv v \<Longrightarrow> known v \<longleftrightarrow> \<not> v4_has_xz v"
  by (simp add: known_def v4_has_xz_list)

lemma word_to_vec_gives: "gives (word_to_vec n w) (bits_of n (uint w))"
proof -
  let ?f = "\<lambda>idx (vval, val). map_option (\<lambda>v. (v, drop_bit 1 val)) (v4_set_bit vval idx (if val AND 1 \<noteq> 0 then BIT4_1 else BIT4_0))"
  have "\<exists>r. for_each ?f [0..<n] (v4_fill n BIT4_X, w) = Some r \<and> (v4_inv (fst r) \<and> v4_size (fst r) = n \<and> snd r = drop_bit n w
      \<and> (\<forall>i < n. v4_value (fst r) i = (if bit w i then BIT4_1 else BIT4_0)))"
  proof (rule for_upto_rule [where P = "\<lambda>k r. v4_inv (fst r) \<and> v4_size (fst r) = n \<and> snd r = drop_bit k w
      \<and> (\<forall>i < k. v4_value (fst r) i = (if bit w i then BIT4_1 else BIT4_0))"])
    fix k and r :: "vvp_vector4_t \<times> ulong"
    assume k: "k < n" and r: "v4_inv (fst r) \<and> v4_size (fst r) = n \<and> snd r = drop_bit k w
      \<and> (\<forall>i < k. v4_value (fst r) i = (if bit w i then BIT4_1 else BIT4_0))"
    have "snd r AND 1 \<noteq> 0 \<longleftrightarrow> bit w k" using r by (simp add: and_one_eq odd_iff_mod_2_eq_one [symmetric] bit_iff_odd_drop_bit)
    moreover obtain v where "v4_set_bit (fst r) k (if bit w k then BIT4_1 else BIT4_0) = Some v" "v4_inv v" "v4_size v = n"
      "\<forall>j < n. v4_value v j = (if j = k then if bit w k then BIT4_1 else BIT4_0 else v4_value (fst r) j)"
      using v4.set_bit_in [of "fst r" k "if bit w k then BIT4_1 else BIT4_0"] r k by auto
    ultimately show "\<exists>r'. ?f k r = Some r' \<and> v4_inv (fst r') \<and> v4_size (fst r') = n \<and> snd r' = drop_bit (Suc k) w
        \<and> (\<forall>i < Suc k. v4_value (fst r') i = (if bit w i then BIT4_1 else BIT4_0))"
      using r k by (cases r) (auto simp: less_Suc_eq)
  qed (simp add: v4_fill_inv)
  then obtain v val where v: "for_each ?f [0..<n] (v4_fill n BIT4_X, w) = Some (v, val)" "v4_inv v" "v4_size v = n"
    "\<forall>i < n. v4_value v i = (if bit w i then BIT4_1 else BIT4_0)" by auto
  have "v4_list v = bits_of n (uint w)"
    using v(3,4) by (intro v4_listI) (auto simp: bit_uint_iff dest: bit_imp_le_length)
  with v show ?thesis by (simp add: word_to_vec_def gives_def)
qed

text \<open>Sign and magnitude of a two's complement number.\<close>

lemma bits_val_top:
  assumes "length l = n" and "0 < n"
  shows "last l = BIT4_1 \<longleftrightarrow> 2 ^ (n - 1) \<le> bits_val l"
proof -
  have "last l = l ! (n - 1)" using assms by (subst last_conv_nth) auto
  then have "last l = BIT4_1 \<longleftrightarrow> (\<exists>i. n - 1 \<le> i \<and> i < length l \<and> l ! i = BIT4_1)"
    using assms by (metis One_nat_def Suc_pred le_less_Suc_eq diff_less lessI le_refl)
  with bits_val_above(1) [of "n - 1" l] assms show ?thesis by simp
qed

lemma number_sign:
  assumes "length l = n" and "0 < n"
  shows "number sg l < 0 \<longleftrightarrow> sg \<and> last l = BIT4_1"
    and "number sg l < 0 \<Longrightarrow> \<bar>number sg l\<bar> = take_bit n (- bits_val l)"
    and "\<not> number sg l < 0 \<Longrightarrow> number sg l = bits_val l"
    and "sg \<Longrightarrow> \<bar>number sg l\<bar> \<le> 2 ^ (n - 1)"
    and "\<bar>number sg l\<bar> < 2 ^ n"
proof -
  define B where "B = bits_val l"
  have lt: "0 \<le> B" "B < 2 ^ n" using bits_val_lt [of l] assms by (simp_all add: B_def)
  have pow: "2 ^ n = 2 * (2 :: int) ^ (n - 1)" using assms(2) by (simp flip: power_Suc)
  have top: "last l = BIT4_1 \<longleftrightarrow> 2 ^ (n - 1) \<le> B" unfolding B_def by (rule bits_val_top [OF assms])
  have pos: "0 < (2 :: int) ^ (n - 1)" by simp
  have num: "number sg l = (if sg \<and> last l = BIT4_1 then B - 2 ^ n else B)"
    using assms by (auto simp: number_def bits_sval_def B_def)
  show neg: "number sg l < 0 \<longleftrightarrow> sg \<and> last l = BIT4_1" using lt num by auto
  show "number sg l = bits_val l" if "\<not> number sg l < 0" using that neg num by (simp add: B_def)
  show "\<bar>number sg l\<bar> = take_bit n (- bits_val l)" if "number sg l < 0"
  proof -
    from that neg have sg: "sg" "last l = BIT4_1" by simp_all
    moreover have "0 < B" using sg(2) top pos by linarith
    ultimately have sg: "sg" "last l = BIT4_1" "0 < B" by simp_all
    then have "(- B) mod 2 ^ n = 2 ^ n - B" using lt by (simp add: zmod_zminus1_eq_if)
    with sg lt num show ?thesis by (simp add: B_def [symmetric] take_bit_eq_mod)
  qed
  show "\<bar>number sg l\<bar> < 2 ^ n" using lt num top pow pos by auto
  show "sg \<Longrightarrow> \<bar>number sg l\<bar> \<le> 2 ^ (n - 1)" using lt num top pow by auto
qed

text \<open>Narrow operands: the word and the sign.\<close>

lemma strip_sign_number:
  assumes v: "v4_inv v" "v4_size v = n" "known v" and n: "0 < n" "n \<le> 64"
    and r: "strip_sign sg v (word_of_int (bits_val (v4_list v))) = (w, neg)"
  shows "uint w = \<bar>number sg (v4_list v)\<bar>" and "neg \<longleftrightarrow> number sg (v4_list v) < 0"
proof -
  let ?l = "v4_list v" and ?a = "word_of_int (bits_val (v4_list v)) :: ulong"
  have len: "length ?l = n" using v(2) by simp
  note num = number_sign [OF len n(1), of sg]
  have lt: "0 \<le> bits_val ?l" "bits_val ?l < 2 ^ n" using bits_val_lt [of ?l] len by simp_all
  have le: "(2 :: int) ^ n \<le> 2 ^ 64" using n(2) by (intro power_increasing) simp_all
  have "v4_value v (n - 1) = last ?l" using last_v4_list [of v] v(2) n by simp
  moreover have "last ?l \<in> set ?l" using n(1) v(2) by (intro last_in_set) simp
  with v(3) have "\<not> bit4_is_xz (last ?l)" unfolding known_def list_ex_iff by blast
  ultimately have top: "v4_value v (n - 1) \<noteq> BIT4_0 \<longleftrightarrow> last ?l = BIT4_1" by (cases "last ?l") auto
  have ua: "uint ?a = bits_val ?l" using lt le by (simp add: uint_word_of_int mod_pos_pos_trivial)
  have nm: "NOT (if n \<noteq> 64 then push_bit n (- 1) else 0 :: ulong) = mask n"
    using n(2) by (cases "n = 64") (auto intro!: bit_eqI simp: bit_simps)
  have w: "(w, neg) = (if sg \<and> last ?l = BIT4_1 then ((- ?a) AND mask n, True) else (?a, False))"
    using r unfolding strip_sign_def v(2) Let_def top nm by simp
  have "uint ((- ?a) AND mask n) = take_bit n (- bits_val ?l)"
  proof -
    have "(- ?a) AND mask n = take_bit n (word_of_int (- bits_val ?l))" by (simp add: take_bit_eq_mask)
    then show ?thesis using n(2) by (simp only: unsigned_take_bit_eq unsigned_of_int) (simp add: min_def)
  qed
  with w num ua show "uint w = \<bar>number sg ?l\<bar>" "neg \<longleftrightarrow> number sg ?l < 0" by (auto split: if_splits)
qed

text \<open>Division and remainder of the numbers, rounding towards zero.\<close>

lemma bits_of_word: "n \<le> 64 \<Longrightarrow> bits_of n (uint (word_of_int k :: ulong)) = bits_of n k"
  by (rule bits_of_cong) (simp add: unsigned_of_int min_def)

lemma sdiv_smod_parts:
  fixes x y :: int
  assumes "y \<noteq> 0"
  shows "x sdiv y = (if (x < 0) \<noteq> (y < 0) then - (\<bar>x\<bar> div \<bar>y\<bar>) else \<bar>x\<bar> div \<bar>y\<bar>)"
    and "x smod y = (if x < 0 then - (\<bar>x\<bar> mod \<bar>y\<bar>) else \<bar>x\<bar> mod \<bar>y\<bar>)"
  using assms by (auto simp: signed_divide_int_def signed_modulo_int_def sgn_if)

definition div_spec :: "bool \<Rightarrow> nat \<Rightarrow> vvp_arith \<Rightarrow> vvp_bit4_t list" where
  "div_spec sg n s =
    (let x = number sg (v4_list (ar_a s)); y = number sg (v4_list (ar_b s)) in
     if \<not> known (ar_a s) \<or> \<not> known (ar_b s) \<or> y = 0 then replicate n BIT4_X
     else if 64 < n \<and> \<bar>y\<bar> = 1 \<and> 2 ^ (n - 1) < \<bar>x\<bar> then replicate n BIT4_0
     else bits_of n (x sdiv y))"

definition mod_spec :: "bool \<Rightarrow> nat \<Rightarrow> vvp_arith \<Rightarrow> vvp_bit4_t list" where
  "mod_spec sg n s =
    (let x = number sg (v4_list (ar_a s)); y = number sg (v4_list (ar_b s)) in
     if \<not> known (ar_a s) \<or> \<not> known (ar_b s) \<or> y = 0 then replicate n BIT4_X else bits_of n (x smod y))"

lemma narrow_div_mod:
  assumes s: "arith_inv n s" and n: "0 < n" "n \<le> 64"
  shows "gives (arith_div sg s) (div_spec sg n s)" and "gives (arith_mod sg s) (mod_spec sg n s)"
proof -
  let ?x = "number sg (v4_list (ar_a s))" and ?y = "number sg (v4_list (ar_b s))"
  have i: "ar_wid s = n" "v4_inv (ar_a s)" "v4_size (ar_a s) = n" "v4_inv (ar_b s)" "v4_size (ar_b s) = n"
    using s by (simp_all add: arith_inv_def)
  have "gives (arith_div sg s) (div_spec sg n s) \<and> gives (arith_mod sg s) (mod_spec sg n s)"
  proof (cases "known (ar_a s) \<and> known (ar_b s)")
    case False
    with i n gives_x [of s n] show ?thesis
      by (auto simp: arith_div_def arith_mod_def div_spec_def mod_spec_def vector4_to_ulong_spec known_has_xz Let_def)
  next
    case True
    obtain a na where a: "strip_sign sg (ar_a s) (word_of_int (bits_val (v4_list (ar_a s)))) = (a, na)" by fastforce
    obtain b nb where b: "strip_sign sg (ar_b s) (word_of_int (bits_val (v4_list (ar_b s)))) = (b, nb)" by fastforce
    have pa: "uint a = \<bar>?x\<bar>" "na \<longleftrightarrow> ?x < 0" using strip_sign_number [OF i(2,3) _ n a] True by simp_all
    have pb: "uint b = \<bar>?y\<bar>" "nb \<longleftrightarrow> ?y < 0" using strip_sign_number [OF i(4,5) _ n b] True by simp_all
    have zero: "b = 0 \<longleftrightarrow> ?y = 0" using pb(1) by (metis abs_eq_0_iff uint_0_eq unsigned_eq_0_iff)
    have d: "arith_div sg s = (if b = 0 then Some (x_val s) else word_to_vec n (if na \<noteq> nb then - (a div b) else a div b))"
      "arith_mod sg s = (if b = 0 then Some (x_val s) else word_to_vec n (if na then - (a mod b) else a mod b))"
      using i n True a b by (simp_all add: arith_div_def arith_mod_def vector4_to_ulong_spec known_has_xz Let_def)
    show ?thesis
    proof (cases "?y = 0")
      case True
      with zero d gives_x [OF i(1)] show ?thesis by (simp add: div_spec_def mod_spec_def)
    next
      case False
      have "a div b = word_of_int (\<bar>?x\<bar> div \<bar>?y\<bar>)" "a mod b = word_of_int (\<bar>?x\<bar> mod \<bar>?y\<bar>)"
        by (simp_all add: word_div_def word_mod_def pa(1) pb(1))
      then have "(if na \<noteq> nb then - (a div b) else a div b) = word_of_int (?x sdiv ?y)"
        "(if na then - (a mod b) else a mod b) = word_of_int (?x smod ?y)"
        using pa(2) pb(2) sdiv_smod_parts [OF False, of ?x] by simp_all
      then have "gives (arith_div sg s) (bits_of n (?x sdiv ?y))" "gives (arith_mod sg s) (bits_of n (?x smod ?y))"
        using d zero False word_to_vec_gives [of n "word_of_int (?x sdiv ?y)"] word_to_vec_gives [of n "word_of_int (?x smod ?y)"]
          bits_of_word [OF n(2)] by simp_all
      with False True n(2) \<open>known (ar_a s) \<and> known (ar_b s)\<close> show ?thesis by (simp add: div_spec_def mod_spec_def)
    qed
  qed
  then show "gives (arith_div sg s) (div_spec sg n s)" "gives (arith_mod sg s) (mod_spec sg n s)" by simp_all
qed

text \<open>Wide operands.\<close>

lemma v2_is_zero_val: "v2_inv v \<Longrightarrow> v2_is_zero v \<longleftrightarrow> v2_val v = 0"
proof -
  assume v: "v2_inv v"
  have len: "length (v2_vec v) = words_for (v2_wid v)" using v by (simp add: v2_inv_def)
  have "v2_val v = 0 \<longleftrightarrow> v2_vec v = replicate (length (v2_vec v)) 0"
    unfolding v2_val_def using pval_inj [of "v2_vec v" "replicate (length (v2_vec v)) 0"] by (metis length_replicate pval_replicate_0)
  then show ?thesis by (auto simp: v2_is_zero_def len list_eq_iff_nth_eq)
qed

lemma wide_operand:
  assumes v: "v4_inv v" "v4_size v = n" and n: "0 < n"
  obtains r where "v2_of_vector4 v True = Some r" and "v2_inv r" and "v2_is_NaN r \<longleftrightarrow> \<not> known v"
    and "known v \<longrightarrow> v2_wid r = n \<and> v2_val r = bits_val (v4_list v)"
    and "known v \<longrightarrow> (v2_is_zero r \<longleftrightarrow> number sg (v4_list v) = 0)"
    and "known v \<longrightarrow> (sg \<and> v2_top r \<longleftrightarrow> number sg (v4_list v) < 0)"
    and "known v \<longrightarrow> (\<exists>m. negate_if (sg \<and> v2_top r) r = Some m \<and> v2_inv m \<and> v2_wid m = n \<and> v2_val m = \<bar>number sg (v4_list v)\<bar>)"
proof -
  let ?l = "v4_list v"
  have len: "length ?l = n" using v by simp
  note num = number_sign [OF len n, of sg]
  obtain r where r: "v2_of_vector4 v True = Some r" "v2_inv r"
    "if True \<and> v4_has_xz v then r = v2_nil else v2_wid r = v4_size v \<and> v2_val r = bits_val ?l"
    by (rule v2_of_vector4 [OF v(1)])
  have val: "v2_wid r = n \<and> v2_val r = bits_val ?l" if "known v" using that r(3) v by (simp add: known_has_xz)
  have nan: "v2_is_NaN r \<longleftrightarrow> \<not> known v"
    using r(3) v n by (auto simp: known_has_xz v2_is_NaN_def v2_nil_def split: if_splits)
  have zero: "v2_is_zero r \<longleftrightarrow> number sg ?l = 0" if "known v"
    using v2_is_zero_val [OF r(2)] val [OF that] num(2,3) bits_val_lt [of ?l] len
    by (cases "number sg ?l < 0") (auto simp: take_bit_eq_mod)
  have top: "sg \<and> v2_top r \<longleftrightarrow> number sg ?l < 0" if "known v"
  proof -
    have "v2_top r \<longleftrightarrow> bit (bits_val ?l) (n - 1)" using val [OF that] v2_value_bit [OF r(2)] by (simp add: v2_top_def)
    also have "\<dots> \<longleftrightarrow> last ?l = BIT4_1" using len n by (simp add: bit_bits_val last_v4_list v)
    finally show ?thesis using num(1) by simp
  qed
  have neg: "\<exists>m. negate_if (sg \<and> v2_top r) r = Some m \<and> v2_inv m \<and> v2_wid m = n \<and> v2_val m = \<bar>number sg ?l\<bar>" if k: "known v"
  proof (cases "number sg ?l < 0")
    case True
    obtain m where "v2_neg r = Some m" "v2_inv m" "v2_wid m = v2_wid r" "v2_val m = take_bit (v2_wid r) (- v2_val r)"
      by (rule v2_neg [OF r(2)])
    with True num(2) val [OF k] top [OF k] show ?thesis by (simp add: negate_if_def)
  next
    case False
    with num(3) val [OF k] top [OF k] r(2) show ?thesis by (auto simp: negate_if_def)
  qed
  show thesis by (rule that [OF r(1,2) nan]) (use val zero top neg in blast)+
qed

lemma negate_result:
  assumes "v2_inv r" and "v2_wid r = n"
  shows "gives (Option.bind (negate_if c r) (\<lambda>res. vector2_to_vector4 res n)) (bits_of n (if c then - v2_val r else v2_val r))"
    and "gives (Option.bind (negate_if c r) (\<lambda>res. vector2_to_vector4 res (v2_wid res))) (bits_of n (if c then - v2_val r else v2_val r))"
proof -
  have "\<exists>m. negate_if c r = Some m \<and> v2_inv m \<and> v2_wid m = n \<and> bits_of n (v2_val m) = bits_of n (if c then - v2_val r else v2_val r)"
  proof (cases c)
    case True
    obtain m where "v2_neg r = Some m" "v2_inv m" "v2_wid m = v2_wid r" "v2_val m = take_bit (v2_wid r) (- v2_val r)"
      by (rule v2_neg [OF assms(1)])
    with True assms show ?thesis by (auto simp: negate_if_def intro: bits_of_cong)
  qed (use assms in \<open>simp add: negate_if_def\<close>)
  then obtain m where m: "negate_if c r = Some m" "v2_inv m" "v2_wid m = n"
    "bits_of n (v2_val m) = bits_of n (if c then - v2_val r else v2_val r)" by blast
  obtain v where "vector2_to_vector4 m n = Some v" "v4_inv v" "v4_list v = bits_of n (v2_val m)"
    by (rule vector2_to_vector4_spec [OF m(2)])
  with m show "gives (Option.bind (negate_if c r) (\<lambda>res. vector2_to_vector4 res n)) (bits_of n (if c then - v2_val r else v2_val r))"
    "gives (Option.bind (negate_if c r) (\<lambda>res. vector2_to_vector4 res (v2_wid res))) (bits_of n (if c then - v2_val r else v2_val r))"
    by (simp_all add: gives_def)
qed

lemma bits_of_0: "bits_of n 0 = replicate n BIT4_0"
  by (auto simp: bits_of_def intro: nth_equalityI)

lemma wide_div_mod:
  assumes s: "arith_inv n s" and n: "64 < n"
  shows "gives (arith_div sg s) (div_spec sg n s)" and "gives (arith_mod sg s) (mod_spec sg n s)"
proof -
  let ?x = "number sg (v4_list (ar_a s))" and ?y = "number sg (v4_list (ar_b s))"
  have i: "ar_wid s = n" "v4_inv (ar_a s)" "v4_size (ar_a s) = n" "v4_inv (ar_b s)" "v4_size (ar_b s) = n" and n0: "0 < n"
    using s n by (simp_all add: arith_inv_def)
  obtain a where a: "v2_of_vector4 (ar_a s) True = Some a" "v2_inv a" "v2_is_NaN a \<longleftrightarrow> \<not> known (ar_a s)"
    "known (ar_a s) \<longrightarrow> v2_wid a = n \<and> v2_val a = bits_val (v4_list (ar_a s))"
    "known (ar_a s) \<longrightarrow> (v2_is_zero a \<longleftrightarrow> ?x = 0)"
    "known (ar_a s) \<longrightarrow> (sg \<and> v2_top a \<longleftrightarrow> ?x < 0)"
    "known (ar_a s) \<longrightarrow> (\<exists>m. negate_if (sg \<and> v2_top a) a = Some m \<and> v2_inv m \<and> v2_wid m = n \<and> v2_val m = \<bar>?x\<bar>)"
    by (rule wide_operand [OF i(2,3) n0, where sg = sg])
  obtain b where b: "v2_of_vector4 (ar_b s) True = Some b" "v2_inv b" "v2_is_NaN b \<longleftrightarrow> \<not> known (ar_b s)"
    "known (ar_b s) \<longrightarrow> v2_wid b = n \<and> v2_val b = bits_val (v4_list (ar_b s))"
    "known (ar_b s) \<longrightarrow> (v2_is_zero b \<longleftrightarrow> ?y = 0)"
    "known (ar_b s) \<longrightarrow> (sg \<and> v2_top b \<longleftrightarrow> ?y < 0)"
    "known (ar_b s) \<longrightarrow> (\<exists>m. negate_if (sg \<and> v2_top b) b = Some m \<and> v2_inv m \<and> v2_wid m = n \<and> v2_val m = \<bar>?y\<bar>)"
    by (rule wide_operand [OF i(4,5) n0, where sg = sg])
  have "gives (arith_div sg s) (div_spec sg n s) \<and> gives (arith_mod sg s) (mod_spec sg n s)"
  proof (cases "known (ar_a s) \<and> known (ar_b s) \<and> ?y \<noteq> 0")
    case False
    with a b i n gives_x [OF i(1)] show ?thesis
      by (auto simp: arith_div_def arith_div_wide_def arith_mod_def arith_mod_wide_def div_spec_def mod_spec_def Let_def)
  next
    case True
    then obtain a' where a': "negate_if (sg \<and> v2_top a) a = Some a'" "v2_inv a'" "v2_wid a' = n" "v2_val a' = \<bar>?x\<bar>" using a(7) by blast
    obtain b' where b': "negate_if (sg \<and> v2_top b) b = Some b'" "v2_inv b'" "v2_val b' = \<bar>?y\<bar>" using b(7) True by blast
    have pos: "0 < v2_val b'" using True b'(3) by simp
    obtain q r where qr: "div_mod a' b' = Some (q, r)" "v2_inv q" "v2_wid q = v2_wid a'" "v2_inv r" "v2_wid r = v2_wid a'"
      "v2_val r = v2_val a' mod v2_val b'"
      "v2_val q = (if v2_val b' = 1 \<and> 2 ^ (v2_wid a' - 1) < v2_val a' then 0 else v2_val a' div v2_val b')"
      by (rule div_mod_spec [OF a'(2) b'(2) pos])
    have eq: "arith_div sg s = Option.bind (negate_if ((?x < 0) \<noteq> (?y < 0)) q) (\<lambda>res. vector2_to_vector4 res n)"
      "arith_mod sg s = Option.bind (negate_if (?x < 0) r) (\<lambda>res. vector2_to_vector4 res (v2_wid res))"
      using a b a' b' qr(1) True n i(1) by (simp_all add: arith_div_def arith_div_wide_def arith_mod_def arith_mod_wide_def Let_def
          v2_div_def v2_mod_def)
    have "gives (arith_div sg s) (div_spec sg n s)"
      using negate_result(1) [OF qr(2), of n "(?x < 0) \<noteq> (?y < 0)"] eq(1) qr(3,7) a'(3,4) b'(3) True n
        sdiv_smod_parts(1) [of ?y ?x] by (auto simp: div_spec_def Let_def bits_of_0 split: if_splits)
    moreover have "gives (arith_mod sg s) (mod_spec sg n s)"
      using negate_result(2) [OF qr(4), of n "?x < 0"] eq(2) qr(5,6) a'(3,4) b'(3) True sdiv_smod_parts(2) [of ?y ?x]
      by (auto simp: mod_spec_def Let_def split: if_splits)
    ultimately show ?thesis by simp
  qed
  then show "gives (arith_div sg s) (div_spec sg n s)" "gives (arith_mod sg s) (mod_spec sg n s)" by simp_all
qed

lemma arith_div_mod:
  assumes "arith_inv n s" and "0 < n"
  shows "gives (arith_div sg s) (div_spec sg n s)" and "gives (arith_mod sg s) (mod_spec sg n s)"
  using narrow_div_mod [OF assms] wide_div_mod [OF assms(1)] by (cases "n \<le> 64"; simp)+

text \<open>The ripple carry: the sum of the two bit sequences and the first carry, or the early exit.\<close>

lemma bits_val_Cons: "bits_val (b # bs) = of_bool (b = BIT4_1) + 2 * bits_val bs"
  by (simp add: bits_val_def)

lemma ripple:
  assumes "v4_inv v" and "v4_size v = n" and "\<not> bit4_is_xz c" and "k \<le> n"
  shows "if \<exists>i\<in>{k..<n}. bit4_is_xz (fa i) \<or> bit4_is_xz (fb i) then ripple fa fb [k..<n] c v = Some None
    else \<exists>r. ripple fa fb [k..<n] c v = Some (Some r) \<and> v4_inv r \<and> v4_size r = n \<and> (\<forall>i < k. v4_value r i = v4_value v i)
      \<and> (\<forall>i\<in>{k..<n}. \<not> bit4_is_xz (v4_value r i))
      \<and> bits_val (map (v4_value r) [k..<n])
        = take_bit (n - k) (bits_val (map fa [k..<n]) + bits_val (map fb [k..<n]) + bit4_num c)"
  using assms
proof (induction "n - k" arbitrary: k c v)
  case 0
  then show ?case by (simp add: bits_val_def)
next
  case (Suc m)
  have k: "k < n" and up: "[k..<n] = k # [Suc k..<n]" and m: "m = n - Suc k" and nk: "n - k = Suc m"
    using Suc.hyps(2) upt_conv_Cons [of k n] by linarith+
  have iv: "{k..<n} = insert k {Suc k..<n}" using k by auto
  show ?case
  proof (cases "bit4_is_xz (fa k) \<or> bit4_is_xz (fb k)")
    case True
    then have "ripple fa fb [k..<n] c v = Some None" using up by (auto simp: bit4_add_with_carry_def)
    with True iv show ?thesis by auto
  next
    case False
    then obtain s c' where sc: "bit4_add_with_carry (fa k) (fb k) c = Some (s, c')"
      "\<not> bit4_is_xz s" "\<not> bit4_is_xz c'" "bit4_int s + 2 * bit4_int c' = bit4_int (fa k) + bit4_int (fb k) + bit4_int c"
      using bit4_add_with_carry_known [OF _ _ Suc.prems(3), of "fa k" "fb k"] by blast
    have num: "int (bit4_int b) = of_bool (b = BIT4_1)" if "\<not> bit4_is_xz b" for b
      using that by (cases b) simp_all
    have sum: "of_bool (fa k = BIT4_1) + of_bool (fb k = BIT4_1) + bit4_num c = of_bool (s = BIT4_1) + 2 * bit4_num c'"
      using arg_cong [OF sc(4), of int] sc(2,3) Suc.prems(3) False num by (simp add: bit4_num_def)
    obtain u where u: "v4_set_bit v k s = Some u" "v4_inv u" "v4_size u = n"
      "\<forall>j < n. v4_value u j = (if j = k then s else v4_value v j)"
      using v4.set_bit_in [of v k s] Suc.prems(1,2) k by auto
    have go: "ripple fa fb [k..<n] c v = ripple fa fb [Suc k..<n] c' u" using up sc(1,2) u(1) by (cases s) auto
    note IH = Suc.hyps(1) [OF m u(2,3) sc(3) Suc_leI [OF k]]
    show ?thesis
    proof (cases "\<exists>i\<in>{Suc k..<n}. bit4_is_xz (fa i) \<or> bit4_is_xz (fb i)")
      case True
      with IH go iv show ?thesis by auto
    next
      case known: False
      then obtain r where r: "ripple fa fb [Suc k..<n] c' u = Some (Some r)" "v4_inv r" "v4_size r = n"
        "\<forall>i < Suc k. v4_value r i = v4_value u i" "\<forall>i\<in>{Suc k..<n}. \<not> bit4_is_xz (v4_value r i)"
        "bits_val (map (v4_value r) [Suc k..<n])
          = take_bit m (bits_val (map fa [Suc k..<n]) + bits_val (map fb [Suc k..<n]) + bit4_num c')" using IH m by auto
      have rk: "v4_value r k = s" using r(4) u(4) k by simp
      define A B where "A = bits_val (map fa [Suc k..<n])" and "B = bits_val (map fb [Suc k..<n])"
      have "bits_val (map fa [k..<n]) + bits_val (map fb [k..<n]) + bit4_num c
          = (of_bool (fa k = BIT4_1) + of_bool (fb k = BIT4_1) + bit4_num c) + 2 * (A + B)"
        by (simp add: up bits_val_Cons A_def B_def)
      then have eq: "bits_val (map fa [k..<n]) + bits_val (map fb [k..<n]) + bit4_num c
          = of_bool (s = BIT4_1) + 2 * (A + B + bit4_num c')" unfolding sum by simp
      have half: "take_bit (Suc m) (of_bool c + 2 * (x :: int)) = of_bool c + 2 * take_bit m x" for c x
        by (cases c) (simp_all add: take_bit_Suc)
      have "bits_val (map (v4_value r) [k..<n])
          = take_bit (n - k) (bits_val (map fa [k..<n]) + bits_val (map fb [k..<n]) + bit4_num c)"
        unfolding nk eq half unfolding up list.map bits_val_Cons rk r(6) A_def B_def ..
      then show ?thesis using known False iv go r rk sc(2) u(4) k by auto
    qed
  qed
qed

lemma ripple_gives:
  fixes fa fb n
  defines "xs \<equiv> map fa [0..<n]" and "ys \<equiv> map fb [0..<n]"
  assumes "ar_wid s = n" and "\<not> bit4_is_xz c"
  shows "gives (map_option (\<lambda>r. case r of None \<Rightarrow> x_val s | Some v \<Rightarrow> v) (ripple fa fb [0..<n] c (v4_fill n BIT4_X)))
    (if list_ex bit4_is_xz xs \<or> list_ex bit4_is_xz ys then replicate n BIT4_X
     else bits_of n (bits_val xs + bits_val ys + bit4_num c))"
proof -
  have ex: "(\<exists>i\<in>{0..<n}. bit4_is_xz (fa i) \<or> bit4_is_xz (fb i)) \<longleftrightarrow> list_ex bit4_is_xz xs \<or> list_ex bit4_is_xz ys"
    by (auto simp: xs_def ys_def list_ex_iff)
  note R = ripple [OF v4_fill_inv, of n BIT4_X n c 0 fa fb, unfolded ex]
  show ?thesis
  proof (cases "list_ex bit4_is_xz xs \<or> list_ex bit4_is_xz ys")
    case True
    with R assms(4) gives_x [OF assms(3)] show ?thesis by simp
  next
    case False
    then obtain r where r: "ripple fa fb [0..<n] c (v4_fill n BIT4_X) = Some (Some r)" "v4_inv r" "v4_size r = n"
      "\<forall>i\<in>{0..<n}. \<not> bit4_is_xz (v4_value r i)"
      "bits_val (map (v4_value r) [0..<n]) = take_bit n (bits_val xs + bits_val ys + bit4_num c)"
      using R assms(4) by (auto simp: xs_def ys_def)
    have "v4_list r = map (v4_value r) [0..<n]" using r(3) by (simp add: v4_list_def)
    then have "v4_list r = bits_of n (bits_val xs + bits_val ys + bit4_num c)"
      using known_bits_of [of "v4_list r" "bits_val xs + bits_val ys + bit4_num c"] r(3,4,5)
      by (auto simp: list_ex_iff)
    with False r show ?thesis by (simp add: gives_def)
  qed
qed

definition modular :: "(int \<Rightarrow> int \<Rightarrow> int) \<Rightarrow> nat \<Rightarrow> vvp_arith \<Rightarrow> vvp_bit4_t list" where
  "modular f n s = (if known (ar_a s) \<and> known (ar_b s)
     then bits_of n (f (bits_val (v4_list (ar_a s))) (bits_val (v4_list (ar_b s)))) else replicate n BIT4_X)"

lemma padded_list: "v4_size v = n \<Longrightarrow> map (padded p f v) [0..<n] = map f (v4_list v)"
  by (auto simp: padded_def v4_list_def)

lemma v4_not_xz: "bit4_is_xz (bit4_not b) \<longleftrightarrow> bit4_is_xz b"
  by (cases b) simp_all

lemma bits_val_not:
  assumes "\<not> list_ex bit4_is_xz l"
  shows "bits_val (map bit4_not l) = 2 ^ length l - 1 - bits_val l"
  using assms
proof (induction l)
  case (Cons b l)
  then show ?case by (cases b) (simp_all add: bits_val_Cons)
qed (simp add: bits_val_def)

lemma arith_sum_sub:
  assumes "arith_inv n s"
  shows "gives (arith_sum s) (modular (+) n s)" and "gives (arith_sub s) (modular (-) n s)"
proof -
  let ?a = "v4_list (ar_a s)" and ?b = "v4_list (ar_b s)"
  have i: "ar_wid s = n" "v4_size (ar_a s) = n" "v4_size (ar_b s) = n" using assms by (simp_all add: arith_inv_def)
  show "gives (arith_sum s) (modular (+) n s)"
    using ripple_gives [OF i(1), of BIT4_0 "padded BIT4_0 id (ar_a s)" "padded BIT4_0 id (ar_b s)"] i
    by (auto simp: arith_sum_def modular_def padded_list known_def bit4_num_def)
  have nx: "list_ex bit4_is_xz (map bit4_not ?b) \<longleftrightarrow> list_ex bit4_is_xz ?b"
    using v4_not_xz by (simp add: list_ex_iff)
  have "take_bit n (bits_val ?a + (2 ^ n - 1 - bits_val ?b) + 1) = take_bit n (bits_val ?a - bits_val ?b)"
  proof -
    have "bits_val ?a + (2 ^ n - 1 - bits_val ?b) + 1 = (bits_val ?a - bits_val ?b) + 2 ^ n" by simp
    then show ?thesis unfolding take_bit_eq_mod by (simp only: mod_add_self2)
  qed
  then have "bits_of n (bits_val ?a + (2 ^ n - 1 - bits_val ?b) + 1) = bits_of n (bits_val ?a - bits_val ?b)" by (rule bits_of_cong)
  then show "gives (arith_sub s) (modular (-) n s)"
    using ripple_gives [OF i(1), of BIT4_1 "padded BIT4_1 id (ar_a s)" "padded BIT4_1 bit4_not (ar_b s)"] i
      bits_val_not [of ?b] by (auto simp: arith_sub_def modular_def padded_list known_def bit4_num_def nx)
qed

lemma arith_mult:
  assumes "arith_inv n s" and "0 < n"
  shows "gives (arith_mult s) (modular (*) n s)"
proof -
  let ?x = "bits_val (v4_list (ar_a s))" and ?y = "bits_val (v4_list (ar_b s))"
  have i: "ar_wid s = n" "v4_inv (ar_a s)" "v4_size (ar_a s) = n" "v4_inv (ar_b s)" "v4_size (ar_b s) = n"
    using assms by (simp_all add: arith_inv_def)
  have xz: "known v \<longleftrightarrow> \<not> (\<exists>i < min n 64. bit4_is_xz (v4_value v i))" if "v4_size v = n" "n \<le> 64" for v
    using that by (auto simp: known_def list_ex_iff set_v4_list)
  show ?thesis
  proof (cases "n \<le> 64")
    case True
    have read: "(vector4_to_value v False True :: bool \<times> 64 word option)
        = (if known v then (True, Some (word_of_int (bits_val (v4_list v)))) else (False, None))" if "v4_inv v" "v4_size v = n" for v
      using that True xz [of v] by (simp add: vector4_to_value_spec Let_def)
    have "arith_mult s = (if known (ar_a s) \<and> known (ar_b s) then word_to_vec n (word_of_int (?x * ?y)) else Some (x_val s))"
      using True i by (simp add: arith_mult_def read)
    then show ?thesis
      using word_to_vec_gives [of n "word_of_int (?x * ?y)"] gives_x [OF i(1)] unfolding bits_of_word [OF True, of "?x * ?y"]
      by (simp add: modular_def)
  next
    case False
    obtain a where a: "v2_of_vector4 (ar_a s) True = Some a" "v2_inv a" "v2_is_NaN a \<longleftrightarrow> \<not> known (ar_a s)"
      "known (ar_a s) \<longrightarrow> v2_wid a = n \<and> v2_val a = ?x" by (rule wide_operand [OF i(2,3) assms(2), where sg = False])
    obtain b where b: "v2_of_vector4 (ar_b s) True = Some b" "v2_inv b" "v2_is_NaN b \<longleftrightarrow> \<not> known (ar_b s)"
      "known (ar_b s) \<longrightarrow> v2_wid b = n \<and> v2_val b = ?y" by (rule wide_operand [OF i(4,5) assms(2), where sg = False])
    show ?thesis
    proof (cases "known (ar_a s) \<and> known (ar_b s)")
      case True
      obtain r where r: "v2_mul a b = Some r" "v2_inv r" "v2_wid r = v2_wid a" "v2_val r = take_bit (v2_wid a) (v2_val a * v2_val b)"
        by (rule v2_mul [OF a(2) b(2)]) (use a b True in simp)
      obtain v where v: "vector2_to_vector4 r n = Some v" "v4_inv v" "v4_list v = bits_of n (v2_val r)"
        by (rule vector2_to_vector4_spec [OF r(2)])
      have "bits_of n (v2_val r) = bits_of n (?x * ?y)" using r(4) a(4) b(4) True by (intro bits_of_cong) simp
      with v r a b True False i(1) show ?thesis by (simp add: arith_mult_def arith_mult_wide_def modular_def gives_def)
    qed (use a b False i(1) gives_x [OF i(1)] in \<open>auto simp: arith_mult_def arith_mult_wide_def modular_def\<close>)
  qed
qed

section \<open>Comparisons, shifts and absolute value on bit lists\<close>

definition verdict_of :: "(vvp_bit4_t \<Rightarrow> vvp_bit4_t \<Rightarrow> verdict) \<Rightarrow> vvp_bit4_t \<Rightarrow> vvp_bit4_t
    \<Rightarrow> vvp_bit4_t list \<Rightarrow> vvp_bit4_t list \<Rightarrow> vvp_bit4_t" where
  "verdict_of f start decided xs ys =
    (if list_ex (\<lambda>(x, y). f x y = DECIDE) (zip xs ys) then decided
     else if list_ex (\<lambda>(x, y). f x y = UNKNOWN) (zip xs ys) then BIT4_X else start)"

lemma cmp_loop:
  "cmp_loop f d a b is res =
    (if \<exists>i\<in>set is. f (v4_value a i) (v4_value b i) = DECIDE then d
     else if \<exists>i\<in>set is. f (v4_value a i) (v4_value b i) = UNKNOWN then BIT4_X else res)"
  by (induction "is" arbitrary: res) (auto split: verdict.split)

lemma one_bit: "gives (v4_set_bit (v4_fill 1 BIT4_X) 0 b) [b]"
proof -
  obtain v where "v4_set_bit (v4_fill 1 BIT4_X) 0 b = Some v" "v4_inv v" "v4_list v = (v4_list (v4_fill 1 BIT4_X))[0 := b]"
    by (rule v4_set_bit_list [OF v4_fill_inv, of 0 1]) simp
  then show ?thesis by (simp add: gives_def v4_fill_list)
qed

lemma cmp_calc:
  assumes "v4_size (ar_a s) = v4_size (ar_b s)"
  shows "gives (cmp_calc f start d s) [verdict_of f start d (v4_list (ar_a s)) (v4_list (ar_b s))]"
proof -
  have "zip (v4_list (ar_a s)) (v4_list (ar_b s)) = map (\<lambda>i. (v4_value (ar_a s) i, v4_value (ar_b s) i)) [0..<v4_size (ar_a s)]"
    using assms by (auto intro: nth_equalityI)
  then have "cmp_loop f d (ar_a s) (ar_b s) [0..<v4_size (ar_a s)] start = verdict_of f start d (v4_list (ar_a s)) (v4_list (ar_b s))"
    by (simp add: cmp_loop verdict_of_def list_ex_iff)
  with assms show ?thesis using one_bit by (simp add: cmp_calc_def)
qed

lemma verdict_eeq:
  assumes "length xs = length ys"
  shows "verdict_of eeq_verdict BIT4_1 BIT4_0 xs ys = (if xs = ys then BIT4_1 else BIT4_0)"
    and "verdict_of eeq_verdict BIT4_0 BIT4_1 xs ys = (if xs = ys then BIT4_0 else BIT4_1)"
  using assms by (induction rule: list_induct2) (auto simp: verdict_of_def eeq_verdict_def split: if_splits)

text \<open>The logical comparison: certain difference, certain equality, or x.\<close>

lemma verdict_eq:
  assumes "length xs = length ys"
  shows "verdict_of eq_verdict st d xs ys =
    (if \<exists>i < length xs. \<not> bit4_is_xz (xs ! i) \<and> \<not> bit4_is_xz (ys ! i) \<and> xs ! i \<noteq> ys ! i then d
     else if list_ex bit4_is_xz xs \<or> list_ex bit4_is_xz ys then BIT4_X else st)"
proof -
  have "eq_verdict x y = DECIDE \<longleftrightarrow> \<not> bit4_is_xz x \<and> \<not> bit4_is_xz y \<and> x \<noteq> y"
    "eq_verdict x y = UNKNOWN \<longleftrightarrow> bit4_is_xz x \<or> bit4_is_xz y" for x y
    by (cases x; cases y; simp add: eq_verdict_def)+
  with assms show ?thesis by (auto simp: verdict_of_def list_ex_length)
qed

text \<open>The wildcard comparisons ignore the bits where the pattern is x or z, or z alone.\<close>

lemma verdict_wild:
  assumes "length xs = length ys"
  shows "verdict_of eqx_verdict BIT4_1 BIT4_0 xs ys =
      (if \<forall>i < length xs. bit4_is_xz (ys ! i) \<or> xs ! i = ys ! i then BIT4_1 else BIT4_0)"
    and "verdict_of eqz_verdict BIT4_1 BIT4_0 xs ys =
      (if \<forall>i < length xs. ys ! i = BIT4_Z \<or> xs ! i = ys ! i then BIT4_1 else BIT4_0)"
    and "verdict_of weq_verdict st d xs ys =
      (if \<exists>i < length xs. \<not> bit4_is_xz (ys ! i) \<and> \<not> bit4_is_xz (xs ! i) \<and> xs ! i \<noteq> ys ! i then d
       else if \<exists>i < length xs. \<not> bit4_is_xz (ys ! i) \<and> bit4_is_xz (xs ! i) then BIT4_X else st)"
proof -
  have x: "eqx_verdict x y = DECIDE \<longleftrightarrow> \<not> (bit4_is_xz y \<or> x = y)" "eqx_verdict x y \<noteq> UNKNOWN"
    and z: "eqz_verdict x y = DECIDE \<longleftrightarrow> \<not> (y = BIT4_Z \<or> x = y)" "eqz_verdict x y \<noteq> UNKNOWN"
    and w: "weq_verdict x y = DECIDE \<longleftrightarrow> \<not> bit4_is_xz y \<and> \<not> bit4_is_xz x \<and> x \<noteq> y"
      "weq_verdict x y = UNKNOWN \<longleftrightarrow> \<not> bit4_is_xz y \<and> bit4_is_xz x" for x y
    by (cases x; cases y; simp add: eqx_verdict_def eqz_verdict_def weq_verdict_def)+
  show "verdict_of eqx_verdict BIT4_1 BIT4_0 xs ys =
      (if \<forall>i < length xs. bit4_is_xz (ys ! i) \<or> xs ! i = ys ! i then BIT4_1 else BIT4_0)"
    using assms by (auto simp: verdict_of_def list_ex_length x)
  show "verdict_of eqz_verdict BIT4_1 BIT4_0 xs ys =
      (if \<forall>i < length xs. ys ! i = BIT4_Z \<or> xs ! i = ys ! i then BIT4_1 else BIT4_0)"
    using assms by (auto simp: verdict_of_def list_ex_length z)
  show "verdict_of weq_verdict st d xs ys =
      (if \<exists>i < length xs. \<not> bit4_is_xz (ys ! i) \<and> \<not> bit4_is_xz (xs ! i) \<and> xs ! i \<noteq> ys ! i then d
       else if \<exists>i < length xs. \<not> bit4_is_xz (ys ! i) \<and> bit4_is_xz (xs ! i) then BIT4_X else st)"
    using assms by (auto simp: verdict_of_def list_ex_length w)
qed

lemma cmp_gtge:
  assumes "arith_inv n s" and "0 < n"
  shows "gives (cmp_gtge_base out sg s)
    [if known (ar_a s) \<and> known (ar_b s) then order_bit (number sg (v4_list (ar_a s))) (number sg (v4_list (ar_b s))) out else BIT4_X]"
  using assms compare_gtge_spec [of "ar_a s" "ar_b s" out] compare_gtge_signed_spec [of "ar_a s" "ar_b s" out] one_bit
  by (cases sg) (auto simp: cmp_gtge_base_def arith_inv_def number_def known_has_xz)

text \<open>The shifts, for a distance of any width.\<close>

lemma shift_amount:
  fixes k :: int
  assumes "0 \<le> k" and "n < 2 ^ 64"
  shows "shift_amount n (k \<ge> 2 ^ 64, word_of_int k) = min n (nat k)"
proof (cases "2 ^ 64 \<le> k")
  case True
  then have "n \<le> nat k" using assms by (simp add: le_nat_iff)
  with True show ?thesis by (simp add: shift_amount_def)
next
  case False
  then have "unat (word_of_int k :: ulong) = nat k" using assms(1) by (simp add: unat_eq_nat_uint uint_word_of_int mod_pos_pos_trivial)
  with False show ?thesis by (simp add: shift_amount_def)
qed

definition shiftl_bits :: "vvp_bit4_t list \<Rightarrow> nat \<Rightarrow> vvp_bit4_t list" where
  "shiftl_bits l k = take (length l) (replicate k BIT4_0 @ l)"

definition shiftr_bits :: "bool \<Rightarrow> vvp_bit4_t list \<Rightarrow> nat \<Rightarrow> vvp_bit4_t list" where
  "shiftr_bits sg l k = drop k l @ replicate (min k (length l)) (if sg \<and> l \<noteq> [] then last l else BIT4_0)"

lemma shiftl_bits_nth:
  "length (shiftl_bits l k) = length l"
  "i < length l \<Longrightarrow> shiftl_bits l k ! i = (if i < k then BIT4_0 else l ! (i - k))"
  by (auto simp: shiftl_bits_def nth_append)

lemma arith_shiftl:
  assumes "v4_inv (ar_a s)" and "v4_inv (ar_b s)" and "v4_size (ar_a s) = n" and "ar_wid s = n" and "n < 2 ^ 64"
  shows "gives (arith_shiftl s) (if known (ar_b s) then shiftl_bits (v4_list (ar_a s)) (nat (bits_val (v4_list (ar_b s))))
    else replicate n BIT4_X)"
proof (cases "known (ar_b s)")
  case True
  let ?k = "nat (bits_val (v4_list (ar_b s)))" and ?a = "ar_a s"
  define h where "h = min n ?k"
  have h: "h \<le> n" by (simp add: h_def)
  obtain u where u: "for_each (\<lambda>i v. v4_set_bit v (0 + i) BIT4_0) [0..<h] (v4_fill n BIT4_X) = Some u" "v4_inv u" "v4_size u = n"
    "\<And>j. j < n \<Longrightarrow> v4_value u j = (if 0 \<le> j \<and> j < 0 + h then BIT4_0 else v4_value (v4_fill n BIT4_X) j)"
    using v4.set_range [OF v4_fill_inv, of 0 h n BIT4_X "\<lambda>_. BIT4_0"] h by auto
  obtain w where w: "for_each (\<lambda>i v. v4_set_bit v (h + i) (v4_value ?a i)) [0..<n - h] u = Some w" "v4_inv w" "v4_size w = n"
    "\<And>j. j < n \<Longrightarrow> v4_value w j = (if h \<le> j \<and> j < h + (n - h) then v4_value ?a (j - h) else v4_value u j)"
    using v4.set_range [OF u(2), of h "n - h" "v4_value ?a"] h u(3) by auto
  have "arith_shiftl s = Some w"
    using True assms u(1) w(1) for_each_shift [of "\<lambda>idx out. v4_set_bit out idx (v4_value ?a (idx - h))" h "n - h" u] h
      shift_amount [OF bits_val_nonneg assms(5), of "v4_list (ar_b s)"]
    by (simp add: arith_shiftl_def vector4_to_ulong_spec known_has_xz Let_def h_def [symmetric])
  moreover have "v4_list w = shiftl_bits (v4_list ?a) ?k"
    using w(3,4) u(4) h assms(3) by (intro v4_listI) (auto simp: shiftl_bits_nth h_def)
  ultimately show ?thesis using True w(2) by (simp add: gives_def)
qed (use assms gives_x [of s n] in \<open>simp add: arith_shiftl_def vector4_to_ulong_spec known_has_xz\<close>)

lemma arith_shiftr:
  assumes "v4_inv (ar_a s)" and "v4_inv (ar_b s)" and "v4_size (ar_a s) = n" and "ar_wid s = n" and "n < 2 ^ 64"
  shows "gives (arith_shiftr sg s) (if known (ar_b s) then shiftr_bits sg (v4_list (ar_a s)) (nat (bits_val (v4_list (ar_b s))))
    else replicate n BIT4_X)"
proof (cases "known (ar_b s)")
  case True
  let ?k = "nat (bits_val (v4_list (ar_b s)))" and ?a = "ar_a s" and ?pad = "if sg \<and> n > 0 then v4_value (ar_a s) (n - 1) else BIT4_0"
  define h where "h = min n ?k"
  have h: "h \<le> n" by (simp add: h_def)
  obtain u where u: "for_each (\<lambda>i v. v4_set_bit v (0 + i) (v4_value ?a (h + i))) [0..<n - h] (v4_fill n BIT4_X) = Some u" "v4_inv u" "v4_size u = n"
    "\<And>j. j < n \<Longrightarrow> v4_value u j = (if 0 \<le> j \<and> j < 0 + (n - h) then v4_value ?a (h + (j - 0)) else v4_value (v4_fill n BIT4_X) j)"
    using v4.set_range [OF v4_fill_inv, of 0 "n - h" n BIT4_X "\<lambda>i. v4_value ?a (h + i)"] h by auto
  obtain w where w: "for_each (\<lambda>i v. v4_set_bit v ((n - h) + i) ?pad) [0..<h] u = Some w" "v4_inv w" "v4_size w = n"
    "\<And>j. j < n \<Longrightarrow> v4_value w j = (if n - h \<le> j \<and> j < n - h + h then ?pad else v4_value u j)"
    using v4.set_range [OF u(2), of "n - h" h "\<lambda>_. ?pad"] h u(3) by auto
  have "for_each (\<lambda>idx out. v4_set_bit out (idx + n - h) ?pad) [0..<h] u = for_each (\<lambda>i v. v4_set_bit v ((n - h) + i) ?pad) [0..<h] u"
    using h by (intro for_each_cong) (simp add: add.commute)
  then have "arith_shiftr sg s = Some w"
    using True assms u(1) w(1) for_each_shift [of "\<lambda>idx out. v4_set_bit out (idx - h) (v4_value ?a idx)" h "n - h" "v4_fill n BIT4_X"] h
      shift_amount [OF bits_val_nonneg assms(5), of "v4_list (ar_b s)"]
    by (simp add: arith_shiftr_def vector4_to_ulong_spec known_has_xz Let_def h_def [symmetric])
  moreover have "v4_list w = shiftr_bits sg (v4_list ?a) ?k"
    using w(3,4) u(4) h assms(3)
    by (intro v4_listI) (auto simp: shiftr_bits_def nth_append h_def min_def last_v4_list)
  ultimately show ?thesis using True w(2) by (simp add: gives_def)
qed (use assms gives_x [of s n] in \<open>simp add: arith_shiftr_def vector4_to_ulong_spec known_has_xz\<close>)

lemma arith_abs:
  assumes "v4_inv v" and "v4_size v = n" and "0 < n"
  shows "gives (arith_abs v) (if known v then bits_of n \<bar>bits_sval (v4_list v)\<bar> else replicate n BIT4_X)"
proof -
  let ?l = "v4_list v"
  have z: "bits_sval (replicate n BIT4_0) = 0" "known (v4_fill n BIT4_0)"
    using bits_val_bits_of [of n 0] assms(3) by (simp_all add: last_replicate bits_sval_def bits_of_0 known_def v4_fill_list list_ex_iff)
  have cmp: "compare_gtge_signed v (v4_fill n BIT4_0) BIT4_1 = Some (if known v then order_bit (bits_sval ?l) 0 BIT4_1 else BIT4_X)"
    using compare_gtge_signed_spec [OF assms(1) v4_fill_inv, of n BIT4_0 BIT4_1] z assms known_has_xz [OF v4_fill_inv, of n BIT4_0]
    by (simp add: v4_fill_list known_has_xz)
  show ?thesis
  proof (cases "known v")
    case True
    then have nx: "\<not> list_ex bit4_is_xz ?l" by (simp add: known_def)
    show ?thesis
    proof (cases "bits_sval ?l < 0")
      case False
      then have "bits_sval ?l = bits_val ?l" using number_sign(3) [of ?l n True] assms by (simp add: number_def)
      then have "?l = bits_of n \<bar>bits_sval ?l\<bar>" using known_bits_of [OF nx, of "bits_val ?l"] assms(2) by simp
      with True False cmp assms show ?thesis by (simp add: arith_abs_def order_bit_def gives_def)
    next
      case neg: True
      have abs: "\<bar>bits_sval ?l\<bar> = take_bit n (- bits_val ?l)" using number_sign(2) [of ?l n True] neg assms by (simp add: number_def)
      obtain r where r: "v4_plus_int (v4_not v) 1 = Some r" "v4_inv r" "v4_list r = (if v4_has_xz (v4_not v)
          then replicate (v4_size (v4_not v)) BIT4_X else bits_of (v4_size (v4_not v)) (bits_val (v4_list (v4_not v)) + 1))"
        by (rule v4_plus_int_spec [OF v4_not(1) [OF assms(1)]])
      have l: "v4_list (v4_not v) = map bit4_not ?l" by (rule v4_not(2) [OF assms(1)])
      have sz: "v4_size (v4_not v) = n" using arg_cong [OF l, of length] assms(2) by simp
      have "\<not> v4_has_xz (v4_not v)"
        using known_has_xz [OF v4_not(1) [OF assms(1)]] nx v4_not_xz by (simp add: known_def l list_ex_iff)
      then have "v4_list r = bits_of n (2 ^ n - bits_val ?l)" using r(3) sz l bits_val_not [OF nx] assms(2) by simp
      also have "\<dots> = bits_of n \<bar>bits_sval ?l\<bar>" unfolding abs by (rule bits_of_cong) (simp add: take_bit_eq_mod mod_diff_left_eq [symmetric])
      finally show ?thesis using True neg cmp r assms(2) by (simp add: arith_abs_def order_bit_def gives_def)
    qed
  qed (use cmp assms in \<open>simp add: arith_abs_def gives_def v4_fill_list v4_fill_inv\<close>)
qed

text \<open>The power.\<close>

lemma v4_of_small_int:
  assumes "- (2 ^ 63) \<le> k" and "k < 2 ^ 63"
  shows "v4_inv (v4_of_small_int n k)" and "v4_list (v4_of_small_int n k) = bits_of n k"
proof -
  define z where "z = (if k < 0 then v4_invert (v4_fill n BIT4_0) else v4_fill n BIT4_0)"
  have v: "v4_of_small_int n k = z\<lparr>v4_abits := (v4_abits z)[0 := word_of_int k]\<rparr>" by (simp add: v4_of_small_int_def z_def Let_def)
  have zi: "v4_inv z" and zl: "v4_list z = replicate n (if k < 0 then BIT4_1 else BIT4_0)"
    using v4_invert [OF v4_fill_inv, of n BIT4_0] by (simp_all add: z_def v4_fill_inv v4_fill_list)
  have zs: "v4_size z = n" using arg_cong [OF zl, of length] by simp
  have len: "0 < length (v4_abits z)" using zi by (simp add: v4_inv_def)
  show inv: "v4_inv (v4_of_small_int n k)" unfolding v using zi by (simp add: v4_inv_def)
  have zv: "bit4_of (pbit (v4_abits z) i) (pbit (v4_bbits z) i) = (if k < 0 then BIT4_1 else BIT4_0)" if "i < n" for i
    using that zs nth_v4_list [of i z] v4_value_pbit [OF zi, of i] by (simp add: zl)
  have high: "bit k i \<longleftrightarrow> k < 0" if "63 \<le> i" for i
  proof -
    have "drop_bit i k = (if k < 0 then - 1 else 0)"
    proof (cases "k < 0")
      case True
      have "- (2 ^ i) \<le> k" using assms(1) power_increasing [OF that, of "2 :: int"] by linarith
      with True have "k div 2 ^ i = - 1" by (intro int_div_pos_eq [where r = "k + 2 ^ i"]) simp_all
      with True show ?thesis by (simp add: drop_bit_eq_div)
    next
      case False
      have "k < 2 ^ i" using assms(2) power_increasing [OF that, of "2 :: int"] by linarith
      with False show ?thesis by (simp add: drop_bit_eq_div)
    qed
    then show ?thesis by (simp add: bit_iff_odd_drop_bit)
  qed
  show "v4_list (v4_of_small_int n k) = bits_of n k"
  proof (rule v4_listI)
    fix i assume "i < length (bits_of n k)"
    then have i: "i < n" by simp
    have "v4_value (v4_of_small_int n k) i = bit4_of (pbit ((v4_abits z)[0 := word_of_int k]) i) (pbit (v4_bbits z) i)"
      using v4_value_pbit [OF inv, of i] i zs by (simp add: v)
    also have "\<dots> = (if bit k i then BIT4_1 else BIT4_0)"
      using zv [OF i] high [of i] len by (cases "i < 64") (auto simp: pbit_def bit_word_of_int_iff split: if_splits)
    finally show "v4_value (v4_of_small_int n k) i = bits_of n k ! i" using i by simp
  qed (simp add: v zs)
qed

lemma vector2_to_int:
  assumes "v2_inv a" and "v2_wid a = n" and "0 < n" and "n \<le> 32" and "v2_val a = bits_val l" and "length l = n"
  shows "vector2_to_int a = (True, word_of_int (bits_sval l))"
proof -
  let ?f = "\<lambda>(val, m) idx. (if v2_value a idx \<noteq> 0 then val OR m else val, push_bit 1 m) :: 32 word \<times> 32 word"
  have loop: "foldl ?f (0, 1) [0..<m] = (word_of_int (take_bit m (v2_val a)), push_bit m 1)" if "m \<le> 32" for m
    using that
  proof (induction m)
    case (Suc m)
    have "word_of_int (take_bit (Suc m) (v2_val a)) = (if bit (v2_val a) m
        then word_of_int (take_bit m (v2_val a)) OR push_bit m 1 else word_of_int (take_bit m (v2_val a)) :: 32 word)"
      by (rule bit_eqI) (auto simp: bit_simps bit_word_of_int_iff less_Suc_eq)
    with Suc show ?case by (simp add: v2_value_bit [OF assms(1)] push_bit_push_bit)
  qed simp
  have bit: "v2_value a i \<noteq> 0 \<longleftrightarrow> i < n \<and> l ! i = BIT4_1" for i
    using assms by (simp add: v2_value_bit bit_bits_val)
  have top: "last l = l ! (n - 1)" using assms(3,6) by (subst last_conv_nth) auto
  have all: "word_of_int (take_bit n (v2_val a)) = (word_of_int (bits_val l) :: 32 word)"
    using take_bit_bits_val [of l] assms(5,6) by simp
  have "(if n < 32 \<and> v2_value a (n - 1) \<noteq> 0 then word_of_int (bits_val l) OR push_bit n (- 1) else word_of_int (bits_val l))
      = (word_of_int (bits_sval l) :: 32 word)"
    using assms(3,4,6) by (intro bit_eqI) (auto simp: bit_simps bit_word_of_int_iff bit_bits_val bit_bits_sval bit top)
  then show ?thesis using assms(2,4) loop [of n] all by (auto simp: vector2_to_int_def min_def split: if_splits)
qed

definition pow_spec :: "bool \<Rightarrow> nat \<Rightarrow> vvp_arith \<Rightarrow> vvp_bit4_t list" where
  "pow_spec sg n s =
    (let x = number sg (v4_list (ar_a s)); y = number sg (v4_list (ar_b s)) in
     if \<not> known (ar_a s) \<or> \<not> known (ar_b s) then replicate n BIT4_X
     else if 0 \<le> y then bits_of n (x ^ nat y)
     else if 32 < n then bits_of n 0
     else if x = 0 then replicate n BIT4_X
     else bits_of n (if x = 1 then 1 else if x = - 1 then (if odd y then - 1 else 1) else 0))"

lemma word32_small:
  assumes "- (2 ^ 31) \<le> k" and "k < 2 ^ 31" and "- (2 ^ 31) \<le> j" and "j < 2 ^ 31"
  shows "(word_of_int k :: 32 word) = word_of_int j \<longleftrightarrow> k = j"
proof
  have sint: "sint (word_of_int i :: 32 word) = i" if "- (2 ^ 31) \<le> i" "i < 2 ^ 31" for i
    using that by (simp add: signed_of_int signed_take_bit_int_eq_self)
  assume "(word_of_int k :: 32 word) = word_of_int j"
  then have "sint (word_of_int k :: 32 word) = sint (word_of_int j :: 32 word)" by simp
  then show "k = j" unfolding sint [OF assms(1,2)] sint [OF assms(3,4)] .
qed simp

lemma number_cong: "length l = n \<Longrightarrow> take_bit n (number sg l) = take_bit n (bits_val l)"
  by (auto simp: number_def bits_sval_def take_bit_eq_mod)

lemma arith_pow:
  assumes "arith_inv n s" and "0 < n"
  shows "gives (arith_pow sg s) (pow_spec sg n s)"
proof -
  let ?x = "number sg (v4_list (ar_a s))" and ?y = "number sg (v4_list (ar_b s))"
  have i: "ar_wid s = n" "v4_inv (ar_a s)" "v4_size (ar_a s) = n" "v4_inv (ar_b s)" "v4_size (ar_b s) = n"
    using assms by (simp_all add: arith_inv_def)
  obtain a where a: "v2_of_vector4 (ar_a s) True = Some a" "v2_inv a" "v2_is_NaN a \<longleftrightarrow> \<not> known (ar_a s)"
    "known (ar_a s) \<longrightarrow> v2_wid a = n \<and> v2_val a = bits_val (v4_list (ar_a s))" by (rule wide_operand [OF i(2,3) assms(2), where sg = sg])
  obtain b where b: "v2_of_vector4 (ar_b s) True = Some b" "v2_inv b" "v2_is_NaN b \<longleftrightarrow> \<not> known (ar_b s)"
    "known (ar_b s) \<longrightarrow> v2_wid b = n \<and> v2_val b = bits_val (v4_list (ar_b s))"
    "known (ar_b s) \<longrightarrow> (v2_is_zero b \<longleftrightarrow> ?y = 0)" "known (ar_b s) \<longrightarrow> (sg \<and> v2_top b \<longleftrightarrow> ?y < 0)"
    by (rule wide_operand [OF i(4,5) assms(2), where sg = sg])
  show ?thesis
  proof (cases "known (ar_a s) \<and> known (ar_b s)")
    case False
    with a(1,3) b(1,3) gives_x [OF i(1)] show ?thesis by (auto simp: arith_pow_def pow_spec_def Let_def)
  next
    case True
    then have w: "v2_wid a = n" and wv: "v2_val a = bits_val (v4_list (ar_a s))" and bv: "v2_val b = bits_val (v4_list (ar_b s))"
      and neg: "sg \<and> v2_top b \<longleftrightarrow> ?y < 0" and nan: "\<not> v2_is_NaN a" "\<not> v2_is_NaN b" using a b by simp_all
    show ?thesis
    proof (cases "?y < 0")
      case False
      then have y: "?y = v2_val b" using number_sign(3) [of "v4_list (ar_b s)" n sg] i assms(2) bv by simp
      obtain r where r: "v2_pow a b = Some r" "v2_inv r" "v2_wid r = n" "v2_val r = take_bit n (v2_val a ^ nat (v2_val b))"
        using v2_pow_spec [OF a(2) b(2)] w by auto
      obtain v where v: "vector2_to_vector4 r n = Some v" "v4_inv v" "v4_list v = bits_of n (v2_val r)"
        by (rule vector2_to_vector4_spec [OF r(2)])
      have "take_bit n (?x ^ nat ?y) = take_bit n (v2_val a ^ nat ?y)"
        using number_cong [of "v4_list (ar_a s)" n sg] i(3) wv unfolding take_bit_eq_mod by (metis length_v4_list power_mod)
      then have "bits_of n (v2_val r) = bits_of n (?x ^ nat ?y)" using r(4) y by (intro bits_of_cong) simp
      moreover have "arith_pow sg s = Some v" using a(1) b(1) nan neg False r(1) v(1) i(1) by (auto simp: arith_pow_def)
      ultimately show ?thesis using True False v(2,3) by (simp add: pow_spec_def gives_def)
    next
      case y: True
      then have sg: sg and x: "?x = bits_sval (v4_list (ar_a s))" using neg by (simp_all add: number_def)
      have small: "gives (Some (v4_of_small_int n k)) (bits_of n k)" if "k = 0 \<or> k = 1 \<or> k = - 1" for k
        using v4_of_small_int [of k n] that by (auto simp: gives_def)
      have odd: "v2_value b 0 \<noteq> 0 \<longleftrightarrow> odd ?y"
        using v2_value_bit [OF b(2), of 0] bv number_cong [of "v4_list (ar_b s)" n sg] i(5) assms(2)
        by (metis bit_0 bit_take_bit_iff length_v4_list of_bool_eq_0_iff)
      define ok where "ok = fst (vector2_to_int a)"
      define av where "av = snd (vector2_to_int a)"
      have eq: "arith_pow sg s = (if ok \<and> av = 0 then Some (x_val s) else Some (v4_of_small_int n
          (if ok \<and> av = 1 then 1 else if ok \<and> av = - 1 then (if odd ?y then - 1 else 1) else 0)))"
        using a(1) b(1) nan neg y i(1) odd by (auto simp: arith_pow_def ok_def av_def split_beta)
      show ?thesis
      proof (cases "n \<le> 32")
        case True
        have p: "(2 :: int) ^ (n - 1) \<le> 2 ^ 31" using True by (intro power_increasing) auto
        have lo: "- (2 ^ 31) \<le> ?x" using number_sign(4) [of "v4_list (ar_a s)" n sg] i(3) assms(2) sg p by simp
        have hi: "?x < 2 ^ 31"
          using number_sign(1,3) [of "v4_list (ar_a s)" n sg] bits_val_top [of "v4_list (ar_a s)" n] i(3) assms(2) sg p
          by (cases "?x < 0") simp_all
        have "vector2_to_int a = (True, word_of_int ?x)"
          using vector2_to_int [OF a(2) w assms(2) True wv] i(3) x by simp
        then have "ok" "av = 0 \<longleftrightarrow> ?x = 0" "av = 1 \<longleftrightarrow> ?x = 1" "av = - 1 \<longleftrightarrow> ?x = - 1"
          using word32_small [OF lo hi, of 0] word32_small [OF lo hi, of 1] word32_small [OF lo hi, of "- 1"] by (simp_all add: ok_def av_def)
        with eq small gives_x [OF i(1)] y True \<open>known (ar_a s) \<and> known (ar_b s)\<close> show ?thesis by (simp add: pow_spec_def Let_def)
      next
        case False
        then have "\<not> ok" using w by (simp add: ok_def vector2_to_int_def split_beta)
        with eq small [of 0] y False \<open>known (ar_a s) \<and> known (ar_b s)\<close> show ?thesis by (simp add: pow_spec_def Let_def)
      qed
    qed
  qed
qed

end
