(* ===== verification/Resolver.thy ===== *)
theory Resolver
  imports Functor
begin

text \<open>
  The resolvers of nets with several drivers (\<^verbatim>\<open>src/vvp/resolv.cc\<close>).  A resolver keeps the values of its ports and of the
  branches of a quaternary tree over them in one array, level after level, with the output last.  A new
  value at a port is carried towards the output and stops at the first branch that does not change.

  The tree is shown to be current after every message: the last value sent is the resolution of the values
  last received, grouped by fours.  For the wired logic nets, whose operators are associative, that is the combination of
  all drivers in any grouping.
\<close>

section \<open>The tree\<close>

text \<open>The number of nodes the constructors allocate.\<close>

function branch_nodes :: "nat \<Rightarrow> nat \<Rightarrow> nat" where
  "branch_nodes nports nnodes =
    (if nports > 4 then let nports = (nports + 3) div 4 in branch_nodes nports (nnodes + nports) else nnodes)"
  by pat_completeness auto
termination by (relation "measure fst") auto

declare branch_nodes.simps [simp del]

definition resolv_nnodes :: "nat \<Rightarrow> nat" where
  "resolv_nnodes nports = (let nnodes = branch_nodes nports nports in if nnodes > 1 then nnodes + 1 else nnodes)"

text \<open>One group of four: values of width 0 have not been received yet.\<close>

fun resolv_group :: "('v \<Rightarrow> nat) \<Rightarrow> ('v \<Rightarrow> 'v \<Rightarrow> 'v option) \<Rightarrow> 'v list \<Rightarrow> nat list \<Rightarrow> 'v \<Rightarrow> 'v option" where
  "resolv_group wid comb val [] out = Some out"
| "resolv_group wid comb val (ip # ips) out =
    (if wid (val ! ip) = 0 then resolv_group wid comb val ips out
     else if wid out = 0 then resolv_group wid comb val ips (val ! ip)
     else Option.bind (comb out (val ! ip)) (resolv_group wid comb val ips))"

text \<open>The loop over the levels: \<open>None\<close> as the first component when it returned early, else the place of the output.\<close>

function resolv_walk :: "('v \<Rightarrow> nat) \<Rightarrow> ('v \<Rightarrow> 'v \<Rightarrow> bool) \<Rightarrow> ('v \<Rightarrow> 'v \<Rightarrow> 'v option) \<Rightarrow> nat \<Rightarrow> nat \<Rightarrow> nat \<Rightarrow> 'v list
    \<Rightarrow> (nat option \<times> 'v list) option" where
  "resolv_walk wid eeq comb base span port val =
    (if span > 1 then
       let next_base = base + span; ip = base + 4 * (port div 4); oper = next_base + port div 4; ll = min (ip + 4) next_base in
       Option.bind (resolv_group wid comb val [ip + 1..<ll] (val ! ip)) (\<lambda>out.
         if eeq (val ! oper) out then Some (None, val)
         else resolv_walk wid eeq comb next_base ((span + 3) div 4) (port div 4) (val[oper := out]))
     else Some (Some base, val))"
  by pat_completeness auto
termination by (relation "measure (\<lambda>(_, _, _, _, span, _, _). span)") auto

declare resolv_walk.simps [simp del]

section \<open>Nets with strengths\<close>

record resolv_tri =
  rt_nports :: nat
  rt_hiz_value :: vvp_scalar_t
  rt_val :: "vvp_vector8_t list"

definition resolv_tri_make :: "nat \<Rightarrow> vvp_scalar_t \<Rightarrow> resolv_tri" where
  "resolv_tri_make nports hiz_value = \<lparr>rt_nports = nports, rt_hiz_value = hiz_value, rt_val = replicate (resolv_nnodes nports) (v8_make 0)\<rparr>"

definition pull_value :: "vvp_scalar_t \<Rightarrow> vvp_vector8_t \<Rightarrow> vvp_vector8_t option" where
  "pull_value hiz_value v =
    (if is_hiz hiz_value then Some v
     else for_each (\<lambda>idx v. Option.bind (v8_value v idx) (\<lambda>b. v8_set_bit v idx (resolve b hiz_value))) [0..<v8_size v] v)"

definition tri_recv_vec8 :: "nat \<Rightarrow> vvp_vector8_t \<Rightarrow> resolv_tri \<Rightarrow> resolv_tri reply" where
  "tri_recv_vec8 port b s =
    (if \<not> port < rt_nports s then None
     else if v8_eeq (rt_val s ! port) b then Some (s, [])
     else Option.bind (resolv_walk v8_size v8_eeq v8_resolve 0 (rt_nports s) port ((rt_val s)[port := b])) (\<lambda>(res, val).
       case res of
         None \<Rightarrow> Some (s\<lparr>rt_val := val\<rparr>, [])
       | Some base \<Rightarrow> map_option (\<lambda>out. (s\<lparr>rt_val := val[base := out]\<rparr>, [SEND_VEC8 out])) (pull_value (rt_hiz_value s) (val ! base))))"

definition tri_recv_vec4 :: "nat \<Rightarrow> vvp_vector4_t \<Rightarrow> resolv_tri \<Rightarrow> resolv_tri reply" where
  "tri_recv_vec4 port b s = Option.bind (v8_of_vector4 b 6 6) (\<lambda>b8. tri_recv_vec8 port b8 s)"

section \<open>Wired logic\<close>

record resolv_wired_logic =
  rw_nports :: nat
  rw_val :: "vvp_vector4_t list"

definition resolv_wired_make :: "nat \<Rightarrow> resolv_wired_logic" where
  "resolv_wired_make nports = \<lparr>rw_nports = nports, rw_val = replicate (resolv_nnodes nports) (v4_fill 0 BIT4_X)\<rparr>"

definition triand_bit :: "vvp_bit4_t \<Rightarrow> vvp_bit4_t \<Rightarrow> vvp_bit4_t" where
  "triand_bit a b =
    (if a = BIT4_Z then b else if b = BIT4_Z then a
     else if a = BIT4_0 \<or> b = BIT4_0 then BIT4_0 else if a = BIT4_X \<or> b = BIT4_X then BIT4_X else BIT4_1)"

definition trior_bit :: "vvp_bit4_t \<Rightarrow> vvp_bit4_t \<Rightarrow> vvp_bit4_t" where
  "trior_bit a b =
    (if a = BIT4_Z then b else if b = BIT4_Z then a
     else if a = BIT4_1 \<or> b = BIT4_1 then BIT4_1 else if a = BIT4_X \<or> b = BIT4_X then BIT4_X else BIT4_0)"

definition wired_logic_math :: "(vvp_bit4_t \<Rightarrow> vvp_bit4_t \<Rightarrow> vvp_bit4_t) \<Rightarrow> vvp_vector4_t \<Rightarrow> vvp_vector4_t \<Rightarrow> vvp_vector4_t option" where
  "wired_logic_math f a b =
    (if v4_size a = v4_size b
     then for_each (\<lambda>idx out. v4_set_bit out idx (f (v4_value a idx) (v4_value b idx))) [0..<v4_size a] (v4_fill (v4_size a) BIT4_X)
     else None)"

definition wired_recv_vec4 :: "(vvp_bit4_t \<Rightarrow> vvp_bit4_t \<Rightarrow> vvp_bit4_t) \<Rightarrow> nat \<Rightarrow> vvp_vector4_t \<Rightarrow> resolv_wired_logic
    \<Rightarrow> resolv_wired_logic reply" where
  "wired_recv_vec4 f port b s =
    (if \<not> port < rw_nports s then None
     else if v4_eeq (rw_val s ! port) b then Some (s, [])
     else map_option (\<lambda>(res, val). (s\<lparr>rw_val := val\<rparr>, case res of None \<Rightarrow> [] | Some base \<Rightarrow> [SEND_VEC4 (val ! base)]))
       (resolv_walk v4_size v4_eeq (wired_logic_math f) 0 (rw_nports s) port ((rw_val s)[port := b])))"

definition wired_recv_vec8 :: "(vvp_bit4_t \<Rightarrow> vvp_bit4_t \<Rightarrow> vvp_bit4_t) \<Rightarrow> nat \<Rightarrow> vvp_vector8_t \<Rightarrow> resolv_wired_logic
    \<Rightarrow> resolv_wired_logic reply" where
  "wired_recv_vec8 f port b s = Option.bind (reduce4 b) (\<lambda>v. wired_recv_vec4 f port v s)"

section \<open>Parts, extensions and counts\<close>

text \<open>\<^verbatim>\<open>resolv_core::recv_vec4_pv_\<close> and \<^verbatim>\<open>recv_vec8_pv_\<close>: a part is widened with z bits, and cut at the width of the net.\<close>

definition core_widen4 :: "vvp_vector4_t \<Rightarrow> nat \<Rightarrow> nat \<Rightarrow> vvp_vector4_t option" where
  "core_widen4 b base vwid =
    Option.bind (for_each (\<lambda>idx res. v4_set_bit res idx BIT4_Z) [0..<base] (v4_fill vwid BIT4_X)) (\<lambda>res.
    Option.bind (for_each (\<lambda>idx res. v4_set_bit res (idx + base) (v4_value b idx)) [0..<min (v4_size b) (vwid - base)] res)
      (for_each (\<lambda>idx res. v4_set_bit res idx BIT4_Z) [base + v4_size b..<vwid]))"

definition core_widen8 :: "vvp_vector8_t \<Rightarrow> nat \<Rightarrow> nat \<Rightarrow> vvp_vector8_t option" where
  "core_widen8 b base vwid =
    Option.bind (for_each (\<lambda>idx res. v8_set_bit res idx scalar_hiz) [0..<base] (v8_make vwid)) (\<lambda>res.
    Option.bind (for_each (\<lambda>idx res. Option.bind (v8_value b idx) (v8_set_bit res (idx + base))) [0..<min (v8_size b) (vwid - base)] res)
      (for_each (\<lambda>idx res. v8_set_bit res idx scalar_hiz) [base + v8_size b..<vwid]))"

fun core_recv :: "(nat \<Rightarrow> vvp_vector4_t \<Rightarrow> 's \<Rightarrow> 's reply) \<Rightarrow> (nat \<Rightarrow> vvp_vector8_t \<Rightarrow> 's \<Rightarrow> 's reply) \<Rightarrow> message \<Rightarrow> 's \<Rightarrow> 's reply" where
  "core_recv r4 r8 (VEC4 p b) s = r4 p b s"
| "core_recv r4 r8 (VEC8 p b) s = r8 p b s"
| "core_recv r4 r8 (VEC4_PV p b base vwid) s = Option.bind (core_widen4 b base vwid) (\<lambda>res. r4 p res s)"
| "core_recv r4 r8 (VEC8_PV p b base vwid) s = Option.bind (core_widen8 b base vwid) (\<lambda>res. r8 p res s)"

text \<open>\<^verbatim>\<open>resolv_extend\<close> offers four more ports of the same core.\<close>

fun extend_message :: "nat \<Rightarrow> message \<Rightarrow> message" where
  "extend_message port_base (VEC4 p b) = VEC4 (port_base + p) b"
| "extend_message port_base (VEC8 p b) = VEC8 (port_base + p) b"
| "extend_message port_base (VEC4_PV p b base vwid) = VEC4_PV (port_base + p) b base vwid"
| "extend_message port_base (VEC8_PV p b base vwid) = VEC8_PV (port_base + p) b base vwid"

definition tri_recv :: "message \<Rightarrow> resolv_tri \<Rightarrow> resolv_tri reply" where
  "tri_recv = core_recv tri_recv_vec4 tri_recv_vec8"

definition wired_recv :: "(vvp_bit4_t \<Rightarrow> vvp_bit4_t \<Rightarrow> vvp_bit4_t) \<Rightarrow> message \<Rightarrow> resolv_wired_logic \<Rightarrow> resolv_wired_logic reply" where
  "wired_recv f = core_recv (wired_recv_vec4 f) (wired_recv_vec8 f)"

definition tri_count_drivers :: "nat \<Rightarrow> resolv_tri \<Rightarrow> nat \<times> nat \<times> nat \<Rightarrow> (nat \<times> nat \<times> nat) option" where
  "tri_count_drivers bit_idx s = for_each (\<lambda>idx counts.
     if v8_size (rt_val s ! idx) = 0 then Some counts
     else map_option (\<lambda>b. update_driver_counts (scalar_value b) counts) (v8_value (rt_val s ! idx) bit_idx)) [0..<rt_nports s]"

definition wired_count_drivers :: "nat \<Rightarrow> resolv_wired_logic \<Rightarrow> nat \<times> nat \<times> nat \<Rightarrow> nat \<times> nat \<times> nat" where
  "wired_count_drivers bit_idx s counts = fold (\<lambda>idx counts.
     if v4_size (rw_val s ! idx) = 0 then counts else update_driver_counts (v4_value (rw_val s ! idx) bit_idx) counts) [0..<rw_nports s] counts"

section \<open>The tree is current\<close>

text \<open>Values as lists; the empty list is a value not received yet.\<close>

definition merge :: "('b \<Rightarrow> 'b \<Rightarrow> 'b) \<Rightarrow> 'b list \<Rightarrow> 'b list \<Rightarrow> 'b list" where
  "merge f a b = (if b = [] then a else if a = [] then b else map2 f a b)"

definition group_value :: "('b \<Rightarrow> 'b \<Rightarrow> 'b) \<Rightarrow> 'b list list \<Rightarrow> nat \<Rightarrow> nat \<Rightarrow> nat \<Rightarrow> 'b list" where
  "group_value f A base span g =
    foldl (merge f) (A ! (base + 4 * g)) (map ((!) A) [base + 4 * g + 1..<min (base + 4 * g + 4) (base + span)])"

text \<open>The specification: group by fours until one value is left.\<close>

function tree_value :: "('b \<Rightarrow> 'b \<Rightarrow> 'b) \<Rightarrow> 'b list list \<Rightarrow> 'b list" where
  "tree_value f xs =
    (if length xs > 1 then tree_value f (map (group_value f xs 0 (length xs)) [0..<(length xs + 3) div 4])
     else concat xs)"
  by pat_completeness auto
termination by (relation "measure (\<lambda>(_, xs). length xs)") auto

declare tree_value.simps [simp del]

text \<open>The array: every branch is the value of its group, the output is pulled.\<close>

function tree_ok :: "('b \<Rightarrow> 'b \<Rightarrow> 'b) \<Rightarrow> ('b \<Rightarrow> 'b) \<Rightarrow> nat \<Rightarrow> nat \<Rightarrow> 'b list list \<Rightarrow> bool" where
  "tree_ok f r base span A \<longleftrightarrow>
    (span > 1 \<longrightarrow> (\<forall>g < (span + 3) div 4. A ! (base + span + g) =
        (if (span + 3) div 4 = 1 then map r (group_value f A base span g) else group_value f A base span g))
      \<and> tree_ok f r (base + span) ((span + 3) div 4) A)"
  by pat_completeness auto
termination by (relation "measure (\<lambda>(_, _, _, span, _). span)") auto

function root_of :: "nat \<Rightarrow> nat \<Rightarrow> nat" where
  "root_of base span = (if span > 1 then root_of (base + span) ((span + 3) div 4) else base)"
  by pat_completeness auto
termination by (relation "measure snd") auto

declare tree_ok.simps [simp del] root_of.simps [simp del]

lemma root_of_ge: "base \<le> root_of base span"
proof (induction base span rule: root_of.induct)
  case (1 base span)
  then show ?case using root_of.simps [of base span] by fastforce
qed

lemma root_of_gt: "1 < span \<Longrightarrow> base + span \<le> root_of base span"
  using root_of.simps [of base span] root_of_ge [of "base + span" "(span + 3) div 4"] by simp

lemma root_of_level: "0 < span \<Longrightarrow> base + span \<le> Suc (root_of base span)"
  using root_of_gt [of span base] root_of.simps [of base span] by (cases "1 < span") auto

text \<open>The constructors allocate exactly the nodes of the levels.\<close>

lemma branch_nodes_root: "1 < n \<Longrightarrow> branch_nodes n (base + n) = root_of base n"
proof (induction n arbitrary: base rule: less_induct)
  case (less n)
  show ?case
  proof (cases "n > 4")
    case True
    have "branch_nodes n (base + n) = branch_nodes ((n + 3) div 4) ((base + n) + (n + 3) div 4)"
      using True branch_nodes.simps [of n] by (simp add: Let_def)
    also have "\<dots> = root_of (base + n) ((n + 3) div 4)" using True by (intro less.IH) auto
    finally show ?thesis using less.prems root_of.simps [of base n] by simp
  next
    case False
    then have "(n + 3) div 4 = 1" using less.prems by auto
    then show ?thesis using False less.prems branch_nodes.simps [of n] root_of.simps [of base n] root_of.simps [of "base + n" 1] by simp
  qed
qed

lemma resolv_nnodes_root: "0 < n \<Longrightarrow> resolv_nnodes n = Suc (root_of 0 n)"
  using branch_nodes_root [of n 0] root_of_gt [of n 0] branch_nodes.simps [of n n] root_of.simps [of 0 n]
  by (cases "1 < n") (auto simp: resolv_nnodes_def Let_def)

lemma group_value_cong:
  assumes "\<And>i. base + 4 * g \<le> i \<Longrightarrow> i < base + 4 * g + 4 \<Longrightarrow> i < base + span \<Longrightarrow> A ! i = B ! i" and "4 * g < span"
  shows "group_value f A base span g = group_value f B base span g"
proof -
  have eq: "map ((!) A) [base + 4 * g + 1..<min (base + 4 * g + 4) (base + span)] = map ((!) B) [base + 4 * g + 1..<min (base + 4 * g + 4) (base + span)]"
    using assms(1) by simp
  show ?thesis unfolding group_value_def eq using assms by simp
qed

lemma tree_ok_cong: "(\<And>i. base \<le> i \<Longrightarrow> i \<le> root_of base span \<Longrightarrow> A ! i = B ! i) \<Longrightarrow> tree_ok f r base span A \<longleftrightarrow> tree_ok f r base span B"
proof (induction f r base span A rule: tree_ok.induct)
  case (1 f r base span A)
  show ?case
  proof (cases "1 < span")
    case True
    note ge = root_of_gt [OF True, of base]
    have root: "root_of base span = root_of (base + span) ((span + 3) div 4)" using True root_of.simps [of base span] by simp
    have "group_value f A base span g = group_value f B base span g" if "g < (span + 3) div 4" for g
      by (rule group_value_cong) (use 1(2) ge that in auto)
    moreover have "A ! (base + span + g) = B ! (base + span + g)" if "g < (span + 3) div 4" for g
      using 1(2) root root_of_level [of "(span + 3) div 4" "base + span"] True that by auto
    moreover have "tree_ok f r (base + span) ((span + 3) div 4) A \<longleftrightarrow> tree_ok f r (base + span) ((span + 3) div 4) B"
      by (rule 1(1) [OF True]) (use 1(2) root ge in auto)
    ultimately show ?thesis unfolding tree_ok.simps [of f r base span] by simp
  qed (simp add: tree_ok.simps [of f r base span])
qed

definition ok_except :: "('b \<Rightarrow> 'b \<Rightarrow> 'b) \<Rightarrow> ('b \<Rightarrow> 'b) \<Rightarrow> nat \<Rightarrow> nat \<Rightarrow> nat \<Rightarrow> 'b list list \<Rightarrow> bool" where
  "ok_except f r base span p A \<longleftrightarrow>
    (span > 1 \<longrightarrow> (\<forall>g < (span + 3) div 4. g \<noteq> p div 4 \<longrightarrow> A ! (base + span + g) =
        (if (span + 3) div 4 = 1 then map r (group_value f A base span g) else group_value f A base span g))
      \<and> tree_ok f r (base + span) ((span + 3) div 4) A)"

lemma tree_ok_change:
  assumes "tree_ok f r base span A" and "p < span"
  shows "ok_except f r base span p (A[base + p := x])"
proof (cases "1 < span")
  case True
  let ?B = "A[base + p := x]"
  have "group_value f ?B base span g = group_value f A base span g" if "g < (span + 3) div 4" "g \<noteq> p div 4" for g
  proof (rule group_value_cong)
    fix i assume i: "base + 4 * g \<le> i" "i < base + 4 * g + 4"
    then have "(i - base) div 4 = g" by auto
    then have "i \<noteq> base + p" using that by auto
    then show "?B ! i = A ! i" by simp
  qed (use that in auto)
  moreover have "tree_ok f r (base + span) ((span + 3) div 4) ?B \<longleftrightarrow> tree_ok f r (base + span) ((span + 3) div 4) A"
    by (rule tree_ok_cong) (use assms in auto)
  ultimately show ?thesis using assms True tree_ok.simps [of f r base span A] by (simp add: ok_except_def)
qed (simp add: ok_except_def)

text \<open>A current tree holds the specified value.\<close>

lemma group_value_slice:
  assumes "4 * g < span"
  shows "group_value f (map ((!) A) [base..<base + span]) 0 span g = group_value f A base span g"
proof -
  let ?X = "map ((!) A) [base..<base + span]"
  have at: "?X ! i = A ! (base + i)" if "i < span" for i using that by simp
  have "map ((!) ?X) [4 * g + 1..<min (4 * g + 4) span] = map ((!) A) (map (\<lambda>i. base + i) [4 * g + 1..<min (4 * g + 4) span])"
    using at by auto
  also have "map (\<lambda>i. base + i) [4 * g + 1..<min (4 * g + 4) span] = [base + 4 * g + 1..<min (base + 4 * g + 4) (base + span)]"
  proof -
    have "map (\<lambda>i. base + i) [a..<b] = [base + a..<base + b]" for a b by (rule nth_equalityI) auto
    moreover have "min (base + 4 * g + 4) (base + span) = base + min (4 * g + 4) span" by simp
    ultimately show ?thesis by (simp add: add.assoc)
  qed
  finally show ?thesis using at [OF assms] unfolding group_value_def by simp
qed

lemma tree_ok_value:
  "1 < span \<Longrightarrow> tree_ok f r base span A \<Longrightarrow> A ! root_of base span = map r (tree_value f (map ((!) A) [base..<base + span]))"
proof (induction f r base span A rule: tree_ok.induct)
  case (1 f r base span A)
  let ?n = "(span + 3) div 4" and ?X = "map ((!) A) [base..<base + span]"
  have n: "0 < ?n" using "1.prems" by simp
  have root: "root_of base span = root_of (base + span) ?n" using "1.prems" root_of.simps [of base span] by simp
  have ok: "\<forall>g < ?n. A ! (base + span + g) = (if ?n = 1 then map r (group_value f A base span g) else group_value f A base span g)"
    "tree_ok f r (base + span) ?n A" using "1.prems" tree_ok.simps [of f r base span A] by simp_all
  have up: "tree_value f ?X = tree_value f (map (group_value f A base span) [0..<?n])"
  proof -
    have "tree_value f ?X = tree_value f (map (group_value f ?X 0 span) [0..<?n])"
      using "1.prems" tree_value.simps [of f ?X] by simp
    also have "map (group_value f ?X 0 span) [0..<?n] = map (group_value f A base span) [0..<?n]"
      by (rule map_cong [OF refl], rule group_value_slice) auto
    finally show ?thesis .
  qed
  show ?case
  proof (cases "?n = 1")
    case True
    then have "tree_value f ?X = group_value f A base span 0" using up tree_value.simps [of f "[group_value f A base span 0]"] by simp
    with True ok root root_of.simps [of "base + span" 1] show ?thesis by simp
  next
    case False
    then have "map (group_value f A base span) [0..<?n] = map ((!) A) [base + span..<base + span + ?n]"
      using ok(1) by (intro nth_equalityI) auto
    with up "1.IH" [of] False n ok(2) "1.prems" root show ?thesis by simp
  qed
qed

text \<open>
  The interface of the vector classes to the tree: equality and the combination of two values, and
  the pull at the output.
\<close>

locale net_values =
  fixes ok :: "'v \<Rightarrow> bool"
    and wid :: "'v \<Rightarrow> nat"
    and bits :: "'v \<Rightarrow> 'b list"
    and eeq :: "'v \<Rightarrow> 'v \<Rightarrow> bool"
    and comb :: "'v \<Rightarrow> 'v \<Rightarrow> 'v option"
    and f :: "'b \<Rightarrow> 'b \<Rightarrow> 'b"
  assumes length_bits: "ok v \<Longrightarrow> length (bits v) = wid v"
    and eeq_bits: "ok v \<Longrightarrow> ok w \<Longrightarrow> eeq v w \<longleftrightarrow> bits v = bits w"
    and comb_bits: "ok v \<Longrightarrow> ok w \<Longrightarrow> wid v = wid w \<Longrightarrow> \<exists>r. comb v w = Some r \<and> ok r \<and> bits r = map2 f (bits v) (bits w)"
begin

definition fits_net :: "nat \<Rightarrow> 'v \<Rightarrow> bool" where
  "fits_net n v \<longleftrightarrow> ok v \<and> (wid v = 0 \<or> wid v = n)"

lemma bits_empty: "ok v \<Longrightarrow> bits v = [] \<longleftrightarrow> wid v = 0"
  using length_bits by fastforce

lemma group:
  assumes "fits_net n out" and "\<And>i. i \<in> set ips \<Longrightarrow> fits_net n (val ! i)"
  shows "\<exists>r. resolv_group wid comb val ips out = Some r \<and> fits_net n r
    \<and> bits r = foldl (merge f) (bits out) (map (\<lambda>i. bits (val ! i)) ips)"
  using assms
proof (induction ips arbitrary: out)
  case (Cons i ips)
  have v: "fits_net n (val ! i)" using Cons.prems(2) by simp
  consider (skip) "wid (val ! i) = 0" | (first) "wid (val ! i) \<noteq> 0" "wid out = 0" | (both) "wid (val ! i) \<noteq> 0" "wid out \<noteq> 0" by blast
  then show ?case
  proof cases
    case skip
    with v have "merge f (bits out) (bits (val ! i)) = bits out" by (simp add: merge_def bits_empty fits_net_def)
    with skip Cons.IH [OF Cons.prems(1)] Cons.prems(2) show ?thesis by simp
  next
    case first
    with v Cons.prems(1) have "merge f (bits out) (bits (val ! i)) = bits (val ! i)" by (simp add: merge_def bits_empty fits_net_def)
    with first Cons.IH [OF v] Cons.prems(2) show ?thesis by simp
  next
    case both
    with v Cons.prems(1) obtain r where r: "comb out (val ! i) = Some r" "ok r" "bits r = map2 f (bits out) (bits (val ! i))"
      using comb_bits [of out "val ! i"] by (auto simp: fits_net_def)
    moreover have "wid r = n"
    proof -
      have "wid r = length (map2 f (bits out) (bits (val ! i)))" using length_bits [OF r(2)] r(3) by simp
      then show ?thesis using both v Cons.prems(1) length_bits [of out] length_bits [of "val ! i"] by (simp add: fits_net_def)
    qed
    moreover have "merge f (bits out) (bits (val ! i)) = map2 f (bits out) (bits (val ! i))"
      using both v Cons.prems(1) by (simp add: merge_def bits_empty fits_net_def)
    ultimately show ?thesis using both Cons.IH [of r] Cons.prems(2) by (simp add: fits_net_def)
  qed
qed simp

lemma walk:
  assumes "p < span" and "\<forall>v \<in> set val. fits_net n v" and "root_of base span < length val"
    and "ok_except f r base span p (map bits val)"
    and "1 < span \<longrightarrow> map r (bits (val ! root_of base span)) = bits (val ! root_of base span)"
  shows "\<exists>res val'. resolv_walk wid eeq comb base span p val = Some (res, val') \<and> (\<forall>v \<in> set val'. fits_net n v) \<and> length val' = length val
    \<and> (\<forall>i < base + span. val' ! i = val ! i)
    \<and> (res = None \<longrightarrow> tree_ok f r base span (map bits val') \<and> val' ! root_of base span = val ! root_of base span)
    \<and> (res \<noteq> None \<longrightarrow> res = Some (root_of base span)
        \<and> tree_ok f r base span ((map bits val')[root_of base span := map r (bits (val' ! root_of base span))]))"
  using assms
proof (induction span arbitrary: base p val rule: less_induct)
  case (less span)
  show ?case
  proof (cases "1 < span")
    case False
    then show ?thesis using less.prems resolv_walk.simps [of wid eeq comb base span p val] root_of.simps [of base span]
      tree_ok.simps [of f r base span] by auto
  next
    case True
    let ?m = "(span + 3) div 4" and ?g = "p div 4" and ?A = "map bits val" and ?nb = "base + span"
    let ?ip = "base + 4 * ?g" and ?ll = "min (base + 4 * ?g + 4) (base + span)" and ?op = "base + span + p div 4"
    have m: "?m < span" "?g < ?m" "0 < ?m" using True less.prems(1) by auto
    have root: "root_of base span = root_of ?nb ?m" using True root_of.simps [of base span] by simp
    have in_range: "?op < length val" "?op \<le> root_of base span" "?nb \<le> root_of base span"
      using less.prems(3) root root_of_level [of ?m ?nb] root_of_ge [of ?nb ?m] m by linarith+
    have idx: "i < length val" if "i < ?nb" for i using that in_range less.prems(3) by linarith
    have ipl: "?ip < base + span" using less.prems(1) by auto
    obtain out where out: "resolv_group wid comb val [?ip + 1..<?ll] (val ! ?ip) = Some out" "fits_net n out"
      "bits out = foldl (merge f) (bits (val ! ?ip)) (map (\<lambda>i. bits (val ! i)) [?ip + 1..<?ll])"
      using group [of n "val ! ?ip" "[?ip + 1..<?ll]" val] less.prems(2) idx ipl by fastforce
    have eq: "map (\<lambda>i. bits (val ! i)) [?ip + 1..<?ll] = map ((!) ?A) [?ip + 1..<?ll]" using idx by auto
    have gv: "bits out = group_value f ?A base span ?g" unfolding out(3) eq group_value_def using idx [OF ipl] by simp
    note ex = less.prems(4) [unfolded ok_except_def, rule_format, OF True]
    have fop: "fits_net n (val ! ?op)" using less.prems(2) in_range(1) by simp
    show ?thesis
    proof (cases "eeq (val ! ?op) out")
      case same: True
      then have eq: "?A ! ?op = bits out" using eeq_bits fop out(2) in_range(1) by (simp add: fits_net_def)
      have "?A ! ?op = (if ?m = 1 then map r (group_value f ?A base span ?g) else group_value f ?A base span ?g)"
      proof (cases "?m = 1")
        case one: True
        then have "root_of base span = ?op" using root m(2) root_of.simps [of ?nb 1] by simp
        then show ?thesis using one eq gv less.prems(5) in_range(1) True by simp
      qed (use eq gv in simp)
      then have "tree_ok f r base span ?A" using ex True tree_ok.simps [of f r base span ?A] by auto
      moreover have "resolv_walk wid eeq comb base span p val = Some (None, val)"
        using True out(1) same resolv_walk.simps [of wid eeq comb base span p val] by (simp add: Let_def)
      ultimately show ?thesis using less.prems(2) by auto
    next
      case False
      let ?val = "val[?op := out]"
      have step: "resolv_walk wid eeq comb base span p val = resolv_walk wid eeq comb ?nb ?m ?g ?val"
        using True out(1) False resolv_walk.simps [of wid eeq comb base span p val] by (simp add: Let_def)
      have f': "\<forall>v \<in> set ?val. fits_net n v" using less.prems(2) out(2) set_update_subset_insert [of val ?op out] by blast
      have ex': "ok_except f r ?nb ?m ?g (map bits ?val)"
        unfolding map_update by (rule tree_ok_change) (use ex m in simp_all)
      have root': "1 < ?m \<longrightarrow> ?op < root_of ?nb ?m" using root_of_gt [of ?m ?nb] m(2) by linarith
      have r': "root_of ?nb ?m < length ?val"
        "1 < ?m \<longrightarrow> map r (bits (?val ! root_of ?nb ?m)) = bits (?val ! root_of ?nb ?m)"
        using less.prems(3,5) root root' True by auto
      obtain res val' where w: "resolv_walk wid eeq comb ?nb ?m ?g ?val = Some (res, val')" "\<forall>v \<in> set val'. fits_net n v"
        "length val' = length ?val" "\<forall>i < ?nb + ?m. val' ! i = ?val ! i"
        "res = None \<longrightarrow> tree_ok f r ?nb ?m (map bits val') \<and> val' ! root_of ?nb ?m = ?val ! root_of ?nb ?m"
        "res \<noteq> None \<longrightarrow> res = Some (root_of ?nb ?m)
          \<and> tree_ok f r ?nb ?m ((map bits val')[root_of ?nb ?m := map r (bits (val' ! root_of ?nb ?m))])"
        using less.IH [OF m(1,2) f' r'(1) ex' r'(2)] by blast
      have level: "group_value f B base span g = group_value f ?A base span g" if "\<forall>i < ?nb. B ! i = ?A ! i" "g < ?m" for B g
        by (rule group_value_cong) (use that in auto)
      have below: "\<forall>i < ?nb. val' ! i = val ! i" using w(4) by auto
      have node: "bits (val' ! (?nb + g)) = group_value f ?A base span g" if "g < ?m" "?m \<noteq> 1 \<or> g = ?g" for g
      proof (cases "g = ?g")
        case True
        with w(4) that in_range(1) gv show ?thesis by simp
      next
        case other: False
        with that have "?A ! (?nb + g) = group_value f ?A base span g" using ex by simp
        moreover have "?nb + g < length val" using that(1) root_of_level [OF m(3), of ?nb] r'(1) by simp
        ultimately show ?thesis using w(4) that(1) other by simp
      qed
      show ?thesis
      proof (cases res)
        case None
        have m1: "?m \<noteq> 1" using None w(1) resolv_walk.simps [of wid eeq comb ?nb ?m ?g ?val] by auto
        have "tree_ok f r base span (map bits val')"
          using None w(3,5) level [of "map bits val'"] below node m1 idx root_of_level [OF m(3), of ?nb] r'(1)
          unfolding tree_ok.simps [of f r base span] by simp
        moreover have "val' ! root_of base span = val ! root_of base span"
          using None w(5) root root' m1 m(3) by simp
        ultimately show ?thesis using None w(1-3) step below by auto
      next
        case (Some b)
        define B where "B = (map bits val')[root_of ?nb ?m := map r (bits (val' ! root_of ?nb ?m))]"
        have same: "\<forall>i < ?nb. B ! i = ?A ! i" using below idx w(3) root_of_ge [of ?nb ?m] by (auto simp: B_def)
        have "B ! (?nb + g) = (if ?m = 1 then map r (group_value f ?A base span g) else group_value f ?A base span g)" if g: "g < ?m" for g
        proof (cases "?m = 1")
          case True
          then have "root_of ?nb ?m = ?nb + g" "g = ?g" using g m(2) root_of.simps [of ?nb 1] by simp_all
          then show ?thesis using True node [of g] g w(3) r'(1) by (simp add: B_def)
        next
          case False
          then have "?nb + g < root_of ?nb ?m" using root_of_gt [of ?m ?nb] g m(3) by linarith
          then show ?thesis using False node [OF g] w(3) r'(1) by (simp add: B_def)
        qed
        then have "tree_ok f r base span B"
          using Some w(6) level [OF same] unfolding tree_ok.simps [of f r base span] B_def [symmetric] by simp
        with Some w(1-3,6) step below root show ?thesis by (auto simp: B_def)
      qed
    qed
  qed
qed

text \<open>
  The array is current for the values last received.  With a single port there is no tree: the pulled
  value overwrites the input.
\<close>

definition current :: "('b \<Rightarrow> 'b) \<Rightarrow> nat \<Rightarrow> nat \<Rightarrow> 'b list list \<Rightarrow> 'v list \<Rightarrow> bool" where
  "current r n w inputs val \<longleftrightarrow> 0 < n \<and> length inputs = n \<and> length val = Suc (root_of 0 n) \<and> (\<forall>v \<in> set val. fits_net w v)
     \<and> tree_ok f r 0 n (map bits val) \<and> map r (bits (val ! root_of 0 n)) = bits (val ! root_of 0 n)
     \<and> (if n = 1 then bits (val ! 0) = map r (inputs ! 0) else (\<forall>i < n. bits (val ! i) = inputs ! i))"

lemma current_root:
  assumes "current r n w inputs val"
  shows "bits (val ! root_of 0 n) = map r (tree_value f inputs)"
proof (cases "n = 1")
  case True
  then obtain x where "inputs = [x]" using assms by (auto simp: current_def length_Suc_conv)
  then show ?thesis using assms True root_of.simps [of 0 1] tree_value.simps [of f "[x]"] by (simp add: current_def)
next
  case False
  then have n: "1 < n" using assms by (simp add: current_def)
  have len: "n < length (map bits val)" using assms root_of_gt [OF n, of 0] by (simp add: current_def)
  have "map ((!) (map bits val)) [0..<0 + n] = inputs"
    using assms False len by (intro nth_equalityI) (auto simp: current_def)
  then have "map bits val ! root_of 0 n = map r (tree_value f inputs)"
    using tree_ok_value [OF n, of f r 0 "map bits val"] assms by (simp add: current_def)
  then show ?thesis using assms by (simp add: current_def)
qed

lemma receive_same:
  assumes "current r n w inputs val" and "p < n" and "fits_net w b" and "eeq (val ! p) b"
  shows "current r n w (inputs[p := bits b]) val"
proof -
  have p: "p < length val" using assms root_of_level [of n 0] by (simp add: current_def)
  then have "fits_net w (val ! p)" using assms(1) by (simp add: current_def)
  then have eq: "bits (val ! p) = bits b" using assms(3,4) eeq_bits by (simp add: fits_net_def)
  show ?thesis
  proof (cases "n = 1")
    case True
    then have p0: "p = 0" and root: "root_of 0 n = 0" using assms(2) root_of.simps [of 0 1] by simp_all
    have "map r (bits (val ! root_of 0 n)) = bits (val ! root_of 0 n)" using assms(1) unfolding current_def by blast
    then have "map r (bits b) = bits b" using eq unfolding root p0 by simp
    with assms(1) eq True p0 root_of.simps [of 0 1] show ?thesis by (simp add: current_def)
  next
    case False
    then have "inputs[p := bits b] = inputs" using assms(1,2) eq by (simp add: current_def list_update_same_conv)
    with assms(1) show ?thesis by simp
  qed
qed

lemma receive:
  assumes c: "current r n w inputs val" and p: "p < n" and b: "fits_net w b" and idem: "\<And>x. r (r x) = r x"
  obtains (early) val' where "resolv_walk wid eeq comb 0 n p (val[p := b]) = Some (None, val')"
      and "current r n w (inputs[p := bits b]) val'" and "bits (val' ! root_of 0 n) = bits (val ! root_of 0 n)"
    | (sends) val' where "resolv_walk wid eeq comb 0 n p (val[p := b]) = Some (Some (root_of 0 n), val')"
      and "root_of 0 n < length val'" and "fits_net w (val' ! root_of 0 n)"
      and "\<And>out. fits_net w out \<Longrightarrow> bits out = map r (bits (val' ! root_of 0 n)) \<Longrightarrow>
        current r n w (inputs[p := bits b]) (val'[root_of 0 n := out])"
proof -
  let ?val = "val[p := b]" and ?root = "root_of 0 n"
  have c': "0 < n" "length inputs = n" "length val = Suc ?root" "\<forall>v \<in> set val. fits_net w v" "tree_ok f r 0 n (map bits val)"
    "map r (bits (val ! ?root)) = bits (val ! ?root)" using c by (simp_all add: current_def)
  have all: "\<forall>v \<in> set ?val. fits_net w v" using c'(4) b set_update_subset_insert [of val p b] by blast
  have ex: "ok_except f r 0 n p (map bits ?val)" using tree_ok_change [OF c'(5) p, of "bits b"] by (simp add: map_update)
  have big: "p < ?root" "n \<le> ?root" if "1 < n" using root_of_gt [OF that, of 0] p by linarith+
  have len: "?root < length ?val" using c'(3) by simp
  have fp: "1 < n \<longrightarrow> map r (bits (?val ! ?root)) = bits (?val ! ?root)" using c'(6) big by auto
  obtain res val' where w: "resolv_walk wid eeq comb 0 n p ?val = Some (res, val')" "\<forall>v \<in> set val'. fits_net w v"
    "length val' = length ?val" "\<forall>i < 0 + n. val' ! i = ?val ! i"
    "res = None \<longrightarrow> tree_ok f r 0 n (map bits val') \<and> val' ! ?root = ?val ! ?root"
    "res \<noteq> None \<longrightarrow> res = Some ?root \<and> tree_ok f r 0 n ((map bits val')[?root := map r (bits (val' ! ?root))])"
    using walk [OF p all len ex fp] by blast
  have leaves: "bits (?val ! i) = inputs[p := bits b] ! i" if "i < n" "n \<noteq> 1" for i
    using that c c'(3) big p by (cases "i = p") (auto simp: current_def)
  show thesis
  proof (cases res)
    case None
    have n: "1 < n" using None w(1) c'(1) resolv_walk.simps [of wid eeq comb 0 n p ?val] by (cases "1 < n") auto
    have "bits (val' ! ?root) = bits (val ! ?root)" using None w(5) big [OF n] by simp
    moreover have "current r n w (inputs[p := bits b]) val'"
      using None w(2-5) c' n fp leaves by (simp add: current_def)
    ultimately show thesis using early w(1) None by blast
  next
    case (Some base)
    show thesis
    proof (rule sends)
      show "resolv_walk wid eeq comb 0 n p ?val = Some (Some ?root, val')" using Some w(1,6) by simp
      show l: "?root < length val'" using w(3) len by simp
      then show "fits_net w (val' ! ?root)" using w(2) by simp
      fix out assume out: "fits_net w out" "bits out = map r (bits (val' ! ?root))"
      have a: "\<forall>v \<in> set (val'[?root := out]). fits_net w v" using w(2) out(1) set_update_subset_insert [of val' ?root out] by blast
      have t: "tree_ok f r 0 n (map bits (val'[?root := out]))" using Some w(6) out(2) by (simp add: map_update)
      have x: "map r (bits out) = bits out" using idem by (simp add: out(2) comp_def)
      have "if n = 1 then bits (val'[?root := out] ! 0) = map r (inputs[p := bits b] ! 0)
          else (\<forall>i < n. bits (val'[?root := out] ! i) = inputs[p := bits b] ! i)"
      proof (cases "n = 1")
        case True
        with w(1,4) p c' l out(2) root_of.simps [of 0 1] show ?thesis by simp
      next
        case False
        then have "1 < n" using c'(1) by simp
        then show ?thesis using False w(4) leaves big by auto
      qed
      with a t x l c' w(3) show "current r n w (inputs[p := bits b]) (val'[?root := out])" by (simp add: current_def)
    qed
  qed
qed

text \<open>A new resolver is current for ports without a value.\<close>

lemma current_new:
  assumes "0 < n" and "ok e" and "wid e = 0"
  shows "current r n w (replicate n []) (replicate (Suc (root_of 0 n)) e)"
proof -
  have e: "bits e = []" using assms(2,3) bits_empty by simp
  have "foldl (merge f) [] (replicate k []) = []" for k by (induction k) (simp_all add: merge_def)
  then have gv: "group_value f (replicate N []) base span g = []" if "base + span \<le> N" "4 * g < span" for N base span g
  proof -
    have eq: "map ((!) (replicate N [])) [base + 4 * g + 1..<min (base + 4 * g + 4) (base + span)] =
        map (\<lambda>_. []) [base + 4 * g + 1..<min (base + 4 * g + 4) (base + span)]" using that(1) by (intro map_cong) auto
    show ?thesis unfolding group_value_def eq map_replicate_const using that \<open>\<And>k. foldl (merge f) [] (replicate k []) = []\<close> by simp
  qed
  have "tree_ok f r base span (replicate N [])" if "root_of base span < N" "0 < span" for base span N
    using that
  proof (induction span arbitrary: base rule: less_induct)
    case (less span)
    show ?case
    proof (cases "1 < span")
      case True
      let ?m = "(span + 3) div 4"
      have root: "root_of base span = root_of (base + span) ?m" using True root_of.simps [of base span] by simp
      have "0 < ?m" using True by simp
      then have "base + span + ?m \<le> N" using root less.prems(1) root_of_level [of ?m "base + span"] by linarith
      then have "\<forall>g < ?m. (replicate N [] :: 'b list list) ! (base + span + g) = [] \<and> group_value f (replicate N []) base span g = []"
        using gv by auto
      moreover have "tree_ok f r (base + span) ?m (replicate N [])" using less.IH [of ?m "base + span"] less.prems root True by simp
      ultimately show ?thesis unfolding tree_ok.simps [of f r base span] by simp
    qed (simp add: tree_ok.simps [of f r base span])
  qed
  then have t: "tree_ok f r 0 n (map bits (replicate (Suc (root_of 0 n)) e))"
    unfolding map_replicate e using assms(1) by (simp del: replicate_Suc)
  have "replicate (Suc (root_of 0 n)) e ! i = e" if "i \<le> root_of 0 n" for i
    using that nth_replicate [of i "Suc (root_of 0 n)" e] by simp
  moreover have "i \<le> root_of 0 n" if "i < n" for i using that root_of_level [OF assms(1), of 0] by simp
  ultimately have "bits (replicate (Suc (root_of 0 n)) e ! i) = []" if "i < n" for i using that e by metis
  then show ?thesis unfolding current_def using assms t e by (simp add: fits_net_def del: replicate_Suc)
qed

end

section \<open>Resolution of strengths\<close>

interpretation tri: net_values v8_inv v8_size v8_list v8_eeq v8_resolve resolve
proof
  fix v w :: vvp_vector8_t assume "v8_inv v"
  then show "length (v8_list v) = v8_size v" by simp
  show "v8_inv w \<Longrightarrow> v8_eeq v w \<longleftrightarrow> v8_list v = v8_list w" using \<open>v8_inv v\<close> by (rule v8_eeq_list)
  show "v8_inv w \<Longrightarrow> v8_size v = v8_size w \<Longrightarrow> \<exists>r. v8_resolve v w = Some r \<and> v8_inv r \<and> v8_list r = map2 resolve (v8_list v) (v8_list w)"
    using \<open>v8_inv v\<close> v8_resolve_list by blast
qed

text \<open>Pulling twice is pulling once, for a known drive.\<close>

lemma resolve_idem:
  assumes h: "UNAMBIG h" "\<not> is_hiz h"
  shows "resolve (resolve x h) h = resolve x h"
proof -
  have hp: "bit h 7 = bit h 3" "STREN1 h = STREN0 h" "STREN0 h \<noteq> 0" using h by (auto simp: UNAMBIG_parts is_hiz_def hiz_parts)
  have tie: "bit ((y AND 0x77) OR 0x80 :: vvp_scalar_t) 7" "\<not> bit ((y AND 0x77) OR 0x80 :: vvp_scalar_t) 3"
    "STREN1 ((y AND 0x77) OR 0x80) = STREN1 y" "STREN0 ((y AND 0x77) OR 0x80) = STREN0 y" for y
    unfolding STREN_eq by (simp_all add: bit_or_iff bit_and_iff)
  have ff: "fully_featured_resolv y h = (if UNAMBIG y then if STREN0 h > STREN0 y then h
      else if STREN0 y = STREN0 h then (y AND 0x77) OR 0x80 else y else sweep h y)" for y
    using h(1) hp(2) by (auto simp: fully_featured_resolv_def compare_strengths same_strengths UNAMBIG_parts)
  have hh: "resolve h h = h" by (simp add: resolve_def scalar_eeq_def)
  have fixed: "resolve y h = y" if "\<not> is_hiz y" "y = h \<or> fully_featured_resolv y h = y" for y
    using that h(2) by (auto simp: resolve_def scalar_eeq_def)
  show ?thesis
  proof (cases "is_hiz x \<or> x = h")
    case True
    then show ?thesis using hh by (auto simp: resolve_def)
  next
    case False
    then have r: "resolve x h = fully_featured_resolv x h" using h(2) by (simp add: resolve_def scalar_eeq_def)
    show ?thesis
    proof (cases "UNAMBIG x")
      case True
      have t: "sweep h ((x AND 0x77) OR 0x80) = (x AND 0x77) OR 0x80" if "STREN0 x = STREN0 h"
        using that True hp unfolding byte_parts [of "sweep _ _"] sweep_parts tie UNAMBIG_parts by simp
      have "\<not> UNAMBIG ((x AND 0x77) OR 0x80)" by (simp add: UNAMBIG_parts tie)
      moreover have "\<not> is_hiz ((x AND 0x77) OR 0x80)" using False by (simp add: is_hiz_def hiz_parts tie)
      ultimately show ?thesis unfolding r using True False t hh by (auto simp: ff intro!: fixed)
    next
      case amb: False
      let ?y = "sweep h x"
      have y: "resolve x h = ?y" using amb r ff by simp
      have nz: "\<not> is_hiz ?y" using hp by (simp add: is_hiz_def hiz_parts sweep_parts)
      have "?y = h \<or> fully_featured_resolv ?y h = ?y"
      proof (cases "UNAMBIG ?y")
        case True
        have "?y = h" if "STREN0 ?y = STREN0 h"
        proof -
          have "STREN1 ?y = STREN1 h" using that True hp by (simp add: UNAMBIG_parts)
          with that have le: "STREN0 x \<le> STREN0 h" "STREN1 x \<le> STREN1 h" by (simp_all add: sweep_parts)
          consider "STREN0 x < STREN0 h" | "STREN1 x < STREN1 h" | "STREN0 x = STREN0 h" "STREN1 x = STREN1 h" using le by linarith
          then show ?thesis
          proof cases
            case 3
            then have "bit ?y 7 = bit x 7" "bit ?y 3 = bit x 3" by (simp_all add: sweep_parts)
            with 3 True amb hp show ?thesis by (simp add: UNAMBIG_parts)
          qed (use True that \<open>STREN1 ?y = STREN1 h\<close> hp in \<open>simp_all add: byte_parts [of "sweep _ _"] UNAMBIG_parts sweep_parts\<close>)
        qed
        then show ?thesis using True by (auto simp: ff sweep_parts)
      next
        case False
        have "sweep h ?y = ?y" unfolding byte_parts [of "sweep h ?y"] by (simp add: sweep_parts(2,4) sweep_parts(1,3) [of h ?y])
        with False show ?thesis by (simp add: ff)
      qed
      with nz show ?thesis unfolding y by (rule fixed)
    qed
  qed
qed

definition pulled :: "vvp_scalar_t \<Rightarrow> vvp_scalar_t \<Rightarrow> vvp_scalar_t" where
  "pulled h x = (if is_hiz h then x else resolve x h)"

lemma pulled_idem: "UNAMBIG h \<Longrightarrow> pulled h (pulled h x) = pulled h x"
  using resolve_idem by (simp add: pulled_def)

lemma pull_value_list:
  assumes "v8_inv v"
  obtains r where "pull_value h v = Some r" and "v8_inv r" and "v8_size r = v8_size v"
    and "v8_list r = map (pulled h) (v8_list v)"
proof (cases "is_hiz h")
  case True
  then have "map (pulled h) (v8_list v) = v8_list v" by (simp add: pulled_def map_idI)
  with True show thesis using that [of v] assms by (simp add: pull_value_def)
next
  case False
  let ?f = "\<lambda>idx v. Option.bind (v8_value v idx) (\<lambda>b. v8_set_bit v idx (resolve b h))"
  have "\<exists>r. for_each ?f [0..<v8_size v] v = Some r \<and> v8_inv r \<and> v8_size r = v8_size v
      \<and> (\<forall>i < v8_size v. v8_at r i = (if i < v8_size v then resolve (v8_at v i) h else v8_at v i))"
  proof (rule for_upto_rule [where P = "\<lambda>k r. v8_inv r \<and> v8_size r = v8_size v
      \<and> (\<forall>i < v8_size v. v8_at r i = (if i < k then resolve (v8_at v i) h else v8_at v i))"])
    fix k r
    assume k: "k < v8_size v" and r: "v8_inv r \<and> v8_size r = v8_size v
      \<and> (\<forall>i < v8_size v. v8_at r i = (if i < k then resolve (v8_at v i) h else v8_at v i))"
    obtain u where "v8_set_bit r k (resolve (v8_at v k) h) = Some u" "v8_inv u" "v8_size u = v8_size v"
      "\<forall>j < v8_size v. v8_at u j = (if j = k then resolve (v8_at v k) h else v8_at r j)"
      using v8.set_bit_in [of r k "resolve (v8_at v k) h"] r k by auto
    with r k show "\<exists>u. ?f k r = Some u \<and> v8_inv u \<and> v8_size u = v8_size v
        \<and> (\<forall>i < v8_size v. v8_at u i = (if i < Suc k then resolve (v8_at v i) h else v8_at v i))"
      by (auto simp: less_Suc_eq)
  qed (use assms in simp)
  then obtain r where r: "for_each ?f [0..<v8_size v] v = Some r" "v8_inv r" "v8_size r = v8_size v"
    "\<forall>i < v8_size v. v8_at r i = resolve (v8_at v i) h" by auto
  then have "v8_list r = map (\<lambda>x. resolve x h) (v8_list v)" using assms by (intro v8_listI) simp_all
  with r False that show thesis by (simp add: pull_value_def pulled_def)
qed

text \<open>
  The state of a resolver for the values \<open>inputs\<close> last received, with \<open>w\<close> the width of the net.  A message
  keeps it, and when nothing is sent the output has not changed.
\<close>

definition tri_inv :: "nat \<Rightarrow> vvp_scalar_t list list \<Rightarrow> resolv_tri \<Rightarrow> bool" where
  "tri_inv w inputs s \<longleftrightarrow> UNAMBIG (rt_hiz_value s)
     \<and> tri.current (pulled (rt_hiz_value s)) (rt_nports s) w inputs (rt_val s)"

definition tri_out :: "resolv_tri \<Rightarrow> vvp_scalar_t list \<Rightarrow> bool" where
  "tri_out s out \<longleftrightarrow> v8_list (rt_val s ! root_of 0 (rt_nports s)) = out"

lemma tri_new: "0 < n \<Longrightarrow> UNAMBIG h \<Longrightarrow> tri_inv w (replicate n []) (resolv_tri_make n h)"
  using tri.current_new [of n "v8_make 0" "pulled h" w]
  by (simp add: tri_inv_def resolv_tri_make_def resolv_nnodes_root del: replicate_Suc)

lemma tri_value: "tri_inv w inputs s \<Longrightarrow> tri_out s (map (pulled (rt_hiz_value s)) (tree_value resolve inputs))"
  unfolding tri_inv_def tri_out_def using tri.current_root by blast

lemma tri_recv_vec8:
  assumes s: "tri_inv w inputs s" and p: "p < rt_nports s" and b: "v8_inv b" "v8_size b = w"
  shows "\<exists>s' acts. tri_recv_vec8 p b s = Some (s', acts) \<and> tri_inv w (inputs[p := v8_list b]) s'
    \<and> rt_nports s' = rt_nports s \<and> rt_hiz_value s' = rt_hiz_value s
    \<and> (case acts of [] \<Rightarrow> (\<forall>out. tri_out s' out \<longleftrightarrow> tri_out s out) | [SEND_VEC8 v] \<Rightarrow> tri_out s' (v8_list v) | _ \<Rightarrow> False)"
proof -
  let ?h = "rt_hiz_value s" and ?n = "rt_nports s" and ?root = "root_of 0 (rt_nports s)"
  have h: "UNAMBIG ?h" and c: "tri.current (pulled ?h) ?n w inputs (rt_val s)" using s by (simp_all add: tri_inv_def)
  have fit: "tri.fits_net w b" using b by (simp add: tri.fits_net_def)
  note idem = pulled_idem [OF h]
  show ?thesis
  proof (cases "v8_eeq (rt_val s ! p) b")
    case True
    then show ?thesis using tri.receive_same [OF c p fit] h p s by (simp add: tri_recv_vec8_def tri_inv_def)
  next
    case False
    from tri.receive [OF c p fit idem] show ?thesis
    proof cases
      case (1 val')
      then show ?thesis using False p h by (simp add: tri_recv_vec8_def tri_inv_def tri_out_def)
    next
      case (2 val')
      obtain out where out: "pull_value ?h (val' ! ?root) = Some out" "v8_inv out" "v8_size out = v8_size (val' ! ?root)"
        "v8_list out = map (pulled ?h) (v8_list (val' ! ?root))"
        using pull_value_list [of "val' ! ?root" ?h] 2(3) by (auto simp: tri.fits_net_def)
      have "tri.fits_net w out" using out(2,3) 2(3) by (simp add: tri.fits_net_def)
      then have "tri.current (pulled ?h) ?n w (inputs[p := v8_list b]) (val'[?root := out])" using 2(4) out(4) by blast
      then show ?thesis using False p h 2(1,2) out(1) by (simp add: tri_recv_vec8_def tri_inv_def tri_out_def)
    qed
  qed
qed

section \<open>Wired logic\<close>

lemma wired_logic_math_list:
  assumes "v4_size v = v4_size w"
  shows "\<exists>r. wired_logic_math f v w = Some r \<and> v4_inv r \<and> v4_list r = map2 f (v4_list v) (v4_list w)"
proof -
  obtain r where r: "for_each (\<lambda>i u. v4_set_bit u i (f (v4_value v i) (v4_value w i))) [0..<v4_size v] (v4_fill (v4_size v) BIT4_X) = Some r"
    "v4_inv r" "v4_size r = v4_size v" "\<And>i. i < v4_size v \<Longrightarrow> v4_value r i = f (v4_value v i) (v4_value w i)"
    using v4.build [OF v4_fill_inv, of "v4_size v" "v4_size v" BIT4_X "\<lambda>i. f (v4_value v i) (v4_value w i)"] by auto
  then have "v4_list r = map2 f (v4_list v) (v4_list w)" using assms by (intro v4_listI) auto
  with r assms show ?thesis by (simp add: wired_logic_math_def)
qed

interpretation wired: net_values v4_inv v4_size v4_list v4_eeq "wired_logic_math f" f for f
  by unfold_locales (simp_all add: v4_eeq_list wired_logic_math_list)

definition wired_inv :: "(vvp_bit4_t \<Rightarrow> vvp_bit4_t \<Rightarrow> vvp_bit4_t) \<Rightarrow> nat \<Rightarrow> vvp_bit4_t list list \<Rightarrow> resolv_wired_logic \<Rightarrow> bool" where
  "wired_inv f w inputs s \<longleftrightarrow> wired.current f (\<lambda>x. x) (rw_nports s) w inputs (rw_val s)"

definition wired_out :: "resolv_wired_logic \<Rightarrow> vvp_bit4_t list" where
  "wired_out s = v4_list (rw_val s ! root_of 0 (rw_nports s))"

lemma wired_new: "0 < n \<Longrightarrow> wired_inv f w (replicate n []) (resolv_wired_make n)"
  using wired.current_new [of n "v4_fill 0 BIT4_X" f "\<lambda>x. x" w]
  by (simp add: wired_inv_def resolv_wired_make_def resolv_nnodes_root v4_fill_inv del: replicate_Suc)

lemma wired_value: "wired_inv f w inputs s \<Longrightarrow> wired_out s = tree_value f inputs"
  using wired.current_root [of f "\<lambda>x. x"] by (simp add: wired_inv_def wired_out_def)

lemma wired_recv_vec4:
  assumes s: "wired_inv f w inputs s" and p: "p < rw_nports s" and b: "v4_inv b" "v4_size b = w"
  shows "\<exists>s' acts. wired_recv_vec4 f p b s = Some (s', acts) \<and> wired_inv f w (inputs[p := v4_list b]) s' \<and> rw_nports s' = rw_nports s
    \<and> (if acts = [] then wired_out s' = wired_out s else sent_vec4 acts = Some (wired_out s'))"
proof -
  let ?root = "root_of 0 (rw_nports s)"
  have c: "wired.current f (\<lambda>x. x) (rw_nports s) w inputs (rw_val s)" using s by (simp add: wired_inv_def)
  have fit: "wired.fits_net w b" using b by (simp add: wired.fits_net_def)
  show ?thesis
  proof (cases "v4_eeq (rw_val s ! p) b")
    case True
    then show ?thesis using wired.receive_same [OF c p fit] p by (simp add: wired_recv_vec4_def wired_inv_def)
  next
    case False
    from wired.receive [OF c p fit refl] show ?thesis
    proof cases
      case (1 val')
      then show ?thesis using False p by (simp add: wired_recv_vec4_def wired_inv_def wired_out_def)
    next
      case (2 val')
      have "wired.current f (\<lambda>x. x) (rw_nports s) w (inputs[p := v4_list b]) (val'[?root := val' ! ?root])"
        by (rule 2(4) [OF 2(3)]) simp
      then show ?thesis using False p 2(1) by (simp add: wired_recv_vec4_def wired_inv_def wired_out_def)
    qed
  qed
qed

text \<open>For an associative operator the grouping does not matter: the output is the combination of all drivers in order.\<close>

lemma merge_assoc:
  assumes "\<And>x y z. f (f x y) z = f x (f y z)"
  shows "merge f (merge f a b) c = merge f a (merge f b c)"
proof -
  have "map2 f (map2 f a b) c = map2 f a (map2 f b c)"
    using assms by (auto simp: list_eq_iff_nth_eq)
  moreover have "map2 f x y = [] \<longleftrightarrow> x = [] \<or> y = []" for x y :: "'a list" by (cases x; cases y; simp)
  ultimately show ?thesis by (auto simp: merge_def)
qed

lemma merge_Nil [simp]: "merge f [] a = a" "merge f a [] = a"
  by (simp_all add: merge_def)

lemma foldl_merge:
  assumes "\<And>x y z. f (f x y) z = f x (f y z)"
  shows "foldl (merge f) a xs = merge f a (foldl (merge f) [] xs)"
proof (induction xs arbitrary: a)
  case (Cons x xs)
  show ?case using Cons.IH [of "merge f a x"] Cons.IH [of x] merge_assoc [OF assms] by simp
qed simp

lemma group_value_take:
  assumes "4 * g < length xs"
  shows "group_value f xs 0 (length xs) g = foldl (merge f) [] (take 4 (drop (4 * g) xs))"
proof -
  have "take 4 (drop (4 * g) xs) = map ((!) xs) [4 * g..<min (4 * g + 4) (length xs)]"
    by (rule nth_equalityI) auto
  also have "[4 * g..<min (4 * g + 4) (length xs)] = 4 * g # [4 * g + 1..<min (4 * g + 4) (length xs)]"
    using assms by (simp add: upt_conv_Cons)
  finally show ?thesis by (simp add: group_value_def)
qed

lemma foldl_groups:
  assumes "\<And>x y z. f (f x y) z = f x (f y z)"
  shows "foldl (merge f) [] (map (group_value f xs 0 (length xs)) [0..<(length xs + 3) div 4]) = foldl (merge f) [] xs"
proof -
  have "foldl (merge f) [] (map (group_value f xs 0 (length xs)) [0..<k]) = foldl (merge f) [] (take (4 * k) xs)"
    if "k \<le> (length xs + 3) div 4" for k
    using that
  proof (induction k)
    case (Suc k)
    then have k: "4 * k < length xs" by auto
    have "take (4 * Suc k) xs = take (4 * k) xs @ take 4 (drop (4 * k) xs)" by (simp add: take_add [symmetric] add.commute)
    then show ?case using Suc k foldl_merge [OF assms, of "foldl (merge f) [] (take (4 * k) xs)"] by (simp add: group_value_take)
  qed simp
  from this [of "(length xs + 3) div 4"] show ?thesis by simp
qed

lemma tree_value_fold:
  assumes "\<And>x y z. f (f x y) z = f x (f y z)"
  shows "tree_value f xs = foldl (merge f) [] xs"
proof (induction xs rule: measure_induct_rule [where f = length])
  case (less xs)
  show ?case
  proof (cases "1 < length xs")
    case True
    then have "tree_value f xs = tree_value f (map (group_value f xs 0 (length xs)) [0..<(length xs + 3) div 4])"
      using tree_value.simps [of f xs] by simp
    also have "\<dots> = foldl (merge f) [] (map (group_value f xs 0 (length xs)) [0..<(length xs + 3) div 4])"
      by (rule less) (use True in auto)
    finally show ?thesis using foldl_groups [OF assms, of xs] by simp
  next
    case False
    then show ?thesis using tree_value.simps [of f xs] by (cases xs) auto
  qed
qed

lemma wired_assoc:
  "triand_bit (triand_bit x y) z = triand_bit x (triand_bit y z)" "trior_bit (trior_bit x y) z = trior_bit x (trior_bit y z)"
  by (cases x; cases y; cases z; simp add: triand_bit_def trior_bit_def)+

section \<open>Runs of messages\<close>

text \<open>Messages at the ports of a functor, one after the other, and the values last received at the ports.\<close>

fun port_run :: "(nat \<Rightarrow> 'v \<Rightarrow> 's \<Rightarrow> 's reply) \<Rightarrow> (nat \<times> 'v) list \<Rightarrow> 's \<Rightarrow> 's reply" where
  "port_run recv [] s = Some (s, [])"
| "port_run recv ((p, v) # ms) s = Option.bind (recv p v s) (\<lambda>(s, acts). map_option (map_prod id ((@) acts)) (port_run recv ms s))"

definition last_received :: "('v \<Rightarrow> 'b list) \<Rightarrow> (nat \<times> 'v) list \<Rightarrow> 'b list list \<Rightarrow> 'b list list" where
  "last_received val_of = fold (\<lambda>(p, v) inputs. inputs[p := val_of v])"

text \<open>
  A functor whose output is determined by the values last received: a message keeps its invariant, and it sends its output, in
  a single message, at least when the output changes.
\<close>

locale port_functor =
  fixes recv :: "nat \<Rightarrow> 'v \<Rightarrow> 's \<Rightarrow> 's reply"
    and inv :: "'b list list \<Rightarrow> 's \<Rightarrow> bool"
    and nports :: "'s \<Rightarrow> nat"
    and ok :: "'v \<Rightarrow> bool"
    and val_of :: "'v \<Rightarrow> 'b list"
    and out :: "'s \<Rightarrow> 'b list"
    and sent :: "action list \<Rightarrow> 'b list option"
  assumes step: "inv inputs s \<Longrightarrow> p < nports s \<Longrightarrow> ok v \<Longrightarrow> \<exists>s' acts. recv p v s = Some (s', acts) \<and> inv (inputs[p := val_of v]) s'
    \<and> nports s' = nports s \<and> (acts = [] \<and> out s' = out s \<or> (\<exists>a. acts = [a] \<and> sent [a] = Some (out s')))"
begin

lemma run:
  assumes "inv inputs s" and "list_all (\<lambda>(p, v). p < nports s \<and> ok v) ms"
  shows "\<exists>s' acts. port_run recv ms s = Some (s', acts) \<and> inv (last_received val_of ms inputs) s'
    \<and> (if acts = [] then out s' = out s else sent [last acts] = Some (out s'))"
  using assms
proof (induction ms arbitrary: inputs s)
  case (Cons m ms)
  obtain p v where m: "m = (p, v)" by force
  obtain s1 acts1 where 1: "recv p v s = Some (s1, acts1)" "inv (inputs[p := val_of v]) s1" "nports s1 = nports s"
    "acts1 = [] \<and> out s1 = out s \<or> (\<exists>a. acts1 = [a] \<and> sent [a] = Some (out s1))"
    using step [OF Cons.prems(1), of p v] Cons.prems(2) unfolding m list.pred_inject by blast
  obtain s' acts where 2: "port_run recv ms s1 = Some (s', acts)" "inv (last_received val_of ms (inputs[p := val_of v])) s'"
    "if acts = [] then out s' = out s1 else sent [last acts] = Some (out s')"
    using Cons.IH [OF 1(2)] Cons.prems(2) 1(3) by auto
  then show ?case using 1 m by (auto simp: last_received_def)
qed (simp add: last_received_def)

end

definition tri_root :: "resolv_tri \<Rightarrow> vvp_scalar_t list" where
  "tri_root s = v8_list (rt_val s ! root_of 0 (rt_nports s))"

interpretation tri_net: port_functor tri_recv_vec8 "\<lambda>inputs s. tri_inv w inputs s \<and> rt_hiz_value s = h" rt_nports
  "\<lambda>v. v8_inv v \<and> v8_size v = w" v8_list tri_root sent_vec8 for w h
proof
  fix inputs s p v
  assume a: "tri_inv w inputs s \<and> rt_hiz_value s = h" "p < rt_nports s" "v8_inv v \<and> v8_size v = w"
  then obtain s' acts where r: "tri_recv_vec8 p v s = Some (s', acts)" "tri_inv w (inputs[p := v8_list v]) s'" "rt_nports s' = rt_nports s"
    "rt_hiz_value s' = rt_hiz_value s"
    "case acts of [] \<Rightarrow> (\<forall>out. tri_out s' out \<longleftrightarrow> tri_out s out) | [SEND_VEC8 v] \<Rightarrow> tri_out s' (v8_list v) | _ \<Rightarrow> False"
    using tri_recv_vec8 [of w inputs s p v] by auto
  from r(5) have "acts = [] \<and> tri_root s' = tri_root s \<or> (\<exists>a. acts = [a] \<and> sent_vec8 [a] = Some (tri_root s'))"
    by (cases acts rule: sent_vec8.cases) (auto simp: tri_out_def tri_root_def split: action.splits)
  with r a show "\<exists>s' acts. tri_recv_vec8 p v s = Some (s', acts) \<and> (tri_inv w (inputs[p := v8_list v]) s' \<and> rt_hiz_value s' = h) \<and> rt_nports s' = rt_nports s
      \<and> (acts = [] \<and> tri_root s' = tri_root s \<or> (\<exists>a. acts = [a] \<and> sent_vec8 [a] = Some (tri_root s')))" by blast
qed

interpretation wired_net: port_functor "wired_recv_vec4 f" "wired_inv f w" rw_nports "\<lambda>v. v4_inv v \<and> v4_size v = w" v4_list wired_out sent_vec4 for f w
proof
  fix inputs s p v
  assume "wired_inv f w inputs s" "p < rw_nports s" "v4_inv v \<and> v4_size v = w"
  then obtain s' acts where r: "wired_recv_vec4 f p v s = Some (s', acts)" "wired_inv f w (inputs[p := v4_list v]) s'" "rw_nports s' = rw_nports s"
    "if acts = [] then wired_out s' = wired_out s else sent_vec4 acts = Some (wired_out s')"
    using wired_recv_vec4 [of f w inputs s p v] by blast
  moreover have "\<exists>a. acts = [a]" if "sent_vec4 acts = Some l" for l using that by (cases acts rule: sent_vec4.cases) auto
  ultimately show "\<exists>s' acts. wired_recv_vec4 f p v s = Some (s', acts) \<and> wired_inv f w (inputs[p := v4_list v]) s' \<and> rw_nports s' = rw_nports s
      \<and> (acts = [] \<and> wired_out s' = wired_out s \<or> (\<exists>a. acts = [a] \<and> sent_vec4 [a] = Some (wired_out s')))"
    by (cases "acts = []") (use r in \<open>auto split: if_splits\<close>)
qed

end
