(* ===== verification/Devices.thy ===== *)
theory Devices
  imports Functor
begin

text \<open>
  Further functors that answer at once: the reduction operators (\<^verbatim>\<open>src/vvp/reduce.cc\<close>), the three-state buffers
  (\<^verbatim>\<open>bufif.cc\<close>), the MOS switches (\<^verbatim>\<open>npmos.cc\<close>), and the flip-flops (\<^verbatim>\<open>dff.cc\<close>).
\<close>

section \<open>Reductions\<close>

text \<open>The state is the vector last reduced.\<close>

definition reduce_recv_vec4 :: "(vvp_vector4_t \<Rightarrow> vvp_bit4_t) \<Rightarrow> nat \<Rightarrow> vvp_vector4_t \<Rightarrow> vvp_vector4_t \<Rightarrow> vvp_vector4_t reply" where
  "reduce_recv_vec4 calculate_result p b bits = Some (b, [SEND_VEC4 (v4_fill 1 (calculate_result b))])"

definition reduce_recv_vec4_pv :: "(vvp_vector4_t \<Rightarrow> vvp_bit4_t) \<Rightarrow> nat \<Rightarrow> vvp_vector4_t \<Rightarrow> nat \<Rightarrow> nat \<Rightarrow> vvp_vector4_t
    \<Rightarrow> vvp_vector4_t reply" where
  "reduce_recv_vec4_pv calculate_result p b base vwid bits =
    (let bits = (if v4_size bits = 0 then v4_fill vwid BIT4_X else bits) in
     if v4_size bits = vwid
     then map_option (\<lambda>(_, bits). (bits, [SEND_VEC4 (v4_fill 1 (calculate_result bits))])) (v4_set_vec bits base b)
     else None)"

definition reduce_and :: "vvp_vector4_t \<Rightarrow> vvp_bit4_t" where "reduce_and = v4_reduce_and"
definition reduce_or :: "vvp_vector4_t \<Rightarrow> vvp_bit4_t" where "reduce_or = v4_reduce_or"
definition reduce_xor :: "vvp_vector4_t \<Rightarrow> vvp_bit4_t" where "reduce_xor = v4_reduce_xor"
definition reduce_nand :: "vvp_vector4_t \<Rightarrow> vvp_bit4_t" where "reduce_nand v = bit4_not (v4_reduce_and v)"
definition reduce_nor :: "vvp_vector4_t \<Rightarrow> vvp_bit4_t" where "reduce_nor v = bit4_not (v4_reduce_or v)"
definition reduce_xnor :: "vvp_vector4_t \<Rightarrow> vvp_bit4_t" where "reduce_xnor v = bit4_not (v4_reduce_xor v)"

definition reduce_recv :: "(vvp_vector4_t \<Rightarrow> vvp_bit4_t) \<Rightarrow> message \<Rightarrow> vvp_vector4_t \<Rightarrow> vvp_vector4_t reply" where
  "reduce_recv calculate_result = net_fun_recv (reduce_recv_vec4 calculate_result) (reduce_recv_vec4_pv calculate_result)"

section \<open>Three-state buffers\<close>

record vvp_fun_bufif =
  bi_bit :: vvp_vector4_t
  bi_en :: vvp_vector4_t

definition fun_bufif :: vvp_fun_bufif where
  "fun_bufif = \<lparr>bi_bit = v4_fill 0 BIT4_X, bi_en = v4_fill 0 BIT4_X\<rparr>"

definition bufif_bit :: "nat \<Rightarrow> nat \<Rightarrow> vvp_bit4_t \<Rightarrow> vvp_bit4_t \<Rightarrow> vvp_scalar_t option" where
  "bufif_bit drive0 drive1 b_en b_bit = (case b_en of
       BIT4_0 \<Rightarrow> scalar_of BIT4_Z drive0 drive1
     | BIT4_1 \<Rightarrow> if bit4_is_xz b_bit then scalar_of BIT4_X drive0 drive1 else scalar_of b_bit drive0 drive1
     | _ \<Rightarrow> (case b_bit of
           BIT4_0 \<Rightarrow> scalar_of BIT4_X drive0 0
         | BIT4_1 \<Rightarrow> scalar_of BIT4_X 0 drive1
         | _ \<Rightarrow> scalar_of BIT4_X drive0 drive1))"

definition bufif_recv_vec4 :: "bool \<Rightarrow> bool \<Rightarrow> nat \<Rightarrow> nat \<Rightarrow> nat \<Rightarrow> vvp_vector4_t \<Rightarrow> vvp_fun_bufif \<Rightarrow> vvp_fun_bufif reply" where
  "bufif_recv_vec4 pol invert drive0 drive1 p b s =
    (if p \<le> 1 then
       let s = (if p = 0 then s\<lparr>bi_bit := (if invert then v4_not b else b)\<rparr> else s\<lparr>bi_en := (if pol then v4_not b else b)\<rparr>) in
       map_option (\<lambda>out. (s, [SEND_VEC8 out]))
         (for_each (\<lambda>idx out. Option.bind (bufif_bit drive0 drive1 (v4_value (bi_en s) idx) (v4_value (bi_bit s) idx)) (v8_set_bit out idx))
           [0..<v4_size b] (v8_make (v4_size b)))
     else Some (s, []))"

definition bufif_recv :: "bool \<Rightarrow> bool \<Rightarrow> nat \<Rightarrow> nat \<Rightarrow> message \<Rightarrow> vvp_fun_bufif \<Rightarrow> vvp_fun_bufif reply" where
  "bufif_recv pol invert drive0 drive1 =
    net_fun_recv (bufif_recv_vec4 pol invert drive0 drive1) (base_recv_vec4_pv (bufif_recv_vec4 pol invert drive0 drive1))"

section \<open>MOS switches\<close>

text \<open>The strengths a switch lets through, and what it makes of a bit with an unknown control.\<close>

definition switch_data :: "bool \<Rightarrow> vvp_scalar_t \<Rightarrow> vvp_scalar_t option" where
  "switch_data resistive b =
    (let strength_map = vvp_switch_strength_map ! (if resistive then 1 else 0) in
     scalar_of (scalar_value b) (strength_map ! strength0 b) (strength_map ! strength1 b))"

definition switch_unknown :: "vvp_scalar_t \<Rightarrow> vvp_scalar_t option" where
  "switch_unknown b = (case scalar_value b of
       BIT4_0 \<Rightarrow> scalar_of BIT4_X (strength0 b) 0
     | BIT4_1 \<Rightarrow> scalar_of BIT4_X 0 (strength1 b)
     | _ \<Rightarrow> Some b)"

definition pmos_bit :: "bool \<Rightarrow> vvp_bit4_t \<Rightarrow> vvp_scalar_t \<Rightarrow> vvp_scalar_t option" where
  "pmos_bit resistive b_en b = Option.bind (switch_data resistive b) (\<lambda>b_bit. case b_en of
       BIT4_0 \<Rightarrow> Some b_bit
     | BIT4_1 \<Rightarrow> scalar_of BIT4_Z 0 0
     | _ \<Rightarrow> switch_unknown b_bit)"

definition cmos_bit :: "bool \<Rightarrow> vvp_bit4_t \<Rightarrow> vvp_bit4_t \<Rightarrow> vvp_scalar_t \<Rightarrow> vvp_scalar_t option" where
  "cmos_bit resistive b_n_en b_p_en b = Option.bind (switch_data resistive b) (\<lambda>b_bit.
     if b_n_en = BIT4_1 \<or> b_p_en = BIT4_0 then Some b_bit
     else if b_n_en = BIT4_0 \<and> b_p_en = BIT4_1 then scalar_of BIT4_Z 0 0
     else switch_unknown b_bit)"

definition switch_output :: "(nat \<Rightarrow> vvp_scalar_t \<Rightarrow> vvp_scalar_t option) \<Rightarrow> vvp_vector8_t \<Rightarrow> action list option" where
  "switch_output f b = map_option (\<lambda>out. if v8_size out > 0 then [SEND_VEC8 out] else [])
     (for_each (\<lambda>idx out. Option.bind (v8_value b idx) (\<lambda>x. Option.bind (f idx x) (v8_set_bit out idx)))
       [0..<v8_size b] (v8_make (v8_size b)))"

record vvp_fun_pmos =
  pm_bit :: vvp_vector8_t
  pm_en :: vvp_vector4_t

definition fun_pmos :: vvp_fun_pmos where
  "fun_pmos = \<lparr>pm_bit = v8_make 0, pm_en = v4_fill 0 BIT4_X\<rparr>"

definition pmos_generate_output :: "bool \<Rightarrow> vvp_fun_pmos \<Rightarrow> vvp_fun_pmos reply" where
  "pmos_generate_output resistive s =
    map_option (\<lambda>acts. (s, acts)) (switch_output (\<lambda>idx. pmos_bit resistive (v4_value (pm_en s) idx)) (pm_bit s))"

definition pmos_enable :: "bool \<Rightarrow> bool \<Rightarrow> vvp_vector4_t \<Rightarrow> vvp_fun_pmos \<Rightarrow> vvp_fun_pmos reply" where
  "pmos_enable inv_en resistive b s = pmos_generate_output resistive (s\<lparr>pm_en := (if inv_en then v4_not b else b)\<rparr>)"

definition pmos_recv_vec8 :: "bool \<Rightarrow> bool \<Rightarrow> nat \<Rightarrow> vvp_vector8_t \<Rightarrow> vvp_fun_pmos \<Rightarrow> vvp_fun_pmos reply" where
  "pmos_recv_vec8 inv_en resistive p b s =
    (if p = 1 then Option.bind (reduce4 b) (\<lambda>v. pmos_enable inv_en resistive v s)
     else if p \<noteq> 0 then Some (s, [])
     else pmos_generate_output resistive (s\<lparr>pm_bit := b\<rparr>))"

definition pmos_recv_vec4 :: "bool \<Rightarrow> bool \<Rightarrow> nat \<Rightarrow> vvp_vector4_t \<Rightarrow> vvp_fun_pmos \<Rightarrow> vvp_fun_pmos reply" where
  "pmos_recv_vec4 inv_en resistive p b s =
    (if p = 0 then Option.bind (v8_of_vector4 b 6 6) (\<lambda>tmp. pmos_recv_vec8 inv_en resistive p tmp s)
     else if p \<noteq> 1 then Some (s, [])
     else pmos_enable inv_en resistive b s)"

record vvp_fun_cmos =
  cm_bit :: vvp_vector8_t
  cm_n_en :: vvp_vector4_t
  cm_p_en :: vvp_vector4_t

definition fun_cmos :: vvp_fun_cmos where
  "fun_cmos = \<lparr>cm_bit = v8_make 0, cm_n_en = v4_fill 0 BIT4_X, cm_p_en = v4_fill 0 BIT4_X\<rparr>"

definition cmos_generate_output :: "bool \<Rightarrow> vvp_fun_cmos \<Rightarrow> vvp_fun_cmos reply" where
  "cmos_generate_output resistive s = map_option (\<lambda>acts. (s, acts))
     (switch_output (\<lambda>idx. cmos_bit resistive (v4_value (cm_n_en s) idx) (v4_value (cm_p_en s) idx)) (cm_bit s))"

definition cmos_enable :: "bool \<Rightarrow> nat \<Rightarrow> vvp_vector4_t \<Rightarrow> vvp_fun_cmos \<Rightarrow> vvp_fun_cmos reply" where
  "cmos_enable resistive p b s =
    (if p \<noteq> 1 \<and> p \<noteq> 2 then Some (s, [])
     else cmos_generate_output resistive (if p = 1 then s\<lparr>cm_n_en := b\<rparr> else s\<lparr>cm_p_en := b\<rparr>))"

text \<open>The two classes differ here: the resistive one hands on a control with strengths only from port 1.\<close>

definition cmos_recv_vec8 :: "bool \<Rightarrow> nat \<Rightarrow> vvp_vector8_t \<Rightarrow> vvp_fun_cmos \<Rightarrow> vvp_fun_cmos reply" where
  "cmos_recv_vec8 resistive p b s =
    (if p = 1 \<or> p = 2 \<and> \<not> resistive then Option.bind (reduce4 b) (\<lambda>v. cmos_enable resistive p v s)
     else if p \<noteq> 0 then Some (s, [])
     else cmos_generate_output resistive (s\<lparr>cm_bit := b\<rparr>))"

definition cmos_recv_vec4 :: "bool \<Rightarrow> nat \<Rightarrow> vvp_vector4_t \<Rightarrow> vvp_fun_cmos \<Rightarrow> vvp_fun_cmos reply" where
  "cmos_recv_vec4 resistive p b s =
    (if p = 0 then Option.bind (v8_of_vector4 b 6 6) (\<lambda>tmp. cmos_recv_vec8 resistive p tmp s) else cmos_enable resistive p b s)"

fun switch_recv :: "(nat \<Rightarrow> vvp_vector4_t \<Rightarrow> 's \<Rightarrow> 's reply) \<Rightarrow> (nat \<Rightarrow> vvp_vector8_t \<Rightarrow> 's \<Rightarrow> 's reply) \<Rightarrow> message \<Rightarrow> 's \<Rightarrow> 's reply" where
  "switch_recv r4 r8 (VEC4 p b) s = r4 p b s"
| "switch_recv r4 r8 (VEC8 p b) s = r8 p b s"
| "switch_recv r4 r8 (VEC4_PV p b base vwid) s = base_recv_vec4_pv r4 p b base vwid s"
| "switch_recv r4 r8 (VEC8_PV p b base vwid) s = base_recv_vec8_pv_widen r8 p b base vwid s"

section \<open>Flip-flops\<close>

datatype dff_async = DFF | DFF_ACLR | DFF_ASET | DFF_ASC vvp_vector4_t

record vvp_dff =
  df_clk_active :: vvp_bit4_t
  df_clk :: vvp_bit4_t
  df_ena :: vvp_bit4_t
  df_asc :: vvp_bit4_t
  df_d :: vvp_vector4_t

definition dff_make :: "nat \<Rightarrow> bool \<Rightarrow> vvp_dff" where
  "dff_make n negedge = \<lparr>df_clk_active = (if negedge then BIT4_0 else BIT4_1), df_clk = BIT4_X, df_ena = BIT4_X, df_asc = BIT4_Z,
     df_d = v4_fill n BIT4_X\<rparr>"

definition recv_async :: "dff_async \<Rightarrow> vvp_dff \<Rightarrow> vvp_vector4_t option" where
  "recv_async k s = (case k of DFF \<Rightarrow> None | DFF_ACLR \<Rightarrow> Some (v4_fill (v4_size (df_d s)) BIT4_0)
     | DFF_ASET \<Rightarrow> Some (v4_fill (v4_size (df_d s)) BIT4_1) | DFF_ASC asc_value \<Rightarrow> Some asc_value)"

definition dff_recv_vec4 :: "dff_async \<Rightarrow> nat \<Rightarrow> vvp_vector4_t \<Rightarrow> vvp_dff \<Rightarrow> vvp_dff reply" where
  "dff_recv_vec4 k p b s =
    (if p = 0 then Some (s\<lparr>df_d := b\<rparr>, [])
     else if p > 3 then Some (s, [])
     else if v4_size b \<noteq> 1 then None
     else if p = 1 then
       if df_asc s \<noteq> BIT4_0 then Some (s, [])
       else if df_ena s \<noteq> BIT4_1 then Some (s, [])
       else let tmp = df_clk s; s = s\<lparr>df_clk := v4_value b 0\<rparr> in
         Some (s, if df_clk s = df_clk_active s \<and> tmp \<noteq> df_clk_active s then [SCHEDULE_PROPAGATE 0 (df_d s)] else [])
     else if p = 2 then Some (s\<lparr>df_ena := v4_value b 0\<rparr>, [])
     else
       let tmp = df_asc s; s = s\<lparr>df_asc := v4_value b 0\<rparr> in
       if df_asc s = BIT4_1 \<and> tmp \<noteq> BIT4_1 then map_option (\<lambda>v. (s, [SCHEDULE_PROPAGATE 0 v])) (recv_async k s)
       else if tmp = BIT4_Z then Some (s, [SEND_VEC4 (v4_fill (v4_size (df_d s)) BIT4_X)])
       else Some (s, []))"

definition dff_recv :: "dff_async \<Rightarrow> message \<Rightarrow> vvp_dff \<Rightarrow> vvp_dff reply" where
  "dff_recv k = net_fun_recv (dff_recv_vec4 k) (base_recv_vec4_pv (dff_recv_vec4 k))"

section \<open>Reductions fold the vector\<close>

lemma reduce_results:
  assumes "v4_inv v" and "0 < v4_size v"
  shows "reduce_and v = foldr bit4_and (v4_list v) BIT4_1" and "reduce_nand v = bit4_not (foldr bit4_and (v4_list v) BIT4_1)"
    and "reduce_or v = foldr bit4_or (v4_list v) BIT4_0" and "reduce_nor v = bit4_not (foldr bit4_or (v4_list v) BIT4_0)"
    and "reduce_xor v = foldr bit4_xor (v4_list v) BIT4_0" and "reduce_xnor v = bit4_not (foldr bit4_xor (v4_list v) BIT4_0)"
  using v4_reduce_or_list [OF assms] v4_reduce_and_list [OF assms] v4_reduce_xor_list [OF assms]
  by (simp_all add: reduce_and_def reduce_nand_def reduce_or_def reduce_nor_def reduce_xor_def reduce_xnor_def)

text \<open>
  A reduction that is given its vector in parts sends, after each part, the reduction of the vector put
  together so far, with x where no part has arrived.
\<close>

lemma reduce_part:
  assumes "v4_inv s" and "v4_size s = 0 \<or> v4_size s = vwid" and "v4_inv b" and "base + v4_size b \<le> vwid" and "base < vwid"
  obtains s' where "reduce_recv_vec4_pv f p b base vwid s = Some (s', [SEND_VEC4 (v4_fill 1 (f s'))])" and "v4_inv s'"
    and "v4_list s' = (let l = (if v4_size s = 0 then replicate vwid BIT4_X else v4_list s) in
      take base l @ v4_list b @ drop (base + v4_size b) l)"
proof -
  let ?s = "if v4_size s = 0 then v4_fill vwid BIT4_X else s"
  have s: "v4_inv ?s" "v4_size ?s = vwid" "v4_list ?s = (if v4_size s = 0 then replicate vwid BIT4_X else v4_list s)"
    using assms(1,2) by (auto simp: v4_fill_list v4_fill_inv)
  have fit: "base + v4_size b \<le> v4_size ?s" "base < v4_size ?s" using assms(4,5) s(2) by simp_all
  obtain d r where "v4_set_vec ?s base b = Some (d, r)" "v4_inv r" "v4_size r = v4_size ?s"
    "v4_list r = take base (v4_list ?s) @ v4_list b @ drop (base + v4_size b) (v4_list ?s)"
    by (rule v4_set_vec_spec [OF s(1) assms(3) fit])
  with that [of r] s(2,3) show thesis by (simp add: reduce_recv_vec4_pv_def Let_def)
qed

section \<open>Outputs bit by bit\<close>

lemma v8_build:
  assumes "\<And>i. i < n \<Longrightarrow> f i = Some (g i)"
  obtains r where "for_each (\<lambda>i out. Option.bind (f i) (v8_set_bit out i)) [0..<n] (v8_make n) = Some r" and "v8_inv r"
    and "v8_size r = n" and "v8_list r = map g [0..<n]"
proof -
  obtain r where r: "for_each (\<lambda>i u. v8_set_bit u i (g i)) [0..<n] (v8_make n) = Some r" "v8_inv r" "v8_size r = n"
    "\<And>i. i < n \<Longrightarrow> v8_at r i = g i"
    using v8.build [OF v8_make_inv(1), of n n g] by auto
  have "for_each (\<lambda>i out. Option.bind (f i) (v8_set_bit out i)) [0..<n] (v8_make n)
      = for_each (\<lambda>i u. v8_set_bit u i (g i)) [0..<n] (v8_make n)"
    by (rule for_each_cong) (simp add: assms)
  moreover have "v8_list r = map g [0..<n]" using r by (intro v8_listI) auto
  ultimately show thesis using that r by simp
qed

section \<open>Three-state buffers drive what they may\<close>

text \<open>The drives a buffer may give, for all the values its data and its enable may stand for.\<close>

definition bufif_drives :: "nat \<Rightarrow> nat \<Rightarrow> vvp_bit4_t \<Rightarrow> vvp_bit4_t \<Rightarrow> int \<Rightarrow> bool" where
  "bufif_drives drive0 drive1 en b z \<longleftrightarrow>
    (\<exists>e v. bit4_admits en e \<and> bit4_admits b v \<and> z = (if e then if v then int drive1 else - int drive0 else 0))"

text \<open>The byte of a bit is the narrowest range with all of them: both of its ends are possible.\<close>

lemma bufif_bit_range:
  assumes "drive0 \<le> 7" and "drive1 \<le> 7"
  obtains s where "bufif_bit drive0 drive1 en b = Some s" and "\<And>z. bufif_drives drive0 drive1 en b z \<Longrightarrow> covers s z"
    and "bufif_drives drive0 drive1 en b (sv0 s)" and "bufif_drives drive0 drive1 en b (sv1 s)"
proof -
  have d: "bufif_drives drive0 drive1 en b z \<longleftrightarrow>
      (en \<noteq> BIT4_1 \<and> z = 0 \<or> en \<noteq> BIT4_0 \<and> (b \<noteq> BIT4_0 \<and> z = int drive1 \<or> b \<noteq> BIT4_1 \<and> z = - int drive0))" for z
    unfolding bufif_drives_def bit4_admits_def
    by (cases en; cases b) (auto intro: exI [of _ True] exI [of _ False])
  let ?v = "case en of BIT4_0 \<Rightarrow> BIT4_Z | BIT4_1 \<Rightarrow> (if bit4_is_xz b then BIT4_X else b) | _ \<Rightarrow> BIT4_X"
  let ?xs = "(en = BIT4_X \<or> en = BIT4_Z)"
  let ?d0 = "if ?xs \<and> b = BIT4_1 then 0 else drive0" and ?d1 = "if ?xs \<and> b = BIT4_0 then 0 else drive1"
  have le: "?d0 \<le> 7" "?d1 \<le> 7" using assms by auto
  obtain s where s: "scalar_of ?v ?d0 ?d1 = Some s"
    "sv0 s = (if ?v = BIT4_1 then int ?d1 else if ?v = BIT4_Z then 0 else - int ?d0)"
    "sv1 s = (if ?v = BIT4_0 then - int ?d0 else if ?v = BIT4_Z then 0 else int ?d1)"
    by (rule scalar_of_reads [OF le])
  have "bufif_bit drive0 drive1 en b = scalar_of ?v ?d0 ?d1" by (cases en; cases b) (simp_all add: bufif_bit_def bit4_simps)
  with s(1) have "bufif_bit drive0 drive1 en b = Some s" by simp
  moreover have "covers s z" if "bufif_drives drive0 drive1 en b z" for z
    using that s(2,3) unfolding d covers_def by (cases en; cases b) (auto simp: bit4_simps)
  moreover have "bufif_drives drive0 drive1 en b (sv0 s)" "bufif_drives drive0 drive1 en b (sv1 s)"
    using s(2,3) unfolding d by (cases en; cases b; simp add: bit4_simps)+
  ultimately show thesis using that by blast
qed

lemma bufif_sends:
  assumes "drive0 \<le> 7" and "drive1 \<le> 7" and "v4_inv b" and "p \<le> 1"
    and s': "s' = (if p = 0 then s\<lparr>bi_bit := (if invert then v4_not b else b)\<rparr> else s\<lparr>bi_en := (if pol then v4_not b else b)\<rparr>)"
  obtains out where "bufif_recv_vec4 pol invert drive0 drive1 p b s = Some (s', [SEND_VEC8 out])" and "v8_inv out"
    and "v8_list out = map (\<lambda>i. the (bufif_bit drive0 drive1 (v4_value (bi_en s') i) (v4_value (bi_bit s') i))) [0..<v4_size b]"
proof -
  have "bufif_bit drive0 drive1 e d = Some (the (bufif_bit drive0 drive1 e d))" for e d
    by (rule bufif_bit_range [OF assms(1,2), of e d]) simp
  then obtain out where out: "for_each (\<lambda>i out. Option.bind (bufif_bit drive0 drive1 (v4_value (bi_en s') i) (v4_value (bi_bit s') i))
      (v8_set_bit out i)) [0..<v4_size b] (v8_make (v4_size b)) = Some out" "v8_inv out"
    "v8_list out = map (\<lambda>i. the (bufif_bit drive0 drive1 (v4_value (bi_en s') i) (v4_value (bi_bit s') i))) [0..<v4_size b]"
    by (rule v8_build [of "v4_size b" "\<lambda>i. bufif_bit drive0 drive1 (v4_value (bi_en s') i) (v4_value (bi_bit s') i)"])
  have "bufif_recv_vec4 pol invert drive0 drive1 p b s = Some (s', [SEND_VEC8 out])"
    unfolding bufif_recv_vec4_def s' [symmetric] Let_def using assms(4) out(1) by simp
  with that out(2,3) show thesis by blast
qed

section \<open>MOS switches\<close>

text \<open>What a switch that is closed makes of a drive: the same value, with the strength of the table.\<close>

definition attenuate :: "bool \<Rightarrow> int \<Rightarrow> int" where
  "attenuate resistive z = sgn z * int (vvp_switch_strength_map ! (if resistive then 1 else 0) ! nat \<bar>z\<bar>)"

lemma strength_map:
  "k < 8 \<Longrightarrow> vvp_switch_strength_map ! (if r then 1 else 0) ! k \<le> 7"
  "k < 8 \<Longrightarrow> vvp_switch_strength_map ! (if r then 1 else 0) ! k = 0 \<longleftrightarrow> k = 0"
  "j \<le> k \<Longrightarrow> k < 8 \<Longrightarrow> vvp_switch_strength_map ! (if r then 1 else 0) ! j \<le> vvp_switch_strength_map ! (if r then 1 else 0) ! k"
proof -
  let ?m = "vvp_switch_strength_map ! (if r then 1 else 0)"
  have m: "length ?m = 8" "sorted ?m" "list_all (\<lambda>x. x \<le> 7) ?m" "list_all (\<lambda>x. x \<noteq> 0) (tl ?m)" "?m ! 0 = 0"
    by (simp_all add: vvp_switch_strength_map_def)
  show "k < 8 \<Longrightarrow> ?m ! k \<le> 7" using m(1,3) by (simp add: list_all_length)
  show "k < 8 \<Longrightarrow> ?m ! k = 0 \<longleftrightarrow> k = 0" using m(1,4,5) by (cases k) (auto simp: list_all_length nth_tl)
  show "j \<le> k \<Longrightarrow> k < 8 \<Longrightarrow> ?m ! j \<le> ?m ! k" using m(1,2) by (simp add: sorted_nth_mono)
qed

lemma attenuate_nat:
  "attenuate r (int k) = int (if k = 0 then 0 else vvp_switch_strength_map ! (if r then 1 else 0) ! k)"
  "attenuate r (- int k) = - int (if k = 0 then 0 else vvp_switch_strength_map ! (if r then 1 else 0) ! k)"
  by (auto simp: attenuate_def)

lemma attenuate_mono:
  assumes "x \<le> y" and "- 8 < x" and "y < 8"
  shows "attenuate r x \<le> attenuate r y"
proof -
  have n: "z = (if 0 \<le> z then int (nat \<bar>z\<bar>) else - int (nat \<bar>z\<bar>))" for z by simp
  show ?thesis
    using assms strength_map(3) [of "nat \<bar>x\<bar>" "nat \<bar>y\<bar>" r] strength_map(3) [of "nat \<bar>y\<bar>" "nat \<bar>x\<bar>" r]
      n [of x] n [of y] attenuate_nat [of r "nat \<bar>x\<bar>"] attenuate_nat [of r "nat \<bar>y\<bar>"]
    by (cases "0 \<le> x"; cases "0 \<le> y"; simp split: if_splits)
qed

text \<open>
  A drive the switches keep: one that is known, or that may be either value.  (They rebuild a scalar from
  its value and its two strengths, and a known value has one strength only.)  Of a known value with a range of strengths
  they keep the strongest drive; \<open>passes\<close> are the drives of a scalar that come through.
\<close>

definition strongest :: "vvp_scalar_t \<Rightarrow> int" where
  "strongest b = (if scalar_value b = BIT4_1 then sv1 b else sv0 b)"

definition passes :: "vvp_scalar_t \<Rightarrow> int \<Rightarrow> bool" where
  "passes b z \<longleftrightarrow> covers b z \<and> (UNAMBIG b \<or> scalar_value b = BIT4_X \<or> z = strongest b)"

definition switch_ok :: "vvp_scalar_t \<Rightarrow> bool" where
  "switch_ok b \<longleftrightarrow> sv0 b \<le> sv1 b \<and> (UNAMBIG b \<or> scalar_value b = BIT4_X)"

lemma switch_ends:
  assumes "switch_ok b"
  shows "scalar_value b = BIT4_0 \<and> sv0 b = - int (strength0 b) \<and> sv1 b = - int (strength0 b)
    \<or> scalar_value b = BIT4_1 \<and> sv0 b = int (strength1 b) \<and> sv1 b = int (strength1 b)
    \<or> scalar_value b = BIT4_X \<and> sv0 b = - int (strength0 b) \<and> sv1 b = int (strength1 b)
    \<or> scalar_value b = BIT4_Z \<and> sv0 b = 0 \<and> sv1 b = 0"
  using assms unfolding switch_ok_def UNAMBIG_parts value_parts sv_parts strength0_def strength1_def
  by (auto split: if_splits)

lemma scalar_of_ends:
  assumes "str0 \<le> 7" and "str1 \<le> 7"
  obtains s where "scalar_of val str0 str1 = Some s" and "switch_ok s"
    and "sv0 s = (if val = BIT4_1 then int str1 else if val = BIT4_Z then 0 else - int str0)"
    and "sv1 s = (if val = BIT4_0 then - int str0 else if val = BIT4_Z then 0 else int str1)"
proof -
  obtain s where s: "scalar_of val str0 str1 = Some s"
    "sv0 s = (if val = BIT4_1 then int str1 else if val = BIT4_Z then 0 else - int str0)"
    "sv1 s = (if val = BIT4_0 then - int str0 else if val = BIT4_Z then 0 else int str1)"
    by (rule scalar_of_reads [OF assms])
  have "switch_ok s"
    using s scalar_of_pack [OF assms, of val] assms
    by (cases val) (auto simp: switch_ok_def UNAMBIG_parts value_parts split: if_splits)
  with that s show thesis by blast
qed

lemma switch_data_ends:
  assumes "switch_ok b"
  obtains s where "switch_data r b = Some s" and "switch_ok s" and "sv0 s = attenuate r (sv0 b)" and "sv1 s = attenuate r (sv1 b)"
proof -
  let ?m = "vvp_switch_strength_map ! (if r then 1 else 0)"
  have lt: "strength0 b < 8" "strength1 b < 8" using STREN_lt by (simp_all add: strength0_def strength1_def)
  note le = strength_map(1) [OF lt(1), of r] strength_map(1) [OF lt(2), of r]
  obtain s where s: "scalar_of (scalar_value b) (?m ! strength0 b) (?m ! strength1 b) = Some s" "switch_ok s"
    "sv0 s = (if scalar_value b = BIT4_1 then int (?m ! strength1 b) else if scalar_value b = BIT4_Z then 0 else - int (?m ! strength0 b))"
    "sv1 s = (if scalar_value b = BIT4_0 then - int (?m ! strength0 b) else if scalar_value b = BIT4_Z then 0 else int (?m ! strength1 b))"
    by (rule scalar_of_ends [OF le])
  have "attenuate r (int k) = int (?m ! k)" "attenuate r (- int k) = - int (?m ! k)" "attenuate r 0 = 0" if "k < 8" for k
    using strength_map(2) [OF that, of r] attenuate_nat [of r k] attenuate_nat [of r 0] by (auto split: if_splits)
  note a = this(1,2) [OF lt(1)] this(1,2) [OF lt(2)] this(3) [OF lt(1)]
  have "sv0 s = attenuate r (sv0 b)" "sv1 s = attenuate r (sv1 b)"
    using switch_ends [OF assms] by (elim disjE; simp add: s(3,4) a)+
  moreover have "switch_data r b = Some s" using s(1) by (simp add: switch_data_def Let_def)
  ultimately show thesis using that s(2) by blast
qed

lemma switch_unknown_ends:
  assumes "switch_ok b"
  obtains s where "switch_unknown b = Some s" and "sv0 s = min 0 (sv0 b)" and "sv1 s = max 0 (sv1 b)"
proof -
  have lt: "strength0 b \<le> 7" "strength1 b \<le> 7"
    using STREN_lt(2) [of b] STREN_lt(1) [of b] by (simp_all add: strength0_def strength1_def)
  obtain s0 where s0: "scalar_of BIT4_X (strength0 b) 0 = Some s0" "sv0 s0 = - int (strength0 b)" "sv1 s0 = 0"
    by (rule scalar_of_ends [OF lt(1), of 0 BIT4_X]) simp_all
  obtain s1 where s1: "scalar_of BIT4_X 0 (strength1 b) = Some s1" "sv0 s1 = 0" "sv1 s1 = int (strength1 b)"
    by (rule scalar_of_ends [OF _ lt(2), of 0 BIT4_X]) simp_all
  have "\<exists>s. switch_unknown b = Some s \<and> sv0 s = min 0 (sv0 b) \<and> sv1 s = max 0 (sv1 b)"
    using switch_ends [OF assms] by (elim disjE) (simp_all add: switch_unknown_def s0 s1)
  with that show thesis by blast
qed

text \<open>
  The byte a switch sends covers what it would send for each drive its input may have and each state,
  closed or open, its controls may put it in.
\<close>

lemma switch_canonical:
  assumes "sv0 b \<le> sv1 b"
  obtains b' where "switch_ok b'" and "switch_data r b' = switch_data r b" and "\<And>z. passes b z \<Longrightarrow> covers b' z"
proof (cases "switch_ok b")
  case True
  with that show thesis by (simp add: passes_def)
next
  case False
  let ?m = "vvp_switch_strength_map ! (if r then 1 else 0)"
  have lt: "STREN0 b < 8" "STREN1 b < 8" by (rule STREN_lt)+
  note le = strength_map(1) [OF lt(1), of r] strength_map(1) [OF lt(2), of r]
  note nz = strength_map(2) [OF lt(1), of r] strength_map(2) [OF lt(2), of r]
  have p: "z = strongest b" if "passes b z" for z using False that assms by (auto simp: passes_def switch_ok_def)
  from False assms consider (0) "scalar_value b = BIT4_0" | (1) "scalar_value b = BIT4_1" | (z) "scalar_value b = BIT4_Z"
    by (cases "scalar_value b") (auto simp: switch_ok_def)
  then show thesis
  proof cases
    case 0
    let ?b = "pack False (STREN0 b) False (STREN0 b)"
    have "\<not> bit b 7" "\<not> bit b 3" "STREN1 b \<le> STREN0 b" "STREN0 b \<noteq> 0"
      using 0 assms by (auto simp: value_parts sv_parts split: if_splits)
    then show thesis
      using 0 lt le nz p
      by (intro that [of ?b]) (auto simp: switch_ok_def UNAMBIG_parts value_parts sv_parts switch_data_def Let_def strength0_def
          strength1_def scalar_of_def covers_def strongest_def)
  next
    case 1
    let ?b = "pack True (STREN1 b) True (STREN1 b)"
    have "bit b 7" "bit b 3" "STREN0 b \<le> STREN1 b" "STREN1 b \<noteq> 0"
      using 1 assms by (auto simp: value_parts sv_parts split: if_splits)
    then show thesis
      using 1 lt le nz p
      by (intro that [of ?b]) (auto simp: switch_ok_def UNAMBIG_parts value_parts sv_parts switch_data_def Let_def strength0_def
          strength1_def scalar_of_def covers_def strongest_def)
  next
    case z
    have s: "STREN0 b = 0" "STREN1 b = 0" using z by (auto simp: value_parts split: if_splits)
    then have "x = 0" if "passes b x" for x using p [OF that] z by (simp add: strongest_def sv_parts)
    with s show thesis
      using z lt
      by (intro that [of "pack False 0 False 0"]) (auto simp: switch_ok_def UNAMBIG_parts value_parts sv_parts switch_data_def Let_def strength0_def
          strength1_def scalar_of_def covers_def strongest_def)
  qed
qed

lemma switch_covers:
  assumes "sv0 b \<le> sv1 b" and "passes b z"
  obtains s t h where "switch_data r b = Some s" and "covers s (attenuate r z)"
    and "switch_unknown s = Some t" and "covers t (attenuate r z)" and "covers t 0"
    and "scalar_of BIT4_Z 0 0 = Some h" and "covers h 0"
proof -
  obtain b' where b': "switch_ok b'" "switch_data r b' = switch_data r b" "covers b' z"
    by (rule switch_canonical [OF assms(1), of r]) (use assms(2) in blast)
  obtain s where s: "switch_data r b = Some s" "switch_ok s" "sv0 s = attenuate r (sv0 b')" "sv1 s = attenuate r (sv1 b')"
    by (rule switch_data_ends [OF b'(1), of r]) (simp add: b'(2))
  obtain t where t: "switch_unknown s = Some t" "sv0 t = min 0 (sv0 s)" "sv1 t = max 0 (sv1 s)"
    by (rule switch_unknown_ends [OF s(2)])
  obtain h where h: "scalar_of BIT4_Z 0 0 = Some h" "sv0 h = 0" "sv1 h = 0" by (rule scalar_of_ends [of 0 0 BIT4_Z]) simp_all
  have z: "sv0 b' \<le> z" "z \<le> sv1 b'" using b'(3) by (simp_all add: covers_def)
  have "covers s (attenuate r z)"
    using attenuate_mono [OF z(1), of r] attenuate_mono [OF z(2), of r] z sv_bounds [of b'] by (simp add: covers_def s)
  with that s t h show thesis by (simp add: covers_def min.coboundedI2 max.coboundedI2)
qed

lemma pmos_bit_covers:
  assumes "sv0 b \<le> sv1 b" and "passes b z" and "bit4_admits en g"
  obtains s where "pmos_bit r en b = Some s" and "covers s (if g then 0 else attenuate r z)"
proof (rule switch_covers [OF assms(1,2), of r])
  fix s t h
  assume "switch_data r b = Some s" "covers s (attenuate r z)" "switch_unknown s = Some t" "covers t (attenuate r z)" "covers t 0"
    "scalar_of BIT4_Z 0 0 = Some h" "covers h 0"
  then show thesis
    using that assms(3) by (cases en) (simp_all add: pmos_bit_def bit4_admits_def)
qed

lemma cmos_bit_covers:
  assumes "sv0 b \<le> sv1 b" and "passes b z" and "bit4_admits n gn" and "bit4_admits p gp"
  obtains s where "cmos_bit r n p b = Some s" and "covers s (if gn \<or> \<not> gp then attenuate r z else 0)"
proof (rule switch_covers [OF assms(1,2), of r])
  fix s t h
  assume "switch_data r b = Some s" "covers s (attenuate r z)" "switch_unknown s = Some t" "covers t (attenuate r z)" "covers t 0"
    "scalar_of BIT4_Z 0 0 = Some h" "covers h 0"
  then show thesis
    using that assms(3,4) by (cases n; cases p) (auto simp: cmos_bit_def bit4_admits_def)
qed

lemma admits_self: "bit4_admits b (b = BIT4_1)"
  by (simp add: bit4_admits_def)

text \<open>The whole vector: every drive that the data, let through or not, may give at a bit is covered by the bit that is sent.\<close>

lemma switch_sends:
  assumes "v8_inv b" and "0 < v8_size b" and f: "\<And>i. i < v8_size b \<Longrightarrow> \<exists>x. f i (v8_at b i) = Some x"
  obtains out where "switch_output f b = Some [SEND_VEC8 out]" and "v8_inv out" and "v8_size out = v8_size b"
    and "\<forall>i < v8_size b. f i (v8_at b i) = Some (v8_at out i)"
proof -
  have "Option.bind (v8_value b i) (f i) = Some (the (f i (v8_at b i)))" if "i < v8_size b" for i
    using f [OF that] that by auto
  then obtain out where out: "for_each (\<lambda>i out. Option.bind (Option.bind (v8_value b i) (f i)) (v8_set_bit out i)) [0..<v8_size b] (v8_make (v8_size b)) = Some out"
    "v8_inv out" "v8_size out = v8_size b" "v8_list out = map (\<lambda>i. the (f i (v8_at b i))) [0..<v8_size b]"
    by (rule v8_build [of "v8_size b" "\<lambda>i. Option.bind (v8_value b i) (f i)"])
  have "switch_output f b = Some [SEND_VEC8 out]" using out(1,3) assms(2) by (simp add: switch_output_def)
  moreover have "f i (v8_at b i) = Some (v8_at out i)" if "i < v8_size b" for i
  proof -
    have "v8_at out i = v8_list out ! i" using that out(3) by (simp add: v8_list_def)
    then show ?thesis using f [OF that] that by (auto simp: out(4))
  qed
  ultimately show thesis using that out(2,3) by blast
qed

lemma pmos_sends:
  assumes b: "v8_inv (pm_bit s)" "0 < v8_size (pm_bit s)" and ok: "\<And>i. i < v8_size (pm_bit s) \<Longrightarrow> sv0 (v8_at (pm_bit s) i) \<le> sv1 (v8_at (pm_bit s) i)"
  obtains out where "pmos_generate_output r s = Some (s, [SEND_VEC8 out])" and "v8_size out = v8_size (pm_bit s)"
    and "\<And>i z g. i < v8_size (pm_bit s) \<Longrightarrow> passes (v8_at (pm_bit s) i) z \<Longrightarrow> bit4_admits (v4_value (pm_en s) i) g \<Longrightarrow>
      covers (v8_at out i) (if g then 0 else attenuate r z)"
proof -
  have some: "\<exists>x. pmos_bit r (v4_value (pm_en s) i) (v8_at (pm_bit s) i) = Some x" if "i < v8_size (pm_bit s)" for i
  proof -
    have "passes (v8_at (pm_bit s) i) (strongest (v8_at (pm_bit s) i))" using ok [OF that] by (simp add: covers_def passes_def strongest_def)
    then show ?thesis by (rule pmos_bit_covers [OF ok [OF that] _ admits_self]) (rule exI)
  qed
  obtain out where out: "switch_output (\<lambda>i. pmos_bit r (v4_value (pm_en s) i)) (pm_bit s) = Some [SEND_VEC8 out]" "v8_inv out" "v8_size out = v8_size (pm_bit s)"
    "\<forall>i < v8_size (pm_bit s). pmos_bit r (v4_value (pm_en s) i) (v8_at (pm_bit s) i) = Some (v8_at out i)"
    by (rule switch_sends [where f = "\<lambda>i. pmos_bit r (v4_value (pm_en s) i)", OF b some]) blast
  moreover have "covers (v8_at out i) (if g then 0 else attenuate r z)"
    if i: "i < v8_size (pm_bit s)" "passes (v8_at (pm_bit s) i) z" "bit4_admits (v4_value (pm_en s) i) g" for i z g
    by (rule pmos_bit_covers [OF ok [OF i(1)] i(2,3), of r]) (use out(4) i(1) in simp)
  ultimately show thesis using that by (simp add: pmos_generate_output_def)
qed

lemma cmos_sends:
  assumes b: "v8_inv (cm_bit s)" "0 < v8_size (cm_bit s)" and ok: "\<And>i. i < v8_size (cm_bit s) \<Longrightarrow> sv0 (v8_at (cm_bit s) i) \<le> sv1 (v8_at (cm_bit s) i)"
  obtains out where "cmos_generate_output r s = Some (s, [SEND_VEC8 out])" and "v8_size out = v8_size (cm_bit s)"
    and "\<And>i z gn gp. i < v8_size (cm_bit s) \<Longrightarrow> passes (v8_at (cm_bit s) i) z \<Longrightarrow> bit4_admits (v4_value (cm_n_en s) i) gn \<Longrightarrow>
      bit4_admits (v4_value (cm_p_en s) i) gp \<Longrightarrow> covers (v8_at out i) (if gn \<or> \<not> gp then attenuate r z else 0)"
proof -
  have some: "\<exists>x. cmos_bit r (v4_value (cm_n_en s) i) (v4_value (cm_p_en s) i) (v8_at (cm_bit s) i) = Some x" if "i < v8_size (cm_bit s)" for i
  proof -
    have "passes (v8_at (cm_bit s) i) (strongest (v8_at (cm_bit s) i))" using ok [OF that] by (simp add: covers_def passes_def strongest_def)
    then show ?thesis by (rule cmos_bit_covers [OF ok [OF that] _ admits_self admits_self]) (rule exI)
  qed
  obtain out where out: "switch_output (\<lambda>i. cmos_bit r (v4_value (cm_n_en s) i) (v4_value (cm_p_en s) i)) (cm_bit s) = Some [SEND_VEC8 out]"
    "v8_inv out" "v8_size out = v8_size (cm_bit s)"
    "\<forall>i < v8_size (cm_bit s). cmos_bit r (v4_value (cm_n_en s) i) (v4_value (cm_p_en s) i) (v8_at (cm_bit s) i) = Some (v8_at out i)"
    by (rule switch_sends [where f = "\<lambda>i. cmos_bit r (v4_value (cm_n_en s) i) (v4_value (cm_p_en s) i)", OF b some]) blast
  moreover have "covers (v8_at out i) (if gn \<or> \<not> gp then attenuate r z else 0)"
    if i: "i < v8_size (cm_bit s)" "passes (v8_at (cm_bit s) i) z" "bit4_admits (v4_value (cm_n_en s) i) gn" "bit4_admits (v4_value (cm_p_en s) i) gp" for i z gn gp
    by (rule cmos_bit_covers [OF ok [OF i(1)] i(2-4), of r]) (use out(4) i(1) in simp)
  ultimately show thesis using that by (simp add: cmos_generate_output_def)
qed

text \<open>
  A range of strengths of one value is not kept: of two drives between weak 1 and pull 1, a closed switch
  passes the stronger only.
\<close>

lemma switch_range_lost:
  "switch_data False (pack True 5 True 3) = Some (pack True 5 True 5) \<and> covers (pack True 5 True 3) 3 \<and> \<not> covers (pack True 5 True 5) 3"
  by (simp add: switch_data_def vvp_switch_strength_map_def value_parts strength0_def strength1_def scalar_of_pack covers_def sv_parts)

text \<open>The resistive CMOS switch ignores a control with strengths at its p port; the other class takes it.\<close>

lemma cmos_p_control:
  assumes "v8_inv b"
  obtains v where "cmos_recv_vec8 True 2 b s = Some (s, [])" and "reduce4 b = Some v"
    and "cmos_recv_vec8 False 2 b s = cmos_generate_output False (s\<lparr>cm_p_en := v\<rparr>)"
proof -
  obtain v where "reduce4 b = Some v" by (rule reduce4_size [OF assms])
  with that show thesis by (simp add: cmos_recv_vec8_def cmos_enable_def)
qed

section \<open>Flip-flops\<close>

text \<open>A run of a flip-flop: the messages at its ports, and what it scheduled.\<close>

fun dff_run :: "dff_async \<Rightarrow> (nat \<times> vvp_vector4_t) list \<Rightarrow> vvp_dff \<Rightarrow> vvp_dff reply" where
  "dff_run k [] s = Some (s, [])"
| "dff_run k ((p, b) # ms) s = Option.bind (dff_recv_vec4 k p b s) (\<lambda>(s, acts). map_option (map_prod id ((@) acts)) (dff_run k ms s))"

text \<open>What it should schedule while it is enabled: the data at each change of the clock to its active level.\<close>

fun captures :: "vvp_bit4_t \<Rightarrow> vvp_bit4_t \<Rightarrow> vvp_vector4_t \<Rightarrow> (nat \<times> vvp_vector4_t) list \<Rightarrow> vvp_vector4_t list" where
  "captures active clk d [] = []"
| "captures active clk d ((p, b) # ms) =
    (if p = 0 then captures active clk b ms
     else (if v4_value b 0 = active \<and> clk \<noteq> active then [d] else []) @ captures active (v4_value b 0) d ms)"

lemma dff_captures:
  assumes "df_ena s = BIT4_1" and "df_asc s = BIT4_0" and "\<And>p b. (p, b) \<in> set ms \<Longrightarrow> p = 0 \<or> p = 1 \<and> v4_size b = 1"
  shows "\<exists>s'. dff_run k ms s = Some (s', map (SCHEDULE_PROPAGATE 0) (captures (df_clk_active s) (df_clk s) (df_d s) ms))"
  using assms
proof (induction ms arbitrary: s)
  case (Cons m ms)
  obtain p b where m: "m = (p, b)" by force
  let ?s = "if p = 0 then s\<lparr>df_d := b\<rparr> else s\<lparr>df_clk := v4_value b 0\<rparr>"
  have "\<exists>s'. dff_run k ms ?s = Some (s', map (SCHEDULE_PROPAGATE 0) (captures (df_clk_active ?s) (df_clk ?s) (df_d ?s) ms))"
    using Cons.prems by (intro Cons.IH) auto
  moreover have "p = 0 \<or> p = 1 \<and> v4_size b = 1" using Cons.prems(3) m by simp
  ultimately show ?case using Cons.prems(1,2) m by (auto simp: dff_recv_vec4_def Let_def)
qed simp

text \<open>The asynchronous input goes first: on its rise the value of the class is scheduled, and no clock edge is taken while it is 1.\<close>

lemma dff_async_first:
  assumes "v4_size b = 1"
  shows "v4_value b 0 = BIT4_1 \<Longrightarrow> df_asc s \<noteq> BIT4_1 \<Longrightarrow> k \<noteq> DFF \<Longrightarrow>
      dff_recv_vec4 k 3 b s = Some (s\<lparr>df_asc := BIT4_1\<rparr>, [SCHEDULE_PROPAGATE 0 (the (recv_async k s))])"
    and "df_asc s = BIT4_1 \<Longrightarrow> dff_recv_vec4 k 1 b s = Some (s, [])"
  using assms by (cases k; simp add: dff_recv_vec4_def recv_async_def Let_def)+

text \<open>A new flip-flop sends x, once, as soon as port 3 has its first value other than 1.\<close>

lemma dff_initial:
  assumes "v4_size b = 1" and "v4_value b 0 \<noteq> BIT4_1"
  shows "dff_recv_vec4 k 3 b (dff_make n negedge) =
    Some ((dff_make n negedge)\<lparr>df_asc := v4_value b 0\<rparr>, [SEND_VEC4 (v4_fill n BIT4_X)])"
  using assms by (simp add: dff_recv_vec4_def dff_make_def v4_fill_def)

text \<open>
  The clock is not followed while the flip-flop is disabled.  Enabled at a high clock, disabled while the
  clock falls and enabled again, it misses the next rise: the same run with the enable left alone
  captures the data a second time.
\<close>

lemma dff_misses_edge:
  fixes s :: vvp_dff and d0 d1
  assumes "df_clk_active s = BIT4_1" and "df_clk s = BIT4_1" and "df_ena s = BIT4_1" and "df_asc s = BIT4_0"
  defines "lo \<equiv> v4_fill 1 BIT4_0" and "hi \<equiv> v4_fill 1 BIT4_1"
  shows "dff_run k [(2, lo), (1, lo), (2, hi), (0, d1), (1, hi)] s = Some (s\<lparr>df_d := d1\<rparr>, [])"
    and "dff_run k [(1, lo), (0, d1), (1, hi)] s = Some (s\<lparr>df_d := d1\<rparr>, [SCHEDULE_PROPAGATE 0 d1])"
proof -
  have v: "v4_size lo = 1" "v4_size hi = 1" "v4_value lo 0 = BIT4_0" "v4_value hi 0 = BIT4_1"
    by (simp_all add: lo_def hi_def v4_fill_value)
  have e: "s\<lparr>df_ena := BIT4_1\<rparr> = s" "s\<lparr>df_clk := BIT4_1\<rparr> = s" using assms(2,3) by simp_all
  show "dff_run k [(2, lo), (1, lo), (2, hi), (0, d1), (1, hi)] s = Some (s\<lparr>df_d := d1\<rparr>, [])"
    using assms(1-4) v e by (simp add: dff_recv_vec4_def Let_def)
  show "dff_run k [(1, lo), (0, d1), (1, hi)] s = Some (s\<lparr>df_d := d1\<rparr>, [SCHEDULE_PROPAGATE 0 d1])"
    using assms(1-4) v e by (simp add: dff_recv_vec4_def Let_def)
qed

end
