(* ===== verification/Thread.thy ===== *)
theory Thread
  imports Vector4_Value Vector4_Concat
begin

text \<open>
  Behavioural threads (\<^verbatim>\<open>src/vvp/vthread.cc\<close>, \<^verbatim>\<open>vthread_tail.cc\<close>): the state of a thread, its vector stack, and the
  opcodes that work on vectors, flags, index registers and the program counter.  An opcode is a function of the thread and
  of its code slot; \<open>None\<close> is a failed assertion or an access out of the bounds of the thread's arrays.
  What an opcode does outside of the thread (a value sent or scheduled) is a list of effects.
\<close>

section \<open>Code\<close>

text \<open>
  The code space is an array of chunks (\<^verbatim>\<open>codes.cc\<close>), so an address is a chunk and an index in it, and pointer
  arithmetic stays in the chunk.
\<close>

type_synonym vvp_code_t = "nat \<times> nat"

definition code_add :: "vvp_code_t \<Rightarrow> nat \<Rightarrow> vvp_code_t" where
  "code_add cp k = (fst cp, snd cp + k)"

text \<open>
  The handlers, in groups by what they need: nothing but the thread, the code slot with an effect on the vectors or on
  the flags and index registers, and the rest of the simulator.  The last group is made by the loader, which replaces
  runs of instructions by one.
\<close>

datatype stack_fun =
    OF_ADD | OF_AND | OF_ANDR | OF_BLEND | OF_CAST2 | OF_CMPE | OF_CMPNE | OF_CMPS | OF_CMPU | OF_CMPWE | OF_CMPWNE | OF_CMPX
  | OF_CMPZ | OF_CONCAT_VEC4 | OF_DIV | OF_DIV_S | OF_DUP_VEC4 | OF_INV | OF_MOD | OF_MOD_S | OF_MUL | OF_NAND | OF_NANDR | OF_NOR | OF_NORR
  | OF_OR | OF_ORR | OF_POW | OF_POW_S | OF_SUB
  | OF_XNOR | OF_XNORR | OF_XOR | OF_XORR

datatype vec_fun =
    OF_ADDI | OF_CMPIE | OF_CMPINE | OF_CMPIS | OF_CMPIU | OF_CONCATI_VEC4 | OF_MULI | OF_PAD_S | OF_PAD_U | OF_PART_S
  | OF_PART_U | OF_PARTI_S | OF_PARTI_U | OF_POP_VEC4 | OF_PUSH_IX_VEC4 | OF_PUSHI_VEC4 | OF_REPLICATE | OF_SHIFTL | OF_SHIFTLI
  | OF_SHIFTR | OF_SHIFTRI | OF_SHIFTR_S | OF_SHIFTRI_S | OF_SPLIT_VEC4 | OF_SUBI | OF_XORI

datatype reg_fun =
    OF_CMPIX_LTU | OF_CMPIX_SLT0 | OF_FLAG_GET_VEC4 | OF_FLAG_INV | OF_FLAG_MOV | OF_FLAG_OR | OF_FLAG_SET_IMM
  | OF_FLAG_SET_VEC4 | OF_IX_ADD | OF_IX_LOAD | OF_IX_MOV | OF_IX_MUL | OF_IX_SUB | OF_IX_VEC4 | OF_IX_VEC4_S

datatype net_fun =
    OF_ASSIGN_VEC4 | OF_CHUNK_LINK | OF_DELAY | OF_DELAYX | OF_IX_GETV | OF_IX_GETV_S | OF_JMP | OF_JMP0 | OF_JMP0XZ | OF_JMP1 | OF_JMP1XZ
  | OF_LOAD_VEC4 | OF_NOOP | OF_STORE_VEC4 | OF_STORE_VEC4_FULL

datatype fused_fun =
    OF_ASSIGNI_VEC4 | OF_CMPI_JMP | OF_CONCATI_WIDE | OF_FLAG_SETGET_VEC4 | OF_LOAD_FLAG | OF_LOAD_PARTI_ADD
  | OF_LOAD_PARTI_CONCAT | OF_LOAD_PARTI_PAIR | OF_LOAD_PARTI_PAIR_CONCAT | OF_LOAD_PARTI_REPLICATE | OF_LOAD_PARTI_S
  | OF_LOAD_PARTI_U | OF_LOAD_PARTI_XOR | OF_PUSHI_WIDE

datatype vvp_code_fun = STACK stack_fun | VEC vec_fun | REG reg_fun | NETF net_fun | FUSED fused_fun

text \<open>The first union of \<^verbatim>\<open>vvp_code_s\<close>; nets and signals are named by numbers.  Reading a member that was not written is an error.\<close>

datatype operand = NUMBER ulong | NET nat | SIGNAL nat | CPTR vvp_code_t | CVEC vvp_vector4_t

record vvp_code_s =
  opcode :: vvp_code_fun
  arg :: operand
  bit_idx0 :: "32 word"
  bit_idx1 :: "32 word"

definition code_number :: "vvp_code_s \<Rightarrow> ulong option" where
  "code_number cp = (case arg cp of NUMBER n \<Rightarrow> Some n | _ \<Rightarrow> None)"

definition code_net :: "vvp_code_s \<Rightarrow> nat option" where
  "code_net cp = (case arg cp of NET n \<Rightarrow> Some n | _ \<Rightarrow> None)"

definition code_signal :: "vvp_code_s \<Rightarrow> nat option" where
  "code_signal cp = (case arg cp of SIGNAL n \<Rightarrow> Some n | _ \<Rightarrow> None)"

definition code_cptr :: "vvp_code_s \<Rightarrow> vvp_code_t option" where
  "code_cptr cp = (case arg cp of CPTR a \<Rightarrow> Some a | _ \<Rightarrow> None)"

definition code_cvec :: "vvp_code_s \<Rightarrow> vvp_vector4_t option" where
  "code_cvec cp = (case arg cp of CVEC v \<Rightarrow> Some v | _ \<Rightarrow> None)"

text \<open>\<^verbatim>\<open>unsigned wid = cp->number\<close> and \<^verbatim>\<open>int flag = cp->number\<close> keep 32 bits.\<close>

definition code_unsigned :: "vvp_code_s \<Rightarrow> nat option" where
  "code_unsigned cp = map_option (\<lambda>n. unat (ucast n :: 32 word)) (code_number cp)"

type_synonym codespace = "vvp_code_t \<Rightarrow> vvp_code_s option"

section \<open>The thread\<close>

record 'v vthread_s =
  thr_pc :: vvp_code_t
  thr_flags :: "vvp_bit4_t list"
  thr_words :: "64 word list"
  thr_stack :: "'v list"

text \<open>The handlers run on vectors; the type of the stack is a parameter so that the specifications can use bit lists.\<close>

type_synonym vthread = "vvp_vector4_t vthread_s"

definition FLAGS_COUNT :: nat where "FLAGS_COUNT = 512"
definition WORDS_COUNT :: nat where "WORDS_COUNT = 16"

text \<open>The vector stack, its top first.\<close>

definition pop_vec4 :: "'v vthread_s \<Rightarrow> ('v \<times> 'v vthread_s) option" where
  "pop_vec4 thr = (case thr_stack thr of [] \<Rightarrow> None | v # vs \<Rightarrow> Some (v, thr\<lparr>thr_stack := vs\<rparr>))"

definition push_vec4 :: "'v \<Rightarrow> 'v vthread_s \<Rightarrow> 'v vthread_s" where
  "push_vec4 val thr = thr\<lparr>thr_stack := val # thr_stack thr\<rparr>"

definition peek_vec4 :: "nat \<Rightarrow> 'v vthread_s \<Rightarrow> 'v option" where
  "peek_vec4 depth thr = (if depth < length (thr_stack thr) then Some (thr_stack thr ! depth) else None)"

definition poke_vec4 :: "nat \<Rightarrow> 'v \<Rightarrow> 'v vthread_s \<Rightarrow> 'v vthread_s option" where
  "poke_vec4 depth val thr =
    (if depth < length (thr_stack thr) then Some (thr\<lparr>thr_stack := (thr_stack thr)[depth := val]\<rparr>) else None)"

definition pop_vec4_cnt :: "nat \<Rightarrow> 'v vthread_s \<Rightarrow> 'v vthread_s option" where
  "pop_vec4_cnt cnt thr = (if cnt \<le> length (thr_stack thr) then Some (thr\<lparr>thr_stack := drop cnt (thr_stack thr)\<rparr>) else None)"

definition get_flag :: "nat \<Rightarrow> 'v vthread_s \<Rightarrow> vvp_bit4_t option" where
  "get_flag flag thr = (if flag < FLAGS_COUNT then Some (thr_flags thr ! flag) else None)"

definition set_flag :: "nat \<Rightarrow> vvp_bit4_t \<Rightarrow> 'v vthread_s \<Rightarrow> 'v vthread_s option" where
  "set_flag flag b thr = (if flag < FLAGS_COUNT then Some (thr\<lparr>thr_flags := (thr_flags thr)[flag := b]\<rparr>) else None)"

definition get_word :: "nat \<Rightarrow> 'v vthread_s \<Rightarrow> 64 word option" where
  "get_word i thr = (if i < WORDS_COUNT then Some (thr_words thr ! i) else None)"

definition set_word :: "nat \<Rightarrow> 64 word \<Rightarrow> 'v vthread_s \<Rightarrow> 'v vthread_s option" where
  "set_word i w thr = (if i < WORDS_COUNT then Some (thr\<lparr>thr_words := (thr_words thr)[i := w]\<rparr>) else None)"

text \<open>The two shapes most of the handlers have: edit the top in place, or pop the right operand and edit the left one in place.\<close>

definition edit_top :: "('v \<Rightarrow> 'v option) \<Rightarrow> 'v vthread_s \<Rightarrow> 'v vthread_s option" where
  "edit_top f thr = Option.bind (peek_vec4 0 thr) (\<lambda>val. Option.bind (f val) (\<lambda>val. poke_vec4 0 val thr))"

definition pop_edit :: "('v \<Rightarrow> 'v \<Rightarrow> 'v option) \<Rightarrow> 'v vthread_s \<Rightarrow> 'v vthread_s option" where
  "pop_edit f thr = Option.bind (pop_vec4 thr) (\<lambda>(r, thr). edit_top (\<lambda>l. f l r) thr)"

definition same_size :: "(vvp_vector4_t \<Rightarrow> vvp_vector4_t \<Rightarrow> vvp_vector4_t option) \<Rightarrow> vvp_vector4_t \<Rightarrow> vvp_vector4_t \<Rightarrow> vvp_vector4_t option" where
  "same_size f l r = (if v4_size l = v4_size r then f l r else None)"

text \<open>The immediate operand of an opcode: \<^verbatim>\<open>vvp_vector4_t r (wid, cp->bit_idx[0], cp->bit_idx[1])\<close>.\<close>

definition immediate :: "vvp_code_s \<Rightarrow> vvp_vector4_t option" where
  "immediate cp = map_option (\<lambda>wid. v4_immediate wid (ucast (bit_idx0 cp)) (ucast (bit_idx1 cp))) (code_unsigned cp)"

section \<open>Arithmetic and logic\<close>

definition of_AND :: "vthread \<Rightarrow> vthread option" where "of_AND = pop_edit (same_size v4_and_eq)"
definition of_OR :: "vthread \<Rightarrow> vthread option" where "of_OR = pop_edit v4_or_eq"
definition of_NAND :: "vthread \<Rightarrow> vthread option" where
  "of_NAND = pop_edit (same_size (\<lambda>l r. map_option v4_invert (v4_and_eq l r)))"
definition of_NOR :: "vthread \<Rightarrow> vthread option" where
  "of_NOR = pop_edit (same_size (\<lambda>l r. map_option v4_invert (v4_or_eq l r)))"
definition of_XNOR :: "vthread \<Rightarrow> vthread option" where
  "of_XNOR = pop_edit (same_size (\<lambda>l r. map_option v4_invert (v4_xor_eq l r)))"

text \<open>\<^verbatim>\<open>%xor\<close> leaves the right operand in its slot until the left one is written.\<close>

definition of_XOR :: "vthread \<Rightarrow> vthread option" where
  "of_XOR thr = Option.bind (peek_vec4 0 thr) (\<lambda>valr. Option.bind (peek_vec4 1 thr) (\<lambda>vall.
     Option.bind (same_size v4_xor_eq vall valr) (\<lambda>vall. Option.bind (poke_vec4 1 vall thr) (pop_vec4_cnt 1))))"

definition of_XORI :: "vvp_code_s \<Rightarrow> vthread \<Rightarrow> vthread option" where
  "of_XORI cp thr = Option.bind (code_unsigned cp) (\<lambda>wid.
     edit_top (\<lambda>val. v4_xor_immediate val (ucast (bit_idx0 cp)) (ucast (bit_idx1 cp)) wid) thr)"

definition of_INV :: "vthread \<Rightarrow> vthread option" where "of_INV = edit_top (\<lambda>val. Some (v4_invert val))"

definition of_ADD :: "vthread \<Rightarrow> vthread option" where "of_ADD = pop_edit v4_add"
definition of_SUB :: "vthread \<Rightarrow> vthread option" where "of_SUB = pop_edit v4_sub"
definition of_MUL :: "vthread \<Rightarrow> vthread option" where "of_MUL = pop_edit v4_mul"

definition of_ADDI :: "vvp_code_s \<Rightarrow> vthread \<Rightarrow> vthread option" where
  "of_ADDI cp thr = Option.bind (code_unsigned cp) (\<lambda>wid.
     if wid \<le> BITS_PER_WORD
     then edit_top (\<lambda>l. if v4_size l = wid then v4_add_immediate l (ucast (bit_idx0 cp)) (ucast (bit_idx1 cp)) else None) thr
     else edit_top (\<lambda>l. v4_add l (v4_immediate wid (ucast (bit_idx0 cp)) (ucast (bit_idx1 cp)))) thr)"

definition of_SUBI :: "vvp_code_s \<Rightarrow> vthread \<Rightarrow> vthread option" where
  "of_SUBI cp thr = Option.bind (immediate cp) (\<lambda>r. edit_top (\<lambda>l. v4_sub l r) thr)"

definition of_MULI :: "vvp_code_s \<Rightarrow> vthread \<Rightarrow> vthread option" where
  "of_MULI cp thr = Option.bind (immediate cp) (\<lambda>r. edit_top (\<lambda>l. v4_mul l r) thr)"

definition of_ANDR :: "vthread \<Rightarrow> vthread option" where "of_ANDR = edit_top (\<lambda>val. Some (v4_fill 1 (v4_reduce_and val)))"
definition of_ORR :: "vthread \<Rightarrow> vthread option" where "of_ORR = edit_top (\<lambda>val. Some (v4_fill 1 (v4_reduce_or val)))"
definition of_XORR :: "vthread \<Rightarrow> vthread option" where "of_XORR = edit_top (\<lambda>val. Some (v4_fill 1 (v4_reduce_xor val)))"
definition of_NANDR :: "vthread \<Rightarrow> vthread option" where
  "of_NANDR = edit_top (\<lambda>val. Some (v4_fill 1 (bit4_not (v4_reduce_and val))))"
definition of_NORR :: "vthread \<Rightarrow> vthread option" where
  "of_NORR = edit_top (\<lambda>val. Some (v4_fill 1 (bit4_not (v4_reduce_or val))))"
definition of_XNORR :: "vthread \<Rightarrow> vthread option" where
  "of_XNORR = edit_top (\<lambda>val. Some (v4_fill 1 (bit4_not (v4_reduce_xor val))))"

text \<open>\<^verbatim>\<open>%blend\<close> keeps the bits on which two values agree.  \<^verbatim>\<open>%cast2\<close> makes x and z bits 0.\<close>

definition of_BLEND :: "vthread \<Rightarrow> vthread option" where
  "of_BLEND thr = Option.bind (pop_vec4 thr) (\<lambda>(vala, thr). Option.bind (pop_vec4 thr) (\<lambda>(valb, thr).
     if v4_size vala = v4_size valb then
       map_option (\<lambda>vala. push_vec4 vala thr)
         (for_each (\<lambda>idx vala. if v4_value vala idx = v4_value valb idx then Some vala else v4_set_bit vala idx BIT4_X)
           [0..<v4_size vala] vala)
     else None))"

definition of_CAST2 :: "vthread \<Rightarrow> vthread option" where
  "of_CAST2 = edit_top (\<lambda>val. if \<not> v4_has_xz val then Some val else
     for_each (\<lambda>idx val. if bit4_is_xz (v4_value val idx) then v4_set_bit val idx BIT4_0 else Some val) [0..<v4_size val] val)"

section \<open>Comparison\<close>

text \<open>The scan of \<^verbatim>\<open>do_CMPE\<close> and \<^verbatim>\<open>of_CMPU_the_hard_way\<close>: it stops at the first pair of bits that are known and differ.\<close>

fun cmpe_loop :: "vvp_vector4_t \<Rightarrow> vvp_vector4_t \<Rightarrow> nat list \<Rightarrow> vvp_bit4_t \<times> vvp_bit4_t \<Rightarrow> vvp_bit4_t \<times> vvp_bit4_t" where
  "cmpe_loop lval rval [] (eq, eeq) = (eq, eeq)"
| "cmpe_loop lval rval (idx # rest) (eq, eeq) =
    (let lv = v4_value lval idx; rv = v4_value rval idx;
         eeq = (if lv \<noteq> rv then BIT4_0 else eeq);
         eq = (if eq = BIT4_1 \<and> (bit4_is_xz lv \<or> bit4_is_xz rv) then BIT4_X else eq);
         eq = (if lv = BIT4_0 \<and> rv = BIT4_1 then BIT4_0 else eq);
         eq = (if lv = BIT4_1 \<and> rv = BIT4_0 then BIT4_0 else eq)
     in if eq = BIT4_0 then (eq, eeq) else cmpe_loop lval rval rest (eq, eeq))"

definition set_flags :: "(nat \<times> vvp_bit4_t) list \<Rightarrow> 'v vthread_s \<Rightarrow> 'v vthread_s" where
  "set_flags bs thr = thr\<lparr>thr_flags := foldl (\<lambda>fs (i, b). fs[i := b]) (thr_flags thr) bs\<rparr>"

definition do_CMPE :: "vvp_vector4_t \<Rightarrow> vvp_vector4_t \<Rightarrow> vthread \<Rightarrow> vthread option" where
  "do_CMPE lval rval thr =
    (if v4_size rval = v4_size lval then Some
       (if v4_has_xz lval \<or> v4_has_xz rval
        then let (eq, eeq) = cmpe_loop lval rval [0..<v4_size lval] (BIT4_1, BIT4_1) in set_flags [(4, eq), (6, eeq)] thr
        else let b = (if v4_eeq lval rval then BIT4_1 else BIT4_0) in set_flags [(6, b), (4, b)] thr)
     else None)"

text \<open>The scan of \<^verbatim>\<open>do_CMPS\<close> from the bit below the sign: 0 for equal.\<close>

fun cmps_loop :: "vvp_vector4_t \<Rightarrow> vvp_vector4_t \<Rightarrow> nat \<Rightarrow> nat list \<Rightarrow> vvp_bit4_t option" where
  "cmps_loop lval rval wid [] = None"
| "cmps_loop lval rval wid (idx # rest) =
    (let lv = v4_value lval (wid - 1 - idx); rv = v4_value rval (wid - 1 - idx) in
     if lv = rv then cmps_loop lval rval wid rest else Some (if lv = BIT4_0 then BIT4_1 else BIT4_0))"

definition do_CMPS :: "vvp_vector4_t \<Rightarrow> vvp_vector4_t \<Rightarrow> vthread \<Rightarrow> vthread option" where
  "do_CMPS lval rval thr =
    (if v4_size rval = v4_size lval then Some
       (if v4_has_xz lval \<or> v4_has_xz rval
        then set_flags [(4, BIT4_X), (5, BIT4_X), (6, if v4_eeq lval rval then BIT4_1 else BIT4_0)] thr
        else
          let wid = v4_size lval; sig1 = v4_value lval (wid - 1); sig2 = v4_value rval (wid - 1) in
          if sig1 = BIT4_1 \<and> sig2 = BIT4_0 then set_flags [(4, BIT4_0), (5, BIT4_1), (6, BIT4_0)] thr
          else if sig1 = BIT4_0 \<and> sig2 = BIT4_1 then set_flags [(4, BIT4_0), (5, BIT4_0), (6, BIT4_0)] thr
          else if wid \<le> BITS_PER_WORD then
            let m = (if wid = BITS_PER_WORD then - 1 else push_bit wid 1 - 1);
                la = abits_word lval 0 AND m; ra = abits_word rval 0 AND m;
                eq = (if la = ra then BIT4_1 else BIT4_0)
            in set_flags [(4, eq), (5, if la < ra then BIT4_1 else BIT4_0), (6, eq)] thr
          else (case cmps_loop lval rval wid [1..<wid] of
              Some lt \<Rightarrow> set_flags [(4, BIT4_0), (6, BIT4_0), (5, lt)] thr
            | None \<Rightarrow> set_flags [(4, BIT4_1), (5, BIT4_0), (6, BIT4_1)] thr))
     else None)"

definition of_CMPU_the_hard_way :: "nat \<Rightarrow> vvp_vector4_t \<Rightarrow> vvp_vector4_t \<Rightarrow> vthread \<Rightarrow> vthread" where
  "of_CMPU_the_hard_way wid lval rval thr =
    (let (eq, eeq) = cmpe_loop lval rval [0..<wid] (BIT4_1, BIT4_1) in set_flags [(4, eq), (5, BIT4_X), (6, eeq)] thr)"

text \<open>The words of \<^verbatim>\<open>do_CMPU\<close> are scanned upwards, so the last difference counts.\<close>

fun cmpu_loop :: "plane \<Rightarrow> plane \<Rightarrow> nat list \<Rightarrow> vvp_bit4_t \<times> vvp_bit4_t \<Rightarrow> vvp_bit4_t \<times> vvp_bit4_t" where
  "cmpu_loop larray rarray [] (eq, lt) = (eq, lt)"
| "cmpu_loop larray rarray (wdx # rest) (eq, lt) =
    (if larray ! wdx = rarray ! wdx then cmpu_loop larray rarray rest (eq, lt)
     else cmpu_loop larray rarray rest (BIT4_0, if larray ! wdx < rarray ! wdx then BIT4_1 else BIT4_0))"

definition do_CMPU :: "vvp_vector4_t \<Rightarrow> vvp_vector4_t \<Rightarrow> vthread \<Rightarrow> vthread option" where
  "do_CMPU lval rval thr =
    (if v4_size rval = v4_size lval then Some
       (let wid = v4_size lval in
        case v4_subarray lval 0 wid False of
          None \<Rightarrow> of_CMPU_the_hard_way wid lval rval thr
        | Some larray \<Rightarrow> (case v4_subarray rval 0 wid False of
            None \<Rightarrow> of_CMPU_the_hard_way wid lval rval thr
          | Some rarray \<Rightarrow>
              let (eq, lt) = cmpu_loop larray rarray [0..<words_for wid] (BIT4_1, BIT4_0) in
              set_flags [(4, eq), (5, lt), (6, eq)] thr))
     else None)"

fun cmpwe_loop :: "vvp_vector4_t \<Rightarrow> vvp_vector4_t \<Rightarrow> nat list \<Rightarrow> vvp_bit4_t \<Rightarrow> vvp_bit4_t" where
  "cmpwe_loop lval rval [] eq = eq"
| "cmpwe_loop lval rval (idx # rest) eq =
    (let lv = v4_value lval idx; rv = v4_value rval idx in
     if bit4_is_xz rv then cmpwe_loop lval rval rest eq
     else
       let eq = (if eq = BIT4_1 \<and> bit4_is_xz lv then BIT4_X else eq);
           eq = (if lv = BIT4_0 \<and> rv = BIT4_1 then BIT4_0 else eq);
           eq = (if lv = BIT4_1 \<and> rv = BIT4_0 then BIT4_0 else eq)
       in if eq = BIT4_0 then eq else cmpwe_loop lval rval rest eq)"

definition do_CMPWE :: "vvp_vector4_t \<Rightarrow> vvp_vector4_t \<Rightarrow> vthread \<Rightarrow> vthread option" where
  "do_CMPWE lval rval thr =
    (if v4_size rval = v4_size lval then Some
       (if v4_has_xz lval \<or> v4_has_xz rval
        then set_flags [(4, cmpwe_loop lval rval [0..<v4_size lval] BIT4_1)] thr
        else set_flags [(4, if v4_eeq lval rval then BIT4_1 else BIT4_0)] thr)
     else None)"

text \<open>Compare the two values at the top, or the top and the immediate, then drop them.\<close>

definition compare_pop :: "('v \<Rightarrow> 'v \<Rightarrow> 'v vthread_s \<Rightarrow> 'v vthread_s option) \<Rightarrow> 'v vthread_s \<Rightarrow> 'v vthread_s option" where
  "compare_pop do_cmp thr = Option.bind (peek_vec4 0 thr) (\<lambda>rval. Option.bind (peek_vec4 1 thr) (\<lambda>lval.
     Option.bind (do_cmp lval rval thr) (pop_vec4_cnt 2)))"

definition compare_imm :: "(vvp_vector4_t \<Rightarrow> vvp_vector4_t \<Rightarrow> vthread \<Rightarrow> vthread option) \<Rightarrow> vvp_code_s \<Rightarrow> vthread \<Rightarrow> vthread option" where
  "compare_imm do_cmp cp thr = Option.bind (peek_vec4 0 thr) (\<lambda>lval. Option.bind (immediate cp) (\<lambda>rval.
     Option.bind (do_cmp lval rval thr) (pop_vec4_cnt 1)))"

definition invert_flags :: "nat list \<Rightarrow> 'v vthread_s \<Rightarrow> 'v vthread_s" where
  "invert_flags is thr = set_flags (map (\<lambda>i. (i, bit4_not (thr_flags thr ! i))) is) thr"

definition do_CMPNE :: "vvp_vector4_t \<Rightarrow> vvp_vector4_t \<Rightarrow> vthread \<Rightarrow> vthread option" where
  "do_CMPNE lval rval thr = map_option (invert_flags [4, 6]) (do_CMPE lval rval thr)"

definition of_CMPE :: "vthread \<Rightarrow> vthread option" where "of_CMPE = compare_pop do_CMPE"
definition of_CMPNE :: "vthread \<Rightarrow> vthread option" where "of_CMPNE = compare_pop do_CMPNE"
definition of_CMPS :: "vthread \<Rightarrow> vthread option" where "of_CMPS = compare_pop do_CMPS"
definition of_CMPU :: "vthread \<Rightarrow> vthread option" where "of_CMPU = compare_pop do_CMPU"
definition of_CMPWE :: "vthread \<Rightarrow> vthread option" where "of_CMPWE = compare_pop do_CMPWE"
definition of_CMPWNE :: "vthread \<Rightarrow> vthread option" where
  "of_CMPWNE = compare_pop (\<lambda>lval rval thr. map_option (invert_flags [4]) (do_CMPWE lval rval thr))"
definition of_CMPIE :: "vvp_code_s \<Rightarrow> vthread \<Rightarrow> vthread option" where "of_CMPIE = compare_imm do_CMPE"
definition of_CMPINE :: "vvp_code_s \<Rightarrow> vthread \<Rightarrow> vthread option" where "of_CMPINE = compare_imm do_CMPNE"
definition of_CMPIS :: "vvp_code_s \<Rightarrow> vthread \<Rightarrow> vthread option" where "of_CMPIS = compare_imm do_CMPS"
definition of_CMPIU :: "vvp_code_s \<Rightarrow> vthread \<Rightarrow> vthread option" where "of_CMPIU = compare_imm do_CMPU"

text \<open>\<^verbatim>\<open>%cmp/x\<close> and \<^verbatim>\<open>%cmp/z\<close>: the two forms of \<^verbatim>\<open>case\<close> with don't-care bits.\<close>

definition of_CMPX :: "vthread \<Rightarrow> vthread option" where
  "of_CMPX thr = Option.bind (pop_vec4 thr) (\<lambda>(rval, thr). Option.bind (pop_vec4 thr) (\<lambda>(lval, thr).
     if v4_size rval = v4_size lval then Some (set_flags [(4,
       if list_ex (\<lambda>idx. v4_value lval idx \<noteq> v4_value rval idx \<and> \<not> bit4_is_xz (v4_value lval idx) \<and> \<not> bit4_is_xz (v4_value rval idx))
         [0..<v4_size lval] then BIT4_0 else BIT4_1)] thr)
     else None))"

definition of_CMPZ :: "vthread \<Rightarrow> vthread option" where
  "of_CMPZ thr = Option.bind (pop_vec4 thr) (\<lambda>(rval, thr). Option.bind (pop_vec4 thr) (\<lambda>(lval, thr).
     if v4_size rval = v4_size lval then Some (set_flags [(4,
       if list_ex (\<lambda>idx. v4_value lval idx \<noteq> v4_value rval idx \<and> v4_value rval idx \<noteq> BIT4_Z \<and> v4_value lval idx \<noteq> BIT4_Z)
         [0..<v4_size lval] then BIT4_0 else BIT4_1)] thr)
     else None))"

section \<open>Shaping\<close>

text \<open>
  The width of a vector and the end of a part of it are \<^verbatim>\<open>unsigned\<close> in the code.  Where such a sum does not fit into 32 bits,
  \<^verbatim>\<open>concat\<close> and \<^verbatim>\<open>subvalue\<close> have no meaning here.
\<close>

definition thr_concat :: "vvp_vector4_t \<Rightarrow> vvp_vector4_t \<Rightarrow> vvp_vector4_t option" where
  "thr_concat msb lsb = (if v4_size msb + v4_size lsb < 2 ^ 32 then v4_concat msb lsb else None)"

definition thr_subvalue :: "vvp_vector4_t \<Rightarrow> nat \<Rightarrow> nat \<Rightarrow> vvp_vector4_t option" where
  "thr_subvalue val base wid = (if base + wid < 2 ^ 32 then v4_subvalue val base wid else None)"

definition of_CONCAT_VEC4 :: "vthread \<Rightarrow> vthread option" where
  "of_CONCAT_VEC4 thr = Option.bind (peek_vec4 0 thr) (\<lambda>lsb. Option.bind (peek_vec4 1 thr) (\<lambda>msb.
     Option.bind (thr_concat msb lsb) (\<lambda>msb. Option.bind (poke_vec4 1 msb thr) (pop_vec4_cnt 1))))"

definition of_CONCATI_VEC4 :: "vvp_code_s \<Rightarrow> vthread \<Rightarrow> vthread option" where
  "of_CONCATI_VEC4 cp thr = Option.bind (immediate cp) (\<lambda>lsb. edit_top (\<lambda>msb. thr_concat msb lsb) thr)"

definition of_DUP_VEC4 :: "'v vthread_s \<Rightarrow> 'v vthread_s option" where
  "of_DUP_VEC4 thr = map_option (\<lambda>val. push_vec4 val thr) (peek_vec4 0 thr)"

definition of_PAD_S :: "vvp_code_s \<Rightarrow> vthread \<Rightarrow> vthread option" where
  "of_PAD_S cp thr = Option.bind (code_unsigned cp) (\<lambda>wid. edit_top (\<lambda>val.
     Some (if v4_size val < wid then v4_resize val wid (v4_value val (v4_size val - 1)) else v4_resize val wid BIT4_X)) thr)"

definition of_PAD_U :: "vvp_code_s \<Rightarrow> vthread \<Rightarrow> vthread option" where
  "of_PAD_U cp thr = Option.bind (code_unsigned cp) (\<lambda>wid. edit_top (\<lambda>val. Some (v4_resize val wid BIT4_0)) thr)"

text \<open>
  The part select that \<^verbatim>\<open>of_PART_base\<close> and \<^verbatim>\<open>of_PARTI_base\<close> share, with a base that may be negative.  The width of the value and
  of the part are cast to \<^verbatim>\<open>int32_t\<close>; where the signed sum of the base and the width overflows, the code has no meaning.
\<close>

definition part_select :: "nat \<Rightarrow> int \<Rightarrow> vvp_vector4_t \<Rightarrow> vvp_vector4_t option" where
  "part_select wid base val =
    (let res = v4_fill wid BIT4_X; sum = base + sint (of_nat wid :: 32 word) in
     if base \<ge> sint (of_nat (v4_size val) :: 32 word) then Some res
     else if sum < - (2 ^ 31) \<or> sum \<ge> 2 ^ 31 then None
     else if sum \<le> 0 then Some res
     else
       let vbase = (if base < 0 then nat (- base) else 0);
           wid = wid - vbase;
           base = (if base < 0 then 0 else nat base);
           wid = (if (base + wid) mod 2 ^ 32 > v4_size val then v4_size val - base else wid)
       in Option.bind (thr_subvalue val base wid) (\<lambda>sub. map_option snd (v4_set_vec res vbase sub)))"

definition of_PART_base :: "bool \<Rightarrow> vvp_code_s \<Rightarrow> vthread \<Rightarrow> vthread option" where
  "of_PART_base signed_flag cp thr = Option.bind (code_unsigned cp) (\<lambda>wid. pop_edit (\<lambda>val base4.
     case (vector4_to_value base4 signed_flag True :: bool \<times> 32 word option) of
       (True, Some base) \<Rightarrow> part_select wid (sint base) val
     | _ \<Rightarrow> Some (v4_fill wid BIT4_X)) thr)"

text \<open>The base of \<^verbatim>\<open>%parti\<close>, sign-extended from \<^verbatim>\<open>bwid\<close> bits; a signed base of width 0 shifts by a negative amount.\<close>

definition parti_base :: "bool \<Rightarrow> vvp_code_s \<Rightarrow> 32 word option" where
  "parti_base signed_flag cp =
    (let base = bit_idx0 cp; bwid = unat (bit_idx1 cp) in
     if signed_flag \<and> bwid = 0 then None
     else Some (if signed_flag \<and> bwid < 32 \<and> base AND push_bit (bwid - 1) 1 \<noteq> 0 then base OR push_bit bwid (- 1) else base))"

definition of_PARTI_base :: "bool \<Rightarrow> vvp_code_s \<Rightarrow> vthread \<Rightarrow> vthread option" where
  "of_PARTI_base signed_flag cp thr = Option.bind (code_unsigned cp) (\<lambda>wid. Option.bind (parti_base signed_flag cp) (\<lambda>use_base.
     edit_top (part_select wid (sint use_base)) thr))"

definition of_POP_VEC4 :: "vvp_code_s \<Rightarrow> 'v vthread_s \<Rightarrow> 'v vthread_s option" where
  "of_POP_VEC4 cp thr = Option.bind (code_unsigned cp) (\<lambda>cnt. pop_vec4_cnt cnt thr)"

definition of_PUSHI_VEC4 :: "vvp_code_s \<Rightarrow> vthread \<Rightarrow> vthread option" where
  "of_PUSHI_VEC4 cp thr = map_option (\<lambda>val. push_vec4 val thr) (immediate cp)"

text \<open>
  The count of \<^verbatim>\<open>%replicate\<close> is an \<^verbatim>\<open>int\<close>, and a negative one ends the loop at once.  The width of the result and the address of
  each copy are products of 32 bits that wrap around; \<^verbatim>\<open>set_vec\<close> asserts that the copy fits.
\<close>

definition of_REPLICATE :: "vvp_code_s \<Rightarrow> vthread \<Rightarrow> vthread option" where
  "of_REPLICATE cp thr = Option.bind (code_unsigned cp) (\<lambda>rept. Option.bind (pop_vec4 thr) (\<lambda>(val, thr).
     map_option (\<lambda>res. push_vec4 res thr)
       (for_each (\<lambda>idx res. map_option snd (v4_set_vec res (idx * v4_size val mod 2 ^ 32) val)) [0..<if rept < 2 ^ 31 then rept else 0]
         (v4_fill (v4_size val * rept mod 2 ^ 32) BIT4_X))))"

definition shift_left :: "nat \<Rightarrow> vvp_vector4_t \<Rightarrow> vvp_vector4_t option" where
  "shift_left shift val =
    (if shift \<ge> v4_size val then Some (v4_fill (v4_size val) BIT4_0) else if shift > 0 then v4_shiftl val shift else Some val)"

definition shift_right :: "nat \<Rightarrow> vvp_bit4_t \<Rightarrow> vvp_vector4_t \<Rightarrow> vvp_vector4_t option" where
  "shift_right shift pad val =
    (if shift > v4_size val then Some (v4_fill (v4_size val) pad) else if shift > 0 then v4_shiftr val shift pad else Some val)"

text \<open>A shift by an index register; flag 4 says that the register has no value (1) or too large a one (x).\<close>

definition shift_by :: "(nat \<Rightarrow> vvp_vector4_t \<Rightarrow> vvp_vector4_t option) \<Rightarrow> (vvp_vector4_t \<Rightarrow> vvp_bit4_t) \<Rightarrow> vvp_code_s \<Rightarrow> vthread \<Rightarrow> vthread option" where
  "shift_by f out cp thr = Option.bind (code_unsigned cp) (\<lambda>use_index. Option.bind (get_word use_index thr) (\<lambda>shift.
     Option.bind (get_flag 4 thr) (\<lambda>flag. edit_top (\<lambda>val.
       if flag = BIT4_1 then Some (v4_fill (v4_size val) BIT4_X)
       else if flag = BIT4_X then Some (v4_fill (v4_size val) (out val))
       else f (unat shift) val) thr)))"

definition sign_bit :: "vvp_vector4_t \<Rightarrow> vvp_bit4_t" where
  "sign_bit val = v4_value val (v4_size val - 1)"

definition of_SHIFTL :: "vvp_code_s \<Rightarrow> vthread \<Rightarrow> vthread option" where
  "of_SHIFTL = shift_by shift_left (\<lambda>_. BIT4_0)"
definition of_SHIFTR :: "vvp_code_s \<Rightarrow> vthread \<Rightarrow> vthread option" where
  "of_SHIFTR = shift_by (\<lambda>shift. shift_right shift BIT4_0) (\<lambda>_. BIT4_0)"
definition of_SHIFTR_S :: "vvp_code_s \<Rightarrow> vthread \<Rightarrow> vthread option" where
  "of_SHIFTR_S = shift_by (\<lambda>shift val. shift_right shift (sign_bit val) val) sign_bit"

definition of_SHIFTLI :: "vvp_code_s \<Rightarrow> vthread \<Rightarrow> vthread option" where
  "of_SHIFTLI cp thr = Option.bind (code_number cp) (\<lambda>n. edit_top (shift_left (unat n)) thr)"
definition of_SHIFTRI :: "vvp_code_s \<Rightarrow> vthread \<Rightarrow> vthread option" where
  "of_SHIFTRI cp thr = Option.bind (code_number cp) (\<lambda>n. edit_top (shift_right (unat n) BIT4_0) thr)"
definition of_SHIFTRI_S :: "vvp_code_s \<Rightarrow> vthread \<Rightarrow> vthread option" where
  "of_SHIFTRI_S cp thr = Option.bind (code_number cp) (\<lambda>n. edit_top (\<lambda>val. shift_right (unat n) (sign_bit val) val) thr)"

definition of_SPLIT_VEC4 :: "vvp_code_s \<Rightarrow> vthread \<Rightarrow> vthread option" where
  "of_SPLIT_VEC4 cp thr = Option.bind (code_unsigned cp) (\<lambda>lsb_wid. Option.bind (peek_vec4 0 thr) (\<lambda>val.
     if lsb_wid < v4_size val then
       Option.bind (v4_subvalue val 0 lsb_wid) (\<lambda>lsb. Option.bind (v4_subvalue val lsb_wid (v4_size val - lsb_wid)) (\<lambda>val.
         map_option (push_vec4 lsb) (poke_vec4 0 val thr)))
     else None))"

section \<open>Flags and index registers\<close>

definition of_FLAG_GET_VEC4 :: "vvp_code_s \<Rightarrow> vthread \<Rightarrow> vthread option" where
  "of_FLAG_GET_VEC4 cp thr = Option.bind (code_unsigned cp) (\<lambda>flag. map_option (\<lambda>b. push_vec4 (v4_fill 1 b) thr) (get_flag flag thr))"

definition of_FLAG_INV :: "vvp_code_s \<Rightarrow> 'v vthread_s \<Rightarrow> 'v vthread_s option" where
  "of_FLAG_INV cp thr = (let flag1 = unat (bit_idx0 cp) in Option.bind (get_flag flag1 thr) (\<lambda>b. set_flag flag1 (bit4_not b) thr))"

definition of_FLAG_MOV :: "vvp_code_s \<Rightarrow> 'v vthread_s \<Rightarrow> 'v vthread_s option" where
  "of_FLAG_MOV cp thr = Option.bind (get_flag (unat (bit_idx1 cp)) thr) (\<lambda>b. set_flag (unat (bit_idx0 cp)) b thr)"

definition of_FLAG_OR :: "vvp_code_s \<Rightarrow> 'v vthread_s \<Rightarrow> 'v vthread_s option" where
  "of_FLAG_OR cp thr = Option.bind (get_flag (unat (bit_idx0 cp)) thr) (\<lambda>a. Option.bind (get_flag (unat (bit_idx1 cp)) thr) (\<lambda>b.
     set_flag (unat (bit_idx0 cp)) (bit4_or a b) thr))"

definition of_FLAG_SET_IMM :: "vvp_code_s \<Rightarrow> 'v vthread_s \<Rightarrow> 'v vthread_s option" where
  "of_FLAG_SET_IMM cp thr = Option.bind (code_unsigned cp) (\<lambda>flag.
     if unat (bit_idx0 cp) < 4 then set_flag flag ([BIT4_0, BIT4_1, BIT4_Z, BIT4_X] ! unat (bit_idx0 cp)) thr else None)"

definition of_FLAG_SET_VEC4 :: "vvp_code_s \<Rightarrow> vthread \<Rightarrow> vthread option" where
  "of_FLAG_SET_VEC4 cp thr = Option.bind (code_unsigned cp) (\<lambda>flag. Option.bind (peek_vec4 0 thr) (\<lambda>val.
     Option.bind (set_flag flag (v4_value val 0) thr) (pop_vec4_cnt 1)))"

definition get_as_64_bit :: "32 word \<Rightarrow> 32 word \<Rightarrow> 64 word" where
  "get_as_64_bit low_32 high_32 = push_bit 32 (ucast high_32) OR ucast low_32"

definition ix_op :: "(64 word \<Rightarrow> 64 word \<Rightarrow> 64 word) \<Rightarrow> vvp_code_s \<Rightarrow> 'v vthread_s \<Rightarrow> 'v vthread_s option" where
  "ix_op f cp thr = Option.bind (code_number cp) (\<lambda>i. Option.bind (get_word (unat i) thr) (\<lambda>w.
     set_word (unat i) (f w (get_as_64_bit (bit_idx0 cp) (bit_idx1 cp))) thr))"

definition of_IX_ADD :: "vvp_code_s \<Rightarrow> 'v vthread_s \<Rightarrow> 'v vthread_s option" where "of_IX_ADD = ix_op (+)"
definition of_IX_SUB :: "vvp_code_s \<Rightarrow> 'v vthread_s \<Rightarrow> 'v vthread_s option" where "of_IX_SUB = ix_op (-)"
definition of_IX_MUL :: "vvp_code_s \<Rightarrow> 'v vthread_s \<Rightarrow> 'v vthread_s option" where "of_IX_MUL = ix_op (*)"
definition of_IX_LOAD :: "vvp_code_s \<Rightarrow> 'v vthread_s \<Rightarrow> 'v vthread_s option" where "of_IX_LOAD = ix_op (\<lambda>_ k. k)"

definition of_IX_MOV :: "vvp_code_s \<Rightarrow> 'v vthread_s \<Rightarrow> 'v vthread_s option" where
  "of_IX_MOV cp thr = Option.bind (get_word (unat (bit_idx1 cp)) thr) (\<lambda>w. set_word (unat (bit_idx0 cp)) w thr)"

text \<open>
  The words above the first of \<^verbatim>\<open>vec4_to_index\<close> may only repeat the sign.  The result is the index and whether it
  overflows; the array has zeros above the width of the vector.
\<close>

fun index_loop :: "bool \<Rightarrow> plane \<Rightarrow> nat list \<Rightarrow> 64 word \<Rightarrow> 64 word \<times> bool" where
  "index_loop signed_flag bits [] v = (v, False)"
| "index_loop signed_flag bits (wdx # rest) v =
    (let tmp = bits ! wdx in
     if wdx = 0 then index_loop signed_flag bits rest (v OR tmp)
     else if (if signed_flag \<and> drop_bit 63 v \<noteq> 0 then NOT tmp \<noteq> 0 else tmp \<noteq> 0) then (v, True)
     else index_loop signed_flag bits rest v)"

definition vec4_to_index :: "bool \<Rightarrow> vthread \<Rightarrow> (64 word \<times> vthread) option" where
  "vec4_to_index signed_flag thr = Option.bind (peek_vec4 0 thr) (\<lambda>val. Option.bind (pop_vec4_cnt 1 thr) (\<lambda>thr.
     case v4_subarray val 0 (v4_size val) False of
       None \<Rightarrow> Some (0, set_flags [(4, BIT4_1)] thr)
     | Some bits \<Rightarrow>
         let (v, over) = index_loop signed_flag bits [0..<words_for (v4_size val)] 0;
             v = (if v4_size val < 64 then
                    if signed_flag \<and> v AND push_bit (v4_size val - 1) 1 \<noteq> 0 then v OR push_bit (v4_size val) (- 1)
                    else v AND NOT (push_bit (v4_size val) (- 1))
                  else v)
         in Some (v, set_flags [(4, if over then BIT4_X else BIT4_0)] thr)))"

definition of_IX_VEC4 :: "vvp_code_s \<Rightarrow> vthread \<Rightarrow> vthread option" where
  "of_IX_VEC4 cp thr = Option.bind (code_unsigned cp) (\<lambda>i. Option.bind (vec4_to_index False thr) (\<lambda>(v, thr). set_word i v thr))"

definition of_IX_VEC4_S :: "vvp_code_s \<Rightarrow> vthread \<Rightarrow> vthread option" where
  "of_IX_VEC4_S cp thr = Option.bind (code_unsigned cp) (\<lambda>i. Option.bind (vec4_to_index True thr) (\<lambda>(v, thr). set_word i v thr))"

definition of_CMPIX_LTU :: "vvp_code_s \<Rightarrow> 'v vthread_s \<Rightarrow> 'v vthread_s option" where
  "of_CMPIX_LTU cp thr = Option.bind (code_unsigned cp) (\<lambda>a. Option.bind (get_word a thr) (\<lambda>wa.
     Option.bind (get_word (unat (bit_idx0 cp)) thr) (\<lambda>wb. set_flag 4 (if wa < wb then BIT4_1 else BIT4_0) thr)))"

definition of_CMPIX_SLT0 :: "vvp_code_s \<Rightarrow> 'v vthread_s \<Rightarrow> 'v vthread_s option" where
  "of_CMPIX_SLT0 cp thr = Option.bind (code_unsigned cp) (\<lambda>r. Option.bind (get_word r thr) (\<lambda>w.
     set_flag 4 (if sint w < 0 then BIT4_1 else BIT4_0) thr))"

text \<open>The two forms of \<^verbatim>\<open>of_PUSH_IX_VEC4\<close> cut the register to the same 32 bits.\<close>

definition of_PUSH_IX_VEC4 :: "vvp_code_s \<Rightarrow> vthread \<Rightarrow> vthread option" where
  "of_PUSH_IX_VEC4 cp thr = Option.bind (code_unsigned cp) (\<lambda>ix. Option.bind (get_word ix thr) (\<lambda>w.
     let wid = unat (bit_idx0 cp);
         ubits = (if bit_idx1 cp \<noteq> 0 then word_of_int (sint (ucast w :: 32 word)) else (ucast w :: 32 word));
         wid = (if wid > 32 then 32 else wid)
     in map_option (\<lambda>tmp. push_vec4 tmp thr)
       (for_each (\<lambda>idx tmp. v4_set_bit tmp idx (if drop_bit idx ubits AND 1 \<noteq> 0 then BIT4_1 else BIT4_0)) [0..<wid] (v4_fill wid BIT4_0))))"

end
