(* ===== verification/Division.thy ===== *)
theory Division
  imports Vector4_Value Vector4_Concat Vector2_Arith
begin

text \<open>
  The division of the threads (\<^verbatim>\<open>divide2words\<close>, \<^verbatim>\<open>multiply_array_imm\<close> and \<^verbatim>\<open>divide_bits\<close> in \<^verbatim>\<open>src/vvp/vthread.cc\<close>): long division on
  arrays of words, with a guess of each digit from the top word of the divisor and a correction by adding the divisor back.
\<close>

section \<open>Definitions\<close>

text \<open>One turn of the loop of \<^verbatim>\<open>divide2words\<close> makes the two words smaller.\<close>

lemma divide2words_turn:
  assumes "multiply_with_carry high r = (low, hi)" and "high > 0" and "a' = a + low" and "high' = (if a' < low then hi + 1 else hi)"
  shows "uint high' * 2 ^ 64 + uint a' = uint high * uint r + uint a" and "unat high' * 2 ^ 64 + unat a' < unat high * 2 ^ 64 + unat a"
proof -
  have m: "uint low + 2 ^ 64 * uint hi = uint high * uint r"
    using arg_cong [OF multiply_with_carry_exact [OF assms(1)], of int] by simp
  have h: "uint high > 0" using assms(2) by (simp add: word_less_def)
  have "uint high * uint r < uint high * 2 ^ 64" by (rule mult_strict_left_mono) (use h uint_ulong_lt in auto)
  moreover have a': "uint a' = uint a + uint low - 2 ^ 64 * of_bool (a' < low)"
    unfolding assms(3) using uint_ulong_lt [of a] by (auto simp: word_less_def uint_plus_if_size word_size)
  moreover have "uint high' = uint hi + of_bool (a' < low)"
  proof (cases "a' < low")
    case True
    then have "uint a' + 2 ^ 64 * (uint hi + 1) = uint high * uint r + uint a" using m a' by simp
    then have "2 ^ 64 * (uint hi + 1) < 2 ^ 64 * (uint high + 1)" using uint_ulong_lt [of a] calculation(1) by (simp add: algebra_simps) (use uint_ge_0 [of a'] in linarith)
    then have "uint hi + 1 < 2 ^ 64" using uint_ulong_lt [of high] by simp
    then show ?thesis using True by (simp add: assms(4) uint_plus_if_size word_size)
  qed (simp add: assms(4))
  ultimately show "uint high' * 2 ^ 64 + uint a' = uint high * uint r + uint a" using m by simp
  with \<open>uint high * uint r < uint high * 2 ^ 64\<close> have "uint high' * 2 ^ 64 + uint a' < uint high * 2 ^ 64 + uint a" by simp
  then have "int (unat high' * 2 ^ 64 + unat a') < int (unat high * 2 ^ 64 + unat a)" by simp
  then show "unat high' * 2 ^ 64 + unat a' < unat high * 2 ^ 64 + unat a" by (simp only: of_nat_less_iff)
qed

text \<open>The quotient of \<open>{high, a}\<close> by \<open>b\<close>.\<close>

function divide2words_loop :: "ulong \<Rightarrow> ulong \<Rightarrow> ulong \<Rightarrow> ulong \<Rightarrow> ulong" where
  "divide2words_loop a b high result =
    (if high > 0 then
       let tmp_result = (- 1) div b; remain = (- 1) mod b + 1;
           (remain, tmp_result) = (if remain \<ge> b then (remain - b, tmp_result + 1) else (remain, tmp_result));
           result = result + tmp_result * high;
           (remain, high) = multiply_with_carry high remain;
           a = a + remain;
           high = (if a < remain then high + 1 else high)
       in divide2words_loop a b high result
     else result + a div b)"
  by pat_completeness auto

termination
  apply (relation "measure (\<lambda>(a, b, high, result). unat high * 2 ^ 64 + unat a)")
  apply simp
  subgoal for a b high result x xa xb xc y xd xe xf ya xg xh
    using divide2words_turn(2) [of high xc xf ya xg a xh] by simp
  done

declare divide2words_loop.simps [simp del]

definition divide2words :: "ulong \<Rightarrow> ulong \<Rightarrow> ulong \<Rightarrow> ulong" where
  "divide2words a b high = divide2words_loop a b high 0"

text \<open>Loops that add words with a carry: \<open>ap[idx]\<close> and \<open>f idx\<close> for every index.\<close>

fun carry_loop :: "(nat \<Rightarrow> ulong) \<Rightarrow> nat list \<Rightarrow> ulong \<Rightarrow> plane \<Rightarrow> ulong \<times> plane" where
  "carry_loop f [] carry ap = (carry, ap)"
| "carry_loop f (idx # rest) carry ap = (let (r, carry) = add_with_carry (ap ! idx) (f idx) carry in carry_loop f rest carry (ap[idx := r]))"

text \<open>The low word of a product goes to its place, the high word to the next, and the carry on through the rest.\<close>

definition multiply_array_imm :: "plane \<Rightarrow> nat \<Rightarrow> ulong \<Rightarrow> plane" where
  "multiply_array_imm val words imm = foldl (\<lambda>res mul_idx.
     let (tmp, sum) = multiply_with_carry (val ! mul_idx) imm in
     snd (carry_loop (\<lambda>idx. if idx = mul_idx then tmp else if idx = mul_idx + 1 then sum else 0) [mul_idx..<words] 0 res))
     (replicate words 0) [0..<words]"

fun top_nonzero :: "plane \<Rightarrow> nat \<Rightarrow> nat" where
  "top_nonzero bp 0 = 0"
| "top_nonzero bp (Suc btop) = (if bp ! Suc btop = 0 then top_nonzero bp btop else Suc btop)"

text \<open>A digit that was too large: the divisor is added back until the remainder is positive again.\<close>

partial_function (option) add_back :: "plane \<Rightarrow> nat \<Rightarrow> nat \<Rightarrow> ulong \<Rightarrow> plane \<Rightarrow> (ulong \<times> plane) option" where
  "add_back bp words cur_ptr cur_res ap =
    (case carry_loop (\<lambda>idx. bp ! (idx - cur_ptr)) [cur_ptr..<words] 0 ap of (carry, ap) \<Rightarrow>
       if carry = 0 then add_back bp words cur_ptr (cur_res - 1) ap else Some (cur_res - 1, ap))"

declare add_back.simps [code]

definition guess_digit :: "plane \<Rightarrow> plane \<Rightarrow> nat \<Rightarrow> nat \<Rightarrow> nat \<Rightarrow> ulong option" where
  "guess_digit ap bp words btop cur_ptr =
    (if ap ! (cur_ptr + btop) \<ge> bp ! btop then
       Some (divide2words (ap ! (cur_ptr + btop)) (bp ! btop) (if cur_ptr + btop + 1 < words then ap ! (cur_ptr + btop + 1) else 0))
     else if cur_ptr + btop + 1 \<ge> words then None
     else if ap ! (cur_ptr + btop + 1) = 0 then None
     else Some (divide2words (ap ! (cur_ptr + btop)) (bp ! btop) (ap ! (cur_ptr + btop + 1))))"

definition divide_step :: "plane \<Rightarrow> nat \<Rightarrow> nat \<Rightarrow> nat \<Rightarrow> plane \<times> plane \<Rightarrow> (plane \<times> plane) option" where
  "divide_step bp words btop cur_ptr = (\<lambda>(ap, result). case guess_digit ap bp words btop cur_ptr of
       None \<Rightarrow> Some (ap, result)
     | Some cur_res \<Rightarrow>
         let diff = multiply_array_imm bp (words - cur_ptr) cur_res;
             (carry, ap) = carry_loop (\<lambda>idx. NOT (diff ! (idx - cur_ptr))) [cur_ptr..<words] 1 ap
         in map_option (\<lambda>(cur_res, ap). (ap, result[cur_ptr := cur_res]))
              (if carry AND 1 = 0 then add_back bp words cur_ptr cur_res ap else Some (cur_res, ap)))"

text \<open>The result is the quotient and the remainder left in \<^verbatim>\<open>ap\<close>; the inner \<open>None\<close> is a division by 0.\<close>

definition divide_bits :: "plane \<Rightarrow> plane \<Rightarrow> nat \<Rightarrow> (plane \<times> plane) option option" where
  "divide_bits ap bp wid =
    (let words = words_for wid; btop = top_nonzero bp (words - 1) in
     if btop = 0 \<and> bp ! 0 = 0 then Some None
     else map_option (\<lambda>(ap, result). Some (result, ap))
       (for_each (divide_step bp words btop) (rev [0..<words - btop]) (ap, replicate words 0)))"

section \<open>Two words by one\<close>

lemma power_div_turn:
  assumes "b \<noteq> 0" and "(r, t) = (if (- 1) mod b + 1 \<ge> b then ((- 1) mod b + 1 - b, (- 1) div b + 1) else ((- 1) mod b + 1, (- 1 :: ulong) div b))"
  shows "\<exists>q. 2 ^ 64 = uint b * q + uint r \<and> t = word_of_int q"
proof -
  let ?m = "2 ^ 64 - 1 :: int"
  have b: "uint b > 0" using assms(1) by (simp add: word_neq_0_conv word_less_def)
  have m: "uint (- 1 :: ulong) = ?m" by (simp add: unsigned_minus_1_eq_mask mask_eq_exp_minus_1)
  have um: "uint ((- 1) mod b) = ?m mod uint b" and ud: "uint ((- 1) div b) = ?m div uint b"
    by (simp_all add: uint_mod uint_div m)
  have split: "?m = uint b * (?m div uint b) + ?m mod uint b" by simp
  have lt: "?m mod uint b < uint b" using b by simp
  have "?m mod uint b \<le> ?m" using split b by (metis (no_types) lt m uint_ge_0 zmod_le_nonneg_dividend)
  show ?thesis
  proof (cases "?m mod uint b + 1 = uint b")
    case True
    then have "(- 1) mod b + 1 = b" by (metis um uint_ge_0 word_of_int_uint of_int_1 wi_hom_add word_of_int_1)
    then have "r = 0" "t = (- 1) div b + 1" using assms(2) by simp_all
    moreover have "2 ^ 64 = uint b * (?m div uint b + 1) + 0" unfolding distrib_left using split True by linarith
    moreover have "(- 1) div b + 1 = word_of_int (?m div uint b + 1)" by (metis ud wi_hom_add word_of_int_1 word_of_int_uint)
    ultimately show ?thesis by (metis unsigned_0)
  next
    case False
    then have s: "?m mod uint b + 1 < uint b" using lt by simp
    then have u: "uint ((- 1) mod b + 1) = ?m mod uint b + 1" using uint_ulong_lt [of b] um by (simp add: uint_plus_if_size word_size)
    then have "\<not> (- 1) mod b + 1 \<ge> b" using s by (simp add: word_le_def)
    then have "r = (- 1) mod b + 1" "t = (- 1) div b" using assms(2) by simp_all
    moreover have "2 ^ 64 = uint b * (?m div uint b) + uint ((- 1) mod b + 1)" using split u by simp
    moreover have "(- 1) div b = word_of_int (?m div uint b)" by (metis ud word_of_int_uint)
    ultimately show ?thesis by blast
  qed
qed

lemma divide2words_loop:
  assumes "b \<noteq> 0"
  shows "divide2words_loop a b high result = result + word_of_int ((uint high * 2 ^ 64 + uint a) div uint b)"
  using assms
proof (induction a b high result rule: divide2words_loop.induct)
  case (1 a b high result)
  show ?case
  proof (cases "high > 0")
    case True
    obtain r t where rt: "(r, t) = (if (- 1) mod b + 1 \<ge> b then ((- 1) mod b + 1 - b, (- 1) div b + 1) else ((- 1) mod b + 1, (- 1) div b))"
      by (metis surj_pair)
    from power_div_turn [OF "1.prems" rt] obtain q where q: "2 ^ 64 = uint b * q + uint r" "t = word_of_int q" by blast
    obtain low hi where m: "multiply_with_carry high r = (low, hi)" by fastforce
    let ?a = "a + low" let ?high = "if ?a < low then hi + 1 else hi"
    have turn: "uint ?high * 2 ^ 64 + uint ?a = uint high * uint r + uint a" by (rule divide2words_turn(1) [OF m True refl refl])
    have b: "uint b > 0" using "1.prems" by (simp add: word_neq_0_conv word_less_def)
    have "uint high * 2 ^ 64 + uint a = (uint high * uint r + uint a) + uint b * (uint high * q)"
      unfolding q(1) by (simp add: algebra_simps)
    then have d: "(uint high * 2 ^ 64 + uint a) div uint b = uint high * q + (uint high * uint r + uint a) div uint b"
      using b by (simp only: div_mult_self2)
    have "divide2words_loop a b high result = divide2words_loop ?a b ?high (result + t * high)"
      by (subst divide2words_loop.simps) (simp only: True Let_def rt [symmetric] m if_True prod.case)
    also have "\<dots> = result + t * high + word_of_int ((uint ?high * 2 ^ 64 + uint ?a) div uint b)"
      by (rule "1.IH" [OF True refl refl refl rt refl m [symmetric] refl]) (use "1.prems" m in simp_all)
    also have "\<dots> = result + word_of_int ((uint high * 2 ^ 64 + uint a) div uint b)"
      unfolding turn d by (simp add: q(2) mult.commute flip: wi_hom_add wi_hom_mult)
    finally show ?thesis .
  next
    case False
    then have "high = 0" by (simp add: word_gt_0)
    then show ?thesis by (subst divide2words_loop.simps) (simp add: word_div_def)
  qed
qed

lemma divide2words:
  assumes "b \<noteq> 0" and "(uint high * 2 ^ 64 + uint a) div uint b < 2 ^ 64"
  shows "uint (divide2words a b high) = (uint high * 2 ^ 64 + uint a) div uint b"
proof -
  have "0 \<le> (uint high * 2 ^ 64 + uint a) div uint b" by (simp add: div_int_pos_iff)
  with assms show ?thesis by (simp add: divide2words_def divide2words_loop uint_word_of_int take_bit_int_eq_self)
qed

section \<open>Arrays of words\<close>

lemma carry_loop:
  assumes "length ap = n" and "c \<le> n" and "uint carry \<le> 1" and "carry_loop f [c..<n] carry ap = (carry', ap')"
  shows "length ap' = n \<and> uint carry' \<le> 1
    \<and> pval ap' + 2 ^ (64 * n) * uint carry' = pval ap + 2 ^ (64 * c) * (pval (map f [c..<n]) + uint carry)"
  using assms
proof (induction "n - c" arbitrary: c carry ap)
  case (Suc k)
  then have c: "c < n" by simp
  obtain r cy where r: "add_with_carry (ap ! c) (f c) carry = (r, cy)" by fastforce
  note ex = add_with_carry_exact [OF Suc.prems(3) r]
  have up: "[c..<n] = c # [Suc c..<n]" using c by (simp add: upt_conv_Cons)
  from Suc.prems(4) have loop: "carry_loop f [Suc c..<n] cy (ap[c := r]) = (carry', ap')" by (simp add: up r)
  have IH: "length ap' = n \<and> uint carry' \<le> 1
    \<and> pval ap' + 2 ^ (64 * n) * uint carry' = pval (ap[c := r]) + 2 ^ (64 * Suc c) * (pval (map f [Suc c..<n]) + uint cy)"
    by (rule Suc.hyps(1) [OF _ _ _ ex(2) loop]) (use Suc.hyps(2) Suc.prems(1) c in simp_all)
  have u: "pval (ap[c := r]) = pval ap + 2 ^ (64 * c) * (uint r - uint (ap ! c))" using c Suc.prems(1) by (intro pval_update) simp
  have e: "uint r = uint (ap ! c) + uint (f c) + uint carry - 2 ^ 64 * uint cy" using ex(1) by simp
  have p: "(2 :: int) ^ (64 * Suc c) = 2 ^ (64 * c) * 2 ^ 64" by (simp add: power_add)
  show ?case using IH unfolding up u e p by (simp add: algebra_simps)
qed simp

lemma nth_pval:
  assumes "k < length ws"
  shows "uint (ws ! k) = pval ws div 2 ^ (64 * k) mod 2 ^ 64"
proof -
  have ws: "pval ws = pval (take k ws) + 2 ^ (64 * k) * (uint (ws ! k) + 2 ^ 64 * pval (drop (Suc k) ws))"
    using pval_append [of "take k ws" "ws ! k # drop (Suc k) ws"] assms by (simp add: id_take_nth_drop [symmetric])
  have "pval (take k ws) < 2 ^ (64 * k)" using pval_lt [of "take k ws"] assms by simp
  then have "pval ws div 2 ^ (64 * k) = uint (ws ! k) + 2 ^ 64 * pval (drop (Suc k) ws)" unfolding ws by simp
  then show ?thesis using uint_ulong_lt [of "ws ! k"] by simp
qed

lemma pval_map_not: "pval (map (\<lambda>w. NOT w) d) = 2 ^ (64 * length d) - 1 - pval d"
proof (induction d)
  case (Cons w d)
  have "uint (NOT w) = 2 ^ 64 - 1 - uint w"
    by (simp add: unsigned_not_eq take_bit_not_eq_mask_diff mask_eq_exp_minus_1 take_bit_int_eq_self uint_ulong_lt [simplified])
  with Cons show ?case by (simp add: algebra_simps power_add)
qed simp

lemma pval_not: "pval (map (\<lambda>i. NOT (d ! i)) [0..<length d]) = 2 ^ (64 * length d) - 1 - pval d"
proof -
  have "map (\<lambda>i. NOT (d ! i)) [0..<length d] = map (\<lambda>w. NOT w) d" by (rule nth_equalityI) simp_all
  then show ?thesis by (simp add: pval_map_not)
qed

lemma upt_shift: "map (\<lambda>i. f (i - c)) [c..<c + n] = map f [0..<n]"
  by (rule nth_equalityI) simp_all

lemma multiply_array_imm:
  assumes "n \<le> length val"
  shows "length (multiply_array_imm val n imm) = n \<and> pval (multiply_array_imm val n imm) = pval val * uint imm mod 2 ^ (64 * n)"
proof -
  define step where "step = (\<lambda>res k. let (tmp, sum) = multiply_with_carry (val ! k) imm in
     snd (carry_loop (\<lambda>idx. if idx = k then tmp else if idx = k + 1 then sum else 0) [k..<n] 0 res))"
  have "length (foldl step (replicate n 0) [0..<k]) = n
    \<and> pval (foldl step (replicate n 0) [0..<k]) mod 2 ^ (64 * n) = pval (take k val) * uint imm mod 2 ^ (64 * n)" if "k \<le> n" for k
    using that
  proof (induction k)
    case (Suc k)
    let ?res = "foldl step (replicate n 0) [0..<k]"
    obtain tmp sum where ts: "multiply_with_carry (val ! k) imm = (tmp, sum)" by fastforce
    let ?f = "\<lambda>idx. if idx = k then tmp else if idx = k + 1 then sum else 0"
    obtain cy res where res: "carry_loop ?f [k..<n] 0 ?res = (cy, res)" by fastforce
    have m: "uint tmp + 2 ^ 64 * uint sum = uint (val ! k) * uint imm" using arg_cong [OF multiply_with_carry_exact [OF ts], of int] by simp
    have r: "length res = n" "pval res + 2 ^ (64 * n) * uint cy = pval ?res + 2 ^ (64 * k) * pval (map ?f [k..<n])"
      using carry_loop [OF _ _ _ res] Suc by auto
    have rest: "map ?f [Suc (Suc k)..<n] = replicate (n - Suc (Suc k)) 0" by (rule nth_equalityI) simp_all
    have f: "(2 ^ (64 * k) * pval (map ?f [k..<n])) mod 2 ^ (64 * n) = (2 ^ (64 * k) * (uint tmp + 2 ^ 64 * uint sum)) mod 2 ^ (64 * n)"
    proof (cases "Suc k < n")
      case True
      then have "[k..<n] = k # Suc k # [Suc (Suc k)..<n]" by (simp add: upt_conv_Cons)
      with rest show ?thesis by simp
    next
      case False
      then have n: "n = Suc k" using Suc.prems by simp
      have "2 ^ (64 * k) * (uint tmp + 2 ^ 64 * uint sum) = 2 ^ (64 * k) * uint tmp + 2 ^ (64 * n) * uint sum"
        by (simp add: n algebra_simps power_add)
      then show ?thesis by (simp add: n)
    qed
    have "pval res mod 2 ^ (64 * n) = (pval ?res + 2 ^ (64 * k) * pval (map ?f [k..<n])) mod 2 ^ (64 * n)"
      using r(2) by (metis mod_mult_self2)
    also have "\<dots> = (pval (take k val) * uint imm + 2 ^ (64 * k) * (uint tmp + 2 ^ 64 * uint sum)) mod 2 ^ (64 * n)"
      by (rule mod_add_cong [OF Suc.IH [OF Suc_leD [OF Suc.prems], THEN conjunct2] f])
    also have "\<dots> = pval (take (Suc k) val) * uint imm mod 2 ^ (64 * n)"
    proof -
      have "pval (take (Suc k) val) = pval (take k val) + 2 ^ (64 * k) * uint (val ! k)" using Suc.prems assms by (intro pval_take_Suc) simp
      then show ?thesis unfolding m by (simp only: distrib_right mult.assoc)
    qed
    finally have "pval res mod 2 ^ (64 * n) = pval (take (Suc k) val) * uint imm mod 2 ^ (64 * n)" .
    moreover have "step ?res k = res" unfolding step_def ts Let_def prod.case using res by (simp add: step_def)
    ultimately show ?case using r(1) by simp
  qed simp
  from this [of n] have len: "length (multiply_array_imm val n imm) = n"
    and v: "pval (multiply_array_imm val n imm) mod 2 ^ (64 * n) = pval (take n val) * uint imm mod 2 ^ (64 * n)"
    unfolding multiply_array_imm_def step_def by simp_all
  have "pval val = pval (take n val) + 2 ^ (64 * n) * pval (drop n val)" using pval_append [of "take n val" "drop n val"] assms by simp
  then have "pval val * uint imm = pval (take n val) * uint imm + 2 ^ (64 * n) * (pval (drop n val) * uint imm)" by (simp add: algebra_simps)
  then have "pval val * uint imm mod 2 ^ (64 * n) = pval (take n val) * uint imm mod 2 ^ (64 * n)" by (metis mod_mult_self2)
  with v len pval_lt [of "multiply_array_imm val n imm"] show ?thesis by simp
qed

section \<open>A digit\<close>

lemma pval_take:
  assumes "n \<le> length ws" and "pval ws < 2 ^ (64 * n)"
  shows "pval (map (\<lambda>i. ws ! i) [0..<n]) = pval ws"
proof -
  have ws: "pval ws = pval (take n ws) + 2 ^ (64 * n) * pval (drop n ws)" using pval_append [of "take n ws" "drop n ws"] assms(1) by simp
  have "pval (take n ws) = pval ws mod 2 ^ (64 * n)" unfolding ws using pval_lt [of "take n ws"] assms(1) by simp
  also have "\<dots> = pval ws" using assms(2) by simp
  finally have "pval (take n ws) = pval ws" .
  moreover have "map (\<lambda>i. ws ! i) [0..<n] = take n ws" using assms(1) by (intro nth_equalityI) simp_all
  ultimately show ?thesis by simp
qed

lemma div_less_digit: "0 < D \<Longrightarrow> R < m * D \<Longrightarrow> R div D < (m :: int)"
  by (metis div_mult_mod_eq linorder_not_le mult_right_mono order.strict_iff_not pos_mod_sign add_increasing2 less_imp_le)

lemma div_ge_digit: "0 < D \<Longrightarrow> m * D \<le> R \<Longrightarrow> (m :: int) \<le> R div D"
  using zdiv_mono1 [of "m * D" R D] by simp

lemma add_back:
  assumes len: "length bp = words" "c \<le> words" and D: "D = pval bp * 2 ^ (64 * c)" "D > 0" "pval bp < 2 ^ (64 * (words - c))"
    and "length ap = words" and "pval ap = R + 2 ^ (64 * words) - k * D" and "R \<ge> 0" and "R div D < k"
  shows "\<exists>ap'. add_back bp words c (word_of_int k) ap = Some (word_of_int (R div D), ap') \<and> length ap' = words \<and> pval ap' = R mod D"
  using assms(6,7,9)
proof (induction "nat (k - R div D)" arbitrary: k ap rule: less_induct)
  case less
  obtain cy ap1 where loop: "carry_loop (\<lambda>idx. bp ! (idx - c)) [c..<words] 0 ap = (cy, ap1)" by fastforce
  have "pval (map (\<lambda>idx. bp ! (idx - c)) [c..<words]) = pval bp"
    using upt_shift [of "\<lambda>i. bp ! i" c "words - c"] pval_take [of "words - c" bp] D(3) len by simp
  with carry_loop [OF less.prems(1) len(2) _ loop] have cl: "length ap1 = words" "uint cy \<le> 1"
    "pval ap1 + 2 ^ (64 * words) * uint cy = R + 2 ^ (64 * words) - (k - 1) * D"
    using less.prems(2) by (auto simp: D(1) algebra_simps)
  have lt: "pval ap1 < 2 ^ (64 * words)" using pval_lt [of ap1] cl(1) by simp
  have k: "word_of_int k - 1 = (word_of_int (k - 1) :: ulong)" by (simp add: wi_hom_sub)
  show ?case
  proof (cases "cy = 0")
    case True
    then have ap1: "pval ap1 = R + 2 ^ (64 * words) - (k - 1) * D" using cl(3) by simp
    then have "R < (k - 1) * D" using lt by linarith
    then have q: "R div D < k - 1" by (rule div_less_digit [OF D(2)])
    have "nat (k - 1 - R div D) < nat (k - R div D)" using q by simp
    from less.hyps [OF this cl(1) ap1 q] obtain ap' where
      "add_back bp words c (word_of_int (k - 1)) ap1 = Some (word_of_int (R div D), ap')" "length ap' = words" "pval ap' = R mod D" by blast
    moreover have "add_back bp words c (word_of_int k) ap = add_back bp words c (word_of_int (k - 1)) ap1"
      by (subst add_back.simps) (simp only: loop True k prod.case simp_thms if_True)
    ultimately show ?thesis by metis
  next
    case False
    then have "uint cy = 1" using cl(2) by (metis int_one_le_iff_zero_less order_antisym uint_0_iff uint_ge_0 order_less_le)
    then have ap1: "pval ap1 = R - (k - 1) * D" using cl(3) by simp
    then have "(k - 1) * D \<le> R" using pval_nonneg [of ap1] by linarith
    then have "k - 1 \<le> R div D" by (rule div_ge_digit [OF D(2)])
    then have kq: "k - 1 = R div D" using less.prems(3) by simp
    then have "pval ap1 = R mod D" using ap1 by (simp add: minus_div_mult_eq_mod)
    then show ?thesis using False cl(1) kq by (subst add_back.simps) (simp add: loop k)
  qed
qed

text \<open>The top word of the divisor is the word at \<open>btop\<close>.\<close>

definition has_top :: "plane \<Rightarrow> nat \<Rightarrow> bool" where
  "has_top bp btop \<longleftrightarrow> btop < length bp \<and> bp ! btop \<noteq> 0 \<and> pval bp < 2 ^ (64 * (btop + 1))"

lemma has_top:
  assumes "has_top bp btop"
  shows "uint (bp ! btop) = pval bp div 2 ^ (64 * btop)" and "uint (bp ! btop) > 0" and "uint (bp ! btop) * 2 ^ (64 * btop) \<le> pval bp"
    and "pval bp < (uint (bp ! btop) + 1) * 2 ^ (64 * btop)"
proof -
  let ?P = "2 ^ (64 * btop) :: int"
  have "pval bp div ?P < 2 ^ 64" by (rule div_less_digit) (use assms in \<open>simp_all add: has_top_def power_add\<close>)
  then show u: "uint (bp ! btop) = pval bp div ?P" using nth_pval [of btop bp] assms by (simp add: has_top_def div_int_pos_iff)
  show "uint (bp ! btop) > 0" using assms by (simp add: has_top_def word_gt_0 word_less_def flip: uint_0_iff) (metis order_le_less uint_0_iff uint_ge_0)
  have "pval bp = pval bp div ?P * ?P + pval bp mod ?P" "0 \<le> pval bp mod ?P" "pval bp mod ?P < ?P" by (rule div_mult_mod_eq [symmetric]) simp_all
  then show "uint (bp ! btop) * ?P \<le> pval bp" "pval bp < (uint (bp ! btop) + 1) * ?P" unfolding u distrib_right by linarith+
qed

text \<open>The two words the guess is made from.\<close>

lemma two_words:
  assumes "length ap = words" and "k < words" and "pval ap < 2 ^ (64 * (k + 2))"
  shows "uint (if k + 1 < words then ap ! (k + 1) else 0) * 2 ^ 64 + uint (ap ! k) = pval ap div 2 ^ (64 * k)"
proof -
  let ?V = "pval ap div 2 ^ (64 * k)"
  have lt: "?V < 2 ^ 64 * 2 ^ 64" by (rule div_less_digit) (use assms(3) in \<open>simp_all add: power_add\<close>)
  have lo: "uint (ap ! k) = ?V mod 2 ^ 64" using nth_pval assms(1,2) by blast
  have "uint (if k + 1 < words then ap ! (k + 1) else 0) = ?V div 2 ^ 64"
  proof (cases "k + 1 < words")
    case True
    have "?V div 2 ^ 64 < 2 ^ 64" by (rule div_less_digit) (use lt in simp_all)
    moreover have "pval ap div 2 ^ (64 * (k + 1)) = ?V div 2 ^ 64" by (simp add: zdiv_zmult2_eq power_add mult.commute)
    ultimately show ?thesis using nth_pval [of "k + 1" ap] True assms(1) by (simp add: div_int_pos_iff)
  next
    case False
    then have "words = k + 1" using assms(2) by simp
    then have "pval ap < 2 ^ 64 * 2 ^ (64 * k)" using pval_lt [of ap] assms(1) by (simp add: power_add)
    then have "?V < 2 ^ 64" by (intro div_less_digit) simp_all
    then show ?thesis using False by (simp add: div_int_pos_iff)
  qed
  with lo show ?thesis by simp
qed

lemma guess_digit:
  assumes "length ap = words" and top: "has_top bp btop" and c: "c + btop < words" and R: "pval ap < pval bp * 2 ^ (64 * (c + 1))"
    and G: "G = pval ap div 2 ^ (64 * (c + btop)) div uint (bp ! btop)" "G < 2 ^ 64"
  shows "guess_digit ap bp words btop c = Some (word_of_int G) \<or> guess_digit ap bp words btop c = None \<and> G = 0"
proof -
  let ?k = "c + btop" let ?h = "if ?k + 1 < words then ap ! (?k + 1) else 0"
  have "pval bp * 2 ^ (64 * (c + 1)) \<le> 2 ^ (64 * (btop + 1)) * 2 ^ (64 * (c + 1))" using top by (intro mult_right_mono) (simp_all add: has_top_def)
  also have "\<dots> = 2 ^ (64 * (?k + 2))" by (simp add: algebra_simps flip: power_add)
  finally have V: "uint ?h * 2 ^ 64 + uint (ap ! ?k) = pval ap div 2 ^ (64 * ?k)" using two_words [OF assms(1) c] R by simp
  have b: "bp ! btop \<noteq> 0" using top by (simp add: has_top_def)
  have d: "divide2words (ap ! ?k) (bp ! btop) ?h = word_of_int G"
    using divide2words [OF b, of ?h "ap ! ?k"] G unfolding V by (metis word_of_int_uint)
  have "G = 0" if "?h = 0" "ap ! ?k < bp ! btop" 
  proof -
    have "pval ap div 2 ^ (64 * ?k) = uint (ap ! ?k)" using V unfolding that(1) by simp
    with that(2) show ?thesis unfolding G(1) by (simp add: word_less_def div_pos_pos_trivial)
  qed
  then show ?thesis using d unfolding guess_digit_def by (auto split: if_splits)
qed

lemma divide_step:
  assumes len: "length ap = words" "length bp = words" "length result = words" and top: "has_top bp btop" and c: "c + btop < words"
    and R: "pval ap < pval bp * 2 ^ (64 * (c + 1))" and G: "G = pval ap div 2 ^ (64 * (c + btop)) div uint (bp ! btop)" "G < 2 ^ 64"
    and fit: "G * pval bp * 2 ^ (64 * c) < 2 ^ (64 * words)" and zero: "result ! c = 0" and D: "D = pval bp * 2 ^ (64 * c)"
  shows "\<exists>ap'. divide_step bp words btop c (ap, result) = Some (ap', result[c := word_of_int (pval ap div D)]) \<and> length ap' = words \<and> pval ap' = pval ap mod D"
proof -
  let ?R = "pval ap" and ?N = "2 ^ (64 * words) :: int" and ?t = "uint (bp ! btop)" and ?n = "words - c"
  note t = has_top [OF top]
  have c': "c < words" "c \<le> words" using c by simp_all
  have B: "pval bp > 0" by (rule less_le_trans [OF mult_pos_pos [OF t(2)] t(3)]) simp
  then have D0: "D > 0" by (simp add: D)
  have "?R div D * ?t * 2 ^ (64 * (c + btop)) \<le> ?R div D * D"
  proof -
    have "?t * 2 ^ (64 * btop) * 2 ^ (64 * c) \<le> D" unfolding D using t(3) by (intro mult_right_mono) simp_all
    then have "?R div D * (?t * 2 ^ (64 * btop) * 2 ^ (64 * c)) \<le> ?R div D * D" using D0 by (intro mult_left_mono) (simp_all add: div_int_pos_iff)
    then show ?thesis by (simp add: algebra_simps power_add)
  qed
  also have "\<dots> \<le> ?R" using D0 by (simp add: algebra_simps flip: minus_mod_eq_mult_div)
  finally have "?R div D * ?t \<le> ?R div 2 ^ (64 * (c + btop))" by (intro div_ge_digit) simp_all
  then have qG: "?R div D \<le> G" unfolding G(1) by (rule div_ge_digit [OF t(2)])
  have q0: "0 \<le> ?R div D" using D0 by (simp add: div_int_pos_iff)
  from guess_digit [OF len(1) top c R G] consider "guess_digit ap bp words btop c = Some (word_of_int G)" | "guess_digit ap bp words btop c = None" "G = 0"
    by (elim disjE conjE) simp_all
  then show ?thesis
  proof cases
    case 1
    have bn: "pval bp < 2 ^ (64 * ?n)"
    proof -
      have "pval bp < 2 ^ (64 * (btop + 1))" using top by (simp add: has_top_def)
      also have "\<dots> \<le> 2 ^ (64 * ?n)" using c by (intro power_increasing) simp_all
      finally show ?thesis .
    qed
    have N: "?N = 2 ^ (64 * ?n) * 2 ^ (64 * c)" using c' by (simp flip: power_add add_mult_distrib2)
    define diff where "diff = multiply_array_imm bp ?n (word_of_int G)"
    have "uint (word_of_int G :: ulong) = G" using G(2) qG q0 by (simp add: uint_word_of_int take_bit_int_eq_self)
    moreover have "pval bp * G < 2 ^ (64 * ?n)" using fit unfolding N by (simp add: mult.commute)
    ultimately have diff: "length diff = ?n" "pval diff = G * pval bp"
      using multiply_array_imm [of ?n bp "word_of_int G"] len(2) qG q0 B unfolding diff_def by (simp_all add: mult.commute)
    obtain cy ap1 where loop: "carry_loop (\<lambda>idx. NOT (diff ! (idx - c))) [c..<words] 1 ap = (cy, ap1)" by fastforce
    have "pval (map (\<lambda>idx. NOT (diff ! (idx - c))) [c..<words]) = 2 ^ (64 * ?n) - 1 - G * pval bp"
      using upt_shift [of "\<lambda>i. NOT (diff ! i)" c ?n] pval_not [of diff] diff c' by simp
    with carry_loop [OF len(1) c'(2) _ loop] have cl: "length ap1 = words" "uint cy \<le> 1" "pval ap1 + ?N * uint cy = ?R + ?N - G * D"
      unfolding N D by (auto simp: algebra_simps)
    have lt: "pval ap1 < ?N" using pval_lt [of ap1] cl(1) by simp
    have st: "divide_step bp words btop c (ap, result) = map_option (\<lambda>(cur_res, ap). (ap, result[c := cur_res]))
        (if cy AND 1 = 0 then add_back bp words c (word_of_int G) ap1 else Some (word_of_int G, ap1))"
      unfolding divide_step_def by (simp add: 1 diff_def [symmetric] loop)
    show ?thesis
    proof (cases "uint cy = 0")
      case True
      then have ap1: "pval ap1 = ?R + ?N - G * D" using cl(3) by simp
      then have "?R < G * D" using lt by linarith
      then have "?R div D < G" by (rule div_less_digit [OF D0])
      from add_back [OF len(2) c'(2) D D0 bn cl(1) ap1 pval_nonneg this] True show ?thesis unfolding st by (auto simp: uint_0_iff)
    next
      case False
      then have "uint cy = 1" using cl(2) uint_ge_0 [of cy] by linarith
      then have one: "cy = 1" "pval ap1 = ?R - G * D" using cl(3) by (simp_all add: word_uint_eq_iff)
      then have "G * D \<le> ?R" using pval_nonneg [of ap1] by linarith
      then have "G \<le> ?R div D" by (rule div_ge_digit [OF D0])
      then have Gq: "G = ?R div D" using qG by simp
      then have "pval ap1 = ?R mod D" using one(2) by (simp add: minus_div_mult_eq_mod)
      then show ?thesis unfolding st using one(1) cl(1) by (simp flip: Gq)
    qed
  next
    case 2
    then have "?R div D = 0" using qG q0 by simp
    moreover from this have "?R mod D = ?R" using div_mult_mod_eq [of ?R D] by simp
    moreover have "result[c := 0] = result" using zero by (metis list_update_id)
    ultimately show ?thesis using 2 len by (simp add: divide_step_def)
  qed
qed

section \<open>Division\<close>

text \<open>
  When every digit can be guessed: the divisor has one word, or the dividend has no more words than the divisor and its top bit is
  clear.  In other cases the guess may be a whole word too large, or its product with the divisor may not fit the array.
\<close>

definition digits_ok :: "nat \<Rightarrow> int \<Rightarrow> int \<Rightarrow> bool" where
  "digits_ok words a b \<longleftrightarrow> b < 2 ^ 64 \<or> list_ex (\<lambda>k. 2 ^ (64 * k) \<le> b \<and> a < 2 ^ (64 * (k + 1))) [0..<words] \<and> 2 * a \<le> 2 ^ (64 * words)"

lemma digits_ok_cases:
  assumes "digits_ok words a (pval bp)" and "has_top bp btop"
  shows "btop = 0 \<or> a < 2 ^ (64 * (btop + 1)) \<and> 2 * a \<le> 2 ^ (64 * words)"
proof (cases "pval bp < 2 ^ 64")
  case True
  have "1 * 2 ^ (64 * btop) \<le> uint (bp ! btop) * 2 ^ (64 * btop)" by (rule mult_right_mono) (use has_top(2) [OF assms(2)] in simp_all)
  then have "(2 :: int) ^ (64 * btop) < 2 ^ (64 * 1)" using has_top(3) [OF assms(2)] True by (simp only: mult_1_left mult_1_right)
  then have "64 * btop < 64 * 1" by (rule power_less_imp_less_exp [rotated]) simp
  then show ?thesis by simp
next
  case False
  with assms(1) obtain k where k: "2 ^ (64 * k) \<le> pval bp" "a < 2 ^ (64 * (k + 1))" "2 * a \<le> 2 ^ (64 * words)" by (auto simp: digits_ok_def list_ex_iff)
  have "(2 :: int) ^ (64 * k) < 2 ^ (64 * (btop + 1))" using le_less_trans [OF k(1)] assms(2) unfolding has_top_def by blast
  then have "64 * k < 64 * (btop + 1)" by (rule power_less_imp_less_exp [rotated]) simp
  then have "(2 :: int) ^ (64 * (k + 1)) \<le> 2 ^ (64 * (btop + 1))" by (intro power_increasing) simp_all
  with k show ?thesis using less_le_trans by blast
qed

lemma guess_fits:
  assumes "has_top bp btop" and "btop = 0 \<or> A < 2 ^ (64 * (btop + 1)) \<and> 2 * A \<le> 2 ^ (64 * words)" and "0 \<le> R" and "R \<le> A"
    and "R < pval bp * 2 ^ (64 * (c + 1))" and "R < 2 ^ (64 * words)" and G: "G = R div 2 ^ (64 * (c + btop)) div uint (bp ! btop)"
  shows "G < 2 ^ 64 \<and> G * pval bp * 2 ^ (64 * c) < 2 ^ (64 * words)"
proof -
  let ?t = "uint (bp ! btop)" and ?P = "2 ^ (64 * (c + btop)) :: int"
  note t = has_top [OF assms(1)]
  have G0: "0 \<le> G" unfolding G using assms(3) t(2) by (simp add: div_int_pos_iff)
  have "G * ?t \<le> R div ?P" unfolding G using t(2) by (metis add.commute div_mult_mod_eq le_add_same_cancel2 pos_mod_sign)
  moreover have "R div ?P * ?P \<le> R" by (metis add.commute div_mult_mod_eq le_add_same_cancel2 pos_mod_sign zero_less_numeral zero_less_power)
  ultimately have GR: "G * ?t * ?P \<le> R" using mult_right_mono [of "G * ?t" "R div ?P" ?P] by (meson order_trans zero_le_numeral zero_le_power)
  show ?thesis
  proof (cases "btop = 0")
    case True
    have B: "pval bp = ?t" using t(1) True by simp
    have "R div ?P < 2 ^ 64 * ?t"
      by (rule div_less_digit) (use assms(5) True B in \<open>simp_all add: power_add algebra_simps\<close>)
    then have "G < 2 ^ 64" unfolding G by (rule div_less_digit [OF t(2)])
    moreover have "G * pval bp * 2 ^ (64 * c) \<le> R" using GR True B by simp
    ultimately show ?thesis using assms(6) by simp
  next
    case False
    with assms(2) have A: "A < 2 ^ (64 * (btop + 1))" "2 * A \<le> 2 ^ (64 * words)" by simp_all
    have "R div ?P < 2 ^ 64"
    proof (rule div_less_digit)
      have "(2 :: int) ^ (64 * (btop + 1)) \<le> 2 ^ (64 * (c + btop + 1))" by (intro power_increasing) simp_all
      also have "\<dots> = 2 ^ 64 * ?P" by (simp add: power_add)
      finally show "R < 2 ^ 64 * ?P" using A(1) assms(4) by linarith
    qed simp
    moreover have "G \<le> G * ?t" using G0 t(2) by (simp add: mult_le_cancel_left1)
    ultimately have lt: "G < 2 ^ 64" using \<open>G * ?t \<le> R div ?P\<close> by linarith
    have "G * pval bp * 2 ^ (64 * c) < 2 ^ (64 * words)"
    proof (cases "G = 0")
      case False
      with G0 have Gp: "G > 0" by simp
      have "G * pval bp * 2 ^ (64 * c) < G * ((?t + 1) * 2 ^ (64 * btop)) * 2 ^ (64 * c)" using t(4) Gp by (intro mult_strict_right_mono mult_strict_left_mono) simp_all
      also have "\<dots> = G * (?t + 1) * ?P" by (simp add: power_add algebra_simps)
      also have "\<dots> \<le> G * (2 * ?t) * ?P" using Gp t(2) by (intro mult_right_mono mult_left_mono) simp_all
      also have "\<dots> = 2 * (G * ?t * ?P)" by simp
      also have "\<dots> \<le> 2 * A" using GR assms(4) by linarith
      finally show ?thesis using A(2) by linarith
    qed simp
    with lt show ?thesis by simp
  qed
qed

lemma top_nonzero:
  assumes "length bp = Suc n" and "pval bp \<noteq> 0"
  shows "has_top bp (top_nonzero bp n)"
proof -
  have "has_top bp (top_nonzero bp k)" if "k \<le> n" "pval bp < 2 ^ (64 * (k + 1))" for k
    using that
  proof (induction k)
    case 0
    then have "uint (bp ! 0) = pval bp" using nth_pval [of 0 bp] assms(1) by simp
    then have "bp ! 0 \<noteq> 0" using assms(2) by auto
    with 0 assms(1) show ?case by (simp add: has_top_def)
  next
    case (Suc k)
    show ?case
    proof (cases "bp ! Suc k = 0")
      case True
      have "pval bp div 2 ^ (64 * Suc k) < 2 ^ 64" by (rule div_less_digit) (use Suc.prems(2) in \<open>simp_all add: power_add\<close>)
      then have "pval bp div 2 ^ (64 * Suc k) = 0" using nth_pval [of "Suc k" bp] True assms(1) Suc.prems(1) by (simp add: div_int_pos_iff)
      then have "pval bp < 2 ^ (64 * Suc k)" by (metis div_mult_mod_eq mult_zero_left add_0 pos_mod_bound zero_less_numeral zero_less_power)
      with Suc True show ?thesis by simp
    qed (use Suc.prems assms(1) in \<open>simp add: has_top_def\<close>)
  qed
  from this [of n] pval_lt [of bp] assms(1) show ?thesis by simp
qed

lemma divide_loop:
  assumes len: "length bp = words" and top: "has_top bp btop" and ok: "btop = 0 \<or> A < 2 ^ (64 * (btop + 1)) \<and> 2 * A \<le> 2 ^ (64 * words)"
    and A: "0 \<le> A" "A < 2 ^ (64 * words)" and n: "n + btop \<le> words"
    and st: "length ap = words" "length result = words" "pval ap = A mod (pval bp * 2 ^ (64 * n))"
      "pval result = A div (pval bp * 2 ^ (64 * n)) * 2 ^ (64 * n)" "\<And>i. i < n \<Longrightarrow> result ! i = 0"
  shows "\<exists>ap' result'. for_each (divide_step bp words btop) (rev [0..<n]) (ap, result) = Some (ap', result') \<and> length ap' = words
    \<and> length result' = words \<and> pval ap' = A mod pval bp \<and> pval result' = A div pval bp"
  using n st
proof (induction n arbitrary: ap result)
  case (Suc c)
  let ?B = "pval bp" and ?D = "pval bp * 2 ^ (64 * c)" and ?R = "pval ap"
  note t = has_top [OF top]
  have B: "?B > 0" by (rule less_le_trans [OF mult_pos_pos [OF t(2)] t(3)]) simp
  define E where "E = ?B * 2 ^ (64 * Suc c)"
  have E: "E = ?D * 2 ^ 64" "E > 0" using B by (simp_all add: E_def power_add)
  have RA: "?R = A mod E" using Suc.prems(4) by (simp add: E_def)
  have R: "?R < E" "?R \<le> A" using RA E(2) A(1) by (simp_all add: zmod_le_nonneg_dividend)
  have c: "c + btop < words" using Suc.prems(1) by simp
  define G where "G = ?R div 2 ^ (64 * (c + btop)) div uint (bp ! btop)"
  have G: "G < 2 ^ 64" "G * ?B * 2 ^ (64 * c) < 2 ^ (64 * words)"
    using guess_fits [OF top ok pval_nonneg R(2) _ _ G_def] R(1) R(2) A(2) by (simp_all add: E_def)
  from divide_step [OF Suc.prems(2) len Suc.prems(3) top c _ G_def G(1) _ _ refl] R(1) G(2) Suc.prems(6) [of c]
  obtain ap' where s: "divide_step bp words btop c (ap, result) = Some (ap', result[c := word_of_int (?R div ?D)])" "length ap' = words" "pval ap' = ?R mod ?D"
    by (auto simp: E_def)
  have q: "0 \<le> ?R div ?D" "?R div ?D < 2 ^ 64" using B R(1) E(1) by (simp_all add: div_int_pos_iff div_less_digit mult.commute)
  then have u: "uint (word_of_int (?R div ?D) :: ulong) = ?R div ?D" by (simp add: uint_word_of_int take_bit_int_eq_self)
  have m: "?R mod ?D = A mod ?D" unfolding RA E(1) by (simp add: mod_mod_cancel)
  have d: "A div ?D = A div E * 2 ^ 64 + ?R div ?D"
  proof -
    have "A = ?R + ?D * (A div E * 2 ^ 64)" using div_mult_mod_eq [of A E] unfolding RA E(1) by (simp add: algebra_simps)
    then have "A div ?D = (?R + ?D * (A div E * 2 ^ 64)) div ?D" by simp
    also have "\<dots> = A div E * 2 ^ 64 + ?R div ?D" using B by (intro div_mult_self2) simp
    finally show ?thesis .
  qed
  have "pval (result[c := word_of_int (?R div ?D)]) = pval result + 2 ^ (64 * c) * (?R div ?D)"
    using Suc.prems(3) c Suc.prems(6) [of c] by (simp add: pval_update u)
  also have "\<dots> = A div ?D * 2 ^ (64 * c)" unfolding d Suc.prems(5) E_def [symmetric] by (simp add: algebra_simps power_add)
  finally have v: "pval (result[c := word_of_int (?R div ?D)]) = A div ?D * 2 ^ (64 * c)" .
  from Suc.IH [OF _ s(2) _ _ v] s(3) m Suc.prems show ?case by (simp add: s(1))
qed simp

theorem divide_bits:
  assumes "length ap = words_for wid" and "length bp = words_for wid" and "0 < wid" and "digits_ok (words_for wid) (pval ap) (pval bp)"
  shows "\<exists>q r. divide_bits ap bp wid = Some (if pval bp = 0 then None else Some (q, r)) \<and> length q = words_for wid \<and> length r = words_for wid
    \<and> (pval bp \<noteq> 0 \<longrightarrow> pval q = pval ap div pval bp \<and> pval r = pval ap mod pval bp)"
proof -
  obtain n where n: "words_for wid = Suc n" using assms(3) words_for_step by blast
  let ?btop = "top_nonzero bp n"
  show ?thesis
  proof (cases "pval bp = 0")
    case True
    then have z: "bp = replicate (Suc n) 0" using assms(2) n by (intro pval_inj) simp_all
    have "top_nonzero (replicate (Suc n) 0) k = 0" if "k \<le> n" for k using that by (induction k) simp_all
    then have "?btop = 0" by (simp add: z)
    then have "divide_bits ap bp wid = Some None" using z n by (simp add: divide_bits_def)
    then show ?thesis using True assms(1,2) by auto
  next
    case False
    have top: "has_top bp ?btop" by (rule top_nonzero) (use assms(2) n False in simp_all)
    let ?m = "Suc n - ?btop"
    have b: "?btop \<le> n" using top assms(2) n by (simp add: has_top_def)
    have "pval ap < 2 ^ (64 * Suc n)" using pval_lt [of ap] assms(1) n by simp
    also have "\<dots> = 2 ^ (64 * ?btop) * 2 ^ (64 * ?m)" using b by (simp flip: power_add add_mult_distrib2)
    also have "\<dots> \<le> pval bp * 2 ^ (64 * ?m)"
    proof (rule mult_right_mono)
      have "1 * 2 ^ (64 * ?btop) \<le> uint (bp ! ?btop) * 2 ^ (64 * ?btop)" by (rule mult_right_mono) (use has_top(2) [OF top] in simp_all)
      then show "2 ^ (64 * ?btop) \<le> pval bp" using has_top(3) [OF top] by linarith
    qed simp
    finally have big: "pval ap < pval bp * 2 ^ (64 * ?m)" .
    have "\<exists>ap' result'. for_each (divide_step bp (Suc n) ?btop) (rev [0..<?m]) (ap, replicate (Suc n) 0) = Some (ap', result')
      \<and> length ap' = Suc n \<and> length result' = Suc n \<and> pval ap' = pval ap mod pval bp \<and> pval result' = pval ap div pval bp"
    proof (rule divide_loop [OF _ top])
      show "?btop = 0 \<or> pval ap < 2 ^ (64 * (?btop + 1)) \<and> 2 * pval ap \<le> 2 ^ (64 * Suc n)" using digits_ok_cases [OF assms(4) top] n by simp
    qed (use assms n b big pval_lt [of ap] in \<open>simp_all add: nth_Cons'\<close>)
    moreover have "\<not> (?btop = 0 \<and> bp ! 0 = 0)" using top by (auto simp: has_top_def)
    ultimately show ?thesis using False n by (auto simp: divide_bits_def)
  qed
qed

text \<open>Outside of \<open>digits_ok\<close> the loop loses digits.  The product of the guess with the divisor is cut to the words of the
  operands: for 128 bits, \<open>2^128 - 1\<close> by \<open>2^65 - 1\<close> gives \<open>2^64 - 1\<close>, where the quotient is \<open>2^63\<close>.  And the guess itself is cut to one word: for
  129 bits, \<open>2^128\<close> by \<open>2^65 - 1\<close> gives 0, although \<^verbatim>\<open>divide2words\<close> is meant to be called with a high word below the divisor.\<close>

lemma divide_bits_product_wraps:
  "divide_bits [- 1, - 1] [- 1, 1] 128 = Some (Some ([- 1, 0], [- 2, 2]))"
  "pval [- 1, - 1] div pval [- 1, 1] = 2 ^ 63"
  by code_simp+

lemma divide_bits_guess_wraps:
  "divide_bits [0, 0, 1] [- 1, 1, 0] 129 = Some (Some ([0, 0, 0], [0, 0, 1]))"
  "pval [0, 0, 1] div pval [- 1, 1, 0] = 2 ^ 63"
  by code_simp+

end
