(* ===== verification/Remainder.thy ===== *)
theory Remainder
  imports Vector4_Value
begin

text \<open>
  The remainder of wide vectors (\<^verbatim>\<open>do_verylong_mod\<close> in \<^verbatim>\<open>src/vvp/vthread.cc\<close>): a restoring division on arrays of bits.  The bits are the
  numbers 0 and 1.
\<close>

section \<open>Definitions\<close>

definition mod_bit :: "vvp_bit4_t \<Rightarrow> nat" where
  "mod_bit b = of_bool (b = BIT4_1)"

text \<open>The two's complement of an operand or of the result, as it is read or written bit by bit.\<close>

fun negate_bits :: "nat \<Rightarrow> nat list \<Rightarrow> nat list" where
  "negate_bits carry [] = []"
| "negate_bits carry (b # bs) = ((1 - b) + carry) mod 2 # negate_bits (if ((1 - b) + carry) div 2 > 0 then 1 else 0) bs"

definition with_sign :: "bool \<Rightarrow> nat list \<Rightarrow> nat list" where
  "with_sign neg bs = (if neg then negate_bits 1 bs else bs)"

fun bit_sum :: "nat \<Rightarrow> nat list \<Rightarrow> nat list \<Rightarrow> nat \<times> nat list" where
  "bit_sum carry (z # zs) (a # as) = (let temp = z + a + carry; (carry, ts) = bit_sum (temp div 2) zs as in (carry, temp mod 2 # ts))"
| "bit_sum carry _ _ = (carry, [])"

text \<open>\<^verbatim>\<open>z\<close> minus the divisor shifted to \<^verbatim>\<open>current\<close>, if it is not negative.\<close>

definition mod_turn :: "nat list \<Rightarrow> nat \<Rightarrow> nat list \<Rightarrow> nat \<Rightarrow> nat list" where
  "mod_turn a copylen z current =
    (let (carry, t) = bit_sum 1 (take copylen (drop current z)) (take copylen a) in
     if carry \<noteq> 0 then take current z @ t @ drop (current + copylen) z else z)"

definition do_verylong_mod :: "vvp_vector4_t \<Rightarrow> vvp_vector4_t \<Rightarrow> bool \<Rightarrow> bool \<Rightarrow> vvp_vector4_t option" where
  "do_verylong_mod vala valb left_is_neg right_is_neg =
    (let len = v4_size vala in
     if list_ex (\<lambda>idx. bit4_is_xz (v4_value vala idx) \<or> bit4_is_xz (v4_value valb idx)) [0..<len] then Some (v4_fill len BIT4_X)
     else
       let z = with_sign left_is_neg (map (\<lambda>idx. mod_bit (v4_value vala idx)) [0..<len]) @ [0];
           a = map (\<lambda>b. 1 - b) (with_sign right_is_neg (map (\<lambda>idx. mod_bit (v4_value valb idx)) [0..<len])) @ [1]
       in case find (\<lambda>i. a ! i = 0) (rev [0..<len]) of
            None \<Rightarrow> Some (v4_fill len BIT4_X)
          | Some mxa \<Rightarrow>
              let z = (case find (\<lambda>i. z ! i \<noteq> 0) (rev [0..<len]) of
                    None \<Rightarrow> z
                  | Some mxz \<Rightarrow> if mxa > mxz then z else foldl (mod_turn a (mxa + 2)) z (rev [0..<mxz - mxa + 1]))
              in for_each (\<lambda>idx tmp. v4_set_bit tmp idx (if with_sign left_is_neg (take len z) ! idx \<noteq> 0 then BIT4_1 else BIT4_0)) [0..<len]
                   (v4_fill len BIT4_X))"

section \<open>Numbers as arrays of bits\<close>

fun nval :: "nat list \<Rightarrow> int" where
  "nval [] = 0"
| "nval (b # bs) = int b + 2 * nval bs"

definition bin :: "nat list \<Rightarrow> bool" where
  "bin bs \<longleftrightarrow> list_all (\<lambda>b. b \<le> 1) bs"

lemma bin_simps [simp]: "bin []" "bin (b # bs) \<longleftrightarrow> b \<le> 1 \<and> bin bs" "bin (as @ bs) \<longleftrightarrow> bin as \<and> bin bs"
  by (simp_all add: bin_def)

lemma bin_take [simp]: "bin bs \<Longrightarrow> bin (take n bs)" "bin bs \<Longrightarrow> bin (drop n bs)"
  by (auto simp: bin_def list_all_iff dest: in_set_takeD in_set_dropD)

lemma nval_append: "nval (as @ bs) = nval as + 2 ^ length as * nval bs"
  by (induction as) simp_all

lemma nval_range: "bin bs \<Longrightarrow> 0 \<le> nval bs \<and> nval bs < 2 ^ length bs"
proof (induction bs)
  case (Cons b bs)
  then have "0 \<le> nval bs" "nval bs + 1 \<le> 2 ^ length bs" by auto
  moreover have "int b \<le> 1" using Cons.prems by simp
  ultimately show ?case by simp
qed simp

lemma nval_split: "n \<le> length bs \<Longrightarrow> nval bs = nval (take n bs) + 2 ^ n * nval (drop n bs)"
  using nval_append [of "take n bs" "drop n bs"] by simp

lemma nval_not: "bin bs \<Longrightarrow> bin (map (\<lambda>b. 1 - b) bs) \<and> nval (map (\<lambda>b. 1 - b) bs) = 2 ^ length bs - 1 - nval bs"
  by (induction bs) (auto simp: algebra_simps)

lemma not_bits: "bin bs \<Longrightarrow> negate_bits 0 bs = map (\<lambda>b. 1 - b) bs"
proof (induction bs)
  case (Cons b bs)
  then have "(1 - b) mod 2 = 1 - b" by (cases b) auto
  with Cons show ?case by auto
qed simp

lemma negate_bits:
  assumes "bin bs"
  shows "bin (negate_bits 1 bs) \<and> length (negate_bits 1 bs) = length bs \<and> nval (negate_bits 1 bs) = (- nval bs) mod 2 ^ length bs"
  using assms
proof (induction bs)
  case (Cons b bs)
  consider "b = 0" | "b = 1" using Cons.prems by fastforce
  then show ?case
  proof cases
    case 1
    have "2 * (- nval bs mod 2 ^ length bs) = (2 * - nval bs) mod (2 * 2 ^ length bs)" by (rule mod_mult_mult1 [symmetric])
    with Cons 1 show ?thesis by simp
  next
    case 2
    have "bin bs" using Cons.prems by simp
    note r = nval_range [OF this] nval_not [OF this] not_bits [OF this]
    have "(- (1 + 2 * nval bs)) mod (2 * 2 ^ length bs) = (- (1 + 2 * nval bs) + 2 * 2 ^ length bs) mod (2 * 2 ^ length bs)" by simp
    also have "\<dots> = 2 * 2 ^ length bs - 1 - 2 * nval bs" using r(1) by (subst mod_pos_pos_trivial) auto
    finally show ?thesis using r 2 by simp
  qed
qed simp

lemma with_sign:
  assumes "bin bs"
  shows "bin (with_sign neg bs) \<and> length (with_sign neg bs) = length bs \<and> nval (with_sign neg bs) = (if neg then - nval bs else nval bs) mod 2 ^ length bs"
  using negate_bits [OF assms] nval_range [OF assms] assms by (simp add: with_sign_def)

lemma bit_sum:
  assumes "bin zs" and "bin as" and "length zs = length as" and "c \<le> 1" and "bit_sum c zs as = (carry, ts)"
  shows "bin ts \<and> length ts = length zs \<and> carry \<le> 1 \<and> nval ts + 2 ^ length zs * int carry = nval zs + nval as + int c"
  using assms
proof (induction c zs as arbitrary: carry ts rule: bit_sum.induct)
  case (1 c z zs a as)
  let ?temp = "z + a + c"
  obtain cy us where s: "bit_sum (?temp div 2) zs as = (cy, us)" by fastforce
  have "?temp div 2 \<le> 1" using "1.prems" by auto
  with "1.IH" [OF refl] "1.prems" s have IH: "bin us" "length us = length zs" "cy \<le> 1" "nval us + 2 ^ length zs * int cy = nval zs + nval as + int (?temp div 2)" by auto
  have "int (?temp mod 2) = int ?temp - 2 * int (?temp div 2)" using mult_div_mod_eq [of 2 ?temp] by linarith
  moreover from "1.prems" s have "carry = cy" "ts = ?temp mod 2 # us" by (auto simp: Let_def)
  ultimately show ?case using IH by (simp add: algebra_simps)
qed auto

text \<open>The position of the highest bit.\<close>

lemma find_top:
  assumes "find P (rev [0..<n]) = Some m"
  shows "m < n \<and> P m \<and> (\<forall>i. m < i \<longrightarrow> i < n \<longrightarrow> \<not> P i)"
  using assms by (induction n) (auto split: if_splits simp: less_Suc_eq)

lemma find_top_None: "find P (rev [0..<n]) = None \<longleftrightarrow> (\<forall>i < n. \<not> P i)"
  by (auto simp: find_None_iff)

lemma nval_zero: "(\<forall>i < length bs. bs ! i = 0) \<Longrightarrow> nval bs = 0"
proof (induction bs)
  case (Cons b bs)
  then have "b = 0" "\<forall>i < length bs. bs ! i = 0" by (force, fastforce)
  with Cons.IH show ?case by simp
qed simp

lemma nval_top:
  assumes "bin bs" and "m < length bs" and "bs ! m \<noteq> 0" and "\<And>i. m < i \<Longrightarrow> i < length bs \<Longrightarrow> bs ! i = 0"
  shows "2 ^ m \<le> nval bs" and "nval bs < 2 ^ (m + 1)"
proof -
  have "nval (drop (m + 1) bs) = 0" by (rule nval_zero) (use assms(4) in simp)
  then have v: "nval bs = nval (take m bs) + 2 ^ m * int (bs ! m)"
    using nval_split [of m bs] assms(2) by (simp add: Cons_nth_drop_Suc [symmetric])
  have "bs ! m = 1" using assms(1,2,3) by (auto simp: bin_def list_all_length intro: le_antisym)
  with v nval_range [of "take m bs"] assms(1,2) show "2 ^ m \<le> nval bs" "nval bs < 2 ^ (m + 1)" by simp_all
qed

section \<open>The division\<close>

lemma mod_turn:
  assumes z: "bin z" "current + copylen \<le> length z" and a: "bin a" "copylen \<le> length a" "nval (take copylen a) = 2 ^ copylen - 1 - b" "0 < b"
    and lt: "nval z < b * 2 ^ (current + 1)" "b * 2 \<le> 2 ^ copylen"
  shows "bin (mod_turn a copylen z current) \<and> length (mod_turn a copylen z current) = length z
    \<and> nval (mod_turn a copylen z current) = nval z mod (b * 2 ^ current)"
proof -
  let ?D = "b * 2 ^ current" and ?w = "take copylen (drop current z)"
  obtain carry t where s: "bit_sum 1 ?w (take copylen a) = (carry, t)" by fastforce
  have z0: "0 \<le> nval z" using nval_range [OF z(1)] by simp
  have "nval z < 2 ^ (current + copylen)"
  proof -
    have "b * 2 ^ (current + 1) = b * 2 * 2 ^ current" by simp
    also have "\<dots> \<le> 2 ^ copylen * 2 ^ current" using lt(2) by (intro mult_right_mono) simp_all
    finally have "b * 2 ^ (current + 1) \<le> 2 ^ (current + copylen)" by (simp only: power_add mult.commute)
    with lt(1) show ?thesis by (rule less_le_trans)
  qed
  have hi: "nval (drop (current + copylen) z) = 0"
  proof (rule ccontr)
    assume "nval (drop (current + copylen) z) \<noteq> 0"
    then have "1 \<le> nval (drop (current + copylen) z)" using nval_range [of "drop (current + copylen) z"] z(1) by simp
    then have "2 ^ (current + copylen) * 1 \<le> (2 :: int) ^ (current + copylen) * nval (drop (current + copylen) z)" by (intro mult_left_mono) simp_all
    then show False using nval_split [OF z(2)] \<open>nval z < 2 ^ (current + copylen)\<close> nval_range [of "take (current + copylen) z"] bin_take(1) [OF z(1), of "current + copylen"] by linarith
  qed
  have parts: "nval z = nval (take current z) + 2 ^ current * nval ?w"
    using nval_split [of current z] nval_split [of copylen "drop current z"] z(2) hi by (simp add: add.commute)
  have low: "0 \<le> nval (take current z)" "nval (take current z) < 2 ^ current" using nval_range [of "take current z"] z by simp_all
  from bit_sum [OF _ _ _ _ s] z a have sum: "bin t" "length t = copylen" "carry \<le> 1" "nval t + 2 ^ copylen * int carry = nval ?w + 2 ^ copylen - b" by simp_all
  note tr = nval_range [OF sum(1)]
  show ?thesis
  proof (cases "carry = 0")
    case True
    then have "nval ?w < b" using sum tr by simp
    then have "nval ?w + 1 \<le> b" by simp
    then have "2 ^ current * (nval ?w + 1) \<le> 2 ^ current * b" by (intro mult_left_mono) simp_all
    then have "nval z < ?D" using parts low by (simp add: algebra_simps)
    with z0 z(1) True s show ?thesis by (simp add: mod_turn_def)
  next
    case False
    then have c: "carry = 1" using sum(3) by simp
    then have t: "nval t = nval ?w - b" using sum(4) by simp
    have "nval (take current z @ t @ drop (current + copylen) z) = nval z - ?D"
      using z(2) sum(2) hi unfolding parts nval_append t by (simp add: algebra_simps)
    moreover have "0 \<le> nval z - ?D" 
    proof -
      have "2 ^ current * b \<le> 2 ^ current * nval ?w" using t tr by (intro mult_left_mono) simp_all
      then show ?thesis unfolding parts using low by (simp only: mult.commute [of b])
    qed
    moreover have "nval z - ?D < ?D" using lt(1) by simp
    ultimately have "nval (take current z @ t @ drop (current + copylen) z) = nval z mod ?D"
      by (metis minus_mod_self2 mod_pos_pos_trivial)
    then show ?thesis using z sum c s by (simp add: mod_turn_def)
  qed
qed

lemma mod_turns:
  assumes a: "bin a" "copylen \<le> length a" "nval (take copylen a) = 2 ^ copylen - 1 - b" "0 < b" "b * 2 \<le> 2 ^ copylen"
    and "bin z" and "n + copylen \<le> length z + 1" and "nval z < b * 2 ^ n"
  shows "bin (foldl (mod_turn a copylen) z (rev [0..<n])) \<and> length (foldl (mod_turn a copylen) z (rev [0..<n])) = length z
    \<and> nval (foldl (mod_turn a copylen) z (rev [0..<n])) = nval z mod b"
  using assms(6-8)
proof (induction n arbitrary: z)
  case 0
  then show ?case using nval_range [of z] by simp
next
  case (Suc n)
  have t: "bin (mod_turn a copylen z n)" "length (mod_turn a copylen z n) = length z" "nval (mod_turn a copylen z n) = nval z mod (b * 2 ^ n)"
    using mod_turn [OF Suc.prems(1) _ a(1-4) _ a(5), of n] Suc.prems by simp_all
  have "nval z mod (b * 2 ^ n) < b * 2 ^ n" using a(4) by simp
  with Suc.IH [OF t(1)] t Suc.prems show ?case by (simp add: mod_mod_cancel)
qed

text \<open>The bits of a vector as an array.\<close>

lemma nval_bits:
  "bin (map (\<lambda>idx. mod_bit (v4_value v idx)) [0..<v4_size v])" "nval (map (\<lambda>idx. mod_bit (v4_value v idx)) [0..<v4_size v]) = bits_val (v4_list v)"
proof -
  have l: "v4_list v = map (v4_value v) [0..<v4_size v]" by (rule nth_equalityI) simp_all
  have "nval (map mod_bit bs) = bits_val bs" for bs by (induction bs) (simp_all add: bits_val_def mod_bit_def)
  from this [of "map (v4_value v) [0..<v4_size v]"] show "nval (map (\<lambda>idx. mod_bit (v4_value v idx)) [0..<v4_size v]) = bits_val (v4_list v)" by (simp add: l comp_def)
  show "bin (map (\<lambda>idx. mod_bit (v4_value v idx)) [0..<v4_size v])" by (simp add: bin_def list_all_iff mod_bit_def)
qed

lemma bits_of_nval: "bin bs \<Longrightarrow> map (\<lambda>b. if b \<noteq> 0 then BIT4_1 else BIT4_0) bs = bits_of (length bs) (nval bs)"
proof -
  have "bit (nval bs) i \<longleftrightarrow> bs ! i \<noteq> 0" if "bin bs" "i < length bs" for i using that
  proof (induction bs arbitrary: i)
    case (Cons b bs)
    have "odd (int b + 2 * nval bs) \<longleftrightarrow> b \<noteq> 0" using Cons.prems(1) by (cases b) auto
    moreover have "(int b + 2 * nval bs) div 2 = nval bs" using Cons.prems(1) by (cases b) auto
    ultimately show ?case using Cons by (cases i) (simp_all add: bit_0 bit_Suc)
  qed simp
  then show "bin bs \<Longrightarrow> ?thesis" by (intro nth_equalityI) simp_all
qed

lemma write_bits:
  assumes "length bs = len"
  obtains r where "for_each (\<lambda>idx tmp. v4_set_bit tmp idx (if bs ! idx \<noteq> 0 then BIT4_1 else BIT4_0)) [0..<len] (v4_fill len BIT4_X) = Some r"
    and "v4_inv r" and "v4_list r = map (\<lambda>b. if b \<noteq> 0 then BIT4_1 else BIT4_0) bs"
proof -
  obtain r where r: "for_each (\<lambda>idx tmp. v4_set_bit tmp idx (if bs ! idx \<noteq> 0 then BIT4_1 else BIT4_0)) [0..<len] (v4_fill len BIT4_X) = Some r"
    "v4_inv r" "v4_size r = len" "\<And>i. i < len \<Longrightarrow> v4_value r i = (if bs ! i \<noteq> 0 then BIT4_1 else BIT4_0)"
    by (rule v4.build [of "v4_fill len BIT4_X" len "\<lambda>i. if bs ! i \<noteq> 0 then BIT4_1 else BIT4_0"]) (simp_all add: v4_fill_inv size_v4_fill)
  moreover have "v4_list r = map (\<lambda>b. if b \<noteq> 0 then BIT4_1 else BIT4_0) bs" by (rule v4_listI) (use r assms in simp_all)
  ultimately show thesis using that by blast
qed

text \<open>The remainder of the magnitudes, in place.\<close>

definition magnitude :: "bool \<Rightarrow> vvp_bit4_t list \<Rightarrow> int" where
  "magnitude neg l = (if neg then - bits_val l else bits_val l) mod 2 ^ length l"

lemma mod_remainder:
  assumes zb: "bin zb" "length zb = len" and bb: "bin bb" "length bb = len" and a: "a = map (\<lambda>b. 1 - b) bb @ [1]"
    and mxa: "find (\<lambda>i. a ! i = 0) (rev [0..<len]) = Some mxa"
  shows "\<exists>z. (case find (\<lambda>i. (zb @ [0]) ! i \<noteq> 0) (rev [0..<len]) of None \<Rightarrow> zb @ [0]
      | Some mxz \<Rightarrow> if mxa > mxz then zb @ [0] else foldl (mod_turn a (mxa + 2)) (zb @ [0]) (rev [0..<mxz - mxa + 1])) = z
    \<and> bin z \<and> length z = len + 1 \<and> nval z = nval zb mod nval bb \<and> nval bb > 0"
proof -
  have bits: "a ! i = 0 \<longleftrightarrow> bb ! i \<noteq> 0" if "i < len" for i using that bb by (auto simp: a nth_append bin_def list_all_length)
  have top: "mxa < len" "bb ! mxa \<noteq> 0" "\<And>i. mxa < i \<Longrightarrow> i < len \<Longrightarrow> bb ! i = 0" using find_top [OF mxa] bits by auto
  have b: "2 ^ mxa \<le> nval bb" "nval bb < 2 ^ (mxa + 1)" using nval_top [OF bb(1), of mxa] top bb(2) by auto
  then have b0: "nval bb > 0" by (metis less_le_trans zero_less_numeral zero_less_power)
  have z: "bin (zb @ [0])" "length (zb @ [0]) = len + 1" "nval (zb @ [0]) = nval zb" using zb by (simp_all add: nval_append)
  have z0: "0 \<le> nval zb" using nval_range [OF zb(1)] by simp
  have small: ?thesis if "nval zb < nval bb" and "find (\<lambda>i. (zb @ [0]) ! i \<noteq> 0) (rev [0..<len]) = None \<or>
      (\<exists>m. find (\<lambda>i. (zb @ [0]) ! i \<noteq> 0) (rev [0..<len]) = Some m \<and> mxa > m)"
    using that z z0 b0 by auto
  show ?thesis
  proof (cases "find (\<lambda>i. (zb @ [0]) ! i \<noteq> 0) (rev [0..<len])")
    case None
    then have "nval zb = 0" using zb by (intro nval_zero) (simp add: find_top_None nth_append)
    then show ?thesis using small None b0 by simp
  next
    case (Some mxz)
    have m: "mxz < len" "zb ! mxz \<noteq> 0" "\<And>i. mxz < i \<Longrightarrow> i < len \<Longrightarrow> zb ! i = 0" using find_top [OF Some] zb(2) by (auto simp: nth_append)
    have zt: "nval zb < 2 ^ (mxz + 1)" using nval_top(2) [OF zb(1), of mxz] m zb(2) by auto
    show ?thesis
    proof (cases "mxa > mxz")
      case True
      then have "(2 :: int) ^ (mxz + 1) \<le> 2 ^ mxa" by (intro power_increasing) simp_all
      then have "nval zb < nval bb" using zt b(1) by linarith
      then show ?thesis using small Some True by simp
    next
      case False
      let ?n = "mxz - mxa + 1"
      have na: "nval a = 2 ^ (len + 1) - 1 - nval bb" "bin a" "length a = len + 1"
        using nval_not [OF bb(1)] bb(2) by (simp_all add: a nval_append)
      have cut: "nval (take (mxa + 2) a) = 2 ^ (mxa + 2) - 1 - nval bb"
      proof -
        have "map (\<lambda>b. 1 - b) (take (mxa + 2) (bb @ [0])) = take (mxa + 2) a" by (simp add: a take_map flip: take_map)
        moreover have "nval (take (mxa + 2) (bb @ [0])) = nval bb"
        proof -
          have "nval (drop (mxa + 2) (bb @ [0])) = 0" by (rule nval_zero) (use top bb(2) in \<open>auto simp: nth_append\<close>)
          moreover have "nval (bb @ [0]) = nval bb" by (simp add: nval_append)
          ultimately show ?thesis using nval_split [of "mxa + 2" "bb @ [0]"] top(1) bb(2) by simp
        qed
        moreover have "bin (take (mxa + 2) (bb @ [0]))" using bb(1) by simp
        moreover have "length (take (mxa + 2) (bb @ [0])) = mxa + 2" using top(1) bb(2) by simp
        ultimately show ?thesis using nval_not [of "take (mxa + 2) (bb @ [0])"] by metis
      qed
      have "nval zb < nval bb * 2 ^ ?n"
      proof -
        have "(2 :: int) ^ (mxz + 1) = 2 ^ mxa * 2 ^ ?n" using False by (simp flip: power_add)
        also have "\<dots> \<le> nval bb * 2 ^ ?n" using b(1) by (intro mult_right_mono) simp_all
        finally show ?thesis using zt by linarith
      qed
      then have "bin (foldl (mod_turn a (mxa + 2)) (zb @ [0]) (rev [0..<?n])) \<and> length (foldl (mod_turn a (mxa + 2)) (zb @ [0]) (rev [0..<?n])) = length (zb @ [0])
          \<and> nval (foldl (mod_turn a (mxa + 2)) (zb @ [0]) (rev [0..<?n])) = nval (zb @ [0]) mod nval bb"
        using mod_turns [OF na(2) _ cut b0 _ z(1), of ?n] na(3) top(1) m(1) b(2) z(2,3) False zb(2) by simp
      then show ?thesis using Some False z b0 by simp
    qed
  qed
qed

lemma do_verylong_mod:
  assumes "v4_inv vala" and "v4_inv valb" and "v4_size valb = v4_size vala"
  shows "\<exists>r. do_verylong_mod vala valb ln rn = Some r \<and> v4_inv r \<and> v4_list r =
    (let n = v4_size vala; x = magnitude ln (v4_list vala); y = magnitude rn (v4_list valb) in
     if list_ex bit4_is_xz (v4_list vala) \<or> list_ex bit4_is_xz (v4_list valb) \<or> y = 0 then replicate n BIT4_X
     else bits_of n (if ln then - (x mod y) else x mod y))"
proof -
  let ?n = "v4_size vala" and ?x = "magnitude ln (v4_list vala)" and ?y = "magnitude rn (v4_list valb)"
  let ?xz = "list_ex (\<lambda>idx. bit4_is_xz (v4_value vala idx) \<or> bit4_is_xz (v4_value valb idx)) [0..<?n]"
  have xz: "?xz \<longleftrightarrow> list_ex bit4_is_xz (v4_list vala) \<or> list_ex bit4_is_xz (v4_list valb)"
    by (auto simp: list_ex_length assms(3))
  define zb where "zb = with_sign ln (map (\<lambda>idx. mod_bit (v4_value vala idx)) [0..<?n])"
  define bb where "bb = with_sign rn (map (\<lambda>idx. mod_bit (v4_value valb idx)) [0..<?n])"
  have zb: "bin zb" "length zb = ?n" "nval zb = ?x" using with_sign [OF nval_bits(1), of ln vala] nval_bits(2) [of vala] by (simp_all add: zb_def magnitude_def)
  have bb: "bin bb" "length bb = ?n" "nval bb = ?y" using with_sign [OF nval_bits(1), of rn valb] nval_bits(2) [of valb] assms(3) by (simp_all add: bb_def magnitude_def)
  define a where "a = map (\<lambda>b. 1 - b) bb @ [1]"
  have fill: "v4_inv (v4_fill ?n BIT4_X)" "v4_list (v4_fill ?n BIT4_X) = replicate ?n BIT4_X" by (simp_all add: v4_fill_inv v4_fill_list)
  show ?thesis
  proof (cases ?xz)
    case True
    then show ?thesis using fill xz unfolding do_verylong_mod_def Let_def by auto
  next
    case False
    note def = do_verylong_mod_def [of vala valb ln rn, unfolded Let_def if_not_P [OF False] zb_def [symmetric] bb_def [symmetric] a_def [symmetric]]
    show ?thesis
    proof (cases "find (\<lambda>i. a ! i = 0) (rev [0..<?n])")
      case None
      then have "\<forall>i < length bb. bb ! i = 0" using bb by (auto simp: find_top_None a_def nth_append bin_def list_all_length)
      then have "?y = 0" using nval_zero bb(3) by metis
      then show ?thesis using fill None by (simp add: def Let_def)
    next
      case (Some mxa)
      from mod_remainder [OF zb(1,2) bb(1,2) a_def Some] obtain z where z: "(case find (\<lambda>i. (zb @ [0]) ! i \<noteq> 0) (rev [0..<?n]) of None \<Rightarrow> zb @ [0]
          | Some mxz \<Rightarrow> if mxa > mxz then zb @ [0] else foldl (mod_turn a (mxa + 2)) (zb @ [0]) (rev [0..<mxz - mxa + 1])) = z"
        "bin z" "length z = ?n + 1" "nval z = ?x mod ?y" and y: "?y > 0" unfolding zb(3) bb(3) by blast
      have xr: "0 \<le> ?x mod ?y" "?x mod ?y < 2 ^ ?n"
        using y nval_range [OF bb(1)] bb(2,3) less_trans [OF pos_mod_bound [OF y, of ?x]] by simp_all
      have t: "bin (take ?n z)" "length (take ?n z) = ?n" "nval (take ?n z) = ?x mod ?y"
      proof -
        have "nval z = nval (take ?n z) + 2 ^ ?n * nval (drop ?n z)" using nval_split [of ?n z] z(3) by simp
        moreover have "0 \<le> nval (drop ?n z)" using nval_range [of "drop ?n z"] z(2) by simp
        moreover have "nval (take ?n z) \<ge> 0" using nval_range [of "take ?n z"] z(2) by simp
        ultimately have "2 ^ ?n * nval (drop ?n z) < 2 ^ ?n * 1" "0 \<le> nval (drop ?n z)" using xr z(4) by linarith+
        then have "nval (drop ?n z) < 1" by (metis mult_less_cancel_left_pos zero_less_numeral zero_less_power)
        then have "nval (drop ?n z) = 0" using \<open>0 \<le> nval (drop ?n z)\<close> by simp
        then show "nval (take ?n z) = ?x mod ?y" using nval_split [of ?n z] z(3,4) by simp
      qed (use z in simp_all)
      define out where "out = with_sign ln (take ?n z)"
      have o: "bin out" "length out = ?n" "nval out = (if ln then - (?x mod ?y) else ?x mod ?y) mod 2 ^ ?n" using with_sign [OF t(1), of ln] t by (simp_all add: out_def)
      obtain r where r: "for_each (\<lambda>idx tmp. v4_set_bit tmp idx (if out ! idx \<noteq> 0 then BIT4_1 else BIT4_0)) [0..<?n] (v4_fill ?n BIT4_X) = Some r"
        "v4_inv r" "v4_list r = map (\<lambda>b. if b \<noteq> 0 then BIT4_1 else BIT4_0) out" by (rule write_bits [OF o(2)])
      have "v4_list r = bits_of ?n (if ln then - (?x mod ?y) else ?x mod ?y)"
        unfolding r(3) bits_of_nval [OF o(1)] o(2) by (rule bits_of_cong) (simp only: o(3) take_bit_eq_mod mod_mod_trivial)
      moreover have "do_verylong_mod vala valb ln rn = Some r" unfolding def Some option.case z(1) using r(1) by (simp add: out_def)
      ultimately show ?thesis using r(2) False xz y by (auto simp: Let_def)
    qed
  qed
qed

end
