(* ===== verification/Thread_Div.thy ===== *)
theory Thread_Div
  imports Thread Division Remainder Arith
begin

text \<open>
  The opcodes of a thread that divide and raise to a power (\<^verbatim>\<open>%div\<close>, \<^verbatim>\<open>%mod\<close>, \<^verbatim>\<open>%pow\<close> and their signed forms in \<^verbatim>\<open>src/vvp/vthread.cc\<close>).
\<close>

section \<open>Division\<close>

text \<open>An operation on the words of two vectors of the same width; the result is all x when one of them has an unknown bit.\<close>

definition on_words :: "(nat \<Rightarrow> plane \<Rightarrow> plane \<Rightarrow> vvp_vector4_t option) \<Rightarrow> vvp_vector4_t \<Rightarrow> vvp_vector4_t \<Rightarrow> vvp_vector4_t option" where
  "on_words f vala valb =
    (let wid = v4_size vala in
     if v4_size vala \<noteq> v4_size valb then None
     else case v4_subarray vala 0 wid False of
         None \<Rightarrow> Some (v4_fill wid BIT4_X)
       | Some ap \<Rightarrow> (case v4_subarray valb 0 wid False of None \<Rightarrow> Some (v4_fill wid BIT4_X) | Some bp \<Rightarrow> f wid ap bp))"

definition div_words :: "vvp_vector4_t \<Rightarrow> nat \<Rightarrow> plane \<Rightarrow> plane \<Rightarrow> vvp_vector4_t option" where
  "div_words vala wid ap bp =
    (if wid \<le> BITS_PER_WORD then
       if bp ! 0 = 0 then Some (v4_fill wid BIT4_X) else v4_setarray vala 0 wid (ap[0 := ap ! 0 div bp ! 0])
     else Option.bind (divide_bits ap bp wid) (\<lambda>result. case result of
         None \<Rightarrow> Some (v4_fill wid BIT4_X)
       | Some (result, ap) \<Rightarrow> v4_setarray vala 0 wid result))"

definition of_DIV :: "vthread \<Rightarrow> vthread option" where
  "of_DIV = pop_edit (\<lambda>vala valb. on_words (div_words vala) vala valb)"

definition negate_words :: "plane \<Rightarrow> nat \<Rightarrow> plane" where
  "negate_words val words = snd (carry_loop (\<lambda>idx. NOT (val ! idx)) [0..<words] 1 (replicate words 0))"

text \<open>The mask of the bits above the width in the last word, and the extension of the sign into them.\<close>

definition sign_mask :: "nat \<Rightarrow> ulong" where
  "sign_mask wid = (let sign_bits = words_for wid * BITS_PER_WORD - wid in if sign_bits \<noteq> 0 then push_bit (BITS_PER_WORD - sign_bits) (- 1) else 0)"

definition sign_extend :: "nat \<Rightarrow> plane \<Rightarrow> plane" where
  "sign_extend wid ap =
    (let k = words_for wid - 1 in if ap ! k AND drop_bit 1 (sign_mask wid) \<noteq> 0 then ap[k := ap ! k OR sign_mask wid] else ap)"

definition div_s_words :: "vvp_vector4_t \<Rightarrow> nat \<Rightarrow> plane \<Rightarrow> plane \<Rightarrow> vvp_vector4_t option" where
  "div_s_words vala wid ap bp =
    (let words = words_for wid; ap = sign_extend wid ap; bp = sign_extend wid bp in
     if wid \<le> BITS_PER_WORD then
       if bp ! 0 = 0 then Some (v4_fill wid BIT4_X)
       else if sint (ap ! 0) = - (2 ^ 63) \<and> sint (bp ! 0) = - 1 then v4_set_bit (v4_fill wid BIT4_0) (wid - 1) BIT4_1
       else v4_setarray vala 0 wid (ap[0 := word_of_int (sint (ap ! 0) sdiv sint (bp ! 0)) AND NOT (sign_mask wid)])
     else
       let na = sint (ap ! (words - 1)) < 0; ap = (if na then negate_words ap words else ap);
           nb = sint (bp ! (words - 1)) < 0; bp = (if nb then negate_words bp words else bp)
       in Option.bind (divide_bits ap bp wid) (\<lambda>result. case result of
           None \<Rightarrow> Some (v4_fill wid BIT4_X)
         | Some (result, ap) \<Rightarrow>
             let result = (if na \<noteq> nb then negate_words result words else result)
             in v4_setarray vala 0 wid (result[words - 1 := result ! (words - 1) AND NOT (sign_mask wid)])))"

definition of_DIV_S :: "vthread \<Rightarrow> vthread option" where
  "of_DIV_S = pop_edit (\<lambda>vala valb. on_words (div_s_words vala) vala valb)"

section \<open>Remainder\<close>

text \<open>The bits of a vector of up to 64 bits in a word, and back; the arithmetic shift of the signed form gives the same bits.\<close>

definition bits_word :: "vvp_vector4_t \<Rightarrow> nat \<Rightarrow> ulong" where
  "bits_word v wid = foldl (\<lambda>lv idx. lv OR push_bit idx (of_bool (v4_value v idx = BIT4_1))) 0 [0..<wid]"

definition word_bits :: "ulong \<Rightarrow> nat \<Rightarrow> vvp_vector4_t \<Rightarrow> vvp_vector4_t option" where
  "word_bits lv wid = for_each (\<lambda>idx v. v4_set_bit v idx (if drop_bit idx lv AND 1 \<noteq> 0 then BIT4_1 else BIT4_0)) [0..<wid]"

definition some_xz :: "vvp_vector4_t \<Rightarrow> vvp_vector4_t \<Rightarrow> nat \<Rightarrow> bool" where
  "some_xz vala valb wid \<longleftrightarrow> list_ex (\<lambda>idx. bit4_is_xz (v4_value vala idx) \<or> bit4_is_xz (v4_value valb idx)) [0..<wid]"

definition mod_vec4 :: "vvp_vector4_t \<Rightarrow> vvp_vector4_t \<Rightarrow> vvp_vector4_t option" where
  "mod_vec4 vala valb =
    (let wid = v4_size vala in
     if v4_size vala \<noteq> v4_size valb then None
     else if wid \<le> 64 then
       if some_xz vala valb wid then Some (v4_fill wid BIT4_X)
       else
         let lv = bits_word vala wid; rv = bits_word valb wid in
         if rv = 0 then Some (v4_fill wid BIT4_X) else word_bits (lv mod rv) wid vala
     else do_verylong_mod vala valb False False)"

definition of_MOD :: "vthread \<Rightarrow> vthread option" where
  "of_MOD = pop_edit mod_vec4"

definition mod_s_vec4 :: "vvp_vector4_t \<Rightarrow> vvp_vector4_t \<Rightarrow> vvp_vector4_t option" where
  "mod_s_vec4 vala valb =
    (let wid = v4_size vala in
     if v4_size vala \<noteq> v4_size valb then None
     else if wid \<le> 64 then
       if some_xz vala valb wid then Some (v4_fill wid BIT4_X)
       else
         let lv = bits_word vala wid; rv = bits_word valb wid in
         if rv = 0 then Some (v4_fill wid BIT4_X)
         else if sint lv = - (2 ^ 63) \<and> sint rv = - 1 then Some (v4_fill wid BIT4_0)
         else
           let extend = (\<lambda>v. if wid < 64 \<and> v AND push_bit (wid - 1) 1 \<noteq> 0 then v OR push_bit wid (- 1) else v);
               lv = extend lv; rv = extend rv
           in word_bits (word_of_int (sint lv smod sint rv)) wid vala
     else do_verylong_mod vala valb (v4_value vala (wid - 1) = BIT4_1) (v4_value valb (wid - 1) = BIT4_1))"

definition of_MOD_S :: "vthread \<Rightarrow> vthread option" where
  "of_MOD_S = pop_edit mod_s_vec4"

section \<open>Power\<close>

definition pow_vec4 :: "bool \<Rightarrow> vvp_vector4_t \<Rightarrow> vvp_vector4_t \<Rightarrow> vvp_vector4_t option" where
  "pow_vec4 signed_flag vala valb =
    (let wid = v4_size vala in
     Option.bind (v2_of_vector4 vala True) (\<lambda>xv2. Option.bind (v2_of_vector4 valb True) (\<lambda>yv2.
     if v2_is_NaN xv2 \<or> v2_is_NaN yv2 then Some (v4_fill wid BIT4_X)
     else if signed_flag \<and> v2_value yv2 (v2_wid yv2 - 1) \<noteq> 0 then
       let (ok, a_val) = vector2_to_int xv2;
           (pad, lsb) = (if ok \<and> a_val = 0 then (BIT4_X, BIT4_X)
             else if ok \<and> a_val = 1 then (BIT4_0, BIT4_1)
             else if ok \<and> a_val = - 1 then (if v2_value yv2 0 \<noteq> 0 then (BIT4_1, BIT4_1) else (BIT4_0, BIT4_1))
             else (BIT4_0, BIT4_0))
       in v4_set_bit (v4_fill wid pad) 0 lsb
     else Option.bind (v2_pow xv2 yv2) (\<lambda>result.
       for_each (\<lambda>jdx v. v4_set_bit v jdx (if jdx \<ge> v2_wid result then BIT4_0 else if v2_value result jdx \<noteq> 0 then BIT4_1 else BIT4_0))
         [0..<wid] vala))))"

definition of_POW_base :: "bool \<Rightarrow> vthread \<Rightarrow> vthread option" where
  "of_POW_base signed_flag = pop_edit (pow_vec4 signed_flag)"

definition of_POW :: "vthread \<Rightarrow> vthread option" where "of_POW = of_POW_base False"
definition of_POW_S :: "vthread \<Rightarrow> vthread option" where "of_POW_S = of_POW_base True"

end
