(* ===== verification/Thread_Run.thy ===== *)
theory Thread_Run
  imports Thread_Div
begin

text \<open>
  The opcodes of a thread that touch the rest of the simulator (jumps, signal loads, stores, non-blocking
  assignments), the opcodes the loader makes by fusing instructions, the dispatch of an opcode, and the loop of
  \<^verbatim>\<open>vthread_run\<close>.
\<close>

section \<open>The rest of the simulator\<close>

text \<open>
  What a thread reads of it: the value of a signal, whether the signal is a \<^verbatim>\<open>vvp_wire_vec8\<close>, which has drive strengths, and how many
  scalars it then has, the signal filter of a net, and whether the simulation was stopped.  What it does to it is an effect.  A vector
  leaves the thread as its bits.
\<close>

record env =
  env_signal :: "nat \<Rightarrow> vvp_vector4_t"
  env_strong :: "nat \<Rightarrow> nat option"
  env_fil :: "nat \<Rightarrow> nat option"
  env_stopped :: bool

datatype thr_effect =
    SCHEDULE_ASSIGN nat "vvp_bit4_t list" nat
  | SCHEDULE_INACTIVE
  | SCHEDULE_VTHREAD "64 word"
  | SEND_NET nat "vvp_bit4_t list"
  | SEND_NET_PV nat "vvp_bit4_t list" nat nat

text \<open>The outcome of a handler: the thread, the effects, and whether the thread goes on.\<close>

type_synonym 'v outcome_s = "('v vthread_s \<times> thr_effect list \<times> bool) option"
type_synonym outcome = "vvp_vector4_t outcome_s"

abbreviation goes_on :: "'v vthread_s option \<Rightarrow> 'v outcome_s" where
  "goes_on r \<equiv> map_option (\<lambda>thr. (thr, [], True)) r"

section \<open>Jumps\<close>

definition after_jump :: "env \<Rightarrow> 'v vthread_s \<Rightarrow> 'v outcome_s" where
  "after_jump env thr = Some (thr, if env_stopped env then [SCHEDULE_VTHREAD 0] else [], \<not> env_stopped env)"

definition of_JMP :: "env \<Rightarrow> vvp_code_s \<Rightarrow> 'v vthread_s \<Rightarrow> 'v outcome_s" where
  "of_JMP env cp thr = Option.bind (code_cptr cp) (\<lambda>a. after_jump env (thr\<lparr>thr_pc := a\<rparr>))"

definition jump_if :: "(vvp_bit4_t \<Rightarrow> bool) \<Rightarrow> env \<Rightarrow> vvp_code_s \<Rightarrow> 'v vthread_s \<Rightarrow> 'v outcome_s" where
  "jump_if test env cp thr = Option.bind (get_flag (unat (bit_idx0 cp)) thr) (\<lambda>b.
     if test b then of_JMP env cp thr else after_jump env thr)"

definition of_JMP0 :: "env \<Rightarrow> vvp_code_s \<Rightarrow> 'v vthread_s \<Rightarrow> 'v outcome_s" where "of_JMP0 = jump_if (\<lambda>b. b = BIT4_0)"
definition of_JMP0XZ :: "env \<Rightarrow> vvp_code_s \<Rightarrow> 'v vthread_s \<Rightarrow> 'v outcome_s" where "of_JMP0XZ = jump_if (\<lambda>b. b \<noteq> BIT4_1)"
definition of_JMP1 :: "env \<Rightarrow> vvp_code_s \<Rightarrow> 'v vthread_s \<Rightarrow> 'v outcome_s" where "of_JMP1 = jump_if (\<lambda>b. b = BIT4_1)"
definition of_JMP1XZ :: "env \<Rightarrow> vvp_code_s \<Rightarrow> 'v vthread_s \<Rightarrow> 'v outcome_s" where "of_JMP1XZ = jump_if (\<lambda>b. b \<noteq> BIT4_0)"

definition of_CHUNK_LINK :: "vvp_code_s \<Rightarrow> 'v vthread_s \<Rightarrow> 'v outcome_s" where
  "of_CHUNK_LINK cp thr = goes_on (map_option (\<lambda>a. thr\<lparr>thr_pc := a\<rparr>) (code_cptr cp))"

text \<open>A delay ends the turn of the thread; a delay of 0 is only until the active events of the time are done.\<close>

definition delay_by :: "64 word \<Rightarrow> 'v vthread_s \<Rightarrow> 'v outcome_s" where
  "delay_by delay thr = Some (thr, [if delay = 0 then SCHEDULE_INACTIVE else SCHEDULE_VTHREAD delay], False)"

definition of_DELAY :: "vvp_code_s \<Rightarrow> 'v vthread_s \<Rightarrow> 'v outcome_s" where
  "of_DELAY cp thr = delay_by (push_bit 32 (ucast (bit_idx1 cp)) OR ucast (bit_idx0 cp)) thr"

definition of_DELAYX :: "vvp_code_s \<Rightarrow> 'v vthread_s \<Rightarrow> 'v outcome_s" where
  "of_DELAYX cp thr = Option.bind (code_number cp) (\<lambda>i. Option.bind (get_word (unat i) thr) (\<lambda>delay. delay_by delay thr))"

section \<open>Signals\<close>

definition of_LOAD_VEC4 :: "env \<Rightarrow> vvp_code_s \<Rightarrow> vthread \<Rightarrow> vthread option" where
  "of_LOAD_VEC4 env cp thr = map_option (\<lambda>sig. push_vec4 (env_signal env sig) thr) (code_signal cp)"

text \<open>\<^verbatim>\<open>vec4_subvalue\<close> of a signal: the value, then its \<^verbatim>\<open>subvalue\<close>.\<close>

definition vec4_subvalue :: "env \<Rightarrow> nat \<Rightarrow> nat \<Rightarrow> nat \<Rightarrow> vvp_vector4_t option" where
  "vec4_subvalue env sig base wid = thr_subvalue (env_signal env sig) base wid"

text \<open>One bit of a signal: \<^verbatim>\<open>vvp_wire_vec8::value\<close> reads a scalar, with an assertion that the bit is there; the others give x beyond the end.\<close>

definition signal_value :: "env \<Rightarrow> nat \<Rightarrow> nat \<Rightarrow> vvp_bit4_t option" where
  "signal_value env sig idx =
    (if case env_strong env sig of None \<Rightarrow> True | Some n \<Rightarrow> idx < n then Some (v4_value (env_signal env sig) idx) else None)"

definition of_IX_GETV :: "env \<Rightarrow> vvp_code_s \<Rightarrow> vthread \<Rightarrow> vthread option" where
  "of_IX_GETV env cp thr = Option.bind (code_net cp) (\<lambda>net. Option.bind (env_fil env net) (\<lambda>sig.
     let (w, flag) = (case vector4_to_ulong (env_signal env sig) of
           Some (overflow_flag, val) \<Rightarrow> (val, if overflow_flag then BIT4_X else BIT4_0) | None \<Rightarrow> (0, BIT4_1))
     in Option.bind (set_word (unat (bit_idx0 cp)) w thr) (set_flag 4 flag)))"

definition of_IX_GETV_S :: "env \<Rightarrow> vvp_code_s \<Rightarrow> vthread \<Rightarrow> vthread option" where
  "of_IX_GETV_S env cp thr = Option.bind (code_net cp) (\<lambda>net. Option.bind (env_fil env net) (\<lambda>sig.
     let (w, flag) = (case vector4_to_value (env_signal env sig) True True of
           (True, Some val) \<Rightarrow> (val, BIT4_0) | _ \<Rightarrow> (0, BIT4_1))
     in Option.bind (set_word (unat (bit_idx0 cp)) w thr) (set_flag 4 flag)))"

definition of_ASSIGN_VEC4 :: "vvp_code_s \<Rightarrow> vthread \<Rightarrow> outcome" where
  "of_ASSIGN_VEC4 cp thr = Option.bind (code_net cp) (\<lambda>net. Option.bind (peek_vec4 0 thr) (\<lambda>val.
     map_option (\<lambda>thr. (thr, [SCHEDULE_ASSIGN net (v4_list val) (unat (bit_idx0 cp))], True)) (pop_vec4_cnt 1 thr)))"

text \<open>\<^verbatim>\<open>resize_rval_vec\<close>: the part of a value at an offset that falls into a target, and where it goes.\<close>

definition resize_rval_vec :: "vvp_vector4_t \<Rightarrow> int \<Rightarrow> nat \<Rightarrow> (vvp_vector4_t \<times> int) option option" where
  "resize_rval_vec val off sig_wid =
    (let wid = v4_size val in
     if off \<ge> 0 \<and> nat off + wid \<le> sig_wid then Some (Some (val, off))
     else if off \<ge> 0 \<and> nat off \<ge> sig_wid then Some None
     else if off < 0 \<and> nat (- off) \<ge> wid then Some None
     else
       let base = (if off \<ge> 0 then 0 else nat (- off));
           wid = (if off \<ge> 0 then wid else wid - nat (- off));
           off = (if off \<ge> 0 then off else 0);
           wid = (if nat off + wid > sig_wid then sig_wid - nat off else wid)
       in map_option (\<lambda>val. Some (val, off)) (v4_subvalue val base wid))"

definition of_STORE_VEC4 :: "env \<Rightarrow> vvp_code_s \<Rightarrow> vthread \<Rightarrow> outcome" where
  "of_STORE_VEC4 env cp thr = Option.bind (code_net cp) (\<lambda>net. Option.bind (env_fil env net) (\<lambda>sig.
     let off_index = unat (bit_idx0 cp); wid = unat (bit_idx1 cp); sig_value_size = v4_size (env_signal env sig) in
     Option.bind (if off_index \<noteq> 0 then map_option sint (get_word off_index thr) else Some 0) (\<lambda>off.
     Option.bind (peek_vec4 0 thr) (\<lambda>val.
       if v4_size val < wid then None
       else
         let val = (if v4_size val > wid then v4_resize val wid BIT4_X else val);
             done = (\<lambda>acts. map_option (\<lambda>thr. (thr, acts, True)) (pop_vec4_cnt 1 thr))
         in if off_index = 0 \<and> v4_size val = wid \<and> wid = sig_value_size then done [SEND_NET net (v4_list val)]
            else Option.bind (get_flag 4 thr) (\<lambda>flag4.
              if off_index \<noteq> 0 \<and> flag4 = BIT4_1 then done []
              else Option.bind (resize_rval_vec val off sig_value_size) (\<lambda>clip. case clip of
                  None \<Rightarrow> done []
                | Some (val, off) \<Rightarrow>
                    if off = 0 \<and> v4_size val = sig_value_size then done [SEND_NET net (v4_list val)]
                    else done [SEND_NET_PV net (v4_list val) (nat off) sig_value_size]))))))"

definition of_STORE_VEC4_FULL :: "env \<Rightarrow> vvp_code_s \<Rightarrow> vthread \<Rightarrow> outcome" where
  "of_STORE_VEC4_FULL env cp thr = Option.bind (peek_vec4 0 thr) (\<lambda>val.
     let wid = unat (bit_idx1 cp) in
     if v4_size val < wid then of_STORE_VEC4 env cp thr
     else
       let val = (if v4_size val > wid then v4_resize val wid BIT4_X else val) in
       Option.bind (code_net cp) (\<lambda>net. map_option (\<lambda>thr. (thr, [SEND_NET net (v4_list val)], True)) (pop_vec4_cnt 1 thr)))"

section \<open>Fused opcodes\<close>

definition skip_slots :: "nat \<Rightarrow> 'v vthread_s \<Rightarrow> 'v vthread_s" where
  "skip_slots k thr = thr\<lparr>thr_pc := code_add (thr_pc thr) k\<rparr>"

definition of_LOAD_PARTI_base :: "env \<Rightarrow> vvp_code_s \<Rightarrow> vthread \<Rightarrow> vthread option" where
  "of_LOAD_PARTI_base env cp thr =
    (let thr = skip_slots 1 thr; wid = unat (bit_idx1 cp); use_base = sint (bit_idx0 cp); sum = use_base + sint (bit_idx1 cp) in
     Option.bind (code_signal cp) (\<lambda>sig.
       if use_base \<ge> 0 then map_option (\<lambda>val. push_vec4 val thr) (vec4_subvalue env sig (nat use_base) wid)
       else if sum < - (2 ^ 31) then None
       else if sum \<le> 0 then Some (push_vec4 (v4_fill wid BIT4_X) thr)
       else
         let vbase = nat (- use_base); wid' = wid - vbase; sig_size = v4_size (env_signal env sig);
             wid' = (if wid' > sig_size then sig_size else wid')
         in Option.bind (vec4_subvalue env sig 0 wid') (\<lambda>sub. map_option (\<lambda>res. push_vec4 (snd res) thr)
              (v4_set_vec (v4_fill wid BIT4_X) vbase sub))))"

text \<open>The part of a signal an extended fusion selects; the base was not negative.\<close>

definition fused_part :: "env \<Rightarrow> vvp_code_s \<Rightarrow> vvp_vector4_t option" where
  "fused_part env cp = Option.bind (code_signal cp) (\<lambda>sig. vec4_subvalue env sig (unat (bit_idx0 cp)) (unat (bit_idx1 cp)))"

definition of_LOAD_PARTI_PAIR :: "env \<Rightarrow> vvp_code_s \<Rightarrow> vvp_code_s \<Rightarrow> vthread \<Rightarrow> vthread option" where
  "of_LOAD_PARTI_PAIR env cp rhs thr = Option.bind (fused_part env cp) (\<lambda>l. map_option (\<lambda>r.
     push_vec4 r (push_vec4 l (skip_slots 3 thr))) (fused_part env rhs))"

definition of_LOAD_PARTI_PAIR_CONCAT :: "env \<Rightarrow> vvp_code_s \<Rightarrow> vvp_code_s \<Rightarrow> vvp_code_s \<Rightarrow> vthread \<Rightarrow> vthread option" where
  "of_LOAD_PARTI_PAIR_CONCAT env cp dead rhs_code thr =
    (let thr = skip_slots 4 thr in
     Option.bind (code_number dead) (\<lambda>one_word.
     if one_word \<noteq> 0 then
       let lhs_base = unat (bit_idx0 cp); lhs_wid = unat (bit_idx1 cp);
           rhs_base = unat (bit_idx0 rhs_code); rhs_wid = unat (bit_idx1 rhs_code);
           lhs_mask = push_bit lhs_wid 1 - 1; rhs_mask = push_bit rhs_wid 1 - 1
       in Option.bind (code_signal cp) (\<lambda>sig.
         let a = abits_word (env_signal env sig) 0; b = bbits_word (env_signal env sig) 0;
             aval = push_bit rhs_wid (drop_bit lhs_base a AND lhs_mask) OR (drop_bit rhs_base a AND rhs_mask);
             bval = push_bit rhs_wid (drop_bit lhs_base b AND lhs_mask) OR (drop_bit rhs_base b AND rhs_mask)
         in Some (push_vec4 (v4_immediate (lhs_wid + rhs_wid) aval bval) thr))
     else Option.bind (fused_part env cp) (\<lambda>result. Option.bind (fused_part env rhs_code) (\<lambda>rhs.
       map_option (\<lambda>result. push_vec4 result thr) (thr_concat result rhs)))))"

definition of_LOAD_PARTI_ADD :: "env \<Rightarrow> vvp_code_s \<Rightarrow> vthread \<Rightarrow> vthread option" where
  "of_LOAD_PARTI_ADD env cp thr = Option.bind (fused_part env cp) (\<lambda>rhs. edit_top (\<lambda>lhs. same_size v4_add lhs rhs) (skip_slots 2 thr))"

definition of_LOAD_PARTI_CONCAT :: "env \<Rightarrow> vvp_code_s \<Rightarrow> vthread \<Rightarrow> vthread option" where
  "of_LOAD_PARTI_CONCAT env cp thr = Option.bind (fused_part env cp) (\<lambda>rhs. edit_top (\<lambda>lhs. thr_concat lhs rhs) (skip_slots 2 thr))"

definition of_LOAD_PARTI_XOR :: "env \<Rightarrow> vvp_code_s \<Rightarrow> vthread \<Rightarrow> vthread option" where
  "of_LOAD_PARTI_XOR env cp thr = Option.bind (fused_part env cp) (\<lambda>rhs. edit_top (\<lambda>lhs. same_size v4_xor_eq lhs rhs) (skip_slots 2 thr))"

definition of_LOAD_PARTI_REPLICATE :: "env \<Rightarrow> vvp_code_s \<Rightarrow> vvp_code_s \<Rightarrow> vthread \<Rightarrow> vthread option" where
  "of_LOAD_PARTI_REPLICATE env cp load thr = Option.bind (code_unsigned cp) (\<lambda>rept. Option.bind (code_signal load) (\<lambda>sig.
     map_option (\<lambda>b. push_vec4 (v4_fill rept b) thr) (signal_value env sig (unat (bit_idx0 load)))))"

definition of_LOAD_FLAG :: "env \<Rightarrow> vvp_code_s \<Rightarrow> vthread \<Rightarrow> vthread option" where
  "of_LOAD_FLAG env cp thr = Option.bind (code_signal cp) (\<lambda>sig. Option.bind (signal_value env sig 0) (\<lambda>b.
     set_flag (unat (bit_idx0 cp)) b (skip_slots 1 thr)))"

definition of_FLAG_SETGET_VEC4 :: "vvp_code_s \<Rightarrow> vthread \<Rightarrow> vthread option" where
  "of_FLAG_SETGET_VEC4 cp thr =
    (let thr = skip_slots 1 thr in
     Option.bind (code_unsigned cp) (\<lambda>flag. Option.bind (peek_vec4 0 thr) (\<lambda>val.
       Option.bind (set_flag flag (v4_value val 0) thr) (\<lambda>thr. map_option (push_vec4 (v4_fill 1 (v4_value val 0))) (pop_vec4_cnt 1 thr)))))"

definition of_ASSIGNI_VEC4 :: "vvp_code_s \<Rightarrow> vthread \<Rightarrow> outcome" where
  "of_ASSIGNI_VEC4 cp thr = map_option (\<lambda>net.
     let wid = unat (drop_bit 6 (bit_idx1 cp)); delay = unat (bit_idx1 cp AND 63) in
     (thr, [SCHEDULE_ASSIGN net (v4_list (v4_immediate wid (ucast (bit_idx0 cp)) 0)) delay], True)) (code_net cp)"

definition of_PUSHI_WIDE :: "vvp_code_s \<Rightarrow> vthread \<Rightarrow> vthread option" where
  "of_PUSHI_WIDE cp thr = map_option (\<lambda>v. skip_slots (unat (bit_idx0 cp)) (push_vec4 v thr)) (code_cvec cp)"

definition of_CONCATI_WIDE :: "vvp_code_s \<Rightarrow> vthread \<Rightarrow> vthread option" where
  "of_CONCATI_WIDE cp thr = Option.bind (code_cvec cp) (\<lambda>v. map_option (skip_slots (unat (bit_idx0 cp))) (edit_top (\<lambda>top. thr_concat top v) thr))"

text \<open>The branch after a fused comparison, from the slot of the jump: its flag, and the sense of the branch in the tag.\<close>

definition cmpi_branch :: "env \<Rightarrow> vvp_code_s \<Rightarrow> 'v vthread_s \<Rightarrow> 'v outcome_s" where
  "cmpi_branch env jmp thr = Option.bind (get_flag (unat (bit_idx0 jmp)) thr) (\<lambda>b.
     if (if bit_idx1 jmp AND 8 \<noteq> 0 then b \<noteq> BIT4_0 else b \<noteq> BIT4_1)
     then Option.bind (code_cptr jmp) (\<lambda>a. after_jump env (thr\<lparr>thr_pc := a\<rparr>))
     else after_jump env (skip_slots 1 thr))"

definition of_CMPI_JMP :: "env \<Rightarrow> vvp_code_s \<Rightarrow> vvp_code_s \<Rightarrow> vthread \<Rightarrow> outcome" where
  "of_CMPI_JMP env cp jmp thr =
    (let tag = bit_idx1 jmp;
         do_cmp = (if tag AND 7 = 0 then do_CMPE else if tag AND 7 = 1 then do_CMPNE else if tag AND 7 = 2 then do_CMPS else do_CMPU)
     in Option.bind (compare_imm do_cmp cp thr) (cmpi_branch env jmp))"

section \<open>Dispatch\<close>

fun stack_exec :: "stack_fun \<Rightarrow> vthread \<Rightarrow> vthread option" where
  "stack_exec OF_ADD = of_ADD" | "stack_exec OF_AND = of_AND" | "stack_exec OF_ANDR = of_ANDR" | "stack_exec OF_BLEND = of_BLEND"
| "stack_exec OF_CAST2 = of_CAST2" | "stack_exec OF_CMPE = of_CMPE" | "stack_exec OF_CMPNE = of_CMPNE" | "stack_exec OF_CMPS = of_CMPS"
| "stack_exec OF_CMPU = of_CMPU" | "stack_exec OF_CMPWE = of_CMPWE" | "stack_exec OF_CMPWNE = of_CMPWNE" | "stack_exec OF_CMPX = of_CMPX"
| "stack_exec OF_CMPZ = of_CMPZ" | "stack_exec OF_CONCAT_VEC4 = of_CONCAT_VEC4" | "stack_exec OF_DUP_VEC4 = of_DUP_VEC4"
| "stack_exec OF_INV = of_INV" | "stack_exec OF_MUL = of_MUL" | "stack_exec OF_NAND = of_NAND" | "stack_exec OF_NANDR = of_NANDR"
| "stack_exec OF_NOR = of_NOR" | "stack_exec OF_NORR = of_NORR" | "stack_exec OF_OR = of_OR" | "stack_exec OF_ORR = of_ORR"
| "stack_exec OF_SUB = of_SUB" | "stack_exec OF_XNOR = of_XNOR" | "stack_exec OF_XNORR = of_XNORR" | "stack_exec OF_XOR = of_XOR"
| "stack_exec OF_XORR = of_XORR" | "stack_exec OF_DIV = of_DIV" | "stack_exec OF_DIV_S = of_DIV_S" | "stack_exec OF_MOD = of_MOD"
| "stack_exec OF_MOD_S = of_MOD_S" | "stack_exec OF_POW = of_POW" | "stack_exec OF_POW_S = of_POW_S"

fun vec_exec :: "vec_fun \<Rightarrow> vvp_code_s \<Rightarrow> vthread \<Rightarrow> vthread option" where
  "vec_exec OF_ADDI = of_ADDI" | "vec_exec OF_CMPIE = of_CMPIE" | "vec_exec OF_CMPINE = of_CMPINE" | "vec_exec OF_CMPIS = of_CMPIS"
| "vec_exec OF_CMPIU = of_CMPIU" | "vec_exec OF_CONCATI_VEC4 = of_CONCATI_VEC4" | "vec_exec OF_MULI = of_MULI"
| "vec_exec OF_PAD_S = of_PAD_S" | "vec_exec OF_PAD_U = of_PAD_U" | "vec_exec OF_PART_S = of_PART_base True"
| "vec_exec OF_PART_U = of_PART_base False" | "vec_exec OF_PARTI_S = of_PARTI_base True" | "vec_exec OF_PARTI_U = of_PARTI_base False"
| "vec_exec OF_POP_VEC4 = of_POP_VEC4" | "vec_exec OF_PUSH_IX_VEC4 = of_PUSH_IX_VEC4" | "vec_exec OF_PUSHI_VEC4 = of_PUSHI_VEC4"
| "vec_exec OF_REPLICATE = of_REPLICATE" | "vec_exec OF_SHIFTL = of_SHIFTL" | "vec_exec OF_SHIFTLI = of_SHIFTLI"
| "vec_exec OF_SHIFTR = of_SHIFTR" | "vec_exec OF_SHIFTRI = of_SHIFTRI" | "vec_exec OF_SHIFTR_S = of_SHIFTR_S"
| "vec_exec OF_SHIFTRI_S = of_SHIFTRI_S" | "vec_exec OF_SPLIT_VEC4 = of_SPLIT_VEC4" | "vec_exec OF_SUBI = of_SUBI"
| "vec_exec OF_XORI = of_XORI"

fun reg_exec :: "reg_fun \<Rightarrow> vvp_code_s \<Rightarrow> vthread \<Rightarrow> vthread option" where
  "reg_exec OF_CMPIX_LTU = of_CMPIX_LTU" | "reg_exec OF_CMPIX_SLT0 = of_CMPIX_SLT0" | "reg_exec OF_FLAG_GET_VEC4 = of_FLAG_GET_VEC4"
| "reg_exec OF_FLAG_INV = of_FLAG_INV" | "reg_exec OF_FLAG_MOV = of_FLAG_MOV" | "reg_exec OF_FLAG_OR = of_FLAG_OR"
| "reg_exec OF_FLAG_SET_IMM = of_FLAG_SET_IMM" | "reg_exec OF_FLAG_SET_VEC4 = of_FLAG_SET_VEC4" | "reg_exec OF_IX_ADD = of_IX_ADD"
| "reg_exec OF_IX_LOAD = of_IX_LOAD" | "reg_exec OF_IX_MOV = of_IX_MOV" | "reg_exec OF_IX_MUL = of_IX_MUL" | "reg_exec OF_IX_SUB = of_IX_SUB"
| "reg_exec OF_IX_VEC4 = of_IX_VEC4" | "reg_exec OF_IX_VEC4_S = of_IX_VEC4_S"

fun net_exec :: "net_fun \<Rightarrow> env \<Rightarrow> vvp_code_s \<Rightarrow> vthread \<Rightarrow> outcome" where
  "net_exec OF_ASSIGN_VEC4 env cp thr = of_ASSIGN_VEC4 cp thr" | "net_exec OF_CHUNK_LINK env cp thr = of_CHUNK_LINK cp thr"
| "net_exec OF_DELAY env cp thr = of_DELAY cp thr" | "net_exec OF_DELAYX env cp thr = of_DELAYX cp thr"
| "net_exec OF_IX_GETV env cp thr = goes_on (of_IX_GETV env cp thr)" | "net_exec OF_IX_GETV_S env cp thr = goes_on (of_IX_GETV_S env cp thr)"
| "net_exec OF_JMP env cp thr = of_JMP env cp thr" | "net_exec OF_JMP0 env cp thr = of_JMP0 env cp thr"
| "net_exec OF_JMP0XZ env cp thr = of_JMP0XZ env cp thr" | "net_exec OF_JMP1 env cp thr = of_JMP1 env cp thr"
| "net_exec OF_JMP1XZ env cp thr = of_JMP1XZ env cp thr" | "net_exec OF_LOAD_VEC4 env cp thr = goes_on (of_LOAD_VEC4 env cp thr)"
| "net_exec OF_NOOP env cp thr = Some (thr, [], True)" | "net_exec OF_STORE_VEC4 env cp thr = of_STORE_VEC4 env cp thr"
| "net_exec OF_STORE_VEC4_FULL env cp thr = of_STORE_VEC4_FULL env cp thr"

text \<open>Some fused opcodes read the slots around them.\<close>

fun fused_exec :: "fused_fun \<Rightarrow> env \<Rightarrow> codespace \<Rightarrow> vvp_code_t \<Rightarrow> vvp_code_s \<Rightarrow> vthread \<Rightarrow> outcome" where
  "fused_exec OF_ASSIGNI_VEC4 env code a cp thr = of_ASSIGNI_VEC4 cp thr"
| "fused_exec OF_CMPI_JMP env code a cp thr = Option.bind (code (code_add a 1)) (\<lambda>jmp. of_CMPI_JMP env cp jmp thr)"
| "fused_exec OF_CONCATI_WIDE env code a cp thr = goes_on (of_CONCATI_WIDE cp thr)"
| "fused_exec OF_FLAG_SETGET_VEC4 env code a cp thr = goes_on (of_FLAG_SETGET_VEC4 cp thr)"
| "fused_exec OF_LOAD_FLAG env code a cp thr = goes_on (of_LOAD_FLAG env cp thr)"
| "fused_exec OF_LOAD_PARTI_ADD env code a cp thr = goes_on (of_LOAD_PARTI_ADD env cp thr)"
| "fused_exec OF_LOAD_PARTI_CONCAT env code a cp thr = goes_on (of_LOAD_PARTI_CONCAT env cp thr)"
| "fused_exec OF_LOAD_PARTI_PAIR env code a cp thr =
    Option.bind (code (code_add a 2)) (\<lambda>rhs. goes_on (of_LOAD_PARTI_PAIR env cp rhs thr))"
| "fused_exec OF_LOAD_PARTI_PAIR_CONCAT env code a cp thr =
    Option.bind (code (code_add a 1)) (\<lambda>dead. Option.bind (code (code_add a 2)) (\<lambda>rhs. goes_on (of_LOAD_PARTI_PAIR_CONCAT env cp dead rhs thr)))"
| "fused_exec OF_LOAD_PARTI_REPLICATE env code a cp thr =
    (if snd a < 2 then None else Option.bind (code (fst a, snd a - 2)) (\<lambda>load. goes_on (of_LOAD_PARTI_REPLICATE env cp load thr)))"
| "fused_exec OF_LOAD_PARTI_S env code a cp thr = goes_on (of_LOAD_PARTI_base env cp thr)"
| "fused_exec OF_LOAD_PARTI_U env code a cp thr = goes_on (of_LOAD_PARTI_base env cp thr)"
| "fused_exec OF_LOAD_PARTI_XOR env code a cp thr = goes_on (of_LOAD_PARTI_XOR env cp thr)"
| "fused_exec OF_PUSHI_WIDE env code a cp thr = goes_on (of_PUSHI_WIDE cp thr)"

definition execute :: "env \<Rightarrow> codespace \<Rightarrow> vvp_code_t \<Rightarrow> vvp_code_s \<Rightarrow> vthread \<Rightarrow> outcome" where
  "execute env code a cp thr = (case opcode cp of
       STACK f \<Rightarrow> goes_on (stack_exec f thr)
     | VEC f \<Rightarrow> goes_on (vec_exec f cp thr)
     | REG f \<Rightarrow> goes_on (reg_exec f cp thr)
     | NETF f \<Rightarrow> net_exec f env cp thr
     | FUSED f \<Rightarrow> fused_exec f env code a cp thr)"

text \<open>One turn of the loop of \<^verbatim>\<open>vthread_run\<close>: fetch, step the program counter, run the handler.\<close>

definition vthread_step :: "env \<Rightarrow> codespace \<Rightarrow> vthread \<Rightarrow> outcome" where
  "vthread_step env code thr = Option.bind (code (thr_pc thr)) (\<lambda>cp.
     execute env code (thr_pc thr) cp (thr\<lparr>thr_pc := code_add (thr_pc thr) 1\<rparr>))"

text \<open>
  The loop, for at most \<open>n\<close> turns.  The effects of a turn are delivered to the environment one by one, by a function that stands for
  the nets and the scheduler, before the next turn.  The result says whether the thread is still running; it is
  \<open>None\<close> on an error.
\<close>

fun run_loop :: "(env \<Rightarrow> 'v vthread_s \<Rightarrow> 'v outcome_s) \<Rightarrow> (thr_effect \<Rightarrow> env \<Rightarrow> env) \<Rightarrow> nat \<Rightarrow> env \<Rightarrow> 'v vthread_s \<Rightarrow>
    (bool \<times> env \<times> 'v vthread_s \<times> thr_effect list) option" where
  "run_loop step deliver 0 env thr = Some (True, env, thr, [])"
| "run_loop step deliver (Suc n) env thr = Option.bind (step env thr) (\<lambda>(thr, acts, rc).
     if rc then map_option (\<lambda>(run, env, thr, acts'). (run, env, thr, acts @ acts')) (run_loop step deliver n (fold deliver acts env) thr)
     else Some (False, fold deliver acts env, thr, acts))"

definition vthread_loop :: "(thr_effect \<Rightarrow> env \<Rightarrow> env) \<Rightarrow> codespace \<Rightarrow> nat \<Rightarrow> env \<Rightarrow> vthread \<Rightarrow> (bool \<times> env \<times> vthread \<times> thr_effect list) option" where
  "vthread_loop deliver code = run_loop (\<lambda>env. vthread_step env code) deliver"

end
