(* ===== verification/Thread_Spec.thy ===== *)
theory Thread_Spec
  imports Thread_Run
begin

text \<open>
  What the opcodes of a thread mean, on lists of bits: the specification of each opcode as a partial function, defined
  where its operands have the widths the opcode is meant for, and the proof that the handlers implement it.
\<close>

section \<open>Values\<close>

type_synonym bits = "vvp_bit4_t list"

definition xz :: "bits \<Rightarrow> bool" where
  "xz l \<longleftrightarrow> list_ex bit4_is_xz l"

definition bitwise :: "(vvp_bit4_t \<Rightarrow> vvp_bit4_t \<Rightarrow> vvp_bit4_t) \<Rightarrow> bits \<Rightarrow> bits \<Rightarrow> bits option" where
  "bitwise f l r = (if length l = length r then Some (map2 f l r) else None)"

definition arith :: "(int \<Rightarrow> int \<Rightarrow> int) \<Rightarrow> bits \<Rightarrow> bits \<Rightarrow> bits option" where
  "arith f l r = (if length l = length r then
     Some (if xz l \<or> xz r then replicate (length l) BIT4_X else bits_of (length l) (f (bits_val l) (bits_val r))) else None)"

definition reduction :: "(bits \<Rightarrow> vvp_bit4_t) \<Rightarrow> bits \<Rightarrow> bits option" where
  "reduction f l = (if l \<noteq> [] then Some [f l] else None)"

definition imm_bits :: "nat \<Rightarrow> 32 word \<Rightarrow> 32 word \<Rightarrow> bits" where
  "imm_bits wid a b = map (\<lambda>i. bit4_of (bit a i) (bit b i)) [0..<wid]"

definition bool_bit :: "bool \<Rightarrow> vvp_bit4_t" where
  "bool_bit p = (if p then BIT4_1 else BIT4_0)"

text \<open>Equality: 0 if some bits are known and differ, x if it depends on an x or z bit; of the left operand only for \<^verbatim>\<open>==?\<close>.\<close>

definition eq_bits :: "bits \<Rightarrow> bits \<Rightarrow> vvp_bit4_t" where
  "eq_bits l r = (if list_ex (\<lambda>(a, b). a \<noteq> b \<and> \<not> bit4_is_xz a \<and> \<not> bit4_is_xz b) (zip l r) then BIT4_0
     else if xz l \<or> xz r then BIT4_X else BIT4_1)"

definition weq_bits :: "bits \<Rightarrow> bits \<Rightarrow> vvp_bit4_t" where
  "weq_bits l r = (if list_ex (\<lambda>(a, b). a \<noteq> b \<and> \<not> bit4_is_xz a \<and> \<not> bit4_is_xz b) (zip l r) then BIT4_0
     else if list_ex (\<lambda>(a, b). bit4_is_xz a \<and> \<not> bit4_is_xz b) (zip l r) then BIT4_X else BIT4_1)"

text \<open>The flags a comparison sets.\<close>

definition cmpe_flags :: "bits \<Rightarrow> bits \<Rightarrow> (nat \<times> vvp_bit4_t) list option" where
  "cmpe_flags l r = (if length l = length r then Some [(4, eq_bits l r), (6, bool_bit (l = r))] else None)"

definition cmpne_flags :: "bits \<Rightarrow> bits \<Rightarrow> (nat \<times> vvp_bit4_t) list option" where
  "cmpne_flags l r = (if length l = length r then Some [(4, bit4_not (eq_bits l r)), (6, bool_bit (l \<noteq> r))] else None)"

definition cmps_flags :: "bits \<Rightarrow> bits \<Rightarrow> (nat \<times> vvp_bit4_t) list option" where
  "cmps_flags l r = (if length l = length r \<and> l \<noteq> [] then Some
     (if xz l \<or> xz r then [(4, BIT4_X), (5, BIT4_X), (6, bool_bit (l = r))]
      else [(4, bool_bit (l = r)), (5, bool_bit (bits_sval l < bits_sval r)), (6, bool_bit (l = r))]) else None)"

definition cmpu_flags :: "bits \<Rightarrow> bits \<Rightarrow> (nat \<times> vvp_bit4_t) list option" where
  "cmpu_flags l r = (if length l = length r \<and> l \<noteq> [] then Some
     (if xz l \<or> xz r then [(4, eq_bits l r), (5, BIT4_X), (6, bool_bit (l = r))]
      else [(4, bool_bit (l = r)), (5, bool_bit (bits_val l < bits_val r)), (6, bool_bit (l = r))]) else None)"

definition cmpwe_flags :: "bits \<Rightarrow> bits \<Rightarrow> (nat \<times> vvp_bit4_t) list option" where
  "cmpwe_flags l r = (if length l = length r then Some [(4, weq_bits l r)] else None)"

definition cmpwne_flags :: "bits \<Rightarrow> bits \<Rightarrow> (nat \<times> vvp_bit4_t) list option" where
  "cmpwne_flags l r = (if length l = length r then Some [(4, bit4_not (weq_bits l r))] else None)"

definition match_flags :: "(vvp_bit4_t \<Rightarrow> bool) \<Rightarrow> bits \<Rightarrow> bits \<Rightarrow> (nat \<times> vvp_bit4_t) list option" where
  "match_flags any l r = (if length l = length r then
     Some [(4, bool_bit (list_all (\<lambda>(a, b). a = b \<or> any a \<or> any b) (zip l r)))] else None)"

text \<open>Concatenation and replication, within the widths a vector can have.\<close>

definition joined :: "bits \<Rightarrow> bits \<Rightarrow> bits option" where
  "joined l r = (if length l + length r < 2 ^ 32 then Some (r @ l) else None)"

definition copies :: "nat \<Rightarrow> bits \<Rightarrow> bits option" where
  "copies n l = (if n < 2 ^ 31 \<and> length l * n < 2 ^ 32 \<and> (l \<noteq> [] \<or> n = 0) then Some (concat (replicate n l)) else None)"

text \<open>A part of a value, x outside of it; a part select is defined where the sums of its widths are positive as \<^verbatim>\<open>int32_t\<close>.\<close>

definition select :: "nat \<Rightarrow> int \<Rightarrow> bits \<Rightarrow> bits" where
  "select wid base l = map (\<lambda>i. let j = base + int i in if 0 \<le> j \<and> j < int (length l) then l ! nat j else BIT4_X) [0..<wid]"

definition part_fits :: "nat \<Rightarrow> bits \<Rightarrow> bool" where
  "part_fits wid l \<longleftrightarrow> 0 < wid \<and> length l + wid < 2 ^ 31"

section \<open>The values of vectors\<close>

lemma xz_v4: "v4_inv v \<Longrightarrow> v4_has_xz v \<longleftrightarrow> xz (v4_list v)"
  by (simp add: v4_has_xz_list xz_def)

lemma bool_bit_not [simp]: "bit4_not (bool_bit p) = bool_bit (\<not> p)"
  by (simp add: bool_bit_def bit4_simps)

lemma v4_immediate_list:
  "v4_inv (v4_immediate wid a b)" "v4_size (v4_immediate wid a b) = wid"
  "v4_list (v4_immediate wid a b) = map (\<lambda>i. if i < 64 then bit4_of (bit a i) (bit b i) else BIT4_0) [0..<wid]"
proof -
  let ?v = "allocate_words wid 0 0" and ?m = "if wid < BITS_PER_WORD then lomask wid else - 1 :: ulong"
  have inv: "v4_inv ?v" by (rule allocate_words_inv)
  show v: "v4_inv (v4_immediate wid a b)"
    unfolding v4_immediate_def Let_def by (rule v4_update_inv [OF inv]) simp_all
  show n: "v4_size (v4_immediate wid a b) = wid" by (simp add: v4_immediate_def Let_def)
  have z: "pbit (v4_abits ?v) i = False" "pbit (v4_bbits ?v) i = False" if "i < wid" for i
    using allocate_words_value [OF that, of 0 0] that by (simp_all add: v4_value_pbit [OF inv])
  have m: "bit ?m i \<longleftrightarrow> i < 64" if "i < wid" for i using that by auto
  have p: "pbit (ws[0 := x]) i = (if i < 64 then bit x i else pbit ws i)" if "0 < length ws" for ws :: plane and x i
    using that by (auto simp: pbit_def nth_list_update)
  have len: "0 < length (v4_abits ?v)" "0 < length (v4_bbits ?v)" using v4_inv_len [OF inv] by simp_all
  have planes: "v4_abits (v4_immediate wid a b) = (v4_abits ?v)[0 := a AND ?m]" "v4_bbits (v4_immediate wid a b) = (v4_bbits ?v)[0 := b AND ?m]"
    by (simp_all add: v4_immediate_def Let_def)
  have "v4_value (v4_immediate wid a b) i = (if i < 64 then bit4_of (bit a i) (bit b i) else BIT4_0)" if i: "i < wid" for i
    unfolding v4_value_pbit [OF v] n planes p [OF len(1)] p [OF len(2)] bit_and_iff using i z [OF i] m [OF i] by simp
  with n show "v4_list (v4_immediate wid a b) = map (\<lambda>i. if i < 64 then bit4_of (bit a i) (bit b i) else BIT4_0) [0..<wid]"
    by (intro v4_listI) simp_all
qed

lemma immediate_list:
  assumes "immediate cp = Some v"
  obtains wid where "code_unsigned cp = Some wid" and "v4_inv v" and "v4_list v = imm_bits wid (bit_idx0 cp) (bit_idx1 cp)"
proof -
  obtain wid where w: "code_unsigned cp = Some wid" "v = v4_immediate wid (ucast (bit_idx0 cp)) (ucast (bit_idx1 cp))"
    using assms by (auto simp: immediate_def)
  have "bit4_of (bit (ucast x :: ulong) i) (bit (ucast y :: ulong) i) = bit4_of (bit x i) (bit y i)" for x y :: "32 word" and i
    using bit_imp_le_length [of x i] bit_imp_le_length [of y i] by (auto simp: bit_ucast_iff)
  moreover have "bit4_of (bit x i) (bit y i) = BIT4_0" if "\<not> i < 64" for x y :: "32 word" and i
    using that bit_imp_le_length [of x i] bit_imp_le_length [of y i] by auto
  ultimately show thesis
    using that [OF w(1)] v4_immediate_list [of wid "ucast (bit_idx0 cp)" "ucast (bit_idx1 cp)"] by (simp add: w(2) imm_bits_def)
qed

section \<open>Comparisons\<close>

lemma known_bit: "\<not> bit4_is_xz b \<longleftrightarrow> b = BIT4_0 \<or> b = BIT4_1"
  by (cases b) (simp_all add: bit4_simps)

definition differ :: "vvp_vector4_t \<Rightarrow> vvp_vector4_t \<Rightarrow> nat \<Rightarrow> bool" where
  "differ l r i \<longleftrightarrow> v4_value l i \<noteq> v4_value r i \<and> \<not> bit4_is_xz (v4_value l i) \<and> \<not> bit4_is_xz (v4_value r i)"

definition unsure :: "vvp_vector4_t \<Rightarrow> vvp_vector4_t \<Rightarrow> nat \<Rightarrow> bool" where
  "unsure l r i \<longleftrightarrow> bit4_is_xz (v4_value l i) \<or> bit4_is_xz (v4_value r i)"

definition wild :: "vvp_vector4_t \<Rightarrow> vvp_vector4_t \<Rightarrow> nat \<Rightarrow> bool" where
  "wild l r i \<longleftrightarrow> bit4_is_xz (v4_value l i) \<and> \<not> bit4_is_xz (v4_value r i)"

lemma cmpe_loop:
  assumes "eq = BIT4_1 \<or> eq = BIT4_X"
  shows "cmpe_loop l r is (eq, eeq) =
    (if \<exists>i \<in> set is. differ l r i then BIT4_0 else if \<exists>i \<in> set is. unsure l r i then BIT4_X else eq,
     if \<exists>i \<in> set is. v4_value l i \<noteq> v4_value r i then BIT4_0 else eeq)"
  using assms
proof (induction "is" arbitrary: eq eeq)
  case (Cons i "is")
  have step: "cmpe_loop l r (i # is) (eq, eeq) = (if differ l r i then (BIT4_0, BIT4_0) else cmpe_loop l r is
      (if unsure l r i then BIT4_X else eq, if v4_value l i \<noteq> v4_value r i then BIT4_0 else eeq))"
    using Cons.prems by (elim disjE; cases "v4_value l i"; cases "v4_value r i"; simp add: differ_def unsure_def)
  have d: "(if P then BIT4_X else eq) = BIT4_1 \<or> (if P then BIT4_X else eq) = BIT4_X" for P using Cons.prems by simp
  have "differ l r i \<Longrightarrow> v4_value l i \<noteq> v4_value r i" by (simp add: differ_def)
  then show ?case unfolding step Cons.IH [OF d] by simp
qed simp

lemma cmpwe_loop:
  assumes "eq = BIT4_1 \<or> eq = BIT4_X"
  shows "cmpwe_loop l r is eq =
    (if \<exists>i \<in> set is. differ l r i then BIT4_0 else if \<exists>i \<in> set is. wild l r i then BIT4_X else eq)"
  using assms
proof (induction "is" arbitrary: eq)
  case (Cons i "is")
  have step: "cmpwe_loop l r (i # is) eq = (if differ l r i then BIT4_0 else cmpwe_loop l r is (if wild l r i then BIT4_X else eq))"
    using Cons.prems by (elim disjE; cases "v4_value l i"; cases "v4_value r i"; simp add: differ_def wild_def)
  have d: "(if P then BIT4_X else eq) = BIT4_1 \<or> (if P then BIT4_X else eq) = BIT4_X" for P using Cons.prems by simp
  show ?case unfolding step Cons.IH [OF d] by simp
qed simp

lemma zip_ex: "length l = length r \<Longrightarrow> list_ex P (zip l r) \<longleftrightarrow> (\<exists>i < length l. P (l ! i, r ! i))"
  by (auto simp: list_ex_length)

lemma zip_v4_lists:
  assumes "v4_size l = v4_size r"
  shows "list_ex P (zip (v4_list l) (v4_list r)) \<longleftrightarrow> (\<exists>i < v4_size l. P (v4_value l i, v4_value r i))"
    and "list_all P (zip (v4_list l) (v4_list r)) \<longleftrightarrow> (\<forall>i < v4_size l. P (v4_value l i, v4_value r i))"
  using assms by (auto simp: list_ex_length list_all_length)

lemma xz_values: "xz (v4_list v) \<longleftrightarrow> (\<exists>i < v4_size v. bit4_is_xz (v4_value v i))"
  by (auto simp: xz_def list_ex_length)

lemma any_upt: "(\<exists>i \<in> set [0..<n]. P i) \<longleftrightarrow> (\<exists>i < n. P i)"
  by auto

lemma cmpe_scan:
  assumes "v4_size l = v4_size r"
  shows "cmpe_loop l r [0..<v4_size l] (BIT4_1, BIT4_1) = (eq_bits (v4_list l) (v4_list r), bool_bit (v4_list l = v4_list r))"
proof -
  have "xz (v4_list l) \<or> xz (v4_list r) \<longleftrightarrow> (\<exists>i < v4_size l. unsure l r i)"
    using assms by (auto simp: xz_values unsure_def)
  moreover have "list_ex (\<lambda>(a, b). a \<noteq> b \<and> \<not> bit4_is_xz a \<and> \<not> bit4_is_xz b) (zip (v4_list l) (v4_list r)) \<longleftrightarrow> (\<exists>i < v4_size l. differ l r i)"
    by (simp add: zip_v4_lists [OF assms] differ_def)
  moreover have "bool_bit (v4_list l = v4_list r) = (if \<exists>i < v4_size l. v4_value l i \<noteq> v4_value r i then BIT4_0 else BIT4_1)"
    using assms by (simp add: v4_list_eq_iff bool_bit_def)
  ultimately show ?thesis
    unfolding cmpe_loop [OF disjI1 [OF refl]] any_upt eq_bits_def by (simp only:)
qed

lemma eq_bits_known:
  assumes "length l = length r" and "\<not> xz l" and "\<not> xz r"
  shows "eq_bits l r = bool_bit (l = r)"
proof -
  have k: "\<not> bit4_is_xz (l ! i)" "\<not> bit4_is_xz (r ! i)" if "i < length l" for i
    using assms that by (auto simp: xz_def list_ex_length)
  have "list_ex (\<lambda>(a, b). a \<noteq> b \<and> \<not> bit4_is_xz a \<and> \<not> bit4_is_xz b) (zip l r) \<longleftrightarrow> l \<noteq> r"
    unfolding zip_ex [OF assms(1)] list_eq_iff_nth_eq using assms(1) k by auto
  with assms show ?thesis by (auto simp: eq_bits_def bool_bit_def)
qed

lemma weq_bits_known:
  assumes "length l = length r" and "\<not> xz l" and "\<not> xz r"
  shows "weq_bits l r = bool_bit (l = r)"
proof -
  have "\<not> list_ex (\<lambda>(a, b). bit4_is_xz a \<and> \<not> bit4_is_xz b) (zip l r)"
    using assms by (auto simp: xz_def list_ex_length)
  with eq_bits_known [OF assms] assms show ?thesis by (simp add: eq_bits_def weq_bits_def split: if_splits)
qed

lemma cmpwe_scan:
  assumes "v4_size l = v4_size r"
  shows "cmpwe_loop l r [0..<v4_size l] BIT4_1 = weq_bits (v4_list l) (v4_list r)"
proof -
  have "list_ex (\<lambda>(a, b). a \<noteq> b \<and> \<not> bit4_is_xz a \<and> \<not> bit4_is_xz b) (zip (v4_list l) (v4_list r)) \<longleftrightarrow> (\<exists>i < v4_size l. differ l r i)"
    "list_ex (\<lambda>(a, b). bit4_is_xz a \<and> \<not> bit4_is_xz b) (zip (v4_list l) (v4_list r)) \<longleftrightarrow> (\<exists>i < v4_size l. wild l r i)"
    by (simp_all add: zip_v4_lists [OF assms] differ_def wild_def)
  then show ?thesis unfolding cmpwe_loop [OF disjI1 [OF refl]] any_upt weq_bits_def by (simp only:)
qed

lemma bits_val_inj:
  assumes "length l = length r" and "\<not> xz l" and "\<not> xz r"
  shows "bits_val l = bits_val r \<longleftrightarrow> l = r"
proof
  assume eq: "bits_val l = bits_val r"
  show "l = r"
  proof (rule nth_equalityI)
    fix i assume i: "i < length l"
    then have "\<not> bit4_is_xz (l ! i)" "\<not> bit4_is_xz (r ! i)" using assms by (auto simp: xz_def list_ex_length)
    moreover have "l ! i = BIT4_1 \<longleftrightarrow> r ! i = BIT4_1" using arg_cong [OF eq, of "\<lambda>k. bit k i"] i assms(1) by (simp add: bit_bits_val)
    ultimately show "l ! i = r ! i" by (auto simp: known_bit)
  qed (rule assms(1))
qed simp

text \<open>The unsigned comparison scans words from the low end.\<close>

lemma cmpu_loop_append: "cmpu_loop l r (is @ js) s = cmpu_loop l r js (cmpu_loop l r is s)"
  by (induction l r "is" s rule: cmpu_loop.induct) auto

lemma cmpu_loop:
  assumes "k \<le> length l" and "k \<le> length r"
  shows "cmpu_loop l r [0..<k] (BIT4_1, BIT4_0) =
    (bool_bit (pval (take k l) = pval (take k r)), bool_bit (pval (take k l) < pval (take k r)))"
  using assms
proof (induction k)
  case (Suc k)
  define x y where "x = pval (take k l)" and "y = pval (take k r)"
  have xy: "0 \<le> x" "0 \<le> y" "x < 2 ^ (64 * k)" "y < 2 ^ (64 * k)"
    using pval_lt [of "take k l"] pval_lt [of "take k r"] Suc.prems by (simp_all add: x_def y_def min_def)
  have step: "pval (take (Suc k) l) = x + 2 ^ (64 * k) * uint (l ! k)" "pval (take (Suc k) r) = y + 2 ^ (64 * k) * uint (r ! k)"
    using Suc.prems by (simp_all add: pval_take_Suc x_def y_def)
  have dom: "x + 2 ^ (64 * k) * a < y + 2 ^ (64 * k) * b" if "a < b" for a b :: int
  proof -
    have "2 ^ (64 * k) * a + 2 ^ (64 * k) \<le> 2 ^ (64 * k) * b" using that mult_left_mono [of "a + 1" b "2 ^ (64 * k) :: int"] by (simp add: distrib_left)
    then show ?thesis using xy by linarith
  qed
  have dom': "y + 2 ^ (64 * k) * b < x + 2 ^ (64 * k) * a" if "b < a" for a b :: int
  proof -
    have "2 ^ (64 * k) * b + 2 ^ (64 * k) \<le> 2 ^ (64 * k) * a" using that mult_left_mono [of "b + 1" a "2 ^ (64 * k) :: int"] by (simp add: distrib_left)
    then show ?thesis using xy by linarith
  qed
  consider "l ! k = r ! k" | "l ! k < r ! k" | "r ! k < l ! k" by fastforce
  then show ?case
  proof cases
    case 2
    then have "l ! k \<noteq> r ! k" by auto
    with 2 dom [of "uint (l ! k)" "uint (r ! k)"] show ?thesis using Suc by (simp add: cmpu_loop_append step bool_bit_def word_less_def)
  next
    case 3
    then have "l ! k \<noteq> r ! k" by auto
    with 3 dom' [of "uint (r ! k)" "uint (l ! k)"] show ?thesis using Suc by (simp add: cmpu_loop_append step bool_bit_def word_less_def)
  qed (use Suc in \<open>simp add: cmpu_loop_append step x_def y_def\<close>)
qed (simp add: bool_bit_def)

lemma subarray_value:
  assumes "v4_inv v" and "0 < v4_size v"
  shows "v4_subarray v 0 (v4_size v) False = None \<longleftrightarrow> xz (v4_list v)"
    and "v4_subarray v 0 (v4_size v) False = Some a \<Longrightarrow> length a = words_for (v4_size v) \<and> pval a = bits_val (v4_list v)"
proof -
  let ?s = "v4_subarray v 0 (v4_size v) False"
  have some: "\<exists>a. ?s = Some a \<and> length a = words_for (v4_size v) \<and> pval a = bits_val (v4_list v)" if "\<not> xz (v4_list v)"
  proof -
    have "\<forall>j < v4_size v. \<not> bit4_is_xz (v4_value v (0 + j))" using that by (auto simp: xz_values)
    then obtain a where a: "?s = Some a" "length a = words_for (v4_size v)"
      "\<And>i. i < 64 * words_for (v4_size v) \<Longrightarrow> pbit a i \<longleftrightarrow> i < v4_size v \<and> v4_value v i = BIT4_1"
      using v4_subarray_some [OF assms(1) _ assms(2), of 0 False] by auto
    have "v4_size v \<le> 64 * words_for (v4_size v)" by (simp add: words_for_def)
    then have "pval a = bits_val (v4_list v)"
      using a(2,3) by (intro bit_eqI) (auto simp: bit_pval bit_bits_val)
    with a show ?thesis by blast
  qed
  have none: "?s = None" if x: "xz (v4_list v)"
  proof -
    obtain j where j: "j < v4_size v" "bit4_is_xz (v4_value v (0 + j))" using x by (auto simp: xz_values)
    show ?thesis by (rule v4_subarray_none [OF assms(1) _ j]) simp
  qed
  from some none show "?s = None \<longleftrightarrow> xz (v4_list v)" by (cases "xz (v4_list v)") auto
  show "?s = Some a \<Longrightarrow> length a = words_for (v4_size v) \<and> pval a = bits_val (v4_list v)"
    using some none by (cases "xz (v4_list v)") auto
qed

lemma set_flags_swap: "i \<noteq> j \<Longrightarrow> set_flags [(i, a), (j, b)] thr = set_flags [(j, b), (i, a)] thr"
  by (simp add: set_flags_def list_update_swap)

lemma do_CMPE_flags:
  assumes "v4_inv l" and "v4_inv r" and "cmpe_flags (v4_list l) (v4_list r) = Some fs"
  shows "do_CMPE l r thr = Some (set_flags fs thr)"
proof -
  have n: "v4_size l = v4_size r" and fs: "fs = [(4, eq_bits (v4_list l) (v4_list r)), (6, bool_bit (v4_list l = v4_list r))]"
    using assms(3) by (simp_all add: cmpe_flags_def split: if_splits)
  have "bool_bit (v4_list l = v4_list r) = (if v4_eeq l r then BIT4_1 else BIT4_0)" by (simp add: bool_bit_def v4_eeq_list assms)
  then show ?thesis
    using n cmpe_scan [OF n] eq_bits_known [of "v4_list l" "v4_list r"]
    by (auto simp: do_CMPE_def fs xz_v4 assms Let_def set_flags_swap [of 6 4])
qed

lemma do_CMPWE_flags:
  assumes "v4_inv l" and "v4_inv r" and "cmpwe_flags (v4_list l) (v4_list r) = Some fs"
  shows "do_CMPWE l r thr = Some (set_flags fs thr)"
proof -
  have n: "v4_size l = v4_size r" and fs: "fs = [(4, weq_bits (v4_list l) (v4_list r))]"
    using assms(3) by (simp_all add: cmpwe_flags_def split: if_splits)
  have "bool_bit (v4_list l = v4_list r) = (if v4_eeq l r then BIT4_1 else BIT4_0)" by (simp add: bool_bit_def v4_eeq_list assms)
  then show ?thesis
    using n cmpwe_scan [OF n] weq_bits_known [of "v4_list l" "v4_list r"] by (simp add: do_CMPWE_def fs xz_v4 assms)
qed

lemma do_CMPU_flags:
  assumes "v4_inv l" and "v4_inv r" and "cmpu_flags (v4_list l) (v4_list r) = Some fs"
  shows "do_CMPU l r thr = Some (set_flags fs thr)"
proof -
  let ?x = "xz (v4_list l) \<or> xz (v4_list r)"
  have n: "v4_size l = v4_size r" and pos: "0 < v4_size l" "0 < v4_size r"
    using assms(3) by (auto simp: cmpu_flags_def split: if_splits)
  note sl = subarray_value [OF assms(1) pos(1)] and sr = subarray_value [OF assms(2) pos(2)]
  show ?thesis
  proof (cases ?x)
    case True
    then have "do_CMPU l r thr = Some (of_CMPU_the_hard_way (v4_size l) l r thr)"
      using sl(1) sr(1) n by (auto simp: do_CMPU_def Let_def split: option.split)
    with True assms(3) show ?thesis by (simp add: of_CMPU_the_hard_way_def cmpe_scan [OF n] cmpu_flags_def split: if_splits)
  next
    case False
    then obtain a b where ab: "v4_subarray l 0 (v4_size l) False = Some a" "v4_subarray r 0 (v4_size r) False = Some b"
      using sl(1) sr(1) by fastforce
    have len: "length a = words_for (v4_size l)" "length b = words_for (v4_size l)"
      and val: "pval a = bits_val (v4_list l)" "pval b = bits_val (v4_list r)"
      using sl(2) [OF ab(1)] sr(2) [OF ab(2)] n by simp_all
    have "cmpu_loop a b [0..<words_for (v4_size l)] (BIT4_1, BIT4_0) = (bool_bit (v4_list l = v4_list r), bool_bit (bits_val (v4_list l) < bits_val (v4_list r)))"
      using cmpu_loop [of "words_for (v4_size l)" a b] len val bits_val_inj [of "v4_list l" "v4_list r"] n False by simp
    with ab n False assms(3) show ?thesis by (auto simp: do_CMPU_def Let_def cmpu_flags_def split: if_splits)
  qed
qed

text \<open>The signed comparison looks at the signs first, then at the rest as a number.\<close>

lemma cmps_loop:
  assumes "k \<le> v4_size l" and n: "v4_size l = v4_size r" and nx: "\<not> xz (v4_list l)" "\<not> xz (v4_list r)"
  shows "cmps_loop l r (v4_size l) [v4_size l - k..<v4_size l] =
    (if bits_val (take k (v4_list l)) = bits_val (take k (v4_list r)) then None
     else Some (bool_bit (bits_val (take k (v4_list l)) < bits_val (take k (v4_list r)))))"
  using assms(1)
proof (induction k)
  case (Suc k)
  define x y where "x = bits_val (take k (v4_list l))" and "y = bits_val (take k (v4_list r))"
  have xy: "x < 2 ^ k" "y < 2 ^ k" "0 \<le> x" "0 \<le> y"
    using bits_val_lt [of "take k (v4_list l)"] bits_val_lt [of "take k (v4_list r)"] Suc.prems n
    by (simp_all add: min_def x_def y_def)
  have k: "v4_value l k = BIT4_0 \<or> v4_value l k = BIT4_1" "v4_value r k = BIT4_0 \<or> v4_value r k = BIT4_1"
    using nx Suc.prems n unfolding known_bit [symmetric] xz_values by (auto simp: Suc_le_eq)
  have u: "[v4_size l - Suc k..<v4_size l] = (v4_size l - Suc k) # [v4_size l - k..<v4_size l]"
    using Suc.prems by (simp add: upt_rec [of "v4_size l - Suc k"] Suc_diff_Suc Suc_le_eq)
  have i: "v4_size l - 1 - (v4_size l - Suc k) = k" using Suc.prems by simp
  have t: "bits_val (take (Suc k) (v4_list l)) = x + 2 ^ k * of_bool (v4_value l k = BIT4_1)"
    "bits_val (take (Suc k) (v4_list r)) = y + 2 ^ k * of_bool (v4_value r k = BIT4_1)"
    using Suc.prems n by (simp_all add: bits_val_take_Suc x_def y_def)
  show ?case
    unfolding u cmps_loop.simps i Let_def t using k Suc xy by (auto simp: bool_bit_def x_def [symmetric] y_def [symmetric])
qed simp

lemma low_word_value:
  assumes "v4_inv v" and "\<not> xz (v4_list v)" and "v4_size v \<le> 64"
  shows "uint (abits_word v 0 AND (if v4_size v = BITS_PER_WORD then - 1 else push_bit (v4_size v) 1 - 1)) = bits_val (v4_list v)"
proof -
  have "length (v4_abits v) = 1" using assms v4_inv_short by blast
  then have w: "v4_abits v = [v4_abits v ! 0]" by (cases "v4_abits v") auto
  have m: "(if v4_size v = BITS_PER_WORD then - 1 else push_bit (v4_size v) 1 - 1 :: ulong) = mask (v4_size v)"
    by (simp add: mask_eq_exp_minus_1 push_bit_eq_mult)
  have "bits_val (v4_list v) = take_bit (v4_size v) (pval (v4_abits v))" using v4_pval assms xz_v4 by blast
  also have "\<dots> = take_bit (v4_size v) (uint (v4_abits v ! 0))" by (subst w) simp
  finally show ?thesis unfolding m using assms(3) by (simp add: abits_word_def take_bit_eq_mask [symmetric] unsigned_take_bit_eq)
qed

lemma do_CMPS_flags:
  assumes "v4_inv l" and "v4_inv r" and "cmps_flags (v4_list l) (v4_list r) = Some fs"
  shows "do_CMPS l r thr = Some (set_flags fs thr)"
proof -
  let ?n = "v4_size l"
  have n: "?n = v4_size r" and pos: "0 < ?n" using assms(3) by (auto simp: cmps_flags_def split: if_splits)
  have eeq: "bool_bit (v4_list l = v4_list r) = (if v4_eeq l r then BIT4_1 else BIT4_0)" by (simp add: bool_bit_def v4_eeq_list assms)
  show ?thesis
  proof (cases "xz (v4_list l) \<or> xz (v4_list r)")
    case True
    then show ?thesis using assms n by (simp add: do_CMPS_def cmps_flags_def xz_v4 eeq split: if_splits)
  next
    case False
    define x y where "x = bits_val (v4_list l)" and "y = bits_val (v4_list r)"
    have nx: "\<not> xz (v4_list l)" "\<not> xz (v4_list r)" using False by simp_all
    have lt: "0 \<le> x" "x < 2 ^ ?n" "0 \<le> y" "y < 2 ^ ?n"
      using bits_val_lt [of "v4_list l"] bits_val_lt [of "v4_list r"] n by (simp_all add: x_def y_def)
    have k: "v4_value l (?n - 1) = BIT4_0 \<or> v4_value l (?n - 1) = BIT4_1" "v4_value r (?n - 1) = BIT4_0 \<or> v4_value r (?n - 1) = BIT4_1"
      using nx pos n unfolding known_bit [symmetric] xz_values by auto
    have sv: "bits_sval (v4_list l) = x - (if v4_value l (?n - 1) = BIT4_1 then 2 ^ ?n else 0)"
      "bits_sval (v4_list r) = y - (if v4_value r (?n - 1) = BIT4_1 then 2 ^ ?n else 0)"
      using last_v4_list [of l] last_v4_list [of r] pos n by (auto simp: bits_sval_def x_def y_def)
    have eq: "v4_list l = v4_list r \<longleftrightarrow> x = y" using bits_val_inj [of "v4_list l" "v4_list r"] nx n by (simp add: x_def y_def)
    have fs: "fs = [(4, bool_bit (x = y)), (5, bool_bit (bits_sval (v4_list l) < bits_sval (v4_list r))), (6, bool_bit (x = y))]"
      using assms(3) False by (simp add: cmps_flags_def eq split: if_splits)
    have top: "x = bits_val (take (?n - 1) (v4_list l)) + 2 ^ (?n - 1) * of_bool (v4_value l (?n - 1) = BIT4_1)"
      "y = bits_val (take (?n - 1) (v4_list r)) + 2 ^ (?n - 1) * of_bool (v4_value r (?n - 1) = BIT4_1)"
      using bits_val_take_Suc [of "?n - 1" "v4_list l"] bits_val_take_Suc [of "?n - 1" "v4_list r"] pos n by (simp_all add: x_def y_def)
    have loop: "cmps_loop l r ?n [1..<?n] = (if x = y then None else Some (bool_bit (x < y)))" if "v4_value l (?n - 1) = v4_value r (?n - 1)"
      using cmps_loop [of "?n - 1" l r] n nx pos that top by (simp add: diff_diff_cancel Suc_le_eq)
    show ?thesis
    proof (cases "v4_value l (?n - 1) = v4_value r (?n - 1)")
      case True
      have "do_CMPS l r thr = Some (set_flags [(4, bool_bit (x = y)), (5, bool_bit (x < y)), (6, bool_bit (x = y))] thr)"
      proof (cases "?n \<le> 64")
        case small: True
        define la ra where "la = abits_word l 0 AND (if ?n = BITS_PER_WORD then - 1 else push_bit ?n 1 - 1)"
          and "ra = abits_word r 0 AND (if ?n = BITS_PER_WORD then - 1 else push_bit ?n 1 - 1)"
        have "uint la = x" unfolding la_def x_def by (rule low_word_value [OF assms(1) nx(1) small])
        moreover have "uint ra = y" unfolding ra_def y_def n using small n by (intro low_word_value assms(2) nx(2)) simp
        ultimately have ord: "la = ra \<longleftrightarrow> x = y" "la < ra \<longleftrightarrow> x < y" by (auto simp: word_less_def word_uint_eq_iff)
        have "do_CMPS l r thr = Some (set_flags [(4, if la = ra then BIT4_1 else BIT4_0), (5, if la < ra then BIT4_1 else BIT4_0),
            (6, if la = ra then BIT4_1 else BIT4_0)] thr)"
          unfolding do_CMPS_def Let_def la_def [symmetric] ra_def [symmetric] using small n k True nx assms(1,2) by (auto simp: xz_v4)
        then show ?thesis by (simp add: ord bool_bit_def)
      next
        case False
        then show ?thesis using loop [OF True] n k True nx assms(1,2)
          by (auto simp: do_CMPS_def xz_v4 Let_def bool_bit_def set_flags_def list_update_swap [of 5 6])
      qed
      moreover have "bits_sval (v4_list l) < bits_sval (v4_list r) \<longleftrightarrow> x < y" using True by (simp add: sv)
      ultimately show ?thesis by (simp add: fs)
    next
      case False
      have ne: "x \<noteq> y" unfolding eq [symmetric] v4_list_eq_iff using False pos n by (auto intro!: exI [of _ "v4_size r - Suc 0"])
      from k False consider "v4_value l (?n - 1) = BIT4_1 \<and> v4_value r (?n - 1) = BIT4_0" | "v4_value l (?n - 1) = BIT4_0 \<and> v4_value r (?n - 1) = BIT4_1"
        by auto
      then show ?thesis
      proof cases
        case 1
        then have "bits_sval (v4_list l) < bits_sval (v4_list r)" using sv lt by simp
        with 1 ne n nx assms(1,2) show ?thesis by (simp add: do_CMPS_def xz_v4 Let_def fs bool_bit_def)
      next
        case 2
        then have "\<not> bits_sval (v4_list l) < bits_sval (v4_list r)" using sv lt by simp
        with 2 ne n nx assms(1,2) show ?thesis by (simp add: do_CMPS_def xz_v4 Let_def fs bool_bit_def)
      qed
    qed
  qed
qed

end
