(* ===== verification/Thread_Quot.thy ===== *)
theory Thread_Quot
  imports Thread_Spec
begin

text \<open>
  What the opcodes that divide and raise to a power mean, on lists of bits, and the proof that their handlers compute it.  The division of
  vectors of more than 64 bits is specified where \<^verbatim>\<open>divide_bits\<close> finds every digit; elsewhere it gives wrong quotients.
\<close>

section \<open>Specifications\<close>

definition quotient :: "bool \<Rightarrow> bits \<Rightarrow> bits \<Rightarrow> bits option" where
  "quotient sg l r =
    (let n = length l; x = number sg l; y = number sg r in
     if length r \<noteq> n \<or> n = 0 then None
     else if xz l \<or> xz r \<or> y = 0 then Some (replicate n BIT4_X)
     else if n \<le> 64 \<or> digits_ok (words_for n) \<bar>x\<bar> \<bar>y\<bar> then Some (bits_of n (x sdiv y)) else None)"

definition remainder :: "bool \<Rightarrow> bits \<Rightarrow> bits \<Rightarrow> bits option" where
  "remainder sg l r =
    (let n = length l; x = number sg l; y = number sg r in
     if length r \<noteq> n \<or> n = 0 then None
     else Some (if xz l \<or> xz r \<or> y = 0 then replicate n BIT4_X else bits_of n (x smod y)))"

text \<open>A negative exponent has the table of the standard, as long as the base fits in an \<^verbatim>\<open>int\<close>.\<close>

definition raise :: "bool \<Rightarrow> bits \<Rightarrow> bits \<Rightarrow> bits option" where
  "raise sg l r =
    (let n = length l; x = number sg l; y = number sg r in
     if n = 0 \<or> r = [] then None
     else Some (if xz l \<or> xz r then replicate n BIT4_X
       else if 0 \<le> y then bits_of n (x ^ nat y)
       else if 32 < n then bits_of n 0
       else if x = 0 then replicate n BIT4_X
       else bits_of n (if x = 1 then 1 else if x = - 1 then (if odd y then - 1 else 1) else 0)))"

section \<open>Words of vectors\<close>

text \<open>The outcome of an operation on vectors.\<close>

definition yields :: "vvp_vector4_t option \<Rightarrow> bits \<Rightarrow> bool" where
  "yields r l \<longleftrightarrow> (\<exists>v. r = Some v \<and> v4_inv v \<and> v4_list v = l)"

lemma yields_fill [simp]: "yields (Some (v4_fill n b)) (replicate n b)"
  by (simp add: yields_def v4_fill_inv v4_fill_list)

lemma setarray_yields:
  assumes "v4_inv v" and "v4_size v = n" and "0 < n" and "\<And>i. i < n \<Longrightarrow> pbit val i \<longleftrightarrow> bit k i"
  shows "yields (v4_setarray v 0 n val) (bits_of n k)"
proof -
  obtain r where r: "v4_setarray v 0 n val = Some r" "v4_inv r" "v4_size r = v4_size v"
    "\<And>i. i < v4_size v \<Longrightarrow> v4_value r i = (if 0 \<le> i \<and> i < 0 + n then (if pbit val (i - 0) then BIT4_1 else BIT4_0) else v4_value v i)"
    by (rule v4_setarray_spec [OF assms(1), of 0 n val]) (use assms(2,3) in auto)
  have "v4_list r = bits_of n k" by (rule v4_listI) (use r(3,4) assms in \<open>auto simp: bits_of_def\<close>)
  with r show ?thesis by (auto simp: yields_def)
qed

lemma setarray_pval:
  assumes "v4_inv v" and "v4_size v = n" and "0 < n" and "length val = words_for n" and "take_bit n (pval val) = take_bit n k"
  shows "yields (v4_setarray v 0 n val) (bits_of n k)"
proof (rule setarray_yields [OF assms(1-3)])
  fix i assume i: "i < n"
  then have "i < 64 * length val" using words_for_mult_ge [of n] assms(4) by simp
  moreover have "bit (pval val) i = bit k i" using assms(5) i by (metis bit_take_bit_iff)
  ultimately show "pbit val i = bit k i" by (simp add: bit_pval)
qed

lemma on_words_yields:
  assumes v: "v4_inv vala" "v4_inv valb" "v4_size vala = n" "v4_size valb = n" "0 < n"
    and f: "\<And>ap bp. length ap = words_for n \<Longrightarrow> length bp = words_for n \<Longrightarrow> pval ap = bits_val (v4_list vala) \<Longrightarrow> pval bp = bits_val (v4_list valb)
      \<Longrightarrow> \<not> xz (v4_list vala) \<Longrightarrow> \<not> xz (v4_list valb) \<Longrightarrow> yields (f n ap bp) l"
  shows "yields (on_words f vala valb) (if xz (v4_list vala) \<or> xz (v4_list valb) then replicate n BIT4_X else l)"
proof -
  note a = subarray_value [OF v(1), unfolded v(3), OF v(5)] and b = subarray_value [OF v(2), unfolded v(4), OF v(5)]
  show ?thesis
  proof (cases "xz (v4_list vala)")
    case True
    then have "v4_subarray vala 0 n False = None" using a(1) by simp
    then show ?thesis using True v(3,4) by (simp add: on_words_def)
  next
    case False
    then obtain ap where ap: "v4_subarray vala 0 n False = Some ap" using a(1) by blast
    show ?thesis
    proof (cases "xz (v4_list valb)")
      case True
      then have "v4_subarray valb 0 n False = None" using b(1) by simp
      then show ?thesis using True ap v(3,4) by (simp add: on_words_def)
    next
      case xb: False
      then obtain bp where bp: "v4_subarray valb 0 n False = Some bp" using b(1) by blast
      have "yields (f n ap bp) l" by (rule f) (use a(2) [OF ap] b(2) [OF bp] False xb in simp_all)
      then show ?thesis using False xb ap bp v(3,4) by (simp add: on_words_def)
    qed
  qed
qed

lemma pval_single: "length ws = 1 \<Longrightarrow> pval ws = uint (ws ! 0)"
  by (cases ws) auto

lemma quot_nonneg: "0 \<le> (x :: int) \<Longrightarrow> 0 \<le> y \<Longrightarrow> x sdiv y = x div y" "0 \<le> (x :: int) \<Longrightarrow> 0 \<le> y \<Longrightarrow> x smod y = x mod y"
  by (auto simp: signed_divide_int_def signed_modulo_int_def sgn_if)

lemma of_DIV_yields:
  assumes "v4_inv vala" and "v4_inv valb" and "quotient False (v4_list vala) (v4_list valb) = Some l"
  shows "yields (on_words (div_words vala) vala valb) l"
proof -
  let ?l = "v4_list vala" and ?r = "v4_list valb" and ?n = "v4_size vala"
  let ?q = "bits_of ?n (bits_val ?l div bits_val ?r)"
  from assms(3) have n: "v4_size valb = ?n" "0 < ?n" by (auto simp: quotient_def Let_def split: if_splits)
  have l: "l = (if xz ?l \<or> xz ?r then replicate ?n BIT4_X else if bits_val ?r = 0 then replicate ?n BIT4_X else ?q)"
    and ok: "\<not> xz ?l \<Longrightarrow> \<not> xz ?r \<Longrightarrow> bits_val ?r \<noteq> 0 \<Longrightarrow> ?n \<le> 64 \<or> digits_ok (words_for ?n) (bits_val ?l) (bits_val ?r)"
    using assms(3) by (auto simp: quotient_def Let_def number_def quot_nonneg split: if_splits)
  show ?thesis unfolding l
  proof (rule on_words_yields [OF assms(1,2) refl n])
    fix ap bp assume p: "length ap = words_for ?n" "length bp = words_for ?n" "pval ap = bits_val ?l" "pval bp = bits_val ?r" and k: "\<not> xz ?l" "\<not> xz ?r"
    show "yields (div_words vala ?n ap bp) (if bits_val ?r = 0 then replicate ?n BIT4_X else ?q)"
    proof (cases "?n \<le> 64")
      case True
      then have w: "words_for ?n = 1" using n(2) words_for_small by simp
      then have u: "uint (ap ! 0) = bits_val ?l" "uint (bp ! 0) = bits_val ?r" using p pval_single by metis+
      have z: "bp ! 0 = 0 \<longleftrightarrow> bits_val ?r = 0" using u(2) by (metis uint_0_iff)
      have "pval (ap[0 := ap ! 0 div bp ! 0]) = bits_val ?l div bits_val ?r" using p(1) w u by (subst pval_single) (simp_all add: uint_div)
      then have "yields (v4_setarray vala 0 ?n (ap[0 := ap ! 0 div bp ! 0])) ?q" using p(1) by (intro setarray_pval [OF assms(1) refl n(2)]) simp_all
      then show ?thesis using True z by (simp add: div_words_def)
    next
      case False
      have "digits_ok (words_for ?n) (pval ap) (pval bp)"
      proof (cases "bits_val ?r = 0")
        case True
        then show ?thesis by (simp add: digits_ok_def p)
      qed (use ok [OF k] False p in simp)
      from divide_bits [OF p(1,2) n(2) this] obtain q r where q: "divide_bits ap bp ?n = Some (if pval bp = 0 then None else Some (q, r))"
        "length q = words_for ?n" "pval bp \<noteq> 0 \<longrightarrow> pval q = pval ap div pval bp" by blast
      have "yields (v4_setarray vala 0 ?n q) ?q" if "bits_val ?r \<noteq> 0" by (rule setarray_pval [OF assms(1) refl n(2) q(2)]) (use q(3) that p in simp)
      then show ?thesis using False q(1) p by (simp add: div_words_def)
    qed
  qed
qed

section \<open>Signed words\<close>

lemma sign_mask_bit:
  assumes "0 < n"
  obtains t where "n = 64 * (words_for n - 1) + t" and "0 < t" and "t \<le> 64" and "\<And>i. bit (sign_mask n) i \<longleftrightarrow> t \<le> i \<and> i < 64"
proof -
  obtain t where t: "n = 64 * (words_for n - 1) + t" "0 < t" "t \<le> 64" by (rule last_word_bits [OF assms])
  have w: "words_for n = Suc (words_for n - 1)" using words_for_step [OF assms] by simp
  have "words_for n * 64 - n = 64 - t" using t(1,3) w by (metis add_diff_cancel_left' diff_diff_left mult.commute mult_Suc_right add.commute)
  then have "sign_mask n = (if t = 64 then 0 else push_bit t (- 1))" using t(3) by (simp add: sign_mask_def Let_def)
  then have "bit (sign_mask n) i \<longleftrightarrow> t \<le> i \<and> i < 64" for i by (auto simp: bit_simps)
  with t that show thesis by blast
qed

lemma sign_extend:
  assumes "length l = n" and "0 < n" and "length ap = words_for n" and "pval ap = bits_val l"
  shows "length (sign_extend n ap) = words_for n \<and> pval (sign_extend n ap) = take_bit (64 * words_for n) (bits_sval l)"
proof -
  define k where "k = words_for n - 1"
  have wk: "words_for n = Suc k" using words_for_step [OF assms(2)] by (simp add: k_def)
  obtain t where t: "n = 64 * k + t" "0 < t" "t \<le> 64" "\<And>i. bit (sign_mask n) i \<longleftrightarrow> t \<le> i \<and> i < 64" unfolding k_def by (rule sign_mask_bit [OF assms(2)]) blast
  have k: "k < words_for n" by (simp add: wk)
  have se: "sign_extend n ap = (if ap ! k AND drop_bit 1 (sign_mask n) \<noteq> 0 then ap[k := ap ! k OR sign_mask n] else ap)" by (simp add: sign_extend_def k_def Let_def)
  have pb: "pbit ap i \<longleftrightarrow> i < n \<and> l ! i = BIT4_1" if "i < 64 * words_for n" for i
    using that assms(1,3,4) bit_pval [of ap i] bit_bits_val [of l i] by simp
  have w: "bit (ap ! k) j \<longleftrightarrow> j < t \<and> l ! (64 * k + j) = BIT4_1" if "j < 64" for j
  proof -
    have "64 * k + j < 64 * words_for n" using k that by (simp add: less_mult_64)
    from pb [OF this] show ?thesis using that t(1) by (simp add: pbit_def)
  qed
  have last: "last l = l ! (64 * k + (t - 1))" using assms(1,2) t(1,2) by (subst last_conv_nth) auto
  have test: "ap ! k AND drop_bit 1 (sign_mask n) \<noteq> 0 \<longleftrightarrow> t < 64 \<and> last l = BIT4_1"
  proof -
    have "ap ! k AND drop_bit 1 (sign_mask n) \<noteq> 0 \<longleftrightarrow> (\<exists>j < 64. bit (ap ! k) j \<and> t \<le> j + 1 \<and> j + 1 < 64)"
      by (auto simp: ulong_eq_0_iff bit_and_iff bit_drop_bit_eq t(4))
    also have "\<dots> \<longleftrightarrow> t < 64 \<and> last l = BIT4_1"
    proof
      assume "\<exists>j < 64. bit (ap ! k) j \<and> t \<le> j + 1 \<and> j + 1 < 64"
      then obtain j where j: "j < 64" "bit (ap ! k) j" "t \<le> j + 1" "j + 1 < 64" by blast
      with w [OF j(1)] have "j = t - 1" by auto
      with j w [OF j(1)] last show "t < 64 \<and> last l = BIT4_1" by auto
    next
      assume "t < 64 \<and> last l = BIT4_1"
      then show "\<exists>j < 64. bit (ap ! k) j \<and> t \<le> j + 1 \<and> j + 1 < 64" using w [of "t - 1"] t(2) last by (intro exI [of _ "t - 1"]) auto
    qed
    finally show ?thesis .
  qed
  have bits: "pbit (sign_extend n ap) i \<longleftrightarrow> (if i < n then l ! i = BIT4_1 else last l = BIT4_1)" if i: "i < 64 * words_for n" for i
  proof (cases "ap ! k AND drop_bit 1 (sign_mask n) \<noteq> 0")
    case True
    have "i div 64 < words_for n" using i by (simp add: less_mult_imp_div_less mult.commute)
    then have "i div 64 < k" if "i div 64 \<noteq> k" using that by (simp add: wk)
    then have "i div 64 \<noteq> k \<Longrightarrow> i < n" using t(1) less_mult_64 [of i k] by (simp add: trans_less_add1)
    moreover have "i < n \<longleftrightarrow> i mod 64 < t" if "i div 64 = k" using that t(1) by (metis mult_div_mod_eq nat_add_left_cancel_less)
    moreover have "pbit (sign_extend n ap) i \<longleftrightarrow> pbit ap i \<or> i div 64 = k \<and> t \<le> i mod 64"
      using True k assms(3) by (cases "i div 64 = k") (simp_all add: se pbit_update bit_or_iff t(4), simp add: pbit_def)
    moreover have "last l = BIT4_1" using True test by simp
    ultimately show ?thesis using pb [OF i] by (cases "i div 64 = k"; cases "i < n") auto
  next
    case False
    then have "sign_extend n ap = ap" by (simp add: se)
    moreover have "i < n \<or> last l \<noteq> BIT4_1"
    proof (cases "t = 64")
      case True
      then show ?thesis using i t(1) wk by simp
    qed (use False test t(3) in auto)
    ultimately show ?thesis using pb [OF i] by auto
  qed
  have len: "length (sign_extend n ap) = words_for n" using assms(3) by (simp add: se)
  have "l \<noteq> []" using assms by auto
  then have "pval (sign_extend n ap) = take_bit (64 * words_for n) (bits_sval l)"
    using bits len assms(1) by (intro bit_eqI) (auto simp: bit_pval bit_take_bit_iff bit_bits_sval)
  with len show ?thesis by simp
qed

lemma negate_words:
  assumes "length val = words"
  shows "length (negate_words val words) = words \<and> pval (negate_words val words) = (- pval val) mod 2 ^ (64 * words)"
proof -
  obtain cy r where r: "carry_loop (\<lambda>idx. NOT (val ! idx)) [0..<words] 1 (replicate words 0) = (cy, r)" by fastforce
  from carry_loop [OF _ _ _ r] have c: "length r = words" "pval r + 2 ^ (64 * words) * uint cy = 2 ^ (64 * words) - pval val"
    using pval_not [of val] assms by simp_all
  have "pval r = (2 ^ (64 * words) - pval val) mod 2 ^ (64 * words)" using c pval_lt [of r] by (metis mod_mult_self2 mod_pos_pos_trivial pval_nonneg)
  then show ?thesis using c(1) by (simp add: negate_words_def r)
qed

lemma magnitude_words:
  assumes "length ap = words" and "0 < words" and "pval ap = take_bit (64 * words) x" and "- (2 ^ (64 * words - 1)) \<le> x" "x < 2 ^ (64 * words - 1)"
  shows "sint (ap ! (words - 1)) < 0 \<longleftrightarrow> x < 0" and "length (if x < 0 then negate_words ap words else ap) = words"
    and "pval (if x < 0 then negate_words ap words else ap) = \<bar>x\<bar>"
proof -
  have top: "64 * words - 1 = 64 * (words - 1) + 63" and lt: "64 * (words - 1) + 63 < 64 * words" using assms(2) by (cases words; simp)+
  have "sint (ap ! (words - 1)) < 0 \<longleftrightarrow> bit (ap ! (words - 1)) 63" using bit_last_iff [of "ap ! (words - 1)"] by simp
  also have "\<dots> \<longleftrightarrow> bit (pval ap) (64 * words - 1)" unfolding bit_pval top pbit_def using assms(1) lt by simp
  also have "\<dots> \<longleftrightarrow> bit x (64 * words - 1)" using assms(2,3) by (simp add: bit_take_bit_iff)
  also have "\<dots> \<longleftrightarrow> x < 0"
  proof -
    have "bit x (64 * words - 1) \<longleftrightarrow> odd (x div 2 ^ (64 * words - 1))" by (simp add: bit_iff_odd)
    moreover have "x div 2 ^ (64 * words - 1) = (if x < 0 then - 1 else 0)"
    proof (cases "x < 0")
      case True
      then have "(x + 2 ^ (64 * words - 1)) div 2 ^ (64 * words - 1) = 0" using assms(4) by (intro div_pos_pos_trivial) simp_all
      moreover have "(x + 2 ^ (64 * words - 1)) div 2 ^ (64 * words - 1) = x div 2 ^ (64 * words - 1) + 1" by (rule div_add_self2) simp
      ultimately show ?thesis using True by simp
    qed (use assms(5) in simp)
    ultimately show ?thesis by simp
  qed
  finally show "sint (ap ! (words - 1)) < 0 \<longleftrightarrow> x < 0" .
  have p: "(2 :: int) ^ (64 * words - 1) < 2 ^ (64 * words)" using assms(2) by (intro power_strict_increasing) simp_all
  show "length (if x < 0 then negate_words ap words else ap) = words" using negate_words [OF assms(1)] assms(1) by simp
  show "pval (if x < 0 then negate_words ap words else ap) = \<bar>x\<bar>"
  proof (cases "x < 0")
    case True
    have "(- pval ap) mod 2 ^ (64 * words) = (- x) mod 2 ^ (64 * words)" by (simp add: assms(3) take_bit_eq_mod mod_minus_eq)
    also have "\<dots> = - x" using True assms(4) p by (intro mod_pos_pos_trivial) linarith+
    finally show ?thesis using True negate_words [OF assms(1)] by simp
  next
    case False
    then show ?thesis using assms(3,5) p by (simp add: take_bit_int_eq_self)
  qed
qed

lemma sval_range:
  assumes "length l = n" and "0 < n"
  shows "- (2 ^ (n - 1)) \<le> bits_sval l" and "bits_sval l < 2 ^ (n - 1)"
proof -
  define P :: int where "P = 2 ^ (n - 1)"
  have "(2 :: int) ^ n = 2 * P" "0 < P" using assms(2) by (simp_all add: P_def flip: power_Suc)
  moreover have "l \<noteq> []" using assms by auto
  ultimately have "bits_sval l = bits_val l - (if P \<le> bits_val l then 2 * P else 0)" "bits_val l < 2 * P" "0 \<le> bits_val l" "0 < P"
    using bits_val_top [OF assms] bits_val_lt [of l] assms(1) by (simp_all add: bits_sval_def P_def)
  then have "- P \<le> bits_sval l \<and> bits_sval l < P" by (cases "P \<le> bits_val l") (simp_all only: if_True if_False, linarith+)
  then show "- (2 ^ (n - 1)) \<le> bits_sval l" "bits_sval l < 2 ^ (n - 1)" by (simp_all add: P_def)
qed

lemma sint_word_of_int: "- (2 ^ 63) \<le> x \<Longrightarrow> x < 2 ^ 63 \<Longrightarrow> sint (word_of_int x :: ulong) = x"
  by (simp add: sint_sbintrunc' signed_take_bit_int_eq_self)

text \<open>One word holds the signed number.\<close>

lemma sign_extend_one:
  assumes "length l = n" and "0 < n" and "n \<le> 64" and "length ap = words_for n" and "pval ap = bits_val l"
  shows "length (sign_extend n ap) = 1" and "sint (sign_extend n ap ! 0) = bits_sval l" and "sign_extend n ap ! 0 = 0 \<longleftrightarrow> bits_sval l = 0"
proof -
  have w: "words_for n = 1" using assms(2,3) words_for_small by simp
  note se = sign_extend [OF assms(1,2,4,5), unfolded w]
  then show "length (sign_extend n ap) = 1" by simp
  have "(2 :: int) ^ (n - 1) \<le> 2 ^ 63" using assms(3) by (intro power_increasing) simp_all
  then have r: "- (2 ^ 63) \<le> bits_sval l" "bits_sval l < 2 ^ 63" using sval_range [OF assms(1,2)] by linarith+
  have "uint (sign_extend n ap ! 0) = take_bit 64 (bits_sval l)" using se pval_single [of "sign_extend n ap"] by simp
  then have e: "sign_extend n ap ! 0 = word_of_int (bits_sval l)" by (intro word_uint_eqI) (simp add: uint_word_of_int_eq)
  then show s: "sint (sign_extend n ap ! 0) = bits_sval l" using sint_word_of_int r by simp
  show "sign_extend n ap ! 0 = 0 \<longleftrightarrow> bits_sval l = 0" using e s by auto
qed

text \<open>Clearing the bits above the width does not matter to what is written back.\<close>

lemma cut_sign:
  assumes "0 < n" and "length val = words_for n"
  shows "length (val[words_for n - 1 := val ! (words_for n - 1) AND NOT (sign_mask n)]) = words_for n
    \<and> take_bit n (pval (val[words_for n - 1 := val ! (words_for n - 1) AND NOT (sign_mask n)])) = take_bit n (pval val)"
proof -
  define k where "k = words_for n - 1"
  have wk: "words_for n = Suc k" using words_for_step [OF assms(1)] by (simp add: k_def)
  obtain t where t: "n = 64 * k + t" "\<And>i. bit (sign_mask n) i \<longleftrightarrow> t \<le> i \<and> i < 64" unfolding k_def by (rule sign_mask_bit [OF assms(1)]) blast
  have "pbit (val[k := val ! k AND NOT (sign_mask n)]) i = pbit val i" if "i < n" for i
  proof (cases "i div 64 = k")
    case True
    then have "i mod 64 < t" using that t(1) by (metis mult_div_mod_eq nat_add_left_cancel_less)
    then show ?thesis using True assms(2) wk t(2) by (simp add: pbit_update bit_and_iff bit_not_iff) (simp add: pbit_def)
  qed (use assms(2) wk in \<open>simp add: pbit_update\<close>)
  then show ?thesis unfolding k_def [symmetric] using assms(2) by (auto intro!: bit_eqI simp: bit_take_bit_iff bit_pval)
qed

lemma div_s_one_yields:
  assumes v: "v4_inv vala" "v4_size vala = n" "0 < n" "n \<le> 64" and l: "length l = n" "length r = n"
    and p: "length ap = words_for n" "length bp = words_for n" "pval ap = bits_val l" "pval bp = bits_val r"
  shows "yields (div_s_words vala n ap bp) (if bits_sval r = 0 then replicate n BIT4_X else bits_of n (bits_sval l sdiv bits_sval r))"
proof -
  let ?x = "bits_sval l" and ?y = "bits_sval r" and ?a = "sign_extend n ap" and ?b = "sign_extend n bp"
  have w: "words_for n = 1" using v(3,4) words_for_small by simp
  note a = sign_extend_one [OF l(1) v(3,4) p(1,3)] and b = sign_extend_one [OF l(2) v(3,4) p(2,4)]
  show ?thesis
  proof (cases "?y = 0")
    case True
    then show ?thesis using b v(4) by (simp add: div_s_words_def Let_def)
  next
    case y: False
    show ?thesis
    proof (cases "?x = - (2 ^ 63) \<and> ?y = - 1")
      case True
      have "(2 :: int) ^ 63 \<le> 2 ^ (n - 1)" using sval_range(1) [OF l(1) v(3)] True by simp
      then have "63 \<le> n - 1" by (rule power_le_imp_le_exp [rotated]) simp
      then have n: "n = 64" using v(4) by simp
      obtain u where u: "v4_set_bit (v4_fill n BIT4_0) (n - 1) BIT4_1 = Some u" "v4_inv u" "v4_list u = (v4_list (v4_fill n BIT4_0))[n - 1 := BIT4_1]"
        by (rule v4_set_bit_list [OF v4_fill_inv, of "n - 1" n BIT4_0 BIT4_1]) (use v(3) in \<open>simp_all add: size_v4_fill\<close>)
      have "bit (2 ^ 63 :: int) i \<longleftrightarrow> i = 63" for i unfolding bit_exp_iff by auto
      then have "v4_list u = bits_of n (2 ^ 63)" unfolding u(3) v4_fill_list n bits_of_def by (intro nth_equalityI) (simp_all add: nth_list_update)
      moreover have "?x sdiv ?y = 2 ^ 63" using True by (simp add: signed_divide_int_def)
      ultimately have "yields (v4_set_bit (v4_fill n BIT4_0) (n - 1) BIT4_1) (bits_of n (?x sdiv ?y))" using u by (simp add: yields_def)
      moreover have "div_s_words vala n ap bp = v4_set_bit (v4_fill n BIT4_0) (n - 1) BIT4_1"
        unfolding div_s_words_def Let_def using True y v(4) a(2) b(2,3) by simp
      ultimately show ?thesis using y by simp
    next
      case False
      let ?w = "word_of_int (?x sdiv ?y) :: ulong"
      have len: "length (?a[0 := ?w]) = words_for n" using a(1) w by simp
      from cut_sign [OF v(3) len] have c: "length (?a[0 := ?w AND NOT (sign_mask n)]) = words_for n"
        "take_bit n (pval (?a[0 := ?w AND NOT (sign_mask n)])) = take_bit n (pval (?a[0 := ?w]))" using a(1) by (simp_all add: w)
      have "pval (?a[0 := ?w]) = take_bit 64 (?x sdiv ?y)" using a(1) by (subst pval_single) (simp_all add: uint_word_of_int_eq)
      then have "take_bit n (pval (?a[0 := ?w])) = take_bit n (?x sdiv ?y)" using v(4) by simp
      with c have "yields (v4_setarray vala 0 n (?a[0 := ?w AND NOT (sign_mask n)])) (bits_of n (?x sdiv ?y))" by (intro setarray_pval [OF v(1-3)]) simp_all
      moreover have "div_s_words vala n ap bp = v4_setarray vala 0 n (?a[0 := ?w AND NOT (sign_mask n)])"
        unfolding div_s_words_def Let_def using False y v(4) a(2) b(2,3) by auto
      ultimately show ?thesis using y by simp
    qed
  qed
qed

lemma div_s_wide_yields:
  assumes v: "v4_inv vala" "v4_size vala = n" "64 < n" and l: "length l = n" "length r = n"
    and p: "length ap = words_for n" "length bp = words_for n" "pval ap = bits_val l" "pval bp = bits_val r"
    and ok: "bits_sval r = 0 \<or> digits_ok (words_for n) \<bar>bits_sval l\<bar> \<bar>bits_sval r\<bar>"
  shows "yields (div_s_words vala n ap bp) (if bits_sval r = 0 then replicate n BIT4_X else bits_of n (bits_sval l sdiv bits_sval r))"
proof -
  let ?x = "bits_sval l" and ?y = "bits_sval r" and ?W = "words_for n"
  have n: "0 < n" using v(3) by simp
  have W: "0 < ?W" using words_for_step [OF n] by simp
  have "(2 :: int) ^ (n - 1) \<le> 2 ^ (64 * ?W - 1)" using words_for_mult_ge [of n] by (intro power_increasing) simp_all
  then have rx: "- (2 ^ (64 * ?W - 1)) \<le> ?x" "?x < 2 ^ (64 * ?W - 1)" and ry: "- (2 ^ (64 * ?W - 1)) \<le> ?y" "?y < 2 ^ (64 * ?W - 1)"
    using sval_range [OF l(1) n] sval_range [OF l(2) n] by linarith+
  note ea = sign_extend [OF l(1) n p(1,3)] and eb = sign_extend [OF l(2) n p(2,4)]
  define A where "A = (if ?x < 0 then negate_words (sign_extend n ap) ?W else sign_extend n ap)"
  define B where "B = (if ?y < 0 then negate_words (sign_extend n bp) ?W else sign_extend n bp)"
  note ma = magnitude_words [OF _ W _ rx, of "sign_extend n ap", folded A_def] and mb = magnitude_words [OF _ W _ ry, of "sign_extend n bp", folded B_def]
  have A: "sint (sign_extend n ap ! (?W - 1)) < 0 \<longleftrightarrow> ?x < 0" "length A = ?W" "pval A = \<bar>?x\<bar>" using ma ea by simp_all
  have B: "sint (sign_extend n bp ! (?W - 1)) < 0 \<longleftrightarrow> ?y < 0" "length B = ?W" "pval B = \<bar>?y\<bar>" using mb eb by simp_all
  have "digits_ok ?W (pval A) (pval B)" unfolding A(3) B(3) using ok by (cases "?y = 0") (simp_all add: digits_ok_def)
  from divide_bits [OF A(2) B(2) n this] obtain q rm where q: "divide_bits A B n = Some (if pval B = 0 then None else Some (q, rm))"
    "length q = ?W" "pval B \<noteq> 0 \<longrightarrow> pval q = pval A div pval B" by blast
  define Q where "Q = (if (?x < 0) \<noteq> (?y < 0) then negate_words q ?W else q)"
  have eq: "div_s_words vala n ap bp = (if ?y = 0 then Some (v4_fill n BIT4_X) else v4_setarray vala 0 n (Q[?W - 1 := Q ! (?W - 1) AND NOT (sign_mask n)]))"
    unfolding div_s_words_def Let_def A(1) B(1) A_def [symmetric] B_def [symmetric] q(1) Q_def B(3) using v(3) by simp
  show ?thesis
  proof (cases "?y = 0")
    case False
    have Q: "length Q = ?W" using negate_words [OF q(2)] q(2) by (simp add: Q_def)
    have "take_bit n (pval Q) = take_bit n (?x sdiv ?y)"
    proof (cases "(?x < 0) \<noteq> (?y < 0)")
      case True
      have "pval Q = take_bit (64 * ?W) (?x sdiv ?y)"
        using True False q(3) A(3) B(3) negate_words [OF q(2)] sdiv_smod_parts(1) [of ?y ?x] by (simp add: Q_def take_bit_eq_mod)
      then show ?thesis using words_for_mult_ge [of n] by (simp add: mult.commute)
    next
      case same: False
      then show ?thesis using False q(3) A(3) B(3) sdiv_smod_parts(1) [of ?y ?x] by (simp add: Q_def)
    qed
    with cut_sign [OF n Q] have "yields (v4_setarray vala 0 n (Q[?W - 1 := Q ! (?W - 1) AND NOT (sign_mask n)])) (bits_of n (?x sdiv ?y))"
      by (intro setarray_pval [OF v(1,2) n]) simp_all
    then show ?thesis using False eq by simp
  qed (simp add: eq)
qed

lemma of_DIV_S_yields:
  assumes "v4_inv vala" and "v4_inv valb" and "quotient True (v4_list vala) (v4_list valb) = Some l"
  shows "yields (on_words (div_s_words vala) vala valb) l"
proof -
  let ?l = "v4_list vala" and ?r = "v4_list valb" and ?n = "v4_size vala"
  from assms(3) have n: "v4_size valb = ?n" "0 < ?n" by (auto simp: quotient_def Let_def split: if_splits)
  have l: "l = (if xz ?l \<or> xz ?r then replicate ?n BIT4_X else if bits_sval ?r = 0 then replicate ?n BIT4_X else bits_of ?n (bits_sval ?l sdiv bits_sval ?r))"
    and ok: "\<not> xz ?l \<Longrightarrow> \<not> xz ?r \<Longrightarrow> bits_sval ?r \<noteq> 0 \<Longrightarrow> ?n \<le> 64 \<or> digits_ok (words_for ?n) \<bar>bits_sval ?l\<bar> \<bar>bits_sval ?r\<bar>"
    using assms(3) by (auto simp: quotient_def Let_def number_def split: if_splits)
  show ?thesis unfolding l
  proof (rule on_words_yields [OF assms(1,2) refl n])
    fix ap bp assume p: "length ap = words_for ?n" "length bp = words_for ?n" "pval ap = bits_val ?l" "pval bp = bits_val ?r" and k: "\<not> xz ?l" "\<not> xz ?r"
    show "yields (div_s_words vala ?n ap bp) (if bits_sval ?r = 0 then replicate ?n BIT4_X else bits_of ?n (bits_sval ?l sdiv bits_sval ?r))"
    proof (cases "?n \<le> 64")
      case True
      then show ?thesis using div_s_one_yields [OF assms(1) refl n(2) True _ _ p] n(1) by simp
    next
      case False
      then show ?thesis using div_s_wide_yields [OF assms(1) refl _ _ _ p] ok [OF k] n(1) by auto
    qed
  qed
qed

section \<open>Remainders\<close>

lemma bits_word:
  assumes "v4_size v = n" and "n \<le> 64"
  shows "uint (bits_word v n) = bits_val (v4_list v)"
proof -
  have "bit (foldl (\<lambda>lv idx. lv OR push_bit idx (of_bool (v4_value v idx = BIT4_1))) (0 :: ulong) [0..<m]) i \<longleftrightarrow> i < m \<and> i < 64 \<and> v4_value v i = BIT4_1" for m i
    by (induction m) (auto simp: bit_or_iff bit_push_bit_iff bit_1_iff less_Suc_eq)
  then show ?thesis using assms by (intro bit_eqI) (auto simp: bits_word_def bit_uint_iff bit_bits_val)
qed

lemma word_bits_yields:
  assumes "v4_inv v" and "v4_size v = n" and "n \<le> 64" and "\<And>i. i < n \<Longrightarrow> bit lv i \<longleftrightarrow> bit k i"
  shows "yields (word_bits lv n v) (bits_of n k)"
proof -
  have b: "drop_bit i lv AND 1 \<noteq> 0 \<longleftrightarrow> bit lv i" for i by (simp add: bit_iff_odd_drop_bit and_one_eq odd_iff_mod_2_eq_one)
  obtain r where r: "word_bits lv n v = Some r" "v4_inv r" "v4_size r = n" "\<And>i. i < n \<Longrightarrow> v4_value r i = (if drop_bit i lv AND 1 \<noteq> 0 then BIT4_1 else BIT4_0)"
    unfolding word_bits_def by (rule v4.build [OF assms(1), of n "\<lambda>i. if drop_bit i lv AND 1 \<noteq> 0 then BIT4_1 else BIT4_0"]) (use assms(2) in simp_all)
  have "v4_list r = bits_of n k" by (rule v4_listI) (use r(3,4) assms(4) b in \<open>simp_all add: bits_of_def\<close>)
  with r show ?thesis by (simp add: yields_def)
qed

lemma some_xz: "v4_size vala = n \<Longrightarrow> v4_size valb = n \<Longrightarrow> some_xz vala valb n \<longleftrightarrow> xz (v4_list vala) \<or> xz (v4_list valb)"
  by (auto simp: some_xz_def xz_def list_ex_length list_ex_iff)

lemma magnitude_number:
  assumes "length l = n" and "0 < n"
  shows "magnitude (last l = BIT4_1) l = \<bar>bits_sval l\<bar>" and "last l = BIT4_1 \<longleftrightarrow> bits_sval l < 0" and "magnitude False l = bits_val l"
proof -
  note num = number_sign [OF assms, of True]
  show s: "last l = BIT4_1 \<longleftrightarrow> bits_sval l < 0" using num(1) by (simp add: number_def)
  show "magnitude False l = bits_val l" using bits_val_lt [of l] by (simp add: magnitude_def)
  then show "magnitude (last l = BIT4_1) l = \<bar>bits_sval l\<bar>"
    using num(2,3) s assms(1) by (cases "bits_sval l < 0") (simp_all add: number_def magnitude_def take_bit_eq_mod)
qed

lemma mod_vec4_yields:
  assumes v: "v4_inv vala" "v4_inv valb" and "remainder False (v4_list vala) (v4_list valb) = Some l"
  shows "yields (mod_vec4 vala valb) l"
proof -
  let ?l = "v4_list vala" and ?r = "v4_list valb" and ?n = "v4_size vala"
  from assms(3) have n: "v4_size valb = ?n" "0 < ?n" by (auto simp: remainder_def Let_def split: if_splits)
  have l: "l = (if xz ?l \<or> xz ?r \<or> bits_val ?r = 0 then replicate ?n BIT4_X else bits_of ?n (bits_val ?l mod bits_val ?r))"
    using assms(3) n by (auto simp: remainder_def Let_def number_def quot_nonneg split: if_splits)
  show ?thesis
  proof (cases "?n \<le> 64")
    case True
    note u = bits_word [OF refl True] bits_word [OF n(1) True]
    have z: "bits_word valb ?n = 0 \<longleftrightarrow> bits_val ?r = 0" using u(2) by (metis uint_0_iff)
    have "bit (bits_word vala ?n mod bits_word valb ?n) i \<longleftrightarrow> bit (bits_val ?l mod bits_val ?r) i" for i
      by (metis bit_uint_iff u uint_mod bit_imp_le_length)
    then have "yields (word_bits (bits_word vala ?n mod bits_word valb ?n) ?n vala) (bits_of ?n (bits_val ?l mod bits_val ?r))"
      by (intro word_bits_yields [OF v(1) refl True])
    then show ?thesis using True n(1) some_xz [OF refl n(1)] z by (simp add: mod_vec4_def Let_def l)
  next
    case False
    have m: "magnitude False ?l = bits_val ?l" "magnitude False ?r = bits_val ?r" using magnitude_number(3) n by simp_all
    from do_verylong_mod [OF v n(1), of False False] show ?thesis
      using False n(1) by (auto simp: yields_def mod_vec4_def Let_def l xz_def m)
  qed
qed

lemma extended_word:
  fixes w :: ulong
  assumes "length l = n" and "0 < n" and "n \<le> 64" and "uint w = bits_val l"
  shows "sint (if n < 64 \<and> w AND push_bit (n - 1) 1 \<noteq> 0 then w OR push_bit n (- 1) else w) = bits_sval l"
proof -
  let ?w = "if n < 64 \<and> w AND push_bit (n - 1) 1 \<noteq> 0 then w OR push_bit n (- 1) else w"
  have bw: "bit w i \<longleftrightarrow> i < n \<and> l ! i = BIT4_1" for i using bit_bits_val [of l i] bit_uint_iff [of w i] assms(1,3,4) bit_imp_le_length [of w i] by auto
  have last: "last l = l ! (n - 1)" using assms(1,2) by (subst last_conv_nth) auto
  have "w AND push_bit (n - 1) 1 \<noteq> 0 \<longleftrightarrow> (\<exists>i < 64. bit w i \<and> i = n - 1)" unfolding ulong_eq_0_iff bit_and_iff bit_push_bit_iff bit_1_iff by auto
  also have "\<dots> \<longleftrightarrow> bit w (n - 1)" using assms(2,3) by (intro iffI) auto
  also have "\<dots> \<longleftrightarrow> last l = BIT4_1" unfolding last bw [of "n - 1"] using assms(2) by simp
  finally have test: "w AND push_bit (n - 1) 1 \<noteq> 0 \<longleftrightarrow> last l = BIT4_1" .
  have ne: "l \<noteq> []" using assms(1,2) by auto
  have "bit ?w i \<longleftrightarrow> bit (bits_sval l) i" if "i < 64" for i
  proof (cases "n < 64 \<and> last l = BIT4_1")
    case True
    then have eq: "?w = w OR himask n" unfolding test himask_def by simp
    show ?thesis unfolding eq using True that ne assms(1) by (auto simp: bit_or_iff bit_bits_sval bw)
  next
    case False
    then have eq: "?w = w" unfolding test by auto
    show ?thesis unfolding eq using False that ne assms(1,3) by (auto simp: bit_bits_sval bw)
  qed
  then have "?w = word_of_int (bits_sval l)" unfolding ulong_eq_iff by (simp add: bit_word_of_int_iff)
  moreover have "(2 :: int) ^ (n - 1) \<le> 2 ^ 63" using assms(3) by (intro power_increasing) simp_all
  then have "- (2 ^ 63) \<le> bits_sval l" "bits_sval l < 2 ^ 63" using sval_range [OF assms(1,2)] by linarith+
  ultimately show ?thesis using sint_word_of_int by simp
qed

lemma mod_s_vec4_yields:
  assumes v: "v4_inv vala" "v4_inv valb" and "remainder True (v4_list vala) (v4_list valb) = Some l"
  shows "yields (mod_s_vec4 vala valb) l"
proof -
  let ?l = "v4_list vala" and ?r = "v4_list valb" and ?n = "v4_size vala" and ?x = "bits_sval (v4_list vala)" and ?y = "bits_sval (v4_list valb)"
  from assms(3) have n: "v4_size valb = ?n" "0 < ?n" by (auto simp: remainder_def Let_def split: if_splits)
  have l: "l = (if xz ?l \<or> xz ?r \<or> ?y = 0 then replicate ?n BIT4_X else bits_of ?n (?x smod ?y))"
    using assms(3) n by (auto simp: remainder_def Let_def number_def split: if_splits)
  have len: "length ?l = ?n" "length ?r = ?n" using n(1) by simp_all
  show ?thesis
  proof (cases "?n \<le> 64")
    case True
    let ?lv = "bits_word vala ?n" and ?rv = "bits_word valb ?n"
    let ?e = "\<lambda>w. if ?n < 64 \<and> w AND push_bit (?n - 1) 1 \<noteq> 0 then w OR push_bit ?n (- 1) else w"
    note u = bits_word [OF refl True] bits_word [OF n(1) True]
    have x: "sint (?e ?lv) = ?x" by (rule extended_word [OF len(1) n(2) True u(1)])
    have y: "sint (?e ?rv) = ?y" by (rule extended_word [OF len(2) n(2) True u(2)])
    have z: "?rv = 0 \<longleftrightarrow> ?y = 0"
    proof -
      have "?rv = 0 \<longleftrightarrow> bits_val ?r = 0" using u(2) by (metis uint_0_iff)
      also have "\<dots> \<longleftrightarrow> ?y = 0" using bits_val_lt [of ?r] bits_val_nonneg [of ?r] len(2) n(2) bits_val_top [OF len(2) n(2)]
        by (auto simp: bits_sval_def)
      finally show ?thesis .
    qed
    have min: "?x smod ?y = 0" if "sint ?lv = - (2 ^ 63) \<and> sint ?rv = - 1"
    proof -
      have "uint ?rv = 2 ^ 64 - 1" 
      proof -
        have "?rv = word_of_int (sint ?rv)" by simp
        then have "?rv = - 1" using that by simp
        then show ?thesis by (simp add: unsigned_minus_1_eq_mask mask_eq_exp_minus_1)
      qed
      then have "2 ^ 64 - 1 < (2 :: int) ^ ?n" using u(2) bits_val_lt [of ?r] len(2) by simp
      then have "\<not> ?n < 64" using power_strict_increasing [of ?n 64 "2 :: int"] by auto
      then have "?x = - (2 ^ 63)" "?y = - 1" using x y that by simp_all
      then show ?thesis by (simp add: signed_modulo_int_def)
    qed
    have w: "yields (word_bits (word_of_int (?x smod ?y)) ?n vala) (bits_of ?n (?x smod ?y))"
      by (rule word_bits_yields [OF v(1) refl True]) (use True in \<open>simp add: bit_word_of_int_iff\<close>)
    have zero: "bits_of ?n 0 = replicate ?n BIT4_0" by (rule nth_equalityI) (simp_all add: bits_of_def)
    have eq: "mod_s_vec4 vala valb = (if xz ?l \<or> xz ?r \<or> ?y = 0 then Some (v4_fill ?n BIT4_X)
        else if sint ?lv = - (2 ^ 63) \<and> sint ?rv = - 1 then Some (v4_fill ?n BIT4_0) else word_bits (word_of_int (?x smod ?y)) ?n vala)"
      unfolding mod_s_vec4_def Let_def x y some_xz [OF refl n(1)] z using True n(1) by simp
    show ?thesis unfolding eq l using w min zero by (auto simp: yields_def v4_fill_inv v4_fill_list)
  next
    case False
    have last: "v4_value vala (?n - 1) = last ?l" "v4_value valb (?n - 1) = last ?r" using n by (auto simp: last_conv_nth)
    note ml = magnitude_number [OF len(1) n(2)] and mr = magnitude_number [OF len(2) n(2)]
    have eq: "mod_s_vec4 vala valb = do_verylong_mod vala valb (last ?l = BIT4_1) (last ?r = BIT4_1)"
      unfolding mod_s_vec4_def Let_def last using False n(1) by simp
    have "?y \<noteq> 0 \<Longrightarrow> (if last ?l = BIT4_1 then - (\<bar>?x\<bar> mod \<bar>?y\<bar>) else \<bar>?x\<bar> mod \<bar>?y\<bar>) = ?x smod ?y" using sdiv_smod_parts(2) [of ?y ?x] ml(2) by simp
    with do_verylong_mod [OF v n(1), of "last ?l = BIT4_1" "last ?r = BIT4_1"] show ?thesis
      unfolding ml(1) mr(1) eq l yields_def xz_def Let_def by auto
  qed
qed

section \<open>Powers\<close>

lemma known_xz: "known v \<longleftrightarrow> \<not> xz (v4_list v)"
  by (simp add: known_def xz_def)

lemma pad_lsb_yields:
  assumes "0 < n" and "\<And>i. i < n \<Longrightarrow> l ! i = (if i = 0 then lsb else pad)" and "length l = n"
  shows "yields (v4_set_bit (v4_fill n pad) 0 lsb) l"
proof -
  obtain r where r: "v4_set_bit (v4_fill n pad) 0 lsb = Some r" "v4_inv r" "v4_list r = (v4_list (v4_fill n pad))[0 := lsb]"
    by (rule v4_set_bit_list [OF v4_fill_inv, of 0 n pad lsb]) (use assms(1) in \<open>simp_all add: size_v4_fill\<close>)
  have "v4_list r = l" unfolding r(3) v4_fill_list by (rule nth_equalityI) (use assms in \<open>simp_all add: nth_list_update\<close>)
  with r show ?thesis by (simp add: yields_def)
qed

lemma pow_nonneg_yields:
  assumes a: "v4_inv vala" "v4_size vala = n" and x: "v2_inv x" "v2_wid x = n" "take_bit n (v2_val x) = take_bit n k" and y: "v2_inv y"
  shows "yields (Option.bind (v2_pow x y) (\<lambda>result. for_each (\<lambda>jdx v. v4_set_bit v jdx
      (if jdx \<ge> v2_wid result then BIT4_0 else if v2_value result jdx \<noteq> 0 then BIT4_1 else BIT4_0)) [0..<n] vala)) (bits_of n (k ^ nat (v2_val y)))"
proof -
  obtain r where r: "v2_pow x y = Some r" "v2_inv r" "v2_wid r = n" "v2_val r = take_bit n (v2_val x ^ nat (v2_val y))"
    using v2_pow_spec [OF x(1) y] x(2) by auto
  let ?f = "\<lambda>jdx. if jdx \<ge> v2_wid r then BIT4_0 else if v2_value r jdx \<noteq> 0 then BIT4_1 else BIT4_0"
  obtain u where u: "for_each (\<lambda>jdx v. v4_set_bit v jdx (?f jdx)) [0..<n] vala = Some u" "v4_inv u" "v4_size u = n" "\<And>i. i < n \<Longrightarrow> v4_value u i = ?f i"
    by (rule v4.build [OF a(1), of n ?f]) (use a(2) in simp_all)
  have "take_bit n (v2_val r) = take_bit n (k ^ nat (v2_val y))" unfolding r(4) using x(3) by (simp add: take_bit_eq_mod) (metis power_mod)
  then have "bit (v2_val r) i = bit (k ^ nat (v2_val y)) i" if "i < n" for i using that by (metis bit_take_bit_iff)
  then have "v4_list u = bits_of n (k ^ nat (v2_val y))"
    using u(3,4) r(2,3) by (intro v4_listI) (simp_all add: bits_of_def v2_value_bit)
  with u r(1) show ?thesis by (simp add: yields_def)
qed

lemma pow_negative_yields:
  assumes n: "0 < n" "length l = n" and x: "v2_inv x" "v2_wid x = n" "v2_val x = bits_val l"
  shows "yields (let (ok, a_val) = vector2_to_int x;
           (pad, lsb) = (if ok \<and> a_val = 0 then (BIT4_X, BIT4_X)
             else if ok \<and> a_val = 1 then (BIT4_0, BIT4_1)
             else if ok \<and> a_val = - 1 then (if odd_y then (BIT4_1, BIT4_1) else (BIT4_0, BIT4_1))
             else (BIT4_0, BIT4_0))
       in v4_set_bit (v4_fill n pad) 0 lsb)
    (if 32 < n then bits_of n 0 else if bits_sval l = 0 then replicate n BIT4_X
      else bits_of n (if bits_sval l = 1 then 1 else if bits_sval l = - 1 then (if odd_y then - 1 else 1) else 0))"
proof -
  let ?x = "bits_sval l"
  have small: "bits_of n 0 ! i = (if i = 0 then BIT4_0 else BIT4_0)" "bits_of n 1 ! i = (if i = 0 then BIT4_1 else BIT4_0)"
    "bits_of n (- 1) ! i = (if i = 0 then BIT4_1 else BIT4_1)" "replicate n BIT4_X ! i = (if i = 0 then BIT4_X else BIT4_X)" if "i < n" for i
    using that by (simp_all add: bits_of_def bit_1_iff)
  note ret = pad_lsb_yields [OF n(1) small(1), simplified] pad_lsb_yields [OF n(1) small(2), simplified] pad_lsb_yields [OF n(1) small(3), simplified]
    pad_lsb_yields [OF n(1) small(4), simplified]
  show ?thesis
  proof (cases "32 < n")
    case True
    then have "\<not> fst (vector2_to_int x)" using x(2) by (simp add: vector2_to_int_def split_beta)
    then show ?thesis using True ret(1) by (simp add: split_beta)
  next
    case False
    then have n32: "n \<le> 32" by simp
    have v: "vector2_to_int x = (True, word_of_int ?x)" by (rule vector2_to_int [OF x(1,2) n(1) n32 x(3) n(2)])
    have "(2 :: int) ^ (n - 1) \<le> 2 ^ 31" using n32 by (intro power_increasing) auto
    then have r: "- (2 ^ 31) \<le> ?x" "?x < 2 ^ 31" using sval_range [OF n(2,1)] by linarith+
    have c: "(word_of_int ?x :: 32 word) = 0 \<longleftrightarrow> ?x = 0" "(word_of_int ?x :: 32 word) = 1 \<longleftrightarrow> ?x = 1" "(word_of_int ?x :: 32 word) = - 1 \<longleftrightarrow> ?x = - 1"
      using word32_small [OF r, of 0] word32_small [OF r, of 1] word32_small [OF r, of "- 1"] by simp_all
    show ?thesis using False ret by (simp add: v c)
  qed
qed

lemma pow_vec4_yields:
  assumes v: "v4_inv vala" "v4_inv valb" and "raise sg (v4_list vala) (v4_list valb) = Some l"
  shows "yields (pow_vec4 sg vala valb) l"
proof -
  let ?l = "v4_list vala" and ?r = "v4_list valb" and ?n = "v4_size vala" and ?m = "v4_size valb"
  let ?x = "number sg ?l" and ?y = "number sg ?r"
  have len: "length ?l = ?n" "length ?r = ?m" by simp_all
  have n: "0 < ?n" "0 < ?m"
  proof -
    have "?l \<noteq> []" "?r \<noteq> []" using assms(3) by (auto simp: raise_def Let_def split: if_splits)
    then show "0 < ?n" "0 < ?m" using len by (metis length_greater_0_conv)+
  qed
  then have ne: "?l \<noteq> []" "?r \<noteq> []" by (metis len length_greater_0_conv)+
  have l: "l = (if xz ?l \<or> xz ?r then replicate ?n BIT4_X else if 0 \<le> ?y then bits_of ?n (?x ^ nat ?y)
      else if 32 < ?n then bits_of ?n 0 else if ?x = 0 then replicate ?n BIT4_X
      else bits_of ?n (if ?x = 1 then 1 else if ?x = - 1 then (if odd ?y then - 1 else 1) else 0))"
    using assms(3) ne n by (simp add: raise_def Let_def split: if_splits)
  obtain x where x: "v2_of_vector4 vala True = Some x" "v2_inv x" "v2_is_NaN x \<longleftrightarrow> \<not> known vala"
    "known vala \<longrightarrow> v2_wid x = ?n \<and> v2_val x = bits_val ?l" by (rule wide_operand [OF v(1) refl n(1), where sg = sg])
  obtain y where y: "v2_of_vector4 valb True = Some y" "v2_inv y" "v2_is_NaN y \<longleftrightarrow> \<not> known valb"
    "known valb \<longrightarrow> v2_wid y = ?m \<and> v2_val y = bits_val ?r" "known valb \<longrightarrow> (sg \<and> v2_top y \<longleftrightarrow> ?y < 0)"
    by (rule wide_operand [OF v(2) refl n(2), where sg = sg])
  show ?thesis
  proof (cases "xz ?l \<or> xz ?r")
    case True
    then have "v2_is_NaN x \<or> v2_is_NaN y" using x(3) y(3) by (simp add: known_xz)
    then have "pow_vec4 sg vala valb = Some (v4_fill ?n BIT4_X)" by (simp add: pow_vec4_def Let_def x(1) y(1))
    then show ?thesis using True by (simp add: l)
  next
    case False
    then have k: "known vala" "known valb" by (simp_all add: known_xz)
    have nan: "\<not> (v2_is_NaN x \<or> v2_is_NaN y)" and neg: "sg \<and> v2_value y (v2_wid y - 1) \<noteq> 0 \<longleftrightarrow> ?y < 0" using x(3) y(3,5) k by (auto simp: v2_top_def)
    note def = pow_vec4_def [of sg vala valb, unfolded Let_def x(1) y(1) Option.bind.bind_lunit if_not_P [OF nan] neg]
    show ?thesis
    proof (cases "?y < 0")
      case True
      then have sg: "?x = bits_sval ?l" using number_sign(1) [OF len(2) n(2), of sg] by (simp add: number_def)
      have odd: "v2_value y 0 \<noteq> 0 \<longleftrightarrow> odd ?y"
        using v2_value_bit [OF y(2), of 0] y(4) k(2) number_cong [OF len(2), of sg] n(2)
        by (metis bit_0 bit_take_bit_iff of_bool_eq_0_iff)
      from pow_negative_yields [OF n(1) len(1) x(2), of "odd ?y"] x(4) k(1) True False show ?thesis
        unfolding def odd l sg by (simp add: Let_def)
    next
      case pos: False
      then have "?y = bits_val ?r" using number_sign(3) [OF len(2) n(2), of sg] by simp
      then have y': "v2_val y = ?y" using y(4) k(2) by simp
      have "take_bit ?n (v2_val x) = take_bit ?n ?x" using x(4) k(1) number_cong [OF len(1), of sg] by simp
      from pow_nonneg_yields [OF v(1) refl x(2) _ this y(2)] x(4) k(1) pos False show ?thesis unfolding def l y' by simp
    qed
  qed
qed

end
