(* ===== verification/Thread_Sim.thy ===== *)
theory Thread_Sim
  imports Thread_Quot
begin

text \<open>
  The specification of the opcodes on threads whose stack holds bit lists, and the refinement: where the specification
  of an opcode is defined, its handler succeeds, keeps the invariant of the thread, and gives the specified thread.
\<close>

section \<open>Threads of bit lists\<close>

type_synonym sthread = "bits vthread_s"

definition view :: "vthread \<Rightarrow> sthread" where
  "view thr = \<lparr>thr_pc = thr_pc thr, thr_flags = thr_flags thr, thr_words = thr_words thr, thr_stack = map v4_list (thr_stack thr)\<rparr>"

definition thr_ok :: "vthread \<Rightarrow> bool" where
  "thr_ok thr \<longleftrightarrow> length (thr_flags thr) = FLAGS_COUNT \<and> length (thr_words thr) = WORDS_COUNT \<and> list_all v4_inv (thr_stack thr)"

text \<open>The outcome of a handler refines the outcome of the specification.\<close>

definition thr_gives :: "vthread option \<Rightarrow> sthread \<Rightarrow> bool" where
  "thr_gives r st \<longleftrightarrow> (\<exists>thr. r = Some thr \<and> thr_ok thr \<and> view thr = st)"

definition simulates :: "(vthread \<Rightarrow> vthread option) \<Rightarrow> (sthread \<Rightarrow> sthread option) \<Rightarrow> bool" where
  "simulates f g \<longleftrightarrow> (\<forall>thr st. thr_ok thr \<longrightarrow> g (view thr) = Some st \<longrightarrow> thr_gives (f thr) st)"

lemma simulatesI: "(\<And>thr st. thr_ok thr \<Longrightarrow> g (view thr) = Some st \<Longrightarrow> thr_gives (f thr) st) \<Longrightarrow> simulates f g"
  by (simp add: simulates_def)

lemma simulatesD: "simulates f g \<Longrightarrow> thr_ok thr \<Longrightarrow> g (view thr) = Some st \<Longrightarrow> thr_gives (f thr) st"
  by (simp add: simulates_def)

lemma view_simps [simp]:
  "thr_pc (view thr) = thr_pc thr" "thr_flags (view thr) = thr_flags thr" "thr_words (view thr) = thr_words thr"
  "thr_stack (view thr) = map v4_list (thr_stack thr)"
  by (simp_all add: view_def)

lemma view_update [simp]:
  "view (thr\<lparr>thr_pc := a\<rparr>) = (view thr)\<lparr>thr_pc := a\<rparr>" "view (thr\<lparr>thr_flags := fs\<rparr>) = (view thr)\<lparr>thr_flags := fs\<rparr>"
  "view (thr\<lparr>thr_words := ws\<rparr>) = (view thr)\<lparr>thr_words := ws\<rparr>"
  "view (thr\<lparr>thr_stack := vs\<rparr>) = (view thr)\<lparr>thr_stack := map v4_list vs\<rparr>"
  by (simp_all add: view_def)

section \<open>Stack and registers\<close>

definition s_cmp :: "(bits \<Rightarrow> bits \<Rightarrow> (nat \<times> vvp_bit4_t) list option) \<Rightarrow> bits \<Rightarrow> bits \<Rightarrow> sthread \<Rightarrow> sthread option" where
  "s_cmp flags_of l r st = map_option (\<lambda>fs. set_flags fs st) (flags_of l r)"

lemma length_set_flags [simp]: "length (thr_flags (set_flags fs thr)) = length (thr_flags thr)"
proof -
  have "length (foldl (\<lambda>fs (i, b). fs[i := b]) l fs) = length l" for l :: bits by (induction fs arbitrary: l) auto
  then show ?thesis by (simp add: set_flags_def)
qed

lemma set_flags_parts [simp]:
  "thr_stack (set_flags fs thr) = thr_stack thr" "thr_words (set_flags fs thr) = thr_words thr" "thr_pc (set_flags fs thr) = thr_pc thr"
  by (simp_all add: set_flags_def)

lemma view_set_flags [simp]: "view (set_flags fs thr) = set_flags fs (view thr)"
  by (simp add: set_flags_def)

lemma thr_ok_set_flags [simp]: "thr_ok (set_flags fs thr) = thr_ok thr"
  by (simp add: thr_ok_def)

lemma edit_top_sim:
  assumes "\<And>v l. v4_inv v \<Longrightarrow> g (v4_list v) = Some l \<Longrightarrow> yields (f v) l"
  shows "simulates (edit_top f) (edit_top g)"
proof (rule simulatesI)
  fix thr st assume ok: "thr_ok thr" and st: "edit_top g (view thr) = Some st"
  then obtain v vs l where v: "thr_stack thr = v # vs" "g (v4_list v) = Some l" "st = (view thr)\<lparr>thr_stack := l # map v4_list vs\<rparr>"
    by (cases "thr_stack thr") (auto simp: edit_top_def peek_vec4_def poke_vec4_def split: bind_splits if_splits)
  from ok v(1) have inv: "v4_inv v" "list_all v4_inv vs" by (simp_all add: thr_ok_def)
  from assms [OF inv(1) v(2)] obtain r where "f v = Some r" "v4_inv r" "v4_list r = l" by (auto simp: yields_def)
  with v ok inv show "thr_gives (edit_top f thr) st"
    by (simp add: thr_gives_def edit_top_def peek_vec4_def poke_vec4_def thr_ok_def)
qed

lemma pop_edit_sim:
  assumes "\<And>v w l. v4_inv v \<Longrightarrow> v4_inv w \<Longrightarrow> g (v4_list v) (v4_list w) = Some l \<Longrightarrow> yields (f v w) l"
  shows "simulates (pop_edit f) (pop_edit g)"
proof (rule simulatesI)
  fix thr st assume ok: "thr_ok thr" and st: "pop_edit g (view thr) = Some st"
  then obtain w vs where w: "thr_stack thr = w # vs" and e: "edit_top (\<lambda>l. g l (v4_list w)) (view (thr\<lparr>thr_stack := vs\<rparr>)) = Some st"
    by (cases "thr_stack thr") (auto simp: pop_edit_def pop_vec4_def)
  have "v4_inv w" "thr_ok (thr\<lparr>thr_stack := vs\<rparr>)" using ok w by (simp_all add: thr_ok_def)
  moreover from this assms have "simulates (edit_top (\<lambda>l. f l w)) (edit_top (\<lambda>l. g l (v4_list w)))" by (intro edit_top_sim) auto
  ultimately have "thr_gives (edit_top (\<lambda>l. f l w) (thr\<lparr>thr_stack := vs\<rparr>)) st" using e simulatesD by blast
  then show "thr_gives (pop_edit f thr) st" using w by (simp add: pop_edit_def pop_vec4_def)
qed

text \<open>Pop two operands and put something else in their place.\<close>

lemma two_operands:
  assumes "thr_stack (view thr) = r # l # ls" and "thr_ok thr"
  obtains w v vs where "thr_stack thr = w # v # vs" and "v4_inv w" and "v4_inv v" and "list_all v4_inv vs"
    and "v4_list w = r" and "v4_list v = l" and "map v4_list vs = ls"
  using assms by (auto simp: thr_ok_def map_eq_Cons_conv)

lemma compare_pop_sim:
  assumes "\<And>v w fs thr. v4_inv v \<Longrightarrow> v4_inv w \<Longrightarrow> thr_ok thr \<Longrightarrow> flags_of (v4_list v) (v4_list w) = Some fs \<Longrightarrow> do_cmp v w thr = Some (set_flags fs thr)"
  shows "simulates (compare_pop do_cmp) (compare_pop (s_cmp flags_of))"
proof (rule simulatesI)
  fix thr st assume ok: "thr_ok thr" and st: "compare_pop (s_cmp flags_of) (view thr) = Some st"
  then obtain w v vs fs where s: "thr_stack thr = w # v # vs" and fs: "flags_of (v4_list v) (v4_list w) = Some fs"
    and st: "st = (set_flags fs (view thr))\<lparr>thr_stack := map v4_list vs\<rparr>"
    by (cases "thr_stack thr" rule: remdups_adj.cases)
      (auto simp: compare_pop_def peek_vec4_def pop_vec4_cnt_def s_cmp_def split: bind_splits if_splits)
  have "do_cmp v w thr = Some (set_flags fs thr)" using assms [OF _ _ ok fs] ok s by (simp add: thr_ok_def)
  with s st ok show "thr_gives (compare_pop do_cmp thr) st"
    by (simp add: thr_gives_def compare_pop_def peek_vec4_def pop_vec4_cnt_def thr_ok_def)
qed

lemma push_sim:
  assumes "thr_ok thr" and "yields r l"
  shows "thr_gives (map_option (\<lambda>v. push_vec4 v thr) r) (push_vec4 l (view thr))"
  using assms by (auto simp: thr_gives_def yields_def push_vec4_def thr_ok_def)

lemma concat_yields:
  assumes "v4_inv v" and "v4_inv w" and "joined (v4_list v) (v4_list w) = Some l"
  shows "yields (thr_concat v w) l"
  by (rule v4_concat_spec [OF assms(1,2)]) (use assms(3) in \<open>auto simp: yields_def joined_def thr_concat_def split: if_splits\<close>)

section \<open>Opcodes on the stack\<close>

definition blend_bit :: "vvp_bit4_t \<Rightarrow> vvp_bit4_t \<Rightarrow> vvp_bit4_t" where
  "blend_bit a b = (if a = b then a else BIT4_X)"

definition cast2_bit :: "vvp_bit4_t \<Rightarrow> vvp_bit4_t" where
  "cast2_bit b = (if bit4_is_xz b then BIT4_0 else b)"

fun stack_spec :: "stack_fun \<Rightarrow> sthread \<Rightarrow> sthread option" where
  "stack_spec OF_ADD = pop_edit (arith (+))"
| "stack_spec OF_SUB = pop_edit (arith (-))"
| "stack_spec OF_MUL = pop_edit (arith (*))"
| "stack_spec OF_AND = pop_edit (bitwise bit4_and)"
| "stack_spec OF_OR = pop_edit (bitwise bit4_or)"
| "stack_spec OF_XOR = pop_edit (bitwise bit4_xor)"
| "stack_spec OF_NAND = pop_edit (bitwise (\<lambda>a b. bit4_not (bit4_and a b)))"
| "stack_spec OF_NOR = pop_edit (bitwise (\<lambda>a b. bit4_not (bit4_or a b)))"
| "stack_spec OF_XNOR = pop_edit (bitwise (\<lambda>a b. bit4_not (bit4_xor a b)))"
| "stack_spec OF_ANDR = edit_top (reduction (\<lambda>l. foldr bit4_and l BIT4_1))"
| "stack_spec OF_ORR = edit_top (reduction (\<lambda>l. foldr bit4_or l BIT4_0))"
| "stack_spec OF_XORR = edit_top (reduction (\<lambda>l. foldr bit4_xor l BIT4_0))"
| "stack_spec OF_NANDR = edit_top (reduction (\<lambda>l. bit4_not (foldr bit4_and l BIT4_1)))"
| "stack_spec OF_NORR = edit_top (reduction (\<lambda>l. bit4_not (foldr bit4_or l BIT4_0)))"
| "stack_spec OF_XNORR = edit_top (reduction (\<lambda>l. bit4_not (foldr bit4_xor l BIT4_0)))"
| "stack_spec OF_INV = edit_top (\<lambda>l. Some (map bit4_not l))"
| "stack_spec OF_BLEND = pop_edit (bitwise blend_bit)"
| "stack_spec OF_CAST2 = edit_top (\<lambda>l. Some (map cast2_bit l))"
| "stack_spec OF_CMPE = compare_pop (s_cmp cmpe_flags)"
| "stack_spec OF_CMPNE = compare_pop (s_cmp cmpne_flags)"
| "stack_spec OF_CMPS = compare_pop (s_cmp cmps_flags)"
| "stack_spec OF_CMPU = compare_pop (s_cmp cmpu_flags)"
| "stack_spec OF_CMPWE = compare_pop (s_cmp cmpwe_flags)"
| "stack_spec OF_CMPWNE = compare_pop (s_cmp cmpwne_flags)"
| "stack_spec OF_CMPX = compare_pop (s_cmp (match_flags bit4_is_xz))"
| "stack_spec OF_CMPZ = compare_pop (s_cmp (match_flags (\<lambda>b. b = BIT4_Z)))"
| "stack_spec OF_CONCAT_VEC4 = pop_edit joined"
| "stack_spec OF_DUP_VEC4 = of_DUP_VEC4"
| "stack_spec OF_DIV = pop_edit (quotient False)"
| "stack_spec OF_DIV_S = pop_edit (quotient True)"
| "stack_spec OF_MOD = pop_edit (remainder False)"
| "stack_spec OF_MOD_S = pop_edit (remainder True)"
| "stack_spec OF_POW = pop_edit (raise False)"
| "stack_spec OF_POW_S = pop_edit (raise True)"

lemma yields_arith:
  assumes "v4_inv v" and "v4_inv w"
  shows "arith (+) (v4_list v) (v4_list w) = Some l \<Longrightarrow> yields (v4_add v w) l"
    and "arith (-) (v4_list v) (v4_list w) = Some l \<Longrightarrow> yields (v4_sub v w) l"
    and "arith (*) (v4_list v) (v4_list w) = Some l \<Longrightarrow> yields (v4_mul v w) l"
proof -
  have n: "v4_size v = v4_size w" if "arith f (v4_list v) (v4_list w) = Some l" for f using that by (simp add: arith_def split: if_splits)
  show "yields (v4_add v w) l" if a: "arith (+) (v4_list v) (v4_list w) = Some l"
    by (rule v4_add_spec [OF assms n [OF a]]) (use a assms n [OF a] in \<open>auto simp: yields_def arith_def xz_v4\<close>)
  show "yields (v4_sub v w) l" if a: "arith (-) (v4_list v) (v4_list w) = Some l"
    by (rule v4_sub_spec [OF assms n [OF a]]) (use a assms n [OF a] in \<open>auto simp: yields_def arith_def xz_v4\<close>)
  show "yields (v4_mul v w) l" if a: "arith (*) (v4_list v) (v4_list w) = Some l"
    by (rule v4_mul_spec [OF assms n [OF a]]) (use a assms n [OF a] in \<open>auto simp: yields_def arith_def xz_v4\<close>)
qed

lemma yields_invert: "yields r l \<Longrightarrow> yields (map_option v4_invert r) (map bit4_not l)"
  by (auto simp: yields_def v4_invert)

lemma yields_bitwise:
  assumes "v4_inv v" and "v4_inv w"
  shows "bitwise bit4_and (v4_list v) (v4_list w) = Some l \<Longrightarrow> yields (v4_and_eq v w) l \<and> v4_size v = v4_size w"
    and "bitwise bit4_or (v4_list v) (v4_list w) = Some l \<Longrightarrow> yields (v4_or_eq v w) l \<and> v4_size v = v4_size w"
    and "bitwise bit4_xor (v4_list v) (v4_list w) = Some l \<Longrightarrow> yields (v4_xor_eq v w) l \<and> v4_size v = v4_size w"
proof -
  have n: "v4_size v = v4_size w" if "bitwise f (v4_list v) (v4_list w) = Some l" for f using that by (simp add: bitwise_def split: if_splits)
  show "yields (v4_and_eq v w) l \<and> v4_size v = v4_size w" if a: "bitwise bit4_and (v4_list v) (v4_list w) = Some l"
    unfolding v4_and_eq_def by (rule v4_map2_list [where f = and_words and oper = bit4_and, OF assms n [OF a]])
      (use a n [OF a] in \<open>simp_all add: yields_def bitwise_def and_words_bits\<close>)
  show "yields (v4_or_eq v w) l \<and> v4_size v = v4_size w" if a: "bitwise bit4_or (v4_list v) (v4_list w) = Some l"
    unfolding v4_or_eq_def by (rule v4_map2_list [where f = or_words and oper = bit4_or, OF assms n [OF a]])
      (use a n [OF a] in \<open>simp_all add: yields_def bitwise_def or_words_bits\<close>)
  show "yields (v4_xor_eq v w) l \<and> v4_size v = v4_size w" if a: "bitwise bit4_xor (v4_list v) (v4_list w) = Some l"
    unfolding v4_xor_eq_def by (rule v4_map2_list [where f = xor_words and oper = bit4_xor, OF assms n [OF a]])
      (use a n [OF a] in \<open>simp_all add: yields_def bitwise_def xor_words_bits\<close>)
qed

lemma bitwise_not:
  assumes "bitwise (\<lambda>a b. bit4_not (f a b)) l r = Some x"
  obtains y where "bitwise f l r = Some y" and "x = map bit4_not y"
proof -
  have "x = map bit4_not (map2 f l r)" and "length l = length r"
    using assms by (auto simp: bitwise_def comp_def split: if_splits)
  with that show thesis by (simp add: bitwise_def)
qed

lemma yields_not_bitwise:
  assumes "v4_inv v" and "v4_inv w"
  shows "bitwise (\<lambda>a b. bit4_not (bit4_and a b)) (v4_list v) (v4_list w) = Some l \<Longrightarrow> yields (map_option v4_invert (v4_and_eq v w)) l \<and> v4_size v = v4_size w"
    and "bitwise (\<lambda>a b. bit4_not (bit4_or a b)) (v4_list v) (v4_list w) = Some l \<Longrightarrow> yields (map_option v4_invert (v4_or_eq v w)) l \<and> v4_size v = v4_size w"
    and "bitwise (\<lambda>a b. bit4_not (bit4_xor a b)) (v4_list v) (v4_list w) = Some l \<Longrightarrow> yields (map_option v4_invert (v4_xor_eq v w)) l \<and> v4_size v = v4_size w"
  using yields_bitwise [OF assms] by (blast elim!: bitwise_not intro: yields_invert)+

lemma yields_same_size:
  assumes "v4_inv v" and "v4_inv w"
  shows "bitwise bit4_and (v4_list v) (v4_list w) = Some l \<Longrightarrow> yields (same_size v4_and_eq v w) l"
    and "bitwise bit4_or (v4_list v) (v4_list w) = Some l \<Longrightarrow> yields (v4_or_eq v w) l"
    and "bitwise bit4_xor (v4_list v) (v4_list w) = Some l \<Longrightarrow> yields (same_size v4_xor_eq v w) l"
    and "bitwise (\<lambda>a b. bit4_not (bit4_and a b)) (v4_list v) (v4_list w) = Some l \<Longrightarrow> yields (same_size (\<lambda>v w. map_option v4_invert (v4_and_eq v w)) v w) l"
    and "bitwise (\<lambda>a b. bit4_not (bit4_or a b)) (v4_list v) (v4_list w) = Some l \<Longrightarrow> yields (same_size (\<lambda>v w. map_option v4_invert (v4_or_eq v w)) v w) l"
    and "bitwise (\<lambda>a b. bit4_not (bit4_xor a b)) (v4_list v) (v4_list w) = Some l \<Longrightarrow> yields (same_size (\<lambda>v w. map_option v4_invert (v4_xor_eq v w)) v w) l"
  using yields_bitwise [OF assms] yields_not_bitwise [OF assms] by (simp_all add: same_size_def)

lemma yields_reduce:
  assumes "v4_inv v"
  shows "reduction f (v4_list v) = Some l \<Longrightarrow> (0 < v4_size v \<Longrightarrow> g v = f (v4_list v)) \<Longrightarrow> yields (Some (v4_fill 1 (g v))) l"
  using yields_fill [of 1 "g v"] by (auto simp: reduction_def split: if_splits)

text \<open>Editing the left operand under the right one, then dropping the right one, is the same as popping first.\<close>

lemma poke_pop:
  "Option.bind (peek_vec4 0 thr) (\<lambda>r. Option.bind (peek_vec4 1 thr) (\<lambda>l. Option.bind (f l r) (\<lambda>l.
     Option.bind (poke_vec4 1 l thr) (pop_vec4_cnt 1)))) = pop_edit f thr"
  by (cases "thr_stack thr" rule: remdups_adj.cases)
    (auto simp: peek_vec4_def poke_vec4_def pop_vec4_cnt_def pop_edit_def pop_vec4_def edit_top_def split: bind_splits)

text \<open>A loop that rewrites some of the bits of a vector in place.\<close>

lemma rewrite_bits:
  assumes "v4_inv v" and "\<And>i u. i < v4_size v \<Longrightarrow> v4_inv u \<Longrightarrow> v4_size u = v4_size v \<Longrightarrow> v4_value u i = v4_value v i \<Longrightarrow>
      f i u = Some u \<and> g i = v4_value v i \<or> f i u = v4_set_bit u i (g i)"
  shows "yields (for_each f [0..<v4_size v] v) (map g [0..<v4_size v])"
proof -
  let ?P = "\<lambda>k u. v4_inv u \<and> v4_size u = v4_size v \<and> (\<forall>j < v4_size v. v4_value u j = (if j < k then g j else v4_value v j))"
  have "\<exists>r. for_each f [0..<v4_size v] v = Some r \<and> ?P (v4_size v) r"
  proof (rule for_upto_rule [where P = ?P])
    fix i u assume i: "i < v4_size v" and P: "?P i u"
    then have "f i u = Some u \<and> g i = v4_value v i \<or> f i u = v4_set_bit u i (g i)" using assms(2) by simp
    then show "\<exists>u'. f i u = Some u' \<and> ?P (Suc i) u'"
    proof
      assume "f i u = Some u \<and> g i = v4_value v i"
      with P show ?thesis by (auto simp: less_Suc_eq)
    next
      assume eq: "f i u = v4_set_bit u i (g i)"
      obtain u' where "v4_set_bit u i (g i) = Some u'" "v4_inv u'" "v4_size u' = v4_size u"
        "\<forall>j < v4_size u. v4_value u' j = (if j = i then g i else v4_value u j)"
        using v4_set_bit_in [of u i "g i"] P i by auto
      with eq P show ?thesis by (auto simp: less_Suc_eq)
    qed
  qed (use assms(1) in simp)
  then obtain r where "for_each f [0..<v4_size v] v = Some r" "v4_inv r" "v4_size r = v4_size v" "\<forall>j < v4_size v. v4_value r j = g j" by auto
  moreover from this have "v4_list r = map g [0..<v4_size v]" by (intro v4_listI) simp_all
  ultimately show ?thesis by (simp add: yields_def)
qed

lemma of_BLEND_sim: "simulates of_BLEND (pop_edit (bitwise blend_bit))"
proof (rule simulatesI)
  fix thr st assume ok: "thr_ok thr" and st: "pop_edit (bitwise blend_bit) (view thr) = Some st"
  obtain w v vs where s: "thr_stack thr = w # v # vs" "v4_size w = v4_size v"
    and st': "st = (view thr)\<lparr>thr_stack := map2 blend_bit (v4_list v) (v4_list w) # map v4_list vs\<rparr>"
    using st by (cases "thr_stack thr" rule: remdups_adj.cases)
      (auto simp: pop_edit_def pop_vec4_def edit_top_def peek_vec4_def poke_vec4_def bitwise_def split: bind_splits if_splits)
  have inv: "v4_inv w" "v4_inv v" "thr_ok (thr\<lparr>thr_stack := vs\<rparr>)" using ok s by (simp_all add: thr_ok_def)
  let ?g = "\<lambda>i. blend_bit (v4_value v i) (v4_value w i)"
  have "yields (for_each (\<lambda>idx vala. if v4_value vala idx = v4_value v idx then Some vala else v4_set_bit vala idx BIT4_X) [0..<v4_size w] w)
      (map ?g [0..<v4_size w])"
    by (rule rewrite_bits [OF inv(1)]) (auto simp: blend_bit_def)
  moreover have "map ?g [0..<v4_size w] = map2 blend_bit (v4_list v) (v4_list w)" using s(2) by (intro nth_equalityI) simp_all
  ultimately have "thr_gives (map_option (\<lambda>u. push_vec4 u (thr\<lparr>thr_stack := vs\<rparr>))
      (for_each (\<lambda>idx vala. if v4_value vala idx = v4_value v idx then Some vala else v4_set_bit vala idx BIT4_X) [0..<v4_size w] w)) st"
    using push_sim [OF inv(3)] st' by (simp add: push_vec4_def)
  then show "thr_gives (of_BLEND thr) st" using s by (simp add: of_BLEND_def pop_vec4_def)
qed

lemma of_CAST2_sim: "simulates of_CAST2 (edit_top (\<lambda>l. Some (map cast2_bit l)))"
  unfolding of_CAST2_def
proof (rule edit_top_sim)
  fix v l assume inv: "v4_inv v" and l: "Some (map cast2_bit (v4_list v)) = Some l"
  have "map cast2_bit (v4_list v) = v4_list v" if "\<not> v4_has_xz v"
    using that inv by (intro map_idI) (auto simp: v4_has_xz_list list_ex_iff cast2_bit_def)
  moreover have "yields (for_each (\<lambda>idx val. if bit4_is_xz (v4_value val idx) then v4_set_bit val idx BIT4_0 else Some val) [0..<v4_size v] v)
      (map (\<lambda>i. cast2_bit (v4_value v i)) [0..<v4_size v])"
    by (rule rewrite_bits [OF inv]) (auto simp: cast2_bit_def)
  moreover have "map (\<lambda>i. cast2_bit (v4_value v i)) [0..<v4_size v] = map cast2_bit (v4_list v)" by (simp add: v4_list_def)
  ultimately show "yields (if \<not> v4_has_xz v then Some v else
      for_each (\<lambda>idx val. if bit4_is_xz (v4_value val idx) then v4_set_bit val idx BIT4_0 else Some val) [0..<v4_size v] v) l"
    using inv l by (auto simp: yields_def)
qed

lemma thr_flags_at:
  assumes "thr_ok thr" and "i < 512"
  shows "i < length (thr_flags thr)"
  using assms by (simp add: thr_ok_def FLAGS_COUNT_def)

lemma invert_flags_set:
  assumes "thr_ok thr"
  shows "invert_flags [4, 6] (set_flags [(4, a), (6, b)] thr) = set_flags [(4, bit4_not a), (6, bit4_not b)] thr"
    and "invert_flags [4] (set_flags [(4, a)] thr) = set_flags [(4, bit4_not a)] thr"
  using thr_flags_at [OF assms, of 4] thr_flags_at [OF assms, of 6]
  by (simp_all add: invert_flags_def set_flags_def list_update_swap [of 6 4])

lemma do_CMPNE_flags:
  assumes "v4_inv l" and "v4_inv r" and "thr_ok thr" and "cmpne_flags (v4_list l) (v4_list r) = Some fs"
  shows "do_CMPNE l r thr = Some (set_flags fs thr)"
  using do_CMPE_flags [OF assms(1,2)] assms(4) invert_flags_set(1) [OF assms(3)]
  by (auto simp: do_CMPNE_def cmpne_flags_def cmpe_flags_def split: if_splits)

lemma do_CMPWNE_flags:
  assumes "v4_inv l" and "v4_inv r" and "thr_ok thr" and "cmpwne_flags (v4_list l) (v4_list r) = Some fs"
  shows "map_option (invert_flags [4]) (do_CMPWE l r thr) = Some (set_flags fs thr)"
  using do_CMPWE_flags [OF assms(1,2)] assms(4) invert_flags_set(2) [OF assms(3)]
  by (auto simp: cmpwne_flags_def cmpwe_flags_def split: if_splits)

text \<open>Popping both operands before the flags are set is the same as peeking at them first.\<close>

lemma pop_pop_compare:
  "Option.bind (pop_vec4 thr) (\<lambda>(r, thr). Option.bind (pop_vec4 thr) (\<lambda>(l, thr). map_option (\<lambda>fs. set_flags fs thr) (f l r)))
     = compare_pop (\<lambda>l r thr. map_option (\<lambda>fs. set_flags fs thr) (f l r)) thr"
  by (cases "thr_stack thr" rule: remdups_adj.cases)
    (auto simp: compare_pop_def pop_vec4_def peek_vec4_def pop_vec4_cnt_def set_flags_def split: bind_splits option.splits)

lemma match_sim:
  "simulates (compare_pop (\<lambda>l r thr. map_option (\<lambda>fs. set_flags fs thr) (if v4_size r = v4_size l then Some [(4,
       if list_ex (\<lambda>i. v4_value l i \<noteq> v4_value r i \<and> \<not> any (v4_value l i) \<and> \<not> any (v4_value r i)) [0..<v4_size l] then BIT4_0 else BIT4_1)] else None)))
     (compare_pop (s_cmp (match_flags any)))"
proof (rule compare_pop_sim)
  fix v w fs and thr :: vthread assume "match_flags any (v4_list v) (v4_list w) = Some fs"
  then have n: "v4_size v = v4_size w" and fs: "fs = [(4, bool_bit (list_all (\<lambda>(a, b). a = b \<or> any a \<or> any b) (zip (v4_list v) (v4_list w))))]"
    by (auto simp: match_flags_def split: if_splits)
  have "list_all (\<lambda>(a, b). a = b \<or> any a \<or> any b) (zip (v4_list v) (v4_list w)) \<longleftrightarrow>
      \<not> list_ex (\<lambda>i. v4_value v i \<noteq> v4_value w i \<and> \<not> any (v4_value v i) \<and> \<not> any (v4_value w i)) [0..<v4_size v]"
    by (auto simp: zip_v4_lists [OF n] list_ex_iff)
  with n fs show "map_option (\<lambda>fs. set_flags fs thr) (if v4_size w = v4_size v then Some [(4,
      if list_ex (\<lambda>i. v4_value v i \<noteq> v4_value w i \<and> \<not> any (v4_value v i) \<and> \<not> any (v4_value w i)) [0..<v4_size v] then BIT4_0 else BIT4_1)] else None)
    = Some (set_flags fs thr)"
    by (simp add: bool_bit_def)
qed

lemma of_CMPX_sim: "simulates of_CMPX (compare_pop (s_cmp (match_flags bit4_is_xz)))"
proof -
  have "of_CMPX = compare_pop (\<lambda>l r thr. map_option (\<lambda>fs. set_flags fs thr) (if v4_size r = v4_size l then Some [(4,
       if list_ex (\<lambda>i. v4_value l i \<noteq> v4_value r i \<and> \<not> bit4_is_xz (v4_value l i) \<and> \<not> bit4_is_xz (v4_value r i)) [0..<v4_size l] then BIT4_0 else BIT4_1)] else None))"
    unfolding of_CMPX_def by (rule ext, subst pop_pop_compare [symmetric]) (simp add: if_distrib [of "map_option f" for f] cong: if_cong)
  then show ?thesis using match_sim [of bit4_is_xz] by simp
qed

lemma of_CMPZ_sim: "simulates of_CMPZ (compare_pop (s_cmp (match_flags (\<lambda>b. b = BIT4_Z))))"
proof -
  have "of_CMPZ = compare_pop (\<lambda>l r thr. map_option (\<lambda>fs. set_flags fs thr) (if v4_size r = v4_size l then Some [(4,
       if list_ex (\<lambda>i. v4_value l i \<noteq> v4_value r i \<and> \<not> v4_value l i = BIT4_Z \<and> \<not> v4_value r i = BIT4_Z) [0..<v4_size l] then BIT4_0 else BIT4_1)] else None))"
    unfolding of_CMPZ_def by (rule ext, subst pop_pop_compare [symmetric]) (simp add: if_distrib [of "map_option f" for f] conj_commute cong: if_cong)
  then show ?thesis using match_sim [of "\<lambda>b. b = BIT4_Z"] by simp
qed

lemma of_DUP_VEC4_sim: "simulates of_DUP_VEC4 of_DUP_VEC4"
proof (rule simulatesI)
  fix thr st assume "thr_ok thr" and "of_DUP_VEC4 (view thr) = Some st"
  then show "thr_gives (of_DUP_VEC4 thr) st"
    by (cases "thr_stack thr") (auto simp: of_DUP_VEC4_def peek_vec4_def push_vec4_def thr_gives_def thr_ok_def split: if_splits)
qed

lemmas stack_defs = of_ADD_def of_SUB_def of_MUL_def of_AND_def of_OR_def of_NAND_def of_NOR_def of_XNOR_def of_ANDR_def of_ORR_def of_XORR_def
  of_NANDR_def of_NORR_def of_XNORR_def of_INV_def of_CMPE_def of_CMPNE_def of_CMPS_def of_CMPU_def of_CMPWE_def of_CMPWNE_def

theorem stack_sim: "simulates (stack_exec f) (stack_spec f)"
proof (cases f)
  case OF_XOR
  have "of_XOR = pop_edit (same_size v4_xor_eq)" by (rule ext) (simp only: of_XOR_def poke_pop)
  moreover have "simulates (pop_edit (same_size v4_xor_eq)) (pop_edit (bitwise bit4_xor))"
    by (intro pop_edit_sim yields_same_size)
  ultimately show ?thesis by (simp add: OF_XOR)
next
  case OF_CONCAT_VEC4
  have "of_CONCAT_VEC4 = pop_edit thr_concat" by (rule ext) (simp only: of_CONCAT_VEC4_def poke_pop)
  moreover have "simulates (pop_edit thr_concat) (pop_edit joined)" by (rule pop_edit_sim) (rule concat_yields)
  ultimately show ?thesis by (simp add: OF_CONCAT_VEC4)
next
  case OF_BLEND then show ?thesis by (simp add: of_BLEND_sim)
next
  case OF_CAST2 then show ?thesis by (simp add: of_CAST2_sim)
next
  case OF_CMPX then show ?thesis by (simp add: of_CMPX_sim)
next
  case OF_CMPZ then show ?thesis by (simp add: of_CMPZ_sim)
next
  case OF_DUP_VEC4 then show ?thesis by (simp add: of_DUP_VEC4_sim)
next
  case OF_DIV then show ?thesis by (simp add: of_DIV_def pop_edit_sim of_DIV_yields)
next
  case OF_DIV_S then show ?thesis by (simp add: of_DIV_S_def pop_edit_sim of_DIV_S_yields)
next
  case OF_MOD then show ?thesis by (simp add: of_MOD_def pop_edit_sim mod_vec4_yields)
next
  case OF_MOD_S then show ?thesis by (simp add: of_MOD_S_def pop_edit_sim mod_s_vec4_yields)
next
  case OF_POW then show ?thesis by (simp add: of_POW_def of_POW_base_def pop_edit_sim pow_vec4_yields)
next
  case OF_POW_S then show ?thesis by (simp add: of_POW_S_def of_POW_base_def pop_edit_sim pow_vec4_yields)
next
  case OF_INV then show ?thesis by (auto simp: of_INV_def yields_def v4_invert intro!: edit_top_sim)
next
  case OF_ANDR then show ?thesis
    by (auto simp only: stack_exec.simps stack_spec.simps of_ANDR_def v4_reduce_and_list intro!: edit_top_sim yields_reduce)
next
  case OF_ORR then show ?thesis
    by (auto simp only: stack_exec.simps stack_spec.simps of_ORR_def v4_reduce_or_list intro!: edit_top_sim yields_reduce)
next
  case OF_XORR then show ?thesis
    by (auto simp only: stack_exec.simps stack_spec.simps of_XORR_def v4_reduce_xor_list intro!: edit_top_sim yields_reduce)
next
  case OF_NANDR then show ?thesis
    by (auto simp only: stack_exec.simps stack_spec.simps of_NANDR_def v4_reduce_and_list intro!: edit_top_sim yields_reduce)
next
  case OF_NORR then show ?thesis
    by (auto simp only: stack_exec.simps stack_spec.simps of_NORR_def v4_reduce_or_list intro!: edit_top_sim yields_reduce)
next
  case OF_XNORR then show ?thesis
    by (auto simp only: stack_exec.simps stack_spec.simps of_XNORR_def v4_reduce_xor_list intro!: edit_top_sim yields_reduce)
qed (simp_all only: stack_exec.simps stack_spec.simps stack_defs, (intro pop_edit_sim edit_top_sim compare_pop_sim yields_arith yields_same_size
    do_CMPE_flags do_CMPNE_flags do_CMPS_flags do_CMPU_flags do_CMPWE_flags do_CMPWNE_flags; assumption)+)

end
