(* ===== verification/Thread_Vec.thy ===== *)
theory Thread_Vec
  imports Thread_Sim
begin

text \<open>
  The refinement for the opcodes that read operands from their code slot: immediates, padding, part selects,
  replication and shifts.
\<close>

section \<open>Opcodes with operands\<close>

definition code_imm :: "vvp_code_s \<Rightarrow> bits option" where
  "code_imm cp = map_option (\<lambda>wid. imm_bits wid (bit_idx0 cp) (bit_idx1 cp)) (code_unsigned cp)"

definition compare_with :: "('v \<Rightarrow> 'v \<Rightarrow> 'v vthread_s \<Rightarrow> 'v vthread_s option) \<Rightarrow> 'v \<Rightarrow> 'v vthread_s \<Rightarrow> 'v vthread_s option" where
  "compare_with do_cmp r thr = Option.bind (peek_vec4 0 thr) (\<lambda>l. Option.bind (do_cmp l r thr) (pop_vec4_cnt 1))"

definition sign_of :: "bits \<Rightarrow> vvp_bit4_t" where
  "sign_of l = (if l = [] then BIT4_X else last l)"

definition pad_signed :: "nat \<Rightarrow> bits \<Rightarrow> bits" where
  "pad_signed wid l = (if length l < wid then l @ replicate (wid - length l) (sign_of l) else take wid l)"

definition window_bits :: "bool \<Rightarrow> nat \<Rightarrow> bits \<Rightarrow> bits \<Rightarrow> bits" where
  "window_bits sg wid b l = (if xz (take 32 b) then replicate wid BIT4_X
     else select wid (sint (word_of_int (if sg then bits_sval b else bits_val b) :: 32 word)) l)"

definition shl :: "nat \<Rightarrow> bits \<Rightarrow> bits" where
  "shl n l = replicate (min n (length l)) BIT4_0 @ take (length l - n) l"

definition shr :: "nat \<Rightarrow> vvp_bit4_t \<Rightarrow> bits \<Rightarrow> bits" where
  "shr n pad l = drop n l @ replicate (min n (length l)) pad"

definition s_shift_by :: "(nat \<Rightarrow> bits \<Rightarrow> bits) \<Rightarrow> (bits \<Rightarrow> vvp_bit4_t) \<Rightarrow> vvp_code_s \<Rightarrow> sthread \<Rightarrow> sthread option" where
  "s_shift_by f out cp st = Option.bind (code_unsigned cp) (\<lambda>i. Option.bind (get_word i st) (\<lambda>n. Option.bind (get_flag 4 st) (\<lambda>flag.
     edit_top (\<lambda>l. Some (if flag = BIT4_1 then replicate (length l) BIT4_X else if flag = BIT4_X then replicate (length l) (out l) else f (unat n) l)) st)))"

fun vec_spec :: "vec_fun \<Rightarrow> vvp_code_s \<Rightarrow> sthread \<Rightarrow> sthread option" where
  "vec_spec OF_ADDI cp = (\<lambda>st. Option.bind (code_imm cp) (\<lambda>r. edit_top (\<lambda>l. arith (+) l r) st))"
| "vec_spec OF_SUBI cp = (\<lambda>st. Option.bind (code_imm cp) (\<lambda>r. edit_top (\<lambda>l. arith (-) l r) st))"
| "vec_spec OF_MULI cp = (\<lambda>st. Option.bind (code_imm cp) (\<lambda>r. edit_top (\<lambda>l. arith (*) l r) st))"
| "vec_spec OF_XORI cp = (\<lambda>st. Option.bind (code_imm cp) (\<lambda>r. edit_top (\<lambda>l. if length l \<le> 64 then bitwise bit4_xor l r else None) st))"
| "vec_spec OF_CONCATI_VEC4 cp = (\<lambda>st. Option.bind (code_imm cp) (\<lambda>r. edit_top (\<lambda>l. joined l r) st))"
| "vec_spec OF_CMPIE cp = (\<lambda>st. Option.bind (code_imm cp) (\<lambda>r. compare_with (s_cmp cmpe_flags) r st))"
| "vec_spec OF_CMPINE cp = (\<lambda>st. Option.bind (code_imm cp) (\<lambda>r. compare_with (s_cmp cmpne_flags) r st))"
| "vec_spec OF_CMPIS cp = (\<lambda>st. Option.bind (code_imm cp) (\<lambda>r. compare_with (s_cmp cmps_flags) r st))"
| "vec_spec OF_CMPIU cp = (\<lambda>st. Option.bind (code_imm cp) (\<lambda>r. compare_with (s_cmp cmpu_flags) r st))"
| "vec_spec OF_PAD_S cp = (\<lambda>st. Option.bind (code_unsigned cp) (\<lambda>wid. edit_top (\<lambda>l. Some (pad_signed wid l)) st))"
| "vec_spec OF_PAD_U cp = (\<lambda>st. Option.bind (code_unsigned cp) (\<lambda>wid. edit_top (\<lambda>l. Some (take wid l @ replicate (wid - length l) BIT4_0)) st))"
| "vec_spec OF_PART_S cp = (\<lambda>st. Option.bind (code_unsigned cp) (\<lambda>wid. pop_edit (\<lambda>l b. if part_fits wid l then Some (window_bits True wid b l) else None) st))"
| "vec_spec OF_PART_U cp = (\<lambda>st. Option.bind (code_unsigned cp) (\<lambda>wid. pop_edit (\<lambda>l b. if part_fits wid l then Some (window_bits False wid b l) else None) st))"
| "vec_spec OF_PARTI_S cp = (\<lambda>st. Option.bind (code_unsigned cp) (\<lambda>wid. Option.bind (parti_base True cp) (\<lambda>base.
     edit_top (\<lambda>l. if part_fits wid l then Some (select wid (sint base) l) else None) st)))"
| "vec_spec OF_PARTI_U cp = (\<lambda>st. Option.bind (code_unsigned cp) (\<lambda>wid. Option.bind (parti_base False cp) (\<lambda>base.
     edit_top (\<lambda>l. if part_fits wid l then Some (select wid (sint base) l) else None) st)))"
| "vec_spec OF_POP_VEC4 cp = of_POP_VEC4 cp"
| "vec_spec OF_PUSH_IX_VEC4 cp = (\<lambda>st. Option.bind (code_unsigned cp) (\<lambda>ix. map_option (\<lambda>w.
     push_vec4 (bits_of (min 32 (unat (bit_idx0 cp))) (uint (ucast w :: 32 word))) st) (get_word ix st)))"
| "vec_spec OF_PUSHI_VEC4 cp = (\<lambda>st. map_option (\<lambda>r. push_vec4 r st) (code_imm cp))"
| "vec_spec OF_REPLICATE cp = (\<lambda>st. Option.bind (code_unsigned cp) (\<lambda>n. edit_top (copies n) st))"
| "vec_spec OF_SHIFTL cp = s_shift_by shl (\<lambda>_. BIT4_0) cp"
| "vec_spec OF_SHIFTR cp = s_shift_by (\<lambda>n. shr n BIT4_0) (\<lambda>_. BIT4_0) cp"
| "vec_spec OF_SHIFTR_S cp = s_shift_by (\<lambda>n l. shr n (sign_of l) l) sign_of cp"
| "vec_spec OF_SHIFTLI cp = (\<lambda>st. Option.bind (code_number cp) (\<lambda>n. edit_top (\<lambda>l. Some (shl (unat n) l)) st))"
| "vec_spec OF_SHIFTRI cp = (\<lambda>st. Option.bind (code_number cp) (\<lambda>n. edit_top (\<lambda>l. Some (shr (unat n) BIT4_0 l)) st))"
| "vec_spec OF_SHIFTRI_S cp = (\<lambda>st. Option.bind (code_number cp) (\<lambda>n. edit_top (\<lambda>l. Some (shr (unat n) (sign_of l) l)) st))"
| "vec_spec OF_SPLIT_VEC4 cp = (\<lambda>st. Option.bind (code_unsigned cp) (\<lambda>w. Option.bind (peek_vec4 0 st) (\<lambda>l.
     if w < length l then map_option (push_vec4 (take w l)) (poke_vec4 0 (drop w l) st) else None)))"

lemma imm_immediate:
  assumes "code_imm cp = Some r"
  obtains v where "immediate cp = Some v" and "v4_inv v" and "v4_list v = r"
proof -
  obtain wid where "code_unsigned cp = Some wid" using assms by (auto simp: code_imm_def)
  then obtain v where v: "immediate cp = Some v" by (simp add: immediate_def)
  obtain wid' where w: "code_unsigned cp = Some wid'" "v4_inv v" "v4_list v = imm_bits wid' (bit_idx0 cp) (bit_idx1 cp)" by (rule immediate_list [OF v])
  then have "v4_list v = r" using assms by (simp add: code_imm_def)
  with v w(2) show thesis by (rule that)
qed

lemma code_imm_width: "code_imm cp = Some r \<Longrightarrow> code_unsigned cp = Some (length r)"
  by (auto simp: code_imm_def imm_bits_def)

lemma bits_imm:
  assumes "\<not> xz (imm_bits wid a b)"
  shows "take_bit wid (uint a) = bits_val (imm_bits wid a b)"
proof (rule bit_eqI)
  fix i
  have "\<not> bit b i" if "i < wid" using that assms by (auto simp: xz_def list_ex_length imm_bits_def)
  then show "bit (take_bit wid (uint a)) i = bit (bits_val (imm_bits wid a b)) i"
    using bit_imp_le_length [of a i] by (auto simp: bit_take_bit_iff bit_uint_iff bit_bits_val imm_bits_def)
qed

lemma length_imm_bits [simp]: "length (imm_bits wid a b) = wid"
  by (simp add: imm_bits_def)

lemma xz_imm: "xz (imm_bits wid a b) \<longleftrightarrow> (\<exists>i < wid. bit b i)"
  by (auto simp: xz_def list_ex_length imm_bits_def)

lemma yields_add_immediate:
  assumes "v4_inv v" and "v4_size v = wid" and "wid \<le> 64" and "arith (+) (v4_list v) (imm_bits wid a b) = Some l"
  shows "yields (v4_add_immediate v (ucast a) (ucast b)) l"
proof -
  have bit: "bit (ucast b :: ulong) i = bit b i" for i by (auto simp: bit_ucast_iff dest: bit_imp_le_length)
  have "bits_of wid (bits_val (v4_list v) + uint (ucast a :: ulong)) = bits_of wid (bits_val (v4_list v) + bits_val (imm_bits wid a b))"
    if "\<not> xz (imm_bits wid a b)"
    by (rule bits_of_cong) (simp add: bits_imm [OF that, symmetric] uint_up_ucast is_up take_bit_eq_mod mod_simps)
  moreover obtain r where "v4_add_immediate v (ucast a) (ucast b) = Some r" "v4_inv r" "v4_list r =
      (if v4_has_xz v \<or> xz (imm_bits wid a b) then replicate (v4_size v) BIT4_X
       else bits_of (v4_size v) (bits_val (v4_list v) + uint (ucast a :: ulong)))"
    by (rule v4_add_immediate_spec [OF assms(1), of "ucast a" "ucast b"]) (use assms(2,3) in \<open>simp_all add: xz_imm bit\<close>)
  ultimately show ?thesis
    using assms by (cases "xz (imm_bits wid a b)") (auto simp: yields_def arith_def xz_v4)
qed

lemma compare_imm_sim:
  assumes "\<And>v w fs thr. v4_inv v \<Longrightarrow> v4_inv w \<Longrightarrow> thr_ok thr \<Longrightarrow> flags_of (v4_list v) (v4_list w) = Some fs \<Longrightarrow> do_cmp v w thr = Some (set_flags fs thr)"
  shows "simulates (compare_imm do_cmp cp) (\<lambda>st. Option.bind (code_imm cp) (\<lambda>r. compare_with (s_cmp flags_of) r st))"
proof (rule simulatesI)
  fix thr st assume ok: "thr_ok thr" and st: "Option.bind (code_imm cp) (\<lambda>r. compare_with (s_cmp flags_of) r (view thr)) = Some st"
  then obtain r v vs fs where r: "code_imm cp = Some r" and s: "thr_stack thr = v # vs" and fs: "flags_of (v4_list v) r = Some fs"
    and st: "st = (set_flags fs (view thr))\<lparr>thr_stack := map v4_list vs\<rparr>"
    by (cases "thr_stack thr") (auto simp: compare_with_def peek_vec4_def pop_vec4_cnt_def s_cmp_def split: bind_splits if_splits)
  obtain w where w: "immediate cp = Some w" "v4_inv w" "v4_list w = r" by (rule imm_immediate [OF r])
  have "do_cmp v w thr = Some (set_flags fs thr)" using assms [OF _ w(2) ok] fs ok s w by (simp add: thr_ok_def)
  with w s st ok show "thr_gives (compare_imm do_cmp cp thr) st"
    by (simp add: thr_gives_def compare_imm_def peek_vec4_def pop_vec4_cnt_def thr_ok_def)
qed

text \<open>An operand that is read first does not matter to a simulation.\<close>

lemma bind_sim: "(\<And>x. r = Some x \<Longrightarrow> simulates (f x) (g x)) \<Longrightarrow> simulates (\<lambda>thr. Option.bind r (\<lambda>x. f x thr)) (\<lambda>st. Option.bind r (\<lambda>x. g x st))"
  by (cases r) (auto simp: simulates_def)

lemma imm_sim:
  assumes "\<And>v r. v4_inv v \<Longrightarrow> v4_list v = r \<Longrightarrow> code_unsigned cp = Some (length r) \<Longrightarrow> simulates (f v) (g r)"
  shows "simulates (\<lambda>thr. Option.bind (immediate cp) (\<lambda>v. f v thr)) (\<lambda>st. Option.bind (code_imm cp) (\<lambda>r. g r st))"
proof (cases "code_imm cp")
  case (Some r)
  obtain v where "immediate cp = Some v" "v4_inv v" "v4_list v = r" by (rule imm_immediate [OF Some])
  with assms [of v r] code_imm_width [OF Some] Some show ?thesis by simp
qed (simp add: simulates_def)

lemma yields_sub:
  assumes "v4_inv v"
  obtains r where "v4_subvalue v adr wid = Some r" and "v4_inv r" and "v4_list r = select wid (int adr) (v4_list v)"
proof -
  obtain r where r: "v4_subvalue v adr wid = Some r" "v4_inv r" "v4_size r = wid"
    "\<And>i. i < wid \<Longrightarrow> v4_value r i = v4_value v (adr + i)" by (rule v4_subvalue_spec [OF assms]) blast
  have "v4_list r = select wid (int adr) (v4_list v)"
    by (rule v4_listI) (auto simp: select_def r(3,4) simp flip: of_nat_add)
  with r that show thesis by blast
qed

text \<open>A part that hangs over an end of the value.\<close>

lemma select_split:
  assumes "k \<le> wid"
  shows "select wid base l = select k base l @ select (wid - k) (base + int k) l"
proof -
  have "[0..<wid] = [0..<k] @ map (\<lambda>i. i + k) [0..<wid - k]" using assms upt_add_eq_append [of 0 k "wid - k"] by (simp add: map_add_upt)
  then show ?thesis by (simp add: select_def comp_def algebra_simps)
qed

lemma select_outside: "base \<ge> int (length l) \<or> base + int wid \<le> 0 \<Longrightarrow> select wid base l = replicate wid BIT4_X"
  by (auto simp: select_def Let_def intro!: nth_equalityI)

lemma sint_small: "n < 2 ^ 31 \<Longrightarrow> sint (of_nat n :: 32 word) = int n"
  by (simp add: sint_uint unsigned_of_nat take_bit_nat_eq_self signed_take_bit_int_eq_self flip: of_nat_take_bit)

lemma thr_sub:
  assumes "v4_inv v" and "adr + wid < 2 ^ 32"
  obtains r where "thr_subvalue v adr wid = Some r" and "v4_inv r" and "v4_list r = select wid (int adr) (v4_list v)"
  using yields_sub [OF assms(1), of adr wid] assms(2) by (auto simp: thr_subvalue_def)

text \<open>Where the widths fit, no sum of the code wraps around.\<close>

lemma part_select_plain:
  assumes "v4_size v + wid < 2 ^ 31"
  shows "part_select wid base v =
    (if base \<ge> int (v4_size v) \<or> base + int wid \<le> 0 \<and> - (2 ^ 31) \<le> base + int wid then Some (v4_fill wid BIT4_X)
     else if base + int wid < - (2 ^ 31) then None
     else
       let vbase = (if base < 0 then nat (- base) else 0); wid' = wid - vbase; base' = (if base < 0 then 0 else nat base);
           wid' = (if base' + wid' > v4_size v then v4_size v - base' else wid')
       in Option.bind (thr_subvalue v base' wid') (\<lambda>sub. map_option snd (v4_set_vec (v4_fill wid BIT4_X) vbase sub)))"
proof -
  have s: "sint (of_nat wid :: 32 word) = int wid" "sint (of_nat (v4_size v) :: 32 word) = int (v4_size v)" using assms by (simp_all add: sint_small)
  have m: "((if base < 0 then 0 else nat base) + k) mod 2 ^ 32 = (if base < 0 then 0 else nat base) + k"
    if "base < int (v4_size v)" "k \<le> wid" for k using that assms by (intro mod_less) (cases "base < 0"; simp)
  show ?thesis
  proof (cases "base \<ge> int (v4_size v)")
    case False
    then have "base + int wid < 2 ^ 31" using assms by simp
    with False m [of "wid - (if base < 0 then nat (- base) else 0)"] show ?thesis unfolding part_select_def Let_def s by simp
  qed (simp add: part_select_def s)
qed

lemma part_select_yields:
  assumes "v4_inv v" and "part_fits wid (v4_list v)" and "- (2 ^ 31) \<le> base"
  shows "yields (part_select wid base v) (select wid base (v4_list v))"
proof -
  have fit: "0 < wid" "v4_size v + wid < 2 ^ 31" using assms(2) by (simp_all add: part_fits_def)
  have low: "\<not> base + int wid < - (2 ^ 31)" using assms(3) by simp
  note plain = part_select_plain [OF fit(2), of base]
  show ?thesis
  proof (cases "base \<ge> int (v4_size v) \<or> base + int wid \<le> 0")
    case True
    then show ?thesis using yields_fill [of wid BIT4_X] select_outside [of "v4_list v" base wid] low by (auto simp: plain)
  next
    case False
    define k where "k = (if base < 0 then nat (- base) else 0)"
    define b where "b = (if base < 0 then 0 else nat base)"
    define w where "w = (if b + (wid - k) > v4_size v then v4_size v - b else wid - k)"
    have n: "k + w \<le> wid" "k < wid" "base + int k = int b" "b + w < 2 ^ 32" using False fit by (auto simp: k_def b_def w_def)
    obtain r where r: "thr_subvalue v b w = Some r" "v4_inv r" "v4_list r = select w (int b) (v4_list v)" by (rule thr_sub [OF assms(1) n(4)])
    have size: "v4_size r = w" using arg_cong [OF r(3), of length] by (simp add: select_def)
    obtain d s where s: "v4_set_vec (v4_fill wid BIT4_X) k r = Some (d, s)" "v4_inv s"
      "v4_list s = take k (replicate wid BIT4_X) @ v4_list r @ drop (k + w) (replicate wid BIT4_X)"
      by (rule v4_set_vec_spec [OF v4_fill_inv r(2), of k wid BIT4_X]) (use n size in \<open>simp_all add: v4_fill_list\<close>)
    have under: "select k base (v4_list v) = replicate k BIT4_X" by (cases "base < 0") (auto simp: k_def select_outside, simp add: select_def)
    have over: "select (wid - (k + w)) (int b + int w) (v4_list v) = replicate (wid - (k + w)) BIT4_X"
    proof (cases "wid - (k + w) = 0")
      case True then show ?thesis by (simp add: select_def)
    next
      case nz: False
      then show ?thesis using False by (intro select_outside disjI1) (simp add: w_def split: if_splits)
    qed
    have "v4_list s = select wid base (v4_list v)"
      using n by (simp add: s(3) r(3) select_split [of k wid] select_split [of w "wid - k"] under over)
    moreover have "part_select wid base v = Some s"
      using False low unfolding plain Let_def k_def [symmetric] b_def [symmetric] w_def [symmetric] by (simp add: r s)
    ultimately show ?thesis using s(2) by (simp add: yields_def)
  qed
qed

lemma yields_shift:
  assumes "v4_inv v"
  shows "yields (shift_left n v) (shl n (v4_list v))" and "yields (shift_right n pad v) (shr n pad (v4_list v))"
proof -
  show "yields (shift_left n v) (shl n (v4_list v))"
  proof (cases "n < v4_size v")
    case True
    obtain r where "v4_shiftl v n = Some r" "v4_inv r" "v4_list r = replicate n BIT4_0 @ take (v4_size v - n) (v4_list v)"
      by (rule v4_shiftl_spec [OF assms, of n]) (use True in simp)
    with True assms show ?thesis by (cases "n = 0") (simp_all add: shift_left_def yields_def shl_def min_def)
  next
    case False
    with yields_fill [of "v4_size v" BIT4_0] show ?thesis by (simp add: shift_left_def shl_def min_def)
  qed
  show "yields (shift_right n pad v) (shr n pad (v4_list v))"
  proof (cases "n \<le> v4_size v")
    case True
    obtain r where "v4_shiftr v n pad = Some r" "v4_inv r" "v4_list r = drop n (v4_list v) @ replicate n pad"
      by (rule v4_shiftr_spec [OF assms True])
    with True assms show ?thesis by (cases "n = 0") (simp_all add: shift_right_def yields_def shr_def min_def)
  next
    case False
    with yields_fill [of "v4_size v" pad] show ?thesis by (simp add: shift_right_def shr_def min_def)
  qed
qed

lemma sign_of_v4: "sign_bit v = sign_of (v4_list v)"
  by (auto simp: sign_bit_def sign_of_def last_conv_nth simp flip: length_0_conv)

lemma pad_signed_yields:
  assumes "v4_inv v"
  shows "yields (Some (if v4_size v < wid then v4_resize v wid (v4_value v (v4_size v - 1)) else v4_resize v wid BIT4_X)) (pad_signed wid (v4_list v))"
  using v4_resize_list [OF assms] sign_of_v4 [of v] by (simp add: yields_def pad_signed_def sign_bit_def)

lemma of_REPLICATE_yields:
  assumes "v4_inv v" and "copies n (v4_list v) = Some l"
  shows "yields (for_each (\<lambda>idx res. map_option snd (v4_set_vec res (idx * v4_size v mod 2 ^ 32) v)) [0..<if n < 2 ^ 31 then n else 0]
      (v4_fill (v4_size v * n mod 2 ^ 32) BIT4_X)) l"
proof -
  let ?m = "v4_size v" and ?l = "v4_list v"
  let ?P = "\<lambda>k u. v4_inv u \<and> v4_list u = concat (replicate k ?l) @ replicate (?m * (n - k)) BIT4_X"
  have n: "n < 2 ^ 31" "?m * n < 2 ^ 32" "0 < ?m \<or> n = 0" and l: "l = concat (replicate n ?l)"
    using assms(2) by (auto simp: copies_def split: if_splits)
  have small: "k * ?m mod 2 ^ 32 = k * ?m" if "k \<le> n" for k
  proof (rule mod_less)
    have "k * ?m \<le> n * ?m" by (rule mult_le_mono1 [OF that])
    then show "k * ?m < 2 ^ 32" using n(2) unfolding mult.commute [of ?m n] by (rule le_less_trans)
  qed
  have "\<exists>r. for_each (\<lambda>idx res. map_option snd (v4_set_vec res (idx * ?m mod 2 ^ 32) v)) [0..<n] (v4_fill (?m * n mod 2 ^ 32) BIT4_X) = Some r \<and> ?P n r"
  proof (rule for_upto_rule [where P = ?P])
    fix k u assume k: "k < n" and P: "?P k u"
    have len: "length (concat (replicate j ?l)) = j * ?m" for j by (induction j) simp_all
    have size: "v4_size u = ?m * n" using arg_cong [OF conjunct2 [OF P], of length] k by (simp add: len algebra_simps flip: diff_mult_distrib2)
    have "Suc k * ?m \<le> n * ?m" using k by (intro mult_le_mono1) simp
    then have fit: "k * ?m + ?m \<le> v4_size u" "k * ?m < v4_size u" using size n(3) k by (auto simp: algebra_simps)
    from P obtain d r where "v4_set_vec u (k * ?m) v = Some (d, r)" "v4_inv r"
      "v4_list r = take (k * ?m) (v4_list u) @ ?l @ drop (k * ?m + ?m) (v4_list u)"
      using v4_set_vec_spec [OF _ assms(1) fit] by blast
    moreover have "take (k * ?m) (v4_list u) = concat (replicate k ?l)" using P len [of k] by simp
    moreover have "drop (k * ?m + ?m) (v4_list u) = replicate (?m * (n - Suc k)) BIT4_X"
    proof -
      have "?m * (n - k) - ?m = ?m * (n - Suc k)" by (simp add: diff_mult_distrib2)
      then show ?thesis using P len [of k] by simp
    qed
    moreover have "concat (replicate (Suc k) ?l) = concat (replicate k ?l) @ ?l" by (simp add: replicate_append_same [symmetric])
    ultimately show "\<exists>s. map_option snd (v4_set_vec u (k * ?m mod 2 ^ 32) v) = Some s \<and> ?P (Suc k) s"
      using small [of k] k by (simp del: power_numeral numeral_power_eq_of_nat_cancel_iff)
  qed (use small [of n] in \<open>simp add: v4_fill_inv v4_fill_list mult.commute\<close>)
  then show ?thesis using n(1) by (auto simp: yields_def l)
qed

lemma sint_32: "- (2 ^ 31) \<le> sint (b :: 32 word)"
  using sint_greater_eq [of b] by simp

lemma part_base_yields:
  assumes "v4_inv v" and "v4_inv b" and "part_fits wid (v4_list v)"
  shows "yields (case (vector4_to_value b sg True :: bool \<times> 32 word option) of
      (True, Some base) \<Rightarrow> part_select wid (sint base) v | _ \<Rightarrow> Some (v4_fill wid BIT4_X)) (window_bits sg wid (v4_list b) (v4_list v))"
proof -
  have "(\<exists>i < min (v4_size b) 32. bit4_is_xz (v4_value b i)) \<longleftrightarrow> xz (take 32 (v4_list b))" by (auto simp: xz_def list_ex_length)
  with vector4_to_value_spec [OF assms(2), where 'w = 32, of sg True] show ?thesis
    using part_select_yields [OF assms(1,3) sint_32] yields_fill [of wid BIT4_X] by (simp add: window_bits_def Let_def)
qed

lemma shift_by_sim:
  assumes "\<And>n v. v4_inv v \<Longrightarrow> yields (f n v) (g n (v4_list v))" and "\<And>v. v4_inv v \<Longrightarrow> out v = out' (v4_list v)"
  shows "simulates (shift_by f out cp) (s_shift_by g out' cp)"
proof (rule simulatesI)
  fix thr st assume ok: "thr_ok thr" and st: "s_shift_by g out' cp (view thr) = Some st"
  then obtain i n flag where i: "code_unsigned cp = Some i" "get_word i thr = Some n" "get_flag 4 thr = Some flag"
    and e: "edit_top (\<lambda>l. Some (if flag = BIT4_1 then replicate (length l) BIT4_X else if flag = BIT4_X then replicate (length l) (out' l) else g (unat n) l)) (view thr) = Some st"
    by (auto simp: s_shift_by_def get_word_def get_flag_def split: bind_splits if_splits)
  have "simulates (edit_top (\<lambda>val. if flag = BIT4_1 then Some (v4_fill (v4_size val) BIT4_X)
      else if flag = BIT4_X then Some (v4_fill (v4_size val) (out val)) else f (unat n) val))
    (edit_top (\<lambda>l. Some (if flag = BIT4_1 then replicate (length l) BIT4_X else if flag = BIT4_X then replicate (length l) (out' l) else g (unat n) l)))"
    by (rule edit_top_sim) (use assms yields_fill in auto)
  from simulatesD [OF this ok e] i show "thr_gives (shift_by f out cp thr) st" by (simp add: shift_by_def)
qed

lemma of_REPLICATE_sim: "simulates (of_REPLICATE cp) (vec_spec OF_REPLICATE cp)"
proof -
  have pop: "Option.bind (pop_vec4 thr) (\<lambda>(v, thr). map_option (\<lambda>res. push_vec4 res thr) (f v)) = edit_top f thr" for f and thr :: vthread
    by (cases "thr_stack thr") (auto simp: pop_vec4_def edit_top_def peek_vec4_def poke_vec4_def push_vec4_def map_conv_bind_option comp_def)
  show ?thesis unfolding of_REPLICATE_def [abs_def] vec_spec.simps pop by (intro bind_sim edit_top_sim of_REPLICATE_yields)
qed

text \<open>The product of the widths wraps around: 32 bits and the count \<open>2 ^ 27\<close> make a vector of width 0, and the first copy does not fit.\<close>

lemma replicate_width_wraps:
  assumes "code_unsigned cp = Some n" and "n = 2 ^ 27" and "thr_stack thr = v # vs" and "v4_size v = 32"
  shows "of_REPLICATE cp thr = None"
proof -
  have n: "0 < n" "n < 2 ^ 31" "32 * n mod 2 ^ 32 = 0" using assms(2) by simp_all
  have "v4_set_vec (v4_fill 0 BIT4_X) 0 v = None" using assms(4) by (simp add: v4_set_vec_def size_v4_fill)
  then have "for_each (\<lambda>idx res. map_option snd (v4_set_vec res (idx * 32 mod 2 ^ 32) v)) [0..<n] (v4_fill 0 BIT4_X) = None"
    using upt_conv_Cons [OF n(1)] by simp
  then show ?thesis using assms(1,3,4) n(2,3) by (simp add: of_REPLICATE_def pop_vec4_def)
qed

lemma of_SPLIT_VEC4_sim: "simulates (of_SPLIT_VEC4 cp) (vec_spec OF_SPLIT_VEC4 cp)"
proof (rule simulatesI)
  fix thr st assume ok: "thr_ok thr" and st: "vec_spec OF_SPLIT_VEC4 cp (view thr) = Some st"
  then obtain w v vs where w: "code_unsigned cp = Some w" and s: "thr_stack thr = v # vs" and lt: "w < v4_size v"
    and st: "st = (view thr)\<lparr>thr_stack := take w (v4_list v) # drop w (v4_list v) # map v4_list vs\<rparr>"
    by (cases "thr_stack thr") (auto simp: peek_vec4_def poke_vec4_def push_vec4_def split: bind_splits if_splits)
  have inv: "v4_inv v" using ok s by (simp add: thr_ok_def)
  obtain l where l: "v4_subvalue v 0 w = Some l" "v4_inv l" "v4_list l = select w 0 (v4_list v)" by (rule yields_sub [OF inv, of 0]) simp
  obtain h where h: "v4_subvalue v w (v4_size v - w) = Some h" "v4_inv h" "v4_list h = select (v4_size v - w) (int w) (v4_list v)"
    by (rule yields_sub [OF inv])
  have "select w 0 (v4_list v) = take w (v4_list v)" "select (v4_size v - w) (int w) (v4_list v) = drop w (v4_list v)"
    using lt by (auto intro!: nth_equalityI simp: select_def simp flip: of_nat_add)
  with w s lt st l h ok show "thr_gives (of_SPLIT_VEC4 cp thr) st"
    by (simp add: of_SPLIT_VEC4_def thr_gives_def peek_vec4_def poke_vec4_def push_vec4_def thr_ok_def)
qed

lemma ix_bits_yields:
  fixes w :: "64 word"
  assumes "n \<le> 32" and "u = (ucast w :: 32 word)"
  shows "yields (for_each (\<lambda>idx tmp. v4_set_bit tmp idx (if drop_bit idx u AND 1 \<noteq> 0 then BIT4_1 else BIT4_0)) [0..<n] (v4_fill n BIT4_0))
    (bits_of n (uint u))"
proof -
  have "drop_bit i u AND 1 \<noteq> 0 \<longleftrightarrow> bit u i" for i by (simp add: bit_iff_odd_drop_bit and_one_eq odd_iff_mod_2_eq_one)
  with rewrite_bits [OF v4_fill_inv, of n BIT4_0 "\<lambda>idx tmp. v4_set_bit tmp idx (if drop_bit idx u AND 1 \<noteq> 0 then BIT4_1 else BIT4_0)"
      "\<lambda>i. if bit (uint u) i then BIT4_1 else BIT4_0"] assms(1) show ?thesis
    by (simp add: bits_of_def bit_uint_iff)
qed

lemma of_PUSH_IX_VEC4_sim: "simulates (of_PUSH_IX_VEC4 cp) (vec_spec OF_PUSH_IX_VEC4 cp)"
proof (rule simulatesI)
  fix thr st assume ok: "thr_ok thr" and st: "vec_spec OF_PUSH_IX_VEC4 cp (view thr) = Some st"
  let ?n = "min 32 (unat (bit_idx0 cp))"
  obtain ix w where ix: "code_unsigned cp = Some ix" "get_word ix thr = Some w"
    and st: "st = push_vec4 (bits_of ?n (uint (ucast w :: 32 word))) (view thr)"
    using st by (auto simp: get_word_def split: bind_splits if_splits)
  have n: "(if unat (bit_idx0 cp) > 32 then 32 else unat (bit_idx0 cp)) = ?n" by simp
  have u: "(if bit_idx1 cp \<noteq> 0 then word_of_int (sint (ucast w :: 32 word)) else (ucast w :: 32 word)) = ucast w" by simp
  show "thr_gives (of_PUSH_IX_VEC4 cp thr) st"
    unfolding of_PUSH_IX_VEC4_def Let_def n u ix(1) st using push_sim [OF ok ix_bits_yields [of ?n "ucast w" w]] ix(2) by simp
qed

lemma of_ADDI_sim: "simulates (of_ADDI cp) (vec_spec OF_ADDI cp)"
proof (cases "code_unsigned cp")
  case (Some wid)
  let ?r = "imm_bits wid (bit_idx0 cp) (bit_idx1 cp)"
  have imm: "immediate cp = Some (v4_immediate wid (ucast (bit_idx0 cp)) (ucast (bit_idx1 cp)))" "code_imm cp = Some ?r"
    by (simp_all add: immediate_def code_imm_def Some)
  obtain v where v: "immediate cp = Some v" "v4_inv v" "v4_list v = ?r" by (rule imm_immediate [OF imm(2)])
  have n: "v4_size l = wid" if "arith (+) (v4_list l) ?r = Some x" for l x using that by (simp add: arith_def split: if_splits)
  have "simulates (edit_top (\<lambda>l. if v4_size l = wid then v4_add_immediate l (ucast (bit_idx0 cp)) (ucast (bit_idx1 cp)) else None)) (edit_top (\<lambda>l. arith (+) l ?r))"
    if "wid \<le> 64" by (rule edit_top_sim) (use that yields_add_immediate n in auto)
  moreover have "simulates (edit_top (\<lambda>l. v4_add l v)) (edit_top (\<lambda>l. arith (+) l ?r))"
    by (rule edit_top_sim) (use yields_arith(1) v in auto)
  ultimately show ?thesis using v imm by (auto simp: simulates_def of_ADDI_def Some)
qed (simp add: simulates_def code_imm_def)

lemma of_XORI_sim: "simulates (of_XORI cp) (vec_spec OF_XORI cp)"
proof (cases "code_unsigned cp")
  case (Some wid)
  let ?a = "bit_idx0 cp" and ?b = "bit_idx1 cp"
  have bits: "bit (ucast x :: ulong) i = bit x i" for x :: "32 word" and i by (auto simp: bit_ucast_iff dest: bit_imp_le_length)
  have "yields (v4_xor_immediate v (ucast ?a) (ucast ?b) wid) l"
    if v: "v4_inv v" and l: "(if length (v4_list v) \<le> 64 then bitwise bit4_xor (v4_list v) (imm_bits wid ?a ?b) else None) = Some l" for v l
  proof -
    have n: "v4_size v \<le> 64" "v4_size v = wid" "l = map2 bit4_xor (v4_list v) (imm_bits wid ?a ?b)"
      using l by (auto simp: bitwise_def split: if_splits)
    have "l = map (\<lambda>i. bit4_xor (v4_value v i) (bit4_of (bit ?a i) (bit ?b i))) [0..<wid]"
      using n by (intro nth_equalityI) (simp_all add: imm_bits_def)
    with n show ?thesis by - (rule v4_xor_immediate_spec [OF v n(1), of "ucast ?a" "ucast ?b"], simp add: yields_def bits)
  qed
  then have "simulates (edit_top (\<lambda>val. v4_xor_immediate val (ucast ?a) (ucast ?b) wid))
      (edit_top (\<lambda>l. if length l \<le> 64 then bitwise bit4_xor l (imm_bits wid ?a ?b) else None))"
    by (rule edit_top_sim)
  then show ?thesis by (simp add: simulates_def of_XORI_def code_imm_def Some)
qed (simp add: simulates_def code_imm_def)

theorem vec_sim: "simulates (vec_exec f cp) (vec_spec f cp)"
proof (cases f)
  case OF_ADDI then show ?thesis using of_ADDI_sim by simp
next
  case OF_XORI then show ?thesis using of_XORI_sim by simp
next
  case OF_SPLIT_VEC4 then show ?thesis using of_SPLIT_VEC4_sim by simp
next
  case OF_PUSH_IX_VEC4 then show ?thesis using of_PUSH_IX_VEC4_sim by simp
next
  case OF_POP_VEC4
  have "simulates (of_POP_VEC4 cp) (of_POP_VEC4 cp)"
    by (auto simp: simulates_def thr_gives_def of_POP_VEC4_def pop_vec4_cnt_def drop_map list_all_length thr_ok_def split: bind_splits if_splits)
  then show ?thesis by (simp add: OF_POP_VEC4 simulates_def)
next
  case OF_PUSHI_VEC4
  have "simulates (of_PUSHI_VEC4 cp) (\<lambda>st. map_option (\<lambda>r. push_vec4 r st) (code_imm cp))"
  proof (rule simulatesI)
    fix thr st assume ok: "thr_ok thr" and "map_option (\<lambda>r. push_vec4 r (view thr)) (code_imm cp) = Some st"
    then obtain r where r: "code_imm cp = Some r" "st = push_vec4 r (view thr)" by auto
    obtain v where "immediate cp = Some v" "v4_inv v" "v4_list v = r" by (rule imm_immediate [OF r(1)])
    then show "thr_gives (of_PUSHI_VEC4 cp thr) st" using push_sim [OF ok, of "immediate cp" r] r(2) by (simp add: of_PUSHI_VEC4_def yields_def)
  qed
  then show ?thesis by (simp add: OF_PUSHI_VEC4 simulates_def)
next
  case OF_REPLICATE then show ?thesis using of_REPLICATE_sim by simp
next
  case OF_PAD_S then show ?thesis
    unfolding OF_PAD_S vec_exec.simps vec_spec.simps of_PAD_S_def [abs_def] by (auto intro!: bind_sim edit_top_sim pad_signed_yields simp del: if_split)
next
  case OF_PAD_U then show ?thesis
    unfolding OF_PAD_U vec_exec.simps vec_spec.simps of_PAD_U_def [abs_def]
    by (intro bind_sim edit_top_sim) (auto simp: yields_def v4_resize_list)
next
  case OF_PART_S show ?thesis
    unfolding OF_PART_S vec_exec.simps vec_spec.simps of_PART_base_def [abs_def]
    by (intro bind_sim pop_edit_sim) (use part_base_yields in \<open>auto split: if_splits\<close>)
next
  case OF_PART_U show ?thesis
    unfolding OF_PART_U vec_exec.simps vec_spec.simps of_PART_base_def [abs_def]
    by (intro bind_sim pop_edit_sim) (use part_base_yields in \<open>auto split: if_splits\<close>)
next
  case OF_PARTI_S show ?thesis
    unfolding OF_PARTI_S vec_exec.simps vec_spec.simps of_PARTI_base_def [abs_def]
    by (intro bind_sim edit_top_sim) (use part_select_yields [OF _ _ sint_32] in \<open>auto split: if_splits\<close>)
next
  case OF_PARTI_U show ?thesis
    unfolding OF_PARTI_U vec_exec.simps vec_spec.simps of_PARTI_base_def [abs_def]
    by (intro bind_sim edit_top_sim) (use part_select_yields [OF _ _ sint_32] in \<open>auto split: if_splits\<close>)
next
  case OF_SUBI show ?thesis
    unfolding OF_SUBI vec_exec.simps vec_spec.simps of_SUBI_def [abs_def] by (intro imm_sim edit_top_sim) (use yields_arith(2) in auto)
next
  case OF_MULI show ?thesis
    unfolding OF_MULI vec_exec.simps vec_spec.simps of_MULI_def [abs_def] by (intro imm_sim edit_top_sim) (use yields_arith(3) in auto)
next
  case OF_CONCATI_VEC4 show ?thesis
    unfolding OF_CONCATI_VEC4 vec_exec.simps vec_spec.simps of_CONCATI_VEC4_def [abs_def] by (intro imm_sim edit_top_sim) (use concat_yields in auto)
qed (simp_all only: vec_exec.simps vec_spec.simps of_CMPIE_def of_CMPINE_def of_CMPIS_def of_CMPIU_def of_SHIFTL_def of_SHIFTR_def of_SHIFTR_S_def
    of_SHIFTLI_def [abs_def] of_SHIFTRI_def [abs_def] of_SHIFTRI_S_def [abs_def] sign_of_v4,
    (intro compare_imm_sim shift_by_sim bind_sim edit_top_sim; (rule do_CMPE_flags do_CMPNE_flags do_CMPS_flags do_CMPU_flags; assumption)?;
      (auto simp: yields_shift sign_of_v4; fail)?)+)

end
