(* ===== verification/Thread_Net.thy ===== *)
theory Thread_Net
  imports Thread_Vec
begin

text \<open>
  The refinement for the opcodes on flags and index registers, on nets and signals, and for the opcodes the loader makes;
  then for a turn of the loop of a thread and for the loop.
\<close>

section \<open>Flags and index registers\<close>

definition bit_at :: "bits \<Rightarrow> nat \<Rightarrow> vvp_bit4_t" where
  "bit_at l i = (if i < length l then l ! i else BIT4_X)"

lemma bit_at_v4 [simp]: "bit_at (v4_list v) i = v4_value v i"
  by (simp add: bit_at_def)

text \<open>
  The index a vector stands for, and flag 4: 1 if the vector has unknown bits, x if the index does not fit in 64 bits.
  A signed vector of more than 64 bits that is not a whole number of words wide counts as unsigned for the test of the range.
\<close>

definition index_value :: "bool \<Rightarrow> bits \<Rightarrow> 64 word" where
  "index_value sg l = (if xz l then 0 else word_of_int (if sg then bits_sval l else bits_val l))"

definition signed_fits :: "bits \<Rightarrow> bool" where
  "signed_fits l \<longleftrightarrow> (let v = (if length l \<le> 64 \<or> 64 dvd length l then bits_sval l else bits_val l) in - (2 ^ 63) \<le> v \<and> v < 2 ^ 63)"

definition index_flag :: "bool \<Rightarrow> bits \<Rightarrow> vvp_bit4_t" where
  "index_flag sg l = (if xz l then BIT4_1
     else if (if sg then signed_fits l else bits_val l < 2 ^ 64) then BIT4_0 else BIT4_X)"

definition s_index :: "bool \<Rightarrow> vvp_code_s \<Rightarrow> sthread \<Rightarrow> sthread option" where
  "s_index sg cp st = Option.bind (code_unsigned cp) (\<lambda>i. Option.bind (pop_vec4 st) (\<lambda>(l, st).
     if l = [] then None else set_word i (index_value sg l) (set_flags [(4, index_flag sg l)] st)))"

fun reg_spec :: "reg_fun \<Rightarrow> vvp_code_s \<Rightarrow> sthread \<Rightarrow> sthread option" where
  "reg_spec OF_CMPIX_LTU = of_CMPIX_LTU"
| "reg_spec OF_CMPIX_SLT0 = of_CMPIX_SLT0"
| "reg_spec OF_FLAG_GET_VEC4 = (\<lambda>cp st. Option.bind (code_unsigned cp) (\<lambda>flag. map_option (\<lambda>b. push_vec4 [b] st) (get_flag flag st)))"
| "reg_spec OF_FLAG_INV = of_FLAG_INV"
| "reg_spec OF_FLAG_MOV = of_FLAG_MOV"
| "reg_spec OF_FLAG_OR = of_FLAG_OR"
| "reg_spec OF_FLAG_SET_IMM = of_FLAG_SET_IMM"
| "reg_spec OF_FLAG_SET_VEC4 = (\<lambda>cp st. Option.bind (code_unsigned cp) (\<lambda>flag. Option.bind (pop_vec4 st) (\<lambda>(l, st). set_flag flag (bit_at l 0) st)))"
| "reg_spec OF_IX_ADD = of_IX_ADD"
| "reg_spec OF_IX_LOAD = of_IX_LOAD"
| "reg_spec OF_IX_MOV = of_IX_MOV"
| "reg_spec OF_IX_MUL = of_IX_MUL"
| "reg_spec OF_IX_SUB = of_IX_SUB"
| "reg_spec OF_IX_VEC4 = s_index False"
| "reg_spec OF_IX_VEC4_S = s_index True"

lemma view_get [simp]: "get_flag i (view thr) = get_flag i thr" "get_word i (view thr) = get_word i thr"
  by (simp_all add: get_flag_def get_word_def)

text \<open>Writing a flag or a register is the same on both sides.\<close>

lemma set_sim: "thr_ok thr \<Longrightarrow> set_flag i b (view thr) = Some st \<Longrightarrow> thr_gives (set_flag i b thr) st"
  "thr_ok thr \<Longrightarrow> set_word i w (view thr) = Some st \<Longrightarrow> thr_gives (set_word i w thr) st"
  by (auto simp: thr_gives_def set_flag_def set_word_def thr_ok_def split: if_splits)

lemma index_loop_tail:
  assumes "\<forall>j \<in> set is. 0 < j"
  shows "index_loop sg a is v = (v, \<exists>j \<in> set is. if sg \<and> drop_bit 63 v \<noteq> 0 then NOT (a ! j) \<noteq> 0 else a ! j \<noteq> 0)"
  using assms by (induction "is") (auto simp: Let_def)

lemma pval_zero: "pval ws = 0 \<longleftrightarrow> (\<forall>w \<in> set ws. w = 0)"
proof (induction ws)
  case (Cons w ws)
  have "uint w + 2 ^ 64 * pval ws = 0 \<longleftrightarrow> uint w = 0 \<and> pval ws = 0" by (simp add: add_nonneg_eq_0_iff)
  with Cons show ?case by (simp add: uint_0_iff)
qed simp

lemma pval_ones: "pval ws = 2 ^ (64 * length ws) - 1 \<longleftrightarrow> (\<forall>w \<in> set ws. NOT w = 0)"
  using pval_complement [of ws] pval_zero [of "map (\<lambda>w. NOT w) ws"] by auto

lemma index_loop_words:
  "index_loop sg (w # ws) [0..<Suc (length ws)] 0 = (w, if sg \<and> bit w 63 then pval ws \<noteq> 2 ^ (64 * length ws) - 1 else pval ws \<noteq> 0)"
proof -
  have "[0..<Suc (length ws)] = 0 # map Suc [0..<length ws]" by (metis upt_conv_Cons map_Suc_upt zero_less_Suc)
  moreover have "drop_bit 63 w \<noteq> 0 \<longleftrightarrow> bit w 63" 
  proof
    assume "drop_bit 63 w \<noteq> 0"
    then obtain i where "bit w (63 + i)" by (auto simp: bit_eq_iff bit_drop_bit_eq)
    with bit_imp_le_length [of w "63 + i"] show "bit w 63" by (cases i) auto
  next
    assume "bit w 63"
    then have "bit (drop_bit 63 w) 0" by (simp add: bit_drop_bit_eq)
    then show "drop_bit 63 w \<noteq> 0" by auto
  qed
  moreover have "(\<exists>j \<in> set (map Suc [0..<length ws]). Q ((w # ws) ! j)) \<longleftrightarrow> (\<exists>x \<in> set ws. Q x)" for Q
    by (simp only: list.set_map bex_simps(7) nth_Cons_Suc) (metis in_set_conv_nth atLeastLessThan_iff set_upt zero_le)
  note tail = this [of "\<lambda>x. if sg \<and> bit w 63 then NOT x \<noteq> 0 else x \<noteq> 0"]
  ultimately show ?thesis by (cases "sg \<and> bit w 63") (auto simp: index_loop_tail tail [simplified] pval_zero pval_ones simp del: upt_Suc)
qed

lemma top_bit:
  fixes x :: int
  assumes "0 \<le> x" and "x < 2 * 2 ^ n"
  shows "bit x n \<longleftrightarrow> \<not> x < 2 ^ n"
proof -
  have "x div 2 ^ n = (if x < 2 ^ n then 0 else 1)"
    using assms by (auto intro!: div_pos_pos_trivial int_div_pos_eq [where r = "x - 2 ^ n"])
  then show ?thesis by (simp add: bit_iff_odd)
qed

lemma bits_sval_top:
  assumes "l \<noteq> []"
  shows "bits_sval l = (if bits_val l < 2 ^ (length l - 1) then bits_val l else bits_val l - 2 ^ length l)"
proof -
  have "2 ^ length l = 2 * (2 :: int) ^ (length l - 1)" using assms by (cases l) simp_all
  then have "bit (bits_val l) (length l - 1) \<longleftrightarrow> \<not> bits_val l < 2 ^ (length l - 1)"
    using bits_val_lt [of l] by (intro top_bit) simp_all
  then show ?thesis using assms by (auto simp: bits_sval_def bit_bits_val last_conv_nth)
qed

lemma index_range:
  fixes u P W :: int
  assumes "0 \<le> u" and "u < 2 ^ 64" and "0 \<le> P" and "P < W" and "2 \<le> W"
    and "v = (if u + 2 ^ 64 * P < 2 ^ 63 * W then u + 2 ^ 64 * P else u + 2 ^ 64 * P - 2 ^ 64 * W)"
  shows "(if \<not> u < 2 ^ 63 then P \<noteq> W - 1 else P \<noteq> 0) \<longleftrightarrow> \<not> (- (2 ^ 63) \<le> v \<and> v < 2 ^ 63)"
  using assms by auto

lemma index_range_unsigned:
  fixes u P W :: int
  assumes "0 \<le> u" and "u < 2 ^ 64" and "0 \<le> P" and "2 \<le> W" and "u + 2 ^ 64 * P < 2 ^ 63 * W"
  shows "(if \<not> u < 2 ^ 63 then P \<noteq> W - 1 else P \<noteq> 0) \<longleftrightarrow> \<not> (- (2 ^ 63) \<le> u + 2 ^ 64 * P \<and> u + 2 ^ 64 * P < 2 ^ 63)"
  using assms by auto

lemma index_over:
  fixes w :: ulong and l :: bits
  assumes V: "bits_val l = uint w + 2 ^ 64 * P" and P: "0 \<le> P" "P < 2 ^ (64 * k)" and n: "length l \<le> 64 * Suc k" "64 * k < length l"
  shows "(if bit w 63 then P \<noteq> 2 ^ (64 * k) - 1 else P \<noteq> 0) \<longleftrightarrow> \<not> signed_fits l"
proof -
  define n W where "n = length l" and "W = (2 :: int) ^ (64 * k)"
  have ne: "l \<noteq> []" using n by auto
  have w: "bit w 63 \<longleftrightarrow> \<not> uint w < 2 ^ 63" "0 \<le> uint w" "uint w < 2 ^ 64"
    using top_bit [of "uint w" 63] uint_lt2p [of w] by (simp_all add: bit_uint_iff)
  show ?thesis
  proof (cases "k = 0")
    case True
    then have "P = 0" using P by simp
    have "(2 :: int) ^ (n - 1) \<le> 2 ^ 63" using n True by (intro power_increasing) (simp_all add: n_def)
    moreover have "2 ^ n = 2 * (2 :: int) ^ (n - 1)" using ne unfolding n_def by (cases l) simp_all
    ultimately have "- (2 ^ 63) \<le> bits_sval l \<and> bits_sval l < 2 ^ 63"
      using bits_val_lt [of l] bits_val_nonneg [of l] unfolding bits_sval_top [OF ne] n_def [symmetric] by (simp del: bits_val_nonneg)
    then show ?thesis using True n \<open>P = 0\<close> by (simp add: Let_def signed_fits_def)
  next
    case False
    then have big: "64 < length l" "2 \<le> W" using n power_increasing [of 1 "64 * k" "2 :: int"] by (simp_all add: W_def)
    show ?thesis
    proof (cases "64 dvd length l")
      case True
      then have "length l = 64 * Suc k" using n by auto
      then have pow: "2 ^ length l = 2 ^ 64 * W" "2 ^ (length l - 1) = 2 ^ 63 * W" by (simp_all add: W_def power_add)
      then show ?thesis 
        using index_range [OF w(2,3) P(1) P(2) [folded W_def] big(2), of "bits_sval l"] True
        by (simp only: bits_sval_top [OF ne] V pow W_def [symmetric] w(1) signed_fits_def Let_def if_True simp_thms)
    next
      case False
      then have "length l \<le> 64 * k + 63" using n by (cases "length l = 64 * Suc k") auto
      then have "bits_val l < 2 ^ 63 * W" using bits_val_lt [of l] power_increasing [of "length l" "64 * k + 63" "2 :: int"] by (simp add: power_add W_def)
      then have "uint w + 2 ^ 64 * P < 2 ^ 63 * W" using V by simp
      from index_range_unsigned [OF w(2,3) P(1) big(2) this] big False show ?thesis
        by (simp only: V W_def [symmetric] w(1) signed_fits_def Let_def if_False simp_thms linorder_not_le [symmetric])
    qed
  qed
qed

lemma index_extend:
  fixes l :: bits
  assumes "l \<noteq> []"
  defines "n \<equiv> length l" and "v \<equiv> word_of_int (bits_val l) :: 64 word"
  shows "(if n < 64 then if sg \<and> v AND push_bit (n - 1) 1 \<noteq> 0 then v OR push_bit n (- 1) else v AND NOT (push_bit n (- 1)) else v)
    = word_of_int (if sg then bits_sval l else bits_val l)"
proof -
  have "v AND push_bit (n - 1) 1 \<noteq> 0 \<longleftrightarrow> bit v (n - 1)" using and_exp_eq_0_iff_not_bit [of v "n - 1"] by (simp add: push_bit_eq_mult)
  moreover have "bit v (n - 1) \<longleftrightarrow> last l = BIT4_1" if "n < 64"
    using that assms by (auto simp: bit_word_of_int_iff bit_bits_val last_conv_nth)
  ultimately show ?thesis
    using assms(1) by (intro bit_word_eqI) (auto simp: v_def n_def bit_word_of_int_iff bit_bits_val bit_bits_sval bit_simps)
qed

lemma vec4_to_index_gives:
  assumes ok: "thr_ok thr" and s: "thr_stack thr = v # vs" and ne: "v4_list v \<noteq> []"
  shows "vec4_to_index sg thr = Some (index_value sg (v4_list v), set_flags [(4, index_flag sg (v4_list v))] (thr\<lparr>thr_stack := vs\<rparr>))"
proof -
  let ?l = "v4_list v" and ?n = "v4_size v"
  have inv: "v4_inv v" and pos: "0 < ?n" using ok s ne by (auto simp: thr_ok_def simp flip: length_greater_0_conv)
  show ?thesis
  proof (cases "xz ?l")
    case True
    then have "v4_subarray v 0 ?n False = None" using subarray_value(1) [OF inv pos] by simp
    with True s show ?thesis by (simp add: vec4_to_index_def peek_vec4_def pop_vec4_cnt_def index_value_def index_flag_def)
  next
    case False
    then obtain a where a: "v4_subarray v 0 ?n False = Some a" "length a = words_for ?n" "pval a = bits_val ?l"
      using subarray_value [OF inv pos] by (cases "v4_subarray v 0 ?n False") auto
    have "0 < words_for ?n" using pos by (simp add: words_for_def)
    then obtain w ws where c: "a = w # ws" using a(2) by (cases a) auto
    have k: "words_for ?n = Suc (length ws)" using a(2) c by simp
    have n: "?n \<le> 64 * Suc (length ws)" "64 * length ws < ?n" using k pos by (simp_all add: words_for_def)
    have V: "bits_val ?l = uint w + 2 ^ 64 * pval ws" using a(3) c by simp
    have small: "pval ws \<noteq> 0 \<longleftrightarrow> \<not> bits_val ?l < 2 ^ 64" 
  proof
    assume "pval ws \<noteq> 0"
    then have "(2 :: int) ^ 64 * 1 \<le> 2 ^ 64 * pval ws" using pval_nonneg [of ws] by (intro mult_left_mono) (linarith, simp)
    then show "\<not> bits_val ?l < 2 ^ 64" using V uint_nonnegative [of w] by linarith
  qed (use V uint_lt2p [of w] in auto)
    have over: "snd (index_loop sg a [0..<words_for ?n] 0) \<longleftrightarrow> index_flag sg ?l = BIT4_X" "index_flag sg ?l = BIT4_X \<or> index_flag sg ?l = BIT4_0"
      using index_over [OF V pval_nonneg pval_lt] n False small by (auto simp: index_loop_words k c index_flag_def simp del: upt_Suc split: if_splits)
    have wv: "w = word_of_int (bits_val ?l)" 
    proof (rule word_uint_eqI)
      have "uint (word_of_int (bits_val ?l) :: 64 word) = bits_val ?l mod 2 ^ 64" by (simp add: uint_word_of_int)
      also have "\<dots> = uint w" using uint_lt2p [of w] by (simp add: V)
      finally show "uint w = uint (word_of_int (bits_val ?l) :: 64 word)" ..
    qed
    have "fst (index_loop sg a [0..<words_for ?n] 0) = w" using c k by (simp add: index_loop_words del: upt_Suc)
    then obtain b where loop: "index_loop sg a [0..<words_for ?n] 0 = (w, b)" by (metis prod.collapse)
    then have "(if b then BIT4_X else BIT4_0) = index_flag sg ?l" using over by auto
    with loop a(1) s False index_extend [OF ne, of sg] show ?thesis
      by (simp add: vec4_to_index_def peek_vec4_def pop_vec4_cnt_def index_value_def wv cong: if_cong split del: if_split)
  qed
qed

lemma index_sim:
  assumes "f = (\<lambda>thr. Option.bind (code_unsigned cp) (\<lambda>i. Option.bind (vec4_to_index sg thr) (\<lambda>(v, thr). set_word i v thr)))"
  shows "simulates f (s_index sg cp)"
proof (rule simulatesI)
  fix thr st assume ok: "thr_ok thr" and st: "s_index sg cp (view thr) = Some st"
  then obtain i v vs where i: "code_unsigned cp = Some i" and s: "thr_stack thr = v # vs" and ne: "v4_list v \<noteq> []"
    and st: "set_word i (index_value sg (v4_list v)) (view (set_flags [(4, index_flag sg (v4_list v))] (thr\<lparr>thr_stack := vs\<rparr>))) = Some st"
    by (cases "thr_stack thr") (auto simp: s_index_def pop_vec4_def split: bind_splits if_splits)
  have "thr_ok (set_flags [(4, index_flag sg (v4_list v))] (thr\<lparr>thr_stack := vs\<rparr>))" using ok s by (simp add: thr_ok_def)
  from set_sim(2) [OF this st] show "thr_gives (f thr) st" by (simp add: assms i vec4_to_index_gives [OF ok s ne])
qed

lemma of_FLAG_SET_VEC4_sim: "simulates (of_FLAG_SET_VEC4 cp) (reg_spec OF_FLAG_SET_VEC4 cp)"
proof (rule simulatesI)
  fix thr st assume "thr_ok thr" and "reg_spec OF_FLAG_SET_VEC4 cp (view thr) = Some st"
  then show "thr_gives (of_FLAG_SET_VEC4 cp thr) st"
    by (cases "thr_stack thr") (auto simp: of_FLAG_SET_VEC4_def pop_vec4_def peek_vec4_def pop_vec4_cnt_def thr_gives_def set_flag_def thr_ok_def split: bind_splits if_splits)
qed

lemma of_FLAG_GET_VEC4_sim: "simulates (of_FLAG_GET_VEC4 cp) (reg_spec OF_FLAG_GET_VEC4 cp)"
proof (rule simulatesI)
  fix thr st assume ok: "thr_ok thr" and "reg_spec OF_FLAG_GET_VEC4 cp (view thr) = Some st"
  then obtain i b where i: "code_unsigned cp = Some i" "get_flag i thr = Some b" and st: "st = push_vec4 [b] (view thr)" by (auto split: bind_splits)
  with push_sim [OF ok yields_fill [of 1 b]] show "thr_gives (of_FLAG_GET_VEC4 cp thr) st" by (simp add: of_FLAG_GET_VEC4_def)
qed

lemmas register_defs = of_CMPIX_LTU_def of_CMPIX_SLT0_def of_FLAG_INV_def of_FLAG_MOV_def of_FLAG_OR_def of_FLAG_SET_IMM_def
  of_IX_ADD_def of_IX_LOAD_def of_IX_MOV_def of_IX_MUL_def of_IX_SUB_def ix_op_def

theorem reg_sim: "simulates (reg_exec f cp) (reg_spec f cp)"
proof (cases f)
  case OF_FLAG_SET_VEC4 then show ?thesis using of_FLAG_SET_VEC4_sim by simp
next
  case OF_FLAG_GET_VEC4 then show ?thesis using of_FLAG_GET_VEC4_sim by simp
next
  case OF_IX_VEC4 then show ?thesis by (simp add: index_sim of_IX_VEC4_def [abs_def])
next
  case OF_IX_VEC4_S then show ?thesis by (simp add: index_sim of_IX_VEC4_S_def [abs_def])
qed (auto simp: register_defs Let_def split: bind_splits if_splits intro!: simulatesI set_sim)

section \<open>Nets and signals\<close>

type_synonym soutcome = "bits outcome_s"

definition outcome_gives :: "outcome \<Rightarrow> sthread \<times> thr_effect list \<times> bool \<Rightarrow> bool" where
  "outcome_gives r res \<longleftrightarrow> (\<exists>thr. r = Some (thr, snd res) \<and> thr_ok thr \<and> view thr = fst res)"

definition refines :: "(vthread \<Rightarrow> outcome) \<Rightarrow> (sthread \<Rightarrow> soutcome) \<Rightarrow> bool" where
  "refines f g \<longleftrightarrow> (\<forall>thr res. thr_ok thr \<longrightarrow> g (view thr) = Some res \<longrightarrow> outcome_gives (f thr) res)"

definition env_ok :: "env \<Rightarrow> bool" where
  "env_ok env \<longleftrightarrow> (\<forall>sig. v4_inv (env_signal env sig) \<and> (\<forall>n. env_strong env sig = Some n \<longrightarrow> v4_size (env_signal env sig) = n \<and> 0 < n))"

abbreviation sig_bits :: "env \<Rightarrow> nat \<Rightarrow> bits" where
  "sig_bits env sig \<equiv> v4_list (env_signal env sig)"

text \<open>The part of a value at an offset that falls into a target of a width, and what a store does with it.\<close>

definition clip :: "nat \<Rightarrow> int \<Rightarrow> bits \<Rightarrow> bits" where
  "clip n off l = drop (nat (- off)) (take (nat (int n - off)) l)"

definition store_effect :: "nat \<Rightarrow> nat \<Rightarrow> int \<Rightarrow> bits \<Rightarrow> thr_effect list" where
  "store_effect net n off l =
    (let part = clip n off l; pos = nat off in
     if part = [] then [] else if pos = 0 \<and> length part = n then [SEND_NET net part] else [SEND_NET_PV net part pos n])"

definition s_store :: "env \<Rightarrow> vvp_code_s \<Rightarrow> sthread \<Rightarrow> soutcome" where
  "s_store env cp st = Option.bind (code_net cp) (\<lambda>net. Option.bind (env_fil env net) (\<lambda>sig.
     let n = length (sig_bits env sig); index = unat (bit_idx0 cp); wid = unat (bit_idx1 cp) in
     Option.bind (if index \<noteq> 0 then map_option sint (get_word index st) else Some 0) (\<lambda>off. Option.bind (pop_vec4 st) (\<lambda>(l, st).
       if n = 0 \<or> wid = 0 \<or> length l < wid then None
       else Some (st, if index \<noteq> 0 \<and> thr_flags st ! 4 = BIT4_1 then [] else store_effect net n off (take wid l), True)))))"

definition s_getv :: "(bits \<Rightarrow> 64 word) \<Rightarrow> (bits \<Rightarrow> vvp_bit4_t) \<Rightarrow> env \<Rightarrow> vvp_code_s \<Rightarrow> sthread \<Rightarrow> sthread option" where
  "s_getv val flag env cp st = Option.bind (code_net cp) (\<lambda>net. Option.bind (env_fil env net) (\<lambda>sig.
     Option.bind (set_word (unat (bit_idx0 cp)) (val (sig_bits env sig)) st) (set_flag 4 (flag (sig_bits env sig)))))"

fun net_spec :: "net_fun \<Rightarrow> env \<Rightarrow> vvp_code_s \<Rightarrow> sthread \<Rightarrow> soutcome" where
  "net_spec OF_ASSIGN_VEC4 env cp = (\<lambda>st. Option.bind (code_net cp) (\<lambda>net.
     map_option (\<lambda>(l, st). (st, [SCHEDULE_ASSIGN net l (unat (bit_idx0 cp))], True)) (pop_vec4 st)))"
| "net_spec OF_CHUNK_LINK env cp = of_CHUNK_LINK cp"
| "net_spec OF_DELAY env cp = of_DELAY cp"
| "net_spec OF_DELAYX env cp = of_DELAYX cp"
| "net_spec OF_IX_GETV env cp = (\<lambda>st. goes_on (s_getv (index_value False) (index_flag False) env cp st))"
| "net_spec OF_IX_GETV_S env cp = (\<lambda>st. goes_on (s_getv (\<lambda>l. if xz (take 64 l) then 0 else word_of_int (bits_sval l))
     (\<lambda>l. if xz (take 64 l) then BIT4_1 else BIT4_0) env cp st))"
| "net_spec OF_JMP env cp = of_JMP env cp"
| "net_spec OF_JMP0 env cp = of_JMP0 env cp"
| "net_spec OF_JMP0XZ env cp = of_JMP0XZ env cp"
| "net_spec OF_JMP1 env cp = of_JMP1 env cp"
| "net_spec OF_JMP1XZ env cp = of_JMP1XZ env cp"
| "net_spec OF_LOAD_VEC4 env cp = (\<lambda>st. goes_on (map_option (\<lambda>sig. push_vec4 (sig_bits env sig) st) (code_signal cp)))"
| "net_spec OF_NOOP env cp = (\<lambda>st. Some (st, [], True))"
| "net_spec OF_STORE_VEC4 env cp = s_store env cp"
| "net_spec OF_STORE_VEC4_FULL env cp = (\<lambda>st. Option.bind (code_net cp) (\<lambda>net. Option.bind (pop_vec4 st) (\<lambda>(l, st).
     if length l < unat (bit_idx1 cp) then None else Some (st, [SEND_NET net (take (unat (bit_idx1 cp)) l)], True))))"

lemma refinesI: "(\<And>thr st acts go. thr_ok thr \<Longrightarrow> g (view thr) = Some (st, acts, go) \<Longrightarrow> outcome_gives (f thr) (st, acts, go)) \<Longrightarrow> refines f g"
  by (simp add: refines_def)

lemma goes_on_refines: "simulates f g \<Longrightarrow> refines (\<lambda>thr. goes_on (f thr)) (\<lambda>st. goes_on (g st))"
  by (fastforce simp: refines_def simulates_def outcome_gives_def thr_gives_def)

lemma select_inside: "base + wid \<le> length l \<Longrightarrow> select wid (int base) l = take wid (drop base l)"
  by (auto intro!: nth_equalityI simp: select_def simp flip: of_nat_add)

lemma resize_rval_vec_clip:
  assumes inv: "v4_inv v" and pos: "0 < v4_size v" "0 < n"
  shows "if clip n off (v4_list v) = [] then resize_rval_vec v off n = Some None
    else \<exists>r. resize_rval_vec v off n = Some (Some (r, max off 0)) \<and> v4_inv r \<and> v4_list r = clip n off (v4_list v)"
proof -
  let ?l = "v4_list v" and ?m = "v4_size v"
  consider (inside) "0 \<le> off" "nat off + ?m \<le> n" | (above) "0 \<le> off" "n \<le> nat off" | (below) "off < 0" "?m \<le> nat (- off)"
    | (over) "0 \<le> off" "n < nat off + ?m" "nat off < n" | (under) "off < 0" "nat (- off) < ?m" by linarith
  then show ?thesis
  proof cases
    case inside
    then have "nat (int n - off) \<ge> ?m" by linarith
    with inside inv pos show ?thesis by (simp add: resize_rval_vec_def clip_def Let_def flip: length_greater_0_conv)
  next
    case above
    then have "clip n off ?l = []" by (simp add: clip_def nat_le_iff)
    with above pos show ?thesis by (auto simp: resize_rval_vec_def Let_def)
  next
    case below
    then have "clip n off ?l = []" by (simp add: clip_def)
    with below show ?thesis by (simp add: resize_rval_vec_def Let_def)
  next
    case over
    obtain r where r: "v4_subvalue v 0 (n - nat off) = Some r" "v4_inv r" "v4_list r = select (n - nat off) (int 0) ?l" by (rule yields_sub [OF inv])
    have "select (n - nat off) (int 0) ?l = take (n - nat off) ?l" using over by (subst select_inside) simp_all
    moreover have "clip n off ?l = take (n - nat off) ?l" using over by (simp add: clip_def nat_diff_distrib)
    ultimately show ?thesis using over r pos by (auto simp: resize_rval_vec_def Let_def simp flip: length_0_conv)
  next
    case under
    define k w where "k = nat (- off)" and "w = (if ?m - k > n then n else ?m - k)"
    obtain r where r: "v4_subvalue v k w = Some r" "v4_inv r" "v4_list r = select w (int k) ?l" by (rule yields_sub [OF inv])
    have "clip n off ?l = take w (drop k ?l)" 
    proof -
      have "nat (int n - off) - k = n" using under by (simp add: k_def)
      then show ?thesis by (simp add: clip_def k_def [symmetric] drop_take w_def)
    qed
    moreover have "select w (int k) ?l = take w (drop k ?l)" using under by (intro select_inside) (auto simp: k_def w_def)
    moreover have "clip n off ?l \<noteq> []" using calculation(1) under pos by (auto simp: w_def k_def simp flip: length_0_conv)
    moreover have "resize_rval_vec v off n = map_option (\<lambda>val. Some (val, 0)) (v4_subvalue v k w)"
      using under by (simp add: resize_rval_vec_def Let_def k_def w_def)
    ultimately show ?thesis using under r by simp
  qed
qed

lemma pop_view:
  assumes "thr_ok thr" and "pop_vec4 (view thr) = Some (l, st)"
  obtains v vs where "thr_stack thr = v # vs" and "v4_inv v" and "v4_list v = l" and "st = view (thr\<lparr>thr_stack := vs\<rparr>)"
    and "thr_ok (thr\<lparr>thr_stack := vs\<rparr>)" and "pop_vec4_cnt 1 thr = Some (thr\<lparr>thr_stack := vs\<rparr>)" and "peek_vec4 0 thr = Some v"
  using assms by (cases "thr_stack thr") (auto simp: pop_vec4_def thr_ok_def pop_vec4_cnt_def peek_vec4_def)

lemma resize_take:
  assumes "v4_inv v" and "wid \<le> v4_size v"
  defines "r \<equiv> if v4_size v > wid then v4_resize v wid BIT4_X else v"
  shows "v4_inv r" and "v4_list r = take wid (v4_list v)" and "v4_size r = wid"
  using assms v4_resize_list [OF assms(1), of wid BIT4_X] by (auto simp: r_def)

lemma of_STORE_VEC4_sim:
  assumes "env_ok env"
  shows "refines (of_STORE_VEC4 env cp) (s_store env cp)"
proof (rule refinesI)
  fix thr st acts go assume ok: "thr_ok thr" and st: "s_store env cp (view thr) = Some (st, acts, go)"
  let ?wid = "unat (bit_idx1 cp)" and ?ix = "unat (bit_idx0 cp)"
  obtain net sig off l where net: "code_net cp = Some net" "env_fil env net = Some sig"
    and off: "(if ?ix \<noteq> 0 then map_option sint (get_word ?ix thr) else Some 0) = Some off"
    and pop: "pop_vec4 (view thr) = Some (l, st)" and wid: "0 < ?wid" "?wid \<le> length l" and n: "0 < v4_size (env_signal env sig)"
    and res: "go" "acts = (if ?ix \<noteq> 0 \<and> thr_flags st ! 4 = BIT4_1 then [] else store_effect net (v4_size (env_signal env sig)) off (take ?wid l))"
    using st by (auto simp: s_store_def Let_def not_less split: bind_splits if_splits)
  obtain v vs where v: "thr_stack thr = v # vs" "v4_inv v" "v4_list v = l" "st = view (thr\<lparr>thr_stack := vs\<rparr>)"
    "thr_ok (thr\<lparr>thr_stack := vs\<rparr>)" "pop_vec4_cnt 1 thr = Some (thr\<lparr>thr_stack := vs\<rparr>)" "peek_vec4 0 thr = Some v" by (rule pop_view [OF ok pop])
  let ?n = "v4_size (env_signal env sig)" and ?c = "clip (v4_size (env_signal env sig)) off (take ?wid l)"
  define r where "r = (if v4_size v > ?wid then v4_resize v ?wid BIT4_X else v)"
  have size: "\<not> v4_size v < ?wid" using wid(2) v(3) length_v4_list [of v] by simp
  have r: "v4_inv r" "v4_list r = take ?wid l" "v4_size r = ?wid" using resize_take [OF v(2), of ?wid] size v(3) by (simp_all add: r_def)
  have clip: "if ?c = [] then resize_rval_vec r off ?n = Some None
    else \<exists>s. resize_rval_vec r off ?n = Some (Some (s, max off 0)) \<and> v4_inv s \<and> v4_list s = ?c"
    using resize_rval_vec_clip [OF r(1), of ?n off] wid(1) n unfolding r(2,3) by simp
  define finish where "finish = (\<lambda>acts :: thr_effect list. map_option (\<lambda>thr. (thr, acts, True)) (pop_vec4_cnt 1 thr))"
  have fin: "outcome_gives (finish acts) (st, acts, True)" for acts using v by (simp add: finish_def outcome_gives_def)
  have eq: "of_STORE_VEC4 env cp thr =
    (if ?ix = 0 \<and> ?wid = ?n then finish [SEND_NET net (v4_list r)]
     else if ?ix \<noteq> 0 \<and> thr_flags thr ! 4 = BIT4_1 then finish []
     else Option.bind (resize_rval_vec r off ?n) (\<lambda>clip. case clip of None \<Rightarrow> finish [] | Some (val, off) \<Rightarrow>
       if off = 0 \<and> v4_size val = ?n then finish [SEND_NET net (v4_list val)] else finish [SEND_NET_PV net (v4_list val) (nat off) ?n]))"
    unfolding of_STORE_VEC4_def net bind.simps Let_def off v(7) if_not_P [OF size] r_def [symmetric] r(3) finish_def [symmetric]
    by (simp add: get_flag_def FLAGS_COUNT_def)
  show "outcome_gives (of_STORE_VEC4 env cp thr) (st, acts, go)"
  proof (cases "?ix = 0 \<and> ?wid = ?n")
    case True
    then have "off = 0" using off by simp
    then have "?c = take ?wid l" "?c \<noteq> []" using True wid n by (auto simp: clip_def)
    then show ?thesis unfolding eq r(2) using True res fin wid \<open>off = 0\<close> by (simp add: store_effect_def Let_def)
  next
    case False
    have flag: "thr_flags st ! 4 = thr_flags thr ! 4" using v(4) by simp
    have "of_STORE_VEC4 env cp thr = finish acts"
    proof (cases "?c = []")
      case True
      then show ?thesis unfolding eq res(2) if_not_P [OF False] store_effect_def Let_def flag using clip by simp
    next
      case ne: False
      then obtain s where s: "resize_rval_vec r off ?n = Some (Some (s, max off 0))" "v4_list s = ?c" using clip by auto
      have "v4_size s = length ?c" using arg_cong [OF s(2), of length] by simp
      moreover have "max off 0 = 0 \<longleftrightarrow> nat off = 0" "nat (max off 0) = nat off" by auto
      ultimately show ?thesis unfolding eq res(2) if_not_P [OF False] store_effect_def Let_def flag s(1) using ne s(2) by simp
    qed
    then show ?thesis using fin res(1) by simp
  qed
qed

lemma getv_sim:
  assumes "\<And>sig. getv sig = (val (sig_bits env sig), flag (sig_bits env sig))"
    and "f = (\<lambda>thr. Option.bind (code_net cp) (\<lambda>net. Option.bind (env_fil env net) (\<lambda>sig.
      let (w, b) = getv sig in Option.bind (set_word (unat (bit_idx0 cp)) w thr) (set_flag 4 b))))"
  shows "simulates f (s_getv val flag env cp)"
proof -
  have "thr_gives (Option.bind (set_word i w thr) (set_flag k b)) st"
    if "thr_ok thr" and "Option.bind (set_word i w (view thr)) (set_flag k b) = Some st" for thr st i w k b
    using that by (auto simp: thr_gives_def set_flag_def set_word_def thr_ok_def split: bind_splits if_splits)
  then show ?thesis by (auto simp: simulates_def s_getv_def assms split: bind_splits)
qed

lemma jump_sim: "refines (jump_if test env cp) (jump_if test env cp)" "refines (of_JMP env cp) (of_JMP env cp)"
  by (auto simp: refines_def jump_if_def of_JMP_def after_jump_def outcome_gives_def thr_ok_def split: bind_splits if_splits)

theorem net_sim:
  assumes env: "env_ok env"
  shows "refines (net_exec f env cp) (net_spec f env cp)"
proof (cases f)
  case OF_STORE_VEC4 then show ?thesis using of_STORE_VEC4_sim [OF env, of cp] by (simp add: refines_def)
next
  case OF_STORE_VEC4_FULL
  show ?thesis unfolding OF_STORE_VEC4_FULL
  proof (rule refinesI)
    fix thr st acts go assume ok: "thr_ok thr" and "net_spec OF_STORE_VEC4_FULL env cp (view thr) = Some (st, acts, go)"
    then obtain net l where net: "code_net cp = Some net" and pop: "pop_vec4 (view thr) = Some (l, st)" and wid: "unat (bit_idx1 cp) \<le> length l"
      and res: "acts = [SEND_NET net (take (unat (bit_idx1 cp)) l)]" "go" by (auto simp: not_less split: bind_splits if_splits)
    obtain v vs where v: "thr_stack thr = v # vs" "v4_inv v" "v4_list v = l" "st = view (thr\<lparr>thr_stack := vs\<rparr>)"
      "thr_ok (thr\<lparr>thr_stack := vs\<rparr>)" "pop_vec4_cnt 1 thr = Some (thr\<lparr>thr_stack := vs\<rparr>)" "peek_vec4 0 thr = Some v" by (rule pop_view [OF ok pop])
    have size: "unat (bit_idx1 cp) \<le> v4_size v" using wid v(3) length_v4_list [of v] by simp
    show "outcome_gives (net_exec OF_STORE_VEC4_FULL env cp thr) (st, acts, go)"
      using net v res size resize_take [OF v(2) size] by (simp add: of_STORE_VEC4_FULL_def outcome_gives_def Let_def cong: if_cong)
  qed
next
  case OF_ASSIGN_VEC4
  show ?thesis unfolding OF_ASSIGN_VEC4
  proof (rule refinesI)
    fix thr st acts go assume ok: "thr_ok thr" and "net_spec OF_ASSIGN_VEC4 env cp (view thr) = Some (st, acts, go)"
    then obtain net l where net: "code_net cp = Some net" and pop: "pop_vec4 (view thr) = Some (l, st)"
      and res: "acts = [SCHEDULE_ASSIGN net l (unat (bit_idx0 cp))]" "go" by (auto split: bind_splits)
    obtain v vs where "thr_stack thr = v # vs" "v4_inv v" "v4_list v = l" "st = view (thr\<lparr>thr_stack := vs\<rparr>)"
      "thr_ok (thr\<lparr>thr_stack := vs\<rparr>)" "pop_vec4_cnt 1 thr = Some (thr\<lparr>thr_stack := vs\<rparr>)" "peek_vec4 0 thr = Some v" by (rule pop_view [OF ok pop])
    with net res show "outcome_gives (net_exec OF_ASSIGN_VEC4 env cp thr) (st, acts, go)" by (simp add: of_ASSIGN_VEC4_def outcome_gives_def)
  qed
next
  case OF_IX_GETV
  have "(case vector4_to_ulong (env_signal env sig) of Some (over, val) \<Rightarrow> (val, if over then BIT4_X else BIT4_0) | None \<Rightarrow> (0, BIT4_1))
      = (index_value False (sig_bits env sig), index_flag False (sig_bits env sig))" for sig
    using env vector4_to_ulong_spec [of "env_signal env sig"] by (auto simp: env_ok_def xz_v4 index_value_def index_flag_def)
  then have "simulates (of_IX_GETV env cp) (s_getv (index_value False) (index_flag False) env cp)"
    by (rule getv_sim) (simp add: of_IX_GETV_def [abs_def])
  from goes_on_refines [OF this] show ?thesis by (simp add: OF_IX_GETV refines_def)
next
  case OF_IX_GETV_S
  have "(case (vector4_to_value (env_signal env sig) True True :: bool \<times> 64 word option) of (True, Some val) \<Rightarrow> (val, BIT4_0) | _ \<Rightarrow> (0, BIT4_1))
      = (if xz (take 64 (sig_bits env sig)) then 0 else word_of_int (bits_sval (sig_bits env sig)), if xz (take 64 (sig_bits env sig)) then BIT4_1 else BIT4_0)" for sig
  proof -
    have "(\<exists>i < min (v4_size (env_signal env sig)) 64. bit4_is_xz (v4_value (env_signal env sig) i)) \<longleftrightarrow> xz (take 64 (sig_bits env sig))"
      by (auto simp: xz_def list_ex_length)
    then show ?thesis using env vector4_to_value_spec [of "env_signal env sig" True True, where 'w = 64] by (simp add: env_ok_def Let_def)
  qed
  then have "simulates (of_IX_GETV_S env cp) (s_getv (\<lambda>l. if xz (take 64 l) then 0 else word_of_int (bits_sval l))
      (\<lambda>l. if xz (take 64 l) then BIT4_1 else BIT4_0) env cp)"
    by (rule getv_sim) (simp add: of_IX_GETV_S_def [abs_def])
  from goes_on_refines [OF this] show ?thesis by (simp add: OF_IX_GETV_S refines_def)
next
  case OF_LOAD_VEC4 then show ?thesis
    using env by (auto simp: refines_def of_LOAD_VEC4_def outcome_gives_def push_vec4_def thr_ok_def env_ok_def)
next
  case OF_CHUNK_LINK then show ?thesis by (auto simp: refines_def of_CHUNK_LINK_def outcome_gives_def thr_ok_def)
next
  case OF_DELAY then show ?thesis by (auto simp: refines_def of_DELAY_def delay_by_def outcome_gives_def)
next
  case OF_DELAYX then show ?thesis by (auto simp: refines_def of_DELAYX_def delay_by_def outcome_gives_def split: bind_splits)
next
  case OF_NOOP then show ?thesis by (auto simp: refines_def outcome_gives_def)
qed (use jump_sim in \<open>simp_all add: refines_def of_JMP0_def of_JMP0XZ_def of_JMP1_def of_JMP1XZ_def\<close>)

end
