(* ===== verification/Thread_Fused.thy ===== *)
theory Thread_Fused
  imports Thread_Net
begin

text \<open>
  The refinement for the opcodes the loader makes by fusing instructions, for a turn of the loop of a thread, and for
  the loop: where the specification of a program runs, the handlers run and have the same effects.
\<close>

section \<open>Fused opcodes\<close>

definition load_part :: "env \<Rightarrow> vvp_code_s \<Rightarrow> bits option" where
  "load_part env cp = Option.bind (code_signal cp) (\<lambda>sig.
     if part_fits (unat (bit_idx1 cp)) (sig_bits env sig) then Some (select (unat (bit_idx1 cp)) (sint (bit_idx0 cp)) (sig_bits env sig)) else None)"

definition part_of :: "env \<Rightarrow> vvp_code_s \<Rightarrow> bits option" where
  "part_of env cp = (if 0 \<le> sint (bit_idx0 cp) then load_part env cp else None)"

text \<open>A bit of a signal on its own: a signal with drive strengths has none beyond its end.\<close>

definition signal_bit :: "env \<Rightarrow> nat \<Rightarrow> nat \<Rightarrow> vvp_bit4_t option" where
  "signal_bit env sig i = (if env_strong env sig = None \<or> i < length (sig_bits env sig) then Some (bit_at (sig_bits env sig) i) else None)"

text \<open>When the two parts of \<^verbatim>\<open>of_LOAD_PARTI_PAIR_CONCAT\<close> can be read from the only word of the signal.\<close>

definition one_word :: "nat option \<Rightarrow> vvp_code_s \<Rightarrow> vvp_code_s \<Rightarrow> bool" where
  "one_word signal_wid cp rhs \<longleftrightarrow>
    (let lhs_base = unat (bit_idx0 cp); lhs_wid = unat (bit_idx1 cp); rhs_base = unat (bit_idx0 rhs); rhs_wid = unat (bit_idx1 rhs) in
     case signal_wid of None \<Rightarrow> False | Some signal_wid \<Rightarrow>
       code_signal cp = code_signal rhs \<and> lhs_wid > 0 \<and> lhs_wid < 64 \<and> rhs_wid > 0 \<and> rhs_wid \<le> 64 - lhs_wid \<and> signal_wid \<le> 64
       \<and> lhs_base \<le> signal_wid \<and> lhs_wid \<le> signal_wid - lhs_base \<and> rhs_base \<le> signal_wid \<and> rhs_wid \<le> signal_wid - rhs_base)"

definition signal_size :: "env \<Rightarrow> vvp_code_s \<Rightarrow> nat option" where
  "signal_size env cp = map_option (\<lambda>sig. length (sig_bits env sig)) (code_signal cp)"

definition compare_flags :: "32 word \<Rightarrow> bits \<Rightarrow> bits \<Rightarrow> (nat \<times> vvp_bit4_t) list option" where
  "compare_flags tag = (if tag AND 7 = 0 then cmpe_flags else if tag AND 7 = 1 then cmpne_flags else if tag AND 7 = 2 then cmps_flags else cmpu_flags)"

fun fused_spec :: "fused_fun \<Rightarrow> env \<Rightarrow> codespace \<Rightarrow> vvp_code_t \<Rightarrow> vvp_code_s \<Rightarrow> sthread \<Rightarrow> soutcome" where
  "fused_spec OF_ASSIGNI_VEC4 env code a cp = (\<lambda>st. map_option (\<lambda>net.
     (st, [SCHEDULE_ASSIGN net (imm_bits (unat (drop_bit 6 (bit_idx1 cp))) (bit_idx0 cp) 0) (unat (bit_idx1 cp AND 63))], True)) (code_net cp))"
| "fused_spec OF_CMPI_JMP env code a cp = (\<lambda>st. Option.bind (code (code_add a 1)) (\<lambda>jmp. Option.bind (code_imm cp) (\<lambda>r.
     Option.bind (compare_with (s_cmp (compare_flags (bit_idx1 jmp))) r st) (cmpi_branch env jmp))))"
| "fused_spec OF_CONCATI_WIDE env code a cp = (\<lambda>st. goes_on (Option.bind (code_cvec cp) (\<lambda>v.
     map_option (skip_slots (unat (bit_idx0 cp))) (edit_top (\<lambda>l. joined l (v4_list v)) st))))"
| "fused_spec OF_FLAG_SETGET_VEC4 env code a cp = (\<lambda>st. goes_on (Option.bind (code_unsigned cp) (\<lambda>flag.
     Option.bind (pop_vec4 (skip_slots 1 st)) (\<lambda>(l, st). map_option (push_vec4 [bit_at l 0]) (set_flag flag (bit_at l 0) st)))))"
| "fused_spec OF_LOAD_FLAG env code a cp = (\<lambda>st. goes_on (Option.bind (code_signal cp) (\<lambda>sig.
     set_flag (unat (bit_idx0 cp)) (bit_at (sig_bits env sig) 0) (skip_slots 1 st))))"
| "fused_spec OF_LOAD_PARTI_ADD env code a cp = (\<lambda>st. goes_on (Option.bind (part_of env cp) (\<lambda>r. edit_top (\<lambda>l. arith (+) l r) (skip_slots 2 st))))"
| "fused_spec OF_LOAD_PARTI_CONCAT env code a cp = (\<lambda>st. goes_on (Option.bind (part_of env cp) (\<lambda>r. edit_top (\<lambda>l. joined l r) (skip_slots 2 st))))"
| "fused_spec OF_LOAD_PARTI_XOR env code a cp = (\<lambda>st. goes_on (Option.bind (part_of env cp) (\<lambda>r. edit_top (\<lambda>l. bitwise bit4_xor l r) (skip_slots 2 st))))"
| "fused_spec OF_LOAD_PARTI_PAIR env code a cp = (\<lambda>st. Option.bind (code (code_add a 2)) (\<lambda>rhs.
     goes_on (Option.bind (part_of env cp) (\<lambda>l. map_option (\<lambda>r. push_vec4 r (push_vec4 l (skip_slots 3 st))) (part_of env rhs)))))"
| "fused_spec OF_LOAD_PARTI_PAIR_CONCAT env code a cp = (\<lambda>st. Option.bind (code (code_add a 1)) (\<lambda>dead. Option.bind (code (code_add a 2)) (\<lambda>rhs.
     goes_on (Option.bind (code_number dead) (\<lambda>direct. if direct = 0 \<or> one_word (signal_size env cp) cp rhs then
       Option.bind (part_of env cp) (\<lambda>l. Option.bind (part_of env rhs) (\<lambda>r. map_option (\<lambda>x. push_vec4 x (skip_slots 4 st)) (joined l r))) else None)))))"
| "fused_spec OF_LOAD_PARTI_REPLICATE env code a cp = (\<lambda>st. if snd a < 2 then None else Option.bind (code (fst a, snd a - 2)) (\<lambda>load.
     goes_on (Option.bind (code_unsigned cp) (\<lambda>n. Option.bind (code_signal load) (\<lambda>sig.
       map_option (\<lambda>b. push_vec4 (replicate n b) st) (signal_bit env sig (unat (bit_idx0 load))))))))"
| "fused_spec OF_LOAD_PARTI_S env code a cp = (\<lambda>st. goes_on (map_option (\<lambda>l. push_vec4 l (skip_slots 1 st)) (load_part env cp)))"
| "fused_spec OF_LOAD_PARTI_U env code a cp = (\<lambda>st. goes_on (map_option (\<lambda>l. push_vec4 l (skip_slots 1 st)) (load_part env cp)))"
| "fused_spec OF_PUSHI_WIDE env code a cp = (\<lambda>st. goes_on (map_option (\<lambda>v. skip_slots (unat (bit_idx0 cp)) (push_vec4 (v4_list v) st)) (code_cvec cp)))"

definition code_ok :: "codespace \<Rightarrow> bool" where
  "code_ok code \<longleftrightarrow> (\<forall>a cp v. code a = Some cp \<longrightarrow> arg cp = CVEC v \<longrightarrow> v4_inv v)"

lemma code_ok_cvec: "code_ok code \<Longrightarrow> code a = Some cp \<Longrightarrow> code_cvec cp = Some v \<Longrightarrow> v4_inv v"
  unfolding code_ok_def code_cvec_def by (metis operand.exhaust operand.simps(26-30) option.distinct(1) option.inject)

lemma view_skip [simp]: "view (skip_slots k thr) = skip_slots k (view thr)"
  by (simp add: skip_slots_def)

lemma thr_ok_skip [simp]: "thr_ok (skip_slots k thr) = thr_ok thr"
  by (simp add: skip_slots_def thr_ok_def)

lemma skip_sim: "simulates f g \<Longrightarrow> simulates (\<lambda>thr. f (skip_slots k thr)) (\<lambda>st. g (skip_slots k st))"
  by (auto simp: simulates_def simp flip: view_skip)

lemma push_value_sim: "yields r l \<Longrightarrow> simulates (\<lambda>thr. map_option (\<lambda>v. push_vec4 v thr) r) (\<lambda>st. Some (push_vec4 l st))"
  using push_sim by (auto simp: simulates_def)

lemma nonneg_base:
  fixes b :: "32 word"
  assumes "0 \<le> sint b"
  shows "sint b = int (unat b)" and "unat b < 2 ^ 31"
proof -
  have top: "\<not> bit b 31" using assms bit_last_iff [of b] by simp
  have "sint b = uint b"
  proof (rule bit_eqI)
    fix i
    have "\<not> bit b i" if "31 \<le> i" using that top bit_imp_le_length [of b i] by (cases "i = 31") auto
    then show "bit (sint b) i = bit (uint b) i" using top bit_imp_le_length [of b i] by (auto simp: bit_sint_iff bit_uint_iff not_less)
  qed
  then show "sint b = int (unat b)" by simp
  with sint_less [of b] have "int (unat b) < int (2 ^ 31)" by simp
  then show "unat b < 2 ^ 31" unfolding of_nat_less_iff .
qed

lemma load_part_fits:
  assumes "load_part env cp = Some l"
  obtains sig where "code_signal cp = Some sig" and "part_fits (unat (bit_idx1 cp)) (sig_bits env sig)"
    and "l = select (unat (bit_idx1 cp)) (sint (bit_idx0 cp)) (sig_bits env sig)"
  using assms that by (auto simp: load_part_def split: bind_splits if_splits)

lemma fused_part_yields:
  assumes "env_ok env" and "part_of env cp = Some l"
  shows "yields (fused_part env cp) l"
proof -
  have base: "0 \<le> sint (bit_idx0 cp)" and part: "load_part env cp = Some l" using assms(2) by (auto simp: part_of_def split: if_splits)
  obtain sig where sig: "code_signal cp = Some sig" "part_fits (unat (bit_idx1 cp)) (sig_bits env sig)"
    "l = select (unat (bit_idx1 cp)) (sint (bit_idx0 cp)) (sig_bits env sig)" by (rule load_part_fits [OF part])
  have "v4_inv (env_signal env sig)" using assms(1) by (simp add: env_ok_def)
  moreover have "unat (bit_idx0 cp) + unat (bit_idx1 cp) < 2 ^ 32" using nonneg_base(2) [OF base] sig(2) by (simp add: part_fits_def)
  ultimately show ?thesis
    by (rule thr_sub) (simp add: yields_def fused_part_def vec4_subvalue_def sig nonneg_base(1) [OF base])
qed

lemma fused_part_sim:
  assumes "env_ok env" and "\<And>v. v4_inv v \<Longrightarrow> simulates (f v) (g (v4_list v))"
  shows "simulates (\<lambda>thr. Option.bind (fused_part env cp) (\<lambda>v. f v (skip_slots k thr))) (\<lambda>st. Option.bind (part_of env cp) (\<lambda>l. g l (skip_slots k st)))"
proof (cases "part_of env cp")
  case (Some l)
  from fused_part_yields [OF assms(1) Some] obtain v where v: "fused_part env cp = Some v" "v4_inv v" "v4_list v = l" by (auto simp: yields_def)
  with skip_sim [OF assms(2) [OF v(2)], of k] Some show ?thesis by simp
qed (simp add: simulates_def)

lemma load_parti_yields:
  assumes inv: "v4_inv v" and fit: "part_fits wid (v4_list v)" and base: "- (2 ^ 31) \<le> base" "base < 2 ^ 31"
  shows "yields (if base \<ge> 0 then thr_subvalue v (nat base) wid
     else if base + int wid < - (2 ^ 31) then None
     else if base + int wid \<le> 0 then Some (v4_fill wid BIT4_X)
     else let vbase = nat (- base); wid' = wid - vbase; wid' = (if wid' > v4_size v then v4_size v else wid')
       in Option.bind (thr_subvalue v 0 wid') (\<lambda>sub. map_option snd (v4_set_vec (v4_fill wid BIT4_X) vbase sub))) (select wid base (v4_list v))"
proof -
  have w: "v4_size v + wid < 2 ^ 31" using fit by (simp add: part_fits_def)
  consider (pos) "base \<ge> 0" | (below) "base < 0" "base + int wid \<le> 0" | (part) "base < 0" "base + int wid > 0" by linarith
  then show ?thesis
  proof cases
    case pos
    then show ?thesis using w base by - (rule thr_sub [OF inv, of "nat base" wid], simp_all add: yields_def)
  next
    case below
    then show ?thesis using yields_fill [of wid BIT4_X] select_outside [of "v4_list v" base wid] base by simp
  next
    case part
    with w base part_select_yields [OF inv fit base(1)] show ?thesis by (simp add: part_select_plain Let_def diff_zero cong: if_cong)
  qed
qed

lemma one_word_yields:
  assumes inv: "v4_inv v" and one: "one_word (Some (v4_size v)) cp rhs"
  defines "lb \<equiv> unat (bit_idx0 cp)" and "lw \<equiv> unat (bit_idx1 cp)" and "rb \<equiv> unat (bit_idx0 rhs)" and "rw \<equiv> unat (bit_idx1 rhs)"
  defines "f \<equiv> \<lambda>a :: ulong. push_bit rw (drop_bit lb a AND (push_bit lw 1 - 1)) OR (drop_bit rb a AND (push_bit rw 1 - 1))"
  shows "yields (Some (v4_immediate (lw + rw) (f (abits_word v 0)) (f (bbits_word v 0)))) (select rw (int rb) (v4_list v) @ select lw (int lb) (v4_list v))"
proof -
  have n: "0 < lw" "0 < rw" "lw + rw \<le> 64" "v4_size v \<le> 64" "lb + lw \<le> v4_size v" "rb + rw \<le> v4_size v"
    using one by (auto simp: one_word_def Let_def lb_def lw_def rb_def rw_def)
  have m: "push_bit k 1 - 1 = (mask k :: ulong)" for k by (simp add: push_bit_eq_mult mask_eq_exp_minus_1)
  have f: "bit (f a) i = (if i < rw then bit a (rb + i) else bit a (lb + (i - rw)))" if "i < lw + rw" for a i
    unfolding f_def m using that n by (auto simp: bit_or_iff bit_and_iff bit_mask_iff bit_drop_bit_eq bit_push_bit_iff)
  have val: "v4_value v j = bit4_of (bit (abits_word v 0) j) (bit (bbits_word v 0) j)" if "j < v4_size v" for j
    using that n(4) by (simp add: v4_value_words abits_word_def bbits_word_def)
  have "v4_list (v4_immediate (lw + rw) (f (abits_word v 0)) (f (bbits_word v 0))) = select rw (int rb) (v4_list v) @ select lw (int lb) (v4_list v)"
    unfolding v4_immediate_list(3)
    using n by (intro nth_equalityI) (auto simp: select_inside nth_append f val)
  then show ?thesis by (simp add: yields_def v4_immediate_list(1))
qed

lemma pair_concat_sim:
  assumes env: "env_ok env"
  shows "simulates (of_LOAD_PARTI_PAIR_CONCAT env cp dead rhs) (\<lambda>st. Option.bind (code_number dead) (\<lambda>direct. if direct = 0 \<or> one_word (signal_size env cp) cp rhs then
       Option.bind (part_of env cp) (\<lambda>l. Option.bind (part_of env rhs) (\<lambda>r. map_option (\<lambda>x. push_vec4 x (skip_slots 4 st)) (joined l r))) else None))"
proof (rule simulatesI)
  fix thr st assume ok: "thr_ok thr" and "Option.bind (code_number dead) (\<lambda>direct. if direct = 0 \<or> one_word (signal_size env cp) cp rhs then
       Option.bind (part_of env cp) (\<lambda>l. Option.bind (part_of env rhs) (\<lambda>r. map_option (\<lambda>x. push_vec4 x (skip_slots 4 (view thr))) (joined l r))) else None) = Some st"
  then obtain n l r x where n: "code_number dead = Some n" and l: "part_of env cp = Some l" and r: "part_of env rhs = Some r" and x: "joined l r = Some x"
    and c: "n = 0 \<or> one_word (signal_size env cp) cp rhs" and st: "st = push_vec4 x (view (skip_slots 4 thr))" by (auto split: bind_splits if_splits)
  show "thr_gives (of_LOAD_PARTI_PAIR_CONCAT env cp dead rhs thr) st"
  proof (cases "n = 0")
    case True
    obtain v w where v: "fused_part env cp = Some v" "v4_inv v" "v4_list v = l" and w: "fused_part env rhs = Some w" "v4_inv w" "v4_list w = r"
      using fused_part_yields [OF env l] fused_part_yields [OF env r] by (auto simp: yields_def)
    with concat_yields [OF v(2) w(2)] x push_sim [of "skip_slots 4 thr"] ok n True st show ?thesis
      by (simp add: of_LOAD_PARTI_PAIR_CONCAT_def Let_def)
  next
    case False
    then have one: "one_word (signal_size env cp) cp rhs" using c by simp
    then obtain sig where sig: "code_signal cp = Some sig" "code_signal rhs = Some sig" by (auto simp: one_word_def signal_size_def Let_def split: option.splits)
    have inv: "v4_inv (env_signal env sig)" using env by (simp add: env_ok_def)
    from one sig have "one_word (Some (v4_size (env_signal env sig))) cp rhs" by (simp add: signal_size_def)
    note sim = push_sim [OF _ one_word_yields [OF inv this], of "skip_slots 4 thr"]
    have "0 \<le> sint (bit_idx0 cp)" "0 \<le> sint (bit_idx0 rhs)" using l r by (auto simp: part_of_def split: if_splits)
    then have "x = select (unat (bit_idx1 rhs)) (int (unat (bit_idx0 rhs))) (sig_bits env sig) @ select (unat (bit_idx1 cp)) (int (unat (bit_idx0 cp))) (sig_bits env sig)"
      using l r x sig by (auto simp: part_of_def load_part_def joined_def nonneg_base split: if_splits)
    with sim ok n False sig st show ?thesis by (simp add: of_LOAD_PARTI_PAIR_CONCAT_def Let_def)
  qed
qed

lemma bind_refines: "simulates f g \<Longrightarrow> refines h k \<Longrightarrow> refines (\<lambda>thr. Option.bind (f thr) h) (\<lambda>st. Option.bind (g st) k)"
  by (fastforce simp: refines_def simulates_def thr_gives_def bind_eq_Some_conv)

lemma cmpi_branch_sim: "refines (cmpi_branch env jmp) (cmpi_branch env jmp)"
proof (rule refinesI)
  fix thr st acts go assume "thr_ok thr" and "cmpi_branch env jmp (view thr) = Some (st, acts, go)"
  then show "outcome_gives (cmpi_branch env jmp thr) (st, acts, go)"
    by (cases "get_flag (unat (bit_idx0 jmp)) thr"; cases "code_cptr jmp")
      (auto simp: cmpi_branch_def after_jump_def skip_slots_def outcome_gives_def thr_ok_def split: if_splits)
qed

lemma cmpi_jmp_sim:
  "refines (of_CMPI_JMP env cp jmp) (\<lambda>st. Option.bind (code_imm cp) (\<lambda>r.
     Option.bind (compare_with (s_cmp (compare_flags (bit_idx1 jmp))) r st) (cmpi_branch env jmp)))"
proof -
  define do_cmp where "do_cmp = (if bit_idx1 jmp AND 7 = 0 then do_CMPE else if bit_idx1 jmp AND 7 = 1 then do_CMPNE else if bit_idx1 jmp AND 7 = 2 then do_CMPS else do_CMPU)"
  have "do_cmp v w thr = Some (set_flags fs thr)"
    if "v4_inv v" "v4_inv w" "thr_ok thr" "compare_flags (bit_idx1 jmp) (v4_list v) (v4_list w) = Some fs" for v w thr fs
    using that do_CMPE_flags do_CMPNE_flags do_CMPS_flags do_CMPU_flags by (auto simp: do_cmp_def compare_flags_def split: if_splits)
  from bind_refines [OF compare_imm_sim [OF this, where cp = cp] cmpi_branch_sim [of env jmp]]
  show ?thesis by (simp add: refines_def of_CMPI_JMP_def Let_def do_cmp_def [symmetric])
qed

text \<open>A slot that a fused opcode reads is read first.\<close>

lemma bind_slot: "(\<And>x. r = Some x \<Longrightarrow> refines (f x) (g x)) \<Longrightarrow> refines (\<lambda>thr. Option.bind r (\<lambda>x. f x thr)) (\<lambda>st. Option.bind r (\<lambda>x. g x st))"
  by (cases r) (auto simp: refines_def)

lemma pair_sim:
  assumes env: "env_ok env"
  shows "simulates (of_LOAD_PARTI_PAIR env cp rhs)
    (\<lambda>st. Option.bind (part_of env cp) (\<lambda>l. map_option (\<lambda>r. push_vec4 r (push_vec4 l (skip_slots 3 st))) (part_of env rhs)))"
proof (rule simulatesI)
  fix thr st assume ok: "thr_ok thr"
    and "Option.bind (part_of env cp) (\<lambda>l. map_option (\<lambda>r. push_vec4 r (push_vec4 l (skip_slots 3 (view thr)))) (part_of env rhs)) = Some st"
  then obtain l r where l: "part_of env cp = Some l" and r: "part_of env rhs = Some r" and st: "st = push_vec4 r (push_vec4 l (view (skip_slots 3 thr)))"
    by (auto split: bind_splits)
  from fused_part_yields [OF env l] fused_part_yields [OF env r] st ok show "thr_gives (of_LOAD_PARTI_PAIR env cp rhs thr) st"
    by (auto simp: of_LOAD_PARTI_PAIR_def thr_gives_def yields_def push_vec4_def thr_ok_def skip_slots_def)
qed

lemma load_parti_base_sim:
  assumes env: "env_ok env"
  shows "simulates (of_LOAD_PARTI_base env cp) (\<lambda>st. map_option (\<lambda>l. push_vec4 l (skip_slots 1 st)) (load_part env cp))"
proof (cases "load_part env cp")
  case (Some l)
  obtain sig where sig: "code_signal cp = Some sig" "part_fits (unat (bit_idx1 cp)) (sig_bits env sig)"
    "l = select (unat (bit_idx1 cp)) (sint (bit_idx0 cp)) (sig_bits env sig)" by (rule load_part_fits [OF Some])
  have inv: "v4_inv (env_signal env sig)" using env by (simp add: env_ok_def)
  have wid: "sint (bit_idx1 cp) = int (unat (bit_idx1 cp))" using sig(2) sint_small [of "unat (bit_idx1 cp)"] by (simp add: part_fits_def)
  note yields = load_parti_yields [OF inv sig(2) sint_32 [of "bit_idx0 cp"]]
  have eq: "of_LOAD_PARTI_base env cp thr = map_option (\<lambda>v. push_vec4 v (skip_slots 1 thr))
      (if sint (bit_idx0 cp) \<ge> 0 then thr_subvalue (env_signal env sig) (nat (sint (bit_idx0 cp))) (unat (bit_idx1 cp))
       else if sint (bit_idx0 cp) + int (unat (bit_idx1 cp)) < - (2 ^ 31) then None
       else if sint (bit_idx0 cp) + int (unat (bit_idx1 cp)) \<le> 0 then Some (v4_fill (unat (bit_idx1 cp)) BIT4_X)
       else let vbase = nat (- sint (bit_idx0 cp)); wid' = unat (bit_idx1 cp) - vbase; wid' = (if wid' > v4_size (env_signal env sig) then v4_size (env_signal env sig) else wid')
         in Option.bind (thr_subvalue (env_signal env sig) 0 wid') (\<lambda>sub. map_option snd (v4_set_vec (v4_fill (unat (bit_idx1 cp)) BIT4_X) vbase sub)))" for thr
    by (simp add: of_LOAD_PARTI_base_def sig(1) wid vec4_subvalue_def Let_def map_option_bind option.map_comp comp_def case_prod_beta)
  have "sint (bit_idx0 cp) < 2 ^ 31" using sint_less [of "bit_idx0 cp"] by simp
  from skip_sim [OF push_value_sim [OF yields [OF this]], of 1] show ?thesis unfolding eq [abs_def] Some option.map sig(3) by simp
qed (simp add: simulates_def)

lemma signal_bit_value:
  assumes "env_ok env"
  shows "signal_value env sig i = signal_bit env sig i"
proof -
  have "env_strong env sig = Some n \<Longrightarrow> v4_size (env_signal env sig) = n" for n using assms by (simp add: env_ok_def)
  then show ?thesis by (cases "env_strong env sig") (auto simp: signal_value_def signal_bit_def bit_at_v4)
qed

lemma signal_first: "env_ok env \<Longrightarrow> signal_value env sig 0 = Some (v4_value (env_signal env sig) 0)"
  by (auto simp: signal_value_def env_ok_def split: option.splits)

text \<open>
  Beyond the end of a signal with drive strengths the fused replication fails the assertion of \<^verbatim>\<open>vvp_vector8_t::value\<close>, where the part
  select it replaces gives x.
\<close>

lemma fused_replicate_aborts:
  assumes "env_ok env" and "code_signal load = Some sig" and "env_strong env sig = Some n" and "n \<le> unat (bit_idx0 load)" and "n < 2 ^ 31"
  shows "of_LOAD_PARTI_REPLICATE env cp load thr = None"
    and "part_select 1 (int (unat (bit_idx0 load))) (env_signal env sig) = Some (v4_fill 1 BIT4_X)"
proof -
  have "v4_size (env_signal env sig) = n" using assms(1,3) by (simp add: env_ok_def)
  then have "sint (of_nat (v4_size (env_signal env sig)) :: 32 word) \<le> int (unat (bit_idx0 load))"
    using sint_small [OF assms(5)] assms(4) by (simp only: of_nat_le_iff)
  then show "part_select 1 (int (unat (bit_idx0 load))) (env_signal env sig) = Some (v4_fill 1 BIT4_X)"
    unfolding part_select_def Let_def by (rule if_P)
  show "of_LOAD_PARTI_REPLICATE env cp load thr = None"
    using assms(2-4) by (cases "code_unsigned cp") (simp_all add: of_LOAD_PARTI_REPLICATE_def signal_value_def)
qed

theorem fused_sim:
  assumes env: "env_ok env" and code: "code_ok code" "code a = Some cp"
  shows "refines (fused_exec f env code a cp) (fused_spec f env code a cp)"
proof (cases f)
  case OF_CMPI_JMP
  show ?thesis unfolding OF_CMPI_JMP fused_exec.simps [abs_def] fused_spec.simps by (intro bind_slot cmpi_jmp_sim)
next
  case OF_ASSIGNI_VEC4
  have "v4_list (v4_immediate wid (ucast a) 0) = imm_bits wid a 0" for wid and a :: "32 word"
  proof -
    have "\<not> bit a i" if "\<not> i < 64" for i using bit_imp_le_length [of a i] that by auto
    then show ?thesis by (auto simp: v4_immediate_list(3) imm_bits_def bit_ucast_iff)
  qed
  then show ?thesis by (auto simp: OF_ASSIGNI_VEC4 refines_def of_ASSIGNI_VEC4_def outcome_gives_def Let_def)
next
  case OF_LOAD_PARTI_ADD
  have "simulates (of_LOAD_PARTI_ADD env cp) (\<lambda>st. Option.bind (part_of env cp) (\<lambda>r. edit_top (\<lambda>l. arith (+) l r) (skip_slots 2 st)))"
    unfolding of_LOAD_PARTI_ADD_def [abs_def]
    by (rule fused_part_sim [OF env], rule edit_top_sim) (use yields_arith(1) in \<open>auto simp: same_size_def arith_def split: if_splits\<close>)
  from goes_on_refines [OF this] show ?thesis by (simp add: OF_LOAD_PARTI_ADD refines_def)
next
  case OF_LOAD_PARTI_CONCAT
  have "simulates (of_LOAD_PARTI_CONCAT env cp) (\<lambda>st. Option.bind (part_of env cp) (\<lambda>r. edit_top (\<lambda>l. joined l r) (skip_slots 2 st)))"
    unfolding of_LOAD_PARTI_CONCAT_def [abs_def] by (rule fused_part_sim [OF env], rule edit_top_sim) (use concat_yields in auto)
  from goes_on_refines [OF this] show ?thesis by (simp add: OF_LOAD_PARTI_CONCAT refines_def)
next
  case OF_LOAD_PARTI_XOR
  have "simulates (of_LOAD_PARTI_XOR env cp) (\<lambda>st. Option.bind (part_of env cp) (\<lambda>r. edit_top (\<lambda>l. bitwise bit4_xor l r) (skip_slots 2 st)))"
    unfolding of_LOAD_PARTI_XOR_def [abs_def] by (rule fused_part_sim [OF env], rule edit_top_sim) (use yields_same_size(3) in auto)
  from goes_on_refines [OF this] show ?thesis by (simp add: OF_LOAD_PARTI_XOR refines_def)
next
  case OF_LOAD_PARTI_PAIR
  show ?thesis unfolding OF_LOAD_PARTI_PAIR fused_exec.simps [abs_def] fused_spec.simps by (intro bind_slot goes_on_refines pair_sim env)
next
  case OF_LOAD_PARTI_PAIR_CONCAT
  show ?thesis unfolding OF_LOAD_PARTI_PAIR_CONCAT fused_exec.simps [abs_def] fused_spec.simps by (intro bind_slot goes_on_refines pair_concat_sim env)
next
  case OF_LOAD_PARTI_S
  show ?thesis unfolding OF_LOAD_PARTI_S fused_exec.simps [abs_def] fused_spec.simps by (intro goes_on_refines load_parti_base_sim env)
next
  case OF_LOAD_PARTI_U
  show ?thesis unfolding OF_LOAD_PARTI_U fused_exec.simps [abs_def] fused_spec.simps by (intro goes_on_refines load_parti_base_sim env)
next
  case OF_LOAD_PARTI_REPLICATE
  have "simulates (of_LOAD_PARTI_REPLICATE env cp load) (\<lambda>st. Option.bind (code_unsigned cp) (\<lambda>n. Option.bind (code_signal load) (\<lambda>sig.
       map_option (\<lambda>b. push_vec4 (replicate n b) st) (signal_bit env sig (unat (bit_idx0 load))))))" for load
    by (auto simp: simulates_def thr_gives_def of_LOAD_PARTI_REPLICATE_def signal_bit_value [OF env] push_vec4_def thr_ok_def v4_fill_inv v4_fill_list split: bind_splits)
  note sim = goes_on_refines [OF this]
  show ?thesis
  proof (cases "snd a < 2")
    case False
    then show ?thesis unfolding OF_LOAD_PARTI_REPLICATE fused_exec.simps [abs_def] fused_spec.simps if_not_P [OF False] by (intro bind_slot sim)
  qed (simp add: OF_LOAD_PARTI_REPLICATE refines_def)
next
  case OF_LOAD_FLAG
  have "simulates (of_LOAD_FLAG env cp) (\<lambda>st. Option.bind (code_signal cp) (\<lambda>sig. set_flag (unat (bit_idx0 cp)) (bit_at (sig_bits env sig) 0) (skip_slots 1 st)))"
    unfolding of_LOAD_FLAG_def [abs_def] bit_at_v4 signal_first [OF env] bind.simps by (intro bind_sim skip_sim) (simp add: simulates_def set_sim)
  from goes_on_refines [OF this] show ?thesis by (simp add: OF_LOAD_FLAG refines_def)
next
  case OF_FLAG_SETGET_VEC4
  have "simulates (of_FLAG_SETGET_VEC4 cp) (\<lambda>st. Option.bind (code_unsigned cp) (\<lambda>flag.
     Option.bind (pop_vec4 (skip_slots 1 st)) (\<lambda>(l, st). map_option (push_vec4 [bit_at l 0]) (set_flag flag (bit_at l 0) st))))"
  proof (rule simulatesI)
    fix thr st assume "thr_ok thr" and "Option.bind (code_unsigned cp) (\<lambda>flag. Option.bind (pop_vec4 (skip_slots 1 (view thr)))
      (\<lambda>(l, st). map_option (push_vec4 [bit_at l 0]) (set_flag flag (bit_at l 0) st))) = Some st"
    then show "thr_gives (of_FLAG_SETGET_VEC4 cp thr) st"
      by (cases "thr_stack thr") (auto simp: of_FLAG_SETGET_VEC4_def pop_vec4_def peek_vec4_def pop_vec4_cnt_def push_vec4_def skip_slots_def
        thr_gives_def set_flag_def thr_ok_def v4_fill_inv v4_fill_list split: bind_splits if_splits)
  qed
  from goes_on_refines [OF this] show ?thesis by (simp add: OF_FLAG_SETGET_VEC4 refines_def)
next
  case OF_PUSHI_WIDE
  have "v4_inv v" if "code_cvec cp = Some v" for v using that code_ok_cvec [OF code] by simp
  then show ?thesis
    by (auto simp: OF_PUSHI_WIDE refines_def of_PUSHI_WIDE_def outcome_gives_def push_vec4_def thr_ok_def skip_slots_def split: bind_splits)
next
  case OF_CONCATI_WIDE
  have inv: "v4_inv v" if "code_cvec cp = Some v" for v using that code_ok_cvec [OF code] by simp
  have "simulates (\<lambda>thr. map_option (skip_slots k) (edit_top (\<lambda>top. thr_concat top v) thr)) (\<lambda>st. map_option (skip_slots k) (edit_top (\<lambda>l. joined l (v4_list v)) st))"
    if "v4_inv v" for v k
  proof -
    have "simulates (edit_top (\<lambda>top. thr_concat top v)) (edit_top (\<lambda>l. joined l (v4_list v)))" by (rule edit_top_sim) (use that concat_yields in auto)
    then show ?thesis by (fastforce simp: simulates_def thr_gives_def)
  qed
  then have "simulates (of_CONCATI_WIDE cp) (\<lambda>st. Option.bind (code_cvec cp) (\<lambda>v. map_option (skip_slots (unat (bit_idx0 cp))) (edit_top (\<lambda>l. joined l (v4_list v)) st)))"
    unfolding of_CONCATI_WIDE_def [abs_def] by (intro bind_sim) (use inv in blast)
  from goes_on_refines [OF this] show ?thesis by (simp add: OF_CONCATI_WIDE refines_def)
qed

section \<open>The loop\<close>

definition s_execute :: "env \<Rightarrow> codespace \<Rightarrow> vvp_code_t \<Rightarrow> vvp_code_s \<Rightarrow> sthread \<Rightarrow> soutcome" where
  "s_execute env code a cp st = (case opcode cp of
       STACK f \<Rightarrow> goes_on (stack_spec f st)
     | VEC f \<Rightarrow> goes_on (vec_spec f cp st)
     | REG f \<Rightarrow> goes_on (reg_spec f cp st)
     | NETF f \<Rightarrow> net_spec f env cp st
     | FUSED f \<Rightarrow> fused_spec f env code a cp st)"

definition s_step :: "codespace \<Rightarrow> env \<Rightarrow> sthread \<Rightarrow> soutcome" where
  "s_step code env st = Option.bind (code (thr_pc st)) (\<lambda>cp. s_execute env code (thr_pc st) cp (st\<lparr>thr_pc := code_add (thr_pc st) 1\<rparr>))"

lemma execute_sim:
  assumes "env_ok env" and "code_ok code" and "code a = Some cp"
  shows "refines (execute env code a cp) (s_execute env code a cp)"
  unfolding execute_def [abs_def] s_execute_def [abs_def]
  using stack_sim vec_sim reg_sim net_sim [OF assms(1)] fused_sim [OF assms] by (cases "opcode cp") (simp_all add: goes_on_refines)

theorem step_sim:
  assumes "env_ok env" and "code_ok code"
  shows "refines (vthread_step env code) (s_step code env)"
proof (rule refinesI)
  fix thr st acts go assume ok: "thr_ok thr" and "s_step code env (view thr) = Some (st, acts, go)"
  then obtain cp where cp: "code (thr_pc thr) = Some cp"
    and e: "s_execute env code (thr_pc thr) cp (view (thr\<lparr>thr_pc := code_add (thr_pc thr) 1\<rparr>)) = Some (st, acts, go)"
    by (auto simp: s_step_def split: bind_splits)
  have "thr_ok (thr\<lparr>thr_pc := code_add (thr_pc thr) 1\<rparr>)" using ok by (simp add: thr_ok_def)
  with execute_sim [OF assms cp] e cp show "outcome_gives (vthread_step env code thr) (st, acts, go)"
    unfolding refines_def by (simp add: vthread_step_def)
qed

lemma refinesE:
  assumes "refines f g" and "thr_ok thr" and "g (view thr) = Some (st, acts, go)"
  obtains thr' where "f thr = Some (thr', acts, go)" and "thr_ok thr'" and "view thr' = st"
proof -
  from assms have "outcome_gives (f thr) (st, acts, go)" by (simp add: refines_def)
  with that show thesis by (auto simp: outcome_gives_def)
qed

theorem loop_sim:
  assumes "env_ok env" and "code_ok code" and "thr_ok thr" and keeps: "\<And>e env. env_ok env \<Longrightarrow> env_ok (deliver e env)"
    and "run_loop (s_step code) deliver n env (view thr) = Some (go, env', st, acts)"
  shows "\<exists>thr'. vthread_loop deliver code n env thr = Some (go, env', thr', acts) \<and> thr_ok thr' \<and> view thr' = st \<and> env_ok env'"
  using assms(1,3,5)
proof (induction n arbitrary: env thr acts)
  case (Suc n)
  have deliver: "env_ok (fold deliver as env)" for as by (induction as rule: rev_induct) (use Suc.prems(1) keeps in auto)
  from Suc.prems(3) obtain st1 as rc where s: "s_step code env (view thr) = Some (st1, as, rc)"
    and rest: "(if rc then map_option (\<lambda>(run, env, thr, acts'). (run, env, thr, as @ acts')) (run_loop (s_step code) deliver n (fold deliver as env) st1)
      else Some (False, fold deliver as env, st1, as)) = Some (go, env', st, acts)" by (auto split: bind_splits)
  from step_sim [OF Suc.prems(1) assms(2)] Suc.prems(2) s obtain thr1 where thr1: "vthread_step env code thr = Some (thr1, as, rc)" "thr_ok thr1" "view thr1 = st1"
    by (rule refinesE)
  show ?case
  proof (cases rc)
    case True
    with rest obtain acts' where r: "run_loop (s_step code) deliver n (fold deliver as env) (view thr1) = Some (go, env', st, acts')" "acts = as @ acts'"
      by (auto simp: thr1(3))
    from Suc.IH [OF deliver thr1(2) r(1)] thr1 r(2) True show ?thesis by (auto simp: vthread_loop_def)
  next
    case False
    with rest thr1 deliver [of as] show ?thesis by (auto simp: vthread_loop_def)
  qed
qed (auto simp: vthread_loop_def)

end
