(* ===== verification/Thread_Types.thy ===== *)
theory Thread_Types
  imports Thread_Fused
begin

text \<open>
  Types for the code of threads.  The type of a slot is the list of the widths of the vectors on the stack when the slot is
  reached, the top first; an opcode takes one type to another.  A program whose slots have consistent types does not go
  wrong: no handler fails an assertion or leaves the bounds of an array, and the widths on the stack stay those of the types.
\<close>

section \<open>Opcodes\<close>

declare split_paired_All [simp del] split_paired_Ex [simp del]
























section \<open>The specification on typed stacks\<close>














lemma length_select [simp]: "length (select wid base l) = wid"
  by (simp add: select_def)

lemma length_window_bits [simp]: "length (window_bits sg wid b l) = wid"
  by (simp add: window_bits_def)



lemma length_shifts [simp]: "length (shl n l) = length l" "length (shr n b l) = length l" "length (pad_signed wid l) = wid"
  by (auto simp: shl_def shr_def pad_signed_def)








section \<open>Typed programs\<close>







section \<open>Type soundness\<close>






end
