(* ===== verification/Fusion.thy ===== *)
theory Fusion
  imports Thread_Fused
begin

text \<open>
  The fusions of the loader, as a relation between a run of instructions and the code slots the loader leaves for it,
  and the proof that the fused slots do what the instructions do.
\<close>

section \<open>Fusions\<close>

definition noop :: "vvp_code_s \<Rightarrow> vvp_code_s" where
  "noop c = c\<lparr>opcode := NETF OF_NOOP\<rparr>"

text \<open>The base of a fused part select, sign-extended by the loader.\<close>

definition fused_base :: "vvp_code_s \<Rightarrow> 32 word" where
  "fused_base code =
    (let base = bit_idx0 code; bwid = unat (bit_idx1 code) in
     if opcode code = VEC OF_PARTI_S \<and> bwid > 0 \<and> bwid < 32 \<and> base AND push_bit (bwid - 1) 1 \<noteq> 0 then base OR push_bit bwid (- 1) else base)"

text \<open>The operands of a load and a part select in one slot.\<close>

definition part_operands :: "vvp_code_s \<Rightarrow> vvp_code_s \<Rightarrow> vvp_code_s \<Rightarrow> bool" where
  "part_operands load parti f \<longleftrightarrow> opcode load = NETF OF_LOAD_VEC4 \<and> (opcode parti = VEC OF_PARTI_S \<or> opcode parti = VEC OF_PARTI_U)
    \<and> arg f = arg load \<and> bit_idx0 f = fused_base parti \<and> (\<exists>n < 2 ^ 26. code_number parti = Some n \<and> bit_idx1 f = ucast n)"

definition assign_operands :: "vvp_code_s \<Rightarrow> vvp_code_s \<Rightarrow> vvp_code_s \<Rightarrow> bool" where
  "assign_operands pushi assign g \<longleftrightarrow> opcode pushi = VEC OF_PUSHI_VEC4 \<and> bit_idx1 pushi = 0 \<and> opcode assign = NETF OF_ASSIGN_VEC4
    \<and> bit_idx0 assign < 64 \<and> opcode g = FUSED OF_ASSIGNI_VEC4 \<and> arg g = arg assign \<and> bit_idx0 g = bit_idx0 pushi
    \<and> (\<exists>n < 2 ^ 20. code_number pushi = Some n \<and> bit_idx1 g = push_bit 6 (ucast n) OR bit_idx0 assign)"

definition compare_tag :: "vvp_code_fun \<Rightarrow> vvp_code_fun \<Rightarrow> 32 word" where
  "compare_tag cmp jmp =
    (let tag = (if cmp = VEC OF_CMPIE then 0 else if cmp = VEC OF_CMPINE then 1 else if cmp = VEC OF_CMPIS then 2 else 3) in
     if jmp = NETF OF_JMP1XZ then tag OR 8 else tag)"

definition wide_constant :: "vvp_code_s list \<Rightarrow> bits option" where
  "wide_constant cs = foldl (\<lambda>r c. Option.bind r (\<lambda>l. map_option (\<lambda>i. i @ l) (code_imm c))) (Some []) cs"

inductive fuses :: "(nat \<Rightarrow> nat option) \<Rightarrow> vvp_code_s list \<Rightarrow> vvp_code_s list \<Rightarrow> bool" for value_size where
  plain: "(\<And>f. opcode c \<noteq> FUSED f) \<Longrightarrow> opcode c \<noteq> NETF OF_CHUNK_LINK \<Longrightarrow> fuses value_size [c] [c]"
| parti: "part_operands load parti f \<Longrightarrow> opcode f = FUSED OF_LOAD_PARTI_S \<or> opcode f = FUSED OF_LOAD_PARTI_U \<Longrightarrow>
    fuses value_size [load, parti] [f, d]"
| parti_op: "part_operands load parti f \<Longrightarrow> 0 \<le> sint (bit_idx0 f) \<Longrightarrow>
    (opcode c, opcode f) \<in> {(STACK OF_CONCAT_VEC4, FUSED OF_LOAD_PARTI_CONCAT), (STACK OF_ADD, FUSED OF_LOAD_PARTI_ADD), (STACK OF_XOR, FUSED OF_LOAD_PARTI_XOR)} \<Longrightarrow>
    fuses value_size [load, parti, c] [f, d, e]"
| parti_replicate: "part_operands load parti f \<Longrightarrow> 0 \<le> sint (bit_idx0 f) \<Longrightarrow> bit_idx1 f = 1 \<Longrightarrow> opcode c = VEC OF_REPLICATE \<Longrightarrow>
    opcode f = NETF OF_NOOP \<Longrightarrow> opcode d = NETF OF_NOOP \<Longrightarrow> fuses value_size [load, parti, c] [f, d, c\<lparr>opcode := FUSED OF_LOAD_PARTI_REPLICATE\<rparr>]"
| pair: "part_operands l1 p1 f1 \<Longrightarrow> 0 \<le> sint (bit_idx0 f1) \<Longrightarrow> part_operands l2 p2 f2 \<Longrightarrow> 0 \<le> sint (bit_idx0 f2) \<Longrightarrow>
    opcode f1 = FUSED OF_LOAD_PARTI_PAIR \<Longrightarrow> fuses value_size [l1, p1, l2, p2] [f1, d1, f2, d2]"
| pair_concat: "part_operands l1 p1 f1 \<Longrightarrow> 0 \<le> sint (bit_idx0 f1) \<Longrightarrow> part_operands l2 p2 f2 \<Longrightarrow> 0 \<le> sint (bit_idx0 f2) \<Longrightarrow>
    opcode f1 = FUSED OF_LOAD_PARTI_PAIR_CONCAT \<Longrightarrow> opcode c = STACK OF_CONCAT_VEC4 \<Longrightarrow>
    code_number d1 = Some direct \<Longrightarrow> (direct \<noteq> 0 \<longrightarrow> one_word (Option.bind (code_signal f1) value_size) f1 f2) \<Longrightarrow>
    fuses value_size [l1, p1, l2, p2, c] [f1, d1, f2, d2, e]"
| assign: "assign_operands pushi asgn g \<Longrightarrow> opcode f = NETF OF_NOOP \<Longrightarrow> fuses value_size [pushi, asgn] [f, g]"
| load_flag: "opcode load = NETF OF_LOAD_VEC4 \<Longrightarrow> opcode flag = REG OF_FLAG_SET_VEC4 \<Longrightarrow> code_number flag = Some n \<Longrightarrow>
    fuses value_size [load, flag] [load\<lparr>opcode := FUSED OF_LOAD_FLAG, bit_idx0 := ucast n\<rparr>, d]"
| flag_setget: "opcode sflag = REG OF_FLAG_SET_VEC4 \<Longrightarrow> opcode gflag = REG OF_FLAG_GET_VEC4 \<Longrightarrow> code_number sflag = code_number gflag \<Longrightarrow>
    fuses value_size [sflag, gflag] [sflag\<lparr>opcode := FUSED OF_FLAG_SETGET_VEC4\<rparr>, d]"
| cmpi_jmp: "opcode c \<in> {VEC OF_CMPIE, VEC OF_CMPINE, VEC OF_CMPIS, VEC OF_CMPIU} \<Longrightarrow> opcode j \<in> {NETF OF_JMP0XZ, NETF OF_JMP1XZ} \<Longrightarrow>
    fuses value_size [c, j] [c\<lparr>opcode := FUSED OF_CMPI_JMP\<rparr>, (noop j)\<lparr>bit_idx1 := compare_tag (opcode c) (opcode j)\<rparr>]"
| wide: "(opcode c, opcode f) \<in> {(VEC OF_PUSHI_VEC4, FUSED OF_PUSHI_WIDE), (VEC OF_CONCATI_VEC4, FUSED OF_CONCATI_WIDE)} \<Longrightarrow> cs \<noteq> [] \<Longrightarrow>
    (\<forall>c' \<in> set cs. opcode c' = VEC OF_CONCATI_VEC4) \<Longrightarrow> arg f = CVEC v \<Longrightarrow> v4_inv v \<Longrightarrow> wide_constant (c # cs) = Some (v4_list v) \<Longrightarrow>
    unat (bit_idx0 f) = length cs \<Longrightarrow> length ds = length cs \<Longrightarrow> fuses value_size (c # cs) (f # ds)"

section \<open>Runs of slots\<close>

definition lays :: "codespace \<Rightarrow> vvp_code_t \<Rightarrow> vvp_code_s list \<Rightarrow> bool" where
  "lays code a cs \<longleftrightarrow> (\<forall>i < length cs. code (code_add a i) = Some (cs ! i))"

text \<open>A number of turns, of which only the last may have an effect or stop the thread.\<close>

fun seg :: "codespace \<Rightarrow> nat \<Rightarrow> env \<Rightarrow> sthread \<Rightarrow> soutcome" where
  "seg code 0 env st = None"
| "seg code (Suc k) env st = Option.bind (s_step code env st) (\<lambda>(st, acts, go).
     if k = 0 then Some (st, acts, go) else if acts = [] \<and> go then seg code k env st else None)"

lemma code_add_0 [simp]: "code_add a 0 = a" and code_add_add [simp]: "code_add (code_add a i) j = code_add a (i + j)"
  by (simp_all add: code_add_def)

lemma code_add_sums [simp]: "fst (code_add a k) = fst a" "snd (code_add a k) = snd a + k"
  by (simp_all add: code_add_def)

lemma lays_Cons: "lays code a (c # cs) \<longleftrightarrow> code a = Some c \<and> lays code (code_add a 1) cs"
proof -
  have "(\<forall>i < Suc n. P i) \<longleftrightarrow> P 0 \<and> (\<forall>i < n. P (Suc i))" for n and P :: "nat \<Rightarrow> bool" by (auto simp: less_Suc_eq_0_disj)
  then show ?thesis by (simp add: lays_def)
qed

lemma lays_Nil [simp]: "lays code a []"
  by (simp add: lays_def)

lemma code_add_Suc [simp]:
  "code_add a (Suc (Suc 0)) = code_add a 2" "code_add a (Suc (Suc (Suc 0))) = code_add a 3" "code_add a (Suc (Suc (Suc (Suc 0)))) = code_add a 4"
  "code_add a (Suc (Suc (Suc (Suc (Suc 0))))) = code_add a 5" "code_add a (Suc 2) = code_add a 3" "code_add a (Suc 3) = code_add a 4" "code_add a (Suc 4) = code_add a 5"
  by (simp_all add: code_add_def)

lemma seg_numeral:
  "seg code 2 = seg code (Suc (Suc 0))" "seg code 3 = seg code (Suc (Suc (Suc 0)))" "seg code 4 = seg code (Suc (Suc (Suc (Suc 0))))"
  "seg code 5 = seg code (Suc (Suc (Suc (Suc (Suc 0)))))"
  by (simp_all add: eval_nat_numeral)

lemma step_at: "thr_pc st = a \<Longrightarrow> code a = Some cp \<Longrightarrow> s_step code env st = s_execute env code a cp (st\<lparr>thr_pc := code_add a 1\<rparr>)"
  by (simp add: s_step_def)

text \<open>Execution on a known stack.\<close>

lemma stack_simps [simp]:
  "pop_vec4 (push_vec4 v st) = Some (v, st)" "peek_vec4 0 (push_vec4 v st) = Some v"
  "pop_edit g (push_vec4 v st) = edit_top (\<lambda>l. g l v) st" "edit_top f (push_vec4 v st) = map_option (\<lambda>v. push_vec4 v st) (f v)"
  "thr_pc (push_vec4 v st) = thr_pc st" "(push_vec4 v st)\<lparr>thr_pc := a\<rparr> = push_vec4 v (st\<lparr>thr_pc := a\<rparr>)"
  "get_flag i (push_vec4 v st) = get_flag i st" "set_flag i b (push_vec4 v st) = map_option (push_vec4 v) (set_flag i b st)"
  "thr_flags (push_vec4 v st) = thr_flags st"
  by (simp_all add: pop_vec4_def push_vec4_def peek_vec4_def pop_edit_def edit_top_def poke_vec4_def get_flag_def set_flag_def map_conv_bind_option comp_def)

lemma edit_top_case: "edit_top f st = (case thr_stack st of [] \<Rightarrow> None | v # vs \<Rightarrow> map_option (\<lambda>v. st\<lparr>thr_stack := v # vs\<rparr>) (f v))"
  by (cases "thr_stack st") (auto simp: edit_top_def peek_vec4_def poke_vec4_def map_conv_bind_option comp_def)

lemma pc_last: "st\<lparr>thr_pc := a, thr_stack := vs\<rparr> = st\<lparr>thr_stack := vs, thr_pc := a\<rparr>" for st :: "'v vthread_s"
  by (cases st) simp

lemma pc_simps [simp]:
  "edit_top f (st\<lparr>thr_pc := a\<rparr>) = map_option (\<lambda>s. s\<lparr>thr_pc := a\<rparr>) (edit_top f st)"
  "set_flag i b (st\<lparr>thr_pc := a\<rparr>) = map_option (\<lambda>s. s\<lparr>thr_pc := a\<rparr>) (set_flag i b st)"
  "get_flag i (st\<lparr>thr_pc := a\<rparr>) = get_flag i st"
  "pop_vec4 (st\<lparr>thr_pc := a\<rparr>) = map_option (\<lambda>(v, s). (v, s\<lparr>thr_pc := a\<rparr>)) (pop_vec4 st)"
  by (auto simp: edit_top_case set_flag_def get_flag_def pop_vec4_def option.map_comp comp_def pc_last split: list.split)

lemma skip_pc [simp]: "skip_slots k (st\<lparr>thr_pc := a\<rparr>) = st\<lparr>thr_pc := code_add a k\<rparr>" "skip_slots k (push_vec4 v st) = push_vec4 v (skip_slots k st)"
  by (simp_all add: skip_slots_def push_vec4_def)

section \<open>The fused slots do what the instructions do\<close>

lemma seg_Suc:
  assumes "seg code (Suc k) env st = Some r" and "0 < k"
  obtains st1 where "s_step code env st = Some (st1, [], True)" and "seg code k env st1 = Some r"
  using assms by (auto split: bind_splits if_splits)

lemma seg_1 [simp]: "seg code (Suc 0) env st = s_step code env st"
  by (cases "s_step code env st") auto

lemma step_load:
  assumes "opcode load = NETF OF_LOAD_VEC4" and "thr_pc st = a" and "code a = Some load" and "s_step code env st = Some (st1, acts, go)"
  obtains sig where "code_signal load = Some sig" and "st1 = push_vec4 (sig_bits env sig) (st\<lparr>thr_pc := code_add a 1\<rparr>)" and "acts = []" and "go"
  using assms step_at [where code = code and env = env, OF assms(2,3)] by (auto simp: s_execute_def)

lemma parti_base_fused:
  assumes "opcode parti = VEC OF_PARTI_S \<and> parti_base True parti = Some b \<or> opcode parti = VEC OF_PARTI_U \<and> parti_base False parti = Some b"
  shows "b = fused_base parti"
  using assms by (auto simp: parti_base_def fused_base_def Let_def split: if_splits)

lemma part_width: "part_operands load parti f \<Longrightarrow> code_unsigned parti = Some (unat (bit_idx1 f))"
  by (auto simp: part_operands_def code_unsigned_def)

lemma load_parti:
  assumes part: "part_operands load parti f" and pc: "thr_pc st = a" and code: "code a = Some load" "code (code_add a 1) = Some parti"
    and s1: "s_step code env st = Some (st1, acts1, go1)" and s2: "s_step code env st1 = Some (st2, acts2, go2)"
  obtains l where "load_part env f = Some l" and "st2 = push_vec4 l (st\<lparr>thr_pc := code_add a 2\<rparr>)"
    and "acts1 = []" and "go1" and "acts2 = []" and "go2"
proof -
  have op: "opcode load = NETF OF_LOAD_VEC4" and pop: "opcode parti = VEC OF_PARTI_S \<or> opcode parti = VEC OF_PARTI_U"
    and f: "arg f = arg load" "bit_idx0 f = fused_base parti"
    using part by (auto simp: part_operands_def)
  obtain sig where sig: "code_signal load = Some sig" "st1 = push_vec4 (sig_bits env sig) (st\<lparr>thr_pc := code_add a 1\<rparr>)" "acts1 = []" "go1"
    by (rule step_load [OF op pc code(1) s1])
  let ?l = "select (unat (bit_idx1 f)) (sint (bit_idx0 f)) (sig_bits env sig)"
  have "thr_pc st1 = code_add a 1" using sig(2) by simp
  from step_at [where code = code and env = env, OF this code(2)] s2 pop part_width [OF part] have
    "part_fits (unat (bit_idx1 f)) (sig_bits env sig)" "st2 = push_vec4 ?l (st\<lparr>thr_pc := code_add a 2\<rparr>)" "acts2 = []" "go2"
    using parti_base_fused [of parti] f(2) by (auto simp: s_execute_def sig(2) split: bind_splits if_splits)
  moreover have "code_signal f = Some sig" using sig(1) f(1) by (simp add: code_signal_def)
  ultimately show thesis using that [of ?l] sig by (simp add: load_part_def)
qed

text \<open>Two turns: a load and a part select, without effects.\<close>

lemma seg_load_parti:
  assumes "part_operands load parti f" and "thr_pc st = a" and "code a = Some load" and "code (code_add a 1) = Some parti"
    and "seg code (Suc (Suc k)) env st = Some r"
  obtains l where "load_part env f = Some l"
    and "let st2 = push_vec4 l (st\<lparr>thr_pc := code_add a 2\<rparr>) in if k = 0 then r = (st2, [], True) else seg code k env st2 = Some r"
proof -
  obtain st1 where s1: "s_step code env st = Some (st1, [], True)" and rest: "seg code (Suc k) env st1 = Some r" by (rule seg_Suc [OF assms(5)]) simp_all
  then obtain st2 acts go where s2: "s_step code env st1 = Some (st2, acts, go)" by (cases "s_step code env st1") auto
  obtain l where "load_part env f = Some l" "st2 = push_vec4 l (st\<lparr>thr_pc := code_add a 2\<rparr>)"
    "acts = []" "go" by (rule load_parti [OF assms(1-4) s1 s2])
  with rest s2 that show thesis by (auto simp: Let_def split: if_splits)
qed

lemma run_parti:
  assumes part: "part_operands load parti f" and op: "opcode f = FUSED OF_LOAD_PARTI_S \<or> opcode f = FUSED OF_LOAD_PARTI_U"
    and pc: "thr_pc st = a" and U: "lays U a [load, parti]" and F: "lays F a [f, d]" and r: "seg U 2 env st = Some r"
  shows "seg F 1 env st = Some r"
proof -
  obtain l where "load_part env f = Some l" "r = (push_vec4 l (st\<lparr>thr_pc := code_add a 2\<rparr>), [], True)"
    by (rule seg_load_parti [OF part pc, where code = U and k = 0 and env = env and r = r]) (use U r in \<open>auto simp: lays_Cons seg_numeral Let_def\<close>)
  with op F show ?thesis by (auto simp: lays_Cons step_at [OF pc] s_execute_def)
qed

lemma run_parti_op:
  assumes part: "part_operands load parti f" "0 \<le> sint (bit_idx0 f)"
    and op: "(opcode c, opcode f) \<in> {(STACK OF_CONCAT_VEC4, FUSED OF_LOAD_PARTI_CONCAT), (STACK OF_ADD, FUSED OF_LOAD_PARTI_ADD), (STACK OF_XOR, FUSED OF_LOAD_PARTI_XOR)}"
    and pc: "thr_pc st = a" and U: "lays U a [load, parti, c]" and F: "lays F a [f, d, e]" and r: "seg U 3 env st = Some r"
  shows "seg F 1 env st = Some r"
proof -
  obtain l where l: "load_part env f = Some l" and s: "s_step U env (push_vec4 l (st\<lparr>thr_pc := code_add a 2\<rparr>)) = Some r"
    by (rule seg_load_parti [OF part(1) pc, where code = U and k = 1 and env = env and r = r]) (use U r in \<open>auto simp: lays_Cons seg_numeral Let_def\<close>)
  have c: "U (code_add a 2) = Some c" using U by (simp add: lays_Cons)
  have "part_of env f = Some l" using l part(2) by (simp add: part_of_def)
  with s op F show ?thesis by (auto simp: lays_Cons s_step_def pc c s_execute_def option.map_comp comp_def)
qed

text \<open>The fused replication reads its bit from the signal, which must have it when the signal has strengths.\<close>

lemma run_parti_replicate:
  assumes part: "part_operands load parti f" "0 \<le> sint (bit_idx0 f)" "bit_idx1 f = 1"
    and op: "opcode c = VEC OF_REPLICATE" "opcode f = NETF OF_NOOP" "opcode d = NETF OF_NOOP"
    and has: "\<And>sig. code_signal f = Some sig \<Longrightarrow> signal_bit env sig (unat (bit_idx0 f)) \<noteq> None"
    and pc: "thr_pc st = a" and U: "lays U a [load, parti, c]" and F: "lays F a [f, d, c\<lparr>opcode := FUSED OF_LOAD_PARTI_REPLICATE\<rparr>]"
    and r: "seg U 3 env st = Some r"
  shows "seg F 3 env st = Some r"
proof -
  obtain l where l: "load_part env f = Some l" and s: "s_step U env (push_vec4 l (st\<lparr>thr_pc := code_add a 2\<rparr>)) = Some r"
    by (rule seg_load_parti [OF part(1) pc, where code = U and k = 1 and env = env and r = r]) (use U r in \<open>auto simp: lays_Cons seg_numeral Let_def\<close>)
  obtain sig where sig: "code_signal f = Some sig" "l = select (unat (bit_idx1 f)) (sint (bit_idx0 f)) (sig_bits env sig)" by (rule load_part_fits [OF l])
  let ?b = "bit_at (sig_bits env sig) (unat (bit_idx0 f))"
  have bit: "signal_bit env sig (unat (bit_idx0 f)) = Some ?b" using has [OF sig(1)] by (simp add: signal_bit_def split: if_splits)
  have "select (Suc 0) (int i) (sig_bits env sig) = [bit_at (sig_bits env sig) i]" for i by (simp add: select_def bit_at_def)
  then have l': "l = [?b]" by (simp only: sig(2) nonneg_base(1) [OF part(2)] part(3) unat_1 One_nat_def)
  have reps: "concat (replicate n [x]) = replicate n x" for n and x :: vvp_bit4_t by (induction n) simp_all
  have c: "U (code_add a 2) = Some c" using U by (simp add: lays_Cons)
  obtain n where n: "code_unsigned c = Some n" "r = (push_vec4 (replicate n ?b) (st\<lparr>thr_pc := code_add a 3\<rparr>), [], True)"
    using s by (auto simp: s_step_def s_execute_def c op l' copies_def reps simp del: bit_at_v4 split: bind_splits if_splits)
  have slots: "F a = Some f" "F (code_add a (Suc 0)) = Some d" "F (code_add a 2) = Some (c\<lparr>opcode := FUSED OF_LOAD_PARTI_REPLICATE\<rparr>)"
    using F by (simp_all add: lays_Cons)
  have "code_unsigned (c\<lparr>opcode := g\<rparr>) = code_unsigned c" for g by (simp add: code_unsigned_def code_number_def)
  moreover have "(fst (code_add a 2), snd (code_add a 2) - 2) = a" by (simp add: code_add_def)
  ultimately show ?thesis using n bit
    by (simp add: seg_numeral s_step_def s_execute_def pc slots op sig(1) del: bit_at_v4)
qed

lemma run_pair:
  assumes part: "part_operands l1 p1 f1" "0 \<le> sint (bit_idx0 f1)" "part_operands l2 p2 f2" "0 \<le> sint (bit_idx0 f2)"
    and pc: "thr_pc st = a" and U: "lays U a (l1 # p1 # l2 # p2 # cs)" and r: "seg U (Suc (Suc (Suc (Suc k)))) env st = Some r"
  obtains l r' where "part_of env f1 = Some l" and "part_of env f2 = Some r'"
    and "let st2 = push_vec4 r' (push_vec4 l (st\<lparr>thr_pc := code_add a 4\<rparr>)) in if k = 0 then r = (st2, [], True) else seg U k env st2 = Some r"
proof -
  obtain l where l: "load_part env f1 = Some l" and rest: "seg U (Suc (Suc k)) env (push_vec4 l (st\<lparr>thr_pc := code_add a 2\<rparr>)) = Some r"
    by (rule seg_load_parti [OF part(1) pc, where code = U and k = "Suc (Suc k)" and env = env and r = r]) (use U r in \<open>auto simp: lays_Cons Let_def\<close>)
  obtain r' where r': "load_part env f2 = Some r'"
    and fin: "let st2 = push_vec4 r' (push_vec4 l (st\<lparr>thr_pc := code_add a 4\<rparr>)) in if k = 0 then r = (st2, [], True) else seg U k env st2 = Some r"
    using seg_load_parti [OF part(3) _ _ _ rest, where a = "code_add a 2"] U by (auto simp: lays_Cons Let_def)
  show thesis by (rule that [OF _ _ fin]) (use l r' part(2,4) in \<open>simp_all add: part_of_def\<close>)
qed

lemma run_plain:
  assumes "\<And>f. opcode c \<noteq> FUSED f" and "thr_pc st = a" and "U a = Some c" and "F a = Some c"
  shows "s_step F env st = s_step U env st"
  using assms by (cases "opcode c") (auto simp: s_step_def s_execute_def)

lemma run_pair_fused:
  assumes part: "part_operands l1 p1 f1" "0 \<le> sint (bit_idx0 f1)" "part_operands l2 p2 f2" "0 \<le> sint (bit_idx0 f2)"
    and op: "opcode f1 = FUSED OF_LOAD_PARTI_PAIR"
    and pc: "thr_pc st = a" and U: "lays U a [l1, p1, l2, p2]" and F: "lays F a [f1, d1, f2, d2]" and r: "seg U 4 env st = Some r"
  shows "seg F 1 env st = Some r"
proof -
  obtain l r' where "part_of env f1 = Some l" "part_of env f2 = Some r'" "r = (push_vec4 r' (push_vec4 l (st\<lparr>thr_pc := code_add a 4\<rparr>)), [], True)"
    by (rule run_pair [OF part pc U, where k = 0 and env = env and r = r]) (use r in \<open>auto simp: seg_numeral Let_def\<close>)
  with op F show ?thesis by (auto simp: lays_Cons s_step_def pc s_execute_def)
qed

lemma run_pair_concat:
  assumes part: "part_operands l1 p1 f1" "0 \<le> sint (bit_idx0 f1)" "part_operands l2 p2 f2" "0 \<le> sint (bit_idx0 f2)"
    and op: "opcode f1 = FUSED OF_LOAD_PARTI_PAIR_CONCAT" "opcode c = STACK OF_CONCAT_VEC4"
    and direct: "code_number d1 = Some direct" "direct \<noteq> 0 \<longrightarrow> one_word (signal_size env f1) f1 f2"
    and pc: "thr_pc st = a" and U: "lays U a [l1, p1, l2, p2, c]" and F: "lays F a [f1, d1, f2, d2, e]" and r: "seg U 5 env st = Some r"
  shows "seg F 1 env st = Some r"
proof -
  obtain l r' where p: "part_of env f1 = Some l" "part_of env f2 = Some r'" and s: "s_step U env (push_vec4 r' (push_vec4 l (st\<lparr>thr_pc := code_add a 4\<rparr>))) = Some r"
    by (rule run_pair [OF part pc U, where k = 1 and env = env and r = r]) (use r in \<open>auto simp: seg_numeral Let_def\<close>)
  obtain x where "joined l r' = Some x" "r = (push_vec4 x (st\<lparr>thr_pc := code_add a 5\<rparr>), [], True)"
    using s U op by (auto simp: lays_Cons s_step_def s_execute_def)
  with p op F direct show ?thesis by (auto simp: lays_Cons s_step_def pc s_execute_def)
qed

lemma run_load_flag:
  assumes op: "opcode load = NETF OF_LOAD_VEC4" "opcode flag = REG OF_FLAG_SET_VEC4" "code_number flag = Some n"
    and pc: "thr_pc st = a" and U: "lays U a [load, flag]" and F: "lays F a [load\<lparr>opcode := FUSED OF_LOAD_FLAG, bit_idx0 := ucast n\<rparr>, d]"
    and r: "seg U 2 env st = Some r"
  shows "seg F 1 env st = Some r"
proof -
  have "code_signal (load\<lparr>opcode := FUSED OF_LOAD_FLAG, bit_idx0 := ucast n\<rparr>) = code_signal load" by (simp add: code_signal_def)
  with op U F r show ?thesis
    by (auto simp: seg_numeral lays_Cons s_step_def pc s_execute_def code_unsigned_def option.map_comp comp_def split: bind_splits)
qed

lemma run_flag_setget:
  assumes op: "opcode sflag = REG OF_FLAG_SET_VEC4" "opcode gflag = REG OF_FLAG_GET_VEC4" "code_number sflag = code_number gflag"
    and flags: "length (thr_flags st) = FLAGS_COUNT"
    and pc: "thr_pc st = a" and U: "lays U a [sflag, gflag]" and F: "lays F a [sflag\<lparr>opcode := FUSED OF_FLAG_SETGET_VEC4\<rparr>, d]"
    and r: "seg U 2 env st = Some r"
  shows "seg F 1 env st = Some r"
proof -
  have n: "code_unsigned gflag = code_unsigned sflag" "code_unsigned (sflag\<lparr>opcode := g\<rparr>) = code_unsigned sflag" for g
    using op(3) by (simp_all add: code_unsigned_def) (simp add: code_number_def)
  have get: "get_flag i st2 = Some b" if "set_flag i b st1 = Some st2" "length (thr_flags st1) = FLAGS_COUNT" for i b and st1 st2 :: sthread
    using that by (auto simp: set_flag_def get_flag_def split: if_splits)
  have pop: "length (thr_flags st1) = FLAGS_COUNT" if "pop_vec4 st = Some (l, st1)" for l st1
    using that flags by (auto simp: pop_vec4_def split: list.splits)
  obtain st1 where s1: "s_step U env st = Some (st1, [], True)" and rest: "s_step U env st1 = Some r"
    by (rule seg_Suc [where code = U and env = env and st = st and k = 1 and r = r]) (use r in \<open>simp_all add: seg_numeral\<close>)
  from s1 op U obtain i l s0 s2 where i: "code_unsigned sflag = Some i" "pop_vec4 st = Some (l, s0)" "set_flag i (bit_at l 0) s0 = Some s2"
    and st1: "st1 = s2\<lparr>thr_pc := code_add a 1\<rparr>" by (auto simp: lays_Cons s_step_def pc s_execute_def split: bind_splits)
  from rest op U get [OF i(3) pop [OF i(2)]] have "r = (push_vec4 [bit_at l 0] (s2\<lparr>thr_pc := code_add a 2\<rparr>), [], True)"
    by (auto simp: lays_Cons s_step_def st1 s_execute_def n i split: bind_splits)
  with op F i show ?thesis by (auto simp: lays_Cons s_step_def pc s_execute_def n)
qed

lemma run_cmpi_jmp:
  assumes op: "opcode c \<in> {VEC OF_CMPIE, VEC OF_CMPINE, VEC OF_CMPIS, VEC OF_CMPIU}" "opcode j \<in> {NETF OF_JMP0XZ, NETF OF_JMP1XZ}"
    and pc: "thr_pc st = a" and U: "lays U a [c, j]"
    and F: "lays F a [c\<lparr>opcode := FUSED OF_CMPI_JMP\<rparr>, (noop j)\<lparr>bit_idx1 := compare_tag (opcode c) (opcode j)\<rparr>]"
    and r: "seg U 2 env st = Some r"
  shows "seg F 1 env st = Some r"
proof -
  define flags_of where "flags_of = compare_flags (compare_tag (opcode c) (opcode j))"
  have tag: "compare_tag (opcode c) (opcode j) AND 8 \<noteq> 0 \<longleftrightarrow> opcode j = NETF OF_JMP1XZ"
    using op by (auto simp: compare_tag_def Let_def)
  have imm: "code_imm (c\<lparr>opcode := g\<rparr>) = code_imm c" for g by (simp add: code_imm_def code_unsigned_def code_number_def)
  obtain st1 where s1: "s_step U env st = Some (st1, [], True)" and rest: "s_step U env st1 = Some r"
    by (rule seg_Suc [where code = U and env = env and st = st and k = 1 and r = r]) (use r in \<open>simp_all add: seg_numeral\<close>)
  have flags: "opcode c = VEC OF_CMPIE \<and> flags_of = cmpe_flags \<or> opcode c = VEC OF_CMPINE \<and> flags_of = cmpne_flags
      \<or> opcode c = VEC OF_CMPIS \<and> flags_of = cmps_flags \<or> opcode c = VEC OF_CMPIU \<and> flags_of = cmpu_flags"
    using op by (auto simp: flags_of_def compare_flags_def compare_tag_def Let_def)
  have cmp: "Option.bind (code_imm c) (\<lambda>r. compare_with (s_cmp flags_of) r (st\<lparr>thr_pc := code_add a 1\<rparr>)) = Some st1"
    using s1 flags U by (auto simp: lays_Cons s_step_def pc s_execute_def)
  have pc1: "thr_pc st1 = code_add a 1"
    using cmp by (auto simp: compare_with_def s_cmp_def pop_vec4_cnt_def split: bind_splits if_splits)
  have "cmpi_branch env ((noop j)\<lparr>bit_idx1 := compare_tag (opcode c) (opcode j)\<rparr>) st1 = Some r"
    using rest op U tag pc1
    by (auto simp: lays_Cons s_step_def s_execute_def cmpi_branch_def of_JMP0XZ_def of_JMP1XZ_def jump_if_def of_JMP_def noop_def skip_slots_def code_cptr_def
        cong: if_cong split: bind_splits if_splits)
  with cmp F show ?thesis by (auto simp: lays_Cons s_step_def pc s_execute_def imm flags_of_def [symmetric] bind_eq_Some_conv)
qed

lemma small_word_bits:
  fixes x :: "'a :: len word"
  assumes "unat x < 2 ^ k" and "bit x i"
  shows "i < k"
proof -
  have "take_bit k x = x" using assms(1) by (simp add: word_unat_eq_iff unsigned_take_bit_eq take_bit_nat_eq_self)
  then have "bit (take_bit k x) i" using assms(2) by simp
  then show ?thesis by (simp add: bit_take_bit_iff)
qed

lemma assign_packing:
  fixes n :: ulong and delay :: "32 word"
  assumes "n < 2 ^ 20" and "delay < 64"
  shows "drop_bit 6 (push_bit 6 (ucast n) OR delay) = (ucast n :: 32 word)" and "(push_bit 6 (ucast n) OR delay) AND 63 = delay"
proof -
  have n: "bit n i \<Longrightarrow> i < 20" for i using small_word_bits [of n 20] assms(1) by (simp add: word_less_nat_alt)
  have d: "bit delay i \<Longrightarrow> i < 6" for i using small_word_bits [of delay 6] assms(2) by (simp add: word_less_nat_alt)
  have m: "(63 :: 32 word) = mask 6" by (simp add: mask_eq_exp_minus_1)
  show "drop_bit 6 (push_bit 6 (ucast n) OR delay) = (ucast n :: 32 word)"
    by (rule bit_word_eqI) (auto simp: bit_drop_bit_eq bit_or_iff bit_push_bit_iff bit_ucast_iff dest: n d)
  show "(push_bit 6 (ucast n) OR delay) AND 63 = delay"
    unfolding m by (rule bit_word_eqI) (auto simp: bit_and_iff bit_mask_iff bit_or_iff bit_push_bit_iff dest: d)
qed

text \<open>A link to another chunk may come between the two.\<close>

lemma run_assign:
  assumes op: "assign_operands pushi asgn g" "opcode f = NETF OF_NOOP" and pc: "thr_pc st = a"
    and U: "U a = Some pushi" "U b = Some asgn" and F: "F a = Some f" "F b = Some g"
    and s1: "s_step U env st = Some (st1, acts, go)"
  shows "acts = []" and "go" and "thr_pc st1 = code_add a 1" and "s_step F env st = Some (st\<lparr>thr_pc := code_add a 1\<rparr>, [], True)"
    and "s_step U env (st1\<lparr>thr_pc := b\<rparr>) = s_step F env (st\<lparr>thr_pc := b\<rparr>)"
proof -
  obtain n where n: "n < 2 ^ 20" "code_number pushi = Some n" "bit_idx1 g = push_bit 6 (ucast n) OR bit_idx0 asgn"
    and o: "opcode pushi = VEC OF_PUSHI_VEC4" "bit_idx1 pushi = 0" "opcode asgn = NETF OF_ASSIGN_VEC4" "bit_idx0 asgn < 64"
      "opcode g = FUSED OF_ASSIGNI_VEC4" "arg g = arg asgn" "bit_idx0 g = bit_idx0 pushi"
    using op(1) by (auto simp: assign_operands_def)
  have imm: "code_imm pushi = Some (imm_bits (unat (ucast n :: 32 word)) (bit_idx0 pushi) 0)" using n o by (simp add: code_imm_def code_unsigned_def)
  have net: "code_net g = code_net asgn" using o(6) by (simp add: code_net_def)
  have st1: "st1 = push_vec4 (imm_bits (unat (ucast n :: 32 word)) (bit_idx0 pushi) 0) (st\<lparr>thr_pc := code_add a 1\<rparr>)" "acts = []" "go"
    using s1 U(1) o imm by (auto simp: s_step_def pc s_execute_def)
  then show "acts = []" "go" "thr_pc st1 = code_add a 1" by simp_all
  show "s_step F env st = Some (st\<lparr>thr_pc := code_add a 1\<rparr>, [], True)" using F op(2) by (simp add: s_step_def pc s_execute_def)
  show "s_step U env (st1\<lparr>thr_pc := b\<rparr>) = s_step F env (st\<lparr>thr_pc := b\<rparr>)"
    using assign_packing [OF n(1) o(4)] U(2) F(2) o n(3)
    by (cases "code_net asgn") (simp_all add: s_step_def s_execute_def st1(1) net)
qed

text \<open>A run of \<^verbatim>\<open>%concati/vec4\<close>.\<close>

abbreviation append_imm :: "bits option \<Rightarrow> vvp_code_s \<Rightarrow> bits option" where
  "append_imm r c \<equiv> Option.bind r (\<lambda>l. map_option (\<lambda>i. i @ l) (code_imm c))"

lemma append_imm_None: "foldl append_imm None cs = None"
  by (induction cs) simp_all

lemma append_imm_base: "foldl append_imm (Some (l @ t)) cs = map_option (\<lambda>w. w @ t) (foldl append_imm (Some l) cs)"
proof (induction cs arbitrary: l)
  case (Cons c cs)
  show ?case
  proof (cases "code_imm c")
    case (Some i)
    with Cons.IH [of "i @ l"] show ?thesis by simp
  qed (simp add: append_imm_None)
qed simp

lemma run_concati:
  assumes "lays U a cs" and "\<forall>c \<in> set cs. opcode c = VEC OF_CONCATI_VEC4" and "cs \<noteq> []" and "thr_pc st = a" and "seg U (length cs) env (push_vec4 l st) = Some r"
  obtains w where "foldl append_imm (Some l) cs = Some w" and "length w < 2 ^ 32" and "r = (push_vec4 w (st\<lparr>thr_pc := code_add a (length cs)\<rparr>), [], True)"
  using assms
proof (induction cs arbitrary: a st l thesis)
  case (Cons c cs)
  have c: "U a = Some c" "lays U (code_add a 1) cs" "opcode c = VEC OF_CONCATI_VEC4" using Cons.prems by (simp_all add: lays_Cons)
  obtain res where "s_step U env (push_vec4 l st) = Some res" using Cons.prems(6) by (cases "s_step U env (push_vec4 l st)") auto
  then obtain i where i: "code_imm c = Some i" and len: "length l + length i < 2 ^ 32"
    using c Cons.prems(5) by (auto simp: s_step_def s_execute_def joined_def simp del: power_numeral split: bind_splits if_splits)
  have join: "joined l i = Some (i @ l)" unfolding joined_def by (rule if_P [OF len])
  then have step: "s_step U env (push_vec4 l st) = Some (push_vec4 (i @ l) (st\<lparr>thr_pc := code_add a 1\<rparr>), [], True)"
    using c i Cons.prems(5) by (simp add: s_step_def s_execute_def)
  show ?case
  proof (cases "cs = []")
    case True
    with Cons.prems step i len show ?thesis by simp
  next
    case False
    then have rest: "seg U (length cs) env (push_vec4 (i @ l) (st\<lparr>thr_pc := code_add a 1\<rparr>)) = Some r" using Cons.prems(6) step by simp
    obtain w where "foldl append_imm (Some (i @ l)) cs = Some w" "length w < 2 ^ 32" "r = (push_vec4 w (st\<lparr>thr_pc := code_add (code_add a 1) (length cs)\<rparr>), [], True)"
      by (rule Cons.IH [OF _ c(2) _ False _ rest]) (use Cons.prems(3) in simp_all)
    with Cons.prems(1) i show ?thesis by simp
  qed
qed simp

lemma run_wide:
  assumes op: "(opcode c, opcode f) \<in> {(VEC OF_PUSHI_VEC4, FUSED OF_PUSHI_WIDE), (VEC OF_CONCATI_VEC4, FUSED OF_CONCATI_WIDE)}" and cs: "cs \<noteq> []"
    "\<forall>c' \<in> set cs. opcode c' = VEC OF_CONCATI_VEC4" and v: "arg f = CVEC v" "wide_constant (c # cs) = Some (v4_list v)" "unat (bit_idx0 f) = length cs"
    and pc: "thr_pc st = a" and U: "lays U a (c # cs)" and F: "F a = Some f" and r: "seg U (Suc (length cs)) env st = Some r"
  shows "seg F 1 env st = Some r"
proof -
  have cvec: "code_cvec f = Some v" using v(1) by (simp add: code_cvec_def)
  obtain i where i: "code_imm c = Some i" using v(2) by (cases "code_imm c") (simp_all add: wide_constant_def append_imm_None)
  have const: "foldl append_imm (Some i) cs = Some (v4_list v)" using v(2) i by (simp add: wide_constant_def)
  obtain st1 where s1: "s_step U env st = Some (st1, [], True)" and rest: "seg U (length cs) env st1 = Some r"
    by (rule seg_Suc [OF r]) (use cs in simp_all)
  have U': "U a = Some c" "lays U (code_add a 1) cs" using U by (simp_all add: lays_Cons)
  from op show ?thesis
  proof (elim insertE)
    assume o: "(opcode c, opcode f) = (VEC OF_PUSHI_VEC4, FUSED OF_PUSHI_WIDE)"
    then have "st1 = push_vec4 i (st\<lparr>thr_pc := code_add a 1\<rparr>)" using s1 U' i by (auto simp: s_step_def pc s_execute_def)
    with rest run_concati [OF U'(2) cs(2,1), of "st\<lparr>thr_pc := code_add a 1\<rparr>" env i r] const
    have "r = (push_vec4 (v4_list v) (st\<lparr>thr_pc := code_add a (Suc (length cs))\<rparr>), [], True)" by auto
    with o F cvec v(3) show ?thesis by (simp add: s_step_def pc s_execute_def)
  next
    assume o: "(opcode c, opcode f) = (VEC OF_CONCATI_VEC4, FUSED OF_CONCATI_WIDE)"
    then obtain t vs where "thr_stack st = t # vs"
      using s1 U' i pc by (cases "thr_stack st") (auto simp: s_step_def s_execute_def edit_top_case)
    then obtain st0 where st: "st = push_vec4 t st0" using that [of "st\<lparr>thr_stack := vs\<rparr>"] by (simp add: push_vec4_def)
    then have t: "st = push_vec4 t st0" "st1 = push_vec4 (i @ t) (st0\<lparr>thr_pc := code_add a 1\<rparr>)" "thr_pc st0 = a"
      using s1 U' i pc o by (auto simp: s_step_def s_execute_def joined_def split: if_splits)
    have "foldl append_imm (Some (i @ t)) cs = Some (v4_list v @ t)" using append_imm_base [of i t cs] const by simp
    with rest run_concati [OF U'(2) cs(2,1), of "st0\<lparr>thr_pc := code_add a 1\<rparr>" env "i @ t" r]
    have "length (v4_list v @ t) < 2 ^ 32" "r = (push_vec4 (v4_list v @ t) (st0\<lparr>thr_pc := code_add a (Suc (length cs))\<rparr>), [], True)"
      by (auto simp: t simp del: power_numeral)
    moreover from this(1) have "joined t (v4_list v) = Some (v4_list v @ t)" by (simp add: joined_def)
    ultimately show ?thesis using o F cvec v(3) by (simp add: s_step_def t s_execute_def)
  qed simp
qed

end
