(* ===== verification/Fusion_Run.thy ===== *)
theory Fusion_Run
  imports Fusion
begin

text \<open>
  Whole runs: code whose slots are tiled by fused groups, entered only at their first slots, runs as the instructions do.
\<close>

section \<open>Instructions inside a group\<close>

text \<open>All instructions of a group but the last only step the program counter.\<close>

definition quiet :: "vvp_code_s \<Rightarrow> bool" where
  "quiet c \<longleftrightarrow> opcode c \<in> {NETF OF_LOAD_VEC4, VEC OF_PARTI_S, VEC OF_PARTI_U, VEC OF_PUSHI_VEC4, VEC OF_CONCATI_VEC4, REG OF_FLAG_SET_VEC4,
     VEC OF_CMPIE, VEC OF_CMPINE, VEC OF_CMPIS, VEC OF_CMPIU} \<or> opcode c = NETF OF_CHUNK_LINK \<and> (\<exists>b. arg c = CPTR b)"

definition succ_of :: "vvp_code_s \<Rightarrow> vvp_code_t \<Rightarrow> vvp_code_t" where
  "succ_of c a = (if opcode c = NETF OF_CHUNK_LINK then case arg c of CPTR b \<Rightarrow> b | _ \<Rightarrow> a else code_add a 1)"

fun code_path :: "codespace \<Rightarrow> vvp_code_t \<Rightarrow> vvp_code_s list \<Rightarrow> vvp_code_t \<Rightarrow> bool" where
  "code_path code a [] b \<longleftrightarrow> a = b"
| "code_path code a (c # cs) b \<longleftrightarrow> code a = Some c \<and> code_path code (succ_of c a) cs b"

lemma lays_path:
  assumes "lays code a cs" and "\<forall>c \<in> set cs. opcode c \<noteq> NETF OF_CHUNK_LINK"
  shows "code_path code a cs (code_add a (length cs))"
  using assms
proof (induction cs arbitrary: a)
  case (Cons c cs)
  have "code_path code (code_add a 1) cs (code_add (code_add a 1) (length cs))" by (rule Cons.IH) (use Cons.prems in \<open>simp_all add: lays_Cons\<close>)
  with Cons.prems show ?case by (simp add: lays_Cons succ_of_def)
qed simp

lemma edit_pc: "edit_top f st = Some st1 \<Longrightarrow> thr_pc st1 = thr_pc st" "pop_edit g st = Some st1 \<Longrightarrow> thr_pc st1 = thr_pc st"
  "compare_with h r st = Some st1 \<Longrightarrow> (\<And>l r s s'. h l r s = Some s' \<Longrightarrow> thr_pc s' = thr_pc s) \<Longrightarrow> thr_pc st1 = thr_pc st"
  "compare_pop h st = Some st1 \<Longrightarrow> (\<And>l r s s'. h l r s = Some s' \<Longrightarrow> thr_pc s' = thr_pc s) \<Longrightarrow> thr_pc st1 = thr_pc st"
  "pop_vec4 st = Some (v, st1) \<Longrightarrow> thr_pc st1 = thr_pc st" "set_flag i b st = Some st1 \<Longrightarrow> thr_pc st1 = thr_pc st" "set_word i w st = Some st1 \<Longrightarrow> thr_pc st1 = thr_pc st"
  "pop_vec4_cnt k st = Some st1 \<Longrightarrow> thr_pc st1 = thr_pc st" "poke_vec4 k v st = Some st1 \<Longrightarrow> thr_pc st1 = thr_pc st"
  by (auto simp: edit_top_case pop_edit_def pop_vec4_def compare_with_def compare_pop_def pop_vec4_cnt_def peek_vec4_def poke_vec4_def
      set_flag_def set_word_def split: list.splits bind_splits if_splits)

lemma s_cmp_pc: "s_cmp flags_of l r s = Some s' \<Longrightarrow> thr_pc s' = thr_pc s"
  by (auto simp: s_cmp_def)

lemma stack_pc: "stack_spec f st = Some st1 \<Longrightarrow> thr_pc st1 = thr_pc st"
  by (cases f) (auto simp: of_DUP_VEC4_def push_vec4_def dest: edit_pc dest!: edit_pc(4) [OF _ s_cmp_pc])

lemma vec_pc: "vec_spec f cp st = Some st1 \<Longrightarrow> thr_pc st1 = thr_pc st"
  by (cases f) (auto simp: s_shift_by_def of_POP_VEC4_def push_vec4_def split: bind_splits if_splits dest: edit_pc dest!: edit_pc(3) [OF _ s_cmp_pc])

lemma reg_pc: "reg_spec f cp st = Some st1 \<Longrightarrow> thr_pc st1 = thr_pc st"
  by (cases f) (auto simp: register_defs s_index_def push_vec4_def Let_def split: bind_splits if_splits dest!: edit_pc)

lemma net_pc:
  assumes "net_spec f env cp st = Some (st1, acts, go)"
  shows "thr_pc st1 = thr_pc st \<or> arg cp = CPTR (thr_pc st1)"
proof -
  have cptr: "code_cptr cp = Some a \<Longrightarrow> arg cp = CPTR a" for a by (auto simp: code_cptr_def split: operand.splits)
  have getv: "s_getv val flag env cp st = Some st1 \<Longrightarrow> thr_pc st1 = thr_pc st" for val flag
    by (auto simp: s_getv_def split: bind_splits dest!: edit_pc)
  have jump: "jump_if test env cp st = Some (st1, acts, go) \<Longrightarrow> thr_pc st1 = thr_pc st \<or> arg cp = CPTR (thr_pc st1)"
    "of_JMP env cp st = Some (st1, acts, go) \<Longrightarrow> arg cp = CPTR (thr_pc st1)" for test
    by (auto simp: jump_if_def of_JMP_def after_jump_def split: bind_splits if_splits dest!: cptr)
  show ?thesis using assms jump getv
    by (cases f) (auto simp: of_CHUNK_LINK_def of_DELAY_def of_DELAYX_def delay_by_def of_JMP0_def of_JMP0XZ_def of_JMP1_def of_JMP1XZ_def s_store_def
        push_vec4_def Let_def split: bind_splits if_splits dest!: edit_pc cptr)
qed

text \<open>An instruction goes to the next slot or to its operand.\<close>

lemma step_pc:
  assumes "s_step code env st = Some (st1, acts, go)" and "code (thr_pc st) = Some c" and "\<And>f. opcode c \<noteq> FUSED f"
  shows "thr_pc st1 = code_add (thr_pc st) 1 \<or> arg c = CPTR (thr_pc st1)"
  using assms net_pc stack_pc vec_pc reg_pc by (cases "opcode c") (fastforce simp: s_step_def s_execute_def)+

lemma quiet_step:
  assumes "quiet c" and "code (thr_pc st) = Some c" and "s_step code env st = Some (st1, acts, go)"
  shows "acts = []" and "go" and "thr_pc st1 = succ_of c (thr_pc st)"
proof -
  consider (link) b where "opcode c = NETF OF_CHUNK_LINK" "arg c = CPTR b" | (load) "opcode c = NETF OF_LOAD_VEC4"
    | (vec) f where "opcode c = VEC f" | (flag) "opcode c = REG OF_FLAG_SET_VEC4"
    using assms(1) by (auto simp: quiet_def)
  then have "acts = [] \<and> go \<and> thr_pc st1 = succ_of c (thr_pc st)"
  proof cases
    case link
    with assms(2,3) show ?thesis by (auto simp: s_step_def s_execute_def of_CHUNK_LINK_def code_cptr_def succ_of_def)
  next
    case load
    with assms(2,3) show ?thesis by (auto simp: s_step_def s_execute_def succ_of_def)
  next
    case vec
    with assms(2,3) show ?thesis by (auto simp: s_step_def s_execute_def succ_of_def dest!: vec_pc)
  next
    case flag
    with assms(2,3) show ?thesis by (auto simp: s_step_def s_execute_def succ_of_def simp del: reg_spec.simps dest!: reg_pc)
  qed
  then show "acts = []" "go" "thr_pc st1 = succ_of c (thr_pc st)" by auto
qed

text \<open>A run through a group: it ends inside, without effects, or it passes.\<close>

lemma run_path:
  assumes "code_path U a us b" and "us \<noteq> []" and "\<forall>c \<in> set (butlast us). quiet c" and "thr_pc st = a"
    and "run_loop (s_step U) deliver n env st = Some (go, env', st', acts)"
  obtains (inside) "n < length us" and "go" and "acts = []" and "env' = env"
  | (through) st1 as g where "length us \<le> n" and "seg U (length us) env st = Some (st1, as, g)"
    and "if g then \<exists>acts'. run_loop (s_step U) deliver (n - length us) (fold deliver as env) st1 = Some (go, env', st', acts') \<and> acts = as @ acts'
      else \<not> go \<and> env' = fold deliver as env \<and> st' = st1 \<and> acts = as"
  using assms
proof (induction us arbitrary: a st n acts thesis)
  case (Cons c us)
  show ?case
  proof (cases n)
    case 0
    with Cons.prems show ?thesis by auto
  next
    case (Suc m)
    with Cons.prems(7) obtain st1 as g where s: "s_step U env st = Some (st1, as, g)" by (auto split: bind_splits)
    show ?thesis
    proof (cases "us = []")
      case True
      with Cons.prems(2,7) Suc s show ?thesis by (cases g) (auto split: if_splits)
    next
      case False
      then have q: "quiet c" "\<forall>c \<in> set (butlast us). quiet c" using Cons.prems(5) by auto
      have c: "U (thr_pc st) = Some c" using Cons.prems by simp
      note s' = quiet_step [OF q(1) c s]
      have p: "code_path U (thr_pc st1) us b" using Cons.prems s' by simp
      have r: "run_loop (s_step U) deliver m env st1 = Some (go, env', st', acts)" using Cons.prems(7) Suc s s' by auto
      show ?thesis
      proof (rule Cons.IH [OF _ _ p False q(2) refl r])
        assume "m < length us" "go" "acts = []" "env' = env"
        then show thesis using Cons.prems(1) Suc by simp
      next
        fix st2 as2 g2 assume "length us \<le> m" "seg U (length us) env st1 = Some (st2, as2, g2)"
          "if g2 then \<exists>acts'. run_loop (s_step U) deliver (m - length us) (fold deliver as2 env) st2 = Some (go, env', st', acts') \<and> acts = as2 @ acts'
            else \<not> go \<and> env' = fold deliver as2 env \<and> st' = st2 \<and> acts = as2"
        then show thesis using Cons.prems(2) [of st2 as2 g2] Suc s s' False by simp
      qed
    qed
  qed
qed simp

lemma seg_run:
  assumes "seg code k env st = Some (st1, as, g)"
  shows "run_loop (s_step code) deliver (k + m) env st =
    (if g then map_option (\<lambda>(run, env, thr, acts'). (run, env, thr, as @ acts')) (run_loop (s_step code) deliver m (fold deliver as env) st1)
     else Some (False, fold deliver as env, st1, as))"
  using assms
proof (induction k arbitrary: st)
  case (Suc k)
  show ?case
  proof (cases "k = 0")
    case True
    with Suc.prems show ?thesis by simp
  next
    case False
    then obtain st2 where "s_step code env st = Some (st2, [], True)" "seg code k env st2 = Some (st1, as, g)" using seg_Suc [OF Suc.prems] by blast
    moreover have "map_option (\<lambda>(run, env, thr, acts'). (run, env, thr, [] @ acts')) x = x" for x :: "(bool \<times> env \<times> sthread \<times> thr_effect list) option"
      by (cases x) auto
    ultimately show ?thesis using Suc.IH [of st2] by simp
  qed
qed simp

section \<open>Groups\<close>

definition link :: "codespace \<Rightarrow> codespace \<Rightarrow> vvp_code_t \<Rightarrow> vvp_code_t \<Rightarrow> bool" where
  "link U F a b \<longleftrightarrow> (\<exists>c. U a = Some c \<and> F a = Some c \<and> opcode c = NETF OF_CHUNK_LINK \<and> arg c = CPTR b)"

definition slot_group :: "(nat \<Rightarrow> nat option) \<Rightarrow> codespace \<Rightarrow> codespace \<Rightarrow> vvp_code_t \<Rightarrow> vvp_code_t \<Rightarrow> bool" where
  "slot_group value_size U F a b \<longleftrightarrow>
    (\<exists>us fs. fuses value_size us fs \<and> lays U a us \<and> lays F a fs \<and> b = code_add a (length us))
    \<or> (\<exists>pushi asgn f g q. assign_operands pushi asgn g \<and> opcode f = NETF OF_NOOP \<and> U a = Some pushi \<and> F a = Some f
        \<and> link U F (code_add a 1) q \<and> fst a < fst q \<and> U q = Some asgn \<and> F q = Some g \<and> b = code_add q 1)"

definition env_fits :: "(nat \<Rightarrow> nat option) \<Rightarrow> env \<Rightarrow> bool" where
  "env_fits value_size env \<longleftrightarrow> (\<forall>sig n. value_size sig = Some n \<longrightarrow> v4_size (env_signal env sig) = n)"

text \<open>
  The bit that a fused replication reads is there when the signal has drive strengths: in the code without fusion, a load of such a signal
  that a part select of one bit and a \<^verbatim>\<open>%replicate\<close> follow selects a bit of the signal.
\<close>

definition selects_in_range :: "codespace \<Rightarrow> env \<Rightarrow> bool" where
  "selects_in_range U env \<longleftrightarrow> (\<forall>a load parti rept sig n. U a = Some load \<longrightarrow> U (code_add a 1) = Some parti \<longrightarrow> U (code_add a 2) = Some rept \<longrightarrow>
     opcode load = NETF OF_LOAD_VEC4 \<longrightarrow> opcode parti \<in> {VEC OF_PARTI_S, VEC OF_PARTI_U} \<longrightarrow> opcode rept = VEC OF_REPLICATE \<longrightarrow>
     code_unsigned parti = Some 1 \<longrightarrow> code_signal load = Some sig \<longrightarrow> env_strong env sig = Some n \<longrightarrow>
     0 \<le> sint (fused_base parti) \<longrightarrow> unat (fused_base parti) < n)"

definition env_suits :: "(nat \<Rightarrow> nat option) \<Rightarrow> codespace \<Rightarrow> env \<Rightarrow> bool" where
  "env_suits value_size U env \<longleftrightarrow> env_ok env \<and> env_fits value_size env \<and> selects_in_range U env"

lemma replicate_bit:
  assumes env: "env_suits value_size U env" and U: "lays U a [load, parti, c]" and part: "part_operands load parti f" "0 \<le> sint (bit_idx0 f)" "bit_idx1 f = 1"
    and c: "opcode c = VEC OF_REPLICATE" and sig: "code_signal f = Some sig"
  shows "signal_bit env sig (unat (bit_idx0 f)) \<noteq> None"
proof (cases "env_strong env sig")
  case (Some n)
  have f: "opcode load = NETF OF_LOAD_VEC4" "opcode parti \<in> {VEC OF_PARTI_S, VEC OF_PARTI_U}" "arg f = arg load" "bit_idx0 f = fused_base parti"
    using part(1) by (auto simp: part_operands_def)
  have U': "U a = Some load" "U (code_add a 1) = Some parti" "U (code_add a 2) = Some c" using U by (simp_all add: lays_Cons)
  have "code_unsigned parti = Some 1" "code_signal load = Some sig" using part_width [OF part(1)] part(3) f(3) sig by (simp_all add: code_signal_def)
  moreover have "selects_in_range U env" "length (sig_bits env sig) = n" using env Some by (auto simp: env_suits_def env_ok_def)
  ultimately show ?thesis using f U' c Some part(2) unfolding selects_in_range_def signal_bit_def by (metis option.distinct(1))
qed (simp add: signal_bit_def)

lemma fuses_quiet:
  assumes "fuses value_size us fs"
  shows "us \<noteq> []" and "\<forall>c \<in> set (butlast us). quiet c" and "\<forall>c \<in> set us. opcode c \<noteq> NETF OF_CHUNK_LINK" and "length fs = length us"
  using assms
proof (induction)
  case (wide c f cs v ds)
  have "quiet c'" if "c' \<in> set (butlast (c # cs))" for c' using in_set_butlastD [OF that] wide by (auto simp: quiet_def)
  then show "\<forall>c \<in> set (butlast (c # cs)). quiet c" "c # cs \<noteq> []" "\<forall>c \<in> set (c # cs). opcode c \<noteq> NETF OF_CHUNK_LINK" "length (f # ds) = length (c # cs)"
    using wide by auto
qed (auto simp: quiet_def part_operands_def assign_operands_def)

lemma one_word_size:
  assumes "env_fits value_size env" and "one_word (Option.bind (code_signal f) value_size) f g"
  shows "one_word (signal_size env f) f g"
proof -
  obtain sig n where "code_signal f = Some sig" "value_size sig = Some n"
    using assms(2) by (auto simp: one_word_def Let_def split: option.splits bind_splits)
  with assms show ?thesis by (simp add: signal_size_def env_fits_def)
qed

lemma fuses_run:
  assumes "fuses value_size us fs" and pc: "thr_pc st = a" and flags: "length (thr_flags st) = FLAGS_COUNT" and suits: "env_suits value_size U env"
    and U: "lays U a us" and F: "lays F a fs" and r: "seg U (length us) env st = Some r"
  shows "\<exists>k. seg F k env st = Some r"
  using assms(1)
proof cases
  case (plain c)
  from run_plain [OF plain(3) pc, of U F env] U F r plain(1,2) have "seg F 1 env st = Some r" by (simp add: lays_Cons)
  then show ?thesis ..
next
  case (parti load parti f d)
  from run_parti [OF parti(3,4) pc, of U F d env r] U F r parti(1,2) have "seg F 1 env st = Some r" by (simp add: eval_nat_numeral)
  then show ?thesis ..
next
  case (parti_op load parti f c d e)
  from run_parti_op [OF parti_op(3-5) pc, of U F d e env r] U F r parti_op(1,2) have "seg F 1 env st = Some r" by (simp add: eval_nat_numeral)
  then show ?thesis ..
next
  case (parti_replicate load parti f c d)
  have "lays U a [load, parti, c]" using U parti_replicate(1) by simp
  note has = replicate_bit [OF suits this parti_replicate(3-6)]
  from run_parti_replicate [where F = F and U = U and env = env and r = r, OF parti_replicate(3-8) has pc] U F r parti_replicate(1,2)
  have "seg F 3 env st = Some r" by (simp add: eval_nat_numeral)
  then show ?thesis ..
next
  case (pair l1 p1 f1 l2 p2 f2 d1 d2)
  from run_pair_fused [OF pair(3-7) pc, of U F d1 d2 env r] U F r pair(1,2) have "seg F 1 env st = Some r" by (simp add: eval_nat_numeral)
  then show ?thesis ..
next
  case (pair_concat l1 p1 f1 l2 p2 f2 c d1 direct d2 e)
  have fits: "env_fits value_size env" using suits by (simp add: env_suits_def)
  have "direct \<noteq> 0 \<longrightarrow> one_word (signal_size env f1) f1 f2" using pair_concat(10) one_word_size [OF fits] by simp
  from run_pair_concat [OF pair_concat(3-9) this pc, of U F d2 e r] U F r pair_concat(1,2) have "seg F 1 env st = Some r" by (simp add: eval_nat_numeral)
  then show ?thesis ..
next
  case (assign pushi asgn g f)
  have U': "U a = Some pushi" "U (code_add a 1) = Some asgn" and F': "F a = Some f" "F (code_add a 1) = Some g" using U F assign by (simp_all add: lays_Cons)
  obtain st1 where s: "s_step U env st = Some (st1, [], True)" "s_step U env st1 = Some r"
    by (rule seg_Suc [where code = U and env = env and st = st and k = 1 and r = r]) (use r assign in simp_all)
  note a = run_assign [OF assign(3,4) pc U' F' s(1)]
  have same: "st1\<lparr>thr_pc := code_add a 1\<rparr> = st1" using a(3) by simp
  have "s_step F env (st\<lparr>thr_pc := code_add a 1\<rparr>) = Some r" using a(5) [unfolded same] s(2) by (simp only:)
  with a(4) have "seg F 2 env st = Some r" by (simp add: seg_numeral)
  then show ?thesis ..
next
  case (load_flag load flag n d)
  from run_load_flag [OF load_flag(3-5) pc, of U F d env r] U F r load_flag(1,2) have "seg F 1 env st = Some r" by (simp add: eval_nat_numeral)
  then show ?thesis ..
next
  case (flag_setget sflag gflag d)
  from run_flag_setget [OF flag_setget(3-5) flags pc, of U F d env r] U F r flag_setget(1,2) have "seg F 1 env st = Some r" by (simp add: eval_nat_numeral)
  then show ?thesis ..
next
  case (cmpi_jmp c j)
  from run_cmpi_jmp [OF cmpi_jmp(3,4) pc, of U F env r] U F r cmpi_jmp(1,2) have "seg F 1 env st = Some r" by (simp add: eval_nat_numeral)
  then show ?thesis ..
next
  case (wide c f cs v ds)
  have "F a = Some f" using F wide(2) by (simp add: lays_Cons)
  from run_wide [where F = F and U = U and env = env and r = r, OF wide(3-6,8,9) pc _ this] U r wide(1) have "seg F 1 env st = Some r" by (simp)
  then show ?thesis ..
qed

text \<open>Both kinds of group, as a path of instructions that the fused slots simulate.\<close>

definition slots_cover :: "(nat \<Rightarrow> nat option) \<Rightarrow> codespace \<Rightarrow> codespace \<Rightarrow> vvp_code_t \<Rightarrow> nat \<Rightarrow> bool" where
  "slots_cover value_size U F a n \<longleftrightarrow> (\<forall>env st r. thr_pc st = a \<longrightarrow> length (thr_flags st) = FLAGS_COUNT \<longrightarrow> env_suits value_size U env \<longrightarrow>
     seg U n env st = Some r \<longrightarrow> (\<exists>k. seg F k env st = Some r))"

lemma group_path:
  assumes "slot_group value_size U F a b"
  obtains us where "code_path U a us b" and "us \<noteq> []" and "\<forall>c \<in> set (butlast us). quiet c"
    and "slots_cover value_size U F a (length us)"
  using assms unfolding slot_group_def
proof (elim disjE exE conjE)
  fix us fs assume g: "fuses value_size us fs" "lays U a us" "lays F a fs" "b = code_add a (length us)"
  show thesis by (rule that [of us]) (use g fuses_quiet [OF g(1)] lays_path [OF g(2)] fuses_run [OF g(1) _ _ _ g(2,3)] in \<open>auto simp: slots_cover_def\<close>)
next
  fix pushi asgn f g q
  assume a: "assign_operands pushi asgn g" "opcode f = NETF OF_NOOP" "U a = Some pushi" "F a = Some f" "link U F (code_add a 1) q" "fst a < fst q"
    "U q = Some asgn" "F q = Some g" "b = code_add q 1"
  then obtain l where l: "U (code_add a 1) = Some l" "F (code_add a 1) = Some l" "opcode l = NETF OF_CHUNK_LINK" "arg l = CPTR q" by (auto simp: link_def)
  have o: "opcode pushi = VEC OF_PUSHI_VEC4" "opcode asgn = NETF OF_ASSIGN_VEC4" using a(1) by (simp_all add: assign_operands_def)
  have step: "s_step code env s = Some (s\<lparr>thr_pc := q\<rparr>, [], True)" if "thr_pc s = code_add a 1" "code (code_add a 1) = Some l" for code env s
    using that l by (simp add: s_step_def s_execute_def of_CHUNK_LINK_def code_cptr_def)
  show thesis
  proof (rule that [of "[pushi, l, asgn]"])
    show "code_path U a [pushi, l, asgn] b" using a l o by (simp add: succ_of_def)
    show "\<forall>c \<in> set (butlast [pushi, l, asgn]). quiet c" using o l by (simp add: quiet_def)
    show "slots_cover value_size U F a (length [pushi, l, asgn])" unfolding slots_cover_def
    proof (intro allI impI)
    fix env st r assume pc: "thr_pc st = a" and r: "seg U (length [pushi, l, asgn]) env st = Some r"
    obtain st1 where s1: "s_step U env st = Some (st1, [], True)" "seg U (Suc (Suc 0)) env st1 = Some r"
      by (rule seg_Suc [where code = U and env = env and st = st and k = 2 and r = r]) (use r in \<open>simp_all add: seg_numeral\<close>)
    note n = run_assign [OF a(1,2) pc a(3,7,4,8) s1(1)]
    from s1(2) step [where s = st1 and code = U and env = env, OF n(3) l(1)] have "s_step U env (st1\<lparr>thr_pc := q\<rparr>) = Some r" by simp
    with n step [where s = "st\<lparr>thr_pc := code_add a 1\<rparr>" and code = F and env = env] l(2) have "seg F 3 env st = Some r" by (simp add: seg_numeral)
    then show "\<exists>k. seg F k env st = Some r" ..
    qed
  qed simp
qed

section \<open>Tiled code\<close>

text \<open>
  The first slots of the groups are \<open>S\<close>, the next free slot is \<open>nx\<close>.  A group ends at the start of another, at a
  link to it, or at the free slot, and jumps go to starts.
\<close>

definition lands :: "codespace \<Rightarrow> codespace \<Rightarrow> vvp_code_t set \<Rightarrow> vvp_code_t \<Rightarrow> vvp_code_t \<Rightarrow> bool" where
  "lands U F S nx a \<longleftrightarrow> a \<in> insert nx S \<or> (\<exists>q \<in> insert nx S. link U F a q)"

definition tiled_by :: "(nat \<Rightarrow> nat option) \<Rightarrow> codespace \<Rightarrow> codespace \<Rightarrow> vvp_code_t set \<Rightarrow> vvp_code_t \<Rightarrow> bool" where
  "tiled_by value_size U F S nx \<longleftrightarrow> U nx = None \<and> (\<forall>a \<in> S. \<exists>b. slot_group value_size U F a b \<and> lands U F S nx b)
    \<and> (\<forall>a c. U a = Some c \<longrightarrow> (\<forall>f. opcode c \<noteq> FUSED f) \<and> (\<forall>t. arg c = CPTR t \<longrightarrow> opcode c \<noteq> NETF OF_CHUNK_LINK \<longrightarrow> t \<in> insert nx S))"

definition st_ok :: "sthread \<Rightarrow> bool" where
  "st_ok st \<longleftrightarrow> (\<exists>thr. thr_ok thr \<and> view thr = st)"

lemma st_ok_flags: "st_ok st \<Longrightarrow> length (thr_flags st) = FLAGS_COUNT"
  by (auto simp: st_ok_def thr_ok_def)

lemma st_ok_seg:
  assumes "env_ok env" and "code_ok code" and "st_ok st" and "seg code k env st = Some (st1, as, g)"
  shows "st_ok st1"
  using assms(3,4)
proof (induction k arbitrary: st)
  case (Suc k)
  have step: "st_ok s1" if "s_step code env st = Some (s1, a1, g1)" for s1 a1 g1
    using Suc.prems(1) that refinesE [OF step_sim [OF assms(1,2)]] unfolding st_ok_def by metis
  show ?case
  proof (cases "k = 0")
    case False
    then obtain st2 where "s_step code env st = Some (st2, [], True)" "seg code k env st2 = Some (st1, as, g)" using seg_Suc [OF Suc.prems(2)] by blast
    with Suc.IH step show ?thesis by blast
  qed (use step Suc.prems(2) in simp)
qed simp

lemma path_target:
  assumes "code_path U a us b" and "us \<noteq> []" and "\<forall>c \<in> set (butlast us). quiet c" and "thr_pc st = a" and "seg U (length us) env st = Some (st1, as, g)"
    and "\<And>a c f. U a = Some c \<Longrightarrow> opcode c \<noteq> FUSED f"
  shows "thr_pc st1 = b \<or> (\<exists>a c. U a = Some c \<and> arg c = CPTR (thr_pc st1) \<and> opcode c \<noteq> NETF OF_CHUNK_LINK)"
  using assms(1-5)
proof (induction us arbitrary: a st)
  case (Cons c us)
  have c: "U (thr_pc st) = Some c" and p: "code_path U (succ_of c a) us b" using Cons.prems by simp_all
  show ?case
  proof (cases "us = []")
    case True
    then have s: "s_step U env st = Some (st1, as, g)" and b: "b = succ_of c a" using Cons.prems by simp_all
    show ?thesis
    proof (cases "opcode c = NETF OF_CHUNK_LINK")
      case True
      with s c Cons.prems(4) show ?thesis
        by (auto simp: b s_step_def s_execute_def of_CHUNK_LINK_def succ_of_def code_cptr_def split: operand.splits)
    next
      case False
      then show ?thesis using step_pc [OF s c assms(6) [OF c]] c b Cons.prems(4) unfolding succ_of_def by (auto simp del: split_paired_All split_paired_Ex)
    qed
  next
    case False
    obtain st2 where s: "s_step U env st = Some (st2, [], True)" "seg U (length us) env st2 = Some (st1, as, g)"
      by (rule seg_Suc [where code = U and k = "length us" and env = env and st = st]) (use Cons.prems(5) False in simp_all)
    have q: "quiet c" "\<forall>c \<in> set (butlast us). quiet c" using Cons.prems(3) False by auto
    from Cons.IH [OF p False q(2) _ s(2)] quiet_step(3) [OF q(1) c s(1)] Cons.prems(4) show ?thesis by simp
  qed
qed simp

theorem tiled_run:
  assumes tiled: "tiled_by value_size U F S nx" and code: "code_ok U"
    and keeps: "\<And>e env. env_suits value_size U env \<Longrightarrow> env_suits value_size U (deliver e env)"
    and "lands U F S nx (thr_pc st)" and "st_ok st" and "env_suits value_size U env"
    and "run_loop (s_step U) deliver n env st = Some (go, env', st', acts)"
  shows "\<exists>m st''. run_loop (s_step F) deliver m env st = Some (go, env', st'', acts) \<and> (\<not> go \<longrightarrow> st'' = st')"
  using assms(4-7)
proof (induction n arbitrary: env st acts rule: less_induct)
  case (less n)
  have plain: "U a = Some c \<Longrightarrow> opcode c \<noteq> FUSED f" for a c f using tiled unfolding tiled_by_def by blast
  have ok_env: "env_ok env" using less.prems(3) by (simp add: env_suits_def)
  have deliver: "env_suits value_size U (fold deliver as env)" for as
    by (induction as rule: rev_induct) (use less.prems(3) keeps in auto)
  show ?case
  proof (cases "n = 0")
    case True
    with less.prems(4) have "run_loop (s_step F) deliver 0 env st = Some (go, env', st, acts)" "go" by auto
    then show ?thesis by blast
  next
    case n: False
    consider (start) "thr_pc st \<in> S" | (free) "thr_pc st = nx" | (link) q where "link U F (thr_pc st) q" "q \<in> insert nx S"
      using less.prems(1) unfolding lands_def by blast
    then show ?thesis
    proof cases
      case free
      with tiled less.prems(4) n show ?thesis by (cases n) (auto simp: tiled_by_def s_step_def)
    next
      case link
      then obtain c where c: "U (thr_pc st) = Some c" "F (thr_pc st) = Some c" "opcode c = NETF OF_CHUNK_LINK" "arg c = CPTR q" by (auto simp: link_def)
      have step: "s_step U env st = Some (st\<lparr>thr_pc := q\<rparr>, [], True)" "s_step F env st = Some (st\<lparr>thr_pc := q\<rparr>, [], True)"
        using c by (simp_all add: s_step_def s_execute_def of_CHUNK_LINK_def code_cptr_def)
      have ok: "st_ok (st\<lparr>thr_pc := q\<rparr>)" by (rule st_ok_seg [where k = 1 and st = st and env = env, OF ok_env code less.prems(2)]) (use step in simp)
      obtain m where m: "n = Suc m" using n by (cases n) auto
      with less.prems(4) step have "run_loop (s_step U) deliver m env (st\<lparr>thr_pc := q\<rparr>) = Some (go, env', st', acts)" by auto
      with less.IH [of m "st\<lparr>thr_pc := q\<rparr>" env acts] link(2) ok less.prems(3) m obtain k st'' where
        "run_loop (s_step F) deliver k env (st\<lparr>thr_pc := q\<rparr>) = Some (go, env', st'', acts)" "\<not> go \<longrightarrow> st'' = st'" by (auto simp: lands_def)
      then have "run_loop (s_step F) deliver (Suc k) env st = Some (go, env', st'', acts)" "\<not> go \<longrightarrow> st'' = st'" using step by auto
      then show ?thesis by blast
    next
      case start
      then obtain b where g: "slot_group value_size U F (thr_pc st) b" and b: "lands U F S nx b" using tiled unfolding tiled_by_def by blast
      obtain us where us: "code_path U (thr_pc st) us b" "us \<noteq> []" "\<forall>c \<in> set (butlast us). quiet c"
        and sim: "slots_cover value_size U F (thr_pc st) (length us)"
        by (rule group_path [OF g])
      show ?thesis
      proof (rule run_path [OF us refl less.prems(4)])
        assume "go" "acts = []" "env' = env"
        then have "run_loop (s_step F) deliver 0 env st = Some (go, env', st, acts)" by simp
        with \<open>go\<close> show ?thesis by blast
      next
        fix st1 as g
        assume len: "length us \<le> n" and seg: "seg U (length us) env st = Some (st1, as, g)"
          and rest: "if g then \<exists>acts'. run_loop (s_step U) deliver (n - length us) (fold deliver as env) st1 = Some (go, env', st', acts') \<and> acts = as @ acts'
            else \<not> go \<and> env' = fold deliver as env \<and> st' = st1 \<and> acts = as"
        obtain k where k: "seg F k env st = Some (st1, as, g)" 
          using sim st_ok_flags [OF less.prems(2)] seg less.prems(3) unfolding slots_cover_def by blast
        note run = seg_run [OF k, where deliver = deliver]
        show ?thesis
        proof (cases g)
          case True
          with rest obtain acts' where r: "run_loop (s_step U) deliver (n - length us) (fold deliver as env) st1 = Some (go, env', st', acts')" "acts = as @ acts'" by auto
          have ok: "st_ok st1" by (rule st_ok_seg [OF ok_env code less.prems(2) seg])
          have pc: "lands U F S nx (thr_pc st1)"
          proof -
            have "thr_pc st1 = b \<or> (\<exists>a c. U a = Some c \<and> arg c = CPTR (thr_pc st1) \<and> opcode c \<noteq> NETF OF_CHUNK_LINK)"
              by (rule path_target [OF us refl seg]) (rule plain)
            then show ?thesis using b tiled unfolding tiled_by_def lands_def by blast
          qed
          have "n - length us < n" using us(2) n by (cases us) auto
          from less.IH [OF this pc ok deliver r(1)] obtain m st'' where
            "run_loop (s_step F) deliver m (fold deliver as env) st1 = Some (go, env', st'', acts')" "\<not> go \<longrightarrow> st'' = st'" by blast
          with run [of m] True r(2) have "run_loop (s_step F) deliver (k + m) env st = Some (go, env', st'', acts)" "\<not> go \<longrightarrow> st'' = st'" by auto
          then show ?thesis by blast
        next
          case False
          with rest run [of 0] have "run_loop (s_step F) deliver (k + 0) env st = Some (go, env', st', acts)" by simp
          then show ?thesis by blast
        qed
      qed
    qed
  qed
qed

end
