(* ===== verification/Loader.thy ===== *)
theory Loader
  imports Fusion_Run "HOL-Library.Product_Lexorder"
begin

text \<open>
  The loader of code (\<^verbatim>\<open>compile_code\<close> and \<^verbatim>\<open>compile_codelabel\<close> in \<^verbatim>\<open>src/vvp/compile.cc\<close>, the code space of \<^verbatim>\<open>codes.cc\<close>):
  it puts instructions into the chunks of the code space and fuses adjacent ones.  The operands of an instruction are given
  as they stand in its slot; looking up its symbols is not part of the model.  A slot that is not allocated yet is \<open>None\<close>.
\<close>

section \<open>The code space\<close>

record loader =
  ld_code :: codespace
  current_chunk :: nat
  current_within_chunk :: nat
  peep_prev_code :: "vvp_code_t option"
  peep_fuse_slot :: "vvp_code_t option"
  peep_parti_pair_lhs :: "vvp_code_t option"
  peep_pushi_wide :: "vvp_code_t option"
  full_width_store_candidates :: "vvp_code_t list"

definition code_chunk_size :: nat where "code_chunk_size = 1024"

text \<open>The link at the end of a chunk, with a null pointer until there is another chunk.\<close>

definition chunk_link :: "operand \<Rightarrow> vvp_code_s" where
  "chunk_link p = \<lparr>opcode = NETF OF_CHUNK_LINK, arg = p, bit_idx0 = 0, bit_idx1 = 0\<rparr>"

text \<open>Address 0 holds the \<^verbatim>\<open>%zombie\<close> instruction, which no code reaches; it is left out.\<close>

definition codespace_init :: loader where
  "codespace_init = \<lparr>ld_code = [(0, code_chunk_size - 1) \<mapsto> chunk_link (NUMBER 0)], current_chunk = 0, current_within_chunk = 1,
     peep_prev_code = None, peep_fuse_slot = None, peep_parti_pair_lhs = None, peep_pushi_wide = None, full_width_store_candidates = []\<rparr>"

definition codespace_next :: "loader \<Rightarrow> vvp_code_t \<times> loader" where
  "codespace_next ld =
    (let ld = (if current_within_chunk ld = code_chunk_size - 1 then
       let c = current_chunk ld in
       ld\<lparr>ld_code := (ld_code ld)((c, code_chunk_size - 1) \<mapsto> chunk_link (CPTR (Suc c, 0)), (Suc c, code_chunk_size - 1) \<mapsto> chunk_link (NUMBER 0)),
         current_chunk := Suc c, current_within_chunk := 0\<rparr> else ld)
     in ((current_chunk ld, current_within_chunk ld), ld))"

text \<open>The slot is cleared, then filled with the opcode and its operands.\<close>

definition codespace_allocate :: "vvp_code_s \<Rightarrow> loader \<Rightarrow> vvp_code_t \<times> loader" where
  "codespace_allocate code ld =
    (let (res, ld) = codespace_next ld in (res, ld\<lparr>current_within_chunk := Suc (current_within_chunk ld), ld_code := (ld_code ld)(res \<mapsto> code)\<rparr>))"

section \<open>Fusion\<close>

text \<open>The previous instruction and the new one at \<open>a\<close>, if it landed in the slot after it.\<close>

definition peep_pair :: "vvp_code_t \<Rightarrow> loader \<Rightarrow> (vvp_code_t \<times> vvp_code_s \<times> vvp_code_s) option" where
  "peep_pair a ld = Option.bind (peep_prev_code ld) (\<lambda>p. Option.bind (ld_code ld p) (\<lambda>prev. Option.bind (ld_code ld a) (\<lambda>code.
     if peep_fuse_slot ld = Some a then Some (p, prev, code) else None)))"

definition set_slot :: "vvp_code_t \<Rightarrow> vvp_code_s \<Rightarrow> loader \<Rightarrow> loader" where
  "set_slot a c ld = ld\<lparr>ld_code := (ld_code ld)(a \<mapsto> c)\<rparr>"

definition mark_slot :: "loader \<Rightarrow> loader" where
  "mark_slot ld = (let (nx, ld) = codespace_next ld in ld\<lparr>peep_fuse_slot := Some nx\<rparr>)"

definition end_fusion :: "loader \<Rightarrow> loader" where
  "end_fusion ld = mark_slot (ld\<lparr>peep_prev_code := None\<rparr>)"

definition is_load_parti :: "vvp_code_s \<Rightarrow> bool" where
  "is_load_parti c \<longleftrightarrow> opcode c = FUSED OF_LOAD_PARTI_S \<or> opcode c = FUSED OF_LOAD_PARTI_U"

definition note_pair :: "vvp_code_t \<Rightarrow> loader \<Rightarrow> loader" where
  "note_pair a ld = (case peep_pair a ld of None \<Rightarrow> ld | Some (p, prev, code) \<Rightarrow>
     if a = code_add p 2 \<and> is_load_parti prev \<and> 0 \<le> sint (bit_idx0 prev) \<and> opcode code = NETF OF_LOAD_VEC4
     then ld\<lparr>peep_parti_pair_lhs := Some p\<rparr> else ld)"

definition fuse_pair_concat :: "(nat \<Rightarrow> nat option) \<Rightarrow> vvp_code_t \<Rightarrow> loader \<Rightarrow> loader option" where
  "fuse_pair_concat value_size a ld = Option.bind (peep_pair a ld) (\<lambda>(p, prev, code).
     if a = code_add p 4 \<and> opcode prev = FUSED OF_LOAD_PARTI_PAIR \<and> opcode code = STACK OF_CONCAT_VEC4 then
       Option.bind (ld_code ld (code_add p 1)) (\<lambda>dead. map_option (\<lambda>rhs_code.
         let direct = one_word (Option.bind (code_signal prev) value_size) prev rhs_code in
         end_fusion (set_slot a (noop code) (set_slot (code_add p 1) (dead\<lparr>arg := NUMBER (of_bool direct)\<rparr>)
           (set_slot p (prev\<lparr>opcode := FUSED OF_LOAD_PARTI_PAIR_CONCAT\<rparr>) ld))))
       (ld_code ld (code_add p 2)))
     else None)"

definition fuse_parti_op :: "vvp_code_t \<Rightarrow> loader \<Rightarrow> loader option" where
  "fuse_parti_op a ld = Option.bind (peep_pair a ld) (\<lambda>(p, prev, code).
     if a = code_add p 2 \<and> is_load_parti prev \<and> 0 \<le> sint (bit_idx0 prev) then
       map_option (\<lambda>f. end_fusion (set_slot a (noop code) (set_slot p (prev\<lparr>opcode := FUSED f\<rparr>) ld)))
         (if opcode code = STACK OF_CONCAT_VEC4 then Some OF_LOAD_PARTI_CONCAT else if opcode code = STACK OF_ADD then Some OF_LOAD_PARTI_ADD
          else if opcode code = STACK OF_XOR then Some OF_LOAD_PARTI_XOR else None)
     else None)"

definition fuse_parti_replicate :: "vvp_code_t \<Rightarrow> loader \<Rightarrow> loader option" where
  "fuse_parti_replicate a ld = Option.bind (peep_pair a ld) (\<lambda>(p, prev, code).
     if a = code_add p 2 \<and> is_load_parti prev \<and> 0 \<le> sint (bit_idx0 prev) \<and> bit_idx1 prev = 1 \<and> opcode code = VEC OF_REPLICATE
     then Some (end_fusion (set_slot a (code\<lparr>opcode := FUSED OF_LOAD_PARTI_REPLICATE\<rparr>) (set_slot p (noop prev) ld))) else None)"

definition fuse_pushi_assign :: "vvp_code_t \<Rightarrow> loader \<Rightarrow> loader option" where
  "fuse_pushi_assign a ld = Option.bind (peep_pair a ld) (\<lambda>(p, prev, code). Option.bind (code_number prev) (\<lambda>number.
     if opcode prev = VEC OF_PUSHI_VEC4 \<and> opcode code = NETF OF_ASSIGN_VEC4 \<and> bit_idx1 prev = 0 \<and> number < 2 ^ 20 \<and> bit_idx0 code < 64
     then let vala = bit_idx0 prev; wid = ucast number; delay = bit_idx0 code in
       Some (end_fusion (set_slot a (code\<lparr>opcode := FUSED OF_ASSIGNI_VEC4, bit_idx0 := vala, bit_idx1 := push_bit 6 wid OR delay\<rparr>)
         (set_slot p ((noop prev)\<lparr>bit_idx0 := 0, bit_idx1 := 0\<rparr>) ld)))
     else None))"

definition fuse_load_flag :: "vvp_code_t \<Rightarrow> loader \<Rightarrow> loader option" where
  "fuse_load_flag a ld = Option.bind (peep_pair a ld) (\<lambda>(p, prev, code).
     if a = code_add p 1 \<and> opcode prev = NETF OF_LOAD_VEC4 \<and> opcode code = REG OF_FLAG_SET_VEC4 then
       map_option (\<lambda>number. end_fusion (set_slot a (noop code) (set_slot p (prev\<lparr>opcode := FUSED OF_LOAD_FLAG, bit_idx0 := ucast number\<rparr>) ld)))
         (code_number code)
     else None)"

definition fuse_flag_setget :: "vvp_code_t \<Rightarrow> loader \<Rightarrow> loader option" where
  "fuse_flag_setget a ld = Option.bind (peep_pair a ld) (\<lambda>(p, prev, code).
     if a = code_add p 1 \<and> opcode prev = REG OF_FLAG_SET_VEC4 \<and> opcode code = REG OF_FLAG_GET_VEC4 \<and> code_number prev = code_number code
     then Some (end_fusion (set_slot a (noop code) (set_slot p (prev\<lparr>opcode := FUSED OF_FLAG_SETGET_VEC4\<rparr>) ld))) else None)"

text \<open>
  A run of \<^verbatim>\<open>%concati/vec4\<close> after a \<^verbatim>\<open>%pushi/vec4\<close> or on its own: the slot it is fused into, then the constant, which is
  assembled in the first step and extended in the others.
\<close>

definition wide_slot :: "vvp_code_t \<Rightarrow> loader \<Rightarrow> vvp_code_t option" where
  "wide_slot a ld =
    (case Option.bind (peep_pushi_wide ld) (\<lambda>w. Option.bind (ld_code ld w) (\<lambda>c. if a = code_add w (Suc (unat (bit_idx0 c))) then Some w else None)) of
       Some w \<Rightarrow> Some w
     | None \<Rightarrow> Option.bind (peep_pair a ld) (\<lambda>(p, prev, code).
         if a = code_add p 1 \<and> (opcode prev = VEC OF_PUSHI_VEC4 \<or> opcode prev = VEC OF_CONCATI_VEC4) then Some p else None))"

definition wide_append :: "vvp_code_s \<Rightarrow> vvp_code_s \<Rightarrow> vvp_code_s option" where
  "wide_append slot code = Option.bind (immediate code) (\<lambda>chunk.
     if opcode slot = FUSED OF_CONCATI_WIDE \<or> opcode slot = FUSED OF_PUSHI_WIDE then
       Option.bind (code_cvec slot) (\<lambda>cvec. map_option (\<lambda>v. slot\<lparr>arg := CVEC v, bit_idx0 := bit_idx0 slot + 1\<rparr>) (v4_concat cvec chunk))
     else Option.bind (immediate slot) (\<lambda>assembled. map_option (\<lambda>v.
       slot\<lparr>opcode := FUSED (if opcode slot = VEC OF_PUSHI_VEC4 then OF_PUSHI_WIDE else OF_CONCATI_WIDE), arg := CVEC v, bit_idx0 := 0 + 1, bit_idx1 := 0\<rparr>)
       (v4_concat assembled chunk)))"

definition fuse_wide :: "vvp_code_t \<Rightarrow> loader \<Rightarrow> loader option" where
  "fuse_wide a ld = Option.bind (ld_code ld a) (\<lambda>code. if opcode code = VEC OF_CONCATI_VEC4 then
     Option.bind (wide_slot a ld) (\<lambda>w. Option.bind (ld_code ld w) (\<lambda>slot. map_option (\<lambda>slot.
       end_fusion ((set_slot a ((noop code)\<lparr>arg := NUMBER 0, bit_idx0 := 0, bit_idx1 := 0\<rparr>) (set_slot w slot ld))\<lparr>peep_pushi_wide := Some w\<rparr>))
       (wide_append slot code))) else None)"

definition fuse_cmpi_jmp :: "vvp_code_t \<Rightarrow> loader \<Rightarrow> loader option" where
  "fuse_cmpi_jmp a ld = Option.bind (peep_pair a ld) (\<lambda>(p, prev, code).
     if a = code_add p 1 \<and> (opcode code = NETF OF_JMP0XZ \<or> opcode code = NETF OF_JMP1XZ)
       \<and> (opcode prev = VEC OF_CMPIE \<or> opcode prev = VEC OF_CMPINE \<or> opcode prev = VEC OF_CMPIS \<or> opcode prev = VEC OF_CMPIU)
     then Some (end_fusion (set_slot a ((noop code)\<lparr>bit_idx1 := compare_tag (opcode prev) (opcode code)\<rparr>)
       (set_slot p (prev\<lparr>opcode := FUSED OF_CMPI_JMP\<rparr>) ld))) else None)"

text \<open>The fused load stays available for a consumer; it may join the part select before it.\<close>

definition fuse_load_parti :: "vvp_code_t option \<Rightarrow> vvp_code_t \<Rightarrow> loader \<Rightarrow> loader option" where
  "fuse_load_parti parti_pair_lhs a ld = Option.bind (peep_pair a ld) (\<lambda>(p, prev, code). Option.bind (code_number code) (\<lambda>number.
     if a = code_add p 1 \<and> opcode prev = NETF OF_LOAD_VEC4 \<and> (opcode code = VEC OF_PARTI_S \<or> opcode code = VEC OF_PARTI_U)
       \<and> number < 2 ^ 26 \<and> bit_idx1 code < 64
     then
       let f = prev\<lparr>opcode := FUSED (if opcode code = VEC OF_PARTI_S then OF_LOAD_PARTI_S else OF_LOAD_PARTI_U),
             bit_idx0 := fused_base code, bit_idx1 := ucast number\<rparr>;
           ld = set_slot a (noop code) (set_slot p f ld)
       in case Option.bind parti_pair_lhs (\<lambda>lhs. map_option (\<lambda>c. (lhs, c)) (ld_code ld lhs)) of
            Some (lhs, c) \<Rightarrow>
              if p = code_add lhs 2 \<and> a = code_add lhs 3 \<and> 0 \<le> sint (bit_idx0 f)
              then Some ((set_slot p (noop f) (set_slot lhs (c\<lparr>opcode := FUSED OF_LOAD_PARTI_PAIR\<rparr>) ld))\<lparr>peep_prev_code := Some lhs\<rparr>)
              else Some ld
          | None \<Rightarrow> Some ld
     else None))"

definition note_store :: "vvp_code_t \<Rightarrow> loader \<Rightarrow> loader" where
  "note_store a ld = (case ld_code ld a of None \<Rightarrow> ld | Some code \<Rightarrow>
     if bit_idx0 code = 0 \<and> opcode code = NETF OF_STORE_VEC4 then ld\<lparr>full_width_store_candidates := full_width_store_candidates ld @ [a]\<rparr> else ld)"

text \<open>
  \<^verbatim>\<open>compile_code\<close>: \<^verbatim>\<open>peep_disable\<close> is the environment variable \<^verbatim>\<open>VVP_NO_FUSE\<close>, and \<open>value_size\<close> gives the width of the
  signals that are resolved at the time.
\<close>

definition compile_code :: "bool \<Rightarrow> (nat \<Rightarrow> nat option) \<Rightarrow> vvp_code_s \<Rightarrow> loader \<Rightarrow> loader" where
  "compile_code peep_disable value_size instr ld =
    (let (a, ld) = codespace_allocate instr ld;
         parti_pair_lhs = peep_parti_pair_lhs ld;
         ld = ld\<lparr>peep_parti_pair_lhs := None\<rparr>
     in if peep_disable then note_store a (mark_slot (ld\<lparr>peep_pushi_wide := None, peep_prev_code := Some a\<rparr>))
     else
       let ld = note_pair a ld in
       case fuse_pair_concat value_size a ld of Some ld \<Rightarrow> ld | None \<Rightarrow>
       case fuse_parti_op a ld of Some ld \<Rightarrow> ld | None \<Rightarrow>
       case fuse_parti_replicate a ld of Some ld \<Rightarrow> ld | None \<Rightarrow>
       case fuse_pushi_assign a ld of Some ld \<Rightarrow> ld | None \<Rightarrow>
       case fuse_load_flag a ld of Some ld \<Rightarrow> ld | None \<Rightarrow>
       case fuse_flag_setget a ld of Some ld \<Rightarrow> ld | None \<Rightarrow>
       case fuse_wide a ld of Some ld \<Rightarrow> ld | None \<Rightarrow>
       let ld = ld\<lparr>peep_pushi_wide := None\<rparr> in
       case fuse_cmpi_jmp a ld of Some ld \<Rightarrow> ld | None \<Rightarrow>
       note_store a (mark_slot (case fuse_load_parti parti_pair_lhs a ld of Some ld \<Rightarrow> ld | None \<Rightarrow> ld\<lparr>peep_prev_code := Some a\<rparr>)))"

definition compile_codelabel :: "loader \<Rightarrow> vvp_code_t \<times> loader" where
  "compile_codelabel ld = codespace_next (ld\<lparr>peep_prev_code := None, peep_parti_pair_lhs := None, peep_pushi_wide := None\<rparr>)"

text \<open>A program as the parser hands it over: labels and instructions.\<close>

datatype item = LABEL | INSTR vvp_code_s

fun load_items :: "bool \<Rightarrow> (nat \<Rightarrow> nat option) \<Rightarrow> item list \<Rightarrow> loader \<Rightarrow> vvp_code_t list \<times> loader" where
  "load_items peep_disable value_size [] ld = ([], ld)"
| "load_items peep_disable value_size (LABEL # is) ld =
    (let (a, ld) = compile_codelabel ld; (labels, ld) = load_items peep_disable value_size is ld in (a # labels, ld))"
| "load_items peep_disable value_size (INSTR c # is) ld = load_items peep_disable value_size is (compile_code peep_disable value_size c ld)"

text \<open>The end of loading: stores that cover their signal get the direct handler.\<close>

definition full_width_store :: "(nat \<Rightarrow> nat option) \<Rightarrow> vvp_code_s \<Rightarrow> vvp_code_s" where
  "full_width_store net_size c = (case Option.bind (code_net c) net_size of None \<Rightarrow> c | Some n \<Rightarrow>
     if n = unat (bit_idx1 c) \<and> opcode c = NETF OF_STORE_VEC4 then c\<lparr>opcode := NETF OF_STORE_VEC4_FULL\<rparr> else c)"

definition compile_cleanup_stores :: "(nat \<Rightarrow> nat option) \<Rightarrow> loader \<Rightarrow> loader" where
  "compile_cleanup_stores net_size ld = ld\<lparr>ld_code := fold (\<lambda>a code. code(a := map_option (full_width_store net_size) (code a)))
     (full_width_store_candidates ld) (ld_code ld), full_width_store_candidates := []\<rparr>"

end
