(* ===== verification/Loader_Tiles.thy ===== *)
theory Loader_Tiles
  imports Loader
begin

text \<open>
  The invariant of the loader: with fusion on and off it lays out the same program, and the slots it has filled are tiled by
  groups of instructions and their fusions.
\<close>

section \<open>Tilings\<close>

declare split_paired_All [simp del] split_paired_Ex [simp del]

definition follows :: "codespace \<Rightarrow> codespace \<Rightarrow> vvp_code_t \<Rightarrow> vvp_code_t \<Rightarrow> bool" where
  "follows U F b nx \<longleftrightarrow> b = nx \<or> fst b < fst nx \<and> link U F b nx"

text \<open>The starts of the groups, the last one first.\<close>

fun tiles :: "(nat \<Rightarrow> nat option) \<Rightarrow> codespace \<Rightarrow> codespace \<Rightarrow> vvp_code_t \<Rightarrow> vvp_code_t list \<Rightarrow> bool" where
  "tiles value_size U F nx [] \<longleftrightarrow> True"
| "tiles value_size U F nx (a # as) \<longleftrightarrow> (\<exists>b. slot_group value_size U F a b \<and> follows U F b nx) \<and> tiles value_size U F a as"

definition agree :: "vvp_code_t \<Rightarrow> codespace \<Rightarrow> codespace \<Rightarrow> codespace \<Rightarrow> codespace \<Rightarrow> bool" where
  "agree nx U F U' F' \<longleftrightarrow> (\<forall>x < nx. U' x = U x \<and> F' x = F x)"

lemma code_add_less [simp]: "code_add a i < code_add a j \<longleftrightarrow> i < j" "a < code_add a j \<longleftrightarrow> 0 < j" "code_add a i = code_add a j \<longleftrightarrow> i = j"
  "code_add a i = a \<longleftrightarrow> i = 0" "a = code_add a i \<longleftrightarrow> i = 0"
  by (cases a; auto simp: code_add_def)+

lemma agree_mono: "agree nx U F U' F' \<Longrightarrow> a \<le> nx \<Longrightarrow> agree a U F U' F'"
  unfolding agree_def by (meson less_le_trans)

lemma follows_le: "follows U F b nx \<Longrightarrow> b \<le> nx"
  by (auto simp: follows_def less_eq_prod_def)

lemma lays_agree: "lays M a cs \<Longrightarrow> code_add a (length cs) \<le> nx \<Longrightarrow> (\<And>x. x < nx \<Longrightarrow> M' x = M x) \<Longrightarrow> lays M' a cs"
  unfolding lays_def by (metis code_add_less(1) less_le_trans)

lemma group_less: "slot_group value_size U F a b \<Longrightarrow> a < b"
  using fuses_quiet(1) by (auto simp: slot_group_def code_add_def less_prod_def')

lemma group_agree:
  assumes "slot_group value_size U F a b" and "b \<le> nx" and "agree nx U F U' F'"
  shows "slot_group value_size U' F' a b"
  using assms(1) unfolding slot_group_def
proof (elim disjE exE conjE)
  fix us fs assume g: "fuses value_size us fs" "lays U a us" "lays F a fs" "b = code_add a (length us)"
  have "lays U' a us" by (rule lays_agree [OF g(2)]) (use g(4) assms(2,3) in \<open>auto simp: agree_def\<close>)
  moreover have "lays F' a fs" by (rule lays_agree [OF g(3)]) (use g(4) assms(2,3) fuses_quiet(4) [OF g(1)] in \<open>auto simp: agree_def\<close>)
  ultimately show "(\<exists>us fs. fuses value_size us fs \<and> lays U' a us \<and> lays F' a fs \<and> b = code_add a (length us)) \<or>
    (\<exists>pushi asgn f g q. assign_operands pushi asgn g \<and> opcode f = NETF OF_NOOP \<and> U' a = Some pushi \<and> F' a = Some f
        \<and> link U' F' (code_add a 1) q \<and> fst a < fst q \<and> U' q = Some asgn \<and> F' q = Some g \<and> b = code_add q 1)" using g(1,4) by blast
next
  fix pushi asgn f g q
  assume s: "assign_operands pushi asgn g" "opcode f = NETF OF_NOOP" "U a = Some pushi" "F a = Some f" "link U F (code_add a 1) q" "fst a < fst q"
    "U q = Some asgn" "F q = Some g" "b = code_add q 1"
  have "q < nx" using s(9) assms(2) less_le_trans [of q b nx] by simp
  moreover have "code_add a 1 < q" "a < q" using s(6) by (auto simp: less_prod_def')
  ultimately have "a < nx" "code_add a 1 < nx" "q < nx" by auto
  then have same: "U' a = U a" "F' a = F a" "U' (code_add a 1) = U (code_add a 1)" "F' (code_add a 1) = F (code_add a 1)" "U' q = U q" "F' q = F q"
    using assms(3) by (simp_all add: agree_def)
  then have "link U' F' (code_add a 1) q" using s(5) by (simp add: link_def)
  with s same show "(\<exists>us fs. fuses value_size us fs \<and> lays U' a us \<and> lays F' a fs \<and> b = code_add a (length us)) \<or>
    (\<exists>pushi asgn f g q. assign_operands pushi asgn g \<and> opcode f = NETF OF_NOOP \<and> U' a = Some pushi \<and> F' a = Some f
        \<and> link U' F' (code_add a 1) q \<and> fst a < fst q \<and> U' q = Some asgn \<and> F' q = Some g \<and> b = code_add q 1)" by metis
qed

lemma follows_agree: "follows U F b nx \<Longrightarrow> agree nx U F U' F' \<Longrightarrow> follows U' F' b nx"
  by (auto simp: follows_def agree_def link_def less_prod_def')

lemma tiles_agree: "tiles value_size U F nx as \<Longrightarrow> agree nx U F U' F' \<Longrightarrow> tiles value_size U' F' nx as"
proof (induction as arbitrary: nx)
  case (Cons a as)
  then obtain b where b: "slot_group value_size U F a b" "follows U F b nx" "tiles value_size U F a as" by auto
  have le: "b \<le> nx" "a \<le> nx" using follows_le [OF b(2)] group_less [OF b(1)] by auto
  from group_agree [OF b(1) le(1) Cons.prems(2)] follows_agree [OF b(2) Cons.prems(2)] Cons.IH [OF b(3) agree_mono [OF Cons.prems(2) le(2)]]
  show ?case by auto
qed simp

lemma tiles_fuse:
  assumes "tiles value_size U F p as" and "agree p U F U' F'" and "fuses value_size us fs" and "lays U' p us" and "lays F' p fs"
    and "follows U' F' (code_add p (length us)) nx"
  shows "tiles value_size U' F' nx (p # as)"
proof -
  have "slot_group value_size U' F' p (code_add p (length us))" unfolding slot_group_def using assms(3-5) by blast
  with assms(6) tiles_agree [OF assms(1,2)] show ?thesis by auto
qed

lemma tiles_start: "tiles value_size U F nx as \<Longrightarrow> a \<in> set as \<Longrightarrow> a < nx"
proof (induction as arbitrary: nx)
  case (Cons c as)
  then obtain b where "slot_group value_size U F c b" "follows U F b nx" by auto
  then have "c < nx" using group_less follows_le by (meson less_le_trans)
  with Cons.IH [of c] Cons.prems show ?case by (metis less_trans set_ConsD tiles.simps(2))
qed simp

text \<open>A tiling has what a run needs.\<close>

lemma tiles_lands:
  assumes "tiles value_size U F nx as" and "a \<in> set as"
  shows "\<exists>b. slot_group value_size U F a b \<and> lands U F (set as) nx b"
  using assms
proof (induction as arbitrary: nx)
  case (Cons c as)
  show ?case
  proof (cases "a = c")
    case True
    with Cons.prems obtain b where "slot_group value_size U F a b" "follows U F b nx" by auto
    then show ?thesis by (auto simp: lands_def follows_def)
  next
    case False
    with Cons.IH [of c] Cons.prems obtain b where b: "slot_group value_size U F a b" "lands U F (set as) c b" by auto
    then have "lands U F (set (c # as)) nx b" by (auto simp: lands_def)
    with b(1) show ?thesis by blast
  qed
qed simp

end
