(* ===== verification/Loader_Inv.thy ===== *)
theory Loader_Inv
  imports Loader_Tiles
begin

text \<open>
  The loader keeps its invariant.  With fusion on and off it lays out the same instructions at the same addresses: every
  fusion replaces a group of adjacent instructions by slots that are in the relation \<open>fuses\<close>, and no label points into one.
\<close>

section \<open>The code space\<close>

abbreviation next_slot :: "loader \<Rightarrow> vvp_code_t" where
  "next_slot ld \<equiv> (current_chunk ld, current_within_chunk ld)"

text \<open>What the parser hands over: no fused opcode, no link and no assembled constant.\<close>

definition plain_instr :: "vvp_code_s \<Rightarrow> bool" where
  "plain_instr c \<longleftrightarrow> (\<forall>f. opcode c \<noteq> FUSED f) \<and> opcode c \<noteq> NETF OF_CHUNK_LINK \<and> (\<forall>v. arg c \<noteq> CVEC v)"

definition link_slot :: "vvp_code_t \<Rightarrow> vvp_code_t" where
  "link_slot nx = (fst nx, code_chunk_size - 1)"

text \<open>
  Above the next slot there is only the link of the chunk.  Without fusion (\<open>U\<close>) the code space holds the instructions and
  the links.
\<close>

definition space_ok :: "vvp_code_s set \<Rightarrow> codespace \<Rightarrow> codespace \<Rightarrow> vvp_code_t \<Rightarrow> bool" where
  "space_ok I U F nx \<longleftrightarrow> snd nx < code_chunk_size \<and> (\<forall>x \<ge> nx. x \<noteq> link_slot nx \<longrightarrow> U x = None \<and> F x = None)
    \<and> U (link_slot nx) = Some (chunk_link (NUMBER 0)) \<and> F (link_slot nx) = Some (chunk_link (NUMBER 0))
    \<and> (\<forall>x c. U x = Some c \<longrightarrow> c \<in> I \<and> plain_instr c \<or> (\<exists>p. c = chunk_link p \<and> (p = NUMBER 0 \<or> (\<exists>k. p = CPTR (k, 0)))))
    \<and> code_ok F"

definition tiled_ok :: "(nat \<Rightarrow> nat option) \<Rightarrow> vvp_code_s set \<Rightarrow> codespace \<Rightarrow> codespace \<Rightarrow> vvp_code_t \<Rightarrow> vvp_code_t list \<Rightarrow> bool" where
  "tiled_ok value_size I U F nx as \<longleftrightarrow> space_ok I U F nx \<and> tiles value_size U F nx as"

lemma code_ok_upd: "code_ok M \<Longrightarrow> (\<And>v. arg c = CVEC v \<Longrightarrow> v4_inv v) \<Longrightarrow> code_ok (M(a \<mapsto> c))"
  by (simp add: code_ok_def)

lemma code_ok_same: "code_ok M \<Longrightarrow> M x = Some d \<Longrightarrow> arg c = arg d \<Longrightarrow> code_ok (M(a \<mapsto> c))"
  by (simp add: code_ok_def)

lemma link_target: "space_ok I U F nx \<Longrightarrow> link U F b q \<Longrightarrow> snd q = 0"
  unfolding space_ok_def link_def plain_instr_def chunk_link_def by force

lemma next_less: "snd nx < code_chunk_size - 1 \<Longrightarrow> nx \<noteq> link_slot nx" "snd nx < code_chunk_size - 1 \<Longrightarrow> nx < link_slot nx"
  by (cases nx; simp add: link_slot_def)+

text \<open>A new instruction, in a group of its own or at the end of one that it is fused with.\<close>

lemma add_group:
  assumes ok: "tiled_ok value_size I U F nx as" and room: "snd nx < code_chunk_size - 1" and c: "c \<in> I" "plain_instr c"
    and rest: "tiles value_size U F p rest" "p \<le> nx" and same: "\<And>x. x < p \<or> nx < x \<Longrightarrow> F' x = F x" and F': "code_ok F'"
    and g: "slot_group value_size (U(nx \<mapsto> c)) F' p (code_add nx 1)"
  shows "tiled_ok value_size I (U(nx \<mapsto> c)) F' (code_add nx 1) (p # rest)"
proof -
  have s: "space_ok I U F nx" using ok by (simp add: tiled_ok_def)
  have above: "nx < x" if "code_add nx 1 \<le> x" for x using that by (metis code_add_less(2) less_le_trans zero_less_one)
  have link: "link_slot (code_add nx 1) = link_slot nx" by (simp add: link_slot_def)
  have F: "F' x = F x" "(U(nx \<mapsto> c)) x = U x" if "code_add nx 1 \<le> x" for x using same above [OF that] by auto
  have "link_slot nx \<ge> code_add nx 1" using room by (cases nx) (simp add: link_slot_def code_add_def)
  note at_link = F [OF this]
  have "space_ok I (U(nx \<mapsto> c)) F' (code_add nx 1)"
    unfolding space_ok_def link
  proof (intro conjI)
    show "\<forall>x\<ge>code_add nx 1. x \<noteq> link_slot nx \<longrightarrow> (U(nx \<mapsto> c)) x = None \<and> F' x = None"
      using s F above unfolding space_ok_def by (metis less_imp_le)
    show "\<forall>x d. (U(nx \<mapsto> c)) x = Some d \<longrightarrow> d \<in> I \<and> plain_instr d \<or> (\<exists>p. d = chunk_link p \<and> (p = NUMBER 0 \<or> (\<exists>k. p = CPTR (k, 0))))"
      using s c unfolding space_ok_def by (metis fun_upd_apply option.inject)
  qed (use s room at_link F' in \<open>simp_all add: space_ok_def\<close>)
  moreover have "agree p U F (U(nx \<mapsto> c)) F'" using same rest(2) by (auto simp: agree_def)
  ultimately show ?thesis using tiles_agree [OF rest(1)] g by (auto simp: tiled_ok_def follows_def)
qed

text \<open>The step to the next chunk.\<close>

definition wrap_code :: "codespace \<Rightarrow> vvp_code_t \<Rightarrow> codespace" where
  "wrap_code M nx = (if snd nx = code_chunk_size - 1 then
     M(nx \<mapsto> chunk_link (CPTR (Suc (fst nx), 0)), (Suc (fst nx), code_chunk_size - 1) \<mapsto> chunk_link (NUMBER 0)) else M)"

definition wrap_next :: "vvp_code_t \<Rightarrow> vvp_code_t" where
  "wrap_next nx = (if snd nx = code_chunk_size - 1 then (Suc (fst nx), 0) else nx)"

lemma mark_slot_code [simp]:
  "ld_code (mark_slot ld) = wrap_code (ld_code ld) (next_slot ld)" "next_slot (mark_slot ld) = wrap_next (next_slot ld)"
  "peep_prev_code (mark_slot ld) = peep_prev_code ld" "peep_parti_pair_lhs (mark_slot ld) = peep_parti_pair_lhs ld"
  "peep_pushi_wide (mark_slot ld) = peep_pushi_wide ld" "peep_fuse_slot (mark_slot ld) = Some (wrap_next (next_slot ld))"
  by (simp_all add: mark_slot_def codespace_next_def wrap_code_def wrap_next_def Let_def)

lemma wrap_room: "snd nx < code_chunk_size \<Longrightarrow> snd (wrap_next nx) < code_chunk_size - 1" "nx \<le> wrap_next nx"
  by (auto simp: wrap_next_def code_chunk_size_def less_eq_prod_def)

lemma wrap_agree: "agree nx U F (wrap_code U nx) (wrap_code F nx)"
  by (auto simp: agree_def wrap_code_def less_prod_def')

lemma wrap_follows:
  assumes s: "space_ok I U F nx" and f: "follows U F b nx"
  shows "follows (wrap_code U nx) (wrap_code F nx) b (wrap_next nx)"
proof (cases "snd nx = code_chunk_size - 1")
  case True
  have "\<not> link U F b nx" using link_target [OF s, of b nx] True by (auto simp: code_chunk_size_def)
  then have "b = nx" using f by (simp add: follows_def)
  moreover have "nx \<noteq> (Suc (fst nx), k)" for k by (cases nx) simp
  ultimately show ?thesis using True by (simp add: follows_def wrap_next_def wrap_code_def link_def chunk_link_def)
qed (use f in \<open>simp add: wrap_code_def wrap_next_def\<close>)

lemma wrap_tiled:
  assumes ok: "tiled_ok value_size I U F nx as"
  shows "tiled_ok value_size I (wrap_code U nx) (wrap_code F nx) (wrap_next nx) as"
proof -
  have s: "space_ok I U F nx" and t: "tiles value_size U F nx as" using ok by (simp_all add: tiled_ok_def)
  have "tiles value_size (wrap_code U nx) (wrap_code F nx) (wrap_next nx) as"
  proof (cases as)
    case (Cons a as')
    with tiles_agree [OF t wrap_agree] t wrap_follows [OF s] show ?thesis
      using group_agree [OF _ follows_le wrap_agree] by fastforce
  qed simp
  moreover have "space_ok I (wrap_code U nx) (wrap_code F nx) (wrap_next nx)"
  proof (cases "snd nx = code_chunk_size - 1")
    case True
    have new: "U x = None \<and> F x = None" if "fst nx < fst x" for x
    proof -
      have "nx \<le> x" "x \<noteq> link_slot nx" using that by (auto simp: less_eq_prod_def link_slot_def)
      then show ?thesis using s by (simp add: space_ok_def)
    qed
    have le: "fst nx < fst x" if "(Suc (fst nx), 0) \<le> x" for x using that by (auto simp: less_eq_prod_def)
    have nx: "nx = (fst nx, code_chunk_size - 1)" using True by (metis prod.collapse)
    show ?thesis
      unfolding space_ok_def
    proof (intro conjI)
      show "\<forall>x\<ge>wrap_next nx. x \<noteq> link_slot (wrap_next nx) \<longrightarrow> wrap_code U nx x = None \<and> wrap_code F nx x = None"
        using True new le by (auto simp: wrap_code_def wrap_next_def link_slot_def)
      show "\<forall>x c. wrap_code U nx x = Some c \<longrightarrow> c \<in> I \<and> plain_instr c \<or> (\<exists>p. c = chunk_link p \<and> (p = NUMBER 0 \<or> (\<exists>k. p = CPTR (k, 0))))"
      proof (intro allI impI)
        fix x c assume c: "wrap_code U nx x = Some c"
        have "wrap_code U nx x = (if x = (Suc (fst nx), code_chunk_size - 1) then Some (chunk_link (NUMBER 0))
            else if x = nx then Some (chunk_link (CPTR (Suc (fst nx), 0))) else U x)"
          using True by (simp add: wrap_code_def)
        with c consider "c = chunk_link (CPTR (Suc (fst nx), 0))" | "c = chunk_link (NUMBER 0)" | "U x = Some c"
          by (metis option.inject)
        then show "c \<in> I \<and> plain_instr c \<or> (\<exists>p. c = chunk_link p \<and> (p = NUMBER 0 \<or> (\<exists>k. p = CPTR (k, 0))))"
        proof cases
          case 3 with s show ?thesis unfolding space_ok_def by blast
        qed blast+
      qed
      show "code_ok (wrap_code F nx)" using s True by (auto simp: wrap_code_def space_ok_def chunk_link_def intro!: code_ok_upd)
    qed (use True nx in \<open>simp_all add: wrap_code_def wrap_next_def link_slot_def code_chunk_size_def\<close>)
  qed (use s in \<open>simp add: wrap_code_def wrap_next_def\<close>)
  ultimately show ?thesis by (simp add: tiled_ok_def)
qed

section \<open>The peephole state\<close>

text \<open>The last group, and what is known of it.\<close>

definition head_at :: "codespace \<Rightarrow> codespace \<Rightarrow> vvp_code_t \<Rightarrow> vvp_code_t \<Rightarrow> vvp_code_s list \<Rightarrow> vvp_code_s list \<Rightarrow> bool" where
  "head_at U F nx p us fs \<longleftrightarrow> lays U p us \<and> lays F p fs \<and> length fs = length us \<and> follows U F (code_add p (length us)) nx"

definition single_group :: "vvp_code_s list \<Rightarrow> vvp_code_s list \<Rightarrow> bool" where
  "single_group us fs \<longleftrightarrow> (\<exists>c. us = [c] \<and> fs = [c] \<and> plain_instr c)"

definition part_group :: "vvp_code_s list \<Rightarrow> vvp_code_s list \<Rightarrow> bool" where
  "part_group us fs \<longleftrightarrow> (\<exists>load parti f d. us = [load, parti] \<and> fs = [f, d] \<and> part_operands load parti f \<and> is_load_parti f \<and> opcode d = NETF OF_NOOP)"

definition pair_group :: "vvp_code_s list \<Rightarrow> vvp_code_s list \<Rightarrow> bool" where
  "pair_group us fs \<longleftrightarrow> (\<exists>l1 p1 l2 p2 f1 d1 f2 d2. us = [l1, p1, l2, p2] \<and> fs = [f1, d1, f2, d2] \<and> part_operands l1 p1 f1 \<and> part_operands l2 p2 f2
     \<and> 0 \<le> sint (bit_idx0 f1) \<and> 0 \<le> sint (bit_idx0 f2) \<and> opcode f1 = FUSED OF_LOAD_PARTI_PAIR)"

definition wide_group :: "vvp_code_s list \<Rightarrow> vvp_code_s list \<Rightarrow> bool" where
  "wide_group us fs \<longleftrightarrow> (\<exists>c cs f ds v. us = c # cs \<and> fs = f # ds \<and> cs \<noteq> [] \<and> length ds = length cs
     \<and> (opcode c, opcode f) \<in> {(VEC OF_PUSHI_VEC4, FUSED OF_PUSHI_WIDE), (VEC OF_CONCATI_VEC4, FUSED OF_CONCATI_WIDE)}
     \<and> (\<forall>c' \<in> set cs. opcode c' = VEC OF_CONCATI_VEC4) \<and> arg f = CVEC v \<and> v4_inv v \<and> wide_constant (c # cs) = Some (v4_list v)
     \<and> unat (bit_idx0 f) = length cs)"

definition open_group :: "vvp_code_s list \<Rightarrow> vvp_code_s list \<Rightarrow> bool" where
  "open_group us fs \<longleftrightarrow> single_group us fs \<or> part_group us fs \<or> pair_group us fs"

definition at_head :: "(vvp_code_s list \<Rightarrow> vvp_code_s list \<Rightarrow> bool) \<Rightarrow> codespace \<Rightarrow> codespace \<Rightarrow> vvp_code_t \<Rightarrow> vvp_code_t list \<Rightarrow> vvp_code_t \<Rightarrow> bool" where
  "at_head P U F nx as p \<longleftrightarrow> (\<exists>rest us fs. as = p # rest \<and> P us fs \<and> head_at U F nx p us fs)"

text \<open>A load after a part select that it may join.\<close>

definition pair_ok :: "codespace \<Rightarrow> codespace \<Rightarrow> vvp_code_t \<Rightarrow> vvp_code_t list \<Rightarrow> vvp_code_t \<Rightarrow> bool" where
  "pair_ok U F nx as q \<longleftrightarrow> (\<exists>rest load parti f d c. as = code_add q 2 # q # rest
     \<and> head_at U F nx q [load, parti, c] [f, d, c] \<and> part_operands load parti f \<and> is_load_parti f \<and> 0 \<le> sint (bit_idx0 f))"

definition peep_ok :: "codespace \<Rightarrow> loader \<Rightarrow> vvp_code_t list \<Rightarrow> bool" where
  "peep_ok U ld as \<longleftrightarrow> (\<forall>p. peep_prev_code ld = Some p \<longrightarrow> peep_pushi_wide ld = None \<and> at_head open_group U (ld_code ld) (next_slot ld) as p)
    \<and> (\<forall>w. peep_pushi_wide ld = Some w \<longrightarrow> at_head wide_group U (ld_code ld) (next_slot ld) as w)
    \<and> (\<forall>q. peep_parti_pair_lhs ld = Some q \<longrightarrow> pair_ok U (ld_code ld) (next_slot ld) as q)"

text \<open>The labels so far are starts of groups or at the next slot, which then is not fused with what is before it.\<close>

definition labels_ok :: "vvp_code_t set \<Rightarrow> loader \<Rightarrow> vvp_code_t list \<Rightarrow> bool" where
  "labels_ok L ld as \<longleftrightarrow> L \<subseteq> insert (next_slot ld) (set as) \<and> (peep_prev_code ld \<noteq> None \<or> peep_pushi_wide ld \<noteq> None \<longrightarrow> L \<subseteq> set as)
    \<and> (\<forall>q. peep_parti_pair_lhs ld = Some q \<longrightarrow> code_add q 2 \<notin> L)"

definition load_ok :: "(nat \<Rightarrow> nat option) \<Rightarrow> vvp_code_s set \<Rightarrow> vvp_code_t set \<Rightarrow> codespace \<Rightarrow> loader \<Rightarrow> vvp_code_t list \<Rightarrow> bool" where
  "load_ok value_size I L U ld as \<longleftrightarrow> tiled_ok value_size I U (ld_code ld) (next_slot ld) as \<and> peep_ok U ld as \<and> labels_ok L ld as"

lemma head_wrap:
  assumes s: "space_ok I U F nx" and h: "head_at U F nx p us fs"
  shows "head_at (wrap_code U nx) (wrap_code F nx) (wrap_next nx) p us fs"
proof -
  have l: "lays U p us" "lays F p fs" "length fs = length us" and f: "follows U F (code_add p (length us)) nx" using h by (simp_all add: head_at_def)
  have "lays (wrap_code U nx) p us" by (rule lays_agree [OF l(1) follows_le [OF f]]) (use wrap_agree [of nx U F] in \<open>simp add: agree_def\<close>)
  moreover have "lays (wrap_code F nx) p fs"
    by (rule lays_agree [OF l(2), of nx]) (use follows_le [OF f] l(3) wrap_agree [of nx U F] in \<open>simp_all add: agree_def\<close>)
  ultimately show ?thesis using l(3) wrap_follows [OF s f] by (simp add: head_at_def)
qed

lemma mark_ok:
  assumes ok: "load_ok value_size I L U ld as" and L: "L \<subseteq> set as"
  shows "load_ok value_size I L (wrap_code U (next_slot ld)) (mark_slot ld) as" and "current_within_chunk (mark_slot ld) < code_chunk_size - 1"
proof -
  let ?nx = "next_slot ld"
  have t: "tiled_ok value_size I U (ld_code ld) ?nx as" and s: "space_ok I U (ld_code ld) ?nx" using ok by (simp_all add: load_ok_def tiled_ok_def)
  note wrap = head_wrap [OF s]
  have "peep_ok (wrap_code U ?nx) (mark_slot ld) as"
    using ok wrap unfolding load_ok_def peep_ok_def at_head_def pair_ok_def mark_slot_code by metis
  moreover have "labels_ok L (mark_slot ld) as" using ok L by (auto simp: load_ok_def labels_ok_def)
  ultimately show "load_ok value_size I L (wrap_code U ?nx) (mark_slot ld) as"
    unfolding load_ok_def mark_slot_code using wrap_tiled [OF t] by blast
  show "current_within_chunk (mark_slot ld) < code_chunk_size - 1"
    using wrap_room(1) [of ?nx] s mark_slot_code(2) [of ld] by (metis snd_conv space_ok_def)
qed

section \<open>One instruction\<close>

text \<open>The loader after the slot of an instruction is filled; there is room in the chunk.\<close>

definition placed :: "vvp_code_s \<Rightarrow> loader \<Rightarrow> loader" where
  "placed c ld = ld\<lparr>current_within_chunk := Suc (current_within_chunk ld), ld_code := (ld_code ld)(next_slot ld \<mapsto> c), peep_parti_pair_lhs := None\<rparr>"

lemma placed_simps [simp]:
  "ld_code (placed c ld) = (ld_code ld)(next_slot ld \<mapsto> c)" "next_slot (placed c ld) = code_add (next_slot ld) 1"
  "peep_prev_code (placed c ld) = peep_prev_code ld" "peep_parti_pair_lhs (placed c ld) = None"
  "peep_pushi_wide (placed c ld) = peep_pushi_wide ld" "peep_fuse_slot (placed c ld) = peep_fuse_slot ld"
  by (simp_all add: placed_def code_add_def)

lemma grown:
  assumes ok: "load_ok value_size I L U ld as" and room: "current_within_chunk ld < code_chunk_size - 1" and c: "c \<in> I" "plain_instr c"
    and rest: "tiles value_size U (ld_code ld) p rest" "p \<le> next_slot ld" and L: "L \<subseteq> set (p # rest)"
    and same: "\<And>x. x < p \<or> next_slot ld < x \<Longrightarrow> ld_code ld' x = ld_code ld x" and F': "code_ok (ld_code ld')"
    and g: "slot_group value_size (U(next_slot ld \<mapsto> c)) (ld_code ld') p (code_add (next_slot ld) 1)"
    and nx: "next_slot ld' = code_add (next_slot ld) 1"
    and peep: "peep_ok (U(next_slot ld \<mapsto> c)) ld' (p # rest)" and pair: "\<And>q. peep_parti_pair_lhs ld' = Some q \<Longrightarrow> code_add q 2 \<notin> L"
  shows "load_ok value_size I L (U(next_slot ld \<mapsto> c)) ld' (p # rest)"
proof -
  have "tiled_ok value_size I U (ld_code ld) (next_slot ld) as" using ok by (simp add: load_ok_def)
  from add_group [OF this _ c rest same F' g] room have "tiled_ok value_size I (U(next_slot ld \<mapsto> c)) (ld_code ld') (next_slot ld') (p # rest)"
    unfolding nx by simp
  then show ?thesis using peep L pair by (auto simp: load_ok_def labels_ok_def)
qed

definition steps_to :: "(nat \<Rightarrow> nat option) \<Rightarrow> vvp_code_s set \<Rightarrow> vvp_code_t set \<Rightarrow> codespace \<Rightarrow> vvp_code_t \<Rightarrow> loader \<Rightarrow> bool" where
  "steps_to value_size I L U nx ld' \<longleftrightarrow> (\<exists>ld as. ld' = mark_slot ld \<and> load_ok value_size I L U ld as \<and> L \<subseteq> set as \<and> next_slot ld = nx)"

lemma set_slot_simps [simp]:
  "ld_code (set_slot a c ld) = (ld_code ld)(a \<mapsto> c)" "current_chunk (set_slot a c ld) = current_chunk ld"
  "current_within_chunk (set_slot a c ld) = current_within_chunk ld" "peep_prev_code (set_slot a c ld) = peep_prev_code ld"
  "peep_parti_pair_lhs (set_slot a c ld) = peep_parti_pair_lhs ld" "peep_pushi_wide (set_slot a c ld) = peep_pushi_wide ld"
  "peep_fuse_slot (set_slot a c ld) = peep_fuse_slot ld"
  by (simp_all add: set_slot_def)

lemma fused_end:
  assumes ok: "load_ok value_size I L U ld (p # rest)" and room: "current_within_chunk ld < code_chunk_size - 1" and c: "c \<in> I" "plain_instr c"
    and L: "L \<subseteq> set (p # rest)" and same: "\<And>x. x < p \<or> next_slot ld < x \<Longrightarrow> ld_code ld' x = ld_code ld x" and F': "code_ok (ld_code ld')"
    and g: "slot_group value_size (U(next_slot ld \<mapsto> c)) (ld_code ld') p (code_add (next_slot ld) 1)"
    and nx: "next_slot ld' = code_add (next_slot ld) 1" and peep: "peep_parti_pair_lhs ld' = None" "peep_pushi_wide ld' = None"
  shows "steps_to value_size I L (U(next_slot ld \<mapsto> c)) (code_add (next_slot ld) 1) (end_fusion ld')"
proof -
  have t: "tiles value_size U (ld_code ld) (next_slot ld) (p # rest)" using ok by (simp add: load_ok_def tiled_ok_def)
  have le: "p \<le> next_slot ld" using tiles_start [OF t, of p] by simp
  have "load_ok value_size I L (U(next_slot ld \<mapsto> c)) (ld'\<lparr>peep_prev_code := None\<rparr>) (p # rest)"
    by (rule grown [OF ok room c _ le L]) (use t same F' g nx peep in \<open>simp_all add: peep_ok_def\<close>)
  then show ?thesis using L nx unfolding steps_to_def end_fusion_def
    by (intro exI [of _ "ld'\<lparr>peep_prev_code := None\<rparr>"] exI [of _ "p # rest"]) simp
qed

lemma peep_head:
  assumes ok: "load_ok value_size I L U ld as" and p: "peep_pair (next_slot ld) (placed c ld) = Some (p, prev, code)"
  obtains rest us fs where "as = p # rest" and "open_group us (prev # fs)" and "head_at U (ld_code ld) (next_slot ld) p us (prev # fs)"
    and "code = c" and "L \<subseteq> set as" and "peep_pushi_wide ld = None" and "p < next_slot ld" and "ld_code ld p = Some prev"
proof -
  have prev: "peep_prev_code ld = Some p" "code = c" "((ld_code ld)(next_slot ld \<mapsto> c)) p = Some prev"
    using p by (auto simp: peep_pair_def split: bind_splits if_splits)
  obtain rest us fs where h: "as = p # rest" "open_group us fs" "head_at U (ld_code ld) (next_slot ld) p us fs" "peep_pushi_wide ld = None"
    using ok prev(1) unfolding load_ok_def peep_ok_def at_head_def by blast
  have less: "p < next_slot ld" using ok h(1) tiles_start [of value_size U "ld_code ld" "next_slot ld" as p] by (simp add: load_ok_def tiled_ok_def)
  obtain f fs' where fs: "fs = f # fs'" using h(2) by (auto simp: open_group_def single_group_def part_group_def pair_group_def)
  then have "ld_code ld p = Some f" using h(3) by (simp add: head_at_def lays_Cons)
  then have "prev = f" "ld_code ld p = Some prev" using prev(3) less by (auto split: if_splits)
  moreover have "L \<subseteq> set as" using ok prev(1) by (simp add: load_ok_def labels_ok_def)
  ultimately show thesis using that h fs prev(2) less by blast
qed

lemma group_shape:
  assumes "open_group us (prev # fs)"
  shows "(\<And>f. opcode prev \<noteq> FUSED f) \<Longrightarrow> us = [prev] \<and> fs = [] \<and> plain_instr prev"
    and "is_load_parti prev \<Longrightarrow> \<exists>load parti d. us = [load, parti] \<and> fs = [d] \<and> part_operands load parti prev \<and> opcode d = NETF OF_NOOP"
    and "opcode prev = FUSED OF_LOAD_PARTI_PAIR \<Longrightarrow> \<exists>l1 p1 l2 p2 d1 f2 d2. us = [l1, p1, l2, p2] \<and> fs = [d1, f2, d2]
      \<and> part_operands l1 p1 prev \<and> part_operands l2 p2 f2 \<and> 0 \<le> sint (bit_idx0 prev) \<and> 0 \<le> sint (bit_idx0 f2)"
  using assms by (auto simp: open_group_def single_group_def part_group_def pair_group_def is_load_parti_def plain_instr_def)

lemma noop_simps [simp]: "opcode (noop c) = NETF OF_NOOP" "arg (noop c) = arg c" "bit_idx0 (noop c) = bit_idx0 c" "bit_idx1 (noop c) = bit_idx1 c"
  by (simp_all add: noop_def)

lemma groupI: "fuses value_size us fs \<Longrightarrow> lays U p us \<Longrightarrow> lays F p fs \<Longrightarrow> b = code_add p (length us) \<Longrightarrow> slot_group value_size U F p b"
  unfolding slot_group_def by blast

lemma part_operands_opcode [simp]: "part_operands l p (f\<lparr>opcode := x\<rparr>) = part_operands l p f" "part_operands l p (noop f) = part_operands l p f"
  by (simp_all add: part_operands_def)

text \<open>A fusion of the last group with the new instruction.\<close>

lemma peep_fuse:
  assumes ok: "load_ok value_size I L U ld as" and room: "current_within_chunk ld < code_chunk_size - 1" and c: "c \<in> I" "plain_instr c"
    and p: "peep_pair (next_slot ld) (placed c ld) = Some (p, prev, code)"
    and shape: "\<And>us fs. code = c \<Longrightarrow> p < next_slot ld \<Longrightarrow> open_group us (prev # fs) \<Longrightarrow> head_at U (ld_code ld) (next_slot ld) p us (prev # fs) \<Longrightarrow>
      slot_group value_size (U(next_slot ld \<mapsto> c)) (ld_code ld') p (code_add (next_slot ld) 1)"
    and same: "\<And>x. p < next_slot ld \<Longrightarrow> x < p \<or> next_slot ld < x \<Longrightarrow> ld_code ld' x = ld_code ld x"
    and F': "\<And>v. code = c \<Longrightarrow> ld_code ld p = Some prev \<Longrightarrow> code_ok (ld_code ld) \<Longrightarrow> code_ok (ld_code ld')"
    and ld': "next_slot ld' = code_add (next_slot ld) 1" "peep_parti_pair_lhs ld' = None" "peep_pushi_wide ld' = peep_pushi_wide ld"
  shows "steps_to value_size I L (U(next_slot ld \<mapsto> c)) (code_add (next_slot ld) 1) (end_fusion ld')"
proof -
  obtain rest us fs where h: "as = p # rest" "open_group us (prev # fs)" "head_at U (ld_code ld) (next_slot ld) p us (prev # fs)" "code = c" "L \<subseteq> set as"
    "peep_pushi_wide ld = None" "p < next_slot ld" "ld_code ld p = Some prev" by (rule peep_head [OF ok p])
  have "code_ok (ld_code ld)" using ok by (simp add: load_ok_def tiled_ok_def space_ok_def)
  then show ?thesis
    using fused_end [of value_size I L U ld p rest c ld'] ok room c same F' shape h ld' by metis
qed

text \<open>The slots of a fusion that keep their operands.\<close>

lemma code_ok_fused:
  "code_ok M \<Longrightarrow> M p = Some prev \<Longrightarrow> plain_instr c \<Longrightarrow> arg f = arg prev \<Longrightarrow> arg g = arg c \<Longrightarrow> code_ok (M(p \<mapsto> f, nx \<mapsto> g))"
  by (auto simp: plain_instr_def code_ok_def)

lemma peep_pair_wide [simp]: "peep_pair a (ld\<lparr>peep_pushi_wide := w\<rparr>) = peep_pair a ld"
  by (simp add: peep_pair_def)

lemma fuse_parti_op_ok:
  assumes ok: "load_ok value_size I L U ld as" and room: "current_within_chunk ld < code_chunk_size - 1" and c: "c \<in> I" "plain_instr c"
    and fuse: "fuse_parti_op (next_slot ld) (placed c ld) = Some ld'"
  shows "steps_to value_size I L (U(next_slot ld \<mapsto> c)) (code_add (next_slot ld) 1) ld'"
proof -
  let ?nx = "next_slot ld"
  obtain p prev code f where p: "peep_pair ?nx (placed c ld) = Some (p, prev, code)" and a: "?nx = code_add p 2" "is_load_parti prev" "0 \<le> sint (bit_idx0 prev)"
    and f: "(opcode code, FUSED f) \<in> {(STACK OF_CONCAT_VEC4, FUSED OF_LOAD_PARTI_CONCAT), (STACK OF_ADD, FUSED OF_LOAD_PARTI_ADD), (STACK OF_XOR, FUSED OF_LOAD_PARTI_XOR)}"
    and ld': "ld' = end_fusion (set_slot ?nx (noop code) (set_slot p (prev\<lparr>opcode := FUSED f\<rparr>) (placed c ld)))"
    using fuse by (auto simp: fuse_parti_op_def split: bind_splits if_splits)
  show ?thesis unfolding ld'
  proof (rule peep_fuse [OF ok room c p])
    fix us fs assume "code = c" and g: "open_group us (prev # fs)" and h: "head_at U (ld_code ld) ?nx p us (prev # fs)"
    obtain load parti d where g: "us = [load, parti]" "fs = [d]" "part_operands load parti prev" using group_shape(2) [OF g a(2)] by blast
    have "fuses value_size [load, parti, c] [prev\<lparr>opcode := FUSED f\<rparr>, d, noop c]" by (rule fuses.parti_op) (use g a f \<open>code = c\<close> in auto)
    then show "slot_group value_size (U(?nx \<mapsto> c)) (ld_code (set_slot ?nx (noop code) (set_slot p (prev\<lparr>opcode := FUSED f\<rparr>) (placed c ld)))) p (code_add ?nx 1)"
      by (rule groupI) (use h g a(1) \<open>code = c\<close> in \<open>simp_all add: head_at_def lays_Cons\<close>)
  qed (use c in \<open>auto simp: code_add_def intro: code_ok_fused\<close>)
qed

lemma fuse_parti_replicate_ok:
  assumes ok: "load_ok value_size I L U ld as" and room: "current_within_chunk ld < code_chunk_size - 1" and c: "c \<in> I" "plain_instr c"
    and fuse: "fuse_parti_replicate (next_slot ld) (placed c ld) = Some ld'"
  shows "steps_to value_size I L (U(next_slot ld \<mapsto> c)) (code_add (next_slot ld) 1) ld'"
proof -
  let ?nx = "next_slot ld"
  obtain p prev code where p: "peep_pair ?nx (placed c ld) = Some (p, prev, code)" and a: "?nx = code_add p 2" "is_load_parti prev" "0 \<le> sint (bit_idx0 prev)"
    and f: "bit_idx1 prev = 1" "opcode code = VEC OF_REPLICATE"
    and ld': "ld' = end_fusion (set_slot ?nx (code\<lparr>opcode := FUSED OF_LOAD_PARTI_REPLICATE\<rparr>) (set_slot p (noop prev) (placed c ld)))"
    using fuse by (auto simp: fuse_parti_replicate_def split: bind_splits if_splits)
  show ?thesis unfolding ld'
  proof (rule peep_fuse [OF ok room c p])
    fix us fs assume "code = c" and g: "open_group us (prev # fs)" and h: "head_at U (ld_code ld) ?nx p us (prev # fs)"
    obtain load parti d where g: "us = [load, parti]" "fs = [d]" "part_operands load parti prev" "opcode d = NETF OF_NOOP"
      using group_shape(2) [OF g a(2)] by blast
    have "fuses value_size [load, parti, c] [noop prev, d, c\<lparr>opcode := FUSED OF_LOAD_PARTI_REPLICATE\<rparr>]"
      by (rule fuses.parti_replicate) (use g a f \<open>code = c\<close> in simp_all)
    then show "slot_group value_size (U(?nx \<mapsto> c)) (ld_code (set_slot ?nx (code\<lparr>opcode := FUSED OF_LOAD_PARTI_REPLICATE\<rparr>)
        (set_slot p (noop prev) (placed c ld)))) p (code_add ?nx 1)"
      by (rule groupI) (use h g a(1) \<open>code = c\<close> in \<open>simp_all add: head_at_def lays_Cons\<close>)
  qed (use c in \<open>auto simp: code_add_def intro: code_ok_fused\<close>)
qed

lemma fuse_load_flag_ok:
  assumes ok: "load_ok value_size I L U ld as" and room: "current_within_chunk ld < code_chunk_size - 1" and c: "c \<in> I" "plain_instr c"
    and fuse: "fuse_load_flag (next_slot ld) (placed c ld) = Some ld'"
  shows "steps_to value_size I L (U(next_slot ld \<mapsto> c)) (code_add (next_slot ld) 1) ld'"
proof -
  let ?nx = "next_slot ld"
  obtain p prev code n where p: "peep_pair ?nx (placed c ld) = Some (p, prev, code)" and a: "?nx = code_add p 1" "opcode prev = NETF OF_LOAD_VEC4"
    and f: "opcode code = REG OF_FLAG_SET_VEC4" "code_number code = Some n"
    and ld': "ld' = end_fusion (set_slot ?nx (noop code) (set_slot p (prev\<lparr>opcode := FUSED OF_LOAD_FLAG, bit_idx0 := ucast n\<rparr>) (placed c ld)))"
    using fuse by (auto simp: fuse_load_flag_def split: bind_splits if_splits)
  show ?thesis unfolding ld'
  proof (rule peep_fuse [OF ok room c p])
    fix us fs assume "code = c" and g: "open_group us (prev # fs)" and h: "head_at U (ld_code ld) ?nx p us (prev # fs)"
    have g: "us = [prev]" "fs = []" using group_shape(1) [OF g] a(2) by simp_all
    have "fuses value_size [prev, c] [prev\<lparr>opcode := FUSED OF_LOAD_FLAG, bit_idx0 := ucast n\<rparr>, noop c]"
      by (rule fuses.load_flag) (use a f \<open>code = c\<close> in simp_all)
    then show "slot_group value_size (U(?nx \<mapsto> c)) (ld_code (set_slot ?nx (noop code)
        (set_slot p (prev\<lparr>opcode := FUSED OF_LOAD_FLAG, bit_idx0 := ucast n\<rparr>) (placed c ld)))) p (code_add ?nx 1)"
      by (rule groupI) (use h g a(1) \<open>code = c\<close> in \<open>simp_all add: head_at_def lays_Cons\<close>)
  qed (use c in \<open>auto simp: code_add_def intro: code_ok_fused\<close>)
qed

lemma fuse_flag_setget_ok:
  assumes ok: "load_ok value_size I L U ld as" and room: "current_within_chunk ld < code_chunk_size - 1" and c: "c \<in> I" "plain_instr c"
    and fuse: "fuse_flag_setget (next_slot ld) (placed c ld) = Some ld'"
  shows "steps_to value_size I L (U(next_slot ld \<mapsto> c)) (code_add (next_slot ld) 1) ld'"
proof -
  let ?nx = "next_slot ld"
  obtain p prev code where p: "peep_pair ?nx (placed c ld) = Some (p, prev, code)" and a: "?nx = code_add p 1" "opcode prev = REG OF_FLAG_SET_VEC4"
    and f: "opcode code = REG OF_FLAG_GET_VEC4" "code_number prev = code_number code"
    and ld': "ld' = end_fusion (set_slot ?nx (noop code) (set_slot p (prev\<lparr>opcode := FUSED OF_FLAG_SETGET_VEC4\<rparr>) (placed c ld)))"
    using fuse by (auto simp: fuse_flag_setget_def split: bind_splits if_splits)
  show ?thesis unfolding ld'
  proof (rule peep_fuse [OF ok room c p])
    fix us fs assume "code = c" and g: "open_group us (prev # fs)" and h: "head_at U (ld_code ld) ?nx p us (prev # fs)"
    have g: "us = [prev]" "fs = []" using group_shape(1) [OF g] a(2) by simp_all
    have "fuses value_size [prev, c] [prev\<lparr>opcode := FUSED OF_FLAG_SETGET_VEC4\<rparr>, noop c]"
      by (rule fuses.flag_setget) (use a f \<open>code = c\<close> in simp_all)
    then show "slot_group value_size (U(?nx \<mapsto> c)) (ld_code (set_slot ?nx (noop code)
        (set_slot p (prev\<lparr>opcode := FUSED OF_FLAG_SETGET_VEC4\<rparr>) (placed c ld)))) p (code_add ?nx 1)"
      by (rule groupI) (use h g a(1) \<open>code = c\<close> in \<open>simp_all add: head_at_def lays_Cons\<close>)
  qed (use c in \<open>auto simp: code_add_def intro: code_ok_fused\<close>)
qed

lemma fuse_cmpi_jmp_ok:
  assumes ok: "load_ok value_size I L U ld as" and room: "current_within_chunk ld < code_chunk_size - 1" and c: "c \<in> I" "plain_instr c"
    and fuse: "fuse_cmpi_jmp (next_slot ld) ((placed c ld)\<lparr>peep_pushi_wide := None\<rparr>) = Some ld'"
  shows "steps_to value_size I L (U(next_slot ld \<mapsto> c)) (code_add (next_slot ld) 1) ld'"
proof -
  let ?nx = "next_slot ld"
  obtain p prev code where p: "peep_pair ?nx (placed c ld) = Some (p, prev, code)" and a: "?nx = code_add p 1"
    and f: "opcode prev \<in> {VEC OF_CMPIE, VEC OF_CMPINE, VEC OF_CMPIS, VEC OF_CMPIU}" "opcode code \<in> {NETF OF_JMP0XZ, NETF OF_JMP1XZ}"
    and ld': "ld' = end_fusion (set_slot ?nx ((noop code)\<lparr>bit_idx1 := compare_tag (opcode prev) (opcode code)\<rparr>)
      (set_slot p (prev\<lparr>opcode := FUSED OF_CMPI_JMP\<rparr>) ((placed c ld)\<lparr>peep_pushi_wide := None\<rparr>)))"
    using fuse by (auto simp: fuse_cmpi_jmp_def split: bind_splits if_splits)
  have none: "peep_pushi_wide ld = None" by (rule peep_head [OF ok p])
  show ?thesis unfolding ld'
  proof (rule peep_fuse [OF ok room c p])
    fix us fs assume "code = c" and g: "open_group us (prev # fs)" and h: "head_at U (ld_code ld) ?nx p us (prev # fs)"
    have g: "us = [prev]" "fs = []" using group_shape(1) [OF g] f(1) by auto
    have "fuses value_size [prev, c] [prev\<lparr>opcode := FUSED OF_CMPI_JMP\<rparr>, (noop c)\<lparr>bit_idx1 := compare_tag (opcode prev) (opcode c)\<rparr>]"
      by (rule fuses.cmpi_jmp) (use f \<open>code = c\<close> in simp_all)
    then show "slot_group value_size (U(?nx \<mapsto> c)) (ld_code (set_slot ?nx ((noop code)\<lparr>bit_idx1 := compare_tag (opcode prev) (opcode code)\<rparr>)
      (set_slot p (prev\<lparr>opcode := FUSED OF_CMPI_JMP\<rparr>) ((placed c ld)\<lparr>peep_pushi_wide := None\<rparr>)))) p (code_add ?nx 1)"
      by (rule groupI) (use h g a \<open>code = c\<close> in \<open>simp_all add: head_at_def lays_Cons\<close>)
  qed (use c none in \<open>auto simp: code_add_def intro: code_ok_fused\<close>)
qed

lemma one_word_opcode [simp]: "one_word n (f\<lparr>opcode := x\<rparr>) g = one_word n f g"
  by (cases n) (simp_all add: one_word_def code_signal_def)

lemma code_add_ge [simp]: "\<not> code_add a i < a"
  by (auto simp: code_add_def less_prod_def')

lemma fuse_pair_concat_ok:
  assumes ok: "load_ok value_size I L U ld as" and room: "current_within_chunk ld < code_chunk_size - 1" and c: "c \<in> I" "plain_instr c"
    and fuse: "fuse_pair_concat value_size (next_slot ld) (placed c ld) = Some ld'"
  shows "steps_to value_size I L (U(next_slot ld \<mapsto> c)) (code_add (next_slot ld) 1) ld'"
proof -
  let ?nx = "next_slot ld"
  define direct where "direct prev rhs = one_word (Option.bind (code_signal prev) value_size) prev rhs" for prev rhs
  define slots where "slots p prev dead rhs code = set_slot ?nx (noop code) (set_slot (code_add p 1) (dead\<lparr>arg := NUMBER (of_bool (direct prev rhs))\<rparr>)
    (set_slot p (prev\<lparr>opcode := FUSED OF_LOAD_PARTI_PAIR_CONCAT\<rparr>) (placed c ld)))" for p prev dead rhs code
  obtain p prev code dead rhs where p: "peep_pair ?nx (placed c ld) = Some (p, prev, code)" and a: "?nx = code_add p 4" "opcode prev = FUSED OF_LOAD_PARTI_PAIR"
    and f: "opcode code = STACK OF_CONCAT_VEC4" "ld_code (placed c ld) (code_add p 1) = Some dead" "ld_code (placed c ld) (code_add p 2) = Some rhs"
    and ld': "ld' = end_fusion (slots p prev dead rhs code)"
    using fuse by (auto simp: fuse_pair_concat_def slots_def direct_def Let_def split: bind_splits if_splits)
  show ?thesis unfolding ld'
  proof (rule peep_fuse [OF ok room c p])
    fix us fs assume "code = c" and g: "open_group us (prev # fs)" and h: "head_at U (ld_code ld) ?nx p us (prev # fs)"
    obtain l1 p1 l2 p2 d2 where g: "us = [l1, p1, l2, p2]" "fs = [dead, rhs, d2]"
      "part_operands l1 p1 prev" "part_operands l2 p2 rhs" "0 \<le> sint (bit_idx0 prev)" "0 \<le> sint (bit_idx0 rhs)"
      using group_shape(3) [OF g a(2)] h f(2,3) a(1) by (fastforce simp: head_at_def lays_Cons)
    have "fuses value_size [l1, p1, l2, p2, c] [prev\<lparr>opcode := FUSED OF_LOAD_PARTI_PAIR_CONCAT\<rparr>, dead\<lparr>arg := NUMBER (of_bool (direct prev rhs))\<rparr>, rhs, d2, noop c]"
      by (rule fuses.pair_concat [where direct = "of_bool (direct prev rhs)"])
        (use g f \<open>code = c\<close> in \<open>simp_all add: code_number_def code_signal_def direct_def\<close>)
    then show "slot_group value_size (U(?nx \<mapsto> c)) (ld_code (slots p prev dead rhs code)) p (code_add ?nx 1)"
      by (rule groupI) (use h g a(1) \<open>code = c\<close> in \<open>simp_all add: head_at_def lays_Cons slots_def\<close>)
  next
    show "ld_code (slots p prev dead rhs code) x = ld_code ld x" if "p < ?nx" "x < p \<or> ?nx < x" for x
    proof -
      have "x \<noteq> p" "x \<noteq> ?nx" "x \<noteq> code_add p 1" using that a(1) by auto
      then show ?thesis by (simp add: slots_def)
    qed
    show "code_ok (ld_code ld) \<Longrightarrow> ld_code ld p = Some prev \<Longrightarrow> code = c \<Longrightarrow> code_ok (ld_code (slots p prev dead rhs code))"
      using c by (auto simp: plain_instr_def code_ok_def slots_def)
  qed (simp_all add: slots_def code_add_def)
qed

lemma assign_group:
  assumes "assign_operands pushi asgn g" and "opcode f = NETF OF_NOOP" and "U p = Some pushi" and "F p = Some f" and "U nx = Some asgn" and "F nx = Some g"
    and "follows U F (code_add p 1) nx"
  shows "slot_group value_size U F p (code_add nx 1)"
proof (cases "code_add p 1 = nx")
  case True
  from fuses.assign [OF assms(1,2)] show ?thesis by (rule groupI) (use assms True in \<open>auto simp: lays_Cons\<close>)
next
  case False
  then have "link U F (code_add p 1) nx" "fst p < fst nx" using assms(7) by (auto simp: follows_def)
  with assms show ?thesis unfolding slot_group_def by metis
qed

lemma fuse_pushi_assign_ok:
  assumes ok: "load_ok value_size I L U ld as" and room: "current_within_chunk ld < code_chunk_size - 1" and c: "c \<in> I" "plain_instr c"
    and fuse: "fuse_pushi_assign (next_slot ld) (placed c ld) = Some ld'"
  shows "steps_to value_size I L (U(next_slot ld \<mapsto> c)) (code_add (next_slot ld) 1) ld'"
proof -
  let ?nx = "next_slot ld"
  define fused :: "vvp_code_s \<Rightarrow> ulong \<Rightarrow> vvp_code_s \<Rightarrow> vvp_code_s"
    where "fused prev n code = code\<lparr>opcode := FUSED OF_ASSIGNI_VEC4, bit_idx0 := bit_idx0 prev, bit_idx1 := push_bit 6 (ucast n) OR bit_idx0 code\<rparr>" for prev n code
  define slots where "slots p prev n code = set_slot ?nx (fused prev n code) (set_slot p ((noop prev)\<lparr>bit_idx0 := 0, bit_idx1 := 0\<rparr>) (placed c ld))" for p prev n code
  obtain p prev code n where p: "peep_pair ?nx (placed c ld) = Some (p, prev, code)" and a: "opcode prev = VEC OF_PUSHI_VEC4" "opcode code = NETF OF_ASSIGN_VEC4"
    and f: "code_number prev = Some n" "bit_idx1 prev = 0" "n < 2 ^ 20" "bit_idx0 code < 64" and ld': "ld' = end_fusion (slots p prev n code)"
    using fuse by (auto simp: fuse_pushi_assign_def slots_def fused_def Let_def split: bind_splits if_splits)
  show ?thesis unfolding ld'
  proof (rule peep_fuse [OF ok room c p])
    fix us fs assume "code = c" "p < ?nx" and g: "open_group us (prev # fs)" and h: "head_at U (ld_code ld) ?nx p us (prev # fs)"
    have g: "us = [prev]" "fs = []" using group_shape(1) [OF g] a(1) by simp_all
    have "follows U (ld_code ld) (code_add p 1) ?nx" and at: "U p = Some prev" using h g by (simp_all add: head_at_def lays_Cons)
    then have "follows (U(?nx \<mapsto> c)) (ld_code (slots p prev n code)) (code_add p 1) ?nx" by (auto simp: follows_def link_def slots_def)
    moreover have "p \<noteq> ?nx" using \<open>p < ?nx\<close> by simp
    moreover have "assign_operands prev c (fused prev n code)" using a f \<open>code = c\<close> by (auto simp: assign_operands_def fused_def)
    ultimately show "slot_group value_size (U(?nx \<mapsto> c)) (ld_code (slots p prev n code)) p (code_add ?nx 1)"
      using at by (intro assign_group [where f = "(noop prev)\<lparr>bit_idx0 := 0, bit_idx1 := 0\<rparr>"]) (simp_all add: slots_def)
  next
    show "code_ok (ld_code ld) \<Longrightarrow> ld_code ld p = Some prev \<Longrightarrow> code = c \<Longrightarrow> code_ok (ld_code (slots p prev n code))"
      using c by (auto simp: plain_instr_def code_ok_def slots_def fused_def)
  qed (auto simp: slots_def code_add_def)
qed

text \<open>Wide constants.\<close>

lemma lays_snoc: "lays M p us \<Longrightarrow> nx = code_add p (length us) \<Longrightarrow> lays (M(nx \<mapsto> c)) p (us @ [c])"
  by (auto simp: lays_def nth_append less_Suc_eq)

lemma lays_upd_head: "lays M p (s # fs) \<Longrightarrow> lays (M(p \<mapsto> s')) p (s' # fs)"
  by (auto simp: lays_def nth_Cons split: nat.splits)

lemma wide_constant_snoc: "wide_constant (cs @ [c]) = Option.bind (wide_constant cs) (\<lambda>l. map_option (\<lambda>i. i @ l) (code_imm c))"
  by (simp add: wide_constant_def)

lemma immediate_imm:
  assumes "immediate c = Some v"
  shows "v4_inv v" and "code_imm c = Some (v4_list v)"
proof -
  obtain wid where "code_unsigned c = Some wid" "v4_inv v" "v4_list v = imm_bits wid (bit_idx0 c) (bit_idx1 c)" by (rule immediate_list [OF assms])
  then show "v4_inv v" "code_imm c = Some (v4_list v)" by (simp_all add: code_imm_def)
qed

definition starts_wide :: "vvp_code_s list \<Rightarrow> vvp_code_s list \<Rightarrow> bool" where
  "starts_wide us fs \<longleftrightarrow> (\<exists>c. us = [c] \<and> fs = [c] \<and> (opcode c = VEC OF_PUSHI_VEC4 \<or> opcode c = VEC OF_CONCATI_VEC4))"

lemma wide_grow:
  assumes g: "wide_group us (slot # fs) \<or> starts_wide us (slot # fs)" and c: "opcode c = VEC OF_CONCATI_VEC4"
    and app: "wide_append slot c = Some slot'" and n: "length us < 2 ^ 32"
  shows "wide_group (us @ [c]) (slot' # fs @ [z])"
proof -
  obtain chunk where chunk: "immediate c = Some chunk" using app by (auto simp: wide_append_def split: bind_splits)
  note ci = immediate_imm [OF chunk]
  show ?thesis using g
  proof
    assume "wide_group us (slot # fs)"
    then obtain d cs v where w: "us = d # cs" "cs \<noteq> []" "length fs = length cs"
      "(opcode d, opcode slot) \<in> {(VEC OF_PUSHI_VEC4, FUSED OF_PUSHI_WIDE), (VEC OF_CONCATI_VEC4, FUSED OF_CONCATI_WIDE)}"
      "\<forall>c' \<in> set cs. opcode c' = VEC OF_CONCATI_VEC4" "arg slot = CVEC v" "v4_inv v" "wide_constant (d # cs) = Some (v4_list v)"
      "unat (bit_idx0 slot) = length cs" by (auto simp: wide_group_def)
    obtain r where r: "v4_concat v chunk = Some r" "v4_inv r" "v4_list r = v4_list chunk @ v4_list v" by (rule v4_concat_spec [OF w(7) ci(1)])
    have slot': "slot' = slot\<lparr>arg := CVEC r, bit_idx0 := bit_idx0 slot + 1\<rparr>"
      using app w(4,6) r(1) by (auto simp: wide_append_def chunk code_cvec_def)
    have "wide_constant (d # cs @ [c]) = Some (v4_list r)" using wide_constant_snoc [of "d # cs" c] w(8) ci(2) r(3) by simp
    moreover have "unat (bit_idx0 slot + 1) = Suc (length cs)" using w(1,9) n by (simp add: unat_word_ariths)
    ultimately show ?thesis unfolding wide_group_def using w c r slot' by (intro exI [of _ d] exI [of _ "cs @ [c]"] exI [of _ slot'] exI [of _ "fs @ [z]"] exI [of _ r]) auto
  next
    assume "starts_wide us (slot # fs)"
    then have w: "us = [slot]" "fs = []" "opcode slot = VEC OF_PUSHI_VEC4 \<or> opcode slot = VEC OF_CONCATI_VEC4" by (auto simp: starts_wide_def)
    obtain v where v: "immediate slot = Some v" using app w(3) by (auto simp: wide_append_def split: bind_splits if_splits)
    note vi = immediate_imm [OF v]
    obtain r where r: "v4_concat v chunk = Some r" "v4_inv r" "v4_list r = v4_list chunk @ v4_list v" by (rule v4_concat_spec [OF vi(1) ci(1)])
    have slot': "slot' = slot\<lparr>opcode := FUSED (if opcode slot = VEC OF_PUSHI_VEC4 then OF_PUSHI_WIDE else OF_CONCATI_WIDE), arg := CVEC r, bit_idx0 := 1, bit_idx1 := 0\<rparr>"
      using app w(3) r(1) by (auto simp: wide_append_def chunk v)
    have "wide_constant [slot, c] = Some (v4_list r)" using ci(2) vi(2) r(3) by (simp add: wide_constant_def)
    then show ?thesis unfolding wide_group_def using w c r slot' by (intro exI [of _ slot] exI [of _ "[c]"] exI [of _ slot'] exI [of _ "[z]"] exI [of _ r]) auto
  qed
qed

lemma wide_fuses: "wide_group us fs \<Longrightarrow> fuses value_size us fs"
  unfolding wide_group_def using fuses.wide by blast

lemma wide_slot_head:
  assumes ok: "load_ok value_size I L U ld as" and w: "wide_slot (next_slot ld) (placed c ld) = Some w" "ld_code (placed c ld) w = Some slot"
  obtains rest us fs where "as = w # rest" and "wide_group us (slot # fs) \<or> starts_wide us (slot # fs)" and "L \<subseteq> set as"
    and "head_at U (ld_code ld) (next_slot ld) w us (slot # fs)" and "next_slot ld = code_add w (length us)"
proof (cases "Option.bind (peep_pushi_wide ld) (\<lambda>w. Option.bind (ld_code (placed c ld) w) (\<lambda>c. if next_slot ld = code_add w (Suc (unat (bit_idx0 c))) then Some w else None))")
  case None
  then obtain p prev code where p: "peep_pair (next_slot ld) (placed c ld) = Some (p, prev, code)"
    using w(1) by (cases "peep_pair (next_slot ld) (placed c ld)") (auto simp: wide_slot_def)
  have a: "next_slot ld = code_add p 1" "w = p" and o: "opcode prev = VEC OF_PUSHI_VEC4 \<or> opcode prev = VEC OF_CONCATI_VEC4"
    using w(1) None p by (simp_all add: wide_slot_def split: if_splits)
  obtain rest us fs where h: "as = p # rest" "open_group us (prev # fs)" "head_at U (ld_code ld) (next_slot ld) p us (prev # fs)" "L \<subseteq> set as" "p < next_slot ld"
    "ld_code ld p = Some prev" by (rule peep_head [OF ok p])
  have "prev = slot" using w(2) a(2) h(5,6) by (auto split: if_splits)
  moreover have "us = [prev]" "fs = []" using group_shape(1) [OF h(2)] o by auto
  ultimately show thesis using that [of rest us fs] h a o by (simp add: starts_wide_def)
next
  case (Some v)
  then have v: "v = w" "peep_pushi_wide ld = Some w" "next_slot ld = code_add w (Suc (unat (bit_idx0 slot)))"
    using w by (auto simp: wide_slot_def split: bind_splits if_splits)
  obtain rest us fs where h: "as = w # rest" "wide_group us fs" "head_at U (ld_code ld) (next_slot ld) w us fs"
    using ok v(2) unfolding load_ok_def peep_ok_def at_head_def by blast
  obtain f fs' where fs: "fs = f # fs'" "unat (bit_idx0 f) = length us - 1" "us \<noteq> []" using h(2) by (auto simp: wide_group_def)
  have "ld_code ld w = Some f" using h(3) fs by (simp add: head_at_def lays_Cons)
  then have "f = slot" using w(2) v(3) by auto
  moreover have "L \<subseteq> set as" using ok v(2) by (simp add: load_ok_def labels_ok_def)
  moreover have "next_slot ld = code_add w (length us)" using v(3) fs \<open>f = slot\<close> by simp
  ultimately show thesis using that h fs by blast
qed

lemma fuse_wide_ok:
  assumes ok: "load_ok value_size I L U ld as" and room: "current_within_chunk ld < code_chunk_size - 1" and c: "c \<in> I" "plain_instr c"
    and fuse: "fuse_wide (next_slot ld) (placed c ld) = Some ld'"
  shows "steps_to value_size I L (U(next_slot ld \<mapsto> c)) (code_add (next_slot ld) 1) ld'"
proof -
  let ?nx = "next_slot ld" and ?z = "(noop c)\<lparr>arg := NUMBER 0, bit_idx0 := 0, bit_idx1 := 0\<rparr>"
  have o: "opcode c = VEC OF_CONCATI_VEC4" by (rule ccontr) (use fuse in \<open>simp add: fuse_wide_def\<close>)
  obtain w where w1: "wide_slot ?nx (placed c ld) = Some w" using fuse o by (cases "wide_slot ?nx (placed c ld)") (simp_all add: fuse_wide_def)
  obtain slot where w2: "ld_code (placed c ld) w = Some slot" using fuse w1 o by (cases "ld_code (placed c ld) w") (simp_all add: fuse_wide_def)
  obtain slot' where app: "wide_append slot c = Some slot'" using fuse w1 w2 o by (cases "wide_append slot c") (simp_all add: fuse_wide_def)
  have ld': "ld' = end_fusion ((set_slot ?nx ?z (set_slot w slot' (placed c ld)))\<lparr>peep_pushi_wide := Some w\<rparr>)"
    using fuse w1 w2 o app by (simp add: fuse_wide_def)
  note w = w1 w2
  obtain rest us fs where h: "as = w # rest" "wide_group us (slot # fs) \<or> starts_wide us (slot # fs)" "L \<subseteq> set as"
    "head_at U (ld_code ld) ?nx w us (slot # fs)" "?nx = code_add w (length us)" by (rule wide_slot_head [OF ok w])
  let ?ld = "(set_slot ?nx ?z (set_slot w slot' (placed c ld)))\<lparr>peep_pushi_wide := Some w, peep_prev_code := None\<rparr>"
  have F: "ld_code ?ld = (ld_code ld)(w \<mapsto> slot', ?nx \<mapsto> ?z)" by auto
  have lays: "lays U w us" "lays (ld_code ld) w (slot # fs)" "length (slot # fs) = length us" using h(4) by (simp_all add: head_at_def)
  have "length us \<le> current_within_chunk ld" using arg_cong [OF h(5), of snd] by (simp only: snd_conv code_add_sums)
  then have n: "length us < 2 ^ 32" using room by (simp add: code_chunk_size_def)
  note g = wide_grow [OF h(2) o app n, of ?z]
  have l1: "lays (U(?nx \<mapsto> c)) w (us @ [c])" by (rule lays_snoc [OF lays(1) h(5)])
  have l2: "lays (ld_code ?ld) w (slot' # fs @ [?z])" unfolding F
    using lays_snoc [OF lays_upd_head [OF lays(2)], of ?nx slot' ?z] lays(3) h(5) by simp
  have len: "code_add ?nx 1 = code_add w (length (us @ [c]))" unfolding h(5) by simp
  have t: "tiles value_size U (ld_code ld) ?nx (w # rest)" using ok h(1) by (simp add: load_ok_def tiled_ok_def)
  have cok: "code_ok (ld_code ld)" using ok by (simp add: load_ok_def tiled_ok_def space_ok_def)
  obtain v where v: "arg slot' = CVEC v" "v4_inv v" using g by (auto simp: wide_group_def)
  have le: "w \<le> ?nx" using tiles_start [OF t, of w] by simp
  have peep: "peep_ok (U(?nx \<mapsto> c)) ?ld (w # rest)"
  proof -
    have "head_at (U(?nx \<mapsto> c)) (ld_code ?ld) (code_add ?nx 1) w (us @ [c]) (slot' # fs @ [?z])"
      unfolding head_at_def using l1 l2 lays(3) len by (simp add: follows_def)
    then show ?thesis using g len by (auto simp: peep_ok_def at_head_def code_add_def placed_def set_slot_def)
  qed
  have "load_ok value_size I L (U(?nx \<mapsto> c)) ?ld (w # rest)"
  proof (rule grown [OF ok room c _ le _ _ _ _ _ peep])
    show "slot_group value_size (U(?nx \<mapsto> c)) (ld_code ?ld) w (code_add ?nx 1)" by (rule groupI [OF wide_fuses [OF g] l1 l2 len])
    show "code_ok (ld_code ?ld)" unfolding F by (rule code_ok_upd [OF code_ok_upd [OF cok]]) (use v in simp_all)
    show "ld_code ?ld x = ld_code ld x" if "x < w \<or> ?nx < x" for x using that le unfolding F by auto
  qed (use t h(1,3) in \<open>simp_all add: code_add_def\<close>)
  moreover have "ld' = mark_slot ?ld" unfolding ld' end_fusion_def by simp
  ultimately show ?thesis unfolding steps_to_def using h(1,3) by (intro exI [of _ ?ld] exI [of _ "w # rest"]) (simp add: code_add_def)
qed

text \<open>An instruction that is not fused opens a group; a signal load may wait for its part select.\<close>

lemma note_pair_simps [simp]:
  "ld_code (note_pair a ld) = ld_code ld" "current_chunk (note_pair a ld) = current_chunk ld" "current_within_chunk (note_pair a ld) = current_within_chunk ld"
  "peep_prev_code (note_pair a ld) = peep_prev_code ld" "peep_pushi_wide (note_pair a ld) = peep_pushi_wide ld" "peep_fuse_slot (note_pair a ld) = peep_fuse_slot ld"
  by (simp_all add: note_pair_def split: option.splits prod.splits)

lemma note_pair_some:
  assumes "peep_parti_pair_lhs (note_pair a ld) = Some q" and "peep_parti_pair_lhs ld = None"
  obtains prev code where "peep_pair a ld = Some (q, prev, code)" and "a = code_add q 2" and "is_load_parti prev" and "0 \<le> sint (bit_idx0 prev)"
  using assms by (cases "peep_pair a ld") (auto simp: note_pair_def split: if_splits)

lemma single_ok:
  assumes ok: "load_ok value_size I L U ld as" and room: "current_within_chunk ld < code_chunk_size - 1" and c: "c \<in> I" "plain_instr c"
  defines "ld' \<equiv> (note_pair (next_slot ld) (placed c ld))\<lparr>peep_pushi_wide := None, peep_prev_code := Some (next_slot ld)\<rparr>"
  shows "steps_to value_size I L (U(next_slot ld \<mapsto> c)) (code_add (next_slot ld) 1) (mark_slot ld')"
proof -
  let ?nx = "next_slot ld" and ?U = "U(next_slot ld \<mapsto> c)"
  have F: "ld_code ld' = (ld_code ld)(?nx \<mapsto> c)" and nx: "next_slot ld' = code_add ?nx 1" by (simp_all add: ld'_def code_add_def placed_def)
  have t: "tiles value_size U (ld_code ld) ?nx as" and cok: "code_ok (ld_code ld)" using ok by (simp_all add: load_ok_def tiled_ok_def space_ok_def)
  have L: "L \<subseteq> set (?nx # as)" using ok by (simp add: load_ok_def labels_ok_def)
  have lays: "lays ?U ?nx [c]" "lays (ld_code ld') ?nx [c]" by (simp_all add: lays_Cons F)
  have fuses: "fuses value_size [c] [c]" using c(2) by (intro fuses.plain) (auto simp: plain_instr_def)
  have pair: "pair_ok ?U (ld_code ld') (code_add ?nx 1) (?nx # as) q \<and> code_add q 2 \<notin> L" if q: "peep_parti_pair_lhs ld' = Some q" for q
  proof -
    have "peep_parti_pair_lhs (note_pair ?nx (placed c ld)) = Some q" using q by (simp add: ld'_def)
    then obtain prev code where p: "peep_pair ?nx (placed c ld) = Some (q, prev, code)" "?nx = code_add q 2" "is_load_parti prev" "0 \<le> sint (bit_idx0 prev)"
      by (rule note_pair_some) simp
    obtain rest us fs where h: "as = q # rest" "open_group us (prev # fs)" "head_at U (ld_code ld) ?nx q us (prev # fs)" "L \<subseteq> set as"
      by (rule peep_head [OF ok p(1)])
    obtain load parti d where g: "us = [load, parti]" "fs = [d]" "part_operands load parti prev" using group_shape(2) [OF h(2) p(3)] by blast
    have "head_at ?U (ld_code ld') (code_add ?nx 1) q [load, parti, c] [prev, d, c]"
      using h(3) g p(2) unfolding F by (simp add: head_at_def lays_Cons follows_def)
    moreover have "?nx \<notin> L" using h(4) tiles_start [OF t] by blast
    moreover have "?nx # as = code_add q 2 # q # rest" using h(1) p(2) by simp
    ultimately show ?thesis unfolding pair_ok_def p(2) [symmetric] using g(3) p(3,4) by blast
  qed
  have "head_at ?U (ld_code ld') (code_add ?nx 1) ?nx [c] [c]" using lays by (simp add: head_at_def follows_def)
  then have "peep_ok ?U ld' (?nx # as)" using pair c(2) unfolding peep_ok_def nx at_head_def
    by (simp add: ld'_def open_group_def single_group_def) blast
  then have "load_ok value_size I L ?U ld' (?nx # as)"
    by (intro grown [OF ok room c t _ L _ _ _ nx])
      (use pair fuses lays c(2) cok nx in \<open>auto simp: F plain_instr_def intro!: groupI code_ok_upd\<close>)
  then show ?thesis unfolding steps_to_def using L nx by blast
qed

lemma fuse_load_parti_ok:
  assumes ok: "load_ok value_size I L U ld as" and room: "current_within_chunk ld < code_chunk_size - 1" and c: "c \<in> I" "plain_instr c"
    and fuse: "fuse_load_parti (peep_parti_pair_lhs ld) (next_slot ld) ((placed c ld)\<lparr>peep_pushi_wide := None\<rparr>) = Some ld'"
  shows "steps_to value_size I L (U(next_slot ld \<mapsto> c)) (code_add (next_slot ld) 1) (mark_slot ld')"
proof -
  let ?nx = "next_slot ld" and ?U = "U(next_slot ld \<mapsto> c)"
  obtain p prev code where p: "peep_pair ?nx (placed c ld) = Some (p, prev, code)"
    using fuse by (cases "peep_pair ?nx (placed c ld)") (auto simp: fuse_load_parti_def)
  obtain rest us fs where h: "as = p # rest" "open_group us (prev # fs)" "head_at U (ld_code ld) ?nx p us (prev # fs)" "code = c" "L \<subseteq> set as"
    "peep_pushi_wide ld = None" "p < ?nx" "ld_code ld p = Some prev" by (rule peep_head [OF ok p])
  obtain n where n: "code_number c = Some n" using fuse p h(4) by (cases "code_number c") (auto simp: fuse_load_parti_def)
  define f where "f = prev\<lparr>opcode := FUSED (if opcode c = VEC OF_PARTI_S then OF_LOAD_PARTI_S else OF_LOAD_PARTI_U), bit_idx0 := fused_base c, bit_idx1 := ucast n\<rparr>"
  define ld1 where "ld1 = set_slot ?nx (noop c) (set_slot p f ((placed c ld)\<lparr>peep_pushi_wide := None\<rparr>))"
  define merged where "merged = (\<lambda>q d. (set_slot p (noop f) (set_slot q (d\<lparr>opcode := FUSED OF_LOAD_PARTI_PAIR\<rparr>) ld1))\<lparr>peep_prev_code := Some q\<rparr>)"
  let ?X = "Option.bind (peep_parti_pair_lhs ld) (\<lambda>q. map_option (\<lambda>d. (q, d)) (ld_code ld1 q))"
  have g: "?nx = code_add p 1 \<and> opcode prev = NETF OF_LOAD_VEC4 \<and> (opcode c = VEC OF_PARTI_S \<or> opcode c = VEC OF_PARTI_U) \<and> n < 2 ^ 26 \<and> bit_idx1 c < 64"
  proof (rule ccontr)
    assume "\<not> ?thesis"
    then have "fuse_load_parti (peep_parti_pair_lhs ld) ?nx ((placed c ld)\<lparr>peep_pushi_wide := None\<rparr>) = None"
      unfolding fuse_load_parti_def peep_pair_wide p h(4) by (simp only: bind.bind_lunit prod.case n if_False)
    with fuse show False by simp
  qed
  then have a: "?nx = code_add p 1" "opcode prev = NETF OF_LOAD_VEC4" "opcode c = VEC OF_PARTI_S \<or> opcode c = VEC OF_PARTI_U" "n < 2 ^ 26" by blast+
  have "(case ?X of Some (q, d) \<Rightarrow> if p = code_add q 2 \<and> ?nx = code_add q 3 \<and> 0 \<le> sint (bit_idx0 f) then Some (merged q d) else Some ld1
      | None \<Rightarrow> Some ld1) = Some ld'"
    using fuse unfolding fuse_load_parti_def peep_pair_wide p h(4) merged_def ld1_def f_def by (simp only: bind.bind_lunit prod.case n if_P [OF g] Let_def)
  then have ld': "ld' = (case ?X of None \<Rightarrow> ld1
      | Some (q, d) \<Rightarrow> if p = code_add q 2 \<and> ?nx = code_add q 3 \<and> 0 \<le> sint (bit_idx0 f) then merged q d else ld1)"
    by (cases ?X) (auto split: if_splits)
  have ops: "part_operands prev c f" "is_load_parti f" using a n by (auto simp: part_operands_def f_def is_load_parti_def)
  have F1: "ld_code ld1 = (ld_code ld)(p \<mapsto> f, ?nx \<mapsto> noop c)" using h(7) by (auto simp: ld1_def)
  have nx1: "next_slot ld1 = code_add ?nx 1" by (simp add: ld1_def code_add_def placed_def)
  have t: "tiles value_size U (ld_code ld) ?nx as" and cok: "code_ok (ld_code ld)" using ok by (simp_all add: load_ok_def tiled_ok_def space_ok_def)
  have single: "us = [prev]" "fs = []" using group_shape(1) [OF h(2)] a(2) by simp_all
  have Up: "U p = Some prev" using h(3) single by (simp add: head_at_def lays_Cons)
  have cok1: "code_ok (ld_code ld1)" unfolding F1 using cok h(8) c(2) by (intro code_ok_fused [where prev = prev and c = c]) (simp_all add: f_def)
  show ?thesis
  proof (cases "ld' = ld1")
    case True
    have l: "lays ?U p [prev, c]" "lays (ld_code ld1) p [f, noop c]" using Up a(1) h(7) by (simp_all add: F1 lays_Cons)
    have "head_at ?U (ld_code ld1) (code_add ?nx 1) p [prev, c] [f, noop c]" using l a(1) by (simp add: head_at_def follows_def)
    moreover have "part_group [prev, c] [f, noop c]" using ops by (simp add: part_group_def)
    moreover have "peep_prev_code ld = Some p" using p by (auto simp: peep_pair_def split: bind_splits if_splits)
    ultimately have "peep_ok ?U ld1 (p # rest)" unfolding peep_ok_def at_head_def nx1 by (auto simp: ld1_def open_group_def)
    moreover have "fuses value_size [prev, c] [f, noop c]" using ops by (intro fuses.parti) (auto simp: is_load_parti_def)
    ultimately have "load_ok value_size I L ?U ld1 (p # rest)"
      by (intro grown [OF ok room c _ less_imp_le [OF h(7)] _ _ cok1 _ nx1])
        (use t h l a(1) in \<open>auto simp: F1 ld1_def intro!: groupI\<close>)
    then show ?thesis unfolding True steps_to_def using h(1,5) nx1 by blast
  next
    case False
    then obtain q d where q: "peep_parti_pair_lhs ld = Some q" "ld_code ld1 q = Some d" "p = code_add q 2" "0 \<le> sint (bit_idx0 f)" "ld' = merged q d"
      using ld' by (auto split: option.splits prod.splits if_splits bind_splits)
    have "pair_ok U (ld_code ld) ?nx as q" and notin: "code_add q 2 \<notin> L" using ok q(1) by (simp_all add: load_ok_def peep_ok_def labels_ok_def)
    then obtain rest' load parti f1 d1 c0 where g: "as = p # q # rest'" "head_at U (ld_code ld) ?nx q [load, parti, c0] [f1, d1, c0]"
      "part_operands load parti f1" "0 \<le> sint (bit_idx0 f1)" unfolding pair_ok_def q(3) by blast
    have nq: "?nx = code_add q 3" using a(1) q(3) by simp
    have d: "d = f1" using q(2) g(2) unfolding F1 nq q(3) by (simp add: head_at_def lays_Cons)
    let ?fs = "[f1\<lparr>opcode := FUSED OF_LOAD_PARTI_PAIR\<rparr>, d1, noop f, noop c]"
    have F2: "ld_code ld' = (ld_code ld)(p \<mapsto> noop f, ?nx \<mapsto> noop c, q \<mapsto> f1\<lparr>opcode := FUSED OF_LOAD_PARTI_PAIR\<rparr>)"
      using nq q(3) unfolding q(5) merged_def d by (auto simp: F1)
    have nx2: "next_slot ld' = code_add ?nx 1" using nx1 unfolding q(5) merged_def by simp
    have l: "lays ?U q [load, parti, prev, c]" "lays (ld_code ld') q ?fs"
      using g(2) Up nq q(3) unfolding F2 by (simp_all add: head_at_def lays_Cons)
    have fuses: "fuses value_size [load, parti, prev, c] ?fs" by (rule fuses.pair) (use g ops q(4) in simp_all)
    have "pair_group [load, parti, prev, c] ?fs" using g ops q(4) by (simp add: pair_group_def)
    moreover have "head_at ?U (ld_code ld') (code_add ?nx 1) q [load, parti, prev, c] ?fs" using l nq by (simp add: head_at_def follows_def)
    ultimately have "at_head open_group ?U (ld_code ld') (next_slot ld') (q # rest') q" unfolding at_head_def nx2 open_group_def by blast
    then have peep: "peep_ok ?U ld' (q # rest')" unfolding peep_ok_def by (simp add: q(5) merged_def ld1_def)
    have t': "tiles value_size U (ld_code ld) q rest'" using t unfolding g(1) by simp
    have L: "L \<subseteq> set (q # rest')" using h(5) notin unfolding g(1) q(3) by auto
    have "load_ok value_size I L ?U ld' (q # rest')"
    proof (rule grown [OF ok room c t' _ L _ _ _ nx2 peep])
      show "slot_group value_size ?U (ld_code ld') q (code_add ?nx 1)" by (rule groupI [OF fuses l]) (simp add: nq)
      show "ld_code ld' x = ld_code ld x" if "x < q \<or> ?nx < x" for x
      proof -
        have "x \<noteq> q" "x \<noteq> p" "x \<noteq> ?nx" using that unfolding nq q(3) by auto
        then show ?thesis unfolding F2 by simp
      qed
      have "ld_code ld q = Some f1" using g(2) by (simp add: head_at_def lays_Cons)
      moreover have "arg (noop f) = arg prev" by (simp add: f_def)
      ultimately show "code_ok (ld_code ld')" unfolding F2 using cok h(8) c(2) by (auto simp: code_ok_def plain_instr_def)
    qed (use nq in \<open>simp_all add: q(5) merged_def ld1_def less_imp_le\<close>)
    then show ?thesis unfolding steps_to_def using L nx2 by blast
  qed
qed

end
