(* ===== verification/Loader_Run.thy ===== *)
theory Loader_Run
  imports Loader_Inv
begin

text \<open>
  Whole programs: what the loader makes of a program with fusion runs as what it makes of it without, and so do the direct
  stores it selects at the end.
\<close>

section \<open>Loading a program\<close>

definition loaded :: "(nat \<Rightarrow> nat option) \<Rightarrow> vvp_code_s set \<Rightarrow> vvp_code_t set \<Rightarrow> loader \<Rightarrow> loader \<Rightarrow> bool" where
  "loaded value_size I L ldU ld \<longleftrightarrow> (\<exists>as. load_ok value_size I L (ld_code ldU) ld as) \<and> next_slot ldU = next_slot ld \<and> current_within_chunk ld < code_chunk_size - 1"

lemma note_store_simps [simp]:
  "ld_code (note_store a ld) = ld_code ld" "current_chunk (note_store a ld) = current_chunk ld" "current_within_chunk (note_store a ld) = current_within_chunk ld"
  "peep_prev_code (note_store a ld) = peep_prev_code ld" "peep_parti_pair_lhs (note_store a ld) = peep_parti_pair_lhs ld"
  "peep_pushi_wide (note_store a ld) = peep_pushi_wide ld"
  by (simp_all add: note_store_def split: option.splits)

lemma loaded_note [simp]: "loaded value_size I L ldU (note_store a ld) = loaded value_size I L ldU ld"
  by (simp add: loaded_def load_ok_def peep_ok_def labels_ok_def)

text \<open>Without fusion the slot is filled and that is all.\<close>

lemma compile_disabled:
  assumes "current_within_chunk ld < code_chunk_size - 1"
  shows "ld_code (compile_code True value_size c ld) = wrap_code ((ld_code ld)(next_slot ld \<mapsto> c)) (code_add (next_slot ld) 1)"
    and "next_slot (compile_code True value_size c ld) = wrap_next (code_add (next_slot ld) 1)"
  using assms by (simp_all add: compile_code_def codespace_allocate_def codespace_next_def code_add_def Let_def)

lemma steps_loaded:
  assumes "steps_to value_size I L (U(next_slot ld \<mapsto> c)) (code_add (next_slot ld) 1) ld'" and "current_within_chunk ld < code_chunk_size - 1"
    and "U = ld_code ldU" and "next_slot ldU = next_slot ld"
  shows "loaded value_size I L (compile_code True value_size c ldU) ld'"
proof -
  obtain ld1 as where s: "ld' = mark_slot ld1" "load_ok value_size I L (U(next_slot ld \<mapsto> c)) ld1 as" "L \<subseteq> set as" "next_slot ld1 = code_add (next_slot ld) 1"
    using assms(1) by (auto simp: steps_to_def)
  have "current_within_chunk ldU < code_chunk_size - 1" using assms(2,4) by simp
  note U = compile_disabled [OF this, of value_size c]
  show ?thesis unfolding loaded_def U using mark_ok [OF s(2,3)] s(1,4) assms(3,4) mark_slot_code(2) [of ld1] by auto
qed

lemma compile_enabled:
  assumes "current_within_chunk ld < code_chunk_size - 1"
  shows "compile_code False value_size c ld =
    (let a = next_slot ld; ld1 = note_pair a (placed c ld) in
     case fuse_pair_concat value_size a ld1 of Some ld \<Rightarrow> ld | None \<Rightarrow>
     case fuse_parti_op a ld1 of Some ld \<Rightarrow> ld | None \<Rightarrow>
     case fuse_parti_replicate a ld1 of Some ld \<Rightarrow> ld | None \<Rightarrow>
     case fuse_pushi_assign a ld1 of Some ld \<Rightarrow> ld | None \<Rightarrow>
     case fuse_load_flag a ld1 of Some ld \<Rightarrow> ld | None \<Rightarrow>
     case fuse_flag_setget a ld1 of Some ld \<Rightarrow> ld | None \<Rightarrow>
     case fuse_wide a ld1 of Some ld \<Rightarrow> ld | None \<Rightarrow>
     case fuse_cmpi_jmp a (ld1\<lparr>peep_pushi_wide := None\<rparr>) of Some ld \<Rightarrow> ld | None \<Rightarrow>
     note_store a (mark_slot (case fuse_load_parti (peep_parti_pair_lhs ld) a (ld1\<lparr>peep_pushi_wide := None\<rparr>) of Some ld \<Rightarrow> ld
       | None \<Rightarrow> ld1\<lparr>peep_pushi_wide := None, peep_prev_code := Some a\<rparr>)))"
proof -
  obtain ld' where a: "codespace_allocate c ld = (next_slot ld, ld')" and p: "ld'\<lparr>peep_parti_pair_lhs := None\<rparr> = placed c ld"
      "peep_parti_pair_lhs ld' = peep_parti_pair_lhs ld"
    using assms by (simp add: codespace_allocate_def codespace_next_def placed_def Let_def)
  show ?thesis unfolding compile_code_def a Let_def prod.case p by (simp only: if_False)
qed

text \<open>A signal load is not fused with what is before it; any other instruction is no reason to note a pair.\<close>

lemma peep_pair_code: "peep_pair a ld = Some (p, prev, code) \<Longrightarrow> ld_code ld a = Some code"
  by (auto simp: peep_pair_def split: bind_splits if_splits)

lemma load_not_fused:
  assumes "ld_code ld a = Some c" and "opcode c = NETF OF_LOAD_VEC4"
  shows "fuse_pair_concat value_size a ld = None" "fuse_parti_op a ld = None" "fuse_parti_replicate a ld = None" "fuse_pushi_assign a ld = None"
    "fuse_load_flag a ld = None" "fuse_flag_setget a ld = None" "fuse_wide a ld = None" "fuse_cmpi_jmp a ld = None" "fuse_load_parti q a ld = None"
proof -
  have "code = c" if "peep_pair a ld = Some (p, prev, code)" for p prev code using peep_pair_code [OF that] assms(1) by simp
  then show "fuse_pair_concat value_size a ld = None" "fuse_parti_op a ld = None" "fuse_parti_replicate a ld = None" "fuse_pushi_assign a ld = None"
    "fuse_load_flag a ld = None" "fuse_flag_setget a ld = None" "fuse_wide a ld = None" "fuse_cmpi_jmp a ld = None" "fuse_load_parti q a ld = None"
    using assms by (cases "peep_pair a ld"; auto simp: fuse_pair_concat_def fuse_parti_op_def fuse_parti_replicate_def fuse_pushi_assign_def fuse_load_flag_def
      fuse_flag_setget_def fuse_wide_def fuse_cmpi_jmp_def fuse_load_parti_def split: bind_splits)+
qed

lemma note_pair_id: "ld_code ld a = Some c \<Longrightarrow> opcode c \<noteq> NETF OF_LOAD_VEC4 \<Longrightarrow> note_pair a ld = ld"
  using peep_pair_code [of a ld] by (auto simp: note_pair_def split: option.splits)

lemma compile_code_loaded:
  assumes l: "loaded value_size I L ldU ld" and c: "c \<in> I" "plain_instr c"
  shows "loaded value_size I L (compile_code True value_size c ldU) (compile_code False value_size c ld)"
proof -
  obtain as where ok: "load_ok value_size I L (ld_code ldU) ld as" and nx: "next_slot ldU = next_slot ld" and room: "current_within_chunk ld < code_chunk_size - 1"
    using l by (auto simp: loaded_def)
  note step = steps_loaded [OF _ room refl nx]
  let ?ld1 = "note_pair (next_slot ld) (placed c ld)"
  have single: "loaded value_size I L (compile_code True value_size c ldU)
      (mark_slot (?ld1\<lparr>peep_pushi_wide := None, peep_prev_code := Some (next_slot ld)\<rparr>))" by (rule step [OF single_ok [OF ok room c]])
  show ?thesis
  proof (cases "opcode c = NETF OF_LOAD_VEC4")
    case True
    have at: "ld_code ?ld1 (next_slot ld) = Some c" "ld_code (?ld1\<lparr>peep_pushi_wide := None\<rparr>) (next_slot ld) = Some c" by simp_all
    show ?thesis unfolding compile_enabled [OF room] Let_def
      using single by (simp add: load_not_fused [OF at(1) True] load_not_fused [OF at(2) True])
  next
    case False
    have id: "?ld1 = placed c ld" by (rule note_pair_id [OF _ False]) simp
    note fusions = fuse_pair_concat_ok fuse_parti_op_ok fuse_parti_replicate_ok fuse_pushi_assign_ok fuse_load_flag_ok fuse_flag_setget_ok
      fuse_wide_ok fuse_cmpi_jmp_ok fuse_load_parti_ok
    show ?thesis unfolding compile_enabled [OF room] Let_def id
      using single [unfolded id] by (auto split: option.splits intro: step fusions [OF ok room c])
  qed
qed

lemma compile_label_loaded:
  assumes "loaded value_size I L ldU ld"
  shows "\<exists>a ldU' ld'. compile_codelabel ldU = (a, ldU') \<and> compile_codelabel ld = (a, ld') \<and> loaded value_size I (insert a L) ldU' ld'"
proof -
  obtain as where ok: "load_ok value_size I L (ld_code ldU) ld as" and nx: "next_slot ldU = next_slot ld" and room: "current_within_chunk ld < code_chunk_size - 1"
    using assms by (auto simp: loaded_def)
  let ?clear = "\<lambda>ld. ld\<lparr>peep_prev_code := None, peep_parti_pair_lhs := None, peep_pushi_wide := None\<rparr>"
  have "compile_codelabel ldU = (next_slot ld, ?clear ldU)" "compile_codelabel ld = (next_slot ld, ?clear ld)"
    using nx room by (simp_all add: compile_codelabel_def codespace_next_def)
  moreover have "loaded value_size I (insert (next_slot ld) L) (?clear ldU) (?clear ld)"
    using ok nx room by (auto simp: loaded_def load_ok_def peep_ok_def labels_ok_def)
  ultimately show ?thesis by blast
qed

definition instrs :: "item list \<Rightarrow> vvp_code_s set" where
  "instrs is = {c. INSTR c \<in> set is}"

lemma load_items_loaded:
  assumes "loaded value_size I L ldU ld" and "instrs is \<subseteq> I" and "\<forall>c \<in> instrs is. plain_instr c"
  shows "\<exists>labels ldU' ld'. load_items True value_size is ldU = (labels, ldU') \<and> load_items False value_size is ld = (labels, ld')
    \<and> loaded value_size I (L \<union> set labels) ldU' ld'"
  using assms
proof (induction "is" arbitrary: L ldU ld)
  case (Cons i "is")
  show ?case
  proof (cases i)
    case LABEL
    obtain a ldU1 ld1 where 1: "compile_codelabel ldU = (a, ldU1)" "compile_codelabel ld = (a, ld1)" "loaded value_size I (insert a L) ldU1 ld1"
      using compile_label_loaded [OF Cons.prems(1)] by blast
    obtain labels ldU' ld' where 2: "load_items True value_size is ldU1 = (labels, ldU')" "load_items False value_size is ld1 = (labels, ld')"
      "loaded value_size I (insert a L \<union> set labels) ldU' ld'"
      using Cons.IH [OF 1(3)] Cons.prems(2,3) by (auto simp: instrs_def)
    then show ?thesis using 1 by (simp add: LABEL)
  next
    case (INSTR c)
    have "c \<in> I" "plain_instr c" using Cons.prems(2,3) by (auto simp: instrs_def INSTR)
    from Cons.IH [OF compile_code_loaded [OF Cons.prems(1) this]] Cons.prems(2,3) show ?thesis by (auto simp: INSTR instrs_def)
  qed
qed auto

lemma init_loaded: "loaded value_size I {} codespace_init codespace_init"
proof -
  have "(0, 1) \<le> x \<Longrightarrow> x \<noteq> (0, code_chunk_size - 1) \<Longrightarrow> ld_code codespace_init x = None" for x by (simp add: codespace_init_def)
  then show ?thesis
    by (auto simp: loaded_def load_ok_def tiled_ok_def space_ok_def peep_ok_def labels_ok_def code_ok_def codespace_init_def code_chunk_size_def link_slot_def chunk_link_def
      intro!: exI [of _ "[]"])
qed

section \<open>Running it\<close>

lemma loaded_tiled:
  assumes l: "loaded value_size I L ldU ld" and t: "\<And>c t. c \<in> I \<Longrightarrow> arg c = CPTR t \<Longrightarrow> t \<in> L"
  obtains S where "tiled_by value_size (ld_code ldU) (ld_code ld) S (next_slot ld)" and "L \<subseteq> insert (next_slot ld) S"
    and "code_ok (ld_code ldU)" and "code_ok (ld_code ld)"
proof -
  obtain as where ok: "load_ok value_size I L (ld_code ldU) ld as" and room: "current_within_chunk ld < code_chunk_size - 1" using l by (auto simp: loaded_def)
  let ?U = "ld_code ldU" and ?F = "ld_code ld" and ?nx = "next_slot ld"
  have s: "space_ok I ?U ?F ?nx" and tiles: "tiles value_size ?U ?F ?nx as" and L: "L \<subseteq> insert ?nx (set as)"
    using ok by (simp_all add: load_ok_def tiled_ok_def labels_ok_def)
  have content: "c \<in> I \<and> plain_instr c \<or> (\<exists>p. c = chunk_link p \<and> (p = NUMBER 0 \<or> (\<exists>k. p = CPTR (k, 0))))" if "?U x = Some c" for x c
    using s that unfolding space_ok_def by blast
  have "tiled_by value_size ?U ?F (set as) ?nx"
    unfolding tiled_by_def
  proof (intro conjI ballI allI impI)
    show "?U ?nx = None" using s next_less(1) [of ?nx] room by (simp add: space_ok_def)
    show "\<exists>b. slot_group value_size ?U ?F a b \<and> lands ?U ?F (set as) ?nx b" if "a \<in> set as" for a by (rule tiles_lands [OF tiles that])
    show "opcode c \<noteq> FUSED f" if "?U a = Some c" for a c f using content [OF that] by (auto simp: plain_instr_def chunk_link_def)
    show "t \<in> insert ?nx (set as)" if "?U a = Some c" "arg c = CPTR t" "opcode c \<noteq> NETF OF_CHUNK_LINK" for a c t
    proof -
      have "c \<in> I" using content [OF that(1)] that(3) by (auto simp: chunk_link_def)
      with t [OF _ that(2)] L show ?thesis by blast
    qed
  qed
  moreover have "code_ok ?U" unfolding code_ok_def
  proof (intro allI impI)
    fix a c v assume "?U a = Some c" "arg c = CVEC v"
    then show "v4_inv v" using content [of a c] by (auto simp: plain_instr_def chunk_link_def)
  qed
  moreover have "code_ok ?F" using s by (simp add: space_ok_def)
  ultimately show thesis using that L by blast
qed

text \<open>
  A program: no fused opcodes, its jumps go to its labels, and a constant that may be joined to a wide one has less than \<open>2 ^ 21\<close> bits.  The
  instructions that are joined lie in one chunk, so that the width of the wide constant fits into 32 bits.
\<close>

definition program_ok :: "vvp_code_t list \<Rightarrow> item list \<Rightarrow> bool" where
  "program_ok labels is \<longleftrightarrow> (\<forall>c \<in> instrs is. plain_instr c \<and> (\<forall>t. arg c = CPTR t \<longrightarrow> t \<in> set labels)
    \<and> (\<forall>n. opcode c \<in> {VEC OF_PUSHI_VEC4, VEC OF_CONCATI_VEC4} \<longrightarrow> code_unsigned c = Some n \<longrightarrow> n < 2 ^ 21))"

lemma wide_constant_width:
  assumes "wide_constant cs = Some l" and "\<forall>c \<in> set cs. \<forall>n. code_unsigned c = Some n \<longrightarrow> n < 2 ^ 21" and "length cs < code_chunk_size"
  shows "length l < 2 ^ 31"
proof -
  have "length l \<le> length cs * 2 ^ 21" using assms(1,2)
  proof (induction cs arbitrary: l rule: rev_induct)
    case (snoc c cs)
    then obtain l' i where "wide_constant cs = Some l'" "code_imm c = Some i" "l = i @ l'" by (auto simp: wide_constant_def split: bind_splits)
    moreover from this have "length i < 2 ^ 21" using code_imm_width snoc.prems(2) by auto
    ultimately show ?case using snoc.IH [of l'] snoc.prems(2) by simp
  qed (simp add: wide_constant_def)
  moreover have "length cs * 2 ^ 21 < 2 ^ 31" using assms(3) by (simp add: code_chunk_size_def)
  ultimately show ?thesis by (rule le_less_trans)
qed

lemma fused_program:
  assumes prog: "program_ok labels is" and U: "load_items True value_size is codespace_init = (labels, ldU)"
    and keeps: "\<And>e env. env_suits value_size (ld_code ldU) env \<Longrightarrow> env_suits value_size (ld_code ldU) (deliver e env)"
    and start: "thr_pc thr \<in> set labels" "thr_ok thr" "env_suits value_size (ld_code ldU) env"
    and run: "run_loop (s_step (ld_code ldU)) deliver n env (view thr) = Some (go, env', st, acts)"
  obtains ld m st' where "load_items False value_size is codespace_init = (labels, ld)" and "code_ok (ld_code ldU)" and "code_ok (ld_code ld)"
    and "run_loop (s_step (ld_code ld)) deliver m env (view thr) = Some (go, env', st', acts)" and "\<not> go \<longrightarrow> st' = st"
proof -
  have plain: "\<forall>c \<in> instrs is. plain_instr c" using prog by (simp add: program_ok_def)
  obtain ld where F: "load_items False value_size is codespace_init = (labels, ld)" and l: "loaded value_size (instrs is) (set labels) ldU ld"
    using load_items_loaded [OF init_loaded [of value_size "instrs is"] order_refl plain] U by auto
  have targets: "t \<in> set labels" if "c \<in> instrs is" "arg c = CPTR t" for c t using prog that by (auto simp: program_ok_def)
  obtain S where S: "tiled_by value_size (ld_code ldU) (ld_code ld) S (next_slot ld)" "set labels \<subseteq> insert (next_slot ld) S"
    "code_ok (ld_code ldU)" "code_ok (ld_code ld)" by (rule loaded_tiled [OF l targets])
  have "lands (ld_code ldU) (ld_code ld) S (next_slot ld) (thr_pc (view thr))" using S(2) start(1) by (auto simp: lands_def)
  moreover have "st_ok (view thr)" using start(2) by (auto simp: st_ok_def)
  ultimately obtain m st' where "run_loop (s_step (ld_code ld)) deliver m env (view thr) = Some (go, env', st', acts)" "\<not> go \<longrightarrow> st' = st"
    using tiled_run [OF S(1,3) keeps _ _ _ run] start(3) by blast
  then show thesis using that F S(3,4) by blast
qed

end
