(* ===== verification/Loader_Stores.thy ===== *)
theory Loader_Stores
  imports Loader_Run
begin

text \<open>
  The last step of loading: stores that write the whole of their signal get the direct handler (\<^verbatim>\<open>compile_cleanup\<close>).  The
  candidates are the stores with no offset, and the code with the direct handlers runs as before.
\<close>

section \<open>The candidates\<close>

abbreviation is_store :: "vvp_code_s \<Rightarrow> bool" where
  "is_store c \<equiv> opcode c = NETF OF_STORE_VEC4"

definition stores_ok :: "loader \<Rightarrow> bool" where
  "stores_ok ld \<longleftrightarrow> (\<forall>a \<in> set (full_width_store_candidates ld). a < next_slot ld \<and> (\<forall>c. ld_code ld a = Some c \<longrightarrow> is_store c \<longrightarrow> bit_idx0 c = 0))"

text \<open>What is done to the loader after a slot is filled puts no store into another one.\<close>

definition keeps_stores :: "loader \<Rightarrow> loader \<Rightarrow> bool" where
  "keeps_stores ld ld' \<longleftrightarrow> full_width_store_candidates ld' = full_width_store_candidates ld \<and> next_slot ld \<le> next_slot ld'
    \<and> (\<forall>x c. ld_code ld' x = Some c \<longrightarrow> is_store c \<longrightarrow> (\<exists>d. ld_code ld x = Some d \<and> is_store d \<and> bit_idx0 d = bit_idx0 c))"

lemma keeps_mark: "keeps_stores ld ld' \<Longrightarrow> keeps_stores ld (mark_slot ld')"
proof -
  assume k: "keeps_stores ld ld'"
  have "full_width_store_candidates (mark_slot ld') = full_width_store_candidates ld'" by (simp add: mark_slot_def codespace_next_def Let_def)
  moreover have "is_store c \<Longrightarrow> wrap_code M nx x = Some c \<Longrightarrow> M x = Some c" for M nx x c
    by (auto simp: wrap_code_def chunk_link_def split: if_splits)
  ultimately show ?thesis 
    using k order_trans [OF _ wrap_room(2), of "next_slot ld" "next_slot ld'"] unfolding keeps_stores_def mark_slot_code by metis
qed

lemma keeps_peep:
  "keeps_stores ld (ld'\<lparr>peep_prev_code := p\<rparr>) = keeps_stores ld ld'" "keeps_stores ld (ld'\<lparr>peep_pushi_wide := p\<rparr>) = keeps_stores ld ld'"
  "keeps_stores (ld\<lparr>peep_pushi_wide := p\<rparr>) ld' = keeps_stores ld ld'" "keeps_stores ld ld" "keeps_stores ld (note_pair a ld)"
  "keeps_stores (note_pair a ld) ld' = keeps_stores ld ld'"
proof -
  have "full_width_store_candidates (note_pair a ld) = full_width_store_candidates ld" by (simp add: note_pair_def split: option.splits prod.splits)
  then show "keeps_stores ld (ld'\<lparr>peep_prev_code := p\<rparr>) = keeps_stores ld ld'" "keeps_stores ld (ld'\<lparr>peep_pushi_wide := p\<rparr>) = keeps_stores ld ld'"
    "keeps_stores (ld\<lparr>peep_pushi_wide := p\<rparr>) ld' = keeps_stores ld ld'" "keeps_stores ld ld" "keeps_stores ld (note_pair a ld)"
    "keeps_stores (note_pair a ld) ld' = keeps_stores ld ld'" by (simp_all add: keeps_stores_def)
qed

lemma keeps_set:
  "keeps_stores ld ld' \<Longrightarrow> \<not> is_store c \<Longrightarrow> keeps_stores ld (set_slot a c ld')"
  "keeps_stores ld ld' \<Longrightarrow> ld_code ld a = Some d \<Longrightarrow> opcode c = opcode d \<Longrightarrow> bit_idx0 c = bit_idx0 d \<Longrightarrow> keeps_stores ld (set_slot a c ld')"
  by (auto simp: keeps_stores_def set_slot_def)

lemma keeps_end: "keeps_stores ld ld' \<Longrightarrow> keeps_stores ld (end_fusion ld')"
  unfolding end_fusion_def by (rule keeps_mark) (simp add: keeps_peep)

lemma wide_append_opcode: "wide_append slot c = Some slot' \<Longrightarrow> \<not> is_store slot'"
  by (auto simp: wide_append_def split: bind_splits if_splits)

text \<open>A slot that a fusion rewrites holds a fused opcode or a \<^verbatim>\<open>%noop\<close>, or keeps its opcode.\<close>

lemma keeps_fuse:
  "fuse_parti_op a ld = Some ld' \<Longrightarrow> keeps_stores ld ld'"
  "fuse_parti_replicate a ld = Some ld' \<Longrightarrow> keeps_stores ld ld'" "fuse_pushi_assign a ld = Some ld' \<Longrightarrow> keeps_stores ld ld'"
  "fuse_load_flag a ld = Some ld' \<Longrightarrow> keeps_stores ld ld'" "fuse_flag_setget a ld = Some ld' \<Longrightarrow> keeps_stores ld ld'"
  "fuse_cmpi_jmp a ld = Some ld' \<Longrightarrow> keeps_stores ld ld'" "fuse_load_parti q a ld = Some ld' \<Longrightarrow> keeps_stores ld ld'"
  by (auto simp: fuse_parti_op_def fuse_parti_replicate_def fuse_pushi_assign_def fuse_load_flag_def fuse_flag_setget_def
      fuse_cmpi_jmp_def fuse_load_parti_def keeps_peep Let_def split: bind_splits if_splits option.splits
      intro!: keeps_end keeps_set(1))

lemma keeps_dead:
  assumes "ld_code ld x = Some d"
  shows "keeps_stores ld (end_fusion (set_slot a (noop e) (set_slot x (d\<lparr>arg := v\<rparr>) (set_slot p (c\<lparr>opcode := FUSED f\<rparr>) ld))))"
  by (rule keeps_end, rule keeps_set(1), rule keeps_set(2) [OF _ assms], rule keeps_set(1)) (simp_all add: keeps_peep)

lemma keeps_pair_concat: "fuse_pair_concat value_size a ld = Some ld' \<Longrightarrow> keeps_stores ld ld'"
  by (auto simp: fuse_pair_concat_def Let_def split: bind_splits if_splits intro: keeps_dead)

lemma keeps_wide: "fuse_wide a ld = Some ld' \<Longrightarrow> keeps_stores ld ld'"
  using wide_append_opcode by (auto simp: fuse_wide_def keeps_peep split: bind_splits if_splits intro!: keeps_end keeps_set(1))


text \<open>Every item keeps the property of the candidates.\<close>

lemma stores_note: "stores_ok ld \<Longrightarrow> a < next_slot ld \<Longrightarrow> stores_ok (note_store a ld)"
  by (auto simp: stores_ok_def note_store_def split: option.splits)

lemma stores_keep:
  assumes "stores_ok ld" and "keeps_stores (placed c ld) ld'"
  shows "stores_ok ld'"
proof -
  have "a < next_slot ld' \<and> (\<forall>d. ld_code ld' a = Some d \<longrightarrow> is_store d \<longrightarrow> bit_idx0 d = 0)" if "a \<in> set (full_width_store_candidates ld)" for a
  proof -
    have a: "a < next_slot ld" "\<And>d. ld_code ld a = Some d \<Longrightarrow> is_store d \<Longrightarrow> bit_idx0 d = 0" using assms(1) that by (auto simp: stores_ok_def)
    have "next_slot ld < next_slot (placed c ld)" by simp
    then have "a < next_slot ld'" using a(1) assms(2) unfolding keeps_stores_def by (meson less_le_trans less_trans)
    moreover have "bit_idx0 d = 0" if d: "ld_code ld' a = Some d" "is_store d" for d
    proof -
      obtain e where "ld_code (placed c ld) a = Some e" "is_store e" "bit_idx0 e = bit_idx0 d" using assms(2) d unfolding keeps_stores_def by blast
      moreover have "a \<noteq> next_slot ld" using a(1) by simp
      ultimately show ?thesis using a(2) [of e] by simp
    qed
    ultimately show ?thesis by blast
  qed
  moreover have "full_width_store_candidates ld' = full_width_store_candidates ld" using assms(2) by (simp add: keeps_stores_def placed_def)
  ultimately show ?thesis by (simp add: stores_ok_def)
qed

lemma compile_code_stores:
  assumes ok: "stores_ok ld" and room: "current_within_chunk ld < code_chunk_size - 1"
  shows "stores_ok (compile_code False value_size c ld)"
proof -
  let ?a = "next_slot ld" and ?ld = "note_pair (next_slot ld) (placed c ld)"
  have less: "?a < next_slot (mark_slot ld')" if "keeps_stores (placed c ld) (mark_slot ld')" for ld'
  proof -
    have "?a < next_slot (placed c ld)" by simp
    with that show ?thesis unfolding keeps_stores_def by (meson less_le_trans)
  qed
  have noted: "keeps_stores ?ld ld' \<Longrightarrow> stores_ok (note_store ?a (mark_slot ld'))" for ld'
  proof -
    assume "keeps_stores ?ld ld'"
    then have k: "keeps_stores (placed c ld) (mark_slot ld')" by (simp add: keeps_peep keeps_mark)
    show ?thesis by (rule stores_note [OF stores_keep [OF ok k] less [OF k]])
  qed
  note fused = keeps_pair_concat keeps_fuse keeps_wide
  have *: "keeps_stores ?ld ld' \<Longrightarrow> stores_ok ld'" "keeps_stores (?ld\<lparr>peep_pushi_wide := None\<rparr>) ld' \<Longrightarrow> stores_ok ld'"
    "keeps_stores (?ld\<lparr>peep_pushi_wide := None\<rparr>) ld' \<Longrightarrow> stores_ok (note_store ?a (mark_slot ld'))" for ld'
    using stores_keep [OF ok] noted by (auto simp: keeps_peep)
  show ?thesis unfolding compile_enabled [OF room] Let_def
    by (auto split: option.splits dest!: fused intro: * simp: keeps_peep)
qed

lemma label_stores: "stores_ok ld \<Longrightarrow> current_within_chunk ld < code_chunk_size - 1 \<Longrightarrow> stores_ok (snd (compile_codelabel ld))"
  by (auto simp: stores_ok_def compile_codelabel_def codespace_next_def)

lemma load_items_stores:
  assumes "loaded value_size I L ldU ld" and "instrs is \<subseteq> I" and "\<forall>c \<in> instrs is. plain_instr c" and "stores_ok ld"
  shows "stores_ok (snd (load_items False value_size is ld))"
  using assms
proof (induction "is" arbitrary: L ldU ld)
  case (Cons i "is")
  have room: "current_within_chunk ld < code_chunk_size - 1" using Cons.prems(1) by (simp add: loaded_def)
  show ?case
  proof (cases i)
    case LABEL
    obtain a ldU1 ld1 where 1: "compile_codelabel ld = (a, ld1)" "loaded value_size I (insert a L) ldU1 ld1"
      using compile_label_loaded [OF Cons.prems(1)] by blast
    have "stores_ok ld1" using label_stores [OF Cons.prems(4) room] 1(1) by simp
    with Cons.IH [OF 1(2)] Cons.prems(2,3) 1(1) show ?thesis by (auto simp: LABEL instrs_def split: prod.splits)
  next
    case (INSTR c)
    have "c \<in> I" "plain_instr c" using Cons.prems(2,3) by (auto simp: instrs_def INSTR)
    from Cons.IH [OF compile_code_loaded [OF Cons.prems(1) this] _ _ compile_code_stores [OF Cons.prems(4) room]] Cons.prems(2,3)
    show ?thesis by (auto simp: INSTR instrs_def)
  qed
qed simp

section \<open>Direct stores\<close>

text \<open>The nets of known width carry a signal of that width.\<close>

definition nets_fit :: "(nat \<Rightarrow> nat option) \<Rightarrow> env \<Rightarrow> bool" where
  "nets_fit net_size env \<longleftrightarrow> (\<forall>net n. net_size net = Some n \<longrightarrow> (\<exists>sig. env_fil env net = Some sig \<and> v4_size (env_signal env sig) = n))"

lemma full_store:
  assumes env: "env_ok env" "nets_fit net_size env" and c: "is_store c" "bit_idx0 c = 0"
    and s: "s_execute env code a c st = Some r"
  shows "s_execute env code' a (full_width_store net_size c) st = Some r"
proof (cases "full_width_store net_size c = c")
  case True
  then show ?thesis using s c by (simp add: s_execute_def)
next
  case False
  then obtain net n where n: "code_net c = Some net" "net_size net = Some n" "n = unat (bit_idx1 c)" "full_width_store net_size c = c\<lparr>opcode := NETF OF_STORE_VEC4_FULL\<rparr>"
    by (auto simp: full_width_store_def split: option.splits if_splits bind_splits)
  obtain sig where sig: "env_fil env net = Some sig" "v4_size (env_signal env sig) = n" using env(2) n(2) by (auto simp: nets_fit_def)
  have len: "length (sig_bits env sig) = n" using sig(2) env(1) by (simp add: env_ok_def)
  obtain l st' where p: "pop_vec4 st = Some (l, st')" and l: "0 < n" "n \<le> length l" and r: "r = (st', store_effect net n 0 (take n l), True)"
    using s c n sig(1) len by (auto simp: s_execute_def s_store_def Let_def split: bind_splits if_splits)
  have "clip n 0 (take n l) = take n l" by (simp add: clip_def)
  moreover have "take n l \<noteq> []" using l by auto
  ultimately have "store_effect net n 0 (take n l) = [SEND_NET net (take n l)]" using l by (simp add: store_effect_def Let_def)
  moreover have "code_net (c\<lparr>opcode := NETF OF_STORE_VEC4_FULL\<rparr>) = Some net" using n(1) by (simp add: code_net_def)
  ultimately show ?thesis unfolding n(4) r using p l n(3) by (simp add: s_execute_def)
qed

text \<open>The code before and after: slots with the direct handler, and no other difference.\<close>

definition direct_stores :: "(nat \<Rightarrow> nat option) \<Rightarrow> codespace \<Rightarrow> codespace \<Rightarrow> bool" where
  "direct_stores net_size F D \<longleftrightarrow> (\<forall>x. D x = F x \<or> (\<exists>c. F x = Some c \<and> is_store c \<and> bit_idx0 c = 0 \<and> D x = Some (full_width_store net_size c)))"

lemma full_width_parts [simp]: "arg (full_width_store net_size c) = arg c" "bit_idx0 (full_width_store net_size c) = bit_idx0 c"
  "bit_idx1 (full_width_store net_size c) = bit_idx1 c"
  by (simp_all add: full_width_store_def split: option.splits)

lemma direct_other:
  assumes "direct_stores net_size F D"
  obtains (none) "F x = None" "D x = None" | (some) c d where "F x = Some c" "D x = Some d" "arg d = arg c" "bit_idx0 d = bit_idx0 c" "bit_idx1 d = bit_idx1 c"
  using assms unfolding direct_stores_def by (metis full_width_parts option.exhaust)

lemma code_args: "arg d = arg c \<Longrightarrow> code_number d = code_number c \<and> code_signal d = code_signal c \<and> code_cptr d = code_cptr c"
  by (simp add: code_number_def code_signal_def code_cptr_def)

lemma branch_args: "arg d = arg c \<Longrightarrow> bit_idx0 d = bit_idx0 c \<Longrightarrow> bit_idx1 d = bit_idx1 c \<Longrightarrow> cmpi_branch env d = cmpi_branch env c"
  using code_args [of d c] by (simp add: cmpi_branch_def [abs_def] cong: if_cong)

lemma part_args:
  assumes "arg d = arg c" and "bit_idx0 d = bit_idx0 c" and "bit_idx1 d = bit_idx1 c"
  shows "part_of env d = part_of env c" and "one_word n cp d = one_word n cp c"
  using assms code_args [of d c] by (simp_all add: part_of_def load_part_def one_word_def cong: option.case_cong if_cong)

lemma fused_direct:
  assumes d: "direct_stores net_size F D"
  shows "fused_spec f env D a cp st = fused_spec f env F a cp st"
proof (cases f)
  case OF_CMPI_JMP
  show ?thesis
  proof (cases rule: direct_other [OF d, of "code_add a 1"])
    case (2 c e)
    then show ?thesis by (simp add: OF_CMPI_JMP branch_args [OF 2(3-5)])
  qed (simp add: OF_CMPI_JMP)
next
  case OF_LOAD_PARTI_PAIR
  show ?thesis
  proof (cases rule: direct_other [OF d, of "code_add a 2"])
    case (2 c e)
    then show ?thesis by (simp add: OF_LOAD_PARTI_PAIR part_args [OF 2(3-5)])
  qed (simp add: OF_LOAD_PARTI_PAIR)
next
  case OF_LOAD_PARTI_PAIR_CONCAT
  show ?thesis
  proof (cases rule: direct_other [OF d, of "code_add a 2"])
    case (2 c e)
    note rhs = 2
    show ?thesis
    proof (cases rule: direct_other [OF d, of "code_add a 1"])
      case (2 c' e')
      then show ?thesis using rhs code_args [OF 2(3)] by (simp add: OF_LOAD_PARTI_PAIR_CONCAT part_args [OF rhs(3-5)] cong: if_cong)
    qed (simp add: OF_LOAD_PARTI_PAIR_CONCAT)
  qed (cases "D (code_add a 1)"; cases "F (code_add a 1)"; simp add: OF_LOAD_PARTI_PAIR_CONCAT)
next
  case OF_LOAD_PARTI_REPLICATE
  show ?thesis
  proof (cases rule: direct_other [OF d, of "(fst a, snd a - 2)"])
    case (2 c e)
    then show ?thesis using code_args [OF 2(3)] by (simp add: OF_LOAD_PARTI_REPLICATE)
  qed (simp add: OF_LOAD_PARTI_REPLICATE)
qed simp_all

lemma direct_step:
  assumes d: "direct_stores net_size F D" and env: "env_ok env" "nets_fit net_size env" and s: "s_step F env st = Some r"
  shows "s_step D env st = Some r"
proof -
  obtain c where c: "F (thr_pc st) = Some c" "s_execute env F (thr_pc st) c (st\<lparr>thr_pc := code_add (thr_pc st) 1\<rparr>) = Some r"
    using s by (auto simp: s_step_def split: bind_splits)
  consider "D (thr_pc st) = Some c" | "is_store c" "bit_idx0 c = 0" "D (thr_pc st) = Some (full_width_store net_size c)"
    using d c(1) unfolding direct_stores_def by (metis option.inject)
  then show ?thesis
  proof cases
    case 1
    then show ?thesis using c(2) fused_direct [OF d] by (cases "opcode c") (simp_all add: s_step_def s_execute_def)
  next
    case 2
    then show ?thesis using full_store [OF env 2(1,2) c(2), of D] by (simp add: s_step_def)
  qed
qed

lemma direct_run:
  assumes d: "direct_stores net_size F D"
    and keeps: "\<And>e env. env_ok env \<and> nets_fit net_size env \<Longrightarrow> env_ok (deliver e env) \<and> nets_fit net_size (deliver e env)"
    and "env_ok env \<and> nets_fit net_size env" and "run_loop (s_step F) deliver n env st = Some r"
  shows "run_loop (s_step D) deliver n env st = Some r"
  using assms(3,4)
proof (induction n arbitrary: env st r)
  case (Suc n)
  have deliver: "env_ok (fold deliver as env) \<and> nets_fit net_size (fold deliver as env)" for as
    by (induction as rule: rev_induct) (use Suc.prems(1) keeps in auto)
  obtain st1 as go where s: "s_step F env st = Some (st1, as, go)" using Suc.prems(2) by (auto split: bind_splits)
  have s': "s_step D env st = Some (st1, as, go)" using direct_step [OF d _ _ s] Suc.prems(1) by blast
  show ?case
  proof (cases go)
    case True
    then obtain q where q: "run_loop (s_step F) deliver n (fold deliver as env) st1 = Some q" using Suc.prems(2) s by auto
    from Suc.IH [OF deliver q] Suc.prems(2) s s' True q show ?thesis by simp
  qed (use Suc.prems(2) s s' in simp)
qed simp

lemma cleanup_direct:
  assumes "stores_ok ld"
  shows "direct_stores net_size (ld_code ld) (ld_code (compile_cleanup_stores net_size ld))"
proof -
  have "direct_stores net_size (ld_code ld) (fold (\<lambda>a code. code(a := map_option (full_width_store net_size) (code a))) cs M)"
    if "set cs \<subseteq> set (full_width_store_candidates ld)" "direct_stores net_size (ld_code ld) M" for cs M
    using that
  proof (induction cs arbitrary: M)
    case (Cons a cs)
    have "full_width_store net_size (full_width_store net_size c) = full_width_store net_size c" for c
      by (auto simp: full_width_store_def code_net_def split: option.splits)
    moreover have "\<not> is_store c \<Longrightarrow> full_width_store net_size c = c" for c by (auto simp: full_width_store_def split: option.splits)
    moreover have "is_store c \<Longrightarrow> bit_idx0 c = 0" if "ld_code ld a = Some c" for c using assms Cons.prems(1) that by (auto simp: stores_ok_def)
    moreover have "M a = ld_code ld a \<or> (\<exists>c. ld_code ld a = Some c \<and> is_store c \<and> bit_idx0 c = 0 \<and> M a = Some (full_width_store net_size c))"
      using Cons.prems(2) unfolding direct_stores_def by blast
    ultimately have "map_option (full_width_store net_size) (M a) = ld_code ld a
        \<or> (\<exists>c. ld_code ld a = Some c \<and> is_store c \<and> bit_idx0 c = 0 \<and> map_option (full_width_store net_size) (M a) = Some (full_width_store net_size c))"
      by (cases "ld_code ld a") auto
    then have "direct_stores net_size (ld_code ld) (M(a := map_option (full_width_store net_size) (M a)))"
      using Cons.prems(2) unfolding direct_stores_def by simp
    from Cons.IH [OF _ this] Cons.prems(1) show ?case by (simp del: fun_upd_apply)
  qed simp
  moreover have "direct_stores net_size (ld_code ld) (ld_code ld)" by (simp add: direct_stores_def)
  ultimately show ?thesis by (simp add: compile_cleanup_stores_def)
qed

section \<open>From the program to the run\<close>

text \<open>The nets and the scheduler keep the widths of signals and nets, and which signals have strengths.\<close>

definition deliver_ok :: "(nat \<Rightarrow> nat option) \<Rightarrow> (nat \<Rightarrow> nat option) \<Rightarrow> (thr_effect \<Rightarrow> env \<Rightarrow> env) \<Rightarrow> bool" where
  "deliver_ok value_size net_size deliver \<longleftrightarrow> (\<forall>e env. (env_ok env \<longrightarrow> env_ok (deliver e env)) \<and> (env_fits value_size env \<longrightarrow> env_fits value_size (deliver e env))
     \<and> (nets_fit net_size env \<longrightarrow> nets_fit net_size (deliver e env)) \<and> env_strong (deliver e env) = env_strong env)"

definition env_sized :: "(nat \<Rightarrow> nat option) \<Rightarrow> (nat \<Rightarrow> nat option) \<Rightarrow> env \<Rightarrow> bool" where
  "env_sized value_size net_size env \<longleftrightarrow> env_ok env \<and> env_fits value_size env \<and> nets_fit net_size env"

lemma direct_code_ok:
  assumes "direct_stores net_size F D" and "code_ok F"
  shows "code_ok D"
  unfolding code_ok_def
proof (intro allI impI)
  fix a d v assume "D a = Some d" and v: "arg d = CVEC v"
  then obtain c where "F a = Some c" "arg d = arg c" by (cases rule: direct_other [OF assms(1), of a]) auto
  with assms(2) v show "v4_inv v" by (simp add: code_ok_def)
qed

lemma program_runs:
  assumes prog: "program_ok labels is" and U: "load_items True value_size is codespace_init = (labels, ldU)"
    and deliver: "deliver_ok value_size net_size deliver"
    and start: "thr_pc thr \<in> set labels" "thr_ok thr" "env_sized value_size net_size env" "selects_in_range (ld_code ldU) env"
    and run: "run_loop (s_step (ld_code ldU)) deliver n env (view thr) = Some (go, env', st, acts)"
  obtains ld m thrU thrF where "load_items False value_size is codespace_init = (labels, ld)"
    and "vthread_loop deliver (ld_code ldU) n env thr = Some (go, env', thrU, acts)" and "view thrU = st"
    and "vthread_loop deliver (ld_code (compile_cleanup_stores net_size ld)) m env thr = Some (go, env', thrF, acts)" and "\<not> go \<longrightarrow> view thrF = st"
proof -
  have env: "env_ok env" "env_fits value_size env" "nets_fit net_size env" using start(3) by (simp_all add: env_sized_def)
  have d: "env_ok env \<Longrightarrow> env_ok (deliver e env)" "env_fits value_size env \<Longrightarrow> env_fits value_size (deliver e env)"
    "nets_fit net_size env \<Longrightarrow> nets_fit net_size (deliver e env)" "env_strong (deliver e env) = env_strong env" for e env
    using deliver by (simp_all add: deliver_ok_def)
  have suits: "env_suits value_size (ld_code ldU) env" using env start(4) by (simp add: env_suits_def)
  have keeps: "env_suits value_size (ld_code ldU) (deliver e env)" if "env_suits value_size (ld_code ldU) env" for e env
    using that d by (auto simp: env_suits_def selects_in_range_def)
  obtain ld m st' where F: "load_items False value_size is codespace_init = (labels, ld)" "code_ok (ld_code ldU)" "code_ok (ld_code ld)"
    and r: "run_loop (s_step (ld_code ld)) deliver m env (view thr) = Some (go, env', st', acts)" "\<not> go \<longrightarrow> st' = st"
    by (rule fused_program [OF prog U keeps start(1,2) suits run])
  have plain: "\<forall>c \<in> instrs is. plain_instr c" using prog by (simp add: program_ok_def)
  have "stores_ok (snd (load_items False value_size is codespace_init))"
    by (rule load_items_stores [OF init_loaded order_refl plain]) (simp add: stores_ok_def codespace_init_def)
  then have direct: "direct_stores net_size (ld_code ld) (ld_code (compile_cleanup_stores net_size ld))" using F(1) by (simp add: cleanup_direct)
  have r': "run_loop (s_step (ld_code (compile_cleanup_stores net_size ld))) deliver m env (view thr) = Some (go, env', st', acts)"
    by (rule direct_run [OF direct _ _ r(1)]) (use d env in blast)+
  obtain thrU where "vthread_loop deliver (ld_code ldU) n env thr = Some (go, env', thrU, acts)" "view thrU = st"
    using loop_sim [OF env(1) F(2) start(2) d(1) run] by blast
  moreover obtain thrF where "vthread_loop deliver (ld_code (compile_cleanup_stores net_size ld)) m env thr = Some (go, env', thrF, acts)" "view thrF = st'"
    using loop_sim [OF env(1) direct_code_ok [OF direct F(3)] start(2) d(1) r'] by blast
  ultimately show thesis using that F(1) r(2) by blast
qed

end
