(* ===== verification/Programs.thy ===== *)
theory Programs
  imports Loader_Stores
begin

text \<open>
  The two properties of whole runs: the interpreter implements its specification, and a program loaded with fusion and direct
  stores runs as the program without them.  A small program that is fused in two places and has a direct store shows both at work.
\<close>

section \<open>A program\<close>

text \<open>Without fusion the instructions lie in consecutive slots, as long as the chunk has room.\<close>

lemma load_lays:
  assumes "current_within_chunk ld + length cs < code_chunk_size - 1"
  shows "\<exists>ld'. load_items True value_size (map INSTR cs) ld = ([], ld') \<and> lays (ld_code ld') (next_slot ld) cs \<and> (\<forall>x < next_slot ld. ld_code ld' x = ld_code ld x)"
  using assms
proof (induction cs arbitrary: ld)
  case (Cons c cs)
  let ?ld = "compile_code True value_size c ld"
  have room: "current_within_chunk ld < code_chunk_size - 1" using Cons.prems by simp
  have nx: "next_slot ?ld = code_add (next_slot ld) 1" and code: "ld_code ?ld = (ld_code ld)(next_slot ld \<mapsto> c)"
    using compile_disabled [OF room, of value_size c] Cons.prems by (simp_all add: wrap_next_def wrap_code_def code_add_def)
  have "current_within_chunk ?ld + length cs < code_chunk_size - 1" using Cons.prems arg_cong [OF nx, of snd] by simp
  from Cons.IH [OF this] obtain ld' where ld': "load_items True value_size (map INSTR cs) ?ld = ([], ld')" "lays (ld_code ld') (next_slot ?ld) cs"
    "\<forall>x < next_slot ?ld. ld_code ld' x = ld_code ?ld x" by blast
  have "ld_code ld' (next_slot ld) = Some c" using ld'(3) code unfolding nx by simp
  moreover have "\<forall>x < next_slot ld. ld_code ld' x = ld_code ld x"
  proof (intro allI impI)
    fix x assume "x < next_slot ld"
    moreover then have "x < next_slot ?ld" unfolding nx using code_add_less(2) less_trans by (metis zero_less_one)
    ultimately show "ld_code ld' x = ld_code ld x" using ld'(3) code by auto
  qed
  ultimately show ?case using ld'(1,2) unfolding nx by (simp add: lays_Cons)
qed (simp)

text \<open>A thread that selects two bits of a signal, stores them, schedules a non-blocking assignment and waits.\<close>

definition demo_thread :: vthread where
  "demo_thread = \<lparr>thr_pc = (0, 1), thr_flags = replicate 512 BIT4_0, thr_words = replicate 16 0, thr_stack = []\<rparr>"

definition demo_env :: env where
  "demo_env = \<lparr>env_signal = (\<lambda>s. if s = 0 then v4_immediate 4 10 0 else v4_fill 2 BIT4_X), env_strong = (\<lambda>_. None), env_fil = (\<lambda>n. Some 1), env_stopped = False\<rparr>"

definition demo_instr :: "vvp_code_fun \<Rightarrow> operand \<Rightarrow> 32 word \<Rightarrow> 32 word \<Rightarrow> vvp_code_s" where
  "demo_instr f x i j = \<lparr>opcode = f, arg = x, bit_idx0 = i, bit_idx1 = j\<rparr>"

definition demo_code :: "vvp_code_s list" where
  "demo_code = [demo_instr (NETF OF_LOAD_VEC4) (SIGNAL 0) 0 0, demo_instr (VEC OF_PARTI_U) (NUMBER 2) 1 32,
     demo_instr (NETF OF_STORE_VEC4) (NET 0) 0 2, demo_instr (VEC OF_PUSHI_VEC4) (NUMBER 3) 5 0,
     demo_instr (NETF OF_ASSIGN_VEC4) (NET 1) 7 0, demo_instr (NETF OF_DELAY) (NUMBER 0) 9 0]"

definition demo_acts :: "thr_effect list" where
  "demo_acts = [SEND_NET 0 [BIT4_1, BIT4_0], SCHEDULE_ASSIGN 1 [BIT4_1, BIT4_0, BIT4_1] 7, SCHEDULE_VTHREAD 9]"

lemma demo_ok: "env_ok demo_env" "thr_ok demo_thread" "thr_pc demo_thread = (0, 1)"
proof -
  have "v4_inv (v4_immediate 4 10 0)" by code_simp
  then show "env_ok demo_env" by (simp add: env_ok_def demo_env_def v4_fill_inv)
  show "thr_ok demo_thread" "thr_pc demo_thread = (0, 1)" by (simp_all add: thr_ok_def demo_thread_def FLAGS_COUNT_def WORDS_COUNT_def)
qed

lemma demo_run:
  assumes "lays U (0, 1) demo_code"
  obtains st where "run_loop (s_step U) (\<lambda>e env. env) 6 demo_env (view demo_thread) = Some (False, demo_env, st, demo_acts)"
proof -
  have at: "U (0, Suc 0) = Some (demo_instr (NETF OF_LOAD_VEC4) (SIGNAL 0) 0 0)" "U (0, 2) = Some (demo_instr (VEC OF_PARTI_U) (NUMBER 2) 1 32)"
    "U (0, 3) = Some (demo_instr (NETF OF_STORE_VEC4) (NET 0) 0 2)" "U (0, 4) = Some (demo_instr (VEC OF_PUSHI_VEC4) (NUMBER 3) 5 0)"
    "U (0, 5) = Some (demo_instr (NETF OF_ASSIGN_VEC4) (NET 1) 7 0)" "U (0, 6) = Some (demo_instr (NETF OF_DELAY) (NUMBER 0) 9 0)"
    using assms unfolding demo_code_def by (simp_all add: lays_Cons code_add_def eval_nat_numeral)
  have bits: "sig_bits demo_env 0 = [BIT4_0, BIT4_1, BIT4_0, BIT4_1]" "length (sig_bits demo_env 1) = 2" by code_simp+
  have imm: "code_imm (demo_instr f (NUMBER 3) 5 0) = Some [BIT4_1, BIT4_0, BIT4_1]" for f
  proof -
    have "imm_bits 3 5 0 = [BIT4_1, BIT4_0, BIT4_1]" by code_simp
    then show ?thesis by (simp add: code_imm_def code_unsigned_def code_number_def demo_instr_def)
  qed
  define st where "st = (\<lambda>k l. \<lparr>thr_pc = (0, k), thr_flags = replicate 512 BIT4_0, thr_words = replicate 16 0, thr_stack = l\<rparr> :: sthread)"
  have 0: "view demo_thread = st 1 []" by (simp add: view_def demo_thread_def st_def)
  have 1: "s_step U demo_env (st 1 []) = Some (st 2 [[BIT4_0, BIT4_1, BIT4_0, BIT4_1]], [], True)"
    using bits by (simp add: st_def s_step_def s_execute_def at demo_instr_def code_signal_def push_vec4_def code_add_def)
  have "select 2 1 [BIT4_0, BIT4_1, BIT4_0, BIT4_1] = [BIT4_1, BIT4_0]" "part_fits 2 [BIT4_0, BIT4_1, BIT4_0, BIT4_1]"
    by (code_simp, simp add: part_fits_def)
  then have 2: "s_step U demo_env (st 2 [[BIT4_0, BIT4_1, BIT4_0, BIT4_1]]) = Some (st 3 [[BIT4_1, BIT4_0]], [], True)"
    by (simp add: st_def s_step_def s_execute_def at demo_instr_def code_unsigned_def code_number_def parti_base_def edit_top_def peek_vec4_def poke_vec4_def code_add_def)
  have "store_effect 0 2 0 [BIT4_1, BIT4_0] = [SEND_NET 0 [BIT4_1, BIT4_0]]" by (simp add: store_effect_def clip_def)
  moreover have "env_fil demo_env 0 = Some 1" by (simp add: demo_env_def)
  ultimately have 3: "s_step U demo_env (st 3 [[BIT4_1, BIT4_0]]) = Some (st 4 [], [SEND_NET 0 [BIT4_1, BIT4_0]], True)"
    using bits(2) by (simp add: st_def s_step_def s_execute_def at demo_instr_def code_net_def s_store_def pop_vec4_def code_add_def Let_def)
  have 4: "s_step U demo_env (st 4 []) = Some (st 5 [[BIT4_1, BIT4_0, BIT4_1]], [], True)"
    using imm by (simp add: st_def s_step_def s_execute_def at demo_instr_def push_vec4_def code_add_def)
  have 5: "s_step U demo_env (st 5 [[BIT4_1, BIT4_0, BIT4_1]]) = Some (st 6 [], [SCHEDULE_ASSIGN 1 [BIT4_1, BIT4_0, BIT4_1] 7], True)"
    by (simp add: st_def s_step_def s_execute_def at demo_instr_def code_net_def pop_vec4_def code_add_def)
  have "push_bit 32 (ucast (0 :: 32 word)) OR ucast (9 :: 32 word) = (9 :: 64 word)" by code_simp
  then have 6: "s_step U demo_env (st 6 []) = Some (st 7 [], [SCHEDULE_VTHREAD 9], False)"
    by (simp add: st_def s_step_def s_execute_def at demo_instr_def of_DELAY_def delay_by_def code_add_def)
  have six: "6 = Suc (Suc (Suc (Suc (Suc (Suc 0)))))" by simp
  show thesis by (rule that [of "st 7 []"]) (unfold six, simp add: 0 [simplified] 1 [simplified] 2 3 4 5 6 demo_acts_def)
qed



lemma demo_plain: "c \<in> set demo_code \<Longrightarrow> plain_instr c \<and> (\<forall>t. arg c \<noteq> CPTR t) \<and> (\<forall>n. code_unsigned c = Some n \<longrightarrow> n < 2 ^ 21)"
  by (auto simp: demo_code_def demo_instr_def plain_instr_def code_unsigned_def code_number_def)

section \<open>The properties\<close>



text \<open>C1: Instruction fusion and direct stores change nothing that can be observed.  A program whose jumps go to its labels and whose immediate
  constants have less than 2^21 bits is loaded with its labels at the same addresses with fusion and without; from any label, when the run of
  the program as written is defined, the loop of \<^verbatim>\<open>vthread_run\<close> on the fused code, in which full-width stores have the direct handler,
  has the same effects in the same order and stops exactly when it does, with the same flags, registers and stack.  The nets keep the widths
  of the signals, and a load of a signal with drive strengths that is followed by a part select of one bit and a \<^verbatim>\<open>%replicate\<close> selects a
  bit of the signal; beyond its end the fused opcode fails an assertion.\<close>

theorem loaded_program_runs:
  assumes "program_ok labels is" and "load_items True value_size is codespace_init = (labels, ldU)" and "deliver_ok value_size net_size deliver"
    and "thr_pc thr \<in> set labels" and "thr_ok thr" and "env_sized value_size net_size env" and "selects_in_range (ld_code ldU) env"
    and "run_loop (s_step (ld_code ldU)) deliver n env (view thr) = Some (go, env', st, acts)"
  shows "\<exists>ld m thrU thrF. load_items False value_size is codespace_init = (labels, ld)
    \<and> vthread_loop deliver (ld_code ldU) n env thr = Some (go, env', thrU, acts)
    \<and> vthread_loop deliver (ld_code (compile_cleanup_stores net_size ld)) m env thr = Some (go, env', thrF, acts)
    \<and> (\<not> go \<longrightarrow> view thrF = view thrU)"
  by (rule program_runs [OF assms]) blast

theorem loaded_program_runs_witness:
  "\<exists>ld m thr'. load_items False [0 \<mapsto> 4] (LABEL # map INSTR demo_code) codespace_init = ([(0, 1)], ld)
    \<and> vthread_loop (\<lambda>e env. env) (ld_code (compile_cleanup_stores [0 \<mapsto> 2] ld)) m demo_env demo_thread = Some (False, demo_env, thr', demo_acts)"
proof -
  let ?ld = "codespace_init\<lparr>peep_prev_code := None, peep_parti_pair_lhs := None, peep_pushi_wide := None\<rparr>" and ?is = "LABEL # map INSTR demo_code"
  have ld: "compile_codelabel codespace_init = ((0, 1), ?ld)" "next_slot ?ld = (0, 1)"
    by (simp_all add: compile_codelabel_def codespace_next_def codespace_init_def code_chunk_size_def)
  have "current_within_chunk ?ld + length demo_code < code_chunk_size - 1" by (simp add: codespace_init_def code_chunk_size_def demo_code_def)
  from load_lays [OF this, of "[0 \<mapsto> 4]"] obtain ldU where U: "load_items True [0 \<mapsto> 4] (map INSTR demo_code) ?ld = ([], ldU)" "lays (ld_code ldU) (0, 1) demo_code"
    unfolding ld(2) by blast
  obtain st where run: "run_loop (s_step (ld_code ldU)) (\<lambda>e env. env) 6 demo_env (view demo_thread) = Some (False, demo_env, st, demo_acts)"
    by (rule demo_run [OF U(2)])
  have "load_items True [0 \<mapsto> 4] ?is codespace_init = ([(0, 1)], ldU)" using U(1) ld(1) by simp
  moreover have "program_ok [(0, 1)] ?is" using demo_plain by (auto simp: program_ok_def instrs_def)
  moreover have "env_sized [0 \<mapsto> 4] [0 \<mapsto> 2] demo_env" using demo_ok(1)
    by (auto simp: env_sized_def env_fits_def nets_fit_def demo_env_def v4_immediate_def allocate_words_def v4_fill_def Let_def)
  moreover have "deliver_ok [0 \<mapsto> 4] [0 \<mapsto> 2] (\<lambda>e env. env)" by (simp add: deliver_ok_def)
  moreover have "selects_in_range (ld_code ldU) demo_env" by (simp add: selects_in_range_def demo_env_def)
  ultimately show ?thesis using loaded_program_runs [of "[(0, 1)]" ?is "[0 \<mapsto> 4]" ldU "[0 \<mapsto> 2]" "\<lambda>e env. env" demo_thread demo_env 6 False demo_env st demo_acts]
      demo_ok run by auto
qed

end
