(* ===== verification/Spec2Isabelle.thy ===== *)
theory Spec2Isabelle
  imports Carry Vector4_Value Vector4_Concat Vector2_Arith Text Simulate Wiring Arith Resolver Devices Thread_Types Programs
begin

text \<open>
  Verification of the simulation core of the \<^verbatim>\<open>vvp\<close> run time (\<^verbatim>\<open>src/vvp\<close>): the values it computes with, the
  functors that make up a net, the event scheduler that runs them, the interpreter of the behavioural threads, and the
  loader that puts their code into memory and fuses instructions.

  \<^bold>\<open>The program.\<close>  The compiler translates Verilog into a file that \<^verbatim>\<open>vvp\<close> loads as a graph of functors and a set of
  threads.  A functor receives a value at a port, computes with the vector classes, and either sends its result
  along the net at once or schedules itself.  The scheduler keeps the events of every future time in lists
  ordered by the strata of the language and runs them.  A thread is a stack machine: its opcodes compute on a stack of
  vectors, on flags and on index registers, read signals, store into nets and schedule assignments.  The loader puts
  the instructions of the threads into chunks of slots and replaces runs of adjacent ones by fused opcodes.

  \<^bold>\<open>Values.\<close>
  \<^item> \<open>Bit4\<close>: \<^verbatim>\<open>vvp_bit4_t\<close>, its operators, one-bit addition, edges (\<^verbatim>\<open>vvp_net.h\<close>, \<^verbatim>\<open>vvp_net.cc\<close>).
  \<^item> \<open>Carry\<close>: the 64-bit word operations with carry, native and portable.
  \<^item> \<open>Vector4\<close>, \<open>Vector4_Move\<close>, \<open>Vector4_Shift\<close>, \<open>Vector4_Concat\<close>, \<open>Vector4_Arith\<close>, \<open>Vector4_Value\<close>: \<^verbatim>\<open>vvp_vector4_t\<close> as two
    planes of 64-bit words (\<open>v4_abits\<close>, \<open>v4_bbits\<close>; one inline word up to 64 bits).  \<open>v4_list\<close> is the abstract value, the list of
    bits; the lemmas relate every operation on words to the list, so nothing depends on the unused bits of
    the last word.
  \<^item> \<open>Vector2\<close>, \<open>Vector2_Arith\<close>: \<^verbatim>\<open>vvp_vector2_t\<close>, with \<open>v2_val\<close>, the unsigned number, as the abstract value.
  \<^item> \<open>Strength\<close>, \<open>Vector8\<close>: \<^verbatim>\<open>vvp_scalar_t\<close> as a byte, the resolution of drives, \<^verbatim>\<open>vvp_vector8_t\<close> and its reduction
    to \<^verbatim>\<open>vvp_vector4_t\<close> (also \<^verbatim>\<open>vthread_tail.cc\<close>).
  \<^item> \<open>Text\<close>: C4 and C8 literals and the printed forms.
  \<^item> \<open>Bit_Store\<close>: the locale of a vector with a bit writer, interpreted for the three classes; the lemmas on loops
    that fill or overwrite a vector are proved there once.

  \<^bold>\<open>Functors.\<close>
  \<^item> \<open>Functor\<close>: messages, answers, the default methods of \<^verbatim>\<open>vvp_net_fun_t\<close>, \<^verbatim>\<open>vvp_fun_drive\<close>, and the locale \<open>deferred_functor\<close>,
    the contract of a functor that schedules itself: it is in the queue at most once, and when it is not, the
    last value it sent is its output.
  \<^item> \<open>Logic\<close> (\<^verbatim>\<open>logic.cc\<close>), \<open>Wiring\<close> (\<^verbatim>\<open>concat.cc\<close>, \<^verbatim>\<open>part.cc\<close>): interpretations of the locale for each class, and what each class
    computes.
  \<^item> \<open>Arith\<close> (\<^verbatim>\<open>arith.cc\<close>): the functors that answer at once.
  \<^item> \<open>Resolver\<close> (\<^verbatim>\<open>resolv.cc\<close>): nets with several drivers.  The state is the array of the nodes of the quaternary tree;
    the locale \<open>net_values\<close> shows that the tree is current after every message, for any merge operation, and is interpreted for the
    strengths of tri nets and the bits of wired nets.  The locale \<open>port_functor\<close> lifts what one message does to a sequence of messages.
  \<^item> \<open>Devices\<close>: the reductions (\<^verbatim>\<open>reduce.cc\<close>), the three-state buffers (\<^verbatim>\<open>bufif.cc\<close>), the MOS switches (\<^verbatim>\<open>npmos.cc\<close>), and the flip-flops
    (\<^verbatim>\<open>dff.cc\<close>).  Buffers and switches are compared with the drives an unknown control admits.

  \<^bold>\<open>Scheduler\<close> (\<^verbatim>\<open>schedule.cc\<close>).
  \<^item> \<open>Ring_Queue\<close>: the circular lists of events with their next pointers, refined to first-in first-out queues.
  \<^item> \<open>Schedule\<close>: the time steps and every scheduling entry point on the list of steps.
  \<^item> \<open>Simulate\<close>: \<^verbatim>\<open>schedule_simulate\<close> as a step relation.  What the run of an event does is a parameter of the relation: any
    sequence of scheduling calls.  The runs with elapsed time (\<open>timed_run\<close>) show that no event is lost, made up or run at another time.

  \<^bold>\<open>Threads\<close> (\<^verbatim>\<open>vthread.cc\<close>, \<^verbatim>\<open>vthread_tail.cc\<close>).
  \<^item> \<open>Thread\<close>: the thread (\<open>vthread_s\<close>: program counter, flags, index registers, vector stack) and a handler for every opcode on
    vectors, flags and index registers that is not listed below as missing.
  \<^item> \<open>Division\<close>, \<open>Remainder\<close>: long division on arrays of words and on arrays of bits, compared with the division of integers.
  \<^item> \<open>Thread_Div\<close>, \<open>Thread_Quot\<close>: the opcodes that divide and raise to a power, and their specification on lists of bits.
  \<^item> \<open>Thread_Run\<close>: the opcodes that jump, read signals and store, the fused opcodes, the dispatch (\<open>execute\<close>), and the loop of
    \<^verbatim>\<open>vthread_run\<close>.  What a thread reads of the simulator is the record \<open>env\<close>; what it does to it is a list of effects.
  \<^item> \<open>Thread_Spec\<close>, \<open>Thread_Sim\<close>, \<open>Thread_Vec\<close>, \<open>Thread_Net\<close>, \<open>Thread_Fused\<close>: the specification of every opcode on lists of bits, a partial
    function that is defined where the operands have the widths the opcode is meant for, and the refinement: where it is defined the
    handler succeeds, keeps the thread well formed, and has the specified result and effects.  The refinement is lifted to the loop.
  \<^item> \<open>Thread_Types\<close>: stack types for code.  A typed program is one on which the specification is always defined, so its
    threads never fail an assertion.

  \<^bold>\<open>Loader\<close> (\<^verbatim>\<open>compile.cc\<close>, \<^verbatim>\<open>codes.cc\<close>).
  \<^item> \<open>Fusion\<close>, \<open>Fusion_Run\<close>: the relation between a run of instructions and the slots the loader leaves for it, one case for each
    fusion, and that code tiled by such groups runs as the instructions do.
  \<^item> \<open>Loader\<close>: the code space, the peephole state, each fusion, \<^verbatim>\<open>compile_code\<close>, \<^verbatim>\<open>compile_codelabel\<close>, \<^verbatim>\<open>compile_cleanup\<close>.
  \<^item> \<open>Loader_Tiles\<close>, \<open>Loader_Inv\<close>, \<open>Loader_Run\<close>, \<open>Loader_Stores\<close>: the invariant of the loader.  Loading with and without fusion puts the
    instructions at the same addresses, the fused code is tiled, no label points into a group, and the direct stores
    selected at the end write what the general ones write.
  \<^item> \<open>Programs\<close>: the properties of whole runs.

  \<^bold>\<open>Conventions.\<close>  A failed assertion, an out of range access or an abort is \<open>None\<close>.  C++ loops that always end are \<open>for_each\<close> over
  an index list or structural recursion; loops with a data-dependent end (division, power, the walk over the
  time steps) are functions with a termination proof or recursion over the list they walk.  Words are 64 bits wide, \<^verbatim>\<open>int\<close> is 32 bits wide; vector widths are
  natural numbers.  Objects are values: copying and moving, reference counts and the pooled allocators have no
  counterpart.

  \<^bold>\<open>Bounds.\<close>  Simulation time is a word of 64 bits that wraps around as \<^verbatim>\<open>schedule_time\<close> does; the properties of runs speak of the
  time that has elapsed, which does not.  The widths of vectors are natural numbers without an upper bound in the vector classes and the
  functors.  The opcodes of threads keep the 32 bits of the code: the width and the addresses of \<^verbatim>\<open>%replicate\<close> wrap around
  (\<open>replicate_width_wraps\<close>), part selects cast widths to \<^verbatim>\<open>int32_t\<close>, and a concatenation or a part whose end does not fit into 32 bits has no
  meaning.  The specification and the stack types are defined below these limits.  The constants that the loader joins are assumed to have
  less than \<open>2 ^ 21\<close> bits each, so that the wide constant of a chunk has less than \<open>2 ^ 31\<close> (\<open>wide_constant_width\<close>).  A signal may be a
  \<^verbatim>\<open>vvp_wire_vec8\<close> (\<open>env_strong\<close>), whose single bits are read with an assertion; the fused replication fails it beyond the end of the signal
  where the instructions it replaces give x (\<open>fused_replicate_aborts\<close>), so the equivalence of fused code asks for \<open>selects_in_range\<close>.  The loop of a thread is not bounded in the code; the model takes a number of turns and gives
  the thread it has reached when they are used up, and the properties hold for every number.  The loop that corrects a digit of a
  quotient is a partial function, \<open>None\<close> where it would not end.  Quotients of more than 64 bits are specified where \<open>digits_ok\<close> holds;
  outside of it \<^verbatim>\<open>divide_bits\<close> loses digits (\<open>divide_bits_product_wraps\<close>, \<open>divide_bits_guess_wraps\<close>).

  \<^bold>\<open>Not modelled.\<close>  Real, string and object values and the functors and opcodes on them; the opcodes for arrays
  and queues, for force and release, and those that fork, join, disable, wait or call; delays, events, primitives, islands, arrays, and
  the code that builds the net; in the loader the lookup of opcodes and symbols; signal handlers; VPI; and outside of \<^verbatim>\<open>vvp\<close> the
  compiler, its code generators, the preprocessors and \<^verbatim>\<open>vhdlpp\<close>.  They rest on the VPI objects, on pointers between
  threads and scopes, or on text handling, which need a model of the heap that the parts above do without.
\<close>

section \<open>Four-valued bits\<close>

text \<open>The bit operators of the simulator read x and z as unknown: every result admits the
  result on any reading of the operands, and when all readings agree the result is known.\<close>

lemma bit4_operators_exact:
  assumes "(F, f) \<in> {(bit4_and, (\<and>)), (bit4_or, (\<or>)), (bit4_xor, (\<noteq>))}"
  shows "(\<forall>p q. bit4_admits a p \<longrightarrow> bit4_admits b q \<longrightarrow> bit4_admits (F a b) (f p q))
    \<and> (\<forall>v. (\<forall>p q. bit4_admits a p \<longrightarrow> bit4_admits b q \<longrightarrow> f p q = v) \<longrightarrow> F a b = (if v then BIT4_1 else BIT4_0))"
proof (intro conjI allI impI)
  fix p q assume "bit4_admits a p" "bit4_admits b q"
  from bit4_ops_sound [OF this] assms show "bit4_admits (F a b) (f p q)" by auto
next
  fix v assume "\<forall>p q. bit4_admits a p \<longrightarrow> bit4_admits b q \<longrightarrow> f p q = v"
  with assms show "F a b = (if v then BIT4_1 else BIT4_0)" by (intro bit4_ops_optimal [where f = f]) auto
qed

text \<open>The edge classification is the sign of the change of level, with 0 low, 1 high and x, z
  between.\<close>

lemma edge_is_level_change: "edge from to = sgn (bit4_level to - bit4_level from)"
  by (rule edge_level)

section \<open>Packed four-valued vectors\<close>

text \<open>C4: Addition and subtraction of equally wide vectors return; the result is all x when an operand
  has an x or z bit, and otherwise the sum or difference modulo two to the width, across any
  number of words.\<close>

theorem v4_add_sub_modular:
  assumes "v4_inv v" and "v4_inv w" and "v4_size v = v4_size w"
  shows "\<exists>s d. v4_add v w = Some s \<and> v4_inv s \<and> v4_sub v w = Some d \<and> v4_inv d
    \<and> v4_list s = (if list_ex bit4_is_xz (v4_list v @ v4_list w) then replicate (v4_size v) BIT4_X
        else bits_of (v4_size v) (bits_val (v4_list v) + bits_val (v4_list w)))
    \<and> v4_list d = (if list_ex bit4_is_xz (v4_list v @ v4_list w) then replicate (v4_size v) BIT4_X
        else bits_of (v4_size v) (bits_val (v4_list v) - bits_val (v4_list w)))"
proof -
  obtain s where "v4_add v w = Some s" "v4_inv s" "v4_list s =
    (if v4_has_xz v \<or> v4_has_xz w then replicate (v4_size v) BIT4_X
     else bits_of (v4_size v) (bits_val (v4_list v) + bits_val (v4_list w)))"
    using v4_add_spec [OF assms] by blast
  moreover obtain d where "v4_sub v w = Some d" "v4_inv d" "v4_list d =
    (if v4_has_xz v \<or> v4_has_xz w then replicate (v4_size v) BIT4_X
     else bits_of (v4_size v) (bits_val (v4_list v) - bits_val (v4_list w)))"
    using v4_sub_spec [OF assms] by blast
  ultimately show ?thesis using assms by (simp add: v4_has_xz_list)
qed

theorem v4_add_sub_modular_witness:
  "\<exists>s d. v4_add (v4_fill 70 BIT4_0) (v4_fill 70 BIT4_1) = Some s
    \<and> v4_sub (v4_fill 70 BIT4_0) (v4_fill 70 BIT4_Z) = Some d
    \<and> v4_list s = bits_of 70 (bits_val (replicate 70 BIT4_0) + bits_val (replicate 70 BIT4_1))
    \<and> v4_list d = replicate 70 BIT4_X"
  using v4_add_sub_modular [OF v4_fill_inv v4_fill_inv, of 70 BIT4_0 70 BIT4_1]
    v4_add_sub_modular [OF v4_fill_inv v4_fill_inv, of 70 BIT4_0 70 BIT4_Z]
  by (auto simp: v4_fill_list list_ex_iff)

text \<open>C5: Multiplication of equally wide vectors returns, in place and with the leading zero words
  skipped; the result is all x when an operand has an x or z bit and otherwise the product modulo
  two to the width.\<close>

theorem v4_mul_modular:
  assumes "v4_inv v" and "v4_inv w" and "v4_size v = v4_size w"
  shows "\<exists>r. v4_mul v w = Some r \<and> v4_inv r
    \<and> v4_list r = (if list_ex bit4_is_xz (v4_list v @ v4_list w) then replicate (v4_size v) BIT4_X
        else bits_of (v4_size v) (bits_val (v4_list v) * bits_val (v4_list w)))"
proof -
  obtain r where "v4_mul v w = Some r" "v4_inv r" "v4_list r =
    (if v4_has_xz v \<or> v4_has_xz w then replicate (v4_size v) BIT4_X
     else bits_of (v4_size v) (bits_val (v4_list v) * bits_val (v4_list w)))"
    using v4_mul_spec [OF assms] by blast
  with assms show ?thesis by (simp add: v4_has_xz_list)
qed

theorem v4_mul_modular_witness:
  "\<exists>r. v4_mul (v4_fill 130 BIT4_1) (v4_fill 130 BIT4_1) = Some r
    \<and> v4_list r = bits_of 130 (bits_val (replicate 130 BIT4_1) * bits_val (replicate 130 BIT4_1))"
  using v4_mul_modular [OF v4_fill_inv v4_fill_inv, of 130 BIT4_1 130 BIT4_1]
  by (auto simp: v4_fill_list list_ex_iff)

text \<open>Writing a vector into a part of another replaces exactly that part, in every layout of words
  and offsets, and reports a difference exactly when a bit changed.\<close>

lemma v4_set_vec_replaces:
  assumes "v4_inv v" and "v4_inv w" and "adr + v4_size w \<le> v4_size v" and "adr < v4_size v"
  shows "\<exists>d r. v4_set_vec v adr w = Some (d, r) \<and> v4_inv r
    \<and> v4_list r = take adr (v4_list v) @ v4_list w @ drop (adr + v4_size w) (v4_list v)
    \<and> (d \<longleftrightarrow> v4_list r \<noteq> v4_list v)"
  using v4_set_vec_spec [OF assms] by blast

text \<open>A part select returns the addressed bits and x beyond the end of the source.\<close>

lemma v4_subvalue_selects:
  assumes "v4_inv v"
  shows "\<exists>r. v4_subvalue v adr n = Some r \<and> v4_inv r
    \<and> v4_list r = take n (drop adr (v4_list v)) @ replicate (n - (v4_size v - adr)) BIT4_X"
proof -
  obtain r where r: "v4_subvalue v adr n = Some r" "v4_inv r" "v4_size r = n"
    "\<And>i. i < n \<Longrightarrow> v4_value r i = v4_value v (adr + i)"
    using v4_subvalue_spec [OF assms] by blast
  moreover have "v4_list r = take n (drop adr (v4_list v)) @ replicate (n - (v4_size v - adr)) BIT4_X"
    using r by (intro v4_listI) (auto simp: nth_append)
  ultimately show ?thesis by blast
qed

text \<open>C7: Reading back the part just written returns the written vector.\<close>

theorem v4_set_vec_subvalue_roundtrip:
  assumes "v4_inv v" and "v4_inv w" and "adr + v4_size w \<le> v4_size v" and "adr < v4_size v"
  shows "\<exists>d r u. v4_set_vec v adr w = Some (d, r) \<and> v4_subvalue r adr (v4_size w) = Some u \<and> v4_eeq u w"
proof -
  obtain d r where r: "v4_set_vec v adr w = Some (d, r)" "v4_inv r" "v4_size r = v4_size v"
    "v4_list r = take adr (v4_list v) @ v4_list w @ drop (adr + v4_size w) (v4_list v)"
    using v4_set_vec_spec [OF assms] by metis
  obtain u where u: "v4_subvalue r adr (v4_size w) = Some u" "v4_inv u" "v4_size u = v4_size w"
    "\<And>i. i < v4_size w \<Longrightarrow> v4_value u i = v4_value r (adr + i)"
    using v4_subvalue_spec [OF r(2)] by blast
  have "v4_value u i = v4_list w ! i" if "i < v4_size w" for i
    using that u(4) assms(3) r(3,4) nth_v4_list [of "adr + i" r] by (simp add: nth_append)
  then have "v4_list u = v4_list w" using u(3) by (intro v4_listI) simp_all
  with r(1) u(1,2) assms(2) show ?thesis by (auto simp: v4_eeq_list)
qed

theorem v4_set_vec_subvalue_roundtrip_witness:
  "\<exists>d r u. v4_set_vec (v4_fill 90 BIT4_X) 17 (v4_fill 65 BIT4_Z) = Some (d, r)
    \<and> v4_subvalue r 17 65 = Some u \<and> v4_eeq u (v4_fill 65 BIT4_Z)"
  using v4_set_vec_subvalue_roundtrip [OF v4_fill_inv v4_fill_inv, of 17 65 BIT4_Z 90 BIT4_X] by simp

text \<open>The in-place shifts move every bit by the distance and fill with zeros (left) or with the
  given bit (right).\<close>

lemma v4_shift_moves_bits:
  assumes "v4_inv v" and "s \<le> v4_size v"
  shows "\<exists>l r. v4_shiftl v s = Some l \<and> v4_inv l \<and> v4_shiftr v s b = Some r \<and> v4_inv r
    \<and> v4_list l = replicate s BIT4_0 @ take (v4_size v - s) (v4_list v)
    \<and> v4_list r = drop s (v4_list v) @ replicate s b"
  using v4_shiftl_spec [OF assms] v4_shiftr_spec [OF assms, of b] by metis

text \<open>Concatenation puts the argument below the vector, and a change of width keeps the low bits
  and pads with the given bit.\<close>

lemma v4_concat_resize:
  assumes "v4_inv v" and "v4_inv lsb"
  shows "(\<exists>r. v4_concat v lsb = Some r \<and> v4_inv r \<and> v4_list r = v4_list lsb @ v4_list v)
    \<and> v4_inv (v4_resize v n b) \<and> v4_list (v4_resize v n b) = take n (v4_list v) @ replicate (n - v4_size v) b"
  using v4_concat_spec [OF assms] v4_resize_list [OF assms(1), of n b] by blast

text \<open>C8: The array view.  \<^verbatim>\<open>subarray\<close> gives the bits of a range as two-valued words, bit for bit, with zero above the range; an x or z in
  the range makes it refuse.  Writing those words with \<^verbatim>\<open>setarray\<close> at any place of any vector puts exactly the bits of the range
  there and changes no other bit.\<close>

theorem v4_array_roundtrip:
  assumes "v4_inv v" and "adr + n \<le> v4_size v" and "0 < n" and "v4_inv w" and "to + n \<le> v4_size w"
  shows "if list_ex bit4_is_xz (take n (drop adr (v4_list v))) then v4_subarray v adr n False = None
    else \<exists>ws r. v4_subarray v adr n False = Some ws \<and> length ws = words_for n
      \<and> (\<forall>i < 64 * words_for n. pbit ws i \<longleftrightarrow> i < n \<and> v4_list v ! (adr + i) = BIT4_1)
      \<and> v4_setarray w to n ws = Some r \<and> v4_inv r
      \<and> v4_list r = take to (v4_list w) @ take n (drop adr (v4_list v)) @ drop (to + n) (v4_list w)"
proof -
  have nth: "take n (drop adr (v4_list v)) ! j = v4_value v (adr + j)" if "j < n" for j
    using that assms(2) by simp
  have xz: "list_ex bit4_is_xz (take n (drop adr (v4_list v))) \<longleftrightarrow> (\<exists>j < n. bit4_is_xz (v4_value v (adr + j)))"
    using assms(2) nth by (auto simp: list_ex_length)
  show ?thesis
  proof (cases "\<exists>j < n. bit4_is_xz (v4_value v (adr + j))")
    case True
    with xz v4_subarray_none [OF assms(1,2)] show ?thesis by auto
  next
    case False
    obtain ws where ws: "v4_subarray v adr n False = Some ws" "length ws = words_for n"
      "\<And>i. i < 64 * words_for n \<Longrightarrow> pbit ws i \<longleftrightarrow> i < n \<and> v4_value v (adr + i) = BIT4_1"
      using v4_subarray_some [OF assms(1,2,3), of False] False by blast
    have "to < v4_size w" using assms(3,5) by linarith
    then obtain r where r: "v4_setarray w to n ws = Some r" "v4_inv r" "v4_size r = v4_size w"
      "\<And>i. i < v4_size w \<Longrightarrow> v4_value r i = (if to \<le> i \<and> i < to + n
        then (if pbit ws (i - to) then BIT4_1 else BIT4_0) else v4_value w i)"
      using v4_setarray_spec [OF assms(4,5), of ws] by blast
    have bits: "\<forall>i < 64 * words_for n. pbit ws i \<longleftrightarrow> i < n \<and> v4_list v ! (adr + i) = BIT4_1"
      using ws(3) assms(2) by auto
    have "v4_list r = take to (v4_list w) @ take n (drop adr (v4_list v)) @ drop (to + n) (v4_list w)" (is "_ = ?l")
    proof (rule v4_listI)
      show "v4_size r = length ?l" using assms(2,5) r(3) by simp
      fix i assume "i < length ?l"
      then have i: "i < v4_size w" using assms(2,5) by simp
      show "v4_value r i = ?l ! i"
      proof (cases "to \<le> i \<and> i < to + n")
        case True
        then have j: "i - to < n" by auto
        then have "\<not> bit4_is_xz (v4_value v (adr + (i - to)))" using False by blast
        moreover have "pbit ws (i - to) \<longleftrightarrow> v4_value v (adr + (i - to)) = BIT4_1"
          using ws(3) [of "i - to"] j words_for_mult_ge [of n] by simp
        moreover have "?l ! i = v4_value v (adr + (i - to))"
          using True j nth [OF j] assms(2,5) by (simp add: nth_append del: nth_take)
        ultimately show ?thesis using r(4) [OF i] True by (cases "v4_value v (adr + (i - to))") simp_all
      next
        case False
        then show ?thesis using r(4) [OF i] i assms(2,5) by (auto simp: nth_append)
      qed
    qed
    with ws(1,2) bits r(1,2) False xz show ?thesis by auto
  qed
qed

theorem v4_array_roundtrip_witness:
  "\<exists>ws r. v4_subarray (v4_fill 100 BIT4_1) 13 80 False = Some ws
    \<and> v4_setarray (v4_fill 90 BIT4_X) 5 80 ws = Some r \<and> v4_list r = replicate 5 BIT4_X @ replicate 80 BIT4_1 @ replicate 5 BIT4_X"
proof -
  have "\<not> list_ex bit4_is_xz (take 80 (drop 13 (v4_list (v4_fill 100 BIT4_1))))" by (simp add: v4_fill_list list_ex_iff)
  then show ?thesis
    using v4_array_roundtrip [OF v4_fill_inv _ _ v4_fill_inv, of 13 80 100 BIT4_1 5 90 BIT4_X]
    by (auto simp: v4_fill_list)
qed

text \<open>Exact equality compares the bits of the vectors and nothing of the unused storage bits.\<close>

lemma v4_eeq_compares_bits:
  assumes "v4_inv v" and "v4_inv w"
  shows "(v4_eeq v w \<longleftrightarrow> v4_list v = v4_list w)
    \<and> (v4_eq_xz v w \<longleftrightarrow> map bit4_z2x (v4_list v) = map bit4_z2x (v4_list w))"
  using v4_eeq_list [OF assms] v4_eq_xz_list [OF assms] by blast

text \<open>C9: The word-parallel operators and the complement are the bit operators applied bit by bit.\<close>

theorem v4_bitwise_pointwise:
  assumes "v4_inv v" and "v4_inv w" and "v4_size v = v4_size w"
  shows "(\<exists>r. v4_and_eq v w = Some r \<and> v4_inv r \<and> v4_list r = map2 bit4_and (v4_list v) (v4_list w))
    \<and> (\<exists>r. v4_or_eq v w = Some r \<and> v4_inv r \<and> v4_list r = map2 bit4_or (v4_list v) (v4_list w))
    \<and> (\<exists>r. v4_xor_eq v w = Some r \<and> v4_inv r \<and> v4_list r = map2 bit4_xor (v4_list v) (v4_list w))
    \<and> v4_inv (v4_invert v) \<and> v4_list (v4_invert v) = map bit4_not (v4_list v)
    \<and> v4_inv (v4_not v) \<and> v4_list (v4_not v) = map bit4_not (v4_list v)"
proof (intro conjI v4_invert [OF assms(1)] v4_not [OF assms(1)])
  show "\<exists>r. v4_and_eq v w = Some r \<and> v4_inv r \<and> v4_list r = map2 bit4_and (v4_list v) (v4_list w)"
    unfolding v4_and_eq_def by (rule v4_map2_list [OF assms, of and_words bit4_and, OF and_words_bits]) blast+
  show "\<exists>r. v4_or_eq v w = Some r \<and> v4_inv r \<and> v4_list r = map2 bit4_or (v4_list v) (v4_list w)"
    unfolding v4_or_eq_def by (rule v4_map2_list [OF assms, of or_words bit4_or, OF or_words_bits]) blast+
  show "\<exists>r. v4_xor_eq v w = Some r \<and> v4_inv r \<and> v4_list r = map2 bit4_xor (v4_list v) (v4_list w)"
    unfolding v4_xor_eq_def by (rule v4_map2_list [OF assms, of xor_words bit4_xor, OF xor_words_bits]) blast+
qed

theorem v4_bitwise_pointwise_witness:
  "\<exists>r. v4_xor_eq (v4_fill 70 BIT4_1) (v4_fill 70 BIT4_Z) = Some r \<and> v4_list r = map2 bit4_xor (replicate 70 BIT4_1) (replicate 70 BIT4_Z)"
  using v4_bitwise_pointwise [OF v4_fill_inv v4_fill_inv, of 70 BIT4_1 70 BIT4_Z] by (auto simp: v4_fill_list)

text \<open>C10: The reductions of a nonempty vector are the folds of the bit operators over its bits.\<close>

theorem v4_reductions_fold:
  assumes "v4_inv v" and "0 < v4_size v"
  shows "v4_reduce_or v = foldr bit4_or (v4_list v) BIT4_0
    \<and> v4_reduce_and v = foldr bit4_and (v4_list v) BIT4_1
    \<and> v4_reduce_xor v = foldr bit4_xor (v4_list v) BIT4_0"
  using v4_reduce_or_list [OF assms] v4_reduce_and_list [OF assms] v4_reduce_xor_list [OF assms] by simp

theorem v4_reductions_fold_witness:
  "v4_reduce_xor (v4_fill 67 BIT4_1) = foldr bit4_xor (replicate 67 BIT4_1) BIT4_0"
  using v4_reductions_fold [OF v4_fill_inv, of 67 BIT4_1] by (simp add: v4_fill_list)

text \<open>C11: The relational operators compare the unsigned or the two's complement values and answer x
  when an operand is empty or has an x or z bit; vectors of different widths compare as if zero
  extended.\<close>

theorem compare_gtge_orders:
  assumes "v4_inv a" and "v4_inv b"
  shows "compare_gtge a b out =
      (if v4_size a = 0 \<or> v4_size b = 0 \<or> list_ex bit4_is_xz (v4_list a @ v4_list b) then BIT4_X
       else order_bit (bits_val (v4_list a)) (bits_val (v4_list b)) out)
    \<and> (v4_size a = v4_size b \<longrightarrow> compare_gtge_signed a b out = Some
      (if v4_size a = 0 \<or> list_ex bit4_is_xz (v4_list a @ v4_list b) then BIT4_X
       else order_bit (bits_sval (v4_list a)) (bits_sval (v4_list b)) out))"
  using compare_gtge_spec [OF assms, of out] compare_gtge_signed_spec [OF assms, of out] assms
  by (simp add: v4_has_xz_list)

theorem compare_gtge_orders_witness:
  "compare_gtge (v4_fill 70 BIT4_1) (v4_fill 3 BIT4_X) BIT4_0 = BIT4_X
   \<and> compare_gtge_signed (v4_fill 2 BIT4_1) (v4_fill 2 BIT4_0) BIT4_0
     = Some (order_bit (bits_sval (replicate 2 BIT4_1)) (bits_sval (replicate 2 BIT4_0)) BIT4_0)"
  using compare_gtge_orders [OF v4_fill_inv v4_fill_inv, of 70 BIT4_1 3 BIT4_X BIT4_0]
    compare_gtge_orders [OF v4_fill_inv v4_fill_inv, of 2 BIT4_1 2 BIT4_0 BIT4_0]
  by (simp add: v4_fill_list list_ex_iff)

text \<open>C12: Conversion to an integer type of any width up to 64 bits truncates or sign extends the value, and refuses or reports an x or z
  among the bits it reads; the conversion to \<^verbatim>\<open>unsigned long\<close> refuses x and z and raises the overflow flag exactly when
  the value does not fit.\<close>

theorem vector4_to_integer:
  fixes r :: "bool \<times> 'w::len word option"
  assumes "v4_inv v" and "LENGTH('w) \<le> 64" and "r = vector4_to_value v sg ar"
  shows "r =
    (let xz = list_ex bit4_is_xz (take (LENGTH('w)) (v4_list v)) in
     if xz \<and> ar then (False, None)
     else (\<not> xz, Some (word_of_int (if sg then bits_sval (v4_list v) else bits_val (v4_list v)))))
   \<and> vector4_to_ulong v = (if list_ex bit4_is_xz (v4_list v) then None
     else Some (bits_val (v4_list v) \<ge> 2 ^ 64, word_of_int (bits_val (v4_list v))))"
proof -
  have "(\<exists>i < min (v4_size v) (LENGTH('w)). bit4_is_xz (v4_value v i)) \<longleftrightarrow> list_ex bit4_is_xz (take (LENGTH('w)) (v4_list v))"
    by (auto simp: list_ex_length)
  with vector4_to_value_spec [OF assms(1,2), of sg ar] vector4_to_ulong_spec [OF assms(1)] assms(1)
  show ?thesis unfolding assms(3) by (simp add: v4_has_xz_list)
qed

theorem vector4_to_integer_witness:
  "(vector4_to_value (v4_fill 40 BIT4_1) True False :: bool \<times> 32 word option)
     = (True, Some (word_of_int (bits_sval (replicate 40 BIT4_1))))
   \<and> (vector4_to_value (v4_fill 70 BIT4_1) False True :: bool \<times> 64 word option)
     = (True, Some (word_of_int (bits_val (replicate 70 BIT4_1))))
   \<and> vector4_to_ulong (v4_fill 40 BIT4_Z) = None"
  using vector4_to_integer [OF v4_fill_inv _ refl, of 40 BIT4_1 True False, where ?'w = 32]
    vector4_to_integer [OF v4_fill_inv _ refl, of 70 BIT4_1 False True, where ?'w = 64]
    vector4_to_integer [OF v4_fill_inv _ refl, of 40 BIT4_Z True False, where ?'w = 64]
  by (simp add: v4_fill_list list_ex_iff)

text \<open>The immediate forms of addition and the increment by an integer agree with the general
  addition.\<close>

lemma v4_immediate_forms_agree:
  assumes "v4_inv v" and "v4_size v \<le> 64" and "\<not> v4_has_xz v"
  shows "\<exists>r s. v4_add_immediate v a 0 = Some r \<and> v4_plus_int v (uint a) = Some s \<and> v4_eeq r s
    \<and> v4_list r = bits_of (v4_size v) (bits_val (v4_list v) + uint a)"
proof -
  obtain r where r: "v4_add_immediate v a 0 = Some r" "v4_inv r" "v4_list r =
    (if v4_has_xz v \<or> (\<exists>i < v4_size v. bit (0 :: ulong) i) then replicate (v4_size v) BIT4_X
     else bits_of (v4_size v) (bits_val (v4_list v) + uint a))"
    using v4_add_immediate_spec [OF assms(1,2)] by blast
  obtain s where s: "v4_plus_int v (uint a) = Some s" "v4_inv s" "v4_list s =
    (if v4_has_xz v then replicate (v4_size v) BIT4_X else bits_of (v4_size v) (bits_val (v4_list v) + uint a))"
    using v4_plus_int_spec [OF assms(1)] by blast
  from r s assms show ?thesis by (auto simp: v4_eeq_list)
qed

section \<open>Word arithmetic and two-valued vectors\<close>

text \<open>The portable double-word multiplication, the double-word multiply-add and the two long
  multiplications agree with the native wide product, and the carry additions are exact.\<close>

lemma word_products_agree:
  "multiply_with_carry_portable a b = multiply_with_carry a b
   \<and> multiply_add_with_carry_portable a b addend carry = multiply_add_with_carry a b addend carry
   \<and> multiply_long a b = multiply_with_carry a b
   \<and> unat (fst (multiply_with_carry a b)) + 2 ^ 64 * unat (snd (multiply_with_carry a b)) = unat a * unat b"
proof -
  obtain l h where lh: "multiply_with_carry a b = (l, h)" by fastforce
  obtain l' h' where lh': "multiply_long a b = (l', h')" by fastforce
  from multiply_with_carry_exact [OF lh] multiply_long_exact [OF lh'] two_word_unique [of l' h' l h] lh lh'
  show ?thesis by (simp add: multiply_with_carry_portable_eq multiply_add_with_carry_portable_eq)
qed

text \<open>C13: Two-valued vectors are unsigned numbers of their width: negation, shifts, part select and the
  arithmetic operators on equal widths are exact modulo two to the width.\<close>

theorem v2_arithmetic_modular:
  assumes "v2_inv a" and "v2_inv b" and "v2_wid a = v2_wid b"
  shows "(\<exists>r. v2_plus_eq a b = Some r \<and> v2_inv r \<and> v2_val r = (v2_val a + v2_val b) mod 2 ^ v2_wid a)
    \<and> (\<exists>r. v2_minus_eq a b = Some r \<and> v2_inv r \<and> v2_val r = (v2_val a - v2_val b) mod 2 ^ v2_wid a)
    \<and> (\<exists>r. v2_mul a b = Some r \<and> v2_inv r \<and> v2_val r = (v2_val a * v2_val b) mod 2 ^ v2_wid a)
    \<and> (\<exists>r. v2_neg a = Some r \<and> v2_inv r \<and> v2_val r = (- v2_val a) mod 2 ^ v2_wid a)
    \<and> v2_val (v2_shl a s) = (v2_val a * 2 ^ s) mod 2 ^ v2_wid a \<and> v2_val (v2_shr a s) = v2_val a div 2 ^ s
    \<and> v2_val (v2_subvalue a s n) = (v2_val a div 2 ^ s) mod 2 ^ n"
  unfolding take_bit_eq_mod [symmetric] v2_shl(3) [OF assms(1)] v2_shr(3) [OF assms(1)] v2_subvalue(3) [OF assms(1)]
  by (intro conjI refl)
    (rule v2_plus_eq [OF assms] v2_minus_eq [OF assms] v2_mul [OF assms] v2_neg [OF assms(1)], blast)+

theorem v2_arithmetic_modular_witness:
  "\<exists>r. v2_mul (v2_fill True 100) (v2_of_ulong 3 100) = Some r \<and> v2_val r = 2 ^ 100 - 3"
  using v2_arithmetic_modular [OF v2_fill(1) v2_of_ulong(1), of True 100 3 100] v2_fill [of True 100] v2_of_ulong [of 3 100]
  by (auto simp: take_bit_eq_mod)

text \<open>C14: Division terminates and is exact, with one exception of the code: a divisor of one under a
  dividend above half of the range of its width gives quotient zero (the mask bit is shifted out of
  the quotient width).  The remainder is always exact, and division by zero aborts.\<close>

theorem v2_division:
  assumes "v2_inv a" and "v2_inv b"
  shows "if v2_val b = 0 then div_mod a b = None
    else \<exists>q r. div_mod a b = Some (q, r) \<and> v2_inv q \<and> v2_inv r \<and> v2_val r = v2_val a mod v2_val b
      \<and> v2_val q = (if v2_val b = 1 \<and> 2 ^ (v2_wid a - 1) < v2_val a then 0 else v2_val a div v2_val b)"
proof (cases "v2_val b = 0")
  case True
  with div_mod_zero [OF assms] show ?thesis by simp
next
  case False
  then have "0 < v2_val b" using v2_val_nonneg [of b] by linarith
  with False div_mod_spec [OF assms] show ?thesis by (metis (no_types, lifting))
qed

theorem v2_division_witness:
  "\<exists>q r. div_mod (v2_of_ulong 7 100) (v2_of_ulong 2 100) = Some (q, r) \<and> v2_val q = 3 \<and> v2_val r = 1"
  using v2_division [OF v2_of_ulong(1) v2_of_ulong(1), of 2 100 7 100] v2_of_ulong [of 7 100] v2_of_ulong [of 2 100]
  by (auto simp: take_bit_eq_mod)

text \<open>A concrete instance of the exception: dividing 3 by 1 in a vector of two bits gives 0.\<close>

lemma v2_division_by_one_wraps:
  "\<exists>q r. div_mod (v2_of_ulong 3 2) (v2_of_ulong 1 2) = Some (q, r) \<and> v2_val q = 0 \<and> v2_val r = 0"
proof -
  have val: "v2_val (v2_of_ulong 3 2) = 3" "v2_val (v2_of_ulong 1 2) = 1" "v2_wid (v2_of_ulong 3 2) = 2"
    using v2_of_ulong [of 3 2] v2_of_ulong [of 1 2] by (simp_all add: take_bit_eq_mod)
  obtain q r where "div_mod (v2_of_ulong 3 2) (v2_of_ulong 1 2) = Some (q, r)" "v2_val r = 3 mod 1"
    "v2_val q = (if 1 = (1 :: int) \<and> 2 ^ (2 - 1) < (3 :: int) then 0 else 3 div 1)"
    using div_mod_spec [OF v2_of_ulong(1) v2_of_ulong(1), of 1 2 3 2, unfolded val] zero_less_one by metis
  then show ?thesis by simp
qed



text \<open>C16: A four-valued vector without x and z survives the conversion to a two-valued vector and back;
  with the NaN option an x or z gives the NaN vector.\<close>

theorem vector2_vector4_roundtrip:
  assumes "v4_inv u"
  shows "if v4_has_xz u then v2_of_vector4 u True = Some v2_nil
    else \<exists>r w. v2_of_vector4 u True = Some r \<and> v2_inv r \<and> vector2_to_vector4 r (v2_wid r) = Some w \<and> v4_eeq w u"
proof -
  obtain r where r: "v2_of_vector4 u True = Some r" "v2_inv r"
    "if v4_has_xz u then r = v2_nil else v2_wid r = v4_size u \<and> v2_val r = bits_val (v4_list u)"
    using v2_of_vector4 [OF assms, of True] by auto
  show ?thesis
  proof (cases "v4_has_xz u")
    case False
    obtain w where w: "vector2_to_vector4 r (v2_wid r) = Some w" "v4_inv w" "v4_list w = bits_of (v2_wid r) (v2_val r)"
      using vector2_to_vector4_spec [OF r(2)] by blast
    have "(if v4_value u i = BIT4_1 then BIT4_1 else BIT4_0) = v4_value u i" if "i < v4_size u" for i
    proof -
      have "\<not> bit4_is_xz (v4_value u i)" using False assms that by (auto simp: v4_has_xz_list list_ex_length)
      then show ?thesis by (cases "v4_value u i") auto
    qed
    then have "v4_list w = v4_list u"
      using w(3) r(3) False by (intro nth_equalityI) (auto simp: bits_of_def bit_bits_val)
    with r w False assms show ?thesis by (auto simp: v4_eeq_list)
  qed (use r in simp)
qed

theorem vector2_vector4_roundtrip_witness:
  "\<exists>r w. v2_of_vector4 (v4_fill 70 BIT4_1) True = Some r \<and> vector2_to_vector4 r (v2_wid r) = Some w \<and> v4_eeq w (v4_fill 70 BIT4_1)"
  using vector2_vector4_roundtrip [OF v4_fill_inv, of 70 BIT4_1]
  by (auto simp: v4_has_xz_list [OF v4_fill_inv] v4_fill_list list_ex_iff)

section \<open>Strength-aware values\<close>

text \<open>C17: Two drives on a net.  When a drive the first scalar may stand for meets one the second may stand for, and
  the stronger wins, or either value between them on a tie, the resolved scalar admits the outcome.  The
  one exception is a known drive against a range that starts at the same strength of the opposite
  value.\<close>

theorem resolve_admits_every_outcome:
  assumes "\<not> near_tie a b" and "\<not> near_tie b a" and "covers a x" and "covers b y" and "drives x y z"
  shows "covers (resolve a b) z"
  using assms by (rule resolve_sound)

theorem resolve_admits_every_outcome_witness: "covers (resolve 0xee 0x55) 6"
proof (rule resolve_admits_every_outcome [where x = 6 and y = "- 5"])
  show "\<not> near_tie 0xee 0x55" "\<not> near_tie 0x55 0xee" by (simp_all add: near_tie_def UNAMBIG_def)
  show "covers 0xee 6" "covers 0x55 (- 5)" by (simp_all add: covers_def sv0_def sv1_def STREN0_def STREN1_def)
  show "drives 6 (- 5) 6" by (simp add: drives_def)
qed

text \<open>C18: On well-formed scalars resolution is commutative, has the high-impedance value as its neutral element, is idempotent, and gives
  well-formed scalars.\<close>

theorem resolve_algebra:
  assumes "scalar_ok a" and "scalar_ok b"
  shows "resolve a b = resolve b a \<and> resolve scalar_hiz a = a \<and> resolve a scalar_hiz = a \<and> resolve a a = a
    \<and> scalar_ok (resolve a b)"
  using resolve_commute [OF assms] resolve_identity [OF assms(1)] resolve_ok [OF assms] by simp

theorem resolve_algebra_witness: "resolve 0xee 0x66 = resolve 0x66 0xee \<and> scalar_ok (resolve 0xee 0x66)"
proof -
  have "scalar_ok 0xee" "scalar_ok 0x66" by code_simp+
  from resolve_algebra [OF this] show ?thesis by blast
qed

text \<open>The exception of the resolution rule is real: a pull 0 against a drive between pull 1 and strong 1
  reads 1, although the pull 0 ties with the pull 1 end of the range and the net may stay at 0.\<close>

lemma resolve_near_tie_misses:
  "near_tie 0x55 0xed \<and> covers 0x55 (- 5) \<and> covers 0xed 5 \<and> drives (- 5) 5 (- 5)
    \<and> \<not> covers (resolve 0x55 0xed) (- 5) \<and> scalar_value (resolve 0x55 0xed) = BIT4_1"
  by code_simp

text \<open>C19: The fast reduction of a strength-aware vector gives the bits of the loop it stands for: the logic value of
  each scalar.\<close>

theorem reduce4_agrees:
  assumes "v8_inv v"
  shows "\<exists>r r'. reduce4 v = Some r \<and> reduce4_slow v = Some r' \<and> v4_inv r \<and> v4_inv r'
    \<and> v4_list r = map scalar_value (v8_list v) \<and> v4_list r' = v4_list r"
proof -
  obtain r where "reduce4 v = Some r" "v4_inv r" "v4_list r = map scalar_value (v8_list v)" by (rule reduce4_list [OF assms])
  moreover obtain r' where "reduce4_slow v = Some r'" "v4_inv r'" "v4_list r' = map scalar_value (v8_list v)"
    by (rule reduce4_slow_list [OF assms])
  ultimately show ?thesis by auto
qed

theorem reduce4_agrees_witness:
  "\<exists>r. reduce4 \<lparr>v8_size = 3, v8_bytes = [0xee, 0x66, 0xe6, 0, 0, 0, 0, 0]\<rparr> = Some r
    \<and> v4_list r = [BIT4_1, BIT4_0, BIT4_X]"
proof -
  let ?v = "\<lparr>v8_size = 3, v8_bytes = [0xee, 0x66, 0xe6, 0, 0, 0, 0, 0]\<rparr>"
  have "v8_inv ?v" "map scalar_value (v8_list ?v) = [BIT4_1, BIT4_0, BIT4_X]" by code_simp+
  with reduce4_agrees [of ?v] show ?thesis by auto
qed

text \<open>Strength-aware vectors compare, resolve and replace parts bit by bit.\<close>

lemma v8_operations_pointwise:
  assumes "v8_inv a" and "v8_inv b" and "v8_size b = n"
  shows "(v8_eeq a b \<longleftrightarrow> v8_list a = v8_list b)
    \<and> (v8_size a = n \<longrightarrow> (\<exists>r. v8_resolve a b = Some r \<and> v8_inv r \<and> v8_list r = map2 resolve (v8_list a) (v8_list b)))
    \<and> (base + n \<le> v8_size a \<longrightarrow> (\<exists>r. v8_set_vec a base b = Some r \<and> v8_inv r
        \<and> v8_list r = take base (v8_list a) @ v8_list b @ drop (base + n) (v8_list a)
        \<and> v8_list (v8_subvalue r base n) = v8_list b))"
proof (intro conjI impI)
  show "v8_eeq a b \<longleftrightarrow> v8_list a = v8_list b" by (rule v8_eeq_list [OF assms(1,2)])
next
  assume "v8_size a = n"
  with assms show "\<exists>r. v8_resolve a b = Some r \<and> v8_inv r \<and> v8_list r = map2 resolve (v8_list a) (v8_list b)"
    using v8_resolve_list [OF assms(1,2)] by metis
next
  assume fit: "base + n \<le> v8_size a"
  then obtain r where r: "v8_set_vec a base b = Some r" "v8_inv r"
    "v8_list r = take base (v8_list a) @ v8_list b @ drop (base + n) (v8_list a)"
    using v8_set_vec_list [OF assms(1,2), of base] assms(3) by metis
  have len: "length (v8_list v) = v8_size v" if "v8_inv v" for v using that by (simp add: v8_inv_def v8_list_def)
  have "v8_size r = v8_size a" using arg_cong [OF r(3), of length] fit len [OF assms(1)] len [OF assms(2)] len [OF r(2)] assms(3) by simp
  with r fit len [OF assms(1)] len [OF assms(2)] assms(3)
  show "\<exists>r. v8_set_vec a base b = Some r \<and> v8_inv r
      \<and> v8_list r = take base (v8_list a) @ v8_list b @ drop (base + n) (v8_list a)
      \<and> v8_list (v8_subvalue r base n) = v8_list b"
    by (simp add: v8_subvalue_list(2) [OF r(2)])
qed

section \<open>Literals of the assembly text\<close>

text \<open>C20: A vector literal with the digits of any bits is accepted by the test of literals, and reading it gives the bits.\<close>

theorem c4_literal_roundtrip:
  "c4string_test (c4_text bs) \<and> (\<exists>v. c4string_to_vector4 (c4_text bs) = Some v \<and> v4_inv v \<and> v4_list v = bs)"
  using c4_text_test [of bs] c4_text_read [of bs] by blast

text \<open>C21: A strength-aware vector whose scalars were made from a bit and two strengths is read back from its printed form, with
  every high impedance scalar as the byte 0; the test for such a text accepts it exactly when no bit is x or z, since it does not know the upper
  case letters that are printed for them.\<close>

theorem c8_print_roundtrip:
  assumes "v8_inv v" and "\<forall>s \<in> set (v8_list v). \<exists>b str0 str1. scalar_of b str0 str1 = Some s"
  shows "\<exists>r. c8string_to_vector8 (v8_print v) = Some r \<and> v8_inv r
    \<and> v8_list r = map (\<lambda>s. if is_hiz s then 0 else s) (v8_list v)
    \<and> (c8string_test (v8_print v) \<longleftrightarrow> (\<forall>s \<in> set (v8_list v). scalar_value s \<in> {BIT4_0, BIT4_1}))"
proof -
  have made: "made_scalar s" if "s \<in> set (v8_list v)" for s using assms(2) that made_scalarI by blast
  obtain r where "c8string_to_vector8 (v8_print v) = Some r" "v8_inv r" "v8_list r = map read_scalar (v8_list v)"
    using v8_print_read [OF assms(1) made] by blast
  moreover have "\<not> bit4_is_xz b \<longleftrightarrow> b \<in> {BIT4_0, BIT4_1}" for b by (cases b) simp_all
  ultimately show ?thesis using v8_print_test [OF assms(1)] by (simp add: read_scalar_def [abs_def])
qed

theorem c8_print_roundtrip_witness:
  "\<exists>r. c8string_to_vector8 (v8_print \<lparr>v8_size = 2, v8_bytes = [0xe6, 0x88, 0, 0, 0, 0, 0, 0]\<rparr>) = Some r
    \<and> v8_list r = [0xe6, 0] \<and> \<not> c8string_test (v8_print \<lparr>v8_size = 2, v8_bytes = [0xe6, 0x88, 0, 0, 0, 0, 0, 0]\<rparr>)"
proof -
  let ?v = "\<lparr>v8_size = 2, v8_bytes = [0xe6, 0x88, 0, 0, 0, 0, 0, 0]\<rparr>"
  have v: "v8_inv ?v" "v8_list ?v = [0xe6, 0x88]" "\<not> is_hiz 0xe6" "is_hiz 0x88" "scalar_value 0x88 = BIT4_Z" by code_simp+
  have "scalar_of BIT4_X 6 6 = Some 0xe6" "scalar_of BIT4_1 5 0 = Some 0x88" by code_simp+
  then have "\<forall>s \<in> set (v8_list ?v). \<exists>b str0 str1. scalar_of b str0 str1 = Some s" unfolding v(2) by auto
  from c8_print_roundtrip [OF v(1) this] v show ?thesis by auto
qed

text \<open>C22: The text of a vector in a buffer of \<open>len\<close> bytes.  The bytes written, the closing ones included, stay within the buffer exactly
  when the whole text fits.  When it has to be cut, a buffer of at least 5 bytes is overrun by one byte, a buffer of 3 or 4 bytes gets
  the 5 bytes of an empty text, and with a length below 3, which wraps, the whole text is written.\<close>

theorem as_string_bytes_written:
  assumes "v4_size v < 2 ^ 32"
  shows "(length (as_string v len) \<le> unat len \<longleftrightarrow> v4_size v + 5 \<le> unat len)
    \<and> (v4_size v + 5 \<le> unat len \<longrightarrow> as_string v len = ''C4<'' @ map bit_char (rev (v4_list v)) @ [CHR ''>'', CHR 0x00])
    \<and> (5 \<le> unat len \<longrightarrow> unat len < v4_size v + 5 \<longrightarrow> length (as_string v len) = unat len + 1)
    \<and> (unat len \<in> {3, 4} \<longrightarrow> length (as_string v len) = 5)
    \<and> (unat len < 3 \<longrightarrow> length (as_string v len) = v4_size v + 5)"
proof -
  have "as_string v len = ''C4<'' @ map bit_char (rev (v4_list v)) @ [CHR ''>'', CHR 0x00]" if len: "v4_size v + 5 \<le> unat len"
  proof -
    have "unat (len - 3) = unat len - 3" using len by (simp add: unat_sub_if_size)
    then have "take (unat (len - 3) - 1) (rev (v4_list v)) = rev (v4_list v)" using len by simp
    then show ?thesis using as_string_cut [of v len] by simp
  qed
  then show ?thesis using as_string_length [OF assms, of len] by auto
qed

theorem as_string_bytes_written_witness:
  "length (as_string (v4_fill 8 BIT4_X) 10) = 11 \<and> length (as_string (v4_fill 8 BIT4_X) 13) \<le> 13
    \<and> length (as_string (v4_fill 8 BIT4_X) 4) = 5 \<and> length (as_string (v4_fill 8 BIT4_X) 2) = 13"
  using as_string_bytes_written [of "v4_fill 8 BIT4_X" 10] as_string_bytes_written [of "v4_fill 8 BIT4_X" 13]
    as_string_bytes_written [of "v4_fill 8 BIT4_X" 4] as_string_bytes_written [of "v4_fill 8 BIT4_X" 2]
  by simp

section \<open>The scheduler\<close>

text \<open>C23: The circular lists of events are first-in first-out queues: appending and taking through the
  pointer to the last event are the list operations, and events appended to an empty list are taken in
  their order.\<close>

theorem event_ring_fifo:
  assumes "ring_inv q" and "distinct as" and "set as \<inter> set (ring_elems q) = {}"
  shows "ring_inv (fold ring_append as q) \<and> ring_elems (fold ring_append as q) = ring_elems q @ as
    \<and> (\<forall>x xs. ring_elems q = x # xs \<longrightarrow> (\<exists>q'. ring_take q = Some (x, q') \<and> ring_inv q' \<and> ring_elems q' = xs))
    \<and> (ring_elems q = [] \<longrightarrow> ring_take q = None \<and> rings.drain (length as) (fold ring_append as q) = as)
    \<and> (\<forall>a. a \<notin> set (ring_elems q) \<longrightarrow> ring_inv (ring_push a q) \<and> ring_elems (ring_push a q) = a # ring_elems q)"
  using rings.appended_in_order [OF assms] rings.take_some [OF assms(1)] rings.take_empty [OF assms(1)]
    rings.fifo [OF assms(1) _ assms(2)] rings.push_law [OF assms(1)] by blast

theorem event_ring_fifo_witness:
  "rings.drain 3 (fold ring_append [7, 3, 9] (ring_empty (\<lambda>a. a))) = [7, 3, 9]"
proof -
  have "ring_elems (ring_empty (\<lambda>a. a)) = [] \<and> ring_inv (ring_empty (\<lambda>a. a))" by (rule ring_elems_eq [OF ring_empty_of])
  with event_ring_fifo [of "ring_empty (\<lambda>a. a)" "[7, 3, 9]"] show ?thesis by (simp add: eval_nat_numeral)
qed

text \<open>C24: Scheduling an event puts it at the end of the selected list of exactly the time step its delay names, moves no other
  event in time or order, keeps the steps apart, and fails only for an inactive event with a delay.\<close>

theorem schedule_event_time_line:
  assumes "sched_ok l"
  shows "(schedule_event cur d q l = None \<longleftrightarrow> q = SEQ_INACTIVE \<and> 0 < d)
    \<and> (\<forall>l'. schedule_event cur d q l = Some l' \<longrightarrow> sched_ok l'
        \<and> (\<forall>t q'. events_at l' t q' = events_at l t q' @ (if t = d \<and> q' = q then [cur] else [])))"
proof (intro conjI)
  show "schedule_event cur d q l = None \<longleftrightarrow> q = SEQ_INACTIVE \<and> 0 < d"
    using schedule_event_total [of q d cur l] schedule_event_inactive [of d cur l]
    by (cases "q = SEQ_INACTIVE"; cases "d = 0") auto
qed (use schedule_event_appends [OF assms] in \<open>auto simp: appended_def\<close>)

theorem schedule_event_time_line_witness:
  "\<exists>l. schedule_event ''b'' 5 SEQ_NBASSIGN [(new_event_time 3)\<lparr>et_active := [''a'']\<rparr>, new_event_time 4] = Some l
    \<and> events_at l 5 SEQ_NBASSIGN = [''b''] \<and> events_at l 3 SEQ_ACTIVE = [''a'']"
proof -
  let ?l = "[(new_event_time 3)\<lparr>et_active := [''a'']\<rparr>, new_event_time 4]"
  have ok: "sched_ok ?l" by (simp add: sched_ok_def)
  have "events_at ?l 5 SEQ_NBASSIGN = []" "events_at ?l 3 SEQ_ACTIVE = [''a'']"
    by (simp_all add: new_event_time_def et_queue_def)
  with schedule_event_time_line [OF ok, of "''b''" 5 SEQ_NBASSIGN] show ?thesis by auto
qed

text \<open>C25: The short cuts for the current time agree with the general routine: non-blocking assignments and
  threads made ready are appended as it would, and a pushed event comes first in the active list of the
  current time and changes nothing else.\<close>

theorem scheduling_short_cuts_agree:
  "schedule_nbassign cur d l = schedule_event cur d SEQ_NBASSIGN l
    \<and> schedule_vthread_list_ready cur l = schedule_event cur 0 SEQ_ACTIVE l
    \<and> (\<exists>l'. schedule_event_push cur l = Some l' \<and> (sched_ok l \<longrightarrow> sched_ok l' \<and> (\<forall>t q. events_at l' t q =
        (if t = 0 \<and> q = SEQ_ACTIVE then cur # events_at l t q else events_at l t q))))"
proof -
  obtain l' where "schedule_event_push cur l = Some l'" using schedule_event_push_total [of cur l] by blast
  then show ?thesis
    using schedule_nbassign_eq [of cur d l] schedule_list_ready_eq [of cur l] schedule_event_push_front [of l cur l'] by blast
qed

theorem scheduling_short_cuts_agree_witness:
  "\<exists>l'. schedule_event_push ''b'' [(new_event_time 0)\<lparr>et_active := [''a'']\<rparr>] = Some l'
    \<and> events_at l' 0 SEQ_ACTIVE = [''b'', ''a'']"
proof -
  let ?l = "[(new_event_time 0)\<lparr>et_active := [''a'']\<rparr>]"
  have "sched_ok ?l" "events_at ?l 0 SEQ_ACTIVE = [''a'']" by (simp_all add: sched_ok_def new_event_time_def et_queue_def)
  with scheduling_short_cuts_agree [of "''b''" 0 ?l] show ?thesis by auto
qed

text \<open>A time step with one active and one non-blocking event, for the examples below.\<close>

definition two_events :: "string sim" where
  "two_events = \<lparr>sim_phase = P_ADVANCE, sim_run_finals = True, sim_sched = sched_init
     \<lparr>sched_list := [(new_event_time 0)\<lparr>et_active := [''a''], et_nbassign := [''b'']\<rparr>], schedule_time := 4\<rparr>\<rparr>"

lemma two_events_ok: "sim_ok two_events"
  by (simp add: sim_ok_def two_events_def head_now_def sched_ok_def new_event_time_def)

lemma two_events_step:
  "sim_step two_events (Some (''a'', 4, STEP_LIST SEQ_ACTIVE)) (two_events\<lparr>sim_phase := P_LOOP, sim_sched :=
     note_single_step (upd_ctim (\<lambda>c. (promote c)\<lparr>et_active := []\<rparr>) (sim_sched two_events))\<rparr>)"
  using sim_step.run_event [of two_events "(new_event_time 0)\<lparr>et_active := [''a''], et_nbassign := [''b'']\<rparr>" "[]" "''a''" "[]"]
  by (simp add: two_events_def promote_def promoted_from_def new_event_time_def)

text \<open>C26: Along any run of the simulation loop the state stays well formed.  The simulation time is the time at the start plus the
  time that has passed, modulo \<open>2 ^ 64\<close>, and so is the time of every event that was run; and what waited for a time that is still to come keeps
  its place in its list.\<close>

theorem simulation_invariant:
  assumes "sim_run m ls m'" and "sim_ok m"
  shows "sim_ok m' \<and> (\<exists>tls d. map fst tls = ls \<and> timed_run (\<lambda>_. True) m tls d m'
    \<and> schedule_time (sim_sched m') = schedule_time (sim_sched m) + of_nat d
    \<and> (\<forall>e T org x. (Some (e, T, org), x) \<in> set tls \<longrightarrow> T = schedule_time (sim_sched m) + of_nat x)
    \<and> (\<forall>t q. 0 < t \<longrightarrow> prefix (events_at (sched_list (sim_sched m)) (d + t) q) (events_at (sched_list (sim_sched m')) t q)))"
proof -
  obtain tls d where r: "map fst tls = ls" "timed_run (\<lambda>_. True) m tls d m'" using sim_run_timed [OF assms(1)] by blast
  with timed_run_ok [OF r(2) assms(2)] timed_run_label_time [OF r(2) assms(2)] show ?thesis by blast
qed

theorem simulation_invariant_witness:
  "sim_ok (two_events\<lparr>sim_phase := P_LOOP, sim_sched :=
     note_single_step (upd_ctim (\<lambda>c. (promote c)\<lparr>et_active := []\<rparr>) (sim_sched two_events))\<rparr>)"
  using simulation_invariant [OF run_more [OF run_none two_events_step] two_events_ok] by blast

text \<open>C27: An event of a time step runs at its time, it is the first of its list, and it runs only when the
  lists before it are empty: active before inactive before non-blocking before read-write
  synchronisation.\<close>

theorem simulation_stratified:
  assumes "sim_step m (Some (e, t, STEP_LIST q)) m'" and "sim_ok m"
  shows "t = schedule_time (sim_sched m) \<and> (\<exists>rest. agenda (sim_sched m) t q = e # rest)
    \<and> (\<forall>q' \<in> earlier_lists q. agenda (sim_sched m) t q' = [])"
  using assms by (rule sim_step_runs_first)

theorem simulation_stratified_witness: "\<exists>rest. agenda (sim_sched two_events) 4 SEQ_ACTIVE = ''a'' # rest"
  using simulation_stratified [OF two_events_step two_events_ok] by blast

text \<open>C28: No event is lost, and every event runs at its time.  In a run that gives up no time step with events in it, every event that waits for
  a time \<open>t\<close> after the start of the run is run when \<open>t\<close> has passed, or time has not passed \<open>t\<close> and it still waits for it; the events of the lists
  outside time are run in their order or still wait.  And each step takes from the lists exactly the event it runs; what it adds is what the code
  of the event schedules.\<close>

theorem simulation_conserves_events:
  assumes "timed_run (\<lambda>m. \<not> abandons m) m ls d m'" and "sim_ok m"
  shows "(\<forall>t. waiting m t \<subseteq># ran_at ls t + (if t < d then {#} else waiting m' (t - d)))
    \<and> (\<forall>org. prefix (side_list org (sim_sched m)) (concat (map (ran_from org \<circ> fst) ls) @ side_list org (sim_sched m')))
    \<and> (\<forall>l m''. sim_step m' l m'' \<longrightarrow> \<not> abandons m' \<longrightarrow> (\<exists>s. effect s (sim_sched m'') \<and> side_lists (sim_sched m') l s
        \<and> (\<forall>t. waiting m' (sim_advances m' m'' + t) =
          (if t = 0 then mset (ran_step l) else {#}) + waiting_at (sim_phase m'' = P_START) (sched_list s) t)))"
proof -
  have "\<exists>s. effect s (sim_sched m'') \<and> side_lists (sim_sched m') l s \<and> (\<forall>t. waiting m' (sim_advances m' m'' + t) =
      (if t = 0 then mset (ran_step l) else {#}) + waiting_at (sim_phase m'' = P_START) (sched_list s) t)"
    if st: "sim_step m' l m''" "\<not> abandons m'" for l m''
  proof -
    obtain s where "effect s (sim_sched m'')" "side_lists (sim_sched m') l s" "\<forall>t. waiting m' (sim_advances m' m'' + t) =
      (if t = 0 then mset (ran_step l) else {#}) + waiting_at (sim_phase m'' = P_START) (sched_list s) t"
      using sim_step_takes [OF st(1) timed_run_ok(1) [OF assms] st(2)] by (elim exE conjE) (rule that; assumption)
    then show ?thesis by (intro exI conjI)
  qed
  then show ?thesis
    by (intro conjI allI impI timed_run_waits [OF assms] timed_run_side [OF assms])
qed

theorem simulation_conserves_events_witness:
  "let m' = two_events\<lparr>sim_phase := P_LOOP, sim_sched :=
      note_single_step (upd_ctim (\<lambda>c. (promote c)\<lparr>et_active := []\<rparr>) (sim_sched two_events))\<rparr> in
    waiting two_events 0 = {#''a'', ''b''#} \<and> waiting m' 0 = {#''b''#}
    \<and> waiting two_events 0 \<subseteq># ran_at [(Some (''a'', 4, STEP_LIST SEQ_ACTIVE), 0)] 0 + waiting m' 0"
proof -
  let ?m = "two_events\<lparr>sim_phase := P_LOOP, sim_sched :=
      note_single_step (upd_ctim (\<lambda>c. (promote c)\<lparr>et_active := []\<rparr>) (sim_sched two_events))\<rparr>"
  have "timed_run (\<lambda>m. \<not> abandons m) two_events ([] @ [(Some (''a'', 4, STEP_LIST SEQ_ACTIVE), 0)]) (0 + sim_advances two_events ?m) ?m"
    by (rule timed_more [OF timed_none _ two_events_step]) (simp add: abandons_def two_events_def)
  moreover have "sim_advances two_events ?m = 0" by (simp add: sim_advances_def)
  ultimately have "timed_run (\<lambda>m. \<not> abandons m) two_events [(Some (''a'', 4, STEP_LIST SEQ_ACTIVE), 0)] 0 ?m" by simp
  from simulation_conserves_events [OF this two_events_ok, THEN conjunct1, THEN spec, of 0]
  have "waiting two_events 0 \<subseteq># ran_at [(Some (''a'', 4, STEP_LIST SEQ_ACTIVE), 0)] 0 + waiting ?m 0"
    by (simp only: less_irrefl if_False diff_zero)
  moreover have "waiting two_events 0 = {#''a'', ''b''#}" "waiting ?m 0 = {#''b''#}"
    by (simp_all add: waiting_def two_events_def new_event_time_def step_mset_def promote_def)
  ultimately show ?thesis by simp
qed

text \<open>C29: A callback for the start of the current time step is never run: with nothing else to do, the loop releases the
  time step without running it.\<close>

theorem start_callback_for_now_lost:
  assumes "sim_phase m = P_LOOP" and "schedule_runnable (sim_sched m)" and "\<not> schedule_stopped_flag (sim_sched m)"
    and "sched_list s = []" and "schedule_at_start_of_simtime cur 0 s = Some (sim_sched m)"
    and "sim_run m [a, b, c, d] m'"
  shows "[a, b, c, d] = [None, None, None, None] \<and> sched_list (sim_sched m') = []"
  using start_for_now_lost [OF assms] by blast

theorem start_callback_for_now_lost_witness:
  "\<exists>m' :: string sim. sim_run \<lparr>sim_phase = P_LOOP, sim_run_finals = True,
      sim_sched = the (schedule_at_start_of_simtime ''cb'' 0 sched_init)\<rparr> [None, None, None, None] m'
    \<and> sched_list (sim_sched m') = []"
proof -
  define m :: "string sim" where "m = \<lparr>sim_phase = P_LOOP, sim_run_finals = True,
      sim_sched = the (schedule_at_start_of_simtime ''cb'' 0 sched_init)\<rparr>"
  let ?c = "(new_event_time 0)\<lparr>et_start := [''cb'']\<rparr>"
  have m: "sim_phase m = P_LOOP" "sim_sched m = sched_init\<lparr>sched_list := [?c]\<rparr>"
    by (simp_all add: m_def schedule_at_start_of_simtime_def with_list_def schedule_event_def put_event_def sched_init_def
        et_put_def et_queue_def new_event_time_def)
  have at: "schedule_at_start_of_simtime ''cb'' 0 sched_init = Some (sim_sched m)"
    by (simp add: m_def schedule_at_start_of_simtime_def with_list_def schedule_event_def put_event_def sched_init_def)
  obtain m1 where 1: "sim_step m None m1" "sim_phase m1 = P_ADVANCE" "sim_sched m1 = sim_sched m"
    using sim_step.loop_now [of m ?c "[]"] m by (fastforce simp: sched_init_def new_event_time_def)
  obtain m2 where 2: "sim_step m1 None m2" "sim_phase m2 = P_ROSYNC" "sched_list (sim_sched m2) = [?c]"
  proof (rule that)
    show "sim_step m1 None (m1\<lparr>sim_phase := P_ROSYNC, sim_sched := (upd_ctim promote (sim_sched m1))\<lparr>sim_at_rosync := True\<rparr>\<rparr>)"
      using 1 m by (intro sim_step.no_event [of m1 ?c "[]"]) (simp_all add: promote_def new_event_time_def)
  qed (simp_all add: 1 m upd_ctim_def promote_start_only)
  obtain m3 where 3: "sim_step m2 None m3" "sim_phase m3 = P_DEL_THR" "sched_list (sim_sched m3) = [?c]"
    using sim_step.rosync_done [of m2 ?c "[]"] 2 by (fastforce simp: new_event_time_def)
  obtain m4 where 4: "sim_step m3 None m4"
    using sim_step.del_thr_done [of m3 ?c "[]"] 3 by (fastforce simp: new_event_time_def)
  have run: "sim_run m [None, None, None, None] m4"
    using run_more [OF run_more [OF run_more [OF run_more [OF run_none 1(1)] 2(1)] 3(1)] 4] by simp
  have "sched_list (sim_sched m4) = []"
    using start_callback_for_now_lost [OF m(1) _ _ _ at run] m(2) by (simp add: sched_init_def)
  with run show ?thesis unfolding m_def by blast
qed

section \<open>Net functors\<close>

text \<open>C30: The gates with four inputs (and, or, exclusive or and their inverted forms).  Whatever messages arrive and whenever
  the scheduler runs the gate, it is in the queue at most once, and when it is not in the queue the last
  value it sent is the fold of its bit operator over the inputs it holds.  A message for a port replaces exactly
  that input.\<close>

theorem gates_settle:
  assumes "(oper, run) \<in> {(bit4_and, fun_and_run invert), (bit4_or, fun_or_run invert), (bit4_xor, fun_xor_run invert)}"
    and "deferred_functor.history (boolean_accepts n) boolean_recv run sent_vec4 (fun_boolean n) ops s k sent"
  shows "k \<le> 1 \<and> (k = 0 \<longrightarrow> sent = None \<and> gate_out oper invert (boolean_lists s) = gate_out oper invert (boolean_lists (fun_boolean n))
      \<or> sent = Some (gate_out oper invert (boolean_lists s)))
    \<and> (\<forall>p b. p < 4 \<longrightarrow> v4_inv b \<longrightarrow> v4_size b = n \<longrightarrow>
        (\<exists>s' acts. boolean_recv_vec4 p b s = Some (s', acts) \<and> boolean_lists s' = (boolean_lists s)[p := v4_list b]))"
proof -
  note new = fun_boolean_ok [of n]
  have "boolean_inv n s \<and> k = (if fb_net s then 1 else 0) \<and> (\<not> fb_net s \<longrightarrow> (case sent of
      None \<Rightarrow> gate_out oper invert (boolean_lists s) = gate_out oper invert (boolean_lists (fun_boolean n))
    | Some v \<Rightarrow> v = gate_out oper invert (boolean_lists s)))"
  proof -
    from assms(1) consider (1) "oper = bit4_and" "run = fun_and_run invert" | (2) "oper = bit4_or" "run = fun_or_run invert"
      | (3) "oper = bit4_xor" "run = fun_xor_run invert" by blast
    then show ?thesis
    proof cases
      case 1
      from and_gate.history_settled [OF assms(2) [unfolded 1] new] show ?thesis unfolding 1 .
    next
      case 2
      from or_gate.history_settled [OF assms(2) [unfolded 2] new] show ?thesis unfolding 2 .
    next
      case 3
      from xor_gate.history_settled [OF assms(2) [unfolded 3] new] show ?thesis unfolding 3 .
    qed
  qed
  with boolean_recv_stores [of n s] show ?thesis by (cases sent) auto
qed

theorem gates_settle_witness:
  "\<exists>s. and_gate.history 1 True (fun_boolean 1) [RECV (VEC4 0 (v4_fill 1 BIT4_0)), RUN] s 0 (Some [BIT4_1])
    \<and> gate_out bit4_and True (boolean_lists s) = [BIT4_1]"
proof -
  let ?m = "VEC4 0 (v4_fill 1 BIT4_0)"
  obtain s1 where 1: "boolean_recv ?m (fun_boolean 1) = Some (s1, [SCHEDULE_FUNCTOR])"
    and run: "map_option (\<lambda>(s2, acts). sent_vec4 acts) (fun_and_run True s1) = Some (Some [BIT4_1])"
    by (rule that [of "\<lparr>fb_input = v4_fill 1 BIT4_0 # replicate 3 (v4_fill 1 BIT4_Z), fb_net = True\<rparr>"]) code_simp+
  then obtain s2 acts where 2: "fun_and_run True s1 = Some (s2, acts)" "sent_vec4 acts = Some [BIT4_1]" by auto
  have "and_gate.history 1 True (fun_boolean 1) ([] @ [RECV ?m]) s1 (0 + count_list [SCHEDULE_FUNCTOR] SCHEDULE_FUNCTOR) None"
    by (rule and_gate.message [OF and_gate.start _ 1]) (simp add: v4_fill_inv)
  then have "and_gate.history 1 True (fun_boolean 1) ([RECV ?m] @ [RUN]) s2 0 (sent_vec4 acts)"
    by (intro and_gate.event [OF _ 2(1)]) simp
  then have h: "and_gate.history 1 True (fun_boolean 1) [RECV ?m, RUN] s2 0 (Some [BIT4_1])" using 2(2) by simp
  have "[BIT4_1] = gate_out bit4_and True (boolean_lists s2)"
    using gates_settle [OF _ h, of bit4_and True] by simp
  with h show ?thesis by auto
qed

text \<open>C31: The multiplexer.  It is in the queue at most once, and when it is not in the queue the last value it sent is chosen by the values that
  its ports were sent: with 0 on port 2 the value of port 0, with 1 the value of port 1, and with an unknown select the two blended bit by
  bit.  The value of a port is the vector sent to it last, with the parts that were sent since, and z before the first.\<close>

theorem multiplexer_settles:
  assumes "deferred_functor.history mux_accepts muxz_recv muxz_run sent_vec4 (fun_muxz n) ops s k (Some v)"
  shows "k \<le> 1 \<and> (k = 0 \<longrightarrow> v =
    (let a = port_value ops 0 (replicate n BIT4_Z); b = port_value ops 1 (replicate n BIT4_Z) in
     case hd (port_value ops 2 [BIT4_X]) of BIT4_0 \<Rightarrow> a | BIT4_1 \<Rightarrow> b | _ \<Rightarrow> blend a b))"
  using mux.history_settled [OF assms] mux_history_holds [OF assms]
  by (auto simp: fun_muxz_ok mux_out_def mux_holds_def select_of_def Let_def split: if_splits vvp_bit4_t.splits sel_type.splits)

theorem multiplexer_settles_witness:
  "\<exists>s. mux.history (fun_muxz 2) [RECV (VEC4 0 (v4_fill 2 BIT4_1)), RECV (VEC4 2 (v4_fill 1 BIT4_0)), RUN] s 0 (Some [BIT4_1, BIT4_1])
    \<and> port_value [RECV (VEC4 0 (v4_fill 2 BIT4_1)), RECV (VEC4 2 (v4_fill 1 BIT4_0)), RUN] 0 (replicate 2 BIT4_Z) = [BIT4_1, BIT4_1]"
proof -
  let ?m = "VEC4 0 (v4_fill 2 BIT4_1)" and ?c = "VEC4 2 (v4_fill 1 BIT4_0)"
  obtain s1 s2 where 1: "muxz_recv ?m (fun_muxz 2) = Some (s1, [SCHEDULE_FUNCTOR])" and 2: "muxz_recv ?c s1 = Some (s2, [])"
    and run: "map_option (\<lambda>(s3, acts). sent_vec4 acts) (muxz_run s2) = Some (Some [BIT4_1, BIT4_1])"
    by (rule that [of "(fun_muxz 2)\<lparr>mx_a := v4_fill 2 BIT4_1, mx_net := True\<rparr>"
          "(fun_muxz 2)\<lparr>mx_a := v4_fill 2 BIT4_1, mx_net := True, mx_select := SEL_PORT0\<rparr>"]) code_simp+
  from run obtain s3 acts where 3: "muxz_run s2 = Some (s3, acts)" "sent_vec4 acts = Some [BIT4_1, BIT4_1]" by auto
  have "mux.history (fun_muxz 2) ([] @ [RECV ?m]) s1 (0 + count_list [SCHEDULE_FUNCTOR] SCHEDULE_FUNCTOR) None"
    by (rule mux.message [OF mux.start _ 1]) (simp add: v4_fill_inv mux_accepts_def)
  then have "mux.history (fun_muxz 2) ([RECV ?m] @ [RECV ?c]) s2 (1 + count_list [] SCHEDULE_FUNCTOR) None"
    by (intro mux.message [OF _ _ 2]) (simp_all add: v4_fill_inv mux_accepts_def)
  then have "mux.history (fun_muxz 2) ([RECV ?m, RECV ?c] @ [RUN]) s3 0 (sent_vec4 acts)"
    by (intro mux.event [OF _ 3(1)]) simp
  then have h: "mux.history (fun_muxz 2) [RECV ?m, RECV ?c, RUN] s3 0 (Some [BIT4_1, BIT4_1])" using 3(2) by simp
  with multiplexer_settles [OF h] show ?thesis by (auto simp: v4_fill_list)
qed

text \<open>C32: The concatenation keeps every input in its slot: a message replaces the slot of its port and no other, and when
  the functor is not in the queue the last value it sent is the concatenation of the slots.\<close>

theorem concatenation_settles:
  fixes w0 w1 w2 w3 :: nat
  defines "ws \<equiv> [w0, w1, w2, w3]"
  assumes "deferred_functor.history (concat_accepts ws) concat_recv concat_run sent_vec4 (fun_concat w0 w1 w2 w3) ops s k sent"
  shows "k \<le> 1 \<and> (k = 0 \<longrightarrow> sent \<noteq> None \<longrightarrow> sent = Some (concat (map (\<lambda>p. slot ws p (v4_list (cc_val s))) [0..<4])))
    \<and> (\<forall>p b. p < 4 \<longrightarrow> v4_inv b \<longrightarrow> v4_size b = ws ! p \<longrightarrow> 0 < v4_size b \<longrightarrow> (\<exists>s' acts. concat_recv (VEC4 p b) s = Some (s', acts)
        \<and> (\<forall>q < 4. slot ws q (v4_list (cc_val s')) = (if q = p then v4_list b else slot ws q (v4_list (cc_val s))))))"
proof -
  have len: "length ws = 4" by (simp add: ws_def)
  have new: "concat_inv ws (fun_concat w0 w1 w2 w3)" "\<not> cc_net (fun_concat w0 w1 w2 w3)"
    by (simp_all add: concat_inv_def fun_concat_def ws_def v4_fill_inv)
  note h = concat_gate.history_settled [OF assms(2) new]
  then have s: "concat_inv ws s" by simp
  then have "concat (map (\<lambda>p. slot ws p (v4_list (cc_val s))) [0..<4]) = v4_list (cc_val s)"
    using concat_slots [of "v4_list (cc_val s)" ws] by (simp add: concat_inv_def len)
  moreover have "\<exists>s' acts. concat_recv (VEC4 p b) s = Some (s', acts)
      \<and> (\<forall>q < 4. slot ws q (v4_list (cc_val s')) = (if q = p then v4_list b else slot ws q (v4_list (cc_val s))))"
    if b: "p < 4" "v4_inv b" "v4_size b = ws ! p" "0 < v4_size b" for p b
    using concat_recv_slot [OF s b(2), of p] b len by (metis (no_types, lifting))
  ultimately show ?thesis using h by (cases sent) auto
qed

theorem concatenation_settles_witness:
  "\<exists>s. concat_recv (VEC4 1 (v4_fill 3 BIT4_1)) (fun_concat 2 3 1 1) = Some s
    \<and> slot [2, 3, 1, 1] 1 (v4_list (cc_val (fst s))) = [BIT4_1, BIT4_1, BIT4_1]"
proof -
  have "\<exists>s' acts. concat_recv (VEC4 1 (v4_fill 3 BIT4_1)) (fun_concat 2 3 1 1) = Some (s', acts)
      \<and> (\<forall>q < 4. slot [2, 3, 1, 1] q (v4_list (cc_val s'))
          = (if q = 1 then v4_list (v4_fill 3 BIT4_1) else slot [2, 3, 1, 1] q (v4_list (cc_val (fun_concat 2 3 1 1)))))"
    using concatenation_settles [OF concat_gate.start, THEN conjunct2, THEN conjunct2, rule_format, of 1 "v4_fill 3 BIT4_1" 2 3 1 1]
    by (simp add: v4_fill_inv)
  then show ?thesis by (auto simp: v4_fill_list numeral_eq_Suc)
qed



text \<open>C34: Division, remainder and power.  With an unknown bit in an operand or a zero divisor the result is x; otherwise it is the
  quotient rounded towards zero and the remainder with the sign of the dividend, signed or unsigned, and the
  power, modulo the width.  Two exceptions of the code are part of the statement: beyond 64 bits a divisor of magnitude 1 under a dividend above half the
  range gives 0, and beyond 32 bits a negative exponent gives 0 for every base.\<close>

theorem arith_division_power:
  assumes "arith_inv n s" and "0 < n"
  shows "gives (arith_div sg s) (div_spec sg n s) \<and> gives (arith_mod sg s) (mod_spec sg n s) \<and> gives (arith_pow sg s) (pow_spec sg n s)"
  using arith_div_mod [OF assms, of sg] arith_pow [OF assms, of sg] by simp

theorem arith_division_power_witness:
  "gives (arith_div True \<lparr>ar_wid = 4, ar_a = v4_of_small_int 4 (- 7), ar_b = v4_of_small_int 4 2\<rparr>) (bits_of 4 (- 3))"
proof -
  let ?s = "\<lparr>ar_wid = 4, ar_a = v4_of_small_int 4 (- 7), ar_b = v4_of_small_int 4 2\<rparr>"
  have "arith_inv 4 ?s" by code_simp
  moreover have "div_spec True 4 ?s = bits_of 4 (- 3)" by code_simp
  ultimately show ?thesis using arith_division_power [of 4 ?s True] by simp
qed

text \<open>C35: Addition, subtraction and multiplication are the operations modulo two to the width and the relational
  operators, greater and greater or equal, compare the unsigned or signed values, all with x for an unknown operand; case equality
  compares the bits; logical equality is 0 on a certain difference, else x on an unknown bit, else 1; the shifts move the bits by the
  distance, however wide.\<close>

theorem arith_modular_compare_shift:
  assumes "arith_inv n s" and "0 < n" and "n < 2 ^ 64"
  shows "gives (arith_sum s) (modular (+) n s) \<and> gives (arith_sub s) (modular (-) n s) \<and> gives (arith_mult s) (modular (*) n s)
    \<and> gives (cmp_ge sg s) [if known (ar_a s) \<and> known (ar_b s)
        then (if number sg (v4_list (ar_b s)) \<le> number sg (v4_list (ar_a s)) then BIT4_1 else BIT4_0) else BIT4_X]
    \<and> gives (cmp_gt sg s) [if known (ar_a s) \<and> known (ar_b s)
        then (if number sg (v4_list (ar_b s)) < number sg (v4_list (ar_a s)) then BIT4_1 else BIT4_0) else BIT4_X]
    \<and> gives (cmp_eeq s) [if v4_list (ar_a s) = v4_list (ar_b s) then BIT4_1 else BIT4_0]
    \<and> gives (cmp_eq s) [if \<exists>i < n. \<not> bit4_is_xz (v4_value (ar_a s) i) \<and> \<not> bit4_is_xz (v4_value (ar_b s) i)
        \<and> v4_value (ar_a s) i \<noteq> v4_value (ar_b s) i then BIT4_0 else if known (ar_a s) \<and> known (ar_b s) then BIT4_1 else BIT4_X]
    \<and> gives (arith_shiftl s) (if known (ar_b s) then shiftl_bits (v4_list (ar_a s)) (nat (bits_val (v4_list (ar_b s)))) else replicate n BIT4_X)
    \<and> gives (arith_shiftr sg s) (if known (ar_b s) then shiftr_bits sg (v4_list (ar_a s)) (nat (bits_val (v4_list (ar_b s))))
        else replicate n BIT4_X)"
proof -
  have i: "v4_inv (ar_a s)" "v4_inv (ar_b s)" "v4_size (ar_a s) = n" "ar_wid s = n" "v4_size (ar_b s) = n"
    using assms(1) by (simp_all add: arith_inv_def)
  then have len: "v4_size (ar_a s) = v4_size (ar_b s)" "length (v4_list (ar_a s)) = length (v4_list (ar_b s))" by simp_all
  have "gives (cmp_eeq s) [if v4_list (ar_a s) = v4_list (ar_b s) then BIT4_1 else BIT4_0]"
    using cmp_calc [OF len(1), of eeq_verdict BIT4_1 BIT4_0] unfolding cmp_eeq_def verdict_eeq(1) [OF len(2)] .
  moreover have "gives (cmp_eq s) [if \<exists>i < n. \<not> bit4_is_xz (v4_value (ar_a s) i) \<and> \<not> bit4_is_xz (v4_value (ar_b s) i)
        \<and> v4_value (ar_a s) i \<noteq> v4_value (ar_b s) i then BIT4_0 else if known (ar_a s) \<and> known (ar_b s) then BIT4_1 else BIT4_X]"
  proof -
    have ex: "(\<exists>i < length (v4_list (ar_a s)). \<not> bit4_is_xz (v4_list (ar_a s) ! i) \<and> \<not> bit4_is_xz (v4_list (ar_b s) ! i)
        \<and> v4_list (ar_a s) ! i \<noteq> v4_list (ar_b s) ! i) \<longleftrightarrow> (\<exists>i < n. \<not> bit4_is_xz (v4_value (ar_a s) i)
        \<and> \<not> bit4_is_xz (v4_value (ar_b s) i) \<and> v4_value (ar_a s) i \<noteq> v4_value (ar_b s) i)" using i(3,5) by auto
    have swap: "(if A \<or> B then x else y) = (if \<not> A \<and> \<not> B then y else x)" for A B and x y :: vvp_bit4_t by simp
    show ?thesis
      using cmp_calc [OF len(1), of eq_verdict BIT4_1 BIT4_0] unfolding cmp_eq_def verdict_eq [OF len(2)] known_def ex swap .
  qed
  ultimately show ?thesis
    using arith_sum_sub [OF assms(1)] arith_mult [OF assms(1,2)] cmp_gtge [OF assms(1,2), of BIT4_1 sg] cmp_gtge [OF assms(1,2), of BIT4_0 sg]
      arith_shiftl [OF i(1-4) assms(3)] arith_shiftr [OF i(1-4) assms(3), of sg]
    by (auto simp: cmp_ge_def cmp_gt_def order_bit_def split: if_splits)
qed

theorem arith_modular_compare_shift_witness:
  "gives (arith_sum \<lparr>ar_wid = 70, ar_a = v4_fill 70 BIT4_1, ar_b = v4_fill 70 BIT4_X\<rparr>) (replicate 70 BIT4_X)"
proof -
  let ?s = "\<lparr>ar_wid = 70, ar_a = v4_fill 70 BIT4_1, ar_b = v4_fill 70 BIT4_X\<rparr>"
  have "arith_inv 70 ?s" by (simp add: arith_inv_def v4_fill_inv)
  moreover have "modular (+) 70 ?s = replicate 70 BIT4_X" by (simp add: modular_def known_def v4_fill_list list_ex_iff)
  ultimately show ?thesis using arith_modular_compare_shift [of 70 ?s False] by simp
qed

section \<open>Nets with several drivers, buffers, switches and flip-flops\<close>

text \<open>C36: A net with several drivers.  Whatever values arrive at its ports, in any order, the net holds the tree of resolutions of the
  values last received, pulled by the resistive default where nothing else drives it, and the last message it sent, if any, has this value.\<close>

theorem tri_net_resolves:
  assumes "0 < n" and "UNAMBIG h" and "list_all (\<lambda>(p, v). p < n \<and> v8_inv v \<and> v8_size v = w) ms"
  shows "\<exists>s acts. port_run tri_recv_vec8 ms (resolv_tri_make n h) = Some (s, acts)
    \<and> tri_root s = map (pulled h) (tree_value resolve (last_received v8_list ms (replicate n [])))
    \<and> (if acts = [] then tri_root s = [] else sent_vec8 [last acts] = Some (tri_root s))"
proof -
  have m: "rt_nports (resolv_tri_make n h) = n" "rt_hiz_value (resolv_tri_make n h) = h" by (simp_all add: resolv_tri_make_def)
  from tri_net.run [of w "replicate n []" "resolv_tri_make n h" h ms] tri_new [OF assms(1,2), of w] assms(3) m
  obtain s acts where s: "port_run tri_recv_vec8 ms (resolv_tri_make n h) = Some (s, acts)" "tri_inv w (last_received v8_list ms (replicate n [])) s"
    "rt_hiz_value s = h" "if acts = [] then tri_root s = tri_root (resolv_tri_make n h) else sent_vec8 [last acts] = Some (tri_root s)"
    by (auto simp del: replicate_Suc)
  from tri_value [OF s(2)] s(3) have "tri_root s = map (pulled h) (tree_value resolve (last_received v8_list ms (replicate n [])))"
    by (simp add: tri_out_def tri_root_def)
  moreover have "tri_root (resolv_tri_make n h) = []"
    using assms(1) by (simp add: tri_root_def resolv_tri_make_def resolv_nnodes_root v8_list_def v8_make_def del: replicate_Suc)
  ultimately show ?thesis using s by auto
qed

theorem tri_net_resolves_witness:
  "\<exists>s acts. port_run tri_recv_vec8 [(0, \<lparr>v8_size = 1, v8_bytes = 0x55 # replicate 7 0\<rparr>), (4, \<lparr>v8_size = 1, v8_bytes = 0xee # replicate 7 0\<rparr>)] (resolv_tri_make 5 0) = Some (s, acts)
    \<and> tri_root s = [0xee] \<and> sent_vec8 [last acts] = Some [0xee]"
proof -
  let ?ms = "[(0 :: nat, \<lparr>v8_size = 1, v8_bytes = 0x55 # replicate 7 0\<rparr>), (4, \<lparr>v8_size = 1, v8_bytes = 0xee # replicate 7 0\<rparr>)]"
  have "list_all (\<lambda>(p, v). p < 5 \<and> v8_inv v \<and> v8_size v = 1) ?ms" by code_simp
  moreover have "map (pulled 0) (tree_value resolve (last_received v8_list ?ms (replicate 5 []))) = [0xee]" by code_simp
  moreover have "UNAMBIG 0" by code_simp
  ultimately show ?thesis using tri_net_resolves [of 5 0 1 ?ms] by (metis (no_types, lifting) list.distinct(1) zero_less_numeral)
qed

text \<open>C37: A wired-and or wired-or net holds the wired logic of all values last received at its ports, whatever its tree of ports, and the
  last message it sent, if any, has this value.\<close>

theorem wired_net_resolves:
  assumes "0 < n" and "f = triand_bit \<or> f = trior_bit" and "list_all (\<lambda>(p, v). p < n \<and> v4_inv v \<and> v4_size v = w) ms"
  shows "\<exists>s acts. port_run (wired_recv_vec4 f) ms (resolv_wired_make n) = Some (s, acts)
    \<and> wired_out s = foldl (merge f) [] (last_received v4_list ms (replicate n []))
    \<and> (if acts = [] then wired_out s = [] else sent_vec4 [last acts] = Some (wired_out s))"
proof -
  have m: "rw_nports (resolv_wired_make n) = n" by (simp add: resolv_wired_make_def)
  from wired_net.run [of f w "replicate n []" "resolv_wired_make n" ms] wired_new [OF assms(1), of f w] assms(3) m
  obtain s acts where s: "port_run (wired_recv_vec4 f) ms (resolv_wired_make n) = Some (s, acts)" "wired_inv f w (last_received v4_list ms (replicate n [])) s"
    "if acts = [] then wired_out s = wired_out (resolv_wired_make n) else sent_vec4 [last acts] = Some (wired_out s)"
    by (auto simp del: replicate_Suc)
  have "tree_value f xs = foldl (merge f) [] xs" for xs by (rule tree_value_fold) (use assms(2) wired_assoc in auto)
  moreover have "wired_out (resolv_wired_make n) = []"
    using assms(1) by (simp add: wired_out_def resolv_wired_make_def resolv_nnodes_root v4_fill_list del: replicate_Suc)
  ultimately show ?thesis using wired_value [OF s(2)] s by auto
qed

theorem wired_net_resolves_witness:
  "\<exists>s acts. port_run (wired_recv_vec4 triand_bit) [(0, v4_fill 2 BIT4_1), (5, v4_fill 2 BIT4_0), (3, v4_fill 2 BIT4_X)] (resolv_wired_make 6) = Some (s, acts)
    \<and> wired_out s = [BIT4_0, BIT4_0] \<and> sent_vec4 [last acts] = Some [BIT4_0, BIT4_0]"
proof -
  let ?ms = "[(0 :: nat, v4_fill 2 BIT4_1), (5, v4_fill 2 BIT4_0), (3, v4_fill 2 BIT4_X)]"
  have "list_all (\<lambda>(p, v). p < 6 \<and> v4_inv v \<and> v4_size v = 2) ?ms" by (simp add: v4_fill_inv)
  moreover have "foldl (merge triand_bit) [] (last_received v4_list ?ms (replicate 6 [])) = [BIT4_0, BIT4_0]" by code_simp
  ultimately show ?thesis using wired_net_resolves [of 6 triand_bit 2 ?ms] by (metis (no_types, lifting) list.distinct(1) zero_less_numeral)
qed

text \<open>C38: A three-state buffer never hides a drive.  A message on port 0 replaces the data and one on port 1 the enable, inverted as the kind of the
  buffer says.  For all that the data and the enable then may stand for, an unknown bit being either value,
  the bit sent covers the drive that results; and it covers no more, since both of its ends are possible.\<close>

theorem bufif_covers_drives:
  assumes "drive0 \<le> 7" and "drive1 \<le> 7" and "v4_inv b" and "p \<le> 1"
  shows "let s' = (if p = 0 then s\<lparr>bi_bit := (if invert then v4_not b else b)\<rparr> else s\<lparr>bi_en := (if pol then v4_not b else b)\<rparr>) in
    \<exists>out. bufif_recv_vec4 pol invert drive0 drive1 p b s = Some (s', [SEND_VEC8 out]) \<and> v8_size out = v4_size b
    \<and> (\<forall>i < v4_size b. let drives = bufif_drives drive0 drive1 (v4_value (bi_en s') i) (v4_value (bi_bit s') i) in
        (\<forall>z. drives z \<longrightarrow> covers (v8_at out i) z) \<and> drives (sv0 (v8_at out i)) \<and> drives (sv1 (v8_at out i)))"
proof -
  define s' where "s' = (if p = 0 then s\<lparr>bi_bit := (if invert then v4_not b else b)\<rparr> else s\<lparr>bi_en := (if pol then v4_not b else b)\<rparr>)"
  obtain out where out: "bufif_recv_vec4 pol invert drive0 drive1 p b s = Some (s', [SEND_VEC8 out])" "v8_inv out"
    "v8_list out = map (\<lambda>i. the (bufif_bit drive0 drive1 (v4_value (bi_en s') i) (v4_value (bi_bit s') i))) [0..<v4_size b]"
    by (rule bufif_sends [OF assms s'_def])
  have n: "v8_size out = v4_size b" using arg_cong [OF out(3), of length] out(2) by simp
  have "let drives = bufif_drives drive0 drive1 (v4_value (bi_en s') i) (v4_value (bi_bit s') i) in
      (\<forall>z. drives z \<longrightarrow> covers (v8_at out i) z) \<and> drives (sv0 (v8_at out i)) \<and> drives (sv1 (v8_at out i))" if i: "i < v4_size b" for i
  proof -
    have "v8_at out i = the (bufif_bit drive0 drive1 (v4_value (bi_en s') i) (v4_value (bi_bit s') i))"
      using arg_cong [OF out(3), of "\<lambda>l. l ! i"] i n by simp
    moreover obtain x where "bufif_bit drive0 drive1 (v4_value (bi_en s') i) (v4_value (bi_bit s') i) = Some x"
      "\<forall>z. bufif_drives drive0 drive1 (v4_value (bi_en s') i) (v4_value (bi_bit s') i) z \<longrightarrow> covers x z"
      "bufif_drives drive0 drive1 (v4_value (bi_en s') i) (v4_value (bi_bit s') i) (sv0 x)"
      "bufif_drives drive0 drive1 (v4_value (bi_en s') i) (v4_value (bi_bit s') i) (sv1 x)" by (rule bufif_bit_range [OF assms(1,2)]) blast
    ultimately show ?thesis by (simp add: Let_def)
  qed
  with out(1) n show ?thesis unfolding s'_def [symmetric] Let_def by blast
qed

theorem bufif_covers_drives_witness:
  "\<exists>out. bufif_recv_vec4 True False 6 6 1 (v4_fill 1 BIT4_X) \<lparr>bi_bit = v4_fill 1 BIT4_1, bi_en = v4_fill 1 BIT4_1\<rparr>
    = Some (\<lparr>bi_bit = v4_fill 1 BIT4_1, bi_en = v4_not (v4_fill 1 BIT4_X)\<rparr>, [SEND_VEC8 out]) \<and> v8_size out = 1"
  using bufif_covers_drives [of 6 6 "v4_fill 1 BIT4_X" 1 False "\<lparr>bi_bit = v4_fill 1 BIT4_1, bi_en = v4_fill 1 BIT4_1\<rparr>" True] v4_fill_inv [of 1 BIT4_X]
  by (auto simp: Let_def)



text \<open>C40: A flip-flop that is enabled and not under its asynchronous input schedules, for every change of its clock to the active level, the data
  it held at the time, and nothing else.\<close>

theorem dff_captures_edges:
  assumes "df_ena s = BIT4_1" and "df_asc s = BIT4_0" and "list_all (\<lambda>(p, b). p = 0 \<or> p = 1 \<and> v4_size b = 1) ms"
  shows "\<exists>s'. dff_run k ms s = Some (s', map (SCHEDULE_PROPAGATE 0) (captures (df_clk_active s) (df_clk s) (df_d s) ms))"
  by (rule dff_captures [OF assms(1,2)]) (use assms(3) in \<open>auto simp: list_all_iff\<close>)

theorem dff_captures_edges_witness:
  "\<exists>s'. dff_run DFF [(1, v4_fill 1 BIT4_0), (0, v4_fill 3 BIT4_1), (1, v4_fill 1 BIT4_1), (1, v4_fill 1 BIT4_1)]
    \<lparr>df_clk_active = BIT4_1, df_clk = BIT4_X, df_ena = BIT4_1, df_asc = BIT4_0, df_d = v4_fill 3 BIT4_0\<rparr> = Some (s', [SCHEDULE_PROPAGATE 0 (v4_fill 3 BIT4_1)])"
proof -
  let ?ms = "[(1 :: nat, v4_fill 1 BIT4_0), (0, v4_fill 3 BIT4_1), (1, v4_fill 1 BIT4_1), (1, v4_fill 1 BIT4_1)]"
  let ?s = "\<lparr>df_clk_active = BIT4_1, df_clk = BIT4_X, df_ena = BIT4_1, df_asc = BIT4_0, df_d = v4_fill 3 BIT4_0\<rparr>"
  have "list_all (\<lambda>(p, b). p = 0 \<or> p = 1 \<and> v4_size b = 1) ?ms" by code_simp
  moreover have "captures BIT4_1 BIT4_X (v4_fill 3 BIT4_0) ?ms = [v4_fill 3 BIT4_1]" by code_simp
  ultimately show ?thesis using dff_captures_edges [of ?s ?ms DFF] by simp
qed

section \<open>Division in threads\<close>



end
